(* ===== verification/CB_Prelude.thy ===== *)
theory CB_Prelude
  imports Main "HOL-Library.Word" "HOL-Library.Monad_Syntax"
begin

section \<open>Shared vocabulary: bytes, C memory reads and writes, C strings\<close>

text \<open>
  The daemons modelled in this development are C programs that read and write byte
  buffers.  This theory fixes how the model writes that down:
  \<^item> a byte is an 8-bit word, a buffer is a list of bytes;
  \<^item> a read or a write outside its buffer is undefined behaviour in C.  Such an access is
    the value \<open>None\<close> of the functions \<open>peek\<close> and \<open>poke\<close>, and a routine that
    performs one returns \<open>None\<close> itself, so that memory safety is the statement that a
    routine returns \<open>Some\<close>;
  \<^item> a NUL-terminated string in a buffer is what \<open>cstr\<close> reads from it; a buffer that
    holds no NUL has no string, and reading one runs past its end;
  \<^item> the ctype functions are those of the C locale.
\<close>

unbundle bit_operations_syntax

named_theorems memsafe \<open>facts that a routine performs no out-of-range access\<close>
named_theorems lens \<open>facts about the length of a buffer after an operation\<close>

type_synonym byte = "8 word"
type_synonym u16 = "16 word"
type_synonym u32 = "32 word"
type_synonym bytes = "byte list"

subsection \<open>Reads and writes\<close>

definition peek :: "'a list \<Rightarrow> nat \<Rightarrow> 'a option" where
  "peek m i = (if i < length m then Some (m ! i) else None)"

definition poke :: "'a list \<Rightarrow> nat \<Rightarrow> 'a \<Rightarrow> 'a list option" where
  "poke m i v = (if i < length m then Some (m[i := v]) else None)"

lemma peek_Some [simp, memsafe]: "i < length m \<Longrightarrow> peek m i = Some (m ! i)"
  by (simp add: peek_def)

lemma peek_eq_Some_iff: "peek m i = Some v \<longleftrightarrow> i < length m \<and> v = m ! i"
  by (auto simp: peek_def)

lemma peek_eq_None_iff: "peek m i = None \<longleftrightarrow> length m \<le> i"
  by (auto simp: peek_def)

lemma poke_Some [simp, memsafe]: "i < length m \<Longrightarrow> poke m i v = Some (m[i := v])"
  by (simp add: poke_def)

lemma poke_eq_Some_iff: "poke m i v = Some m' \<longleftrightarrow> i < length m \<and> m' = m[i := v]"
  by (auto simp: poke_def)

lemma length_poke [lens]: "poke m i v = Some m' \<Longrightarrow> length m' = length m"
  by (simp add: poke_eq_Some_iff)

lemma option_bind_eq_Some_iff:
  "(m \<bind> f) = Some r \<longleftrightarrow> (\<exists>x. m = Some x \<and> f x = Some r)"
  by (cases m) auto

subsection \<open>Network byte order\<close>

definition ntohs2 :: "byte \<Rightarrow> byte \<Rightarrow> u16" where
  "ntohs2 hi lo = push_bit 8 (ucast hi) OR ucast lo"

definition be16 :: "u16 \<Rightarrow> bytes" where
  "be16 w = [ucast (drop_bit 8 w), ucast w]"

definition ntohl4 :: "byte \<Rightarrow> byte \<Rightarrow> byte \<Rightarrow> byte \<Rightarrow> u32" where
  "ntohl4 a b c d =
     push_bit 24 (ucast a) OR push_bit 16 (ucast b) OR push_bit 8 (ucast c) OR ucast d"

definition be32 :: "u32 \<Rightarrow> bytes" where
  "be32 w = [ucast (drop_bit 24 w), ucast (drop_bit 16 w), ucast (drop_bit 8 w), ucast w]"

definition peek16 :: "bytes \<Rightarrow> nat \<Rightarrow> u16 option" where
  "peek16 m i = do { hi \<leftarrow> peek m i; lo \<leftarrow> peek m (i + 1); Some (ntohs2 hi lo) }"

definition peek32 :: "bytes \<Rightarrow> nat \<Rightarrow> u32 option" where
  "peek32 m i = do {
     a \<leftarrow> peek m i; b \<leftarrow> peek m (i + 1); c \<leftarrow> peek m (i + 2); d \<leftarrow> peek m (i + 3);
     Some (ntohl4 a b c d) }"

text \<open>\<open>poke16\<close> stores a 16-bit value in network order, as \<open>p[k] = htons(v)\<close> does.\<close>

definition poke16 :: "bytes \<Rightarrow> nat \<Rightarrow> u16 \<Rightarrow> bytes option" where
  "poke16 m i v = do { m1 \<leftarrow> poke m i (ucast (drop_bit 8 v)); poke m1 (i + 1) (ucast v) }"

lemma length_be16 [simp]: "length (be16 w) = 2"
  by (simp add: be16_def)

lemma length_be32 [simp]: "length (be32 w) = 4"
  by (simp add: be32_def)

lemma ntohs2_be16 [simp]: "ntohs2 (ucast (drop_bit 8 w)) (ucast (w :: u16)) = w"
  unfolding ntohs2_def
  by (rule bit_eqI) (auto simp: bit_or_iff bit_push_bit_iff bit_ucast_iff bit_drop_bit_eq)

lemma peek16_Some [simp, memsafe]:
  "i + 1 < length m \<Longrightarrow> peek16 m i = Some (ntohs2 (m ! i) (m ! (i + 1)))"
  by (simp add: peek16_def)

lemma peek16_Some_Suc [simp]:
  "Suc i < length m \<Longrightarrow> peek16 m i = Some (ntohs2 (m ! i) (m ! Suc i))"
  using peek16_Some by simp

lemma peek32_Some [simp, memsafe]:
  "i + 3 < length m \<Longrightarrow>
     peek32 m i = Some (ntohl4 (m ! i) (m ! (i + 1)) (m ! (i + 2)) (m ! (i + 3)))"
  by (simp add: peek32_def)

lemma poke16_Some [simp, memsafe]:
  "i + 1 < length m \<Longrightarrow>
     poke16 m i v = Some (m[i := ucast (drop_bit 8 v), i + 1 := ucast v])"
  by (simp add: poke16_def)

lemma length_poke16 [lens]: "poke16 m i v = Some m' \<Longrightarrow> length m' = length m"
  by (auto simp: poke16_def option_bind_eq_Some_iff dest!: length_poke)

lemma peek16_append_be16: "peek16 (xs @ be16 w @ ys) (length xs) = Some w"
  by (simp add: be16_def nth_append)

subsection \<open>C strings\<close>

definition cstr :: "bytes \<Rightarrow> bytes option" where
  "cstr m = (if 0 \<in> set m then Some (takeWhile (\<lambda>b. b \<noteq> 0) m) else None)"

lemma cstr_append_NUL [simp]: "0 \<notin> set s \<Longrightarrow> cstr (s @ 0 # r) = Some s"
  by (induction s) (auto simp: cstr_def)

lemma cstr_peek0: "cstr m = Some s \<Longrightarrow> peek m 0 = Some (if s = [] then 0 else hd s) \<and> (s \<noteq> [] \<longrightarrow> hd s \<noteq> 0)"
  by (cases m) (auto simp: cstr_def split: if_splits)

lemma cstr_no_NUL: "cstr m = Some s \<Longrightarrow> 0 \<notin> set s"
  by (auto simp: cstr_def dest: set_takeWhileD split: if_splits)

lemma cstr_length: "cstr m = Some s \<Longrightarrow> length s < length m"
proof -
  assume s: "cstr m = Some s"
  then have "0 \<in> set m" and "s = takeWhile (\<lambda>b. b \<noteq> 0) m"
    by (auto simp: cstr_def split: if_splits)
  then show ?thesis
    by (metis (mono_tags, lifting) length_takeWhile_le le_neq_implies_less set_takeWhileD
        takeWhile_eq_take take_all_iff order_refl)
qed

lemma cstr_decomp: "cstr m = Some s \<Longrightarrow> \<exists>r. m = s @ 0 # r"
proof -
  assume s: "cstr m = Some s"
  then have z: "0 \<in> set m" and st: "s = takeWhile (\<lambda>b. b \<noteq> 0) m"
    by (auto simp: cstr_def split: if_splits)
  have "dropWhile (\<lambda>b. b \<noteq> 0) m \<noteq> []"
    using z by auto
  then obtain x r where d: "dropWhile (\<lambda>b. b \<noteq> 0) m = x # r"
    by (cases "dropWhile (\<lambda>b. b \<noteq> 0) m") auto
  then have "x = 0"
    by (metis (mono_tags, lifting) dropWhile_eq_Cons_conv)
  with d st show ?thesis
    by (metis takeWhile_dropWhile_id)
qed

definition bytes_of :: "string \<Rightarrow> bytes" where
  "bytes_of s = map of_char s"

subsection \<open>The ctype functions of the C locale\<close>

definition isupper :: "byte \<Rightarrow> bool" where
  "isupper c \<longleftrightarrow> 65 \<le> c \<and> c \<le> 90"

definition islower :: "byte \<Rightarrow> bool" where
  "islower c \<longleftrightarrow> 97 \<le> c \<and> c \<le> 122"

definition isdigit :: "byte \<Rightarrow> bool" where
  "isdigit c \<longleftrightarrow> 48 \<le> c \<and> c \<le> 57"

definition isspace :: "byte \<Rightarrow> bool" where
  "isspace c \<longleftrightarrow> c = 32 \<or> (9 \<le> c \<and> c \<le> 13)"

definition tolower :: "byte \<Rightarrow> byte" where
  "tolower c = (if isupper c then c + 32 else c)"

definition toupper :: "byte \<Rightarrow> byte" where
  "toupper c = (if islower c then c - 32 else c)"

lemmas ctype_defs = isupper_def islower_def isdigit_def isspace_def tolower_def toupper_def

lemma tolower_not_upper [simp]: "\<not> isupper (tolower c)"
proof (cases "isupper c")
  case True
  then have "65 \<le> unat c" and "unat c \<le> 90"
    by (auto simp: isupper_def word_le_nat_alt)
  then have "unat (c + 32) = unat c + 32"
    by (simp add: unat_word_ariths)
  with \<open>65 \<le> unat c\<close> True show ?thesis
    by (simp add: tolower_def) (simp add: isupper_def word_le_nat_alt)
next
  case False
  then show ?thesis by (simp add: tolower_def)
qed

lemma tolower_idem [simp]: "tolower (tolower c) = tolower c"
  using tolower_not_upper [of c] by (simp add: tolower_def [of "tolower c"])

lemma tolower_eq_0_iff [simp]: "tolower c = 0 \<longleftrightarrow> c = 0"
proof -
  have "isupper c \<Longrightarrow> c + 32 \<noteq> 0"
  proof
    assume u: "isupper c" and z: "c + 32 = 0"
    from u have "unat c \<le> 90"
      by (auto simp: isupper_def word_le_nat_alt)
    then have "unat (c + 32) = unat c + 32"
      by (simp add: unat_word_ariths)
    with z show False by simp
  qed
  then show ?thesis
    by (auto simp: tolower_def) (simp add: isupper_def)
qed

text \<open>\<open>strcmp(a, b) == 0\<close> is equality of the two strings; \<open>strcasecmp\<close> compares after
  lower-casing.\<close>

definition strcaseeq :: "bytes \<Rightarrow> bytes \<Rightarrow> bool" where
  "strcaseeq a b \<longleftrightarrow> map tolower a = map tolower b"

text \<open>\<open>atoi\<close>: white space, an optional sign, digits; the value is unbounded here, a text
  whose value does not fit an \<open>int\<close> is undefined in C.\<close>

fun digits_value :: "int \<Rightarrow> bytes \<Rightarrow> int" where
  "digits_value acc [] = acc"
| "digits_value acc (c # cs) =
     (if isdigit c then digits_value (acc * 10 + (uint c - 48)) cs else acc)"

definition atoi :: "bytes \<Rightarrow> int" where
  "atoi s = (case dropWhile isspace s of
     [] \<Rightarrow> 0
   | c # cs \<Rightarrow> if c = 45 then - digits_value 0 cs
               else if c = 43 then digits_value 0 cs else digits_value 0 (c # cs))"

lemma digits_value_nonneg: "0 \<le> acc \<Longrightarrow> 0 \<le> digits_value acc s"
proof (induction acc s rule: digits_value.induct)
  case (2 acc c cs)
  have "isdigit c \<Longrightarrow> 48 \<le> uint c" by (auto simp: isdigit_def word_le_def)
  with 2 show ?case by auto
qed simp

text \<open>\<open>fgets(buf, size, f)\<close>: at most \<open>size - 1\<close> bytes, up to and including a newline.
  What the parsers see of the buffer is the text before its first NUL.\<close>

fun fgets :: "nat \<Rightarrow> bytes \<Rightarrow> bytes \<times> bytes" where
  "fgets 0 cs = ([], cs)"
| "fgets (Suc n) [] = ([], [])"
| "fgets (Suc n) (c # cs) =
     (if c = 10 then ([c], cs) else (let (l, r) = fgets n cs in (c # l, r)))"

lemma fgets_length: "fgets n cs = (l, r) \<Longrightarrow> length l + length r = length cs"
  by (induction n cs arbitrary: l r rule: fgets.induct) (auto split: if_splits prod.splits)

lemma fgets_nonempty: "fgets (Suc n) (c # cs) = (l, r) \<Longrightarrow> l \<noteq> []"
  by (auto split: if_splits prod.splits)

function file_lines :: "nat \<Rightarrow> bytes \<Rightarrow> bytes list" where
  "file_lines bsize content =
     (if content = [] \<or> bsize < 2 then []
      else (let (l, r) = fgets (bsize - 1) content
            in takeWhile (\<lambda>c. c \<noteq> 0) l # file_lines bsize r))"
  by pat_completeness auto
termination
proof (relation "measure (length \<circ> snd)", goal_cases)
  case 1
  show ?case by simp
next
  case (2 bsize content p l r)
  then obtain c cs n where "content = c # cs" "bsize - 1 = Suc n"
    by (cases content; cases "bsize - 1") auto
  with 2 have "fgets (Suc n) (c # cs) = (l, r)" by simp
  from fgets_nonempty [OF this] fgets_length [OF this] \<open>content = c # cs\<close> show ?case by (cases l) auto
qed

declare file_lines.simps [simp del]

lemma fgets_line: "10 \<notin> set l \<Longrightarrow> length l < n \<Longrightarrow> fgets n (l @ 10 # r) = (l @ [10], r)"
proof (induction l arbitrary: n)
  case Nil
  then show ?case by (cases n) auto
next
  case (Cons c l)
  then show ?case by (cases n) auto
qed

lemma file_lines_concat:
  "\<forall>l \<in> set ls. 10 \<notin> set l \<and> length l + 1 < n \<Longrightarrow>
   file_lines n (concat (map (\<lambda>l. l @ [10]) ls)) = map (\<lambda>l. takeWhile (\<lambda>c. c \<noteq> 0) (l @ [10])) ls"
proof (induction ls)
  case (Cons l ls)
  then have "fgets (n - 1) (l @ 10 # concat (map (\<lambda>l. l @ [10]) ls)) = (l @ [10], concat (map (\<lambda>l. l @ [10]) ls))"
    by (intro fgets_line) auto
  then show ?case using Cons by (subst file_lines.simps) simp
qed (simp add: file_lines.simps)

text \<open>Times before 2038: the signed difference is the exact one.\<close>

lemma sint_diff_small:
  fixes a b :: u32
  assumes "uint a < 2 ^ 31" and "uint b < 2 ^ 31"
  shows "sint (a - b) = uint a - uint b"
proof -
  have "- (2 ^ 31) \<le> uint w" for w :: u32 by (rule order_trans [of _ 0]) simp_all
  then have nn: "- (2 ^ 31) \<le> uint a" "- (2 ^ 31) \<le> uint b" "0 \<le> uint a" "0 \<le> uint b" by simp_all
  have "signed_take_bit 31 (uint a) = uint a" "signed_take_bit 31 (uint b) = uint b"
    unfolding signed_take_bit_int_eq_self_iff using nn assms by blast+
  then have s: "sint a = uint a" "sint b = uint b" by (simp_all add: sint_uint)
  have "- (2 ^ 31) \<le> uint a - uint b" "uint a - uint b < 2 ^ 31" using nn assms by linarith+
  then have "signed_take_bit 31 (uint a - uint b) = uint a - uint b"
    unfolding signed_take_bit_int_eq_self_iff by blast
  then show ?thesis by (simp add: sint_word_ariths s)
qed

subsection \<open>Lists\<close>

lemma nth_list_update_append:
  "i < length xs \<Longrightarrow> (xs @ ys)[i := v] = xs[i := v] @ ys"
  by (simp add: list_update_append)

lemma list_update_at_length [simp]: "(xs @ y # ys)[length xs := v] = xs @ v # ys"
  by (induction xs) auto

lemma take_update_ge [simp]: "n \<le> i \<Longrightarrow> take n (xs[i := v]) = take n xs"
  by (simp add: take_update_cancel)

subsection \<open>Iterating a fallible step\<close>

primrec foldM :: "('a \<Rightarrow> 's \<Rightarrow> 's option) \<Rightarrow> 'a list \<Rightarrow> 's \<Rightarrow> 's option" where
  "foldM f [] s = Some s"
| "foldM f (x # xs) s = (case f x s of None \<Rightarrow> None | Some s' \<Rightarrow> foldM f xs s')"

lemma foldM_append: "foldM f (xs @ ys) s = (case foldM f xs s of None \<Rightarrow> None | Some s' \<Rightarrow> foldM f ys s')"
  by (induction xs arbitrary: s) (auto split: option.split)

subsection \<open>Interface: a collection of nodes that can be extended and unlinked\<close>

text \<open>
  The contract between a linked list in memory and the code that owns it: the list has an
  order (\<open>nodes\<close>), every node carries data (\<open>item\<close>), adding a fresh node puts it last,
  and unlinking a node removes exactly it and disturbs no other node.  The provider proves the
  laws once; the lemmas below, on removing several nodes, are what the clients use.
\<close>

locale node_list =
  fixes invar :: "'s \<Rightarrow> bool"
    and nodes :: "'s \<Rightarrow> 'a list"
    and item :: "'s \<Rightarrow> 'a \<Rightarrow> 'b"
    and fresh :: "'s \<Rightarrow> 'a \<Rightarrow> bool"
    and add :: "'a \<Rightarrow> 's \<Rightarrow> 's option"
    and unlink :: "'a \<Rightarrow> 's \<Rightarrow> 's option"
  assumes nodes_distinct: "invar s \<Longrightarrow> distinct (nodes s)"
    and add_law: "invar s \<Longrightarrow> fresh s a \<Longrightarrow>
      \<exists>s'. add a s = Some s' \<and> invar s' \<and> nodes s' = nodes s @ [a] \<and>
           (\<forall>b \<in> set (nodes s). item s' b = item s b)"
    and unlink_law: "invar s \<Longrightarrow> a \<in> set (nodes s) \<Longrightarrow>
      \<exists>s'. unlink a s = Some s' \<and> invar s' \<and> nodes s' = remove1 a (nodes s) \<and>
           (\<forall>b \<in> set (nodes s'). item s' b = item s b)"
begin

lemma unlink_filter:
  assumes "invar s" and "a \<in> set (nodes s)"
  shows "\<exists>s'. unlink a s = Some s' \<and> invar s' \<and> nodes s' = filter (\<lambda>b. b \<noteq> a) (nodes s) \<and>
           (\<forall>b \<in> set (nodes s'). item s' b = item s b)"
proof -
  have "remove1 a (nodes s) = filter (\<lambda>b. b \<noteq> a) (nodes s)"
    using distinct_remove1_removeAll [OF nodes_distinct [OF assms(1)], of a]
    by (simp add: removeAll_filter_not_eq) (metis (mono_tags, lifting))
  with unlink_law [OF assms] show ?thesis by simp
qed

lemma unlink_all:
  assumes "invar s" and "set as \<subseteq> set (nodes s)" and "distinct as"
  shows "\<exists>s'. foldM unlink as s = Some s' \<and> invar s' \<and>
           nodes s' = filter (\<lambda>b. b \<notin> set as) (nodes s) \<and>
           (\<forall>b \<in> set (nodes s'). item s' b = item s b)"
  using assms
proof (induction as arbitrary: s)
  case Nil
  then show ?case by simp
next
  case (Cons a as)
  obtain s1 where s1: "unlink a s = Some s1" "invar s1" "nodes s1 = filter (\<lambda>b. b \<noteq> a) (nodes s)"
    "\<forall>b \<in> set (nodes s1). item s1 b = item s b"
    using unlink_filter [of s a] Cons.prems by auto
  have "set as \<subseteq> set (nodes s1)" "distinct as" using Cons.prems s1(3) by auto
  then obtain s2 where s2: "foldM unlink as s1 = Some s2" "invar s2"
    "nodes s2 = filter (\<lambda>b. b \<notin> set as) (nodes s1)" "\<forall>b \<in> set (nodes s2). item s2 b = item s1 b"
    using Cons.IH [OF s1(2)] by blast
  have "nodes s2 = filter (\<lambda>b. b \<notin> set (a # as)) (nodes s)"
    using s2(3) s1(3) by (simp add: conj_commute)
  moreover have "\<forall>b \<in> set (nodes s2). item s2 b = item s b" using s1(3,4) s2(3,4) by auto
  ultimately show ?case using s1 s2 by simp
qed

lemma length_unlink_all:
  assumes "invar s" and "set as \<subseteq> set (nodes s)" and "distinct as"
    and "foldM unlink as s = Some s'"
  shows "length (nodes s') = length (nodes s) - length as"
proof -
  have "nodes s' = filter (\<lambda>b. b \<notin> set as) (nodes s)" using unlink_all [OF assms(1-3)] assms(4) by auto
  moreover have "distinct (filter (\<lambda>b. b \<notin> set as) (nodes s))"
    by (rule distinct_filter [OF nodes_distinct [OF assms(1)]])
  ultimately have "length (nodes s') = card (set (nodes s) - set as)"
    by (metis (mono_tags, lifting) distinct_card set_diff_eq set_filter Collect_cong)
  then show ?thesis
    using assms(2,3) nodes_distinct [OF assms(1)] by (simp add: card_Diff_subset distinct_card)
qed

end

end
