(* ===== verification/Dnrd_Lib.thy ===== *)
theory Dnrd_Lib
  imports CB_Prelude
begin

section \<open>dnrd: the string library (lib.c)\<close>

text \<open>
  The helpers of \<^verbatim>\<open>dnrd-2.20.3/src/lib.c\<close> on NUL-terminated strings.  A string is the
  list of its bytes before the NUL.  A function that edits its argument in place returns the
  edited string, a function that advances a cursor \<open>char **from\<close> returns the rest of the
  text.  The lemmas show what the parsers of master.c and the lookups of cache.c rely on: words
  hold no blanks and fit their buffer, and the hash \<open>get_stringcode\<close> never separates two
  names that \<open>strcasecmp\<close> identifies.
\<close>

subsection \<open>Case conversion\<close>

fun strnlwr_loop :: "nat \<Rightarrow> nat \<Rightarrow> bytes \<Rightarrow> bytes" where
  "strnlwr_loop i maxlen [] = []"
| "strnlwr_loop i maxlen (c # cs) =
     (if i \<le> maxlen then tolower c # strnlwr_loop (Suc i) maxlen cs else c # cs)"

definition strnlwr :: "bytes \<Rightarrow> nat \<Rightarrow> bytes" where
  "strnlwr string maxlen = strnlwr_loop 0 maxlen string"

fun strnupr_loop :: "nat \<Rightarrow> nat \<Rightarrow> bytes \<Rightarrow> bytes" where
  "strnupr_loop i maxlen [] = []"
| "strnupr_loop i maxlen (c # cs) =
     (if i \<le> maxlen then toupper c # strnupr_loop (Suc i) maxlen cs else c # cs)"

definition strnupr :: "bytes \<Rightarrow> nat \<Rightarrow> bytes" where
  "strnupr string maxlen = strnupr_loop 0 maxlen string"

subsection \<open>Words and blanks\<close>

fun skip_ws :: "bytes \<Rightarrow> bytes" where
  "skip_ws [] = []"
| "skip_ws (c # cs) = (if c = 32 \<or> c = 9 then skip_ws cs else c # cs)"

fun strnlen :: "bytes \<Rightarrow> nat \<Rightarrow> nat" where
  "strnlen [] maxlen = 0"
| "strnlen (c # cs) 0 = 0"
| "strnlen (c # cs) (Suc m) = Suc (strnlen cs m)"

text \<open>\<open>noctrln\<close> walks back from the end and overwrites control characters by NUL; the
  loop returns the number of bytes left in front of the last one overwritten.\<close>

fun noctrln_loop :: "bytes \<Rightarrow> nat \<Rightarrow> nat" where
  "noctrln_loop p 0 = 0"
| "noctrln_loop p (Suc i) = (if p ! i \<le> 32 then noctrln_loop p i else Suc i)"

definition noctrln :: "bytes \<Rightarrow> nat \<Rightarrow> bytes" where
  "noctrln buffer maxlen =
     (let len = strnlen buffer maxlen; k = noctrln_loop buffer len
      in if k = len then buffer else take k buffer)"

fun skip_ctrl :: "bytes \<Rightarrow> bytes" where
  "skip_ctrl [] = []"
| "skip_ctrl (c # cs) = (if c \<le> 32 then skip_ctrl cs else c # cs)"

fun get_word_loop :: "bytes \<Rightarrow> nat \<Rightarrow> nat \<Rightarrow> bytes \<times> bytes" where
  "get_word_loop [] k maxlen = ([], [])"
| "get_word_loop (c # cs) k maxlen =
     (if c = 32 \<or> c = 9 \<or> c < 32 then (c # cs, [])
      else if k + 2 < maxlen
           then (let (from, w) = get_word_loop cs (Suc k) maxlen in (from, c # w))
           else get_word_loop cs k maxlen)"

text \<open>The result is the advanced cursor and the word; \<open>maxlen -= 2\<close> of the source is the
  \<open>k + 2 < maxlen\<close> of the loop.\<close>

definition get_word :: "bytes \<Rightarrow> nat \<Rightarrow> bytes \<times> bytes" where
  "get_word from maxlen = get_word_loop (skip_ctrl from) 0 maxlen"

fun get_quoted_loop :: "bytes \<Rightarrow> byte \<Rightarrow> nat \<Rightarrow> nat \<Rightarrow> bytes \<times> bytes" where
  "get_quoted_loop [] delim k maxn = ([], [])"
| "get_quoted_loop (c # cs) delim k maxn =
     (if c = delim then (cs, [])
      else if k + 2 < maxn
           then (let (from, w) = get_quoted_loop cs delim (Suc k) maxn in (from, c # w))
           else get_quoted_loop cs delim k maxn)"

definition get_quoted :: "bytes \<Rightarrow> byte \<Rightarrow> nat \<Rightarrow> bytes \<times> bytes" where
  "get_quoted from delim maxn = get_quoted_loop from delim 0 maxn"

definition copy_string :: "bytes \<Rightarrow> nat \<Rightarrow> bytes" where
  "copy_string x len =
     (let z = skip_ws x;
          z' = noctrln z (len + (length x - length z))
      in if len - 2 \<le> length z' then take (len - 2) z' else z')"

subsection \<open>The string hash\<close>

fun stringcode_loop :: "bytes \<Rightarrow> u32 \<Rightarrow> u32" where
  "stringcode_loop [] code = code"
| "stringcode_loop (c # cs) code =
     stringcode_loop cs (code + ucast (if isupper c then tolower c else c))"

definition get_stringcode :: "bytes \<Rightarrow> u32" where
  "get_stringcode string =
     (stringcode_loop string 0 AND 0xFF) + push_bit 8 (of_nat (length string))"

subsection \<open>Properties\<close>

lemma strnlen_eq [simp]: "strnlen s m = min (length s) m"
  by (induction s m rule: strnlen.induct) auto

lemma strnlwr_loop_eq:
  "strnlwr_loop i m s = map tolower (take (Suc m - i) s) @ drop (Suc m - i) s"
proof (induction i m s rule: strnlwr_loop.induct)
  case (1 i maxlen)
  then show ?case by simp
next
  case (2 i maxlen c cs)
  then show ?case by (cases "i \<le> maxlen") (simp_all add: Suc_diff_le)
qed

lemma strnlwr_eq: "strnlwr s m = map tolower (take (Suc m) s) @ drop (Suc m) s"
  by (simp add: strnlwr_def strnlwr_loop_eq)

lemma length_strnlwr [simp]: "length (strnlwr s m) = length s"
  by (simp add: strnlwr_eq)

lemma strnlwr_short: "length s \<le> Suc m \<Longrightarrow> strnlwr s m = map tolower s"
  by (simp add: strnlwr_eq)

lemma strnlwr_no_NUL: "0 \<notin> set s \<Longrightarrow> 0 \<notin> set (strnlwr s m)"
proof -
  assume "0 \<notin> set s"
  then have "0 \<notin> set (take (Suc m) s)" and "0 \<notin> set (drop (Suc m) s)"
    by (auto dest: in_set_takeD in_set_dropD)
  then show ?thesis by (auto simp: strnlwr_eq)
qed

lemma skip_ws_suffix: "\<exists>p. s = p @ skip_ws s \<and> (\<forall>c \<in> set p. c = 32 \<or> c = 9)"
proof (induction s)
  case Nil
  then show ?case by simp
next
  case (Cons c s)
  then obtain p where p: "s = p @ skip_ws s" "\<forall>c \<in> set p. c = 32 \<or> c = 9"
    by blast
  show ?case
  proof (cases "c = 32 \<or> c = 9")
    case True
    with p show ?thesis by (intro exI [of _ "c # p"]) auto
  next
    case False
    then show ?thesis by (intro exI [of _ "[]"]) auto
  qed
qed

lemma length_skip_ws: "length (skip_ws s) \<le> length s"
  by (induction s) auto

lemma noctrln_loop_le: "noctrln_loop p n \<le> n"
  by (induction n) auto

lemma noctrln_loop_last:
  "noctrln_loop p n \<noteq> 0 \<Longrightarrow> 32 < p ! (noctrln_loop p n - 1)"
  by (induction n) (auto simp: not_le)

text \<open>A line that fits its buffer comes back with no trailing control character.\<close>

lemma noctrln_last:
  assumes "length s \<le> m" and "noctrln s m \<noteq> []"
  shows "32 < last (noctrln s m)"
proof -
  let ?k = "noctrln_loop s (length s)"
  have eq: "noctrln s m = take ?k s"
    using assms(1) noctrln_loop_le [of s "length s"] by (simp add: noctrln_def Let_def min_def)
  with assms(2) have "?k \<noteq> 0" and "s \<noteq> []" by auto
  moreover have "?k \<le> length s" by (rule noctrln_loop_le)
  ultimately have "last (take ?k s) = s ! (?k - 1)"
    by (simp add: last_conv_nth min_def)
  with eq noctrln_loop_last \<open>?k \<noteq> 0\<close> show ?thesis by simp
qed

lemma length_noctrln: "length (noctrln s m) \<le> length s"
  by (simp add: noctrln_def Let_def)

lemma skip_ctrl_suffix: "\<exists>p. s = p @ skip_ctrl s"
proof (induction s)
  case (Cons c s)
  then obtain p where "s = p @ skip_ctrl s" by blast
  then show ?case
    by (cases "c \<le> 32") (auto intro: exI [of _ "c # p"] exI [of _ "[]"])
qed simp

lemma get_word_loop_length:
  "get_word_loop s k m = (r, w) \<Longrightarrow> k + 2 \<le> m \<Longrightarrow> k + length w + 2 \<le> m"
proof (induction s k m arbitrary: r w rule: get_word_loop.induct)
  case (2 c cs k maxlen)
  then show ?case by (fastforce split: if_splits prod.splits)
qed simp

lemma get_word_loop_chars:
  "get_word_loop s k m = (r, w) \<Longrightarrow> c \<in> set w \<Longrightarrow> 32 < c \<and> c \<in> set s"
proof (induction s k m arbitrary: r w rule: get_word_loop.induct)
  case (2 d cs k maxlen)
  have "\<not> (d = 32 \<or> d = 9 \<or> d < 32) \<Longrightarrow> 32 < d" by (auto simp: not_less)
  with 2 show ?case by (fastforce split: if_splits prod.splits)
qed simp

lemma get_word_loop_rest:
  "get_word_loop s k m = (r, w) \<Longrightarrow>
     \<exists>t. s = t @ r \<and> (\<forall>c \<in> set t. 32 < c) \<and> (r = [] \<or> hd r \<le> 32)"
proof (induction s k m arbitrary: r w rule: get_word_loop.induct)
  case (2 d cs k maxlen)
  show ?case
  proof (cases "d = 32 \<or> d = 9 \<or> d < 32")
    case True
    with 2 show ?thesis by (auto intro: exI [of _ "[]"])
  next
    case False
    then have d: "32 < d" by (auto simp: not_less)
    have "\<exists>w'. get_word_loop cs (if k + 2 < maxlen then Suc k else k) maxlen = (r, w')"
      using "2.prems" False by (auto split: if_splits prod.splits)
    then obtain t where "cs = t @ r" "\<forall>c \<in> set t. 32 < c" "r = [] \<or> hd r \<le> 32"
      using "2.IH" False by (auto split: if_splits)
    with d show ?thesis by (intro exI [of _ "d # t"]) auto
  qed
qed simp

lemma get_word_length: "get_word s m = (r, w) \<Longrightarrow> 2 \<le> m \<Longrightarrow> length w + 2 \<le> m"
  using get_word_loop_length [of "skip_ctrl s" 0 m r w] by (simp add: get_word_def)

lemma get_word_chars: "get_word s m = (r, w) \<Longrightarrow> c \<in> set w \<Longrightarrow> 32 < c"
  using get_word_loop_chars [of "skip_ctrl s" 0 m r w c] by (auto simp: get_word_def)

lemma length_skip_ctrl: "length (skip_ctrl s) \<le> length s"
  by (induction s) auto

lemma get_word_rest_length: "get_word s m = (r, w) \<Longrightarrow> length r \<le> length s"
  using get_word_loop_rest [of "skip_ctrl s" 0 m r w] length_skip_ctrl [of s]
  by (auto simp: get_word_def)

lemma get_word_loop_Nil: "get_word_loop s k m = (r, w) \<Longrightarrow> w \<noteq> [] \<Longrightarrow> length r < length s"
proof (induction s k m arbitrary: r w rule: get_word_loop.induct)
  case (2 d cs k maxlen)
  have "\<exists>t. cs = t @ r'" if "get_word_loop cs k' maxlen = (r', w')" for k' r' w'
    using get_word_loop_rest [OF that] by blast
  with "2.prems" show ?case
    by (fastforce split: if_splits prod.splits)
qed simp

text \<open>A non-empty word consumes input, so a loop over the words of a line ends.\<close>

lemma get_word_progress: "get_word s m = (r, w) \<Longrightarrow> w \<noteq> [] \<Longrightarrow> length r < length s"
  using get_word_loop_Nil [of "skip_ctrl s" 0 m r w] length_skip_ctrl [of s]
  by (simp add: get_word_def)

lemma upper_tolower: "(if isupper c then tolower c else c) = tolower c"
  by (simp add: tolower_def)

lemma stringcode_loop_map: "stringcode_loop s code = stringcode_loop (map tolower s) code"
  by (induction s arbitrary: code) (simp_all add: upper_tolower)

lemma get_stringcode_caseeq: "strcaseeq a b \<Longrightarrow> get_stringcode a = get_stringcode b"
  unfolding strcaseeq_def get_stringcode_def
  by (subst (1 2) stringcode_loop_map) (metis length_map)

end
