(* ===== verification/Dnrd_Dns.thy ===== *)
theory Dnrd_Dns
  imports Dnrd_Lib
begin

section \<open>dnrd: DNS packets (dns.c, dns.h, check.c, and the name helpers of common.c)\<close>

text \<open>
  The decoder that every packet from the network passes through.  A packet is the buffer
  \<open>msg\<close> together with the number \<open>len\<close> of bytes received into it; \<open>None\<close> is an
  access outside a buffer.

  \<open>get_objname\<close> writes the decoded name into \<open>dest\<close>; for the root name it executes
  \<open>dest[-1] = 0\<close>, so the model carries the byte \<open>below\<close> the destination as well.  In
  \<open>rr_t\<close> that byte is the high byte of \<open>flags\<close> (the structure is laid out
  \<open>flags, name, ...\<close> and the targets are little endian).

  The main results: the decoder stays inside its buffers on every packet, it terminates, and
  it succeeds exactly on the well-formed names of RFC 1035 (relation \<open>name_at\<close>), with the
  dotted name as its result.
\<close>

subsection \<open>Header flags (dns.h)\<close>

definition PACKET_DATABEGIN :: nat where "PACKET_DATABEGIN = 12"
definition UDP_MAXSIZE :: nat where "UDP_MAXSIZE = 512"
definition DNS_CLASS_INET :: u16 where "DNS_CLASS_INET = 1"

definition MASK_RCODE :: u16 where "MASK_RCODE = 0x000f"
definition MASK_Z :: u16 where "MASK_Z = 0x0040"
definition MASK_RA :: u16 where "MASK_RA = 0x0080"
definition MASK_RD :: u16 where "MASK_RD = 0x0100"
definition MASK_TC :: u16 where "MASK_TC = 0x0200"
definition MASK_AA :: u16 where "MASK_AA = 0x0400"
definition MASK_OPCODE :: u16 where "MASK_OPCODE = 0xe800"
definition MASK_QR :: u16 where "MASK_QR = 0x8000"

definition GET_RCODE :: "u16 \<Rightarrow> u16" where "GET_RCODE x = (x AND MASK_RCODE)"
definition GET_Z :: "u16 \<Rightarrow> u16" where "GET_Z x = drop_bit 4 (x AND MASK_Z)"
definition GET_RA :: "u16 \<Rightarrow> u16" where "GET_RA x = drop_bit 7 (x AND MASK_RA)"
definition GET_RD :: "u16 \<Rightarrow> u16" where "GET_RD x = drop_bit 8 (x AND MASK_RD)"
definition GET_TC :: "u16 \<Rightarrow> u16" where "GET_TC x = drop_bit 9 (x AND MASK_TC)"
definition GET_AA :: "u16 \<Rightarrow> u16" where "GET_AA x = drop_bit 10 (x AND MASK_AA)"
definition GET_OPCODE :: "u16 \<Rightarrow> u16" where "GET_OPCODE x = drop_bit 11 (x AND MASK_OPCODE)"
definition GET_QR :: "u16 \<Rightarrow> u16" where "GET_QR x = drop_bit 15 (x AND MASK_QR)"

definition SET_RCODE :: "u16 \<Rightarrow> u16 \<Rightarrow> u16" where
  "SET_RCODE x y = ((x AND NOT MASK_RCODE) OR (y AND MASK_RCODE))"
definition SET_AA :: "u16 \<Rightarrow> u16 \<Rightarrow> u16" where
  "SET_AA x y = ((x AND NOT MASK_AA) OR (push_bit 10 y AND MASK_AA))"
definition SET_QR :: "u16 \<Rightarrow> u16 \<Rightarrow> u16" where
  "SET_QR x y = ((x AND NOT MASK_QR) OR (push_bit 15 y AND MASK_QR))"

lemmas mask_defs = MASK_RCODE_def MASK_Z_def MASK_RA_def MASK_RD_def MASK_TC_def MASK_AA_def
  MASK_OPCODE_def MASK_QR_def
lemmas flag_defs = mask_defs GET_RCODE_def GET_Z_def GET_RA_def GET_RD_def GET_TC_def GET_AA_def
  GET_OPCODE_def GET_QR_def SET_RCODE_def SET_AA_def SET_QR_def

subsection \<open>Records and headers\<close>

record rr_t =
  rr_flags :: u16
  rr_name :: bytes
  rr_type :: u16
  rr_class :: u16
  rr_ttl :: u32
  rr_len :: nat
  rr_data :: bytes

text \<open>The counts of \<open>dnsheader_t\<close> are \<open>short\<close>: they are read with \<open>sint\<close>.
  \<open>here\<close> and \<open>rdata\<close> are the offsets of those pointers into \<open>packet\<close>.\<close>

record dnsheader_t =
  hd_id :: u16
  hd_u :: u16
  qdcount :: u16
  ancount :: u16
  nscount :: u16
  arcount :: u16
  here :: nat
  packet :: bytes
  plen :: nat
  rdata :: "nat option"

definition RR_NAMESIZE :: nat where "RR_NAMESIZE = 256"

definition alloc_packet :: "bytes \<Rightarrow> nat \<Rightarrow> bytes option" where
  "alloc_packet pkt len = (if len \<le> length pkt then Some (take len pkt @ [0, 0]) else None)"

definition decode_header :: "bytes \<Rightarrow> nat \<Rightarrow> dnsheader_t option" where
  "decode_header pkt len = do {
     p \<leftarrow> alloc_packet pkt len;
     p0 \<leftarrow> peek16 p 0; p1 \<leftarrow> peek16 p 2; p2 \<leftarrow> peek16 p 4;
     p3 \<leftarrow> peek16 p 6; p4 \<leftarrow> peek16 p 8; p5 \<leftarrow> peek16 p 10;
     Some \<lparr>hd_id = p0, hd_u = p1, qdcount = p2, ancount = p3, nscount = p4, arcount = p5,
           here = 12, packet = p, plen = len, rdata = None\<rparr> }"

definition parse_packet :: "bytes \<Rightarrow> nat \<Rightarrow> dnsheader_t option" where
  "parse_packet pkt len = decode_header pkt len"

subsection \<open>Names\<close>

definition init_dns :: "byte \<Rightarrow> byte \<Rightarrow> bool" where
  "init_dns tolerant_mode c \<longleftrightarrow>
     tolerant_mode \<noteq> 0 \<or> (48 \<le> c \<and> c \<le> 57) \<or> (65 \<le> c \<and> c \<le> 90) \<or> (97 \<le> c \<and> c \<le> 122) \<or> c = 45"

text \<open>The inner loop: copies \<open>n\<close> bytes of a label, \<open>False\<close> on an invalid character.\<close>

fun copy_label :: "(byte \<Rightarrow> bool) \<Rightarrow> bytes \<Rightarrow> nat \<Rightarrow> bytes \<Rightarrow> nat \<Rightarrow> nat \<Rightarrow> (bool \<times> bytes) option" where
  "copy_label vc msg i dest j 0 = Some (True, dest)"
| "copy_label vc msg i dest j (Suc n) =
     (case peek msg i of None \<Rightarrow> None
      | Some b \<Rightarrow> if vc b then (case poke dest j b of None \<Rightarrow> None
                               | Some d \<Rightarrow> copy_label vc msg (Suc i) d (Suc j) n)
                 else Some (False, dest))"

text \<open>The end of \<open>get_objname\<close>: \<open>--j\<close>, the terminating NUL, and the return value.\<close>

definition objname_finish ::
  "nat \<Rightarrow> nat \<Rightarrow> nat \<Rightarrow> nat \<Rightarrow> byte \<Rightarrow> bytes \<Rightarrow> (int \<times> byte \<times> bytes) option" where
  "objname_finish destsize i j compressed below dest =
     (let ret = int (if compressed \<noteq> 0 then compressed else i) in
      case j of
        0 \<Rightarrow> Some (ret, 0, dest)
      | Suc j' \<Rightarrow> if destsize \<le> j' then Some (-1, below, dest)
                 else (case poke dest j' 0 of None \<Rightarrow> None | Some d \<Rightarrow> Some (ret, below, d)))"

definition is_ptr :: "byte \<Rightarrow> bool" where
  "is_ptr c \<longleftrightarrow> c AND 0xc0 = 0xc0"

definition ptr_target :: "byte \<Rightarrow> byte \<Rightarrow> nat" where
  "ptr_target c lo = unat (c AND 0x3f) * 256 + unat lo"

function objname_loop ::
  "(byte \<Rightarrow> bool) \<Rightarrow> bytes \<Rightarrow> nat \<Rightarrow> nat \<Rightarrow> nat \<Rightarrow> nat \<Rightarrow> nat \<Rightarrow> nat \<Rightarrow> byte \<Rightarrow> bytes \<Rightarrow>
   (int \<times> byte \<times> bytes) option" where
  "objname_loop vc msg msgsize destsize i j depth compressed below dest =
     (case peek msg i of
        None \<Rightarrow> None
      | Some c \<Rightarrow>
          if c = 0 then objname_finish destsize (i + 1) j compressed below dest
          else if msgsize \<le> i + 1 then Some (-1, below, dest)
          else if is_ptr c then
            (if msgsize \<le> depth + 1 \<or> UDP_MAXSIZE < depth + 1 then Some (-1, below, dest)
             else (case peek msg (i + 1) of
                     None \<Rightarrow> None
                   | Some lo \<Rightarrow>
                       if msgsize \<le> ptr_target c lo then Some (-1, below, dest)
                       else objname_loop vc msg msgsize destsize (ptr_target c lo) j (depth + 1)
                              (if compressed = 0 then i + 2 else compressed) below dest))
          else if c < 64 then
            (if destsize \<le> j + unat c + 1 \<or> msgsize \<le> i + 1 + unat c
             then Some (-1, below, dest)
             else (case copy_label vc msg (i + 1) dest j (unat c) of
                     None \<Rightarrow> None
                   | Some (False, d) \<Rightarrow> Some (-1, below, d)
                   | Some (True, d) \<Rightarrow>
                       (case poke d (j + unat c) 46 of
                          None \<Rightarrow> None
                        | Some d' \<Rightarrow>
                            objname_loop vc msg msgsize destsize (i + 1 + unat c) (j + unat c + 1)
                              depth compressed below d')))
          else Some (-1, below, dest))"
  by pat_completeness auto
termination
  by (relation "measure (\<lambda>(vc, msg, msgsize, destsize, i, j, depth, compressed, below, dest).
                   (UDP_MAXSIZE - depth) + (destsize - j))") auto

declare objname_loop.simps [simp del]

definition get_objname ::
  "(byte \<Rightarrow> bool) \<Rightarrow> bytes \<Rightarrow> nat \<Rightarrow> int \<Rightarrow> byte \<Rightarrow> bytes \<Rightarrow> nat \<Rightarrow> (int \<times> byte \<times> bytes) option" where
  "get_objname vc msg msgsize index below dest destsize =
     (if index < int PACKET_DATABEGIN \<or> int msgsize \<le> index then Some (-1, below, dest)
      else objname_loop vc msg msgsize destsize (nat index) 0 0 0 below dest)"

definition malformatted :: bytes where
  "malformatted = bytes_of ''(malformatted)''"

text \<open>\<open>strncpy(dest, s, n)\<close>: at most \<open>n\<close> bytes, padded with NULs, no terminator added
  when \<open>s\<close> is longer.\<close>

definition strncpy :: "bytes \<Rightarrow> bytes \<Rightarrow> nat \<Rightarrow> bytes option" where
  "strncpy dest s n =
     (if n \<le> length dest then Some (take n (s @ replicate n 0) @ drop n dest) else None)"

definition snprintf_cname ::
  "(byte \<Rightarrow> bool) \<Rightarrow> bytes \<Rightarrow> nat \<Rightarrow> int \<Rightarrow> byte \<Rightarrow> bytes \<Rightarrow> nat \<Rightarrow> (int \<times> byte \<times> bytes) option" where
  "snprintf_cname vc msg msgsize index below dest destsize = do {
     (r, b, d) \<leftarrow> get_objname vc msg msgsize index below dest destsize;
     if r < 0 then do { d' \<leftarrow> strncpy d malformatted destsize; Some (-1, b, d') }
     else Some (0, b, d) }"

text \<open>The high byte of the 16-bit flags is the byte below \<open>name\<close> in \<open>rr_t\<close>.\<close>

definition flags_hi :: "u16 \<Rightarrow> byte" where
  "flags_hi f = ucast (drop_bit 8 f)"

definition set_flags_hi :: "u16 \<Rightarrow> byte \<Rightarrow> u16" where
  "set_flags_hi f b = ntohs2 b (ucast f)"

subsection \<open>Resource records\<close>

definition read_record ::
  "(byte \<Rightarrow> bool) \<Rightarrow> dnsheader_t \<Rightarrow> rr_t \<Rightarrow> int \<Rightarrow> bool \<Rightarrow> nat \<Rightarrow> (int \<times> rr_t) option" where
  "read_record vc x y index question packetsize = do {
     (r, b, nm) \<leftarrow> get_objname vc (packet x) packetsize index
                     (flags_hi (rr_flags y)) (rr_name y) RR_NAMESIZE;
     let y1 = y\<lparr>rr_flags := set_flags_hi (rr_flags y) b, rr_name := nm\<rparr>;
     if r < 0 \<or> int packetsize < r + 4 then Some (-1, y1)
     else do {
       let i = nat r;
       ty \<leftarrow> peek16 (packet x) i;
       cl \<leftarrow> peek16 (packet x) (i + 2);
       let y2 = y1\<lparr>rr_type := ty, rr_class := cl\<rparr>;
       if question then Some (int (i + 4), y2)
       else if packetsize < i + 10 then Some (-1, y2)
       else do {
         ttl \<leftarrow> peek32 (packet x) (i + 4);
         rl \<leftarrow> peek16 (packet x) (i + 8);
         let i' = i + 10;
         let len = unat rl;
         let y3 = y2\<lparr>rr_ttl := ttl, rr_len := len\<rparr>;
         if packetsize < i' + len then Some (-1, y3)
         else do {
           let len' = (if RR_NAMESIZE - 4 < len then RR_NAMESIZE - 4 else len);
           (if i' + len' \<le> length (packet x) \<and> len' < length (rr_data y3)
            then Some (int (i' + len'),
                       y3\<lparr>rr_len := len',
                          rr_data := take len' (drop i' (packet x)) @ 0 # drop (Suc len') (rr_data y3)\<rparr>)
            else None) } } } }"

text \<open>\<open>dump_dnspacket\<close> prints the records it walks over; the model returns the records
  printed.  The three record sections share one loop.\<close>

fun dump_section ::
  "(byte \<Rightarrow> bool) \<Rightarrow> dnsheader_t \<Rightarrow> nat \<Rightarrow> nat \<Rightarrow> int \<Rightarrow> rr_t \<Rightarrow> rr_t list \<Rightarrow>
   (int \<times> rr_t \<times> rr_t list) option" where
  "dump_section vc x len 0 index y out = Some (index, y, out)"
| "dump_section vc x len (Suc n) index y out =
     (case read_record vc x y index False len of
        None \<Rightarrow> None
      | Some (r, y') \<Rightarrow> if r < 0 then Some (-1, y', out)
                        else dump_section vc x len n r y' (out @ [y']))"

definition short_count :: "u16 \<Rightarrow> nat" where
  "short_count c = nat (sint c)"

definition dump_dnspacket ::
  "nat \<Rightarrow> (byte \<Rightarrow> bool) \<Rightarrow> rr_t \<Rightarrow> bytes \<Rightarrow> nat \<Rightarrow> (int \<times> rr_t list) option" where
  "dump_dnspacket opt_debug vc y0 pkt len =
     (if opt_debug < 4 then Some (0, [])
      else do {
        x \<leftarrow> decode_header pkt len;
        (q, y) \<leftarrow> read_record vc x y0 (int PACKET_DATABEGIN) True len;
        if q < 0 then Some (-1, [])
        else do {
          (i1, y1, out1) \<leftarrow> dump_section vc x len (short_count (ancount x)) q y [y];
          if i1 < 0 then Some (-1, out1)
          else do {
            (i2, y2, out2) \<leftarrow> dump_section vc x len (short_count (nscount x)) i1 y1 out1;
            if i2 < 0 then Some (-1, out2)
            else do {
              (i3, y3, out3) \<leftarrow> dump_section vc x len (short_count (arcount x)) i2 y2 out2;
              Some (if i3 < 0 then (-1, out3) else (0, out3)) } } } })"

subsection \<open>Queries\<close>

text \<open>The string operations at the end of \<open>parse_query\<close> on the name buffer: drop one
  trailing dot, then lower-case.  \<open>strlen\<close> needs a NUL in the buffer.\<close>

definition strip_dot :: "bytes \<Rightarrow> bytes" where
  "strip_dot s = (if s \<noteq> [] \<and> last s = 46 then butlast s else s)"

definition normalise_name :: "bytes \<Rightarrow> bytes option" where
  "normalise_name nm = do {
     s \<leftarrow> cstr nm;
     let s' = strip_dot s;
     Some (strnlwr s' RR_NAMESIZE @ 0 # drop (Suc (length s')) nm) }"

definition parse_query ::
  "(byte \<Rightarrow> bool) \<Rightarrow> rr_t \<Rightarrow> bytes \<Rightarrow> nat \<Rightarrow> (int \<times> rr_t) option" where
  "parse_query vc y msg len = do {
     qd \<leftarrow> peek16 msg 4;
     if qd = 0 then Some (-1, y)
     else do {
       fl \<leftarrow> peek16 msg 2;
       (r, b, nm) \<leftarrow> get_objname vc msg len (int PACKET_DATABEGIN) (flags_hi fl) (rr_name y) RR_NAMESIZE;
       let y1 = y\<lparr>rr_flags := set_flags_hi fl b, rr_name := nm\<rparr>;
       if r < 0 then Some (-1, y1)
       else if int len < r + 4 then Some (-1, y1)
       else do {
         let i = nat r;
         ty \<leftarrow> peek16 msg i;
         cl \<leftarrow> peek16 msg (i + 2);
         nm' \<leftarrow> normalise_name nm;
         Some (0, y1\<lparr>rr_type := ty, rr_class := cl, rr_name := nm'\<rparr>) } } }"

subsection \<open>Sanity checks (check.c)\<close>

definition check_query :: "bytes \<Rightarrow> nat \<Rightarrow> int option" where
  "check_query msg len = do {
     flags \<leftarrow> peek16 msg 2;
     Some (if len < 12 then -1
           else if UDP_MAXSIZE < len then -1
           else if flags AND MASK_Z \<noteq> 0 then -1
           else if flags AND MASK_QR \<noteq> 0 then -1
           else 0) }"

definition check_reply :: "bytes \<Rightarrow> nat \<Rightarrow> int option" where
  "check_reply msg len = do {
     flags \<leftarrow> peek16 msg 2;
     Some (if len < 12 then -1
           else if flags AND MASK_Z \<noteq> 0 then -1
           else if \<not> (flags AND MASK_QR \<noteq> 0) then -1
           else 0) }"

subsection \<open>The decoder stays inside its buffers\<close>

lemma copy_label_cases:
  assumes "i + n \<le> length msg" and "j + n \<le> length dest"
  shows "\<exists>d. length d = length dest \<and> copy_label vc msg i dest j n =
           Some (list_all vc (take n (drop i msg)), d) \<and>
           (list_all vc (take n (drop i msg)) \<longrightarrow>
              d = take j dest @ take n (drop i msg) @ drop (j + n) dest)"
  using assms
proof (induction n arbitrary: i j dest)
  case 0
  then show ?case by simp
next
  case (Suc n)
  let ?d = "dest[j := msg ! i]"
  have hd: "take (Suc n) (drop i msg) = msg ! i # take n (drop (Suc i) msg)"
    using Suc.prems by (simp add: take_Suc_conv_app_nth Cons_nth_drop_Suc [symmetric])
  show ?case
  proof (cases "vc (msg ! i)")
    case False
    with Suc.prems hd show ?thesis by simp
  next
    case True
    have "Suc i + n \<le> length msg" and "Suc j + n \<le> length ?d" using Suc.prems by auto
    from Suc.IH [OF this] obtain d where d: "length d = length ?d"
      "copy_label vc msg (Suc i) ?d (Suc j) n = Some (list_all vc (take n (drop (Suc i) msg)), d)"
      "list_all vc (take n (drop (Suc i) msg)) \<longrightarrow>
         d = take (Suc j) ?d @ take n (drop (Suc i) msg) @ drop (Suc j + n) ?d"
      by blast
    have "take (Suc j) ?d = take j dest @ [msg ! i]"
      using Suc.prems by (simp add: take_Suc_conv_app_nth)
    moreover have "drop (Suc j + n) ?d = drop (j + Suc n) dest"
      by (simp add: drop_update_cancel)
    ultimately show ?thesis using True Suc.prems d hd by (intro exI [of _ d]) auto
  qed
qed

lemma objname_finish_safe:
  "destsize \<le> length dest \<Longrightarrow>
     \<exists>r b d. objname_finish destsize i j compressed below dest = Some (r, b, d) \<and>
             length d = length dest \<and> (r = -1 \<and> b = below \<or> 0 \<le> r)"
  by (auto simp: objname_finish_def Let_def split: nat.split)

lemma objname_loop_safe:
  assumes "i < msgsize" and "msgsize \<le> length msg" and "destsize \<le> length dest"
  shows "\<exists>r b d. objname_loop vc msg msgsize destsize i j depth compressed below dest =
           Some (r, b, d) \<and> length d = length dest \<and> (r = -1 \<and> b = below \<or> 0 \<le> r)"
  using assms
proof (induction vc msg msgsize destsize i j depth compressed below dest rule: objname_loop.induct)
  case (1 vc msg msgsize destsize i j depth compressed below dest)
  let ?c = "msg ! i"
  have pk: "peek msg i = Some ?c" using "1.prems" by simp
  note step = objname_loop.simps [of vc msg msgsize destsize i j depth compressed below dest]
  consider (fin) "?c = 0" | (short) "?c \<noteq> 0" "msgsize \<le> i + 1"
    | (ptr) "?c \<noteq> 0" "\<not> msgsize \<le> i + 1" "is_ptr ?c"
    | (lab) "?c \<noteq> 0" "\<not> msgsize \<le> i + 1" "\<not> is_ptr ?c" "?c < 64"
    | (bad) "?c \<noteq> 0" "\<not> msgsize \<le> i + 1" "\<not> is_ptr ?c" "\<not> ?c < 64"
    by blast
  then show ?case
  proof cases
    case fin
    then show ?thesis using pk objname_finish_safe "1.prems" by (simp add: step)
  next
    case ptr
    then have lo: "peek msg (i + 1) = Some (msg ! (i + 1))" using "1.prems" by simp
    show ?thesis
    proof (cases "msgsize \<le> depth + 1 \<or> UDP_MAXSIZE < depth + 1 \<or>
                  msgsize \<le> ptr_target ?c (msg ! (i + 1))")
      case True
      then show ?thesis using ptr pk lo by (auto simp: step)
    next
      case False
      then show ?thesis using ptr pk lo "1.prems" "1.IH"(1) [OF pk _ _ _ _ lo] by (auto simp: step)
    qed
  next
    case lab
    show ?thesis
    proof (cases "destsize \<le> j + unat ?c + 1 \<or> msgsize \<le> i + 1 + unat ?c")
      case True
      then show ?thesis using lab pk by (auto simp: step)
    next
      case False
      then have b: "(i + 1) + unat ?c \<le> length msg" "j + unat ?c \<le> length dest"
        using "1.prems" by auto
      obtain d where d: "length d = length dest" "copy_label vc msg (i + 1) dest j (unat ?c) =
          Some (list_all vc (take (unat ?c) (drop (i + 1) msg)), d)"
        using copy_label_cases [OF b, of vc] by blast
      show ?thesis
      proof (cases "list_all vc (take (unat ?c) (drop (i + 1) msg))")
        case False
        then show ?thesis using lab pk d \<open>\<not> (destsize \<le> _ \<or> _)\<close> by (simp add: step)
      next
        case True
        then have cl: "copy_label vc msg (i + 1) dest j (unat ?c) = Some (True, d)" using d by simp
        have pd: "poke d (j + unat ?c) 46 = Some (d[j + unat ?c := 46])"
          using b d False "1.prems" by simp
        show ?thesis
          using "1.IH"(2) [OF pk _ _ _ _ _ cl refl _ pd] lab pk cl pd d b False "1.prems"
          by (simp add: step)
      qed
    qed
  next
    case short
    then show ?thesis using pk by (simp add: step)
  next
    case bad
    then show ?thesis using pk by (simp add: step)
  qed
qed

lemma get_objname_safe:
  assumes "msgsize \<le> length msg" and "destsize \<le> length dest"
  shows "\<exists>r b d. get_objname vc msg msgsize index below dest destsize = Some (r, b, d) \<and>
           length d = length dest \<and> (r = -1 \<and> b = below \<or> 0 \<le> r)"
  using objname_loop_safe [of "nat index" msgsize msg destsize dest] assms
  by (auto simp: get_objname_def PACKET_DATABEGIN_def)

subsection \<open>What the decoder accepts: the names of RFC 1035\<close>

text \<open>
  \<open>name_at msg n i h ls e\<close>: in the first \<open>n\<close> bytes of \<open>msg\<close> a name with the labels
  \<open>ls\<close> starts at \<open>i\<close>; reading it follows \<open>h\<close> compression pointers, and the bytes
  after it in the packet start at \<open>e\<close>.
\<close>

inductive name_at :: "bytes \<Rightarrow> nat \<Rightarrow> nat \<Rightarrow> nat \<Rightarrow> bytes list \<Rightarrow> nat \<Rightarrow> bool"
  for msg :: bytes and n :: nat where
  name_root: "i < n \<Longrightarrow> msg ! i = 0 \<Longrightarrow> name_at msg n i 0 [] (i + 1)"
| name_label: "msg ! i \<noteq> 0 \<Longrightarrow> msg ! i < 64 \<Longrightarrow> i + 1 + unat (msg ! i) < n \<Longrightarrow>
     name_at msg n (i + 1 + unat (msg ! i)) h ls e \<Longrightarrow>
     name_at msg n i h (take (unat (msg ! i)) (drop (i + 1) msg) # ls) e"
| name_ptr: "i + 1 < n \<Longrightarrow> is_ptr (msg ! i) \<Longrightarrow> ptr_target (msg ! i) (msg ! (i + 1)) < n \<Longrightarrow>
     name_at msg n (ptr_target (msg ! i) (msg ! (i + 1))) h ls e \<Longrightarrow>
     name_at msg n i (Suc h) ls (i + 2)"

definition dotted :: "bytes list \<Rightarrow> bytes" where
  "dotted ls = concat (map (\<lambda>l. l @ [46]) ls)"

lemma dotted_simps [simp]:
  "dotted [] = []"
  "dotted (l # ls) = l @ 46 # dotted ls"
  by (simp_all add: dotted_def)

lemma dotted_append: "dotted (ks @ ls) = dotted ks @ dotted ls"
  by (simp add: dotted_def)

lemma dotted_eq_Nil_iff [simp]: "dotted ls = [] \<longleftrightarrow> ls = []"
  by (cases ls) auto

lemma is_ptr_ge: "is_ptr c \<Longrightarrow> \<not> c < 64 \<and> c \<noteq> 0"
proof -
  assume "is_ptr c"
  then have "0xc0 \<le> c" using word_and_le2 [of c "0xc0"] by (simp add: is_ptr_def)
  moreover have "(64 :: byte) \<le> 0xc0" by simp
  ultimately have "64 \<le> c" by (rule order_trans [rotated])
  then show ?thesis by (auto simp: not_less)
qed

lemma name_at_start: "name_at msg n i h ls e \<Longrightarrow> i < n"
  by (induction rule: name_at.induct) auto

text \<open>Completeness of the loop: on a well-formed name it appends the dotted labels.\<close>

lemma objname_loop_complete:
  assumes "name_at msg n i h ls e" and "n \<le> length msg" and "ds \<le> length dest"
    and "list_all (list_all vc) ls" and "j + length (dotted ls) < ds"
    and "depth + h < n" and "depth + h \<le> UDP_MAXSIZE"
  shows "objname_loop vc msg n ds i j depth compressed below dest =
           objname_finish ds e (j + length (dotted ls)) compressed below
             (take j dest @ dotted ls @ drop (j + length (dotted ls)) dest)"
  using assms
proof (induction i h ls e arbitrary: j depth compressed dest rule: name_at.induct)
  case (name_root i)
  then show ?case by (simp add: objname_loop.simps [of vc msg n ds i])
next
  case (name_label i h ls e)
  let ?c = "msg ! i" and ?l = "take (unat (msg ! i)) (drop (i + 1) msg)"
  have nb: "\<not> is_ptr ?c" using name_label is_ptr_ge by blast
  have len: "length ?l = unat ?c" using name_label by simp
  have b: "(i + 1) + unat ?c \<le> length msg" "j + unat ?c \<le> length dest"
    using name_label len by auto
  let ?d = "take j dest @ ?l @ drop (j + unat ?c) dest"
  have cl: "copy_label vc msg (i + 1) dest j (unat ?c) = Some (True, ?d)"
    using copy_label_cases [OF b, of vc] name_label by auto
  have pos: "j + unat ?c < length dest" using name_label len by auto
  have upd: "?d[j + unat ?c := 46] = take j dest @ ?l @ 46 # drop (j + unat ?c + 1) dest"
  proof -
    have "drop (j + unat ?c) dest = dest ! (j + unat ?c) # drop (j + unat ?c + 1) dest"
      using pos by (simp add: Cons_nth_drop_Suc)
    moreover have "length (take j dest @ ?l) = j + unat ?c" using pos len by simp
    ultimately show ?thesis
      using list_update_at_length [of "take j dest @ ?l"] by (metis append_assoc)
  qed
  let ?d' = "take j dest @ ?l @ 46 # drop (j + unat ?c + 1) dest"
  have IH: "objname_loop vc msg n ds (i + 1 + unat ?c) (j + unat ?c + 1) depth compressed below ?d' =
      objname_finish ds e (j + unat ?c + 1 + length (dotted ls)) compressed below
        (take (j + unat ?c + 1) ?d' @ dotted ls @ drop (j + unat ?c + 1 + length (dotted ls)) ?d')"
    by (rule name_label.IH) (use name_label.prems len pos in auto)
  have "take (j + unat ?c + 1) ?d' = take j dest @ ?l @ [46]" using pos len by simp
  moreover have "drop (j + unat ?c + 1 + length (dotted ls)) ?d' =
      drop (j + unat ?c + 1 + length (dotted ls)) dest" using pos len by (simp add: ac_simps)
  moreover have "poke ?d (j + unat ?c) 46 = Some ?d'" using pos len upd by simp
  ultimately show ?case
    using name_label.hyps name_label.prems nb cl len IH
    by (simp add: objname_loop.simps [of vc msg n ds i] add.commute add.left_commute)
next
  case (name_ptr i h ls e)
  have "depth + 1 < n \<and> depth + 1 \<le> UDP_MAXSIZE" using name_ptr.prems by linarith
  moreover have "objname_finish ds e' t (if compressed = 0 then i + 2 else compressed) below d =
      objname_finish ds (i + 2) t compressed below d" for e' t d
    by (simp add: objname_finish_def)
  ultimately show ?case
    using name_ptr.hyps name_ptr.prems is_ptr_ge [of "msg ! i"]
      name_ptr.IH [of dest j "depth + 1" "if compressed = 0 then i + 2 else compressed"]
    by (simp add: objname_loop.simps [of vc msg n ds i])
qed

text \<open>Soundness of the loop: a non-negative result comes from a well-formed name.\<close>

lemma objname_loop_sound:
  assumes "objname_loop vc msg n ds i j depth compressed below dest = Some (r, b, d)"
    and "0 \<le> r" and "i < n" and "n \<le> length msg" and "ds \<le> length dest" and "j < ds"
    and "depth < n" and "depth \<le> UDP_MAXSIZE"
  shows "\<exists>h ls e. name_at msg n i h ls e \<and> list_all (list_all vc) ls \<and>
           j + length (dotted ls) < ds \<and> depth + h < n \<and> depth + h \<le> UDP_MAXSIZE"
  using assms
proof (induction vc msg n ds i j depth compressed below dest rule: objname_loop.induct)
  case (1 vc msg n ds i j depth compressed below dest)
  let ?c = "msg ! i"
  note step = objname_loop.simps [of vc msg n ds i j depth compressed below dest]
  have pk: "peek msg i = Some ?c" using "1.prems" by simp
  have run: "objname_loop vc msg n ds i j depth compressed below dest = Some (r, b, d)"
    by (fact "1.prems"(1))
  consider (fin) "?c = 0" | (short) "?c \<noteq> 0" "n \<le> i + 1"
    | (ptr) "?c \<noteq> 0" "\<not> n \<le> i + 1" "is_ptr ?c"
    | (lab) "?c \<noteq> 0" "\<not> n \<le> i + 1" "\<not> is_ptr ?c" "?c < 64"
    | (bad) "?c \<noteq> 0" "\<not> n \<le> i + 1" "\<not> is_ptr ?c" "\<not> ?c < 64"
    by blast
  then show ?case
  proof cases
    case fin
    have "name_at msg n i 0 [] (i + 1)" using fin "1.prems" by (intro name_root) auto
    then show ?thesis using "1.prems" by (intro exI [of _ 0] exI [of _ "[]"] exI [of _ "i + 1"]) auto
  next
    case ptr
    let ?t = "ptr_target ?c (msg ! (i + 1))"
    have lo: "peek msg (i + 1) = Some (msg ! (i + 1))" using ptr "1.prems" by simp
    have ok: "\<not> (n \<le> depth + 1 \<or> UDP_MAXSIZE < depth + 1)" "\<not> n \<le> ?t"
      using run ptr pk lo "1.prems"(2) by (auto simp: step split: if_splits)
    then have "objname_loop vc msg n ds ?t j (depth + 1)
        (if compressed = 0 then i + 2 else compressed) below dest = Some (r, b, d)"
      using run ptr pk lo by (simp add: step)
    then obtain h ls e where "name_at msg n ?t h ls e" "list_all (list_all vc) ls"
      "j + length (dotted ls) < ds" "depth + 1 + h < n" "depth + 1 + h \<le> UDP_MAXSIZE"
      using "1.IH"(1) [OF pk _ _ _ _ lo] ptr ok "1.prems" by auto
    moreover have "name_at msg n i (Suc h) ls (i + 2)"
      using ptr ok calculation(1) by (intro name_ptr) auto
    ultimately show ?thesis by (intro exI [of _ "Suc h"] exI [of _ ls] exI [of _ "i + 2"]) auto
  next
    case lab
    let ?l = "take (unat ?c) (drop (i + 1) msg)"
    have fit: "\<not> (ds \<le> j + unat ?c + 1 \<or> n \<le> i + 1 + unat ?c)"
      using run lab pk "1.prems"(2) by (auto simp: step split: if_splits)
    then have bnd: "(i + 1) + unat ?c \<le> length msg" "j + unat ?c \<le> length dest"
      using "1.prems" by auto
    obtain d0 where d0: "length d0 = length dest"
      "copy_label vc msg (i + 1) dest j (unat ?c) = Some (list_all vc ?l, d0)"
      using copy_label_cases [OF bnd, of vc] by blast
    have vl: "list_all vc ?l"
    proof (rule ccontr)
      assume "\<not> list_all vc ?l"
      with run lab pk fit d0 "1.prems"(2) show False by (simp add: step)
    qed
    have cl: "copy_label vc msg (i + 1) dest j (unat ?c) = Some (True, d0)" using d0 vl by simp
    have pd: "poke d0 (j + unat ?c) 46 = Some (d0[j + unat ?c := 46])"
      using d0 fit "1.prems" by simp
    have "objname_loop vc msg n ds (i + 1 + unat ?c) (j + unat ?c + 1) depth compressed below
        (d0[j + unat ?c := 46]) = Some (r, b, d)"
      using run lab pk fit cl pd by (simp add: step)
    then obtain h ls e where "name_at msg n (i + 1 + unat ?c) h ls e" "list_all (list_all vc) ls"
      "j + unat ?c + 1 + length (dotted ls) < ds" "depth + h < n" "depth + h \<le> UDP_MAXSIZE"
      using "1.IH"(2) [OF pk _ _ _ _ _ cl refl _ pd] lab fit d0 "1.prems" by auto
    moreover have "name_at msg n i h (?l # ls) e"
      using lab fit calculation(1) by (intro name_label) auto
    moreover have "length ?l = unat ?c" using bnd by simp
    ultimately show ?thesis using vl
      by (intro exI [of _ h] exI [of _ "?l # ls"] exI [of _ e]) auto
  next
    case short
    then show ?thesis using run pk "1.prems"(2) by (simp add: step)
  next
    case bad
    then show ?thesis using run pk "1.prems"(2) by (simp add: step)
  qed
qed

lemma objname_finish_dotted:
  assumes "length (dotted ls) < ds" and "ds \<le> length dest"
  shows "objname_finish ds e (length (dotted ls)) 0 below
           (dotted ls @ drop (length (dotted ls)) dest) =
         Some (int e, if ls = [] then 0 else below,
               if ls = [] then dest
               else butlast (dotted ls) @ 0 # drop (length (dotted ls)) dest)"
proof (cases "ls = []")
  case True
  then show ?thesis by (simp add: objname_finish_def)
next
  case False
  then have ne: "dotted ls \<noteq> []" by simp
  then obtain j' where j': "length (dotted ls) = Suc j'" by (cases "length (dotted ls)") auto
  have spl: "dotted ls = butlast (dotted ls) @ [last (dotted ls)]" using ne by simp
  have "length (butlast (dotted ls)) = j'" using j' by simp
  then have "(dotted ls @ drop (length (dotted ls)) dest)[j' := 0] =
      butlast (dotted ls) @ 0 # drop (length (dotted ls)) dest"
    using list_update_at_length [of "butlast (dotted ls)" "last (dotted ls)"
        "drop (length (dotted ls)) dest" 0] spl
    by (metis append_Cons append_Nil append_assoc)
  with False j' assms show ?thesis by (simp add: objname_finish_def)
qed

lemma get_objname_complete:
  assumes "name_at msg n (nat index) h ls e" and "n \<le> length msg" and "ds \<le> length dest"
    and "list_all (list_all vc) ls" and "length (dotted ls) < ds"
    and "h < n" and "h \<le> UDP_MAXSIZE" and "int PACKET_DATABEGIN \<le> index"
  shows "get_objname vc msg n index below dest ds =
           Some (int e, if ls = [] then 0 else below,
                 if ls = [] then dest
                 else butlast (dotted ls) @ 0 # drop (length (dotted ls)) dest)"
proof -
  have "nat index < n" using assms(1) by (rule name_at_start)
  then have "get_objname vc msg n index below dest ds =
      objname_loop vc msg n ds (nat index) 0 0 0 below dest"
    using assms(8) by (auto simp: get_objname_def)
  also have "\<dots> = objname_finish ds e (length (dotted ls)) 0 below
      (dotted ls @ drop (length (dotted ls)) dest)"
    using objname_loop_complete [OF assms(1-4), of 0 0 0 below] assms(5-7) by simp
  finally show ?thesis using objname_finish_dotted assms(3,5) by simp
qed

lemma get_objname_sound:
  assumes "get_objname vc msg n index below dest ds = Some (r, b, d)" and "0 \<le> r"
    and "n \<le> length msg" and "0 < ds" and "ds \<le> length dest"
  shows "int PACKET_DATABEGIN \<le> index \<and>
         (\<exists>h ls. name_at msg n (nat index) h ls (nat r) \<and> list_all (list_all vc) ls \<and>
            length (dotted ls) < ds \<and> h < n \<and> h \<le> UDP_MAXSIZE \<and>
            b = (if ls = [] then 0 else below) \<and>
            d = (if ls = [] then dest
                 else butlast (dotted ls) @ 0 # drop (length (dotted ls)) dest))"
proof -
  from assms(1,2) have ix: "int PACKET_DATABEGIN \<le> index" "nat index < n"
    and run: "objname_loop vc msg n ds (nat index) 0 0 0 below dest = Some (r, b, d)"
    by (auto simp: get_objname_def PACKET_DATABEGIN_def split: if_splits)
  from objname_loop_sound [OF run assms(2) ix(2) assms(3,5,4)] ix(2)
  obtain h ls e where w: "name_at msg n (nat index) h ls e" "list_all (list_all vc) ls"
    "length (dotted ls) < ds" "h < n" "h \<le> UDP_MAXSIZE"
    by auto
  from get_objname_complete [OF w(1) assms(3,5) w(2-5) ix(1), of below] assms(1)
  have "r = int e" "b = (if ls = [] then 0 else below)"
    "d = (if ls = [] then dest else butlast (dotted ls) @ 0 # drop (length (dotted ls)) dest)"
    by auto
  with ix w show ?thesis by (intro conjI exI [of _ h] exI [of _ ls]) auto
qed


lemma name_at_unique:
  "name_at msg n i h ls e \<Longrightarrow> name_at msg n i h' ls' e' \<Longrightarrow> h = h' \<and> ls = ls' \<and> e = e'"
proof (induction i h ls e arbitrary: h' ls' e' rule: name_at.induct)
  case (name_root i)
  from name_root(3) show ?case
  proof cases
    case name_ptr
    then show ?thesis using name_root(2) is_ptr_ge by blast
  qed (use name_root(2) in simp_all)
next
  case (name_label i h ls e)
  from name_label(6) show ?case
  proof cases
    case name_root
    then show ?thesis using name_label(1) by simp
  next
    case (name_label ls'')
    then show ?thesis using name_label.IH by blast
  next
    case name_ptr
    then show ?thesis using name_label(2) is_ptr_ge by blast
  qed
next
  case (name_ptr i h ls e)
  from name_ptr(6) show ?case
  proof cases
    case name_root
    then show ?thesis using name_ptr(2) is_ptr_ge by blast
  next
    case (name_label ls'')
    then show ?thesis using name_ptr(2) is_ptr_ge by blast
  next
    case (name_ptr h'' e'')
    then show ?thesis using name_ptr.IH by blast
  qed
qed

lemma name_at_end: "name_at msg n i h ls e \<Longrightarrow> e \<le> n \<and> 0 < e"
  by (induction rule: name_at.induct) auto

lemma get_objname_end:
  assumes "get_objname vc msg n index below dest ds = Some (r, b, d)"
    and "n \<le> length msg" and "0 < ds" and "ds \<le> length dest" and "0 \<le> r"
  shows "r \<le> int n"
proof -
  obtain h ls where "name_at msg n (nat index) h ls (nat r)"
    using get_objname_sound [OF assms(1,5,2,3,4)] by blast
  from name_at_end [OF this] show ?thesis by linarith
qed

subsection \<open>Queries: what a successful \<open>parse_query\<close> delivers\<close>

lemma normalise_name_Some:
  assumes "cstr nm = Some s" and "length s \<le> 256"
  shows "\<exists>nm'. normalise_name nm = Some nm' \<and> length nm' = length nm \<and>
               cstr nm' = Some (map tolower (strip_dot s))"
proof -
  let ?s = "strip_dot s"
  have ls: "length ?s \<le> length s" by (simp add: strip_dot_def)
  have nul: "0 \<notin> set ?s" using cstr_no_NUL [OF assms(1)]
    by (auto simp: strip_dot_def dest: in_set_butlastD)
  have lw: "strnlwr ?s RR_NAMESIZE = map tolower ?s"
    using assms(2) ls by (intro strnlwr_short) (simp add: RR_NAMESIZE_def)
  have "normalise_name nm = Some (map tolower ?s @ 0 # drop (Suc (length ?s)) nm)"
    using assms(1) lw by (simp add: normalise_name_def Let_def)
  moreover have "0 \<notin> set (map tolower ?s)" using nul by auto
  moreover have "length (map tolower ?s @ 0 # drop (Suc (length ?s)) nm) = length nm"
    using cstr_length [OF assms(1)] ls by simp
  ultimately show ?thesis by (metis cstr_append_NUL)
qed

definition label_text :: "bytes list \<Rightarrow> bytes" where
  "label_text ls = takeWhile (\<lambda>b. b \<noteq> 0) (butlast (dotted ls))"

lemma takeWhile_append_stop: "\<not> P x \<Longrightarrow> takeWhile P (xs @ x # ys) = takeWhile P xs"
  by (induction xs) auto

lemma cstr_label_text: "cstr (butlast (dotted ls) @ 0 # r) = Some (label_text ls)"
  unfolding cstr_def label_text_def by (simp add: takeWhile_append_stop)

lemma length_label_text: "length (label_text ls) \<le> length (dotted ls) - 1"
  unfolding label_text_def by (metis length_butlast length_takeWhile_le)

lemma set_flags_hi_id [simp]: "set_flags_hi f (flags_hi f) = f"
  by (simp add: set_flags_hi_def flags_hi_def)

lemma parse_query_complete:
  assumes nm: "name_at msg len PACKET_DATABEGIN h ls e" "list_all (list_all vc) ls"
      "length (dotted ls) < RR_NAMESIZE" "h < len" "h \<le> UDP_MAXSIZE" "ls \<noteq> []"
    and len: "len \<le> length msg" "e + 4 \<le> len" and sz: "length (rr_name y) = RR_NAMESIZE"
    and qd: "ntohs2 (msg ! 4) (msg ! 5) \<noteq> 0"
  shows "\<exists>y'. parse_query vc y msg len = Some (0, y') \<and>
           cstr (rr_name y') = Some (map tolower (strip_dot (label_text ls))) \<and>
           rr_flags y' = ntohs2 (msg ! 2) (msg ! 3) \<and>
           rr_type y' = ntohs2 (msg ! e) (msg ! (e + 1)) \<and>
           rr_class y' = ntohs2 (msg ! (e + 2)) (msg ! (e + 3)) \<and>
           length (rr_name y') = RR_NAMESIZE"
proof -
  have l: "12 < len" using name_at_start [OF nm(1)] by (simp add: PACKET_DATABEGIN_def)
  let ?fl = "ntohs2 (msg ! 2) (msg ! 3)"
  let ?d = "butlast (dotted ls) @ 0 # drop (length (dotted ls)) (rr_name y)"
  have g: "get_objname vc msg len (int PACKET_DATABEGIN) (flags_hi ?fl) (rr_name y) RR_NAMESIZE =
      Some (int e, flags_hi ?fl, ?d)"
    using get_objname_complete [of msg len "int PACKET_DATABEGIN" h ls e RR_NAMESIZE "rr_name y" vc
        "flags_hi ?fl"] nm len sz by simp
  have "length (label_text ls) \<le> 256"
    using length_label_text [of ls] nm(3) by (simp add: RR_NAMESIZE_def)
  then obtain nm' where n: "normalise_name ?d = Some nm'" "length nm' = length ?d"
    "cstr nm' = Some (map tolower (strip_dot (label_text ls)))"
    using normalise_name_Some [OF cstr_label_text] by metis
  obtain k where "length (dotted ls) = Suc k" using nm(6) by (cases "length (dotted ls)") auto
  then have "length ?d = RR_NAMESIZE" using nm(3) sz by simp
  with n l len qd g show ?thesis
    by (simp add: parse_query_def Let_def numeral_3_eq_3)
qed

text \<open>The converse: success means that a well-formed name stood in the question.\<close>

lemma parse_query_sound:
  assumes pq: "parse_query vc y msg len = Some (0, y')" and len: "len \<le> length msg"
    and sz: "length (rr_name y) = RR_NAMESIZE"
  shows "\<exists>h ls e. name_at msg len PACKET_DATABEGIN h ls e \<and> list_all (list_all vc) ls \<and>
           length (dotted ls) < RR_NAMESIZE \<and> h < len \<and> h \<le> UDP_MAXSIZE \<and> e + 4 \<le> len"
proof -
  from pq obtain fl r b nm where
    g: "get_objname vc msg len (int PACKET_DATABEGIN) (flags_hi fl) (rr_name y) RR_NAMESIZE =
          Some (r, b, nm)" and r: "0 \<le> r" "r + 4 \<le> int len"
    by (auto simp: parse_query_def option_bind_eq_Some_iff Let_def not_less split: if_splits)
  have "0 < RR_NAMESIZE" by (simp add: RR_NAMESIZE_def)
  with get_objname_sound [OF g r(1) len] sz obtain h ls where
    "name_at msg len (nat (int PACKET_DATABEGIN)) h ls (nat r)" "list_all (list_all vc) ls"
    "length (dotted ls) < RR_NAMESIZE" "h < len" "h \<le> UDP_MAXSIZE"
    by auto
  moreover have "nat r + 4 \<le> len" using r by linarith
  ultimately show ?thesis by (intro exI [of _ h] exI [of _ ls] exI [of _ "nat r"]) simp
qed

lemma parse_query_total:
  assumes "12 \<le> len" and "len \<le> length msg" and "length (rr_name y) = RR_NAMESIZE"
    and "(\<exists>h e. name_at msg len PACKET_DATABEGIN h [] e) \<longrightarrow> 0 \<in> set (rr_name y)"
  shows "\<exists>r y'. parse_query vc y msg len = Some (r, y') \<and> (r = 0 \<or> r = -1) \<and>
           length (rr_name y') = RR_NAMESIZE"
proof -
  let ?fl = "ntohs2 (msg ! 2) (msg ! 3)"
  have sz: "RR_NAMESIZE \<le> length (rr_name y)" "0 < RR_NAMESIZE"
    using assms(3) by (simp_all add: RR_NAMESIZE_def)
  obtain r b nm where g: "get_objname vc msg len (int PACKET_DATABEGIN) (flags_hi ?fl) (rr_name y)
      RR_NAMESIZE = Some (r, b, nm)" "length nm = length (rr_name y)" "r = -1 \<or> 0 \<le> r"
    using get_objname_safe [OF assms(2) sz(1)] by blast
  show ?thesis
  proof (cases "r < 0 \<or> int len < r + 4 \<or> ntohs2 (msg ! 4) (msg ! 5) = 0")
    case True
    then show ?thesis using g assms by (auto simp: parse_query_def Let_def)
  next
    case False
    from get_objname_sound [OF g(1) _ assms(2) sz(2,1)] False
    obtain h ls where d: "name_at msg len PACKET_DATABEGIN h ls (nat r)" "nm = (if ls = [] then rr_name y
        else butlast (dotted ls) @ 0 # drop (length (dotted ls)) (rr_name y))" by auto
    then have "0 \<in> set nm" using assms(4) by auto
    then obtain s where s: "cstr nm = Some s" by (auto simp: cstr_def)
    then have "length s \<le> 256"
      using cstr_length [OF s] g(2) assms(3) by (simp add: RR_NAMESIZE_def)
    then obtain nm' where "normalise_name nm = Some nm'" "length nm' = length nm"
      using normalise_name_Some [OF s] by blast
    with False g assms show ?thesis by (auto simp: parse_query_def Let_def)
  qed
qed

lemma parse_query_safe:
  assumes "12 \<le> len" and "len \<le> length msg" and "length (rr_name y) = RR_NAMESIZE" and "0 \<in> set (rr_name y)"
  shows "\<exists>r y'. parse_query vc y msg len = Some (r, y') \<and> (r = 0 \<or> r = -1) \<and> length (rr_name y') = RR_NAMESIZE"
  using parse_query_total [OF assms(1-3)] assms(4) by blast

text \<open>For a question that names the root the buffer is left as it was found, and without a NUL in it the
  code that follows reads on behind its end.\<close>

lemma root_question_overreads:
  assumes "msg ! PACKET_DATABEGIN = 0" and "17 \<le> len" and "len \<le> length msg"
    and "length (rr_name y) = RR_NAMESIZE" and "0 \<notin> set (rr_name y)" and "ntohs2 (msg ! 4) (msg ! 5) \<noteq> 0"
  shows "parse_query vc y msg len = None"
proof -
  have n: "name_at msg len PACKET_DATABEGIN 0 [] 13"
    using name_root [of PACKET_DATABEGIN len msg] assms by (simp add: PACKET_DATABEGIN_def)
  let ?fl = "ntohs2 (msg ! 2) (msg ! 3)"
  have g: "get_objname vc msg len (int PACKET_DATABEGIN) (flags_hi ?fl) (rr_name y) RR_NAMESIZE = Some (13, 0, rr_name y)"
    using get_objname_complete [of msg len "int PACKET_DATABEGIN" 0 "[]" 13 RR_NAMESIZE
        "rr_name y" vc "flags_hi ?fl"] n assms by (simp add: RR_NAMESIZE_def)
  moreover have "normalise_name (rr_name y) = None" using assms(5) by (simp add: normalise_name_def cstr_def)
  ultimately show ?thesis using assms by (simp add: parse_query_def Let_def)
qed

subsection \<open>Resource records and the packet dump\<close>

lemma read_record_safe:
  assumes len: "len \<le> length (packet x)"
    and nm: "length (rr_name y) = RR_NAMESIZE" and da: "length (rr_data y) = RR_NAMESIZE"
  shows "\<exists>r y'. read_record vc x y index question len = Some (r, y') \<and>
           (r = -1 \<or> 0 \<le> r \<and> r \<le> int len) \<and>
           length (rr_name y') = RR_NAMESIZE \<and> length (rr_data y') = RR_NAMESIZE"
proof -
  have sz: "RR_NAMESIZE \<le> length (rr_name y)" "0 < RR_NAMESIZE"
    using nm by (simp_all add: RR_NAMESIZE_def)
  obtain r b d where g: "get_objname vc (packet x) len index (flags_hi (rr_flags y)) (rr_name y)
      RR_NAMESIZE = Some (r, b, d)" "length d = length (rr_name y)"
    using get_objname_safe [OF len sz(1)] by blast
  show ?thesis
  proof (cases "r < 0 \<or> int len < r + 4")
    case True
    then show ?thesis using g nm da by (auto simp: read_record_def Let_def)
  next
    case False
    then have rd: "nat r + 3 < length (packet x)" "0 \<le> r" "nat r + 4 \<le> len" using len by auto
    show ?thesis
    proof (cases "question \<or> len < nat r + 10")
      case True
      then show ?thesis using False rd g nm da by (auto simp: read_record_def Let_def)
    next
      case ans: False
      then have rd': "nat r + 4 + 3 < length (packet x)" "nat r + 8 + 1 < length (packet x)"
        using len by auto
      obtain L where L: "unat (ntohs2 (packet x ! (nat r + 8)) (packet x ! (9 + nat r))) = L"
        by simp
      show ?thesis using False ans rd rd' g nm da len
        by (simp add: read_record_def Let_def L) (auto simp: RR_NAMESIZE_def)
    qed
  qed
qed

lemma dump_section_safe:
  assumes "len \<le> length (packet x)"
    and "length (rr_name y) = RR_NAMESIZE" and "length (rr_data y) = RR_NAMESIZE"
  shows "\<exists>r y' out'. dump_section vc x len n index y out = Some (r, y', out') \<and>
           length (rr_name y') = RR_NAMESIZE \<and> length (rr_data y') = RR_NAMESIZE"
  using assms(2,3)
proof (induction n arbitrary: index y out)
  case 0
  then show ?case by simp
next
  case (Suc n)
  obtain r y' where r: "read_record vc x y index False len = Some (r, y')"
    "length (rr_name y') = RR_NAMESIZE" "length (rr_data y') = RR_NAMESIZE"
    using read_record_safe [OF assms(1) Suc.prems] by blast
  then show ?case using Suc.IH [OF r(2,3)] by simp
qed

lemma decode_header_Some:
  assumes "10 \<le> len" and "len \<le> length pkt"
  shows "\<exists>x. decode_header pkt len = Some x \<and> packet x = take len pkt @ [0, 0] \<and> plen x = len"
  using assms by (simp add: decode_header_def alloc_packet_def)

lemma dump_dnspacket_safe:
  assumes "10 \<le> len" and "len \<le> length pkt"
    and "length (rr_name y) = RR_NAMESIZE" and "length (rr_data y) = RR_NAMESIZE"
  shows "\<exists>r out. dump_dnspacket dbg vc y pkt len = Some (r, out)"
proof -
  obtain x where x: "decode_header pkt len = Some x" "packet x = take len pkt @ [0, 0]"
    using decode_header_Some [OF assms(1,2)] by blast
  then have l: "len \<le> length (packet x)" using assms(2) by simp
  obtain q y' where q: "read_record vc x y (int PACKET_DATABEGIN) True len = Some (q, y')"
    "length (rr_name y') = RR_NAMESIZE" "length (rr_data y') = RR_NAMESIZE"
    using read_record_safe [OF l assms(3,4)] by blast
  obtain i1 y1 o1 where s1: "dump_section vc x len (short_count (ancount x)) q y' [y'] = Some (i1, y1, o1)"
    "length (rr_name y1) = RR_NAMESIZE" "length (rr_data y1) = RR_NAMESIZE"
    using dump_section_safe [OF l q(2,3)] by blast
  obtain i2 y2 o2 where s2: "dump_section vc x len (short_count (nscount x)) i1 y1 o1 = Some (i2, y2, o2)"
    "length (rr_name y2) = RR_NAMESIZE" "length (rr_data y2) = RR_NAMESIZE"
    using dump_section_safe [OF l s1(2,3)] by blast
  obtain i3 y3 o3 where s3: "dump_section vc x len (short_count (arcount x)) i2 y2 o2 = Some (i3, y3, o3)"
    using dump_section_safe [OF l s2(2,3)] by blast
  show ?thesis using x q s1 s2 s3 by (auto simp: dump_dnspacket_def)
qed

subsection \<open>Properties of the packet decoder\<close>

text \<open>
  C9.  Memory safety and termination of the name decoder, with its one defect: for every packet, every start
  index and every destination, \<open>get_objname\<close> returns, and it reads no byte at or after \<open>msgsize\<close> and
  writes none behind the destination.  Either it fails with -1, and the byte in front of the destination is
  untouched, or it returns a position inside the packet.  The byte \<open>dest[-1]\<close> in front of the destination
  is written (with a NUL) exactly when the decoded name is the root name; then nothing else is
  written.
\<close>

theorem get_objname_memory_safe:
  assumes "msgsize \<le> length msg" and "0 < destsize" and "destsize \<le> length dest"
  shows "\<exists>r b d. get_objname vc msg msgsize index below dest destsize = Some (r, b, d) \<and> length d = length dest \<and>
           (r = -1 \<and> b = below \<or>
            0 \<le> r \<and> r \<le> int msgsize \<and>
            (\<exists>h ls. name_at msg msgsize (nat index) h ls (nat r) \<and> (if ls = [] then b = 0 \<and> d = dest else b = below)))"
proof -
  obtain r b d where g: "get_objname vc msg msgsize index below dest destsize = Some (r, b, d)" "length d = length dest" "r = -1 \<and> b = below \<or> 0 \<le> r"
    using get_objname_safe [OF assms(1,3), of vc index below] by blast
  show ?thesis
  proof (cases "0 \<le> r")
    case True
    obtain h ls where n: "name_at msg msgsize (nat index) h ls (nat r)" "b = (if ls = [] then 0 else below)"
      "d = (if ls = [] then dest else butlast (dotted ls) @ 0 # drop (length (dotted ls)) dest)"
      using get_objname_sound [OF g(1) True assms] by blast
    have "if ls = [] then b = 0 \<and> d = dest else b = below" using n(2,3) by simp
    then show ?thesis using g(1,2) n(1) get_objname_end [OF g(1) assms True] True by blast
  qed (use g in auto)
qed

definition example_query :: bytes where
  "example_query = [0x12, 0x34, 1, 0, 0, 1, 0, 0, 0, 0, 0, 0,
                    3, 119, 87, 119, 2, 97, 98, 0, 0, 1, 0, 1, 0xC0, 0x10]"

theorem get_objname_memory_safe_witness:
  "\<exists>r b d. get_objname (init_dns 1) example_query 26 12 7 (replicate 256 0) 256 = Some (r, b, d) \<and>
     length d = length (replicate 256 (0 :: byte)) \<and>
     (r = -1 \<and> b = 7 \<or>
      0 \<le> r \<and> r \<le> int 26 \<and>
      (\<exists>h ls. name_at example_query 26 (nat 12) h ls (nat r) \<and> (if ls = [] then b = 0 \<and> d = replicate 256 0 else b = 7)))"
  by (rule get_objname_memory_safe) (simp_all add: example_query_def)

text \<open>
  C10.  The decoder is correct and complete: \<open>get_objname\<close> succeeds exactly when a well-formed
  domain name stands at \<open>index\<close> (labels of at most 63 bytes, compression pointers into the
  packet, fewer hops than the packet has bytes and at most 512, valid characters, a text that
  fits the destination).  Then it returns the position after the name, and the destination
  holds the labels joined by dots and a NUL, or, for the root name, is left unwritten while the
  byte below it is overwritten.
\<close>

theorem get_objname_decodes:
  assumes "msgsize \<le> length msg" and "0 < destsize" and "destsize \<le> length dest"
    and "int PACKET_DATABEGIN \<le> index"
  shows "(get_objname vc msg msgsize index below dest destsize = Some (r, b, d) \<and> 0 \<le> r) \<longleftrightarrow>
         (0 \<le> r \<and> (\<exists>h ls. name_at msg msgsize (nat index) h ls (nat r) \<and>
            list_all (list_all vc) ls \<and> length (dotted ls) < destsize \<and>
            h < msgsize \<and> h \<le> UDP_MAXSIZE \<and>
            b = (if ls = [] then 0 else below) \<and>
            d = (if ls = [] then dest
                 else butlast (dotted ls) @ 0 # drop (length (dotted ls)) dest)))"
  using get_objname_sound [OF _ _ assms(1-3)] get_objname_complete [OF _ assms(1,3) _ _ _ _ assms(4)]
  by fastforce

lemma name_at_example: "name_at example_query 26 12 0 [[119, 87, 119], [97, 98]] 20"
proof -
  have e: "name_at example_query 26 19 0 [] 20"
    using name_root [of 19 26 example_query] by (simp add: example_query_def)
  have l2: "name_at example_query 26 16 0 [[97, 98]] 20"
    using name_label [of example_query 16 26 0 "[]" 20] e by (simp add: example_query_def)
  show ?thesis
    using name_label [of example_query 12 26 0 "[[97, 98]]" 20] l2 by (simp add: example_query_def)
qed

theorem get_objname_decodes_witness:
  "get_objname (init_dns 1) example_query 26 12 7 (replicate 256 0) 256 =
     Some (20, 7, [119, 87, 119, 46, 97, 98] @ 0 # replicate 249 0)"
proof -
  have "get_objname (init_dns 1) example_query 26 12 7 (replicate 256 0) 256 =
      Some (20, 7, [119, 87, 119, 46, 97, 98] @ 0 # replicate 249 0) \<and> (0 :: int) \<le> 20"
    by (subst get_objname_decodes)
       (auto simp: PACKET_DATABEGIN_def UDP_MAXSIZE_def init_dns_def example_query_def
          intro!: exI [of _ 0] exI [of _ "[[119, 87, 119], [97, 98]]"]
          name_at_example [unfolded example_query_def])
  then show ?thesis ..
qed

text \<open>
  On a question with a well-formed, non-root name, \<open>parse_query\<close> succeeds and delivers
  the lower-cased dotted name, the header flags, and the type and class that follow the name.
\<close>

theorem parse_query_correct:
  assumes "name_at msg len PACKET_DATABEGIN h ls e" and "list_all (list_all vc) ls"
    and "length (dotted ls) < RR_NAMESIZE" and "h < len" and "h \<le> UDP_MAXSIZE" and "ls \<noteq> []"
    and "len \<le> length msg" and "e + 4 \<le> len" and "length (rr_name y) = RR_NAMESIZE"
    and "ntohs2 (msg ! 4) (msg ! 5) \<noteq> 0"
  shows "\<exists>y'. parse_query vc y msg len = Some (0, y') \<and>
           cstr (rr_name y') = Some (map tolower (strip_dot (label_text ls))) \<and>
           rr_flags y' = ntohs2 (msg ! 2) (msg ! 3) \<and>
           rr_type y' = ntohs2 (msg ! e) (msg ! (e + 1)) \<and>
           rr_class y' = ntohs2 (msg ! (e + 2)) (msg ! (e + 3))"
  using parse_query_complete [OF assms] by blast

definition blank_rr :: rr_t where
  "blank_rr = \<lparr>rr_flags = 0, rr_name = replicate 256 0, rr_type = 0, rr_class = 0,
               rr_ttl = 0, rr_len = 0, rr_data = replicate 256 0\<rparr>"

theorem parse_query_correct_witness:
  "\<exists>y'. parse_query (init_dns 1) blank_rr example_query 26 = Some (0, y') \<and>
     cstr (rr_name y') = Some (bytes_of ''www.ab'') \<and>
     rr_flags y' = 0x0100 \<and> rr_type y' = 1 \<and> rr_class y' = 1"
proof -
  have "\<exists>y'. parse_query (init_dns 1) blank_rr example_query 26 = Some (0, y') \<and>
     cstr (rr_name y') = Some (map tolower (strip_dot (label_text [[119, 87, 119], [97, 98]]))) \<and>
     rr_flags y' = ntohs2 (example_query ! 2) (example_query ! 3) \<and>
     rr_type y' = ntohs2 (example_query ! 20) (example_query ! (20 + 1)) \<and>
     rr_class y' = ntohs2 (example_query ! (20 + 2)) (example_query ! (20 + 3))"
  proof (rule parse_query_correct)
    show "name_at example_query 26 PACKET_DATABEGIN 0 [[119, 87, 119], [97, 98]] 20"
      using name_at_example by (simp add: PACKET_DATABEGIN_def)
  qed (simp_all add: example_query_def init_dns_def RR_NAMESIZE_def blank_rr_def ntohs2_def)
  then show ?thesis
    by (simp add: example_query_def ntohs2_def label_text_def strip_dot_def bytes_of_def ctype_defs)
qed

text \<open>
  The root name.  A question for the root (a single zero byte) makes \<open>get_objname\<close> store
  its NUL one byte below the name buffer, which is the high byte of the flags: \<open>parse_query\<close>
  succeeds with QR, OPCODE, AA, TC and RD cleared, and with whatever string the caller's
  uninitialised name buffer happened to hold.
\<close>

theorem root_question_clobbers_flags:
  assumes "msg ! PACKET_DATABEGIN = 0" and "17 \<le> len" and "len \<le> length msg"
    and "length (rr_name y) = RR_NAMESIZE" and "cstr (rr_name y) = Some garbage"
    and "ntohs2 (msg ! 4) (msg ! 5) \<noteq> 0"
  shows "\<exists>y'. parse_query vc y msg len = Some (0, y') \<and>
           rr_flags y' = ntohs2 0 (msg ! 3) \<and>
           cstr (rr_name y') = Some (map tolower (strip_dot garbage))"
proof -
  have n: "name_at msg len PACKET_DATABEGIN 0 [] 13"
    using name_root [of PACKET_DATABEGIN len msg] assms by (simp add: PACKET_DATABEGIN_def)
  let ?fl = "ntohs2 (msg ! 2) (msg ! 3)"
  have g: "get_objname vc msg len (int PACKET_DATABEGIN) (flags_hi ?fl) (rr_name y) RR_NAMESIZE =
      Some (13, 0, rr_name y)"
    using get_objname_complete [of msg len "int PACKET_DATABEGIN" 0 "[]" 13 RR_NAMESIZE
        "rr_name y" vc "flags_hi ?fl"] n assms by (simp add: RR_NAMESIZE_def)
  have lo: "(ucast ?fl :: byte) = msg ! 3"
    unfolding ntohs2_def
    by (rule bit_eqI) (auto simp: bit_ucast_iff bit_or_iff bit_push_bit_iff)
  have "length garbage \<le> 256"
    using cstr_length [OF assms(5)] assms(4) by (simp add: RR_NAMESIZE_def)
  then obtain nm' where "normalise_name (rr_name y) = Some nm'"
    "cstr nm' = Some (map tolower (strip_dot garbage))"
    using normalise_name_Some [OF assms(5)] by blast
  with g lo assms show ?thesis
    by (simp add: parse_query_def Let_def set_flags_hi_def)
qed

theorem root_question_clobbers_flags_witness:
  "\<exists>y'. parse_query (init_dns 1) (blank_rr\<lparr>rr_name := 88 # replicate 255 0\<rparr>)
          ([0, 1, 0x81, 0, 0, 1, 0, 0, 0, 0, 0, 0, 0, 0, 2, 0, 1]) 17 = Some (0, y') \<and>
     rr_flags y' = 0 \<and> GET_QR (rr_flags y') = 0 \<and> cstr (rr_name y') = Some [120]"
proof -
  let ?m = "[0, 1, 0x81, 0, 0, 1, 0, 0, 0, 0, 0, 0, 0, 0, 2, 0, 1] :: bytes"
  let ?y = "blank_rr\<lparr>rr_name := 88 # replicate 255 0\<rparr>"
  have "\<exists>y'. parse_query (init_dns 1) ?y ?m 17 = Some (0, y') \<and>
      rr_flags y' = ntohs2 0 (?m ! 3) \<and> cstr (rr_name y') = Some (map tolower (strip_dot [88]))"
    by (rule root_question_clobbers_flags)
       (simp_all add: PACKET_DATABEGIN_def RR_NAMESIZE_def cstr_def ntohs2_def)
  then show ?thesis
    by (auto simp: ntohs2_def strip_dot_def ctype_defs flag_defs)
qed

text \<open>
  Reading one resource record never leaves the packet or the record's buffers, whatever
  index it starts from and whatever RDLENGTH claims: it fails with -1 or returns an index that
  is still inside the packet, and so does the whole packet dump, for every section count.
\<close>

theorem packet_dump_memory_safe:
  assumes "10 \<le> len" and "len \<le> length pkt"
    and "length (rr_name y) = RR_NAMESIZE" and "length (rr_data y) = RR_NAMESIZE"
  shows "\<exists>x. decode_header pkt len = Some x \<and>
           (\<exists>out r. dump_dnspacket dbg vc y pkt len = Some (r, out)) \<and>
           (\<exists>r y'. read_record vc x y index question len = Some (r, y') \<and>
              (r = -1 \<or> 0 \<le> r \<and> r \<le> int len))"
proof -
  obtain x where x: "decode_header pkt len = Some x" "packet x = take len pkt @ [0, 0]"
    using decode_header_Some [OF assms(1,2)] by blast
  then have "len \<le> length (packet x)" using assms(2) by simp
  from read_record_safe [OF this assms(3,4)] dump_dnspacket_safe [OF assms] x(1)
  show ?thesis by blast
qed

theorem packet_dump_memory_safe_witness:
  "\<exists>x. decode_header example_query 26 = Some x \<and>
     (\<exists>out r. dump_dnspacket 4 (init_dns 1) blank_rr example_query 26 = Some (r, out)) \<and>
     (\<exists>r y'. read_record (init_dns 1) x blank_rr 24 False 26 = Some (r, y') \<and>
        (r = -1 \<or> 0 \<le> r \<and> r \<le> int 26))"
  by (rule packet_dump_memory_safe) (simp_all add: example_query_def blank_rr_def RR_NAMESIZE_def)

text \<open>
  The OPCODE mask.  \<open>GET_OPCODE\<close> does not extract the four opcode bits: the mask
  \<open>0xe800\<close> of dns.h drops the second opcode bit, so for each of the sixteen opcodes the
  result is the opcode without that bit (STATUS, opcode 2, reads as a standard query), and the
  QR bit of a response leaks into the value.
\<close>

theorem opcode_mask_drops_a_bit:
  "map (\<lambda>k. GET_OPCODE (push_bit 11 (of_nat k))) [0..<16] = map (\<lambda>k. of_nat k AND 0xD) [0..<16] \<and>
   GET_OPCODE 0x1000 = 0 \<and> GET_OPCODE 0x8000 = 16"
  by code_simp

text \<open>
  Long resource data.  A record whose RDLENGTH exceeds the 252 bytes that \<open>rr_t\<close> can
  hold is not skipped as a whole: \<open>read_record\<close> advances by 252 instead of RDLENGTH, so the
  next record is read from the middle of this one.
\<close>

theorem read_record_long_rdata_misaligns:
  assumes "name_at (packet x) len i h ls e" and "list_all (list_all vc) ls"
    and "length (dotted ls) < RR_NAMESIZE" and "h < len" and "h \<le> UDP_MAXSIZE"
    and "PACKET_DATABEGIN \<le> i" and "len \<le> length (packet x)"
    and "length (rr_name y) = RR_NAMESIZE" and "length (rr_data y) = RR_NAMESIZE"
    and "rl = unat (ntohs2 (packet x ! (e + 8)) (packet x ! (e + 9)))"
    and "252 < rl" and "e + 10 + rl \<le> len"
  shows "\<exists>y'. read_record vc x y (int i) False len = Some (int (e + 10 + 252), y')"
proof -
  have g: "get_objname vc (packet x) len (int i) (flags_hi (rr_flags y)) (rr_name y) RR_NAMESIZE =
      Some (int e, if ls = [] then 0 else flags_hi (rr_flags y),
        if ls = [] then rr_name y
        else butlast (dotted ls) @ 0 # drop (length (dotted ls)) (rr_name y))"
    by (rule get_objname_complete) (use assms in \<open>simp_all add: RR_NAMESIZE_def\<close>)
  have rl: "unat (ntohs2 (packet x ! (8 + e)) (packet x ! (9 + e))) = rl"
    using assms(10) by (simp add: add.commute)
  show ?thesis
    using assms(7-9,11,12) rl
    by (simp add: read_record_def g [unfolded RR_NAMESIZE_def] Let_def RR_NAMESIZE_def add.commute)
qed

definition long_record :: dnsheader_t where
  "long_record = \<lparr>hd_id = 0, hd_u = 0, qdcount = 0, ancount = 1, nscount = 0, arcount = 0, here = 12,
     packet = replicate 12 0 @ [0, 0, 16, 0, 1, 0, 0, 0, 0, 1, 44] @ replicate 302 0,
     plen = 323, rdata = None\<rparr>"

theorem read_record_long_rdata_misaligns_witness:
  "\<exists>y'. read_record (init_dns 1) long_record blank_rr 12 False 323 = Some (275, y')"
proof -
  have "\<exists>y'. read_record (init_dns 1) long_record blank_rr (int 12) False 323 =
      Some (int (13 + 10 + 252), y')"
  proof (rule read_record_long_rdata_misaligns)
    show "name_at (packet long_record) 323 12 0 [] 13"
      using name_root [of 12 323 "packet long_record"] by (simp add: long_record_def nth_append)
    show "300 = unat (ntohs2 (packet long_record ! (13 + 8)) (packet long_record ! (13 + 9)))"
      by (simp add: long_record_def ntohs2_def nth_append)
  qed (simp_all add: long_record_def blank_rr_def RR_NAMESIZE_def PACKET_DATABEGIN_def UDP_MAXSIZE_def)
  then show ?thesis by simp
qed

end
