(* ===== verification/Dnrd_Common.thy ===== *)
theory Dnrd_Common
  imports Dnrd_Dns
begin

section \<open>dnrd: names of the configuration (common.c)\<close>

text \<open>
  \<open>make_cname\<close> turns a dotted domain of the command line into the length-prefixed form that
  \<open>search_subdomnode\<close> compares with packets; \<open>cname2asc\<close> is its inverse for log
  messages.  \<open>None\<close> is an access outside a buffer or a failed \<open>assert\<close> (the process
  aborts), \<open>Some None\<close> is the NULL that reports a malformed name.
\<close>

subsection \<open>make\_cname\<close>

text \<open>\<open>strchr(tptr, '.')\<close> as an index into the str.\<close>

fun strchr_from :: "bytes \<Rightarrow> nat \<Rightarrow> byte \<Rightarrow> nat option" where
  "strchr_from [] t c = None"
| "strchr_from (x # xs) 0 c = (if x = c then Some 0 else map_option Suc (strchr_from xs 0 c))"
| "strchr_from (x # xs) (Suc t) c = map_option Suc (strchr_from xs t c)"

text \<open>\<open>memcpy\<close> into a buffer at an offset.\<close>

definition blit :: "bytes \<Rightarrow> nat \<Rightarrow> bytes \<Rightarrow> bytes option" where
  "blit dst at src =
     (if at + length src \<le> length dst
      then Some (take at dst @ src @ drop (at + length src) dst) else None)"

lemma strchr_from_bounds: "strchr_from s t c = Some e \<Longrightarrow> t \<le> e \<and> e < length s \<and> s ! e = c"
  by (induction s t c arbitrary: e rule: strchr_from.induct) (auto split: if_splits)

definition next_end :: "bytes \<Rightarrow> nat \<Rightarrow> nat \<Rightarrow> nat" where
  "next_end str maxlen tptr =
     (case strchr_from str tptr 46 of Some e \<Rightarrow> e | None \<Rightarrow> strnlen str maxlen)"

lemma next_end_le: "next_end str maxlen tptr \<le> length str"
  using strchr_from_bounds [of str tptr 46] by (auto simp: next_end_def split: option.split)

function make_cname_loop ::
  "bytes \<Rightarrow> nat \<Rightarrow> nat \<Rightarrow> bytes \<Rightarrow> nat \<Rightarrow> (bytes \<times> nat) option option" where
  "make_cname_loop str maxlen tptr cname cptr =
     (let stop = next_end str maxlen tptr in
      if stop \<le> tptr then Some None
      else (case blit cname cptr (of_nat (stop - tptr) # take (stop - tptr) (drop tptr str)) of
              None \<Rightarrow> None
            | Some cname' \<Rightarrow>
                let cptr' = cptr + 1 + (stop - tptr) in
                if stop = length str then Some (Some (cname', cptr'))
                else make_cname_loop str maxlen (stop + 1) cname' cptr'))"
  by pat_completeness auto
termination
proof (relation "measure (\<lambda>(str, maxlen, tptr, cname, cptr). length str - tptr)", goal_cases)
  case 1
  then show ?case by simp
next
  case (2 str maxlen tptr cname cptr)
  then show ?case using next_end_le [of str maxlen tptr] by auto
qed

declare make_cname_loop.simps [simp del]

definition make_cname :: "bytes \<Rightarrow> nat \<Rightarrow> bytes option option" where
  "make_cname str maxlen =
     (let buf = replicate (strnlen str maxlen + 2) 0 in
      case (if str = [] then Some (Some (buf, 0)) else make_cname_loop str maxlen 0 buf 0) of
        None \<Rightarrow> None
      | Some None \<Rightarrow> Some None
      | Some (Some (cname, cptr)) \<Rightarrow>
          (case poke cname cptr 0 of
             None \<Rightarrow> None
           | Some cname' \<Rightarrow> if cptr = strnlen str maxlen + 1 then Some (Some cname') else None))"

subsection \<open>cname2asc\<close>

definition cname2asc :: "(byte \<Rightarrow> bool) \<Rightarrow> byte \<Rightarrow> bytes \<Rightarrow> bytes option \<Rightarrow> bytes option" where
  "cname2asc vc below buf cname =
     (case cname of
        Some c \<Rightarrow> do { (r, b, d) \<leftarrow> snprintf_cname vc (c @ [0]) (length c) 0 below buf 256; Some d }
      | None \<Rightarrow> strncpy buf (bytes_of ''(default)'') 256)"

subsection \<open>The encoding of a well-formed domain\<close>

definition encode_labels :: "bytes list \<Rightarrow> bytes" where
  "encode_labels ls = concat (map (\<lambda>l. of_nat (length l) # l) ls)"

definition join_dots :: "bytes list \<Rightarrow> bytes" where
  "join_dots ls = butlast (dotted ls)"

lemma encode_labels_simps [simp]:
  "encode_labels [] = []"
  "encode_labels (l # ls) = of_nat (length l) # l @ encode_labels ls"
  by (simp_all add: encode_labels_def)

lemma join_dots_Cons: "ls \<noteq> [] \<Longrightarrow> join_dots (l # ls) = l @ 46 # join_dots ls"
  by (simp add: join_dots_def butlast_append)

lemma join_dots_single [simp]: "join_dots [l] = l"
  by (simp add: join_dots_def)

lemma length_encode_labels: "ls \<noteq> [] \<Longrightarrow> length (encode_labels ls) = Suc (length (join_dots ls))"
proof (induction ls)
  case (Cons l ls)
  then show ?case by (cases "ls = []") (auto simp: join_dots_Cons)
qed simp

lemma strchr_from_skip:
  "46 \<notin> set l \<Longrightarrow> strchr_from (p @ l @ 46 # r) (length p) 46 = Some (length p + length l)"
proof (induction p)
  case Nil
  then show ?case by (induction l) auto
qed simp

lemma strchr_from_none: "46 \<notin> set l \<Longrightarrow> strchr_from (p @ l) (length p) 46 = None"
proof (induction p)
  case Nil
  then show ?case by (induction l) (auto simp: strchr_from.simps)
qed simp

lemma blit_next:
  assumes "length c = k" and "k + length src \<le> m"
  shows "blit (c @ replicate (m - k) 0) k src = Some ((c @ src) @ replicate (m - (k + length src)) 0)"
  using assms by (simp add: blit_def)

text \<open>The loop encodes the labels that are left, whatever was written before.\<close>

lemma make_cname_loop_labels:
  assumes "ls \<noteq> []" and "\<forall>l \<in> set ls. l \<noteq> [] \<and> 46 \<notin> set l"
    and "str = p @ join_dots ls" and "length str \<le> maxlen" and "length c = length p"
  shows "make_cname_loop str maxlen (length p) (c @ replicate (length str + 2 - length p) 0) (length p) =
           Some (Some (c @ encode_labels ls @ [0], length str + 1))"
  using assms
proof (induction ls arbitrary: p c)
  case (Cons l ls)
  have l: "l \<noteq> []" "46 \<notin> set l" using Cons.prems by auto
  let ?src = "of_nat (length l) # l"
  show ?case
  proof (cases "ls = []")
    case True
    then have t: "str = p @ l" using Cons.prems by simp
    then have "next_end str maxlen (length p) = length str"
      using strchr_from_none [OF l(2), of p] Cons.prems by (simp add: next_end_def)
    moreover have "blit (c @ replicate (length str + 2 - length p) 0) (length p) ?src =
        Some ((c @ ?src) @ replicate (length str + 2 - (length p + length ?src)) 0)"
      using blit_next [of c "length p" ?src "length str + 2"] Cons.prems t by simp
    ultimately show ?thesis using t l True Cons.prems
      by (subst make_cname_loop.simps) (simp add: Let_def)
  next
    case False
    then have t: "str = p @ l @ 46 # join_dots ls" using Cons.prems by (simp add: join_dots_Cons)
    then have e: "next_end str maxlen (length p) = length p + length l"
      using strchr_from_skip [OF l(2), of p "join_dots ls"] by (simp add: next_end_def)
    have b: "blit (c @ replicate (length str + 2 - length p) 0) (length p) ?src =
        Some ((c @ ?src) @ replicate (length str + 2 - (length p + length ?src)) 0)"
    proof (rule blit_next)
      show "length p + length ?src \<le> length str + 2" unfolding t by simp
    qed (fact Cons.prems(5))
    have t': "str = (p @ l @ [46]) @ join_dots ls" using t by simp
    have IH: "make_cname_loop str maxlen (length (p @ l @ [46]))
        ((c @ ?src) @ replicate (length str + 2 - length (p @ l @ [46])) 0) (length (p @ l @ [46])) =
        Some (Some ((c @ ?src) @ encode_labels ls @ [0], length str + 1))"
      by (rule Cons.IH) (use Cons.prems False t' in auto)
    have sl: "take (length l) (drop (length p) str) = l" using t by simp
    show ?thesis
      using e b IH l sl t
      by (subst make_cname_loop.simps) (simp add: Let_def)
  qed
qed simp

lemma make_cname_labels:
  assumes "ls \<noteq> []" and "\<forall>l \<in> set ls. l \<noteq> [] \<and> 46 \<notin> set l" and "length (join_dots ls) \<le> maxlen"
  shows "make_cname (join_dots ls) maxlen = Some (Some (encode_labels ls @ [0]))"
proof -
  have ne: "join_dots ls \<noteq> []"
    using assms(1,2) by (cases ls; cases "tl ls") (auto simp: join_dots_Cons)
  have "make_cname_loop (join_dots ls) maxlen 0 (replicate (length (join_dots ls) + 2) 0) 0 =
      Some (Some (encode_labels ls @ [0], length (join_dots ls) + 1))"
    using make_cname_loop_labels [OF assms(1,2), of "join_dots ls" "[]" maxlen "[]"] assms(3)
    by simp
  moreover have "poke (encode_labels ls @ [0]) (length (join_dots ls) + 1) 0 =
      Some (encode_labels ls @ [0])"
    using list_update_at_length [of "encode_labels ls" 0 "[]" 0]
    by (simp add: length_encode_labels [OF assms(1)])
  ultimately show ?thesis using ne assms(3) by (simp add: make_cname_def Let_def)
qed

text \<open>
  \<open>make_cname\<close> on a well-formed domain (non-empty labels, at most \<open>maxlen\<close> bytes)
  writes exactly the length-prefixed labels and a NUL into a buffer of exactly that size: it
  neither overruns the buffer it allocated nor fails its closing assertion.
\<close>

theorem make_cname_encodes:
  assumes "ls \<noteq> []" and "\<forall>l \<in> set ls. l \<noteq> [] \<and> 46 \<notin> set l" and "length (join_dots ls) \<le> maxlen"
  shows "make_cname (join_dots ls) maxlen = Some (Some (encode_labels ls @ [0])) \<and>
         length (encode_labels ls @ [0]) = length (join_dots ls) + 2"
  using make_cname_labels [OF assms] length_encode_labels [OF assms(1)] by simp

theorem make_cname_encodes_witness:
  "make_cname (bytes_of ''yes.org'') 200 = Some (Some ([3, 121, 101, 115, 3, 111, 114, 103] @ [0]))"
  using make_cname_encodes [of "[bytes_of ''yes'', bytes_of ''org'']" 200]
  by (simp add: bytes_of_def join_dots_def)

text \<open>
  The error paths of \<open>make_cname\<close>: an empty text fails the closing assertion (the daemon
  aborts on \<open>-s addr:\<close>), an empty label in front or at the end is reported as NULL, and a
  text longer than \<open>maxlen\<close> with a dot behind that limit overruns the allocated buffer.
\<close>

theorem make_cname_errors:
  "make_cname [] 200 = None \<and>
   make_cname (bytes_of ''.org'') 200 = Some None \<and>
   make_cname (bytes_of ''org.'') 200 = Some None \<and>
   make_cname (replicate 210 97 @ [46, 97]) 200 = None"
proof (intro conjI)
  show "make_cname [] 200 = None"
    by (simp add: make_cname_def)
  show "make_cname (bytes_of ''.org'') 200 = Some None"
    by (simp add: make_cname_def bytes_of_def make_cname_loop.simps next_end_def)
  show "make_cname (bytes_of ''org.'') 200 = Some None"
    by (simp add: make_cname_def bytes_of_def make_cname_loop.simps next_end_def blit_def)
  have "strchr_from (replicate 210 97 @ [46, 97]) 0 46 = Some 210"
    using strchr_from_skip [of "replicate 210 97" "[]" "[97]"] by simp
  then have "make_cname_loop (replicate 210 97 @ [46, 97]) 200 0 (replicate 202 0) 0 = None"
    by (subst make_cname_loop.simps) (simp add: next_end_def blit_def)
  then show "make_cname (replicate 210 97 @ [46, 97]) 200 = None"
    by (simp add: make_cname_def Let_def)
qed

text \<open>
  The log helper \<open>cname2asc\<close> never converts anything: it asks \<open>snprintf_cname\<close> for
  index 0, which the decoder refuses, so every configured domain is logged as
  \<open>(malformatted)\<close>.
\<close>

theorem cname2asc_always_malformatted:
  assumes "length buf = 256"
  shows "\<exists>d. cname2asc vc below buf (Some cname) = Some d \<and> cstr d = Some (bytes_of ''(malformatted)'')"
proof -
  let ?m = "bytes_of ''(malformatted)''"
  have z: "0 \<notin> set ?m" and l: "length ?m = 14" by (simp_all add: bytes_of_def)
  have "strncpy buf malformatted 256 = Some (?m @ replicate 242 0)"
    using assms l by (simp add: strncpy_def malformatted_def)
  moreover have "replicate 242 (0 :: byte) = 0 # replicate 241 0"
    by (simp flip: replicate_Suc)
  ultimately show ?thesis using z
    by (simp add: cname2asc_def snprintf_cname_def get_objname_def PACKET_DATABEGIN_def)
qed

theorem cname2asc_always_malformatted_witness:
  "\<exists>d. cname2asc (init_dns 1) 0 (replicate 256 0) (Some [3, 111, 114, 103]) = Some d \<and>
       cstr d = Some (bytes_of ''(malformatted)'')"
  by (rule cname2asc_always_malformatted) simp

end
