(* ===== verification/Dnrd_Servers.thy ===== *)
theory Dnrd_Servers
  imports Dnrd_Common "HOL-Library.Sublist"
begin

section \<open>dnrd: forwarding servers and domains (srvnode.c, domnode.c)\<close>

text \<open>
  A server list of dnrd is a circular singly linked list through a dummy node, the head; a
  domain list is one of the same shape whose head is the default domain.  The model writes a
  circular list as the HOL list of its nodes in \<open>next\<close> order with the head at position 0, a
  pointer into it as a position, and \<open>p->next\<close> as the cyclic successor of a position
  (\<open>next_pos\<close>).  Positions are stable under the insertions of the program because servers
  are added behind the last node (\<open>add_srv(last_srvnode(..))\<close>) and domains are only added
  while the command line is parsed, before any pointer into the domain list is kept.

  \<open>None\<close> is a failed \<open>assert\<close> or an access through a pointer that is not in the
  list.  Times are 32-bit \<open>time_t\<close> values, compared as signed numbers.
\<close>

type_synonym time_t = u32

record srvnode_t =
  sv_addr :: u32
  sv_inactive :: time_t
  send_count :: u32
  send_time :: u32

record domnode_t =
  dn_domain :: "bytes option"
  dn_srvlist :: "srvnode_t list"
  dn_current :: "nat option"
  dn_roundrobin :: bool

text \<open>A \<open>srvnode_t *\<close> kept outside its own list: domain position and server position.\<close>

type_synonym srv_ref = "nat \<times> nat"

definition next_pos :: "'a list \<Rightarrow> nat \<Rightarrow> nat" where
  "next_pos xs k = (k + 1) mod length xs"

subsection \<open>srvnode.c\<close>

definition alloc_srvnode :: srvnode_t where
  "alloc_srvnode = \<lparr>sv_addr = 0, sv_inactive = -1, send_count = 0, send_time = 0\<rparr>"

definition init_srvlist :: "srvnode_t list" where
  "init_srvlist = [alloc_srvnode]"

definition ins_srvnode :: "'a list \<Rightarrow> nat \<Rightarrow> 'a \<Rightarrow> ('a list \<times> nat) option" where
  "ins_srvnode xs k p =
     (if k < length xs then Some (take (k + 1) xs @ p # drop (k + 1) xs, k + 1) else None)"

text \<open>Unlinking the node behind position \<open>k\<close>.  The head itself is never unlinked: every
  caller tests \<open>p->next != head\<close> first, and without that test the list is lost.\<close>

definition del_srvnode_after :: "'a list \<Rightarrow> nat \<Rightarrow> ('a \<times> 'a list) option" where
  "del_srvnode_after xs k =
     (if k + 1 < length xs then Some (xs ! (k + 1), take (k + 1) xs @ drop (k + 2) xs) else None)"

text \<open>\<open>clear_srvlist\<close> also returns the nodes it passed to \<open>destroy_srvnode\<close>, in
  order: the memory given back.\<close>

function clear_loop :: "'a list \<Rightarrow> 'a list \<Rightarrow> ('a list \<times> 'a list) option" where
  "clear_loop xs freed =
     (if xs = [] then None
      else if next_pos xs 0 = 0 then Some (xs, freed)
      else (case del_srvnode_after xs 0 of
              None \<Rightarrow> None
            | Some (p, xs') \<Rightarrow> clear_loop xs' (freed @ [p])))"
  by pat_completeness auto
termination
  by (relation "measure (length \<circ> fst)") (auto simp: del_srvnode_after_def split: if_splits)

declare clear_loop.simps [simp del]

definition clear_srvlist :: "srvnode_t list \<Rightarrow> (srvnode_t list \<times> srvnode_t list) option" where
  "clear_srvlist head = clear_loop head []"

definition destroy_srvlist :: "srvnode_t list \<Rightarrow> srvnode_t list option" where
  "destroy_srvlist head = do { (h, freed) \<leftarrow> clear_srvlist head; Some (freed @ h) }"

definition add_srv ::
  "(bytes \<Rightarrow> u32 option) \<Rightarrow> srvnode_t list \<Rightarrow> nat \<Rightarrow> bytes \<Rightarrow> (srvnode_t list \<times> nat option) option" where
  "add_srv inet_aton xs k ipaddr =
     (case inet_aton ipaddr of
        None \<Rightarrow> Some (xs, None)
      | Some a \<Rightarrow> do {
          let p = alloc_srvnode\<lparr>sv_addr := a, sv_inactive := 0\<rparr>;
          (xs', j) \<leftarrow> ins_srvnode xs k p;
          Some (xs', Some j) })"

function last_loop :: "'a list \<Rightarrow> nat \<Rightarrow> nat option" where
  "last_loop xs p =
     (if length xs \<le> p then None
      else if next_pos xs p = 0 then Some p
      else last_loop xs (next_pos xs p))"
  by pat_completeness auto
termination
  by (relation "measure (\<lambda>(xs, p). length xs - p)")
     (auto simp: next_pos_def mod_Suc split: if_splits)

declare last_loop.simps [simp del]

definition last_srvnode :: "srvnode_t list \<Rightarrow> nat option" where
  "last_srvnode xs = last_loop xs 0"

definition no_srvlist :: "'a list \<Rightarrow> bool" where
  "no_srvlist xs \<longleftrightarrow> xs = [] \<or> next_pos xs 0 = 0"

subsection \<open>domnode.c: the list of domains\<close>

definition alloc_domnode :: domnode_t where
  "alloc_domnode =
     \<lparr>dn_domain = None, dn_srvlist = init_srvlist, dn_current = None, dn_roundrobin = False\<rparr>"

definition init_domainlist :: "domnode_t list" where
  "init_domainlist = [alloc_domnode]"

definition ins_domnode :: "domnode_t list \<Rightarrow> nat \<Rightarrow> domnode_t \<Rightarrow> (domnode_t list \<times> nat) option" where
  "ins_domnode xs k p = ins_srvnode xs k p"

definition del_domnode :: "domnode_t list \<Rightarrow> nat \<Rightarrow> (domnode_t \<times> domnode_t list) option" where
  "del_domnode xs k = del_srvnode_after xs k"

text \<open>The servers freed with a domain; its name and itself are freed with them.\<close>

definition destroy_domnode :: "domnode_t \<Rightarrow> srvnode_t list option" where
  "destroy_domnode p = destroy_srvlist (dn_srvlist p)"

definition empty_domlist :: "domnode_t list \<Rightarrow> (domnode_t list \<times> domnode_t list) option" where
  "empty_domlist head = clear_loop head []"

definition add_domain :: "domnode_t list \<Rightarrow> bool \<Rightarrow> bytes \<Rightarrow> (domnode_t list \<times> nat) option" where
  "add_domain xs load_balance cname =
     ins_domnode xs 0 (alloc_domnode\<lparr>dn_domain := Some cname, dn_roundrobin := load_balance\<rparr>)"

text \<open>\<open>while ((d = d->next) != head)\<close>: the body runs at the positions behind \<open>d\<close>.
  A domain other than the default one has a name; \<open>strcmp\<close> on NULL is undefined.\<close>

fun search_loop :: "domnode_t list \<Rightarrow> nat \<Rightarrow> bytes \<Rightarrow> nat option option" where
  "search_loop [] k name = Some None"
| "search_loop (d # ds) k name =
     (case dn_domain d of
        None \<Rightarrow> None
      | Some nm \<Rightarrow> if nm = name then Some (Some k) else search_loop ds (k + 1) name)"

definition search_domnode :: "domnode_t list \<Rightarrow> bytes \<Rightarrow> nat option option" where
  "search_domnode head name = search_loop (tl head) 1 name"

text \<open>\<open>strnlen\<close> and \<open>strncmp(..) == 0\<close> on bytes in memory: running off the end of the
  buffer is \<open>None\<close>.\<close>

fun mem_strnlen :: "bytes \<Rightarrow> nat \<Rightarrow> nat option" where
  "mem_strnlen m 0 = Some 0"
| "mem_strnlen [] (Suc n) = None"
| "mem_strnlen (c # m) (Suc n) = (if c = 0 then Some 0 else map_option Suc (mem_strnlen m n))"

fun mem_strneq :: "bytes \<Rightarrow> bytes \<Rightarrow> nat \<Rightarrow> bool option" where
  "mem_strneq a b 0 = Some True"
| "mem_strneq (x # a) (y # b) (Suc n) =
     (if x \<noteq> y then Some False else if x = 0 then Some True else mem_strneq a b n)"
| "mem_strneq a b (Suc n) = None"

fun subdom_loop ::
  "domnode_t list \<Rightarrow> nat \<Rightarrow> bytes \<Rightarrow> nat \<Rightarrow> nat \<Rightarrow> nat \<Rightarrow> nat option" where
  "subdom_loop [] k name maxlen cur maxfound = Some cur"
| "subdom_loop (d # ds) k name maxlen cur maxfound =
     (case (dn_domain d, mem_strnlen name maxlen) of
        (Some nm, Some n) \<Rightarrow>
          let h = strnlen nm maxlen; off = (if h < n then n - h else 0) in
          (case mem_strneq (nm @ [0]) (drop off name) (maxlen - off) of
             None \<Rightarrow> None
           | Some eq \<Rightarrow>
               if eq \<and> maxfound < h then subdom_loop ds (k + 1) name maxlen k h
               else subdom_loop ds (k + 1) name maxlen cur maxfound)
      | _ \<Rightarrow> None)"

definition search_subdomnode :: "domnode_t list \<Rightarrow> bytes \<Rightarrow> nat \<Rightarrow> nat option" where
  "search_subdomnode head name maxlen = subdom_loop (tl head) 1 name maxlen 0 0"

subsection \<open>domnode.c: choosing the current server\<close>

definition set_current :: "domnode_t \<Rightarrow> nat option \<Rightarrow> domnode_t" where
  "set_current d s = d\<lparr>dn_current := s\<rparr>"

definition dist_pos :: "'a list \<Rightarrow> nat \<Rightarrow> nat \<Rightarrow> nat" where
  "dist_pos xs start s = (if s \<le> start then start - s else start + length xs - s)"

function active_scan :: "srvnode_t list \<Rightarrow> nat \<Rightarrow> nat \<Rightarrow> nat option" where
  "active_scan xs start s =
     (if length xs \<le> s \<or> length xs \<le> start then None
      else if sv_inactive (xs ! s) \<noteq> 0 \<and> s \<noteq> start then active_scan xs start (next_pos xs s)
      else Some s)"
  by pat_completeness auto
termination
  by (relation "measure (\<lambda>(xs, start, s). dist_pos xs start s)")
     (auto simp: next_pos_def dist_pos_def mod_Suc split: if_splits)

declare active_scan.simps [simp del]

definition next_active :: "domnode_t \<Rightarrow> nat option option" where
  "next_active d =
     (let start = (case dn_current d of Some c \<Rightarrow> c | None \<Rightarrow> 0) in
      case active_scan (dn_srvlist d) start (next_pos (dn_srvlist d) start) of
        None \<Rightarrow> None
      | Some s \<Rightarrow> if sv_inactive (dn_srvlist d ! s) \<noteq> 0 then Some None else Some (Some s))"

definition upd_srv :: "nat \<Rightarrow> (srvnode_t \<Rightarrow> srvnode_t) \<Rightarrow> domnode_t \<Rightarrow> domnode_t option" where
  "upd_srv k f d = do {
     s \<leftarrow> peek (dn_srvlist d) k;
     Some (d\<lparr>dn_srvlist := (dn_srvlist d)[k := f s]\<rparr>) }"

definition deactivate_current :: "time_t \<Rightarrow> domnode_t \<Rightarrow> (domnode_t \<times> nat option) option" where
  "deactivate_current now d = do {
     d1 \<leftarrow> (case dn_current d of
               Some c \<Rightarrow> upd_srv c (\<lambda>s. s\<lparr>sv_inactive := now\<rparr>) d
             | None \<Rightarrow> Some d);
     s \<leftarrow> next_active d1;
     Some (set_current d1 s, s) }"

definition reactivate_srvlist :: "domnode_t \<Rightarrow> domnode_t" where
  "reactivate_srvlist d =
     d\<lparr>dn_srvlist := take 1 (dn_srvlist d) @
         map (\<lambda>s. s\<lparr>sv_inactive := 0, send_time := 0\<rparr>) (drop 1 (dn_srvlist d))\<rparr>"

subsection \<open>Well-formed lists\<close>

text \<open>The head of a server list is never active (\<open>alloc_srvnode\<close> sets \<open>inactive\<close>
  to \<open>-1\<close> and nothing resets it), and \<open>current\<close> points into the list.\<close>

definition srvlist_ok :: "srvnode_t list \<Rightarrow> bool" where
  "srvlist_ok xs \<longleftrightarrow> xs \<noteq> [] \<and> sv_inactive (xs ! 0) \<noteq> 0"

definition domnode_ok :: "domnode_t \<Rightarrow> bool" where
  "domnode_ok d \<longleftrightarrow> srvlist_ok (dn_srvlist d) \<and>
     (case dn_current d of None \<Rightarrow> True | Some c \<Rightarrow> c < length (dn_srvlist d))"

definition domlist_ok :: "domnode_t list \<Rightarrow> bool" where
  "domlist_ok ds \<longleftrightarrow> ds \<noteq> [] \<and> list_all domnode_ok ds \<and>
     list_all (\<lambda>d. case dn_domain d of None \<Rightarrow> False | Some n \<Rightarrow> 0 \<notin> set n) (tl ds)"

lemma next_pos_less [simp]: "xs \<noteq> [] \<Longrightarrow> next_pos xs k < length xs"
  by (simp add: next_pos_def)

lemma dist_pos_next: "s < length xs \<Longrightarrow> start < length xs \<Longrightarrow> s \<noteq> start \<Longrightarrow>
    dist_pos xs start s = Suc (dist_pos xs start (next_pos xs s))"
  by (auto simp: dist_pos_def next_pos_def mod_Suc)

lemma dist_pos_self_next: "start < length xs \<Longrightarrow> Suc (dist_pos xs start (next_pos xs start)) = length xs"
  by (auto simp: dist_pos_def next_pos_def mod_Suc)

subsection \<open>The search for an active server\<close>

text \<open>Reference: the positions behind \<open>start\<close> in cyclic order, \<open>start\<close> itself last.\<close>

definition ring_after :: "nat \<Rightarrow> nat \<Rightarrow> nat list" where
  "ring_after n start = map (\<lambda>i. (start + 1 + i) mod n) [0..<n]"

abbreviation active_at :: "srvnode_t list \<Rightarrow> nat \<Rightarrow> bool" where
  "active_at xs k \<equiv> sv_inactive (xs ! k) = 0"

lemma active_scan_find:
  assumes "s < length xs" and "start < length xs"
  shows "active_scan xs start s =
    Some (case find (active_at xs) (map (\<lambda>i. (s + i) mod length xs) [0..<dist_pos xs start s]) of
            Some j \<Rightarrow> j | None \<Rightarrow> start)"
  using assms
proof (induction xs start s rule: active_scan.induct)
  case (1 xs start s)
  have shift: "(\<lambda>i. Suc (s + i) mod length xs) = (\<lambda>i. (next_pos xs s + i) mod length xs)"
    by (simp add: next_pos_def mod_add_left_eq fun_eq_iff)
  show ?case
  proof (cases "s = start")
    case True
    then show ?thesis using 1(2,3) by (subst active_scan.simps) (simp add: dist_pos_def)
  next
    case False
    then have d: "[0..<dist_pos xs start s] = 0 # map Suc [0..<dist_pos xs start (next_pos xs s)]"
      using dist_pos_next [of s xs start] 1(2,3) by (simp add: upt_conv_Cons map_Suc_upt del: upt_Suc)
    show ?thesis
    proof (cases "active_at xs s")
      case True
      then show ?thesis using 1(2,3) by (subst active_scan.simps) (simp add: d)
    next
      case act: False
      have "active_scan xs start s = active_scan xs start (next_pos xs s)"
        using 1(2,3) False act by (subst active_scan.simps) simp
      also have "\<dots> = Some (case find (active_at xs)
          (map (\<lambda>i. (next_pos xs s + i) mod length xs) [0..<dist_pos xs start (next_pos xs s)]) of
            Some j \<Rightarrow> j | None \<Rightarrow> start)"
        using 1(2,3) False act by (intro 1(1)) (auto intro!: next_pos_less)
      finally show ?thesis using act 1(2) by (simp add: d comp_def shift)
    qed
  qed
qed

lemma next_active_eq:
  assumes "start < length (dn_srvlist d)"
    and "start = (case dn_current d of Some c \<Rightarrow> c | None \<Rightarrow> 0)"
  shows "next_active d =
    Some (find (active_at (dn_srvlist d)) (ring_after (length (dn_srvlist d)) start))"
proof -
  let ?xs = "dn_srvlist d" and ?n = "length (dn_srvlist d)"
  let ?l = "map (\<lambda>i. (next_pos ?xs start + i) mod ?n) [0..<dist_pos ?xs start (next_pos ?xs start)]"
  let ?m = "dist_pos ?xs start (next_pos ?xs start)"
  have n: "?n = Suc ?m" using dist_pos_self_next [OF assms(1)] by simp
  have pt: "(next_pos ?xs start + i) mod ?n = (start + 1 + i) mod ?n" for i
    by (simp add: next_pos_def mod_add_left_eq)
  have "(start + 1 + ?m) mod ?n = start"
    using n assms(1) by (metis add.assoc add.commute mod_add_self2 mod_less plus_1_eq_Suc)
  then have ring: "ring_after ?n start = ?l @ [start]"
    unfolding ring_after_def by (subst (2) n) (simp add: pt)
  have ne: "?xs \<noteq> []" using assms(1) by auto
  have sc: "active_scan ?xs start (next_pos ?xs start) =
      Some (case find (active_at ?xs) ?l of Some j \<Rightarrow> j | None \<Rightarrow> start)"
    by (rule active_scan_find [OF next_pos_less [OF ne] assms(1)])
  have fd: "find P (ys @ [start]) = (case find P ys of Some j \<Rightarrow> Some j | None \<Rightarrow> if P start then Some start else None)"
    for P and ys :: "nat list" by (induction ys) auto
  show ?thesis
    unfolding next_active_def Let_def assms(2) [symmetric] sc ring fd
    by (auto split: option.split dest: find_Some_iff [THEN iffD1])
qed

lemma ring_after_set: "start < n \<Longrightarrow> set (ring_after n start) = {0..<n}"
proof -
  assume s: "start < n"
  have "k \<in> set (ring_after n start)" if k: "k < n" for k
  proof -
    let ?i = "(k + n - (start + 1)) mod n"
    have "(start + 1 + ?i) mod n = (start + 1 + (k + n - (start + 1))) mod n"
      by (rule mod_add_right_eq)
    also have "\<dots> = k" using s k by simp
    finally have "(start + 1 + ?i) mod n = k" .
    moreover have "?i < n" using k by simp
    ultimately show ?thesis unfolding ring_after_def by (force simp: image_iff)
  qed
  then show ?thesis using s by (auto simp: ring_after_def)
qed

lemma next_active_ok:
  assumes "domnode_ok d"
  shows "\<exists>r. next_active d = Some r \<and>
    (case r of None \<Rightarrow> \<forall>k < length (dn_srvlist d). \<not> active_at (dn_srvlist d) k
     | Some k \<Rightarrow> 0 < k \<and> k < length (dn_srvlist d) \<and> active_at (dn_srvlist d) k)"
proof -
  let ?xs = "dn_srvlist d"
  define start where "start = (case dn_current d of Some c \<Rightarrow> c | None \<Rightarrow> 0)"
  have s: "start < length ?xs"
    using assms by (auto simp: start_def domnode_ok_def srvlist_ok_def split: option.splits)
  let ?r = "find (active_at ?xs) (ring_after (length ?xs) start)"
  have "case ?r of None \<Rightarrow> \<forall>k < length ?xs. \<not> active_at ?xs k
     | Some k \<Rightarrow> 0 < k \<and> k < length ?xs \<and> active_at ?xs k"
  proof (cases ?r)
    case None
    moreover from None have "\<forall>k < length ?xs. \<not> active_at ?xs k"
      using ring_after_set [OF s] by (auto simp: find_None_iff)
    ultimately show ?thesis by simp
  next
    case (Some k)
    then have "active_at ?xs k" "k \<in> set (ring_after (length ?xs) start)"
      by (auto simp: find_Some_iff)
    moreover have "\<not> active_at ?xs 0" using assms by (simp add: domnode_ok_def srvlist_ok_def)
    ultimately show ?thesis using Some ring_after_set [OF s] by (cases k) auto
  qed
  then show ?thesis using next_active_eq [OF s start_def] by auto
qed

lemma upd_srv_Some:
  assumes "k < length (dn_srvlist d)"
  shows "upd_srv k f d = Some (d\<lparr>dn_srvlist := (dn_srvlist d)[k := f (dn_srvlist d ! k)]\<rparr>)"
  using assms by (simp add: upd_srv_def)

lemma domnode_ok_set_current:
  "domnode_ok d \<Longrightarrow> (case s of None \<Rightarrow> True | Some k \<Rightarrow> k < length (dn_srvlist d)) \<Longrightarrow>
     domnode_ok (set_current d s)"
  by (auto simp: domnode_ok_def set_current_def split: option.splits)

lemma domnode_ok_update:
  "domnode_ok d \<Longrightarrow> (k = 0 \<longrightarrow> sv_inactive v \<noteq> 0) \<Longrightarrow>
     domnode_ok (d\<lparr>dn_srvlist := (dn_srvlist d)[k := v]\<rparr>)"
  by (cases k) (auto simp: domnode_ok_def srvlist_ok_def nth_list_update split: option.split)

lemma domnode_ok_reactivate: "domnode_ok d \<Longrightarrow> domnode_ok (reactivate_srvlist d)"
  by (cases "dn_srvlist d")
     (auto simp: domnode_ok_def srvlist_ok_def reactivate_srvlist_def split: option.split)

lemma deactivate_current_ok:
  assumes ok: "domnode_ok d" and now: "now \<noteq> 0"
  shows "\<exists>d' r. deactivate_current now d = Some (d', r) \<and> domnode_ok d' \<and> dn_current d' = r \<and>
    dn_domain d' = dn_domain d \<and> dn_roundrobin d' = dn_roundrobin d \<and>
    length (dn_srvlist d') = length (dn_srvlist d) \<and>
    (\<forall>k < length (dn_srvlist d). dn_srvlist d' ! k =
       (if Some k = dn_current d then (dn_srvlist d ! k)\<lparr>sv_inactive := now\<rparr> else dn_srvlist d ! k)) \<and>
    (case r of None \<Rightarrow> \<forall>k < length (dn_srvlist d'). \<not> active_at (dn_srvlist d') k
     | Some k \<Rightarrow> 0 < k \<and> k < length (dn_srvlist d') \<and> active_at (dn_srvlist d') k \<and> Some k \<noteq> dn_current d)"
proof -
  define d1 where "d1 = (case dn_current d of None \<Rightarrow> d
    | Some c \<Rightarrow> d\<lparr>dn_srvlist := (dn_srvlist d)[c := (dn_srvlist d ! c)\<lparr>sv_inactive := now\<rparr>]\<rparr>)"
  have step: "(case dn_current d of Some c \<Rightarrow> upd_srv c (\<lambda>s. s\<lparr>sv_inactive := now\<rparr>) d
      | None \<Rightarrow> Some d) = Some d1"
    using ok by (auto simp: d1_def domnode_ok_def upd_srv_Some split: option.splits)
  have ok1: "domnode_ok d1"
    using ok now by (auto simp: d1_def intro: domnode_ok_update split: option.split)
  have nth1: "\<forall>k < length (dn_srvlist d). dn_srvlist d1 ! k =
       (if Some k = dn_current d then (dn_srvlist d ! k)\<lparr>sv_inactive := now\<rparr> else dn_srvlist d ! k)"
    by (auto simp: d1_def nth_list_update split: option.split)
  have frame: "length (dn_srvlist d1) = length (dn_srvlist d)" "dn_domain d1 = dn_domain d"
      "dn_roundrobin d1 = dn_roundrobin d"
    by (auto simp: d1_def split: option.split)
  obtain r where r: "next_active d1 = Some r"
    "case r of None \<Rightarrow> \<forall>k < length (dn_srvlist d1). \<not> active_at (dn_srvlist d1) k
     | Some k \<Rightarrow> 0 < k \<and> k < length (dn_srvlist d1) \<and> active_at (dn_srvlist d1) k"
    using next_active_ok [OF ok1] by blast
  have "deactivate_current now d = Some (set_current d1 r, r)"
    unfolding deactivate_current_def step by (simp add: r(1))
  moreover have "domnode_ok (set_current d1 r)"
    using r(2) by (intro domnode_ok_set_current ok1) (auto split: option.splits)
  moreover have "Some k \<noteq> dn_current d" if "r = Some k" for k
  proof
    assume c: "Some k = dn_current d"
    have "k < length (dn_srvlist d)" "active_at (dn_srvlist d1) k" using r(2) that frame(1) by auto
    then show False using nth1 c now by simp
  qed
  ultimately show ?thesis
    using r(2) nth1 frame by (auto simp: set_current_def split: option.splits)
qed

subsection \<open>The domain of a name\<close>

lemma mem_strnlen_string: "0 \<notin> set nm \<Longrightarrow> length nm < n \<Longrightarrow> mem_strnlen (nm @ 0 # rest) n = Some (length nm)"
proof (induction nm arbitrary: n)
  case Nil
  then show ?case by (cases n) auto
next
  case (Cons c nm)
  then show ?case by (cases n) auto
qed

lemma mem_strneq_string:
  "0 \<notin> set a \<Longrightarrow> 0 \<notin> set b \<Longrightarrow> length b < n \<Longrightarrow> mem_strneq (a @ [0]) (b @ 0 # rest) n = Some (a = b)"
proof (induction a arbitrary: b n)
  case Nil
  then show ?case by (cases n; cases b) auto
next
  case (Cons c a)
  then show ?case by (cases n; cases b) auto
qed

definition domain_of :: "domnode_t \<Rightarrow> bytes" where
  "domain_of d = (case dn_domain d of Some n \<Rightarrow> n | None \<Rightarrow> [])"

lemma subdom_match:
  assumes "0 \<notin> set dm" and "0 \<notin> set nm" and "length nm < maxlen"
  shows "mem_strneq (dm @ [0])
      (drop (if strnlen dm maxlen < length nm then length nm - strnlen dm maxlen else 0) (nm @ 0 # rest))
      (maxlen - (if strnlen dm maxlen < length nm then length nm - strnlen dm maxlen else 0))
    = Some (suffix dm nm)"
proof (cases "length dm < length nm")
  case True
  let ?o = "length nm - length dm"
  have h: "strnlen dm maxlen = length dm" using True assms(3) by simp
  have "0 \<notin> set (drop ?o nm)" using assms(2) by (auto dest: in_set_dropD)
  then have "mem_strneq (dm @ [0]) (drop ?o nm @ 0 # rest) (maxlen - ?o) = Some (dm = drop ?o nm)"
    using assms True by (intro mem_strneq_string) auto
  moreover have "dm = drop ?o nm \<longleftrightarrow> suffix dm nm"
    using True by (auto simp: suffix_def) (metis append_take_drop_id)
  ultimately show ?thesis using True h by simp
next
  case False
  then have "\<not> strnlen dm maxlen < length nm" using assms(3) by simp
  moreover have "suffix dm nm \<longleftrightarrow> dm = nm"
    using False by (metis not_less order_antisym suffix_length_le suffix_order.order_refl suffix_length_less
        suffix_order.le_less)
  ultimately show ?thesis using mem_strneq_string [OF assms] by simp
qed

lemma subdom_loop_longest:
  assumes "list_all (\<lambda>d. case dn_domain d of None \<Rightarrow> False | Some n \<Rightarrow> 0 \<notin> set n) ds"
    and "0 \<notin> set nm" and "length nm < maxlen"
  shows "\<exists>r. subdom_loop ds k (nm @ 0 # rest) maxlen cur maxfound = Some r \<and>
    (if \<exists>d \<in> set ds. suffix (domain_of d) nm \<and> maxfound < length (domain_of d)
     then k \<le> r \<and> r < k + length ds \<and> suffix (domain_of (ds ! (r - k))) nm \<and>
       maxfound < length (domain_of (ds ! (r - k))) \<and>
       (\<forall>d \<in> set ds. suffix (domain_of d) nm \<longrightarrow> length (domain_of d) \<le> length (domain_of (ds ! (r - k))))
     else r = cur)"
  using assms(1)
proof (induction ds arbitrary: k cur maxfound)
  case Nil
  then show ?case by simp
next
  case (Cons d ds)
  obtain dm where dm: "dn_domain d = Some dm" "0 \<notin> set dm"
    using Cons.prems by (auto split: option.splits)
  have dof: "domain_of d = dm" using dm by (simp add: domain_of_def)
  have h: "strnlen dm maxlen = length dm" if "suffix dm nm"
    using suffix_length_le [OF that] assms(3) by simp
  let ?hit = "suffix dm nm \<and> maxfound < length dm"
  have step: "subdom_loop (d # ds) k (nm @ 0 # rest) maxlen cur maxfound =
      (if ?hit then subdom_loop ds (k + 1) (nm @ 0 # rest) maxlen k (length dm)
       else subdom_loop ds (k + 1) (nm @ 0 # rest) maxlen cur maxfound)"
    using subdom_match [OF dm(2) assms(2,3), of rest] h
    by (auto simp: dm(1) mem_strnlen_string [OF assms(2,3)] Let_def simp del: strnlen_eq)
  have "list_all (\<lambda>d. case dn_domain d of None \<Rightarrow> False | Some n \<Rightarrow> 0 \<notin> set n) ds"
    using Cons.prems by simp
  note IH = Cons.IH [OF this, of "k + 1"]
  have nth: "(d # ds) ! (r - k) = ds ! (r - (k + 1))" if "k + 1 \<le> r" for r
    using that by (auto dest!: le_Suc_ex)
  show ?case
  proof (cases ?hit)
    case True
    obtain r where r: "subdom_loop ds (k + 1) (nm @ 0 # rest) maxlen k (length dm) = Some r"
      "if \<exists>d \<in> set ds. suffix (domain_of d) nm \<and> length dm < length (domain_of d)
       then k + 1 \<le> r \<and> r < k + 1 + length ds \<and> suffix (domain_of (ds ! (r - (k + 1)))) nm \<and>
         length dm < length (domain_of (ds ! (r - (k + 1)))) \<and>
         (\<forall>d \<in> set ds. suffix (domain_of d) nm \<longrightarrow> length (domain_of d) \<le> length (domain_of (ds ! (r - (k + 1)))))
       else r = k"
      using IH [of k "length dm"] by blast
    show ?thesis
    proof (cases "\<exists>d \<in> set ds. suffix (domain_of d) nm \<and> length dm < length (domain_of d)")
      case more: True
      then show ?thesis using r step True dof nth [of r] by auto
    next
      case False
      then have "\<forall>d \<in> set ds. suffix (domain_of d) nm \<longrightarrow> length (domain_of d) \<le> length dm"
        by (auto simp: not_less)
      then show ?thesis using False r step True dof by auto
    qed
  next
    case False
    obtain r where r: "subdom_loop ds (k + 1) (nm @ 0 # rest) maxlen cur maxfound = Some r"
      "if \<exists>d \<in> set ds. suffix (domain_of d) nm \<and> maxfound < length (domain_of d)
       then k + 1 \<le> r \<and> r < k + 1 + length ds \<and> suffix (domain_of (ds ! (r - (k + 1)))) nm \<and>
         maxfound < length (domain_of (ds ! (r - (k + 1)))) \<and>
         (\<forall>d \<in> set ds. suffix (domain_of d) nm \<longrightarrow> length (domain_of d) \<le> length (domain_of (ds ! (r - (k + 1)))))
       else r = cur"
      using IH [of cur maxfound] by blast
    show ?thesis
    proof (cases "\<exists>d \<in> set ds. suffix (domain_of d) nm \<and> maxfound < length (domain_of d)")
      case more: True
      then show ?thesis using r step False dof nth [of r] by auto
    next
      case none: False
      then show ?thesis using r step False dof by auto
    qed
  qed
qed

subsection \<open>Insertion and clearing\<close>

lemma last_loop_eq: "p < length xs \<Longrightarrow> last_loop xs p = Some (length xs - 1)"
proof (induction xs p rule: last_loop.induct)
  case (1 xs p)
  show ?case
  proof (cases "next_pos xs p = 0")
    case True
    then have "p = length xs - 1" using 1(2) by (auto simp: next_pos_def mod_Suc split: if_splits)
    then show ?thesis using True 1(2) by (subst last_loop.simps) simp
  next
    case False
    have "next_pos xs p < length xs" using 1(2) by (intro next_pos_less) auto
    then show ?thesis using 1 False by (subst last_loop.simps) simp
  qed
qed

lemma last_srvnode_eq: "xs \<noteq> [] \<Longrightarrow> last_srvnode xs = Some (length xs - 1)"
  by (simp add: last_srvnode_def last_loop_eq)

lemma add_srv_last:
  assumes "xs \<noteq> []" and "inet_aton ip = Some a"
  shows "add_srv inet_aton xs (length xs - 1) ip =
    Some (xs @ [alloc_srvnode\<lparr>sv_addr := a, sv_inactive := 0\<rparr>], Some (length xs))"
  using assms by (simp add: add_srv_def ins_srvnode_def)

lemma srvlist_ok_append: "srvlist_ok xs \<Longrightarrow> srvlist_ok (xs @ ys)"
  by (cases xs) (auto simp: srvlist_ok_def)

lemma clear_loop_eq: "xs \<noteq> [] \<Longrightarrow> clear_loop xs freed = Some ([hd xs], freed @ tl xs)"
proof (induction xs freed rule: clear_loop.induct)
  case (1 xs freed)
  show ?case
  proof (cases "next_pos xs 0 = 0")
    case True
    then have "xs = [hd xs]" using 1(2) by (cases xs; cases "tl xs") (auto simp: next_pos_def)
    then show ?thesis using True by (subst clear_loop.simps) (metis append_Nil2 list.sel(3) list.discI)
  next
    case False
    then obtain h p ys where xs: "xs = h # p # ys"
      using 1(2) by (cases xs; cases "tl xs") (auto simp: next_pos_def)
    then have "del_srvnode_after xs 0 = Some (p, h # ys)" by (simp add: del_srvnode_after_def)
    then have "clear_loop xs freed = clear_loop (h # ys) (freed @ [p])"
      using 1(2) False by (subst clear_loop.simps) simp
    also have "\<dots> = Some ([h], (freed @ [p]) @ ys)"
      using 1(1) [OF 1(2) False \<open>del_srvnode_after xs 0 = _\<close> refl] by simp
    finally show ?thesis by (simp add: xs)
  qed
qed

lemma search_loop_found:
  assumes "list_all (\<lambda>d. dn_domain d \<noteq> None) ds"
  shows "search_loop ds k name =
    Some (if \<exists>j < length ds. dn_domain (ds ! j) = Some name
          then Some (k + (LEAST j. j < length ds \<and> dn_domain (ds ! j) = Some name)) else None)"
  using assms
proof (induction ds arbitrary: k)
  case Nil
  then show ?case by simp
next
  case (Cons d ds)
  let ?Q = "\<lambda>j. j < length (d # ds) \<and> dn_domain ((d # ds) ! j) = Some name"
  obtain nm where nm: "dn_domain d = Some nm" using Cons.prems by auto
  show ?case
  proof (cases "nm = name")
    case True
    then have "?Q 0" using nm by simp
    moreover from this have "(LEAST j. ?Q j) = 0" by (simp add: Least_eq_0)
    ultimately show ?thesis using nm True by auto
  next
    case False
    have shift: "(LEAST j. ?Q j) = Suc (LEAST j. j < length ds \<and> dn_domain (ds ! j) = Some name)"
      if "j < length ds \<and> dn_domain (ds ! j) = Some name" for j
      using Least_Suc [of ?Q "Suc j"] that nm False by simp
    have ex: "(\<exists>j < length (d # ds). dn_domain ((d # ds) ! j) = Some name) \<longleftrightarrow>
        (\<exists>j < length ds. dn_domain (ds ! j) = Some name)"
      using nm False by (auto simp: less_Suc_eq_0_disj)
    show ?thesis using Cons False nm shift unfolding ex by auto
  qed
qed

subsection \<open>Correctness of the server tables\<close>

text \<open>next\_active returns the first server that is active in the cyclic order behind the
  current one (behind the head when there is none), NULL exactly when every server is inactive,
  and never the dummy head of the list.  The scan terminates and stays inside the list.\<close>

theorem next_active_first:
  assumes "domnode_ok d"
  defines "start \<equiv> (case dn_current d of Some c \<Rightarrow> c | None \<Rightarrow> 0)"
  shows "next_active d = Some (find (\<lambda>k. sv_inactive (dn_srvlist d ! k) = 0)
           (ring_after (length (dn_srvlist d)) start)) \<and>
         set (ring_after (length (dn_srvlist d)) start) = {0..<length (dn_srvlist d)} \<and>
         next_active d \<noteq> Some (Some 0)"
proof -
  have s: "start < length (dn_srvlist d)"
    using assms by (auto simp: domnode_ok_def srvlist_ok_def split: option.splits)
  have "next_active d \<noteq> Some (Some 0)" using next_active_ok [OF assms(1)] by auto
  then show ?thesis
    using next_active_eq [OF s] ring_after_set [OF s] unfolding start_def by blast
qed

definition demo_server :: "u32 \<Rightarrow> time_t \<Rightarrow> srvnode_t" where
  "demo_server a t = \<lparr>sv_addr = a, sv_inactive = t, send_count = 0, send_time = 0\<rparr>"

definition demo_domain :: domnode_t where
  "demo_domain = \<lparr>dn_domain = None,
     dn_srvlist = [alloc_srvnode, demo_server 1 0, demo_server 2 7, demo_server 3 0],
     dn_current = Some 1, dn_roundrobin = True\<rparr>"

lemma demo_domain_ok: "domnode_ok demo_domain"
  by (simp add: domnode_ok_def srvlist_ok_def demo_domain_def alloc_srvnode_def)

theorem next_active_first_witness:
  "domnode_ok demo_domain \<and> next_active demo_domain = Some (Some 3)"
  using next_active_first [of demo_domain] demo_domain_ok
  by (simp add: demo_domain_def ring_after_def upt_rec demo_server_def alloc_srvnode_def)

text \<open>deactivate\_current marks exactly the current server inactive, changes no other server
  and makes an active server current, which is never the one just deactivated; current becomes
  NULL exactly when no server of the domain is active any more.  The well-formedness of the
  domain is kept.\<close>

theorem deactivate_current_correct:
  assumes "domnode_ok d" and "now \<noteq> 0"
  shows "\<exists>d' r. deactivate_current now d = Some (d', r) \<and> domnode_ok d' \<and> dn_current d' = r \<and>
    length (dn_srvlist d') = length (dn_srvlist d) \<and>
    (\<forall>k < length (dn_srvlist d). dn_srvlist d' ! k =
       (if Some k = dn_current d then (dn_srvlist d ! k)\<lparr>sv_inactive := now\<rparr> else dn_srvlist d ! k)) \<and>
    (r = None \<longleftrightarrow> (\<forall>k < length (dn_srvlist d'). sv_inactive (dn_srvlist d' ! k) \<noteq> 0)) \<and>
    (\<forall>k. r = Some k \<longrightarrow> 0 < k \<and> k < length (dn_srvlist d') \<and>
       sv_inactive (dn_srvlist d' ! k) = 0 \<and> Some k \<noteq> dn_current d)"
  using deactivate_current_ok [OF assms] by (fastforce split: option.splits)

theorem deactivate_current_correct_witness:
  "domnode_ok demo_domain \<and> (5 :: time_t) \<noteq> 0 \<and>
   (\<exists>d'. deactivate_current 5 demo_domain = Some (d', dn_current d') \<and> domnode_ok d')"
  using deactivate_current_correct [of demo_domain 5] demo_domain_ok by auto

text \<open>C37. search\_subdomnode never leaves the list or the name and chooses the domain with the
  longest name that is a suffix of the queried (length-prefixed) name; the default domain at the
  head is chosen exactly when no domain with a non-empty name matches.\<close>

theorem search_subdomnode_longest:
  assumes "domlist_ok ds" and "0 \<notin> set nm" and "length nm < maxlen"
  shows "\<exists>r. search_subdomnode ds (nm @ 0 # rest) maxlen = Some r \<and> r < length ds \<and>
    (r = 0 \<longleftrightarrow> (\<forall>d \<in> set (tl ds). suffix (domain_of d) nm \<longrightarrow> domain_of d = [])) \<and>
    (0 < r \<longrightarrow> suffix (domain_of (ds ! r)) nm \<and>
       (\<forall>d \<in> set (tl ds). suffix (domain_of d) nm \<longrightarrow> length (domain_of d) \<le> length (domain_of (ds ! r))))"
proof -
  obtain h t where ds: "ds = h # t" using assms(1) by (cases ds) (auto simp: domlist_ok_def)
  have "list_all (\<lambda>d. case dn_domain d of None \<Rightarrow> False | Some n \<Rightarrow> 0 \<notin> set n) t"
    using assms(1) by (simp add: domlist_ok_def ds)
  from subdom_loop_longest [OF this assms(2,3), of 1 rest 0 0] obtain r where
    "subdom_loop t 1 (nm @ 0 # rest) maxlen 0 0 = Some r" and
    "if \<exists>d \<in> set t. suffix (domain_of d) nm \<and> 0 < length (domain_of d)
     then 1 \<le> r \<and> r < 1 + length t \<and> suffix (domain_of (t ! (r - 1))) nm \<and>
       0 < length (domain_of (t ! (r - 1))) \<and>
       (\<forall>d \<in> set t. suffix (domain_of d) nm \<longrightarrow> length (domain_of d) \<le> length (domain_of (t ! (r - 1))))
     else r = 0" by blast
  then show ?thesis by (cases r) (auto simp: search_subdomnode_def ds split: if_splits)
qed

theorem search_subdomnode_longest_witness:
  "let dm = (\<lambda>n. alloc_domnode\<lparr>dn_domain := n\<rparr>);
       ds = [dm None, dm (Some [3, 111, 114, 103]), dm (Some [1, 97, 3, 111, 114, 103])]
   in domlist_ok ds \<and> search_subdomnode ds ([1, 98, 1, 97, 3, 111, 114, 103] @ 0 # [0, 1]) 20 = Some 2"
proof -
  let ?dm = "\<lambda>n. alloc_domnode\<lparr>dn_domain := n\<rparr>"
  let ?ds = "[?dm None, ?dm (Some [3, 111, 114, 103]), ?dm (Some [1, 97, 3, 111, 114, 103])]"
  have ok: "domlist_ok ?ds"
    by (simp add: domlist_ok_def domnode_ok_def srvlist_ok_def alloc_domnode_def init_srvlist_def
        alloc_srvnode_def)
  obtain r where r: "search_subdomnode ?ds ([1, 98, 1, 97, 3, 111, 114, 103] @ 0 # [0, 1]) 20 = Some r"
    using search_subdomnode_longest [OF ok, of "[1, 98, 1, 97, 3, 111, 114, 103]" 20 "[0, 1]"] by auto
  moreover have "search_subdomnode ?ds ([1, 98, 1, 97, 3, 111, 114, 103] @ 0 # [0, 1]) 20 = Some 2"
    by code_simp
  ultimately show ?thesis using ok by (simp add: Let_def)
qed

end
