(* ===== verification/Dnrd_Cache.thy ===== *)
theory Dnrd_Cache
  imports Dnrd_Servers "HOL-Library.Multiset"
begin

section \<open>dnrd: the response cache (cache.c)\<close>

text \<open>
  The cache is a doubly linked list of heap nodes.  The model keeps the pointers: a heap maps an
  address to a node, \<open>cachelist\<close> and \<open>lastcache\<close> are the two ends, and \<open>cx_brk\<close>
  is the next address \<open>allocate\<close> hands out.  Following a NULL or freed pointer, and freeing
  twice, is \<open>None\<close>.  A loop along the list that would not end has no value either: these
  loops are partial functions whose value is \<open>None\<close> then, so that a theorem that a routine
  returns \<open>Some\<close> shows that it ends.  Times are the 32-bit \<open>unsigned long\<close> and
  \<open>time_t\<close> of the Android targets; \<open>now\<close> is what \<open>time(NULL)\<close> returns.
  \<open>inactive\<close> reads \<open>server->inactive\<close> of a server reference.  The semaphore around the
  insertion protects against no one in this single-threaded program and is left out.
\<close>

subsection \<open>State\<close>

definition CACHE_TIMEUNIT :: u32 where "CACHE_TIMEUNIT = 60"
definition CACHE_NEGTIME :: u32 where "CACHE_NEGTIME = 5 * CACHE_TIMEUNIT"
definition CACHE_TIME :: u32 where "CACHE_TIME = 60 * CACHE_TIMEUNIT"
definition CACHE_MAXTIME :: u32 where "CACHE_MAXTIME = 6 * 60 * CACHE_TIMEUNIT"
definition CACHE_MINCYCLE :: int where "CACHE_MINCYCLE = 5 * 60"
definition CACHE_HIGHWATER :: int where "CACHE_HIGHWATER = 1000"
definition CACHE_LOWWATER :: int where "CACHE_LOWWATER = 800"

record cache_t =
  cx_code :: u32
  cx_name :: bytes
  cx_type :: u16
  cx_class :: u16
  cx_positive :: int
  cx_created :: u32
  cx_lastused :: u32
  cx_expires :: u32
  cx_p :: dnsheader_t
  cx_server :: srv_ref
  cx_next :: "nat option"
  cx_prev :: "nat option"

record cache_state =
  cx_heap :: "nat \<Rightarrow> cache_t option"
  cx_brk :: nat
  cachelist :: "nat option"
  lastcache :: "nat option"
  cache_onoff :: bool
  cache_highwater :: int
  cache_lowwater :: int
  cache_hits :: int
  cache_misses :: int
  lastexpire :: time_t

definition cache_start :: cache_state where
  "cache_start = \<lparr>cx_heap = (\<lambda>_. None), cx_brk = 0, cachelist = None, lastcache = None,
     cache_onoff = True, cache_highwater = CACHE_HIGHWATER, cache_lowwater = CACHE_LOWWATER,
     cache_hits = 0, cache_misses = 0, lastexpire = 0\<rparr>"

definition upd_cx :: "nat \<Rightarrow> (cache_t \<Rightarrow> cache_t) \<Rightarrow> cache_state \<Rightarrow> cache_state option" where
  "upd_cx a f st = (case cx_heap st a of
     None \<Rightarrow> None
   | Some c \<Rightarrow> Some (st\<lparr>cx_heap := (cx_heap st)(a := Some (f c))\<rparr>))"

subsection \<open>Nodes\<close>

definition free_cx :: "nat \<Rightarrow> cache_state \<Rightarrow> cache_state option" where
  "free_cx a st = (case cx_heap st a of
     None \<Rightarrow> None
   | Some c \<Rightarrow> Some (st\<lparr>cx_heap := (cx_heap st)(a := None)\<rparr>))"

definition create_cx ::
  "time_t \<Rightarrow> dnsheader_t \<Rightarrow> rr_t \<Rightarrow> srv_ref \<Rightarrow> cache_state \<Rightarrow> (nat \<times> cache_state) option" where
  "create_cx now x query server st = do {
     nm \<leftarrow> cstr (rr_name query);
     let cx = \<lparr>cx_code = get_stringcode nm, cx_name = nm, cx_type = rr_type query,
               cx_class = rr_class query, cx_positive = sint (ancount x), cx_created = 0,
               cx_lastused = now, cx_expires = 0, cx_p = x, cx_server = server,
               cx_next = None, cx_prev = None\<rparr>;
     let a = cx_brk st;
     Some (a, st\<lparr>cx_heap := (cx_heap st)(a := Some cx), cx_brk := a + 1\<rparr>) }"

definition append_cx :: "time_t \<Rightarrow> nat \<Rightarrow> cache_state \<Rightarrow> cache_state option" where
  "append_cx now a st = do {
     st1 \<leftarrow> (case lastcache st of
               None \<Rightarrow> Some (st\<lparr>cachelist := Some a, lastcache := Some a\<rparr>)
             | Some l \<Rightarrow> do {
                 s1 \<leftarrow> upd_cx l (\<lambda>c. c\<lparr>cx_next := Some a\<rparr>) st;
                 s2 \<leftarrow> upd_cx a (\<lambda>c. c\<lparr>cx_prev := Some l\<rparr>) s1;
                 Some (s2\<lparr>lastcache := Some a\<rparr>) });
     upd_cx a (\<lambda>c. c\<lparr>cx_created := now\<rparr>) st1 }"

definition remove_cx :: "nat \<Rightarrow> cache_state \<Rightarrow> cache_state option" where
  "remove_cx a st = do {
     c \<leftarrow> cx_heap st a;
     st1 \<leftarrow> (case cx_next c of
               Some n \<Rightarrow> upd_cx n (\<lambda>x. x\<lparr>cx_prev := cx_prev c\<rparr>) st
             | None \<Rightarrow> Some (st\<lparr>lastcache := cx_prev c\<rparr>));
     c1 \<leftarrow> cx_heap st1 a;
     (case cx_prev c1 of
        Some p \<Rightarrow> upd_cx p (\<lambda>x. x\<lparr>cx_next := cx_next c1\<rparr>) st1
      | None \<Rightarrow> Some (st1\<lparr>cachelist := cx_next c1\<rparr>)) }"

subsection \<open>Insertion and lookup\<close>

definition cache_dnspacket ::
  "(byte \<Rightarrow> bool) \<Rightarrow> rr_t \<Rightarrow> time_t \<Rightarrow> bytes \<Rightarrow> nat \<Rightarrow> srv_ref \<Rightarrow> cache_state \<Rightarrow> cache_state option" where
  "cache_dnspacket vc y0 now pkt len server st =
     (if \<not> cache_onoff st then Some st
      else do {
        (r, query) \<leftarrow> parse_query vc y0 pkt len;
        if r \<noteq> 0 \<or> GET_QR (rr_flags query) = 0 then Some st
        else do {
          n0 \<leftarrow> peek (rr_name query) 0;
          if n0 = 0 then Some st
          else do {
            x \<leftarrow> parse_packet pkt len;
            (a, st1) \<leftarrow> create_cx now x query server st;
            st2 \<leftarrow> (if 0 < sint (ancount x) then append_cx now a st1 else Some st1);
            upd_cx a (\<lambda>c. c\<lparr>cx_lastused := now,
                cx_expires := now + (if 0 < sint (ancount x) then CACHE_TIME else CACHE_NEGTIME)\<rparr>)
              st2 } } })"

partial_function (option) lookup_walk ::
  "(nat \<Rightarrow> cache_t option) \<Rightarrow> u32 \<Rightarrow> rr_t \<Rightarrow> bytes \<Rightarrow> nat option \<Rightarrow> nat option option" where
  "lookup_walk h code query nm cx =
     (case cx of
        None \<Rightarrow> Some None
      | Some a \<Rightarrow>
          (case h a of
             None \<Rightarrow> None
           | Some c \<Rightarrow>
               if cx_code c = code \<and> cx_type c = rr_type query \<and> cx_class c = rr_class query \<and>
                  strcaseeq (cx_name c) nm
               then Some (Some a)
               else lookup_walk h code query nm (cx_next c)))"

definition cache_hit ::
  "time_t \<Rightarrow> bool \<Rightarrow> (srv_ref \<Rightarrow> time_t option) \<Rightarrow> bytes \<Rightarrow> nat \<Rightarrow> cache_state \<Rightarrow>
   (int \<times> bytes \<times> cache_state) option" where
  "cache_hit now ignore_inactive_cache_hits inactive pkt a st = do {
     c \<leftarrow> cx_heap st a;
     st1 \<leftarrow> (if 0 < cx_positive c
             then upd_cx a (\<lambda>c. c\<lparr>cx_lastused := now, cx_expires := now + CACHE_TIME\<rparr>) st
             else Some st);
     pkt' \<leftarrow> (if plen (cx_p c) < 2 then None
              else blit pkt 2 (take (plen (cx_p c) - 2) (drop 2 (packet (cx_p c)))));
     let st2 = st1\<lparr>cache_hits := cache_hits st1 + 1\<rparr>;
     if ignore_inactive_cache_hits
     then do {
       t \<leftarrow> inactive (cx_server c);
       if t \<noteq> 0 then Some (0, pkt', st2) else Some (int (plen (cx_p c)), pkt', st2) }
     else Some (int (plen (cx_p c)), pkt', st2) }"

definition cache_lookup ::
  "(byte \<Rightarrow> bool) \<Rightarrow> rr_t \<Rightarrow> time_t \<Rightarrow> bool \<Rightarrow> (srv_ref \<Rightarrow> time_t option) \<Rightarrow> bytes \<Rightarrow> nat \<Rightarrow> cache_state \<Rightarrow>
   (int \<times> bytes \<times> cache_state) option" where
  "cache_lookup vc y0 now ignore_inactive_cache_hits inactive pkt len st =
     (if \<not> cache_onoff st then Some (0, pkt, st)
      else do {
        (r, query) \<leftarrow> parse_query vc y0 pkt len;
        if r \<noteq> 0 \<or> GET_QR (rr_flags query) = 1 then Some (0, pkt, st)
        else do {
          n0 \<leftarrow> peek (rr_name query) 0;
          if n0 = 0 \<or> rr_class query \<noteq> DNS_CLASS_INET then Some (0, pkt, st)
          else do {
            nm \<leftarrow> cstr (rr_name query);
            hit \<leftarrow> lookup_walk (cx_heap st) (get_stringcode nm) query nm (cachelist st);
            (case hit of
               Some a \<Rightarrow> cache_hit now ignore_inactive_cache_hits inactive pkt a st
             | None \<Rightarrow> Some (0, pkt, st\<lparr>cache_misses := cache_misses st + 1\<rparr>)) } } })"

subsection \<open>Expiration\<close>

text \<open>\<open>qsort\<close> of the C library is a parameter: an order of the array elements.\<close>

definition cmp_cachemru :: "cache_t \<Rightarrow> cache_t \<Rightarrow> int" where
  "cmp_cachemru cx cy = sint (cx_lastused cy - cx_lastused cx)"

definition cmp_ptr :: "(nat \<Rightarrow> cache_t option) \<Rightarrow> nat \<Rightarrow> nat \<Rightarrow> int" where
  "cmp_ptr h x y = (case (h x, h y) of (Some cx, Some cy) \<Rightarrow> cmp_cachemru cx cy | _ \<Rightarrow> 0)"

fun collect_cx :: "(nat \<Rightarrow> cache_t option) \<Rightarrow> nat \<Rightarrow> nat option \<Rightarrow> nat list option" where
  "collect_cx h 0 cx = Some []"
| "collect_cx h (Suc n) None = None"
| "collect_cx h (Suc n) (Some a) =
     (case h a of
        None \<Rightarrow> None
      | Some c \<Rightarrow> map_option (\<lambda>cv. a # cv) (collect_cx h n (cx_next c)))"

definition drop_cx :: "nat \<Rightarrow> cache_state \<Rightarrow> cache_state option" where
  "drop_cx a st = do { st1 \<leftarrow> remove_cx a st; free_cx a st1 }"

definition expire_oldest ::
  "((nat \<Rightarrow> nat \<Rightarrow> int) \<Rightarrow> nat list \<Rightarrow> nat list) \<Rightarrow> nat \<Rightarrow> cache_state \<Rightarrow> cache_state option" where
  "expire_oldest qsort itemcount st =
     (let n = int itemcount - cache_lowwater st in
      if n < 0 then Some st
      else do {
        cv \<leftarrow> collect_cx (cx_heap st) itemcount (cachelist st);
        let cv' = qsort (cmp_ptr (cx_heap st)) cv;
        if length cv' < nat n then None
        else foldM drop_cx (take (nat n) cv') st })"

definition cx_expired :: "time_t \<Rightarrow> cache_t \<Rightarrow> bool" where
  "cx_expired now c \<longleftrightarrow> cx_expires c < now \<or> CACHE_MAXTIME < now - cx_created c"

partial_function (option) expire_walk ::
  "time_t \<Rightarrow> nat option \<Rightarrow> nat \<Rightarrow> nat \<Rightarrow> cache_state \<Rightarrow> (nat \<times> nat \<times> cache_state) option" where
  "expire_walk now cx seen expired st =
     (case cx of
        None \<Rightarrow> Some (seen, expired, st)
      | Some a \<Rightarrow>
          (case cx_heap st a of
             None \<Rightarrow> None
           | Some c \<Rightarrow>
               if cx_expired now c
               then (case drop_cx a st of
                       None \<Rightarrow> None
                     | Some st' \<Rightarrow> expire_walk now (cx_next c) (seen + 1) (expired + 1) st')
               else expire_walk now (cx_next c) (seen + 1) expired st))"

definition cache_expire ::
  "((nat \<Rightarrow> nat \<Rightarrow> int) \<Rightarrow> nat list \<Rightarrow> nat list) \<Rightarrow> time_t \<Rightarrow> cache_state \<Rightarrow> cache_state option" where
  "cache_expire qsort now st =
     (if \<not> cache_onoff st then Some st
      else do {
        let st1 = (if lastexpire st = 0 then st\<lparr>lastexpire := now\<rparr> else st);
        if sint (now - lastexpire st1) < CACHE_MINCYCLE then Some st1
        else do {
          (seen, expired, st2) \<leftarrow> expire_walk now (cachelist st1) 0 0 st1;
          let remaining = seen - expired;
          st3 \<leftarrow> (if cache_highwater st2 < int remaining then expire_oldest qsort remaining st2
                  else Some st2);
          Some (st3\<lparr>lastexpire := now\<rparr>) } })"

subsection \<open>Configuration\<close>

definition cache_init :: "bytes \<Rightarrow> cache_state \<Rightarrow> cache_state" where
  "cache_init cache_param st =
     (let st1 =
        (if cache_param = [] then st
         else if cache_param = bytes_of ''off'' then st\<lparr>cache_onoff := False\<rparr>
         else if isdigit (hd cache_param)
         then (let low = takeWhile (\<lambda>c. c \<noteq> 58) cache_param;
                   rest = dropWhile (\<lambda>c. c \<noteq> 58) cache_param in
               if rest = []
               then st\<lparr>cache_highwater := atoi cache_param,
                       cache_lowwater := (atoi cache_param * 75) div 100\<rparr>
               else st\<lparr>cache_lowwater := atoi low, cache_highwater := atoi (tl rest)\<rparr>)
         else st)
      in if \<not> cache_onoff st1 then st1
         else if cache_highwater st1 < 0
         then st1\<lparr>cache_highwater := CACHE_HIGHWATER, cache_lowwater := CACHE_LOWWATER\<rparr>
         else if cache_highwater st1 < cache_lowwater st1
         then st1\<lparr>cache_lowwater := (cache_highwater st1 * 75) div 100\<rparr>
         else st1)"

subsection \<open>The linked list\<close>

text \<open>\<open>dll h p xs n\<close>: the addresses \<open>xs\<close> are linked in this order, the first node
  points back to \<open>p\<close> and the last one forward to \<open>n\<close>.\<close>

definition hd_ptr :: "nat list \<Rightarrow> nat option \<Rightarrow> nat option" where
  "hd_ptr xs n = (case xs of [] \<Rightarrow> n | x # _ \<Rightarrow> Some x)"

definition last_ptr :: "nat option \<Rightarrow> nat list \<Rightarrow> nat option" where
  "last_ptr p xs = (if xs = [] then p else Some (last xs))"

fun dll :: "(nat \<Rightarrow> cache_t option) \<Rightarrow> nat option \<Rightarrow> nat list \<Rightarrow> nat option \<Rightarrow> bool" where
  "dll h p [] n = True"
| "dll h p (x # xs) n =
     (case h x of None \<Rightarrow> False
      | Some c \<Rightarrow> cx_prev c = p \<and> cx_next c = hd_ptr xs n \<and> dll h (Some x) xs n)"

definition cache_ok :: "cache_state \<Rightarrow> nat list \<Rightarrow> bool" where
  "cache_ok st xs \<longleftrightarrow> distinct xs \<and> dll (cx_heap st) None xs None \<and>
     cachelist st = hd_ptr xs None \<and> lastcache st = last_ptr None xs \<and>
     (\<forall>a. cx_heap st a \<noteq> None \<longrightarrow> a < cx_brk st)"

lemma hd_ptr_simps [simp]: "hd_ptr [] n = n" "hd_ptr (x # xs) n = Some x"
  by (simp_all add: hd_ptr_def)

lemma hd_ptr_append: "hd_ptr (xs @ ys) n = hd_ptr xs (hd_ptr ys n)"
  by (cases xs) simp_all

lemma last_ptr_simps [simp]: "last_ptr p [] = p" "last_ptr p (xs @ [x]) = Some x"
    "last_ptr p (x # xs) = last_ptr (Some x) xs"
  by (simp_all add: last_ptr_def)

lemma dll_append: "dll h p (xs @ ys) n \<longleftrightarrow> dll h p xs (hd_ptr ys n) \<and> dll h (last_ptr p xs) ys n"
  by (induction xs arbitrary: p) (auto simp: hd_ptr_append split: option.split)

lemma dll_frame: "(\<And>a. a \<in> set xs \<Longrightarrow> h' a = h a) \<Longrightarrow> dll h' p xs n = dll h p xs n"
  by (induction xs arbitrary: p) (auto split: option.split)

lemma dll_upd_notin [simp]: "a \<notin> set xs \<Longrightarrow> dll (h(a := v)) p xs n = dll h p xs n"
  by (rule dll_frame) auto

lemma dll_mapped: "dll h p xs n \<Longrightarrow> a \<in> set xs \<Longrightarrow> \<exists>c. h a = Some c"
  by (induction xs arbitrary: p) (auto split: option.splits)

lemma dll_upd_data:
  assumes "h a = Some c" and "cx_next c' = cx_next c" and "cx_prev c' = cx_prev c"
  shows "dll (h(a := Some c')) p xs n = dll h p xs n"
  using assms by (induction xs arbitrary: p) (auto split: option.split)

lemma dll_set_prev:
  assumes "dll h p (x # xs) n" and "h x = Some c" and "x \<notin> set xs"
  shows "dll (h(x := Some (c\<lparr>cx_prev := q\<rparr>))) q (x # xs) n"
  using assms by simp

lemma dll_set_next:
  assumes "dll h p (xs @ [x]) n" and "h x = Some c" and "x \<notin> set xs"
  shows "dll (h(x := Some (c\<lparr>cx_next := m\<rparr>))) p (xs @ [x]) m"
  using assms by (simp add: dll_append)

lemma upd_cx_Some: "cx_heap st a = Some c \<Longrightarrow>
    upd_cx a f st = Some (st\<lparr>cx_heap := (cx_heap st)(a := Some (f c))\<rparr>)"
  by (simp add: upd_cx_def)

text \<open>The address order \<open>nodes\<close> is what a walk along \<open>next\<close> visits.\<close>

fun chain :: "(nat \<Rightarrow> cache_t option) \<Rightarrow> nat \<Rightarrow> nat option \<Rightarrow> nat list" where
  "chain h 0 cx = []"
| "chain h (Suc n) None = []"
| "chain h (Suc n) (Some a) = a # (case h a of None \<Rightarrow> [] | Some c \<Rightarrow> chain h n (cx_next c))"

definition cache_nodes :: "cache_state \<Rightarrow> nat list" where
  "cache_nodes st = chain (cx_heap st) (cx_brk st) (cachelist st)"

lemma chain_dll: "dll h p xs None \<Longrightarrow> length xs \<le> n \<Longrightarrow> chain h n (hd_ptr xs None) = xs"
proof (induction xs arbitrary: p n)
  case Nil
  then show ?case by (cases n) auto
next
  case (Cons x xs)
  then show ?case by (cases n) (auto split: option.splits)
qed

lemma cache_nodes_eq: "cache_ok st xs \<Longrightarrow> cache_nodes st = xs"
proof -
  assume ok: "cache_ok st xs"
  have "set xs \<subseteq> {..<cx_brk st}"
    using ok by (auto simp: cache_ok_def dest!: dll_mapped)
  then have "card (set xs) \<le> card {..<cx_brk st}" by (intro card_mono) auto
  then have "length xs \<le> cx_brk st" using ok by (simp add: cache_ok_def distinct_card)
  then show ?thesis using ok chain_dll [of "cx_heap st" None xs] by (simp add: cache_nodes_def cache_ok_def)
qed

definition cx_item :: "cache_state \<Rightarrow> nat \<Rightarrow> cache_t option" where
  "cx_item st a = map_option (\<lambda>c. c\<lparr>cx_next := None, cx_prev := None\<rparr>) (cx_heap st a)"

definition cx_fresh :: "cache_state \<Rightarrow> nat \<Rightarrow> bool" where
  "cx_fresh st a \<longleftrightarrow> a \<notin> set (cache_nodes st) \<and>
     (case cx_heap st a of None \<Rightarrow> False | Some c \<Rightarrow> cx_next c = None \<and> cx_prev c = None)"

lemma append_cx_ok:
  assumes ok: "cache_ok st xs" and a: "a \<notin> set xs"
    and c: "cx_heap st a = Some c" "cx_next c = None" "cx_prev c = None"
  shows "\<exists>st'. append_cx now a st = Some st' \<and> cache_ok st' (xs @ [a]) \<and>
    (\<forall>b. b \<noteq> a \<longrightarrow> cx_item st' b = cx_item st b) \<and>
    cx_item st' a = Some (c\<lparr>cx_created := now\<rparr>) \<and>
    st' = st\<lparr>cx_heap := cx_heap st', cachelist := cachelist st', lastcache := lastcache st'\<rparr>"
proof (cases xs rule: rev_cases)
  case Nil
  let ?s = "st\<lparr>cachelist := Some a, lastcache := Some a,
     cx_heap := (cx_heap st)(a := Some (c\<lparr>cx_created := now\<rparr>))\<rparr>"
  have "append_cx now a st = Some ?s"
    using ok c(1) by (simp add: append_cx_def cache_ok_def Nil upd_cx_Some)
  moreover have "cache_ok ?s (xs @ [a])"
    using ok c by (auto simp: cache_ok_def Nil)
  ultimately show ?thesis using c by (auto simp: cx_item_def)
next
  case (snoc ys l)
  obtain cl where cl: "cx_heap st l = Some cl"
    using ok dll_mapped [of "cx_heap st" None xs None l] by (auto simp: cache_ok_def snoc)
  have la: "l \<noteq> a" "l \<notin> set ys" "a \<notin> set ys" using a ok by (auto simp: snoc cache_ok_def)
  let ?h = "(cx_heap st)(l := Some (cl\<lparr>cx_next := Some a\<rparr>),
       a := Some (c\<lparr>cx_prev := Some l, cx_created := now\<rparr>))"
  let ?s = "st\<lparr>cx_heap := ?h, lastcache := Some a\<rparr>"
  have ap: "append_cx now a st = Some ?s"
    using ok c(1) la cl by (simp add: append_cx_def cache_ok_def snoc upd_cx_def)
  have "dll ((cx_heap st)(l := Some (cl\<lparr>cx_next := Some a\<rparr>))) None (ys @ [l]) (Some a)"
    using ok cl la by (intro dll_set_next) (auto simp: cache_ok_def snoc)
  then have "dll ?h None (xs @ [a]) None"
    using la c by (simp add: snoc dll_append)
  moreover have "hd_ptr (xs @ [a]) None = hd_ptr xs None" by (cases xs) (simp_all add: snoc)
  ultimately have "cache_ok ?s (xs @ [a])"
    using ok a c cl by (auto simp: cache_ok_def)
  then show ?thesis using ap c la cl by (auto simp: cx_item_def)
qed

lemma remove_cx_ok:
  assumes ok: "cache_ok st (ys @ a # zs)"
  shows "\<exists>st'. remove_cx a st = Some st' \<and> dll (cx_heap st') None (ys @ zs) None \<and>
    cachelist st' = hd_ptr (ys @ zs) None \<and> lastcache st' = last_ptr None (ys @ zs) \<and>
    (\<forall>b. cx_item st' b = cx_item st b) \<and>
    st' = st\<lparr>cx_heap := cx_heap st', cachelist := cachelist st', lastcache := lastcache st'\<rparr>"
proof -
  let ?h = "cx_heap st"
  have dist: "a \<notin> set ys" "a \<notin> set zs" "distinct ys" "distinct zs" "set ys \<inter> set zs = {}"
    using ok by (auto simp: cache_ok_def)
  have d: "dll ?h None ys (Some a)" "dll ?h (last_ptr None ys) (a # zs) None"
    using ok by (auto simp: cache_ok_def dll_append)
  then obtain c where c: "?h a = Some c" "cx_prev c = last_ptr None ys" "cx_next c = hd_ptr zs None"
    "dll ?h (Some a) zs None" by (auto split: option.splits)
  define st1 where "st1 = (case zs of
      [] \<Rightarrow> st\<lparr>lastcache := last_ptr None ys\<rparr>
    | z # _ \<Rightarrow> st\<lparr>cx_heap := ?h(z := Some ((the (?h z))\<lparr>cx_prev := last_ptr None ys\<rparr>))\<rparr>)"
  have step1: "(case cx_next c of Some n \<Rightarrow> upd_cx n (\<lambda>x. x\<lparr>cx_prev := cx_prev c\<rparr>) st
      | None \<Rightarrow> Some (st\<lparr>lastcache := cx_prev c\<rparr>)) = Some st1"
    using c by (cases zs) (auto simp: st1_def upd_cx_def split: option.splits)
  have a1: "cx_heap st1 a = Some c"
    using c(1) dist(2) by (cases zs) (auto simp: st1_def)
  have zs1: "dll (cx_heap st1) (last_ptr None ys) zs None"
    using c(4) dist(4) by (cases zs) (auto simp: st1_def split: option.splits)
  have ys1: "dll (cx_heap st1) None ys (Some a)"
    using d(1) dist(5) by (cases zs) (auto simp: st1_def)
  have it1: "cx_item st1 b = cx_item st b" for b
    using c(4) by (cases zs) (auto simp: st1_def cx_item_def split: option.splits)
  obtain h1 l1 where e: "st1 = st\<lparr>cx_heap := h1, lastcache := l1\<rparr>"
    by (cases zs; cases st; simp add: st1_def)
  have fr1: "st1 = st\<lparr>cx_heap := h1, lastcache := l1\<rparr>"
    "zs \<noteq> [] \<longrightarrow> lastcache st1 = lastcache st" "zs = [] \<longrightarrow> lastcache st1 = last_ptr None ys"
    by (rule e) (cases zs; simp add: st1_def)+
  have lc: "lastcache st = last_ptr None (ys @ a # zs)" "cachelist st = hd_ptr (ys @ a # zs) None"
    using ok by (auto simp: cache_ok_def)
  have last1: "lastcache st1 = last_ptr None (ys @ zs)"
    using fr1(2,3) lc(1) by (cases "zs = []") (auto simp: last_ptr_def)
  have rm: "remove_cx a st = (case cx_prev c of
        Some p \<Rightarrow> upd_cx p (\<lambda>x. x\<lparr>cx_next := cx_next c\<rparr>) st1
      | None \<Rightarrow> Some (st1\<lparr>cachelist := cx_next c\<rparr>))"
    unfolding remove_cx_def by (simp only: c(1) step1 a1 Option.bind_lunit)
  show ?thesis
  proof (cases ys rule: rev_cases)
    case Nil
    let ?s = "st1\<lparr>cachelist := hd_ptr zs None\<rparr>"
    have "remove_cx a st = Some ?s"
      using c by (simp add: rm Nil)
    moreover have "\<forall>b. cx_item ?s b = cx_item st b" using it1 by (simp add: cx_item_def)
    moreover have "?s = st\<lparr>cx_heap := cx_heap ?s, cachelist := cachelist ?s, lastcache := lastcache ?s\<rparr>"
      by (simp add: e)
    ultimately show ?thesis using zs1 last1 by (intro exI [of _ ?s]) (simp add: Nil)
  next
    case (snoc ys' y)
    obtain cy where cy: "cx_heap st1 y = Some cy"
      using dll_mapped [OF ys1, of y] by (auto simp: snoc)
    have ny: "y \<notin> set ys'" "y \<notin> set zs" "y \<noteq> a" using dist by (auto simp: snoc)
    let ?s = "st1\<lparr>cx_heap := (cx_heap st1)(y := Some (cy\<lparr>cx_next := hd_ptr zs None\<rparr>))\<rparr>"
    have r: "remove_cx a st = Some ?s"
      using c cy by (simp add: rm snoc upd_cx_def)
    have "dll (cx_heap ?s) None (ys' @ [y]) (hd_ptr zs None)"
      using dll_set_next [OF ys1 [unfolded snoc] cy ny(1)] by simp
    moreover have "dll (cx_heap ?s) (Some y) zs None" using zs1 ny(2) by (simp add: snoc)
    ultimately have "dll (cx_heap ?s) None (ys @ zs) None"
      by (simp add: snoc dll_append hd_ptr_append)
    moreover have "cachelist ?s = hd_ptr (ys @ zs) None"
      using lc(2) by (cases ys') (simp_all add: snoc e)
    moreover have "\<forall>b. cx_item ?s b = cx_item st b"
      using it1 cy by (auto simp: cx_item_def split: if_splits) (metis option.simps(9))
    moreover have "?s = st\<lparr>cx_heap := cx_heap ?s, cachelist := cachelist ?s, lastcache := lastcache ?s\<rparr>"
      by (simp add: e)
    ultimately show ?thesis using r last1 by (intro exI [of _ ?s]) simp
  qed
qed

text \<open>Everything but the list itself is untouched.\<close>

definition same_config :: "cache_state \<Rightarrow> cache_state \<Rightarrow> bool" where
  "same_config st st' \<longleftrightarrow>
     st' = st\<lparr>cx_heap := cx_heap st', cachelist := cachelist st', lastcache := lastcache st'\<rparr>"

lemma same_config_refl [simp]: "same_config st st"
  by (simp add: same_config_def)

lemma same_config_trans [trans]:
  "same_config st st' \<Longrightarrow> same_config st' st'' \<Longrightarrow> same_config st st''"
  unfolding same_config_def by (cases st; cases st'; cases st'') simp

lemma same_configD: "same_config st st' \<Longrightarrow> cx_brk st' = cx_brk st \<and> cache_onoff st' = cache_onoff st \<and>
    cache_highwater st' = cache_highwater st \<and> cache_lowwater st' = cache_lowwater st \<and>
    cache_hits st' = cache_hits st \<and> cache_misses st' = cache_misses st \<and> lastexpire st' = lastexpire st"
  unfolding same_config_def by (cases st; cases st') simp

lemma drop_cx_ok:
  assumes ok: "cache_ok st xs" and a: "a \<in> set xs"
  shows "\<exists>st'. drop_cx a st = Some st' \<and> cache_ok st' (remove1 a xs) \<and>
    (\<forall>b. b \<noteq> a \<longrightarrow> cx_item st' b = cx_item st b) \<and> cx_heap st' a = None \<and> same_config st st'"
proof -
  obtain ys zs where xs: "xs = ys @ a # zs" "a \<notin> set ys" using split_list_first [OF a] by blast
  have az: "a \<notin> set zs" using ok xs by (auto simp: cache_ok_def)
  obtain st1 where st1: "remove_cx a st = Some st1" "dll (cx_heap st1) None (ys @ zs) None"
    "cachelist st1 = hd_ptr (ys @ zs) None" "lastcache st1 = last_ptr None (ys @ zs)"
    "\<forall>b. cx_item st1 b = cx_item st b"
    "st1 = st\<lparr>cx_heap := cx_heap st1, cachelist := cachelist st1, lastcache := lastcache st1\<rparr>"
    using remove_cx_ok [of st ys a zs] ok xs(1) by blast
  have sc: "same_config st st1" using st1(6) by (simp add: same_config_def)
  let ?s = "st1\<lparr>cx_heap := (cx_heap st1)(a := None)\<rparr>"
  have dom_eq: "cx_heap st1 b = None \<longleftrightarrow> cx_heap st b = None" for b
    using st1(5) by (auto simp: cx_item_def) (metis option.map_disc_iff)+
  obtain c where "cx_heap st1 a = Some c"
    using dll_mapped [of "cx_heap st" None xs None a] ok a dom_eq [of a] by (auto simp: cache_ok_def)
  then have "drop_cx a st = Some ?s" using st1(1) by (simp add: drop_cx_def free_cx_def)
  moreover have bnd: "\<forall>b. cx_heap ?s b \<noteq> None \<longrightarrow> b < cx_brk ?s"
  proof (intro allI impI)
    fix b assume "cx_heap ?s b \<noteq> None"
    then have "cx_heap st b \<noteq> None" using dom_eq [of b] by (auto split: if_splits)
    then show "b < cx_brk ?s" using ok same_configD [OF sc] by (simp add: cache_ok_def)
  qed
  have "distinct (ys @ zs)" "remove1 a xs = ys @ zs"
    using ok xs by (auto simp: cache_ok_def remove1_append)
  then have "cache_ok ?s (remove1 a xs)"
    using bnd st1(2-4) xs(2) az by (simp add: cache_ok_def)
  moreover have "same_config st ?s" using sc unfolding same_config_def by (cases st; cases st1) simp
  ultimately show ?thesis using st1(5) by (auto simp: cx_item_def)
qed

interpretation cxl: node_list "\<lambda>st. \<exists>xs. cache_ok st xs" cache_nodes cx_item cx_fresh
  "append_cx now" drop_cx for now
proof unfold_locales
  fix s :: cache_state
  assume "\<exists>xs. cache_ok s xs"
  then obtain xs where ok: "cache_ok s xs" ..
  note n = cache_nodes_eq [OF ok]
  show "distinct (cache_nodes s)" using ok n by (simp add: cache_ok_def)
  fix a
  show "\<exists>s'. append_cx now a s = Some s' \<and> (\<exists>xs. cache_ok s' xs) \<and>
      cache_nodes s' = cache_nodes s @ [a] \<and> (\<forall>b \<in> set (cache_nodes s). cx_item s' b = cx_item s b)"
    if "cx_fresh s a"
  proof -
    from that n obtain c where c: "a \<notin> set xs" "cx_heap s a = Some c" "cx_next c = None" "cx_prev c = None"
      by (auto simp: cx_fresh_def split: option.splits)
    obtain s' where "append_cx now a s = Some s'" "cache_ok s' (xs @ [a])"
      "\<forall>b. b \<noteq> a \<longrightarrow> cx_item s' b = cx_item s b"
      using append_cx_ok [OF ok c, of now] by blast
    then show ?thesis using n c(1) by (auto dest: cache_nodes_eq)
  qed
  show "\<exists>s'. drop_cx a s = Some s' \<and> (\<exists>xs. cache_ok s' xs) \<and>
      cache_nodes s' = remove1 a (cache_nodes s) \<and> (\<forall>b \<in> set (cache_nodes s'). cx_item s' b = cx_item s b)"
    if a: "a \<in> set (cache_nodes s)"
  proof -
    obtain s' where s': "drop_cx a s = Some s'" "cache_ok s' (remove1 a xs)"
      "\<forall>b. b \<noteq> a \<longrightarrow> cx_item s' b = cx_item s b"
      using drop_cx_ok [OF ok] a n by blast
    moreover have "a \<notin> set (remove1 a xs)" using ok by (simp add: cache_ok_def set_remove1_eq)
    ultimately show ?thesis using n cache_nodes_eq [OF s'(2)] by auto
  qed
qed

lemma foldM_drop_config:
  assumes "cache_ok st xs" and "set as \<subseteq> set xs" and "distinct as"
    and "foldM drop_cx as st = Some st'"
  shows "same_config st st'"
  using assms
proof (induction as arbitrary: st xs)
  case Nil
  then show ?case by simp
next
  case (Cons a as)
  obtain s1 where s1: "drop_cx a st = Some s1" "cache_ok s1 (remove1 a xs)" "same_config st s1"
    using drop_cx_ok [OF Cons.prems(1), of a] Cons.prems(2) by auto
  have "set as \<subseteq> set (remove1 a xs)"
    using Cons.prems by (auto simp: cache_ok_def set_remove1_eq)
  then have "same_config s1 st'" using Cons.IH [OF s1(2)] Cons.prems s1(1) by simp
  with s1(3) show ?case by (rule same_config_trans)
qed

subsection \<open>The abstract cache: a list of entries\<close>

definition cache_abs :: "cache_state \<Rightarrow> cache_t list" where
  "cache_abs st = map (\<lambda>a. the (cx_item st a)) (cache_nodes st)"

definition entry_ok :: "cache_t \<Rightarrow> bool" where
  "entry_ok c \<longleftrightarrow> cx_code c = get_stringcode (cx_name c) \<and> 2 \<le> plen (cx_p c) \<and>
     plen (cx_p c) \<le> UDP_MAXSIZE \<and> plen (cx_p c) \<le> length (packet (cx_p c))"

definition cache_inv :: "cache_state \<Rightarrow> bool" where
  "cache_inv st \<longleftrightarrow> (\<exists>xs. cache_ok st xs) \<and> list_all entry_ok (cache_abs st)"

lemma cache_abs_eq: "cache_ok st xs \<Longrightarrow> cache_abs st = map (\<lambda>a. the (cx_item st a)) xs"
  by (simp add: cache_abs_def cache_nodes_eq)

lemma cache_ok_mapped: "cache_ok st xs \<Longrightarrow> a \<in> set xs \<Longrightarrow> \<exists>c. cx_heap st a = Some c"
  by (auto simp: cache_ok_def dest: dll_mapped)

lemma cx_item_Some: "cx_heap st a = Some c \<Longrightarrow> cx_item st a = Some (c\<lparr>cx_next := None, cx_prev := None\<rparr>)"
  by (simp add: cx_item_def)

lemma cache_ok_config: "cache_ok st xs \<Longrightarrow> cx_heap st' = cx_heap st \<Longrightarrow> cachelist st' = cachelist st \<Longrightarrow>
    lastcache st' = lastcache st \<Longrightarrow> cx_brk st' = cx_brk st \<Longrightarrow> cache_ok st' xs"
  by (simp add: cache_ok_def)

lemma cache_ok_upd:
  assumes "cache_ok st xs" and "cx_heap st a = Some c"
    and "cx_next (f c) = cx_next c" and "cx_prev (f c) = cx_prev c"
  shows "\<exists>st'. upd_cx a f st = Some st' \<and> cache_ok st' xs \<and>
    st' = st\<lparr>cx_heap := (cx_heap st)(a := Some (f c))\<rparr>"
  using assms by (auto simp: upd_cx_def cache_ok_def dll_upd_data)

lemma expired_item: "cx_heap st a = Some c \<Longrightarrow> cx_expired now (the (cx_item st a)) = cx_expired now c"
  by (simp add: cx_item_def cx_expired_def)

lemma expire_walk_ok:
  assumes "cache_ok st (ys @ zs)"
  shows "\<exists>st'. expire_walk now (hd_ptr zs None) seen expired st =
      Some (seen + length zs,
            expired + length (filter (\<lambda>a. cx_expired now (the (cx_item st a))) zs), st') \<and>
    cache_ok st' (ys @ filter (\<lambda>a. \<not> cx_expired now (the (cx_item st a))) zs) \<and>
    (\<forall>b. b \<in> set ys \<or> b \<in> set zs \<and> \<not> cx_expired now (the (cx_item st b)) \<longrightarrow> cx_item st' b = cx_item st b) \<and>
    same_config st st'"
  using assms
proof (induction zs arbitrary: ys st seen expired)
  case Nil
  then show ?case by (auto simp: expire_walk.simps)
next
  case (Cons z zs)
  obtain c where c: "cx_heap st z = Some c" using cache_ok_mapped [OF Cons.prems, of z] by auto
  have nx: "cx_next c = hd_ptr zs None"
    using Cons.prems c by (auto simp: cache_ok_def dll_append)
  note ex = expired_item [OF c]
  show ?case
  proof (cases "cx_expired now c")
    case True
    have zn: "z \<notin> set ys" "z \<notin> set zs" using Cons.prems by (auto simp: cache_ok_def)
    obtain s1 where s1: "drop_cx z st = Some s1" "cache_ok s1 (ys @ zs)"
      "\<forall>b. b \<noteq> z \<longrightarrow> cx_item s1 b = cx_item st b" "same_config st s1"
      using drop_cx_ok [OF Cons.prems, of z] zn by (auto simp: remove1_append)
    obtain s2 where s2: "expire_walk now (hd_ptr zs None) (seen + 1) (expired + 1) s1 =
        Some (seen + 1 + length zs,
          expired + 1 + length (filter (\<lambda>a. cx_expired now (the (cx_item s1 a))) zs), s2)"
      "cache_ok s2 (ys @ filter (\<lambda>a. \<not> cx_expired now (the (cx_item s1 a))) zs)"
      "\<forall>b. b \<in> set ys \<or> b \<in> set zs \<and> \<not> cx_expired now (the (cx_item s1 b)) \<longrightarrow> cx_item s2 b = cx_item s1 b"
      "same_config s1 s2"
      using Cons.IH [OF s1(2), of "seen + 1" "expired + 1"] by blast
    have eq: "\<And>b. b \<in> set zs \<Longrightarrow> cx_item s1 b = cx_item st b" using s1(3) zn(2) by auto
    have eqy: "\<And>b. b \<in> set ys \<Longrightarrow> cx_item s1 b = cx_item st b" using s1(3) zn(1) by auto
    have f: "filter (\<lambda>a. cx_expired now (the (cx_item s1 a))) zs = filter (\<lambda>a. cx_expired now (the (cx_item st a))) zs"
      "filter (\<lambda>a. \<not> cx_expired now (the (cx_item s1 a))) zs = filter (\<lambda>a. \<not> cx_expired now (the (cx_item st a))) zs"
      using eq by (auto intro: filter_cong)
    have "expire_walk now (hd_ptr (z # zs) None) seen expired st =
        expire_walk now (hd_ptr zs None) (seen + 1) (expired + 1) s1"
      using c True s1(1) nx by (subst expire_walk.simps) simp
    moreover have "\<forall>b. b \<in> set ys \<or> b \<in> set (z # zs) \<and> \<not> cx_expired now (the (cx_item st b)) \<longrightarrow>
        cx_item s2 b = cx_item st b"
      using s2(3) eq eqy ex True by auto
    ultimately show ?thesis
      using s2(1,2) f ex True same_config_trans [OF s1(4) s2(4)] by simp
  next
    case False
    have "expire_walk now (hd_ptr (z # zs) None) seen expired st =
        expire_walk now (hd_ptr zs None) (seen + 1) expired st"
      using c False nx by (subst expire_walk.simps) simp
    moreover obtain s2 where s2: "expire_walk now (hd_ptr zs None) (seen + 1) expired st =
        Some (seen + 1 + length zs,
          expired + length (filter (\<lambda>a. cx_expired now (the (cx_item st a))) zs), s2)"
      "cache_ok s2 ((ys @ [z]) @ filter (\<lambda>a. \<not> cx_expired now (the (cx_item st a))) zs)"
      "\<forall>b. b \<in> set (ys @ [z]) \<or> b \<in> set zs \<and> \<not> cx_expired now (the (cx_item st b)) \<longrightarrow> cx_item s2 b = cx_item st b"
      "same_config st s2"
      using Cons.IH [of st "ys @ [z]" "seen + 1" expired] Cons.prems by auto
    ultimately show ?thesis using ex False by auto
  qed
qed

lemma lookup_walk_ok:
  assumes "dll h p xs None"
  shows "lookup_walk h code query nm (hd_ptr xs None) =
    Some (find (\<lambda>a. cx_code (the (h a)) = code \<and> cx_type (the (h a)) = rr_type query \<and>
        cx_class (the (h a)) = rr_class query \<and> strcaseeq (cx_name (the (h a))) nm) xs)"
  using assms
proof (induction xs arbitrary: p)
  case Nil
  then show ?case by (simp add: lookup_walk.simps)
next
  case (Cons x xs)
  then obtain c where "h x = Some c" "cx_next c = hd_ptr xs None" "dll h (Some x) xs None"
    by (auto split: option.splits)
  with Cons.IH show ?case by (subst lookup_walk.simps) simp
qed

lemma collect_cx_ok: "dll h p xs None \<Longrightarrow> collect_cx h (length xs) (hd_ptr xs None) = Some xs"
  by (induction xs arbitrary: p) (auto split: option.splits)

subsection \<open>Each operation against the abstract cache\<close>

definition new_entry :: "time_t \<Rightarrow> dnsheader_t \<Rightarrow> rr_t \<Rightarrow> bytes \<Rightarrow> srv_ref \<Rightarrow> cache_t" where
  "new_entry now x query nm server =
     \<lparr>cx_code = get_stringcode nm, cx_name = nm, cx_type = rr_type query, cx_class = rr_class query,
      cx_positive = sint (ancount x), cx_created = now, cx_lastused = now,
      cx_expires = now + CACHE_TIME, cx_p = x, cx_server = server, cx_next = None, cx_prev = None\<rparr>"

lemma create_cx_ok:
  assumes ok: "cache_ok st xs" and nm: "cstr (rr_name query) = Some nm"
  shows "\<exists>st1 c. create_cx now x query server st = Some (cx_brk st, st1) \<and> cache_ok st1 xs \<and>
    cx_brk st \<notin> set xs \<and> cx_heap st1 (cx_brk st) = Some c \<and>
    c = (new_entry now x query nm server)\<lparr>cx_created := 0, cx_expires := 0\<rparr> \<and>
    (\<forall>b. b \<noteq> cx_brk st \<longrightarrow> cx_heap st1 b = cx_heap st b) \<and>
    st1 = st\<lparr>cx_heap := cx_heap st1, cx_brk := cx_brk st + 1\<rparr>"
proof -
  have a: "cx_heap st (cx_brk st) = None" using ok by (auto simp: cache_ok_def)
  then have n: "cx_brk st \<notin> set xs" using cache_ok_mapped [OF ok] by force
  have "\<forall>b. cx_heap st b \<noteq> None \<longrightarrow> b < Suc (cx_brk st)"
    using ok by (auto simp: cache_ok_def less_Suc_eq)
  then show ?thesis using ok nm n by (auto simp: create_cx_def cache_ok_def Let_def new_entry_def)
qed

lemma list_all_entry_ok_append: "list_all entry_ok (xs @ ys) \<longleftrightarrow> list_all entry_ok xs \<and> list_all entry_ok ys"
  by simp

lemma cache_abs_cong:
  assumes "cache_ok st xs" and "cache_ok st' xs" and "\<forall>b \<in> set xs. cx_item st' b = cx_item st b"
  shows "cache_abs st' = cache_abs st"
  using assms by (simp add: cache_abs_eq)

lemma parse_packet_Some:
  "10 \<le> len \<Longrightarrow> len \<le> length pkt \<Longrightarrow> \<exists>x. parse_packet pkt len = Some x \<and> packet x = take len pkt @ [0, 0] \<and> plen x = len"
  using decode_header_Some by (simp add: parse_packet_def)

lemma cache_dnspacket_ok:
  assumes inv: "cache_inv st" and on: "cache_onoff st"
    and pq: "parse_query vc y0 pkt len = Some (0, q)" "GET_QR (rr_flags q) \<noteq> 0"
      "cstr (rr_name q) = Some nm" "nm \<noteq> []"
    and len: "10 \<le> len" "len \<le> UDP_MAXSIZE" "len \<le> length pkt"
    and x: "parse_packet pkt len = Some x"
  shows "\<exists>st'. cache_dnspacket vc y0 now pkt len server st = Some st' \<and> cache_inv st' \<and>
    cache_abs st' = cache_abs st @ (if 0 < sint (ancount x) then [new_entry now x q nm server] else []) \<and>
    cache_nodes st' = cache_nodes st @ (if 0 < sint (ancount x) then [cx_brk st] else []) \<and>
    cx_heap st' (cx_brk st) \<noteq> None \<and> cx_brk st' = cx_brk st + 1 \<and>
    cache_onoff st' = cache_onoff st \<and> cache_hits st' = cache_hits st \<and> cache_misses st' = cache_misses st"
proof -
  obtain xs where ok: "cache_ok st xs" and ents: "list_all entry_ok (cache_abs st)"
    using inv by (auto simp: cache_inv_def)
  let ?a = "cx_brk st"
  let ?e = "now + (if 0 < sint (ancount x) then CACHE_TIME else CACHE_NEGTIME)"
  obtain st1 where st1: "create_cx now x q server st = Some (?a, st1)" "cache_ok st1 xs" "?a \<notin> set xs"
    "cx_heap st1 ?a = Some ((new_entry now x q nm server)\<lparr>cx_created := 0, cx_expires := 0\<rparr>)"
    "\<forall>b. b \<noteq> ?a \<longrightarrow> cx_heap st1 b = cx_heap st b"
    "st1 = st\<lparr>cx_heap := cx_heap st1, cx_brk := ?a + 1\<rparr>"
    using create_cx_ok [OF ok pq(3), of now x server] by blast
  have run: "cache_dnspacket vc y0 now pkt len server st =
      (if 0 < sint (ancount x) then append_cx now ?a st1 else Some st1) \<bind>
      upd_cx ?a (\<lambda>c. c\<lparr>cx_lastused := now, cx_expires := ?e\<rparr>)"
    using on pq cstr_peek0 [OF pq(3)] x st1(1) by (simp add: cache_dnspacket_def)
  have ne: "\<And>b. b \<in> set xs \<Longrightarrow> b \<noteq> ?a" using st1(3) by auto
  have it1: "\<forall>b \<in> set xs. cx_item st1 b = cx_item st b" using ne st1(5) by (simp add: cx_item_def)
  have cfg1: "cx_brk st1 = ?a + 1" "cache_onoff st1 = cache_onoff st" "cache_hits st1 = cache_hits st"
      "cache_misses st1 = cache_misses st" by (subst st1(6), simp)+
  have eok: "entry_ok (new_entry now x q nm server)"
    using parse_packet_Some [OF len(1,3)] x len by (auto simp: entry_ok_def new_entry_def)
  show ?thesis
  proof (cases "0 < sint (ancount x)")
    case True
    obtain st2 where st2: "append_cx now ?a st1 = Some st2" "cache_ok st2 (xs @ [?a])"
      "\<forall>b. b \<noteq> ?a \<longrightarrow> cx_item st2 b = cx_item st1 b"
      "cx_item st2 ?a = Some ((new_entry now x q nm server)\<lparr>cx_expires := 0\<rparr>)"
      "st2 = st1\<lparr>cx_heap := cx_heap st2, cachelist := cachelist st2, lastcache := lastcache st2\<rparr>"
      using append_cx_ok [OF st1(2,3,4), of now] by (auto simp: new_entry_def)
    obtain c2 where c2: "cx_heap st2 ?a = Some c2"
      using cache_ok_mapped [OF st2(2), of ?a] by auto
    obtain st3 where st3: "upd_cx ?a (\<lambda>c. c\<lparr>cx_lastused := now, cx_expires := ?e\<rparr>) st2 = Some st3"
      "cache_ok st3 (xs @ [?a])"
      "st3 = st2\<lparr>cx_heap := (cx_heap st2)(?a := Some (c2\<lparr>cx_lastused := now, cx_expires := ?e\<rparr>))\<rparr>"
      using cache_ok_upd [OF st2(2) c2, of "\<lambda>c. c\<lparr>cx_lastused := now, cx_expires := ?e\<rparr>"] by auto
    have "c2\<lparr>cx_next := None, cx_prev := None\<rparr> = (new_entry now x q nm server)\<lparr>cx_expires := 0\<rparr>"
      using st2(4) c2 by (simp add: cx_item_def)
    then have "c2\<lparr>cx_lastused := now, cx_expires := now + CACHE_TIME, cx_next := None, cx_prev := None\<rparr> =
        new_entry now x q nm server"
      by (cases c2) (simp add: new_entry_def)
    then have ita: "cx_item st3 ?a = Some (new_entry now x q nm server)"
      using True by (simp add: cx_item_def st3(3))
    have itb: "\<forall>b \<in> set xs. cx_item st3 b = cx_item st b"
      using it1 st2(3) ne st3(3) by (simp add: cx_item_def)
    have ab: "cache_abs st3 = cache_abs st @ [new_entry now x q nm server]"
      using cache_abs_eq [OF st3(2)] cache_abs_eq [OF ok] ita itb by simp
    have "cx_brk st2 = cx_brk st1" "cache_onoff st2 = cache_onoff st1" "cache_hits st2 = cache_hits st1"
      "cache_misses st2 = cache_misses st1" by (subst st2(5), simp)+
    then show ?thesis
      using True run st2(1) st3 ab ents eok cfg1 cache_nodes_eq [OF st3(2)] cache_nodes_eq [OF ok]
      by (auto simp: cache_inv_def)
  next
    case False
    let ?c = "(new_entry now x q nm server)\<lparr>cx_created := 0, cx_expires := 0\<rparr>"
    obtain st3 where st3: "upd_cx ?a (\<lambda>c. c\<lparr>cx_lastused := now, cx_expires := ?e\<rparr>) st1 = Some st3"
      "cache_ok st3 xs"
      "st3 = st1\<lparr>cx_heap := (cx_heap st1)(?a := Some (?c\<lparr>cx_lastused := now, cx_expires := ?e\<rparr>))\<rparr>"
      using cache_ok_upd [OF st1(2,4), of "\<lambda>c. c\<lparr>cx_lastused := now, cx_expires := ?e\<rparr>"] by auto
    have "\<forall>b \<in> set xs. cx_item st3 b = cx_item st b"
      using it1 ne st3(3) by (simp add: cx_item_def)
    then have "cache_abs st3 = cache_abs st" using cache_abs_cong ok st3(2) by blast
    then show ?thesis
      using False run st3 ents cfg1 cache_nodes_eq [OF st3(2)] cache_nodes_eq [OF ok]
      by (auto simp: cache_inv_def)
  qed
qed

definition cx_matches :: "rr_t \<Rightarrow> bytes \<Rightarrow> cache_t \<Rightarrow> bool" where
  "cx_matches q nm c \<longleftrightarrow>
     cx_type c = rr_type q \<and> cx_class c = rr_class q \<and> strcaseeq (cx_name c) nm"

definition refreshed :: "time_t \<Rightarrow> cache_t \<Rightarrow> cache_t" where
  "refreshed now c =
     (if 0 < cx_positive c then c\<lparr>cx_lastused := now, cx_expires := now + CACHE_TIME\<rparr> else c)"

text \<open>The answer placed in the client's buffer: the two bytes of the client's id stay, the rest
  is the cached response.\<close>

definition answer_in :: "bytes \<Rightarrow> cache_t \<Rightarrow> bytes" where
  "answer_in pkt c =
     take 2 pkt @ take (plen (cx_p c) - 2) (drop 2 (packet (cx_p c))) @ drop (plen (cx_p c)) pkt"

lemma find_node_cong:
  assumes "\<And>a. a \<in> set xs \<Longrightarrow> P a = Q (f a)"
  shows "find Q (map f xs) = map_option f (find P xs)"
  using assms by (induction xs) auto

lemma lookup_walk_abs:
  assumes ok: "cache_ok st xs" and ents: "list_all entry_ok (cache_abs st)"
  shows "\<exists>hit. lookup_walk (cx_heap st) (get_stringcode nm) q nm (cachelist st) = Some hit \<and>
    (case hit of
       None \<Rightarrow> (\<forall>c \<in> set (cache_abs st). \<not> cx_matches q nm c)
     | Some a \<Rightarrow> (\<exists>i < length xs. a = xs ! i \<and> cx_matches q nm (cache_abs st ! i) \<and>
         (\<forall>j < i. \<not> cx_matches q nm (cache_abs st ! j))))"
proof -
  let ?h = "cx_heap st"
  let ?P = "\<lambda>a. cx_code (the (?h a)) = get_stringcode nm \<and> cx_type (the (?h a)) = rr_type q \<and>
        cx_class (the (?h a)) = rr_class q \<and> strcaseeq (cx_name (the (?h a))) nm"
  have P: "?P a \<longleftrightarrow> cx_matches q nm (the (cx_item st a))" if a: "a \<in> set xs" for a
  proof -
    obtain c where c: "?h a = Some c" using cache_ok_mapped [OF ok a] by blast
    then have "the (cx_item st a) \<in> set (cache_abs st)" using cache_abs_eq [OF ok] a by auto
    with ents have "entry_ok (the (cx_item st a))" by (auto simp: list_all_iff)
    then show ?thesis
      using c get_stringcode_caseeq by (auto simp: cx_item_def cx_matches_def entry_ok_def)
  qed
  have w: "lookup_walk ?h (get_stringcode nm) q nm (cachelist st) = Some (find ?P xs)"
    using ok lookup_walk_ok [of ?h None xs] by (simp add: cache_ok_def)
  have "case find ?P xs of None \<Rightarrow> (\<forall>c \<in> set (cache_abs st). \<not> cx_matches q nm c)
     | Some a \<Rightarrow> (\<exists>i < length xs. a = xs ! i \<and> cx_matches q nm (cache_abs st ! i) \<and>
         (\<forall>j < i. \<not> cx_matches q nm (cache_abs st ! j)))"
  proof (cases "find ?P xs")
    case None
    then have "\<forall>a \<in> set xs. \<not> cx_matches q nm (the (cx_item st a))"
      unfolding find_None_iff using P by auto
    then show ?thesis using None cache_abs_eq [OF ok] by simp
  next
    case (Some a)
    then obtain i where i: "i < length xs" "?P (xs ! i)" "a = xs ! i" "\<forall>j < i. \<not> ?P (xs ! j)"
      by (auto simp: find_Some_iff)
    have "cx_matches q nm (cache_abs st ! i)" "\<forall>j < i. \<not> cx_matches q nm (cache_abs st ! j)"
      using i P cache_abs_eq [OF ok] by auto
    then show ?thesis using Some i by auto
  qed
  with w show ?thesis by blast
qed

lemma length_answer_in:
  "plen (cx_p c) \<le> length pkt \<Longrightarrow> 2 \<le> plen (cx_p c) \<Longrightarrow> plen (cx_p c) \<le> length (packet (cx_p c)) \<Longrightarrow>
     length (answer_in pkt c) = length pkt"
  by (simp add: answer_in_def)

lemma cache_hit_ok:
  assumes ok: "cache_ok st xs" and i: "i < length xs" and eok: "entry_ok (cache_abs st ! i)"
    and len: "UDP_MAXSIZE \<le> length pkt"
    and act: "ign \<longrightarrow> inactive (cx_server (cache_abs st ! i)) = Some t"
  shows "\<exists>st'. cache_hit now ign inactive pkt (xs ! i) st =
      Some (if ign \<and> t \<noteq> 0 then 0 else int (plen (cx_p (cache_abs st ! i))),
            answer_in pkt (cache_abs st ! i), st') \<and>
    cache_ok st' xs \<and> cache_abs st' = (cache_abs st)[i := refreshed now (cache_abs st ! i)] \<and>
    cache_hits st' = cache_hits st + 1 \<and> cache_misses st' = cache_misses st \<and> cache_onoff st' = cache_onoff st"
proof -
  obtain c where c: "cx_heap st (xs ! i) = Some c" using cache_ok_mapped [OF ok, of "xs ! i"] i by auto
  let ?e = "cache_abs st ! i"
  have e: "?e = c\<lparr>cx_next := None, cx_prev := None\<rparr>"
    using cache_abs_eq [OF ok] i c by (simp add: cx_item_def)
  let ?f = "\<lambda>c. c\<lparr>cx_lastused := now, cx_expires := now + CACHE_TIME\<rparr>"
  define st1 where "st1 = (if 0 < cx_positive c
      then st\<lparr>cx_heap := (cx_heap st)(xs ! i := Some (?f c))\<rparr> else st)"
  have up: "(if 0 < cx_positive c then upd_cx (xs ! i) ?f st else Some st) = Some st1"
    using c by (simp add: st1_def upd_cx_def)
  have ok1: "cache_ok st1 xs"
    using ok c by (auto simp: st1_def cache_ok_def dll_upd_data)
  let ?st2 = "st1\<lparr>cache_hits := cache_hits st1 + 1\<rparr>"
  have ok2: "cache_ok ?st2 xs" using ok1 by (simp add: cache_ok_def)
  have blit: "blit pkt 2 (take (plen (cx_p c) - 2) (drop 2 (packet (cx_p c)))) = Some (answer_in pkt c)"
  proof -
    have "2 + length (take (plen (cx_p c) - 2) (drop 2 (packet (cx_p c)))) = plen (cx_p c)"
    proof -
      have "2 \<le> plen (cx_p c)" "plen (cx_p c) \<le> length (packet (cx_p c))"
        using eok by (simp_all add: e entry_ok_def)
      then show ?thesis unfolding length_take length_drop by linarith
    qed
    then show ?thesis
      using eok len unfolding blit_def by (simp only:) (simp add: answer_in_def e entry_ok_def)
  qed
  have ai: "answer_in pkt c = answer_in pkt ?e" by (simp add: e answer_in_def)
  have "cx_item ?st2 b = (if b = xs ! i then Some (refreshed now ?e) else cx_item st b)" for b
    using c by (auto simp: st1_def cx_item_def refreshed_def e)
  then have "cache_abs ?st2 = (cache_abs st)[i := refreshed now ?e]"
    using cache_abs_eq [OF ok] cache_abs_eq [OF ok2] i ok
    by (auto simp: cache_ok_def nth_eq_iff_index_eq nth_list_update intro!: nth_equalityI)
  moreover have "cache_hits ?st2 = cache_hits st + 1" "cache_misses ?st2 = cache_misses st"
    "cache_onoff ?st2 = cache_onoff st" by (simp_all add: st1_def)
  moreover have "cache_hit now ign inactive pkt (xs ! i) st =
      Some (if ign \<and> t \<noteq> 0 then 0 else int (plen (cx_p ?e)), answer_in pkt ?e, ?st2)"
    unfolding cache_hit_def using c eok act ai
    by (simp add: up [simplified] blit e entry_ok_def Let_def)
  ultimately show ?thesis using ok2 by blast
qed

lemma parse_query_name: "parse_query vc y msg len = Some (0, q) \<Longrightarrow> \<exists>nm. cstr (rr_name q) = Some nm"
  by (auto simp: parse_query_def normalise_name_def option_bind_eq_Some_iff Let_def cstr_def split: if_splits)

text \<open>A packet is looked up when caching is on and it parses as a question for a non-root name in
  class IN.\<close>

definition lookup_key :: "rr_t \<Rightarrow> bytes \<Rightarrow> bool" where
  "lookup_key q nm \<longleftrightarrow> GET_QR (rr_flags q) \<noteq> 1 \<and> cstr (rr_name q) = Some nm \<and> nm \<noteq> [] \<and>
     rr_class q = DNS_CLASS_INET"

lemma cache_lookup_ok:
  assumes inv: "cache_inv st" and on: "cache_onoff st"
    and pq: "parse_query vc y0 pkt len = Some (0, q)" "lookup_key q nm"
    and len: "UDP_MAXSIZE \<le> length pkt"
    and act: "ign \<longrightarrow> (\<forall>c \<in> set (cache_abs st). inactive (cx_server c) \<noteq> None)"
  shows "\<exists>r pkt' st'. cache_lookup vc y0 now ign inactive pkt len st = Some (r, pkt', st') \<and> cache_inv st' \<and>
    cache_onoff st' = cache_onoff st \<and>
    (if \<forall>c \<in> set (cache_abs st). \<not> cx_matches q nm c
     then r = 0 \<and> pkt' = pkt \<and> st' = st\<lparr>cache_misses := cache_misses st + 1\<rparr>
     else \<exists>i < length (cache_abs st). cx_matches q nm (cache_abs st ! i) \<and>
       (\<forall>j < i. \<not> cx_matches q nm (cache_abs st ! j)) \<and>
       r = (if ign \<and> inactive (cx_server (cache_abs st ! i)) \<noteq> Some 0 then 0
            else int (plen (cx_p (cache_abs st ! i)))) \<and>
       pkt' = answer_in pkt (cache_abs st ! i) \<and>
       cache_abs st' = (cache_abs st)[i := refreshed now (cache_abs st ! i)] \<and>
       cache_hits st' = cache_hits st + 1)"
proof -
  obtain xs where ok: "cache_ok st xs" and ents: "list_all entry_ok (cache_abs st)"
    using inv by (auto simp: cache_inv_def)
  obtain hit where hit: "lookup_walk (cx_heap st) (get_stringcode nm) q nm (cachelist st) = Some hit"
    "case hit of
       None \<Rightarrow> (\<forall>c \<in> set (cache_abs st). \<not> cx_matches q nm c)
     | Some a \<Rightarrow> (\<exists>i < length xs. a = xs ! i \<and> cx_matches q nm (cache_abs st ! i) \<and>
         (\<forall>j < i. \<not> cx_matches q nm (cache_abs st ! j)))"
    using lookup_walk_abs [OF ok ents, of nm q] by blast
  have run: "cache_lookup vc y0 now ign inactive pkt len st = (case hit of
       Some a \<Rightarrow> cache_hit now ign inactive pkt a st
     | None \<Rightarrow> Some (0, pkt, st\<lparr>cache_misses := cache_misses st + 1\<rparr>))"
    using pq on cstr_peek0 [of "rr_name q" nm] hit(1) by (simp add: cache_lookup_def lookup_key_def)
  show ?thesis
  proof (cases hit)
    case None
    let ?s = "st\<lparr>cache_misses := cache_misses st + 1\<rparr>"
    have ok': "cache_ok ?s xs" using ok by (simp add: cache_ok_def)
    have "cache_abs ?s = cache_abs st"
      using cache_abs_eq [OF ok] cache_abs_eq [OF ok'] by (simp add: cx_item_def)
    then have "cache_inv ?s" using ok' ents by (auto simp: cache_inv_def)
    then show ?thesis using None hit(2) run by simp
  next
    case (Some a)
    then obtain i where i: "i < length xs" "a = xs ! i" "cx_matches q nm (cache_abs st ! i)"
      "\<forall>j < i. \<not> cx_matches q nm (cache_abs st ! j)" using hit(2) by auto
    let ?e = "cache_abs st ! i"
    have il: "i < length (cache_abs st)" using i(1) cache_abs_eq [OF ok] by simp
    then have mem: "?e \<in> set (cache_abs st)" by simp
    then have eok: "entry_ok ?e" using ents by (auto simp: list_all_iff)
    obtain t where t: "ign \<longrightarrow> inactive (cx_server ?e) = Some t" using act mem by auto
    obtain st' where st': "cache_hit now ign inactive pkt (xs ! i) st =
        Some (if ign \<and> t \<noteq> 0 then 0 else int (plen (cx_p ?e)), answer_in pkt ?e, st')"
      "cache_ok st' xs" "cache_abs st' = (cache_abs st)[i := refreshed now ?e]"
      "cache_hits st' = cache_hits st + 1" "cache_onoff st' = cache_onoff st"
      using cache_hit_ok [OF ok i(1) eok len, of ign inactive t now] t by blast
    have "entry_ok (refreshed now ?e)" using eok by (simp add: entry_ok_def refreshed_def)
    then have "list_all entry_ok (cache_abs st')"
      using ents st'(3) by (auto simp: list_all_iff dest!: set_update_subset_insert [THEN subsetD])
    then have "cache_inv st'" using st'(2) by (auto simp: cache_inv_def)
    then show ?thesis
      using run Some i il mem st' t by auto
  qed
qed

lemma cache_lookup_total:
  assumes inv: "cache_inv st" and len: "12 \<le> len" "len \<le> length pkt" "UDP_MAXSIZE \<le> length pkt"
    and y0: "length (rr_name y0) = RR_NAMESIZE" "0 \<in> set (rr_name y0)"
    and act: "ign \<longrightarrow> (\<forall>c \<in> set (cache_abs st). inactive (cx_server c) \<noteq> None)"
  shows "\<exists>r pkt' st'. cache_lookup vc y0 now ign inactive pkt len st = Some (r, pkt', st') \<and> cache_inv st' \<and>
    0 \<le> r \<and> r \<le> int UDP_MAXSIZE \<and> length pkt' = length pkt \<and> take 2 pkt' = take 2 pkt \<and>
    cx_server ` set (cache_abs st') \<subseteq> cx_server ` set (cache_abs st)"
proof -
  obtain r q where pq: "parse_query vc y0 pkt len = Some (r, q)" "length (rr_name q) = RR_NAMESIZE"
    using parse_query_safe [OF len(1,2) y0] by blast
  show ?thesis
  proof (cases "cache_onoff st \<and> r = 0 \<and> (\<exists>nm. lookup_key q nm)")
    case True
    then obtain nm where k: "lookup_key q nm" and c: "cache_onoff st" "r = 0" by blast
    obtain r pkt' st' where res: "cache_lookup vc y0 now ign inactive pkt len st = Some (r, pkt', st')" "cache_inv st'"
      "if \<forall>c \<in> set (cache_abs st). \<not> cx_matches q nm c
       then r = 0 \<and> pkt' = pkt \<and> st' = st\<lparr>cache_misses := cache_misses st + 1\<rparr>
       else \<exists>i < length (cache_abs st). cx_matches q nm (cache_abs st ! i) \<and>
         (\<forall>j < i. \<not> cx_matches q nm (cache_abs st ! j)) \<and>
         r = (if ign \<and> inactive (cx_server (cache_abs st ! i)) \<noteq> Some 0 then 0
              else int (plen (cx_p (cache_abs st ! i)))) \<and>
         pkt' = answer_in pkt (cache_abs st ! i) \<and>
         cache_abs st' = (cache_abs st)[i := refreshed now (cache_abs st ! i)] \<and>
         cache_hits st' = cache_hits st + 1"
      using cache_lookup_ok [OF inv c(1) _ k len(3) act, of vc y0 len now] pq(1) c(2) by blast
    show ?thesis
    proof (cases "\<forall>c \<in> set (cache_abs st). \<not> cx_matches q nm c")
      case True
      then have "st' = st\<lparr>cache_misses := cache_misses st + 1\<rparr>" "r = 0" "pkt' = pkt" using res(3) by auto
      moreover have "cache_abs (st\<lparr>cache_misses := cache_misses st + 1\<rparr>) = cache_abs st"
        by (simp add: cache_abs_def cache_nodes_def cx_item_def)
      ultimately show ?thesis using res(1,2) by simp
    next
      case False
      then obtain i where i: "i < length (cache_abs st)"
        "r = (if ign \<and> inactive (cx_server (cache_abs st ! i)) \<noteq> Some 0 then 0
              else int (plen (cx_p (cache_abs st ! i))))"
        "pkt' = answer_in pkt (cache_abs st ! i)"
        "cache_abs st' = (cache_abs st)[i := refreshed now (cache_abs st ! i)]"
        using res(3) [unfolded if_not_P [OF False]] by blast
      have mem: "cache_abs st ! i \<in> set (cache_abs st)" using i(1) by simp
      then have eok: "entry_ok (cache_abs st ! i)" using inv by (auto simp: cache_inv_def list_all_iff)
      then have "length pkt' = length pkt" "0 \<le> r" "r \<le> int UDP_MAXSIZE" "take 2 pkt' = take 2 pkt"
        using i(2,3) length_answer_in [of "cache_abs st ! i" pkt] len
        by (auto simp: entry_ok_def answer_in_def)
      moreover have "cx_server ` set (cache_abs st') \<subseteq> cx_server ` set (cache_abs st)"
        using i(4) mem by (auto simp: refreshed_def dest!: set_update_subset_insert [THEN subsetD])
      ultimately show ?thesis using res(1,2) by blast
    qed
  next
    case False
    then have "cache_lookup vc y0 now ign inactive pkt len st = Some (0, pkt, st)"
      using pq parse_query_name [of vc y0 pkt len q] cstr_peek0 [of "rr_name q"]
      by (auto simp: cache_lookup_def lookup_key_def RR_NAMESIZE_def)
    then show ?thesis using inv by simp
  qed
qed

subsection \<open>Expiration against the abstract cache\<close>

text \<open>What the C library promises of \<open>qsort\<close>: the array is permuted, and ordered whenever the
  comparison is a total preorder on its elements.\<close>

definition preorder_on_cmp :: "('a \<Rightarrow> 'a \<Rightarrow> int) \<Rightarrow> 'a list \<Rightarrow> bool" where
  "preorder_on_cmp cmp zs \<longleftrightarrow>
     (\<forall>x \<in> set zs. \<forall>y \<in> set zs. cmp x y \<le> 0 \<or> cmp y x \<le> 0) \<and>
     (\<forall>x \<in> set zs. \<forall>y \<in> set zs. \<forall>z \<in> set zs. cmp x y \<le> 0 \<longrightarrow> cmp y z \<le> 0 \<longrightarrow> cmp x z \<le> 0)"

definition qsort_ok :: "(('a \<Rightarrow> 'a \<Rightarrow> int) \<Rightarrow> 'a list \<Rightarrow> 'a list) \<Rightarrow> bool" where
  "qsort_ok qsort \<longleftrightarrow> (\<forall>cmp zs. mset (qsort cmp zs) = mset zs \<and>
     (preorder_on_cmp cmp zs \<longrightarrow> sorted_wrt (\<lambda>x y. cmp x y \<le> 0) (qsort cmp zs)))"

lemma qsort_ok_perm: "qsort_ok qsort \<Longrightarrow> mset (qsort cmp zs) = mset zs"
  by (simp add: qsort_ok_def)

lemma expire_oldest_ok:
  assumes ok: "cache_ok st xs" and q: "qsort_ok qsort" and low: "0 \<le> cache_lowwater st"
    and more: "cache_lowwater st \<le> int (length xs)"
  shows "\<exists>st' as. expire_oldest qsort (length xs) st = Some st' \<and>
    as = take (length xs - nat (cache_lowwater st)) (qsort (cmp_ptr (cx_heap st)) xs) \<and>
    set as \<subseteq> set xs \<and> distinct as \<and>
    cache_ok st' (filter (\<lambda>b. b \<notin> set as) xs) \<and> length (cache_nodes st') = nat (cache_lowwater st) \<and>
    (\<forall>b \<in> set xs - set as. cx_item st' b = cx_item st b) \<and> same_config st st'"
proof -
  let ?n = "length xs - nat (cache_lowwater st)"
  let ?cv = "qsort (cmp_ptr (cx_heap st)) xs"
  let ?as = "take ?n ?cv"
  have perm: "mset ?cv = mset xs" by (rule qsort_ok_perm [OF q])
  then have sets: "set ?cv = set xs" "length ?cv = length xs" "distinct ?cv"
    using ok mset_eq_setD [OF perm] mset_eq_length [OF perm] mset_eq_imp_distinct_iff [OF perm]
    by (auto simp: cache_ok_def)
  have sub: "set ?as \<subseteq> set (cache_nodes st)" "distinct ?as" "set ?as \<subseteq> set xs"
    using sets cache_nodes_eq [OF ok] by (auto dest: in_set_takeD)
  have inv: "\<exists>xs. cache_ok st xs" using ok by blast
  obtain st' where st': "foldM drop_cx ?as st = Some st'" "\<exists>xs. cache_ok st' xs"
    "cache_nodes st' = filter (\<lambda>b. b \<notin> set ?as) (cache_nodes st)"
    "\<forall>b \<in> set (cache_nodes st'). cx_item st' b = cx_item st b"
    using cxl.unlink_all [OF inv sub(1,2)] by blast
  have n: "nat (int (length xs) - cache_lowwater st) = ?n" using low by linarith
  have "collect_cx (cx_heap st) (length xs) (cachelist st) = Some xs"
    using ok collect_cx_ok [of "cx_heap st" None xs] by (simp add: cache_ok_def)
  then have run: "expire_oldest qsort (length xs) st = Some st'"
    using more st'(1) sets(2) by (simp add: expire_oldest_def Let_def n)
  have nodes: "cache_nodes st' = filter (\<lambda>b. b \<notin> set ?as) xs"
    using st'(3) cache_nodes_eq [OF ok] by simp
  then have ok': "cache_ok st' (filter (\<lambda>b. b \<notin> set ?as) xs)"
    using st'(2) cache_nodes_eq by metis
  have "length (cache_nodes st') = length xs - length ?as"
    using cxl.length_unlink_all [OF inv sub(1,2) st'(1)] cache_nodes_eq [OF ok] by simp
  then have "length (cache_nodes st') = nat (cache_lowwater st)" using sets(2) low more by simp
  moreover have "same_config st st'" by (rule foldM_drop_config [OF ok sub(3,2) st'(1)])
  moreover have "\<forall>b \<in> set xs - set ?as. cx_item st' b = cx_item st b" using st'(4) nodes by auto
  ultimately show ?thesis using run ok' sub by blast
qed

lemma abs_filter:
  assumes "cache_ok st xs" and "cache_ok st' (filter P xs)"
    and "\<forall>b \<in> set (filter P xs). cx_item st' b = cx_item st b"
    and "\<forall>b \<in> set xs. P b = Q (the (cx_item st b))"
  shows "cache_abs st' = filter Q (cache_abs st)"
proof -
  have "cache_abs st' = map (\<lambda>a. the (cx_item st a)) (filter P xs)"
    using cache_abs_eq [OF assms(2)] assms(3) by simp
  also have "filter P xs = filter (\<lambda>b. Q (the (cx_item st b))) xs"
    using assms(4) by (auto intro: filter_cong)
  finally show ?thesis using cache_abs_eq [OF assms(1)] by (simp add: filter_map comp_def)
qed

lemma cache_expire_ok:
  assumes inv: "cache_inv st" and on: "cache_onoff st" and q: "qsort_ok qsort"
    and wm: "0 \<le> cache_lowwater st" "cache_lowwater st \<le> cache_highwater st"
    and due: "lastexpire st \<noteq> 0" "CACHE_MINCYCLE \<le> sint (now - lastexpire st)"
  shows "\<exists>st'. cache_expire qsort now st = Some st' \<and> cache_inv st' \<and> lastexpire st' = now \<and>
    cache_lowwater st' = cache_lowwater st \<and> cache_highwater st' = cache_highwater st \<and>
    subseq (cache_abs st') (filter (\<lambda>c. \<not> cx_expired now c) (cache_abs st)) \<and>
    (if int (length (filter (\<lambda>c. \<not> cx_expired now c) (cache_abs st))) \<le> cache_highwater st
     then cache_abs st' = filter (\<lambda>c. \<not> cx_expired now c) (cache_abs st)
     else length (cache_abs st') = nat (cache_lowwater st))"
proof -
  obtain xs where ok: "cache_ok st xs" and ents: "list_all entry_ok (cache_abs st)"
    using inv by (auto simp: cache_inv_def)
  let ?ex = "\<lambda>a. cx_expired now (the (cx_item st a))"
  let ?live = "filter (\<lambda>c. \<not> cx_expired now c) (cache_abs st)"
  obtain st2 where st2: "expire_walk now (cachelist st) 0 0 st = Some (length xs, length (filter ?ex xs), st2)"
    "cache_ok st2 (filter (\<lambda>a. \<not> ?ex a) xs)"
    "\<forall>b. b \<in> set xs \<and> \<not> ?ex b \<longrightarrow> cx_item st2 b = cx_item st b" "same_config st st2"
    using expire_walk_ok [of st "[]" xs now 0 0] ok by (auto simp: cache_ok_def)
  have live: "cache_abs st2 = ?live"
    using st2(3) by (intro abs_filter [OF ok st2(2)]) auto
  let ?k = "length xs - length (filter ?ex xs)"
  have k: "?k = length (filter (\<lambda>a. \<not> ?ex a) xs)"
    using sum_length_filter_compl [of ?ex xs] by simp
  have kl: "?k = length ?live" using k live cache_abs_eq [OF st2(2)] by (metis length_map)
  define next_state where "next_state = (if cache_highwater st2 < int ?k then expire_oldest qsort ?k st2 else Some st2)"
  have run: "cache_expire qsort now st = next_state \<bind> (\<lambda>st3. Some (st3\<lparr>lastexpire := now\<rparr>))"
    using on due st2(1) by (simp add: cache_expire_def Let_def next_state_def not_less)
  have ents2: "list_all entry_ok ?live" using ents by (auto simp: list_all_iff)
  have le: "cache_abs (s\<lparr>lastexpire := now\<rparr>) = cache_abs s" for s
    by (simp add: cache_abs_def cache_nodes_def cx_item_def)
  have okle: "cache_ok (s\<lparr>lastexpire := now\<rparr>) ys" if "cache_ok s ys" for s ys
    using that by (simp add: cache_ok_def)
  note hw = same_configD [OF st2(4)]
  show ?thesis
  proof (cases "cache_highwater st < int ?k")
    case False
    then have "cache_expire qsort now st = Some (st2\<lparr>lastexpire := now\<rparr>)"
      using run hw by (simp add: next_state_def)
    moreover have "cache_inv (st2\<lparr>lastexpire := now\<rparr>)"
      using okle [OF st2(2)] ents2 le live by (auto simp: cache_inv_def)
    ultimately show ?thesis using False kl le live hw by (simp add: not_less)
  next
    case True
    have more: "cache_lowwater st2 \<le> int (length (filter (\<lambda>a. \<not> ?ex a) xs))"
      using True k wm hw by simp
    obtain st3 as where st3: "expire_oldest qsort ?k st2 = Some st3"
      "cache_ok st3 (filter (\<lambda>b. b \<notin> set as) (filter (\<lambda>a. \<not> ?ex a) xs))"
      "length (cache_nodes st3) = nat (cache_lowwater st2)"
      "\<forall>b \<in> set (filter (\<lambda>a. \<not> ?ex a) xs) - set as. cx_item st3 b = cx_item st2 b"
      "same_config st2 st3"
      using expire_oldest_ok [OF st2(2) q _ more] hw wm(1) k by auto
    let ?ys = "filter (\<lambda>b. b \<notin> set as) (filter (\<lambda>a. \<not> ?ex a) xs)"
    have "cache_abs st3 = map (\<lambda>a. the (cx_item st2 a)) ?ys"
      using cache_abs_eq [OF st3(2)] st3(4) by (simp del: filter_filter)
    moreover have "subseq (map (\<lambda>a. the (cx_item st2 a)) ?ys)
        (map (\<lambda>a. the (cx_item st2 a)) (filter (\<lambda>a. \<not> ?ex a) xs))"
      by (intro subseq_map subseq_filter_left)
    ultimately have sub: "subseq (cache_abs st3) ?live"
      using cache_abs_eq [OF st2(2)] live by simp
    then have "list_all entry_ok (cache_abs st3)"
      using ents2 by (auto simp: list_all_iff elim: list_emb_set)
    then have "cache_inv (st3\<lparr>lastexpire := now\<rparr>)"
      using okle [OF st3(2)] le by (auto simp: cache_inv_def)
    moreover have "length (cache_abs st3) = nat (cache_lowwater st)"
      using st3(3) hw by (simp add: cache_abs_def)
    moreover have "cache_expire qsort now st = Some (st3\<lparr>lastexpire := now\<rparr>)"
      using run True hw st3(1) by (simp add: next_state_def)
    ultimately show ?thesis using True kl le sub hw same_configD [OF st3(5)] by (simp add: not_le)
  qed
qed

subsection \<open>Correctness of the cache\<close>

text \<open>C14. Insertion refines the abstract cache.  A response with answers is appended as one entry
  holding its question, its packet and its server, due to expire an hour later; nothing else
  changes.  A response without answers changes nothing in the list: its node is allocated and
  initialised but linked nowhere, so that it is never found, expired or freed.\<close>

theorem cache_insert_refines:
  assumes "cache_inv st" and "cache_onoff st"
    and "parse_query vc y0 pkt len = Some (0, q)" and "GET_QR (rr_flags q) \<noteq> 0"
    and "cstr (rr_name q) = Some nm" and "nm \<noteq> []"
    and "10 \<le> len" and "len \<le> UDP_MAXSIZE" and "len \<le> length pkt"
    and "parse_packet pkt len = Some x"
  shows "\<exists>st'. cache_dnspacket vc y0 now pkt len server st = Some st' \<and> cache_inv st' \<and>
    (if 0 < sint (ancount x)
     then cache_abs st' = cache_abs st @ [new_entry now x q nm server]
     else cache_abs st' = cache_abs st \<and> cx_brk st \<notin> set (cache_nodes st') \<and>
          cx_heap st (cx_brk st) = None \<and> cx_heap st' (cx_brk st) \<noteq> None)"
proof -
  have "cx_heap st (cx_brk st) = None" "cx_brk st \<notin> set (cache_nodes st)"
    using assms(1) cache_ok_mapped by (auto simp: cache_inv_def cache_nodes_eq) (fastforce simp: cache_ok_def)+
  then show ?thesis using cache_dnspacket_ok [OF assms, of now server] by (auto split: if_splits)
qed

definition example_response :: bytes where
  "example_response = example_query[2 := 0x81, 3 := 0x80, 7 := 1] @ replicate 490 0"

definition parsed :: "bytes \<Rightarrow> rr_t" where
  "parsed pkt = snd (the (parse_query (init_dns 1) blank_rr pkt 26))"

lemma cache_start_inv: "cache_inv cache_start" "cache_abs cache_start = []"
proof -
  have ok: "cache_ok cache_start []" by (simp add: cache_ok_def cache_start_def)
  show "cache_abs cache_start = []" using cache_abs_eq [OF ok] by simp
  then show "cache_inv cache_start" using ok by (auto simp: cache_inv_def)
qed

lemma example_response_parses:
  "parse_query (init_dns 1) blank_rr example_response 26 = Some (0, parsed example_response)"
  "GET_QR (rr_flags (parsed example_response)) \<noteq> 0"
  "cstr (rr_name (parsed example_response)) = Some (bytes_of ''www.ab'')"
  by code_simp+

definition example_header :: dnsheader_t where
  "example_header = the (parse_packet example_response 26)"

lemma example_header_Some:
  "parse_packet example_response 26 = Some example_header" "sint (ancount example_header) = 1"
  by code_simp+

theorem cache_insert_refines_witness:
  "\<exists>st'. cache_dnspacket (init_dns 1) blank_rr 1000 example_response 26 (0, 1) cache_start = Some st' \<and>
     cache_inv st' \<and>
     cache_abs st' = [new_entry 1000 example_header (parsed example_response) (bytes_of ''www.ab'') (0, 1)]"
proof -
  have "cache_onoff cache_start" by (simp add: cache_start_def)
  moreover have "bytes_of ''www.ab'' \<noteq> []" by (simp add: bytes_of_def)
  moreover have "(26 :: nat) \<le> UDP_MAXSIZE" "26 \<le> length example_response"
    by (simp_all add: UDP_MAXSIZE_def example_response_def example_query_def)
  ultimately show ?thesis
    using cache_insert_refines [OF cache_start_inv(1) _ example_response_parses _ _ _ _ example_header_Some(1),
        of 1000 "(0, 1)"] cache_start_inv(2) example_header_Some(2)
    by simp
qed

text \<open>C13. Lookup refines the abstract cache.  A question is answered by the first entry with its
  type, class and (case-insensitive) name: the packet becomes the cached response under the
  client's own id, the length of the response is returned, the entry's expiry is renewed if it
  holds answers, and a hit is counted; without such an entry only a miss is counted.  When hits
  of inactive servers are to be ignored and the entry's server is inactive, 0 is returned, but
  the packet has been overwritten and the entry renewed all the same.\<close>

theorem cache_lookup_refines:
  assumes "cache_inv st" and "cache_onoff st"
    and "parse_query vc y0 pkt len = Some (0, q)" and "lookup_key q nm" and "UDP_MAXSIZE \<le> length pkt"
    and "ign \<longrightarrow> (\<forall>c \<in> set (cache_abs st). inactive (cx_server c) \<noteq> None)"
  shows "\<exists>r pkt' st'. cache_lookup vc y0 now ign inactive pkt len st = Some (r, pkt', st') \<and> cache_inv st' \<and>
    (if \<forall>c \<in> set (cache_abs st). \<not> cx_matches q nm c
     then r = 0 \<and> pkt' = pkt \<and> st' = st\<lparr>cache_misses := cache_misses st + 1\<rparr>
     else \<exists>i < length (cache_abs st). cx_matches q nm (cache_abs st ! i) \<and>
       (\<forall>j < i. \<not> cx_matches q nm (cache_abs st ! j)) \<and>
       r = (if ign \<and> inactive (cx_server (cache_abs st ! i)) \<noteq> Some 0 then 0
            else int (plen (cx_p (cache_abs st ! i)))) \<and>
       pkt' = answer_in pkt (cache_abs st ! i) \<and>
       cache_abs st' = (cache_abs st)[i := refreshed now (cache_abs st ! i)] \<and>
       cache_hits st' = cache_hits st + 1)"
proof -
  obtain r pkt' st' where "cache_lookup vc y0 now ign inactive pkt len st = Some (r, pkt', st')" "cache_inv st'"
    "if \<forall>c \<in> set (cache_abs st). \<not> cx_matches q nm c
     then r = 0 \<and> pkt' = pkt \<and> st' = st\<lparr>cache_misses := cache_misses st + 1\<rparr>
     else \<exists>i < length (cache_abs st). cx_matches q nm (cache_abs st ! i) \<and>
       (\<forall>j < i. \<not> cx_matches q nm (cache_abs st ! j)) \<and>
       r = (if ign \<and> inactive (cx_server (cache_abs st ! i)) \<noteq> Some 0 then 0
            else int (plen (cx_p (cache_abs st ! i)))) \<and>
       pkt' = answer_in pkt (cache_abs st ! i) \<and>
       cache_abs st' = (cache_abs st)[i := refreshed now (cache_abs st ! i)] \<and>
       cache_hits st' = cache_hits st + 1"
    using cache_lookup_ok [OF assms, of now] by blast
  then show ?thesis by blast
qed

definition example_question :: bytes where
  "example_question = example_query @ replicate 490 0"

lemma example_question_parses:
  "parse_query (init_dns 1) blank_rr example_question 26 = Some (0, parsed example_question)"
  "lookup_key (parsed example_question) (bytes_of ''www.ab'')"
  "rr_type (parsed example_question) = 1" "rr_class (parsed example_question) = 1"
  by code_simp+

lemma example_question_length: "UDP_MAXSIZE \<le> length example_question"
  by (simp add: UDP_MAXSIZE_def example_question_def example_query_def)

theorem cache_lookup_refines_witness:
  "cache_lookup (init_dns 1) blank_rr 1000 False (\<lambda>_. None) example_question 26 cache_start =
     Some (0, example_question, cache_start\<lparr>cache_misses := 1\<rparr>)"
  using cache_lookup_refines [OF cache_start_inv(1) _ example_question_parses(1,2) example_question_length,
      of False "\<lambda>_. None" 1000] cache_start_inv(2)
  by (auto simp: cache_start_def)

text \<open>What was cached is what is answered.  After a response with answers has been cached, a
  question for the same name (in any case), type and class that no older entry matches is
  answered with exactly the cached bytes behind the id of the question.\<close>

theorem cache_answers_what_was_cached:
  assumes "cache_inv st" and "cache_onoff st"
    and "parse_query vc y0 resp rlen = Some (0, qr)" and "GET_QR (rr_flags qr) \<noteq> 0"
    and "cstr (rr_name qr) = Some nmr" and "nmr \<noteq> []"
    and "10 \<le> rlen" and "rlen \<le> UDP_MAXSIZE" and "rlen \<le> length resp"
    and "parse_packet resp rlen = Some x" and "0 < sint (ancount x)"
    and "parse_query vc y1 pkt len = Some (0, q)" and "lookup_key q nm" and "UDP_MAXSIZE \<le> length pkt"
    and "rr_type q = rr_type qr" and "rr_class q = rr_class qr" and "strcaseeq nmr nm"
    and "\<forall>c \<in> set (cache_abs st). \<not> cx_matches q nm c"
  shows "\<exists>st1 st2. cache_dnspacket vc y0 now resp rlen server st = Some st1 \<and>
    cache_lookup vc y1 now' False inactive pkt len st1 =
      Some (int rlen, take 2 pkt @ take (rlen - 2) (drop 2 resp) @ drop rlen pkt, st2) \<and> cache_inv st2"
proof -
  obtain st1 where st1: "cache_dnspacket vc y0 now resp rlen server st = Some st1" "cache_inv st1"
    "cache_abs st1 = cache_abs st @ [new_entry now x qr nmr server]" "cache_onoff st1"
    using cache_dnspacket_ok [OF assms(1-10), of now server] assms(2,11) by auto
  let ?e = "new_entry now x qr nmr server"
  have m: "cx_matches q nm ?e" using assms(15-17) by (simp add: cx_matches_def new_entry_def)
  have ex: "\<not> (\<forall>c \<in> set (cache_abs st1). \<not> cx_matches q nm c)" using m st1(3) by auto
  have "\<exists>r pkt' st2. cache_lookup vc y1 now' False inactive pkt len st1 = Some (r, pkt', st2) \<and>
      cache_inv st2 \<and> cache_onoff st2 = cache_onoff st1 \<and>
      (\<exists>i < length (cache_abs st1). cx_matches q nm (cache_abs st1 ! i) \<and>
       (\<forall>j < i. \<not> cx_matches q nm (cache_abs st1 ! j)) \<and>
       r = (if False \<and> inactive (cx_server (cache_abs st1 ! i)) \<noteq> Some 0 then 0
            else int (plen (cx_p (cache_abs st1 ! i)))) \<and>
       pkt' = answer_in pkt (cache_abs st1 ! i) \<and>
       cache_abs st2 = (cache_abs st1)[i := refreshed now' (cache_abs st1 ! i)] \<and>
       cache_hits st2 = cache_hits st1 + 1)"
    using cache_lookup_ok [OF st1(2,4) assms(12-14), of False inactive now', unfolded if_not_P [OF ex]] by simp
  then obtain pkt' st2 i where l: "i < length (cache_abs st1)" "cx_matches q nm (cache_abs st1 ! i)"
    "cache_lookup vc y1 now' False inactive pkt len st1 =
      Some (int (plen (cx_p (cache_abs st1 ! i))), answer_in pkt (cache_abs st1 ! i), st2)" "cache_inv st2"
    by auto
  have "i = length (cache_abs st)"
  proof (rule ccontr)
    assume "i \<noteq> length (cache_abs st)"
    then have "cache_abs st1 ! i \<in> set (cache_abs st)" using l(1) st1(3) by (auto simp: nth_append)
    then show False using assms(18) l(2) by blast
  qed
  then have e: "cache_abs st1 ! i = ?e" using st1(3) by simp
  obtain x' where x': "parse_packet resp rlen = Some x'" "packet x' = take rlen resp @ [0, 0]" "plen x' = rlen"
    using parse_packet_Some [OF assms(7,9)] by blast
  then have "packet x = take rlen resp @ [0, 0]" "plen x = rlen" using assms(10) by auto
  then have "plen (cx_p ?e) = rlen" "answer_in pkt ?e = take 2 pkt @ take (rlen - 2) (drop 2 resp) @ drop rlen pkt"
    using assms(7,9) by (simp_all add: new_entry_def answer_in_def drop_take)
  then show ?thesis using st1(1) l(3,4) e by auto
qed

theorem cache_answers_what_was_cached_witness:
  "\<exists>st1 st2. cache_dnspacket (init_dns 1) blank_rr 1000 example_response 26 (0, 1) cache_start = Some st1 \<and>
    cache_lookup (init_dns 1) blank_rr 1010 False (\<lambda>_. None) example_question 26 st1 =
      Some (int 26, take 2 example_question @ take (26 - 2) (drop 2 example_response) @ drop 26 example_question, st2) \<and>
    cache_inv st2"
proof (rule cache_answers_what_was_cached
    [OF cache_start_inv(1) _ example_response_parses _ _ _ _ example_header_Some(1) _
        example_question_parses(1,2) example_question_length])
  show "rr_type (parsed example_question) = rr_type (parsed example_response)"
    "rr_class (parsed example_question) = rr_class (parsed example_response)" by code_simp+
  show "\<forall>c \<in> set (cache_abs cache_start). \<not> cx_matches (parsed example_question) (bytes_of ''www.ab'') c"
    by (simp add: cache_start_inv(2))
qed (simp_all add: cache_start_inv(2) cache_start_def example_header_Some(2) bytes_of_def UDP_MAXSIZE_def
    example_response_def example_query_def strcaseeq_def)

text \<open>C15. A due expiry run ends, keeps the list well formed and removes exactly the entries that
  are past their expiry time or older than six hours; if more than \<open>cache_highwater\<close>
  entries are left, it goes on until \<open>cache_lowwater\<close> of them remain.\<close>

theorem cache_expire_refines:
  assumes "cache_inv st" and "cache_onoff st" and "qsort_ok qsort"
    and "0 \<le> cache_lowwater st" and "cache_lowwater st \<le> cache_highwater st"
    and "lastexpire st \<noteq> 0" and "CACHE_MINCYCLE \<le> sint (now - lastexpire st)"
  shows "\<exists>st'. cache_expire qsort now st = Some st' \<and> cache_inv st' \<and> lastexpire st' = now \<and>
    (let live = filter (\<lambda>c. \<not> (cx_expires c < now \<or> CACHE_MAXTIME < now - cx_created c)) (cache_abs st)
     in subseq (cache_abs st') live \<and>
        length (cache_abs st') =
          (if int (length live) \<le> cache_highwater st then length live else nat (cache_lowwater st)))"
proof -
  let ?live = "filter (\<lambda>c. \<not> cx_expired now c) (cache_abs st)"
  have "?live = filter (\<lambda>c. \<not> (cx_expires c < now \<or> CACHE_MAXTIME < now - cx_created c)) (cache_abs st)"
    by (simp add: cx_expired_def)
  then show ?thesis using cache_expire_ok [OF assms] by (auto simp: Let_def split: if_splits)
qed

text \<open>A sorting routine that satisfies the promise of \<open>qsort\<close>.\<close>

fun cmp_insert :: "('a \<Rightarrow> 'a \<Rightarrow> int) \<Rightarrow> 'a \<Rightarrow> 'a list \<Rightarrow> 'a list" where
  "cmp_insert cmp x [] = [x]"
| "cmp_insert cmp x (y # ys) = (if cmp x y \<le> 0 then x # y # ys else y # cmp_insert cmp x ys)"

definition cmp_isort :: "('a \<Rightarrow> 'a \<Rightarrow> int) \<Rightarrow> 'a list \<Rightarrow> 'a list" where
  "cmp_isort cmp xs = foldr (cmp_insert cmp) xs []"

lemma mset_cmp_insert [simp]: "mset (cmp_insert cmp x ys) = add_mset x (mset ys)"
  by (induction ys) auto

lemma set_cmp_insert [simp]: "set (cmp_insert cmp x ys) = insert x (set ys)"
  by (metis mset_cmp_insert set_mset_add_mset_insert set_mset_mset)

lemma preorder_on_cmp_mono: "preorder_on_cmp cmp zs \<Longrightarrow> set ys \<subseteq> set zs \<Longrightarrow> preorder_on_cmp cmp ys"
  unfolding preorder_on_cmp_def by (meson subsetD)

lemma cmp_insert_sorted:
  "preorder_on_cmp cmp (x # ys) \<Longrightarrow> sorted_wrt (\<lambda>x y. cmp x y \<le> 0) ys \<Longrightarrow>
     sorted_wrt (\<lambda>x y. cmp x y \<le> 0) (cmp_insert cmp x ys)"
proof (induction ys)
  case Nil
  then show ?case by simp
next
  case (Cons y ys)
  have "preorder_on_cmp cmp (x # ys)" by (rule preorder_on_cmp_mono [OF Cons.prems(1)]) auto
  then have s: "sorted_wrt (\<lambda>x y. cmp x y \<le> 0) (cmp_insert cmp x ys)" using Cons by simp
  show ?case
  proof (cases "cmp x y \<le> 0")
    case True
    have "cmp x z \<le> 0" if "z \<in> set ys" for z
    proof -
      have "cmp y z \<le> 0" using Cons.prems(2) that by simp
      then show ?thesis using Cons.prems(1) True that unfolding preorder_on_cmp_def by (meson list.set_intros)
    qed
    then show ?thesis using True Cons.prems(2) by simp
  next
    case False
    then have "cmp y x \<le> 0"
      using Cons.prems(1) unfolding preorder_on_cmp_def by (meson list.set_intros)
    then show ?thesis using False s Cons.prems(2) by simp
  qed
qed

lemma cmp_isort_ok: "qsort_ok cmp_isort"
  unfolding qsort_ok_def
proof (intro allI conjI impI)
  fix cmp :: "'a \<Rightarrow> 'a \<Rightarrow> int" and zs :: "'a list"
  show m: "mset (cmp_isort cmp zs) = mset zs" for zs by (induction zs) (auto simp: cmp_isort_def)
  show "sorted_wrt (\<lambda>x y. cmp x y \<le> 0) (cmp_isort cmp zs)" if "preorder_on_cmp cmp zs"
    using that
  proof (induction zs)
    case Nil
    then show ?case by (simp add: cmp_isort_def)
  next
    case (Cons z zs)
    have "set (cmp_isort cmp zs) = set zs" by (rule mset_eq_setD [OF m])
    then have "preorder_on_cmp cmp (z # cmp_isort cmp zs)"
      by (intro preorder_on_cmp_mono [OF Cons.prems]) simp
    moreover have "preorder_on_cmp cmp zs" by (rule preorder_on_cmp_mono [OF Cons.prems]) auto
    ultimately show ?case
      using Cons.IH cmp_insert_sorted [of cmp z "cmp_isort cmp zs"] by (simp add: cmp_isort_def)
  qed
qed

text \<open>A cache with two entries, one used at 1000 and one at 2000.\<close>

definition demo_entry :: "time_t \<Rightarrow> cache_t" where
  "demo_entry t = new_entry t example_header (parsed example_response) (bytes_of ''www.ab'') (0, 1)"

definition demo_cache :: cache_state where
  "demo_cache = cache_start\<lparr>
     cx_heap := [0 \<mapsto> (demo_entry 1000)\<lparr>cx_next := Some 1\<rparr>, 1 \<mapsto> (demo_entry 2000)\<lparr>cx_prev := Some 0\<rparr>],
     cx_brk := 2, cachelist := Some 0, lastcache := Some 1, lastexpire := 1, cache_lowwater := 1\<rparr>"

lemma demo_cache_inv:
  "cache_inv demo_cache" "cache_abs demo_cache = [demo_entry 1000, demo_entry 2000]"
proof -
  have ok: "cache_ok demo_cache [0, 1]"
    by (auto simp: cache_ok_def demo_cache_def cache_start_def demo_entry_def new_entry_def last_ptr_def
        split: if_splits)
  show ab: "cache_abs demo_cache = [demo_entry 1000, demo_entry 2000]"
    using cache_abs_eq [OF ok] by (simp add: demo_cache_def cx_item_def demo_entry_def new_entry_def)
  obtain x where "parse_packet example_response 26 = Some x" "packet x = take 26 example_response @ [0, 0]" "plen x = 26"
    using parse_packet_Some [of 26 example_response] by (auto simp: example_response_def example_query_def)
  then have "entry_ok (demo_entry t)" for t
    using example_header_Some(1)
    by (simp add: entry_ok_def demo_entry_def new_entry_def UDP_MAXSIZE_def example_response_def example_query_def)
  then show "cache_inv demo_cache" using ok ab by (auto simp: cache_inv_def)
qed

theorem cache_expire_refines_witness:
  "\<exists>st'. cache_expire cmp_isort 5000 demo_cache = Some st' \<and> cache_inv st' \<and>
     cache_abs st' = [demo_entry 2000]"
proof -
  have "filter (\<lambda>c. \<not> (cx_expires c < 5000 \<or> CACHE_MAXTIME < 5000 - cx_created c)) (cache_abs demo_cache) =
      [demo_entry 2000]"
    by (simp add: demo_cache_inv(2) demo_entry_def new_entry_def CACHE_TIME_def CACHE_MAXTIME_def CACHE_TIMEUNIT_def)
  then obtain st' where "cache_expire cmp_isort 5000 demo_cache = Some st'" "cache_inv st'"
    "subseq (cache_abs st') [demo_entry 2000]" "length (cache_abs st') = 1"
    using cache_expire_refines [OF demo_cache_inv(1) _ cmp_isort_ok, of 5000]
    by (auto simp: demo_cache_def cache_start_def CACHE_LOWWATER_def CACHE_HIGHWATER_def CACHE_MINCYCLE_def Let_def)
  then show ?thesis by (auto simp: length_Suc_conv split: if_splits)
qed

lemma cmp_cachemru_iff:
  assumes "uint (cx_lastused c) < 2 ^ 31" and "uint (cx_lastused d) < 2 ^ 31"
  shows "cmp_cachemru c d \<le> 0 \<longleftrightarrow> cx_lastused d \<le> cx_lastused c"
  using sint_diff_small [OF assms(2,1)] by (simp add: cmp_cachemru_def word_le_def)

lemma cmp_ptr_preorder:
  assumes "\<And>a. a \<in> set xs \<Longrightarrow> \<exists>c. h a = Some c \<and> uint (cx_lastused c) < 2 ^ 31"
  shows "preorder_on_cmp (cmp_ptr h) xs"
    and "a \<in> set xs \<Longrightarrow> b \<in> set xs \<Longrightarrow>
      cmp_ptr h a b \<le> 0 \<longleftrightarrow> cx_lastused (the (h b)) \<le> cx_lastused (the (h a))"
proof -
  have le: "cmp_ptr h a b \<le> 0 \<longleftrightarrow> cx_lastused (the (h b)) \<le> cx_lastused (the (h a))"
    if "a \<in> set xs" "b \<in> set xs" for a b
    using assms [OF that(1)] assms [OF that(2)] by (auto simp: cmp_ptr_def cmp_cachemru_iff)
  then show "a \<in> set xs \<Longrightarrow> b \<in> set xs \<Longrightarrow>
      cmp_ptr h a b \<le> 0 \<longleftrightarrow> cx_lastused (the (h b)) \<le> cx_lastused (the (h a))" by blast
  show "preorder_on_cmp (cmp_ptr h) xs"
    unfolding preorder_on_cmp_def by (auto simp: le)
qed

text \<open>The eviction behind the high water mark leaves exactly \<open>cache_lowwater\<close> entries, but
  it keeps the wrong ones: the comparison orders the entries from the most recently used to the
  least recently used and the first ones are removed, so that every entry that goes was used at
  least as recently as every entry that stays.\<close>

theorem expire_oldest_evicts_most_recent:
  assumes "cache_inv st" and "qsort_ok qsort" and "0 \<le> cache_lowwater st"
    and "cache_lowwater st \<le> int (length (cache_abs st))"
    and "\<forall>c \<in> set (cache_abs st). uint (cx_lastused c) < 2 ^ 31"
  shows "\<exists>st' evicted. expire_oldest qsort (length (cache_abs st)) st = Some st' \<and>
    length (cache_abs st') = nat (cache_lowwater st) \<and>
    mset (cache_abs st) = mset (cache_abs st') + mset evicted \<and>
    (\<forall>e \<in> set evicted. \<forall>k \<in> set (cache_abs st'). cx_lastused k \<le> cx_lastused e)"
proof -
  obtain xs where ok: "cache_ok st xs" using assms(1) by (auto simp: cache_inv_def)
  let ?f = "\<lambda>a. the (cx_item st a)" and ?cmp = "cmp_ptr (cx_heap st)"
  have len: "length (cache_abs st) = length xs" using cache_abs_eq [OF ok] by simp
  obtain st' as where st': "expire_oldest qsort (length xs) st = Some st'"
    "as = take (length xs - nat (cache_lowwater st)) (qsort ?cmp xs)" "set as \<subseteq> set xs" "distinct as"
    "cache_ok st' (filter (\<lambda>b. b \<notin> set as) xs)" "length (cache_nodes st') = nat (cache_lowwater st)"
    "\<forall>b \<in> set xs - set as. cx_item st' b = cx_item st b"
    using expire_oldest_ok [OF ok assms(2,3)] assms(4) len by auto
  have ab: "cache_abs st' = map ?f (filter (\<lambda>b. b \<notin> set as) xs)"
    using cache_abs_eq [OF st'(5)] st'(7) by simp
  have "mset xs = mset (filter (\<lambda>b. b \<notin> set as) xs) + mset (filter (\<lambda>b. b \<in> set as) xs)"
    using multiset_partition [of "mset xs" "\<lambda>b. b \<notin> set as"] by simp
  then have "image_mset ?f (mset xs) = image_mset ?f (mset (filter (\<lambda>b. b \<notin> set as) xs)) +
      image_mset ?f (mset (filter (\<lambda>b. b \<in> set as) xs))" by (metis image_mset_union)
  then have m: "mset (cache_abs st) = mset (cache_abs st') + mset (map ?f (filter (\<lambda>b. b \<in> set as) xs))"
    unfolding cache_abs_eq [OF ok] ab mset_map .
  have mapped: "\<exists>c. cx_heap st a = Some c \<and> uint (cx_lastused c) < 2 ^ 31" if "a \<in> set xs" for a
    using cache_ok_mapped [OF ok that] assms(5) cache_abs_eq [OF ok] that by (auto simp: cx_item_def)
  have lu: "cx_lastused (the (cx_heap st a)) = cx_lastused (?f a)" if "a \<in> set xs" for a
    using mapped [OF that] by (auto simp: cx_item_def)
  have perm: "mset (qsort ?cmp xs) = mset xs" by (rule qsort_ok_perm [OF assms(2)])
  have "sorted_wrt (\<lambda>x y. ?cmp x y \<le> 0) (qsort ?cmp xs)"
    using assms(2) cmp_ptr_preorder(1) [OF mapped] by (auto simp: qsort_ok_def)
  then have srt: "\<forall>x \<in> set as. \<forall>y \<in> set (drop (length xs - nat (cache_lowwater st)) (qsort ?cmp xs)). ?cmp x y \<le> 0"
    unfolding st'(2) by (subst (asm) append_take_drop_id [symmetric, of _ "length xs - nat (cache_lowwater st)"])
      (unfold sorted_wrt_append, blast)
  have rest: "k \<in> set (drop (length xs - nat (cache_lowwater st)) (qsort ?cmp xs))"
    if "k \<in> set xs" "k \<notin> set as" for k
    using that mset_eq_setD [OF perm] st'(2) by (metis Un_iff append_take_drop_id set_append)
  have "cx_lastused k \<le> cx_lastused e"
    if e: "e \<in> set (map ?f (filter (\<lambda>b. b \<in> set as) xs))" and k: "k \<in> set (cache_abs st')" for e k
  proof -
    from e k ab obtain a b where "a \<in> set xs" "a \<in> set as" "e = ?f a" "b \<in> set xs" "b \<notin> set as" "k = ?f b"
      by auto
    with srt rest cmp_ptr_preorder(2) [where xs = xs and h = "cx_heap st" and a = a and b = b, OF mapped] lu show ?thesis by auto
  qed
  moreover have "length (cache_abs st') = nat (cache_lowwater st)" using st'(6) by (simp add: cache_abs_def)
  ultimately show ?thesis using st'(1) m unfolding len by blast
qed

theorem expire_oldest_evicts_most_recent_witness:
  "\<exists>st'. expire_oldest cmp_isort 2 demo_cache = Some st' \<and> cache_abs st' = [demo_entry 1000]"
proof -
  obtain st' evicted where st': "expire_oldest cmp_isort (length (cache_abs demo_cache)) demo_cache = Some st'"
    "length (cache_abs st') = nat (cache_lowwater demo_cache)"
    "mset (cache_abs demo_cache) = mset (cache_abs st') + mset evicted"
    "\<forall>e \<in> set evicted. \<forall>k \<in> set (cache_abs st'). cx_lastused k \<le> cx_lastused e"
    using expire_oldest_evicts_most_recent [OF demo_cache_inv(1) cmp_isort_ok]
    by (auto simp: demo_cache_inv(2) demo_entry_def new_entry_def) (auto simp: demo_cache_def)
  have "cache_lowwater demo_cache = 1" by (simp add: demo_cache_def)
  with st'(2) obtain k where k: "cache_abs st' = [k]" by (auto simp: length_Suc_conv)
  with st'(3) have m: "{#demo_entry 1000, demo_entry 2000#} = add_mset k (mset evicted)"
    by (simp add: demo_cache_inv(2))
  have "k \<in># {#demo_entry 1000, demo_entry 2000#}" unfolding m by simp
  then consider "k = demo_entry 1000" | "k = demo_entry 2000" by auto
  then show ?thesis
  proof cases
    case 1
    then show ?thesis using st'(1) k by (simp add: demo_cache_inv(2) numeral_2_eq_2)
  next
    case 2
    then have "mset evicted = {#demo_entry 1000#}" using m by (simp add: add_mset_commute)
    then have "demo_entry 1000 \<in> set evicted" by (metis set_mset_mset union_single_eq_member)
    then have "cx_lastused (demo_entry 2000) \<le> cx_lastused (demo_entry 1000)" using st'(4) k 2 by simp
    then show ?thesis by (simp add: demo_entry_def new_entry_def)
  qed
qed

lemma atoi_digit_nonneg:
  assumes "isdigit (hd s)" and "s \<noteq> []"
  shows "0 \<le> atoi s"
proof -
  obtain c cs where s: "s = c # cs" using assms(2) by (cases s) auto
  have "\<not> isspace c" "c \<noteq> 45" using assms(1) by (auto simp: s isdigit_def isspace_def word_le_nat_alt)
  then show ?thesis using digits_value_nonneg [of 0] by (simp add: atoi_def s del: digits_value.simps)
qed

text \<open>Whatever the \<open>-c\<close> option says, after cache\_init either caching is off or the
  water marks are usable: not negative and in order.\<close>

theorem cache_init_watermarks:
  "\<not> cache_onoff (cache_init cache_param cache_start) \<or>
   0 \<le> cache_lowwater (cache_init cache_param cache_start) \<and>
   cache_lowwater (cache_init cache_param cache_start) \<le> cache_highwater (cache_init cache_param cache_start)"
proof -
  have "0 \<le> atoi (takeWhile (\<lambda>c. c \<noteq> 58) cache_param)" if "isdigit (hd cache_param)" "cache_param \<noteq> []"
  proof -
    have "hd cache_param \<noteq> 58" using that(1) by (auto simp: isdigit_def)
    then show ?thesis using that by (cases cache_param) (auto intro: atoi_digit_nonneg)
  qed
  then show ?thesis
    using atoi_digit_nonneg [of cache_param]
    by (auto simp: cache_init_def Let_def cache_start_def CACHE_HIGHWATER_def CACHE_LOWWATER_def)
qed

theorem cache_init_watermarks_witness:
  "cache_onoff (cache_init (bytes_of ''50:10'') cache_start) \<and>
   0 \<le> cache_lowwater (cache_init (bytes_of ''50:10'') cache_start) \<and>
   cache_lowwater (cache_init (bytes_of ''50:10'') cache_start) \<le> cache_highwater (cache_init (bytes_of ''50:10'') cache_start)"
proof -
  have "cache_onoff (cache_init (bytes_of ''50:10'') cache_start)" by code_simp
  then show ?thesis using cache_init_watermarks [of "bytes_of ''50:10''"] by simp
qed

end
