(* ===== verification/Dnrd_Qid.thy ===== *)
theory Dnrd_Qid
  imports CB_Prelude "HOL-Library.Multiset"
begin

section \<open>dnrd: random numbers and query ids (rand.c, qid.c)\<close>

text \<open>
  The ISAAC generator of \<^verbatim>\<open>rand.c\<close> with its 16-word context, and the pool of the 65536
  query ids.  The pool is an array whose first \<open>pool_ptr + 1\<close> cells hold the ids that are
  not in use: \<open>qid_get\<close> takes a random one of them and moves the last one into its place,
  \<open>qid_return\<close> appends an id.  \<open>None\<close> is an access outside an array.
\<close>

subsection \<open>ISAAC\<close>

definition RANDSIZL :: nat where "RANDSIZL = 4"
definition RANDSIZ :: nat where "RANDSIZ = 2 ^ RANDSIZL"

record randctx =
  randcnt :: nat
  randrsl :: "u32 list"
  randmem :: "u32 list"
  randa :: u32
  randb :: u32
  randc :: u32

text \<open>\<open>ind(mm, x)\<close>: the byte offset \<open>x & ((RANDSIZ-1) << 2)\<close> into an array of 4-byte words.\<close>

definition ind :: "u32 list \<Rightarrow> u32 \<Rightarrow> u32 option" where
  "ind mm x = peek mm (unat (x AND push_bit 2 (of_nat (RANDSIZ - 1))) div 4)"

text \<open>The local variables of \<open>isaac\<close>; \<open>m\<close>, \<open>m2\<close> and \<open>r\<close> are positions.\<close>

record isaac_vars =
  iv_a :: u32
  iv_b :: u32
  iv_mm :: "u32 list"
  iv_rsl :: "u32 list"
  iv_m :: nat
  iv_m2 :: nat
  iv_r :: nat

definition rngstep :: "(u32 \<Rightarrow> u32) \<Rightarrow> isaac_vars \<Rightarrow> isaac_vars option" where
  "rngstep mix v = do {
     x \<leftarrow> peek (iv_mm v) (iv_m v);
     m2 \<leftarrow> peek (iv_mm v) (iv_m2 v);
     let a = (iv_a v XOR mix (iv_a v)) + m2;
     i1 \<leftarrow> ind (iv_mm v) x;
     let y = i1 + a + iv_b v;
     mm \<leftarrow> poke (iv_mm v) (iv_m v) y;
     i2 \<leftarrow> ind mm (drop_bit RANDSIZL y);
     let b = i2 + x;
     rsl \<leftarrow> poke (iv_rsl v) (iv_r v) b;
     Some \<lparr>iv_a = a, iv_b = b, iv_mm = mm, iv_rsl = rsl,
           iv_m = iv_m v + 1, iv_m2 = iv_m2 v + 1, iv_r = iv_r v + 1\<rparr> }"

definition rng4 :: "isaac_vars \<Rightarrow> isaac_vars option" where
  "rng4 v = do {
     v \<leftarrow> rngstep (\<lambda>a. push_bit 13 a) v;
     v \<leftarrow> rngstep (\<lambda>a. drop_bit 6 a) v;
     v \<leftarrow> rngstep (\<lambda>a. push_bit 2 a) v;
     rngstep (\<lambda>a. drop_bit 16 a) v }"

text \<open>Both loops run while their cursor, advanced by four in each round, is below
  \<open>mend = RANDSIZ/2\<close>.\<close>

primrec rng_loop :: "nat \<Rightarrow> isaac_vars \<Rightarrow> isaac_vars option" where
  "rng_loop 0 v = Some v"
| "rng_loop (Suc n) v = do { v' \<leftarrow> rng4 v; rng_loop n v' }"

definition isaac :: "randctx \<Rightarrow> randctx option" where
  "isaac ctx = do {
     let c = randc ctx + 1;
     v1 \<leftarrow> rng_loop (RANDSIZ div 2 div 4)
             \<lparr>iv_a = randa ctx, iv_b = randb ctx + c, iv_mm = randmem ctx, iv_rsl = randrsl ctx,
              iv_m = 0, iv_m2 = RANDSIZ div 2, iv_r = 0\<rparr>;
     v2 \<leftarrow> rng_loop (RANDSIZ div 2 div 4) (v1\<lparr>iv_m2 := 0\<rparr>);
     Some (ctx\<lparr>randmem := iv_mm v2, randrsl := iv_rsl v2, randa := iv_a v2, randb := iv_b v2,
               randc := c\<rparr>) }"

datatype mix8 = Mix u32 u32 u32 u32 u32 u32 u32 u32

definition mix_step :: "mix8 \<Rightarrow> mix8" where
  "mix_step x = (case x of Mix a b c d e f g h \<Rightarrow>
     (let a = a XOR push_bit 11 b; d = d + a; b = b + c;
          b = b XOR drop_bit 2 c;  e = e + b; c = c + d;
          c = c XOR push_bit 8 d;  f = f + c; d = d + e;
          d = d XOR drop_bit 16 e; g = g + d; e = e + f;
          e = e XOR push_bit 10 f; h = h + e; f = f + g;
          f = f XOR drop_bit 4 g;  a = a + f; g = g + h;
          g = g XOR push_bit 8 h;  b = b + g; h = h + a;
          h = h XOR drop_bit 9 a;  c = c + h; a = a + b
      in Mix a b c d e f g h))"

definition read8 :: "u32 list \<Rightarrow> nat \<Rightarrow> (u32 list) option" where
  "read8 r i = (if i + 8 \<le> length r then Some (take 8 (drop i r)) else None)"

fun mix_add :: "mix8 \<Rightarrow> u32 list \<Rightarrow> mix8" where
  "mix_add (Mix a b c d e f g h) r =
     Mix (a + r ! 0) (b + r ! 1) (c + r ! 2) (d + r ! 3) (e + r ! 4) (f + r ! 5) (g + r ! 6) (h + r ! 7)"

fun write8 :: "u32 list \<Rightarrow> nat \<Rightarrow> mix8 \<Rightarrow> u32 list option" where
  "write8 m i (Mix a b c d e f g h) =
     (if i + 8 \<le> length m then Some (take i m @ [a, b, c, d, e, f, g, h] @ drop (i + 8) m) else None)"

text \<open>One of the passes of \<open>randinit\<close> over \<open>m[]\<close>: the positions \<open>0, 8, ...\<close> below
  \<open>RANDSIZ\<close>; \<open>src\<close> says what is added before mixing.\<close>

fun init_pass :: "(u32 list \<Rightarrow> nat \<Rightarrow> u32 list option) \<Rightarrow> nat list \<Rightarrow> mix8 \<Rightarrow> u32 list \<Rightarrow> (mix8 \<times> u32 list) option" where
  "init_pass src [] x m = Some (x, m)"
| "init_pass src (i # is) x m =
     (case src m i of
        None \<Rightarrow> None
      | Some r \<Rightarrow>
          let x' = mix_step (if r = [] then x else mix_add x r) in
          (case write8 m i x' of None \<Rightarrow> None | Some m' \<Rightarrow> init_pass src is x' m'))"

definition eights :: "nat list" where
  "eights = map (\<lambda>k. 8 * k) [0..<RANDSIZ div 8]"

definition randinit :: "randctx \<Rightarrow> bool \<Rightarrow> randctx option" where
  "randinit ctx flag = do {
     let gr = 0x9e3779b9;
     let x0 = (mix_step ^^ 4) (Mix gr gr gr gr gr gr gr gr);
     m \<leftarrow> (if flag then do {
              (x1, m1) \<leftarrow> init_pass (\<lambda>m i. read8 (randrsl ctx) i) eights x0 (randmem ctx);
              (x2, m2) \<leftarrow> init_pass read8 eights x1 m1;
              Some m2 }
            else do {
              (x1, m1) \<leftarrow> init_pass (\<lambda>m i. Some []) eights x0 (randmem ctx);
              Some m1 });
     ctx' \<leftarrow> isaac (ctx\<lparr>randmem := m, randa := 0, randb := 0, randc := 0\<rparr>);
     Some (ctx'\<lparr>randcnt := RANDSIZ\<rparr>) }"

text \<open>The macro \<open>rand(r)\<close>.\<close>

definition rand_next :: "randctx \<Rightarrow> (u32 \<times> randctx) option" where
  "rand_next ctx =
     (if randcnt ctx = 0
      then do {
        ctx' \<leftarrow> isaac ctx;
        let ctx'' = ctx'\<lparr>randcnt := RANDSIZ - 1\<rparr>;
        v \<leftarrow> peek (randrsl ctx'') (RANDSIZ - 1);
        Some (v, ctx'') }
      else do {
        let ctx' = ctx\<lparr>randcnt := randcnt ctx - 1\<rparr>;
        v \<leftarrow> peek (randrsl ctx') (randcnt ctx');
        Some (v, ctx') })"

subsection \<open>Random indices\<close>

text \<open>\<open>(int) ((float) max * (unsigned) u / (0xffffffff + 1.0))\<close>.  The product is computed in
  IEEE single precision: \<open>float_round\<close> rounds a natural number to 24 significant bits, ties
  to even; the conversion of \<open>u\<close> and the product are rounded, the division by
  \<open>2^32\<close> in double precision is exact, and the conversion to \<open>int\<close> truncates.\<close>

fun float_exp :: "nat \<Rightarrow> nat" where
  "float_exp n = (if n < 2 ^ 24 then 0 else Suc (float_exp (n div 2)))"

declare float_exp.simps [simp del]

definition float_round :: "nat \<Rightarrow> nat" where
  "float_round n =
     (let e = float_exp n; q = n div 2 ^ e; r = n mod 2 ^ e
      in if 2 ^ e < 2 * r \<or> (2 ^ e = 2 * r \<and> odd q) then (q + 1) * 2 ^ e else q * 2 ^ e)"

definition scale_rand :: "nat \<Rightarrow> u32 \<Rightarrow> nat" where
  "scale_rand m u = float_round (float_round m * float_round (unat u)) div 2 ^ 32"

definition myrand :: "nat \<Rightarrow> randctx \<Rightarrow> (nat \<times> randctx) option" where
  "myrand m ctx = do { (u, ctx') \<leftarrow> rand_next ctx; Some (scale_rand m u, ctx') }"

subsection \<open>The pool of query ids\<close>

definition QID_POOL_SIZE :: nat where "QID_POOL_SIZE = 65536"

record qid_state =
  qid_pool :: "u16 list"
  pool_ptr :: int
  isaac_ctx :: randctx

text \<open>The static storage before \<open>qid_init_pool\<close>; \<open>tv i\<close> is \<open>tv_sec + tv_usec\<close> of
  the \<open>i\<close>-th call of \<open>gettimeofday\<close>.\<close>

definition qid_static :: qid_state where
  "qid_static = \<lparr>qid_pool = replicate QID_POOL_SIZE 0, pool_ptr = int QID_POOL_SIZE - 1,
     isaac_ctx = \<lparr>randcnt = 0, randrsl = replicate RANDSIZ 0, randmem = replicate RANDSIZ 0,
                  randa = 0, randb = 0, randc = 0\<rparr>\<rparr>"

definition qid_init_pool :: "(nat \<Rightarrow> u32) \<Rightarrow> qid_state \<Rightarrow> qid_state option" where
  "qid_init_pool tv st = do {
     ctx \<leftarrow> randinit ((isaac_ctx st)\<lparr>randrsl := map tv [0..<RANDSIZ]\<rparr>) True;
     Some (st\<lparr>qid_pool := map of_nat [0..<QID_POOL_SIZE], isaac_ctx := ctx\<rparr>) }"

text \<open>With an empty pool (\<open>pool_ptr = -1\<close>) \<open>qid_get\<close> reads below the array.\<close>

definition qid_get :: "qid_state \<Rightarrow> (u16 \<times> qid_state) option" where
  "qid_get st =
     (if pool_ptr st < 0 then None
      else do {
        (k, ctx) \<leftarrow> myrand (nat (pool_ptr st)) (isaac_ctx st);
        let i = k mod QID_POOL_SIZE;
        t \<leftarrow> peek (qid_pool st) i;
        z \<leftarrow> peek (qid_pool st) (nat (pool_ptr st) mod QID_POOL_SIZE);
        pool \<leftarrow> poke (qid_pool st) i z;
        Some (t, st\<lparr>qid_pool := pool, pool_ptr := pool_ptr st - 1, isaac_ctx := ctx\<rparr>) })"

definition qid_return :: "u16 \<Rightarrow> qid_state \<Rightarrow> qid_state option" where
  "qid_return qid st = do {
     let p = pool_ptr st + 1;
     if p < 0 then None
     else do {
       pool \<leftarrow> poke (qid_pool st) (nat p mod QID_POOL_SIZE) qid;
       Some (st\<lparr>qid_pool := pool, pool_ptr := p\<rparr>) } }"

subsection \<open>The generator stays inside its arrays\<close>

definition randctx_ok :: "randctx \<Rightarrow> bool" where
  "randctx_ok ctx \<longleftrightarrow> length (randrsl ctx) = RANDSIZ \<and> length (randmem ctx) = RANDSIZ \<and>
     randcnt ctx \<le> RANDSIZ"

definition vars_ok :: "isaac_vars \<Rightarrow> bool" where
  "vars_ok v \<longleftrightarrow> length (iv_mm v) = RANDSIZ \<and> length (iv_rsl v) = RANDSIZ"

lemma RANDSIZ_16: "RANDSIZ = 16"
  by (simp add: RANDSIZ_def RANDSIZL_def)

lemma ind_Some: "length mm = RANDSIZ \<Longrightarrow> \<exists>v. ind mm x = Some v"
proof -
  assume l: "length mm = RANDSIZ"
  have "unat (x AND 60) \<le> unat (60 :: u32)"
    by (rule word_le_nat_alt [THEN iffD1]) (rule word_and_le1)
  then have "unat (x AND 60) div 4 < length mm" using l by (simp add: RANDSIZ_16)
  moreover have "push_bit 2 (of_nat (RANDSIZ - 1)) = (60 :: u32)" by (simp add: RANDSIZ_16)
  ultimately show ?thesis by (simp add: ind_def)
qed

lemma rngstep_ok:
  assumes "vars_ok v" and "iv_m v < RANDSIZ" and "iv_m2 v < RANDSIZ" and "iv_r v < RANDSIZ"
  shows "\<exists>v'. rngstep mix v = Some v' \<and> vars_ok v' \<and>
    iv_m v' = iv_m v + 1 \<and> iv_m2 v' = iv_m2 v + 1 \<and> iv_r v' = iv_r v + 1"
proof -
  let ?x = "iv_mm v ! iv_m v"
  obtain i1 where i1: "ind (iv_mm v) ?x = Some i1" using ind_Some assms(1) by (auto simp: vars_ok_def)
  let ?y = "i1 + ((iv_a v XOR mix (iv_a v)) + iv_mm v ! iv_m2 v) + iv_b v"
  obtain i2 where i2: "ind ((iv_mm v)[iv_m v := ?y]) (drop_bit RANDSIZL ?y) = Some i2"
    using ind_Some assms(1) by (metis length_list_update vars_ok_def)
  show ?thesis using assms i1 i2 by (simp add: rngstep_def vars_ok_def Let_def)
qed

lemma rng4_ok:
  assumes "vars_ok v" and "iv_m v + 4 \<le> RANDSIZ" and "iv_m2 v + 4 \<le> RANDSIZ" and "iv_r v + 4 \<le> RANDSIZ"
  shows "\<exists>v'. rng4 v = Some v' \<and> vars_ok v' \<and>
    iv_m v' = iv_m v + 4 \<and> iv_m2 v' = iv_m2 v + 4 \<and> iv_r v' = iv_r v + 4"
proof -
  let ?f1 = "\<lambda>a :: u32. push_bit 13 a" and ?f2 = "\<lambda>a :: u32. drop_bit 6 a"
  and ?f3 = "\<lambda>a :: u32. push_bit 2 a" and ?f4 = "\<lambda>a :: u32. drop_bit 16 a"
  obtain v1 where 1: "rngstep ?f1 v = Some v1" "vars_ok v1" "iv_m v1 = iv_m v + 1" "iv_m2 v1 = iv_m2 v + 1" "iv_r v1 = iv_r v + 1"
    using rngstep_ok [of v ?f1] assms by auto
  obtain v2 where 2: "rngstep ?f2 v1 = Some v2" "vars_ok v2" "iv_m v2 = iv_m v + 2" "iv_m2 v2 = iv_m2 v + 2" "iv_r v2 = iv_r v + 2"
    using rngstep_ok [of v1 ?f2] assms 1 by auto
  obtain v3 where 3: "rngstep ?f3 v2 = Some v3" "vars_ok v3" "iv_m v3 = iv_m v + 3" "iv_m2 v3 = iv_m2 v + 3" "iv_r v3 = iv_r v + 3"
    using rngstep_ok [of v2 ?f3] assms 2 by auto
  obtain v4 where 4: "rngstep ?f4 v3 = Some v4" "vars_ok v4" "iv_m v4 = iv_m v + 4" "iv_m2 v4 = iv_m2 v + 4" "iv_r v4 = iv_r v + 4"
    using rngstep_ok [of v3 ?f4] assms 3 by auto
  show ?thesis using 1 2 3 4 by (simp add: rng4_def)
qed

lemma rng_loop_ok:
  assumes "vars_ok v" and "iv_m v + 4 * n \<le> RANDSIZ" and "iv_m2 v + 4 * n \<le> RANDSIZ" and "iv_r v + 4 * n \<le> RANDSIZ"
  shows "\<exists>v'. rng_loop n v = Some v' \<and> vars_ok v' \<and>
    iv_m v' = iv_m v + 4 * n \<and> iv_m2 v' = iv_m2 v + 4 * n \<and> iv_r v' = iv_r v + 4 * n"
  using assms
proof (induction n arbitrary: v)
  case 0
  then show ?case by simp
next
  case (Suc n)
  obtain v1 where 1: "rng4 v = Some v1" "vars_ok v1" "iv_m v1 = iv_m v + 4" "iv_m2 v1 = iv_m2 v + 4" "iv_r v1 = iv_r v + 4"
    using rng4_ok [OF Suc.prems(1)] Suc.prems by auto
  then show ?case using Suc.IH [OF 1(2)] Suc.prems by auto
qed

lemma isaac_ok: "randctx_ok ctx \<Longrightarrow> \<exists>ctx'. isaac ctx = Some ctx' \<and> randctx_ok ctx' \<and> randcnt ctx' = randcnt ctx"
proof -
  assume ok: "randctx_ok ctx"
  let ?v = "\<lparr>iv_a = randa ctx, iv_b = randb ctx + (randc ctx + 1), iv_mm = randmem ctx, iv_rsl = randrsl ctx,
              iv_m = 0, iv_m2 = RANDSIZ div 2, iv_r = 0\<rparr>"
  obtain v1 where 1: "rng_loop (RANDSIZ div 2 div 4) ?v = Some v1" "vars_ok v1" "iv_m v1 = 8" "iv_r v1 = 8"
    using rng_loop_ok [of ?v "RANDSIZ div 2 div 4"] ok by (auto simp: vars_ok_def randctx_ok_def RANDSIZ_16)
  obtain v2 where 2: "rng_loop (RANDSIZ div 2 div 4) (v1\<lparr>iv_m2 := 0\<rparr>) = Some v2" "vars_ok v2"
    using rng_loop_ok [of "v1\<lparr>iv_m2 := 0\<rparr>" "RANDSIZ div 2 div 4"] 1 by (auto simp: vars_ok_def RANDSIZ_16)
  show ?thesis using 1 2 ok by (simp add: isaac_def Let_def randctx_ok_def vars_ok_def)
qed

lemma write8_ok: "i + 8 \<le> length m \<Longrightarrow> \<exists>m'. write8 m i x = Some m' \<and> length m' = length m"
  by (cases x) auto

lemma init_pass_ok:
  assumes "\<And>m i. length m = n \<Longrightarrow> i \<in> set is \<Longrightarrow> src m i \<noteq> None"
    and "\<forall>i \<in> set is. i + 8 \<le> n" and "length m = n"
  shows "\<exists>x' m'. init_pass src is x m = Some (x', m') \<and> length m' = n"
  using assms
proof (induction "is" arbitrary: x m)
  case Nil
  then show ?case by simp
next
  case (Cons i "is")
  obtain r where r: "src m i = Some r" using Cons.prems(1) [of m i] Cons.prems(3) by auto
  let ?x = "mix_step (if r = [] then x else mix_add x r)"
  obtain m1 where m1: "write8 m i ?x = Some m1" "length m1 = n"
    using write8_ok [of i m ?x] Cons.prems by auto
  obtain x' m' where "init_pass src is ?x m1 = Some (x', m')" "length m' = n"
    using Cons.IH [of m1 ?x] Cons.prems m1(2) by auto
  then show ?case using r m1(1) by (simp add: Let_def)
qed

lemma eights_bound: "i \<in> set eights \<Longrightarrow> i + 8 \<le> RANDSIZ"
  by (auto simp: eights_def RANDSIZ_16)

lemma randinit_ok:
  assumes "length (randrsl ctx) = RANDSIZ" and "length (randmem ctx) = RANDSIZ"
  shows "\<exists>ctx'. randinit ctx flag = Some ctx' \<and> randctx_ok ctx'"
proof -
  define x0 where "x0 = (mix_step ^^ 4) (Mix 0x9e3779b9 0x9e3779b9 0x9e3779b9 0x9e3779b9 0x9e3779b9 0x9e3779b9 0x9e3779b9 0x9e3779b9)"
  have b: "\<forall>i \<in> set eights. i + 8 \<le> RANDSIZ" using eights_bound by blast
  have r: "read8 m i \<noteq> None" if "length m = RANDSIZ" "i \<in> set eights" for m i
    using that eights_bound by (auto simp: read8_def)
  obtain x1 m1 where 1: "init_pass (\<lambda>m i. read8 (randrsl ctx) i) eights x0 (randmem ctx) = Some (x1, m1)" "length m1 = RANDSIZ"
    using init_pass_ok [where src = "\<lambda>m i. read8 (randrsl ctx) i" and x = x0, OF _ b assms(2)] r assms(1) by blast
  obtain x2 m2 where 2: "init_pass read8 eights x1 m1 = Some (x2, m2)" "length m2 = RANDSIZ"
    using init_pass_ok [where src = read8 and x = x1, OF r b 1(2)] by blast
  obtain x3 m3 where 3: "init_pass (\<lambda>m i. Some []) eights x0 (randmem ctx) = Some (x3, m3)" "length m3 = RANDSIZ"
    using init_pass_ok [where src = "\<lambda>m i. Some []" and x = x0, OF _ b assms(2)] by blast
  define m where "m = (if flag then m2 else m3)"
  let ?c = "ctx\<lparr>randmem := m, randa := 0, randb := 0, randc := 0\<rparr>"
  have "randinit ctx flag = isaac ?c \<bind> (\<lambda>c. Some (c\<lparr>randcnt := RANDSIZ\<rparr>))"
    using 1(1) 2(1) 3(1) unfolding randinit_def Let_def x0_def [symmetric] by (simp add: m_def)
  moreover have "isaac ?c = isaac (?c\<lparr>randcnt := 0\<rparr>) \<bind> (\<lambda>c. Some (c\<lparr>randcnt := randcnt ctx\<rparr>))"
    unfolding isaac_def Let_def by (simp add: bind_assoc)
  moreover have "randctx_ok (?c\<lparr>randcnt := 0\<rparr>)" using assms 2(2) 3(2) by (simp add: randctx_ok_def m_def)
  then obtain c' where "isaac (?c\<lparr>randcnt := 0\<rparr>) = Some c'" "randctx_ok c'"
    using isaac_ok by blast
  ultimately show ?thesis by (simp add: randctx_ok_def)
qed

lemma rand_next_ok: "randctx_ok ctx \<Longrightarrow> \<exists>v ctx'. rand_next ctx = Some (v, ctx') \<and> randctx_ok ctx'"
  using isaac_ok [of ctx] by (auto simp: rand_next_def randctx_ok_def RANDSIZ_16 Let_def)

subsection \<open>The random index is in range\<close>

lemma float_exp_bound: "n < 2 ^ (24 + k) \<Longrightarrow> float_exp n \<le> k"
proof (induction k arbitrary: n)
  case 0
  then show ?case by (subst float_exp.simps) simp
next
  case (Suc k)
  show ?case
  proof (cases "n < 2 ^ 24")
    case True
    then show ?thesis by (subst float_exp.simps) simp
  next
    case False
    have "n < 2 ^ (24 + k) * 2" using Suc.prems by (simp add: power_add)
    then have "n div 2 < 2 ^ (24 + k)" by (simp only: less_mult_imp_div_less)
    then show ?thesis using False Suc.IH by (subst float_exp.simps) simp
  qed
qed

lemma float_round_le:
  assumes "n \<le> c * 2 ^ 32" and "c < 2 ^ 24"
  shows "float_round n \<le> c * 2 ^ 32"
proof -
  let ?e = "float_exp n"
  let ?q = "n div 2 ^ ?e" and ?r = "n mod 2 ^ ?e"
  have "c * 2 ^ 32 < 2 ^ 24 * 2 ^ 32" using assms(2) by simp
  then have "n < 2 ^ (24 + 32)" using assms(1) by simp
  then have "?e \<le> 32" by (rule float_exp_bound)
  then obtain d where d: "32 = ?e + d" using le_Suc_ex by blast
  have pow: "(2 :: nat) ^ 32 = 2 ^ ?e * 2 ^ d" unfolding d power_add by simp
  then have dec: "c * 2 ^ 32 = (c * 2 ^ d) * 2 ^ ?e" by (simp only: ac_simps)
  have n: "n = ?q * 2 ^ ?e + ?r" by (rule div_mult_mod_eq [symmetric])
  show ?thesis
  proof (cases "?r = 0")
    case True
    then have "float_round n = n" using n by (simp add: float_round_def Let_def)
    then show ?thesis using assms(1) by simp
  next
    case False
    then have "?q * 2 ^ ?e < (c * 2 ^ d) * 2 ^ ?e" using n assms(1) dec by linarith
    then have "?q + 1 \<le> c * 2 ^ d" by simp
    then have "(?q + 1) * 2 ^ ?e \<le> (c * 2 ^ d) * 2 ^ ?e" by (rule mult_le_mono1)
    moreover have "float_round n \<le> (?q + 1) * 2 ^ ?e" by (simp add: float_round_def Let_def)
    ultimately show ?thesis using dec by linarith
  qed
qed

lemma float_round_small: "n < 2 ^ 24 \<Longrightarrow> float_round n = n"
  using float_exp_bound [of n 0] by (simp add: float_round_def)

lemma scale_rand_le: "m < 2 ^ 24 \<Longrightarrow> scale_rand m u \<le> m"
proof -
  assume m: "m < 2 ^ 24"
  have "unat u < 2 ^ LENGTH(32)" by (rule unsigned_less)
  then have "float_round (unat u) \<le> 1 * 2 ^ 32" by (intro float_round_le) auto
  then have "float_round m * float_round (unat u) \<le> m * 2 ^ 32" using float_round_small [OF m] by simp
  then have "float_round (float_round m * float_round (unat u)) \<le> m * 2 ^ 32" using m by (rule float_round_le)
  then have "scale_rand m u \<le> m * 2 ^ 32 div 2 ^ 32" unfolding scale_rand_def by (rule div_le_mono)
  then show ?thesis by simp
qed

lemma myrand_ok:
  "randctx_ok ctx \<Longrightarrow> m < 2 ^ 24 \<Longrightarrow> \<exists>k ctx'. myrand m ctx = Some (k, ctx') \<and> k \<le> m \<and> randctx_ok ctx'"
  using rand_next_ok [of ctx] scale_rand_le by (auto simp: myrand_def)

subsection \<open>Interface: a supply of identifiers\<close>

text \<open>What query.c relies on: with \<open>out\<close> the identifiers handed out, a new one is never among
  them, there is one as long as fewer than \<open>capacity\<close> are out, and one that is given back
  may be handed out again.\<close>

locale id_supply =
  fixes handed :: "'s \<Rightarrow> 'q list \<Rightarrow> bool"
    and get :: "'s \<Rightarrow> ('q \<times> 's) option"
    and put :: "'q \<Rightarrow> 's \<Rightarrow> 's option"
    and capacity :: nat
  assumes supply_distinct: "handed s out \<Longrightarrow> distinct out"
    and supply_perm: "handed s out \<Longrightarrow> mset out' = mset out \<Longrightarrow> handed s out'"
    and get_law: "handed s out \<Longrightarrow> length out < capacity \<Longrightarrow>
      \<exists>q s'. get s = Some (q, s') \<and> q \<notin> set out \<and> handed s' (q # out)"
    and put_law: "handed s (q # out) \<Longrightarrow> \<exists>s'. put q s = Some s' \<and> handed s' out"
begin

lemma get_append:
  assumes "handed s out" and "length out < capacity"
  shows "\<exists>q s'. get s = Some (q, s') \<and> q \<notin> set out \<and> handed s' (out @ [q])"
  using get_law [OF assms] supply_perm by fastforce

lemma put_middle:
  assumes "handed s (xs @ q # ys)"
  shows "\<exists>s'. put q s = Some s' \<and> handed s' (xs @ ys)"
  using put_law supply_perm [OF assms, of "q # xs @ ys"] by simp

lemma get_put_roundtrip:
  assumes "handed s out" and "length out < capacity"
  shows "\<exists>q s' s''. get s = Some (q, s') \<and> put q s' = Some s'' \<and> handed s'' out"
  using get_law [OF assms] put_law by blast

end

definition qid_ok :: "qid_state \<Rightarrow> u16 list \<Rightarrow> bool" where
  "qid_ok st out \<longleftrightarrow> length (qid_pool st) = QID_POOL_SIZE \<and> randctx_ok (isaac_ctx st) \<and>
     -1 \<le> pool_ptr st \<and> pool_ptr st + 1 + int (length out) = int QID_POOL_SIZE \<and>
     distinct (take (nat (pool_ptr st + 1)) (qid_pool st) @ out)"

lemma take_update_last:
  assumes "i \<le> n" and "n < length xs"
  shows "mset (xs ! i # take n (xs[i := xs ! n])) = mset (take (Suc n) xs)"
proof (cases "i = n")
  case True
  then show ?thesis using assms by (simp add: take_Suc_conv_app_nth)
next
  case False
  then have i: "i < n" using assms by simp
  let ?t = "take n xs"
  have "take n (xs[i := xs ! n]) = ?t[i := xs ! n]" by (rule take_update_swap)
  moreover have "mset (?t[i := xs ! n]) = add_mset (xs ! n) (mset ?t - {# ?t ! i #})"
    using i assms by (simp add: mset_update)
  moreover have "xs ! i \<in># mset ?t" using i assms by (metis in_set_conv_nth length_take min_less_iff_conj nth_take order_less_trans set_mset_mset)
  ultimately show ?thesis
    using i assms by (simp add: take_Suc_conv_app_nth add_mset_commute)
qed

lemma qid_get_ok:
  assumes ok: "qid_ok st out" and room: "length out < QID_POOL_SIZE"
  shows "\<exists>q st'. qid_get st = Some (q, st') \<and> q \<notin> set out \<and> qid_ok st' (q # out)"
proof -
  let ?p = "nat (pool_ptr st)" and ?pool = "qid_pool st"
  have p: "0 \<le> pool_ptr st" "?p < QID_POOL_SIZE" using ok room by (auto simp: qid_ok_def)
  have len: "length ?pool = QID_POOL_SIZE" using ok by (simp add: qid_ok_def)
  obtain k ctx where k: "myrand ?p (isaac_ctx st) = Some (k, ctx)" "k \<le> ?p" "randctx_ok ctx"
    using myrand_ok [of "isaac_ctx st" ?p] ok p by (auto simp: qid_ok_def QID_POOL_SIZE_def)
  have km: "k mod QID_POOL_SIZE = k" using k(2) p(2) by simp
  let ?st = "st\<lparr>qid_pool := ?pool[k := ?pool ! ?p], pool_ptr := pool_ptr st - 1, isaac_ctx := ctx\<rparr>"
  have run: "qid_get st = Some (?pool ! k, ?st)"
    using k p len km by (simp add: qid_get_def Let_def)
  have sz: "nat (pool_ptr st + 1) = Suc ?p" "nat (pool_ptr ?st + 1) = ?p" using p(1) by auto
  have m: "mset (?pool ! k # take ?p (?pool[k := ?pool ! ?p])) = mset (take (Suc ?p) ?pool)"
    using k(2) p(2) len by (intro take_update_last) auto
  then have "mset (take ?p (qid_pool ?st) @ (?pool ! k) # out) = mset (take (Suc ?p) ?pool @ out)"
    by simp
  then have d: "distinct (take ?p (qid_pool ?st) @ (?pool ! k) # out)"
    using ok sz(1) mset_eq_imp_distinct_iff by (metis qid_ok_def)
  then have "?pool ! k \<notin> set out" by simp
  moreover have "qid_ok ?st (?pool ! k # out)"
    using ok d sz(2) k(3) len p(1) by (auto simp: qid_ok_def)
  ultimately show ?thesis using run by blast
qed

lemma qid_return_ok:
  assumes ok: "qid_ok st (q # out)"
  shows "\<exists>st'. qid_return q st = Some st' \<and> qid_ok st' out"
proof -
  have p: "0 \<le> pool_ptr st + 1" "nat (pool_ptr st + 1) < QID_POOL_SIZE"
    using ok by (auto simp: qid_ok_def)
  let ?n = "nat (pool_ptr st + 1)"
  have len: "length (qid_pool st) = QID_POOL_SIZE" using ok by (simp add: qid_ok_def)
  let ?st = "st\<lparr>qid_pool := (qid_pool st)[?n := q], pool_ptr := pool_ptr st + 1\<rparr>"
  have run: "qid_return q st = Some ?st" using p len by (simp add: qid_return_def Let_def)
  have sz: "nat (pool_ptr ?st + 1) = Suc ?n" using p by auto
  have "take (Suc ?n) (qid_pool ?st) = take ?n (qid_pool st) @ [q]"
    using p(2) len by (simp add: take_Suc_conv_app_nth)
  then have "qid_ok ?st out" using ok sz len by (auto simp: qid_ok_def)
  with run show ?thesis by blast
qed

interpretation qids: id_supply qid_ok qid_get qid_return QID_POOL_SIZE
proof unfold_locales
  show "qid_ok s out \<Longrightarrow> distinct out" for s out by (simp add: qid_ok_def)
  show "qid_ok s out \<Longrightarrow> mset out' = mset out \<Longrightarrow> qid_ok s out'" for s out out'
  proof -
    assume ok: "qid_ok s out" and m: "mset out' = mset out"
    have "set out' = set out" "length out' = length out" "distinct out' = distinct out"
      using mset_eq_setD [OF m] mset_eq_length [OF m] mset_eq_imp_distinct_iff [OF m] by auto
    then show "qid_ok s out'" using ok by (simp add: qid_ok_def)
  qed
qed (rule qid_get_ok qid_return_ok; assumption)+

lemma qid_init_pool_ok: "\<exists>st. qid_init_pool tv qid_static = Some st \<and> qid_ok st []"
proof -
  let ?c = "(isaac_ctx qid_static)\<lparr>randrsl := map tv [0..<RANDSIZ]\<rparr>"
  obtain c where c: "randinit ?c True = Some c" "randctx_ok c"
    using randinit_ok [of ?c True] by (auto simp: qid_static_def)
  let ?st = "qid_static\<lparr>qid_pool := map of_nat [0..<QID_POOL_SIZE], isaac_ctx := c\<rparr>"
  have "inj_on (of_nat :: nat \<Rightarrow> u16) {0..<QID_POOL_SIZE}"
  proof (rule inj_onI)
    fix a b :: nat
    assume ab: "a \<in> {0..<QID_POOL_SIZE}" "b \<in> {0..<QID_POOL_SIZE}" "of_nat a = (of_nat b :: u16)"
    have "unat (of_nat a :: u16) = unat (of_nat b :: u16)" using ab(3) by simp
    then show "a = b" using ab(1,2) by (simp add: unat_of_nat QID_POOL_SIZE_def)
  qed
  then have "distinct (map (of_nat :: nat \<Rightarrow> u16) [0..<QID_POOL_SIZE])" by (simp add: distinct_map)
  then have "qid_ok ?st []" using c(2) by (simp add: qid_ok_def qid_static_def)
  moreover have "qid_init_pool tv qid_static = Some ?st" using c(1) by (simp add: qid_init_pool_def)
  ultimately show ?thesis by blast
qed

subsection \<open>Correctness of the query ids\<close>

text \<open>C38. The generator never leaves its 16-word arrays: seeding it from any times succeeds, every
  draw from a well-formed context succeeds and leaves one, and the random index lies between 0
  and its argument, the argument included (the single-precision product rounds the largest draws
  up to it).\<close>

theorem isaac_memory_safe:
  assumes "randctx_ok ctx" and "m < 2 ^ 24"
  shows "\<exists>v ctx' k ctx''. rand_next ctx = Some (v, ctx') \<and> randctx_ok ctx' \<and>
    myrand m ctx = Some (k, ctx'') \<and> k \<le> m \<and> randctx_ok ctx'' \<and>
    (\<exists>c. randinit (ctx\<lparr>randcnt := n\<rparr>) flag = Some c \<and> randctx_ok c)"
proof -
  have "length (randrsl (ctx\<lparr>randcnt := n\<rparr>)) = RANDSIZ" "length (randmem (ctx\<lparr>randcnt := n\<rparr>)) = RANDSIZ"
    using assms(1) by (simp_all add: randctx_ok_def)
  from randinit_ok [OF this] show ?thesis
    using rand_next_ok [OF assms(1)] myrand_ok [OF assms] by blast
qed

theorem isaac_memory_safe_witness:
  "(\<exists>k c. myrand 65535 \<lparr>randcnt = 3, randrsl = replicate 16 7, randmem = replicate 16 0,
      randa = 0, randb = 0, randc = 0\<rparr> = Some (k, c) \<and> k \<le> 65535 \<and> randctx_ok c) \<and>
   scale_rand 65535 0xFFFFFFFF = 65535"
proof -
  have "scale_rand 65535 0xFFFFFFFF = 65535"
    by (simp add: scale_rand_def float_round_def float_exp.simps Let_def)
  then show ?thesis
    using isaac_memory_safe [of "\<lparr>randcnt = 3, randrsl = replicate 16 7, randmem = replicate 16 0,
        randa = 0, randb = 0, randc = 0\<rparr>" 65535 0 True]
    by (auto simp: randctx_ok_def RANDSIZ_16)
qed

text \<open>C27. Query ids in use are distinct.  After qid\_init\_pool every id is free; qid\_get delivers an
  id that is not in use as long as one is free, and qid\_return makes an id in use free again;
  free ids and ids in use together stay 65536 distinct values.\<close>

theorem qid_pool_correct:
  assumes "qid_ok st out"
  shows "distinct out \<and>
    (length out < QID_POOL_SIZE \<longrightarrow> (\<exists>q st'. qid_get st = Some (q, st') \<and> q \<notin> set out \<and> qid_ok st' (out @ [q]))) \<and>
    (\<forall>xs q ys. out = xs @ q # ys \<longrightarrow> (\<exists>st'. qid_return q st = Some st' \<and> qid_ok st' (xs @ ys))) \<and>
    (\<exists>st0. qid_init_pool tv qid_static = Some st0 \<and> qid_ok st0 [])"
  using assms qids.supply_distinct qids.get_append qids.put_middle qid_init_pool_ok by blast

theorem qid_pool_correct_witness:
  "\<exists>st0 q st1 st2. qid_init_pool (\<lambda>_. 7) qid_static = Some st0 \<and>
     qid_get st0 = Some (q, st1) \<and> qid_ok st1 [q]"
proof -
  obtain st0 where "qid_init_pool (\<lambda>_. 7) qid_static = Some st0" "qid_ok st0 []"
    using qid_init_pool_ok by blast
  then show ?thesis using qid_pool_correct [of st0 "[]" "\<lambda>_. 7"] by (auto simp: QID_POOL_SIZE_def)
qed

end
