(* ===== verification/Dnrd_Query.thy ===== *)
theory Dnrd_Query
  imports Dnrd_Servers Dnrd_Qid
begin

section \<open>dnrd: the list of pending queries (query.c)\<close>

text \<open>
  A forwarded query is kept, with the socket opened for it, in a circular singly linked list
  behind the static node \<open>qlist\<close>.  As for the server lists, the model writes the list as the
  HOL list of the nodes behind the head in \<open>next\<close> order; a \<open>query_t *\<close> into the list
  is a position, 0 for the head and \<open>k + 1\<close> for the node \<open>qlist st ! k\<close>, so that
  \<open>p->next\<close> of position \<open>p\<close> is the node \<open>qlist st ! p\<close>, and the head when
  \<open>p\<close> is the length of the list.  \<open>qlist_tail\<close> is kept as such a position.

  Operating-system calls are arguments: \<open>sock\<close> is what \<open>socket()\<close> returns (\<open>None\<close> for
  an error), \<open>now\<close> what \<open>time(NULL)\<close> returns.  \<open>FD_SET\<close> of a descriptor at or above
  \<open>FD_SETSIZE\<close> is an out-of-range write, hence \<open>None\<close>.  The field \<open>newquery\<close> of a
  server is always NULL (the code that would set it is commented out) and is left out.
\<close>

subsection \<open>Globals of common.c\<close>

record dnrd_conf =
  opt_debug :: nat
  isock :: nat
  forward_timeout :: u32
  reactivate_interval :: u32
  stats_interval :: u32
  stats_reset :: bool
  ignore_inactive_cache_hits :: bool
  max_sockets :: int

definition default_conf :: dnrd_conf where
  "default_conf = \<lparr>opt_debug = 0, isock = 3, forward_timeout = 12, reactivate_interval = 10,
     stats_interval = 0, stats_reset = True, ignore_inactive_cache_hits = False, max_sockets = 200\<rparr>"

definition FD_SETSIZE :: nat where "FD_SETSIZE = 1024"

subsection \<open>State\<close>

text \<open>A socket address: address and port.\<close>

type_synonym sockaddr = "u32 \<times> u16"

record query_t =
  q_sock :: nat
  q_srv :: srv_ref
  q_domain :: "nat option"
  my_qid :: u16
  client_qid :: u16
  q_client :: sockaddr
  client_time :: time_t
  client_count :: nat
  q_ttl :: time_t

record query_state =
  qlist :: "query_t list"
  qlist_tail :: nat
  upstream_sockets :: int
  total_queries :: nat
  total_timeouts :: nat
  dropping :: bool
  fdmaster :: "nat set"
  maxsock :: nat
  qid_st :: qid_state

definition query_init :: "query_state \<Rightarrow> query_state" where
  "query_init st = st\<lparr>qlist := [], qlist_tail := 0\<rparr>"

text \<open>A 16-bit value in host order (little endian), as \<open>*((unsigned short *) msg)\<close> reads and
  writes it.\<close>

definition host16 :: "bytes \<Rightarrow> u16 option" where
  "host16 m = do { lo \<leftarrow> peek m 0; hi \<leftarrow> peek m 1; Some (ntohs2 hi lo) }"

definition set_host16 :: "bytes \<Rightarrow> u16 \<Rightarrow> bytes option" where
  "set_host16 m v = do { m1 \<leftarrow> poke m 0 (ucast v); poke m1 1 (ucast (drop_bit 8 v)) }"

definition htons :: "u16 \<Rightarrow> u16" where
  "htons v = ntohs2 (ucast v) (ucast (drop_bit 8 v))"

subsection \<open>Creating and destroying queries\<close>

definition FD_SET :: "nat \<Rightarrow> query_state \<Rightarrow> query_state option" where
  "FD_SET fd st = (if fd < FD_SETSIZE then Some (st\<lparr>fdmaster := insert fd (fdmaster st)\<rparr>) else None)"

text \<open>The result of \<open>query_create\<close> is NULL or the query, with the source port its socket is
  bound to.\<close>

definition query_create ::
  "dnrd_conf \<Rightarrow> nat option \<Rightarrow> nat option \<Rightarrow> srv_ref \<Rightarrow> query_state \<Rightarrow> ((query_t \<times> nat) option \<times> query_state) option" where
  "query_create cf sock d s st =
     (if max_sockets cf \<le> upstream_sockets st then Some (None, st)
      else (let st0 = st\<lparr>dropping := False\<rparr> in
        case sock of
          None \<Rightarrow> Some (None, st0)
        | Some fd \<Rightarrow> do {
            let st1 = st0\<lparr>upstream_sockets := upstream_sockets st0 + 1\<rparr>;
            (r, ctx) \<leftarrow> myrand (65536 - 1026) (isaac_ctx (qid_st st1));
            let port = r + 1025;
            let st2 = st1\<lparr>qid_st := (qid_st st1)\<lparr>isaac_ctx := ctx\<rparr>\<rparr>;
            st3 \<leftarrow> FD_SET fd st2;
            let st4 = (if maxsock st3 < fd then st3\<lparr>maxsock := fd\<rparr> else st3);
            (q, qs) \<leftarrow> qid_get (qid_st st4);
            Some (Some (\<lparr>q_sock = fd, q_srv = s, q_domain = d, my_qid = q, client_qid = 0,
                         q_client = (0, 0), client_time = 0, client_count = 0,
                         q_ttl = forward_timeout cf\<rparr>, port),
                  st4\<lparr>qid_st := qs\<rparr>) }))"

definition query_destroy :: "query_t \<Rightarrow> query_state \<Rightarrow> query_state option" where
  "query_destroy q st = do {
     qs \<leftarrow> qid_return (my_qid q) (qid_st st);
     Some (st\<lparr>qid_st := qs, fdmaster := fdmaster st - {q_sock q},
              upstream_sockets := upstream_sockets st - 1, total_queries := total_queries st + 1\<rparr>) }"

definition query_get_new ::
  "dnrd_conf \<Rightarrow> nat option \<Rightarrow> nat option \<Rightarrow> srv_ref \<Rightarrow> query_state \<Rightarrow> ((query_t \<times> nat) option \<times> query_state) option" where
  "query_get_new cf sock dm srv st = do {
     (r, st') \<leftarrow> query_create cf sock dm srv st;
     (case r of
        None \<Rightarrow> Some (None, st')
      | Some (q, port) \<Rightarrow> Some (Some (q\<lparr>q_domain := dm, q_srv := srv\<rparr>, port), st')) }"

subsection \<open>Adding, deleting, timing out\<close>

fun find_client :: "query_t list \<Rightarrow> nat \<Rightarrow> u16 \<Rightarrow> nat option" where
  "find_client [] p cq = None"
| "find_client (q # qs) p cq = (if client_qid q = cq then Some p else find_client qs (p + 1) cq)"

text \<open>The result is the position before the query, NULL when it was dropped; the message with the
  new id.\<close>

definition query_add ::
  "dnrd_conf \<Rightarrow> time_t \<Rightarrow> nat option \<Rightarrow> nat option \<Rightarrow> srv_ref \<Rightarrow> sockaddr \<Rightarrow> bytes \<Rightarrow> query_state \<Rightarrow>
   (nat option \<times> bytes \<times> query_state) option" where
  "query_add cf now sock dm srv client msg st = do {
     cq \<leftarrow> host16 msg;
     (case find_client (qlist st) 0 cq of
        Some p \<Rightarrow> do {
          q \<leftarrow> peek (qlist st) p;
          msg' \<leftarrow> set_host16 msg (my_qid q);
          Some (Some p, msg',
                st\<lparr>qlist := (qlist st)[p := q\<lparr>client_time := now, client_count := client_count q + 1\<rparr>]\<rparr>) }
      | None \<Rightarrow> do {
          (r, st1) \<leftarrow> query_get_new cf sock dm srv st;
          (case r of
             None \<Rightarrow> Some (None, msg, st1)
           | Some (q, port) \<Rightarrow> do {
               let q' = q\<lparr>client_qid := cq, q_client := client, client_time := now, client_count := 1\<rparr>;
               msg' \<leftarrow> set_host16 msg (htons (my_qid q'));
               let t = qlist_tail st1;
               Some (Some t, msg',
                     st1\<lparr>qlist := take t (qlist st1) @ q' # drop t (qlist st1), qlist_tail := t + 1\<rparr>) }) }) }"

text \<open>Unlinking the node behind position \<open>p\<close>.  There must be one: behind the last node is the
  static head, which cannot be freed.  The tail keeps its node, whose position moves down.\<close>

definition query_delete_next :: "nat \<Rightarrow> query_state \<Rightarrow> query_state option" where
  "query_delete_next p st = do {
     tmp \<leftarrow> peek (qlist st) p;
     let t = qlist_tail st;
     let st1 = st\<lparr>qlist := take p (qlist st) @ drop (p + 1) (qlist st),
                  qlist_tail := (if t = p + 1 then p else if p + 1 < t then t - 1 else t)\<rparr>;
     query_destroy tmp st1 }"

lemma query_delete_next_qlist:
  "query_delete_next p st = Some st' \<Longrightarrow> p < length (qlist st) \<and>
     qlist st' = take p (qlist st) @ drop (p + 1) (qlist st)"
  by (auto simp: query_delete_next_def query_destroy_def option_bind_eq_Some_iff peek_eq_Some_iff Let_def)

definition query_expired :: "time_t \<Rightarrow> query_t \<Rightarrow> bool" where
  "query_expired now q \<longleftrightarrow> sint (client_time q) < sint (now - q_ttl q)"

text \<open>\<open>p->next\<close> of a position: behind the last node comes the head.\<close>

definition q_next :: "query_t list \<Rightarrow> nat \<Rightarrow> nat" where
  "q_next qs p = (if p < length qs then p + 1 else 0)"

function timeout_loop :: "time_t \<Rightarrow> nat \<Rightarrow> nat \<Rightarrow> query_state \<Rightarrow> (nat \<times> query_state) option" where
  "timeout_loop now p cnt st =
     (if p < length (qlist st)
      then (if query_expired now (qlist st ! p)
            then (case query_delete_next p st of
                    None \<Rightarrow> None
                  | Some st' \<Rightarrow> timeout_loop now (q_next (qlist st') p) (cnt + 1) st')
            else timeout_loop now (q_next (qlist st) p) cnt st)
      else Some (cnt, st))"
  by pat_completeness auto
termination
  by (relation "measures [\<lambda>(now, p, cnt, st). length (qlist st), \<lambda>(now, p, cnt, st). length (qlist st) - p]")
     (auto simp: q_next_def dest!: query_delete_next_qlist)

declare timeout_loop.simps [simp del]

definition query_timeout :: "time_t \<Rightarrow> query_state \<Rightarrow> query_state option" where
  "query_timeout now st = do {
     (cnt, st') \<leftarrow> timeout_loop now 0 0 st;
     Some (st'\<lparr>total_timeouts := total_timeouts st' + cnt\<rparr>) }"

fun count_loop :: "query_t list \<Rightarrow> nat \<Rightarrow> nat" where
  "count_loop [] cnt = cnt"
| "count_loop (q # qs) cnt = count_loop qs (cnt + 1)"

definition query_count :: "query_state \<Rightarrow> nat" where
  "query_count st = count_loop (qlist st) 0"

subsection \<open>Invariant\<close>

text \<open>The ids of the pending queries are exactly the ids taken from the pool, every pending query
  holds one open socket of its own, and the select set consists of the listening socket and
  these.\<close>

definition query_ok :: "dnrd_conf \<Rightarrow> query_state \<Rightarrow> bool" where
  "query_ok cf st \<longleftrightarrow> qid_ok (qid_st st) (map my_qid (qlist st)) \<and>
     upstream_sockets st = int (length (qlist st)) \<and> qlist_tail st = length (qlist st) \<and>
     int (length (qlist st)) \<le> max 0 (max_sockets cf) \<and>
     distinct (map q_sock (qlist st)) \<and> isock cf \<notin> q_sock ` set (qlist st) \<and>
     fdmaster st = insert (isock cf) (q_sock ` set (qlist st))"

lemma query_delete_next_ok:
  assumes ok: "query_ok cf st" and p: "p < length (qlist st)"
  shows "\<exists>st'. query_delete_next p st = Some st' \<and> query_ok cf st' \<and>
    qlist st' = take p (qlist st) @ drop (p + 1) (qlist st) \<and>
    total_timeouts st' = total_timeouts st \<and> total_queries st' = total_queries st + 1"
proof -
  let ?q = "qlist st ! p"
  have split: "qlist st = take p (qlist st) @ ?q # drop (p + 1) (qlist st)"
    using p by (simp add: id_take_nth_drop)
  let ?l = "take p (qlist st) @ drop (p + 1) (qlist st)"
  have "qid_ok (qid_st st) (map my_qid (take p (qlist st)) @ my_qid ?q # map my_qid (drop (p + 1) (qlist st)))"
    using ok split unfolding query_ok_def by (metis list.simps(9) map_append)
  then obtain qs where qs: "qid_return (my_qid ?q) (qid_st st) = Some qs" "qid_ok qs (map my_qid ?l)"
    using qids.put_middle by fastforce
  define st1 where "st1 = st\<lparr>qlist := ?l, qlist_tail := length ?l, qid_st := qs,
      fdmaster := fdmaster st - {q_sock ?q}, upstream_sockets := upstream_sockets st - 1,
      total_queries := total_queries st + 1\<rparr>"
  have tl: "qlist_tail st = length (qlist st)" using ok by (simp add: query_ok_def)
  have del: "query_delete_next p st = Some st1"
    using p qs(1) tl by (auto simp: query_delete_next_def query_destroy_def st1_def Let_def)
  have "distinct (map q_sock (take p (qlist st) @ ?q # drop (p + 1) (qlist st)))"
    using ok split unfolding query_ok_def by metis
  then have d: "distinct (map q_sock ?l)" "q_sock ?q \<notin> q_sock ` set ?l" by auto
  have "q_sock ` set (qlist st) = insert (q_sock ?q) (q_sock ` set ?l)"
    by (subst split) auto
  then have im: "fdmaster st = insert (isock cf) (insert (q_sock ?q) (q_sock ` set ?l))" "isock cf \<noteq> q_sock ?q"
    and "isock cf \<notin> q_sock ` set ?l"
    using ok by (auto simp: query_ok_def)
  moreover have "insert i (insert a S) - {a} = insert i S" if "a \<notin> S" "i \<noteq> a" for i a :: nat and S
    using that by auto
  from this [OF d(2) im(2)] have "fdmaster st - {q_sock ?q} = insert (isock cf) (q_sock ` set ?l)"
    unfolding im(1) .
  moreover have "int (length ?l) = int (length (qlist st)) - 1" using p by simp
  ultimately have "query_ok cf st1"
    using ok qs(2) d(1) by (simp add: query_ok_def st1_def del: length_append length_take length_drop)
  then show ?thesis using del by (auto simp: st1_def)
qed

lemma query_create_ok:
  assumes ok: "query_ok cf st" and small: "max_sockets cf < int QID_POOL_SIZE"
    and sock: "\<And>fd. sock = Some fd \<Longrightarrow> fd < FD_SETSIZE \<and> fd \<notin> fdmaster st"
  shows "\<exists>r st'. query_create cf sock d s st = Some (r, st') \<and> qlist st' = qlist st \<and>
    qlist_tail st' = qlist_tail st \<and> total_timeouts st' = total_timeouts st \<and> total_queries st' = total_queries st \<and>
    (r = None \<longleftrightarrow> max_sockets cf \<le> int (length (qlist st)) \<or> sock = None) \<and>
    (case r of
       None \<Rightarrow> query_ok cf st'
     | Some (q, port) \<Rightarrow> sock = Some (q_sock q) \<and> q_srv q = s \<and> q_domain q = d \<and> q_ttl q = forward_timeout cf \<and>
         my_qid q \<notin> my_qid ` set (qlist st) \<and> 1025 \<le> port \<and> port \<le> 65535 \<and>
         qid_ok (qid_st st') (map my_qid (qlist st) @ [my_qid q]) \<and>
         upstream_sockets st' = int (length (qlist st)) + 1 \<and>
         fdmaster st' = insert (q_sock q) (fdmaster st))"
proof (cases "max_sockets cf \<le> upstream_sockets st \<or> sock = None")
  case True
  moreover have "query_ok cf (st\<lparr>dropping := False\<rparr>)" using ok by (simp add: query_ok_def)
  ultimately show ?thesis using ok by (auto simp: query_create_def query_ok_def)
next
  case False
  then obtain fd where fd: "sock = Some fd" "fd < FD_SETSIZE" "fd \<notin> fdmaster st" using sock by auto
  have up: "upstream_sockets st = int (length (qlist st))" and qok: "qid_ok (qid_st st) (map my_qid (qlist st))"
    using ok by (auto simp: query_ok_def)
  obtain r ctx where r: "myrand (65536 - 1026) (isaac_ctx (qid_st st)) = Some (r, ctx)" "r \<le> 65536 - 1026" "randctx_ok ctx"
    using myrand_ok [of "isaac_ctx (qid_st st)" "65536 - 1026"] qok by (auto simp: qid_ok_def)
  let ?qs = "(qid_st st)\<lparr>isaac_ctx := ctx\<rparr>"
  have "qid_ok ?qs (map my_qid (qlist st))" using qok r(3) by (simp add: qid_ok_def)
  moreover have "length (map my_qid (qlist st)) < QID_POOL_SIZE" using False up small by simp
  ultimately obtain q qs' where q: "qid_get ?qs = Some (q, qs')" "q \<notin> set (map my_qid (qlist st))"
    "qid_ok qs' (map my_qid (qlist st) @ [q])"
    using qids.get_append by blast
  show ?thesis
    using False up fd r q
    by (auto simp: query_create_def FD_SET_def Let_def)
qed

lemma find_client_Some: "find_client qs p cq = Some k \<Longrightarrow> p \<le> k \<and> k < p + length qs \<and> client_qid (qs ! (k - p)) = cq"
proof (induction qs p cq rule: find_client.induct)
  case (1 p cq)
  then show ?case by simp
next
  case (2 q qs p cq)
  show ?case
  proof (cases "client_qid q = cq")
    case True
    then show ?thesis using 2 by simp
  next
    case False
    then have f: "p + 1 \<le> k \<and> k < p + 1 + length qs \<and> client_qid (qs ! (k - (p + 1))) = cq" using 2 by simp
    then have "k - p = Suc (k - (p + 1))" by (simp add: Suc_diff_Suc)
    then show ?thesis using f by simp
  qed
qed

lemma find_client_None: "find_client qs p cq = None \<longleftrightarrow> (\<forall>q \<in> set qs. client_qid q \<noteq> cq)"
  by (induction qs p cq rule: find_client.induct) auto

lemma set_host16_Some: "2 \<le> length m \<Longrightarrow> set_host16 m v = Some (ucast v # ucast (drop_bit 8 v) # drop 2 m)"
  by (cases m rule: remdups_adj.cases) (auto simp: set_host16_def)

lemma set_host16_htons: "2 \<le> length m \<Longrightarrow> set_host16 m (htons v) = Some (be16 v @ drop 2 m)"
proof -
  have "ucast (htons v) = (ucast (drop_bit 8 v) :: byte)" "ucast (drop_bit 8 (htons v)) = (ucast v :: byte)"
    unfolding htons_def ntohs2_def
    by (rule bit_eqI, auto simp: bit_or_iff bit_push_bit_iff bit_ucast_iff bit_drop_bit_eq)+
  then show "2 \<le> length m \<Longrightarrow> ?thesis" by (simp add: set_host16_Some be16_def)
qed

lemma find_client_first: "find_client qs p cq = Some k \<Longrightarrow> i < k - p \<Longrightarrow> client_qid (qs ! i) \<noteq> cq"
proof (induction qs p cq arbitrary: i rule: find_client.induct)
  case (2 q qs p cq)
  then show ?case by (cases i) (auto split: if_splits)
qed simp

text \<open>What \<open>query_add\<close> does with a message whose id is \<open>cq\<close>, in its three cases.\<close>

definition query_added ::
  "dnrd_conf \<Rightarrow> time_t \<Rightarrow> nat option \<Rightarrow> nat option \<Rightarrow> srv_ref \<Rightarrow> sockaddr \<Rightarrow> u16 \<Rightarrow> bytes \<Rightarrow> query_t list \<Rightarrow>
   nat option \<Rightarrow> bytes \<Rightarrow> query_t list \<Rightarrow> bool" where
  "query_added cf now sock dm srv client cq msg qs r msg' qs' \<longleftrightarrow>
     (if \<exists>q \<in> set qs. client_qid q = cq
      then \<exists>p < length qs. r = Some p \<and> client_qid (qs ! p) = cq \<and> (\<forall>i < p. client_qid (qs ! i) \<noteq> cq) \<and>
             msg' = [ucast (my_qid (qs ! p)), ucast (drop_bit 8 (my_qid (qs ! p)))] @ drop 2 msg \<and>
             qs' = qs[p := (qs ! p)\<lparr>client_time := now, client_count := client_count (qs ! p) + 1\<rparr>]
      else if max_sockets cf \<le> int (length qs) \<or> sock = None then r = None \<and> msg' = msg \<and> qs' = qs
      else \<exists>q. r = Some (length qs) \<and> qs' = qs @ [q] \<and> msg' = be16 (my_qid q) @ drop 2 msg \<and>
             my_qid q \<notin> my_qid ` set qs \<and> sock = Some (q_sock q) \<and> client_qid q = cq \<and> q_client q = client \<and>
             q_srv q = srv \<and> q_domain q = dm \<and> client_time q = now \<and> client_count q = 1 \<and> q_ttl q = forward_timeout cf)"

lemma query_add_cases:
  assumes ok: "query_ok cf st" and small: "max_sockets cf < int QID_POOL_SIZE"
    and sock: "\<And>fd. sock = Some fd \<Longrightarrow> fd < FD_SETSIZE \<and> fd \<notin> fdmaster st" and len: "2 \<le> length msg"
  shows "\<exists>cq r msg' st'. host16 msg = Some cq \<and> query_add cf now sock dm srv client msg st = Some (r, msg', st') \<and>
    query_ok cf st' \<and> total_timeouts st' = total_timeouts st \<and> query_added cf now sock dm srv client cq msg (qlist st) r msg' (qlist st')"
proof -
  obtain m0 m1 mr where msg: "msg = m0 # m1 # mr" using len by (cases msg rule: remdups_adj.cases) auto
  let ?cq = "ntohs2 m1 m0"
  have cq: "host16 msg = Some ?cq" by (simp add: host16_def msg)
  have tl: "qlist_tail st = length (qlist st)" using ok by (simp add: query_ok_def)
  show ?thesis
  proof (cases "find_client (qlist st) 0 ?cq")
    case (Some p)
    let ?q = "qlist st ! p"
    let ?q' = "?q\<lparr>client_time := now, client_count := client_count ?q + 1\<rparr>"
    let ?st = "st\<lparr>qlist := (qlist st)[p := ?q']\<rparr>"
    have p: "p < length (qlist st)" "client_qid ?q = ?cq" "\<forall>i < p. client_qid (qlist st ! i) \<noteq> ?cq"
      using find_client_Some [OF Some] find_client_first [OF Some] by auto
    then have ex: "\<exists>q \<in> set (qlist st). client_qid q = ?cq" using nth_mem by blast
    have mp: "map f ((qlist st)[p := ?q']) = map f (qlist st)" if "f ?q' = f ?q" for f :: "query_t \<Rightarrow> 'z"
      using that p(1) by (simp add: map_update list_update_same_conv)
    have img: "q_sock ` set ((qlist st)[p := ?q']) = q_sock ` set (qlist st)"
      using arg_cong [OF mp [of q_sock], of set] by simp
    have "query_ok cf ?st" using ok mp [of my_qid] mp [of q_sock] img by (simp add: query_ok_def)
    moreover have "query_add cf now sock dm srv client msg st = Some (Some p, [ucast (my_qid ?q), ucast (drop_bit 8 (my_qid ?q))] @ drop 2 msg, ?st)"
      using Some p(1) cq set_host16_Some [OF len, of "my_qid ?q"] by (simp add: query_add_def)
    moreover have "query_added cf now sock dm srv client ?cq msg (qlist st) (Some p)
        ([ucast (my_qid ?q), ucast (drop_bit 8 (my_qid ?q))] @ drop 2 msg) (qlist ?st)"
      using ex p by (auto simp: query_added_def)
    ultimately show ?thesis using cq by (intro exI conjI) (assumption | simp)+
  next
    case None
    then have new: "\<not> (\<exists>q \<in> set (qlist st). client_qid q = ?cq)" by (simp add: find_client_None)
    obtain r st1 where c: "query_create cf sock dm srv st = Some (r, st1)" "qlist st1 = qlist st"
      "qlist_tail st1 = qlist_tail st" "total_timeouts st1 = total_timeouts st"
      "case r of
         None \<Rightarrow> query_ok cf st1
       | Some (q, port) \<Rightarrow> sock = Some (q_sock q) \<and> q_srv q = srv \<and> q_domain q = dm \<and> q_ttl q = forward_timeout cf \<and>
           my_qid q \<notin> my_qid ` set (qlist st) \<and> 1025 \<le> port \<and> port \<le> 65535 \<and>
           qid_ok (qid_st st1) (map my_qid (qlist st) @ [my_qid q]) \<and>
           upstream_sockets st1 = int (length (qlist st)) + 1 \<and>
           fdmaster st1 = insert (q_sock q) (fdmaster st)"
      "r = None \<longleftrightarrow> max_sockets cf \<le> int (length (qlist st)) \<or> sock = None"
      using query_create_ok [where d = dm and s = srv, OF ok small sock] by blast
    show ?thesis
    proof (cases r)
      case None
      then have "query_added cf now sock dm srv client ?cq msg (qlist st) None msg (qlist st1)"
        using c(2,6) new by (simp add: query_added_def)
      then show ?thesis
        using c cq None \<open>find_client _ 0 _ = None\<close> by (simp add: query_add_def query_get_new_def)
    next
      case (Some qp)
      obtain q port where qp: "qp = (q, port)" by (cases qp)
      let ?q = "q\<lparr>q_domain := dm, q_srv := srv, client_qid := ?cq, q_client := client,
          client_time := now, client_count := 1\<rparr>"
      let ?st = "st1\<lparr>qlist := qlist st @ [?q], qlist_tail := length (qlist st) + 1\<rparr>"
      have fr: "q_sock q \<notin> fdmaster st" using sock c(5) Some qp by auto
      have "query_ok cf ?st"
        using ok c(5,6) Some qp fr by (auto simp: query_ok_def)
      moreover have "query_add cf now sock dm srv client msg st =
          Some (Some (length (qlist st)), be16 (my_qid q) @ drop 2 msg, ?st)"
        using cq \<open>find_client _ 0 _ = None\<close> c(1-3) Some qp tl set_host16_htons [OF len, of "my_qid q"]
        by (simp add: query_add_def query_get_new_def Let_def)
      moreover have "query_added cf now sock dm srv client ?cq msg (qlist st) (Some (length (qlist st))) (be16 (my_qid q) @ drop 2 msg) (qlist ?st)"
        using new c(5,6) Some qp by (auto simp: query_added_def)
      ultimately show ?thesis using cq c(4) by (intro exI conjI) (assumption | simp)+
    qed
  qed
qed

lemma query_add_ok:
  assumes "query_ok cf st" and "max_sockets cf < int QID_POOL_SIZE"
    and "\<And>fd. sock = Some fd \<Longrightarrow> fd < FD_SETSIZE \<and> fd \<notin> fdmaster st" and len: "2 \<le> length msg"
  shows "\<exists>r msg' st'. query_add cf now sock dm srv client msg st = Some (r, msg', st') \<and> query_ok cf st' \<and>
    length msg' = length msg \<and> drop 2 msg' = drop 2 msg \<and>
    total_timeouts st' = total_timeouts st \<and>
    (case r of
       None \<Rightarrow> msg' = msg \<and> qlist st' = qlist st
     | Some p \<Rightarrow> p < length (qlist st') \<and> host16 msg = Some (client_qid (qlist st' ! p)) \<and>
         (if p < length (qlist st)
          then msg' = [ucast (my_qid (qlist st ! p)), ucast (drop_bit 8 (my_qid (qlist st ! p)))] @ drop 2 msg \<and>
               qlist st' = (qlist st)[p := (qlist st ! p)\<lparr>client_time := now,
                  client_count := client_count (qlist st ! p) + 1\<rparr>]
          else (\<exists>q. qlist st' = qlist st @ [q] \<and> msg' = be16 (my_qid q) @ drop 2 msg \<and>
                 q_client q = client \<and> q_srv q = srv \<and> q_domain q = dm \<and>
                 client_time q = now \<and> q_ttl q = forward_timeout cf)))"
proof -
  from query_add_cases [OF assms] obtain cq r msg' st' where a: "host16 msg = Some cq"
    "query_add cf now sock dm srv client msg st = Some (r, msg', st')" "query_ok cf st'" "total_timeouts st' = total_timeouts st"
    "query_added cf now sock dm srv client cq msg (qlist st) r msg' (qlist st')" by metis
  have l: "length (be16 v) = 2" for v by (simp add: be16_def)
  show ?thesis using a len by (intro exI [of _ r] exI [of _ msg'] exI [of _ st']) (auto simp: query_added_def l split: if_splits)
qed

lemma subseq_delete: "p < length xs \<Longrightarrow> subseq (take p xs @ drop (Suc p) xs) xs"
proof -
  assume "p < length xs"
  then have "xs = take p xs @ xs ! p # drop (Suc p) xs" by (rule id_take_nth_drop)
  moreover have "subseq (take p xs @ drop (Suc p) xs) (take p xs @ xs ! p # drop (Suc p) xs)"
    by (intro list_emb_append_mono list_emb_Cons) simp_all
  ultimately show ?thesis by metis
qed

lemma filter_delete:
  "p < length xs \<Longrightarrow> \<not> P (xs ! p) \<Longrightarrow> filter P (take p xs @ drop (Suc p) xs) = filter P xs"
  by (subst (3) id_take_nth_drop [of p xs]) auto

lemma timeout_loop_ok:
  assumes "query_ok cf st"
  shows "\<exists>cnt' st'. timeout_loop now p cnt st = Some (cnt', st') \<and> query_ok cf st' \<and>
    subseq (qlist st') (qlist st) \<and>
    filter (\<lambda>q. \<not> query_expired now q) (qlist st') = filter (\<lambda>q. \<not> query_expired now q) (qlist st) \<and>
    cnt' + length (qlist st') = cnt + length (qlist st) \<and> total_timeouts st' = total_timeouts st \<and>
    ((\<exists>k. p \<le> k \<and> k < length (qlist st) \<and> query_expired now (qlist st ! k)) \<longrightarrow> cnt < cnt')"
  using assms
proof (induction now p cnt st rule: timeout_loop.induct)
  case (1 now p cnt st)
  show ?case
  proof (cases "p < length (qlist st)")
    case False
    then show ?thesis using 1(3) by (subst timeout_loop.simps) auto
  next
    case p: True
    show ?thesis
    proof (cases "query_expired now (qlist st ! p)")
      case False
      have e: "timeout_loop now p cnt st = timeout_loop now (q_next (qlist st) p) cnt st"
        using p False by (subst timeout_loop.simps) simp
      have "q_next (qlist st) p = p + 1" using p by (simp add: q_next_def)
      moreover have "(\<exists>k. p \<le> k \<and> k < length (qlist st) \<and> query_expired now (qlist st ! k)) \<longrightarrow>
          (\<exists>k. p + 1 \<le> k \<and> k < length (qlist st) \<and> query_expired now (qlist st ! k))"
        using False by (metis Suc_eq_plus1 le_eq_less_or_eq Suc_leI)
      ultimately show ?thesis using 1(2) [OF p False 1(3)] e by auto
    next
      case True
      obtain s1 where s1: "query_delete_next p st = Some s1" "query_ok cf s1"
        "qlist s1 = take p (qlist st) @ drop (p + 1) (qlist st)" "total_timeouts s1 = total_timeouts st"
        using query_delete_next_ok [OF 1(3) p] by blast
      have e: "timeout_loop now p cnt st = timeout_loop now (q_next (qlist s1) p) (cnt + 1) s1"
        using p True s1(1) by (subst timeout_loop.simps) simp
      obtain c2 s2 where s2: "timeout_loop now (q_next (qlist s1) p) (cnt + 1) s1 = Some (c2, s2)" "query_ok cf s2"
        "subseq (qlist s2) (qlist s1)"
        "filter (\<lambda>q. \<not> query_expired now q) (qlist s2) = filter (\<lambda>q. \<not> query_expired now q) (qlist s1)"
        "c2 + length (qlist s2) = cnt + 1 + length (qlist s1)" "total_timeouts s2 = total_timeouts s1"
        using 1(1) [OF p True s1(1,2)] by blast
      have "subseq (qlist s1) (qlist st)" using subseq_delete [OF p] s1(3) by simp
      moreover have "filter (\<lambda>q. \<not> query_expired now q) (qlist s1) = filter (\<lambda>q. \<not> query_expired now q) (qlist st)"
        using filter_delete [OF p, of "\<lambda>q. \<not> query_expired now q"] True s1(3) by simp
      moreover have len: "length (qlist s1) + 1 = length (qlist st)" using s1(3) p by simp
      moreover have "length (qlist s2) \<le> length (qlist s1)" using s2(3) by (rule list_emb_length)
      ultimately show ?thesis using e s2 s1(4) subseq_order.order_trans [OF s2(3)] by auto
    qed
  qed
qed

subsection \<open>Correctness of the query list\<close>

text \<open>C26. query\_add keeps the bookkeeping exact and decides as it should.  From consistent pending queries, with
  fewer sockets allowed than there are ids, a message of at least two bytes and, when socket() succeeds, a new
  descriptor that fits the select set, it returns and leaves consistent queries (\<open>query_ok\<close>: their ids are
  distinct and are exactly those taken from the pool, each has an open socket of its own in the select set, at most
  \<open>max_sockets\<close> are pending).  When the id of the message is the client id of a pending query, the first such
  query is returned, its time is renewed, nothing is added, and the message is given that query's id (in host
  order, whatever client and question it came from).  Otherwise the message is dropped, with the queries
  unchanged, exactly when the limit of sockets is reached or socket() fails; if not, exactly one query is appended,
  with an unused id, the new socket, the client's id and address, its server and domain, and the message carries
  its id in network order.  The rest of the message is never changed.\<close>

theorem query_add_correct:
  assumes "query_ok cf st" and "max_sockets cf < int QID_POOL_SIZE" and "2 \<le> length msg"
    and "\<And>fd. sock = Some fd \<Longrightarrow> fd < FD_SETSIZE \<and> fd \<notin> fdmaster st"
  shows "\<exists>cq r msg' st'. host16 msg = Some cq \<and> query_add cf now sock dm srv client msg st = Some (r, msg', st') \<and> query_ok cf st' \<and>
    (if \<exists>q \<in> set (qlist st). client_qid q = cq
     then \<exists>p < length (qlist st). r = Some p \<and> client_qid (qlist st ! p) = cq \<and> (\<forall>i < p. client_qid (qlist st ! i) \<noteq> cq) \<and>
            msg' = [ucast (my_qid (qlist st ! p)), ucast (drop_bit 8 (my_qid (qlist st ! p)))] @ drop 2 msg \<and>
            qlist st' = (qlist st)[p := (qlist st ! p)\<lparr>client_time := now, client_count := client_count (qlist st ! p) + 1\<rparr>]
     else if max_sockets cf \<le> int (length (qlist st)) \<or> sock = None then r = None \<and> msg' = msg \<and> qlist st' = qlist st
     else \<exists>q. r = Some (length (qlist st)) \<and> qlist st' = qlist st @ [q] \<and> msg' = be16 (my_qid q) @ drop 2 msg \<and>
            my_qid q \<notin> my_qid ` set (qlist st) \<and> sock = Some (q_sock q) \<and> client_qid q = cq \<and> q_client q = client \<and>
            q_srv q = srv \<and> q_domain q = dm \<and> client_time q = now \<and> client_count q = 1 \<and> q_ttl q = forward_timeout cf)"
  using query_add_cases [OF assms(1,2) _ assms(3), of sock now dm srv client] assms(4) unfolding query_added_def by blast

definition demo_queries :: query_state where
  "demo_queries = \<lparr>qlist = [], qlist_tail = 0, upstream_sockets = 0, total_queries = 0,
     total_timeouts = 0, dropping = False, fdmaster = {3}, maxsock = 3,
     qid_st = the (qid_init_pool (\<lambda>_. 7) qid_static)\<rparr>"

lemma demo_queries_ok: "query_ok default_conf demo_queries"
proof -
  obtain s where "qid_init_pool (\<lambda>_. 7) qid_static = Some s" "qid_ok s []" using qid_init_pool_ok by blast
  then show ?thesis by (simp add: query_ok_def demo_queries_def default_conf_def)
qed

theorem query_add_correct_witness:
  "\<exists>msg' st' q. query_add default_conf 100 (Some 5) None (0, 1) (0, 9) [1, 2, 3, 4] demo_queries = Some (Some 0, msg', st') \<and>
     query_ok default_conf st' \<and> qlist st' = [q] \<and> msg' = be16 (my_qid q) @ [3, 4] \<and> q_sock q = 5 \<and> client_qid q = 0x0201 \<and> q_client q = (0, 9)"
proof -
  have h: "max_sockets default_conf < int QID_POOL_SIZE" "\<And>fd. Some 5 = Some fd \<Longrightarrow> fd < FD_SETSIZE \<and> fd \<notin> fdmaster demo_queries"
    by (simp_all add: default_conf_def QID_POOL_SIZE_def FD_SETSIZE_def demo_queries_def)
  have c: "host16 [1, 2, 3, 4] = Some 0x0201" by code_simp
  have m: "\<not> (max_sockets default_conf \<le> int (length (qlist demo_queries)) \<or> Some (5 :: nat) = None)" "qlist demo_queries = []"
    by (simp_all add: default_conf_def demo_queries_def)
  show ?thesis
    using query_add_correct [where cf = default_conf and st = demo_queries and sock = "Some 5" and msg = "[1, 2, 3, 4]" and now = 100
        and dm = None and srv = "(0, 1)" and client = "(0, 9)", OF demo_queries_ok h(1) _ h(2)] c m by auto
qed

text \<open>query\_timeout ends and never touches a query that has not timed out: the remaining list
  is a sub-list of the old one with the same live queries in the same order, the counter rises by
  the number of queries removed, ids and sockets of the removed ones are given back, and if any
  query has timed out at least one is removed.  (It may leave others: behind a deletion the
  loop skips one node.)\<close>

theorem query_timeout_correct:
  assumes "query_ok cf st"
  shows "\<exists>st'. query_timeout now st = Some st' \<and> query_ok cf st' \<and> subseq (qlist st') (qlist st) \<and>
    filter (\<lambda>q. \<not> query_expired now q) (qlist st') = filter (\<lambda>q. \<not> query_expired now q) (qlist st) \<and>
    total_timeouts st' + length (qlist st') = total_timeouts st + length (qlist st) \<and>
    ((\<exists>q \<in> set (qlist st). query_expired now q) \<longrightarrow> length (qlist st') < length (qlist st))"
proof -
  obtain c s1 where s1: "timeout_loop now 0 0 st = Some (c, s1)" "query_ok cf s1" "subseq (qlist s1) (qlist st)"
    "filter (\<lambda>q. \<not> query_expired now q) (qlist s1) = filter (\<lambda>q. \<not> query_expired now q) (qlist st)"
    "c + length (qlist s1) = 0 + length (qlist st)" "total_timeouts s1 = total_timeouts st"
    "(\<exists>k. 0 \<le> k \<and> k < length (qlist st) \<and> query_expired now (qlist st ! k)) \<longrightarrow> 0 < c"
    using timeout_loop_ok [OF assms, of now 0 0] by (elim exE conjE) (rule that)
  have ex: "(\<exists>q \<in> set (qlist st). query_expired now q) \<longrightarrow> 0 < c"
    using s1(7) by (auto simp: in_set_conv_nth)
  let ?s = "s1\<lparr>total_timeouts := total_timeouts s1 + c\<rparr>"
  have ql: "qlist ?s = qlist s1" by simp
  have "query_timeout now st = Some ?s" using s1(1) by (simp add: query_timeout_def)
  moreover have "query_ok cf ?s" using s1(2) by (simp add: query_ok_def)
  moreover have "total_timeouts ?s + length (qlist s1) = total_timeouts st + length (qlist st)" using s1(5,6) by simp
  moreover have "(\<exists>q \<in> set (qlist st). query_expired now q) \<longrightarrow> length (qlist s1) < length (qlist st)"
    using ex s1(5) by linarith
  ultimately show ?thesis using s1(3,4) unfolding ql [symmetric] by blast
qed

theorem query_timeout_correct_witness:
  "\<exists>st'. query_timeout 100 demo_queries = Some st' \<and> query_ok default_conf st'"
  using query_timeout_correct [OF demo_queries_ok, of 100] by blast

end
