(* ===== verification/Dnrd_Master_Db.thy ===== *)
theory Dnrd_Master_Db
  imports Dnrd_Common
begin

section \<open>dnrd: the master database (first half of master.c)\<close>

text \<open>
  The local DNS data: the records, the parsers of the blacklist, the hosts files and the master
  configuration, and the four lookups.  The array \<open>dbv\<close> of pointers to records is a list;
  \<open>dbc\<close> is its length and \<open>dbmax\<close> the capacity the source reallocates in steps of ten.
  Files are a function from names to contents, \<open>None\<close> when \<open>fopen\<close> fails;
  \<open>inet_aton\<close> delivers the address as the number \<open>ntohl(s_addr)\<close>.  Log output and the
  semaphore are left out.
\<close>

subsection \<open>Records\<close>

definition DNS_TYPE_A :: u16 where "DNS_TYPE_A = 1"
definition DNS_TYPE_NS :: u16 where "DNS_TYPE_NS = 2"
definition DNS_TYPE_PTR :: u16 where "DNS_TYPE_PTR = 12"
definition DEFAULT_TTL :: u32 where "DEFAULT_TTL = 60 * 60"
definition ARPADOMAIN :: bytes where "ARPADOMAIN = bytes_of ''.in-addr.arpa''"

record string_t =
  s_code :: u32
  s_string :: bytes

datatype dnsdata = DNS_NAMEIP string_t u32 | DNS_DNS string_t | DNS_AUTHORITY

record dnsrec_t =
  r_object :: string_t
  r_data :: dnsdata

record master_state =
  dbv :: "dnsrec_t list"
  dbmax :: nat
  master_onoff :: bool
  master_initialised :: bool
  master_reload :: bool
  auto_authority :: bool

definition master_start :: master_state where
  "master_start = \<lparr>dbv = [], dbmax = 0, master_onoff = True, master_initialised = False,
     master_reload = False, auto_authority = True\<rparr>"

definition mkstring :: "bytes \<Rightarrow> nat \<Rightarrow> string_t" where
  "mkstring name maxlen =
     (let s = strnlwr name maxlen in \<lparr>s_code = get_stringcode s, s_string = s\<rparr>)"

text \<open>Decimal text of a byte, and \<open>inet_ntoa\<close> of an address given as the 32-bit value of
  \<open>s_addr\<close> on a little-endian machine: the lowest byte is printed first.\<close>

definition dec_byte :: "byte \<Rightarrow> bytes" where
  "dec_byte b = (let n = unat b; dig = (\<lambda>d. of_nat (48 + d)) in
     if n < 10 then [dig n] else if n < 100 then [dig (n div 10), dig (n mod 10)]
     else [dig (n div 100), dig (n div 10 mod 10), dig (n mod 10)])"

definition inet_ntoa :: "u32 \<Rightarrow> bytes" where
  "inet_ntoa a = dec_byte (ucast a) @ 46 # dec_byte (ucast (drop_bit 8 a)) @
     46 # dec_byte (ucast (drop_bit 16 a)) @ 46 # dec_byte (ucast (drop_bit 24 a))"

definition ntohl :: "u32 \<Rightarrow> u32" where
  "ntohl a = ntohl4 (ucast a) (ucast (drop_bit 8 a)) (ucast (drop_bit 16 a)) (ucast (drop_bit 24 a))"

definition create_nameip :: "(bytes \<Rightarrow> u32 option) \<Rightarrow> nat \<Rightarrow> bytes \<Rightarrow> dnsdata option" where
  "create_nameip inet_aton maxnamelen ip =
     (case inet_aton ip of
        None \<Rightarrow> None
      | Some ipnum \<Rightarrow>
          let s_addr = ntohl ipnum;
              s_addr' = (if ipnum = s_addr
                         then push_bit 24 (ipnum AND 0xff) OR push_bit 8 (ipnum AND 0xff00) OR
                              drop_bit 8 (ipnum AND 0xff0000) OR drop_bit 24 (ipnum AND 0xff000000)
                         else ipnum)
          in Some (DNS_NAMEIP (mkstring (inet_ntoa s_addr') maxnamelen) ipnum))"

definition add_record :: "dnsrec_t \<Rightarrow> master_state \<Rightarrow> master_state" where
  "add_record rec st =
     (let st1 = (if dbmax st \<le> length (dbv st) then st\<lparr>dbmax := dbmax st + 10\<rparr> else st)
      in st1\<lparr>dbv := dbv st1 @ [rec]\<rparr>)"

definition reset_master :: "master_state \<Rightarrow> master_state" where
  "reset_master st = st\<lparr>dbv := [], dbmax := 0\<rparr>"

definition add_nameip ::
  "(bytes \<Rightarrow> u32 option) \<Rightarrow> bytes \<Rightarrow> nat \<Rightarrow> bytes \<Rightarrow> master_state \<Rightarrow> master_state" where
  "add_nameip inet_aton name maxlen ipnum st =
     (case create_nameip inet_aton maxlen ipnum of
        None \<Rightarrow> st
      | Some d \<Rightarrow> add_record \<lparr>r_object = mkstring name maxlen, r_data = d\<rparr> st)"

definition add_dns :: "bytes \<Rightarrow> nat \<Rightarrow> bytes \<Rightarrow> nat \<Rightarrow> master_state \<Rightarrow> master_state" where
  "add_dns domain maxdomainlen dns maxdnslen st =
     add_record \<lparr>r_object = mkstring domain maxdomainlen, r_data = DNS_DNS (mkstring dns maxdnslen)\<rparr> st"

definition add_authority :: "bytes \<Rightarrow> nat \<Rightarrow> master_state \<Rightarrow> master_state" where
  "add_authority domain maxlen st =
     add_record \<lparr>r_object = mkstring domain maxlen, r_data = DNS_AUTHORITY\<rparr> st"

subsection \<open>Host names\<close>

text \<open>\<open>snprintf(name, size, "%s%s%s", word, domain[0] ? "." : "", domain)\<close>.\<close>

definition qualify :: "nat \<Rightarrow> bytes \<Rightarrow> bytes \<Rightarrow> bytes" where
  "qualify sz word domain = take (sz - 1) (word @ (if domain = [] then [] else [46]) @ domain)"

definition get_hostname :: "bytes \<Rightarrow> bytes \<Rightarrow> nat \<Rightarrow> bytes \<times> bytes" where
  "get_hostname from domain sz0 =
     (let sz = sz0 - 2; (from', word) = get_word from 100 in
      if word = [] then (from', [])
      else if hd word = 43 then (from', copy_string word sz)
      else if last word = 43 then (from', qualify sz (butlast word) domain)
      else if last word = 46 then (from', copy_string (butlast word) (sz - 1))
      else if 46 \<notin> set word then (from', qualify sz word domain)
      else (from', copy_string word sz))"

lemma get_hostname_progress: "get_hostname p dm sz = (p', name) \<Longrightarrow> name \<noteq> [] \<Longrightarrow> length p' < length p"
  using get_word_progress [of p 100]
  by (auto simp: get_hostname_def Let_def split: prod.splits if_splits)

function hosts_loop ::
  "(bytes \<Rightarrow> u32 option) \<Rightarrow> bytes \<Rightarrow> bytes \<Rightarrow> bytes \<Rightarrow> master_state \<Rightarrow> master_state" where
  "hosts_loop inet_aton p domain ipnum st =
     (case get_hostname p domain 100 of (p', word) \<Rightarrow>
        if word = [] then st
        else hosts_loop inet_aton p' domain ipnum (add_nameip inet_aton word 100 ipnum st))"
  by pat_completeness auto
termination
  by (relation "measure (\<lambda>(ia, p, dm, ip, st). length p)") (auto dest!: get_hostname_progress [OF sym])

declare hosts_loop.simps [simp del]

definition read_hosts_line ::
  "(bytes \<Rightarrow> u32 option) \<Rightarrow> bytes \<Rightarrow> bytes \<Rightarrow> master_state \<Rightarrow> master_state" where
  "read_hosts_line inet_aton domain line st =
     (let p = skip_ws (noctrln line 300) in
      if p = [] \<or> hd p = 35 then st
      else if isdigit (hd p)
      then (let (p1, ipnum) = get_word p 100 in hosts_loop inet_aton p1 domain ipnum st)
      else st)"

definition read_hosts ::
  "(bytes \<Rightarrow> u32 option) \<Rightarrow> (bytes \<Rightarrow> bytes option) \<Rightarrow> bytes \<Rightarrow> bytes \<Rightarrow> master_state \<Rightarrow> int \<times> master_state" where
  "read_hosts inet_aton files filename domain st =
     (case files filename of
        None \<Rightarrow> (1, st)
      | Some content \<Rightarrow> (0, fold (read_hosts_line inet_aton domain) (file_lines 300 content) st))"

subsection \<open>The master configuration\<close>

function domain_loop :: "bytes \<Rightarrow> bytes \<Rightarrow> master_state \<Rightarrow> master_state" where
  "domain_loop p domain st =
     (case get_hostname p domain 100 of (p', word) \<Rightarrow>
        if word = [] then st
        else domain_loop p' domain
               (if word = bytes_of ''+auth'' then add_authority domain 256 st
                else add_dns domain 256 word 100 st))"
  by pat_completeness auto
termination
  by (relation "measure (\<lambda>(p, dm, st). length p)") (auto dest!: get_hostname_progress [OF sym])

declare domain_loop.simps [simp del]

text \<open>One line; the first component of the state is the buffer \<open>domain\<close>, which lives on from
  line to line.\<close>

definition read_config_line ::
  "(bytes \<Rightarrow> u32 option) \<Rightarrow> (bytes \<Rightarrow> bytes option) \<Rightarrow> bytes \<Rightarrow> bytes \<times> master_state \<Rightarrow> bytes \<times> master_state" where
  "read_config_line inet_aton files line dst =
     (let (domain, st) = dst; p = skip_ws (noctrln line 300) in
      if p = [] \<or> hd p = 35 then (domain, st)
      else if isdigit (hd p)
      then (let (p1, ipnum) = get_word p 100; (p2, word) = get_hostname p1 domain 100 in
            if word = [] then (domain, add_nameip inet_aton domain 256 ipnum st)
            else (domain, hosts_loop inet_aton p2 domain ipnum (add_nameip inet_aton word 100 ipnum st)))
      else (let (p1, word) = get_word p 100 in
            if word = bytes_of ''domain''
            then (let (p2, domain') = get_word p1 256 in
                  if domain' = [] then (domain', st) else (domain', domain_loop p2 domain' st))
            else if word = bytes_of ''hosts''
            then (let (p2, filename) = get_word p1 200 in
                  if filename = [] then (domain, st)
                  else (let filename' = (if filename = bytes_of ''-'' then bytes_of ''/etc/hosts'' else filename);
                            (p3, w) = get_word p2 100;
                            w' = (if w = [] then copy_string domain 100 else w)
                        in (domain, snd (read_hosts inet_aton files filename' w' st))))
            else (domain, st)))"

text \<open>\<open>stack\<close> is what the uninitialised buffer \<open>domain\<close> holds before the first
  \<open>domain\<close> line.\<close>

definition read_configuration ::
  "(bytes \<Rightarrow> u32 option) \<Rightarrow> (bytes \<Rightarrow> bytes option) \<Rightarrow> bytes \<Rightarrow> bytes \<Rightarrow> master_state \<Rightarrow> int \<times> master_state" where
  "read_configuration inet_aton files stack filename st =
     (case files filename of
        None \<Rightarrow> (1, st)
      | Some content \<Rightarrow>
          (0, snd (fold (read_config_line inet_aton files) (file_lines 300 content) (stack, st))))"

definition cut_at :: "byte \<Rightarrow> bytes \<Rightarrow> bytes" where
  "cut_at c s = takeWhile (\<lambda>b. b \<noteq> c) s"

definition read_blacklist_line :: "bytes \<Rightarrow> master_state \<Rightarrow> master_state" where
  "read_blacklist_line line st =
     (let buf = cut_at 10 (cut_at 13 (cut_at 35 line)) in
      if buf \<noteq> [] then add_authority buf 256 st else st)"

definition read_blacklist :: "(bytes \<Rightarrow> bytes option) \<Rightarrow> bytes \<Rightarrow> master_state \<Rightarrow> int \<times> master_state" where
  "read_blacklist files filename st =
     (case files filename of
        None \<Rightarrow> (1, st)
      | Some content \<Rightarrow> (0, fold read_blacklist_line (file_lines 256 content) st))"

subsection \<open>Lookups\<close>

definition string_is :: "u32 \<Rightarrow> bytes \<Rightarrow> string_t \<Rightarrow> bool" where
  "string_is code name s \<longleftrightarrow> s_code s = code \<and> s_string s = name"

definition ptr_lookup :: "dnsrec_t list \<Rightarrow> bytes \<Rightarrow> dnsrec_t option" where
  "ptr_lookup db arpanum = (let code = get_stringcode arpanum in
     find (\<lambda>rec. case r_data rec of DNS_NAMEIP arpa _ \<Rightarrow> string_is code arpanum arpa | _ \<Rightarrow> False) db)"

definition is_nameip :: "dnsdata \<Rightarrow> bool" where
  "is_nameip d = (case d of DNS_NAMEIP _ _ \<Rightarrow> True | _ \<Rightarrow> False)"

lemma is_nameip_simps [simp]: "is_nameip (DNS_NAMEIP a b)" "\<not> is_nameip (DNS_DNS d)" "\<not> is_nameip DNS_AUTHORITY"
  by (simp_all add: is_nameip_def)

definition name_lookup :: "dnsrec_t list \<Rightarrow> bytes \<Rightarrow> dnsrec_t option" where
  "name_lookup db name = (let code = get_stringcode name in
     find (\<lambda>rec. is_nameip (r_data rec) \<and> string_is code name (r_object rec)) db)"

text \<open>\<open>name\<close> equals the object of an NS record or lies in the domain it names.\<close>

definition in_domain :: "bytes \<Rightarrow> bytes \<Rightarrow> bool" where
  "in_domain name obj \<longleftrightarrow>
     length obj \<le> length name \<and>
     (let k = length name - length obj in
      if 0 < k then name ! (k - 1) = 46 \<and> drop k name = obj else name = obj)"

fun dns_scan :: "dnsrec_t list \<Rightarrow> bytes \<Rightarrow> nat \<Rightarrow> (nat \<times> dnsrec_t) option" where
  "dns_scan [] name i = None"
| "dns_scan (rec # db) name i =
     (if (case r_data rec of DNS_DNS _ \<Rightarrow> in_domain name (s_string (r_object rec)) | _ \<Rightarrow> False)
      then Some (i, rec) else dns_scan db name (i + 1))"

text \<open>The result is the record and the new value of \<open>*last\<close>.\<close>

definition dns_lookup :: "dnsrec_t list \<Rightarrow> bytes \<Rightarrow> int \<Rightarrow> dnsrec_t option \<times> int" where
  "dns_lookup db name last0 =
     (let start = (if last0 < 0 then 0 else last0 + 1) in
      case dns_scan (drop (nat start) db) name (nat start) of
        None \<Rightarrow> (None, start)
      | Some (i, rec) \<Rightarrow> (Some rec, int i))"

definition authority_lookup :: "dnsrec_t list \<Rightarrow> bytes \<Rightarrow> dnsrec_t option" where
  "authority_lookup db domain = (let code = get_stringcode domain in
     find (\<lambda>rec. r_data rec = DNS_AUTHORITY \<and> string_is code domain (r_object rec)) (rev db))"

subsection \<open>master\_init and master\_reinit\<close>

text \<open>The loop over the growing array that adds the authorities for reverse lookups.\<close>

definition arpa_domain :: "string_t \<Rightarrow> bytes option" where
  "arpa_domain arpa =
     (let arpaname = take (200 - 2 - 1) (s_string arpa @ ARPADOMAIN) in
      case dropWhile (\<lambda>c. c \<noteq> 46) arpaname of [] \<Rightarrow> None | _ # domain \<Rightarrow> Some domain)"

definition auto_step :: "nat \<Rightarrow> master_state \<Rightarrow> master_state" where
  "auto_step i st =
     (case r_data (dbv st ! i) of
        DNS_NAMEIP arpa _ \<Rightarrow>
          (case arpa_domain arpa of
             None \<Rightarrow> st
           | Some domain \<Rightarrow>
               if authority_lookup (dbv st) domain = None then add_authority domain 201 st else st)
      | _ \<Rightarrow> st)"

lemma auto_step_db: "i < length (dbv st) \<Longrightarrow>
    dbv (auto_step i st) = dbv st \<or>
    is_nameip (r_data (dbv st ! i)) \<and> (\<exists>r. dbv (auto_step i st) = dbv st @ [r] \<and> \<not> is_nameip (r_data r))"
proof -
  have "\<exists>r. dbv (add_authority dm n st) = dbv st @ [r] \<and> \<not> is_nameip (r_data r)" for dm n
    by (intro exI [of _ "\<lparr>r_object = mkstring dm n, r_data = DNS_AUTHORITY\<rparr>"])
       (simp add: add_authority_def add_record_def Let_def)
  then show ?thesis
    by (auto simp: auto_step_def split: dnsdata.split option.split)
qed

definition names_from :: "nat \<Rightarrow> dnsrec_t list \<Rightarrow> nat" where
  "names_from i db = length (filter (\<lambda>r. is_nameip (r_data r)) (drop i db))"

function auto_loop :: "nat \<Rightarrow> master_state \<Rightarrow> master_state" where
  "auto_loop i st = (if i < length (dbv st) then auto_loop (i + 1) (auto_step i st) else st)"
  by pat_completeness auto
termination
proof (relation "measures [\<lambda>(i, st). names_from i (dbv st), \<lambda>(i, st). length (dbv st) - i]", goal_cases)
  case 1
  show ?case by simp
next
  case (2 i st)
  have d: "drop i (dbv st) = dbv st ! i # drop (i + 1) (dbv st)" using 2 by (simp add: Cons_nth_drop_Suc)
  from auto_step_db [OF 2] show ?case
  proof
    assume e: "dbv (auto_step i st) = dbv st"
    have "names_from (i + 1) (dbv st) \<le> names_from i (dbv st)" by (simp add: names_from_def d)
    then show ?thesis using 2 e by auto
  next
    assume "is_nameip (r_data (dbv st ! i)) \<and> (\<exists>r. dbv (auto_step i st) = dbv st @ [r] \<and> \<not> is_nameip (r_data r))"
    then show ?thesis using 2 by (auto simp: names_from_def d)
  qed
qed

declare auto_loop.simps [simp del]

definition master_init ::
  "(bytes \<Rightarrow> u32 option) \<Rightarrow> (bytes \<Rightarrow> bytes option) \<Rightarrow> bytes \<Rightarrow> bytes \<Rightarrow> bytes \<Rightarrow> master_state \<Rightarrow> master_state" where
  "master_init inet_aton files stack master_config blacklist st =
     (if \<not> master_onoff st then st
      else
        let st1 = add_nameip inet_aton (bytes_of ''localhost'') 10 (bytes_of ''127.0.0.1'') st;
            st2 = add_dns (bytes_of ''0.0.127.in-addr.arpa'') 21 (bytes_of ''localhost'') 10 st1;
            st3 = snd (read_blacklist files blacklist st2);
            st4 = snd (read_configuration inet_aton files stack master_config st3);
            st5 = (if auto_authority st4 then auto_loop 0 st4 else st4)
        in st5\<lparr>master_initialised := True\<rparr>)"

definition master_reinit ::
  "(bytes \<Rightarrow> u32 option) \<Rightarrow> (bytes \<Rightarrow> bytes option) \<Rightarrow> bytes \<Rightarrow> bytes \<Rightarrow> bytes \<Rightarrow> master_state \<Rightarrow> master_state" where
  "master_reinit inet_aton files stack master_config blacklist st =
     (if \<not> master_onoff st then st\<lparr>master_reload := False\<rparr>
      else (if master_reload st
            then master_init inet_aton files stack master_config blacklist (reset_master st)
            else st)\<lparr>master_reload := False\<rparr>)"

subsection \<open>Properties of the database\<close>

definition db_ok :: "master_state \<Rightarrow> bool" where
  "db_ok st \<longleftrightarrow> length (dbv st) \<le> dbmax st"

lemma add_record_ok: "db_ok st \<Longrightarrow> db_ok (add_record rec st)"
  by (simp add: db_ok_def add_record_def Let_def)

lemma add_record_dbv [simp]: "dbv (add_record rec st) = dbv st @ [rec]"
  by (simp add: add_record_def Let_def)

text \<open>Adding records only extends the database: this is shared by all the readers.\<close>

definition extends_db :: "master_state \<Rightarrow> master_state \<Rightarrow> bool" where
  "extends_db st st' \<longleftrightarrow> (\<exists>rs. dbv st' = dbv st @ rs) \<and> (db_ok st \<longrightarrow> db_ok st') \<and>
     master_onoff st' = master_onoff st \<and> auto_authority st' = auto_authority st"

lemma extends_refl [simp]: "extends_db st st"
  by (simp add: extends_db_def)

lemma extends_trans [trans]: "extends_db st st' \<Longrightarrow> extends_db st' st'' \<Longrightarrow> extends_db st st''"
  by (auto simp: extends_db_def)

lemma extends_add_record [simp]: "extends_db st (add_record rec st)"
proof -
  have "master_onoff (add_record rec st) = master_onoff st" "auto_authority (add_record rec st) = auto_authority st"
    by (simp_all add: add_record_def Let_def)
  then show ?thesis by (simp add: extends_db_def add_record_ok)
qed

lemma extends_adds [simp]:
  "extends_db st (add_nameip ia nm n ip st)" "extends_db st (add_dns dm n d m st)"
  "extends_db st (add_authority dm n st)"
  by (simp_all add: add_nameip_def add_dns_def add_authority_def split: option.split)

lemma extends_fold: "(\<And>x s. extends_db s (f x s)) \<Longrightarrow> extends_db st (fold f xs st)"
  by (induction xs arbitrary: st) (auto intro: extends_trans)

lemma extends_hosts_loop [simp]: "extends_db st (hosts_loop ia p dm ip st)"
  by (induction ia p dm ip st rule: hosts_loop.induct)
     (subst hosts_loop.simps, auto split: prod.split intro: extends_trans [OF extends_adds(1)])

lemma extends_domain_loop [simp]: "extends_db st (domain_loop p dm st)"
proof (induction p dm st rule: domain_loop.induct)
  case (1 p dm st)
  show ?case
  proof (cases "get_hostname p dm 100")
    case (Pair p' w)
    let ?s = "if w = bytes_of ''+auth'' then add_authority dm 256 st else add_dns dm 256 w 100 st"
    have "extends_db st ?s" by simp
    moreover have "w \<noteq> [] \<Longrightarrow> extends_db ?s (domain_loop p' dm ?s)" by (rule 1 [OF Pair [symmetric]])
    ultimately show ?thesis
      using Pair by (subst domain_loop.simps) (auto intro: extends_trans)
  qed
qed

lemma extends_read_hosts [simp]: "extends_db st (snd (read_hosts ia files fn dm st))"
proof -
  have "extends_db s (read_hosts_line ia dm l s)" for l s
    by (simp add: read_hosts_line_def Let_def split: prod.split)
  then show ?thesis by (auto simp: read_hosts_def intro: extends_fold split: option.split)
qed

lemma extends_config_line [simp]: "extends_db (snd dst) (snd (read_config_line ia files l dst))"
proof -
  have "extends_db st (hosts_loop ia p dm ip (add_nameip ia w n ip st))" for p dm ip w n st
    by (rule extends_trans [OF extends_adds(1) extends_hosts_loop])
  then show ?thesis by (simp add: read_config_line_def Let_def split: prod.split)
qed

lemma extends_config_fold: "extends_db (snd dst) (snd (fold (read_config_line ia files) ls dst))"
proof (induction ls arbitrary: dst)
  case Nil
  then show ?case by simp
next
  case (Cons l ls)
  then show ?case using extends_trans [OF extends_config_line Cons] by simp
qed

lemma extends_read_configuration [simp]: "extends_db st (snd (read_configuration ia files stack fn st))"
  using extends_config_fold [of "(stack, st)" ia files] by (simp add: read_configuration_def split: option.split)

lemma extends_read_blacklist [simp]: "extends_db st (snd (read_blacklist files fn st))"
  by (auto simp: read_blacklist_def read_blacklist_line_def Let_def intro: extends_fold split: option.split)

lemma extends_auto_step [simp]: "extends_db st (auto_step i st)"
  by (simp add: auto_step_def split: dnsdata.split option.split)

lemma extends_auto_loop [simp]: "extends_db st (auto_loop i st)"
  by (induction i st rule: auto_loop.induct)
     (subst auto_loop.simps, auto intro: extends_trans [OF extends_auto_step])

lemma mkstring_code: "s_code (mkstring nm n) = get_stringcode (s_string (mkstring nm n))"
  by (simp add: mkstring_def Let_def)

lemma authority_found:
  assumes "rec \<in> set db" and "r_data rec = DNS_AUTHORITY" and "r_object rec = mkstring dm n"
  shows "authority_lookup db (s_string (mkstring dm n)) \<noteq> None"
proof -
  have "r_data rec = DNS_AUTHORITY \<and>
      string_is (get_stringcode (s_string (mkstring dm n))) (s_string (mkstring dm n)) (r_object rec)"
    using assms(2,3) mkstring_code [of dm n] by (simp add: string_is_def)
  then show ?thesis using assms(1) by (auto simp: authority_lookup_def Let_def find_None_iff)
qed

lemma blacklist_line_adds:
  assumes "cut_at 10 (cut_at 13 (cut_at 35 line)) = dm" and "dm \<noteq> []"
  shows "\<exists>rec \<in> set (dbv (read_blacklist_line line st)). r_data rec = DNS_AUTHORITY \<and> r_object rec = mkstring dm 256"
  using assms by (auto simp: read_blacklist_line_def add_authority_def)

lemma blacklist_fold_adds:
  assumes "line \<in> set ls" and "cut_at 10 (cut_at 13 (cut_at 35 line)) = dm" and "dm \<noteq> []"
  shows "\<exists>rec \<in> set (dbv (fold read_blacklist_line ls st)). r_data rec = DNS_AUTHORITY \<and> r_object rec = mkstring dm 256"
  using assms(1)
proof (induction ls arbitrary: st)
  case Nil
  then show ?case by simp
next
  case (Cons l ls)
  have ext: "extends_db s (fold read_blacklist_line ls s)" for s
    by (rule extends_fold) (simp add: read_blacklist_line_def Let_def)
  show ?case
  proof (cases "l = line")
    case True
    obtain rec where "rec \<in> set (dbv (read_blacklist_line line st))" "r_data rec = DNS_AUTHORITY" "r_object rec = mkstring dm 256"
      using blacklist_line_adds [OF assms(2,3), of st] by blast
    then show ?thesis using ext [of "read_blacklist_line line st"] True by (auto simp: extends_db_def)
  next
    case False
    then show ?thesis using Cons by simp
  qed
qed

end
