(* ===== verification/Dnrd_Master.thy ===== *)
theory Dnrd_Master
  imports Dnrd_Master_Db
begin

section \<open>dnrd: answers from the master database (second half of master.c)\<close>

text \<open>
  The assembly of answer packets and \<open>master_lookup\<close>.  A packet under assembly is a
  \<open>dnsheader_t\<close> whose \<open>packet\<close> is the 600-byte buffer and whose \<open>here\<close> and
  \<open>rdata\<close> are positions in it; the source does not check the size, a write past the buffer
  is \<open>None\<close>.  The packet dump for debugging changes nothing and is left out.
\<close>

definition PACKET_ASSEMBLYSIZE :: nat where "PACKET_ASSEMBLYSIZE = 600"

subsection \<open>Assembly\<close>

text \<open>\<open>*x->here++ = b\<close> for the bytes of a list.\<close>

definition emit :: "bytes \<Rightarrow> dnsheader_t \<Rightarrow> dnsheader_t option" where
  "emit bs x = do {
     p \<leftarrow> blit (packet x) (here x) bs;
     Some (x\<lparr>packet := p, here := here x + length bs\<rparr>) }"

function compile_loop :: "bytes \<Rightarrow> dnsheader_t \<Rightarrow> dnsheader_t option" where
  "compile_loop name x =
     (let lab = takeWhile (\<lambda>c. c \<noteq> 46) name; rest = dropWhile (\<lambda>c. c \<noteq> 46) name in
      if lab = [] then Some x
      else (case emit ((of_nat (length lab) AND 0x3F) # lab) x of
              None \<Rightarrow> None
            | Some x' \<Rightarrow> compile_loop (drop 1 rest) x'))"
  by pat_completeness auto
termination
proof (relation "measure (length \<circ> fst)", goal_cases)
  case 1
  show ?case by simp
next
  case (2 name x lab rest)
  have "length lab + length rest = length name"
    unfolding 2(1,2) by (metis length_append takeWhile_dropWhile_id)
  then show ?case using 2(3) by (cases lab) auto
qed

declare compile_loop.simps [simp del]

definition compile_name :: "dnsheader_t \<Rightarrow> bytes \<Rightarrow> (nat \<times> dnsheader_t) option" where
  "compile_name x name = do {
     let offset = here x;
     x1 \<leftarrow> compile_loop name x;
     x2 \<leftarrow> emit [0] x1;
     Some (offset, x2) }"

definition compile_namepointer :: "dnsheader_t \<Rightarrow> nat \<Rightarrow> dnsheader_t option" where
  "compile_namepointer x offset = emit [0xC0, of_nat offset AND 0x3F] x"

definition compile_int :: "dnsheader_t \<Rightarrow> u16 \<Rightarrow> dnsheader_t option" where
  "compile_int x number = emit (be16 number) x"

definition compile_long :: "dnsheader_t \<Rightarrow> u32 \<Rightarrow> dnsheader_t option" where
  "compile_long x number = emit (be32 number) x"

definition compile_objectname :: "dnsheader_t \<Rightarrow> dnsheader_t option" where
  "compile_objectname x = emit [0xC0, 0x0C] x"

definition end_rdata :: "dnsheader_t \<Rightarrow> dnsheader_t option" where
  "end_rdata x =
     (case rdata x of
        None \<Rightarrow> Some x
      | Some r \<Rightarrow> do {
          p \<leftarrow> poke16 (packet x) r (of_nat (here x) - of_nat (r + 2));
          Some (x\<lparr>packet := p, rdata := None\<rparr>) })"

definition start_rdata :: "dnsheader_t \<Rightarrow> dnsheader_t option" where
  "start_rdata x = compile_int (x\<lparr>rdata := Some (here x)\<rparr>) 0"

definition end_assembly :: "dnsheader_t \<Rightarrow> dnsheader_t option" where
  "end_assembly x0 = do {
     x \<leftarrow> end_rdata x0;
     p1 \<leftarrow> poke16 (packet x) 2 (hd_u x);
     p2 \<leftarrow> poke16 p1 4 (qdcount x);
     p3 \<leftarrow> poke16 p2 6 (ancount x);
     p4 \<leftarrow> poke16 p3 8 (nscount x);
     p5 \<leftarrow> poke16 p4 10 (arcount x);
     Some (x\<lparr>packet := p5, plen := here x\<rparr>) }"

definition begin_assembly :: "rr_t \<Rightarrow> dnsheader_t option" where
  "begin_assembly query = do {
     nm \<leftarrow> cstr (rr_name query);
     let x0 = \<lparr>hd_id = 0, hd_u = SET_QR 0 1, qdcount = 1, ancount = 0, nscount = 0, arcount = 0,
               here = PACKET_DATABEGIN, packet = replicate PACKET_ASSEMBLYSIZE 0, plen = 0, rdata = None\<rparr>;
     (off, x1) \<leftarrow> compile_name x0 nm;
     x2 \<leftarrow> compile_int x1 (rr_type query);
     compile_int x2 (rr_class query) }"

text \<open>The fixed part of a record behind its owner name.\<close>

definition compile_head :: "dnsheader_t \<Rightarrow> u16 \<Rightarrow> dnsheader_t option" where
  "compile_head x type = do {
     x1 \<leftarrow> compile_int x type;
     x2 \<leftarrow> compile_int x1 DNS_CLASS_INET;
     x3 \<leftarrow> compile_long x2 DEFAULT_TTL;
     start_rdata x3 }"

definition ns_rdata :: "dnsheader_t \<Rightarrow> dnsrec_t \<Rightarrow> dnsheader_t option" where
  "ns_rdata x rec =
     (case r_data rec of
        DNS_DNS dns \<Rightarrow> do { (off, x1) \<leftarrow> compile_name x (s_string dns); end_rdata x1 }
      | _ \<Rightarrow> None)"

lemma dns_scan_bounds: "dns_scan db name i = Some (j, rec) \<Longrightarrow> i \<le> j \<and> j < i + length db"
  by (induction db name i rule: dns_scan.induct) (auto split: if_splits)

lemma dns_lookup_progress:
  "dns_lookup db name k = (Some rec, k') \<Longrightarrow> nat (k + 1) < nat (k' + 1) \<and> nat (k' + 1) \<le> length db"
  by (auto simp: dns_lookup_def Let_def split: option.splits if_splits dest!: dns_scan_bounds)

function ns_loop ::
  "dnsrec_t list \<Rightarrow> bytes \<Rightarrow> int \<Rightarrow> nat \<Rightarrow> dnsheader_t \<Rightarrow> dnsheader_t option" where
  "ns_loop db object k pos x =
     (case dns_lookup db object k of
        (None, k') \<Rightarrow> Some x
      | (Some rec, k') \<Rightarrow>
          (case (if pos = 0 then compile_name x (s_string (r_object rec))
                 else map_option (\<lambda>x'. (pos, x')) (compile_namepointer x pos)) of
             None \<Rightarrow> None
           | Some (pos', x1) \<Rightarrow>
               (case compile_head x1 DNS_TYPE_NS \<bind> (\<lambda>x2. ns_rdata x2 rec) of
                  None \<Rightarrow> None
                | Some x3 \<Rightarrow> ns_loop db object k' pos' (x3\<lparr>nscount := nscount x3 + 1\<rparr>))))"
  by pat_completeness auto
termination
  by (relation "measure (\<lambda>(db, object, k, pos, x). length db - nat (k + 1))")
     (auto dest!: dns_lookup_progress [OF sym])

declare ns_loop.simps [simp del]

definition compile_dnsrecords :: "dnsrec_t list \<Rightarrow> dnsheader_t \<Rightarrow> bytes \<Rightarrow> dnsheader_t option" where
  "compile_dnsrecords db x object = do {
     x' \<leftarrow> ns_loop db object (-1) 0 x;
     Some (if 0 < sint (nscount x') then x'\<lparr>hd_u := SET_AA (hd_u x') 1\<rparr> else x') }"

subsection \<open>master\_lookup and master\_dontknow\<close>

text \<open>\<open>memcpy(msg + 2, x->packet + 2, x->len - 2)\<close>, with the length returned.\<close>

definition put_answer :: "bytes \<Rightarrow> dnsheader_t \<Rightarrow> (int \<times> bytes) option" where
  "put_answer msg x = do {
     msg' \<leftarrow> blit msg 2 (take (plen x - 2) (drop 2 (packet x)));
     Some (int (plen x), msg') }"

definition answer_ptr :: "dnsrec_t list \<Rightarrow> rr_t \<Rightarrow> bytes \<Rightarrow> dnsrec_t \<Rightarrow> bytes \<Rightarrow> (int \<times> bytes) option" where
  "answer_ptr db query nm rec msg = do {
     x \<leftarrow> begin_assembly query;
     x1 \<leftarrow> compile_objectname x;
     x2 \<leftarrow> compile_head x1 DNS_TYPE_PTR;
     (off, x3) \<leftarrow> compile_name x2 (s_string (r_object rec));
     x4 \<leftarrow> end_rdata x3;
     x5 \<leftarrow> compile_dnsrecords db x4 nm;
     x6 \<leftarrow> end_assembly (x5\<lparr>ancount := 1\<rparr>);
     put_answer msg x6 }"

definition answer_a :: "dnsrec_t list \<Rightarrow> rr_t \<Rightarrow> bytes \<Rightarrow> u32 \<Rightarrow> bytes \<Rightarrow> (int \<times> bytes) option" where
  "answer_a db query nm ipnum msg = do {
     x \<leftarrow> begin_assembly query;
     x1 \<leftarrow> compile_objectname x;
     x2 \<leftarrow> compile_head x1 DNS_TYPE_A;
     x3 \<leftarrow> compile_long x2 ipnum;
     x4 \<leftarrow> end_rdata x3;
     x5 \<leftarrow> compile_dnsrecords db x4 nm;
     x6 \<leftarrow> end_assembly (x5\<lparr>ancount := 1\<rparr>);
     put_answer msg x6 }"

function ns_answers :: "dnsrec_t list \<Rightarrow> bytes \<Rightarrow> dnsrec_t option \<times> int \<Rightarrow> dnsheader_t \<Rightarrow> dnsheader_t option" where
  "ns_answers db name r x =
     (case r of
        (None, k) \<Rightarrow> Some x
      | (Some rec, k) \<Rightarrow>
          (case compile_objectname x \<bind> (\<lambda>x1. compile_head x1 DNS_TYPE_NS) \<bind> (\<lambda>x2. ns_rdata x2 rec) of
             None \<Rightarrow> None
           | Some x3 \<Rightarrow> ns_answers db name (dns_lookup db name k) (x3\<lparr>ancount := ancount x3 + 1\<rparr>)))"
  by pat_completeness auto
termination
proof (relation "measure (\<lambda>(db, name, r, x). case r of (None, k) \<Rightarrow> 0 | (Some rec, k) \<Rightarrow> Suc (length db - nat (k + 1)))", goal_cases)
  case 1
  show ?case by simp
next
  case (2 db name r x a b a2 x3)
  then show ?case
    by (cases "dns_lookup db name b") (auto dest!: dns_lookup_progress split: option.split)
qed

declare ns_answers.simps [simp del]

definition answer_ns :: "dnsrec_t list \<Rightarrow> rr_t \<Rightarrow> bytes \<Rightarrow> dnsrec_t option \<times> int \<Rightarrow> bytes \<Rightarrow> (int \<times> bytes) option" where
  "answer_ns db query nm r msg = do {
     x \<leftarrow> begin_assembly query;
     x1 \<leftarrow> ns_answers db nm r x;
     x2 \<leftarrow> end_assembly (x1\<lparr>hd_u := SET_AA (hd_u x1) 1\<rparr>);
     put_answer msg x2 }"

definition answer_authority :: "dnsrec_t list \<Rightarrow> rr_t \<Rightarrow> bytes \<Rightarrow> bytes \<Rightarrow> (int \<times> bytes) option" where
  "answer_authority db query nm msg =
     (case dropWhile (\<lambda>c. c \<noteq> 46) nm of
        [] \<Rightarrow> Some (0, msg)
      | _ # domain \<Rightarrow>
          if authority_lookup db nm \<noteq> None \<or> authority_lookup db domain \<noteq> None
          then do {
            x \<leftarrow> begin_assembly query;
            x1 \<leftarrow> end_assembly (x\<lparr>ancount := 0, hd_u := SET_AA (hd_u x) 1\<rparr>);
            put_answer msg x1 }
          else Some (0, msg))"

text \<open>The decisions of \<open>master_lookup\<close> once the question is parsed.\<close>

definition master_answer :: "dnsrec_t list \<Rightarrow> rr_t \<Rightarrow> bytes \<Rightarrow> (int \<times> bytes) option" where
  "master_answer db query msg = do {
     nm \<leftarrow> cstr (rr_name query);
     if rr_type query = DNS_TYPE_PTR
     then (if length nm < length ARPADOMAIN \<or> drop (length nm - length ARPADOMAIN) nm \<noteq> ARPADOMAIN
           then Some (0, msg)
           else (case ptr_lookup db (take (length nm - length ARPADOMAIN) nm) of
                   Some rec \<Rightarrow> answer_ptr db query nm rec msg
                 | None \<Rightarrow> answer_authority db query nm msg))
     else if rr_type query = DNS_TYPE_A
     then (case name_lookup db nm of
             Some rec \<Rightarrow> (case r_data rec of DNS_NAMEIP arpa ipnum \<Rightarrow> answer_a db query nm ipnum msg | _ \<Rightarrow> None)
           | None \<Rightarrow> answer_authority db query nm msg)
     else if rr_type query = DNS_TYPE_NS
     then (let r = dns_lookup db nm (-1) in
           if fst r \<noteq> None then answer_ns db query nm r msg else answer_authority db query nm msg)
     else Some (0, msg) }"

record master_env =
  me_inet_aton :: "bytes \<Rightarrow> u32 option"
  me_files :: "bytes \<Rightarrow> bytes option"
  me_stack :: bytes
  me_config :: bytes
  me_blacklist :: bytes

definition run_master_init :: "master_env \<Rightarrow> master_state \<Rightarrow> master_state" where
  "run_master_init e st = master_init (me_inet_aton e) (me_files e) (me_stack e) (me_config e) (me_blacklist e) st"

definition master_lookup ::
  "master_env \<Rightarrow> (byte \<Rightarrow> bool) \<Rightarrow> rr_t \<Rightarrow> bytes \<Rightarrow> nat \<Rightarrow> master_state \<Rightarrow> (int \<times> bytes \<times> master_state) option" where
  "master_lookup e vc y0 msg len st =
     (if \<not> master_onoff st then Some (0, msg, st)
      else do {
        let st1 = (if master_initialised st then st else run_master_init e st);
        (r, query) \<leftarrow> parse_query vc y0 msg len;
        if r \<noteq> 0 \<or> rr_class query \<noteq> DNS_CLASS_INET \<or> GET_OPCODE (rr_flags query) \<noteq> 0 then Some (0, msg, st1)
        else do { (n, msg') \<leftarrow> master_answer (dbv st1) query msg; Some (n, msg', st1) } })"

definition master_dontknow ::
  "master_env \<Rightarrow> (byte \<Rightarrow> bool) \<Rightarrow> rr_t \<Rightarrow> bytes \<Rightarrow> nat \<Rightarrow> bytes \<Rightarrow> master_state \<Rightarrow> (int \<times> bytes \<times> master_state) option" where
  "master_dontknow e vc y0 msg len answer st =
     (if \<not> master_onoff st then Some (0, answer, st)
      else do {
        let st1 = (if master_initialised st then st else run_master_init e st);
        (r, query) \<leftarrow> parse_query vc y0 msg len;
        if r \<noteq> 0 \<or> rr_class query \<noteq> DNS_CLASS_INET \<or> GET_OPCODE (rr_flags query) \<noteq> 0 then Some (0, answer, st1)
        else do {
          x \<leftarrow> begin_assembly query;
          x1 \<leftarrow> end_assembly (x\<lparr>ancount := 0, hd_u := SET_RCODE (SET_AA (hd_u x) 0) 1\<rparr>);
          answer' \<leftarrow> blit answer 0 (take (plen x1) (packet x1));
          Some (int (plen x1), answer', st1) } })"

subsection \<open>What the assembly writes\<close>

text \<open>\<open>at_wire x bs\<close>: the header \<open>x\<close> with \<open>bs\<close> written and the rest of the buffer zero.
  The assembly steps become equations about \<open>bs\<close>.\<close>

definition at_wire :: "dnsheader_t \<Rightarrow> bytes \<Rightarrow> dnsheader_t" where
  "at_wire x bs = x\<lparr>packet := bs @ replicate (PACKET_ASSEMBLYSIZE - length bs) 0, here := length bs\<rparr>"

lemma at_wire_simps [simp]:
  "here (at_wire x bs) = length bs" "rdata (at_wire x bs) = rdata x" "hd_u (at_wire x bs) = hd_u x"
  "nscount (at_wire x bs) = nscount x" "ancount (at_wire x bs) = ancount x"
  "qdcount (at_wire x bs) = qdcount x" "arcount (at_wire x bs) = arcount x"
  "packet (at_wire x bs) = bs @ replicate (PACKET_ASSEMBLYSIZE - length bs) 0"
  "(at_wire x bs)\<lparr>rdata := r\<rparr> = at_wire (x\<lparr>rdata := r\<rparr>) bs"
  "(at_wire x bs)\<lparr>ancount := c\<rparr> = at_wire (x\<lparr>ancount := c\<rparr>) bs"
  "(at_wire x bs)\<lparr>nscount := c\<rparr> = at_wire (x\<lparr>nscount := c\<rparr>) bs"
  "(at_wire x bs)\<lparr>hd_u := u\<rparr> = at_wire (x\<lparr>hd_u := u\<rparr>) bs"
  by (simp_all add: at_wire_def)

lemma emit_wire:
  "length bs + length cs \<le> PACKET_ASSEMBLYSIZE \<Longrightarrow> emit cs (at_wire x bs) = Some (at_wire x (bs @ cs))"
  by (simp add: emit_def blit_def at_wire_def)

function name_wire :: "bytes \<Rightarrow> bytes" where
  "name_wire name =
     (let lab = takeWhile (\<lambda>c. c \<noteq> 46) name; rest = dropWhile (\<lambda>c. c \<noteq> 46) name in
      if lab = [] then [] else ((of_nat (length lab) AND 0x3F) # lab) @ name_wire (drop 1 rest))"
  by pat_completeness auto
termination
proof (relation "measure length", goal_cases)
  case 1
  show ?case by simp
next
  case (2 name lab rest)
  have "length lab + length rest = length name"
    unfolding 2(1,2) by (metis length_append takeWhile_dropWhile_id)
  then show ?case using 2(3) by (cases lab) auto
qed

declare name_wire.simps [simp del]

lemma name_wire_Nil [simp]: "name_wire [] = []"
  by (subst name_wire.simps) simp

lemma name_wire_label:
  "takeWhile (\<lambda>c. c \<noteq> 46) name \<noteq> [] \<Longrightarrow>
     name_wire name = ((of_nat (length (takeWhile (\<lambda>c. c \<noteq> 46) name)) AND 0x3F) # takeWhile (\<lambda>c. c \<noteq> 46) name) @
       name_wire (drop 1 (dropWhile (\<lambda>c. c \<noteq> 46) name))"
  by (subst name_wire.simps) (simp add: Let_def)

lemma length_name_wire: "length (name_wire nm) \<le> length nm + 1"
proof (induction nm rule: name_wire.induct)
  case (1 name)
  let ?lab = "takeWhile (\<lambda>c. c \<noteq> 46) name" and ?rest = "dropWhile (\<lambda>c. c \<noteq> 46) name"
  have sum: "length ?lab + length ?rest = length name" by (metis length_append takeWhile_dropWhile_id)
  show ?case
  proof (cases "?lab = []")
    case True
    then show ?thesis by (subst name_wire.simps) simp
  next
    case False
    have "length (name_wire (drop 1 ?rest)) \<le> length (drop 1 ?rest) + 1" by (rule 1 [OF refl refl False])
    then have "length (name_wire (drop 1 ?rest)) \<le> length ?rest"
    proof (cases "?rest = []")
      case True
      show ?thesis unfolding True by simp
    next
      case False
      then have "0 < length ?rest" by (rule length_greater_0_conv [THEN iffD2])
      then show ?thesis
        using \<open>length (name_wire (drop 1 ?rest)) \<le> length (drop 1 ?rest) + 1\<close> unfolding length_drop by linarith
    qed
    then show ?thesis using sum unfolding name_wire_label [OF False] by simp
  qed
qed

lemma compile_loop_wire:
  "length bs + length (name_wire nm) \<le> PACKET_ASSEMBLYSIZE \<Longrightarrow>
     compile_loop nm (at_wire x bs) = Some (at_wire x (bs @ name_wire nm))"
proof (induction nm arbitrary: bs rule: name_wire.induct)
  case (1 name)
  let ?lab = "takeWhile (\<lambda>c. c \<noteq> 46) name" and ?rest = "dropWhile (\<lambda>c. c \<noteq> 46) name"
  show ?case
  proof (cases "?lab = []")
    case True
    then show ?thesis by (subst compile_loop.simps, subst name_wire.simps) simp
  next
    case False
    let ?cs = "(of_nat (length ?lab) AND 0x3F) # ?lab"
    have w: "name_wire name = ?cs @ name_wire (drop 1 ?rest)" by (rule name_wire_label [OF False])
    have "emit ?cs (at_wire x bs) = Some (at_wire x (bs @ ?cs))"
      using 1(2) w by (intro emit_wire) simp
    then have "compile_loop name (at_wire x bs) = compile_loop (drop 1 ?rest) (at_wire x (bs @ ?cs))"
      using False by (subst compile_loop.simps) (simp add: Let_def)
    also have "\<dots> = Some (at_wire x ((bs @ ?cs) @ name_wire (drop 1 ?rest)))"
      using 1(2) w by (intro 1(1) [OF refl refl False]) simp
    finally show ?thesis using w by simp
  qed
qed

lemma compile_name_wire:
  "length bs + length (name_wire nm) + 1 \<le> PACKET_ASSEMBLYSIZE \<Longrightarrow>
     compile_name (at_wire x bs) nm = Some (length bs, at_wire x (bs @ name_wire nm @ [0]))"
  by (simp add: compile_name_def compile_loop_wire emit_wire Let_def)

lemma compile_head_wire:
  "length bs + 10 \<le> PACKET_ASSEMBLYSIZE \<Longrightarrow>
     compile_head (at_wire x bs) ty =
       Some (at_wire (x\<lparr>rdata := Some (length bs + 8)\<rparr>)
              (bs @ be16 ty @ be16 DNS_CLASS_INET @ be32 DEFAULT_TTL @ be16 0))"
  by (simp add: compile_head_def compile_int_def compile_long_def start_rdata_def emit_wire)

lemma poke16_middle: "poke16 (xs @ [a, b] @ ys) (length xs) v = Some (xs @ be16 v @ ys)"
  by (simp add: poke16_def be16_def poke_def nth_append list_update_append)

lemma end_rdata_wire:
  assumes "rdata x = Some (length pre)" and "length (pre @ [a, b] @ body) \<le> PACKET_ASSEMBLYSIZE"
  shows "end_rdata (at_wire x (pre @ [a, b] @ body)) =
    Some (at_wire (x\<lparr>rdata := None\<rparr>) (pre @ be16 (of_nat (length body)) @ body))"
proof -
  have "(of_nat (length pre + 2 + length body) - of_nat (length pre + 2) :: u16) = of_nat (length body)"
    by (simp add: of_nat_add)
  moreover have "length (pre @ [a, b] @ body) = length pre + 2 + length body" by simp
  ultimately show ?thesis
    using poke16_middle [of pre a b "body @ replicate (PACKET_ASSEMBLYSIZE - length (pre @ [a, b] @ body)) 0"
        "of_nat (length body)"] assms(1)
    by (simp add: end_rdata_def at_wire_def)
qed

lemma end_rdata_none: "rdata x = None \<Longrightarrow> end_rdata x = Some x"
  by (simp add: end_rdata_def)

lemma end_assembly_wire:
  assumes "rdata x = None" and "length (h @ bs) \<le> PACKET_ASSEMBLYSIZE" and "length h = 12"
  shows "\<exists>y. end_assembly (at_wire x (h @ bs)) = Some y \<and> plen y = 12 + length bs \<and>
    packet y = take 2 h @ be16 (hd_u x) @ be16 (qdcount x) @ be16 (ancount x) @ be16 (nscount x) @
      be16 (arcount x) @ bs @ replicate (PACKET_ASSEMBLYSIZE - (12 + length bs)) 0"
proof -
  obtain h0 h1 h2 h3 h4 h5 h6 h7 h8 h9 h10 h11 where h: "h = [h0, h1, h2, h3, h4, h5, h6, h7, h8, h9, h10, h11]"
    using assms(3) by (auto simp: length_Suc_conv numeral_eq_Suc)
  show ?thesis
    using assms(1,2) by (simp add: end_assembly_def end_rdata_none h poke16_def poke_def be16_def)
qed

definition asm_header :: dnsheader_t where
  "asm_header = \<lparr>hd_id = 0, hd_u = 0x8000, qdcount = 1, ancount = 0, nscount = 0, arcount = 0,
     here = 0, packet = [], plen = 0, rdata = None\<rparr>"

definition question_wire :: "rr_t \<Rightarrow> bytes \<Rightarrow> bytes" where
  "question_wire q nm = name_wire nm @ [0] @ be16 (rr_type q) @ be16 (rr_class q)"

lemma length_question_wire: "length (question_wire q nm) \<le> length nm + 6"
  using length_name_wire [of nm] by (simp add: question_wire_def)

lemma begin_assembly_wire:
  assumes "cstr (rr_name q) = Some nm" and "length nm \<le> 255"
  shows "begin_assembly q = Some (at_wire asm_header (replicate 12 0 @ question_wire q nm))"
proof -
  have x0: "\<lparr>hd_id = 0, hd_u = SET_QR 0 1, qdcount = 1, ancount = 0, nscount = 0, arcount = 0,
      here = PACKET_DATABEGIN, packet = replicate PACKET_ASSEMBLYSIZE 0, plen = 0, rdata = None\<rparr> =
      at_wire asm_header (replicate 12 0)"
    by (simp add: at_wire_def asm_header_def PACKET_DATABEGIN_def PACKET_ASSEMBLYSIZE_def SET_QR_def
        MASK_QR_def replicate_add [symmetric])
  have l: "length (name_wire nm) \<le> 256" using length_name_wire [of nm] assms(2) by simp
  show ?thesis
    unfolding begin_assembly_def x0 using assms(1) l
    by (simp add: compile_name_wire compile_int_def emit_wire PACKET_ASSEMBLYSIZE_def question_wire_def)
qed

lemma put_answer_eq:
  assumes "plen y \<le> length msg" and "2 \<le> plen y" and "plen y \<le> length (packet y)"
  shows "put_answer msg y = Some (int (plen y), take 2 msg @ take (plen y - 2) (drop 2 (packet y)) @ drop (plen y) msg)"
proof -
  have "2 + length (take (plen y - 2) (drop 2 (packet y))) = plen y"
    using assms(2,3) unfolding length_take length_drop by linarith
  then show ?thesis using assms(1) unfolding put_answer_def blit_def by (simp only:) simp
qed

text \<open>An answer: the header fields, then the sections, behind the id of the question.\<close>

definition answer_wire :: "bytes \<Rightarrow> dnsheader_t \<Rightarrow> bytes \<Rightarrow> bytes" where
  "answer_wire msg x body = take 2 msg @ be16 (hd_u x) @ be16 (qdcount x) @ be16 (ancount x) @
     be16 (nscount x) @ be16 (arcount x) @ body @ drop (12 + length body) msg"

lemma finish_answer:
  assumes "rdata x = None" and "12 + length body \<le> length msg" and "12 + length body \<le> PACKET_ASSEMBLYSIZE"
  shows "end_assembly (at_wire x (replicate 12 0 @ body)) \<bind> put_answer msg =
    Some (int (12 + length body), answer_wire msg x body)"
proof -
  obtain y where y: "end_assembly (at_wire x (replicate 12 0 @ body)) = Some y" "plen y = 12 + length body"
    "packet y = take 2 (replicate 12 0) @ be16 (hd_u x) @ be16 (qdcount x) @ be16 (ancount x) @ be16 (nscount x) @
      be16 (arcount x) @ body @ replicate (PACKET_ASSEMBLYSIZE - (12 + length body)) 0"
    using end_assembly_wire [OF assms(1), of "replicate 12 0" body] assms(3) by auto
  have "put_answer msg y = Some (int (12 + length body), answer_wire msg x body)"
    using put_answer_eq [of y msg] y(2,3) assms(2) by (simp add: answer_wire_def)
  then show ?thesis using y(1) by simp
qed

definition rr_wire :: "bytes \<Rightarrow> u16 \<Rightarrow> bytes \<Rightarrow> bytes" where
  "rr_wire owner ty rd = owner @ be16 ty @ be16 DNS_CLASS_INET @ be32 DEFAULT_TTL @ be16 (of_nat (length rd)) @ rd"

lemma length_rr_wire [simp]: "length (rr_wire owner ty rd) = length owner + 10 + length rd"
  by (simp add: rr_wire_def)

text \<open>Type, class, TTL and the patched length of the data: the record is complete.\<close>

lemma record_wire:
  assumes "length bs + 10 + length rd \<le> PACKET_ASSEMBLYSIZE"
  shows "compile_head (at_wire x bs) ty =
      Some (at_wire (x\<lparr>rdata := Some (length bs + 8)\<rparr>) (bs @ be16 ty @ be16 DNS_CLASS_INET @ be32 DEFAULT_TTL @ be16 0))"
    and "end_rdata (at_wire (x\<lparr>rdata := Some (length bs + 8)\<rparr>)
        ((bs @ be16 ty @ be16 DNS_CLASS_INET @ be32 DEFAULT_TTL @ be16 0) @ rd)) =
      Some (at_wire (x\<lparr>rdata := None\<rparr>) (bs @ rr_wire [] ty rd))"
proof -
  show "compile_head (at_wire x bs) ty =
      Some (at_wire (x\<lparr>rdata := Some (length bs + 8)\<rparr>) (bs @ be16 ty @ be16 DNS_CLASS_INET @ be32 DEFAULT_TTL @ be16 0))"
    using assms by (intro compile_head_wire) simp
  have "be16 (0 :: u16) = [0, 0]" by (simp add: be16_def)
  then show "end_rdata (at_wire (x\<lparr>rdata := Some (length bs + 8)\<rparr>)
        ((bs @ be16 ty @ be16 DNS_CLASS_INET @ be32 DEFAULT_TTL @ be16 0) @ rd)) =
      Some (at_wire (x\<lparr>rdata := None\<rparr>) (bs @ rr_wire [] ty rd))"
    using end_rdata_wire [of "x\<lparr>rdata := Some (length bs + 8)\<rparr>" "bs @ be16 ty @ be16 DNS_CLASS_INET @ be32 DEFAULT_TTL" 0 0 rd] assms
    by (simp add: rr_wire_def)
qed

lemma answer_a_wire:
  fixes ip :: u32
  assumes nm: "cstr (rr_name q) = Some nm" "length nm \<le> 255"
    and none: "dns_lookup db nm (-1) = (None, k)" and msg: "UDP_MAXSIZE \<le> length msg"
  defines "body \<equiv> question_wire q nm @ rr_wire [0xC0, 0x0C] DNS_TYPE_A (be32 ip)"
  shows "answer_a db q nm ip msg =
    Some (int (12 + length body), answer_wire msg (asm_header\<lparr>ancount := 1\<rparr>) body)"
proof -
  let ?bs = "replicate 12 0 @ question_wire q nm @ [0xC0, 0x0C]"
  have l: "length (question_wire q nm) \<le> 261" using length_question_wire [of q nm] nm(2) by simp
  have sz: "length ?bs + 10 + length (be32 ip) \<le> PACKET_ASSEMBLYSIZE" using l by (simp add: PACKET_ASSEMBLYSIZE_def)
  have ns: "compile_dnsrecords db (at_wire asm_header xs) nm = Some (at_wire asm_header xs)" for xs
    unfolding compile_dnsrecords_def using none by (subst ns_loop.simps) (simp add: asm_header_def)
  have r: "asm_header\<lparr>rdata := None\<rparr> = asm_header" by (simp add: asm_header_def)
  have e: "emit (be32 ip) (at_wire (asm_header\<lparr>rdata := Some (length ?bs + 8)\<rparr>) (?bs @ be16 DNS_TYPE_A @ be16 DNS_CLASS_INET @ be32 DEFAULT_TTL @ be16 0)) =
     Some (at_wire (asm_header\<lparr>rdata := Some (length ?bs + 8)\<rparr>) ((?bs @ be16 DNS_TYPE_A @ be16 DNS_CLASS_INET @ be32 DEFAULT_TTL @ be16 0) @ be32 ip))"
    using sz by (intro emit_wire) simp
  have o: "compile_objectname (at_wire asm_header (replicate 12 0 @ question_wire q nm)) = Some (at_wire asm_header ?bs)"
    unfolding compile_objectname_def using l by (subst emit_wire) (simp_all add: PACKET_ASSEMBLYSIZE_def)
  have body: "?bs @ rr_wire [] DNS_TYPE_A (be32 ip) = replicate 12 0 @ body" by (simp add: body_def rr_wire_def)
  have "end_assembly (at_wire (asm_header\<lparr>ancount := 1\<rparr>) (replicate 12 0 @ body)) \<bind> put_answer msg =
      Some (int (12 + length body), answer_wire msg (asm_header\<lparr>ancount := 1\<rparr>) body)"
    using l msg by (intro finish_answer) (simp_all add: asm_header_def body_def UDP_MAXSIZE_def PACKET_ASSEMBLYSIZE_def)
  then show ?thesis
    unfolding answer_a_def begin_assembly_wire [OF nm] compile_long_def
    by (simp only: Option.bind_lunit o record_wire [OF sz] e r body ns at_wire_simps)
qed


subsection \<open>Compiled names decode\<close>

lemma low6: "n \<le> 63 \<Longrightarrow> (of_nat n :: byte) AND 0x3F = of_nat n"
proof -
  assume "n \<le> 63"
  then have "take_bit 6 n = n" by (intro take_bit_nat_eq_self) simp
  moreover have "(of_nat n :: byte) AND 0x3F = take_bit 6 (of_nat n)"
    unfolding take_bit_eq_mask by (simp add: mask_eq_exp_minus_1)
  ultimately show ?thesis by (simp add: take_bit_of_nat)
qed

lemma span_dot: "46 \<notin> set l \<Longrightarrow> takeWhile (\<lambda>c. c \<noteq> 46) (l @ 46 # r) = l \<and>
    dropWhile (\<lambda>c. c \<noteq> 46) (l @ 46 # r) = 46 # (r :: bytes)"
  by (induction l) auto

definition labels_ok :: "bytes list \<Rightarrow> bool" where
  "labels_ok ls \<longleftrightarrow> (\<forall>l \<in> set ls. l \<noteq> [] \<and> length l \<le> 63 \<and> 46 \<notin> set l)"

lemma name_wire_join: "labels_ok ls \<Longrightarrow> name_wire (join_dots ls) = encode_labels ls"
proof (induction ls)
  case Nil
  then show ?case by (simp add: join_dots_def)
next
  case (Cons l ls)
  have l: "l \<noteq> []" "length l \<le> 63" "46 \<notin> set l" and ls: "labels_ok ls" using Cons.prems by (auto simp: labels_ok_def)
  have tw: "takeWhile (\<lambda>c. c \<noteq> 46) l = l" "dropWhile (\<lambda>c. c \<noteq> 46) l = []" using l(3) by auto
  show ?case
  proof (cases "ls = []")
    case True
    then show ?thesis using name_wire_label [of l] tw l low6 [OF l(2)] by simp
  next
    case False
    have "takeWhile (\<lambda>c. c \<noteq> 46) (l @ 46 # join_dots ls) = l"
      "dropWhile (\<lambda>c. c \<noteq> 46) (l @ 46 # join_dots ls) = 46 # join_dots ls"
      using span_dot [OF l(3)] by blast+
    then show ?thesis
      using name_wire_label [of "l @ 46 # join_dots ls"] l low6 [OF l(2)] Cons.IH [OF ls] False
      by (simp add: join_dots_Cons)
  qed
qed

lemma name_at_encoded:
  assumes "labels_ok ls" and "msg = pre @ encode_labels ls @ 0 # post"
    and "length pre + length (encode_labels ls) < n"
  shows "name_at msg n (length pre) 0 ls (length pre + length (encode_labels ls) + 1)"
  using assms
proof (induction ls arbitrary: pre)
  case Nil
  then show ?case using name_root [of "length pre" n msg] by simp
next
  case (Cons l ls)
  have l: "l \<noteq> []" "length l \<le> 63" and ls: "labels_ok ls" using Cons.prems(1) by (auto simp: labels_ok_def)
  have m0: "msg ! length pre = of_nat (length l)" using Cons.prems(2) by (simp add: nth_append)
  have un: "unat (of_nat (length l) :: byte) = length l" using l(2) by (simp add: unat_of_nat)
  let ?p = "pre @ of_nat (length l) # l"
  have "name_at msg n (length ?p) 0 ls (length ?p + length (encode_labels ls) + 1)"
    using Cons.prems ls by (intro Cons.IH) simp_all
  moreover have "take (length l) (drop (length pre + 1) msg) = l" using Cons.prems(2) by simp
  moreover have "(of_nat (length l) :: byte) \<noteq> 0" using l(1) un by (metis length_0_conv unat_0)
  moreover have "(of_nat (length l) :: byte) < 64" using l(2) un by (simp add: word_less_nat_alt)
  moreover have "length pre + 1 + length l < n" using Cons.prems(3) by simp
  ultimately show ?case
    using name_label [of msg "length pre" n 0 ls "length ?p + length (encode_labels ls) + 1"] m0 un
    by (simp add: add.assoc)
qed

subsection \<open>Answers that fit\<close>

definition rec_cost :: "dnsrec_t \<Rightarrow> nat" where
  "rec_cost rec = (case r_data rec of
     DNS_DNS d \<Rightarrow> length (s_string (r_object rec)) + length (s_string d) + 14 | _ \<Rightarrow> 0)"

definition ns_budget :: "dnsrec_t list \<Rightarrow> int \<Rightarrow> nat" where
  "ns_budget db k = sum_list (map rec_cost (drop (nat (k + 1)) db))"

lemma dns_scan_Some:
  "dns_scan db name i = Some (j, rec) \<Longrightarrow> i \<le> j \<and> j < i + length db \<and> rec = db ! (j - i) \<and> (\<exists>d. r_data rec = DNS_DNS d)"
proof (induction db name i rule: dns_scan.induct)
  case (1 name i)
  then show ?case by simp
next
  case (2 r db name i)
  show ?case
  proof (cases "case r_data r of DNS_DNS _ \<Rightarrow> in_domain name (s_string (r_object r)) | _ \<Rightarrow> False")
    case True
    then show ?thesis using 2(2) by (auto split: dnsdata.splits)
  next
    case False
    then have "dns_scan db name (i + 1) = Some (j, rec)" using 2(2) by (simp only: dns_scan.simps if_False)
    then have f: "i + 1 \<le> j \<and> j < i + 1 + length db \<and> rec = db ! (j - (i + 1)) \<and> (\<exists>d. r_data rec = DNS_DNS d)"
      by (rule 2(1) [OF False])
    then have "j - i = Suc (j - (i + 1))" by (simp add: Suc_diff_Suc)
    then show ?thesis using f by auto
  qed
qed

lemma dns_lookup_Some:
  assumes "dns_lookup db name k = (Some rec, k')" and "-1 \<le> k"
  shows "k < k' \<and> (\<exists>d. r_data rec = DNS_DNS d) \<and> rec \<in> set db \<and> rec_cost rec + ns_budget db k' \<le> ns_budget db k"
proof -
  let ?s = "nat (k + 1)"
  have st: "nat (if k < 0 then 0 else k + 1) = ?s" using assms(2) by auto
  from assms(1) obtain j where j: "dns_scan (drop ?s db) name ?s = Some (j, rec)" "k' = int j"
    by (auto simp: dns_lookup_def Let_def st split: option.splits)
  from dns_scan_Some [OF j(1)] have f: "?s \<le> j" "j < ?s + length (drop ?s db)" "rec = drop ?s db ! (j - ?s)"
    "\<exists>d. r_data rec = DNS_DNS d" by auto
  then have r: "rec = db ! j" "j < length db" by auto
  have "drop ?s db = take (j - ?s) (drop ?s db) @ drop j db" using f(1) by (metis append_take_drop_id drop_drop le_add_diff_inverse2)
  moreover have "drop j db = rec # drop (j + 1) db" using r by (simp add: Cons_nth_drop_Suc)
  ultimately have "sum_list (map rec_cost (drop ?s db)) =
      sum_list (map rec_cost (take (j - ?s) (drop ?s db))) + (rec_cost rec + sum_list (map rec_cost (drop (j + 1) db)))"
    by (metis list.simps(9) map_append sum_list.Cons sum_list_append)
  moreover have "nat (k' + 1) = j + 1" using j(2) by simp
  ultimately show ?thesis using f r j(2) assms(2) by (auto simp: ns_budget_def)
qed

lemma ns_record_wire:
  assumes "r_data rec = DNS_DNS d" and "length bs + length (s_string d) + 12 \<le> PACKET_ASSEMBLYSIZE"
  shows "compile_head (at_wire x bs) ty \<bind> (\<lambda>x2. ns_rdata x2 rec) =
    Some (at_wire (x\<lparr>rdata := None\<rparr>) (bs @ rr_wire [] ty (name_wire (s_string d) @ [0])))"
proof -
  let ?rd = "name_wire (s_string d) @ [0]"
  have sz: "length bs + 10 + length ?rd \<le> PACKET_ASSEMBLYSIZE"
    using length_name_wire [of "s_string d"] assms(2) by simp
  let ?bs = "bs @ be16 ty @ be16 DNS_CLASS_INET @ be32 DEFAULT_TTL @ be16 0"
  let ?x = "x\<lparr>rdata := Some (length bs + 8)\<rparr>"
  have "compile_name (at_wire ?x ?bs) (s_string d) = Some (length ?bs, at_wire ?x (?bs @ ?rd))"
    using sz by (intro compile_name_wire) simp
  then show ?thesis
    using record_wire [OF sz, of x ty] assms(1) unfolding ns_rdata_def by (simp only: Option.bind_lunit dnsdata.case case_prod_conv)
qed

lemma ns_loop_safe:
  assumes "-1 \<le> k" and "rdata x = None" and "length bs + ns_budget db k \<le> PACKET_ASSEMBLYSIZE"
  shows "\<exists>x' bs'. ns_loop db ob k pos (at_wire x bs) = Some (at_wire x' (bs @ bs')) \<and> rdata x' = None \<and>
    length bs' \<le> ns_budget db k \<and> ancount x' = ancount x \<and> qdcount x' = qdcount x"
  using assms
proof (induction "nat (int (length db) - k)" arbitrary: k pos x bs rule: less_induct)
  case less
  show ?case
  proof (cases "dns_lookup db ob k")
    case (Pair r k')
    show ?thesis
    proof (cases r)
      case None
      then show ?thesis using Pair less.prems
        by (subst ns_loop.simps) (auto intro!: exI [of _ x] exI [of _ "[]"])
    next
      case (Some rec)
      obtain d where d: "r_data rec = DNS_DNS d" and kk: "k < k'"
        and cost: "rec_cost rec + ns_budget db k' \<le> ns_budget db k"
        using dns_lookup_Some [of db ob k rec k'] Pair Some less.prems(1) by auto
      have rc: "rec_cost rec = length (s_string (r_object rec)) + length (s_string d) + 14" using d by (simp add: rec_cost_def)
      have kl: "k' < int (length db)" using dns_lookup_progress [of db ob k rec k'] Pair Some less.prems(1) kk by auto
      define ow where "ow = (if pos = 0 then name_wire (s_string (r_object rec)) @ [0] else [0xC0, of_nat pos AND 0x3F])"
      have lo: "length ow \<le> length (s_string (r_object rec)) + 2"
        using length_name_wire [of "s_string (r_object rec)"] by (simp add: ow_def)
      have own: "\<exists>pos'. (if pos = 0 then compile_name (at_wire x bs) (s_string (r_object rec))
          else map_option (\<lambda>x'. (pos, x')) (compile_namepointer (at_wire x bs) pos)) = Some (pos', at_wire x (bs @ ow))"
        using lo cost rc less.prems(3) compile_name_wire [of bs "s_string (r_object rec)" x]
        by (auto simp: ow_def compile_namepointer_def emit_wire)
      then obtain pos' where own: "(if pos = 0 then compile_name (at_wire x bs) (s_string (r_object rec))
          else map_option (\<lambda>x'. (pos, x')) (compile_namepointer (at_wire x bs) pos)) = Some (pos', at_wire x (bs @ ow))" ..
      let ?w = "rr_wire [] DNS_TYPE_NS (name_wire (s_string d) @ [0])"
      have rr: "compile_head (at_wire x (bs @ ow)) DNS_TYPE_NS \<bind> (\<lambda>x2. ns_rdata x2 rec) =
          Some (at_wire (x\<lparr>rdata := None\<rparr>) ((bs @ ow) @ ?w))"
        using lo cost rc less.prems(3) by (intro ns_record_wire [OF d]) simp
      let ?x = "x\<lparr>rdata := None, nscount := nscount x + 1\<rparr>"
      have step: "ns_loop db ob k pos (at_wire x bs) = ns_loop db ob k' pos' (at_wire ?x ((bs @ ow) @ ?w))"
        using Pair Some own rr by (subst ns_loop.simps) (simp del: append_assoc)
      have lw: "length ?w \<le> length (s_string d) + 12" using length_name_wire [of "s_string d"] by simp
      have "\<exists>x' bs'. ns_loop db ob k' pos' (at_wire ?x ((bs @ ow) @ ?w)) = Some (at_wire x' (((bs @ ow) @ ?w) @ bs')) \<and>
          rdata x' = None \<and> length bs' \<le> ns_budget db k' \<and> ancount x' = ancount ?x \<and> qdcount x' = qdcount ?x"
        using kk kl less.prems cost rc lo lw by (intro less.hyps) auto
      then obtain x' bs' where x': "ns_loop db ob k' pos' (at_wire ?x ((bs @ ow) @ ?w)) = Some (at_wire x' (((bs @ ow) @ ?w) @ bs'))"
        "rdata x' = None" "length bs' \<le> ns_budget db k'" "ancount x' = ancount x" "qdcount x' = qdcount x" by auto
      have "length (ow @ ?w @ bs') \<le> ns_budget db k" using x'(3) cost rc lo lw by simp
      then show ?thesis using step x' by (auto intro!: exI [of _ x'] exI [of _ "ow @ ?w @ bs'"])
    qed
  qed
qed

lemma compile_dnsrecords_safe:
  assumes "rdata x = None" and "length bs + ns_budget db (-1) \<le> PACKET_ASSEMBLYSIZE"
  shows "\<exists>x' bs'. compile_dnsrecords db (at_wire x bs) ob = Some (at_wire x' (bs @ bs')) \<and> rdata x' = None \<and>
    length bs' \<le> ns_budget db (-1)"
proof -
  obtain x' bs' where "ns_loop db ob (-1) 0 (at_wire x bs) = Some (at_wire x' (bs @ bs'))" "rdata x' = None"
    "length bs' \<le> ns_budget db (-1)"
    using ns_loop_safe [of "-1" x bs db ob 0] assms by auto
  then show ?thesis
    by (intro exI [of _ "if 0 < sint (nscount x') then x'\<lparr>hd_u := SET_AA (hd_u x') 1\<rparr> else x'"] exI [of _ bs'])
       (simp add: compile_dnsrecords_def)
qed

definition pending_cost :: "dnsrec_t list \<Rightarrow> dnsrec_t option \<times> int \<Rightarrow> nat" where
  "pending_cost db r = (case r of (None, k) \<Rightarrow> 0 | (Some rec, k) \<Rightarrow> rec_cost rec + ns_budget db k)"

lemma ns_answers_safe:
  assumes "-1 \<le> k" and "rdata x = None" and "ro = None \<or> (\<exists>rec d. ro = Some rec \<and> r_data rec = DNS_DNS d)"
    and "length bs + pending_cost db (ro, k) \<le> PACKET_ASSEMBLYSIZE"
  shows "\<exists>x' bs'. ns_answers db nm (ro, k) (at_wire x bs) = Some (at_wire x' (bs @ bs')) \<and> rdata x' = None \<and>
    length bs' \<le> pending_cost db (ro, k)"
  using assms
proof (induction "case ro of None \<Rightarrow> 0 | Some _ \<Rightarrow> Suc (nat (int (length db) - k))" arbitrary: ro k x bs rule: less_induct)
  case less
  show ?case
  proof (cases ro)
    case None
    then show ?thesis using less.prems(2) by (subst ns_answers.simps) (auto intro!: exI [of _ x] exI [of _ "[]"])
  next
    case (Some rec)
    then obtain d where d: "r_data rec = DNS_DNS d" using less.prems(3) by auto
    have rc: "rec_cost rec = length (s_string (r_object rec)) + length (s_string d) + 14" using d by (simp add: rec_cost_def)
    have pc: "pending_cost db (ro, k) = rec_cost rec + ns_budget db k" by (simp add: pending_cost_def Some)
    let ?w = "rr_wire [] DNS_TYPE_NS (name_wire (s_string d) @ [0])"
    let ?b = "(bs @ [0xC0, 0x0C]) @ ?w"
    let ?x = "x\<lparr>rdata := None, ancount := ancount x + 1\<rparr>"
    have o: "compile_objectname (at_wire x bs) = Some (at_wire x (bs @ [0xC0, 0x0C]))"
      unfolding compile_objectname_def using less.prems(4) pc rc by (intro emit_wire) simp
    have r: "compile_head (at_wire x (bs @ [0xC0, 0x0C])) DNS_TYPE_NS \<bind> (\<lambda>x2. ns_rdata x2 rec) =
        Some (at_wire (x\<lparr>rdata := None\<rparr>) ?b)"
      using less.prems(4) pc rc by (intro ns_record_wire [OF d]) simp
    have step: "ns_answers db nm (ro, k) (at_wire x bs) = ns_answers db nm (dns_lookup db nm k) (at_wire ?x ?b)"
      unfolding Some using o r by (subst ns_answers.simps) (simp del: append_assoc)
    have lw: "length ?w \<le> length (s_string d) + 12" using length_name_wire [of "s_string d"] by simp
    obtain r' k' where rk: "dns_lookup db nm k = (r', k')" by (cases "dns_lookup db nm k")
    have k': "-1 \<le> k'"
      using rk less.prems(1) by (auto simp: dns_lookup_def Let_def split: option.splits if_splits)
    have nx: "r' = None \<or> (\<exists>rec d. r' = Some rec \<and> r_data rec = DNS_DNS d)"
      using dns_lookup_Some [of db nm k _ k'] rk less.prems(1) by (cases r') auto
    have pc': "pending_cost db (r', k') \<le> ns_budget db k"
      using dns_lookup_Some [of db nm k _ k'] rk less.prems(1) by (cases r') (auto simp: pending_cost_def)
    have dec: "(case r' of None \<Rightarrow> 0 | Some _ \<Rightarrow> Suc (nat (int (length db) - k'))) < (case ro of None \<Rightarrow> 0 | Some _ \<Rightarrow> Suc (nat (int (length db) - k)))"
      using dns_lookup_Some [of db nm k _ k'] dns_lookup_progress [of db nm k _ k'] rk less.prems(1)
      by (cases r') (auto simp: Some)
    have "\<exists>x' bs'. ns_answers db nm (r', k') (at_wire ?x ?b) = Some (at_wire x' (?b @ bs')) \<and> rdata x' = None \<and>
        length bs' \<le> pending_cost db (r', k')"
      using less.prems(4) pc pc' rc lw by (intro less.hyps [OF dec k' _ nx]) simp_all
    then obtain x' bs' where x': "ns_answers db nm (r', k') (at_wire ?x ?b) = Some (at_wire x' (?b @ bs'))" "rdata x' = None"
        "length bs' \<le> pending_cost db (r', k')" by blast
    have "length ([0xC0, 0x0C] @ ?w @ bs') \<le> pending_cost db (ro, k)" using x'(3) pc pc' rc lw by simp
    then show ?thesis using step rk x' by (auto intro!: exI [of _ x'] exI [of _ "[0xC0, 0x0C] @ ?w @ bs'"])
  qed
qed

text \<open>A database whose answers fit into a UDP packet, whatever is asked.\<close>

definition db_fits :: "dnsrec_t list \<Rightarrow> bool" where
  "db_fits db \<longleftrightarrow> ns_budget db (-1) \<le> 220 \<and>
     (\<forall>rec \<in> set db. length (s_string (r_object rec)) + ns_budget db (-1) \<le> 220)"

definition answer_fits :: "bytes \<Rightarrow> (int \<times> bytes) option \<Rightarrow> bool" where
  "answer_fits msg r \<longleftrightarrow> (case r of None \<Rightarrow> False
     | Some (n, msg') \<Rightarrow> 0 \<le> n \<and> n \<le> int UDP_MAXSIZE \<and> length msg' = length msg \<and> take 2 msg' = take 2 msg)"

lemma answer_fits_none [simp]: "answer_fits msg (Some (0, msg))"
  by (simp add: answer_fits_def)

lemma answer_fits_wire:
  assumes "rdata x = None" and "12 + length body \<le> UDP_MAXSIZE" and "UDP_MAXSIZE \<le> length msg"
  shows "answer_fits msg (end_assembly (at_wire x (replicate 12 0 @ body)) \<bind> put_answer msg)"
  using finish_answer [OF assms(1), of body msg] assms(2,3)
  by (simp add: answer_fits_def answer_wire_def UDP_MAXSIZE_def PACKET_ASSEMBLYSIZE_def)

lemma asm_header_rdata [simp]: "rdata asm_header = None"
  by (simp add: asm_header_def)

text \<open>What a fitting answer needs: the parsed question, a database that fits, the UDP buffer.\<close>

definition answerable :: "rr_t \<Rightarrow> bytes \<Rightarrow> dnsrec_t list \<Rightarrow> bytes \<Rightarrow> bool" where
  "answerable q nm db msg \<longleftrightarrow> cstr (rr_name q) = Some nm \<and> length nm \<le> 255 \<and> db_fits db \<and> UDP_MAXSIZE \<le> length msg"

lemma answerableD:
  assumes "answerable q nm db msg"
  shows "begin_assembly q = Some (at_wire asm_header (replicate 12 0 @ question_wire q nm))"
    and "length (question_wire q nm) \<le> 261" and "UDP_MAXSIZE \<le> length msg" and "ns_budget db (-1) \<le> 220"
    and "rec \<in> set db \<Longrightarrow> length (s_string (r_object rec)) + ns_budget db (-1) \<le> 220"
  using assms begin_assembly_wire [of q nm] length_question_wire [of q nm]
  by (auto simp: answerable_def db_fits_def)

lemma answer_authority_fits:
  assumes "answerable q nm db msg"
  shows "answer_fits msg (answer_authority db q nm msg)"
proof -
  note A = answerableD [OF assms]
  have "answer_fits msg (begin_assembly q \<bind> (\<lambda>x. end_assembly (x\<lparr>ancount := 0, hd_u := SET_AA (hd_u x) 1\<rparr>) \<bind> put_answer msg))"
    unfolding A(1) using A(2,3)
    by (simp only: Option.bind_lunit at_wire_simps) (rule answer_fits_wire; simp add: UDP_MAXSIZE_def)
  then show ?thesis by (simp add: answer_authority_def split: list.split)
qed

text \<open>The tail common to the PTR and the A answer: behind the answer record come the NS records.\<close>

lemma answer_tail_fits:
  assumes A: "answerable q nm db msg" and "rdata x = None"
    and "length body + ns_budget db (-1) \<le> UDP_MAXSIZE - 12"
  shows "answer_fits msg (compile_dnsrecords db (at_wire x (replicate 12 0 @ body)) nm \<bind>
    (\<lambda>x5. end_assembly (x5\<lparr>ancount := 1\<rparr>) \<bind> put_answer msg))"
proof -
  obtain x' bs' where "compile_dnsrecords db (at_wire x (replicate 12 0 @ body)) nm = Some (at_wire x' ((replicate 12 0 @ body) @ bs'))"
    "rdata x' = None" "length bs' \<le> ns_budget db (-1)"
    using compile_dnsrecords_safe [OF assms(2), of "replicate 12 0 @ body" db nm] assms(3)
    by (auto simp: UDP_MAXSIZE_def PACKET_ASSEMBLYSIZE_def)
  moreover have "answer_fits msg (end_assembly (at_wire (x'\<lparr>ancount := 1\<rparr>) (replicate 12 0 @ (body @ bs'))) \<bind> put_answer msg)"
    using calculation(2,3) assms(3) answerableD(3) [OF A] by (intro answer_fits_wire) (simp_all add: UDP_MAXSIZE_def)
  ultimately show ?thesis by simp
qed

lemma objectname_wire:
  "length bs + 2 \<le> PACKET_ASSEMBLYSIZE \<Longrightarrow> compile_objectname (at_wire x bs) = Some (at_wire x (bs @ [0xC0, 0x0C]))"
  unfolding compile_objectname_def by (rule emit_wire) simp

lemma answer_ptr_fits:
  assumes A: "answerable q nm db msg" and rec: "rec \<in> set db"
  shows "answer_fits msg (answer_ptr db q nm rec msg)"
proof -
  note F = answerableD [OF A] answerableD(5) [OF A rec]
  let ?bs = "(replicate 12 0 @ question_wire q nm) @ [0xC0, 0x0C]" and ?o = "s_string (r_object rec)"
  let ?rd = "name_wire ?o @ [0]"
  let ?h = "?bs @ be16 DNS_TYPE_PTR @ be16 DNS_CLASS_INET @ be32 DEFAULT_TTL @ be16 0"
  let ?x = "asm_header\<lparr>rdata := Some (length ?bs + 8)\<rparr>"
  have lo: "length ?rd \<le> length ?o + 2" using length_name_wire [of ?o] by simp
  have sz: "length ?bs + 10 + length ?rd \<le> PACKET_ASSEMBLYSIZE" using lo F by (simp add: PACKET_ASSEMBLYSIZE_def)
  have o: "compile_objectname (at_wire asm_header (replicate 12 0 @ question_wire q nm)) = Some (at_wire asm_header ?bs)"
    using sz by (intro objectname_wire) simp
  have n: "compile_name (at_wire ?x ?h) ?o = Some (length ?h, at_wire ?x (?h @ ?rd))"
    using sz by (intro compile_name_wire) simp
  have b: "?bs @ rr_wire [] DNS_TYPE_PTR ?rd = replicate 12 0 @ (question_wire q nm @ rr_wire [0xC0, 0x0C] DNS_TYPE_PTR ?rd)"
    by (simp add: rr_wire_def)
  show ?thesis
    unfolding answer_ptr_def F(1)
    by (simp only: Option.bind_lunit o record_wire [OF sz] n case_prod_conv b)
       (rule answer_tail_fits [OF A]; use F lo in \<open>simp add: UDP_MAXSIZE_def\<close>)
qed

lemma answer_a_fits:
  assumes A: "answerable q nm db msg"
  shows "answer_fits msg (answer_a db q nm ip msg)"
proof -
  note F = answerableD [OF A]
  let ?bs = "(replicate 12 0 @ question_wire q nm) @ [0xC0, 0x0C]"
  let ?h = "?bs @ be16 DNS_TYPE_A @ be16 DNS_CLASS_INET @ be32 DEFAULT_TTL @ be16 0"
  let ?x = "asm_header\<lparr>rdata := Some (length ?bs + 8)\<rparr>"
  have sz: "length ?bs + 10 + length (be32 ip) \<le> PACKET_ASSEMBLYSIZE" using F by (simp add: PACKET_ASSEMBLYSIZE_def)
  have o: "compile_objectname (at_wire asm_header (replicate 12 0 @ question_wire q nm)) = Some (at_wire asm_header ?bs)"
    using sz by (intro objectname_wire) simp
  have n: "compile_long (at_wire ?x ?h) ip = Some (at_wire ?x (?h @ be32 ip))"
    unfolding compile_long_def using sz by (intro emit_wire) simp
  have b: "?bs @ rr_wire [] DNS_TYPE_A (be32 ip) = replicate 12 0 @ (question_wire q nm @ rr_wire [0xC0, 0x0C] DNS_TYPE_A (be32 ip))"
    by (simp add: rr_wire_def)
  show ?thesis
    unfolding answer_a_def F(1)
    by (simp only: Option.bind_lunit o record_wire [OF sz] n b)
       (rule answer_tail_fits [OF A]; use F in \<open>simp add: UDP_MAXSIZE_def\<close>)
qed

lemma answer_ns_fits:
  assumes A: "answerable q nm db msg" and r: "dns_lookup db nm (-1) = (Some rec, k)"
  shows "answer_fits msg (answer_ns db q nm (Some rec, k) msg)"
proof -
  note F = answerableD [OF A]
  obtain d where d: "r_data rec = DNS_DNS d" "-1 < k" "rec_cost rec + ns_budget db k \<le> ns_budget db (-1)"
    using dns_lookup_Some [OF r] by auto
  have pc: "pending_cost db (Some rec, k) \<le> ns_budget db (-1)" using d(3) by (simp add: pending_cost_def)
  obtain x' bs' where x': "ns_answers db nm (Some rec, k) (at_wire asm_header (replicate 12 0 @ question_wire q nm)) =
      Some (at_wire x' ((replicate 12 0 @ question_wire q nm) @ bs'))" "rdata x' = None"
    "length bs' \<le> pending_cost db (Some rec, k)"
    using ns_answers_safe [of k asm_header "Some rec" "replicate 12 0 @ question_wire q nm" db nm] d F pc
    by (auto simp: PACKET_ASSEMBLYSIZE_def)
  have "answer_fits msg (end_assembly (at_wire (x'\<lparr>hd_u := SET_AA (hd_u x') 1\<rparr>) (replicate 12 0 @ (question_wire q nm @ bs'))) \<bind> put_answer msg)"
    using x'(2,3) F pc by (intro answer_fits_wire) (simp_all add: UDP_MAXSIZE_def)
  then show ?thesis unfolding answer_ns_def F(1) by (simp add: x'(1))
qed

lemma master_answer_fits:
  assumes A: "answerable q nm db msg"
  shows "answer_fits msg (master_answer db q msg)"
proof -
  have nm: "cstr (rr_name q) = Some nm" using A by (simp add: answerable_def)
  have p: "rec \<in> set db" if "ptr_lookup db s = Some rec" for s rec
    using that by (auto simp: ptr_lookup_def Let_def find_Some_iff)
  have a: "\<exists>arpa ip. r_data rec = DNS_NAMEIP arpa ip" if "name_lookup db nm = Some rec" for rec
  proof -
    have "is_nameip (r_data rec)" using that by (auto simp: name_lookup_def Let_def find_Some_iff)
    then show ?thesis by (cases "r_data rec") auto
  qed
  show ?thesis
    unfolding master_answer_def nm
    using answer_authority_fits [OF A] answer_ptr_fits [OF A p] answer_a_fits [OF A] answer_ns_fits [OF A] a
    by (cases "dns_lookup db nm (-1)") (fastforce simp: Let_def split: option.split)
qed

lemma master_lookup_total:
  assumes init: "master_initialised st" and fit: "db_fits (dbv st)"
    and len: "12 \<le> len" "len \<le> length msg" "UDP_MAXSIZE \<le> length msg"
    and y0: "length (rr_name y0) = RR_NAMESIZE" "(\<exists>h e. name_at msg len PACKET_DATABEGIN h [] e) \<longrightarrow> 0 \<in> set (rr_name y0)"
  shows "\<exists>n msg'. master_lookup e vc y0 msg len st = Some (n, msg', st) \<and> 0 \<le> n \<and> n \<le> int UDP_MAXSIZE \<and>
    length msg' = length msg \<and> take 2 msg' = take 2 msg"
proof -
  obtain r q where pq: "parse_query vc y0 msg len = Some (r, q)" "length (rr_name q) = RR_NAMESIZE" "r = 0 \<or> r = -1"
    using parse_query_total [OF len(1,2) y0] by blast
  show ?thesis
  proof (cases "\<not> master_onoff st \<or> r \<noteq> 0 \<or> rr_class q \<noteq> DNS_CLASS_INET \<or> GET_OPCODE (rr_flags q) \<noteq> 0")
    case True
    then show ?thesis using pq init by (auto simp: master_lookup_def Let_def)
  next
    case False
    then have "0 \<in> set (rr_name q)"
      using pq(1) by (auto simp: parse_query_def normalise_name_def option_bind_eq_Some_iff Let_def split: if_splits)
    then obtain nm where nm: "cstr (rr_name q) = Some nm" by (auto simp: cstr_def)
    moreover have "length nm \<le> 255" using cstr_length [OF nm] pq(2) by (simp add: RR_NAMESIZE_def)
    ultimately have "answer_fits msg (master_answer (dbv st) q msg)"
      using fit len(3) by (intro master_answer_fits) (simp add: answerable_def)
    then show ?thesis
      using False pq(1) init by (auto simp: master_lookup_def Let_def answer_fits_def split: option.splits)
  qed
qed



subsection \<open>Correctness of the master\<close>

text \<open>C28. master\_lookup never reads or writes outside its 600-byte assembly buffer, its question or the
  message, on any packet of at least 12 bytes in a buffer of at least 512, as long as the names of the
  database are moderate in total (its NS records and any one name together at most 220 bytes) and, when the
  question names the root, the uninitialised name buffer of the question holds a NUL byte (for
  any other question its content does not matter).  It returns, keeps the id of the question and returns a
  length that fits a UDP packet.  The assembly itself has no check for this.\<close>

theorem master_lookup_memory_safe:
  assumes "master_initialised st" and "db_fits (dbv st)" and "12 \<le> len" and "len \<le> length msg"
    and "UDP_MAXSIZE \<le> length msg" and "length (rr_name y0) = RR_NAMESIZE"
    and "(\<exists>h e. name_at msg len PACKET_DATABEGIN h [] e) \<longrightarrow> 0 \<in> set (rr_name y0)"
  shows "\<exists>n msg'. master_lookup e vc y0 msg len st = Some (n, msg', st) \<and> 0 \<le> n \<and> n \<le> int UDP_MAXSIZE \<and>
    length msg' = length msg \<and> take 2 msg' = take 2 msg"
  by (rule master_lookup_total [OF assms])

definition demo_env :: master_env where
  "demo_env = \<lparr>me_inet_aton = (\<lambda>s. if s = bytes_of ''127.0.0.1'' then Some 0x7F000001 else None),
     me_files = (\<lambda>f. if f = bytes_of ''blacklist'' then Some (bytes_of ''ads.Foo.com'' @ [13, 10]) else None),
     me_stack = [], me_config = bytes_of ''master'', me_blacklist = bytes_of ''blacklist''\<rparr>"

definition demo_master :: master_state where
  "demo_master = run_master_init demo_env master_start"

definition query_packet :: "bytes \<Rightarrow> bytes" where
  "query_packet name = [0x12, 0x34, 1, 0, 0, 1, 0, 0, 0, 0, 0, 0] @ name @ [0, 0, 1, 0, 1] @ replicate (495 - length name) 0"

definition ask :: "bytes \<Rightarrow> nat \<Rightarrow> rr_t" where
  "ask name len = snd (the (parse_query (init_dns 1) blank_rr (query_packet name) len))"

lemma demo_master_init: "master_initialised demo_master" "db_fits (dbv demo_master)" "master_onoff demo_master"
  by code_simp+

theorem master_lookup_memory_safe_witness:
  "\<exists>n msg'. master_lookup demo_env (init_dns 1) blank_rr (replicate 512 7) 100 demo_master = Some (n, msg', demo_master) \<and>
     n \<le> 512 \<and> length msg' = 512"
  using master_lookup_memory_safe [OF demo_master_init(1,2), of 100 "replicate 512 7" blank_rr demo_env "init_dns 1"]
  by (auto simp: UDP_MAXSIZE_def RR_NAMESIZE_def blank_rr_def)

text \<open>A question for the address of a name in the database whose domain has no NS record there is
  answered with exactly one A record: the response bit set, the question repeated, the owner as a pointer to the question,
  class IN, the default TTL of an hour and the four bytes of the address.\<close>

theorem master_answers_address:
  assumes "master_onoff st" and "master_initialised st"
    and "parse_query vc y0 msg len = Some (0, q)" and "rr_class q = DNS_CLASS_INET"
    and "GET_OPCODE (rr_flags q) = 0" and "rr_type q = DNS_TYPE_A"
    and "cstr (rr_name q) = Some nm" and "length nm \<le> 255" and "UDP_MAXSIZE \<le> length msg"
    and "name_lookup (dbv st) nm = Some rec" and "r_data rec = DNS_NAMEIP arpa ip"
    and "dns_lookup (dbv st) nm (-1) = (None, k)"
  shows "master_lookup e vc y0 msg len st =
    (let body = name_wire nm @ [0] @ be16 DNS_TYPE_A @ be16 DNS_CLASS_INET @
           [0xC0, 0x0C] @ be16 DNS_TYPE_A @ be16 DNS_CLASS_INET @ be32 DEFAULT_TTL @ be16 4 @ be32 ip
     in Some (int (12 + length body),
          take 2 msg @ be16 0x8000 @ be16 1 @ be16 1 @ be16 0 @ be16 0 @ body @ drop (12 + length body) msg, st))"
proof -
  let ?body = "question_wire q nm @ rr_wire [0xC0, 0x0C] DNS_TYPE_A (be32 ip)"
  have "master_answer (dbv st) q msg = answer_a (dbv st) q nm ip msg"
    using assms(6,7,10,11) by (simp add: master_answer_def DNS_TYPE_A_def DNS_TYPE_PTR_def)
  also have "\<dots> = Some (int (12 + length ?body), answer_wire msg (asm_header\<lparr>ancount := 1\<rparr>) ?body)"
    by (rule answer_a_wire [OF assms(7,8,12,9)])
  finally have "master_lookup e vc y0 msg len st =
      Some (int (12 + length ?body), answer_wire msg (asm_header\<lparr>ancount := 1\<rparr>) ?body, st)"
    using assms(1-5) by (simp add: master_lookup_def)
  then show ?thesis
    using assms(4,6) by (simp add: answer_wire_def question_wire_def rr_wire_def asm_header_def Let_def)
qed

theorem master_answers_address_witness:
  "\<exists>rest. master_lookup demo_env (init_dns 1) blank_rr (query_packet (9 # bytes_of ''localhost'')) 27 demo_master =
     Some (43, [0x12, 0x34, 0x80, 0, 0, 1, 0, 1, 0, 0, 0, 0] @ (9 # bytes_of ''localhost'') @
       [0, 0, 1, 0, 1, 0xC0, 0x0C, 0, 1, 0, 1, 0, 0, 14, 16, 0, 4, 127, 0, 0, 1] @ rest, demo_master)"
proof -
  let ?m = "query_packet (9 # bytes_of ''localhost'')" and ?q = "ask (9 # bytes_of ''localhost'') 27"
  have p: "parse_query (init_dns 1) blank_rr ?m 27 = Some (0, ?q)" "rr_class ?q = DNS_CLASS_INET"
    "GET_OPCODE (rr_flags ?q) = 0" "rr_type ?q = DNS_TYPE_A" "cstr (rr_name ?q) = Some (bytes_of ''localhost'')"
    by code_simp+
  obtain rec arpa where r: "name_lookup (dbv demo_master) (bytes_of ''localhost'') = Some rec" "r_data rec = DNS_NAMEIP arpa 0x7F000001"
  proof -
    have "case name_lookup (dbv demo_master) (bytes_of ''localhost'') of None \<Rightarrow> False
      | Some rec \<Rightarrow> (case r_data rec of DNS_NAMEIP arpa ip \<Rightarrow> ip = 0x7F000001 | _ \<Rightarrow> False)" by code_simp
    then show ?thesis using that by (auto split: option.splits dnsdata.splits)
  qed
  obtain k where k: "dns_lookup (dbv demo_master) (bytes_of ''localhost'') (-1) = (None, k)"
  proof -
    have "fst (dns_lookup (dbv demo_master) (bytes_of ''localhost'') (-1)) = None" by code_simp
    then show ?thesis using that by (metis prod.collapse)
  qed
  have w: "name_wire (bytes_of ''localhost'') = 9 # bytes_of ''localhost''" by code_simp
  have b: "be32 0x7F000001 = [127, 0, 0, 1]" "be32 DEFAULT_TTL = [0, 0, 14, 16]" by code_simp+
  have l: "length (bytes_of ''localhost'') \<le> 255" "UDP_MAXSIZE \<le> length ?m"
    by (simp_all add: bytes_of_def UDP_MAXSIZE_def query_packet_def)
  have t: "take 2 ?m = [0x12, 0x34]" "length (bytes_of ''localhost'') = 9"
    by (simp_all add: query_packet_def bytes_of_def)
  have h: "be16 (0x8000 :: u16) = [0x80, 0]" "be16 (1 :: u16) = [0, 1]" "be16 (0 :: u16) = [0, 0]"
    "be16 DNS_TYPE_A = [0, 1]" "be16 DNS_CLASS_INET = [0, 1]" "be16 (4 :: u16) = [0, 4]"
    by code_simp+
  show ?thesis
    by (rule exI [of _ "drop 43 ?m"])
      (use master_answers_address [OF demo_master_init(3,1) p l r k, of demo_env] in
        \<open>simp add: Let_def w b t h\<close>)
qed


text \<open>What the blacklist does not block: a name without a dot, and a question of any type but A, NS and PTR,
  for AAAA, say.  Such a question is left to the servers.\<close>

lemma blacklist_gap:
  assumes "master_onoff st" and "master_initialised st" and "parse_query vc y0 msg len = Some (0, q)"
    and "cstr (rr_name q) = Some nm"
    and "46 \<notin> set nm \<and> rr_type q = DNS_TYPE_A \<and> name_lookup (dbv st) nm = None \<or> rr_type q \<notin> {DNS_TYPE_A, DNS_TYPE_NS, DNS_TYPE_PTR}"
  shows "master_lookup e vc y0 msg len st = Some (0, msg, st)"
proof -
  have "answer_authority (dbv st) q nm msg = Some (0, msg)" if "46 \<notin> set nm"
  proof -
    have d: "dropWhile (\<lambda>c. c \<noteq> 46) nm = []" using that by (auto simp: dropWhile_eq_Nil_conv)
    show ?thesis unfolding answer_authority_def d by simp
  qed
  then have "master_answer (dbv st) q msg = Some (0, msg)"
    using assms(4,5) by (auto simp: master_answer_def DNS_TYPE_A_def DNS_TYPE_PTR_def DNS_TYPE_NS_def)
  then show ?thesis using assms(1-3) by (simp add: master_lookup_def)
qed


text \<open>C39. Compiled names decode.  The question that begin\_assembly writes for a name of proper
  labels (non-empty, at most 63 bytes, no dots) is read back by the decoder of dns.c as that name,
  with the cursor behind it.\<close>

theorem compile_name_roundtrip:
  assumes "labels_ok ls" and "ls \<noteq> []" and "cstr (rr_name q) = Some (join_dots ls)"
    and "length (dotted ls) < RR_NAMESIZE" and "length (join_dots ls) \<le> 255" and "list_all (list_all vc) ls"
    and "length dest = RR_NAMESIZE"
  shows "\<exists>x. begin_assembly q = Some x \<and>
    get_objname vc (packet x) (here x) (int PACKET_DATABEGIN) below dest RR_NAMESIZE =
      Some (int (here x) - 4, below, butlast (dotted ls) @ 0 # drop (length (dotted ls)) dest)"
proof -
  let ?qw = "question_wire q (join_dots ls)"
  let ?x = "at_wire asm_header (replicate 12 0 @ ?qw)"
  have b: "begin_assembly q = Some ?x" by (rule begin_assembly_wire [OF assms(3,5)])
  have qw: "?qw = encode_labels ls @ 0 # be16 (rr_type q) @ be16 (rr_class q)"
    by (simp add: question_wire_def name_wire_join [OF assms(1)])
  have h: "here ?x = 12 + length (encode_labels ls) + 5" by (simp add: qw)
  have "name_at (packet ?x) (here ?x) (length (replicate 12 (0 :: byte))) 0 ls (length (replicate 12 (0 :: byte)) + length (encode_labels ls) + 1)"
    by (rule name_at_encoded [OF assms(1)]) (simp_all add: qw)
  then have nm: "name_at (packet ?x) (here ?x) (nat (int PACKET_DATABEGIN)) 0 ls (13 + length (encode_labels ls))"
    by (simp add: PACKET_DATABEGIN_def)
  have "get_objname vc (packet ?x) (here ?x) (int PACKET_DATABEGIN) below dest RR_NAMESIZE =
      Some (int (13 + length (encode_labels ls)), if ls = [] then 0 else below,
        if ls = [] then dest else butlast (dotted ls) @ 0 # drop (length (dotted ls)) dest)"
    using assms(4,6,7) h by (intro get_objname_complete [OF nm]) (simp_all add: RR_NAMESIZE_def)
  then show ?thesis using b h assms(2) by auto
qed

theorem compile_name_roundtrip_witness:
  "\<exists>x. begin_assembly (ask [2, 97, 98, 1, 99] 22) = Some x \<and>
    get_objname (init_dns 1) (packet x) (here x) (int PACKET_DATABEGIN) 0 (replicate 256 0) RR_NAMESIZE =
      Some (int (here x) - 4, 0, butlast (dotted [[97, 98], [99]]) @ 0 # drop (length (dotted [[97, 98], [99]])) (replicate 256 0))"
proof (rule compile_name_roundtrip)
  show "cstr (rr_name (ask [2, 97, 98, 1, 99] 22)) = Some (join_dots [[97, 98], [99]])" by code_simp
qed (simp_all add: labels_ok_def RR_NAMESIZE_def join_dots_def init_dns_def)

text \<open>Name pointers lose their high bits.  compile\_namepointer stores only six bits of the
  offset, so that the second and later NS records of an answer name position \<open>offset mod 64\<close>,
  which is not the owner name as soon as that lies at offset 64 or above.\<close>

theorem namepointer_truncates:
  assumes "length bs + 2 \<le> PACKET_ASSEMBLYSIZE"
  shows "\<exists>x'. compile_namepointer (at_wire x bs) offset = Some x' \<and>
    is_ptr (packet x' ! length bs) \<and>
    ptr_target (packet x' ! length bs) (packet x' ! (length bs + 1)) = offset mod 64"
proof -
  have "(of_nat offset :: byte) AND 0x3F = take_bit 6 (of_nat offset)"
    unfolding take_bit_eq_mask by (simp add: mask_eq_exp_minus_1)
  also have "\<dots> = of_nat (offset mod 64)" by (simp only: take_bit_of_nat take_bit_eq_mod [of 6 offset]) simp
  finally have m: "(of_nat offset :: byte) AND 0x3F = of_nat (offset mod 64)" .
  have u: "unat (of_nat (offset mod 64) :: byte) = offset mod 64" by (simp add: unat_of_nat)
  have "compile_namepointer (at_wire x bs) offset = Some (at_wire x (bs @ [0xC0, of_nat offset AND 0x3F]))"
    unfolding compile_namepointer_def using assms by (intro emit_wire) simp
  moreover have "is_ptr 0xC0" "ptr_target 0xC0 (of_nat (offset mod 64)) = offset mod 64"
    using u by (simp_all add: is_ptr_def ptr_target_def)
  ultimately show ?thesis by (simp add: m nth_append)
qed

theorem namepointer_truncates_witness:
  "\<exists>x'. compile_namepointer (at_wire asm_header (replicate 100 0)) 70 = Some x' \<and>
     ptr_target (packet x' ! 100) (packet x' ! 101) = 6"
  using namepointer_truncates [of "replicate 100 0" asm_header 70] by (auto simp: PACKET_ASSEMBLYSIZE_def)

end
