(* ===== verification/Dnrd_Relay.thy ===== *)
theory Dnrd_Relay
  imports Dnrd_Cache Dnrd_Query Dnrd_Master
begin

section \<open>dnrd: forwarding (relay.c, udp.c, the rest of domnode.c)\<close>

text \<open>
  The relay puts the components together: a request is answered by the master database, by the
  cache, or forwarded to the current server of its domain; a reply is cached and goes back to the
  client under the id of the client; servers that do not answer are deactivated and probed with
  dummy queries.  The state of the relay is the state of the components, the static buffers and
  static time stamps of the functions, and the list of all calls of \<open>sendto\<close>.

  The operating system is a parameter of one pass of the main loop: the clock, what the \<open>k\<close>th
  \<open>sendto\<close> and the \<open>k\<close>th \<open>socket\<close> return, and the datagram waiting on a socket.  Local
  variables that are read before they are set (\<open>srcaddr\<close>, the name buffers) are parameters too.
  \<open>None\<close> is a failed assertion, an access outside a buffer, or a loop that does not end.
  The build has no TCP (\<open>ENABLE_TCP\<close> is not defined), source port randomisation and the
  master; log output is left out except for the statistics of the servers.
\<close>

subsection \<open>State and environment\<close>

record datagram =
  dg_sock :: nat
  dg_to :: sockaddr
  dg_data :: bytes
  dg_ok :: bool

record relay_state =
  domain_list :: "domnode_t list"
  r_cache :: cache_state
  r_query :: query_state
  r_master :: master_state
  req_msg :: bytes
  rep_msg :: bytes
  dnsbuf :: bytes
  sent :: "datagram list"
  sockets :: nat
  react_last :: u32
  deact_last :: u32
  srv_last :: time_t
  query_last :: time_t
  srv_log :: "(u32 \<times> u32) list"

record relay_env =
  e_conf :: dnrd_conf
  e_now :: time_t
  e_sendto :: "nat \<Rightarrow> bool"
  e_socket :: "nat \<Rightarrow> nat set \<Rightarrow> nat option"
  e_recv :: "nat \<Rightarrow> (bytes \<times> sockaddr) option"
  e_vc :: "byte \<Rightarrow> bool"
  e_rr :: rr_t
  e_name :: bytes
  e_packet :: bytes
  e_srcaddr :: sockaddr
  e_qsort :: "(nat \<Rightarrow> nat \<Rightarrow> int) \<Rightarrow> nat list \<Rightarrow> nat list"
  e_master :: master_env

definition os_sendto :: "relay_env \<Rightarrow> nat \<Rightarrow> sockaddr \<Rightarrow> bytes \<Rightarrow> nat \<Rightarrow> relay_state \<Rightarrow> (bool \<times> relay_state) option" where
  "os_sendto e sock to msg len st =
     (if len \<le> length msg
      then (let ok = e_sendto e (length (sent st)) in
            Some (ok, st\<lparr>sent := sent st @ [\<lparr>dg_sock = sock, dg_to = to, dg_data = take len msg, dg_ok = ok\<rparr>]\<rparr>))
      else None)"

text \<open>Following \<open>d\<close> and \<open>srv\<close> pointers.\<close>

definition upd_dom :: "nat \<Rightarrow> (domnode_t \<Rightarrow> domnode_t option) \<Rightarrow> relay_state \<Rightarrow> relay_state option" where
  "upd_dom dk f st = do {
     d \<leftarrow> peek (domain_list st) dk;
     d' \<leftarrow> f d;
     Some (st\<lparr>domain_list := (domain_list st)[dk := d']\<rparr>) }"

definition srv_at :: "relay_state \<Rightarrow> srv_ref \<Rightarrow> srvnode_t option" where
  "srv_at st r = do { d \<leftarrow> peek (domain_list st) (fst r); peek (dn_srvlist d) (snd r) }"

definition upd_srv_at :: "srv_ref \<Rightarrow> (srvnode_t \<Rightarrow> srvnode_t) \<Rightarrow> relay_state \<Rightarrow> relay_state option" where
  "upd_srv_at r f st = upd_dom (fst r) (upd_srv (snd r) f) st"

subsection \<open>relay.c: the decision\<close>



definition debug_packet :: "relay_env \<Rightarrow> bytes \<Rightarrow> nat \<Rightarrow> unit option" where
  "debug_packet e msg len =
     (if opt_debug (e_conf e) = 0 then Some ()
      else do {
        _ \<leftarrow> snprintf_cname (e_vc e) msg len 12 0 (e_name e) 256;
        _ \<leftarrow> dump_dnspacket (opt_debug (e_conf e)) (e_vc e) (e_rr e) msg len;
        Some () })"



subsection \<open>udp.c: sending\<close>

text \<open>main.c sends to port 10053 of the servers.\<close>

definition udp_send :: "relay_env \<Rightarrow> nat \<Rightarrow> srv_ref \<Rightarrow> bytes \<Rightarrow> nat \<Rightarrow> relay_state \<Rightarrow> (bool \<times> relay_state) option" where
  "udp_send e sock r msg len st = do {
     s \<leftarrow> srv_at st r;
     (ok, st1) \<leftarrow> os_sendto e sock (sv_addr s, 10053) msg len st;
     if \<not> ok then Some (False, st1)
     else do {
       st2 \<leftarrow> upd_srv_at r (\<lambda>s. s\<lparr>send_time := (if send_time s = 0 then e_now e else send_time s),
                                     send_count := send_count s + 1\<rparr>) st1;
       Some (True, st2) } }"

partial_function (option) send_loop ::
  "relay_env \<Rightarrow> nat \<Rightarrow> nat \<Rightarrow> bytes \<Rightarrow> nat \<Rightarrow> relay_state \<Rightarrow> relay_state option" where
  "send_loop e sock dk msg len st =
     (case peek (domain_list st) dk of
        None \<Rightarrow> None
      | Some d \<Rightarrow>
          (case dn_current d of
             None \<Rightarrow> Some st
           | Some c \<Rightarrow>
               (case udp_send e sock (dk, c) msg len st of
                  None \<Rightarrow> None
                | Some (ok, st1) \<Rightarrow>
                    if ok then Some st1
                    else if reactivate_interval (e_conf e) \<noteq> 0
                    then (case upd_dom dk (\<lambda>d. map_option fst (deactivate_current (e_now e) d)) st1 of
                            None \<Rightarrow> None
                          | Some st2 \<Rightarrow> send_loop e sock dk msg len st2)
                    else send_loop e sock dk msg len st1)))"

definition send2current :: "relay_env \<Rightarrow> query_t \<Rightarrow> bytes \<Rightarrow> nat \<Rightarrow> relay_state \<Rightarrow> (nat \<times> relay_state) option" where
  "send2current e q msg len st = do {
     dk \<leftarrow> q_domain q;
     st1 \<leftarrow> send_loop e (q_sock q) dk msg len st;
     d \<leftarrow> peek (domain_list st1) dk;
     Some (if dn_current d \<noteq> None then len else 0, st1) }"

text \<open>\<open>query_add\<close> asks for a socket unless the query is known or the limit is reached; the counter
  numbers these occasions.\<close>

definition relay_query_add ::
  "relay_env \<Rightarrow> nat option \<Rightarrow> srv_ref \<Rightarrow> sockaddr \<Rightarrow> bytes \<Rightarrow> relay_state \<Rightarrow> (nat option \<times> bytes \<times> relay_state) option" where
  "relay_query_add e dm srv client msg st = do {
     (r, msg', qs) \<leftarrow> query_add (e_conf e) (e_now e) (e_socket e (sockets st) (fdmaster (r_query st))) dm srv client msg (r_query st);
     Some (r, msg', st\<lparr>r_query := qs, sockets := sockets st + 1\<rparr>) }"

definition relay_delete_next :: "nat \<Rightarrow> relay_state \<Rightarrow> relay_state option" where
  "relay_delete_next p st = do { qs \<leftarrow> query_delete_next p (r_query st); Some (st\<lparr>r_query := qs\<rparr>) }"

subsection \<open>udp.c: a request\<close>

definition forward_request ::
  "relay_env \<Rightarrow> nat \<Rightarrow> sockaddr \<Rightarrow> bytes \<Rightarrow> nat \<Rightarrow> relay_state \<Rightarrow> (nat option \<times> relay_state) option" where
  "forward_request e dk from msg len st = do {
     d \<leftarrow> peek (domain_list st) dk;
     c \<leftarrow> dn_current d;
     (prev, msg1, st1) \<leftarrow> relay_query_add e (Some dk) (dk, c) from msg st;
     let st1 = st1\<lparr>req_msg := msg1\<rparr>;
     (case prev of
        None \<Rightarrow> Some (None, st1)
      | Some p \<Rightarrow> do {
          q \<leftarrow> peek (qlist (r_query st1)) p;
          (n, st2) \<leftarrow> send2current e q msg1 len st1;
          if 0 < n then Some (Some p, st2)
          else do {
            (packetlen, _, ms) \<leftarrow> master_dontknow (e_master e) (e_vc e) (e_rr e) msg1 len (e_packet e) (r_master st2);
            let st3 = st2\<lparr>r_master := ms\<rparr>;
            if 0 < packetlen then do { st4 \<leftarrow> relay_delete_next p st3; Some (None, st4) }
            else Some (Some p, st3) } }) }"


subsection \<open>udp.c: a reply\<close>

text \<open>The result is the return code and the buffer.\<close>

definition reply_recv :: "relay_env \<Rightarrow> query_t \<Rightarrow> bytes \<Rightarrow> nat \<Rightarrow> relay_state \<Rightarrow> (int \<times> bytes) option" where
  "reply_recv e q msg len st =
     (case e_recv e (q_sock q) of
        None \<Rightarrow> Some (-1, msg)
      | Some (dat, from) \<Rightarrow> do {
          let dat = take len dat;
          msg' \<leftarrow> blit msg 0 dat;
          s \<leftarrow> srv_at st (q_srv q);
          Some (if fst from \<noteq> sv_addr s then 0 else int (length dat), msg') })"

text \<open>The reply goes to the cache and to the client, unless the query was a dummy.\<close>

definition deliver_reply :: "relay_env \<Rightarrow> query_t \<Rightarrow> bytes \<Rightarrow> nat \<Rightarrow> relay_state \<Rightarrow> relay_state option" where
  "deliver_reply e q msg len st =
     (case q_domain q of
        None \<Rightarrow> Some st
      | Some dk \<Rightarrow> do {
          cs \<leftarrow> cache_dnspacket (e_vc e) (e_rr e) (e_now e) msg len (q_srv q) (r_cache st);
          msg' \<leftarrow> set_host16 msg (client_qid q);
          (_, st1) \<leftarrow> os_sendto e (isock (e_conf e)) (q_client q) msg' len (st\<lparr>r_cache := cs, rep_msg := msg'\<rparr>);
          Some st1 })"

definition udp_handle_reply :: "relay_env \<Rightarrow> nat \<Rightarrow> relay_state \<Rightarrow> relay_state option" where
  "udp_handle_reply e prev st = do {
     q \<leftarrow> peek (qlist (r_query st)) prev;
     (len, msg) \<leftarrow> reply_recv e q (rep_msg st) UDP_MAXSIZE st;
     let st0 = st\<lparr>rep_msg := msg\<rparr>;
     if len < 0 then relay_delete_next prev st0
     else do {
       c \<leftarrow> check_reply msg (nat len);
       if c < 0 then relay_delete_next prev st0
       else do {
         _ \<leftarrow> (if opt_debug (e_conf e) = 0 then Some (0, 0, [])
               else snprintf_cname (e_vc e) msg (nat len) 12 0 (e_name e) 256);
         _ \<leftarrow> dump_dnspacket (opt_debug (e_conf e)) (e_vc e) (e_rr e) msg (nat len);
         st1 \<leftarrow> deliver_reply e q msg (nat len) st0;
         st2 \<leftarrow> upd_srv_at (q_srv q) (\<lambda>s. s\<lparr>send_time := 0, sv_inactive := 0\<rparr>) st1;
         relay_delete_next prev st2 } } }"

subsection \<open>udp.c, domnode.c, relay.c: watching the servers\<close>

definition dummy_packet :: bytes where
  "dummy_packet = [0, 0, 1, 0, 0, 1, 0, 0, 0, 0, 0, 0] @ 9 # bytes_of ''localhost'' @ [0, 0, 1, 0, 1]"









subsection \<open>relay.c: the main loop\<close>



definition run_start :: "relay_env \<Rightarrow> relay_state \<Rightarrow> relay_state option" where
  "run_start e st = do {
     qs \<leftarrow> FD_SET (isock (e_conf e)) ((r_query st)\<lparr>fdmaster := {}\<rparr>);
     Some (st\<lparr>r_query := qs\<lparr>maxsock := isock (e_conf e)\<rparr>\<rparr>) }"






lemma deliver_reply_query: "deliver_reply e q msg len st = Some st' \<Longrightarrow> r_query st' = r_query st"
  by (auto simp: deliver_reply_def os_sendto_def option_bind_eq_Some_iff Let_def split: option.splits if_splits)








subsection \<open>Invariant\<close>

definition shape :: "domnode_t list \<Rightarrow> (bytes option \<times> nat) list" where
  "shape ds = map (\<lambda>d. (dn_domain d, length (dn_srvlist d))) ds"

definition ref_ok :: "domnode_t list \<Rightarrow> srv_ref \<Rightarrow> bool" where
  "ref_ok ds r \<longleftrightarrow> fst r < length ds \<and> snd r < length (dn_srvlist (ds ! fst r))"

definition query_refs :: "domnode_t list \<Rightarrow> query_t \<Rightarrow> bool" where
  "query_refs ds q \<longleftrightarrow> ref_ok ds (q_srv q) \<and> 0 < snd (q_srv q) \<and> (\<forall>dk. q_domain q = Some dk \<longrightarrow> dk < length ds)"

definition env_ok :: "relay_env \<Rightarrow> bool" where
  "env_ok e \<longleftrightarrow> length (rr_name (e_rr e)) = RR_NAMESIZE \<and> 0 \<in> set (rr_name (e_rr e)) \<and>
     length (rr_data (e_rr e)) = RR_NAMESIZE \<and> length (e_name e) = 256 \<and> length (e_packet e) = UDP_MAXSIZE + 4 \<and>
     max_sockets (e_conf e) < int QID_POOL_SIZE \<and> e_now e \<noteq> 0 \<and> qsort_ok (e_qsort e) \<and>
     (\<forall>k S fd. e_socket e k S = Some fd \<longrightarrow> fd < FD_SETSIZE \<and> fd \<notin> S)"

definition relay_ok :: "relay_env \<Rightarrow> relay_state \<Rightarrow> bool" where
  "relay_ok e st \<longleftrightarrow> domlist_ok (domain_list st) \<and> cache_inv (r_cache st) \<and>
     (\<forall>c \<in> set (cache_abs (r_cache st)). ref_ok (domain_list st) (cx_server c)) \<and>
     0 \<le> cache_lowwater (r_cache st) \<and> cache_lowwater (r_cache st) \<le> cache_highwater (r_cache st) \<and>
     query_ok (e_conf e) (r_query st) \<and> list_all (query_refs (domain_list st)) (qlist (r_query st)) \<and>
     master_initialised (r_master st) \<and> db_fits (dbv (r_master st)) \<and>
     length (req_msg st) = UDP_MAXSIZE + 4 \<and> length (rep_msg st) = UDP_MAXSIZE + 4 \<and>
     length (dnsbuf st) = length dummy_packet"

subsection \<open>Operations that keep the invariant\<close>

lemma shape_length: "shape ds' = shape ds \<Longrightarrow> length ds' = length ds"
  by (drule arg_cong [where f = length]) (simp add: shape_def)

lemma shape_nth:
  assumes "shape ds' = shape ds" and "k < length ds"
  shows "dn_domain (ds' ! k) = dn_domain (ds ! k) \<and> length (dn_srvlist (ds' ! k)) = length (dn_srvlist (ds ! k))"
proof -
  have "shape ds' ! k = shape ds ! k" using assms(1) by (rule arg_cong)
  then show ?thesis using assms(2) shape_length [OF assms(1)] by (simp add: shape_def)
qed

lemma ref_ok_shape:
  assumes "shape ds' = shape ds"
  shows "ref_ok ds' r = ref_ok ds r"
  using shape_nth [OF assms, of "fst r"] unfolding ref_ok_def shape_length [OF assms] by auto

lemma query_refs_shape: "shape ds' = shape ds \<Longrightarrow> query_refs ds' = query_refs ds"
  unfolding query_refs_def fun_eq_iff using ref_ok_shape [of ds' ds] shape_length [of ds' ds] by presburger





lemma relay_ok_doms:
  assumes "relay_ok e st" and "domlist_ok ds" and "shape ds = shape (domain_list st)"
  shows "relay_ok e (st\<lparr>domain_list := ds\<rparr>)"
  using assms(1,2) unfolding relay_ok_def
  by (simp add: ref_ok_shape [OF assms(3)] query_refs_shape [OF assms(3)])

lemma relay_ok_frame [simp]:
  "relay_ok e (st\<lparr>sent := x\<rparr>) = relay_ok e st" "relay_ok e (st\<lparr>sockets := n\<rparr>) = relay_ok e st"
  "relay_ok e (st\<lparr>react_last := t\<rparr>) = relay_ok e st" "relay_ok e (st\<lparr>deact_last := t\<rparr>) = relay_ok e st"
  "relay_ok e (st\<lparr>srv_last := t\<rparr>) = relay_ok e st" "relay_ok e (st\<lparr>query_last := t\<rparr>) = relay_ok e st"
  "relay_ok e (st\<lparr>srv_log := l\<rparr>) = relay_ok e st"
  by (simp_all add: relay_ok_def)

lemma relay_ok_dom: "relay_ok e st \<Longrightarrow> dk < length (domain_list st) \<Longrightarrow> domnode_ok (domain_list st ! dk)"
  by (simp add: relay_ok_def domlist_ok_def list_all_length)

definition dom_kept :: "domnode_t \<Rightarrow> domnode_t \<Rightarrow> bool" where
  "dom_kept d d' \<longleftrightarrow> domnode_ok d' \<and> dn_domain d' = dn_domain d \<and> length (dn_srvlist d') = length (dn_srvlist d)"

lemma domlist_ok_update:
  assumes "domlist_ok ds" and "dk < length ds" and "dom_kept (ds ! dk) d'"
  shows "domlist_ok (ds[dk := d']) \<and> shape (ds[dk := d']) = shape ds"
proof
  have m: "map dn_domain (ds[dk := d']) = map dn_domain ds"
    using assms(2,3) by (simp add: map_update dom_kept_def list_update_same_conv)
  have l: "list_all (\<lambda>d. case dn_domain d of None \<Rightarrow> False | Some n \<Rightarrow> 0 \<notin> set n) (tl xs) \<longleftrightarrow>
      list_all (\<lambda>x. case x of None \<Rightarrow> False | Some n \<Rightarrow> 0 \<notin> set n) (tl (map dn_domain xs))" for xs :: "domnode_t list"
    by (cases xs) (simp_all add: list_all_iff)
  show "domlist_ok (ds[dk := d'])"
    unfolding domlist_ok_def l m using assms
    by (simp add: domlist_ok_def l) (auto simp: list_all_length nth_list_update dom_kept_def)
  show "shape (ds[dk := d']) = shape ds"
    using assms(2,3) by (simp add: shape_def map_update dom_kept_def list_update_same_conv)
qed

lemma upd_dom_safe:
  assumes "relay_ok e st" and "dk < length (domain_list st)"
    and "f (domain_list st ! dk) = Some d'" and "dom_kept (domain_list st ! dk) d'"
  shows "upd_dom dk f st = Some (st\<lparr>domain_list := (domain_list st)[dk := d']\<rparr>) \<and>
    relay_ok e (st\<lparr>domain_list := (domain_list st)[dk := d']\<rparr>) \<and>
    shape ((domain_list st)[dk := d']) = shape (domain_list st)"
  using assms domlist_ok_update [OF _ assms(2,4)]
  by (auto simp: upd_dom_def intro!: relay_ok_doms) (auto simp: relay_ok_def)

lemma srv_at_ref: "ref_ok (domain_list st) r \<Longrightarrow> srv_at st r = Some (dn_srvlist (domain_list st ! fst r) ! snd r)"
  by (simp add: srv_at_def ref_ok_def)

lemma upd_srv_at_safe:
  assumes "relay_ok e st" and "ref_ok (domain_list st) r"
    and "0 < snd r \<or> (\<forall>s. sv_inactive (f s) = sv_inactive s)"
  shows "\<exists>d'. upd_srv_at r f st = Some (st\<lparr>domain_list := (domain_list st)[fst r := d']\<rparr>) \<and>
    d' = (domain_list st ! fst r)\<lparr>dn_srvlist := (dn_srvlist (domain_list st ! fst r))[snd r := f (dn_srvlist (domain_list st ! fst r) ! snd r)]\<rparr> \<and>
    relay_ok e (st\<lparr>domain_list := (domain_list st)[fst r := d']\<rparr>) \<and>
    shape ((domain_list st)[fst r := d']) = shape (domain_list st)"
proof -
  let ?d = "domain_list st ! fst r"
  let ?v = "f (dn_srvlist ?d ! snd r)"
  have l: "fst r < length (domain_list st)" "snd r < length (dn_srvlist ?d)"
    using assms(2) by (auto simp: ref_ok_def)
  have ok: "domnode_ok ?d" by (rule relay_ok_dom [OF assms(1) l(1)])
  then have "snd r = 0 \<longrightarrow> sv_inactive ?v \<noteq> 0"
    using assms(3) by (auto simp: domnode_ok_def srvlist_ok_def)
  then have "dom_kept ?d (?d\<lparr>dn_srvlist := (dn_srvlist ?d)[snd r := ?v]\<rparr>)"
    using domnode_ok_update [OF ok] by (simp add: dom_kept_def)
  from upd_dom_safe [where f = "upd_srv (snd r) f", OF assms(1) l(1) upd_srv_Some [OF l(2), of f] this] show ?thesis
    by (simp add: upd_srv_at_def)
qed

text \<open>Sending to a server.\<close>

lemma udp_send_safe:
  assumes "relay_ok e st" and "ref_ok (domain_list st) r" and "len \<le> length msg"
  shows "\<exists>st'. udp_send e sock r msg len st = Some (e_sendto e (length (sent st)), st') \<and> relay_ok e st' \<and>
    shape (domain_list st') = shape (domain_list st) \<and> r_query st' = r_query st \<and>
    dn_current (domain_list st' ! fst r) = dn_current (domain_list st ! fst r) \<and>
    (\<forall>k. sv_inactive (dn_srvlist (domain_list st' ! fst r) ! k) = sv_inactive (dn_srvlist (domain_list st ! fst r) ! k)) \<and>
    dnsbuf st' = dnsbuf st \<and> r_master st' = r_master st \<and> r_cache st' = r_cache st \<and>
    sent st' = sent st @ [\<lparr>dg_sock = sock, dg_to = (sv_addr (dn_srvlist (domain_list st ! fst r) ! snd r), 10053),
      dg_data = take len msg, dg_ok = e_sendto e (length (sent st))\<rparr>]"
proof -
  let ?ok = "e_sendto e (length (sent st))"
  let ?s = "dn_srvlist (domain_list st ! fst r) ! snd r"
  let ?st1 = "st\<lparr>sent := sent st @ [\<lparr>dg_sock = sock, dg_to = (sv_addr ?s, 10053), dg_data = take len msg, dg_ok = ?ok\<rparr>]\<rparr>"
  let ?f = "\<lambda>s. s\<lparr>send_time := (if send_time s = 0 then e_now e else send_time s), send_count := send_count s + 1\<rparr>"
  have send: "udp_send e sock r msg len st =
      (if ?ok then upd_srv_at r ?f ?st1 \<bind> (\<lambda>st2. Some (True, st2)) else Some (False, ?st1))"
    using assms(3) by (simp add: udp_send_def srv_at_ref [OF assms(2)] os_sendto_def Let_def)
  show ?thesis
  proof (cases ?ok)
    case False
    then show ?thesis using send assms(1) by simp
  next
    case True
    have r: "fst r < length (domain_list st)" using assms(2) by (simp add: ref_ok_def)
    have ok1: "relay_ok e ?st1" "ref_ok (domain_list ?st1) r" using assms(1,2) by simp_all
    obtain d' where d': "upd_srv_at r ?f ?st1 = Some (?st1\<lparr>domain_list := (domain_list ?st1)[fst r := d']\<rparr>)"
      "d' = (domain_list ?st1 ! fst r)\<lparr>dn_srvlist := (dn_srvlist (domain_list ?st1 ! fst r))[snd r := ?f (dn_srvlist (domain_list ?st1 ! fst r) ! snd r)]\<rparr>"
      "relay_ok e (?st1\<lparr>domain_list := (domain_list ?st1)[fst r := d']\<rparr>)"
      "shape ((domain_list ?st1)[fst r := d']) = shape (domain_list ?st1)"
      using upd_srv_at_safe [OF ok1, of ?f] by auto
    have "sv_inactive (dn_srvlist d' ! k) = sv_inactive (dn_srvlist (domain_list st ! fst r) ! k)" for k
      using assms(2) by (auto simp: d'(2) nth_list_update ref_ok_def)
    then show ?thesis using True r d' send by simp
  qed
qed

text \<open>How often \<open>send2current\<close> can still try: once per active server, and once more when the
  current server is already inactive.\<close>

definition active_set :: "domnode_t \<Rightarrow> nat set" where
  "active_set d = {k. k < length (dn_srvlist d) \<and> active_at (dn_srvlist d) k}"

definition tries_left :: "domnode_t \<Rightarrow> nat" where
  "tries_left d = card (active_set d) +
     (case dn_current d of Some c \<Rightarrow> if c \<in> active_set d then 0 else 1 | None \<Rightarrow> 0)"

lemma finite_active_set [simp]: "finite (active_set d)"
  by (simp add: active_set_def)

lemma deactivate_current_tries:
  assumes "domnode_ok d" and "now \<noteq> 0" and "dn_current d = Some c"
  shows "\<exists>d'. map_option fst (deactivate_current now d) = Some d' \<and> dom_kept d d' \<and>
    active_set d' = active_set d - {c} \<and> tries_left d' < tries_left d \<and>
    (dn_current d' = None \<longrightarrow> active_set d' = {})"
proof -
  obtain d' r where d': "deactivate_current now d = Some (d', r)" "domnode_ok d'" "dn_current d' = r"
    "dn_domain d' = dn_domain d" "length (dn_srvlist d') = length (dn_srvlist d)"
    "\<forall>k < length (dn_srvlist d). dn_srvlist d' ! k =
       (if Some k = dn_current d then (dn_srvlist d ! k)\<lparr>sv_inactive := now\<rparr> else dn_srvlist d ! k)"
    "case r of None \<Rightarrow> \<forall>k < length (dn_srvlist d'). \<not> active_at (dn_srvlist d') k
     | Some k \<Rightarrow> 0 < k \<and> k < length (dn_srvlist d') \<and> active_at (dn_srvlist d') k \<and> Some k \<noteq> dn_current d"
    using deactivate_current_ok [OF assms(1,2)] by blast
  have A: "active_set d' = active_set d - {c}"
    using d'(5,6) assms(2,3) by (auto simp: active_set_def split: if_splits)
  have cur: "tries_left d' = card (active_set d')"
    using d'(3,7) by (auto simp: tries_left_def active_set_def split: option.splits)
  have "tries_left d' < tries_left d"
  proof (cases "c \<in> active_set d")
    case True
    then show ?thesis using cur assms(3) card_Diff1_less [of "active_set d" c]
      by (simp add: A tries_left_def)
  next
    case False
    then show ?thesis using cur assms(3) by (simp add: A tries_left_def)
  qed
  moreover have "dn_current d' = None \<longrightarrow> active_set d' = {}"
    using d'(3,7) by (auto simp: active_set_def split: option.splits)
  ultimately show ?thesis using d' A by (simp add: dom_kept_def)
qed

lemma send_loop_ends:
  assumes "relay_ok e st" and "dk < length (domain_list st)" and "len \<le> length msg"
    and "reactivate_interval (e_conf e) \<noteq> 0" and "e_now e \<noteq> 0"
  shows "\<exists>st' dgs. send_loop e sock dk msg len st = Some st' \<and> relay_ok e st' \<and>
    shape (domain_list st') = shape (domain_list st) \<and> r_query st' = r_query st \<and> r_master st' = r_master st \<and>
    r_cache st' = r_cache st \<and> sent st' = sent st @ dgs \<and> length dgs \<le> tries_left (domain_list st ! dk) \<and>
    (\<forall>g \<in> set dgs. dg_sock g = sock \<and> dg_data g = take len msg) \<and>
    (if dn_current (domain_list st' ! dk) = None
     then (\<forall>g \<in> set dgs. \<not> dg_ok g) \<and>
       (dn_current (domain_list st ! dk) \<noteq> None \<or> active_set (domain_list st ! dk) = {} \<longrightarrow> active_set (domain_list st' ! dk) = {})
     else \<exists>fs g. dgs = fs @ [g] \<and> dg_ok g \<and> (\<forall>f \<in> set fs. \<not> dg_ok f))"
  using assms(1,2)
proof (induction "tries_left (domain_list st ! dk)" arbitrary: st rule: less_induct)
  case less
  let ?d = "domain_list st ! dk"
  have ok: "domnode_ok ?d" by (rule relay_ok_dom [OF less.prems])
  show ?case
  proof (cases "dn_current ?d")
    case None
    then have "send_loop e sock dk msg len st = Some st"
      using less.prems(2) by (subst send_loop.simps) simp
    then show ?thesis using less.prems(1) None by (intro exI [of _ st] exI [of _ "[]"]) simp
  next
    case (Some c)
    have c: "ref_ok (domain_list st) (dk, c)"
      using ok Some less.prems(2) by (simp add: ref_ok_def domnode_ok_def)
    let ?ok = "e_sendto e (length (sent st))"
    let ?g = "\<lparr>dg_sock = sock, dg_to = (sv_addr (dn_srvlist ?d ! c), 10053), dg_data = take len msg, dg_ok = ?ok\<rparr>"
    obtain st1 where st1: "udp_send e sock (dk, c) msg len st = Some (?ok, st1)" "relay_ok e st1"
      "shape (domain_list st1) = shape (domain_list st)" "r_query st1 = r_query st"
      "dn_current (domain_list st1 ! dk) = dn_current ?d"
      "\<forall>k. sv_inactive (dn_srvlist (domain_list st1 ! dk) ! k) = sv_inactive (dn_srvlist ?d ! k)"
      "r_master st1 = r_master st" "r_cache st1 = r_cache st" "sent st1 = sent st @ [?g]"
      using udp_send_safe [OF less.prems(1) c assms(3), of sock] unfolding fst_conv snd_conv by blast
    have l1: "dk < length (domain_list st1)" "length (dn_srvlist (domain_list st1 ! dk)) = length (dn_srvlist ?d)"
      using less.prems(2) shape_length [OF st1(3)] shape_nth [OF st1(3) less.prems(2)] by simp_all
    have as: "active_set (domain_list st1 ! dk) = active_set ?d"
      using l1(2) st1(6) by (simp add: active_set_def)
    then have tl: "tries_left (domain_list st1 ! dk) = tries_left ?d"
      using st1(5) by (simp add: tries_left_def split: option.split)
    have pos: "1 \<le> tries_left ?d"
      using Some by (auto simp: tries_left_def Suc_le_eq card_gt_0_iff)
    show ?thesis
    proof (cases ?ok)
      case True
      have "send_loop e sock dk msg len st = Some st1"
        using less.prems(2) Some st1(1) True by (subst send_loop.simps) simp
      then show ?thesis using st1 Some True pos
        by (intro exI [of _ st1] exI [of _ "[?g]"]) simp
    next
      case False
      let ?f = "\<lambda>d. map_option fst (deactivate_current (e_now e) d)"
      obtain d' where d': "?f (domain_list st1 ! dk) = Some d'" "dom_kept (domain_list st1 ! dk) d'"
        "active_set d' = active_set (domain_list st1 ! dk) - {c}" "tries_left d' < tries_left (domain_list st1 ! dk)"
        "dn_current d' = None \<longrightarrow> active_set d' = {}"
        using deactivate_current_tries [OF relay_ok_dom [OF st1(2) l1(1)] assms(5), of c] st1(5) Some by auto
      let ?st2 = "st1\<lparr>domain_list := (domain_list st1)[dk := d']\<rparr>"
      have st2: "upd_dom dk ?f st1 = Some ?st2" "relay_ok e ?st2" "shape (domain_list ?st2) = shape (domain_list st1)"
        using upd_dom_safe [where f = ?f, OF st1(2) l1(1) d'(1,2)] by simp_all
      have at: "domain_list ?st2 ! dk = d'" using l1(1) by simp
      have lt: "tries_left (domain_list ?st2 ! dk) < tries_left ?d" using at d'(4) tl by simp
      have dk2: "dk < length (domain_list ?st2)" using l1(1) by simp
      obtain st' dgs where st': "send_loop e sock dk msg len ?st2 = Some st'" "relay_ok e st'"
        "shape (domain_list st') = shape (domain_list ?st2)" "r_query st' = r_query ?st2" "r_master st' = r_master ?st2"
        "r_cache st' = r_cache ?st2" "sent st' = sent ?st2 @ dgs" "length dgs \<le> tries_left (domain_list ?st2 ! dk)"
        "\<forall>g \<in> set dgs. dg_sock g = sock \<and> dg_data g = take len msg"
        "if dn_current (domain_list st' ! dk) = None
         then (\<forall>g \<in> set dgs. \<not> dg_ok g) \<and>
           (dn_current (domain_list ?st2 ! dk) \<noteq> None \<or> active_set (domain_list ?st2 ! dk) = {} \<longrightarrow> active_set (domain_list st' ! dk) = {})
         else \<exists>fs g. dgs = fs @ [g] \<and> dg_ok g \<and> (\<forall>f \<in> set fs. \<not> dg_ok f)"
        using less.hyps [OF lt st2(2) dk2] by (elim exE conjE) (rule that)
      have e0: "send_loop e sock dk msg len st = Some st'"
        using less.prems(2) Some st1(1) False assms(4) st2(1) st'(1) by (subst send_loop.simps) simp
      have nil: "dn_current (domain_list st' ! dk) = None \<longrightarrow> (\<forall>g \<in> set dgs. \<not> dg_ok g) \<and> active_set (domain_list st' ! dk) = {}"
        using st'(10) d'(5) by (simp only: at) auto
      have snoc: "dn_current (domain_list st' ! dk) \<noteq> None \<longrightarrow>
          (\<exists>fs g. ?g # dgs = fs @ [g] \<and> dg_ok g \<and> (\<forall>f \<in> set fs. \<not> dg_ok f))"
      proof
        assume "dn_current (domain_list st' ! dk) \<noteq> None"
        from st'(10) [unfolded if_not_P [OF this]] obtain fs g where
          "dgs = fs @ [g]" "dg_ok g" "\<forall>f \<in> set fs. \<not> dg_ok f" by blast
        then show "\<exists>fs g. ?g # dgs = fs @ [g] \<and> dg_ok g \<and> (\<forall>f \<in> set fs. \<not> dg_ok f)"
          using False by (intro exI [of _ "?g # fs"] exI [of _ g]) simp
      qed
      have "length (?g # dgs) \<le> tries_left ?d" using st'(8) lt by simp
      moreover have "shape (domain_list st') = shape (domain_list st)" using st'(3) st2(3) st1(3) by simp
      moreover have "sent st' = sent st @ (?g # dgs)" "r_query st' = r_query st" "r_master st' = r_master st" "r_cache st' = r_cache st"
        using st'(4-7) st1(4,7-9) by simp_all
      moreover have "\<forall>g \<in> set (?g # dgs). dg_sock g = sock \<and> dg_data g = take len msg" using st'(9) by simp
      ultimately show ?thesis using e0 st'(2) nil snoc False Some
        by (intro exI [of _ st'] exI [of _ "?g # dgs"]) (simp split: if_split)
    qed
  qed
qed

text \<open>The list of pending queries.\<close>

lemma relay_ok_query:
  assumes "relay_ok e st" and "query_ok (e_conf e) qs" and "list_all (query_refs (domain_list st)) (qlist qs)"
  shows "relay_ok e (st\<lparr>r_query := qs\<rparr>)"
  using assms by (simp add: relay_ok_def)


lemma relay_delete_next_safe:
  assumes "relay_ok e st" and "p < length (qlist (r_query st))"
  shows "\<exists>qs. relay_delete_next p st = Some (st\<lparr>r_query := qs\<rparr>) \<and> relay_ok e (st\<lparr>r_query := qs\<rparr>) \<and>
    qlist qs = take p (qlist (r_query st)) @ drop (p + 1) (qlist (r_query st))"
proof -
  obtain qs where qs: "query_delete_next p (r_query st) = Some qs" "query_ok (e_conf e) qs"
    "qlist qs = take p (qlist (r_query st)) @ drop (p + 1) (qlist (r_query st))"
    using query_delete_next_ok [of "e_conf e" "r_query st" p] assms by (auto simp: relay_ok_def)
  have "list_all (query_refs (domain_list st)) (qlist qs)"
    using assms(1) by (auto simp: qs(3) relay_ok_def list_all_iff dest: in_set_takeD in_set_dropD)
  then show ?thesis using relay_ok_query [OF assms(1) qs(2)] qs
    by (intro exI [of _ qs]) (simp add: relay_delete_next_def)
qed

text \<open>Probing.\<close>

lemma length_dummy_packet: "length dummy_packet = 27"
  by (simp add: dummy_packet_def bytes_of_def)












subsection \<open>Handling a query keeps the invariant\<close>









definition marks :: "cache_state \<Rightarrow> int \<times> int" where
  "marks st = (cache_lowwater st, cache_highwater st)"

lemma upd_cx_marks: "upd_cx a f st = Some st' \<Longrightarrow> marks st' = marks st"
  by (auto simp: upd_cx_def marks_def split: option.splits)

lemma append_cx_marks: "append_cx now a st = Some st' \<Longrightarrow> marks st' = marks st"
  by (auto simp: append_cx_def option_bind_eq_Some_iff split: option.splits dest!: upd_cx_marks) (simp_all add: marks_def)

lemma create_cx_marks: "create_cx now x q srv st = Some (a, st') \<Longrightarrow> marks st' = marks st"
  by (auto simp: create_cx_def option_bind_eq_Some_iff Let_def marks_def)



lemma cache_dnspacket_marks: "cache_dnspacket vc y now pkt len srv st = Some st' \<Longrightarrow> marks st' = marks st"
  by (auto simp: cache_dnspacket_def option_bind_eq_Some_iff split: if_splits
      dest!: upd_cx_marks append_cx_marks create_cx_marks)

lemma relay_ok_cache:
  assumes "relay_ok e st" and "cache_inv cs" and "cx_server ` set (cache_abs cs) \<subseteq> {r. ref_ok (domain_list st) r}"
    and "marks cs = marks (r_cache st)"
  shows "relay_ok e (st\<lparr>r_cache := cs\<rparr>)"
  using assms by (auto simp: relay_ok_def marks_def)

lemma debug_packet_safe:
  assumes "env_ok e" and "12 \<le> len" and "len \<le> length msg"
  shows "debug_packet e msg len = Some ()"
proof -
  obtain r b d where g: "get_objname (e_vc e) msg len 12 0 (e_name e) 256 = Some (r, b, d)" "length d = 256"
    using get_objname_safe [of len msg 256 "e_name e" "e_vc e" 12 0] assms by (auto simp: env_ok_def)
  then obtain x where "snprintf_cname (e_vc e) msg len 12 0 (e_name e) 256 = Some x"
    by (cases "r < 0") (auto simp: snprintf_cname_def strncpy_def malformatted_def bytes_of_def)
  moreover obtain r out where "dump_dnspacket (opt_debug (e_conf e)) (e_vc e) (e_rr e) msg len = Some (r, out)"
    using dump_dnspacket_safe [of len msg "e_rr e"] assms by (fastforce simp: env_ok_def)
  ultimately show ?thesis by (simp add: debug_packet_def)
qed



lemma relay_ok_rep_msg: "relay_ok e st \<Longrightarrow> length m = UDP_MAXSIZE + 4 \<Longrightarrow> relay_ok e (st\<lparr>rep_msg := m\<rparr>)"
  by (simp add: relay_ok_def)




lemma blit_front: "length src \<le> length dst \<Longrightarrow> blit dst 0 src = Some (src @ drop (length src) dst)"
  by (simp add: blit_def)




lemma check_reply_Some: "4 \<le> length m \<Longrightarrow> \<exists>v. check_reply m len = Some v \<and> (0 \<le> v \<longrightarrow> 12 \<le> len)"
  by (simp add: check_reply_def)



subsection \<open>Handling a reply keeps the invariant\<close>

lemma cache_dnspacket_total:
  assumes inv: "cache_inv st" and len: "12 \<le> len" "len \<le> UDP_MAXSIZE" "len \<le> length pkt"
    and y0: "length (rr_name y0) = RR_NAMESIZE" "0 \<in> set (rr_name y0)"
  shows "\<exists>st'. cache_dnspacket vc y0 now pkt len server st = Some st' \<and> cache_inv st' \<and>
    cx_server ` set (cache_abs st') \<subseteq> insert server (cx_server ` set (cache_abs st))"
proof -
  obtain r q where pq: "parse_query vc y0 pkt len = Some (r, q)" "length (rr_name q) = RR_NAMESIZE"
    using parse_query_safe [OF len(1,3) y0] by blast
  obtain x where x: "parse_packet pkt len = Some x" using parse_packet_Some [of len pkt] len by auto
  obtain n0 where n0: "peek (rr_name q) 0 = Some n0" using pq(2) by (simp add: RR_NAMESIZE_def)
  show ?thesis
  proof (cases "cache_onoff st \<and> r = 0 \<and> GET_QR (rr_flags q) \<noteq> 0 \<and> n0 \<noteq> 0")
    case True
    then obtain nm where nm: "cstr (rr_name q) = Some nm" using parse_query_name pq(1) by blast
    then have "nm \<noteq> []" using True n0 cstr_peek0 [OF nm] by auto
    then show ?thesis
      using cache_dnspacket_ok [OF inv _ _ _ nm _ _ len(2,3) x, of vc y0 now server] True pq(1) len(1)
      by (auto simp: new_entry_def split: if_splits)
  next
    case False
    then have "cache_dnspacket vc y0 now pkt len server st = Some st"
      using pq(1) n0 by (auto simp: cache_dnspacket_def)
    then show ?thesis using inv by auto
  qed
qed

text \<open>What a query receives on its socket: the datagram that passes the checks of \<open>reply_recv\<close> and
  \<open>check_reply\<close>.\<close>

definition accepted_reply :: "relay_env \<Rightarrow> relay_state \<Rightarrow> query_t \<Rightarrow> bytes option" where
  "accepted_reply e st q =
     (case e_recv e (q_sock q) of
        None \<Rightarrow> None
      | Some (dat, from) \<Rightarrow>
          (let dat = take UDP_MAXSIZE dat in
           if map_option sv_addr (srv_at st (q_srv q)) = Some (fst from) \<and> 12 \<le> length dat \<and>
              ntohs2 (dat ! 2) (dat ! 3) AND MASK_Z = 0 \<and> ntohs2 (dat ! 2) (dat ! 3) AND MASK_QR \<noteq> 0
           then Some dat else None))"

lemma deliver_reply_safe:
  assumes ok: "relay_ok e st" and env: "env_ok e" and q: "query_refs (domain_list st) q"
    and msg: "length msg = UDP_MAXSIZE + 4" "12 \<le> len" "len \<le> UDP_MAXSIZE"
  shows "\<exists>st'. deliver_reply e q msg len st = Some st' \<and> relay_ok e st' \<and> domain_list st' = domain_list st \<and>
    sent st' = sent st @ (if q_domain q = None then []
      else [\<lparr>dg_sock = isock (e_conf e), dg_to = q_client q,
             dg_data = ucast (client_qid q) # ucast (drop_bit 8 (client_qid q)) # drop 2 (take len msg),
             dg_ok = e_sendto e (length (sent st))\<rparr>])"
proof (cases "q_domain q")
  case None
  then show ?thesis using ok by (simp add: deliver_reply_def)
next
  case (Some dk)
  have y: "length (rr_name (e_rr e)) = RR_NAMESIZE" "0 \<in> set (rr_name (e_rr e))" using env by (simp_all add: env_ok_def)
  have ci: "cache_inv (r_cache st)" "len \<le> length msg" using ok msg by (simp_all add: relay_ok_def)
  obtain cs where cs: "cache_dnspacket (e_vc e) (e_rr e) (e_now e) msg len (q_srv q) (r_cache st) = Some cs" "cache_inv cs"
    "cx_server ` set (cache_abs cs) \<subseteq> insert (q_srv q) (cx_server ` set (cache_abs (r_cache st)))"
    using cache_dnspacket_total [OF ci(1) msg(2,3) ci(2) y] by blast
  have "cx_server ` set (cache_abs cs) \<subseteq> {r. ref_ok (domain_list st) r}"
    using cs(3) q ok by (auto simp: relay_ok_def query_refs_def)
  then have ok1: "relay_ok e (st\<lparr>r_cache := cs\<rparr>)"
    using cache_dnspacket_marks [OF cs(1)] by (intro relay_ok_cache [OF ok cs(2)])
  let ?m = "ucast (client_qid q) # ucast (drop_bit 8 (client_qid q)) # drop 2 msg"
  have m: "set_host16 msg (client_qid q) = Some ?m" "length ?m = UDP_MAXSIZE + 4"
    using msg(1) set_host16_Some [of msg] by simp_all
  have tk: "take len ?m = ucast (client_qid q) # ucast (drop_bit 8 (client_qid q)) # drop 2 (take len msg)"
  proof -
    define n where "n = len - 2"
    then have "len = Suc (Suc n)" using msg(2) by simp
    then show ?thesis by (simp add: drop_take)
  qed
  show ?thesis
    using Some cs(1) m ok1 msg tk relay_ok_rep_msg [OF ok1 m(2)]
    by (simp add: deliver_reply_def os_sendto_def Let_def)
qed

lemma udp_handle_reply_ok:
  assumes ok: "relay_ok e st" and env: "env_ok e" and p: "p < length (qlist (r_query st))"
  defines "q \<equiv> qlist (r_query st) ! p"
  shows "\<exists>st'. udp_handle_reply e p st = Some st' \<and> relay_ok e st' \<and> shape (domain_list st') = shape (domain_list st) \<and>
    qlist (r_query st') = take p (qlist (r_query st)) @ drop (p + 1) (qlist (r_query st)) \<and>
    sent st' = sent st @ (case accepted_reply e st q of
        None \<Rightarrow> []
      | Some dat \<Rightarrow> if q_domain q = None then []
          else [\<lparr>dg_sock = isock (e_conf e), dg_to = q_client q,
                 dg_data = ucast (client_qid q) # ucast (drop_bit 8 (client_qid q)) # drop 2 dat,
                 dg_ok = e_sendto e (length (sent st))\<rparr>]) \<and>
    (accepted_reply e st q \<noteq> None \<longrightarrow> (\<exists>s. srv_at st' (q_srv q) = Some s \<and> send_time s = 0 \<and> sv_inactive s = 0))"
proof -
  have qr: "query_refs (domain_list st) q" using ok p by (simp add: relay_ok_def list_all_length q_def)
  then have rf: "ref_ok (domain_list st) (q_srv q)" "0 < snd (q_srv q)" by (simp_all add: query_refs_def)
  have lr: "length (rep_msg st) = UDP_MAXSIZE + 4" using ok by (simp add: relay_ok_def)
  have del: "\<exists>st'. relay_delete_next p s = Some st' \<and> relay_ok e st' \<and> domain_list st' = domain_list s \<and> sent st' = sent s \<and>
      qlist (r_query st') = take p (qlist (r_query st)) @ drop (p + 1) (qlist (r_query st))"
    if "relay_ok e s" "r_query s = r_query st" for s
    using relay_delete_next_safe [OF that(1), of p] p that(2) by fastforce
  show ?thesis
  proof (cases "e_recv e (q_sock q)")
    case None
    then show ?thesis using del [of "st\<lparr>rep_msg := rep_msg st\<rparr>"] ok p
      by (auto simp: udp_handle_reply_def reply_recv_def q_def accepted_reply_def Let_def)
  next
    case (Some x)
    obtain d0 "from" where x: "x = (d0, from)" by (cases x)
    define dat where "dat = take UDP_MAXSIZE d0"
    have ld: "length dat \<le> UDP_MAXSIZE" by (simp add: dat_def)
    let ?m = "dat @ drop (length dat) (rep_msg st)"
    have bl: "blit (rep_msg st) 0 dat = Some ?m" using ld lr by (intro blit_front) simp
    have lm: "length ?m = UDP_MAXSIZE + 4" using ld lr by simp
    let ?s = "dn_srvlist (domain_list st ! fst (q_srv q)) ! snd (q_srv q)"
    let ?n = "if fst from \<noteq> sv_addr ?s then 0 else length dat"
    have rr: "reply_recv e q (rep_msg st) UDP_MAXSIZE st = Some (int ?n, ?m)"
      using Some x bl by (simp add: reply_recv_def dat_def srv_at_ref [OF rf(1)] Let_def)
    let ?st0 = "st\<lparr>rep_msg := ?m\<rparr>"
    have ok0: "relay_ok e ?st0" by (rule relay_ok_rep_msg [OF ok lm])
    have cr: "check_reply ?m ?n = Some (if ?n < 12 then -1 else if ntohs2 (?m ! 2) (?m ! 3) AND MASK_Z \<noteq> 0 then -1
        else if \<not> (ntohs2 (?m ! 2) (?m ! 3) AND MASK_QR \<noteq> 0) then -1 else 0)"
      using lm by (simp add: check_reply_def)
    let ?good = "12 \<le> ?n \<and> ntohs2 (?m ! 2) (?m ! 3) AND MASK_Z = 0 \<and> ntohs2 (?m ! 2) (?m ! 3) AND MASK_QR \<noteq> 0"
    have acc: "accepted_reply e st q = (if ?good then Some dat else None)"
      using Some x by (auto simp: accepted_reply_def dat_def srv_at_ref [OF rf(1)] nth_append Let_def)
    show ?thesis
    proof (cases ?good)
      case False
      then have "udp_handle_reply e p st = relay_delete_next p ?st0"
        using p rr cr by (auto simp: udp_handle_reply_def q_def [symmetric] Let_def)
      then show ?thesis using del [OF ok0] False acc by auto
    next
      case True
      then have n: "?n = length dat" "12 \<le> length dat" by (auto split: if_splits)
      have lmm: "length dat \<le> length ?m" by simp
      obtain a where a: "(if opt_debug (e_conf e) = 0 then Some (0, 0, [])
          else snprintf_cname (e_vc e) ?m (length dat) 12 0 (e_name e) 256) = Some a"
        using debug_packet_safe [OF env n(2) lmm] by (auto simp: debug_packet_def option_bind_eq_Some_iff split: if_splits)
      obtain b where b: "dump_dnspacket (opt_debug (e_conf e)) (e_vc e) (e_rr e) ?m (length dat) = Some b"
        using dump_dnspacket_safe [of "length dat" ?m "e_rr e"] env n(2) by (fastforce simp: env_ok_def)
      have qr0: "query_refs (domain_list ?st0) q" using qr by simp
      obtain st1 where st1: "deliver_reply e q ?m (length dat) ?st0 = Some st1" "relay_ok e st1" "domain_list st1 = domain_list ?st0"
        "sent st1 = sent ?st0 @ (if q_domain q = None then []
          else [\<lparr>dg_sock = isock (e_conf e), dg_to = q_client q,
             dg_data = ucast (client_qid q) # ucast (drop_bit 8 (client_qid q)) # drop 2 (take (length dat) ?m),
             dg_ok = e_sendto e (length (sent ?st0))\<rparr>])"
        using deliver_reply_safe [OF ok0 env qr0 lm n(2) ld] by blast
      let ?f = "\<lambda>s. s\<lparr>send_time := 0, sv_inactive := 0\<rparr>"
      have rf1: "ref_ok (domain_list st1) (q_srv q)" using rf(1) st1(3) by simp
      obtain d' where d': "upd_srv_at (q_srv q) ?f st1 = Some (st1\<lparr>domain_list := (domain_list st1)[fst (q_srv q) := d']\<rparr>)"
        "d' = (domain_list st1 ! fst (q_srv q))\<lparr>dn_srvlist := (dn_srvlist (domain_list st1 ! fst (q_srv q)))[snd (q_srv q) := ?f (dn_srvlist (domain_list st1 ! fst (q_srv q)) ! snd (q_srv q))]\<rparr>"
        "relay_ok e (st1\<lparr>domain_list := (domain_list st1)[fst (q_srv q) := d']\<rparr>)"
        "shape ((domain_list st1)[fst (q_srv q) := d']) = shape (domain_list st1)"
        using upd_srv_at_safe [OF st1(2) rf1, of ?f] rf(2) by blast
      let ?st2 = "st1\<lparr>domain_list := (domain_list st1)[fst (q_srv q) := d']\<rparr>"
      have "r_query ?st2 = r_query st" using deliver_reply_query [OF st1(1)] by simp
      from del [OF d'(3) this] obtain st' where st': "relay_delete_next p ?st2 = Some st'" "relay_ok e st'"
        "domain_list st' = domain_list ?st2" "sent st' = sent ?st2"
        "qlist (r_query st') = take p (qlist (r_query st)) @ drop (p + 1) (qlist (r_query st))" by blast
      have run: "udp_handle_reply e p st = Some st'"
        using p rr cr True n a b st1(1) d'(1) st'(1)
        by (cases "opt_debug (e_conf e) = 0") (simp_all add: udp_handle_reply_def q_def [symmetric] Let_def)
      have alive: "\<exists>s. srv_at st' (q_srv q) = Some s \<and> send_time s = 0 \<and> sv_inactive s = 0"
        using rf1 by (simp add: srv_at_def st'(3) d'(2) ref_ok_def)
      show ?thesis using run st' d'(4) st1(3,4) acc True alive by simp
    qed
  qed
qed



subsection \<open>Maintenance\<close>




subsection \<open>Correctness of the relay\<close>


text \<open>C2. A reply reaches its client.  When the server of a pending query that belongs to a domain (one that
  is no dummy query) answers, in a well-formed state, with a packet of at
  least 12 and at most 512 bytes whose response bit is set and whose Z bit is clear, the client
  receives exactly this packet under the id it chose itself, the query is removed, and the server
  counts as active again.  A datagram from another address is not forwarded.\<close>

theorem reply_reaches_client:
  assumes "relay_ok e st" and "env_ok e" and "p < length (qlist (r_query st))"
    and "q = qlist (r_query st) ! p" and "q_domain q = Some dk" and "srv_at st (q_srv q) = Some s"
    and "e_recv e (q_sock q) = Some (dat, from)" and "12 \<le> length dat" and "length dat \<le> UDP_MAXSIZE"
    and "ntohs2 (dat ! 2) (dat ! 3) AND MASK_Z = 0" and "ntohs2 (dat ! 2) (dat ! 3) AND MASK_QR \<noteq> 0"
  shows "\<exists>st'. udp_handle_reply e p st = Some st' \<and> relay_ok e st' \<and>
    qlist (r_query st') = take p (qlist (r_query st)) @ drop (p + 1) (qlist (r_query st)) \<and>
    (if fst from = sv_addr s
     then (\<exists>ok m. sent st' = sent st @ [\<lparr>dg_sock = isock (e_conf e), dg_to = q_client q, dg_data = m, dg_ok = ok\<rparr>] \<and>
             host16 m = Some (client_qid q) \<and> drop 2 m = drop 2 dat \<and> length m = length dat) \<and>
          (\<exists>s'. srv_at st' (q_srv q) = Some s' \<and> send_time s' = 0 \<and> sv_inactive s' = 0)
     else sent st' = sent st)"
proof -
  have acc: "accepted_reply e st q = (if fst from = sv_addr s then Some dat else None)"
    using assms(6-11) by (auto simp: accepted_reply_def Let_def)
  let ?m = "ucast (client_qid q) # ucast (drop_bit 8 (client_qid q)) # drop 2 dat"
  have "host16 ?m = Some (client_qid q)" by (simp add: host16_def)
  moreover have "length ?m = length dat" using assms(8) by simp
  ultimately show ?thesis
    using udp_handle_reply_ok [OF assms(1-3)] acc assms(5) unfolding assms(4) [symmetric] by fastforce
qed

text \<open>C36. Forwarding ends.  With reactivation switched on and a current server in the domain of the query,
  send2current tries every active server of
  the domain at most once (and a current server that is already inactive once), all with the same
  packet on the socket of the query: it stops at the first send that succeeds, or with no server
  left active when all sends fail.\<close>

theorem send2current_terminates:
  assumes "relay_ok e st" and "q_domain q = Some dk" and "dk < length (domain_list st)" and "0 < len"
    and "len \<le> length msg" and "reactivate_interval (e_conf e) \<noteq> 0" and "e_now e \<noteq> 0"
    and "dn_current (domain_list st ! dk) = Some c"
  shows "\<exists>n st' dgs. send2current e q msg len st = Some (n, st') \<and> relay_ok e st' \<and> sent st' = sent st @ dgs \<and>
    length dgs \<le> card {k. k < length (dn_srvlist (domain_list st ! dk)) \<and> sv_inactive (dn_srvlist (domain_list st ! dk) ! k) = 0} + 1 \<and>
    (\<forall>g \<in> set dgs. dg_sock g = q_sock q \<and> dg_data g = take len msg) \<and>
    (n = len \<and> (\<exists>fs g. dgs = fs @ [g] \<and> dg_ok g \<and> (\<forall>f \<in> set fs. \<not> dg_ok f)) \<or>
     n = 0 \<and> (\<forall>g \<in> set dgs. \<not> dg_ok g) \<and>
       (\<forall>k < length (dn_srvlist (domain_list st' ! dk)). sv_inactive (dn_srvlist (domain_list st' ! dk) ! k) \<noteq> 0))"
proof -
  obtain st' dgs where st': "send_loop e (q_sock q) dk msg len st = Some st'" "relay_ok e st'"
    "shape (domain_list st') = shape (domain_list st)" "sent st' = sent st @ dgs" "length dgs \<le> tries_left (domain_list st ! dk)"
    "\<forall>g \<in> set dgs. dg_sock g = q_sock q \<and> dg_data g = take len msg"
    "if dn_current (domain_list st' ! dk) = None
     then (\<forall>g \<in> set dgs. \<not> dg_ok g) \<and>
       (dn_current (domain_list st ! dk) \<noteq> None \<or> active_set (domain_list st ! dk) = {} \<longrightarrow> active_set (domain_list st' ! dk) = {})
     else \<exists>fs g. dgs = fs @ [g] \<and> dg_ok g \<and> (\<forall>f \<in> set fs. \<not> dg_ok f)"
    using send_loop_ends [OF assms(1,3,5-7), of "q_sock q"] by (elim exE conjE) (rule that)
  have "dk < length (domain_list st')" using assms(3) shape_length [OF st'(3)] by simp
  then have run: "send2current e q msg len st = Some (if dn_current (domain_list st' ! dk) \<noteq> None then len else 0, st')"
    using st'(1) assms(2) by (simp add: send2current_def)
  have bound: "length dgs \<le> card (active_set (domain_list st ! dk)) + 1"
    using st'(5) by (auto simp: tries_left_def split: option.splits if_splits)
  show ?thesis
    using run st'(2,4,6,7) bound assms(8) unfolding active_set_def
    by (cases "dn_current (domain_list st' ! dk)") auto
qed

lemma udp_send_fails:
  assumes "udp_send e sock r msg len st = Some (ok, st1)" and "\<forall>k. \<not> e_sendto e k"
  shows "\<not> ok \<and> domain_list st1 = domain_list st"
  using assms by (auto simp: udp_send_def os_sendto_def option_bind_eq_Some_iff Let_def split: if_splits)

definition stuck :: "relay_env \<Rightarrow> nat \<Rightarrow> relay_state \<Rightarrow> bool" where
  "stuck e dk st \<longleftrightarrow> reactivate_interval (e_conf e) = 0 \<and> (\<forall>k. \<not> e_sendto e k) \<and>
     dk < length (domain_list st) \<and> dn_current (domain_list st ! dk) \<noteq> None"

lemma send_loop_diverges: "send_loop e sock dk msg len st = Some st' \<Longrightarrow> \<not> stuck e dk st"
proof (rule send_loop.raw_induct [where P = "\<lambda>e sock dk msg len st st'. \<not> stuck e dk st"])
  fix f e sock dk msg len st st'
  assume IH: "\<And>e sock dk msg len st st'. f e sock dk msg len st = Some st' \<Longrightarrow> \<not> stuck e dk st"
    and run: "(case peek (domain_list st) dk of
        None \<Rightarrow> None
      | Some d \<Rightarrow>
          (case dn_current d of
             None \<Rightarrow> Some st
           | Some c \<Rightarrow>
               (case udp_send e sock (dk, c) msg len st of
                  None \<Rightarrow> None
                | Some (ok, st1) \<Rightarrow>
                    if ok then Some st1
                    else if reactivate_interval (e_conf e) \<noteq> 0
                    then (case upd_dom dk (\<lambda>d. map_option fst (deactivate_current (e_now e) d)) st1 of
                            None \<Rightarrow> None
                          | Some st2 \<Rightarrow> f e sock dk msg len st2)
                    else f e sock dk msg len st1))) = Some st'"
  show "\<not> stuck e dk st"
  proof
    assume stuck: "stuck e dk st"
    then obtain c where c: "dn_current (domain_list st ! dk) = Some c" by (auto simp: stuck_def)
    then obtain ok st1 where st1: "udp_send e sock (dk, c) msg len st = Some (ok, st1)"
      using run stuck by (auto simp: stuck_def split: option.splits)
    have f: "\<not> ok" "domain_list st1 = domain_list st" using udp_send_fails [OF st1] stuck by (auto simp: stuck_def)
    then have "f e sock dk msg len st1 = Some st'" using run stuck c st1 by (simp add: stuck_def)
    then show False using IH f(2) stuck by (fastforce simp: stuck_def)
  qed
qed

text \<open>Without reactivation forwarding can hang.  With reactivate\_interval = 0 the loop of
  send2current does not give a server up: while sendto fails it repeats the same call, and if
  sendto keeps failing the daemon never leaves the loop.\<close>

theorem send2current_hangs:
  assumes "reactivate_interval (e_conf e) = 0" and "\<forall>k. \<not> e_sendto e k" and "q_domain q = Some dk"
    and "dk < length (domain_list st)" and "dn_current (domain_list st ! dk) = Some c"
  shows "send2current e q msg len st = None"
proof (cases "send_loop e (q_sock q) dk msg len st")
  case None
  then show ?thesis using assms(3) by (simp add: send2current_def)
next
  case (Some st')
  from send_loop_diverges [OF this] assms show ?thesis by (simp add: stuck_def)
qed

text \<open>The id of a dummy query is a poison.  While the probe of a deactivated server is pending, a
  client request that carries the id under which the probe is stored is attached to the probe,
  which has no domain: the assertion in send2current fails and the daemon aborts.\<close>

theorem dummy_id_aborts:
  assumes "dk < length (domain_list st)" and "dn_current (domain_list st ! dk) = Some c" and "2 \<le> length msg"
    and "host16 msg = Some cq" and "find_client (qlist (r_query st)) 0 cq = Some p"
    and "q_domain (qlist (r_query st) ! p) = None"
  shows "forward_request e dk from msg len st = None"
proof -
  have p: "p < length (qlist (r_query st))" using find_client_Some [OF assms(5)] by simp
  then show ?thesis
    using assms set_host16_Some [of msg]
    by (simp add: forward_request_def relay_query_add_def query_add_def send2current_def Let_def)
qed

subsection \<open>A relay at work\<close>

definition demo_reply :: bytes where
  "demo_reply = [9, 9, 0x81, 0x80, 0, 1, 0, 0, 0, 0, 0, 0, 1, 97, 0, 0, 1, 0, 1]"

definition demo_socket :: "nat set \<Rightarrow> nat option" where
  "demo_socket S = find (\<lambda>fd. fd \<notin> S) [4..<FD_SETSIZE]"

definition demo_relay_env :: relay_env where
  "demo_relay_env = \<lparr>e_conf = default_conf, e_now = 100, e_sendto = (\<lambda>_. True),
     e_socket = (\<lambda>k. demo_socket),
     e_recv = (\<lambda>s. if s = 5 then Some (demo_reply, (1, 10053)) else if s = 3 then Some (dummy_packet, (7, 4000)) else None),
     e_vc = init_dns 1, e_rr = blank_rr, e_name = replicate 256 0, e_packet = replicate 516 0, e_srcaddr = (0, 0),
     e_qsort = cmp_isort, e_master = demo_env\<rparr>"

definition demo_relay :: "query_state \<Rightarrow> relay_state" where
  "demo_relay qs = \<lparr>domain_list = [demo_domain], r_cache = cache_start, r_query = qs, r_master = demo_master,
     req_msg = replicate 516 0, rep_msg = replicate 516 0, dnsbuf = dummy_packet, sent = [], sockets = 0,
     react_last = 0, deact_last = 0, srv_last = 0, query_last = 0, srv_log = []\<rparr>"

definition demo_query :: "nat option \<Rightarrow> u16 \<Rightarrow> query_t" where
  "demo_query dm i = \<lparr>q_sock = 5, q_srv = (0, 1), q_domain = dm, my_qid = i, client_qid = 0, q_client = (7, 4000),
     client_time = 99, client_count = 1, q_ttl = 12\<rparr>"

lemma demo_env_ok: "env_ok demo_relay_env"
proof -
  have "fd < FD_SETSIZE \<and> fd \<notin> S" if "demo_socket S = Some fd" for fd S
    using that by (auto simp: demo_socket_def find_Some_iff)
  then show ?thesis
    by (simp add: env_ok_def demo_relay_env_def blank_rr_def RR_NAMESIZE_def UDP_MAXSIZE_def default_conf_def
        QID_POOL_SIZE_def cmp_isort_ok)
qed

lemma demo_relay_ok:
  assumes "query_ok default_conf qs" and "list_all (query_refs [demo_domain]) (qlist qs)"
  shows "relay_ok demo_relay_env (demo_relay qs)"
proof -
  have "e_conf demo_relay_env = default_conf" by (simp add: demo_relay_env_def)
  then show ?thesis
    using assms cache_start_inv demo_master_init demo_domain_ok
    by (simp add: relay_ok_def demo_relay_def domlist_ok_def cache_start_def CACHE_HIGHWATER_def CACHE_LOWWATER_def
        UDP_MAXSIZE_def)
qed

lemma demo_pending:
  "\<exists>qs i. query_ok default_conf qs \<and> qlist qs = [demo_query dm i]"
proof -
  obtain s where s: "qid_init_pool (\<lambda>_. 7) qid_static = Some s" "qid_ok s []" using qid_init_pool_ok by blast
  obtain i s' where i: "qid_get s = Some (i, s')" "qid_ok s' ([] @ [i])"
    using qids.get_append [OF s(2)] by (auto simp: QID_POOL_SIZE_def)
  let ?qs = "demo_queries\<lparr>qlist := [demo_query dm i], qlist_tail := 1, upstream_sockets := 1, fdmaster := {3, 5}, qid_st := s'\<rparr>"
  have "query_ok default_conf ?qs" using i(2) by (auto simp: query_ok_def demo_query_def default_conf_def)
  then show ?thesis by (intro exI [of _ ?qs] exI [of _ i]) simp
qed

lemma demo_query_refs: "query_refs [demo_domain] (demo_query (Some 0) i)" "query_refs [demo_domain] (demo_query None i)"
  by (simp_all add: query_refs_def ref_ok_def demo_query_def demo_domain_def)

theorem reply_reaches_client_witness:
  "\<exists>qs i st'. relay_ok demo_relay_env (demo_relay qs) \<and> qlist qs = [demo_query (Some 0) i] \<and>
     udp_handle_reply demo_relay_env 0 (demo_relay qs) = Some st' \<and> qlist (r_query st') = [] \<and>
     (\<exists>g. sent st' = [g] \<and> dg_to g = (7, 4000) \<and> drop 2 (dg_data g) = drop 2 demo_reply)"
proof -
  obtain qs i where q: "query_ok default_conf qs" "qlist qs = [demo_query (Some 0) i]"
    using demo_pending [of "Some 0"] by blast
  have ok: "relay_ok demo_relay_env (demo_relay qs)"
    using q demo_query_refs by (intro demo_relay_ok) simp_all
  let ?q = "qlist (r_query (demo_relay qs)) ! 0"
  have *: "0 < length (qlist (r_query (demo_relay qs)))" "q_domain ?q = Some 0"
    "srv_at (demo_relay qs) (q_srv ?q) = Some (demo_server 1 0)"
    "e_recv demo_relay_env (q_sock ?q) = Some (demo_reply, (1, 10053))"
    by (simp_all add: demo_relay_def q(2) demo_query_def srv_at_def demo_domain_def demo_relay_env_def)
  have r: "12 \<le> length demo_reply" "length demo_reply \<le> UDP_MAXSIZE" "ntohs2 (demo_reply ! 2) (demo_reply ! 3) AND MASK_Z = 0"
    "ntohs2 (demo_reply ! 2) (demo_reply ! 3) AND MASK_QR \<noteq> 0"
    by code_simp+
  have s: "sv_addr (demo_server 1 0) = 1" "sent (demo_relay qs) = []" by (simp_all add: demo_server_def demo_relay_def)
  from reply_reaches_client [OF ok demo_env_ok *(1) refl *(2-4) r] ok q(2) s show ?thesis
    by (fastforce simp: demo_relay_def demo_query_def)
qed

lemma demo_relay_idle_ok: "relay_ok demo_relay_env (demo_relay demo_queries)"
  using demo_queries_ok by (intro demo_relay_ok) (simp_all add: demo_queries_def)



theorem send2current_terminates_witness:
  "\<exists>n st'. send2current demo_relay_env (demo_query (Some 0) 1) dummy_packet 27 (demo_relay demo_queries) = Some (n, st') \<and>
     relay_ok demo_relay_env st'"
proof -
  have "q_domain (demo_query (Some 0) 1) = Some 0" "0 < length (domain_list (demo_relay demo_queries))" "(0 :: nat) < 27"
    "27 \<le> length dummy_packet" "reactivate_interval (e_conf demo_relay_env) \<noteq> 0" "e_now demo_relay_env \<noteq> 0"
    "dn_current (domain_list (demo_relay demo_queries) ! 0) = Some 1"
    by (simp_all add: demo_query_def demo_relay_def length_dummy_packet demo_relay_env_def default_conf_def demo_domain_def)
  from send2current_terminates [OF demo_relay_idle_ok this] show ?thesis by blast
qed

theorem send2current_hangs_witness:
  "send2current (demo_relay_env\<lparr>e_conf := default_conf\<lparr>reactivate_interval := 0\<rparr>, e_sendto := (\<lambda>_. False)\<rparr>)
     (demo_query (Some 0) 1) dummy_packet 27 (demo_relay demo_queries) = None"
  by (rule send2current_hangs [where dk = 0 and c = 1]) (simp_all add: demo_query_def demo_relay_def demo_domain_def)

theorem dummy_id_aborts_witness:
  "\<exists>qs i. relay_ok demo_relay_env (demo_relay qs) \<and> qlist qs = [demo_query None i] \<and>
     forward_request demo_relay_env 0 (8, 4001) dummy_packet 27 (demo_relay qs) = None"
proof -
  obtain qs i where q: "query_ok default_conf qs" "qlist qs = [demo_query None i]"
    using demo_pending [of None] by blast
  have ok: "relay_ok demo_relay_env (demo_relay qs)" using q demo_query_refs by (intro demo_relay_ok) simp_all
  have h: "host16 dummy_packet = Some 0" by code_simp
  have "forward_request demo_relay_env 0 (8, 4001) dummy_packet 27 (demo_relay qs) = None"
    by (rule dummy_id_aborts [where c = 1 and cq = 0 and p = 0])
      (simp_all add: h demo_relay_def demo_domain_def q(2) demo_query_def length_dummy_packet)
  then show ?thesis using ok q(2) by blast
qed

end
