(* ===== verification/Rinetd_Match.thy ===== *)
theory Rinetd_Match
  imports CB_Prelude "HOL-Library.Sublist"
begin

section \<open>rinetd: address patterns (match.c)\<close>

text \<open>
  A \<open>char *\<close> is the list of the bytes from there to the end of its buffer, so that \<open>p++\<close> is
  the tail of the list and reading behind the buffer is \<open>None\<close>.  In the search for a word,
  \<open>s\<close> is the list \<open>s0\<close> where the current attempt starts without its first \<open>wordPos\<close>
  bytes, and \<open>s -= wordPos\<close> returns to \<open>s0\<close>.  The test for \<open>WS-0000\<close> only sets a variable
  that is never read.
\<close>

definition CASE :: "bool \<Rightarrow> byte \<Rightarrow> byte" where
  "CASE nocase c = (if nocase then tolower c else c)"

text \<open>Bytes 92, 42, 63 and 124 are backslash, star, question mark and bar.  The word behind a star
  goes up to the next star, or up to and including the end of the pattern.\<close>

fun word_end :: "bytes \<Rightarrow> (bytes \<times> bytes) option" where
  "word_end [] = None"
| "word_end (c # p) =
     (if c = 42 then Some ([], c # p)
      else if c = 0 \<or> c = 124 then Some ([c], c # p)
      else map_option (\<lambda>(w, r). (c # w, r)) (word_end p))"

lemma word_end_length: "word_end p = Some (w, r) \<Longrightarrow> length r \<le> length p"
  by (induction p arbitrary: w) (auto split: if_splits)

text \<open>The condition under which \<open>*s\<close> matches a byte of the word.\<close>

definition word_char :: "bool \<Rightarrow> byte \<Rightarrow> byte \<Rightarrow> bool" where
  "word_char nocase c w \<longleftrightarrow> CASE nocase c = CASE nocase w \<or> c = 0 \<and> w = 124 \<or> (c \<noteq> 0 \<and> c \<noteq> 124) \<and> w = 63"

text \<open>\<open>Some None\<close> is \<open>goto nextPattern\<close>; otherwise the result is \<open>s\<close> behind the word.\<close>

function word_search :: "bool \<Rightarrow> bytes \<Rightarrow> bytes \<Rightarrow> nat \<Rightarrow> bytes option option" where
  "word_search nocase w s0 wordPos =
     (if length w \<le> wordPos then Some (Some (drop wordPos s0))
      else (case drop wordPos s0 of
              [] \<Rightarrow> None
            | c # _ \<Rightarrow>
                if word_char nocase c (w ! wordPos) then word_search nocase w s0 (wordPos + 1)
                else if hd s0 = 0 then Some None
                else word_search nocase w (tl s0) 0))"
  by pat_completeness auto
termination
  by (relation "measures [\<lambda>(n, w, s, k). length s, \<lambda>(n, w, s, k). length w - k]") (auto simp: drop_eq_Nil2 neq_Nil_conv)

declare word_search.simps [simp del]

text \<open>The rest of the pattern behind the next bar, \<open>Some None\<close> at the end of the pattern.\<close>

fun next_pattern :: "bytes \<Rightarrow> bytes option option" where
  "next_pattern [] = None"
| "next_pattern (c # p) = (if c = 0 then Some None else if c = 124 then Some (Some p) else next_pattern p)"

lemma next_pattern_length: "next_pattern p = Some (Some r) \<Longrightarrow> length r < length p"
  by (induction p) (auto split: if_splits)

function (sequential) match_loop :: "bool \<Rightarrow> bytes \<Rightarrow> bytes \<Rightarrow> bytes \<Rightarrow> bool \<Rightarrow> bool option" where
  "match_loop nocase sorig s [] escaped = None"
| "match_loop nocase sorig s (c # p) escaped =
     (if \<not> escaped \<and> c = 92 then match_loop nocase sorig s p True
      else if \<not> escaped \<and> c = 42
      then (case word_end p of
              None \<Rightarrow> None
            | Some (w, r) \<Rightarrow>
                (case word_search nocase w s 0 of
                   None \<Rightarrow> None
                 | Some None \<Rightarrow>
                     (case next_pattern r of
                        None \<Rightarrow> None
                      | Some None \<Rightarrow> Some False
                      | Some (Some p') \<Rightarrow> match_loop nocase sorig sorig p' False)
                 | Some (Some s') \<Rightarrow>
                     if r \<noteq> [] \<and> (hd r = 0 \<or> hd r = 124) then Some True
                     else match_loop nocase sorig s' r False))
      else if \<not> escaped \<and> c = 63 then match_loop nocase sorig (drop 1 s) p False
      else (case s of
              [] \<Rightarrow> None
            | d # s' \<Rightarrow>
                if d = 0 \<and> (c = 0 \<or> \<not> escaped \<and> c = 124) then Some True
                else if CASE nocase c \<noteq> CASE nocase d
                then (case next_pattern (c # p) of
                        None \<Rightarrow> None
                      | Some None \<Rightarrow> Some False
                      | Some (Some p') \<Rightarrow> match_loop nocase sorig sorig p' False)
                else match_loop nocase sorig s' p False))"
  by pat_completeness auto
termination
  by (relation "measure (\<lambda>(n, so, s, p, e). length p)")
     (auto simp del: next_pattern.simps dest!: word_end_length next_pattern_length)

definition matchBody :: "bytes \<Rightarrow> bytes \<Rightarrow> bool \<Rightarrow> bool option" where
  "matchBody sorig p nocase = match_loop nocase sorig sorig p False"

definition match :: "bytes \<Rightarrow> bytes \<Rightarrow> bool option" where
  "match sorig p = matchBody sorig p False"

definition matchNoCase :: "bytes \<Rightarrow> bytes \<Rightarrow> bool option" where
  "matchNoCase sorig p = matchBody sorig p True"

subsection \<open>Reference: what a pattern means\<close>

fun glob :: "bool \<Rightarrow> bytes \<Rightarrow> bytes \<Rightarrow> bool" where
  "glob nocase [] s = (s = [])"
| "glob nocase (c # p) s =
     (if c = 42 then list_ex (\<lambda>k. glob nocase p (drop k s)) [0..<Suc (length s)]
      else s \<noteq> [] \<and> (c = 63 \<or> CASE nocase c = CASE nocase (hd s)) \<and> glob nocase p (tl s))"

fun alternatives :: "bytes \<Rightarrow> bytes list" where
  "alternatives [] = [[]]"
| "alternatives (c # p) =
     (if c = 124 then [] # alternatives p
      else (case alternatives p of [] \<Rightarrow> [[c]] | a # as \<Rightarrow> (c # a) # as))"

definition plain_text :: "bytes \<Rightarrow> bool" where
  "plain_text u \<longleftrightarrow> 0 \<notin> set u \<and> 124 \<notin> set u"

text \<open>A question mark outside the words must not run over the end of the text.\<close>

definition head_fits :: "bytes \<Rightarrow> bytes \<Rightarrow> bool" where
  "head_fits a u \<longleftrightarrow> (let h = takeWhile (\<lambda>c. c \<noteq> 42) a in 63 \<in> set h \<longrightarrow> length h \<le> length u)"

subsection \<open>The search for a word\<close>

text \<open>A word without stars matches at the front of a text.\<close>

fun word_at :: "bool \<Rightarrow> bytes \<Rightarrow> bytes \<Rightarrow> bool" where
  "word_at nocase [] s = True"
| "word_at nocase (w # ws) s = (s \<noteq> [] \<and> word_char nocase (hd s) w \<and> word_at nocase ws (tl s))"

lemma word_at_length: "word_at nc w s \<Longrightarrow> length w \<le> length s"
  by (induction nc w s rule: word_at.induct) (auto simp: neq_Nil_conv)

lemma word_at_append: "word_at nc (v @ w) s \<longleftrightarrow> word_at nc v s \<and> word_at nc w (drop (length v) s)"
  by (induction v arbitrary: s) (auto simp: drop_Suc)

lemma word_at_nth:
  assumes "k < length w"
  shows "word_at nc (take (Suc k) w) s \<longleftrightarrow> word_at nc (take k w) s \<and> drop k s \<noteq> [] \<and> word_char nc (hd (drop k s)) (w ! k)"
  using assms by (simp add: take_Suc_conv_app_nth word_at_append)

lemma CASE_eq_0 [simp]: "CASE nc c = 0 \<longleftrightarrow> c = 0" "0 = CASE nc c \<longleftrightarrow> c = 0" "CASE nc 0 = 0"
  by (auto simp: CASE_def eq_commute [of 0 "tolower c"])

lemma CASE_eq_bar [simp]: "CASE nc c = CASE nc 124 \<longleftrightarrow> c = 124"
  by (auto simp: CASE_def ctype_defs split: if_splits)

lemma word_at_no_NUL:
  "word_at nc v s \<Longrightarrow> \<forall>c \<in> set v. c \<noteq> 0 \<and> c \<noteq> 124 \<Longrightarrow> 0 \<notin> set (take (length v) s)"
proof (induction nc v s rule: word_at.induct)
  case (2 nc w ws s)
  then show ?case by (cases s) (auto simp: word_char_def)
qed simp

text \<open>In a text that ends in a NUL, the search finds the first place where the word matches.\<close>

lemma word_search_scan:
  assumes "0 \<in> set s0" and "word_at nc (take k w) s0" and "k \<le> length w"
    and "\<forall>c \<in> set (butlast w). c \<noteq> 0 \<and> c \<noteq> 124"
  shows "word_search nc w s0 k =
    (if word_at nc w s0 then Some (Some (drop (length w) s0))
     else if hd s0 = 0 then Some None else word_search nc w (tl s0) 0)"
  using assms(2,3)
proof (induction "length w - k" arbitrary: k)
  case 0
  then show ?case by (subst word_search.simps) simp
next
  case (Suc n)
  then have k: "k < length w" by simp
  have "take k w = take k (butlast w)" using k by (simp add: take_butlast)
  then have tk: "\<forall>c \<in> set (take k w). c \<noteq> 0 \<and> c \<noteq> 124" using assms(4) by (metis in_set_takeD)
  have ne: "drop k s0 \<noteq> []"
  proof
    assume "drop k s0 = []"
    then have "take (length (take k w)) s0 = s0" using k by simp
    then show False using word_at_no_NUL [OF Suc.prems(1) tk] assms(1) by simp
  qed
  then obtain c r where c: "drop k s0 = c # r" by (cases "drop k s0") auto
  show ?case
  proof (cases "word_char nc c (w ! k)")
    case True
    then have "word_at nc (take (Suc k) w) s0" unfolding word_at_nth [OF k] c using Suc.prems(1) by simp
    then have "word_search nc w s0 (Suc k) =
      (if word_at nc w s0 then Some (Some (drop (length w) s0))
       else if hd s0 = 0 then Some None else word_search nc w (tl s0) 0)"
      using Suc.hyps k by (intro Suc.hyps(1)) auto
    then show ?thesis using True c k by (subst word_search.simps) simp
  next
    case False
    have "\<not> word_at nc w s0"
    proof
      assume "word_at nc w s0"
      then have "word_at nc (take (Suc k) w) s0"
        using word_at_append [of nc "take (Suc k) w" "drop (Suc k) w" s0] by simp
      then show False using word_at_nth [OF k] False c by simp
    qed
    then show ?thesis using False c k by (subst word_search.simps) simp
  qed
qed

text \<open>\<open>first_word nc w u\<close>: the first suffix of the text behind which the word has matched.\<close>

fun first_word :: "bool \<Rightarrow> bytes \<Rightarrow> bytes \<Rightarrow> bytes option" where
  "first_word nc w [] = (if word_at nc w [] then Some [] else None)"
| "first_word nc w (c # u) = (if word_at nc w (c # u) then Some (drop (length w) (c # u)) else first_word nc w u)"

lemma word_at_NUL:
  assumes "\<forall>c \<in> set w. c \<noteq> 0 \<and> c \<noteq> 124" and "0 \<notin> set u"
  shows "word_at nc w (u @ 0 # junk) \<longleftrightarrow> word_at nc w u"
  using assms
proof (induction w arbitrary: u)
  case (Cons x w)
  then show ?case by (cases u) (auto simp: word_char_def)
qed simp

lemma word_search_middle:
  assumes "\<forall>c \<in> set w. c \<noteq> 0 \<and> c \<noteq> 124" and "0 \<notin> set u"
  shows "word_search nc w (u @ 0 # junk) 0 = Some (map_option (\<lambda>v. v @ 0 # junk) (first_word nc w u))"
  using assms(2)
proof (induction u)
  case Nil
  have "word_search nc w (0 # junk) 0 = (if word_at nc w (0 # junk) then Some (Some (drop (length w) (0 # junk))) else Some None)"
    using assms(1) by (subst word_search_scan) (auto dest: in_set_butlastD)
  moreover have "word_at nc w (0 # junk) \<longleftrightarrow> word_at nc w []" using word_at_NUL [OF assms(1), of "[]"] by simp
  moreover have "word_at nc w [] \<Longrightarrow> w = []" by (cases w) simp_all
  ultimately show ?case by auto
next
  case (Cons c u)
  have "word_search nc w ((c # u) @ 0 # junk) 0 =
    (if word_at nc w (c # u) then Some (Some (drop (length w) ((c # u) @ 0 # junk))) else word_search nc w (u @ 0 # junk) 0)"
    using assms(1) Cons.prems word_at_NUL [OF assms(1), of "c # u"]
    by (subst word_search_scan) (auto dest: in_set_butlastD)
  moreover have "word_at nc w (c # u) \<Longrightarrow> drop (length w) ((c # u) @ 0 # junk) = drop (length w) (c # u) @ 0 # junk"
    unfolding drop_append by (drule word_at_length) simp
  ultimately show ?case using Cons by auto
qed

text \<open>The last word is followed by the end of the pattern, which matches the end of the text only.\<close>

lemma word_at_last:
  assumes "\<forall>c \<in> set w. c \<noteq> 0 \<and> c \<noteq> 124" and "plain_text u" and "t = 0 \<or> t = 124"
  shows "word_at nc (w @ [t]) (u @ 0 # junk) \<longleftrightarrow> word_at nc w u \<and> length u = length w"
  using assms(1,2)
proof (induction w arbitrary: u)
  case Nil
  then show ?case using assms(3) by (cases u) (auto simp: word_char_def plain_text_def)
next
  case (Cons x w)
  then show ?case by (cases u) (auto simp: word_char_def plain_text_def)
qed

lemma word_search_last:
  assumes "\<forall>c \<in> set w. c \<noteq> 0 \<and> c \<noteq> 124" and "plain_text u" and "t = 0 \<or> t = 124"
  shows "word_search nc (w @ [t]) (u @ 0 # junk) 0 =
    Some (if \<exists>x y. u = x @ y \<and> length y = length w \<and> word_at nc w y then Some junk else None)"
  using assms(2)
proof (induction u)
  case Nil
  then show ?case using assms word_at_last [OF assms(1) Nil assms(3), of nc junk]
    by (subst word_search_scan) (auto dest: in_set_butlastD)
next
  case (Cons c u)
  have p: "plain_text u" using Cons.prems by (simp add: plain_text_def)
  have ex: "(\<exists>x y. c # u = x @ y \<and> P y) \<longleftrightarrow> P (c # u) \<or> (\<exists>x y. u = x @ y \<and> P y)" for P :: "bytes \<Rightarrow> bool"
    by (auto simp: Cons_eq_append_conv)
  have "word_search nc (w @ [t]) ((c # u) @ 0 # junk) 0 =
    (if word_at nc w (c # u) \<and> length (c # u) = length w then Some (Some junk)
     else word_search nc (w @ [t]) (u @ 0 # junk) 0)"
    using assms(1) Cons.prems word_at_last [OF assms(1) Cons.prems assms(3), of nc junk]
    by (subst word_search_scan) (auto dest: in_set_butlastD simp: plain_text_def drop_Cons')
  then show ?case using Cons.IH [OF p] by (simp add: ex) metis
qed

subsection \<open>Globbing, word by word\<close>

lemma glob_star: "glob nc (42 # p) u \<longleftrightarrow> (\<exists>x y. u = x @ y \<and> glob nc p y)"
proof -
  have "glob nc (42 # p) u \<longleftrightarrow> (\<exists>k \<le> length u. glob nc p (drop k u))" by (simp add: list_ex_iff Bex_def less_Suc_eq_le del: upt_Suc)
  also have "\<dots> \<longleftrightarrow> (\<exists>x y. u = x @ y \<and> glob nc p y)"
    by (metis append_eq_conv_conj append_take_drop_id le_add1 length_append)
  finally show ?thesis .
qed

lemma glob_star_mono: "glob nc (42 # p) v \<Longrightarrow> glob nc (42 # p) (x @ v)"
  unfolding glob_star by (metis append.assoc)

lemma glob_word:
  assumes "42 \<notin> set w" and "plain_text u"
  shows "glob nc (w @ r) u \<longleftrightarrow> word_at nc w u \<and> glob nc r (drop (length w) u)"
  using assms
proof (induction w arbitrary: u)
  case (Cons x w)
  then show ?case by (cases u) (auto simp: word_char_def plain_text_def)
qed simp

lemma glob_last_word:
  assumes "42 \<notin> set w" and "plain_text u"
  shows "glob nc w u \<longleftrightarrow> word_at nc w u \<and> length u = length w"
  using glob_word [OF assms, of nc "[]"] by (auto dest: word_at_length)

lemma plain_text_append [simp]: "plain_text (x @ y) \<longleftrightarrow> plain_text x \<and> plain_text y"
  by (auto simp: plain_text_def)

lemma first_word_None: "first_word nc w u = None \<longleftrightarrow> (\<forall>x y. u = x @ y \<longrightarrow> \<not> word_at nc w y)"
  by (induction u) (auto simp: Cons_eq_append_conv)

lemma first_word_Some: "first_word nc w u = Some v \<Longrightarrow>
    (\<exists>x y. u = x @ y \<and> word_at nc w y \<and> v = drop (length w) y \<and> (\<forall>x' y'. u = x' @ y' \<longrightarrow> word_at nc w y' \<longrightarrow> length y' \<le> length y))"
proof (induction u)
  case (Cons c u)
  show ?case
  proof (cases "word_at nc w (c # u)")
    case True
    then show ?thesis using Cons.prems by (intro exI [of _ "[]"] exI [of _ "c # u"]) (auto simp: append_eq_Cons_conv Cons_eq_append_conv)
  next
    case False
    then obtain x y where "u = x @ y" "word_at nc w y" "v = drop (length w) y"
      "\<forall>x' y'. u = x' @ y' \<longrightarrow> word_at nc w y' \<longrightarrow> length y' \<le> length y" using Cons by auto
    then show ?thesis using False by (intro exI [of _ "c # x"] exI [of _ y]) (auto simp: Cons_eq_append_conv)
  qed
qed (auto split: if_splits)

lemma glob_first_word:
  assumes "42 \<notin> set w" and "plain_text u"
  shows "glob nc (42 # w @ 42 # q) u \<longleftrightarrow> (case first_word nc w u of None \<Rightarrow> False | Some v \<Rightarrow> glob nc (42 # q) v)"
proof -
  have step: "glob nc (42 # w @ 42 # q) u \<longleftrightarrow> (\<exists>x y. u = x @ y \<and> word_at nc w y \<and> glob nc (42 # q) (drop (length w) y))"
    unfolding glob_star [of nc "w @ 42 # q"] using assms(2)
    by (intro ex_cong1 conj_cong refl glob_word [OF assms(1)]) simp
  show ?thesis
  proof (cases "first_word nc w u")
    case None
    then show ?thesis unfolding step using first_word_None [of nc w u] by auto
  next
    case (Some v)
    obtain x y where y: "u = x @ y" "word_at nc w y" "v = drop (length w) y"
      "\<forall>x' y'. u = x' @ y' \<longrightarrow> word_at nc w y' \<longrightarrow> length y' \<le> length y"
      using first_word_Some [OF Some] by blast
    have "glob nc (42 # q) v" if h: "u = x' @ y'" "word_at nc w y'" "glob nc (42 # q) (drop (length w) y')" for x' y'
    proof -
      have "length y' \<le> length y" using y(4) h by blast
      then have "suffix y' y"
        using suffix_length_suffix [of y' u y] suffixI [OF y(1)] suffixI [OF h(1)] by simp
      then have "suffix (drop (length w) y') y" using suffix_drop suffix_order.trans by blast
      then have "suffix (drop (length w) y') (drop (length w) y)"
        using \<open>length y' \<le> length y\<close> suffix_length_suffix [OF _ suffix_drop, of "drop (length w) y'" y "length w"] by simp
      then obtain z where "drop (length w) y = z @ drop (length w) y'" by (auto simp: suffix_def)
      then show ?thesis using glob_star_mono [OF h(3)] y(3) by metis
    qed
    then show ?thesis unfolding step using Some y(1-3) by auto
  qed
qed

subsection \<open>The loop implements the reference\<close>

text \<open>Where the loop goes on when an alternative does not match.\<close>

definition give_up :: "bool \<Rightarrow> bytes \<Rightarrow> byte \<Rightarrow> bytes \<Rightarrow> bool option" where
  "give_up nc so t rest = (if t = 0 then Some False else match_loop nc so so rest False)"

definition pattern_char :: "byte \<Rightarrow> bool" where
  "pattern_char c \<longleftrightarrow> c \<noteq> 0 \<and> c \<noteq> 124 \<and> c \<noteq> 92"

lemma next_pattern_skip:
  "list_all pattern_char z \<Longrightarrow> t = 0 \<or> t = 124 \<Longrightarrow>
     next_pattern (z @ t # rest) = (if t = 0 then Some None else Some (Some rest))"
  by (induction z) (auto simp: pattern_char_def)

lemma word_end_star: "list_all pattern_char w \<Longrightarrow> 42 \<notin> set w \<Longrightarrow> word_end (w @ 42 # q) = Some (w, 42 # q)"
  by (induction w) (auto simp: pattern_char_def)

lemma word_end_last: "list_all pattern_char w \<Longrightarrow> 42 \<notin> set w \<Longrightarrow> t = 0 \<or> t = 124 \<Longrightarrow>
    word_end (w @ t # rest) = Some (w @ [t], t # rest)"
  by (induction w) (auto simp: pattern_char_def)

lemma first_word_suffix: "first_word nc w u = Some v \<Longrightarrow> suffix v u"
  using first_word_Some suffix_drop suffix_order.trans by (metis suffixI)

lemma star_part:
  assumes "list_all pattern_char q" and "plain_text u" and "t = 0 \<or> t = 124"
  shows "match_loop nc so (u @ 0 # junk) (42 # q @ t # rest) False =
    (if glob nc (42 # q) u then Some True else give_up nc so t rest)"
  using assms(1,2)
proof (induction "length q" arbitrary: q u rule: less_induct)
  case less
  have u0: "0 \<notin> set u" using less.prems(2) by (simp add: plain_text_def)
  show ?case
  proof (cases "42 \<in> set q")
    case False
    have w: "\<forall>c \<in> set q. c \<noteq> 0 \<and> c \<noteq> 124" using less.prems(1) by (auto simp: list_all_iff pattern_char_def)
    have "glob nc (42 # q) u \<longleftrightarrow> (\<exists>x y. u = x @ y \<and> length y = length q \<and> word_at nc q y)"
      unfolding glob_star using less.prems(2)
      by (intro ex_cong1 conj_cong refl glob_last_word [OF False, THEN trans] conj_commute) simp
    then show ?thesis
      using word_end_last [OF less.prems(1) False assms(3)] word_search_last [OF w less.prems(2) assms(3), of nc junk]
        next_pattern_skip [of "[]" t rest] assms(3) by (auto simp: give_up_def)
  next
    case True
    then obtain w q' where q: "q = w @ 42 # q'" "42 \<notin> set w" by (metis split_list_first)
    have pc: "list_all pattern_char w" "list_all pattern_char (42 # q')" "list_all pattern_char q'" using less.prems(1) q(1) by auto
    have w: "\<forall>c \<in> set w. c \<noteq> 0 \<and> c \<noteq> 124" using pc(1) by (auto simp: list_all_iff pattern_char_def)
    have end_w: "word_end (q @ t # rest) = Some (w, 42 # q' @ t # rest)" using word_end_star [OF pc(1) q(2)] q(1) by simp
    have np: "next_pattern (42 # q' @ t # rest) = (if t = 0 then Some None else Some (Some rest))"
      using next_pattern_skip [OF pc(2) assms(3), of rest] by simp
    note ws = word_search_middle [OF w u0, of nc junk]
    note gf = glob_first_word [OF q(2) less.prems(2), of nc q', folded q(1)]
    show ?thesis
    proof (cases "first_word nc w u")
      case None
      then show ?thesis using end_w ws gf np by (simp add: q(1) [symmetric] give_up_def)
    next
      case (Some v)
      have "plain_text v" using first_word_suffix [OF Some] less.prems(2) by (auto simp: suffix_def)
      then have "match_loop nc so (v @ 0 # junk) (42 # q' @ t # rest) False =
          (if glob nc (42 # q') v then Some True else give_up nc so t rest)"
        using q(1) pc(3) by (intro less.hyps) simp_all
      then show ?thesis using Some end_w ws gf by (simp add: q(1) [symmetric])
    qed
  qed
qed

lemma head_fits_Cons: "c \<noteq> 42 \<Longrightarrow> head_fits (c # a) (d # u) \<Longrightarrow> head_fits a u"
  by (auto simp: head_fits_def Let_def)

lemma alternative_part:
  assumes "list_all pattern_char a" and "plain_text u" and "t = 0 \<or> t = 124" and "head_fits a u"
  shows "match_loop nc so (u @ 0 # junk) (a @ t # rest) False =
    (if glob nc a u then Some True else give_up nc so t rest)"
  using assms(1,2,4)
proof (induction a arbitrary: u)
  case Nil
  then show ?case using assms(3) by (cases u) (auto simp: give_up_def plain_text_def eq_commute [of "CASE nc 124"])
next
  case (Cons c a)
  have c: "c \<noteq> 0" "c \<noteq> 124" "c \<noteq> 92" using Cons.prems(1) by (simp_all add: pattern_char_def)
  have np: "next_pattern (c # a @ t # rest) = (if t = 0 then Some None else Some (Some rest))"
    using next_pattern_skip [OF Cons.prems(1) assms(3), of rest] by simp
  show ?case
  proof (cases "c = 42")
    case True
    then show ?thesis using star_part [of a u t nc so junk rest] Cons.prems(1,2) assms(3) by (simp del: match_loop.simps)
  next
    case c42: False
    show ?thesis
    proof (cases u)
      case Nil
      have "c \<noteq> 63" using Cons.prems(3) c42 Nil by (auto simp: head_fits_def Let_def)
      then show ?thesis using Nil c c42 np by (simp add: give_up_def del: next_pattern.simps)
    next
      case (Cons d u')
      have "plain_text u'" using Cons.prems(2) Cons by (simp add: plain_text_def)
      then have ih: "match_loop nc so (u' @ 0 # junk) (a @ t # rest) False = (if glob nc a u' then Some True else give_up nc so t rest)"
        using Cons.IH Cons.prems(1,3) head_fits_Cons [OF c42, of a d u'] Cons by simp
      have d: "d \<noteq> 0" using Cons.prems(2) Cons by (simp add: plain_text_def)
      show ?thesis
      proof (cases "c = 63")
        case True
        then show ?thesis using ih Cons by simp
      next
        case False
        then show ?thesis using ih np c c42 d Cons
          by (cases "t = 0") (simp_all add: give_up_def del: next_pattern.simps)
      qed
    qed
  qed
qed

lemma alternatives_no_bar: "124 \<notin> set p \<Longrightarrow> alternatives p = [p]"
  by (induction p) auto

lemma alternatives_bar: "124 \<notin> set a \<Longrightarrow> alternatives (a @ 124 # p) = a # alternatives p"
  by (induction a) auto

lemma match_loop_glob:
  assumes "0 \<notin> set p" and "92 \<notin> set p" and "plain_text u" and "\<forall>a \<in> set (alternatives p). head_fits a u"
  shows "match_loop nc (u @ 0 # junk) (u @ 0 # junk) (p @ [0]) False = Some (\<exists>a \<in> set (alternatives p). glob nc a u)"
  using assms(1,2,4)
proof (induction "length p" arbitrary: p rule: less_induct)
  case less
  show ?case
  proof (cases "124 \<in> set p")
    case False
    then have "list_all pattern_char p" using less.prems by (auto simp: list_all_iff pattern_char_def)
    from alternative_part [OF this assms(3), of 0 nc "u @ 0 # junk" junk "[]"] show ?thesis
      using less.prems(3) alternatives_no_bar [OF False] by (simp add: give_up_def)
  next
    case True
    then obtain a p' where p: "p = a @ 124 # p'" "124 \<notin> set a" by (metis split_list_first)
    then have a: "list_all pattern_char a" "alternatives p = a # alternatives p'"
      using less.prems alternatives_bar by (auto simp: list_all_iff pattern_char_def)
    have "match_loop nc (u @ 0 # junk) (u @ 0 # junk) (p' @ [0]) False = Some (\<exists>a \<in> set (alternatives p'). glob nc a u)"
      using p less.prems a(2) by (intro less.hyps) auto
    then show ?thesis
      using alternative_part [OF a(1) assms(3), of 124 nc "u @ 0 # junk" junk "p' @ [0]"] less.prems(3) a(2) p(1)
      by (simp add: give_up_def del: match_loop.simps)
  qed
qed

subsection \<open>Correctness of the matcher\<close>

text \<open>C25. The matcher implements globbing, under three conditions: the pattern has no backslash, the text
  has no bar, and an alternative of the pattern with a question mark before its first star has a head (the
  bytes before that star) that is not longer than the text.  Then match and matchNoCase give exactly the
  answer of the declarative definition: some alternative of the pattern (between bars) matches the whole
  text, where a star stands for any bytes and a question mark for any one byte.  The greedy search for the
  words between stars never has to be undone.\<close>

theorem match_is_glob:
  assumes "0 \<notin> set p" and "92 \<notin> set p" and "0 \<notin> set u" and "124 \<notin> set u"
    and "\<forall>a \<in> set (alternatives p). 63 \<in> set (takeWhile (\<lambda>c. c \<noteq> 42) a) \<longrightarrow> length (takeWhile (\<lambda>c. c \<noteq> 42) a) \<le> length u"
  shows "match (u @ 0 # junk) (p @ [0]) = Some (\<exists>a \<in> set (alternatives p). glob False a u) \<and>
    matchNoCase (u @ 0 # junk) (p @ [0]) = Some (\<exists>a \<in> set (alternatives p). glob True a u)"
  using match_loop_glob [of p u _ junk] assms
  by (simp add: match_def matchNoCase_def matchBody_def plain_text_def head_fits_def Let_def)

theorem match_is_glob_witness:
  "match (bytes_of ''192.168.7.1'' @ [0]) (bytes_of ''10.*|192.1?8.*.1'' @ [0]) = Some True \<and>
   match (bytes_of ''192.168.7.2'' @ [0]) (bytes_of ''10.*|192.1?8.*.1'' @ [0]) = Some False"
proof -
  have p: "0 \<notin> set (bytes_of ''10.*|192.1?8.*.1'')" "92 \<notin> set (bytes_of ''10.*|192.1?8.*.1'')" by code_simp+
  have u1: "0 \<notin> set (bytes_of ''192.168.7.1'')" "124 \<notin> set (bytes_of ''192.168.7.1'')"
    "\<forall>a \<in> set (alternatives (bytes_of ''10.*|192.1?8.*.1'')). 63 \<in> set (takeWhile (\<lambda>c. c \<noteq> 42) a) \<longrightarrow>
       length (takeWhile (\<lambda>c. c \<noteq> 42) a) \<le> length (bytes_of ''192.168.7.1'')"
    "\<exists>a \<in> set (alternatives (bytes_of ''10.*|192.1?8.*.1'')). glob False a (bytes_of ''192.168.7.1'')"
    by code_simp+
  have u2: "0 \<notin> set (bytes_of ''192.168.7.2'')" "124 \<notin> set (bytes_of ''192.168.7.2'')"
    "\<forall>a \<in> set (alternatives (bytes_of ''10.*|192.1?8.*.1'')). 63 \<in> set (takeWhile (\<lambda>c. c \<noteq> 42) a) \<longrightarrow>
       length (takeWhile (\<lambda>c. c \<noteq> 42) a) \<le> length (bytes_of ''192.168.7.2'')"
    "\<not> (\<exists>a \<in> set (alternatives (bytes_of ''10.*|192.1?8.*.1'')). glob False a (bytes_of ''192.168.7.2''))"
    by code_simp+
  show ?thesis
    using match_is_glob [OF p u1(1-3), of "[]"] u1(4) match_is_glob [OF p u2(1-3), of "[]"] u2(4) by simp
qed

text \<open>The third condition is needed: a question mark outside a word moves on in the text without a test for
  its end, so that the matcher reads behind the terminating NUL and, with another NUL there, accepts an
  address that the pattern does not match.\<close>

theorem match_reads_past_end:
  "match (bytes_of ''192.168.1.5'' @ [0, 0]) (bytes_of ''192.168.1.??'' @ [0]) = Some True \<and>
   \<not> glob False (bytes_of ''192.168.1.??'') (bytes_of ''192.168.1.5'')"
  by code_simp

end
