(* ===== verification/Rinetd_Config.thy ===== *)
theory Rinetd_Config
  imports Rinetd_Match "HOL-Library.Monad_Syntax"
begin

section \<open>rinetd: the configuration (rinetd.c, readConfiguration)\<close>

text \<open>
  readConfiguration reads its file twice: it counts the lines of each kind, allocates the arrays
  of the servers and of the rules, and fills them in a second pass.  The parallel arrays of the
  servers are one list of records here; an element that \<open>malloc\<close> left uninitialised is
  \<open>None\<close>, and so is the result of a function that reads one or that leaves an array.
  Allocation succeeds.  Name lookups and the creation of a listening socket are parameters.
\<close>

subsection \<open>State\<close>

text \<open>\<open>seFds[i]\<close>: \<open>None\<close> is uninitialised, \<open>Some None\<close> is \<open>INVALID_SOCKET\<close>.\<close>

record server =
  se_fd :: "nat option option"
  se_local :: "(u32 \<times> nat) option"
  se_from :: "(bytes \<times> nat) option"
  se_to :: "(bytes \<times> nat) option"
  se_allow :: "nat option"
  se_allow_total :: "nat option"
  se_deny :: "nat option"
  se_deny_total :: "nat option"

record rinetd_conf =
  servers :: "server list"
  allow_rules :: "bytes option list"
  deny_rules :: "bytes option list"
  global_allow :: nat
  global_deny :: nat
  log_file_name :: "bytes option"
  pid_log_file_name :: "bytes option"
  log_format_common :: bool
  conf_maxfd :: nat

datatype listen_result = Socket_failed | Bind_failed nat | Listen_failed nat | Listening nat

record conf_env =
  ce_service :: "bytes \<Rightarrow> nat option"
  ce_host :: "bytes \<Rightarrow> u32 option"
  ce_inet_addr :: "bytes \<Rightarrow> u32"
  ce_listen :: "nat \<Rightarrow> listen_result"

subsection \<open>Lines and words\<close>

text \<open>The lines that getConfLine delivers: neither blank nor a comment.\<close>

definition conf_line :: "bytes \<Rightarrow> bool" where
  "conf_line l \<longleftrightarrow> (case dropWhile isspace l of [] \<Rightarrow> False | c # _ \<Rightarrow> c \<noteq> 35)"

definition getConfLines :: "bytes \<Rightarrow> bytes list" where
  "getConfLines content = filter conf_line (file_lines 16384 content)"

definition token_sep :: "byte \<Rightarrow> bool" where
  "token_sep c \<longleftrightarrow> c = 32 \<or> c = 9 \<or> c = 13 \<or> c = 10"

text \<open>The tokens that successive calls of \<open>strtok\<close> return.\<close>

function tokens :: "bytes \<Rightarrow> bytes list" where
  "tokens s = (case dropWhile token_sep s of
     [] \<Rightarrow> []
   | c # t \<Rightarrow> takeWhile (\<lambda>c. \<not> token_sep c) (c # t) # tokens (dropWhile (\<lambda>c. \<not> token_sep c) (c # t)))"
  by pat_completeness auto
termination
proof (relation "measure length", goal_cases)
  case (2 s c t)
  have "\<not> token_sep c" using 2 by (metis dropWhile_eq_Cons_conv)
  then have "length (dropWhile (\<lambda>c. \<not> token_sep c) (c # t)) \<le> length t" by (simp add: length_dropWhile_le)
  moreover have "length (c # t) \<le> length s" using 2 length_dropWhile_le by metis
  ultimately show ?case by simp
qed simp

declare tokens.simps [simp del]

definition patternBad :: "bytes \<Rightarrow> bool" where
  "patternBad pattern = (case pattern of [] \<Rightarrow> True | c # _ \<Rightarrow> False)"

definition getAddress :: "conf_env \<Rightarrow> bytes \<Rightarrow> u32 option" where
  "getAddress e host =
     (if list_ex (\<lambda>c. \<not> (isdigit c \<or> c = 46)) host then ce_host e host
      else Some (ce_inet_addr e host))"

text \<open>A port is a service name or a number, cut to an \<open>unsigned short\<close>.\<close>

definition port_number :: "conf_env \<Rightarrow> bytes \<Rightarrow> nat" where
  "port_number e s = (case ce_service e s of Some p \<Rightarrow> p mod 65536 | None \<Rightarrow> nat (atoi s mod 65536))"

subsection \<open>First pass\<close>

text \<open>Lines of each kind: forwarding rules, allow rules, deny rules.\<close>

definition kw_logfile :: bytes where "kw_logfile = bytes_of ''logfile''"
definition kw_pidlogfile :: bytes where "kw_pidlogfile = bytes_of ''pidlogfile''"
definition kw_logcommon :: bytes where "kw_logcommon = bytes_of ''logcommon''"
definition kw_allow :: bytes where "kw_allow = bytes_of ''allow''"
definition kw_deny :: bytes where "kw_deny = bytes_of ''deny''"

definition count_line :: "bytes \<Rightarrow> nat \<times> nat \<times> nat \<Rightarrow> (nat \<times> nat \<times> nat) option" where
  "count_line line ns = (case (tokens line, ns) of
     ([], _) \<Rightarrow> None
   | (t # _, (se, al, de)) \<Rightarrow>
       Some (if t = kw_logfile \<or> t = kw_pidlogfile \<or> t = kw_logcommon then (se, al, de)
             else if t = kw_allow then (se, al + 1, de)
             else if t = kw_deny then (se, al, de + 1)
             else (se + 1, al, de)))"

definition blank_server :: server where
  "blank_server = \<lparr>se_fd = None, se_local = None, se_from = None, se_to = None, se_allow = None,
     se_allow_total = None, se_deny = None, se_deny_total = None\<rparr>"

text \<open>Forgetting the old configuration reads \<open>seFds\<close> of every server and frees the texts of those
  that listen, and frees every text of the rules; the log format and the highest descriptor stay.\<close>

definition clear_conf :: "rinetd_conf \<Rightarrow> rinetd_conf option" where
  "clear_conf st =
     (if list_all (\<lambda>s. case se_fd s of None \<Rightarrow> False | Some None \<Rightarrow> True
                      | Some (Some fd) \<Rightarrow> se_from s \<noteq> None \<and> se_to s \<noteq> None) (servers st) \<and>
         list_all (\<lambda>r. r \<noteq> None) (allow_rules st) \<and> list_all (\<lambda>r. r \<noteq> None) (deny_rules st)
      then Some (st\<lparr>servers := [], allow_rules := [], global_allow := 0, deny_rules := [], global_deny := 0,
                    log_file_name := None, pid_log_file_name := None\<rparr>)
      else None)"

definition alloc_conf :: "nat \<times> nat \<times> nat \<Rightarrow> rinetd_conf \<Rightarrow> rinetd_conf" where
  "alloc_conf ns st = (case ns of (se, al, de) \<Rightarrow>
     st\<lparr>servers := replicate se blank_server, allow_rules := replicate al None, deny_rules := replicate de None\<rparr>)"

subsection \<open>Second pass\<close>

text \<open>The indices \<open>i\<close>, \<open>ai\<close>, \<open>di\<close> of the second pass and the number of sockets asked for.\<close>

record conf_pos =
  ci :: nat
  cai :: nat
  cdi :: nat
  calls :: nat

definition upd_server :: "nat \<Rightarrow> (server \<Rightarrow> server) \<Rightarrow> rinetd_conf \<Rightarrow> rinetd_conf option" where
  "upd_server i f st = (if i < length (servers st)
     then Some (st\<lparr>servers := (servers st)[i := f (servers st ! i)]\<rparr>) else None)"

definition init_totals :: "nat \<Rightarrow> rinetd_conf \<Rightarrow> rinetd_conf option" where
  "init_totals i st = (if i < length (servers st)
     then upd_server i (\<lambda>s. s\<lparr>se_allow_total := Some 0, se_deny_total := Some 0\<rparr>) st else Some st)"

definition add_allow :: "bytes list \<Rightarrow> conf_pos \<Rightarrow> rinetd_conf \<Rightarrow> (conf_pos \<times> rinetd_conf) option" where
  "add_allow args ps st = (case args of
     [] \<Rightarrow> Some (ps, st)
   | pat # _ \<Rightarrow>
       if patternBad pat then Some (ps, st)
       else do {
         rules \<leftarrow> poke (allow_rules st) (cai ps) (Some pat);
         let st1 = st\<lparr>allow_rules := rules\<rparr>;
         st2 \<leftarrow> (if 0 < ci ps
                then do {
                  s \<leftarrow> peek (servers st1) (ci ps - 1);
                  n \<leftarrow> se_allow_total s;
                  upd_server (ci ps - 1) (\<lambda>s. s\<lparr>se_allow := (if n = 0 then Some (cai ps) else se_allow s),
                     se_allow_total := Some (n + 1)\<rparr>) st1 }
                else Some (st1\<lparr>global_allow := global_allow st1 + 1\<rparr>));
         Some (ps\<lparr>cai := cai ps + 1\<rparr>, st2) })"

definition add_deny :: "bytes list \<Rightarrow> conf_pos \<Rightarrow> rinetd_conf \<Rightarrow> (conf_pos \<times> rinetd_conf) option" where
  "add_deny args ps st = (case args of
     [] \<Rightarrow> Some (ps, st)
   | pat # _ \<Rightarrow> do {
       rules \<leftarrow> poke (deny_rules st) (cdi ps) (Some pat);
       let st1 = st\<lparr>deny_rules := rules\<rparr>;
       st2 \<leftarrow> (if 0 < ci ps
              then do {
                s \<leftarrow> peek (servers st1) (ci ps - 1);
                n \<leftarrow> se_deny_total s;
                upd_server (ci ps - 1) (\<lambda>s. s\<lparr>se_deny := (if n = 0 then Some (cdi ps) else se_deny s),
                   se_deny_total := Some (n + 1)\<rparr>) st1 }
              else Some (st1\<lparr>global_deny := global_deny st1 + 1\<rparr>));
       Some (ps\<lparr>cdi := cdi ps + 1\<rparr>, st2) })"

text \<open>A forwarding rule whose words are in order: open the socket, resolve the target, fill the
  slot.  The listening socket of a rule that fails later is closed again.\<close>

definition set_fd :: "nat \<Rightarrow> nat option \<Rightarrow> rinetd_conf \<Rightarrow> rinetd_conf option" where
  "set_fd i fd st = upd_server i (\<lambda>s. s\<lparr>se_fd := Some fd\<rparr>) st"

definition open_server ::
  "conf_env \<Rightarrow> bytes \<times> nat \<Rightarrow> bytes \<times> nat \<Rightarrow> conf_pos \<Rightarrow> rinetd_conf \<Rightarrow> (conf_pos \<times> rinetd_conf) option" where
  "open_server e frm target ps st = (let ps' = ps\<lparr>calls := calls ps + 1\<rparr> in
     case ce_listen e (calls ps) of
       Socket_failed \<Rightarrow> do { st1 \<leftarrow> set_fd (ci ps) None st; Some (ps', st1) }
     | Bind_failed fd \<Rightarrow> do { st1 \<leftarrow> set_fd (ci ps) None (st\<lparr>conf_maxfd := max fd (conf_maxfd st)\<rparr>); Some (ps', st1) }
     | Listen_failed fd \<Rightarrow> do { st1 \<leftarrow> set_fd (ci ps) None (st\<lparr>conf_maxfd := max fd (conf_maxfd st)\<rparr>); Some (ps', st1) }
     | Listening fd \<Rightarrow>
         let st1 = st\<lparr>conf_maxfd := max fd (conf_maxfd st)\<rparr> in
         (case getAddress e (fst target) of
            None \<Rightarrow> do { st2 \<leftarrow> set_fd (ci ps) None st1; Some (ps', st2) }
          | Some a \<Rightarrow> do {
              st2 \<leftarrow> upd_server (ci ps) (\<lambda>s. s\<lparr>se_fd := Some (Some fd), se_local := Some (a, snd target),
                 se_from := Some frm, se_to := Some target\<rparr>) st1;
              st3 \<leftarrow> init_totals (ci ps + 1) st2;
              Some (ps'\<lparr>ci := ci ps + 1\<rparr>, st3) }))"

definition add_server :: "conf_env \<Rightarrow> bytes \<Rightarrow> bytes list \<Rightarrow> conf_pos \<Rightarrow> rinetd_conf \<Rightarrow> (conf_pos \<times> rinetd_conf) option" where
  "add_server e bindAddress args ps st = (case args of
     [] \<Rightarrow> Some (ps, st)
   | bindPortS # args1 \<Rightarrow>
       if port_number e bindPortS = 0 then Some (ps, st)
       else (case args1 of
         connectAddress # connectPortS # _ \<Rightarrow>
           if port_number e connectPortS = 0 then Some (ps, st)
           else (case getAddress e bindAddress of
             None \<Rightarrow> Some (ps, st)
           | Some a \<Rightarrow> open_server e (bindAddress, port_number e bindPortS)
                          (connectAddress, port_number e connectPortS) ps st)
       | _ \<Rightarrow> Some (ps, st)))"

definition conf_step :: "conf_env \<Rightarrow> bytes \<Rightarrow> conf_pos \<times> rinetd_conf \<Rightarrow> (conf_pos \<times> rinetd_conf) option" where
  "conf_step e line x = (case (tokens line, x) of
     ([], ps, st) \<Rightarrow> Some (ps, st)
   | (t # args, ps, st) \<Rightarrow>
       if t = kw_allow then add_allow args ps st
       else if t = kw_deny then add_deny args ps st
       else if t = kw_logfile then Some (ps, if args = [] then st else st\<lparr>log_file_name := Some (hd args)\<rparr>)
       else if t = kw_pidlogfile then Some (ps, if args = [] then st else st\<lparr>pid_log_file_name := Some (hd args)\<rparr>)
       else if t = kw_logcommon then Some (ps, st\<lparr>log_format_common := True\<rparr>)
       else add_server e t args ps st)"

text \<open>The whole of readConfiguration, up to the opening of the log file; \<open>None\<close> also when the file
  cannot be opened.\<close>

definition readConfiguration :: "conf_env \<Rightarrow> bytes option \<Rightarrow> rinetd_conf \<Rightarrow> (conf_pos \<times> rinetd_conf) option" where
  "readConfiguration e file st = do {
     st0 \<leftarrow> clear_conf st;
     content \<leftarrow> file;
     ns \<leftarrow> foldM count_line (getConfLines content) (0, 0, 0);
     st2 \<leftarrow> init_totals 0 (alloc_conf ns st0);
     foldM (conf_step e) (getConfLines content) (\<lparr>ci = 0, cai = 0, cdi = 0, calls = 0\<rparr>, st2) }"

subsection \<open>What the lines of a configuration mean to the program\<close>

text \<open>A configuration is a list of forwarding rules that took effect, each with the allow and deny
  patterns stored for it, and the global patterns.  \<open>spec_conf\<close> is the meaning that
  readConfiguration gives to a file; \<open>doc_conf\<close> below is the one rinetd.8 describes.\<close>

record rule_group =
  rg_fd :: nat
  rg_local :: "u32 \<times> nat"
  rg_from :: "bytes \<times> nat"
  rg_to :: "bytes \<times> nat"
  rg_allow :: "bytes list"
  rg_deny :: "bytes list"

record rule_set =
  rs_allow :: "bytes list"
  rs_deny :: "bytes list"
  rs_groups :: "rule_group list"
  rs_calls :: nat

definition add_last :: "('a \<Rightarrow> 'a) \<Rightarrow> 'a list \<Rightarrow> 'a list" where
  "add_last f xs = (if xs = [] then [] else butlast xs @ [f (last xs)])"

definition spec_allow :: "bytes \<Rightarrow> rule_set \<Rightarrow> rule_set" where
  "spec_allow pat rs = (if rs_groups rs = [] then rs\<lparr>rs_allow := rs_allow rs @ [pat]\<rparr>
     else rs\<lparr>rs_groups := add_last (\<lambda>g. g\<lparr>rg_allow := rg_allow g @ [pat]\<rparr>) (rs_groups rs)\<rparr>)"

definition spec_deny :: "bytes \<Rightarrow> rule_set \<Rightarrow> rule_set" where
  "spec_deny pat rs = (if rs_groups rs = [] then rs\<lparr>rs_deny := rs_deny rs @ [pat]\<rparr>
     else rs\<lparr>rs_groups := add_last (\<lambda>g. g\<lparr>rg_deny := rg_deny g @ [pat]\<rparr>) (rs_groups rs)\<rparr>)"

text \<open>A line with four words, ports other than 0 and a resolvable address is a rule; it takes part
  when its socket listens and its target resolves.\<close>

definition rule_of :: "conf_env \<Rightarrow> bytes list \<Rightarrow> ((bytes \<times> nat) \<times> (bytes \<times> nat)) option" where
  "rule_of e ts = (case ts of
     a # b # c # d # _ \<Rightarrow>
       if port_number e b \<noteq> 0 \<and> port_number e d \<noteq> 0 \<and> getAddress e a \<noteq> None
       then Some ((a, port_number e b), (c, port_number e d)) else None
   | _ \<Rightarrow> None)"

definition spec_rule :: "conf_env \<Rightarrow> (bytes \<times> nat) \<times> (bytes \<times> nat) \<Rightarrow> rule_set \<Rightarrow> rule_set" where
  "spec_rule e r rs = (let rs' = rs\<lparr>rs_calls := rs_calls rs + 1\<rparr> in
     case (ce_listen e (rs_calls rs), getAddress e (fst (snd r))) of
       (Listening fd, Some a) \<Rightarrow> rs'\<lparr>rs_groups := rs_groups rs @
          [\<lparr>rg_fd = fd, rg_local = (a, snd (snd r)), rg_from = fst r, rg_to = snd r, rg_allow = [], rg_deny = []\<rparr>]\<rparr>
     | _ \<Rightarrow> rs')"

definition spec_step :: "conf_env \<Rightarrow> bytes \<Rightarrow> rule_set \<Rightarrow> rule_set" where
  "spec_step e line rs = (let ts = tokens line in
     if ts = [] then rs
     else if hd ts = kw_allow then (if tl ts = [] then rs else spec_allow (hd (tl ts)) rs)
     else if hd ts = kw_deny then (if tl ts = [] then rs else spec_deny (hd (tl ts)) rs)
     else if hd ts \<in> {kw_logfile, kw_pidlogfile, kw_logcommon} then rs
     else (case rule_of e ts of None \<Rightarrow> rs | Some r \<Rightarrow> spec_rule e r rs))"

definition spec_conf :: "conf_env \<Rightarrow> bytes \<Rightarrow> rule_set" where
  "spec_conf e content = fold (spec_step e) (getConfLines content)
     \<lparr>rs_allow = [], rs_deny = [], rs_groups = [], rs_calls = 0\<rparr>"

subsection \<open>The arrays represent a rule set\<close>

definition rules_rep :: "bytes option list \<Rightarrow> nat \<Rightarrow> bytes list \<Rightarrow> bool" where
  "rules_rep arr n xs \<longleftrightarrow> n = length xs \<and> n \<le> length arr \<and> take n arr = map Some xs"

definition all_allow :: "rule_set \<Rightarrow> bytes list" where
  "all_allow rs = rs_allow rs @ concat (map rg_allow (rs_groups rs))"

definition all_deny :: "rule_set \<Rightarrow> bytes list" where
  "all_deny rs = rs_deny rs @ concat (map rg_deny (rs_groups rs))"

definition allow_off :: "rule_set \<Rightarrow> nat \<Rightarrow> nat" where
  "allow_off rs j = length (rs_allow rs) + length (concat (map rg_allow (take j (rs_groups rs))))"

definition deny_off :: "rule_set \<Rightarrow> nat \<Rightarrow> nat" where
  "deny_off rs j = length (rs_deny rs) + length (concat (map rg_deny (take j (rs_groups rs))))"

definition server_rep :: "server \<Rightarrow> rule_group \<Rightarrow> nat \<Rightarrow> nat \<Rightarrow> bool" where
  "server_rep s g oa od \<longleftrightarrow> se_fd s = Some (Some (rg_fd g)) \<and> se_local s = Some (rg_local g) \<and>
     se_from s = Some (rg_from g) \<and> se_to s = Some (rg_to g) \<and>
     se_allow_total s = Some (length (rg_allow g)) \<and> (rg_allow g \<noteq> [] \<longrightarrow> se_allow s = Some oa) \<and>
     se_deny_total s = Some (length (rg_deny g)) \<and> (rg_deny g \<noteq> [] \<longrightarrow> se_deny s = Some od)"

definition conf_rep :: "conf_pos \<Rightarrow> rinetd_conf \<Rightarrow> rule_set \<Rightarrow> bool" where
  "conf_rep ps st rs \<longleftrightarrow> ci ps = length (rs_groups rs) \<and> calls ps = rs_calls rs \<and> ci ps \<le> length (servers st) \<and>
     rules_rep (allow_rules st) (cai ps) (all_allow rs) \<and> global_allow st = length (rs_allow rs) \<and>
     rules_rep (deny_rules st) (cdi ps) (all_deny rs) \<and> global_deny st = length (rs_deny rs) \<and>
     (\<forall>j < ci ps. server_rep (servers st ! j) (rs_groups rs ! j) (allow_off rs j) (deny_off rs j)) \<and>
     (ci ps < length (servers st) \<longrightarrow>
        se_allow_total (servers st ! ci ps) = Some 0 \<and> se_deny_total (servers st ! ci ps) = Some 0)"

lemma rules_rep_add:
  assumes "rules_rep arr n xs" and "n < length arr"
  shows "poke arr n (Some p) = Some (arr[n := Some p]) \<and> rules_rep (arr[n := Some p]) (n + 1) (xs @ [p])"
  using assms by (auto simp: rules_rep_def take_Suc_conv_app_nth)

lemma add_last_nth: "j < length xs \<Longrightarrow> add_last f xs ! j = (if j + 1 = length xs then f (xs ! j) else xs ! j)"
  by (cases xs rule: rev_cases) (auto simp: add_last_def nth_append)

lemma length_add_last [simp]: "length (add_last f xs) = length xs"
  by (simp add: add_last_def)

lemma take_add_last: "j < length xs \<Longrightarrow> take j (add_last f xs) = take j xs"
  by (simp add: add_last_def take_butlast)

lemma concat_add_last: "xs \<noteq> [] \<Longrightarrow> (\<And>g. k (f g) = k g @ [p]) \<Longrightarrow> concat (map k (add_last f xs)) = concat (map k xs) @ [p]"
  by (cases xs rule: rev_cases) (simp_all add: add_last_def)

lemma map_add_last: "(\<And>g. k (f g) = k g) \<Longrightarrow> map k (add_last f xs) = map k xs"
  by (cases xs rule: rev_cases) (simp_all add: add_last_def)

lemma map_take_add_last: "(\<And>g. k (f g) = k g) \<Longrightarrow> map k (take j (add_last f xs)) = map k (take j xs)"
  by (simp add: take_map [symmetric] map_add_last)

text \<open>Which arrays a step leaves as large as they are.\<close>

definition same_room :: "rinetd_conf \<Rightarrow> rinetd_conf \<Rightarrow> bool" where
  "same_room st st' \<longleftrightarrow> length (servers st') = length (servers st) \<and>
     length (allow_rules st') = length (allow_rules st) \<and> length (deny_rules st') = length (deny_rules st)"

lemma allow_off_last:
  "rs_groups rs \<noteq> [] \<Longrightarrow> rg_allow (last (rs_groups rs)) = [] \<Longrightarrow> allow_off rs (length (rs_groups rs) - 1) = length (all_allow rs)"
  by (cases "rs_groups rs" rule: rev_cases) (simp_all add: allow_off_def all_allow_def)

lemma deny_off_last:
  "rs_groups rs \<noteq> [] \<Longrightarrow> rg_deny (last (rs_groups rs)) = [] \<Longrightarrow> deny_off rs (length (rs_groups rs) - 1) = length (all_deny rs)"
  by (cases "rs_groups rs" rule: rev_cases) (simp_all add: deny_off_def all_deny_def)

lemma spec_allow_offs:
  "j < length (rs_groups rs) \<Longrightarrow> allow_off (spec_allow p rs) j = allow_off rs j"
  "deny_off (spec_allow p rs) j = deny_off rs j" "all_allow (spec_allow p rs) = all_allow rs @ [p]"
  "all_deny (spec_allow p rs) = all_deny rs"
  by (auto simp: spec_allow_def allow_off_def deny_off_def all_allow_def all_deny_def take_add_last
      concat_add_last map_add_last map_take_add_last)

lemma spec_deny_offs:
  "allow_off (spec_deny p rs) j = allow_off rs j" "j < length (rs_groups rs) \<Longrightarrow> deny_off (spec_deny p rs) j = deny_off rs j"
  "all_deny (spec_deny p rs) = all_deny rs @ [p]" "all_allow (spec_deny p rs) = all_allow rs"
  by (auto simp: spec_deny_def allow_off_def deny_off_def all_allow_def all_deny_def take_add_last
      concat_add_last map_add_last map_take_add_last)

lemma add_allow_rep:
  assumes rep: "conf_rep ps st rs" and room: "cai ps < length (allow_rules st)" and pat: "pat \<noteq> []"
  shows "\<exists>st'. add_allow (pat # xtra) ps st = Some (ps\<lparr>cai := cai ps + 1\<rparr>, st') \<and> same_room st st' \<and>
    conf_rep (ps\<lparr>cai := cai ps + 1\<rparr>) st' (spec_allow pat rs)"
proof -
  let ?arr = "(allow_rules st)[cai ps := Some pat]"
  have arr: "poke (allow_rules st) (cai ps) (Some pat) = Some ?arr" "rules_rep ?arr (cai ps + 1) (all_allow rs @ [pat])"
    using rules_rep_add [of "allow_rules st" "cai ps" "all_allow rs" pat] rep room by (auto simp: conf_rep_def)
  have bad: "\<not> patternBad pat" using pat by (cases pat) (simp_all add: patternBad_def)
  show ?thesis
  proof (cases "rs_groups rs = []")
    case True
    then have "ci ps = 0" using rep by (simp add: conf_rep_def)
    then show ?thesis using rep arr bad True spec_allow_offs [where p = pat and rs = rs]
      by (auto simp: add_allow_def same_room_def conf_rep_def spec_allow_def)
  next
    case False
    let ?j = "ci ps - 1" and ?g = "last (rs_groups rs)"
    have c0: "0 < ci ps" "ci ps = length (rs_groups rs)" "ci ps \<le> length (servers st)"
      using False rep by (simp_all add: conf_rep_def)
    have jl: "?j < length (servers st)" using c0(1,3) by linarith
    have "rs_groups rs ! ?j = ?g" using False c0(2) by (simp add: last_conv_nth)
    with c0 jl have ci: "0 < ci ps" "ci ps = length (rs_groups rs)" "?j < length (servers st)" "rs_groups rs ! ?j = ?g" by auto
    have "?j < ci ps" using c0(1) by simp
    then have "server_rep (servers st ! ?j) (rs_groups rs ! ?j) (allow_off rs ?j) (deny_off rs ?j)"
      using rep unfolding conf_rep_def by blast
    then have srv: "server_rep (servers st ! ?j) ?g (allow_off rs ?j) (deny_off rs ?j)" unfolding ci(4) .
    let ?f = "\<lambda>s. s\<lparr>se_allow := (if length (rg_allow ?g) = 0 then Some (cai ps) else se_allow s), se_allow_total := Some (length (rg_allow ?g) + 1)\<rparr>"
    let ?st = "st\<lparr>allow_rules := ?arr, servers := (servers st)[?j := ?f (servers st ! ?j)]\<rparr>"
    have run: "add_allow (pat # xtra) ps st = Some (ps\<lparr>cai := cai ps + 1\<rparr>, ?st)"
      using arr(1) bad ci srv by (simp add: add_allow_def upd_server_def server_rep_def)
    have off: "rg_allow ?g = [] \<longrightarrow> cai ps = allow_off rs ?j"
      using allow_off_last [OF False] rep ci(2) by (auto simp: conf_rep_def rules_rep_def)
    have new: "server_rep (?f (servers st ! ?j)) (?g\<lparr>rg_allow := rg_allow ?g @ [pat]\<rparr>) (allow_off rs ?j) (deny_off rs ?j)"
      using srv off by (auto simp: server_rep_def)
    have grp: "rs_groups (spec_allow pat rs) = add_last (\<lambda>g. g\<lparr>rg_allow := rg_allow g @ [pat]\<rparr>) (rs_groups rs)"
      "rs_allow (spec_allow pat rs) = rs_allow rs" "rs_deny (spec_allow pat rs) = rs_deny rs" "rs_calls (spec_allow pat rs) = rs_calls rs"
      using False by (simp_all add: spec_allow_def)
    have each: "server_rep (servers ?st ! j) (rs_groups (spec_allow pat rs) ! j) (allow_off (spec_allow pat rs) j) (deny_off (spec_allow pat rs) j)"
      if j: "j < ci ps" for j
    proof (cases "j = ?j")
      case True
      then show ?thesis using new ci j by (simp add: grp(1) add_last_nth spec_allow_offs)
    next
      case False
      then have "j + 1 \<noteq> length (rs_groups rs)" using ci by auto
      then show ?thesis using rep False ci j by (simp add: conf_rep_def grp(1) add_last_nth spec_allow_offs)
    qed
    have "conf_rep (ps\<lparr>cai := cai ps + 1\<rparr>) ?st (spec_allow pat rs)"
      using rep arr(2) each c0 unfolding conf_rep_def
      by (simp add: grp spec_allow_offs nth_list_update del: One_nat_def) (use c0 in linarith)
    then show ?thesis using run by (auto simp: same_room_def)
  qed
qed

lemma add_deny_rep:
  assumes rep: "conf_rep ps st rs" and room: "cdi ps < length (deny_rules st)"
  shows "\<exists>st'. add_deny (pat # xtra) ps st = Some (ps\<lparr>cdi := cdi ps + 1\<rparr>, st') \<and> same_room st st' \<and>
    conf_rep (ps\<lparr>cdi := cdi ps + 1\<rparr>) st' (spec_deny pat rs)"
proof -
  let ?arr = "(deny_rules st)[cdi ps := Some pat]"
  have arr: "poke (deny_rules st) (cdi ps) (Some pat) = Some ?arr" "rules_rep ?arr (cdi ps + 1) (all_deny rs @ [pat])"
    using rules_rep_add [of "deny_rules st" "cdi ps" "all_deny rs" pat] rep room by (auto simp: conf_rep_def)
  show ?thesis
  proof (cases "rs_groups rs = []")
    case True
    then have "ci ps = 0" using rep by (simp add: conf_rep_def)
    then show ?thesis using rep arr True spec_deny_offs [where p = pat and rs = rs]
      by (auto simp: add_deny_def same_room_def conf_rep_def spec_deny_def)
  next
    case False
    let ?j = "ci ps - 1" and ?g = "last (rs_groups rs)"
    have c0: "0 < ci ps" "ci ps = length (rs_groups rs)" "ci ps \<le> length (servers st)"
      using False rep by (simp_all add: conf_rep_def)
    have jl: "?j < length (servers st)" using c0(1,3) by linarith
    have "rs_groups rs ! ?j = ?g" using False c0(2) by (simp add: last_conv_nth)
    with c0 jl have ci: "0 < ci ps" "ci ps = length (rs_groups rs)" "?j < length (servers st)" "rs_groups rs ! ?j = ?g" by auto
    have "?j < ci ps" using c0(1) by simp
    then have "server_rep (servers st ! ?j) (rs_groups rs ! ?j) (allow_off rs ?j) (deny_off rs ?j)"
      using rep unfolding conf_rep_def by blast
    then have srv: "server_rep (servers st ! ?j) ?g (allow_off rs ?j) (deny_off rs ?j)" unfolding ci(4) .
    let ?f = "\<lambda>s. s\<lparr>se_deny := (if length (rg_deny ?g) = 0 then Some (cdi ps) else se_deny s), se_deny_total := Some (length (rg_deny ?g) + 1)\<rparr>"
    let ?st = "st\<lparr>deny_rules := ?arr, servers := (servers st)[?j := ?f (servers st ! ?j)]\<rparr>"
    have run: "add_deny (pat # xtra) ps st = Some (ps\<lparr>cdi := cdi ps + 1\<rparr>, ?st)"
      using arr(1) ci srv by (simp add: add_deny_def upd_server_def server_rep_def)
    have off: "rg_deny ?g = [] \<longrightarrow> cdi ps = deny_off rs ?j"
      using deny_off_last [OF False] rep ci(2) by (auto simp: conf_rep_def rules_rep_def)
    have new: "server_rep (?f (servers st ! ?j)) (?g\<lparr>rg_deny := rg_deny ?g @ [pat]\<rparr>) (allow_off rs ?j) (deny_off rs ?j)"
      using srv off by (auto simp: server_rep_def)
    have grp: "rs_groups (spec_deny pat rs) = add_last (\<lambda>g. g\<lparr>rg_deny := rg_deny g @ [pat]\<rparr>) (rs_groups rs)"
      "rs_allow (spec_deny pat rs) = rs_allow rs" "rs_deny (spec_deny pat rs) = rs_deny rs" "rs_calls (spec_deny pat rs) = rs_calls rs"
      using False by (simp_all add: spec_deny_def)
    have each: "server_rep (servers ?st ! j) (rs_groups (spec_deny pat rs) ! j) (allow_off (spec_deny pat rs) j) (deny_off (spec_deny pat rs) j)"
      if j: "j < ci ps" for j
    proof (cases "j = ?j")
      case True
      then show ?thesis using new ci j by (simp add: grp(1) add_last_nth spec_deny_offs)
    next
      case False
      then have "j + 1 \<noteq> length (rs_groups rs)" using ci by auto
      then show ?thesis using rep False ci j by (simp add: conf_rep_def grp(1) add_last_nth spec_deny_offs)
    qed
    have "conf_rep (ps\<lparr>cdi := cdi ps + 1\<rparr>) ?st (spec_deny pat rs)"
      using rep arr(2) each c0 unfolding conf_rep_def
      by (simp add: grp spec_deny_offs nth_list_update del: One_nat_def) (use c0 in linarith)
    then show ?thesis using run by (auto simp: same_room_def)
  qed
qed

lemma set_fd_rep:
  assumes "conf_rep ps st rs" and "ci ps < length (servers st)"
  shows "\<exists>st'. set_fd (ci ps) None (st\<lparr>conf_maxfd := m\<rparr>) = Some st' \<and> same_room st st' \<and>
    conf_rep (ps\<lparr>calls := calls ps + 1\<rparr>) st' (rs\<lparr>rs_calls := rs_calls rs + 1\<rparr>)"
  using assms by (auto simp: set_fd_def upd_server_def same_room_def conf_rep_def all_allow_def all_deny_def
      allow_off_def deny_off_def)

lemma conf_rep_maxfd: "conf_rep ps (st\<lparr>conf_maxfd := m\<rparr>) rs = conf_rep ps st rs"
  by (simp add: conf_rep_def)

lemma open_server_rep:
  assumes rep: "conf_rep ps st rs" and room: "ci ps < length (servers st)"
  shows "\<exists>ps' st'. open_server e frm target ps st = Some (ps', st') \<and> same_room st st' \<and> ci ps' \<le> ci ps + 1 \<and>
    cai ps' = cai ps \<and> cdi ps' = cdi ps \<and> conf_rep ps' st' (spec_rule e (frm, target) rs)"
proof -
  have c: "calls ps = rs_calls rs" using rep by (simp add: conf_rep_def)
  show ?thesis
  proof (cases "(\<exists>fd. ce_listen e (calls ps) = Listening fd) \<and> (\<exists>a. getAddress e (fst target) = Some a)")
    case False
    have "\<exists>m st'. open_server e frm target ps st = Some (ps\<lparr>calls := calls ps + 1\<rparr>, st') \<and> set_fd (ci ps) None (st\<lparr>conf_maxfd := m\<rparr>) = Some st'"
    proof (cases "ce_listen e (calls ps)")
      case Socket_failed
      then show ?thesis using room by (intro exI [of _ "conf_maxfd st"]) (simp add: open_server_def set_fd_def upd_server_def)
    next
      case (Bind_failed fd)
      then show ?thesis using room by (intro exI [of _ "max fd (conf_maxfd st)"]) (simp add: open_server_def set_fd_def upd_server_def)
    next
      case (Listen_failed fd)
      then show ?thesis using room by (intro exI [of _ "max fd (conf_maxfd st)"]) (simp add: open_server_def set_fd_def upd_server_def)
    next
      case (Listening fd)
      then show ?thesis using room False
        by (intro exI [of _ "max fd (conf_maxfd st)"]) (auto simp: open_server_def set_fd_def upd_server_def)
    qed
    then obtain m st' where st': "open_server e frm target ps st = Some (ps\<lparr>calls := calls ps + 1\<rparr>, st')"
      "set_fd (ci ps) None (st\<lparr>conf_maxfd := m\<rparr>) = Some st'" by blast
    moreover have "spec_rule e (frm, target) rs = rs\<lparr>rs_calls := rs_calls rs + 1\<rparr>"
      using False c by (auto simp: spec_rule_def Let_def split: listen_result.split option.split)
    ultimately show ?thesis using set_fd_rep [OF rep room, of m] by auto
  next
    case True
    then obtain fd a where fa: "ce_listen e (calls ps) = Listening fd" "getAddress e (fst target) = Some a" by blast
    let ?g = "\<lparr>rg_fd = fd, rg_local = (a, snd target), rg_from = frm, rg_to = target, rg_allow = [], rg_deny = []\<rparr>"
    let ?rs = "rs\<lparr>rs_calls := rs_calls rs + 1, rs_groups := rs_groups rs @ [?g]\<rparr>"
    have spec: "spec_rule e (frm, target) rs = ?rs" using fa c by (simp add: spec_rule_def Let_def)
    let ?f = "\<lambda>s. s\<lparr>se_fd := Some (Some fd), se_local := Some (a, snd target), se_from := Some frm, se_to := Some target\<rparr>"
    let ?z = "\<lambda>s. s\<lparr>se_allow_total := Some 0, se_deny_total := Some 0\<rparr>"
    let ?sv = "(servers st)[ci ps := ?f (servers st ! ci ps)]"
    let ?sv' = "if ci ps + 1 < length (servers st) then ?sv[ci ps + 1 := ?z (?sv ! (ci ps + 1))] else ?sv"
    let ?st = "st\<lparr>conf_maxfd := max fd (conf_maxfd st), servers := ?sv'\<rparr>"
    let ?ps = "ps\<lparr>calls := calls ps + 1, ci := ci ps + 1\<rparr>"
    have run: "open_server e frm target ps st = Some (?ps, ?st)"
      using fa room by (auto simp: open_server_def upd_server_def init_totals_def Let_def)
    have len: "ci ps = length (rs_groups rs)" using rep by (simp add: conf_rep_def)
    have offs: "allow_off ?rs j = allow_off rs j" "deny_off ?rs j = deny_off rs j" if "j < ci ps" for j
      using that len by (simp_all add: allow_off_def deny_off_def)
    have each: "server_rep (?sv' ! j) (rs_groups ?rs ! j) (allow_off ?rs j) (deny_off ?rs j)" if j: "j < ci ps + 1" for j
    proof (cases "j = ci ps")
      case True
      then show ?thesis using rep room len by (auto simp: conf_rep_def server_rep_def nth_append)
    next
      case False
      then have "j < ci ps" using j by simp
      then show ?thesis using rep len offs by (auto simp: conf_rep_def nth_append)
    qed
    have tot: "ci ps + 1 < length (servers st) \<Longrightarrow> se_allow_total (?sv' ! (ci ps + 1)) = Some 0 \<and> se_deny_total (?sv' ! (ci ps + 1)) = Some 0"
      by simp
    have "conf_rep ?ps ?st ?rs"
      using rep room each tot unfolding conf_rep_def
      by (simp add: all_allow_def all_deny_def split del: if_split) (simp split: if_split)
    then show ?thesis using run spec by (auto simp: same_room_def)
  qed
qed


lemma add_server_rule:
  "add_server e t args ps st = (case rule_of e (t # args) of None \<Rightarrow> Some (ps, st)
     | Some r \<Rightarrow> open_server e (fst r) (snd r) ps st)"
  by (auto simp: add_server_def rule_of_def split: list.split option.split)

subsection \<open>The first pass counts what the second pass fills\<close>

definition server_line :: "bytes \<Rightarrow> bool" where
  "server_line l \<longleftrightarrow> hd (tokens l) \<notin> {kw_logfile, kw_pidlogfile, kw_logcommon, kw_allow, kw_deny}"

definition allow_line :: "bytes \<Rightarrow> bool" where
  "allow_line l \<longleftrightarrow> hd (tokens l) = kw_allow"

definition deny_line :: "bytes \<Rightarrow> bool" where
  "deny_line l \<longleftrightarrow> hd (tokens l) = kw_deny"

lemma keywords_distinct: "distinct [kw_logfile, kw_pidlogfile, kw_logcommon, kw_allow, kw_deny]"
  by code_simp

lemma tokens_nonempty: "[] \<notin> set (tokens s)"
proof (induction s rule: tokens.induct)
  case (1 s)
  show ?case
  proof (cases "dropWhile token_sep s")
    case Nil
    show ?thesis unfolding tokens.simps [of s] Nil by simp
  next
    case (Cons c t)
    then have "\<not> token_sep c" by (metis dropWhile_eq_Cons_conv)
    then show ?thesis using 1 [OF Cons] unfolding tokens.simps [of s] Cons by simp
  qed
qed

lemma token_sep_isspace: "token_sep c \<Longrightarrow> isspace c"
  by (auto simp: token_sep_def isspace_def)

lemma conf_line_tokens: "conf_line l \<Longrightarrow> tokens l \<noteq> []"
proof
  assume l: "conf_line l" and "tokens l = []"
  then have "dropWhile token_sep l = []"
    by (subst (asm) tokens.simps) (simp split: list.splits)
  then have "\<forall>c \<in> set l. isspace c" using token_sep_isspace by (auto simp: dropWhile_eq_Nil_conv)
  then show False using l by (simp add: conf_line_def dropWhile_eq_Nil_conv [THEN iffD2])
qed

lemma count_lines:
  assumes "\<forall>l \<in> set ls. tokens l \<noteq> []"
  shows "foldM count_line ls (se, al, de) =
    Some (se + length (filter server_line ls), al + length (filter allow_line ls), de + length (filter deny_line ls))"
  using assms
proof (induction ls arbitrary: se al de)
  case Nil
  then show ?case by simp
next
  case (Cons l ls)
  then obtain t ts where t: "tokens l = t # ts" by (cases "tokens l") auto
  then show ?case using Cons keywords_distinct
    by (simp add: count_line_def server_line_def allow_line_def deny_line_def)
qed

text \<open>Room for the remaining lines.\<close>

definition room :: "bytes list \<Rightarrow> conf_pos \<Rightarrow> rinetd_conf \<Rightarrow> bool" where
  "room ls ps st \<longleftrightarrow> ci ps + length (filter server_line ls) \<le> length (servers st) \<and>
     cai ps + length (filter allow_line ls) \<le> length (allow_rules st) \<and>
     cdi ps + length (filter deny_line ls) \<le> length (deny_rules st)"

lemma room_step:
  "room (l # ls) ps st \<Longrightarrow> same_room st st' \<Longrightarrow> ci ps' \<le> ci ps + (if server_line l then 1 else 0) \<Longrightarrow>
   cai ps' \<le> cai ps + (if allow_line l then 1 else 0) \<Longrightarrow> cdi ps' \<le> cdi ps + (if deny_line l then 1 else 0) \<Longrightarrow> room ls ps' st'"
  by (auto simp: room_def same_room_def split: if_splits)

lemma same_room_refl [simp]: "same_room st st"
  by (simp add: same_room_def)

lemma conf_rep_names:
  "conf_rep ps (st\<lparr>log_file_name := x\<rparr>) rs = conf_rep ps st rs" "conf_rep ps (st\<lparr>pid_log_file_name := y\<rparr>) rs = conf_rep ps st rs"
  "conf_rep ps (st\<lparr>log_format_common := z\<rparr>) rs = conf_rep ps st rs"
  "same_room st (st\<lparr>log_file_name := x\<rparr>)" "same_room st (st\<lparr>pid_log_file_name := y\<rparr>)" "same_room st (st\<lparr>log_format_common := z\<rparr>)"
  by (simp_all add: conf_rep_def same_room_def)

lemma spec_rule_other: "spec_step e l rs = (case rule_of e (tokens l) of None \<Rightarrow> rs | Some r \<Rightarrow> spec_rule e r rs)"
  if "server_line l" "tokens l \<noteq> []"
  using that by (simp add: spec_step_def server_line_def Let_def)

lemma server_step_rep:
  assumes rep: "conf_rep ps st rs" and sl: "server_line l" and ts: "tokens l = t # args" and ro: "room (l # ls) ps st"
  shows "\<exists>ps' st'. conf_step e l (ps, st) = Some (ps', st') \<and> conf_rep ps' st' (spec_step e l rs) \<and> room ls ps' st'"
proof -
  have step: "conf_step e l (ps, st) = add_server e t args ps st"
    using sl ts by (simp add: conf_step_def server_line_def)
  have spec: "spec_step e l rs = (case rule_of e (t # args) of None \<Rightarrow> rs | Some r \<Rightarrow> spec_rule e r rs)"
    using spec_rule_other [OF sl] ts by simp
  show ?thesis
  proof (cases "rule_of e (t # args)")
    case None
    then show ?thesis using step spec rep room_step [OF ro, of st ps] by (simp add: add_server_rule)
  next
    case (Some r)
    have "ci ps < length (servers st)" using ro sl by (simp add: room_def)
    from open_server_rep [OF rep this, of e "fst r" "snd r"] obtain ps' st'
      where r: "open_server e (fst r) (snd r) ps st = Some (ps', st')" "same_room st st'" "ci ps' \<le> ci ps + 1"
        "cai ps' = cai ps" "cdi ps' = cdi ps" "conf_rep ps' st' (spec_rule e r rs)" by auto
    have "room ls ps' st'" using room_step [OF ro r(2)] r(3-5) sl by simp
    then show ?thesis using step spec Some r(1,6) by (simp add: add_server_rule)
  qed
qed

lemma conf_step_rep:
  assumes rep: "conf_rep ps st rs" and ro: "room (l # ls) ps st" and ne: "tokens l \<noteq> []"
  shows "\<exists>ps' st'. conf_step e l (ps, st) = Some (ps', st') \<and> conf_rep ps' st' (spec_step e l rs) \<and> room ls ps' st'"
proof -
  obtain t args where ts: "tokens l = t # args" using ne by (cases "tokens l") auto
  have stay: "room ls ps st'" if "same_room st st'" for st' using room_step [OF ro that, of ps] by simp
  consider "server_line l" | "t = kw_logfile" | "t = kw_pidlogfile" | "t = kw_logcommon" | "t = kw_allow" | "t = kw_deny"
    using ts by (auto simp: server_line_def)
  then show ?thesis
  proof cases
    case 1
    from server_step_rep [OF rep 1 ts ro] show ?thesis .
  next
    case 2
    then show ?thesis using ts rep keywords_distinct
      by (auto simp: conf_step_def spec_step_def conf_rep_names stay)
  next
    case 3
    then show ?thesis using ts rep keywords_distinct
      by (auto simp: conf_step_def spec_step_def conf_rep_names stay)
  next
    case 4
    then show ?thesis using ts rep keywords_distinct
      by (auto simp: conf_step_def spec_step_def conf_rep_names stay)
  next
    case 5
    show ?thesis
    proof (cases args)
      case Nil
      then show ?thesis using 5 ts rep by (simp add: conf_step_def spec_step_def add_allow_def stay)
    next
      case (Cons pat xtra)
      have pat: "pat \<noteq> []" using tokens_nonempty [of l] ts Cons by auto
      have al: "allow_line l" using 5 ts by (simp add: allow_line_def)
      then have "cai ps < length (allow_rules st)" using ro by (simp add: room_def)
      from add_allow_rep [OF rep this pat, of xtra] obtain st' where r:
        "add_allow (pat # xtra) ps st = Some (ps\<lparr>cai := cai ps + 1\<rparr>, st')" "same_room st st'"
        "conf_rep (ps\<lparr>cai := cai ps + 1\<rparr>) st' (spec_allow pat rs)" by blast
      then show ?thesis using 5 ts Cons room_step [OF ro r(2), of "ps\<lparr>cai := cai ps + 1\<rparr>"] al
        by (simp add: conf_step_def spec_step_def)
    qed
  next
    case 6
    then have d: "t \<noteq> kw_allow" using keywords_distinct by auto
    show ?thesis
    proof (cases args)
      case Nil
      then show ?thesis using 6 d ts rep by (simp add: conf_step_def spec_step_def add_deny_def stay)
    next
      case (Cons pat xtra)
      have dl: "deny_line l" using 6 ts by (simp add: deny_line_def)
      then have "cdi ps < length (deny_rules st)" using ro by (simp add: room_def)
      from add_deny_rep [OF rep this, of pat xtra] obtain st' where r:
        "add_deny (pat # xtra) ps st = Some (ps\<lparr>cdi := cdi ps + 1\<rparr>, st')" "same_room st st'"
        "conf_rep (ps\<lparr>cdi := cdi ps + 1\<rparr>) st' (spec_deny pat rs)" by blast
      then show ?thesis using 6 d ts Cons room_step [OF ro r(2), of "ps\<lparr>cdi := cdi ps + 1\<rparr>"] dl
        by (simp add: conf_step_def spec_step_def)
    qed
  qed
qed

lemma conf_steps_rep:
  assumes "conf_rep ps st rs" and "room ls ps st" and "\<forall>l \<in> set ls. tokens l \<noteq> []"
  shows "\<exists>ps' st'. foldM (conf_step e) ls (ps, st) = Some (ps', st') \<and> conf_rep ps' st' (fold (spec_step e) ls rs)"
  using assms
proof (induction ls arbitrary: ps st rs)
  case Nil
  then show ?case by simp
next
  case (Cons l ls)
  then have "tokens l \<noteq> []" by simp
  from conf_step_rep [OF Cons.prems(1,2) this, of e] obtain ps' st'
    where 1: "conf_step e l (ps, st) = Some (ps', st')" "conf_rep ps' st' (spec_step e l rs)" "room ls ps' st'" by blast
  then show ?case using Cons.IH [OF 1(2,3)] Cons.prems(3) by simp
qed

subsection \<open>Slots that no line fills\<close>

text \<open>Above the slot of the next rule no \<open>seFds\<close> has been written.\<close>

definition unset_above :: "conf_pos \<times> rinetd_conf \<Rightarrow> bool" where
  "unset_above x \<longleftrightarrow> (\<forall>j < length (servers (snd x)). ci (fst x) < j \<longrightarrow> se_fd (servers (snd x) ! j) = None)"

definition number_of_servers :: "conf_pos \<times> rinetd_conf \<Rightarrow> nat" where
  "number_of_servers x = length (servers (snd x))"

lemma upd_server_unset:
  assumes "upd_server i f st = Some st'" and "unset_above (ps, st)" and "\<forall>s. se_fd (f s) = se_fd s \<or> i \<le> ci ps"
  shows "unset_above (ps, st') \<and> length (servers st') = length (servers st)"
  using assms by (auto simp: upd_server_def unset_above_def nth_list_update split: if_splits)

lemma unset_above_mono: "unset_above (ps, st) \<Longrightarrow> servers st' = servers st \<Longrightarrow> ci ps \<le> ci ps' \<Longrightarrow> unset_above (ps', st')"
  by (simp add: unset_above_def)

lemma add_allow_unset:
  assumes "add_allow args ps st = Some x" and "unset_above (ps, st)"
  shows "unset_above x \<and> number_of_servers x = length (servers st)"
  using assms by (auto simp: add_allow_def unset_above_def number_of_servers_def upd_server_def Let_def nth_list_update
      split: list.splits if_splits Option.bind_splits)

lemma add_deny_unset:
  assumes "add_deny args ps st = Some x" and "unset_above (ps, st)"
  shows "unset_above x \<and> number_of_servers x = length (servers st)"
  using assms by (auto simp: add_deny_def unset_above_def number_of_servers_def upd_server_def Let_def nth_list_update
      split: list.splits if_splits Option.bind_splits)

lemma open_server_unset:
  assumes "open_server e frm target ps st = Some x" and "unset_above (ps, st)"
  shows "unset_above x \<and> number_of_servers x = length (servers st)"
  using assms by (auto simp: open_server_def unset_above_def number_of_servers_def upd_server_def set_fd_def init_totals_def
      Let_def nth_list_update split: listen_result.splits option.splits if_splits Option.bind_splits)

lemma conf_step_unset:
  assumes "conf_step e l x = Some x'" and "unset_above x"
  shows "unset_above x' \<and> number_of_servers x' = number_of_servers x"
  using assms add_allow_unset add_deny_unset open_server_unset
  by (cases x) (auto simp: conf_step_def add_server_rule number_of_servers_def unset_above_def split: list.splits if_splits option.splits)

lemma conf_steps_unset:
  assumes "foldM (conf_step e) ls x = Some x'" and "unset_above x"
  shows "unset_above x' \<and> number_of_servers x' = number_of_servers x"
  using assms
proof (induction ls arbitrary: x)
  case (Cons l ls)
  then show ?case using conf_step_unset [of e l x] by (auto split: option.splits)
qed simp

subsection \<open>The whole of readConfiguration\<close>

definition conf_start :: "nat \<times> nat \<times> nat \<Rightarrow> rinetd_conf \<Rightarrow> rinetd_conf" where
  "conf_start ns st = the (init_totals 0 (alloc_conf ns st))"

lemma conf_start:
  assumes "clear_conf st = Some st0" and "ls = getConfLines content"
    and "ns = (length (filter server_line ls), length (filter allow_line ls), length (filter deny_line ls))"
  shows "init_totals 0 (alloc_conf ns st0) = Some (conf_start ns st0)"
    and "conf_rep \<lparr>ci = 0, cai = 0, cdi = 0, calls = 0\<rparr> (conf_start ns st0) \<lparr>rs_allow = [], rs_deny = [], rs_groups = [], rs_calls = 0\<rparr>"
    and "room ls \<lparr>ci = 0, cai = 0, cdi = 0, calls = 0\<rparr> (conf_start ns st0)"
    and "unset_above (\<lparr>ci = 0, cai = 0, cdi = 0, calls = 0\<rparr>, conf_start ns st0)"
    and "length (servers (conf_start ns st0)) = length (filter server_line ls)"
proof -
  have g: "global_allow st0 = 0" "global_deny st0 = 0" using assms(1) by (auto simp: clear_conf_def split: if_splits)
  show 1: "init_totals 0 (alloc_conf ns st0) = Some (conf_start ns st0)"
    by (simp add: conf_start_def init_totals_def upd_server_def)
  show "conf_rep \<lparr>ci = 0, cai = 0, cdi = 0, calls = 0\<rparr> (conf_start ns st0) \<lparr>rs_allow = [], rs_deny = [], rs_groups = [], rs_calls = 0\<rparr>"
    using assms(3) g by (simp add: conf_start_def init_totals_def upd_server_def alloc_conf_def conf_rep_def
        rules_rep_def all_allow_def all_deny_def)
  show "room ls \<lparr>ci = 0, cai = 0, cdi = 0, calls = 0\<rparr> (conf_start ns st0)"
    "length (servers (conf_start ns st0)) = length (filter server_line ls)"
    using assms(3) by (simp_all add: conf_start_def init_totals_def upd_server_def alloc_conf_def room_def)
  show "unset_above (\<lparr>ci = 0, cai = 0, cdi = 0, calls = 0\<rparr>, conf_start ns st0)"
    using assms(3) by (simp add: conf_start_def init_totals_def upd_server_def alloc_conf_def unset_above_def blank_server_def)
qed

lemma getConfLines_tokens: "\<forall>l \<in> set (getConfLines content). tokens l \<noteq> []"
  by (simp add: getConfLines_def conf_line_tokens)

lemma readConfiguration_runs:
  assumes "clear_conf st = Some st0"
  shows "\<exists>ps st'. readConfiguration e (Some content) st = Some (ps, st') \<and> conf_rep ps st' (spec_conf e content) \<and>
    unset_above (ps, st') \<and> length (servers st') = length (filter server_line (getConfLines content))"
proof -
  let ?ls = "getConfLines content" and ?ps = "\<lparr>ci = 0, cai = 0, cdi = 0, calls = 0\<rparr>"
  define ns where "ns = (length (filter server_line ?ls), length (filter allow_line ?ls), length (filter deny_line ?ls))"
  have c: "foldM count_line ?ls (0, 0, 0) = Some ns"
    using count_lines [OF getConfLines_tokens, of content 0 0 0] by (simp add: ns_def)
  note s = conf_start [OF assms refl ns_def]
  from conf_steps_rep [OF s(2,3) getConfLines_tokens, of e] obtain ps' st'
    where r: "foldM (conf_step e) ?ls (?ps, conf_start ns st0) = Some (ps', st')" "conf_rep ps' st' (spec_conf e content)"
    by (auto simp: spec_conf_def)
  then show ?thesis using conf_steps_unset [OF r(1) s(4)] s(1,5) assms c
    by (auto simp: readConfiguration_def number_of_servers_def)
qed

subsection \<open>Reference: what rinetd.8 says the lines mean\<close>

text \<open>The manual page: the allow and deny rules before the first forwarding rule are global, those after a
  forwarding rule apply to that rule only.  A line that is no keyword is a forwarding rule, whether it can be
  set up or not.\<close>

definition own_lines :: "bytes list \<Rightarrow> bytes list" where
  "own_lines ls = takeWhile (\<lambda>l. \<not> server_line l) ls"

definition patterns :: "bytes \<Rightarrow> bytes list \<Rightarrow> bytes list" where
  "patterns kw ls = map (\<lambda>l. hd (tl (tokens l))) (filter (\<lambda>l. hd (tokens l) = kw \<and> tl (tokens l) \<noteq> []) (own_lines ls))"

definition rule_opens :: "conf_env \<Rightarrow> nat \<Rightarrow> bytes \<Rightarrow> rule_group option" where
  "rule_opens e k l = (case rule_of e (tokens l) of None \<Rightarrow> None
     | Some r \<Rightarrow> (case (ce_listen e k, getAddress e (fst (snd r))) of
         (Listening fd, Some a) \<Rightarrow> Some \<lparr>rg_fd = fd, rg_local = (a, snd (snd r)), rg_from = fst r, rg_to = snd r, rg_allow = [], rg_deny = []\<rparr>
       | _ \<Rightarrow> None))"

definition next_call :: "conf_env \<Rightarrow> bytes \<Rightarrow> nat \<Rightarrow> nat" where
  "next_call e l k = (if server_line l \<and> rule_of e (tokens l) \<noteq> None then k + 1 else k)"

fun doc_groups :: "conf_env \<Rightarrow> nat \<Rightarrow> bytes list \<Rightarrow> rule_group list" where
  "doc_groups e k [] = []"
| "doc_groups e k (l # ls) =
     (case (if server_line l then rule_opens e k l else None) of
        None \<Rightarrow> []
      | Some g \<Rightarrow> [g\<lparr>rg_allow := patterns kw_allow ls, rg_deny := patterns kw_deny ls\<rparr>]) @ doc_groups e (next_call e l k) ls"

definition doc_conf :: "conf_env \<Rightarrow> bytes \<Rightarrow> rule_set" where
  "doc_conf e content = (let ls = getConfLines content in
     \<lparr>rs_allow = patterns kw_allow ls, rs_deny = patterns kw_deny ls, rs_groups = doc_groups e 0 ls, rs_calls = fold (next_call e) ls 0\<rparr>)"

text \<open>A forwarding rule that does not take effect although allow or deny rules follow it.\<close>

fun stray_patterns :: "conf_env \<Rightarrow> nat \<Rightarrow> bytes list \<Rightarrow> bool" where
  "stray_patterns e k [] \<longleftrightarrow> False"
| "stray_patterns e k (l # ls) \<longleftrightarrow>
     (server_line l \<and> rule_opens e k l = None \<and> (patterns kw_allow ls \<noteq> [] \<or> patterns kw_deny ls \<noteq> [])) \<or>
     stray_patterns e (next_call e l k) ls"

definition add_patterns :: "bytes list \<Rightarrow> bytes list \<Rightarrow> rule_set \<Rightarrow> rule_set" where
  "add_patterns as ds rs = (if rs_groups rs = [] then rs\<lparr>rs_allow := rs_allow rs @ as, rs_deny := rs_deny rs @ ds\<rparr>
     else rs\<lparr>rs_groups := add_last (\<lambda>g. g\<lparr>rg_allow := rg_allow g @ as, rg_deny := rg_deny g @ ds\<rparr>) (rs_groups rs)\<rparr>)"

lemma add_patterns_Nil [simp]: "add_patterns [] [] rs = rs"
  by (cases "rs_groups rs" rule: rev_cases) (simp_all add: add_patterns_def add_last_def)

lemma add_patterns_Cons:
  "add_patterns (p # as) ds rs = add_patterns as ds (spec_allow p rs)" "add_patterns as (p # ds) rs = add_patterns as ds (spec_deny p rs)"
  by (cases "rs_groups rs" rule: rev_cases; simp add: add_patterns_def add_last_def spec_allow_def spec_deny_def)+

lemma spec_calls [simp]: "rs_calls (spec_allow p rs) = rs_calls rs" "rs_calls (spec_deny p rs) = rs_calls rs"
  by (simp_all add: spec_allow_def spec_deny_def)

lemma patterns_other:
  assumes "\<not> server_line l"
  shows "patterns kw (l # ls) = (if hd (tokens l) = kw \<and> tl (tokens l) \<noteq> [] then [hd (tl (tokens l))] else []) @ patterns kw ls"
  using assms by (simp add: patterns_def own_lines_def)

lemma patterns_server: "server_line l \<Longrightarrow> patterns kw (l # ls) = []"
  by (simp add: patterns_def own_lines_def)

lemma spec_step_other:
  assumes "\<not> server_line l" and "tokens l \<noteq> []"
  shows "spec_step e l rs = (if tl (tokens l) \<noteq> [] \<and> hd (tokens l) = kw_allow then spec_allow (hd (tl (tokens l))) rs
    else if tl (tokens l) \<noteq> [] \<and> hd (tokens l) = kw_deny then spec_deny (hd (tl (tokens l))) rs else rs)"
  using assms keywords_distinct by (auto simp: spec_step_def Let_def server_line_def)

lemma spec_step_server:
  assumes "server_line l" and "tokens l \<noteq> []"
  shows "spec_step e l rs = rs\<lparr>rs_calls := next_call e l (rs_calls rs),
    rs_groups := rs_groups rs @ (case rule_opens e (rs_calls rs) l of None \<Rightarrow> [] | Some g \<Rightarrow> [g])\<rparr>"
  using assms by (auto simp: spec_rule_other spec_rule_def next_call_def rule_opens_def Let_def split: option.split listen_result.split)

lemma rule_opens_blank: "rule_opens e k l = Some g \<Longrightarrow> rg_allow g = [] \<and> rg_deny g = []"
  by (auto simp: rule_opens_def split: option.splits listen_result.splits)

text \<open>Without such a rule the program and the manual page agree.\<close>

lemma spec_steps_doc:
  assumes "\<forall>l \<in> set ls. tokens l \<noteq> []" and "\<not> stray_patterns e (rs_calls rs) ls"
  shows "fold (spec_step e) ls rs = (let rs1 = add_patterns (patterns kw_allow ls) (patterns kw_deny ls) rs in
    rs1\<lparr>rs_groups := rs_groups rs1 @ doc_groups e (rs_calls rs) ls, rs_calls := fold (next_call e) ls (rs_calls rs)\<rparr>)"
  using assms
proof (induction ls arbitrary: rs)
  case Nil
  then show ?case by (simp add: patterns_def own_lines_def)
next
  case (Cons l ls)
  show ?case
  proof (cases "server_line l")
    case False
    then have n: "next_call e l (rs_calls rs) = rs_calls rs" by (simp add: next_call_def)
    have c: "rs_calls (spec_step e l rs) = rs_calls rs" using Cons.prems(1) by (simp add: spec_step_other [OF False])
    have "add_patterns (patterns kw_allow (l # ls)) (patterns kw_deny (l # ls)) rs =
      add_patterns (patterns kw_allow ls) (patterns kw_deny ls) (spec_step e l rs)"
      using Cons.prems(1) keywords_distinct
      by (auto simp: patterns_other [OF False] spec_step_other [OF False] add_patterns_Cons)
    then show ?thesis using Cons.IH [of "spec_step e l rs"] Cons.prems False n c by simp
  next
    case True
    let ?rs = "spec_step e l rs"
    have s: "?rs = rs\<lparr>rs_calls := next_call e l (rs_calls rs),
      rs_groups := rs_groups rs @ (case rule_opens e (rs_calls rs) l of None \<Rightarrow> [] | Some g \<Rightarrow> [g])\<rparr>"
      using Cons.prems(1) True by (simp add: spec_step_server)
    have ih: "fold (spec_step e) ls ?rs = (let rs1 = add_patterns (patterns kw_allow ls) (patterns kw_deny ls) ?rs in
      rs1\<lparr>rs_groups := rs_groups rs1 @ doc_groups e (rs_calls ?rs) ls, rs_calls := fold (next_call e) ls (rs_calls ?rs)\<rparr>)"
      using Cons.IH [of ?rs] Cons.prems s by simp
    show ?thesis
    proof (cases "rule_opens e (rs_calls rs) l")
      case None
      then have "patterns kw_allow ls = []" "patterns kw_deny ls = []" using Cons.prems(2) True by auto
      then show ?thesis using ih s None True by (simp add: patterns_server)
    next
      case (Some g)
      then show ?thesis using ih s True rule_opens_blank [OF Some]
        by (simp add: patterns_server add_patterns_def add_last_def)
    qed
  qed
qed

lemma spec_conf_doc: "\<not> stray_patterns e 0 (getConfLines content) \<Longrightarrow> spec_conf e content = doc_conf e content"
  using spec_steps_doc [OF getConfLines_tokens, of e "\<lparr>rs_allow = [], rs_deny = [], rs_groups = [], rs_calls = 0\<rparr>" content]
  by (simp add: spec_conf_def doc_conf_def add_patterns_def Let_def)

text \<open>C16. readConfiguration stores what the manual page says the file means.  Provided that the old
  configuration can be dropped (every slot of \<open>seFds\<close> has been written) and that no forwarding rule that
  fails to take effect has allow or deny rules of its own behind it, it runs through for every text of the
  file; the allow and deny patterns before the first forwarding rule become the global ones, each rule that
  takes effect is a server with its socket, its addresses and exactly the patterns between it and the next
  forwarding rule, and the offsets and totals of a server delimit these patterns in the shared arrays.\<close>

theorem readConfiguration_refines:
  assumes "clear_conf st \<noteq> None" and "\<not> stray_patterns e 0 (getConfLines content)"
  shows "\<exists>ps st'. readConfiguration e (Some content) st = Some (ps, st') \<and> conf_rep ps st' (doc_conf e content) \<and>
    length (servers st') = length (filter server_line (getConfLines content))"
  using readConfiguration_runs [of st _ e content] assms by (auto simp: spec_conf_doc)

text \<open>Two forwarding rules that are refused or cannot be opened leave a slot of \<open>seFds\<close>
  unwritten, and reloading the configuration on SIGHUP reads it: the behaviour is undefined.\<close>

theorem reload_reads_unset_slot:
  assumes "clear_conf st \<noteq> None" and "readConfiguration e (Some content) st = Some (ps, st')"
    and "length (rs_groups (spec_conf e content)) + 1 < length (filter server_line (getConfLines content))"
  shows "readConfiguration e2 file2 st' = None"
proof -
  obtain st0 where c: "clear_conf st = Some st0" using assms(1) by blast
  then have r: "conf_rep ps st' (spec_conf e content)" "unset_above (ps, st')"
    "length (servers st') = length (filter server_line (getConfLines content))"
    using readConfiguration_runs [OF c, of e content] assms(2) by auto
  have j: "ci ps + 1 < length (servers st')" using r assms(3) by (simp add: conf_rep_def)
  then have "se_fd (servers st' ! (ci ps + 1)) = None" using r(2) by (simp add: unset_above_def)
  then have "clear_conf st' = None" using j by (auto simp: clear_conf_def list_all_length)
  then show ?thesis by (simp add: readConfiguration_def)
qed

text \<open>Name lookup that always fails, sockets 3, 4, 5, \<dots> and a file with two global patterns, one
  rule with a pattern of its own, and two rules without a port.\<close>

definition sample_env :: conf_env where
  "sample_env = \<lparr>ce_service = \<lambda>_. None, ce_host = \<lambda>_. None, ce_inet_addr = \<lambda>_. 42, ce_listen = \<lambda>n. Listening (3 + n)\<rparr>"

definition no_conf :: rinetd_conf where
  "no_conf = \<lparr>servers = [], allow_rules = [], deny_rules = [], global_allow = 0, global_deny = 0,
     log_file_name = None, pid_log_file_name = None, log_format_common = False, conf_maxfd = 0\<rparr>"

definition sample_lines :: "bytes list" where
  "sample_lines = map bytes_of [''# rules'', ''allow 1*'', ''deny 2*'', ''1 80 2 8080'', ''allow 7'', ''1 0 2 90'', ''1 x 2 90'']"

definition sample_file :: bytes where
  "sample_file = concat (map (\<lambda>l. l @ [10]) sample_lines)"

lemma sample_file_lines:
  "getConfLines sample_file = filter conf_line (map (\<lambda>l. takeWhile (\<lambda>c. c \<noteq> 0) (l @ [10])) sample_lines)"
proof -
  have "\<forall>l \<in> set sample_lines. 10 \<notin> set l \<and> length l < 20" by code_simp
  then show ?thesis unfolding getConfLines_def sample_file_def by (subst file_lines_concat) auto
qed

lemma sample_conf:
  "length (rs_groups (spec_conf sample_env sample_file)) + 1 < length (filter server_line (getConfLines sample_file))"
  unfolding spec_conf_def sample_file_lines by code_simp

theorem readConfiguration_refines_witness:
  "clear_conf no_conf \<noteq> None \<and> \<not> stray_patterns sample_env 0 (getConfLines sample_file) \<and>
   (\<exists>ps st'. readConfiguration sample_env (Some sample_file) no_conf = Some (ps, st') \<and>
      conf_rep ps st' (doc_conf sample_env sample_file) \<and>
      length (servers st') = length (filter server_line (getConfLines sample_file)))"
proof -
  have "clear_conf no_conf \<noteq> None" by code_simp
  moreover have "\<not> stray_patterns sample_env 0 (getConfLines sample_file)" unfolding sample_file_lines by code_simp
  ultimately show ?thesis using readConfiguration_refines [of no_conf sample_env sample_file] by blast
qed

text \<open>With such a rule they differ: the allow rule behind the second forwarding rule, whose port is 0, is
  given to the first one, which then rejects every other client.\<close>

definition stray_lines :: "bytes list" where
  "stray_lines = map bytes_of [''1 80 2 8080'', ''1 0 2 90'', ''allow 7'']"

definition stray_file :: bytes where
  "stray_file = concat (map (\<lambda>l. l @ [10]) stray_lines)"

lemma stray_pattern_moves:
  "map rg_allow (rs_groups (spec_conf sample_env stray_file)) = [[bytes_of ''7'']]"
  "map rg_allow (rs_groups (doc_conf sample_env stray_file)) = [[]]"
proof -
  have "\<forall>l \<in> set stray_lines. 10 \<notin> set l \<and> length l < 20" by code_simp
  then have l: "getConfLines stray_file = filter conf_line (map (\<lambda>l. takeWhile (\<lambda>c. c \<noteq> 0) (l @ [10])) stray_lines)"
    unfolding getConfLines_def stray_file_def by (subst file_lines_concat) auto
  show "map rg_allow (rs_groups (spec_conf sample_env stray_file)) = [[bytes_of ''7'']]" unfolding spec_conf_def l by code_simp
  show "map rg_allow (rs_groups (doc_conf sample_env stray_file)) = [[]]" unfolding doc_conf_def l by code_simp
qed

theorem reload_reads_unset_slot_witness:
  "\<exists>ps st'. readConfiguration sample_env (Some sample_file) no_conf = Some (ps, st') \<and>
     readConfiguration sample_env None st' = None \<and> readConfiguration sample_env (Some sample_file) st' = None"
proof -
  have c: "clear_conf no_conf \<noteq> None" by code_simp
  then obtain ps st' where r: "readConfiguration sample_env (Some sample_file) no_conf = Some (ps, st')"
    using readConfiguration_runs [of no_conf _ sample_env sample_file] by auto
  from reload_reads_unset_slot [OF c r sample_conf] show ?thesis using r by blast
qed

end
