(* ===== verification/Rinetd_Conn.thy ===== *)
theory Rinetd_Conn
  imports Rinetd_Config
begin

section \<open>rinetd: connections (rinetd.c, initArrays to refuse)\<close>

text \<open>
  The parallel arrays of the connections are one list of records.  What the operating system
  answers during one pass of the select loop is a parameter: which descriptors are ready, what
  accept, connect, recv and send return, the time, and what \<open>malloc\<close> leaves in fresh memory.  Closed
  descriptors, connection attempts and lines of the log are recorded in a trace.  Each connection
  also carries what it has received and sent so far, which no operation reads.  \<open>None\<close> is undefined
  behaviour: an index outside an array, a descriptor outside an \<open>fd_set\<close>, an uninitialised value.
\<close>

subsection \<open>State\<close>

definition bufferSpace :: nat where "bufferSpace = 1024"
definition fd_set_size :: int where "fd_set_size = 1024"

type_synonym ip4 = "byte \<times> byte \<times> byte \<times> byte"

record connection =
  re_fd :: int
  lo_fd :: int
  re_addr :: ip4
  co_input :: bytes
  co_in_r :: nat
  co_in_w :: nat
  co_output :: bytes
  co_out_r :: nat
  co_out_w :: nat
  co_closed :: bool
  co_closing :: bool
  re_closed :: bool
  lo_closed :: bool
  co_bytes_in :: u32
  co_bytes_out :: u32
  co_log :: nat
  co_se :: nat
  from_remote :: bytes
  to_local :: bytes
  from_local :: bytes
  to_remote :: bytes

datatype rinetd_event = Closed int | Connect int u32 nat | Logged bytes

record rinetd =
  conf :: rinetd_conf
  conns :: "connection list"
  log_open :: bool
  trace :: "rinetd_event list"

datatype recv_result = Received bytes | Recv_would_block | Recv_error
datatype send_result = Sent nat | Send_would_block | Send_error
datatype local_result = Local_socket_failed | Local_bind_failed int | Local_connect_failed int | Local_open int

record pass_env =
  rp_ready_r :: "int \<Rightarrow> bool"
  rp_ready_w :: "int \<Rightarrow> bool"
  rp_accept :: "nat \<Rightarrow> (int \<times> ip4) option"
  rp_local :: "nat \<Rightarrow> local_result"
  rp_recv_re :: "nat \<Rightarrow> nat \<Rightarrow> recv_result"
  rp_recv_lo :: "nat \<Rightarrow> nat \<Rightarrow> recv_result"
  rp_send_re :: "nat \<Rightarrow> bytes \<Rightarrow> send_result"
  rp_send_lo :: "nat \<Rightarrow> bytes \<Rightarrow> send_result"
  rp_grow :: "nat \<Rightarrow> bool"
  rp_junk :: "nat \<Rightarrow> connection"
  rp_stack :: bytes
  rp_time :: bytes
  rp_timz :: int

definition put_conn :: "nat \<Rightarrow> connection \<Rightarrow> rinetd \<Rightarrow> rinetd" where
  "put_conn i c st = st\<lparr>conns := (conns st)[i := c]\<rparr>"

definition note_event :: "rinetd_event \<Rightarrow> rinetd \<Rightarrow> rinetd" where
  "note_event ev st = st\<lparr>trace := trace st @ [ev]\<rparr>"

text \<open>A fresh slot: closed, with its buffers allocated, everything else as memory happens to be.\<close>

definition fresh_slot :: "connection \<Rightarrow> connection" where
  "fresh_slot c = c\<lparr>co_closed := True, co_input := take bufferSpace (co_input c @ replicate bufferSpace 0),
     co_output := take bufferSpace (co_output c @ replicate bufferSpace 0)\<rparr>"

definition initArrays :: "(nat \<Rightarrow> connection) \<Rightarrow> connection list" where
  "initArrays junk = map (\<lambda>j. fresh_slot (junk j)) [0..<64]"

subsection \<open>The log\<close>

text \<open>\<open>%d\<close> and \<open>%.2d\<close>.\<close>

fun dec :: "nat \<Rightarrow> bytes" where
  "dec n = (if n < 10 then [48 + of_nat n] else dec (n div 10) @ [48 + of_nat (n mod 10)])"

declare dec.simps [simp del]

definition dec_int :: "int \<Rightarrow> bytes" where
  "dec_int i = (if i < 0 then 45 # dec (nat (- i)) else dec (nat i))"

definition dec2 :: "int \<Rightarrow> bytes" where
  "dec2 i = (if nat i < 10 then 48 # dec (nat i) else dec (nat i))"

definition quad :: "ip4 \<Rightarrow> bytes" where
  "quad a = (case a of (w, x, y, z) \<Rightarrow> dec (unat w) @ [46] @ dec (unat x) @ [46] @ dec (unat y) @ [46] @ dec (unat z))"

definition logDone :: nat where "logDone = 0"
definition logAcceptFailed :: nat where "logAcceptFailed = 2"
definition logLocalSocketFailed :: nat where "logLocalSocketFailed = 4"
definition logLocalBindFailed :: nat where "logLocalBindFailed = 6"
definition logLocalConnectFailed :: nat where "logLocalConnectFailed = 8"
definition logNotAllowed :: nat where "logNotAllowed = 10"
definition logDenied :: nat where "logDenied = 12"
definition logLocalClosedFirst :: nat where "logLocalClosedFirst = 0"
definition logRemoteClosedFirst :: nat where "logRemoteClosedFirst = 1"

lemmas log_codes = logDone_def logAcceptFailed_def logLocalSocketFailed_def logLocalBindFailed_def
  logLocalConnectFailed_def logNotAllowed_def logDenied_def logLocalClosedFirst_def logRemoteClosedFirst_def

definition logMessages :: "nat \<Rightarrow> bytes option" where
  "logMessages r = (case peek [Some ''done-local-closed'', Some ''done-remote-closed'', Some ''accept-failed -'', None,
     Some ''local-socket-failed -'', None, Some ''local-bind-failed -'', None, Some ''local-connect-failed -'', None,
     Some ''not-allowed'', None, Some ''denied'', None] r of Some (Some m) \<Rightarrow> Some (bytes_of m) | _ \<Rightarrow> None)"

definition log_text :: "pass_env \<Rightarrow> bool \<Rightarrow> ip4 \<Rightarrow> bytes \<times> nat \<Rightarrow> bytes \<times> nat \<Rightarrow> int \<Rightarrow> int \<Rightarrow> bytes \<Rightarrow> bytes" where
  "log_text e common a frm target bin bout msg =
     (let sign = (if rp_timz e < 0 then 45 else 43); timz = \<bar>rp_timz e\<bar> in
      if common
      then quad a @ bytes_of '' - - ['' @ rp_time e @ bytes_of '' '' @ [sign] @ dec2 (timz div 60) @ dec2 (timz mod 60) @
        bytes_of ''] '' @ [34] @ bytes_of ''GET /rinetd-services/'' @ fst frm @ [47] @ dec (snd frm) @ [47] @ fst target @
        [47] @ dec (snd target) @ [47] @ msg @ bytes_of '' HTTP/1.0'' @ [34] @ bytes_of '' 200 '' @ dec_int bout @
        bytes_of '' - - - '' @ dec_int bin @ [10]
      else rp_time e @ [9] @ quad a @ [9] @ fst frm @ [9] @ dec (snd frm) @ [9] @ fst target @ [9] @ dec (snd target) @
        [9] @ dec_int bin @ [9] @ dec_int bout @ [9] @ msg @ [10])"

definition log :: "pass_env \<Rightarrow> nat option \<Rightarrow> nat \<Rightarrow> nat \<Rightarrow> rinetd \<Rightarrow> rinetd option" where
  "log e i se result st = do {
     x \<leftarrow> (case i of None \<Rightarrow> Some ((0, 0, 0, 0), 0, 0)
           | Some i \<Rightarrow> do { c \<leftarrow> peek (conns st) i; Some (re_addr c, co_bytes_in c, co_bytes_out c) });
     (if log_open st then do {
        s \<leftarrow> peek (servers (conf st)) se;
        frm \<leftarrow> se_from s;
        target \<leftarrow> se_to s;
        msg \<leftarrow> logMessages result;
        Some (note_event (Logged (log_text e (log_format_common (conf st)) (fst x) frm target
          (sint (fst (snd x))) (sint (snd (snd x))) msg)) st) }
      else Some st) }"

subsection \<open>Closing\<close>

definition handleCloseFromLocal :: "nat \<Rightarrow> rinetd \<Rightarrow> rinetd option" where
  "handleCloseFromLocal i st = do {
     c \<leftarrow> peek (conns st) i;
     Some (put_conn i (c\<lparr>co_closing := True, lo_closed := True,
       co_log := (if re_closed c then co_log c else logLocalClosedFirst)\<rparr>) (note_event (Closed (lo_fd c)) st)) }"

definition handleCloseFromRemote :: "nat \<Rightarrow> rinetd \<Rightarrow> rinetd option" where
  "handleCloseFromRemote i st = do {
     c \<leftarrow> peek (conns st) i;
     Some (put_conn i (c\<lparr>co_closing := True, re_closed := True,
       co_log := (if lo_closed c then co_log c else logRemoteClosedFirst)\<rparr>) (note_event (Closed (re_fd c)) st)) }"

subsection \<open>Moving data\<close>

text \<open>Where recv has put its bytes, and what the counters say after recv and after send.\<close>

definition write_at :: "nat \<Rightarrow> bytes \<Rightarrow> bytes \<Rightarrow> bytes option" where
  "write_at p d b = (if p + length d \<le> length b then Some (take p b @ d @ drop (p + length d) b) else None)"

definition store_input :: "bytes \<Rightarrow> connection \<Rightarrow> connection option" where
  "store_input d c = do {
     b \<leftarrow> write_at (co_in_r c) d (co_input c);
     Some (c\<lparr>co_input := b, co_bytes_in := co_bytes_in c + of_nat (length d), co_in_r := co_in_r c + length d,
             from_remote := from_remote c @ d\<rparr>) }"

definition store_output :: "bytes \<Rightarrow> connection \<Rightarrow> connection option" where
  "store_output d c = do {
     b \<leftarrow> write_at (co_out_r c) d (co_output c);
     Some (c\<lparr>co_output := b, co_out_r := co_out_r c + length d, from_local := from_local c @ d\<rparr>) }"

definition input_data :: "connection \<Rightarrow> bytes" where
  "input_data c = take (co_in_r c - co_in_w c) (drop (co_in_w c) (co_input c))"

definition output_data :: "connection \<Rightarrow> bytes" where
  "output_data c = take (co_out_r c - co_out_w c) (drop (co_out_w c) (co_output c))"

definition sent_input :: "nat \<Rightarrow> connection \<Rightarrow> connection" where
  "sent_input n c = c\<lparr>co_in_w := (if co_in_w c + n = co_in_r c then 0 else co_in_w c + n),
     co_in_r := (if co_in_w c + n = co_in_r c then 0 else co_in_r c), to_local := to_local c @ take n (input_data c)\<rparr>"

definition sent_output :: "nat \<Rightarrow> connection \<Rightarrow> connection" where
  "sent_output n c = c\<lparr>co_out_w := (if co_out_w c + n = co_out_r c then 0 else co_out_w c + n),
     co_out_r := (if co_out_w c + n = co_out_r c then 0 else co_out_r c),
     co_bytes_out := co_bytes_out c + of_nat n, to_remote := to_remote c @ take n (output_data c)\<rparr>"

definition handleRemoteRead :: "pass_env \<Rightarrow> nat \<Rightarrow> rinetd \<Rightarrow> rinetd option" where
  "handleRemoteRead e i st = do {
     c \<leftarrow> peek (conns st) i;
     (if bufferSpace = co_in_r c then Some st
      else if bufferSpace < co_in_r c then None
      else (case rp_recv_re e i (bufferSpace - co_in_r c) of
         Received [] \<Rightarrow> handleCloseFromRemote i st
       | Received d \<Rightarrow> do { c' \<leftarrow> store_input d c; Some (put_conn i c' st) }
       | Recv_would_block \<Rightarrow> Some st
       | Recv_error \<Rightarrow> handleCloseFromRemote i st)) }"

definition handleLocalRead :: "pass_env \<Rightarrow> nat \<Rightarrow> rinetd \<Rightarrow> rinetd option" where
  "handleLocalRead e i st = do {
     c \<leftarrow> peek (conns st) i;
     (if bufferSpace = co_out_r c then Some st
      else if bufferSpace < co_out_r c then None
      else (case rp_recv_lo e i (bufferSpace - co_out_r c) of
         Received [] \<Rightarrow> handleCloseFromLocal i st
       | Received d \<Rightarrow> do { c' \<leftarrow> store_output d c; Some (put_conn i c' st) }
       | Recv_would_block \<Rightarrow> Some st
       | Recv_error \<Rightarrow> handleCloseFromLocal i st)) }"

definition handleRemoteWrite :: "pass_env \<Rightarrow> nat \<Rightarrow> rinetd \<Rightarrow> rinetd option" where
  "handleRemoteWrite e i st = do {
     c \<leftarrow> peek (conns st) i;
     (if co_closing c \<and> co_out_w c = co_out_r c
      then do {
        st1 \<leftarrow> log e (Some i) (co_se c) (or logDone (co_log c)) (put_conn i (c\<lparr>re_closed := True, co_closed := True\<rparr>) st);
        Some (note_event (Closed (re_fd c)) st1) }
      else if co_out_r c < co_out_w c \<or> length (co_output c) < co_out_r c then None
      else (case rp_send_re e i (output_data c) of
         Sent n \<Rightarrow> Some (put_conn i (sent_output n c) st)
       | Send_would_block \<Rightarrow> Some st
       | Send_error \<Rightarrow> handleCloseFromRemote i st)) }"

definition handleLocalWrite :: "pass_env \<Rightarrow> nat \<Rightarrow> rinetd \<Rightarrow> rinetd option" where
  "handleLocalWrite e i st = do {
     c \<leftarrow> peek (conns st) i;
     (if co_closing c \<and> co_in_w c = co_in_r c
      then do {
        st1 \<leftarrow> log e (Some i) (co_se c) (or logDone (co_log c)) (put_conn i (c\<lparr>lo_closed := True, co_closed := True\<rparr>) st);
        Some (note_event (Closed (lo_fd c)) st1) }
      else if co_in_r c < co_in_w c \<or> length (co_input c) < co_in_r c then None
      else (case rp_send_lo e i (input_data c) of
         Sent n \<Rightarrow> Some (put_conn i (sent_input n c) st)
       | Send_would_block \<Rightarrow> Some st
       | Send_error \<Rightarrow> handleCloseFromLocal i st)) }"

subsection \<open>Accepting\<close>

definition shut :: "connection \<Rightarrow> connection" where
  "shut c = c\<lparr>re_closed := True, lo_closed := True, co_closed := True\<rparr>"

definition refuse :: "pass_env \<Rightarrow> nat \<Rightarrow> nat \<Rightarrow> rinetd \<Rightarrow> rinetd option" where
  "refuse e index logCode st = do {
     c \<leftarrow> peek (conns st) index;
     log e (Some index) (co_se c) logCode (put_conn index (shut c) (note_event (Closed (re_fd c)) st)) }"

definition raise_maxfd :: "int \<Rightarrow> rinetd \<Rightarrow> rinetd" where
  "raise_maxfd fd st = st\<lparr>conf := (conf st)\<lparr>conf_maxfd := max (nat fd) (conf_maxfd (conf st))\<rparr>\<rparr>"

definition openLocalFd :: "pass_env \<Rightarrow> nat \<Rightarrow> nat \<Rightarrow> rinetd \<Rightarrow> rinetd option" where
  "openLocalFd e se i st = do {
     c \<leftarrow> peek (conns st) i;
     (case rp_local e se of
        Local_socket_failed \<Rightarrow>
          log e (Some i) (co_se c) logLocalSocketFailed (put_conn i (shut (c\<lparr>lo_fd := - 1\<rparr>)) (note_event (Closed (re_fd c)) st))
      | Local_bind_failed fd \<Rightarrow>
          log e (Some i) (co_se c) logLocalBindFailed (put_conn i (shut (c\<lparr>lo_fd := fd\<rparr>))
            (note_event (Closed (re_fd c)) (note_event (Closed fd) (raise_maxfd fd st))))
      | Local_connect_failed fd \<Rightarrow> do {
          s \<leftarrow> peek (servers (conf st)) se;
          a \<leftarrow> se_local s;
          log e (Some i) (co_se c) logLocalConnectFailed (put_conn i (shut (c\<lparr>lo_fd := fd\<rparr>))
            (note_event (Closed (re_fd c)) (note_event (Closed fd) (note_event (Connect fd (fst a) (snd a)) (raise_maxfd fd st))))) }
      | Local_open fd \<Rightarrow> do {
          s \<leftarrow> peek (servers (conf st)) se;
          a \<leftarrow> se_local s;
          Some (put_conn i (c\<lparr>lo_fd := fd\<rparr>) (note_event (Connect fd (fst a) (snd a)) (raise_maxfd fd st))) }) }"

text \<open>The text of an address in its buffer of 64 bytes.\<close>

definition addressText :: "pass_env \<Rightarrow> ip4 \<Rightarrow> bytes" where
  "addressText e a = quad a @ 0 # take (63 - length (quad a)) (rp_stack e)"

definition rule_matches :: "bytes option list \<Rightarrow> bytes \<Rightarrow> nat \<Rightarrow> bool option" where
  "rule_matches rules txt j = do { r \<leftarrow> peek rules j; p \<leftarrow> r; match txt (p @ [0]) }"

text \<open>The loops over \<open>n\<close> allow rules from an offset, which stops at the first match, and over the
  deny rules, which refuses at every match and goes on.\<close>

fun some_rule :: "bytes option list \<Rightarrow> bytes \<Rightarrow> nat \<Rightarrow> nat \<Rightarrow> bool option" where
  "some_rule rules txt off 0 = Some False"
| "some_rule rules txt off (Suc n) = do {
     m \<leftarrow> rule_matches rules txt off;
     (if m then Some True else some_rule rules txt (Suc off) n) }"

fun deny_each :: "pass_env \<Rightarrow> nat \<Rightarrow> bytes \<Rightarrow> nat \<Rightarrow> nat \<Rightarrow> rinetd \<Rightarrow> rinetd option" where
  "deny_each e index txt off 0 st = Some st"
| "deny_each e index txt off (Suc n) st = do {
     m \<leftarrow> rule_matches (deny_rules (conf st)) txt off;
     st1 \<leftarrow> (if m then refuse e index logDenied st else Some st);
     deny_each e index txt (Suc off) n st1 }"

text \<open>The four checks; a connection that no allow rule admits ends here, the others go on to the
  local server.\<close>

definition check_and_open :: "pass_env \<Rightarrow> nat \<Rightarrow> nat \<Rightarrow> bytes \<Rightarrow> rinetd \<Rightarrow> rinetd option" where
  "check_and_open e i index txt st = do {
     good \<leftarrow> (if global_allow (conf st) = 0 then Some True
              else some_rule (allow_rules (conf st)) txt 0 (global_allow (conf st)));
     (if \<not> good then refuse e index logNotAllowed st
      else do {
        st1 \<leftarrow> deny_each e index txt 0 (global_deny (conf st)) st;
        s \<leftarrow> peek (servers (conf st)) i;
        na \<leftarrow> se_allow_total s;
        good2 \<leftarrow> (if na = 0 then Some True
                  else do { off \<leftarrow> se_allow s; some_rule (allow_rules (conf st1)) txt off na });
        (if \<not> good2 then refuse e index logNotAllowed st1
         else do {
           nd \<leftarrow> se_deny_total s;
           st2 \<leftarrow> (if nd = 0 then Some st1
                   else do { off \<leftarrow> se_deny s; deny_each e index txt off nd st1 });
           openLocalFd e i index st2 }) }) }"

fun first_closed :: "connection list \<Rightarrow> nat option" where
  "first_closed [] = None"
| "first_closed (c # cs) = (if co_closed c then Some 0 else map_option Suc (first_closed cs))"

definition new_connection :: "int \<Rightarrow> nat \<Rightarrow> ip4 \<Rightarrow> connection \<Rightarrow> connection" where
  "new_connection nfd i a c = c\<lparr>co_in_r := 0, co_in_w := 0, co_out_r := 0, co_out_w := 0, co_closed := False,
     co_closing := False, re_closed := False, lo_closed := False, re_fd := nfd, co_bytes_in := 0, co_bytes_out := 0,
     co_log := 0, co_se := i, re_addr := a, from_remote := [], to_local := [], from_local := [], to_remote := []\<rparr>"

text \<open>Twice as many slots, when the memory for them is there.\<close>

definition grow_slots :: "pass_env \<Rightarrow> connection list \<Rightarrow> connection list" where
  "grow_slots e cs = cs @ map (\<lambda>j. fresh_slot (rp_junk e j)) [length cs..<2 * length cs]"

definition handleAccept :: "pass_env \<Rightarrow> nat \<Rightarrow> rinetd \<Rightarrow> rinetd option" where
  "handleAccept e i st = (case rp_accept e i of
     None \<Rightarrow> log e None i logAcceptFailed st
   | Some (nfd, a) \<Rightarrow>
       let st1 = raise_maxfd nfd st in
       (case first_closed (conns st1) of
          None \<Rightarrow>
            if rp_grow e i
            then let st2 = st1\<lparr>conns := grow_slots e (conns st1)\<rparr>; index = length (conns st1) in do {
              c \<leftarrow> peek (conns st2) index;
              check_and_open e i index (addressText e a) (put_conn index (new_connection nfd i a c) st2) }
            else Some st1
        | Some index \<Rightarrow> do {
            c \<leftarrow> peek (conns st1) index;
            check_and_open e i index (addressText e a) (put_conn index (new_connection nfd i a c) st1) }))"

subsection \<open>One pass of the select loop\<close>

text \<open>select keeps of the requested descriptors those that are ready; when it fails, the sets stay as
  they are, which is the case that all are.  A new connection takes part in the rest of the pass.\<close>

definition fd_set_add :: "int \<Rightarrow> int set \<Rightarrow> int set option" where
  "fd_set_add fd S = (if 0 \<le> fd \<and> fd < fd_set_size then Some (insert fd S) else None)"

definition fd_isset :: "int \<Rightarrow> int set \<Rightarrow> bool option" where
  "fd_isset fd S = (if 0 \<le> fd \<and> fd < fd_set_size then Some (fd \<in> S) else None)"

definition server_fds :: "server \<Rightarrow> int set \<Rightarrow> int set option" where
  "server_fds s S = do { f \<leftarrow> se_fd s; (case f of None \<Rightarrow> Some S | Some fd \<Rightarrow> fd_set_add (int fd) S) }"

definition add_if :: "bool \<Rightarrow> int \<Rightarrow> int set \<Rightarrow> int set option" where
  "add_if b fd S = (if b then fd_set_add fd S else Some S)"

definition conn_fds :: "connection \<Rightarrow> int set \<times> int set \<Rightarrow> (int set \<times> int set) option" where
  "conn_fds c rw = (if co_closed c then Some rw else do {
     w1 \<leftarrow> add_if (co_closing c \<and> \<not> re_closed c) (re_fd c) (snd rw);
     w2 \<leftarrow> add_if (co_closing c \<and> \<not> lo_closed c) (lo_fd c) w1;
     r1 \<leftarrow> add_if (\<not> re_closed c \<and> co_in_r c < bufferSpace) (re_fd c) (fst rw);
     w3 \<leftarrow> add_if (\<not> re_closed c \<and> co_out_w c < co_out_r c) (re_fd c) w2;
     r2 \<leftarrow> add_if (\<not> lo_closed c \<and> co_out_r c < bufferSpace) (lo_fd c) r1;
     w4 \<leftarrow> add_if (\<not> lo_closed c \<and> co_in_w c < co_in_r c) (lo_fd c) w3;
     Some (r2, w4) })"

definition serve_server :: "pass_env \<Rightarrow> int set \<Rightarrow> nat \<Rightarrow> rinetd \<Rightarrow> rinetd option" where
  "serve_server e R i st = do {
     s \<leftarrow> peek (servers (conf st)) i;
     f \<leftarrow> se_fd s;
     (case f of None \<Rightarrow> Some st
      | Some fd \<Rightarrow> do { b \<leftarrow> fd_isset (int fd) R; (if b then handleAccept e i st else Some st) }) }"

definition guarded :: "(connection \<Rightarrow> bool) \<Rightarrow> (connection \<Rightarrow> int) \<Rightarrow> int set \<Rightarrow> (nat \<Rightarrow> rinetd \<Rightarrow> rinetd option) \<Rightarrow>
    nat \<Rightarrow> rinetd \<Rightarrow> rinetd option" where
  "guarded closed fd S h i st = do {
     c \<leftarrow> peek (conns st) i;
     (if closed c then Some st
      else do { b \<leftarrow> fd_isset (fd c) S; (if b then h i st else Some st) }) }"

definition close_done :: "nat \<Rightarrow> rinetd \<Rightarrow> rinetd option" where
  "close_done i st = do {
     c \<leftarrow> peek (conns st) i;
     Some (if lo_closed c \<and> re_closed c then put_conn i (c\<lparr>co_closed := True\<rparr>) st else st) }"

definition serve_conn :: "pass_env \<Rightarrow> int set \<Rightarrow> int set \<Rightarrow> nat \<Rightarrow> rinetd \<Rightarrow> rinetd option" where
  "serve_conn e R W i st = do {
     c \<leftarrow> peek (conns st) i;
     (if co_closed c then Some st
      else do {
        st1 \<leftarrow> guarded re_closed re_fd R (handleRemoteRead e) i st;
        st2 \<leftarrow> guarded re_closed re_fd W (handleRemoteWrite e) i st1;
        st3 \<leftarrow> guarded lo_closed lo_fd R (handleLocalRead e) i st2;
        st4 \<leftarrow> guarded lo_closed lo_fd W (handleLocalWrite e) i st3;
        close_done i st4 }) }"

definition selectPass :: "pass_env \<Rightarrow> rinetd \<Rightarrow> rinetd option" where
  "selectPass e st = do {
     r0 \<leftarrow> foldM server_fds (servers (conf st)) {};
     rw \<leftarrow> foldM conn_fds (conns st) (r0, {});
     let R = {fd \<in> fst rw. rp_ready_r e fd};
     let W = {fd \<in> snd rw. rp_ready_w e fd};
     st1 \<leftarrow> foldM (serve_server e R) [0..<length (servers (conf st))] st;
     foldM (serve_conn e R W) [0..<length (conns st1)] st1 }"

subsection \<open>Interface: a buffer between two sockets\<close>

text \<open>What is received is what has been sent on, then what waits in the buffer between the two
  positions.\<close>

definition flow :: "bytes \<Rightarrow> nat \<Rightarrow> nat \<Rightarrow> bytes \<Rightarrow> bytes \<Rightarrow> bool" where
  "flow b r w g p \<longleftrightarrow> length b = bufferSpace \<and> w \<le> r \<and> r \<le> bufferSpace \<and> g = p @ take (r - w) (drop w b)"

locale relay_buffer =
  fixes buf :: "'c \<Rightarrow> bytes" and rpos :: "'c \<Rightarrow> nat" and wpos :: "'c \<Rightarrow> nat" and got :: "'c \<Rightarrow> bytes"
    and put :: "'c \<Rightarrow> bytes" and waiting :: "'c \<Rightarrow> bytes" and store :: "bytes \<Rightarrow> 'c \<Rightarrow> 'c option" and sent :: "nat \<Rightarrow> 'c \<Rightarrow> 'c"
  assumes waiting: "waiting c = take (rpos c - wpos c) (drop (wpos c) (buf c))"
    and store_runs: "rpos c + length d \<le> length (buf c) \<Longrightarrow> \<exists>c'. store d c = Some c'"
    and store: "store d c = Some c' \<Longrightarrow> write_at (rpos c) d (buf c) = Some (buf c') \<and> rpos c' = rpos c + length d \<and>
          wpos c' = wpos c \<and> got c' = got c @ d \<and> put c' = put c"
    and sent: "buf (sent n c) = buf c" "got (sent n c) = got c" "put (sent n c) = put c @ take n (waiting c)"
    and sent_pos: "rpos (sent n c) = (if wpos c + n = rpos c then 0 else rpos c)"
          "wpos (sent n c) = (if wpos c + n = rpos c then 0 else wpos c + n)"
begin

lemma store_flow:
  assumes "flow (buf c) (rpos c) (wpos c) (got c) (put c)" and "length d \<le> bufferSpace - rpos c"
  shows "\<exists>c'. store d c = Some c' \<and> flow (buf c') (rpos c') (wpos c') (got c') (put c')"
proof -
  have l: "rpos c + length d \<le> length (buf c)" using assms by (auto simp: flow_def)
  then obtain c' where c': "store d c = Some c'" using store_runs by blast
  have b: "buf c' = take (rpos c) (buf c) @ d @ drop (rpos c + length d) (buf c)"
    using store [OF c'] l by (simp add: write_at_def)
  have "take (rpos c + length d - wpos c) (drop (wpos c) (buf c')) = take (rpos c - wpos c) (drop (wpos c) (buf c)) @ d"
    unfolding b using assms l by (simp add: flow_def drop_take)
  then show ?thesis using c' store [OF c'] assms l b by (auto simp: flow_def)
qed

lemma sent_flow:
  assumes "flow (buf c) (rpos c) (wpos c) (got c) (put c)" and "n \<le> length (waiting c)"
  shows "flow (buf (sent n c)) (rpos (sent n c)) (wpos (sent n c)) (got (sent n c)) (put (sent n c))"
proof -
  let ?w = "take (rpos c - wpos c) (drop (wpos c) (buf c))"
  have n: "n \<le> rpos c - wpos c" using assms by (simp add: waiting flow_def)
  have "?w = take n ?w @ drop n ?w" by (rule append_take_drop_id [symmetric])
  also have "drop n ?w = take (rpos c - (wpos c + n)) (drop (wpos c + n) (buf c))"
    by (simp add: drop_take add.commute)
  finally have "?w = take n ?w @ take (rpos c - (wpos c + n)) (drop (wpos c + n) (buf c))" .
  then show ?thesis using assms n by (auto simp: flow_def sent sent_pos waiting)
qed

end

interpretation inp: relay_buffer co_input co_in_r co_in_w from_remote to_local input_data store_input sent_input
  by unfold_locales (auto simp: input_data_def store_input_def sent_input_def write_at_def split: Option.bind_splits if_splits)

interpretation outp: relay_buffer co_output co_out_r co_out_w from_local to_remote output_data store_output sent_output
  by unfold_locales (auto simp: output_data_def store_output_def sent_output_def write_at_def split: Option.bind_splits if_splits)

subsection \<open>Invariant\<close>

definition in_flow :: "connection \<Rightarrow> bool" where
  "in_flow c \<longleftrightarrow> flow (co_input c) (co_in_r c) (co_in_w c) (from_remote c) (to_local c)"

definition out_flow :: "connection \<Rightarrow> bool" where
  "out_flow c \<longleftrightarrow> flow (co_output c) (co_out_r c) (co_out_w c) (from_local c) (to_remote c)"

definition fd_ok :: "int \<Rightarrow> bool" where
  "fd_ok fd \<longleftrightarrow> 0 \<le> fd \<and> fd < fd_set_size"

text \<open>A server that lines of the log can name.\<close>

definition named :: "server list \<Rightarrow> nat \<Rightarrow> bool" where
  "named ss j \<longleftrightarrow> j < length ss \<and> se_from (ss ! j) \<noteq> None \<and> se_to (ss ! j) \<noteq> None"

definition open_inv :: "server list \<Rightarrow> connection \<Rightarrow> bool" where
  "open_inv ss c \<longleftrightarrow> in_flow c \<and> out_flow c \<and> co_bytes_in c = of_nat (length (from_remote c)) \<and>
     co_bytes_out c = of_nat (length (to_remote c)) \<and> fd_ok (re_fd c) \<and> fd_ok (lo_fd c) \<and>
     (co_closing c \<longleftrightarrow> re_closed c \<or> lo_closed c) \<and> co_log c \<le> 1 \<and> named ss (co_se c)"

definition conn_inv :: "server list \<Rightarrow> connection \<Rightarrow> bool" where
  "conn_inv ss c \<longleftrightarrow> length (co_input c) = bufferSpace \<and> length (co_output c) = bufferSpace \<and> (\<not> co_closed c \<longrightarrow> open_inv ss c)"

definition slots_inv :: "rinetd \<Rightarrow> bool" where
  "slots_inv st \<longleftrightarrow> conns st \<noteq> [] \<and>
     (\<forall>c \<in> set (conns st). conn_inv (servers (conf st)) c \<and> (co_closed c \<or> \<not> (re_closed c \<and> lo_closed c)))"

text \<open>What the system calls promise, and descriptors that fit into an \<open>fd_set\<close>.\<close>

definition pass_ok :: "pass_env \<Rightarrow> bool" where
  "pass_ok e \<longleftrightarrow>
     (\<forall>i n d. rp_recv_re e i n = Received d \<or> rp_recv_lo e i n = Received d \<longrightarrow> length d \<le> n) \<and>
     (\<forall>i d n. rp_send_re e i d = Sent n \<or> rp_send_lo e i d = Sent n \<longrightarrow> n \<le> length d) \<and>
     (\<forall>i fd a. rp_accept e i = Some (fd, a) \<longrightarrow> fd_ok fd) \<and>
     (\<forall>i fd. rp_local e i \<in> {Local_bind_failed fd, Local_connect_failed fd, Local_open fd} \<longrightarrow> fd_ok fd)"

subsection \<open>The handlers of an open connection\<close>

text \<open>While connection \<open>i\<close> is served, everything else stays as it was at the start \<open>st0\<close>.\<close>

definition serving :: "nat \<Rightarrow> rinetd \<Rightarrow> rinetd \<Rightarrow> bool" where
  "serving i st0 st \<longleftrightarrow> conf st = conf st0 \<and> log_open st = log_open st0 \<and> i < length (conns st) \<and>
     (\<exists>c. conns st = (conns st0)[i := c] \<and> conn_inv (servers (conf st0)) c \<and> (co_closed c \<longrightarrow> re_closed c \<and> lo_closed c))"

lemma serving_put:
  assumes "serving i st0 st" and "conn_inv (servers (conf st0)) c" and "co_closed c \<longrightarrow> re_closed c \<and> lo_closed c"
  shows "serving i st0 (put_conn i c st)"
  using assms by (auto simp: serving_def put_conn_def)

lemma serving_note [simp]: "serving i st0 (note_event ev st) = serving i st0 st"
  by (simp add: serving_def note_event_def)

lemma servingD:
  assumes "serving i st0 st"
  shows "peek (conns st) i = Some (conns st ! i)" "conn_inv (servers (conf st0)) (conns st ! i)"
    "co_closed (conns st ! i) \<longrightarrow> re_closed (conns st ! i) \<and> lo_closed (conns st ! i)" "conf st = conf st0"
  using assms by (auto simp: serving_def)

lemma handleCloseFromLocal_ok:
  assumes s: "serving i st0 st" and o: "\<not> co_closed (conns st ! i)"
  shows "\<exists>st'. handleCloseFromLocal i st = Some st' \<and> serving i st0 st'"
proof -
  have "open_inv (servers (conf st0)) (conns st ! i)" using servingD [OF s] o by (simp add: conn_inv_def)
  then show ?thesis using servingD [OF s] o s
    by (auto simp: handleCloseFromLocal_def log_codes conn_inv_def open_inv_def in_flow_def out_flow_def intro!: serving_put)
qed

lemma handleCloseFromRemote_ok:
  assumes s: "serving i st0 st" and o: "\<not> co_closed (conns st ! i)"
  shows "\<exists>st'. handleCloseFromRemote i st = Some st' \<and> serving i st0 st'"
proof -
  have "open_inv (servers (conf st0)) (conns st ! i)" using servingD [OF s] o by (simp add: conn_inv_def)
  then show ?thesis using servingD [OF s] o s
    by (auto simp: handleCloseFromRemote_def log_codes conn_inv_def open_inv_def in_flow_def out_flow_def intro!: serving_put)
qed

text \<open>A line of the log changes nothing but the trace.\<close>

lemma log_ok:
  assumes "case_option True (\<lambda>i. i < length (conns st)) i" and "named (servers (conf st)) se" and "logMessages r \<noteq> None"
  shows "\<exists>ls. log e i se r st = Some (st\<lparr>trace := trace st @ map Logged ls\<rparr>)"
proof -
  obtain x where x: "(case i of None \<Rightarrow> Some ((0, 0, 0, 0), 0, 0)
     | Some i \<Rightarrow> do { c \<leftarrow> peek (conns st) i; Some (re_addr c, co_bytes_in c, co_bytes_out c) }) = Some x"
    using assms(1) by (cases i) auto
  show ?thesis
  proof (cases "log_open st")
    case True
    then show ?thesis using assms(2,3) x unfolding log_def x
      by (auto simp: named_def note_event_def intro: exI [of _ "[t]" for t])
  next
    case False
    then show ?thesis unfolding log_def x by (auto intro: exI [of _ "[]"])
  qed
qed

lemma log_conn:
  "i < length (conns st) \<Longrightarrow> named (servers (conf st)) se \<Longrightarrow> logMessages r \<noteq> None \<Longrightarrow>
   \<exists>ls. log e (Some i) se r st = Some (st\<lparr>trace := trace st @ map Logged ls\<rparr>)"
  by (rule log_ok) simp_all

lemma logMessages_codes:
  "logMessages logDone \<noteq> None" "logMessages logAcceptFailed \<noteq> None" "logMessages logLocalSocketFailed \<noteq> None"
  "logMessages logLocalBindFailed \<noteq> None" "logMessages logLocalConnectFailed \<noteq> None" "logMessages logNotAllowed \<noteq> None"
  "logMessages logDenied \<noteq> None"
  by code_simp+

lemma logMessages_done: "n \<le> 1 \<Longrightarrow> logMessages (or logDone n) \<noteq> None"
  by (cases n) (auto simp: logDone_def logMessages_def peek_def)

lemma serving_trace [simp]: "serving i st0 (st\<lparr>trace := t\<rparr>) = serving i st0 st"
  by (simp add: serving_def)

lemma handleRemoteRead_ok:
  assumes s: "serving i st0 st" and o: "\<not> re_closed (conns st ! i)" and e: "pass_ok e"
  shows "\<exists>st'. handleRemoteRead e i st = Some st' \<and> serving i st0 st'"
proof -
  let ?c = "conns st ! i"
  have oc: "\<not> co_closed ?c" using servingD(3) [OF s] o by blast
  then have inv: "open_inv (servers (conf st0)) ?c" using servingD(2) [OF s] by (simp add: conn_inv_def)
  then have r: "co_in_r ?c \<le> bufferSpace" by (simp add: open_inv_def in_flow_def flow_def)
  have cls: "\<exists>st'. handleCloseFromRemote i st = Some st' \<and> serving i st0 st'" using handleCloseFromRemote_ok [OF s oc] .
  show ?thesis
  proof (cases "bufferSpace = co_in_r ?c")
    case True
    then show ?thesis using servingD [OF s] s by (simp add: handleRemoteRead_def)
  next
    case False
    then have lt: "\<not> bufferSpace < co_in_r ?c" using r by simp
    have eq: "handleRemoteRead e i st = (case rp_recv_re e i (bufferSpace - co_in_r ?c) of
         Received [] \<Rightarrow> handleCloseFromRemote i st
       | Received d \<Rightarrow> do { c' \<leftarrow> store_input d ?c; Some (put_conn i c' st) }
       | Recv_would_block \<Rightarrow> Some st
       | Recv_error \<Rightarrow> handleCloseFromRemote i st)"
      using False lt servingD(1) [OF s] by (simp add: handleRemoteRead_def)
    show ?thesis
    proof (cases "rp_recv_re e i (bufferSpace - co_in_r ?c)")
      case (Received d)
      show ?thesis
      proof (cases "d = []")
        case True
        then show ?thesis using cls eq Received by simp
      next
        case False
        have "length d \<le> bufferSpace - co_in_r ?c" using e Received by (auto simp: pass_ok_def)
        then obtain c' where c': "store_input d ?c = Some c'" "in_flow c'"
          using inp.store_flow [of ?c d] inv by (auto simp: in_flow_def open_inv_def)
        then have "conn_inv (servers (conf st0)) c' \<and> \<not> co_closed c'"
          using inv oc servingD(2) [OF s]
          by (auto simp: store_input_def conn_inv_def open_inv_def out_flow_def in_flow_def flow_def split: Option.bind_splits)
        then have "serving i st0 (put_conn i c' st)" using serving_put [OF s] by blast
        then show ?thesis using c' eq Received False by (auto split: list.split)
      qed
    qed (use cls eq s in auto)
  qed
qed

lemma handleLocalRead_ok:
  assumes s: "serving i st0 st" and o: "\<not> lo_closed (conns st ! i)" and e: "pass_ok e"
  shows "\<exists>st'. handleLocalRead e i st = Some st' \<and> serving i st0 st'"
proof -
  let ?c = "conns st ! i"
  have oc: "\<not> co_closed ?c" using servingD(3) [OF s] o by blast
  then have inv: "open_inv (servers (conf st0)) ?c" using servingD(2) [OF s] by (simp add: conn_inv_def)
  then have r: "co_out_r ?c \<le> bufferSpace" by (simp add: open_inv_def out_flow_def flow_def)
  have cls: "\<exists>st'. handleCloseFromLocal i st = Some st' \<and> serving i st0 st'" using handleCloseFromLocal_ok [OF s oc] .
  show ?thesis
  proof (cases "bufferSpace = co_out_r ?c")
    case True
    then show ?thesis using servingD [OF s] s by (simp add: handleLocalRead_def)
  next
    case False
    then have lt: "\<not> bufferSpace < co_out_r ?c" using r by simp
    have eq: "handleLocalRead e i st = (case rp_recv_lo e i (bufferSpace - co_out_r ?c) of
         Received [] \<Rightarrow> handleCloseFromLocal i st
       | Received d \<Rightarrow> do { c' \<leftarrow> store_output d ?c; Some (put_conn i c' st) }
       | Recv_would_block \<Rightarrow> Some st
       | Recv_error \<Rightarrow> handleCloseFromLocal i st)"
      using False lt servingD(1) [OF s] by (simp add: handleLocalRead_def)
    show ?thesis
    proof (cases "rp_recv_lo e i (bufferSpace - co_out_r ?c)")
      case (Received d)
      show ?thesis
      proof (cases "d = []")
        case True
        then show ?thesis using cls eq Received by simp
      next
        case False
        have "length d \<le> bufferSpace - co_out_r ?c" using e Received by (auto simp: pass_ok_def)
        then obtain c' where c': "store_output d ?c = Some c'" "out_flow c'"
          using outp.store_flow [of ?c d] inv by (auto simp: out_flow_def open_inv_def)
        then have "conn_inv (servers (conf st0)) c' \<and> \<not> co_closed c'"
          using inv oc servingD(2) [OF s]
          by (auto simp: store_output_def conn_inv_def open_inv_def out_flow_def in_flow_def flow_def split: Option.bind_splits)
        then have "serving i st0 (put_conn i c' st)" using serving_put [OF s] by blast
        then show ?thesis using c' eq Received False by (auto split: list.split)
      qed
    qed (use cls eq s in auto)
  qed
qed

lemma handleRemoteWrite_ok:
  assumes s: "serving i st0 st" and o: "\<not> re_closed (conns st ! i)" and e: "pass_ok e"
  shows "\<exists>st'. handleRemoteWrite e i st = Some st' \<and> serving i st0 st'"
proof -
  let ?c = "conns st ! i"
  have oc: "\<not> co_closed ?c" using servingD(3) [OF s] o by blast
  then have inv: "open_inv (servers (conf st0)) ?c" using servingD(2) [OF s] by (simp add: conn_inv_def)
  show ?thesis
  proof (cases "co_closing ?c \<and> co_out_w ?c = co_out_r ?c")
    case True
    let ?st = "put_conn i (?c\<lparr>re_closed := True, co_closed := True\<rparr>) st"
    have "lo_closed ?c" using True inv o by (simp add: open_inv_def)
    then have sv: "serving i st0 ?st" using servingD(2) [OF s] s by (auto simp: conn_inv_def intro!: serving_put)
    have "i < length (conns ?st)" using sv by (simp add: serving_def)
    moreover have "named (servers (conf ?st)) (co_se ?c)" using inv servingD(4) [OF s] by (simp add: put_conn_def open_inv_def)
    moreover have "logMessages (or logDone (co_log ?c)) \<noteq> None" using inv by (intro logMessages_done) (simp add: open_inv_def)
    ultimately obtain ls where "log e (Some i) (co_se ?c) (or logDone (co_log ?c)) ?st = Some (?st\<lparr>trace := trace ?st @ map Logged ls\<rparr>)"
      using log_conn by blast
    then show ?thesis using sv True servingD(1) [OF s] by (simp add: handleRemoteWrite_def)
  next
    case False
    have pos: "\<not> (co_out_r ?c < co_out_w ?c \<or> length (co_output ?c) < co_out_r ?c)"
      using inv by (auto simp: open_inv_def out_flow_def flow_def)
    have sv: "serving i st0 (put_conn i (sent_output n ?c) st)" if n: "n \<le> length (output_data ?c)" for n
    proof (rule serving_put [OF s])
      have "out_flow (sent_output n ?c)" using outp.sent_flow [OF _ n] inv by (simp add: out_flow_def open_inv_def)
      then show "conn_inv (servers (conf st0)) (sent_output n ?c)"
        using inv servingD(2) [OF s] n by (simp add: conn_inv_def open_inv_def sent_output_def in_flow_def)
      show "co_closed (sent_output n ?c) \<longrightarrow> re_closed (sent_output n ?c) \<and> lo_closed (sent_output n ?c)"
        using oc by (simp add: sent_output_def)
    qed
    have n: "n \<le> length (output_data ?c)" if "rp_send_re e i (output_data ?c) = Sent n" for n
      using e that unfolding pass_ok_def by blast
    show ?thesis using False pos sv n handleCloseFromRemote_ok [OF s oc] servingD(1) [OF s] s
      by (auto simp: handleRemoteWrite_def split: send_result.split)
  qed
qed

lemma handleLocalWrite_ok:
  assumes s: "serving i st0 st" and o: "\<not> lo_closed (conns st ! i)" and e: "pass_ok e"
  shows "\<exists>st'. handleLocalWrite e i st = Some st' \<and> serving i st0 st'"
proof -
  let ?c = "conns st ! i"
  have oc: "\<not> co_closed ?c" using servingD(3) [OF s] o by blast
  then have inv: "open_inv (servers (conf st0)) ?c" using servingD(2) [OF s] by (simp add: conn_inv_def)
  show ?thesis
  proof (cases "co_closing ?c \<and> co_in_w ?c = co_in_r ?c")
    case True
    let ?st = "put_conn i (?c\<lparr>lo_closed := True, co_closed := True\<rparr>) st"
    have "re_closed ?c" using True inv o by (simp add: open_inv_def)
    then have sv: "serving i st0 ?st" using servingD(2) [OF s] s by (auto simp: conn_inv_def intro!: serving_put)
    have "i < length (conns ?st)" using sv by (simp add: serving_def)
    moreover have "named (servers (conf ?st)) (co_se ?c)" using inv servingD(4) [OF s] by (simp add: put_conn_def open_inv_def)
    moreover have "logMessages (or logDone (co_log ?c)) \<noteq> None" using inv by (intro logMessages_done) (simp add: open_inv_def)
    ultimately obtain ls where "log e (Some i) (co_se ?c) (or logDone (co_log ?c)) ?st = Some (?st\<lparr>trace := trace ?st @ map Logged ls\<rparr>)"
      using log_conn by blast
    then show ?thesis using sv True servingD(1) [OF s] by (simp add: handleLocalWrite_def)
  next
    case False
    have pos: "\<not> (co_in_r ?c < co_in_w ?c \<or> length (co_input ?c) < co_in_r ?c)"
      using inv by (auto simp: open_inv_def in_flow_def flow_def)
    have sv: "serving i st0 (put_conn i (sent_input n ?c) st)" if n: "n \<le> length (input_data ?c)" for n
    proof (rule serving_put [OF s])
      have "in_flow (sent_input n ?c)" using inp.sent_flow [OF _ n] inv by (simp add: in_flow_def open_inv_def)
      then show "conn_inv (servers (conf st0)) (sent_input n ?c)"
        using inv servingD(2) [OF s] n by (simp add: conn_inv_def open_inv_def sent_input_def out_flow_def)
      show "co_closed (sent_input n ?c) \<longrightarrow> re_closed (sent_input n ?c) \<and> lo_closed (sent_input n ?c)"
        using oc by (simp add: sent_input_def)
    qed
    have n: "n \<le> length (input_data ?c)" if "rp_send_lo e i (input_data ?c) = Sent n" for n
      using e that unfolding pass_ok_def by blast
    show ?thesis using False pos sv n handleCloseFromLocal_ok [OF s oc] servingD(1) [OF s] s
      by (auto simp: handleLocalWrite_def split: send_result.split)
  qed
qed

lemma guarded_ok:
  assumes s: "serving i st0 st" and closed: "\<And>c. co_closed c \<longrightarrow> re_closed c \<and> lo_closed c \<Longrightarrow> \<not> closed c \<Longrightarrow> \<not> co_closed c"
    and fd: "\<And>c. open_inv (servers (conf st0)) c \<Longrightarrow> fd_ok (fd c)"
    and h: "\<not> closed (conns st ! i) \<Longrightarrow> \<exists>st'. h i st = Some st' \<and> serving i st0 st'"
  shows "\<exists>st'. guarded closed fd S h i st = Some st' \<and> serving i st0 st'"
proof (cases "closed (conns st ! i)")
  case True
  then show ?thesis using s servingD(1) [OF s] by (simp add: guarded_def)
next
  case False
  then have "\<not> co_closed (conns st ! i)" using closed servingD(3) [OF s] by blast
  then have "fd_ok (fd (conns st ! i))" using servingD(2) [OF s] fd by (simp add: conn_inv_def)
  then show ?thesis using False s h servingD(1) [OF s] by (simp add: guarded_def fd_isset_def fd_ok_def)
qed

lemma serve_conn_ok:
  assumes i: "i < length (conns st)" and inv: "conn_inv (servers (conf st)) (conns st ! i)" and e: "pass_ok e"
  shows "\<exists>st' c. serve_conn e R W i st = Some st' \<and> conf st' = conf st \<and> log_open st' = log_open st \<and>
    conns st' = (conns st)[i := c] \<and> conn_inv (servers (conf st)) c \<and>
    (co_closed (conns st ! i) \<and> c = conns st ! i \<or> co_closed c \<or> \<not> (re_closed c \<and> lo_closed c))"
proof (cases "co_closed (conns st ! i)")
  case True
  then show ?thesis using i inv by (intro exI [of _ st] exI [of _ "conns st ! i"]) (simp add: serve_conn_def)
next
  case False
  have s0: "serving i st st" using i inv False unfolding serving_def by (intro conjI exI [of _ "conns st ! i"]) simp_all
  have fds: "fd_ok (re_fd c)" "fd_ok (lo_fd c)" if "open_inv (servers (conf st)) c" for c
    using that by (simp_all add: open_inv_def)
  obtain st1 where 1: "guarded re_closed re_fd R (handleRemoteRead e) i st = Some st1" "serving i st st1"
    using guarded_ok [of i st st re_closed re_fd "handleRemoteRead e"] s0 fds(1) handleRemoteRead_ok [OF s0 _ e] by blast
  obtain st2 where 2: "guarded re_closed re_fd W (handleRemoteWrite e) i st1 = Some st2" "serving i st st2"
    using guarded_ok [of i st st1 re_closed re_fd "handleRemoteWrite e"] 1(2) fds(1) handleRemoteWrite_ok [OF 1(2) _ e] by blast
  obtain st3 where 3: "guarded lo_closed lo_fd R (handleLocalRead e) i st2 = Some st3" "serving i st st3"
    using guarded_ok [of i st st2 lo_closed lo_fd "handleLocalRead e"] 2(2) fds(2) handleLocalRead_ok [OF 2(2) _ e] by blast
  obtain st4 where 4: "guarded lo_closed lo_fd W (handleLocalWrite e) i st3 = Some st4" "serving i st st4"
    using guarded_ok [of i st st3 lo_closed lo_fd "handleLocalWrite e"] 3(2) fds(2) handleLocalWrite_ok [OF 3(2) _ e] by blast
  obtain c where c: "conns st4 = (conns st)[i := c]" "conf st4 = conf st" "log_open st4 = log_open st"
    "conn_inv (servers (conf st)) c" "co_closed c \<longrightarrow> re_closed c \<and> lo_closed c"
    using 4(2) by (auto simp: serving_def)
  have "conn_inv (servers (conf st)) (c\<lparr>co_closed := True\<rparr>)" using c(4) by (simp add: conn_inv_def)
  then show ?thesis using 1(1) 2(1) 3(1) 4(1) c i False
    by (auto simp: serve_conn_def close_done_def put_conn_def)
qed

subsection \<open>Which clients the rules admit\<close>

definition pattern_matches :: "bytes \<Rightarrow> bytes \<Rightarrow> bool" where
  "pattern_matches p u \<longleftrightarrow> (\<exists>a \<in> set (alternatives p). glob False a u)"

text \<open>Patterns on which the matcher stays inside the shortest address.\<close>

definition safe_pattern :: "bytes \<Rightarrow> bool" where
  "safe_pattern p \<longleftrightarrow> 0 \<notin> set p \<and> 92 \<notin> set p \<and>
     (\<forall>a \<in> set (alternatives p). let h = takeWhile (\<lambda>c. c \<noteq> 42) a in 63 \<in> set h \<longrightarrow> length h \<le> 7)"

definition admitted :: "rule_set \<Rightarrow> nat \<Rightarrow> bytes \<Rightarrow> bool" where
  "admitted rs j u \<longleftrightarrow>
     (rs_allow rs = [] \<or> (\<exists>p \<in> set (rs_allow rs). pattern_matches p u)) \<and>
     (rg_allow (rs_groups rs ! j) = [] \<or> (\<exists>p \<in> set (rg_allow (rs_groups rs ! j)). pattern_matches p u))"

definition denied :: "rule_set \<Rightarrow> nat \<Rightarrow> bytes \<Rightarrow> bool" where
  "denied rs j u \<longleftrightarrow> (\<exists>p \<in> set (rs_deny rs) \<union> set (rg_deny (rs_groups rs ! j)). pattern_matches p u)"

text \<open>A configuration all of whose forwarding rules took effect, with harmless patterns.\<close>

definition conf_ok :: "rinetd_conf \<Rightarrow> rule_set \<Rightarrow> bool" where
  "conf_ok cf rs \<longleftrightarrow> (\<exists>ps. conf_rep ps cf rs) \<and> length (servers cf) = length (rs_groups rs) \<and>
     (\<forall>g \<in> set (rs_groups rs). int (rg_fd g) < fd_set_size) \<and>
     (\<forall>p \<in> set (all_allow rs) \<union> set (all_deny rs). safe_pattern p)"

lemma dec_digits: "c \<in> set (dec n) \<Longrightarrow> c \<noteq> 0 \<and> c \<noteq> 124"
proof (induction n rule: dec.induct)
  case (1 n)
  have d: "(48 :: byte) + of_nat k \<noteq> 0 \<and> (48 :: byte) + of_nat k \<noteq> 124" if "k < 10" for k :: nat
  proof -
    have "k \<in> {0, 1, 2, 3, 4, 5, 6, 7, 8, 9}" using that by auto
    then show ?thesis by auto
  qed
  show ?case
  proof (cases "n < 10")
    case True
    then have "c = 48 + of_nat n" using "1.prems" by (simp add: dec.simps [of n])
    then show ?thesis using d [OF True] by simp
  next
    case False
    then have "c \<in> set (dec (n div 10)) \<or> c = 48 + of_nat (n mod 10)" using "1.prems" by (auto simp: dec.simps [of n])
    then show ?thesis using d [of "n mod 10"] "1.IH" [OF False] by auto
  qed
qed

lemma dec_nonempty: "0 < length (dec n)"
  by (subst dec.simps) simp

lemma quad_length: "7 \<le> length (quad a)"
proof -
  obtain w x y z where a: "a = (w, x, y, z)" by (cases a) auto
  show ?thesis using dec_nonempty [of "unat w"] dec_nonempty [of "unat x"] dec_nonempty [of "unat y"] dec_nonempty [of "unat z"]
    unfolding a quad_def by (simp only: prod.case length_append list.size)
qed

lemma quad_plain: "plain_text (quad a)"
  by (cases a) (auto simp: quad_def plain_text_def dest: dec_digits)

lemma match_address:
  assumes "safe_pattern p"
  shows "match (addressText e a) (p @ [0]) = Some (pattern_matches p (quad a))"
proof -
  have "\<forall>b \<in> set (alternatives p). head_fits b (quad a)"
    using assms quad_length [of a] by (auto simp: safe_pattern_def head_fits_def Let_def)
  then show ?thesis using assms match_loop_glob [OF _ _ quad_plain, of p a False]
    by (simp add: match_def matchBody_def addressText_def pattern_matches_def safe_pattern_def)
qed

lemma rule_matches_pattern:
  assumes "peek rules j = Some (Some p)" and "safe_pattern p"
  shows "rule_matches rules (addressText e a) j = Some (pattern_matches p (quad a))"
  using assms by (simp add: rule_matches_def match_address)

lemma some_rule_eq:
  assumes "\<forall>k < length ps. peek rules (off + k) = Some (Some (ps ! k))" and "\<forall>p \<in> set ps. safe_pattern p"
  shows "some_rule rules (addressText e a) off (length ps) = Some (\<exists>p \<in> set ps. pattern_matches p (quad a))"
  using assms
proof (induction ps arbitrary: off)
  case (Cons p ps)
  have "peek rules off = Some (Some p)" using Cons.prems(1) by force
  moreover have "\<forall>k < length ps. peek rules (Suc off + k) = Some (Some (ps ! k))"
    using Cons.prems(1) by (metis (no_types) Suc_less_eq add_Suc add_Suc_right length_Cons nth_Cons_Suc)
  ultimately show ?case using Cons.IH [of "Suc off"] Cons.prems(2) rule_matches_pattern [of rules off p]
    by simp
qed simp

lemma rules_rep_peek:
  assumes "rules_rep rules n xs" and "k < length xs"
  shows "peek rules k = Some (Some (xs ! k))"
proof -
  have r: "n = length xs" "n \<le> length rules" "take n rules = map Some xs" using assms unfolding rules_rep_def by blast+
  then have "take n rules ! k = Some (xs ! k)" using assms(2) by (simp only: nth_map)
  then show ?thesis using assms(2) r(1,2) by simp
qed

lemma concat_part:
  assumes "j < length gs" and "k < length (f (gs ! j))"
  shows "concat (map f gs) ! (length (concat (map f (take j gs))) + k) = f (gs ! j) ! k \<and>
    length (concat (map f (take j gs))) + k < length (concat (map f gs))"
proof -
  have "concat (map f gs) = concat (map f (take j gs)) @ f (gs ! j) @ concat (map f (drop (Suc j) gs))"
    using id_take_nth_drop [OF assms(1)] by (metis concat.simps(2) concat_append list.simps(9) map_append)
  then show ?thesis using assms(2) by (simp add: nth_append)
qed

lemma all_allow_part:
  assumes "j < length (rs_groups rs)" and "k < length (rg_allow (rs_groups rs ! j))"
  shows "all_allow rs ! (allow_off rs j + k) = rg_allow (rs_groups rs ! j) ! k \<and> allow_off rs j + k < length (all_allow rs)"
  using concat_part [of j "rs_groups rs" k rg_allow] assms by (simp add: all_allow_def allow_off_def nth_append)

lemma all_deny_part:
  assumes "j < length (rs_groups rs)" and "k < length (rg_deny (rs_groups rs ! j))"
  shows "all_deny rs ! (deny_off rs j + k) = rg_deny (rs_groups rs ! j) ! k \<and> deny_off rs j + k < length (all_deny rs)"
  using concat_part [of j "rs_groups rs" k rg_deny] assms by (simp add: all_deny_def deny_off_def nth_append)

lemma conf_ok_rules:
  assumes "conf_ok cf rs"
  shows "\<forall>k < length (rs_allow rs). peek (allow_rules cf) (0 + k) = Some (Some (rs_allow rs ! k))"
    and "\<forall>k < length (rs_deny rs). peek (deny_rules cf) (0 + k) = Some (Some (rs_deny rs ! k))"
    and "j < length (rs_groups rs) \<Longrightarrow> \<forall>k < length (rg_allow (rs_groups rs ! j)).
      peek (allow_rules cf) (allow_off rs j + k) = Some (Some (rg_allow (rs_groups rs ! j) ! k))"
    and "j < length (rs_groups rs) \<Longrightarrow> \<forall>k < length (rg_deny (rs_groups rs ! j)).
      peek (deny_rules cf) (deny_off rs j + k) = Some (Some (rg_deny (rs_groups rs ! j) ! k))"
proof -
  obtain n m where rep: "rules_rep (allow_rules cf) n (all_allow rs)" "rules_rep (deny_rules cf) m (all_deny rs)"
    using assms by (auto simp: conf_ok_def conf_rep_def)
  show "\<forall>k < length (rs_allow rs). peek (allow_rules cf) (0 + k) = Some (Some (rs_allow rs ! k))"
    using rules_rep_peek [OF rep(1)] by (auto simp: all_allow_def nth_append)
  show "\<forall>k < length (rs_deny rs). peek (deny_rules cf) (0 + k) = Some (Some (rs_deny rs ! k))"
    using rules_rep_peek [OF rep(2)] by (auto simp: all_deny_def nth_append)
  show "\<forall>k < length (rg_allow (rs_groups rs ! j)). peek (allow_rules cf) (allow_off rs j + k) = Some (Some (rg_allow (rs_groups rs ! j) ! k))"
    if "j < length (rs_groups rs)" using rules_rep_peek [OF rep(1)] all_allow_part [OF that] by auto
  show "\<forall>k < length (rg_deny (rs_groups rs ! j)). peek (deny_rules cf) (deny_off rs j + k) = Some (Some (rg_deny (rs_groups rs ! j) ! k))"
    if "j < length (rs_groups rs)" using rules_rep_peek [OF rep(2)] all_deny_part [OF that] by auto
qed

lemma conf_ok_safe:
  assumes "conf_ok cf rs"
  shows "\<forall>p \<in> set (rs_allow rs). safe_pattern p" "\<forall>p \<in> set (rs_deny rs). safe_pattern p"
    "j < length (rs_groups rs) \<Longrightarrow> \<forall>p \<in> set (rg_allow (rs_groups rs ! j)). safe_pattern p"
    "j < length (rs_groups rs) \<Longrightarrow> \<forall>p \<in> set (rg_deny (rs_groups rs ! j)). safe_pattern p"
  using assms by (auto simp: conf_ok_def all_allow_def all_deny_def)

lemma conf_ok_server:
  assumes "conf_ok cf rs" and "j < length (rs_groups rs)"
  shows "peek (servers cf) j = Some (servers cf ! j)" "named (servers cf) j"
    "server_rep (servers cf ! j) (rs_groups rs ! j) (allow_off rs j) (deny_off rs j)"
    "global_allow cf = length (rs_allow rs)" "global_deny cf = length (rs_deny rs)"
  using assms by (auto simp: conf_ok_def conf_rep_def server_rep_def named_def)

subsection \<open>Refusing and connecting\<close>

text \<open>The state with slot \<open>index\<close> replaced, a new highest descriptor and some more events.\<close>

definition moved :: "nat \<Rightarrow> connection \<Rightarrow> nat \<Rightarrow> rinetd_event list \<Rightarrow> rinetd \<Rightarrow> rinetd" where
  "moved index c mf evs st = st\<lparr>conf := (conf st)\<lparr>conf_maxfd := mf\<rparr>, conns := (conns st)[index := c], trace := trace st @ evs\<rparr>"

lemma moved_sel [simp]:
  "conf (moved index c mf evs st) = (conf st)\<lparr>conf_maxfd := mf\<rparr>" "conns (moved index c mf evs st) = (conns st)[index := c]"
  "trace (moved index c mf evs st) = trace st @ evs" "log_open (moved index c mf evs st) = log_open st"
  by (simp_all add: moved_def)

lemma moved_moved: "moved index c' mf' evs' (moved index c mf evs st) = moved index c' mf' (evs @ evs') st"
  by (simp add: moved_def)

lemma moved_same [simp]: "index < length (conns st) \<Longrightarrow> moved index (conns st ! index) (conf_maxfd (conf st)) [] st = st"
  by (simp add: moved_def)

lemma shut_simps [simp]: "shut (shut c) = shut c" "re_fd (shut c) = re_fd c" "co_se (shut c) = co_se c" "co_closed (shut c)"
  "length (co_input (shut c)) = length (co_input c)" "length (co_output (shut c)) = length (co_output c)"
  by (simp_all add: shut_def)

definition no_connect :: "rinetd_event list \<Rightarrow> bool" where
  "no_connect evs \<longleftrightarrow> (\<forall>fd a p. Connect fd a p \<notin> set evs)"

lemma refuse_ok:
  assumes "index < length (conns st)" and "named (servers (conf st)) (co_se (conns st ! index))" and "logMessages r \<noteq> None"
  shows "\<exists>ls. refuse e index r st = Some (moved index (shut (conns st ! index)) (conf_maxfd (conf st))
    (Closed (re_fd (conns st ! index)) # map Logged ls) st)"
proof -
  let ?c = "conns st ! index"
  let ?st = "put_conn index (shut ?c) (note_event (Closed (re_fd ?c)) st)"
  have "index < length (conns ?st)" "named (servers (conf ?st)) (co_se ?c)" using assms by (simp_all add: put_conn_def note_event_def)
  then obtain ls where "log e (Some index) (co_se ?c) r ?st = Some (?st\<lparr>trace := trace ?st @ map Logged ls\<rparr>)"
    using log_conn assms(3) by blast
  then show ?thesis using assms(1) by (auto simp: refuse_def moved_def put_conn_def note_event_def)
qed

lemma deny_each_ok:
  assumes "\<forall>k < length ps. peek (deny_rules (conf st)) (off + k) = Some (Some (ps ! k))" and "\<forall>p \<in> set ps. safe_pattern p"
    and "index < length (conns st)" and "named (servers (conf st)) (co_se (conns st ! index))"
  shows "\<exists>evs. deny_each e index (addressText e a) off (length ps) st = Some (moved index
      (if \<exists>p \<in> set ps. pattern_matches p (quad a) then shut (conns st ! index) else conns st ! index)
      (conf_maxfd (conf st)) evs st) \<and> no_connect evs"
  using assms
proof (induction ps arbitrary: off st)
  case Nil
  then show ?case by (auto simp: no_connect_def intro!: exI [of _ "[]"])
next
  case (Cons p ps)
  let ?c = "conns st ! index" and ?mf = "conf_maxfd (conf st)"
  have p: "rule_matches (deny_rules (conf st)) (addressText e a) off = Some (pattern_matches p (quad a))"
    using Cons.prems(1,2) by (intro rule_matches_pattern) force+
  have rest: "\<forall>k < length ps. peek (deny_rules (conf st)) (Suc off + k) = Some (Some (ps ! k))"
    using Cons.prems(1) by (metis (no_types) Suc_less_eq add_Suc add_Suc_right length_Cons nth_Cons_Suc)
  show ?case
  proof (cases "pattern_matches p (quad a)")
    case False
    then show ?thesis using Cons.IH [OF rest] Cons.prems p by simp
  next
    case True
    obtain ls where r: "refuse e index logDenied st = Some (moved index (shut ?c) ?mf (Closed (re_fd ?c) # map Logged ls) st)"
      using refuse_ok [OF Cons.prems(3,4) logMessages_codes(7)] by blast
    let ?st = "moved index (shut ?c) ?mf (Closed (re_fd ?c) # map Logged ls) st"
    obtain evs where d: "deny_each e index (addressText e a) (Suc off) (length ps) ?st =
        Some (moved index (shut ?c) ?mf evs ?st)" "no_connect evs"
      using Cons.IH [of ?st "Suc off"] rest Cons.prems by (auto simp: split: if_splits)
    have "no_connect (Closed (re_fd ?c) # map Logged ls @ evs)" using d(2) by (auto simp: no_connect_def)
    then show ?thesis using True p r d(1) by (auto simp: moved_moved)
  qed
qed

text \<open>How a connection to the local server ends.\<close>

definition opened :: "local_result \<Rightarrow> u32 \<times> nat \<Rightarrow> connection \<Rightarrow> connection \<Rightarrow> rinetd_event list \<Rightarrow> bool" where
  "opened res target c c' evs \<longleftrightarrow> (case res of
     Local_open fd \<Rightarrow> c' = c\<lparr>lo_fd := fd\<rparr> \<and> evs = [Connect fd (fst target) (snd target)]
   | _ \<Rightarrow> co_closed c' \<and> co_input c' = co_input c \<and> co_output c' = co_output c \<and>
          (\<forall>fd a p. Connect fd a p \<in> set evs \<longrightarrow> a = fst target \<and> p = snd target))"

lemma openLocalFd_ok:
  assumes i: "index < length (conns st)" and n: "named (servers (conf st)) (co_se (conns st ! index))"
    and s: "peek (servers (conf st)) se = Some s" "se_local s = Some target"
  shows "\<exists>c' mf evs. openLocalFd e se index st = Some (moved index c' mf evs st) \<and> opened (rp_local e se) target (conns st ! index) c' evs"
proof -
  let ?c = "conns st ! index"
  have log: "\<exists>ls. log e (Some index) (co_se ?c) r st' = Some (st'\<lparr>trace := trace st' @ map Logged ls\<rparr>)"
    if "length (conns st') = length (conns st)" "servers (conf st') = servers (conf st)" "logMessages r \<noteq> None" for r st'
    using that i n by (intro log_conn) simp_all
  show ?thesis
  proof (cases "rp_local e se")
    case Local_socket_failed
    let ?st = "put_conn index (shut (?c\<lparr>lo_fd := - 1\<rparr>)) (note_event (Closed (re_fd ?c)) st)"
    obtain ls where "log e (Some index) (co_se ?c) logLocalSocketFailed ?st = Some (?st\<lparr>trace := trace ?st @ map Logged ls\<rparr>)"
      using log [of ?st logLocalSocketFailed] logMessages_codes(3) by (auto simp: put_conn_def note_event_def)
    moreover have "?st\<lparr>trace := trace ?st @ map Logged ls\<rparr> =
      moved index (shut (?c\<lparr>lo_fd := - 1\<rparr>)) (conf_maxfd (conf st)) (Closed (re_fd ?c) # map Logged ls) st"
      by (simp add: moved_def put_conn_def note_event_def)
    ultimately have "openLocalFd e se index st = Some (moved index (shut (?c\<lparr>lo_fd := - 1\<rparr>)) (conf_maxfd (conf st)) (Closed (re_fd ?c) # map Logged ls) st)"
      using i Local_socket_failed by (simp add: openLocalFd_def)
    then show ?thesis using Local_socket_failed by (intro exI conjI) (assumption, auto simp: opened_def shut_def)
  next
    case (Local_bind_failed fd)
    let ?st = "put_conn index (shut (?c\<lparr>lo_fd := fd\<rparr>)) (note_event (Closed (re_fd ?c)) (note_event (Closed fd) (raise_maxfd fd st)))"
    obtain ls where "log e (Some index) (co_se ?c) logLocalBindFailed ?st = Some (?st\<lparr>trace := trace ?st @ map Logged ls\<rparr>)"
      using log [of ?st logLocalBindFailed] logMessages_codes(4) by (auto simp: put_conn_def note_event_def raise_maxfd_def)
    moreover have "?st\<lparr>trace := trace ?st @ map Logged ls\<rparr> = moved index (shut (?c\<lparr>lo_fd := fd\<rparr>))
      (max (nat fd) (conf_maxfd (conf st))) (Closed fd # Closed (re_fd ?c) # map Logged ls) st"
      by (simp add: moved_def put_conn_def note_event_def raise_maxfd_def)
    ultimately have "openLocalFd e se index st = Some (moved index (shut (?c\<lparr>lo_fd := fd\<rparr>))
      (max (nat fd) (conf_maxfd (conf st))) (Closed fd # Closed (re_fd ?c) # map Logged ls) st)"
      using i Local_bind_failed by (simp add: openLocalFd_def)
    then show ?thesis using Local_bind_failed by (intro exI conjI) (assumption, auto simp: opened_def shut_def)
  next
    case (Local_connect_failed fd)
    let ?st = "put_conn index (shut (?c\<lparr>lo_fd := fd\<rparr>)) (note_event (Closed (re_fd ?c)) (note_event (Closed fd)
      (note_event (Connect fd (fst target) (snd target)) (raise_maxfd fd st))))"
    obtain ls where "log e (Some index) (co_se ?c) logLocalConnectFailed ?st = Some (?st\<lparr>trace := trace ?st @ map Logged ls\<rparr>)"
      using log [of ?st logLocalConnectFailed] logMessages_codes(5) by (auto simp: put_conn_def note_event_def raise_maxfd_def)
    moreover have "?st\<lparr>trace := trace ?st @ map Logged ls\<rparr> = moved index (shut (?c\<lparr>lo_fd := fd\<rparr>))
      (max (nat fd) (conf_maxfd (conf st))) (Connect fd (fst target) (snd target) # Closed fd # Closed (re_fd ?c) # map Logged ls) st"
      by (simp add: moved_def put_conn_def note_event_def raise_maxfd_def)
    ultimately have "openLocalFd e se index st = Some (moved index (shut (?c\<lparr>lo_fd := fd\<rparr>))
      (max (nat fd) (conf_maxfd (conf st))) (Connect fd (fst target) (snd target) # Closed fd # Closed (re_fd ?c) # map Logged ls) st)"
      using i s Local_connect_failed by (simp add: openLocalFd_def)
    then show ?thesis using Local_connect_failed by (intro exI conjI) (assumption, auto simp: opened_def shut_def)
  next
    case (Local_open fd)
    have "put_conn index (?c\<lparr>lo_fd := fd\<rparr>) (note_event (Connect fd (fst target) (snd target)) (raise_maxfd fd st)) =
      moved index (?c\<lparr>lo_fd := fd\<rparr>) (max (nat fd) (conf_maxfd (conf st))) [Connect fd (fst target) (snd target)] st"
      by (simp add: moved_def put_conn_def note_event_def raise_maxfd_def)
    then show ?thesis using i s Local_open by (auto simp: openLocalFd_def opened_def)
  qed
qed

subsection \<open>Accepting a client\<close>

definition accepted :: "local_result \<Rightarrow> rule_set \<Rightarrow> nat \<Rightarrow> bytes \<Rightarrow> connection \<Rightarrow> connection \<Rightarrow> rinetd_event list \<Rightarrow> bool" where
  "accepted res rs j u c c' evs \<longleftrightarrow>
     (if admitted rs j u
      then \<exists>evs1 evs2. evs = evs1 @ evs2 \<and> no_connect evs1 \<and>
        opened res (rg_local (rs_groups rs ! j)) (if denied rs j u then shut c else c) c' evs2
      else c' = shut c \<and> no_connect evs)"

lemma accepted_intro:
  assumes "admitted rs j u" and "no_connect (evs1 @ evs)"
    and "opened res (rg_local (rs_groups rs ! j)) (if denied rs j u then shut c else c) c' evs'"
  shows "accepted res rs j u c c' (evs1 @ evs @ evs')"
  unfolding accepted_def if_P [OF assms(1)]
  by (rule exI [of _ "evs1 @ evs"], rule exI [of _ evs']) (use assms in simp)

lemma conf_ok_maxfd [simp]: "conf_ok (cf\<lparr>conf_maxfd := m\<rparr>) rs = conf_ok cf rs"
  by (simp add: conf_ok_def conf_rep_maxfd)

lemma admitted_split:
  "admitted rs j u \<longleftrightarrow> (length (rs_allow rs) = 0 \<or> (\<exists>p \<in> set (rs_allow rs). pattern_matches p u)) \<and>
     (length (rg_allow (rs_groups rs ! j)) = 0 \<or> (\<exists>p \<in> set (rg_allow (rs_groups rs ! j)). pattern_matches p u))"
  by (simp add: admitted_def)

lemma check_server_ok:
  assumes cf: "conf_ok (conf st) rs" and j: "j < length (rs_groups rs)" and i: "index < length (conns st)"
    and se: "co_se (conns st ! index) = j" and u: "u = quad a" and g: "g = rs_groups rs ! j"
    and ga: "rg_allow g = [] \<or> (\<exists>p \<in> set (rg_allow g). pattern_matches p u)"
  shows "\<exists>c' mf evs evs'. do {
      nd \<leftarrow> se_deny_total (servers (conf st) ! j);
      st2 \<leftarrow> (if nd = 0 then Some st else do { off \<leftarrow> se_deny (servers (conf st) ! j); deny_each e index (addressText e a) off nd st });
      openLocalFd e j index st2 } = Some (moved index c' mf (evs @ evs') st) \<and> no_connect evs \<and>
    opened (rp_local e j) (rg_local g) (if \<exists>p \<in> set (rg_deny g). pattern_matches p u then shut (conns st ! index) else conns st ! index) c' evs'"
proof -
  let ?s = "servers (conf st) ! j" and ?c = "conns st ! index"
  note srv = conf_ok_server [OF cf j]
  have nm: "named (servers (conf st)) (co_se ?c)" using srv(2) se by simp
  have sr: "se_deny_total ?s = Some (length (rg_deny g))" "rg_deny g \<noteq> [] \<longrightarrow> se_deny ?s = Some (deny_off rs j)" "se_local ?s = Some (rg_local g)"
    using srv(3) g by (simp_all add: server_rep_def)
  let ?m = "\<exists>p \<in> set (rg_deny g). pattern_matches p u"
  obtain evs where d: "deny_each e index (addressText e a) (deny_off rs j) (length (rg_deny g)) st =
      Some (moved index (if ?m then shut ?c else ?c) (conf_maxfd (conf st)) evs st)" "no_connect evs"
    using deny_each_ok [OF conf_ok_rules(4) [OF cf j] conf_ok_safe(4) [OF cf j] i nm, of e a] u g by blast
  have "\<exists>evs. (if length (rg_deny g) = 0 then Some st else do { off \<leftarrow> se_deny ?s; deny_each e index (addressText e a) off (length (rg_deny g)) st }) =
      Some (moved index (if ?m then shut ?c else ?c) (conf_maxfd (conf st)) evs st) \<and> no_connect evs"
  proof (cases "rg_deny g = []")
    case True
    then show ?thesis using i by (intro exI [of _ "[]"]) (simp add: no_connect_def)
  next
    case False
    then show ?thesis using sr(2) d by (intro exI [of _ evs]) simp
  qed
  then obtain evs1 where e1: "(if length (rg_deny g) = 0 then Some st else do { off \<leftarrow> se_deny ?s; deny_each e index (addressText e a) off (length (rg_deny g)) st }) =
      Some (moved index (if ?m then shut ?c else ?c) (conf_maxfd (conf st)) evs1 st)" "no_connect evs1" by blast
  let ?st = "moved index (if ?m then shut ?c else ?c) (conf_maxfd (conf st)) evs1 st"
  have i': "index < length (conns ?st)" "named (servers (conf ?st)) (co_se (conns ?st ! index))" "peek (servers (conf ?st)) j = Some ?s"
    using i nm srv(1) by auto
  obtain c' mf evs2 where o: "openLocalFd e j index ?st = Some (moved index c' mf evs2 ?st)" "opened (rp_local e j) (rg_local g) (conns ?st ! index) c' evs2"
    using openLocalFd_ok [OF i' sr(3)] by blast
  have "conns ?st ! index = (if ?m then shut ?c else ?c)" using i by simp
  then show ?thesis using sr(1) e1 o by (intro exI [of _ c'] exI [of _ mf] exI [of _ evs1] exI [of _ evs2]) (simp add: moved_moved)
qed

lemma check_and_open_ok:
  assumes cf: "conf_ok (conf st) rs" and j: "j < length (rs_groups rs)" and i: "index < length (conns st)"
    and se: "co_se (conns st ! index) = j"
  shows "\<exists>c' mf evs. check_and_open e j index (addressText e a) st = Some (moved index c' mf evs st) \<and>
    accepted (rp_local e j) rs j (quad a) (conns st ! index) c' evs"
proof -
  define u g where "u = quad a" and "g = rs_groups rs ! j"
  let ?c = "conns st ! index" and ?mf = "conf_maxfd (conf st)" and ?t = "addressText e a"
  note srv = conf_ok_server [OF cf j]
  have nm: "named (servers (conf st)) (co_se ?c)" using srv(2) se by simp
  let ?ga = "rs_allow rs = [] \<or> (\<exists>p \<in> set (rs_allow rs). pattern_matches p u)"
  let ?sa = "rg_allow g = [] \<or> (\<exists>p \<in> set (rg_allow g). pattern_matches p u)"
  have good: "(if global_allow (conf st) = 0 then Some True else some_rule (allow_rules (conf st)) ?t 0 (global_allow (conf st))) = Some ?ga"
    using some_rule_eq [OF conf_ok_rules(1) [OF cf] conf_ok_safe(1) [OF cf], of e a] srv(4) by (auto simp: u_def)
  have adm: "admitted rs j u \<longleftrightarrow> ?ga \<and> ?sa" by (simp add: admitted_def g_def)
  have ref: "\<exists>ls. refuse e index logNotAllowed st' = Some (moved index (shut (conns st' ! index)) (conf_maxfd (conf st')) (Closed (re_fd (conns st' ! index)) # map Logged ls) st')"
    if "index < length (conns st')" "named (servers (conf st')) (co_se (conns st' ! index))" for st'
    using refuse_ok [OF that logMessages_codes(6)] .
  show ?thesis
  proof (cases ?ga)
    case False
    then have "check_and_open e j index ?t st = refuse e index logNotAllowed st" using good by (simp add: check_and_open_def)
    moreover have "\<not> admitted rs j u" using False adm by blast
    moreover obtain ls where "refuse e index logNotAllowed st = Some (moved index (shut ?c) ?mf (Closed (re_fd ?c) # map Logged ls) st)"
      using ref [OF i nm] by blast
    moreover have "no_connect (Closed (re_fd ?c) # map Logged ls)" by (auto simp: no_connect_def)
    ultimately show ?thesis unfolding accepted_def u_def by metis
  next
    case True
    let ?m = "\<exists>p \<in> set (rs_deny rs). pattern_matches p u"
    obtain evs1 where d: "deny_each e index ?t 0 (length (rs_deny rs)) st = Some (moved index (if ?m then shut ?c else ?c) ?mf evs1 st)" "no_connect evs1"
      using deny_each_ok [OF conf_ok_rules(2) [OF cf] conf_ok_safe(2) [OF cf] i nm, of e a] u_def by blast
    let ?c1 = "if ?m then shut ?c else ?c"
    let ?st = "moved index ?c1 ?mf evs1 st"
    have st1: "index < length (conns ?st)" "conns ?st ! index = ?c1" "named (servers (conf ?st)) (co_se ?c1)"
      "co_se ?c1 = j" "conf_ok (conf ?st) rs" using i nm se cf by auto
    have sr: "se_allow_total (servers (conf st) ! j) = Some (length (rg_allow g))" "rg_allow g \<noteq> [] \<longrightarrow> se_allow (servers (conf st) ! j) = Some (allow_off rs j)"
      using srv(3) by (simp_all add: server_rep_def g_def)
    have good2: "(if length (rg_allow g) = 0 then Some True else do { off \<leftarrow> se_allow (servers (conf st) ! j); some_rule (allow_rules (conf ?st)) ?t off (length (rg_allow g)) }) = Some ?sa"
      using some_rule_eq [OF conf_ok_rules(3) [OF cf j] conf_ok_safe(3) [OF cf j], of e a] sr(2) by (auto simp: u_def g_def)
    let ?rest = "do { nd \<leftarrow> se_deny_total (servers (conf st) ! j);
      st2 \<leftarrow> (if nd = 0 then Some ?st else do { off \<leftarrow> se_deny (servers (conf st) ! j); deny_each e index ?t off nd ?st });
      openLocalFd e j index st2 }"
    have run: "check_and_open e j index ?t st = (if ?sa then ?rest else refuse e index logNotAllowed ?st)"
      unfolding check_and_open_def good using True d(1) srv(1,5) sr(1) good2 by simp
    show ?thesis
    proof (cases ?sa)
      case False
      obtain ls where "refuse e index logNotAllowed ?st = Some (moved index (shut ?c1) (conf_maxfd (conf ?st)) (Closed (re_fd ?c1) # map Logged ls) ?st)"
        using ref [of ?st] st1 by auto
      then have "check_and_open e j index ?t st = Some (moved index (shut ?c) (conf_maxfd (conf ?st)) (evs1 @ Closed (re_fd ?c1) # map Logged ls) st)"
        using run False by (auto simp: moved_moved)
      moreover have "accepted (rp_local e j) rs j (quad a) ?c (shut ?c) (evs1 @ Closed (re_fd ?c1) # map Logged ls)"
        using False adm d(2) by (auto simp: accepted_def no_connect_def u_def)
      ultimately show ?thesis by blast
    next
      case True
      have st1': "co_se (conns ?st ! index) = j" using st1 by simp
      have sv: "servers (conf ?st) = servers (conf st)" by simp
      from check_server_ok [OF st1(5) j st1(1) st1' u_def g_def True, of e] obtain c' mf evs evs' where
        o: "?rest = Some (moved index c' mf (evs @ evs') ?st)" "no_connect evs"
          "opened (rp_local e j) (rg_local g) (if \<exists>p \<in> set (rg_deny g). pattern_matches p u then shut ?c1 else ?c1) c' evs'"
        unfolding st1(2) sv by (elim exE conjE) (rule that)
      have run': "check_and_open e j index ?t st = Some (moved index c' mf (evs1 @ evs @ evs') st)"
        unfolding run if_P [OF True] o(1) by (simp add: moved_moved)
      have dn: "(if \<exists>p \<in> set (rg_deny g). pattern_matches p u then shut ?c1 else ?c1) = (if denied rs j u then shut ?c else ?c)"
        by (auto simp: denied_def g_def)
      have "admitted rs j u" using \<open>?ga\<close> True adm by blast
      moreover have "no_connect (evs1 @ evs)" using o(2) d(2) by (auto simp: no_connect_def)
      ultimately have "accepted (rp_local e j) rs j u ?c c' (evs1 @ evs @ evs')"
        using o(3) unfolding dn unfolding g_def by (rule accepted_intro)
      then show ?thesis using run' by (auto simp: u_def)
    qed
  qed
qed

lemma first_closed_Some: "first_closed cs = Some i \<Longrightarrow> i < length cs \<and> co_closed (cs ! i)"
  by (induction cs arbitrary: i) (auto split: if_splits)

lemma first_closed_None: "first_closed cs = None \<longleftrightarrow> (\<forall>c \<in> set cs. \<not> co_closed c)"
  by (induction cs) auto

lemma grow_slots_simps:
  "length (grow_slots e cs) = 2 * length cs" "k < length cs \<Longrightarrow> grow_slots e cs ! k = cs ! k"
  "cs \<noteq> [] \<Longrightarrow> co_closed (grow_slots e cs ! length cs)"
  "c \<in> set (grow_slots e cs) \<Longrightarrow> c \<in> set cs \<or> (\<exists>x. c = fresh_slot x)"
  by (auto simp: grow_slots_def nth_append fresh_slot_def)

lemma fresh_slot_inv: "conn_inv ss (fresh_slot c) \<and> co_closed (fresh_slot c)"
  by (auto simp: conn_inv_def fresh_slot_def min_def)

text \<open>A client that accept returns gets the first closed slot, after growing if there is none, and
  the rules decide.\<close>

lemma handleAccept_client:
  assumes cf: "conf_ok (conf st) rs" and j: "j < length (rs_groups rs)" and ne: "conns st \<noteq> []"
    and acc: "rp_accept e j = Some (nfd, a)" and slot: "(\<exists>c \<in> set (conns st). co_closed c) \<or> rp_grow e j"
  shows "\<exists>base index c' mf evs. handleAccept e j st = Some (moved index c' mf evs (st\<lparr>conns := base\<rparr>)) \<and>
    (base = conns st \<or> base = grow_slots e (conns st)) \<and> index < length base \<and> co_closed (base ! index) \<and>
    accepted (rp_local e j) rs j (quad a) (new_connection nfd j a (base ! index)) c' evs"
proof -
  define base where "base = (if first_closed (conns st) = None then grow_slots e (conns st) else conns st)"
  define index where "index = (case first_closed (conns st) of None \<Rightarrow> length (conns st) | Some i \<Rightarrow> i)"
  have b: "base = conns st \<or> base = grow_slots e (conns st)" by (simp add: base_def)
  have i: "index < length base" "co_closed (base ! index)"
    using ne first_closed_Some [of "conns st"] grow_slots_simps(1) [of e "conns st"] grow_slots_simps(3) [of "conns st" e]
    by (auto simp: base_def index_def split: option.split)
  let ?c = "new_connection nfd j a (base ! index)"
  let ?st = "put_conn index ?c ((raise_maxfd nfd st)\<lparr>conns := base\<rparr>)"
  have run: "handleAccept e j st = check_and_open e j index (addressText e a) ?st"
  proof (cases "first_closed (conns st)")
    case None
    then have "rp_grow e j" using slot first_closed_None [of "conns st"] by blast
    then show ?thesis using None acc i(1) by (simp add: handleAccept_def base_def index_def raise_maxfd_def Let_def)
  next
    case (Some k)
    then have "k < length (conns st)" "(raise_maxfd nfd st)\<lparr>conns := conns st\<rparr> = raise_maxfd nfd st"
      using first_closed_Some by (auto simp: raise_maxfd_def)
    then show ?thesis using Some acc by (simp add: handleAccept_def base_def index_def raise_maxfd_def Let_def)
  qed
  have "conf_ok (conf ?st) rs" "index < length (conns ?st)" "conns ?st ! index = ?c" "co_se (conns ?st ! index) = j"
    using cf i by (simp_all add: put_conn_def raise_maxfd_def new_connection_def)
  then obtain c' mf evs where o: "check_and_open e j index (addressText e a) ?st = Some (moved index c' mf evs ?st)"
    "accepted (rp_local e j) rs j (quad a) ?c c' evs"
    using check_and_open_ok [of ?st rs j index e a] j by auto
  have "moved index c' mf evs ?st = moved index c' mf evs (st\<lparr>conns := base\<rparr>)"
    by (simp add: moved_def put_conn_def raise_maxfd_def)
  then show ?thesis using run o b i by metis
qed

lemma accepted_inv:
  assumes "accepted (rp_local e j) rs j u (new_connection nfd j a c0) c' evs" and "conn_inv ss c0" and "named ss j"
    and "fd_ok nfd" and "pass_ok e"
  shows "conn_inv ss c' \<and> (co_closed c' \<or> \<not> (re_closed c' \<and> lo_closed c'))"
proof (cases "admitted rs j u \<and> (\<exists>fd. rp_local e j = Local_open fd)")
  case True
  then obtain fd where fd: "rp_local e j = Local_open fd" by blast
  let ?n = "new_connection nfd j a c0"
  have c': "c' = (if denied rs j u then shut ?n else ?n)\<lparr>lo_fd := fd\<rparr>"
    using assms(1) True fd by (auto simp: accepted_def opened_def)
  have "fd_ok fd" using assms(5) fd by (auto simp: pass_ok_def)
  then show ?thesis using assms(2-4) unfolding c'
    by (auto simp: conn_inv_def open_inv_def new_connection_def shut_def in_flow_def out_flow_def flow_def)
next
  case False
  then have "co_closed c' \<and> length (co_input c') = length (co_input c0) \<and> length (co_output c') = length (co_output c0)"
    using assms(1) by (cases "rp_local e j") (auto simp: accepted_def opened_def new_connection_def shut_def split: if_splits)
  then show ?thesis using assms(2) by (simp add: conn_inv_def)
qed

lemma handleAccept_ok:
  assumes cf: "conf_ok (conf st) rs" and j: "j < length (rs_groups rs)" and inv: "slots_inv st" and e: "pass_ok e"
  shows "\<exists>st'. handleAccept e j st = Some st' \<and> slots_inv st' \<and> conf_ok (conf st') rs \<and> servers (conf st') = servers (conf st)"
proof (cases "rp_accept e j")
  case None
  obtain ls where "log e None j logAcceptFailed st = Some (st\<lparr>trace := trace st @ map Logged ls\<rparr>)"
    using log_ok [of st None j logAcceptFailed e] conf_ok_server(2) [OF cf j] logMessages_codes(2) by auto
  then show ?thesis using None cf inv by (simp add: handleAccept_def slots_inv_def)
next
  case (Some x)
  then obtain nfd a where acc: "rp_accept e j = Some (nfd, a)" by (cases x) auto
  have ne: "conns st \<noteq> []" using inv by (simp add: slots_inv_def)
  show ?thesis
  proof (cases "(\<exists>c \<in> set (conns st). co_closed c) \<or> rp_grow e j")
    case False
    then have "handleAccept e j st = Some (raise_maxfd nfd st)"
      using acc first_closed_None [of "conns st"] by (simp add: handleAccept_def raise_maxfd_def)
    then show ?thesis using cf inv by (simp add: slots_inv_def raise_maxfd_def)
  next
    case True
    from handleAccept_client [OF cf j ne acc True] obtain base index c' mf evs where
      o: "handleAccept e j st = Some (moved index c' mf evs (st\<lparr>conns := base\<rparr>))"
        "base = conns st \<or> base = grow_slots e (conns st)" "index < length base" "co_closed (base ! index)"
        "accepted (rp_local e j) rs j (quad a) (new_connection nfd j a (base ! index)) c' evs" by blast
    let ?P = "\<lambda>c. conn_inv (servers (conf st)) c \<and> (co_closed c \<or> \<not> (re_closed c \<and> lo_closed c))"
    have base: "?P c" if c: "c \<in> set base" for c
    proof -
      have "c \<in> set (conns st) \<or> (\<exists>x. c = fresh_slot x)" using c o(2) grow_slots_simps(4) by blast
      then show ?thesis using inv fresh_slot_inv by (auto simp: slots_inv_def)
    qed
    then have "conn_inv (servers (conf st)) (base ! index)" using o(3) by simp
    moreover have "fd_ok nfd" using e acc unfolding pass_ok_def by blast
    ultimately have "?P c'" using accepted_inv [OF o(5)] conf_ok_server(2) [OF cf j] e by blast
    then have "\<forall>c \<in> set (base[index := c']). ?P c" using base set_update_subset_insert [of base index c'] by blast
    moreover have "base[index := c'] \<noteq> []" using o(3) by auto
    ultimately have "slots_inv (moved index c' mf evs (st\<lparr>conns := base\<rparr>))" by (simp add: slots_inv_def)
    then show ?thesis using o(1) cf by simp
  qed
qed

lemma serve_server_ok:
  assumes cf: "conf_ok (conf st) rs" and j: "j < length (servers (conf st))" and inv: "slots_inv st" and e: "pass_ok e"
  shows "\<exists>st'. serve_server e R j st = Some st' \<and> slots_inv st' \<and> conf_ok (conf st') rs \<and> servers (conf st') = servers (conf st)"
proof -
  have j': "j < length (rs_groups rs)" using cf j by (simp add: conf_ok_def)
  have "se_fd (servers (conf st) ! j) = Some (Some (rg_fd (rs_groups rs ! j)))" "int (rg_fd (rs_groups rs ! j)) < fd_set_size"
    using conf_ok_server(3) [OF cf j'] cf j' by (simp_all add: server_rep_def conf_ok_def)
  then show ?thesis using handleAccept_ok [OF cf j' inv e] j cf inv
    by (simp add: serve_server_def fd_isset_def)
qed

subsection \<open>A pass and a run\<close>

lemma server_fds_ok:
  assumes "\<forall>s \<in> set ss. \<exists>fd. se_fd s = Some (Some fd) \<and> int fd < fd_set_size"
  shows "\<exists>S'. foldM server_fds ss S = Some S'"
  using assms by (induction ss arbitrary: S) (auto simp: server_fds_def fd_set_add_def)

lemma conn_fds_ok:
  assumes "\<forall>c \<in> set cs. conn_inv ss c"
  shows "\<exists>rw'. foldM conn_fds cs rw = Some rw'"
  using assms
proof (induction cs arbitrary: rw)
  case (Cons c cs)
  then have "co_closed c \<or> fd_ok (re_fd c) \<and> fd_ok (lo_fd c)" by (auto simp: conn_inv_def open_inv_def)
  then have "\<exists>rw1. conn_fds c rw = Some rw1" by (auto simp: conn_fds_def add_if_def fd_set_add_def fd_ok_def)
  then show ?case using Cons by auto
qed simp

lemma serve_servers_ok:
  assumes "conf_ok (conf st) rs" and "\<forall>j \<in> set js. j < length (servers (conf st))" and "slots_inv st" and "pass_ok e"
  shows "\<exists>st'. foldM (serve_server e R) js st = Some st' \<and> slots_inv st' \<and> conf_ok (conf st') rs"
  using assms
proof (induction js arbitrary: st)
  case (Cons j js)
  from Cons.prems(2) have "j < length (servers (conf st))" by simp
  from serve_server_ok [OF Cons.prems(1) this Cons.prems(3,4)] obtain st1
    where "serve_server e R j st = Some st1" "slots_inv st1" "conf_ok (conf st1) rs" "servers (conf st1) = servers (conf st)" by blast
  then show ?case using Cons.IH [of st1] Cons.prems(2,4) by simp
qed simp

lemma serve_conns_ok:
  assumes "\<forall>i \<in> set is. i < length (conns st)" and "slots_inv st" and "pass_ok e"
  shows "\<exists>st'. foldM (serve_conn e R W) is st = Some st' \<and> slots_inv st' \<and> conf st' = conf st"
  using assms
proof (induction "is" arbitrary: st)
  case (Cons i "is")
  have i: "i < length (conns st)" using Cons.prems by simp
  let ?P = "\<lambda>c. conn_inv (servers (conf st)) c \<and> (co_closed c \<or> \<not> (re_closed c \<and> lo_closed c))"
  have all: "\<forall>c \<in> set (conns st). ?P c" and ne: "conns st \<noteq> []" using Cons.prems(2) by (simp_all add: slots_inv_def)
  have "conn_inv (servers (conf st)) (conns st ! i)" using all i by simp
  from serve_conn_ok [OF i this Cons.prems(3), of R W] obtain st1 c where s: "serve_conn e R W i st = Some st1" "conf st1 = conf st"
    "conns st1 = (conns st)[i := c]" "conn_inv (servers (conf st)) c"
    "co_closed (conns st ! i) \<and> c = conns st ! i \<or> co_closed c \<or> \<not> (re_closed c \<and> lo_closed c)" by (elim exE conjE) (rule that; assumption)
  have "?P c" using s(4,5) by auto
  then have "\<forall>c \<in> set (conns st1). ?P c" using all set_update_subset_insert [of "conns st" i c] s(3) by (metis insert_iff subsetD)
  then have "slots_inv st1" using s(2,3) ne by (simp add: slots_inv_def)
  then show ?case using Cons.IH [of st1] Cons.prems(1,3) s(1-3) by simp
qed simp

lemma selectPass_ok:
  assumes cf: "conf_ok (conf st) rs" and inv: "slots_inv st" and e: "pass_ok e"
  shows "\<exists>st'. selectPass e st = Some st' \<and> slots_inv st' \<and> conf_ok (conf st') rs"
proof -
  have "\<forall>j < length (servers (conf st)). se_fd (servers (conf st) ! j) = Some (Some (rg_fd (rs_groups rs ! j))) \<and> int (rg_fd (rs_groups rs ! j)) < fd_set_size"
    using conf_ok_server(3) [OF cf] cf by (simp add: server_rep_def conf_ok_def)
  then obtain r0 where r0: "foldM server_fds (servers (conf st)) {} = Some r0"
    using server_fds_ok [of "servers (conf st)"] by (metis in_set_conv_nth)
  obtain rw where rw: "foldM conn_fds (conns st) (r0, {}) = Some rw"
    using conn_fds_ok [of "conns st" "servers (conf st)" "(r0, {})"] inv by (auto simp: slots_inv_def)
  let ?R = "{fd \<in> fst rw. rp_ready_r e fd}" and ?W = "{fd \<in> snd rw. rp_ready_w e fd}"
  obtain st1 where 1: "foldM (serve_server e ?R) [0..<length (servers (conf st))] st = Some st1" "slots_inv st1" "conf_ok (conf st1) rs"
    using serve_servers_ok [OF cf _ inv e, of "[0..<length (servers (conf st))]" ?R] by auto
  obtain st2 where 2: "foldM (serve_conn e ?R ?W) [0..<length (conns st1)] st1 = Some st2" "slots_inv st2" "conf st2 = conf st1"
    using serve_conns_ok [OF _ 1(2) e, of "[0..<length (conns st1)]" ?R ?W] by auto
  show ?thesis using r0 rw 1 2 by (simp add: selectPass_def)
qed

lemma selectPasses_ok:
  assumes "conf_ok (conf st) rs" and "slots_inv st" and "\<forall>e \<in> set es. pass_ok e"
  shows "\<exists>st'. foldM selectPass es st = Some st' \<and> slots_inv st' \<and> conf_ok (conf st') rs"
  using assms
proof (induction es arbitrary: st)
  case (Cons e es)
  from Cons.prems(3) have "pass_ok e" by simp
  from selectPass_ok [OF Cons.prems(1,2) this] obtain st1
    where "selectPass e st = Some st1" "slots_inv st1" "conf_ok (conf st1) rs" by blast
  then show ?case using Cons.IH [of st1] Cons.prems(3) by simp
qed simp

definition rinetd_start :: "rinetd_conf \<Rightarrow> (nat \<Rightarrow> connection) \<Rightarrow> bool \<Rightarrow> rinetd" where
  "rinetd_start cf junk logs = \<lparr>conf = cf, conns = initArrays junk, log_open = logs, trace = []\<rparr>"

lemma rinetd_start_inv: "slots_inv (rinetd_start cf junk logs)"
  using fresh_slot_inv by (auto simp: slots_inv_def rinetd_start_def initArrays_def)

text \<open>The rules of a file that all take effect, on descriptors below 1024, with harmless patterns.\<close>

definition file_ok :: "conf_env \<Rightarrow> bytes \<Rightarrow> bool" where
  "file_ok e content \<longleftrightarrow> (let rs = spec_conf e content in
     length (rs_groups rs) = length (filter server_line (getConfLines content)) \<and>
     (\<forall>g \<in> set (rs_groups rs). int (rg_fd g) < fd_set_size) \<and>
     (\<forall>p \<in> set (all_allow rs) \<union> set (all_deny rs). safe_pattern p))"

lemma readConfiguration_ok:
  assumes "clear_conf st \<noteq> None" and "file_ok e content"
  shows "\<exists>ps cf. readConfiguration e (Some content) st = Some (ps, cf) \<and> conf_ok cf (spec_conf e content)"
proof -
  obtain st0 where "clear_conf st = Some st0" using assms(1) by blast
  from readConfiguration_runs [OF this, of e content] show ?thesis
    using assms(2) by (auto simp: conf_ok_def file_ok_def Let_def)
qed

text \<open>C3. rinetd relays faithfully.  From a configuration file whose rules all take effect, with harmless
  patterns (\<open>safe_pattern\<close>) and listening descriptors below 1024, any number of passes of the select loop,
  whatever the system calls answer within their contracts (\<open>pass_ok\<close>: new descriptors below 1024, at most
  as many bytes as asked for), runs
  without undefined behaviour, and at every moment each open connection has passed on exactly what
  it received, in order, except for at most 1024 bytes per direction that wait in its buffers; the
  counters of its log line are the numbers of bytes received from and sent to the client, modulo
  2 to the 32.\<close>

theorem relay_is_faithful:
  assumes "clear_conf st0 \<noteq> None" and "file_ok ce content" and "\<forall>e \<in> set es. pass_ok e"
  shows "\<exists>ps cf st. readConfiguration ce (Some content) st0 = Some (ps, cf) \<and>
    foldM selectPass es (rinetd_start cf junk logs) = Some st \<and>
    (\<forall>c \<in> set (conns st). \<not> co_closed c \<longrightarrow>
      from_remote c = to_local c @ input_data c \<and> from_local c = to_remote c @ output_data c \<and>
      length (input_data c) \<le> bufferSpace \<and> length (output_data c) \<le> bufferSpace \<and>
      co_bytes_in c = of_nat (length (from_remote c)) \<and> co_bytes_out c = of_nat (length (to_remote c)) \<and>
      (co_closing c \<longleftrightarrow> re_closed c \<or> lo_closed c) \<and> \<not> (re_closed c \<and> lo_closed c))"
proof -
  obtain ps cf where cf: "readConfiguration ce (Some content) st0 = Some (ps, cf)" "conf_ok cf (spec_conf ce content)"
    using readConfiguration_ok [OF assms(1,2)] by blast
  have "conf_ok (conf (rinetd_start cf junk logs)) (spec_conf ce content)" using cf(2) by (simp add: rinetd_start_def)
  from selectPasses_ok [OF this rinetd_start_inv assms(3)] obtain st
    where st: "foldM selectPass es (rinetd_start cf junk logs) = Some st" "slots_inv st" by blast
  have "from_remote c = to_local c @ input_data c \<and> from_local c = to_remote c @ output_data c \<and>
      length (input_data c) \<le> bufferSpace \<and> length (output_data c) \<le> bufferSpace \<and>
      co_bytes_in c = of_nat (length (from_remote c)) \<and> co_bytes_out c = of_nat (length (to_remote c)) \<and>
      (co_closing c \<longleftrightarrow> re_closed c \<or> lo_closed c) \<and> \<not> (re_closed c \<and> lo_closed c)"
    if "c \<in> set (conns st)" "\<not> co_closed c" for c
  proof -
    have "open_inv (servers (conf st)) c" "\<not> (re_closed c \<and> lo_closed c)" using st(2) that by (auto simp: slots_inv_def conn_inv_def)
    then show ?thesis
      by (simp add: open_inv_def in_flow_def out_flow_def flow_def input_data_def output_data_def min_le_iff_disj)
  qed
  then show ?thesis using cf(1) st(1) by blast
qed

text \<open>C8. Only the allow rules decide who reaches the local server.  The configuration is one whose
  forwarding rules all took effect on descriptors below 1024 and whose patterns are all harmless: no NUL or
  backslash, and a question mark before the first star only where at most seven bytes stand before that star,
  the length of the shortest address (with longer ones the matcher may read behind the address).  When accept
  returns a client and there is a slot for it, handleAccept returns; it tries to connect to the target of the server
  only if some global allow pattern, if there is any, and some allow pattern of the server, if
  there is any, match the address of the client by the meaning of patterns; with a
  local socket at hand it does so then, and the connection is open afterwards exactly when no deny
  pattern matches.\<close>

theorem accept_follows_allow_rules:
  assumes "conf_ok (conf st) rs" and "j < length (rs_groups rs)" and "conns st \<noteq> []"
    and "rp_accept e j = Some (nfd, a)" and "(\<exists>c \<in> set (conns st). co_closed c) \<or> rp_grow e j"
  shows "\<exists>st' index evs. handleAccept e j st = Some st' \<and> index < length (conns st') \<and> trace st' = trace st @ evs \<and>
    (\<forall>fd x p. Connect fd x p \<in> set evs \<longrightarrow> admitted rs j (quad a) \<and> (x, p) = rg_local (rs_groups rs ! j)) \<and>
    (\<forall>fd. rp_local e j = Local_open fd \<longrightarrow>
       (Connect fd (fst (rg_local (rs_groups rs ! j))) (snd (rg_local (rs_groups rs ! j))) \<in> set evs \<longleftrightarrow> admitted rs j (quad a)) \<and>
       (\<not> co_closed (conns st' ! index) \<longleftrightarrow> admitted rs j (quad a) \<and> \<not> denied rs j (quad a)) \<and>
       (\<not> co_closed (conns st' ! index) \<longrightarrow> re_fd (conns st' ! index) = nfd \<and> lo_fd (conns st' ! index) = fd))"
proof -
  from handleAccept_client [OF assms] obtain base index c' mf evs where
    o: "handleAccept e j st = Some (moved index c' mf evs (st\<lparr>conns := base\<rparr>))" "index < length base"
      "accepted (rp_local e j) rs j (quad a) (new_connection nfd j a (base ! index)) c' evs" by blast
  let ?n = "new_connection nfd j a (base ! index)" and ?t = "rg_local (rs_groups rs ! j)"
  have n: "\<not> co_closed ?n" "re_fd ?n = nfd" "re_fd (shut ?n) = nfd" by (simp_all add: new_connection_def)
  have adm: "admitted rs j (quad a) \<and> (x, p) = ?t" if "Connect fd x p \<in> set evs" for fd x p
    using o(3) that by (cases "rp_local e j") (auto simp: accepted_def opened_def no_connect_def prod_eq_iff split: if_splits)
  have op: "(Connect fd (fst ?t) (snd ?t) \<in> set evs \<longleftrightarrow> admitted rs j (quad a)) \<and>
      (\<not> co_closed c' \<longleftrightarrow> admitted rs j (quad a) \<and> \<not> denied rs j (quad a)) \<and> (\<not> co_closed c' \<longrightarrow> re_fd c' = nfd \<and> lo_fd c' = fd)"
    if "rp_local e j = Local_open fd" for fd
    using o(3) that n by (auto simp: accepted_def opened_def no_connect_def split: if_splits)
  let ?st = "moved index c' mf evs (st\<lparr>conns := base\<rparr>)"
  have st: "index < length (conns ?st)" "conns ?st ! index = c'" "trace ?st = trace st @ evs" using o(2) by simp_all
  show ?thesis
    by (rule exI [of _ ?st], rule exI [of _ index], rule exI [of _ evs], unfold st(2), intro conjI)
      (use o(1) st(1,3) adm op in blast)+
qed

text \<open>C40. A deny rule does not keep a client away.  The code notes the refusal and goes on: when
  the allow rules admit an address that a deny pattern matches, in a configuration as above, the last thing
  handleAccept does is to connect to the local server, and every connection that is open afterwards was open
  before: the new socket belongs to none of them and is never closed.\<close>

theorem denied_client_reaches_server:
  assumes "conf_ok (conf st) rs" and "j < length (rs_groups rs)" and "conns st \<noteq> []"
    and "rp_accept e j = Some (nfd, a)" and "(\<exists>c \<in> set (conns st). co_closed c) \<or> rp_grow e j"
    and "rp_local e j = Local_open fd" and "admitted rs j (quad a)" and "denied rs j (quad a)"
  shows "\<exists>st'. handleAccept e j st = Some st' \<and> trace st' \<noteq> [] \<and>
    last (trace st') = Connect fd (fst (rg_local (rs_groups rs ! j))) (snd (rg_local (rs_groups rs ! j))) \<and>
    (\<forall>c \<in> set (conns st'). \<not> co_closed c \<longrightarrow> c \<in> set (conns st))"
proof -
  from handleAccept_client [OF assms(1-5)] obtain base index c' mf evs where
    o: "handleAccept e j st = Some (moved index c' mf evs (st\<lparr>conns := base\<rparr>))"
      "base = conns st \<or> base = grow_slots e (conns st)" "index < length base"
      "accepted (rp_local e j) rs j (quad a) (new_connection nfd j a (base ! index)) c' evs" by blast
  have "\<exists>evs1. evs = evs1 @ [Connect fd (fst (rg_local (rs_groups rs ! j))) (snd (rg_local (rs_groups rs ! j)))]" "co_closed c'"
    using o(4) assms(6-8) by (auto simp: accepted_def opened_def)
  moreover have "c \<in> set (conns st)" if "c \<in> set (base[index := c'])" "\<not> co_closed c" for c
  proof -
    have "c \<in> insert c' (set base)" using that(1) set_update_subset_insert by (rule rev_subsetD)
    then have "c \<in> set base" using that(2) \<open>co_closed c'\<close> by auto
    then show ?thesis using o(2) grow_slots_simps(4) [of c e "conns st"] fresh_slot_inv that(2) by blast
  qed
  ultimately show ?thesis using o(1) by auto
qed

text \<open>The unwritten slot of \<open>seFds\<close> that two refused forwarding rules leave behind is read
  by the first pass of the select loop already.\<close>

theorem first_pass_reads_unset_slot:
  assumes "clear_conf st0 \<noteq> None" and "readConfiguration ce (Some content) st0 = Some (ps, cf)"
    and "length (rs_groups (spec_conf ce content)) + 1 < length (filter server_line (getConfLines content))"
  shows "selectPass e (rinetd_start cf junk logs) = None"
proof -
  obtain s0 where c: "clear_conf st0 = Some s0" using assms(1) by blast
  then have r: "conf_rep ps cf (spec_conf ce content)" "unset_above (ps, cf)"
    "length (servers cf) = length (filter server_line (getConfLines content))"
    using readConfiguration_runs [OF c, of ce content] assms(2) by auto
  let ?j = "ci ps + 1"
  have j: "?j < length (servers cf)" using r assms(3) by (simp add: conf_rep_def)
  then have "se_fd (servers cf ! ?j) = None" using r(2) by (simp add: unset_above_def)
  then have u: "server_fds (servers cf ! ?j) S = None" for S by (simp add: server_fds_def)
  have "servers cf = take ?j (servers cf) @ servers cf ! ?j # drop (Suc ?j) (servers cf)" using id_take_nth_drop [OF j] .
  then have "foldM server_fds (servers cf) S = None" for S
    by (metis (no_types, lifting) foldM_append foldM.simps(2) u option.case_eq_if option.simps(4))
  then show ?thesis by (simp add: selectPass_def rinetd_start_def)
qed

subsection \<open>An instance\<close>

text \<open>Addresses that begin with 1 may connect, those that begin with 10 may not.\<close>

definition demo_lines :: "bytes list" where
  "demo_lines = map bytes_of [''allow 1*'', ''deny 10.*'', ''1 80 2 8080'', ''logcommon'']"

definition demo_file :: bytes where
  "demo_file = concat (map (\<lambda>l. l @ [10]) demo_lines)"

definition demo_junk :: "nat \<Rightarrow> connection" where
  "demo_junk j = \<lparr>re_fd = 0, lo_fd = 0, re_addr = (0, 0, 0, 0), co_input = [], co_in_r = 7, co_in_w = 9, co_output = [], co_out_r = 0,
     co_out_w = 0, co_closed = False, co_closing = False, re_closed = False, lo_closed = False, co_bytes_in = 0, co_bytes_out = 0,
     co_log = 0, co_se = 0, from_remote = [], to_local = [], from_local = [], to_remote = []\<rparr>"

definition demo_pass :: pass_env where
  "demo_pass = \<lparr>rp_ready_r = \<lambda>_. True, rp_ready_w = \<lambda>_. True, rp_accept = \<lambda>_. Some (5, (10, 0, 0, 5)), rp_local = \<lambda>_. Local_open 6,
     rp_recv_re = \<lambda>_ n. Received (take n [71, 69, 84]), rp_recv_lo = \<lambda>_ _. Recv_would_block,
     rp_send_re = \<lambda>_ _. Send_would_block, rp_send_lo = \<lambda>_ d. Sent (length d div 2), rp_grow = \<lambda>_. True, rp_junk = demo_junk,
     rp_stack = [], rp_time = [], rp_timz = 60\<rparr>"

lemma demo_pass_ok: "pass_ok demo_pass"
  by (auto simp: pass_ok_def demo_pass_def fd_ok_def fd_set_size_def)

lemma demo_lines: "getConfLines demo_file = filter conf_line (map (\<lambda>l. takeWhile (\<lambda>c. c \<noteq> 0) (l @ [10])) demo_lines)"
proof -
  have "\<forall>l \<in> set demo_lines. 10 \<notin> set l \<and> length l < 20" by code_simp
  then show ?thesis unfolding getConfLines_def demo_file_def by (subst file_lines_concat) auto
qed

lemma demo_file_ok: "file_ok sample_env demo_file"
  unfolding file_ok_def spec_conf_def demo_lines by code_simp

lemma demo_rules:
  "0 < length (rs_groups (spec_conf sample_env demo_file))" "admitted (spec_conf sample_env demo_file) 0 (quad (10, 0, 0, 5))"
  "denied (spec_conf sample_env demo_file) 0 (quad (10, 0, 0, 5))"
  unfolding spec_conf_def demo_lines by code_simp+

lemma demo_conf: "\<exists>ps cf. readConfiguration sample_env (Some demo_file) no_conf = Some (ps, cf) \<and> conf_ok cf (spec_conf sample_env demo_file)"
proof -
  have "clear_conf no_conf \<noteq> None" by code_simp
  then show ?thesis using readConfiguration_ok demo_file_ok by blast
qed

lemma demo_slot: "conns (rinetd_start cf demo_junk b) \<noteq> []" "\<exists>c \<in> set (conns (rinetd_start cf demo_junk b)). co_closed c"
  by (auto simp: rinetd_start_def initArrays_def fresh_slot_def intro: exI [of _ 0])

theorem relay_is_faithful_witness:
  "\<exists>ps cf st. readConfiguration sample_env (Some demo_file) no_conf = Some (ps, cf) \<and>
    foldM selectPass [demo_pass, demo_pass, demo_pass] (rinetd_start cf demo_junk True) = Some st \<and>
    (\<forall>c \<in> set (conns st). \<not> co_closed c \<longrightarrow> from_remote c = to_local c @ input_data c)"
proof -
  have "clear_conf no_conf \<noteq> None" by code_simp
  from relay_is_faithful [OF this demo_file_ok, of "[demo_pass, demo_pass, demo_pass]" demo_junk True] demo_pass_ok
  obtain ps cf st where st: "readConfiguration sample_env (Some demo_file) no_conf = Some (ps, cf)"
    "foldM selectPass [demo_pass, demo_pass, demo_pass] (rinetd_start cf demo_junk True) = Some st"
    "\<forall>c \<in> set (conns st). \<not> co_closed c \<longrightarrow> from_remote c = to_local c @ input_data c" by auto
  then show ?thesis by blast
qed

theorem accept_follows_allow_rules_witness:
  "\<exists>cf st' index evs. conf_ok cf (spec_conf sample_env demo_file) \<and>
    handleAccept demo_pass 0 (rinetd_start cf demo_junk True) = Some st' \<and> trace st' = evs \<and>
    index < length (conns st') \<and> co_closed (conns st' ! index)"
proof -
  obtain cf where cf: "conf_ok cf (spec_conf sample_env demo_file)" using demo_conf by blast
  let ?st = "rinetd_start cf demo_junk True"
  have c: "conf_ok (conf ?st) (spec_conf sample_env demo_file)" using cf by (simp add: rinetd_start_def)
  have a: "rp_accept demo_pass 0 = Some (5, (10, 0, 0, 5))" "rp_local demo_pass 0 = Local_open 6" by (simp_all add: demo_pass_def)
  from accept_follows_allow_rules [OF c demo_rules(1) demo_slot(1) a(1) disjI1 [OF demo_slot(2)]] obtain st' index evs
    where "handleAccept demo_pass 0 ?st = Some st'" "index < length (conns st')" "trace st' = trace ?st @ evs"
      "\<not> co_closed (conns st' ! index) \<longleftrightarrow> admitted (spec_conf sample_env demo_file) 0 (quad (10, 0, 0, 5)) \<and>
        \<not> denied (spec_conf sample_env demo_file) 0 (quad (10, 0, 0, 5))"
    using a(2) by (elim exE conjE) (rule that, assumption+, blast)
  then show ?thesis using cf demo_rules(3) by blast
qed

theorem denied_client_reaches_server_witness:
  "\<exists>cf st'. conf_ok cf (spec_conf sample_env demo_file) \<and> denied (spec_conf sample_env demo_file) 0 (quad (10, 0, 0, 5)) \<and>
    handleAccept demo_pass 0 (rinetd_start cf demo_junk True) = Some st' \<and> (\<exists>x p. last (trace st') = Connect 6 x p)"
proof -
  obtain cf where cf: "conf_ok cf (spec_conf sample_env demo_file)" using demo_conf by blast
  have c: "conf_ok (conf (rinetd_start cf demo_junk True)) (spec_conf sample_env demo_file)" using cf by (simp add: rinetd_start_def)
  have a: "rp_accept demo_pass 0 = Some (5, (10, 0, 0, 5))" "rp_local demo_pass 0 = Local_open 6" by (simp_all add: demo_pass_def)
  from denied_client_reaches_server [OF c demo_rules(1) demo_slot(1) a(1) disjI1 [OF demo_slot(2)] a(2) demo_rules(2,3)]
  show ?thesis using cf demo_rules(3) by blast
qed

theorem first_pass_reads_unset_slot_witness:
  "\<exists>ps cf. readConfiguration sample_env (Some sample_file) no_conf = Some (ps, cf) \<and>
    selectPass demo_pass (rinetd_start cf demo_junk False) = None"
proof -
  have c: "clear_conf no_conf \<noteq> None" by code_simp
  then obtain ps cf where r: "readConfiguration sample_env (Some sample_file) no_conf = Some (ps, cf)"
    using readConfiguration_runs [of no_conf _ sample_env sample_file] by auto
  from first_pass_reads_unset_slot [OF c r sample_conf] show ?thesis using r by blast
qed

end
