(* ===== verification/Dnsmasq_Util.thy ===== *)
theory Dnsmasq_Util
  imports CB_Prelude
begin

section \<open>dnsmasq: utilities (src/dnsmasq/.../src/util.c)\<close>

text \<open>
  The helpers the rest of dnsmasq is written with: the SURF random number generator that
  supplies query ids and source ports, the checks on domain names, the writer of names in
  wire format, comparison of host names, parsing and printing of hardware addresses, growth
  of a packet buffer and the read/write loop over a descriptor.

  Names the callers hold as C strings are byte lists without the final NUL; where a routine
  works on memory (\<open>do_rfc1035_name\<close>, \<open>parse_hex\<close>, \<open>hostname_isequal\<close>) the model
  works on a buffer with indices for the pointers, and \<open>None\<close> is an access outside it.
  The configuration is the one of the build: no IPv6, no IDN, no locale support.
\<close>

subsection \<open>The SURF generator\<close>

record surf_state =
  seed_w :: "u32 list"
  in_w :: "u32 list"
  out_w :: "u32 list"
  outleft :: nat

definition ROTATE :: "u32 \<Rightarrow> nat \<Rightarrow> u32" where
  "ROTATE x b = push_bit b x OR drop_bit (32 - b) x"

text \<open>\<open>MUSH(i,b)\<close> works on the array \<open>t\<close> and the running word \<open>x\<close>.\<close>

definition MUSH :: "u32 list \<Rightarrow> u32 \<Rightarrow> nat \<times> nat \<Rightarrow> u32 list \<times> u32 \<Rightarrow> u32 list \<times> u32" where
  "MUSH sd sm ib tx = (case (ib, tx) of ((i, b), (t, x)) \<Rightarrow>
     let v = t ! i + (((x XOR (sd ! i)) + sm) XOR ROTATE x b) in (t[i := v], v))"

definition mush_schedule :: "(nat \<times> nat) list" where
  "mush_schedule = [(0,5),(1,7),(2,9),(3,13),(4,5),(5,7),(6,9),(7,13),(8,5),(9,7),(10,9),(11,13)]"

definition surf_round :: "u32 list \<Rightarrow> u32 \<times> u32 list \<times> u32 \<Rightarrow> u32 \<times> u32 list \<times> u32" where
  "surf_round sd st = (case st of (sm, t, x) \<Rightarrow>
     let sm' = sm + 0x9e3779b9; (t', x') = fold (MUSH sd sm') mush_schedule (t, x)
     in (sm', t', x'))"

definition surf_loop :: "u32 list \<Rightarrow> u32 list \<times> u32 \<times> u32 list \<times> u32 \<Rightarrow> u32 list \<times> u32 \<times> u32 list \<times> u32" where
  "surf_loop sd st = (case st of (out, rest) \<Rightarrow>
     let (sm, t, x) = (surf_round sd ^^ 16) rest
     in (map (\<lambda>i. out ! i XOR t ! (i + 4)) [0..<8], sm, t, x))"

definition surf :: "surf_state \<Rightarrow> surf_state" where
  "surf s = (let sd = seed_w s;
     t = map (\<lambda>i. in_w s ! i XOR sd ! (12 + i)) [0..<12];
     out = map (\<lambda>i. sd ! (24 + i)) [0..<8];
     (out', _) = (surf_loop sd ^^ 2) (out, 0, t, t ! 11)
     in s\<lparr>out_w := out'\<rparr>)"

text \<open>The counter in the first four input words, with the carry the nested \<open>if\<close>s make.\<close>

definition bump_in :: "u32 list \<Rightarrow> u32 list" where
  "bump_in v = (let v0 = v[0 := v ! 0 + 1] in
     if v0 ! 0 \<noteq> 0 then v0 else
     let v1 = v0[1 := v0 ! 1 + 1] in
     if v1 ! 1 \<noteq> 0 then v1 else
     let v2 = v1[2 := v1 ! 2 + 1] in
     if v2 ! 2 \<noteq> 0 then v2 else v2[3 := v2 ! 3 + 1])"

definition rand16 :: "surf_state \<Rightarrow> (u16 \<times> surf_state) option" where
  "rand16 s = (let s' = (if outleft s = 0 then (surf (s\<lparr>in_w := bump_in (in_w s)\<rparr>))\<lparr>outleft := 8\<rparr> else s)
     in do { w \<leftarrow> peek (out_w s') (outleft s' - 1);
             Some (ucast w, s'\<lparr>outleft := outleft s' - 1\<rparr>) })"

subsection \<open>Domain names\<close>

definition MAXDNAME :: nat where "MAXDNAME = 1025"
definition MAXLABEL :: nat where "MAXLABEL = 63"

definition isascii :: "byte \<Rightarrow> bool" where
  "isascii c \<longleftrightarrow> c < 128"

definition iscntrl :: "byte \<Rightarrow> bool" where
  "iscntrl c \<longleftrightarrow> c < 32 \<or> c = 127"

text \<open>\<open>check_name\<close> removes one final dot in place, so it gives the string back as well.\<close>

fun check_name_loop :: "nat \<Rightarrow> bool \<Rightarrow> bytes \<Rightarrow> bool" where
  "check_name_loop dotgap nowhite [] = nowhite"
| "check_name_loop dotgap nowhite (c # cs) =
     (if c = 46 then check_name_loop 0 nowhite cs
      else if Suc dotgap > MAXLABEL then False
      else if isascii c \<and> iscntrl c then False
      else if \<not> isascii c then False
      else check_name_loop (Suc dotgap) (nowhite \<or> c \<noteq> 32) cs)"

definition check_name :: "bytes \<Rightarrow> bool \<times> bytes" where
  "check_name s =
     (if length s = 0 \<or> length s > MAXDNAME then (False, s)
      else if last s = 46 \<and> length s = 1 then (False, s)
      else let s' = (if last s = 46 then butlast s else s) in (check_name_loop 0 False s', s'))"

definition hostname_char :: "byte \<Rightarrow> bool" where
  "hostname_char c \<longleftrightarrow> (65 \<le> c \<and> c \<le> 90) \<or> (97 \<le> c \<and> c \<le> 122) \<or> (48 \<le> c \<and> c \<le> 57) \<or> c = 45 \<or> c = 95"

fun legal_hostname_loop :: "bytes \<Rightarrow> bool" where
  "legal_hostname_loop [] = True"
| "legal_hostname_loop (c # cs) = (if hostname_char c then legal_hostname_loop cs else c = 46)"

definition legal_hostname :: "bytes \<Rightarrow> bool \<times> bytes" where
  "legal_hostname s = (case check_name s of (ok, s') \<Rightarrow> (ok \<and> legal_hostname_loop s', s'))"

text \<open>\<open>mem_ok\<close> is whether the allocation succeeds; the middle component is \<open>*nomem\<close>.\<close>

definition canonicalise :: "bool \<Rightarrow> bytes \<Rightarrow> bytes option \<times> bool \<times> bytes" where
  "canonicalise mem_ok s = (case check_name s of (ok, s') \<Rightarrow>
     if \<not> ok then (None, False, s')
     else if mem_ok then (Some s', False, s') else (None, True, s'))"

subsection \<open>Names in wire format\<close>

fun put_label :: "bytes \<Rightarrow> nat \<Rightarrow> bytes \<Rightarrow> nat \<Rightarrow> (bytes \<times> nat \<times> bytes \<times> nat) option" where
  "put_label buf p [] j = Some (buf, p, [], j)"
| "put_label buf p (c # sval) j =
     (if c = 46 then Some (buf, p, c # sval, j)
      else do { buf' \<leftarrow> poke buf p c; put_label buf' (p + 1) sval (j + 1) })"

lemma put_label_shrinks: "put_label buf p s j = Some (buf', p', s', j') \<Longrightarrow> length s' \<le> length s"
  by (induction buf p s j arbitrary: buf' rule: put_label.induct)
     (fastforce simp: option_bind_eq_Some_iff split: if_splits)+

function do_rfc1035_name :: "bytes \<Rightarrow> nat \<Rightarrow> bytes \<Rightarrow> (bytes \<times> nat) option" where
  "do_rfc1035_name buf p sval =
     (if sval = [] then Some (buf, p)
      else case put_label buf (p + 1) sval 0 of
             None \<Rightarrow> None
           | Some (buf1, p1, sval1, j) \<Rightarrow>
               (case poke buf1 p (of_nat j) of
                  None \<Rightarrow> None
                | Some buf2 \<Rightarrow> do_rfc1035_name buf2 p1 (tl sval1)))"
  by pat_completeness auto
termination
proof (relation "measure (\<lambda>(_, _, s). length s)", goal_cases)
  case 1
  show ?case by simp
next
  case (2 buf p sval t buf1 u p1 v sval1 j buf2)
  then have "length sval1 \<le> length sval" by (auto dest: put_label_shrinks)
  with 2(1) show ?case by (cases sval1) auto
qed

declare do_rfc1035_name.simps [simp del]

subsection \<open>Comparisons\<close>

record mysockaddr =
  sa_family :: nat
  sin_port :: u16
  sin_addr :: u32

definition AF_INET :: nat where "AF_INET = 2"

definition sockaddr_isequal :: "mysockaddr \<Rightarrow> mysockaddr \<Rightarrow> bool" where
  "sockaddr_isequal s1 s2 =
     (if sa_family s1 = sa_family s2
      then sa_family s1 = AF_INET \<and> sin_port s1 = sin_port s2 \<and> sin_addr s1 = sin_addr s2
      else False)"

definition is_same_net :: "u32 \<Rightarrow> u32 \<Rightarrow> u32 \<Rightarrow> bool" where
  "is_same_net a b msk \<longleftrightarrow> (a AND msk) = (b AND msk)"

text \<open>\<open>hostname_isequal\<close> reads both strings from memory, up to and including their NULs.\<close>

fun hostname_isequal :: "bytes \<Rightarrow> bytes \<Rightarrow> bool option" where
  "hostname_isequal (a # as) (b # bs) =
     (let c1 = (if 65 \<le> a \<and> a \<le> 90 then a + 32 else a);
          c2 = (if 65 \<le> b \<and> b \<le> 90 then b + 32 else b)
      in if c1 \<noteq> c2 then Some False
         else if c1 \<noteq> 0 then hostname_isequal as bs else Some True)"
| "hostname_isequal _ _ = None"

subsection \<open>Hardware addresses\<close>

definition isxdigit :: "byte \<Rightarrow> bool" where
  "isxdigit c \<longleftrightarrow> isdigit c \<or> (65 \<le> c \<and> c \<le> 70) \<or> (97 \<le> c \<and> c \<le> 102)"

definition hexval :: "byte \<Rightarrow> nat" where
  "hexval c = (if isdigit c then unat c - 48 else if 97 \<le> c then unat c - 87 else unat c - 55)"

text \<open>\<open>strtol(&mem[p], NULL, 16)\<close> where the text at \<open>p\<close> starts with a hexadecimal digit
  or with a character that ends the number: the groups \<open>parse_hex\<close> passes hold only
  hexadecimal digits and stars.  A value above \<open>LONG_MAX\<close> (32-bit \<open>long\<close>) saturates.\<close>

fun hexnum :: "nat \<Rightarrow> bytes \<Rightarrow> nat option" where
  "hexnum acc [] = None"
| "hexnum acc (c # cs) = (if isxdigit c then hexnum (acc * 16 + hexval c) cs else Some acc)"

definition strtol16 :: "bytes \<Rightarrow> nat \<Rightarrow> nat option" where
  "strtol16 mem p = map_option (\<lambda>v. min v (2 ^ 31 - 1)) (hexnum 0 (drop p mem))"

text \<open>The scan for the end of a group: the index of the delimiter, or a foreign character.\<close>

datatype scan = Group nat | Foreign

function hex_scan :: "bytes \<Rightarrow> nat \<Rightarrow> scan option" where
  "hex_scan mem r =
     (if r < length mem then
        (let c = mem ! r in
         if c = 0 \<or> c = 58 \<or> c = 45 \<or> c = 32 then Some (Group r)
         else if c \<noteq> 42 \<and> \<not> isxdigit c then Some Foreign
         else hex_scan mem (r + 1))
      else None)"
  by pat_completeness auto
termination by (relation "measure (\<lambda>(mem, r). length mem - r)") auto

declare hex_scan.simps [simp del]

lemma hex_scan_Group: "hex_scan mem r = Some (Group q) \<Longrightarrow> r \<le> q \<and> q < length mem"
proof (induction mem r rule: hex_scan.induct)
  case (1 mem r)
  show ?case
    using 1(2) 1(1) [OF _ refl]
    by (subst (asm) hex_scan.simps) (force simp: Let_def split: if_splits)
qed

text \<open>One pair of digits: the byte after the pair is saved, replaced by a NUL for
  \<open>strtol\<close> and put back.  The output index is a pointer into the same memory, since a
  caller may parse a string onto itself.\<close>

definition hex_pair :: "nat \<Rightarrow> nat \<Rightarrow> nat \<Rightarrow> nat \<Rightarrow> bytes \<times> u32 \<times> nat \<Rightarrow> (bytes \<times> u32 \<times> nat) option" where
  "hex_pair inp outp nb j st = (case st of (mem, msk, i) \<Rightarrow>
     if j < nb - 1 then do {
       sav \<leftarrow> peek mem (inp + (j + 1) * 2);
       mem1 \<leftarrow> poke mem (inp + (j + 1) * 2) 0;
       v \<leftarrow> strtol16 mem1 (inp + j * 2);
       mem2 \<leftarrow> poke mem1 (outp + i) (of_nat v);
       mem3 \<leftarrow> poke mem2 (inp + (j + 1) * 2) sav;
       Some (mem3, push_bit 1 msk, i + 1) }
     else do {
       v \<leftarrow> strtol16 mem (inp + j * 2);
       mem2 \<leftarrow> poke mem (outp + i) (of_nat v);
       Some (mem2, push_bit 1 msk, i + 1) })"

record hex_st =
  hmem :: bytes
  hmask :: u32
  hcount :: nat
  want_type :: bool
  mac_type :: nat

definition hex_group :: "nat \<Rightarrow> nat \<Rightarrow> nat \<Rightarrow> hex_st \<Rightarrow> hex_st option" where
  "hex_group inp outp r s =
     (if r = inp then Some s
      else do {
        d \<leftarrow> peek (hmem s) r;
        mem \<leftarrow> poke (hmem s) r 0;
        if d = 45 \<and> hcount s = 0 \<and> want_type s then do {
          v \<leftarrow> strtol16 mem inp;
          Some (s\<lparr>hmem := mem, mac_type := v, want_type := False\<rparr>) }
        else if cstr (drop inp mem) = Some [42] then
          Some (s\<lparr>hmem := mem, hmask := push_bit 1 (hmask s) OR 1, hcount := hcount s + 1\<rparr>)
        else do {
          let nb = (1 + (r - inp)) div 2;
          (mem', msk', i') \<leftarrow> foldM (hex_pair inp outp nb) [0..<nb] (mem, hmask s, hcount s);
          Some (s\<lparr>hmem := mem', hmask := msk', hcount := i'\<rparr>) } })"

text \<open>\<open>maxlen\<close> is \<open>None\<close> for the value -1; the result \<open>None\<close> of the pair stands
  for the return value -1.\<close>

lemma hex_pair_length:
  "hex_pair inp outp nb j st = Some st' \<Longrightarrow> length (fst st') = length (fst st)"
  by (cases st) (auto simp: hex_pair_def option_bind_eq_Some_iff dest!: length_poke split: if_splits)

lemma foldM_hex_pair_length:
  "foldM (hex_pair inp outp nb) js st = Some st' \<Longrightarrow> length (fst st') = length (fst st)"
  by (induction js arbitrary: st) (auto split: option.splits dest: hex_pair_length)

lemma hex_group_length: "hex_group inp outp r s = Some s' \<Longrightarrow> length (hmem s') = length (hmem s)"
  by (auto simp: hex_group_def option_bind_eq_Some_iff Let_def dest!: length_poke foldM_hex_pair_length
      split: if_splits)

function parse_hex_loop :: "nat \<Rightarrow> nat \<Rightarrow> nat option \<Rightarrow> hex_st \<Rightarrow> (nat option \<times> hex_st) option" where
  "parse_hex_loop inp outp maxlen s =
     (if (case maxlen of None \<Rightarrow> True | Some m \<Rightarrow> hcount s < m) then
        (case hex_scan (hmem s) inp of
           None \<Rightarrow> None
         | Some Foreign \<Rightarrow> Some (None, s)
         | Some (Group r) \<Rightarrow>
             (case hex_group inp outp r s of
                None \<Rightarrow> None
              | Some s' \<Rightarrow>
                  parse_hex_loop (r + 1) outp (if hmem s ! r = 0 then Some (hcount s) else maxlen) s'))
      else Some (Some (hcount s), s))"
  by pat_completeness auto
termination
  by (relation "measure (\<lambda>(inp, outp, maxlen, s). length (hmem s) - inp)")
     (auto dest!: hex_group_length hex_scan_Group)

declare parse_hex_loop.simps [simp del]

definition parse_hex :: "bytes \<Rightarrow> nat \<Rightarrow> nat \<Rightarrow> nat option \<Rightarrow> bool \<Rightarrow> (nat option \<times> hex_st) option" where
  "parse_hex mem inp outp maxlen wanttype =
     parse_hex_loop inp outp maxlen
       \<lparr>hmem = mem, hmask = 0, hcount = 0, want_type = wanttype, mac_type = 0\<rparr>"

definition hexdigit :: "nat \<Rightarrow> byte" where
  "hexdigit n = (if n < 10 then of_nat (48 + n) else of_nat (87 + n))"

definition hex2 :: "byte \<Rightarrow> bytes" where
  "hex2 b = [hexdigit (unat b div 16), hexdigit (unat b mod 16)]"

fun print_mac_loop :: "bytes \<Rightarrow> bytes" where
  "print_mac_loop [] = []"
| "print_mac_loop [b] = hex2 b"
| "print_mac_loop (b # bs) = hex2 b @ 58 # print_mac_loop bs"

definition print_mac :: "bytes \<Rightarrow> bytes" where
  "print_mac mac = (if mac = [] then bytes_of ''<null>'' else print_mac_loop mac)"

text \<open>\<open>memcmp_masked\<close> walks from the last octet to the first with the msk shifting right.\<close>

fun memcmp_masked_loop :: "bytes \<Rightarrow> bytes \<Rightarrow> nat \<Rightarrow> u32 \<Rightarrow> nat \<Rightarrow> nat option" where
  "memcmp_masked_loop a b 0 msk cnt = Some cnt"
| "memcmp_masked_loop a b (Suc i) msk cnt =
     (if msk AND 1 = 0 then
        do { x \<leftarrow> peek a i; y \<leftarrow> peek b i;
             if x = y then memcmp_masked_loop a b i (drop_bit 1 msk) (cnt + 1) else Some 0 }
      else memcmp_masked_loop a b i (drop_bit 1 msk) cnt)"

definition memcmp_masked :: "bytes \<Rightarrow> bytes \<Rightarrow> nat \<Rightarrow> u32 \<Rightarrow> nat option" where
  "memcmp_masked a b len msk = memcmp_masked_loop a b len msk 1"

subsection \<open>Buffers and descriptors\<close>

text \<open>An \<open>iovec\<close> whose base may be NULL; \<open>newmem\<close> is what \<open>whine_malloc\<close> gives back,
  a block of the requested size with arbitrary contents, or \<open>None\<close>.\<close>

record iovec =
  iov_base :: "bytes option"
  iov_len :: nat

definition expand_buf :: "iovec \<Rightarrow> nat \<Rightarrow> bytes option \<Rightarrow> (bool \<times> iovec) option" where
  "expand_buf iov sz newmem =
     (if sz \<le> iov_len iov then Some (True, iov)
      else case newmem of
        None \<Rightarrow> Some (False, iov)
      | Some new \<Rightarrow>
          (case iov_base iov of
             None \<Rightarrow> Some (True, \<lparr>iov_base = Some new, iov_len = sz\<rparr>)
           | Some old \<Rightarrow>
               if iov_len iov \<le> length old \<and> iov_len iov \<le> length new
               then Some (True, \<lparr>iov_base = Some (take (iov_len iov) old @ drop (iov_len iov) new),
                                 iov_len = sz\<rparr>)
               else None))"

definition bump_maxfd :: "int \<Rightarrow> int \<Rightarrow> int" where
  "bump_maxfd fd mx = (if fd > mx then fd else mx)"

definition EINTR :: nat where "EINTR = 4"
definition EAGAIN :: nat where "EAGAIN = 11"
definition ENOMEM :: nat where "ENOMEM = 12"
definition ENOBUFS :: nat where "ENOBUFS = 105"

definition retry_send :: "nat \<Rightarrow> bool" where
  "retry_send errno \<longleftrightarrow> errno = EAGAIN \<or> errno = EINTR"

text \<open>What one \<open>read\<close> or \<open>write\<close> call answers: the bytes it moved, or an errno.  For a
  write the bytes are those the kernel took, a prefix of what it was offered.\<close>

datatype io_result = Moved bytes | Failed nat

text \<open>\<open>read_write(fd, packet, size, 1)\<close>.  The kernel's answers are a list; \<open>None\<close> is a
  call that blocks for ever (no answer left) or a read that overruns its buffer.\<close>

fun read_loop :: "bytes \<Rightarrow> nat \<Rightarrow> nat \<Rightarrow> io_result list \<Rightarrow> (bool \<times> bytes \<times> io_result list) option" where
  "read_loop packet sz done [] = (if done < sz then None else Some (True, packet, []))"
| "read_loop packet sz done (r # rs) =
     (if done < sz then
        (case r of
           Moved d \<Rightarrow>
             if length d = 0 then Some (False, packet, rs)
             else if done + length d \<le> sz \<and> sz \<le> length packet
             then read_loop (take done packet @ d @ drop (done + length d) packet) sz (done + length d) rs
             else None
         | Failed e \<Rightarrow>
             if retry_send e \<or> e = ENOMEM \<or> e = ENOBUFS then read_loop packet sz done rs
             else Some (False, packet, rs))
      else Some (True, packet, r # rs))"

text \<open>\<open>read_write(fd, packet, size, 0)\<close>: the bytes handed to the kernel, in order.\<close>

fun write_loop :: "bytes \<Rightarrow> nat \<Rightarrow> nat \<Rightarrow> io_result list \<Rightarrow> (bool \<times> nat) option" where
  "write_loop packet sz done [] = (if done < sz then None else Some (True, done))"
| "write_loop packet sz done (r # rs) =
     (if done < sz then
        (case r of
           Moved d \<Rightarrow>
             if length d = 0 then Some (False, done)
             else if d = take (length d) (drop done (take sz packet)) \<and> done + length d \<le> sz
             then write_loop packet sz (done + length d) rs
             else None
         | Failed e \<Rightarrow>
             if retry_send e \<or> e = ENOMEM \<or> e = ENOBUFS then write_loop packet sz done rs
             else Some (False, done))
      else Some (True, done))"

text \<open>\<open>rand_init\<close>: the seed and the input words are filled from \<open>RANDFILE\<close>; \<open>None\<close> is
  the fatal error.  The bytes are read in the machine's little-endian order.\<close>

fun le_words :: "bytes \<Rightarrow> u32 list" where
  "le_words (a # b # c # d # bs) = ntohl4 d c b a # le_words bs"
| "le_words _ = []"

definition rand_init :: "surf_state \<Rightarrow> bool \<Rightarrow> io_result list \<Rightarrow> surf_state option" where
  "rand_init s opened rs =
     (if \<not> opened then None
      else case read_loop (replicate 128 0) 128 0 rs of
        Some (True, sd, rs1) \<Rightarrow>
          (case read_loop (replicate 48 0) 48 0 rs1 of
             Some (True, iw, _) \<Rightarrow> Some (s\<lparr>seed_w := le_words sd, in_w := le_words iw\<rparr>)
           | _ \<Rightarrow> None)
      | _ \<Rightarrow> None)"

subsection \<open>The generator is total and its counter counts\<close>

definition wf_surf :: "surf_state \<Rightarrow> bool" where
  "wf_surf s \<longleftrightarrow> length (seed_w s) = 32 \<and> length (in_w s) = 12 \<and> length (out_w s) = 8 \<and> outleft s \<le> 8"

text \<open>The first four input words as one 128-bit number.\<close>

definition in128 :: "u32 list \<Rightarrow> int" where
  "in128 v = uint (v ! 0) + 2 ^ 32 * uint (v ! 1) + 2 ^ 64 * uint (v ! 2) + 2 ^ 96 * uint (v ! 3)"

lemma uint_succ32: "uint (w + 1 :: u32) = (if w + 1 = 0 then 0 else uint w + 1)"
  and uint_succ32_zero: "(w :: u32) + 1 = 0 \<Longrightarrow> uint w = 2 ^ 32 - 1"
proof -
  show z: "w + 1 = 0 \<Longrightarrow> uint w = 2 ^ 32 - 1" for w :: u32
  proof -
    assume "w + 1 = 0"
    then have "w = - 1" by (simp add: eq_neg_iff_add_eq_0)
    then show ?thesis by (simp add: unsigned_minus_1_eq_mask mask_eq_exp_minus_1)
  qed
  show "uint (w + 1) = (if w + 1 = 0 then 0 else uint w + 1)"
  proof (cases "w + 1 = 0")
    case False
    have "uint w \<noteq> 2 ^ 32 - 1"
    proof
      assume "uint w = 2 ^ 32 - 1"
      then have "uint w = uint (- 1 :: u32)" by (simp add: unsigned_minus_1_eq_mask mask_eq_exp_minus_1)
      then have "w = - 1" by (rule unsigned_word_eqI)
      then show False using False by simp
    qed
    moreover have "uint w < 2 ^ 32" using uint_bounded [of w] by simp
    ultimately have "uint w + 1 < 2 ^ 32" by linarith
    with False show ?thesis by (simp add: uint_word_ariths)
  qed simp
qed

lemma in128_range: "0 \<le> in128 v \<and> in128 v < 2 ^ 128"
  using uint_bounded [of "v ! 0"] uint_bounded [of "v ! 1"] uint_bounded [of "v ! 2"] uint_bounded [of "v ! 3"]
  by (simp add: in128_def)

lemma length_bump_in [simp]: "length (bump_in v) = length v"
  by (simp add: bump_in_def Let_def)

lemma bump_in_counts:
  assumes "4 \<le> length v"
  shows "in128 (bump_in v) = (in128 v + 1) mod 2 ^ 128"
proof -
  obtain a b c d r where v: "v = a # b # c # d # r"
    using assms by (metis Suc_le_length_iff numeral_eq_Suc pred_numeral_simps(2,3) BitM.simps(1,2) Suc_le_length_iff One_nat_def)
  have r: "in128 (bump_in v) \<ge> 0 \<and> in128 (bump_in v) < 2 ^ 128" by (rule in128_range)
  have "in128 (bump_in v) = in128 v + 1 \<or> in128 (bump_in v) = in128 v + 1 - 2 ^ 128"
    unfolding v bump_in_def in128_def Let_def
    by (auto simp: uint_succ32 dest!: uint_succ32_zero)
  then show ?thesis
  proof
    assume "in128 (bump_in v) = in128 v + 1"
    with r show ?thesis by simp
  next
    assume e: "in128 (bump_in v) = in128 v + 1 - 2 ^ 128"
    then have "(in128 v + 1) mod 2 ^ 128 = (in128 (bump_in v) + 2 ^ 128) mod 2 ^ 128" by (simp add: add.commute)
    also have "\<dots> = in128 (bump_in v)" using r by (simp add: mod_add_self2)
    finally show ?thesis by simp
  qed
qed

lemma surf_keeps: "seed_w (surf s) = seed_w s" "in_w (surf s) = in_w s"
  by (simp_all add: surf_def Let_def split: prod.split)

lemma length_out_surf: "length (out_w (surf s)) = 8"
  by (simp add: surf_def Let_def numeral_2_eq_2 surf_loop_def split: prod.split)

text \<open>A call of \<open>rand16\<close> on a well-formed generator always returns, keeps the generator
  well formed, and hands out the eight output words of one run of \<open>surf\<close> from the last to
  the first; the 128-bit input counter advances by one (modulo \<open>2 ^ 128\<close>) exactly when a
  fresh run is needed, so no two of \<open>2 ^ 128\<close> successive runs use the same input.\<close>

theorem rand16_counter:
  assumes "wf_surf s"
  shows "\<exists>w s'. rand16 s = Some (w, s') \<and> wf_surf s' \<and>
           w = ucast (out_w s' ! outleft s') \<and>
           outleft s' = (if outleft s = 0 then 7 else outleft s - 1) \<and>
           (outleft s \<noteq> 0 \<longrightarrow> out_w s' = out_w s) \<and>
           in128 (in_w s') = (if outleft s = 0 then (in128 (in_w s) + 1) mod 2 ^ 128 else in128 (in_w s))"
  using assms bump_in_counts [of "in_w s"]
  by (cases "outleft s = 0")
     (auto simp: rand16_def Let_def wf_surf_def surf_keeps length_out_surf)

theorem rand16_counter_witness:
  "\<exists>w s'. rand16 \<lparr>seed_w = replicate 32 0, in_w = replicate 12 0, out_w = replicate 8 0, outleft = 0\<rparr> = Some (w, s')
     \<and> outleft s' = 7 \<and> in128 (in_w s') = 1"
  using rand16_counter [of "\<lparr>seed_w = replicate 32 0, in_w = replicate 12 0, out_w = replicate 8 0, outleft = 0\<rparr>"]
  by (auto simp: wf_surf_def in128_def)

subsection \<open>Names that pass the checks\<close>

definition name_char :: "byte \<Rightarrow> bool" where
  "name_char c \<longleftrightarrow> isascii c \<and> \<not> iscntrl c"

text \<open>The labels of a dotted name.\<close>

fun split_dots :: "bytes \<Rightarrow> bytes list" where
  "split_dots [] = [[]]"
| "split_dots (c # cs) =
     (if c = 46 then [] # split_dots cs
      else case split_dots cs of [] \<Rightarrow> [[c]] | l # ls \<Rightarrow> (c # l) # ls)"

lemma split_dots_nonempty [simp]: "split_dots s \<noteq> []"
  by (induction s) (auto split: list.split)

lemma check_name_loop_labels:
  "check_name_loop g w s \<Longrightarrow>
     (\<forall>c \<in> set s. c = 46 \<or> name_char c) \<and>
     length (hd (split_dots s)) + g \<le> max g MAXLABEL \<and> (\<forall>l \<in> set (tl (split_dots s)). length l \<le> MAXLABEL)"
proof (induction g w s rule: check_name_loop.induct)
  case (2 g w c cs)
  show ?case
  proof (cases "c = 46")
    case True
    then have "check_name_loop 0 w cs" using "2.prems" by simp
    with "2.IH"(1) [OF True] True show ?thesis by (cases "split_dots cs") auto
  next
    case False
    then have *: "\<not> MAXLABEL < Suc g" "name_char c" "check_name_loop (Suc g) (w \<or> c \<noteq> 32) cs"
      using "2.prems" by (auto simp: name_char_def split: if_splits)
    obtain l ls where "split_dots cs = l # ls" by (cases "split_dots cs") auto
    with "2.IH"(2) [OF False] * False show ?thesis by (auto simp: name_char_def)
  qed
qed auto

lemma check_name_labels:
  assumes "check_name s = (True, s')"
  shows "s' \<noteq> []" "length s' \<le> MAXDNAME" "\<forall>c \<in> set s'. c = 46 \<or> name_char c"
    "\<forall>l \<in> set (split_dots s'). length l \<le> MAXLABEL"
proof -
  have l: "check_name_loop 0 False s'" and len: "length s' \<le> MAXDNAME"
    using assms by (auto simp: check_name_def Let_def split: if_splits)
  show "s' \<noteq> []" using l by auto
  show "length s' \<le> MAXDNAME" by (rule len)
  note * = check_name_loop_labels [OF l]
  show "\<forall>c \<in> set s'. c = 46 \<or> name_char c" using * by blast
  show "\<forall>l \<in> set (split_dots s'). length l \<le> MAXLABEL"
    using * by (cases "split_dots s'") auto
qed

subsection \<open>The wire format of a name\<close>

definition encode_labels :: "bytes list \<Rightarrow> bytes" where
  "encode_labels ls = concat (map (\<lambda>l. of_nat (length l) # l) ls)"

text \<open>The labels \<open>do_rfc1035_name\<close> sees: a dot at the very end starts no label.\<close>

definition wire_labels :: "bytes \<Rightarrow> bytes list" where
  "wire_labels s = (if last (split_dots s) = [] then butlast (split_dots s) else split_dots s)"

definition put_bytes :: "bytes \<Rightarrow> nat \<Rightarrow> bytes \<Rightarrow> bytes" where
  "put_bytes m p bs = take p m @ bs @ drop (p + length bs) m"

lemma length_put_bytes [simp]: "p + length bs \<le> length m \<Longrightarrow> length (put_bytes m p bs) = length m"
  by (simp add: put_bytes_def)

lemma put_bytes_Nil [simp]: "put_bytes m p [] = m"
  by (simp add: put_bytes_def)

lemma list_update_put_bytes: "i < length m \<Longrightarrow> m[i := v] = put_bytes m i [v]"
  by (simp add: put_bytes_def upd_conv_take_nth_drop)

lemma put_bytes_append:
  assumes "p + length xs + length ys \<le> length m"
  shows "put_bytes (put_bytes m p xs) (p + length xs) ys = put_bytes m p (xs @ ys)"
proof (cases "length m \<le> p")
  case True
  then have "length xs = 0" "length ys = 0" using assms by linarith+
  then show ?thesis by simp
next
  case False
  then show ?thesis using assms by (auto simp: put_bytes_def min_def ac_simps)
qed

lemma put_bytes_swap:
  assumes "Suc p + length xs \<le> length m"
  shows "(put_bytes m (Suc p) xs)[p := v] = put_bytes m p (v # xs)"
  using assms
  by (simp add: put_bytes_def list_update_append take_Suc_conv_app_nth list_update_append1 min_def)

lemma put_label_writes:
  assumes "p + length (takeWhile (\<lambda>c. c \<noteq> 46) s) \<le> length m"
  shows "put_label m p s j =
     Some (put_bytes m p (takeWhile (\<lambda>c. c \<noteq> 46) s), p + length (takeWhile (\<lambda>c. c \<noteq> 46) s),
           dropWhile (\<lambda>c. c \<noteq> 46) s, j + length (takeWhile (\<lambda>c. c \<noteq> 46) s))"
  using assms
proof (induction m p s j rule: put_label.induct)
  case (2 buf p c s j)
  show ?case
  proof (cases "c = 46")
    case False
    then have l: "p < length buf" "p + 1 + length (takeWhile (\<lambda>c. c \<noteq> 46) s) \<le> length buf"
      using "2.prems" by simp_all
    have "put_bytes (buf[p := c]) (p + 1) (takeWhile (\<lambda>c. c \<noteq> 46) s)
        = put_bytes buf p (c # takeWhile (\<lambda>c. c \<noteq> 46) s)"
      using put_bytes_append [of p "[c]" "takeWhile (\<lambda>c. c \<noteq> 46) s" buf] l
      by (simp add: list_update_put_bytes)
    then show ?thesis using False l "2.IH" [OF False, of "buf[p := c]"] by simp
  qed simp
qed simp

lemma split_dots_unfold:
  "split_dots s = takeWhile (\<lambda>c. c \<noteq> 46) s #
     (case dropWhile (\<lambda>c. c \<noteq> 46) s of [] \<Rightarrow> [] | _ # r \<Rightarrow> split_dots r)"
  by (induction s) (auto split: list.split)

lemma wire_labels_Nil [simp]: "wire_labels [] = []"
  by (simp add: wire_labels_def)

lemma wire_labels_unfold:
  assumes "s \<noteq> []"
  shows "wire_labels s =
     takeWhile (\<lambda>c. c \<noteq> 46) s # wire_labels (tl (dropWhile (\<lambda>c. c \<noteq> 46) s))"
proof (cases "dropWhile (\<lambda>c. c \<noteq> 46) s")
  case Nil
  then have "takeWhile (\<lambda>c. c \<noteq> 46) s = s" by (simp add: dropWhile_eq_Nil_conv takeWhile_eq_all_conv)
  with Nil have "split_dots s = [s]" by (subst split_dots_unfold) (simp del: dropWhile_eq_Nil_conv)
  with Nil assms \<open>takeWhile (\<lambda>c. c \<noteq> 46) s = s\<close> show ?thesis
    by (simp add: wire_labels_def del: dropWhile_eq_Nil_conv takeWhile_eq_all_conv)
next
  case (Cons x r)
  then have "split_dots s = takeWhile (\<lambda>c. c \<noteq> 46) s # split_dots r" by (subst split_dots_unfold) simp
  with Cons show ?thesis by (simp add: wire_labels_def)
qed

lemma do_rfc1035_name_writes:
  "p + length (encode_labels (wire_labels s)) \<le> length m \<Longrightarrow>
   do_rfc1035_name m p s = Some (put_bytes m p (encode_labels (wire_labels s)),
                                 p + length (encode_labels (wire_labels s)))"
proof (induction "length s" arbitrary: m p s rule: less_induct)
  case less
  show ?case
  proof (cases "s = []")
    case True
    then show ?thesis by (simp add: do_rfc1035_name.simps encode_labels_def)
  next
    case False
    define l r where "l = takeWhile (\<lambda>c. c \<noteq> 46) s" and "r = tl (dropWhile (\<lambda>c. c \<noteq> 46) s)"
    define enc where "enc = encode_labels (wire_labels r)"
    have w: "encode_labels (wire_labels s) = of_nat (length l) # l @ enc"
      by (simp add: wire_labels_unfold [OF False] l_def r_def enc_def encode_labels_def)
    have fit: "p + 1 + length l + length enc \<le> length m" using less.prems w by simp
    have "length r < length s"
      using False length_dropWhile_le [of "\<lambda>c. c \<noteq> 46" s] unfolding r_def
      by (cases "dropWhile (\<lambda>c. c \<noteq> 46) s") (auto simp del: dropWhile_eq_Nil_conv)
    define m2 where "m2 = put_bytes m p (of_nat (length l) # l)"
    have m2: "length m2 = length m" unfolding m2_def using fit by simp
    have "put_label m (p + 1) s 0 = Some (put_bytes m (p + 1) l, p + 1 + length l,
        dropWhile (\<lambda>c. c \<noteq> 46) s, length l)"
      using put_label_writes [of "p + 1" s m 0] fit by (simp add: l_def)
    moreover have "(put_bytes m (Suc p) l)[p := of_nat (length l)] = m2"
      unfolding m2_def using fit by (intro put_bytes_swap) simp
    ultimately have "do_rfc1035_name m p s = do_rfc1035_name m2 (p + 1 + length l) r"
      using False fit by (subst do_rfc1035_name.simps) (simp add: r_def)
    also have "\<dots> = Some (put_bytes m2 (p + 1 + length l) enc, p + 1 + length l + length enc)"
      using less.hyps [OF \<open>length r < length s\<close>, of "p + 1 + length l" m2] fit m2
      by (simp add: enc_def)
    also have "put_bytes m2 (p + 1 + length l) enc = put_bytes m p (encode_labels (wire_labels s))"
      using put_bytes_append [of p "of_nat (length l) # l" enc m] fit by (simp add: m2_def w)
    finally show ?thesis using w by simp
  qed
qed

lemma length_encode_wire_labels: "length (encode_labels (wire_labels s)) \<le> length s + 1"
proof (induction "length s" arbitrary: s rule: less_induct)
  case less
  show ?case
  proof (cases "s = []")
    case False
    define d where "d = dropWhile (\<lambda>c. c \<noteq> 46) s"
    have len: "length s = length (takeWhile (\<lambda>c. c \<noteq> 46) s) + length d"
      unfolding d_def by (metis length_append takeWhile_dropWhile_id)
    show ?thesis
    proof (cases d)
      case Nil
      then show ?thesis using len by (simp add: wire_labels_unfold [OF False] d_def [symmetric] encode_labels_def)
    next
      case (Cons x xs)
      then have "length (encode_labels (wire_labels xs)) \<le> length xs + 1" using less.hyps [of xs] len by simp
      then show ?thesis using len Cons
        by (simp add: wire_labels_unfold [OF False] d_def [symmetric] encode_labels_def)
    qed
  qed (simp add: encode_labels_def)
qed

text \<open>A name that \<open>canonicalise\<close> accepts can be written in wire format: the labels are
  at most 63 bytes long (so no length byte looks like a compression pointer), every character
  is printable ASCII, and \<open>do_rfc1035_name\<close>, which checks no bound of its own, stays inside
  any buffer that has \<open>strlen(name) + 1\<close> bytes left, writing exactly the length-prefixed
  labels and changing no other byte.\<close>

theorem canonicalise_fits_wire:
  assumes "canonicalise ok s = (Some n, nomem, s')" and "p + length n + 1 \<le> length m"
  shows "\<exists>p'. do_rfc1035_name m p n = Some (put_bytes m p (encode_labels (wire_labels n)), p') \<and>
     p' = p + length (encode_labels (wire_labels n)) \<and> p' \<le> p + length n + 1 \<and>
     (\<forall>l \<in> set (wire_labels n). length l \<le> 63) \<and> (\<forall>c \<in> set n. c = 46 \<or> 32 \<le> c \<and> c < 127)"
proof -
  have n: "check_name s = (True, n)"
    using assms(1) by (auto simp: canonicalise_def split: prod.splits if_splits)
  have "set (wire_labels n) \<subseteq> set (split_dots n)"
    by (auto simp: wire_labels_def dest: in_set_butlastD)
  then have "\<forall>l \<in> set (wire_labels n). length l \<le> 63"
    using check_name_labels(4) [OF n] by (auto simp: MAXLABEL_def)
  moreover have "\<forall>c \<in> set n. c = 46 \<or> 32 \<le> c \<and> c < 127"
    using check_name_labels(3) [OF n]
    by (fastforce simp: name_char_def isascii_def iscntrl_def not_less word_less_nat_alt word_le_nat_alt word_unat_eq_iff)
  moreover have "p + length (encode_labels (wire_labels n)) \<le> p + length n + 1"
    using length_encode_wire_labels [of n] by simp
  ultimately show ?thesis
    using do_rfc1035_name_writes [of p n m] assms(2) by auto
qed

theorem canonicalise_fits_wire_witness:
  "canonicalise True (bytes_of ''ab.c.'') = (Some (bytes_of ''ab.c''), False, bytes_of ''ab.c'') \<and>
   (\<exists>p'. do_rfc1035_name (replicate 6 0) 1 (bytes_of ''ab.c'') = Some ([0, 2, 97, 98, 1, 99], p'))"
proof -
  have c: "canonicalise True (bytes_of ''ab.c.'') = (Some (bytes_of ''ab.c''), False, bytes_of ''ab.c'')"
    by code_simp
  have w: "encode_labels (wire_labels (bytes_of ''ab.c'')) = [2, 97, 98, 1, 99]" by code_simp
  show ?thesis
    using canonicalise_fits_wire [OF c, of 1 "replicate 6 0"] c
    by (simp add: w) (simp add: put_bytes_def numeral_eq_Suc bytes_of_def)
qed

subsection \<open>Comparison of host names\<close>

lemma hostname_isequal_strcaseeq:
  "0 \<notin> set s \<Longrightarrow> 0 \<notin> set t \<Longrightarrow> hostname_isequal (s @ 0 # r) (t @ 0 # q) = Some (strcaseeq s t)"
proof (induction s arbitrary: t)
  case Nil
  then show ?case
    by (cases t) (auto simp: strcaseeq_def isupper_def [symmetric] tolower_def [symmetric])
next
  case (Cons a s)
  then show ?case
    by (cases t) (auto simp: strcaseeq_def isupper_def [symmetric] tolower_def [symmetric] Let_def)
qed

subsection \<open>Hardware addresses: printing and parsing\<close>

lemma hexdigit_props:
  assumes "n < 16"
  shows "isxdigit (hexdigit n)" "hexval (hexdigit n) = n"
    "hexdigit n \<noteq> 0" "hexdigit n \<noteq> 58" "hexdigit n \<noteq> 45" "hexdigit n \<noteq> 32" "hexdigit n \<noteq> 42"
proof -
  have "n \<in> {0,1,2,3,4,5,6,7,8,9,10,11,12,13,14,15}" using assms by simp presburger
  then have "isxdigit (hexdigit n) \<and> hexval (hexdigit n) = n \<and> hexdigit n \<noteq> 0 \<and> hexdigit n \<noteq> 58 \<and>
     hexdigit n \<noteq> 45 \<and> hexdigit n \<noteq> 32 \<and> hexdigit n \<noteq> 42"
    by (elim insertE emptyE) (simp_all add: hexdigit_def isxdigit_def hexval_def isdigit_def)
  then show "isxdigit (hexdigit n)" "hexval (hexdigit n) = n"
    "hexdigit n \<noteq> 0" "hexdigit n \<noteq> 58" "hexdigit n \<noteq> 45" "hexdigit n \<noteq> 32" "hexdigit n \<noteq> 42"
    by blast+
qed

text \<open>The octet \<open>b\<close> stands in two digits at index \<open>p\<close>, before a delimiter.\<close>

definition octet_at :: "bytes \<Rightarrow> nat \<Rightarrow> byte \<Rightarrow> byte \<Rightarrow> bool" where
  "octet_at mem p b d \<longleftrightarrow> p + 2 < length mem \<and> mem ! p = hexdigit (unat b div 16) \<and>
     mem ! (p + 1) = hexdigit (unat b mod 16) \<and> mem ! (p + 2) = d"

lemma unat_byte: "unat (b :: byte) < 256"
proof -
  have "unat b < 2 ^ LENGTH(8)" by (rule unsigned_less)
  then show ?thesis by simp
qed

lemma octet_digits:
  "unat (b :: byte) div 16 < 16" "unat b mod 16 < 16"
  using unat_byte [of b] by (simp_all add: less_mult_imp_div_less)

lemma drop_octet:
  "octet_at mem p b d \<Longrightarrow>
     drop p mem = hexdigit (unat b div 16) # hexdigit (unat b mod 16) # d # drop (p + 3) mem"
  by (simp add: octet_at_def Cons_nth_drop_Suc [symmetric] numeral_3_eq_3)

lemma hex_scan_octet:
  assumes "octet_at mem p b d" and "d = 0 \<or> d = 58"
  shows "hex_scan mem p = Some (Group (p + 2))"
proof -
  note h = hexdigit_props [OF octet_digits(1) [of b]] hexdigit_props [OF octet_digits(2) [of b]]
  have "hex_scan mem p = hex_scan mem (p + 1)" "hex_scan mem (p + 1) = hex_scan mem (p + 2)"
    using assms(1) h by (subst hex_scan.simps, simp add: octet_at_def)+
  moreover have "hex_scan mem (p + 2) = Some (Group (p + 2))"
    using assms by (subst hex_scan.simps) (auto simp: octet_at_def)
  ultimately show ?thesis by simp
qed

lemma strtol16_octet:
  assumes "octet_at mem p b 0"
  shows "strtol16 mem p = Some (unat b)"
  using hexdigit_props [OF octet_digits(1) [of b]] hexdigit_props [OF octet_digits(2) [of b]]
    unat_byte [of b]
  by (simp add: strtol16_def drop_octet [OF assms] isxdigit_def [of 0] isdigit_def min_def)

lemma hex_group_octet:
  assumes o: "octet_at (hmem s) p b d" and d: "d = 0 \<or> d = 58"
    and out: "outp + hcount s < length (hmem s)" and z: "hmask s = 0"
  shows "\<exists>s'. hex_group p outp (p + 2) s = Some s' \<and> hcount s' = hcount s + 1 \<and> hmask s' = 0 \<and>
           hmem s' = (hmem s)[p + 2 := 0, outp + hcount s := b]"
proof -
  define m where "m = (hmem s)[p + 2 := 0]"
  have o': "octet_at m p b 0" using o by (simp add: octet_at_def m_def)
  have "cstr (drop p m) \<noteq> Some [42]"
    using hexdigit_props [OF octet_digits(1) [of b]] unfolding drop_octet [OF o']
    by (auto simp: cstr_def split: if_splits)
  moreover have "foldM (hex_pair p outp 1) [0..<1] (m, 0, hcount s)
      = Some (m[outp + hcount s := b], 0, hcount s + 1)"
    using strtol16_octet [OF o'] out by (simp add: hex_pair_def m_def)
  ultimately show ?thesis
    using o d z by (auto simp: hex_group_def octet_at_def m_def Let_def)
qed

lemma print_mac_loop_octet:
  assumes "take (length (print_mac_loop (b # bs)) + 1) (drop p mem) = print_mac_loop (b # bs) @ [0]"
  shows "octet_at mem p b (if bs = [] then 0 else 58)"
    and "bs \<noteq> [] \<Longrightarrow> take (length (print_mac_loop bs) + 1) (drop (p + 3) mem) = print_mac_loop bs @ [0]"
proof -
  define d where "d = (if bs = [] then 0 else 58 :: byte)"
  obtain r where pr: "print_mac_loop (b # bs) @ [0] = hex2 b @ d # r"
    and r: "bs \<noteq> [] \<Longrightarrow> r = print_mac_loop bs @ [0]"
    by (cases bs) (auto simp: d_def)
  have lr: "length (print_mac_loop (b # bs)) + 1 = length r + 3"
    using arg_cong [OF pr, of length] by (simp add: hex2_def)
  have e: "take (length r + 3) (drop p mem) = hex2 b @ d # r"
    using assms unfolding lr pr .
  then obtain q where q: "drop p mem = hexdigit (unat b div 16) # hexdigit (unat b mod 16) # d # q"
    and rq: "r = take (length r) q"
    by (cases "drop p mem"; cases "tl (drop p mem)"; cases "tl (tl (drop p mem))")
       (auto simp: hex2_def numeral_3_eq_3)
  have lp: "p + 2 < length mem"
    using arg_cong [OF q, of length] by simp
  have "mem ! (p + k) = (drop p mem) ! k" for k using lp by (simp add: less_imp_le)
  from this [of 0] this [of 1] this [of 2] lp show "octet_at mem p b (if bs = [] then 0 else 58)"
    by (simp add: octet_at_def q d_def numeral_2_eq_2)
  have "drop (p + 3) mem = q" using arg_cong [OF q, of "drop 3"] by (simp add: add.commute numeral_3_eq_3)
  with r rq show "bs \<noteq> [] \<Longrightarrow> take (length (print_mac_loop bs) + 1) (drop (p + 3) mem) = print_mac_loop bs @ [0]"
    by (metis length_append_singleton Suc_eq_plus1)
qed

text \<open>Where the output may lie: at or before the text being read, or behind its NUL.\<close>

definition out_clear :: "nat \<Rightarrow> nat \<Rightarrow> nat \<Rightarrow> nat \<Rightarrow> bool" where
  "out_clear outp i inp len \<longleftrightarrow> outp + i < inp + 2 \<or> inp + len < outp"

lemma parse_hex_loop_mac:
  assumes "bs \<noteq> []"
    and "take (length (print_mac_loop bs) + 1) (drop inp (hmem s)) = print_mac_loop bs @ [0]"
    and "out_clear outp (hcount s) inp (length (print_mac_loop bs))"
    and "outp + hcount s + length bs \<le> length (hmem s)" and "hmask s = 0"
    and "\<And>m. maxlen = Some m \<Longrightarrow> hcount s + length bs \<le> m"
  shows "\<exists>s'. parse_hex_loop inp outp maxlen s = Some (Some (hcount s + length bs), s') \<and> hmask s' = 0 \<and>
           take (hcount s + length bs) (drop outp (hmem s')) = take (hcount s) (drop outp (hmem s)) @ bs"
  using assms
proof (induction bs arbitrary: inp s maxlen)
  case (Cons b bs)
  define d where "d = (if bs = [] then 0 else 58 :: byte)"
  have o: "octet_at (hmem s) inp b d"
    using print_mac_loop_octet(1) [OF Cons.prems(2)] by (simp add: d_def)
  have out: "outp + hcount s < length (hmem s)" using Cons.prems(4) by simp
  obtain s1 where s1: "hex_group inp outp (inp + 2) s = Some s1" "hcount s1 = hcount s + 1" "hmask s1 = 0"
      "hmem s1 = (hmem s)[inp + 2 := 0, outp + hcount s := b]"
    using hex_group_octet [OF o _ out Cons.prems(5)] unfolding d_def by (metis (full_types))
  have dl: "hmem s ! (inp + 2) = d" using o by (simp add: octet_at_def)
  have go: "(case maxlen of None \<Rightarrow> True | Some m \<Rightarrow> hcount s < m)"
    using Cons.prems(6) by (cases maxlen) fastforce+
  have step: "parse_hex_loop inp outp maxlen s =
      parse_hex_loop (inp + 3) outp (if d = 0 then Some (hcount s) else maxlen) s1"
    using go hex_scan_octet [OF o] s1(1) dl by (subst parse_hex_loop.simps) (simp add: d_def numeral_3_eq_3)
  have "inp + 2 < outp \<or> outp + hcount s < inp + 2"
    using Cons.prems(3) by (cases bs) (auto simp: out_clear_def hex2_def)
  then have "take (hcount s) (drop outp ((hmem s)[inp + 2 := 0])) = take (hcount s) (drop outp (hmem s))"
    by (auto simp: drop_update_cancel drop_update_swap take_update_cancel)
  then have kept: "take (hcount s + 1) (drop outp (hmem s1)) = take (hcount s) (drop outp (hmem s)) @ [b]"
    using out by (simp add: s1(4) drop_update_swap take_Suc_conv_app_nth)
  show ?case
  proof (cases "bs = []")
    case True
    then have "parse_hex_loop (inp + 3) outp (Some (hcount s)) s1 = Some (Some (hcount s + 1), s1)"
      by (subst parse_hex_loop.simps) (simp add: s1(2))
    with True step kept s1(3) show ?thesis by (simp add: d_def)
  next
    case False
    have rest: "take (length (print_mac_loop bs) + 1) (drop (inp + 3) (hmem s1)) = print_mac_loop bs @ [0]"
    proof -
      have len: "length (print_mac_loop (b # bs)) = 3 + length (print_mac_loop bs)"
        using False by (cases bs) (simp_all add: hex2_def)
      have "take n (drop (inp + 3) (hmem s1)) = take n (drop (inp + 3) (hmem s))"
        if "n = length (print_mac_loop bs) + 1" for n
        using Cons.prems(3) len that unfolding s1(4) out_clear_def
        by (auto simp: drop_update_cancel drop_update_swap take_update_cancel)
      then show ?thesis using print_mac_loop_octet(2) [OF Cons.prems(2) False] by simp
    qed
    have "out_clear outp (hcount s1) (inp + 3) (length (print_mac_loop bs))"
      using Cons.prems(3) False by (cases bs) (auto simp: out_clear_def s1(2) hex2_def)
    then obtain s' where "parse_hex_loop (inp + 3) outp maxlen s1 = Some (Some (hcount s1 + length bs), s')"
        "hmask s' = 0"
        "take (hcount s1 + length bs) (drop outp (hmem s')) = take (hcount s1) (drop outp (hmem s1)) @ bs"
      using Cons.IH [OF False rest, of maxlen] Cons.prems(4,6) s1 by auto
    with step kept s1(2) False show ?thesis by (auto simp: d_def)
  qed
qed simp

text \<open>Printing a hardware address and parsing the text gives the address back: whatever
  stands behind it in memory, whether the result goes to another place or over the text itself
  (as \<open>parse_hex\<close> allows), with or without a limit, and with an empty wildcard mask.\<close>

theorem parse_hex_print_mac:
  assumes "mac \<noteq> []"
    and "take (length (print_mac mac) + 1) (drop inp mem) = print_mac mac @ [0]"
    and "outp = inp \<or> outp + length mac \<le> inp \<or> inp + length (print_mac mac) < outp"
    and "outp + length mac \<le> length mem" and "maxlen = None \<or> maxlen = Some m \<and> length mac \<le> m"
  shows "\<exists>st. parse_hex mem inp outp maxlen wanttype = Some (Some (length mac), st) \<and> hmask st = 0 \<and>
           take (length mac) (drop outp (hmem st)) = mac"
proof -
  have "outp < inp + 2 \<or> inp + length (print_mac_loop mac) < outp"
    using assms(1,3) by (auto simp: print_mac_def)
  then show ?thesis
    using parse_hex_loop_mac [OF assms(1), of inp "\<lparr>hmem = mem, hmask = 0, hcount = 0, want_type = wanttype, mac_type = 0\<rparr>" outp maxlen]
      assms by (auto simp: parse_hex_def print_mac_def out_clear_def)
qed

theorem parse_hex_print_mac_witness:
  "\<exists>st. parse_hex (bytes_of ''1a:ff'' @ [0]) 0 0 None True = Some (Some 2, st) \<and> take 2 (hmem st) = [26, 255]"
proof -
  have "print_mac [26, 255] = bytes_of ''1a:ff''" by code_simp
  then show ?thesis
    using parse_hex_print_mac [of "[26, 255]" 0 "bytes_of ''1a:ff'' @ [0]" 0 None 0 True]
    by (auto simp: bytes_of_def numeral_2_eq_2)
qed

subsection \<open>Masked comparison, buffer growth, reading and writing\<close>

lemma memcmp_masked_loop_spec:
  "n \<le> length a \<Longrightarrow> n \<le> length b \<Longrightarrow>
   memcmp_masked_loop a b n w cnt = Some
     (if \<forall>i < n. \<not> bit w (n - 1 - i) \<longrightarrow> a ! i = b ! i
      then cnt + card {i. i < n \<and> \<not> bit w (n - 1 - i)} else 0)"
proof (induction a b n w cnt rule: memcmp_masked_loop.induct)
  case (2 a b n w cnt)
  have shift: "bit (drop_bit 1 w) (n - 1 - i) = bit w (n - i)" if "i < n" for i
    using that by (simp add: bit_drop_bit_eq Suc_diff_Suc)
  have low: "w AND 1 = 0 \<longleftrightarrow> \<not> bit w 0" by (simp add: and_one_eq bit_0 even_iff_mod_2_eq_zero)
  have all: "(\<forall>i < Suc n. \<not> bit w (n - i) \<longrightarrow> a ! i = b ! i) \<longleftrightarrow>
      (\<not> bit w 0 \<longrightarrow> a ! n = b ! n) \<and> (\<forall>i < n. \<not> bit (drop_bit 1 w) (n - 1 - i) \<longrightarrow> a ! i = b ! i)"
    using shift by (auto simp: less_Suc_eq)
  have "{i. i < Suc n \<and> \<not> bit w (n - i)} =
      (if bit w 0 then {} else {n}) \<union> {i. i < n \<and> \<not> bit (drop_bit 1 w) (n - 1 - i)}"
    using shift by (auto simp: less_Suc_eq)
  then have cd: "card {i. i < Suc n \<and> \<not> bit w (n - i)} =
      (if bit w 0 then 0 else 1) + card {i. i < n \<and> \<not> bit (drop_bit 1 w) (n - 1 - i)}"
    by (simp add: card_insert_if)
  show ?case
  proof (cases "bit w 0")
    case True
    then have "memcmp_masked_loop a b (Suc n) w cnt = memcmp_masked_loop a b n (drop_bit 1 w) cnt"
      using low by simp
    with True show ?thesis using "2.IH"(2) "2.prems" low by (auto simp: all cd simp del: memcmp_masked_loop.simps)
  next
    case False
    then have w0: "w AND 1 = 0" using low by simp
    have rd: "peek a n = Some (a ! n)" "peek b n = Some (b ! n)" using "2.prems" by simp_all
    show ?thesis
    proof (cases "a ! n = b ! n")
      case True
      then have "memcmp_masked_loop a b (Suc n) w cnt = memcmp_masked_loop a b n (drop_bit 1 w) (cnt + 1)"
        using w0 rd by simp
      with True False show ?thesis
        using "2.IH"(1) [OF w0 rd True] "2.prems" by (auto simp: all cd simp del: memcmp_masked_loop.simps)
    next
      case ne: False
      then have "\<not> (\<forall>i < Suc n. \<not> bit w (n - i) \<longrightarrow> a ! i = b ! i)" using False all by blast
      with ne w0 rd show ?thesis by auto
    qed
  qed
qed simp

text \<open>\<open>memcmp_masked\<close> is 0 exactly when some octet that is not masked differs; otherwise it
  counts the octets compared, plus one.  Bit \<open>k\<close> of the mask stands for the octet \<open>k\<close>
  places from the end.\<close>

lemma memcmp_masked_spec:
  assumes "len \<le> length a" and "len \<le> length b"
  shows "memcmp_masked a b len w = Some
     (if \<forall>i < len. \<not> bit w (len - 1 - i) \<longrightarrow> a ! i = b ! i
      then 1 + card {i. i < len \<and> \<not> bit w (len - 1 - i)} else 0)"
  unfolding memcmp_masked_def by (rule memcmp_masked_loop_spec [OF assms])

definition wf_iov :: "iovec \<Rightarrow> bool" where
  "wf_iov iov \<longleftrightarrow> (case iov_base iov of None \<Rightarrow> iov_len iov = 0 | Some b \<Rightarrow> length b = iov_len iov)"

lemma expand_buf_keeps:
  assumes "wf_iov iov" and "\<And>b. newmem = Some b \<Longrightarrow> length b = sz"
  shows "\<exists>ok iov'. expand_buf iov sz newmem = Some (ok, iov') \<and> wf_iov iov' \<and>
           (ok \<longrightarrow> sz \<le> iov_len iov') \<and> (\<not> ok \<longrightarrow> iov' = iov \<and> newmem = None) \<and>
           (\<forall>b. iov_base iov = Some b \<longrightarrow> (\<exists>b'. iov_base iov' = Some b' \<and> take (iov_len iov) b' = b))"
  using assms by (auto simp: expand_buf_def wf_iov_def split: option.splits)

text \<open>A successful \<open>read_write\<close> has filled the buffer with exactly the bytes the calls
  delivered, however they were split up; a successful write has handed over all of it.\<close>

definition moved :: "io_result list \<Rightarrow> bytes" where
  "moved rs = concat (map (\<lambda>r. case r of Moved d \<Rightarrow> d | Failed _ \<Rightarrow> []) rs)"

lemma read_loop_fills:
  "read_loop packet sz done rs = Some (True, packet', rs') \<Longrightarrow> done \<le> sz \<Longrightarrow> sz \<le> length packet \<Longrightarrow>
   \<exists>us. rs = us @ rs' \<and> length (moved us) = sz - done \<and>
        packet' = take done packet @ moved us @ drop sz packet"
proof (induction packet sz "done" rs rule: read_loop.induct)
  case (1 packet sz "done")
  then show ?case by (auto simp: moved_def split: if_splits)
next
  case (2 packet sz "done" r rs)
  show ?case
  proof (cases "done < sz")
    case False
    then show ?thesis using 2 by (intro exI [of _ "[]"]) (simp add: moved_def)
  next
    case True
    show ?thesis
    proof (cases r)
      case (Moved d)
      then have d: "length d \<noteq> 0" "done + length d \<le> sz"
        using "2.prems" True by (auto split: if_splits)
      then obtain us where us: "rs = us @ rs'" "length (moved us) = sz - (done + length d)"
        "packet' = take (done + length d) (take done packet @ d @ drop (done + length d) packet) @ moved us
           @ drop sz (take done packet @ d @ drop (done + length d) packet)"
        using "2.IH"(1) [OF True Moved] "2.prems" True Moved by auto
      then show ?thesis
        using Moved d "2.prems" True by (intro exI [of _ "r # us"]) (simp add: moved_def)
    next
      case (Failed e)
      then have "retry_send e \<or> e = ENOMEM \<or> e = ENOBUFS" "read_loop packet sz done rs = Some (True, packet', rs')"
        using "2.prems" True by (auto split: if_splits)
      then obtain us where "rs = us @ rs'" "length (moved us) = sz - done"
        "packet' = take done packet @ moved us @ drop sz packet"
        using "2.IH"(2) [OF True Failed] "2.prems" by auto
      then show ?thesis using Failed by (intro exI [of _ "r # us"]) (simp add: moved_def)
    qed
  qed
qed

end
