(* ===== verification/Dnsmasq_Names.thy ===== *)
theory Dnsmasq_Names
  imports Dnsmasq_Util Dnrd_Dns
begin

section \<open>dnsmasq: domain names in packets (src/dnsmasq/.../src/rfc1035.c, first part)\<close>

text \<open>
  Reading a domain name out of a packet: \<open>extract_name\<close>, which decodes a name into a text
  buffer or compares it with the text already there, \<open>skip_name\<close>, which only finds its end,
  and the reverse-lookup names of \<open>in_arpa_name_2_addr\<close>.

  The packet is the buffer \<open>msg\<close>, of which \<open>pklen\<close> (the source's \<open>plen\<close>) bytes were received; the pointers
  \<open>p\<close>, \<open>p1\<close> and \<open>*pp\<close> are indices into it, and \<open>cp\<close> is an index into the text
  buffer \<open>name\<close>.  \<open>None\<close> is an access outside one of the two buffers.  The results show
  when that cannot happen, that the decoder accepts exactly the names of RFC 1035 (the relation
  \<open>name_at\<close>, shared with the dnrd decoder) within its limits, that comparing is the same as
  decoding and comparing texts, and that a name written by \<open>do_rfc1035_name\<close> is read back.
\<close>

subsection \<open>The model of extract_name\<close>

definition CHECK_LEN :: "nat \<Rightarrow> nat \<Rightarrow> nat \<Rightarrow> bool" where
  "CHECK_LEN p pklen len \<longleftrightarrow> p + len \<le> pklen"

definition name_text_char :: "byte \<Rightarrow> bool" where
  "name_text_char c \<longleftrightarrow> isascii c \<and> \<not> iscntrl c \<and> c \<noteq> 46"

text \<open>The comparing loop over the bytes of one label; \<open>rv\<close> is \<open>retvalue\<close>.\<close>

fun compare_chars :: "bytes \<Rightarrow> bytes \<Rightarrow> nat \<Rightarrow> nat \<Rightarrow> nat \<Rightarrow> nat \<Rightarrow> (nat \<times> nat) option" where
  "compare_chars msg name p 0 cp rv = Some (cp, rv)"
| "compare_chars msg name p (Suc n) cp rv = do {
     c1 \<leftarrow> peek name cp; c2 \<leftarrow> peek msg p;
     if c1 = 0 then compare_chars msg name (p + 1) n cp 2
     else compare_chars msg name (p + 1) n (cp + 1) (if tolower c1 \<noteq> tolower c2 then 2 else rv) }"

text \<open>One ordinary label of \<open>l\<close> bytes at \<open>p\<close>; the flag is \<open>False\<close> when the label is
  refused.\<close>

definition label_body ::
  "bool \<Rightarrow> bytes \<Rightarrow> nat \<Rightarrow> nat \<Rightarrow> bytes \<Rightarrow> nat \<Rightarrow> nat \<Rightarrow> (bool \<times> bytes \<times> nat \<times> nat) option" where
  "label_body isExtract msg p l name cp rv =
     (if isExtract then do {
        (ok, name') \<leftarrow> copy_label name_text_char msg p name cp l;
        if \<not> ok then Some (False, name', cp, rv)
        else do { name'' \<leftarrow> poke name' (cp + l) 46; Some (True, name'', cp + l + 1, rv) } }
      else do {
        (cp', rv') \<leftarrow> compare_chars msg name p l cp rv;
        c \<leftarrow> peek name cp';
        if c \<noteq> 0 then Some (True, name, cp' + 1, if c \<noteq> 46 then 2 else rv')
        else Some (True, name, cp', rv') })"

text \<open>A bitstring label: the count byte is read without a check, the digits one nibble at a
  time, and the text is \<open>\[x<hex>/<count>].\<close>.\<close>

definition HEXDIGIT :: "nat \<Rightarrow> byte" where
  "HEXDIGIT dig = (if dig < 10 then of_nat (dig + 48) else of_nat (dig + 65 - 10))"

definition bit_digit :: "bytes \<Rightarrow> nat \<Rightarrow> nat \<Rightarrow> byte option" where
  "bit_digit msg p j = map_option
     (\<lambda>b. HEXDIGIT (if j mod 2 = 0 then unat (drop_bit 4 b) else unat (b AND 0x0f))) (peek msg (p + j div 2))"

definition decimal :: "nat \<Rightarrow> bytes" where
  "decimal n = (if n < 10 then [of_nat (48 + n)]
                else if n < 100 then [of_nat (48 + n div 10), of_nat (48 + n mod 10)]
                else [of_nat (48 + n div 100), of_nat (48 + n div 10 mod 10), of_nat (48 + n mod 10)])"

definition poke_list :: "bytes \<Rightarrow> nat \<Rightarrow> bytes \<Rightarrow> bytes option" where
  "poke_list m p bs = (if p + length bs \<le> length m then Some (put_bytes m p bs) else None)"

definition bits_text :: "bytes \<Rightarrow> nat \<Rightarrow> bytes" where
  "bits_text ds count = [92, 91, 120] @ ds @ [47] @ decimal count @ [93]"

definition elt_body :: "bytes \<Rightarrow> nat \<Rightarrow> nat \<Rightarrow> bytes \<Rightarrow> nat \<Rightarrow> (bool \<times> bytes \<times> nat \<times> nat) option" where
  "elt_body msg pklen p name cp = do {
     c \<leftarrow> peek msg p;
     let count = (if c = 0 then 256 else unat c);
     let digs = (count - 1) div 4 + 1;
     if cp + digs + 9 \<ge> MAXDNAME then Some (False, name, cp, p)
     else if \<not> CHECK_LEN (p + 1) pklen ((count - 1) div 8) then Some (False, name, cp, p)
     else do {
       ds \<leftarrow> those (map (bit_digit msg (p + 1)) [0..<digs]);
       name' \<leftarrow> poke_list name cp (bits_text ds count @ [46]);
       Some (True, name', cp + length (bits_text ds count) + 1, p + 1 + digs div 2) } }"

lemma elt_body_advances: "elt_body msg pklen p name cp = Some (ok, name', cp', p') \<Longrightarrow> p \<le> p'"
  by (auto simp: elt_body_def option_bind_eq_Some_iff Let_def split: if_splits)

text \<open>The end marker.\<close>

definition extract_finish ::
  "bool \<Rightarrow> nat \<Rightarrow> nat \<Rightarrow> nat \<Rightarrow> bytes \<Rightarrow> nat \<Rightarrow> nat \<Rightarrow> nat option \<Rightarrow> nat \<Rightarrow> (nat \<times> bytes \<times> nat) option" where
  "extract_finish isExtract pklen extrabytes pp name cp p p1 rv =
     (if \<not> CHECK_LEN p pklen extrabytes then Some (0, name, pp)
      else let pp' = (case p1 of Some q \<Rightarrow> q | None \<Rightarrow> p) in
        if isExtract
        then do { name' \<leftarrow> poke name (if cp \<noteq> 0 then cp - 1 else cp) 0; Some (rv, name', pp') }
        else do { c \<leftarrow> peek name cp; Some (if c \<noteq> 0 then 2 else rv, name, pp') })"

text \<open>\<open>extract_loop isExtract msg pklen extrabytes pp name cp p p1 hops rv\<close>; the result is the
  return value, the text buffer and the new \<open>*pp\<close>.\<close>

function extract_loop ::
  "bool \<Rightarrow> bytes \<Rightarrow> nat \<Rightarrow> nat \<Rightarrow> nat \<Rightarrow> bytes \<Rightarrow> nat \<Rightarrow> nat \<Rightarrow> nat option \<Rightarrow> nat \<Rightarrow> nat \<Rightarrow>
   (nat \<times> bytes \<times> nat) option" where
  "extract_loop isExtract msg pklen extrabytes pp name cp p p1 hops rv =
     (if \<not> CHECK_LEN p pklen 1 then Some (0, name, pp)
      else case peek msg p of
        None \<Rightarrow> None
      | Some l \<Rightarrow>
          if l = 0 then extract_finish isExtract pklen extrabytes pp name cp (p + 1) p1 rv
          else if l AND 0xc0 = 0xc0 then
            (if \<not> CHECK_LEN (p + 1) pklen 1 then Some (0, name, pp)
             else case peek msg (p + 1) of
               None \<Rightarrow> None
             | Some lo \<Rightarrow>
                 if hops + 1 > 255 then Some (0, name, pp)
                 else extract_loop isExtract msg pklen extrabytes pp name cp (ptr_target l lo)
                        (case p1 of None \<Rightarrow> Some (p + 2) | Some q \<Rightarrow> Some q) (hops + 1) rv)
          else if l AND 0xc0 = 0x80 then Some (0, name, pp)
          else if l AND 0xc0 = 0x40 then
            (if l AND 0x3f \<noteq> 1 then Some (0, name, pp)
             else if \<not> isExtract then Some (0, name, pp)
             else case elt_body msg pklen (p + 1) name cp of
               None \<Rightarrow> None
             | Some (ok, name', cp', p') \<Rightarrow>
                 if ok
                 then extract_loop isExtract msg pklen extrabytes pp name' cp' p' p1 hops rv
                 else Some (0, name', pp))
          else
            (if cp + unat l + 1 \<ge> MAXDNAME then Some (0, name, pp)
             else if \<not> CHECK_LEN (p + 1) pklen (unat l) then Some (0, name, pp)
             else case label_body isExtract msg (p + 1) (unat l) name cp rv of
               None \<Rightarrow> None
             | Some (ok, name', cp', rv') \<Rightarrow>
                 if ok
                 then extract_loop isExtract msg pklen extrabytes pp name' cp' (p + 1 + unat l) p1 hops rv'
                 else Some (0, name', pp)))"
  by pat_completeness auto
termination
  by (relation "measures [\<lambda>(isExtract, msg, pklen, extrabytes, pp, name, cp, p, p1, hops, rv). 256 - hops,
        \<lambda>(isExtract, msg, pklen, extrabytes, pp, name, cp, p, p1, hops, rv). pklen - p]")
     (auto simp: CHECK_LEN_def dest: elt_body_advances)

declare extract_loop.simps [simp del]

definition extract_name ::
  "bytes \<Rightarrow> nat \<Rightarrow> nat \<Rightarrow> bytes \<Rightarrow> bool \<Rightarrow> nat \<Rightarrow> (nat \<times> bytes \<times> nat) option" where
  "extract_name msg pklen pp name isExtract extrabytes =
     (if isExtract then do { name' \<leftarrow> poke name 0 0;
                             extract_loop True msg pklen extrabytes pp name' 0 pp None 0 1 }
      else extract_loop False msg pklen extrabytes pp name 0 pp None 0 1)"

subsection \<open>skip_name\<close>

text \<open>\<open>Some None\<close> is the NULL result.\<close>

function skip_name :: "bytes \<Rightarrow> nat \<Rightarrow> nat \<Rightarrow> nat \<Rightarrow> nat option option" where
  "skip_name msg ansp pklen extrabytes =
     (if \<not> CHECK_LEN ansp pklen 1 then Some None
      else case peek msg ansp of
        None \<Rightarrow> None
      | Some l \<Rightarrow>
          if l AND 0xc0 = 0xc0 then
            Some (if CHECK_LEN (ansp + 2) pklen extrabytes then Some (ansp + 2) else None)
          else if l AND 0xc0 = 0x80 then Some None
          else if l AND 0xc0 = 0x40 then
            (if \<not> CHECK_LEN ansp pklen 2 then Some None
             else if l AND 0x3f \<noteq> 1 then Some None
             else case peek msg (ansp + 1) of
               None \<Rightarrow> None
             | Some c \<Rightarrow>
                 skip_name msg (ansp + 2 + (if c = 0 then 32 else (unat c - 1) div 8 + 1)) pklen extrabytes)
          else
            (let len = unat (l AND 0x3f) in
             if \<not> CHECK_LEN (ansp + 1) pklen len then Some None
             else if len = 0 then
               Some (if CHECK_LEN (ansp + 1) pklen extrabytes then Some (ansp + 1) else None)
             else skip_name msg (ansp + 1 + len) pklen extrabytes))"
  by pat_completeness auto
termination
  by (relation "measure (\<lambda>(msg, ansp, pklen, extrabytes). pklen - ansp)") (auto simp: CHECK_LEN_def)

declare skip_name.simps [simp del]

subsection \<open>Names of reverse lookups\<close>

definition MAXARPANAME :: nat where "MAXARPANAME = 75"

definition F_IPV4 :: u32 where "F_IPV4 = 0x80"

text \<open>The loop over the chunks before \<open>in-addr\<close>; the address octets are kept in memory
  order, first octet first, and \<open>atoi\<close> is stored into an octet.\<close>

fun arpa_octets :: "bytes list \<Rightarrow> bytes \<Rightarrow> bool \<times> bytes" where
  "arpa_octets [] addr = (True, addr)"
| "arpa_octets (cp # cps) addr =
     (if list_all isdigit cp
      then arpa_octets cps (word_of_int (atoi cp) # butlast addr) else (False, addr))"

text \<open>The name is cut into its chunks at the dots; the result is the flag and the contents of
  \<open>*addrp\<close>.  With no IPv6 support only \<open>in-addr.arpa\<close> is understood.\<close>

definition in_arpa_name_2_addr :: "bytes \<Rightarrow> bytes \<Rightarrow> u32 \<times> bytes" where
  "in_arpa_name_2_addr namein addrp =
     (if length namein > MAXARPANAME then (0, addrp)
      else let chunks = split_dots namein in
      if length chunks < 3 then (0, [0, 0, 0, 0])
      else if strcaseeq (last chunks) (bytes_of ''arpa'')
              \<and> strcaseeq (last (butlast chunks)) (bytes_of ''in-addr'')
      then (case arpa_octets (butlast (butlast chunks)) [0, 0, 0, 0] of
              (ok, addr) \<Rightarrow> (if ok then F_IPV4 else 0, addr))
      else (0, [0, 0, 0, 0]))"

subsection \<open>Label types\<close>

lemma byte_all:
  assumes "list_all P (map word_of_nat [0..<256])"
  shows "P (c :: byte)"
proof -
  have "c = word_of_nat (unat c)" by simp
  then have "c \<in> set (map word_of_nat [0..<256])" using unat_byte [of c] by (metis atLeast0LessThan imageI lessThan_iff set_map set_upt)
  with assms show ?thesis by (auto simp: list_all_iff)
qed

lemma label_type_facts:
  fixes c :: byte
  shows "(c AND 0xc0 = 0 \<longleftrightarrow> c < 64) \<and> (c < 64 \<longrightarrow> c AND 0x3f = c) \<and>
    (c AND 0xc0 = 0 \<or> c AND 0xc0 = 0x40 \<or> c AND 0xc0 = 0x80 \<or> c AND 0xc0 = 0xc0) \<and>
    (c AND 0xc0 = 0x40 \<and> c AND 0x3f = 1 \<longleftrightarrow> c = 0x41)"
  by (rule byte_all [where P = "\<lambda>c. (c AND 0xc0 = 0 \<longleftrightarrow> c < 64) \<and> (c < 64 \<longrightarrow> c AND 0x3f = c) \<and>
    (c AND 0xc0 = 0 \<or> c AND 0xc0 = 0x40 \<or> c AND 0xc0 = 0x80 \<or> c AND 0xc0 = 0xc0) \<and>
    (c AND 0xc0 = 0x40 \<and> c AND 0x3f = 1 \<longleftrightarrow> c = 0x41)"]) code_simp

lemma label_type_small: "c < 64 \<Longrightarrow> (c :: byte) AND 0xc0 = 0" "c < 64 \<Longrightarrow> c AND 0x3f = c"
  using label_type_facts [of c] by blast+

lemma label_type_zero: "(c :: byte) AND 0xc0 = 0 \<Longrightarrow> c < 64"
  using label_type_facts [of c] by blast

lemma label_type_elt: "(c :: byte) AND 0xc0 = 0x40 \<Longrightarrow> c AND 0x3f = 1 \<Longrightarrow> c = 0x41"
  using label_type_facts [of c] by blast

lemma label_small_bound: "(c :: byte) < 64 \<Longrightarrow> unat c < 64"
  by (simp add: word_less_nat_alt)

subsection \<open>The steps of the loop stay inside the buffers\<close>

lemma label_body_extract:
  assumes "p + l \<le> length msg" and "cp + l < length name"
  shows "\<exists>name'. length name' = length name \<and>
     label_body True msg p l name cp rv =
       Some (list_all name_text_char (take l (drop p msg)), name',
             if list_all name_text_char (take l (drop p msg)) then cp + l + 1 else cp, rv) \<and>
     (list_all name_text_char (take l (drop p msg)) \<longrightarrow>
        name' = put_bytes name cp (take l (drop p msg) @ [46]))"
proof -
  let ?t = "take l (drop p msg)"
  obtain d where d: "length d = length name" "copy_label name_text_char msg p name cp l = Some (list_all name_text_char ?t, d)"
    "list_all name_text_char ?t \<longrightarrow> d = take cp name @ ?t @ drop (cp + l) name"
    using copy_label_cases [of p l msg cp name name_text_char] assms by auto
  have len: "length ?t = l" using assms by simp
  have e: "take cp name @ ?t @ drop (cp + l) name = put_bytes name cp ?t" by (simp only: put_bytes_def len)
  have "(put_bytes name cp ?t)[cp + l := 46] = put_bytes (put_bytes name cp ?t) (cp + l) [46]"
    using assms len by (intro list_update_put_bytes) simp
  also have "\<dots> = put_bytes name cp (?t @ [46])"
    using put_bytes_append [of cp ?t "[46]" name] assms len by (simp del: length_take)
  finally have "(put_bytes name cp ?t)[cp + l := 46] = put_bytes name cp (?t @ [46])" .
  with d e assms show ?thesis by (auto simp: label_body_def)
qed

lemma those_bit_digits:
  assumes "p + (count - 1) div 8 < length msg"
  shows "\<exists>ds. those (map (bit_digit msg p) [0..<(count - 1) div 4 + 1]) = Some ds \<and> length ds = (count - 1) div 4 + 1"
proof -
  have "\<exists>ds. those (map (bit_digit msg p) xs) = Some ds \<and> length ds = length xs"
    if "\<forall>j \<in> set xs. p + j div 2 < length msg" for xs
    using that
  proof (induction xs)
    case (Cons j xs)
    then obtain ds where "those (map (bit_digit msg p) xs) = Some ds" "length ds = length xs" by auto
    then show ?case using Cons.prems by (simp add: bit_digit_def [of msg p j])
  qed simp
  moreover have "p + j div 2 < length msg" if "j < (count - 1) div 4 + 1" for j
  proof -
    have "j div 2 \<le> (count - 1) div 4 div 2" using that by (intro div_le_mono) simp
    also have "\<dots> = (count - 1) div 8" by (simp add: div_mult2_eq [symmetric])
    finally show ?thesis using assms by simp
  qed
  ultimately show ?thesis by (metis (no_types, lifting) atLeastLessThan_iff diff_zero length_upt set_upt)
qed

lemma length_decimal: "length (decimal n) \<le> 3"
  by (simp add: decimal_def)

lemma elt_body_safe:
  assumes "p \<le> pklen" and "pklen < length msg" and "MAXDNAME \<le> length name"
  shows "\<exists>ok name' cp' p'. elt_body msg pklen p name cp = Some (ok, name', cp', p') \<and>
     length name' = length name \<and> (cp < MAXDNAME \<longrightarrow> cp' < MAXDNAME)"
proof -
  define count where "count = (if msg ! p = 0 then 256 else unat (msg ! p))"
  define digs where "digs = (count - 1) div 4 + 1"
  note body = elt_body_def [of msg pklen p name cp] Let_def
  have pk: "peek msg p = Some (msg ! p)" using assms by simp
  show ?thesis
  proof (cases "MAXDNAME \<le> cp + digs + 9 \<or> \<not> CHECK_LEN (p + 1) pklen ((count - 1) div 8)")
    case True
    then show ?thesis using pk unfolding body digs_def count_def by auto
  next
    case False
    then obtain ds where ds: "those (map (bit_digit msg (p + 1)) [0..<digs]) = Some ds" "length ds = digs"
      using those_bit_digits [of "p + 1" count msg] assms unfolding digs_def CHECK_LEN_def by force
    have "cp + length (bits_text ds count @ [46]) < MAXDNAME"
      using False ds length_decimal [of count] by (simp add: bits_text_def)
    then have "poke_list name cp (bits_text ds count @ [46]) = Some (put_bytes name cp (bits_text ds count @ [46]))"
      "length (put_bytes name cp (bits_text ds count @ [46])) = length name"
      "cp + length (bits_text ds count) + 1 < MAXDNAME"
      using assms by (simp_all add: poke_list_def)
    then show ?thesis using pk False ds(1) unfolding body digs_def count_def by auto
  qed
qed

text \<open>What one turn of the loop does, by the kind of label found.\<close>

lemma extract_loop_short:
  "\<not> p + 1 \<le> pklen \<Longrightarrow> extract_loop x msg pklen eb pp name cp p p1 hops rv = Some (0, name, pp)"
  by (simp add: extract_loop.simps CHECK_LEN_def)

lemma extract_loop_root:
  "p < pklen \<Longrightarrow> pklen \<le> length msg \<Longrightarrow> msg ! p = 0 \<Longrightarrow>
   extract_loop x msg pklen eb pp name cp p p1 hops rv =
     extract_finish x pklen eb pp name cp (p + 1) p1 rv"
  by (simp add: extract_loop.simps CHECK_LEN_def)

lemma extract_loop_ptr:
  assumes "p < pklen" and "pklen \<le> length msg" and "is_ptr (msg ! p)"
  shows "extract_loop x msg pklen eb pp name cp p p1 hops rv =
     (if p + 1 < pklen \<and> hops < 255
      then extract_loop x msg pklen eb pp name cp (ptr_target (msg ! p) (msg ! (p + 1)))
             (Some (case p1 of None \<Rightarrow> p + 2 | Some q \<Rightarrow> q)) (hops + 1) rv
      else Some (0, name, pp))"
  using assms is_ptr_ge [OF assms(3)]
  by (subst extract_loop.simps) (auto simp: CHECK_LEN_def is_ptr_def split: option.splits)

lemma extract_loop_label:
  assumes "p < pklen" and "pklen \<le> length msg" and "msg ! p \<noteq> 0" and "msg ! p < 64"
  shows "extract_loop x msg pklen eb pp name cp p p1 hops rv =
     (if cp + unat (msg ! p) + 1 < MAXDNAME \<and> p + 1 + unat (msg ! p) \<le> pklen
      then case label_body x msg (p + 1) (unat (msg ! p)) name cp rv of
             None \<Rightarrow> None
           | Some (ok, name', cp', rv') \<Rightarrow>
               if ok then extract_loop x msg pklen eb pp name' cp' (p + 1 + unat (msg ! p)) p1 hops rv'
               else Some (0, name', pp)
      else Some (0, name, pp))"
  using assms label_type_small [OF assms(4)]
  by (subst extract_loop.simps) (auto simp: CHECK_LEN_def split: option.splits)

lemma extract_loop_elt:
  assumes "p < pklen" and "pklen \<le> length msg" and "msg ! p = 0x41"
  shows "extract_loop True msg pklen eb pp name cp p p1 hops rv =
     (case elt_body msg pklen (p + 1) name cp of
        None \<Rightarrow> None
      | Some (ok, name', cp', p') \<Rightarrow>
          if ok then extract_loop True msg pklen eb pp name' cp' p' p1 hops rv else Some (0, name', pp))"
  using assms by (subst extract_loop.simps) (simp add: CHECK_LEN_def split: option.splits)

lemma extract_loop_bad:
  assumes "p < pklen" and "pklen \<le> length msg" and "\<not> is_ptr (msg ! p)" and "\<not> msg ! p < 64"
    and "x \<longrightarrow> msg ! p \<noteq> 0x41"
  shows "extract_loop x msg pklen eb pp name cp p p1 hops rv = Some (0, name, pp)"
proof -
  have "msg ! p AND 0xc0 = 0x80 \<or> msg ! p AND 0xc0 = 0x40" "msg ! p \<noteq> 0"
    using label_type_facts [of "msg ! p"] assms(3,4) by (auto simp: is_ptr_def)
  then show ?thesis
    using assms label_type_elt [of "msg ! p"]
    by (subst extract_loop.simps) (auto simp: CHECK_LEN_def is_ptr_def)
qed

lemma label_kinds:
  obtains (root) "c = 0" | (ptr) "is_ptr c" | (label) "(c :: byte) \<noteq> 0" "c < 64"
  | (elt) "c = 0x41" | (bad) "\<not> is_ptr c" "\<not> c < 64" "c \<noteq> 0x41"
  by blast

text \<open>Decoding: the text buffer needs \<open>MAXDNAME\<close> bytes and the packet one readable byte
  behind its \<open>pklen\<close> (a bitstring label at the end is read before it is checked).\<close>

lemma extract_loop_safe:
  assumes "pklen < length msg" and "MAXDNAME \<le> length name" and "cp < MAXDNAME"
  shows "\<exists>r name' q. extract_loop True msg pklen eb pp name cp p p1 hops rv = Some (r, name', q) \<and>
           length name' = length name"
  using assms
proof (induction True msg pklen eb pp name cp p p1 hops rv rule: extract_loop.induct)
  case (1 msg pklen eb pp name cp p p1 hops rv)
  show ?case
  proof (cases "p < pklen")
    case False
    then show ?thesis by (simp add: extract_loop_short)
  next
    case True
    have le: "pklen \<le> length msg" and pk: "peek msg p = Some (msg ! p)" and cl: "\<not> \<not> CHECK_LEN p pklen 1"
      using "1.prems" True by (simp_all add: CHECK_LEN_def)
    show ?thesis
    proof (cases rule: label_kinds [of "msg ! p"])
      case root
      have "cp < length name" "cp - 1 < length name" using "1.prems" by linarith+
      then show ?thesis by (auto simp: extract_loop_root [OF True le root] extract_finish_def Let_def)
    next
      case ptr
      then have t: "msg ! p \<noteq> 0" "msg ! p AND 0xc0 = 0xc0" using is_ptr_ge by (auto simp: is_ptr_def)
      show ?thesis
      proof (cases "p + 1 < pklen \<and> hops < 255")
        case ok: True
        then have lo: "peek msg (p + 1) = Some (msg ! (p + 1))" using le by simp
        show ?thesis
          unfolding extract_loop_ptr [OF True le ptr] if_P [OF ok]
          using "1.hyps"(1) [OF cl pk t _ lo] ok "1.prems" by (auto simp: CHECK_LEN_def split: option.splits)
      next
        case no: False
        show ?thesis unfolding extract_loop_ptr [OF True le ptr] if_not_P [OF no] by simp
      qed
    next
      case elt
      have t: "msg ! p \<noteq> 0" "msg ! p AND 0xc0 \<noteq> 0xc0" "msg ! p AND 0xc0 \<noteq> 0x80" "msg ! p AND 0xc0 = 0x40"
        "\<not> (msg ! p AND 0x3f \<noteq> 1)" unfolding elt by simp_all
      obtain ok name' cp' p' where b: "elt_body msg pklen (p + 1) name cp = Some (ok, name', cp', p')"
        "length name' = length name" "cp' < MAXDNAME"
        using elt_body_safe [of "p + 1" pklen msg name cp] "1.prems" True by auto
      show ?thesis
        using "1.hyps"(2) [OF cl pk t _ b(1) refl refl refl] b "1.prems"
        by (simp add: extract_loop_elt [OF True le elt])
    next
      case label
      have t: "msg ! p AND 0xc0 \<noteq> 0xc0" "msg ! p AND 0xc0 \<noteq> 0x80" "msg ! p AND 0xc0 \<noteq> 0x40"
        unfolding label_type_small(1) [OF label(2)] by simp_all
      show ?thesis
      proof (cases "cp + unat (msg ! p) + 1 < MAXDNAME \<and> p + 1 + unat (msg ! p) \<le> pklen")
        case ok: True
        obtain g name' cp' where b: "label_body True msg (p + 1) (unat (msg ! p)) name cp rv = Some (g, name', cp', rv)"
          "length name' = length name" "g \<longrightarrow> cp' < MAXDNAME"
          using label_body_extract [of "p + 1" "unat (msg ! p)" msg cp name rv] ok "1.prems" le by fastforce
        show ?thesis
          unfolding extract_loop_label [OF True le label] if_P [OF ok]
          using "1.hyps"(3) [OF cl pk label(1) t _ _ b(1) refl refl refl] b ok "1.prems"
          by (auto simp: CHECK_LEN_def not_le)
      next
        case no: False
        show ?thesis unfolding extract_loop_label [OF True le label] if_not_P [OF no] by simp
      qed
    next
      case bad
      then show ?thesis by (simp add: extract_loop_bad [OF True le bad(1,2)])
    qed
  qed
qed

subsection \<open>What the decoder accepts\<close>

text \<open>
  \<open>name_run b msg n i h ls e f\<close> refines \<open>name_at\<close>: it also tells where reading stops,
  \<open>f\<close>, the index behind the end marker after all jumps, and, when \<open>b\<close> holds, admits the
  bitstring labels of RFC 2673 in the form the decoder reads them.
\<close>

inductive name_run :: "bool \<Rightarrow> bytes \<Rightarrow> nat \<Rightarrow> nat \<Rightarrow> nat \<Rightarrow> bytes list \<Rightarrow> nat \<Rightarrow> nat \<Rightarrow> bool"
  for b :: bool and msg :: bytes and n :: nat where
  run_root: "i < n \<Longrightarrow> msg ! i = 0 \<Longrightarrow> name_run b msg n i 0 [] (i + 1) (i + 1)"
| run_label: "i < n \<Longrightarrow> msg ! i \<noteq> 0 \<Longrightarrow> msg ! i < 64 \<Longrightarrow> i + 1 + unat (msg ! i) \<le> n \<Longrightarrow>
     name_run b msg n (i + 1 + unat (msg ! i)) h ls e f \<Longrightarrow>
     name_run b msg n i h (take (unat (msg ! i)) (drop (i + 1) msg) # ls) e f"
| run_ptr: "i + 1 < n \<Longrightarrow> is_ptr (msg ! i) \<Longrightarrow>
     name_run b msg n (ptr_target (msg ! i) (msg ! (i + 1))) h ls e f \<Longrightarrow>
     name_run b msg n i (Suc h) ls (i + 2) f"
| run_bits: "b \<Longrightarrow> i < n \<Longrightarrow> msg ! i = 0x41 \<Longrightarrow> count = (if msg ! (i + 1) = 0 then 256 else unat (msg ! (i + 1))) \<Longrightarrow>
     i + 2 + (count - 1) div 8 \<le> n \<Longrightarrow>
     those (map (bit_digit msg (i + 2)) [0..<(count - 1) div 4 + 1]) = Some ds \<Longrightarrow>
     name_run b msg n (i + 2 + ((count - 1) div 4 + 1) div 2) h ls e f \<Longrightarrow>
     name_run b msg n i h (bits_text ds count # ls) e f"

lemma name_run_start: "name_run b msg n i h ls e f \<Longrightarrow> i < n"
  by (induction rule: name_run.induct) auto

lemma name_run_end: "name_run b msg n i h ls e f \<Longrightarrow> i < e \<and> e \<le> n \<and> f \<le> n"
  by (induction rule: name_run.induct) auto

lemma name_run_at: "name_run False msg n i h ls e f \<Longrightarrow> name_at msg n i h ls e"
proof (induction rule: name_run.induct)
  case (run_root i)
  then show ?case by (rule name_at.name_root)
next
  case (run_label i h ls e f)
  then show ?case using name_run_start by (intro name_at.name_label) auto
next
  case (run_ptr i h ls e f)
  then show ?case using name_run_start by (intro name_at.name_ptr) auto
qed simp

lemma name_at_run: "name_at msg n i h ls e \<Longrightarrow> \<exists>f. name_run b msg n i h ls e f"
proof (induction rule: name_at.induct)
  case (name_root i)
  then show ?case using run_root by blast
next
  case (name_label i h ls e)
  then obtain f where "name_run b msg n (i + 1 + unat (msg ! i)) h ls e f" by blast
  with name_label show ?case using run_label [of i n msg b h ls e f] by auto
next
  case (name_ptr i h ls e)
  then show ?case using run_ptr by blast
qed

lemma extract_loop_complete:
  assumes "name_run False msg n i h ls e f" and "n \<le> length msg" and "MAXDNAME \<le> length name"
    and "list_all (list_all name_text_char) ls" and "cp + length (dotted ls) < MAXDNAME" and "hops + h \<le> 255"
  shows "extract_loop True msg n eb pp name cp i p1 hops rv =
     extract_finish True n eb pp (put_bytes name cp (dotted ls)) (cp + length (dotted ls)) f
       (if p1 = None \<and> h = 0 then None else Some (case p1 of None \<Rightarrow> e | Some q \<Rightarrow> q)) rv"
  using assms
proof (induction arbitrary: name cp p1 hops rule: name_run.induct)
  case (run_root i)
  then show ?case by (cases p1) (simp_all add: extract_loop_root)
next
  case (run_label i h ls e f)
  let ?l = "take (unat (msg ! i)) (drop (i + 1) msg)"
  have len: "length ?l = unat (msg ! i)" using run_label by simp
  have fit: "cp + unat (msg ! i) + 1 < MAXDNAME \<and> i + 1 + unat (msg ! i) \<le> n"
    using run_label.prems(4) run_label.hyps(4) len by simp
  let ?n = "put_bytes name cp (?l @ [46])"
  have b: "label_body True msg (i + 1) (unat (msg ! i)) name cp rv = Some (True, ?n, cp + unat (msg ! i) + 1, rv)"
    using label_body_extract [of "i + 1" "unat (msg ! i)" msg cp name rv] run_label.prems fit by auto
  have n: "MAXDNAME \<le> length ?n" using fit run_label.prems(2) len by simp
  have "extract_loop True msg n eb pp name cp i p1 hops rv =
      extract_loop True msg n eb pp ?n (cp + unat (msg ! i) + 1) (i + 1 + unat (msg ! i)) p1 hops rv"
    unfolding extract_loop_label [OF run_label.hyps(1) run_label.prems(1) run_label.hyps(2,3)] if_P [OF fit] b by simp
  also have "\<dots> = extract_finish True n eb pp (put_bytes ?n (cp + unat (msg ! i) + 1) (dotted ls))
       (cp + unat (msg ! i) + 1 + length (dotted ls)) f
       (if p1 = None \<and> h = 0 then None else Some (case p1 of None \<Rightarrow> e | Some q \<Rightarrow> q)) rv"
    using run_label.prems n len by (intro run_label.IH) auto
  also have "put_bytes ?n (cp + unat (msg ! i) + 1) (dotted ls) = put_bytes name cp (dotted (?l # ls))"
    using put_bytes_append [of cp "?l @ [46]" "dotted ls" name] run_label.prems(2,4) len by simp
  finally show ?case using len by (simp add: add.commute add.left_commute)
next
  case (run_ptr i h ls e f)
  have ok: "i + 1 < n \<and> hops < 255" using run_ptr by simp
  have i: "i < n" using run_ptr by simp
  show ?case
    unfolding extract_loop_ptr [OF i run_ptr.prems(1) run_ptr.hyps(2)] if_P [OF ok]
    using run_ptr.IH [OF run_ptr.prems(1-4), of "hops + 1"] run_ptr.prems(5) by (cases p1) auto
qed simp

lemma HEXDIGIT_text:
  fixes b :: byte
  shows "name_text_char (HEXDIGIT (unat (drop_bit 4 b)))" "name_text_char (HEXDIGIT (unat (b AND 0x0f)))"
proof -
  have "name_text_char (HEXDIGIT (unat (drop_bit 4 b))) \<and> name_text_char (HEXDIGIT (unat (b AND 0x0f)))"
    by (rule byte_all [where P = "\<lambda>b. name_text_char (HEXDIGIT (unat (drop_bit 4 b))) \<and> name_text_char (HEXDIGIT (unat (b AND 0x0f)))"])
       code_simp
  then show "name_text_char (HEXDIGIT (unat (drop_bit 4 b)))" "name_text_char (HEXDIGIT (unat (b AND 0x0f)))" by blast+
qed

lemma those_all:
  assumes "those (map f xs) = Some ds" and "\<And>x y. f x = Some y \<Longrightarrow> P y"
  shows "list_all P ds"
  using assms(1)
proof (induction xs arbitrary: ds)
  case (Cons x xs)
  then show ?case by (auto split: option.splits dest: assms(2))
qed simp

lemma decimal_text: "n \<le> 256 \<Longrightarrow> list_all name_text_char (decimal n)"
proof -
  have "list_all (\<lambda>n. list_all name_text_char (decimal n)) [0..<257]" by code_simp
  moreover assume "n \<le> 256"
  ultimately show ?thesis by (auto simp: list_all_iff)
qed

lemma bits_text_chars:
  assumes "those (map (bit_digit msg p) js) = Some ds" and "count \<le> 256"
  shows "list_all name_text_char (bits_text ds count)"
proof -
  have "list_all name_text_char ds"
    by (rule those_all [OF assms(1)]) (auto simp: bit_digit_def HEXDIGIT_text split: if_splits)
  moreover have "list_all name_text_char [92, 91, 120]" "name_text_char 47" "name_text_char 93"
    by (simp_all add: name_text_char_def isascii_def iscntrl_def)
  ultimately show ?thesis using decimal_text [OF assms(2)] by (simp add: bits_text_def)
qed

lemma elt_body_ok:
  assumes "elt_body msg n p name cp = Some (True, name', cp', p')"
  obtains ds count where "p < length msg" "count = (if msg ! p = 0 then 256 else unat (msg ! p))"
    "p + 1 + (count - 1) div 8 \<le> n"
    "those (map (bit_digit msg (p + 1)) [0..<(count - 1) div 4 + 1]) = Some ds"
    "cp + length (bits_text ds count) + 1 \<le> length name" "cp' < MAXDNAME" 
    "name' = put_bytes name cp (bits_text ds count @ [46])" "cp' = cp + length (bits_text ds count) + 1"
    "p' = p + 1 + ((count - 1) div 4 + 1) div 2" "count \<le> 256"
proof -
  define count where "count = (if msg ! p = 0 then 256 else unat (msg ! p))"
  have p: "p < length msg" using assms by (auto simp: elt_body_def option_bind_eq_Some_iff peek_eq_Some_iff)
  have c: "count \<le> 256" using unat_byte [of "msg ! p"] by (simp add: count_def)
  have run: "(if MAXDNAME \<le> cp + ((count - 1) div 4 + 1) + 9 then Some (False, name, cp, p)
     else if \<not> CHECK_LEN (p + 1) n ((count - 1) div 8) then Some (False, name, cp, p)
     else do {
       ds \<leftarrow> those (map (bit_digit msg (p + 1)) [0..<(count - 1) div 4 + 1]);
       name' \<leftarrow> poke_list name cp (bits_text ds count @ [46]);
       Some (True, name', cp + length (bits_text ds count) + 1, p + 1 + ((count - 1) div 4 + 1) div 2) })
     = Some (True, name', cp', p')"
    using assms p unfolding elt_body_def Let_def count_def by simp
  then have g: "\<not> MAXDNAME \<le> cp + ((count - 1) div 4 + 1) + 9" "CHECK_LEN (p + 1) n ((count - 1) div 8)"
    by (auto split: if_splits)
  with run obtain ds where ds: "those (map (bit_digit msg (p + 1)) [0..<(count - 1) div 4 + 1]) = Some ds"
    "poke_list name cp (bits_text ds count @ [46]) = Some name'"
    "cp' = cp + length (bits_text ds count) + 1" "p' = p + 1 + ((count - 1) div 4 + 1) div 2"
    by (auto simp: option_bind_eq_Some_iff)
  have "length ds = (count - 1) div 4 + 1"
  proof -
    have "those (map f xs) = Some ys \<Longrightarrow> length ys = length xs" for f :: "nat \<Rightarrow> byte option" and xs ys
      by (induction xs arbitrary: ys) (auto split: option.splits)
    from this [OF ds(1)] show ?thesis by simp
  qed
  then have "cp' < MAXDNAME" using g(1) ds(3) length_decimal [of count] by (simp add: bits_text_def)
  moreover have "name' = put_bytes name cp (bits_text ds count @ [46])" "cp + length (bits_text ds count) + 1 \<le> length name"
    using ds(2) by (auto simp: poke_list_def split: if_splits)
  ultimately show thesis
    using that [OF p count_def _ ds(1)] g(2) ds(3,4) c by (auto simp: CHECK_LEN_def)
qed

lemma extract_loop_sound:
  assumes "extract_loop True msg n eb pp name cp i p1 hops rv = Some (r, name', q)" and "r \<noteq> 0"
    and "n \<le> length msg" and "MAXDNAME \<le> length name" and "cp < MAXDNAME" and "hops \<le> 255"
  shows "\<exists>h ls e f. name_run True msg n i h ls e f \<and> list_all (list_all name_text_char) ls \<and>
     cp + length (dotted ls) < MAXDNAME \<and> hops + h \<le> 255 \<and>
     extract_finish True n eb pp (put_bytes name cp (dotted ls)) (cp + length (dotted ls)) f
       (if p1 = None \<and> h = 0 then None else Some (case p1 of None \<Rightarrow> e | Some q \<Rightarrow> q)) rv = Some (r, name', q)"
  using assms
proof (induction True msg n eb pp name cp i p1 hops rv rule: extract_loop.induct)
  case (1 msg n eb pp name cp i p1 hops rv)
  have run: "extract_loop True msg n eb pp name cp i p1 hops rv = Some (r, name', q)" by (fact "1.prems"(1))
  note le = "1.prems"(3)
  have i: "i < n" using run "1.prems"(2) extract_loop_short [of i n True msg] by force
  have pk: "peek msg i = Some (msg ! i)" and cl: "\<not> \<not> CHECK_LEN i n 1" using le i by (simp_all add: CHECK_LEN_def)
  show ?case
  proof (cases rule: label_kinds [of "msg ! i"])
    case root
    have "name_run True msg n i 0 [] (i + 1) (i + 1)" using i root by (rule run_root)
    moreover have "(if p1 = None \<and> (0 :: nat) = 0 then None else Some (case p1 of None \<Rightarrow> i + 1 | Some q \<Rightarrow> q)) = p1"
      by (cases p1) auto
    moreover have "extract_finish True n eb pp name cp (i + 1) p1 rv = Some (r, name', q)"
      using run by (simp add: extract_loop_root [OF i le root])
    ultimately have "name_run True msg n i 0 [] (i + 1) (i + 1) \<and> list_all (list_all name_text_char) [] \<and>
       cp + length (dotted []) < MAXDNAME \<and> hops + 0 \<le> 255 \<and>
       extract_finish True n eb pp (put_bytes name cp (dotted [])) (cp + length (dotted [])) (i + 1)
         (if p1 = None \<and> (0 :: nat) = 0 then None else Some (case p1 of None \<Rightarrow> i + 1 | Some q \<Rightarrow> q)) rv = Some (r, name', q)"
      using "1.prems"(5,6) by simp
    then show ?thesis by blast
  next
    case ptr
    then have t: "msg ! i \<noteq> 0" "msg ! i AND 0xc0 = 0xc0" using is_ptr_ge by (auto simp: is_ptr_def)
    let ?p1 = "case p1 of None \<Rightarrow> Some (i + 2) | Some q \<Rightarrow> Some q"
    have ok: "i + 1 < n \<and> hops < 255" using run "1.prems"(2) by (auto simp: extract_loop_ptr [OF i le ptr] split: if_splits)
    then have lo: "peek msg (i + 1) = Some (msg ! (i + 1))" using le by simp
    have "extract_loop True msg n eb pp name cp (ptr_target (msg ! i) (msg ! (i + 1))) ?p1 (hops + 1) rv = Some (r, name', q)"
      using run ok unfolding extract_loop_ptr [OF i le ptr] by (simp split: option.splits)
    then obtain h ls e f where r: "name_run True msg n (ptr_target (msg ! i) (msg ! (i + 1))) h ls e f"
      "list_all (list_all name_text_char) ls" "cp + length (dotted ls) < MAXDNAME" "hops + 1 + h \<le> 255"
      "extract_finish True n eb pp (put_bytes name cp (dotted ls)) (cp + length (dotted ls)) f
         (if ?p1 = None \<and> h = 0 then None else Some (case ?p1 of None \<Rightarrow> e | Some q \<Rightarrow> q)) rv = Some (r, name', q)"
      using "1.hyps"(1) [OF cl pk t _ lo] ok "1.prems" by (auto simp: CHECK_LEN_def)
    have "name_run True msg n i (Suc h) ls (i + 2) f" using ok ptr r(1) by (intro run_ptr) auto
    then show ?thesis using r
      by (intro exI [of _ "Suc h"] exI [of _ ls] exI [of _ "i + 2"] exI [of _ f]) (auto split: option.splits)
  next
    case elt
    have t: "msg ! i \<noteq> 0" "msg ! i AND 0xc0 \<noteq> 0xc0" "msg ! i AND 0xc0 \<noteq> 0x80" "msg ! i AND 0xc0 = 0x40"
      "\<not> (msg ! i AND 0x3f \<noteq> 1)" unfolding elt by simp_all
    obtain nm cp' p' where b: "elt_body msg n (i + 1) name cp = Some (True, nm, cp', p')"
      and run': "extract_loop True msg n eb pp nm cp' p' p1 hops rv = Some (r, name', q)"
      using run "1.prems"(2) unfolding extract_loop_elt [OF i le elt] by (auto split: option.splits if_splits)
    obtain ds count where e: "count = (if msg ! (i + 1) = 0 then 256 else unat (msg ! (i + 1)))"
      "i + 1 + 1 + (count - 1) div 8 \<le> n"
      "those (map (bit_digit msg (i + 1 + 1)) [0..<(count - 1) div 4 + 1]) = Some ds"
      "cp + length (bits_text ds count) + 1 \<le> length name" "cp' < MAXDNAME"
      "nm = put_bytes name cp (bits_text ds count @ [46])" "cp' = cp + length (bits_text ds count) + 1"
      "p' = i + 1 + 1 + ((count - 1) div 4 + 1) div 2" "count \<le> 256"
      by (rule elt_body_ok [OF b])
    have nm: "MAXDNAME \<le> length nm" using e(4,6) "1.prems"(4) by simp
    obtain h ls e' f where r: "name_run True msg n p' h ls e' f"
      "list_all (list_all name_text_char) ls" "cp' + length (dotted ls) < MAXDNAME" "hops + h \<le> 255"
      "extract_finish True n eb pp (put_bytes nm cp' (dotted ls)) (cp' + length (dotted ls)) f
         (if p1 = None \<and> h = 0 then None else Some (case p1 of None \<Rightarrow> e' | Some q \<Rightarrow> q)) rv = Some (r, name', q)"
      using "1.hyps"(2) [OF cl pk t _ b refl refl refl] run' nm e(5) "1.prems" by auto
    have "name_run True msg n i h (bits_text ds count # ls) e' f"
      using i elt e(1-3) r(1) unfolding e(8) by (intro run_bits) (simp_all add: numeral_2_eq_2)
    moreover have "put_bytes nm cp' (dotted ls) = put_bytes name cp (dotted (bits_text ds count # ls))"
      using put_bytes_append [of cp "bits_text ds count @ [46]" "dotted ls" name] r(3) "1.prems"(4) e(6,7) by simp
    ultimately show ?thesis using r e(7) bits_text_chars [OF e(3,9)]
      by (intro exI [of _ h] exI [of _ "bits_text ds count # ls"] exI [of _ e'] exI [of _ f])
         (simp add: add.commute add.left_commute)
  next
    case label
    let ?l = "take (unat (msg ! i)) (drop (i + 1) msg)"
    have t: "msg ! i AND 0xc0 \<noteq> 0xc0" "msg ! i AND 0xc0 \<noteq> 0x80" "msg ! i AND 0xc0 \<noteq> 0x40"
      unfolding label_type_small(1) [OF label(2)] by simp_all
    have ok: "cp + unat (msg ! i) + 1 < MAXDNAME \<and> i + 1 + unat (msg ! i) \<le> n"
      using run "1.prems"(2) unfolding extract_loop_label [OF i le label] by (auto split: if_splits)
    obtain nm where b: "label_body True msg (i + 1) (unat (msg ! i)) name cp rv =
         Some (list_all name_text_char ?l, nm, if list_all name_text_char ?l then cp + unat (msg ! i) + 1 else cp, rv)"
      "list_all name_text_char ?l \<longrightarrow> nm = put_bytes name cp (?l @ [46])" "length nm = length name"
      using label_body_extract [of "i + 1" "unat (msg ! i)" msg cp name rv] ok "1.prems" by auto
    have c: "list_all name_text_char ?l"
      using run b(1) ok "1.prems"(2) unfolding extract_loop_label [OF i le label] by (auto split: if_splits)
    have b': "label_body True msg (i + 1) (unat (msg ! i)) name cp rv = Some (True, nm, cp + unat (msg ! i) + 1, rv)"
      using b(1) c by simp
    have run': "extract_loop True msg n eb pp nm (cp + unat (msg ! i) + 1) (i + 1 + unat (msg ! i)) p1 hops rv = Some (r, name', q)"
      using run ok b' unfolding extract_loop_label [OF i le label] by simp
    obtain h ls e f where r: "name_run True msg n (i + 1 + unat (msg ! i)) h ls e f"
      "list_all (list_all name_text_char) ls" "cp + unat (msg ! i) + 1 + length (dotted ls) < MAXDNAME" "hops + h \<le> 255"
      "extract_finish True n eb pp (put_bytes nm (cp + unat (msg ! i) + 1) (dotted ls))
         (cp + unat (msg ! i) + 1 + length (dotted ls)) f
         (if p1 = None \<and> h = 0 then None else Some (case p1 of None \<Rightarrow> e | Some q \<Rightarrow> q)) rv = Some (r, name', q)"
      using "1.hyps"(3) [OF cl pk label(1) t _ _ b' refl refl refl] run' b(3) ok "1.prems"
      by (auto simp: CHECK_LEN_def not_le)
    have "i + 1 + unat (msg ! i) \<le> length msg" using ok le by linarith
    then have len: "length ?l = unat (msg ! i)" by simp
    have "name_run True msg n i h (?l # ls) e f" using i label ok r(1) by (intro run_label) auto
    moreover have "put_bytes nm (cp + unat (msg ! i) + 1) (dotted ls) = put_bytes name cp (dotted (?l # ls))"
      using put_bytes_append [of cp "?l @ [46]" "dotted ls" name] r(3) "1.prems"(4) b(2) c len by simp
    ultimately show ?thesis using r c len
      by (intro exI [of _ h] exI [of _ "?l # ls"] exI [of _ e] exI [of _ f]) (simp add: add.commute add.left_commute)
  next
    case bad
    then show ?thesis using run "1.prems"(2) extract_loop_bad [OF i le bad(1,2), of True] by simp
  qed
qed

text \<open>The decoder as a whole.  The text of a name is its labels joined by dots.\<close>

definition name_string :: "bytes list \<Rightarrow> bytes" where
  "name_string ls = butlast (dotted ls)"

lemma length_name_string: "length (name_string ls) = length (dotted ls) - 1"
  by (simp add: name_string_def)

lemma dotted_name_string: "ls \<noteq> [] \<Longrightarrow> dotted ls = name_string ls @ [46]"
  by (cases ls rule: rev_cases) (simp_all add: name_string_def dotted_append butlast_append)

definition put_string :: "bytes \<Rightarrow> bytes \<Rightarrow> bytes" where
  "put_string name s = s @ 0 # drop (length s + 1) name"

lemma cstr_put_string: "0 \<notin> set s \<Longrightarrow> cstr (put_string name s) = Some s"
  by (simp add: put_string_def)

lemma name_text_char_nonzero: "\<not> name_text_char 0"
  by (simp add: name_text_char_def iscntrl_def)

lemma name_string_no_NUL: "list_all (list_all name_text_char) ls \<Longrightarrow> 0 \<notin> set (name_string ls)"
  unfolding name_string_def dotted_def
  by (auto simp: list_all_iff dest!: in_set_butlastD split: if_splits) (metis name_text_char_nonzero)

lemma extract_finish_text:
  assumes "length (dotted ls) < MAXDNAME" and "MAXDNAME \<le> length name" and "f + eb \<le> n"
    and "name0 = name[0 := 0]"
  shows "\<exists>name'. extract_finish True n eb pp (put_bytes name0 0 (dotted ls)) (length (dotted ls)) f p1 rv =
       Some (rv, name', case p1 of Some q \<Rightarrow> q | None \<Rightarrow> f) \<and> length name' = length name \<and>
       take (length (name_string ls) + 1) name' = name_string ls @ [0]"
proof (cases "ls = []")
  case True
  then show ?thesis using assms by (cases name) (auto simp: extract_finish_def CHECK_LEN_def Let_def name_string_def)
next
  case False
  let ?s = "name_string ls"
  have d: "dotted ls = ?s @ [46]" by (rule dotted_name_string [OF False])
  have "poke (put_bytes name0 0 (dotted ls)) (length ?s) 0 = Some (?s @ 0 # drop (length ?s + 1) name0)"
    using assms(1,2,4) unfolding d by (simp add: put_bytes_def poke_def)
  then show ?thesis using assms d by (simp add: extract_finish_def CHECK_LEN_def Let_def)
qed

lemma extract_name_run:
  assumes "name_run False msg pklen pp h ls e f" and "pklen \<le> length msg" and "MAXDNAME \<le> length name"
    and "list_all (list_all name_text_char) ls" and "length (dotted ls) < MAXDNAME" and "h \<le> 255"
    and "f + extrabytes \<le> pklen"
  shows "\<exists>name'. extract_name msg pklen pp name True extrabytes = Some (1, name', e) \<and>
     cstr name' = Some (name_string ls) \<and> length name' = length name"
proof -
  have "name \<noteq> []" using assms(3) by (auto simp: MAXDNAME_def)
  then have p0: "poke name 0 0 = Some (name[0 := 0])" by simp
  have fe: "h = 0 \<Longrightarrow> f = e" using assms(1) by (induction rule: name_run.induct) auto
  obtain name' where n: "extract_finish True pklen extrabytes pp (put_bytes (name[0 := 0]) 0 (dotted ls)) (length (dotted ls)) f
       (if h = 0 then None else Some e) 1 = Some (1, name', e)"
    "take (length (name_string ls) + 1) name' = name_string ls @ [0]" "length name' = length name"
    using extract_finish_text [OF assms(5,3,7) refl, of pp "if h = 0 then None else Some e" 1] fe by auto
  have "cstr name' = Some (name_string ls)"
    using cstr_append_NUL [OF name_string_no_NUL [OF assms(4)], of "drop (length (name_string ls) + 1) name'"] n(2)
    by (metis append_Cons append_Nil append_assoc append_take_drop_id)
  moreover have "extract_name msg pklen pp name True extrabytes = Some (1, name', e)"
    using extract_loop_complete [OF assms(1,2), of "name[0 := 0]" 0 0 extrabytes pp None 1] assms n(1) p0
    by (cases "h = 0") (simp_all add: extract_name_def)
  ultimately show ?thesis using n(3) by blast
qed

text \<open>C12. \<open>extract_name\<close> decodes every well-formed name of RFC 1035: if a name with printable
  labels and fewer than \<open>MAXDNAME\<close> characters stands at \<open>pp\<close>, with at most 255 compression
  pointers on the way and the demanded extra bytes behind the end of the chain, then the call
  returns 1, moves \<open>*pp\<close> behind the name (behind the first pointer, if there is one) and
  leaves the dotted text, NUL-terminated, in the buffer.\<close>

theorem extract_name_decodes:
  assumes "name_run False msg pklen pp h ls e f" and "pklen \<le> length msg" and "MAXDNAME \<le> length name"
    and "list_all (list_all name_text_char) ls" and "length (dotted ls) < MAXDNAME" and "h \<le> 255"
    and "f + extrabytes \<le> pklen"
  shows "\<exists>name'. extract_name msg pklen pp name True extrabytes = Some (1, name', e) \<and>
     cstr name' = Some (name_string ls) \<and> name_at msg pklen pp h ls e"
  using extract_name_run [OF assms] name_run_at [OF assms(1)] by blast

lemma name_run_example: "name_run False example_query 24 12 0 [[119, 87, 119], [97, 98]] 20 20"
proof -
  have "name_run False example_query 24 19 0 [] 20 20"
    using run_root [of 19 24 example_query] by (simp add: example_query_def)
  then have "name_run False example_query 24 16 0 [[97, 98]] 20 20"
    using run_label [of 16 24 example_query False 0 "[]" 20 20] by (simp add: example_query_def)
  then show ?thesis
    using run_label [of 12 24 example_query False 0 "[[97, 98]]" 20 20] by (simp add: example_query_def)
qed

theorem extract_name_decodes_witness:
  "\<exists>name'. extract_name example_query 24 12 (replicate 1025 0) True 4 = Some (1, name', 20) \<and>
     cstr name' = Some [119, 87, 119, 46, 97, 98]"
  using extract_name_decodes [OF name_run_example, of "replicate 1025 0" 4]
  by (auto simp: MAXDNAME_def example_query_def name_text_char_def isascii_def iscntrl_def name_string_def)

lemma extract_name_total:
  assumes "pklen < length msg" and "MAXDNAME \<le> length name"
  shows "\<exists>r name' q. extract_name msg pklen pp name True extrabytes = Some (r, name', q) \<and>
     length name' = length name \<and>
     (r \<noteq> 0 \<longrightarrow> r = 1 \<and> pp < q \<and> q \<le> pklen \<and>
        (\<exists>h ls f. name_run True msg pklen pp h ls q f \<and> h \<le> 255 \<and> f + extrabytes \<le> pklen \<and>
           list_all (list_all name_text_char) ls \<and> length (dotted ls) < MAXDNAME \<and>
           cstr name' = Some (name_string ls)))"
proof -
  have "name \<noteq> []" using assms(2) by (auto simp: MAXDNAME_def)
  then have p0: "poke name 0 0 = Some (name[0 := 0])" by simp
  obtain r name' q where run: "extract_loop True msg pklen extrabytes pp (name[0 := 0]) 0 pp None 0 1 = Some (r, name', q)"
    "length name' = length name"
    using extract_loop_safe [OF assms(1), of "name[0 := 0]" 0 extrabytes pp pp None 0 1] assms(2) by (auto simp: MAXDNAME_def)
  have "r = 1 \<and> pp < q \<and> q \<le> pklen \<and>
        (\<exists>h ls f. name_run True msg pklen pp h ls q f \<and> h \<le> 255 \<and> f + extrabytes \<le> pklen \<and>
           list_all (list_all name_text_char) ls \<and> length (dotted ls) < MAXDNAME \<and>
           cstr name' = Some (name_string ls))" if r: "r \<noteq> 0"
  proof -
    obtain h ls e f where w: "name_run True msg pklen pp h ls e f" "list_all (list_all name_text_char) ls"
        "length (dotted ls) < MAXDNAME" "h \<le> 255"
      and fin: "extract_finish True pklen extrabytes pp (put_bytes (name[0 := 0]) 0 (dotted ls)) (length (dotted ls)) f
         (if h = 0 then None else Some e) 1 = Some (r, name', q)"
      using extract_loop_sound [OF run(1) r] assms by (auto simp: MAXDNAME_def cong: if_cong)
    have fe: "h = 0 \<Longrightarrow> f = e" using w(1) by (induction rule: name_run.induct) auto
    have room: "f + extrabytes \<le> pklen"
      using fin r by (auto simp: extract_finish_def CHECK_LEN_def split: if_splits)
    obtain name'' where n: "extract_finish True pklen extrabytes pp (put_bytes (name[0 := 0]) 0 (dotted ls)) (length (dotted ls)) f
         (if h = 0 then None else Some e) 1 = Some (1, name'', e)"
      "take (length (name_string ls) + 1) name'' = name_string ls @ [0]"
      using extract_finish_text [OF w(3) assms(2) room refl, of pp "if h = 0 then None else Some e" 1] fe by auto
    have eq: "r = 1" "name'' = name'" "q = e" using fin n(1) by auto
    have "cstr name' = Some (name_string ls)"
      using cstr_append_NUL [OF name_string_no_NUL [OF w(2)], of "drop (length (name_string ls) + 1) name'"] n(2) eq(2)
      by (metis append_Cons append_Nil append_assoc append_take_drop_id)
    then show ?thesis using w eq room name_run_end [OF w(1)] by blast
  qed
  then show ?thesis using run p0 by (auto simp: extract_name_def)
qed

text \<open>C11. Whatever the packet holds, \<open>extract_name\<close> in decoding mode terminates and stays
  inside a text buffer of \<open>MAXDNAME\<close> bytes and a packet buffer with one byte behind the
  packet.  When it returns success, the text is the dotted form of the labels that stand in the
  packet, printable and shorter than \<open>MAXDNAME\<close>, reached over at most 255 pointers, and
  \<open>*pp\<close> is the index behind the name.\<close>

theorem extract_name_sound:
  assumes "pklen < length msg" and "MAXDNAME \<le> length name"
  shows "\<exists>r name' q. extract_name msg pklen pp name True extrabytes = Some (r, name', q) \<and>
     length name' = length name \<and>
     (r \<noteq> 0 \<longrightarrow> r = 1 \<and> pp < q \<and> q \<le> pklen \<and>
        (\<exists>h ls f. name_run True msg pklen pp h ls q f \<and> h \<le> 255 \<and> f + extrabytes \<le> pklen \<and>
           list_all (list_all name_text_char) ls \<and> length (dotted ls) < MAXDNAME \<and>
           cstr name' = Some (name_string ls)))"
  using extract_name_total [OF assms] .

theorem extract_name_sound_witness:
  "\<exists>r name' q. extract_name (example_query @ [0]) 26 24 (replicate 1025 0) True 0 = Some (r, name', q) \<and>
     length name' = 1025"
  using extract_name_sound [of 26 "example_query @ [0]" "replicate 1025 0" 24 0]
  by (auto simp: MAXDNAME_def example_query_def)

subsection \<open>Comparing is decoding and comparing\<close>

text \<open>\<open>match_labels ls u\<close>: the rest \<open>u\<close> of the text agrees with the labels.\<close>

fun match_labels :: "bytes list \<Rightarrow> bytes \<Rightarrow> bool" where
  "match_labels [] u = (u = [])"
| "match_labels (l # ls) u =
     (length l \<le> length u \<and> strcaseeq (take (length l) u) l \<and>
      (case drop (length l) u of [] \<Rightarrow> match_labels ls [] | c # v \<Rightarrow> c = 46 \<and> match_labels ls v))"

lemma match_labels_text:
  assumes "\<forall>l \<in> set ls. l \<noteq> []"
  shows "match_labels ls u \<longleftrightarrow> strcaseeq u (name_string ls) \<or> (ls \<noteq> [] \<and> strcaseeq u (dotted ls))"
  using assms
proof (induction ls arbitrary: u)
  case (Cons l ls)
  have t46: "tolower 46 = 46" "tolower c = 46 \<longleftrightarrow> c = 46" for c
    by (simp_all add: tolower_def isupper_def) (auto simp: tolower_def isupper_def word_le_nat_alt word_unat_eq_iff unat_word_ariths)
  let ?X = "map tolower (take (length l) u) = map tolower l"
  have l: "length l \<le> length u \<and> strcaseeq (take (length l) u) l \<longleftrightarrow> ?X"
    by (auto simp: strcaseeq_def dest: arg_cong [where f = length])
  have A: "strcaseeq u (l @ w) \<longleftrightarrow> ?X \<and> strcaseeq (drop (length l) u) w" for w
  proof
    assume "strcaseeq u (l @ w)"
    then have "take (length l) (map tolower u) = map tolower l" "drop (length l) (map tolower u) = map tolower w"
      by (simp_all add: strcaseeq_def)
    then show "?X \<and> strcaseeq (drop (length l) u) w" by (simp add: take_map drop_map strcaseeq_def)
  next
    assume "?X \<and> strcaseeq (drop (length l) u) w"
    then show "strcaseeq u (l @ w)" unfolding strcaseeq_def by (metis append_take_drop_id map_append)
  qed
  have n: "name_string (l # ls) = l @ (if ls = [] then [] else 46 # name_string ls)"
    by (simp add: name_string_def butlast_append)
  have m: "match_labels (l # ls) u \<longleftrightarrow> ?X \<and> (case drop (length l) u of [] \<Rightarrow> match_labels ls [] | c # v \<Rightarrow> c = 46 \<and> match_labels ls v)"
    using l by auto
  have goal: "(case drop (length l) u of [] \<Rightarrow> match_labels ls [] | c # v \<Rightarrow> c = 46 \<and> match_labels ls v) \<longleftrightarrow>
      strcaseeq (drop (length l) u) (if ls = [] then [] else 46 # name_string ls) \<or>
      strcaseeq (drop (length l) u) (46 # dotted ls)"
  proof (cases "drop (length l) u")
    case Nil
    have "match_labels ls [] \<longleftrightarrow> ls = []" using Cons.prems by (cases ls) auto
    then show ?thesis using Nil by (simp add: strcaseeq_def)
  next
    case (Cons c v)
    have "match_labels ls v \<longleftrightarrow> strcaseeq v (name_string ls) \<or> (ls \<noteq> [] \<and> strcaseeq v (dotted ls))"
      using Cons.IH Cons.prems by simp
    then show ?thesis using Cons by (cases "ls = []") (auto simp: strcaseeq_def t46 name_string_def)
  qed
  show ?case unfolding m goal n dotted_simps A by auto
qed (simp add: strcaseeq_def name_string_def)

lemma cstr_drop_Cons:
  assumes "cstr (drop cp name) = Some (x # u)"
  shows "cp < length name" "name ! cp = x" "x \<noteq> 0" "cstr (drop (cp + 1) name) = Some u"
proof -
  obtain r where r: "drop cp name = x # u @ 0 # r" using cstr_decomp [OF assms] by auto
  show "cp < length name" using r by (metis drop_all list.distinct(1) not_le)
  show "name ! cp = x" using r by (metis \<open>cp < length name\<close> hd_drop_conv_nth list.sel(1))
  show "x \<noteq> 0" using cstr_no_NUL [OF assms] by auto
  have "drop (cp + 1) name = u @ 0 # r" using arg_cong [OF r, of tl] by (simp add: drop_Suc tl_drop)
  then show "cstr (drop (cp + 1) name) = Some u" using cstr_no_NUL [OF assms] by simp
qed

lemma cstr_drop_Nil:
  assumes "cstr (drop cp name) = Some []"
  shows "cp < length name" "name ! cp = 0"
proof -
  obtain r where r: "drop cp name = 0 # r" using cstr_decomp [OF assms] by auto
  show "cp < length name" using r by (metis drop_all list.distinct(1) not_le)
  then show "name ! cp = 0" using r by (metis hd_drop_conv_nth list.sel(1))
qed

lemma compare_chars_spec:
  assumes "p + n \<le> length msg" and "cstr (drop cp name) = Some u"
  shows "compare_chars msg name p n cp rv = Some (cp + min n (length u),
     if n \<le> length u \<and> strcaseeq (take n u) (take n (drop p msg)) then rv else 2) \<and>
     cstr (drop (cp + min n (length u)) name) = Some (drop n u)"
  using assms
proof (induction n arbitrary: p cp rv u)
  case 0
  then show ?case by (simp add: strcaseeq_def)
next
  case (Suc n)
  have rd: "peek msg p = Some (msg ! p)" using Suc.prems(1) by simp
  have tk: "take (Suc n) (drop p msg) = msg ! p # take n (drop (p + 1) msg)"
    using Suc.prems(1) by (simp add: Cons_nth_drop_Suc [symmetric])
  show ?case
  proof (cases u)
    case Nil
    then show ?thesis
      using Suc.IH [of "p + 1" cp u 2] Suc.prems rd cstr_drop_Nil [of cp name] by simp
  next
    case (Cons x u')
    note c = cstr_drop_Cons [OF Suc.prems(2) [unfolded Cons]]
    show ?thesis
      using Suc.IH [of "p + 1" "cp + 1" u' "if tolower x \<noteq> tolower (msg ! p) then 2 else rv"] Suc.prems(1) rd c Cons tk
      by (auto simp: strcaseeq_def)
  qed
qed

lemma label_body_compare:
  assumes "p + n \<le> length msg" and "cstr (drop cp name) = Some u"
  shows "\<exists>cp'. label_body False msg p n name cp rv = Some (True, name, cp',
       if n \<le> length u \<and> strcaseeq (take n u) (take n (drop p msg)) \<and> (drop n u = [] \<or> hd (drop n u) = 46) then rv else 2) \<and>
     cstr (drop cp' name) = Some (tl (drop n u)) \<and> cp' + length (tl (drop n u)) \<le> cp + length u"
proof -
  let ?cp = "cp + min n (length u)"
  note c = compare_chars_spec [OF assms, of rv]
  show ?thesis
  proof (cases "drop n u")
    case Nil
    then show ?thesis using c cstr_drop_Nil [of ?cp name] by (intro exI [of _ ?cp]) (simp add: label_body_def)
  next
    case (Cons x v)
    have "cstr (drop ?cp name) = Some (x # v)" using c Cons by simp
    note d = cstr_drop_Cons [OF this]
    have "length u = n + 1 + length v" using arg_cong [OF Cons, of length] by (simp del: length_0_conv)
    then show ?thesis using c Cons d by (intro exI [of _ "?cp + 1"]) (auto simp: label_body_def)
  qed
qed

lemma match_labels_step:
  assumes "l \<noteq> []" and "\<forall>k \<in> set ls. k \<noteq> []"
  shows "match_labels (l # ls) u \<longleftrightarrow> length l \<le> length u \<and> strcaseeq (take (length l) u) l \<and>
     (drop (length l) u = [] \<or> hd (drop (length l) u) = 46) \<and> match_labels ls (tl (drop (length l) u))"
  by (cases "drop (length l) u") auto

lemma name_run_nonempty_labels: "name_run False msg n i h ls e f \<Longrightarrow> n \<le> length msg \<Longrightarrow> \<forall>l \<in> set ls. l \<noteq> []"
proof (induction rule: name_run.induct)
  case (run_label i h ls e f)
  then have "0 < unat (msg ! i)" by (simp add: unat_gt_0)
  then show ?case using run_label by auto
qed auto

lemma extract_loop_compare:
  assumes "name_run False msg n i h ls e f" and "n \<le> length msg"
    and "cstr (drop cp name) = Some u" and "cp + length u + 64 < MAXDNAME" and "hops + h \<le> 255"
    and "rv = 1 \<or> rv = 2" and "f + eb \<le> n"
  shows "extract_loop False msg n eb pp name cp i p1 hops rv =
     Some (if rv = 1 \<and> match_labels ls u then 1 else 2, name, case p1 of None \<Rightarrow> e | Some q \<Rightarrow> q)"
  using assms
proof (induction arbitrary: cp u p1 hops rv rule: name_run.induct)
  case (run_root i)
  have "cp < length name" using cstr_length [OF run_root.prems(2)] by simp
  moreover have "name ! cp = 0 \<longleftrightarrow> u = []"
    using cstr_drop_Nil [of cp name] cstr_drop_Cons [of cp name] run_root.prems(2) by (cases u) auto
  ultimately show ?case using run_root
    by (cases p1) (auto simp: extract_loop_root extract_finish_def CHECK_LEN_def Let_def)
next
  case (run_label i h ls e f)
  let ?n = "unat (msg ! i)"
  let ?l = "take ?n (drop (i + 1) msg)"
  have len: "length ?l = ?n" using run_label by simp
  have ne: "?l \<noteq> []" "\<forall>k \<in> set ls. k \<noteq> []"
    using name_run_nonempty_labels [OF name_run.run_label [OF run_label.hyps]] run_label.prems(1) by auto
  have fit: "cp + ?n + 1 < MAXDNAME \<and> i + 1 + ?n \<le> n"
    using run_label.prems(3) run_label.hyps(4) label_small_bound [OF run_label.hyps(3)] by simp
  have "i + 1 + ?n \<le> length msg" using fit run_label.prems(1) by linarith
  then obtain cp' where b: "label_body False msg (i + 1) ?n name cp rv = Some (True, name, cp',
       if ?n \<le> length u \<and> strcaseeq (take ?n u) ?l \<and> (drop ?n u = [] \<or> hd (drop ?n u) = 46) then rv else 2)"
     "cstr (drop cp' name) = Some (tl (drop ?n u))" "cp' + length (tl (drop ?n u)) \<le> cp + length u"
    using label_body_compare [of "i + 1" ?n msg cp name u rv] run_label.prems(2) by blast
  define rv' where "rv' = (if ?n \<le> length u \<and> strcaseeq (take ?n u) ?l \<and> (drop ?n u = [] \<or> hd (drop ?n u) = 46) then rv else 2)"
  have "extract_loop False msg n eb pp name cp i p1 hops rv =
      extract_loop False msg n eb pp name cp' (i + 1 + ?n) p1 hops rv'"
    unfolding extract_loop_label [OF run_label.hyps(1) run_label.prems(1) run_label.hyps(2,3)] if_P [OF fit] b(1)
    by (simp add: rv'_def)
  also have "\<dots> = Some (if rv' = 1 \<and> match_labels ls (tl (drop ?n u)) then 1 else 2, name, case p1 of None \<Rightarrow> e | Some q \<Rightarrow> q)"
    using run_label.prems b(3) by (intro run_label.IH b(2)) (auto simp: rv'_def)
  finally show ?case unfolding match_labels_step [OF ne] len rv'_def by auto
next
  case (run_ptr i h ls e f)
  have ok: "i + 1 < n \<and> hops < 255" and i: "i < n" using run_ptr by simp_all
  show ?case
    unfolding extract_loop_ptr [OF i run_ptr.prems(1) run_ptr.hyps(2)] if_P [OF ok]
    using run_ptr.IH [OF run_ptr.prems(1-3), of "hops + 1"] run_ptr.prems(4-) by (cases p1) auto
qed simp

text \<open>Comparing mode agrees with decoding and comparing: on a well-formed name in the
  packet and a text of at most 960 characters, \<open>extract_name\<close> with \<open>isExtract\<close> 0 returns 1
  exactly when the text equals the decoded name up to case, with or without a final dot, and 2
  otherwise; it moves \<open>*pp\<close> behind the name and leaves the text alone.\<close>

theorem extract_name_compares:
  assumes "name_run False msg pklen pp h ls e f" and "pklen \<le> length msg" and "h \<le> 255"
    and "f + extrabytes \<le> pklen" and "cstr name = Some s" and "length s \<le> 960"
  shows "extract_name msg pklen pp name False extrabytes =
     Some (if strcaseeq s (name_string ls) \<or> (ls \<noteq> [] \<and> strcaseeq s (name_string ls @ [46])) then 1 else 2, name, e)"
proof -
  have "match_labels ls s \<longleftrightarrow> strcaseeq s (name_string ls) \<or> (ls \<noteq> [] \<and> strcaseeq s (name_string ls @ [46]))"
    using match_labels_text [OF name_run_nonempty_labels [OF assms(1,2)], of s] dotted_name_string [of ls] by auto
  then show ?thesis
    using extract_loop_compare [OF assms(1,2), of 0 name s 0 1 extrabytes pp None] assms(3-)
    by (simp add: extract_name_def MAXDNAME_def)
qed

theorem extract_name_compares_witness:
  "extract_name example_query 24 12 (bytes_of ''www.AB'' @ [0]) False 4 = Some (1, bytes_of ''www.AB'' @ [0], 20)"
proof -
  have "strcaseeq (bytes_of ''www.AB'') (name_string [[119, 87, 119], [97, 98]])" by code_simp
  then show ?thesis
    using extract_name_compares [OF name_run_example, of 4 "bytes_of ''www.AB'' @ [0]" "bytes_of ''www.AB''"]
    by (simp add: example_query_def bytes_of_def cstr_def)
qed

subsection \<open>skip_name finds the same end\<close>

lemma skip_name_run:
  assumes "name_run False msg n i h ls e f" and "n \<le> length msg"
  shows "skip_name msg i n eb = Some (if e + eb \<le> n then Some e else None)"
  using assms
proof (induction rule: name_run.induct)
  case (run_root i)
  then show ?case by (subst skip_name.simps) (simp add: CHECK_LEN_def)
next
  case (run_label i h ls e f)
  have "skip_name msg i n eb = skip_name msg (i + 1 + unat (msg ! i)) n eb"
    using run_label.hyps run_label.prems label_type_small [OF run_label.hyps(3)]
    by (subst skip_name.simps) (simp add: CHECK_LEN_def unat_eq_zero)
  then show ?case using run_label by simp
next
  case (run_ptr i h ls e f)
  then show ?case by (subst skip_name.simps) (simp add: CHECK_LEN_def is_ptr_def)
qed simp

lemma skip_name_safe:
  "n \<le> length msg \<Longrightarrow> \<exists>r. skip_name msg i n eb = Some r \<and> (\<forall>e. r = Some e \<longrightarrow> i < e \<and> e + eb \<le> n)"
proof (induction msg i n eb rule: skip_name.induct)
  case (1 msg i n eb)
  show ?case
  proof (cases "i < n")
    case False
    then show ?thesis by (subst skip_name.simps) (simp add: CHECK_LEN_def)
  next
    case True
    then have pk: "peek msg i = Some (msg ! i)" "\<not> \<not> CHECK_LEN i n 1" using "1.prems" by (simp_all add: CHECK_LEN_def)
    consider "msg ! i AND 0xc0 = 0xc0" | "msg ! i AND 0xc0 = 0x80" | (elt) "msg ! i AND 0xc0 = 0x40"
      | (lab) "msg ! i AND 0xc0 = 0"
      using label_type_facts [of "msg ! i"] by blast
    then show ?thesis
    proof cases
      case elt
      show ?thesis
      proof (cases "i + 2 \<le> n \<and> msg ! i AND 0x3f = 1")
        case ok: True
        then have pk1: "peek msg (i + 1) = Some (msg ! (i + 1))" using "1.prems" by simp
        have "\<exists>r. skip_name msg (i + 2 + (if msg ! (i + 1) = 0 then 32 else (unat (msg ! (i + 1)) - 1) div 8 + 1)) n eb = Some r \<and>
           (\<forall>e. r = Some e \<longrightarrow> i + 2 + (if msg ! (i + 1) = 0 then 32 else (unat (msg ! (i + 1)) - 1) div 8 + 1) < e \<and> e + eb \<le> n)"
          using "1.IH"(1) [OF pk(2,1) _ _ elt _ _ pk1] elt ok "1.prems" by (simp add: CHECK_LEN_def)
        moreover have "skip_name msg i n eb = skip_name msg (i + 2 + (if msg ! (i + 1) = 0 then 32 else (unat (msg ! (i + 1)) - 1) div 8 + 1)) n eb"
          using pk pk1 elt ok by (subst skip_name.simps) (simp add: CHECK_LEN_def)
        ultimately show ?thesis by (auto split: if_splits)
      next
        case no: False
        then show ?thesis using pk elt by (subst skip_name.simps) (auto simp: CHECK_LEN_def)
      qed
    next
      case lab
      let ?l = "unat (msg ! i AND 0x3f)"
      show ?thesis
      proof (cases "i + 1 + ?l \<le> n \<and> ?l \<noteq> 0")
        case ok: True
        have "\<exists>r. skip_name msg (i + 1 + ?l) n eb = Some r \<and> (\<forall>e. r = Some e \<longrightarrow> i + 1 + ?l < e \<and> e + eb \<le> n)"
          using "1.IH"(2) [OF pk(2,1) _ _ _ refl] lab ok "1.prems" by (simp add: CHECK_LEN_def)
        moreover have "skip_name msg i n eb = skip_name msg (i + 1 + ?l) n eb"
          using pk lab ok by (subst skip_name.simps) (simp add: CHECK_LEN_def Let_def)
        ultimately show ?thesis by (auto split: if_splits)
      next
        case no: False
        then show ?thesis using pk lab by (subst skip_name.simps) (auto simp: CHECK_LEN_def Let_def)
      qed
    qed (use pk in \<open>subst skip_name.simps, simp add: CHECK_LEN_def\<close>)+
  qed
qed

subsection \<open>Writing and reading back\<close>

lemma nth_via_drop: "drop i m = x # xs \<Longrightarrow> m ! i = x \<and> i < length m"
  by (metis drop_all hd_drop_conv_nth list.distinct(1) list.sel(1) not_le)

lemma encoded_name_run:
  assumes "drop i msg = encode_labels ls @ 0 # r" and "\<forall>l \<in> set ls. l \<noteq> [] \<and> length l \<le> 63"
    and "i + length (encode_labels ls) + 1 \<le> n"
  shows "name_run b msg n i 0 ls (i + length (encode_labels ls) + 1) (i + length (encode_labels ls) + 1)"
  using assms
proof (induction ls arbitrary: i)
  case Nil
  then show ?case using nth_via_drop [of i msg 0 r] run_root [of i n msg b] by (simp add: encode_labels_def)
next
  case (Cons l ls)
  have d: "drop i msg = of_nat (length l) # l @ encode_labels ls @ 0 # r"
    using Cons.prems(1) by (simp add: encode_labels_def)
  have m: "msg ! i = of_nat (length l)" using nth_via_drop [OF d] by simp
  have u: "unat (of_nat (length l) :: byte) = length l"
    using Cons.prems(2) by (simp add: unat_of_nat)
  have d1: "drop (i + 1) msg = l @ encode_labels ls @ 0 # r" using arg_cong [OF d, of tl] by (simp add: drop_Suc tl_drop)
  then have d2: "drop (i + 1 + length l) msg = encode_labels ls @ 0 # r"
    by (metis add.commute append_eq_conv_conj drop_drop)
  have len: "length (encode_labels (l # ls)) = 1 + length l + length (encode_labels ls)" by (simp add: encode_labels_def)
  have nz: "msg ! i \<noteq> 0" using m u Cons.prems(2) by (metis length_0_conv list.set_intros(1) unat_0)
  have sm: "msg ! i < 64" using m u Cons.prems(2) by (simp add: word_less_nat_alt)
  have "name_run b msg n (i + 1 + length l) 0 ls (i + 1 + length l + length (encode_labels ls) + 1) (i + 1 + length l + length (encode_labels ls) + 1)"
    using Cons.prems(2,3) len by (intro Cons.IH d2) auto
  moreover have "take (unat (msg ! i)) (drop (i + 1) msg) = l" using d1 m u by simp
  ultimately show ?case
    using run_label [of i n msg b 0 ls] nz sm m u Cons.prems(3) len by (simp add: add.assoc)
qed

lemma split_dots_chars: "\<forall>l \<in> set (split_dots s). \<forall>c \<in> set l. c \<in> set s \<and> c \<noteq> 46"
  by (induction s) (auto split: list.splits if_splits)

lemma dotted_split_dots: "dotted (split_dots s) = s @ [46]"
  by (induction s) (auto split: list.split)

lemma name_string_split_dots: "name_string (split_dots s) = s"
  by (simp add: name_string_def dotted_split_dots)

text \<open>Round trip: a name of at most 1023 characters that \<open>check_name\<close> accepts and that has no empty label, written
  into a packet with \<open>do_rfc1035_name\<close> and a terminating zero byte, is read back unchanged by
  \<open>extract_name\<close>, which stops right behind it; \<open>skip_name\<close> stops there too.\<close>

theorem name_wire_roundtrip:
  assumes "check_name s0 = (True, s)" and "[] \<notin> set (split_dots s)" and "length s + 1 < MAXDNAME"
    and "p + length s + 2 \<le> pklen" and "pklen \<le> length m" and "MAXDNAME \<le> length name"
  shows "\<exists>m' name'. do_rfc1035_name m p s = Some (m', p + length s + 1) \<and>
     extract_name (m'[p + length s + 1 := 0]) pklen p name True 0 = Some (1, name', p + length s + 2) \<and>
     cstr name' = Some s \<and> skip_name (m'[p + length s + 1 := 0]) p pklen 0 = Some (Some (p + length s + 2))"
proof -
  let ?ls = "split_dots s"
  have w: "wire_labels s = ?ls" by (metis assms(2) last_in_set split_dots_nonempty wire_labels_def)
  have lab: "\<forall>l \<in> set ?ls. l \<noteq> [] \<and> length l \<le> 63"
    using check_name_labels(4) [OF assms(1)] assms(2) by (auto simp: MAXLABEL_def)
  have "length (encode_labels ls) = length (dotted ls)" for ls
    by (induction ls) (simp_all add: encode_labels_def)
  then have len: "length (encode_labels ?ls) = length s + 1" by (simp add: dotted_split_dots)
  define m' where "m' = put_bytes m p (encode_labels ?ls)"
  have fit: "p + length (encode_labels ?ls) \<le> length m" "p + length s + 2 \<le> length m" using assms(4,5) len by simp_all
  have wr: "do_rfc1035_name m p s = Some (m', p + length s + 1)"
    using do_rfc1035_name_writes [of p s m] fit(1) w len by (simp add: m'_def)
  have d: "drop p (m'[p + length s + 1 := 0]) = encode_labels ?ls @ 0 # drop (p + length s + 2) m"
    using fit len
    by (simp add: m'_def put_bytes_def drop_update_swap list_update_append Cons_nth_drop_Suc [symmetric])
  have run: "name_run False (m'[p + length s + 1 := 0]) pklen p 0 ?ls (p + length s + 2) (p + length s + 2)"
    using encoded_name_run [OF d lab, of pklen False] assms(4) len by simp
  have l': "pklen \<le> length (m'[p + length s + 1 := 0])" using assms(5) fit by (simp add: m'_def)
  have ch: "list_all (list_all name_text_char) ?ls"
    using split_dots_chars [of s] check_name_labels(3) [OF assms(1)]
    by (fastforce simp: list_all_iff name_text_char_def name_char_def)
  have dl: "length (dotted ?ls) < MAXDNAME" using assms(3) by (simp add: dotted_split_dots)
  have "name \<noteq> []" using assms(6) by (auto simp: MAXDNAME_def)
  then have p0: "poke name 0 0 = Some (name[0 := 0])" by simp
  have room: "p + length s + 2 + 0 \<le> pklen" using assms(4) by simp
  obtain name' where n: "extract_finish True pklen 0 p (put_bytes (name[0 := 0]) 0 (dotted ?ls)) (length (dotted ?ls))
      (p + length s + 2) None 1 = Some (1, name', p + length s + 2)"
    "take (length s + 1) name' = s @ [0]"
    using extract_finish_text [OF dl assms(6) room refl, of p None 1] by (auto simp: name_string_split_dots)
  have "cstr name' = Some s"
    using cstr_append_NUL [OF name_string_no_NUL [OF ch], of "drop (length s + 1) name'"] n(2)
    unfolding name_string_split_dots by (metis append_Cons append_Nil append_assoc append_take_drop_id)
  moreover have "extract_name (m'[p + length s + 1 := 0]) pklen p name True 0 = Some (1, name', p + length s + 2)"
    using extract_loop_complete [OF run l', of "name[0 := 0]" 0 0 0 p None 1] assms(6) ch dl n(1) p0
    by (simp add: extract_name_def)
  moreover have "skip_name (m'[p + length s + 1 := 0]) p pklen 0 = Some (Some (p + length s + 2))"
    using skip_name_run [OF run l', of 0] room by simp
  ultimately show ?thesis using wr by blast
qed

theorem name_wire_roundtrip_witness:
  "\<exists>m' name'. do_rfc1035_name (replicate 10 7) 2 (bytes_of ''ab.c'') = Some (m', 7) \<and>
     extract_name (m'[7 := 0]) 10 2 (replicate 1025 0) True 0 = Some (1, name', 8) \<and> cstr name' = Some (bytes_of ''ab.c'')"
proof -
  have "check_name (bytes_of ''ab.c.'') = (True, bytes_of ''ab.c'')" "[] \<notin> set (split_dots (bytes_of ''ab.c''))"
    by code_simp+
  from name_wire_roundtrip [OF this, of 2 10 "replicate 10 7" "replicate 1025 0"] show ?thesis
    by (auto simp: MAXDNAME_def bytes_of_def)
qed

subsection \<open>Reverse lookup names\<close>

text \<open>The decimal text of an octet reads back.\<close>

lemma decimal_octet:
  fixes b :: byte
  shows "list_all isdigit (decimal (unat b))" "word_of_int (atoi (decimal (unat b))) = b"
proof -
  have "list_all isdigit (decimal (unat b)) \<and> word_of_int (atoi (decimal (unat b))) = b"
    by (rule byte_all [where P = "\<lambda>b. list_all isdigit (decimal (unat b)) \<and> word_of_int (atoi (decimal (unat b))) = b"])
       code_simp
  then show "list_all isdigit (decimal (unat b))" "word_of_int (atoi (decimal (unat b))) = b" by blast+
qed

lemma arpa_octets_decimal:
  "length addr = 4 \<Longrightarrow> length bs \<le> 4 \<Longrightarrow>
   arpa_octets (map (\<lambda>b. decimal (unat b)) bs) addr = (True, rev bs @ take (4 - length bs) addr)"
proof (induction bs arbitrary: addr)
  case (Cons b bs)
  have "4 - length bs = Suc (3 - length bs)" using Cons.prems by simp
  then have "take (4 - length bs) (b # butlast addr) = b # take (4 - length (b # bs)) addr"
    using Cons.prems by (simp add: take_butlast)
  then show ?case using Cons by (simp add: decimal_octet)
qed simp

definition arpa_name :: "bytes \<Rightarrow> bytes" where
  "arpa_name octets = name_string (map (\<lambda>b. decimal (unat b)) (rev octets) @ [bytes_of ''in-addr'', bytes_of ''arpa''])"

lemma split_dots_label:
  "46 \<notin> set l \<Longrightarrow> split_dots (l @ 46 # s) = l # split_dots s" "46 \<notin> set l \<Longrightarrow> split_dots l = [l]"
  by (induction l) auto

lemma split_dots_name_string:
  "ls \<noteq> [] \<Longrightarrow> \<forall>l \<in> set ls. 46 \<notin> set l \<Longrightarrow> split_dots (name_string ls) = ls"
proof (induction ls)
  case (Cons l ls)
  then show ?case
    by (cases "ls = []") (simp_all add: name_string_def butlast_append split_dots_label)
qed simp

lemma decimal_no_dot: "46 \<notin> set (decimal (unat (b :: byte)))"
  using decimal_octet(1) [of b] by (auto simp: list_all_iff isdigit_def)

text \<open>\<open>in_arpa_name_2_addr\<close> inverts the reverse-lookup naming: for every address prefix of
  one to four octets, the name made of its octets in decimal and in reverse order, followed by
  \<open>in-addr.arpa\<close>, is turned back into the octets, the missing low-order ones being zero.\<close>

theorem in_arpa_roundtrip:
  assumes "octets \<noteq> []" and "length octets \<le> 4"
  shows "in_arpa_name_2_addr (arpa_name octets) addrp = (F_IPV4, octets @ replicate (4 - length octets) 0)"
proof -
  let ?ds = "map (\<lambda>b. decimal (unat b)) (rev octets)"
  have c: "split_dots (arpa_name octets) = ?ds @ [bytes_of ''in-addr'', bytes_of ''arpa'']"
    unfolding arpa_name_def by (rule split_dots_name_string) (auto simp: decimal_no_dot bytes_of_def)
  have "length (dotted (map (\<lambda>b. decimal (unat b)) bs)) \<le> 4 * length bs" for bs :: bytes
  proof (induction bs)
    case (Cons b bs)
    then show ?case using length_decimal [of "unat b"] by simp
  qed simp
  from this [of "rev octets"] have "length (arpa_name octets) \<le> MAXARPANAME"
    using assms(2) by (simp add: arpa_name_def length_name_string dotted_append MAXARPANAME_def bytes_of_def)
  moreover have "strcaseeq s s" for s by (simp add: strcaseeq_def)
  moreover have z: "[0, 0, 0, 0] = replicate 4 (0 :: byte)" by (simp add: numeral_eq_Suc)
  moreover have "arpa_octets ?ds [0, 0, 0, 0] = (True, octets @ replicate (4 - length octets) 0)"
    using arpa_octets_decimal [of "[0, 0, 0, 0]" "rev octets"] assms(2) unfolding z by simp
  ultimately show ?thesis using assms(1) unfolding in_arpa_name_2_addr_def c
    by (cases octets) (simp_all add: butlast_append)
qed

theorem in_arpa_roundtrip_witness:
  "in_arpa_name_2_addr (arpa_name [10, 0, 255]) [] = (F_IPV4, [10, 0, 255, 0]) \<and>
   arpa_name [10, 0, 255] = bytes_of ''255.0.10.in-addr.arpa''"
proof -
  have "arpa_name [10, 0, 255] = bytes_of ''255.0.10.in-addr.arpa''" by code_simp
  then show ?thesis using in_arpa_roundtrip [of "[10, 0, 255]" "[]"] by simp
qed

subsection \<open>Where the checks fall short\<close>

text \<open>After a jump the extra bytes are counted from the end of the pointed-to name, not from
  the place the caller goes on reading: a name that ends with the packet is accepted although
  none of the four bytes demanded behind it was received.\<close>

lemma extract_name_extrabytes_misplaced:
  "\<exists>name'. extract_name ([0x12, 0x34, 1, 0, 0, 1, 0, 0, 0, 0, 0, 0] @ [0xc0, 0x06]) 14 12 (replicate 1025 0) True 4
     = Some (1, name', 14)"
  by (simp add: extract_name_def extract_loop_ptr extract_loop_root is_ptr_def ptr_target_def extract_finish_def
      CHECK_LEN_def)

text \<open>The count byte of a bitstring label is read before anything is checked.\<close>

lemma extract_name_bitstring_overread: "extract_name [0x41] 1 0 (replicate 1025 0) True 0 = None"
  by (simp add: extract_name_def extract_loop_elt elt_body_def peek_def)

text \<open>A bitstring with an odd number of digits leaves the decoder inside its last byte, while
  \<open>skip_name\<close> steps over it: here a label of four bits followed by the root.\<close>

lemma extract_name_bitstring_misaligned:
  "\<exists>name'. extract_name [0x41, 4, 0xa0, 0, 0] 4 0 (replicate 1025 0) True 0 = Some (0, name', 0)"
  "skip_name [0x41, 4, 0xa0, 0, 0] 0 4 0 = Some (Some 4)"
proof -
  have e: "\<exists>name' cp'. elt_body [0x41, 4, 0xa0, 0, 0] 4 1 ((replicate 1025 0)[0 := 0]) 0 = Some (True, name', cp', 2)"
    by (simp add: elt_body_def MAXDNAME_def CHECK_LEN_def bit_digit_def poke_list_def bits_text_def decimal_def)
  then show "\<exists>name'. extract_name [0x41, 4, 0xa0, 0, 0] 4 0 (replicate 1025 0) True 0 = Some (0, name', 0)"
    by (auto simp: extract_name_def extract_loop_elt extract_loop_bad is_ptr_def)
  show "skip_name [0x41, 4, 0xa0, 0, 0] 0 4 0 = Some (Some 4)" by code_simp
qed

text \<open>An empty label inside a name passes \<open>check_name\<close>; on the wire it ends the name.\<close>

lemma check_name_accepts_empty_label:
  "check_name (bytes_of ''a..b'') = (True, bytes_of ''a..b'')"
  "encode_labels (wire_labels (bytes_of ''a..b'')) = [1, 97, 0, 1, 98]"
  by code_simp+

end
