(* ===== verification/Dnsmasq_Packet.thy ===== *)
theory Dnsmasq_Packet
  imports Dnsmasq_Names
begin

section \<open>dnsmasq: packets (src/dnsmasq/.../src/rfc1035.c, second part)\<close>

text \<open>
  Walking over the sections of a packet, the checksum that ties a reply to its question, the
  EDNS0 pseudo header and the option with the client's hardware address, rewriting of
  addresses, the lifetime of negative answers, and building replies.

  The packet is a byte buffer whose first twelve bytes are the header; a pointer is an index.
  A routine that returns a pointer or NULL has the type \<open>nat option option\<close>: \<open>None\<close> is an
  access outside a buffer, \<open>Some None\<close> is NULL.
\<close>

subsection \<open>Constants (dns-protocol.h, dnsmasq.h)\<close>

definition T_A :: u16 where "T_A = 1"
definition T_SOA :: u16 where "T_SOA = 6"
definition T_TXT :: u16 where "T_TXT = 16"
definition T_SIG :: u16 where "T_SIG = 24"
definition T_AAAA :: u16 where "T_AAAA = 28"
definition T_OPT :: u16 where "T_OPT = 41"
definition T_TKEY :: u16 where "T_TKEY = 249"
definition T_TSIG :: u16 where "T_TSIG = 250"
definition T_ANY :: u16 where "T_ANY = 255"
definition C_IN :: u16 where "C_IN = 1"
definition C_ANY :: u16 where "C_ANY = 255"
definition INADDRSZ :: nat where "INADDRSZ = 4"
definition PACKETSZ :: u16 where "PACKETSZ = 512"
definition EDNS0_OPTION_MAC :: u16 where "EDNS0_OPTION_MAC = 5"

definition HB3_QR :: byte where "HB3_QR = 0x80"
definition HB3_OPCODE :: byte where "HB3_OPCODE = 0x78"
definition HB3_AA :: byte where "HB3_AA = 0x04"
definition HB3_TC :: byte where "HB3_TC = 0x02"
definition HB4_RA :: byte where "HB4_RA = 0x80"
definition HB4_RCODE :: byte where "HB4_RCODE = 0x0f"

definition F_NEG :: u32 where "F_NEG = 0x20"
definition F_IPV6 :: u32 where "F_IPV6 = 0x100"
definition F_NXDOMAIN :: u32 where "F_NXDOMAIN = 0x400"
definition F_QUERY :: u32 where "F_QUERY = 0x80000"
definition F_NOERR :: u32 where "F_NOERR = 0x100000"

lemmas packet_consts = T_A_def T_SOA_def T_TXT_def T_SIG_def T_AAAA_def T_OPT_def T_TKEY_def T_TSIG_def
  T_ANY_def C_IN_def C_ANY_def INADDRSZ_def PACKETSZ_def EDNS0_OPTION_MAC_def
lemmas hb_consts = HB3_QR_def HB3_OPCODE_def HB3_AA_def HB3_TC_def HB4_RA_def HB4_RCODE_def

text \<open>The header fields at their offsets.\<close>

definition qdcount :: "bytes \<Rightarrow> u16 option" where "qdcount msg = peek16 msg 4"
definition ancount :: "bytes \<Rightarrow> u16 option" where "ancount msg = peek16 msg 6"
definition nscount :: "bytes \<Rightarrow> u16 option" where "nscount msg = peek16 msg 8"
definition arcount :: "bytes \<Rightarrow> u16 option" where "arcount msg = peek16 msg 10"

lemmas count_defs = qdcount_def ancount_def nscount_def arcount_def

definition OPCODE :: "bytes \<Rightarrow> byte option" where
  "OPCODE msg = map_option (\<lambda>b. drop_bit 3 (b AND HB3_OPCODE)) (peek msg 2)"

definition set_rcode :: "bytes \<Rightarrow> byte \<Rightarrow> bytes option" where
  "set_rcode msg code = do { b \<leftarrow> peek msg 3; poke msg 3 ((b AND NOT HB4_RCODE) OR code) }"

text \<open>Going on from a pointer that may be NULL.\<close>

definition nbind :: "'a option option \<Rightarrow> ('a \<Rightarrow> 'b option option) \<Rightarrow> 'b option option" where
  "nbind m f = (case m of None \<Rightarrow> None | Some None \<Rightarrow> Some None | Some (Some x) \<Rightarrow> f x)"

lemma nbind_simps [simp]:
  "nbind None f = None" "nbind (Some None) f = Some None" "nbind (Some (Some x)) f = f x"
  by (simp_all add: nbind_def)

subsection \<open>Skipping sections\<close>

fun skip_question_loop :: "nat \<Rightarrow> bytes \<Rightarrow> nat \<Rightarrow> nat \<Rightarrow> nat option option" where
  "skip_question_loop 0 msg ansp pklen = Some (Some ansp)"
| "skip_question_loop (Suc q) msg ansp pklen =
     nbind (skip_name msg ansp pklen 4) (\<lambda>a. skip_question_loop q msg (a + 4) pklen)"

definition skip_questions :: "bytes \<Rightarrow> nat \<Rightarrow> nat option option" where
  "skip_questions msg pklen = do { q \<leftarrow> qdcount msg; skip_question_loop (unat q) msg 12 pklen }"

fun skip_section :: "bytes \<Rightarrow> nat \<Rightarrow> nat \<Rightarrow> nat \<Rightarrow> nat option option" where
  "skip_section msg ansp 0 pklen = Some (Some ansp)"
| "skip_section msg ansp (Suc n) pklen =
     nbind (skip_name msg ansp pklen 10) (\<lambda>a. do {
       rdlen \<leftarrow> peek16 msg (a + 8);
       if CHECK_LEN (a + 10) pklen (unat rdlen)
       then skip_section msg (a + 10 + unat rdlen) n pklen else Some None })"

subsection \<open>The checksum of the question\<close>

definition crc_shift :: "u32 \<Rightarrow> u32" where
  "crc_shift crc = (if crc AND 0x80000000 \<noteq> 0 then push_bit 1 crc XOR 0x04c11db7 else push_bit 1 crc)"

definition crc_byte :: "byte \<Rightarrow> u32 \<Rightarrow> u32" where
  "crc_byte c crc = (crc_shift ^^ 8) (crc XOR push_bit 24 (ucast c))"

fun questions_crc_loop :: "nat \<Rightarrow> bytes \<Rightarrow> nat \<Rightarrow> nat \<Rightarrow> bytes \<Rightarrow> u32 \<Rightarrow> u32 option" where
  "questions_crc_loop 0 msg pklen p name crc = Some crc"
| "questions_crc_loop (Suc q) msg pklen p name crc =
     (case extract_name msg pklen p name True 4 of
        None \<Rightarrow> None
      | Some (r, name', p') \<Rightarrow>
          if r = 0 then Some crc
          else do {
            s \<leftarrow> cstr name';
            b0 \<leftarrow> peek msg p'; b1 \<leftarrow> peek msg (p' + 1); b2 \<leftarrow> peek msg (p' + 2); b3 \<leftarrow> peek msg (p' + 3);
            let crc' = fold crc_byte (map tolower s @ [b0, b1, b2, b3]) crc;
            if CHECK_LEN (p' + 4) pklen 0
            then questions_crc_loop q msg pklen (p' + 4) name' crc' else Some crc' })"

definition questions_crc :: "bytes \<Rightarrow> nat \<Rightarrow> bytes \<Rightarrow> u32 option" where
  "questions_crc msg pklen name = do {
     q \<leftarrow> qdcount msg; questions_crc_loop (unat q) msg pklen 12 name 0xffffffff }"

subsection \<open>The pseudo header\<close>

text \<open>\<open>pheader\<close> is the saved pseudo header, if the caller has one.\<close>

definition resize_packet :: "bytes \<Rightarrow> nat \<Rightarrow> bytes option \<Rightarrow> (bytes \<times> nat) option" where
  "resize_packet msg pklen pheader =
     (case skip_questions msg pklen of
        None \<Rightarrow> None
      | Some None \<Rightarrow> Some (msg, pklen)
      | Some (Some a) \<Rightarrow> do {
          an \<leftarrow> ancount msg; ns \<leftarrow> nscount msg; ar \<leftarrow> arcount msg;
          r \<leftarrow> skip_section msg a (unat an + unat ns + unat ar) pklen;
          (case r of
             None \<Rightarrow> Some (msg, pklen)
           | Some a' \<Rightarrow>
               (case pheader of
                  Some h \<Rightarrow>
                    if ar = 0 then do {
                      m1 \<leftarrow> poke_list msg a' h;
                      m2 \<leftarrow> poke16 m1 10 1;
                      Some (m2, a' + length h) }
                    else Some (msg, a')
                | None \<Rightarrow> Some (msg, a'))) })"

text \<open>The questions, when the caller wants to know whether the packet is signed.\<close>

fun sign_question_loop :: "nat \<Rightarrow> bytes \<Rightarrow> nat \<Rightarrow> nat \<Rightarrow> bool \<Rightarrow> (nat option \<times> bool) option" where
  "sign_question_loop 0 msg ansp pklen is_sign = Some (Some ansp, is_sign)"
| "sign_question_loop (Suc q) msg ansp pklen is_sign =
     (case skip_name msg ansp pklen 4 of
        None \<Rightarrow> None
      | Some None \<Rightarrow> Some (None, is_sign)
      | Some (Some a) \<Rightarrow> do {
          typ \<leftarrow> peek16 msg a; cls \<leftarrow> peek16 msg (a + 2);
          sign_question_loop q msg (a + 4) pklen (is_sign \<or> (cls = C_IN \<and> typ = T_TKEY)) })"

text \<open>The additional section: \<open>n\<close> records are left, \<open>ret\<close> is the pseudo header found so
  far as its start, its length and the index of the UDP size.\<close>

fun pseudo_loop ::
  "nat \<Rightarrow> bytes \<Rightarrow> nat \<Rightarrow> nat \<Rightarrow> bool \<Rightarrow> (nat \<times> nat \<times> nat) option \<Rightarrow> bool \<Rightarrow>
   ((nat \<times> nat \<times> nat) option \<times> bool) option" where
  "pseudo_loop 0 msg ansp pklen want_sign ret is_sign = Some (ret, is_sign)"
| "pseudo_loop (Suc n) msg ansp pklen want_sign ret is_sign =
     (case skip_name msg ansp pklen 10 of
        None \<Rightarrow> None
      | Some None \<Rightarrow> Some (None, is_sign)
      | Some (Some a) \<Rightarrow> do {
          typ \<leftarrow> peek16 msg a; cls \<leftarrow> peek16 msg (a + 2); rdlen \<leftarrow> peek16 msg (a + 8);
          if \<not> CHECK_LEN (a + 10) pklen (unat rdlen) then Some (None, is_sign)
          else let nxt = a + 10 + unat rdlen in
            if typ = T_OPT then pseudo_loop n msg nxt pklen want_sign (Some (ansp, nxt - ansp, a + 2)) is_sign
            else pseudo_loop n msg nxt pklen want_sign ret
                   (is_sign \<or> (want_sign \<and> n = 0 \<and> cls = C_ANY \<and> (typ = T_SIG \<or> typ = T_TSIG))) })"

text \<open>The result is the pseudo header or NULL, and \<open>*is_sign\<close>.  When the caller asks for the
  signature and the packet is not a query the questions are not skipped.\<close>

definition find_pseudoheader ::
  "bytes \<Rightarrow> nat \<Rightarrow> bool \<Rightarrow> ((nat \<times> nat \<times> nat) option \<times> bool) option" where
  "find_pseudoheader msg pklen want_sign = do {
     ar \<leftarrow> arcount msg;
     (a, is_sign) \<leftarrow> (if want_sign then do {
                   opc \<leftarrow> OPCODE msg;
                   if opc = 0 then do { q \<leftarrow> qdcount msg; sign_question_loop (unat q) msg 12 pklen False }
                   else Some (Some 12, False) }
                 else map_option (\<lambda>a. (a, False)) (skip_questions msg pklen));
     (case a of
        None \<Rightarrow> Some (None, is_sign)
      | Some ansp \<Rightarrow>
          if ar = 0 then Some (None, is_sign)
          else do {
            an \<leftarrow> ancount msg; ns \<leftarrow> nscount msg;
            r \<leftarrow> skip_section msg ansp (unat an + unat ns) pklen;
            (case r of None \<Rightarrow> Some (None, is_sign)
             | Some a' \<Rightarrow> pseudo_loop (unat ar) msg a' pklen want_sign None is_sign) }) }"

subsection \<open>The hardware address option\<close>

text \<open>Is the option already there?  The result is the place behind the options, or NULL when
  the option is found.\<close>

function mac_option_loop :: "nat \<Rightarrow> nat \<Rightarrow> bytes \<Rightarrow> nat \<Rightarrow> nat option option" where
  "mac_option_loop i rdlen msg p =
     (if i + 4 < rdlen then
        (case peek16 msg p of
           None \<Rightarrow> None
         | Some code \<Rightarrow>
             (case peek16 msg (p + 2) of
                None \<Rightarrow> None
              | Some len \<Rightarrow>
                  if code = EDNS0_OPTION_MAC then Some None
                  else mac_option_loop (i + unat len + 4) rdlen msg (p + 4 + unat len)))
      else Some (Some p))"
  by pat_completeness auto
termination by (relation "measure (\<lambda>(i, rdlen, msg, p). rdlen - i)") auto

declare mac_option_loop.simps [simp del]

definition poke32 :: "bytes \<Rightarrow> nat \<Rightarrow> u32 \<Rightarrow> bytes option" where
  "poke32 m i v = poke_list m i (be32 v)"

record macparm =
  mp_limit :: nat
  mp_header :: bytes
  mp_plen :: nat

text \<open>The common tail: the option is appended at \<open>p\<close> and the length at \<open>lenp\<close> set.\<close>

definition put_mac :: "bytes \<Rightarrow> nat \<Rightarrow> nat \<Rightarrow> nat \<Rightarrow> bytes \<Rightarrow> (bytes \<times> nat) option" where
  "put_mac msg p datap lenp mac = do {
     m1 \<leftarrow> poke16 msg p EDNS0_OPTION_MAC;
     m2 \<leftarrow> poke16 m1 (p + 2) (of_nat (length mac));
     m3 \<leftarrow> poke_list m2 (p + 4) mac;
     m4 \<leftarrow> poke16 m3 lenp (of_nat (p + 4 + length mac - datap));
     Some (m4, p + 4 + length mac) }"

text \<open>\<open>filter_mac\<close> is called for every neighbour the kernel lists; the flag is its return
  value, whether to go on.\<close>

definition filter_mac ::
  "mysockaddr \<Rightarrow> nat \<Rightarrow> u32 \<Rightarrow> bytes \<Rightarrow> macparm \<Rightarrow> (bool \<times> macparm) option" where
  "filter_mac l3 family addr mac parm =
     (let msg = mp_header parm; pklen = mp_plen parm in
      if \<not> (family = sa_family l3 \<and> family = AF_INET \<and> sin_addr l3 = addr) then Some (True, parm)
      else do {
        ar \<leftarrow> arcount msg;
        if ar = 0 then do {
          an \<leftarrow> ancount msg; ns \<leftarrow> nscount msg;
          r \<leftarrow> nbind (skip_questions msg pklen) (\<lambda>p. skip_section msg p (unat an + unat ns) pklen);
          (case r of
             None \<Rightarrow> Some (False, parm)
           | Some p \<Rightarrow> do {
               m1 \<leftarrow> poke msg p 0;
               m2 \<leftarrow> poke16 m1 (p + 1) T_OPT;
               m3 \<leftarrow> poke16 m2 (p + 3) PACKETSZ;
               m4 \<leftarrow> poke32 m3 (p + 5) 0;
               m5 \<leftarrow> poke16 m4 (p + 9) 0;
               if int (length mac) > int (mp_limit parm) - int (p + 11 + 4)
               then Some (False, parm\<lparr>mp_header := m5\<rparr>)
               else do {
                 m6 \<leftarrow> poke16 m5 10 1;
                 (m7, e) \<leftarrow> put_mac m6 (p + 11) (p + 11) (p + 9) mac;
                 Some (False, parm\<lparr>mp_header := m7, mp_plen := e\<rparr>) } }) }
        else if ar \<noteq> 1 then Some (False, parm)
        else do {
          (ret, is_sign) \<leftarrow> find_pseudoheader msg pklen True;
          (case ret of
             None \<Rightarrow> Some (False, parm)
           | Some (start, _, _) \<Rightarrow>
               if is_sign then Some (False, parm)
               else do {
                 s \<leftarrow> skip_name msg start pklen 10;
                 (case s of
                    None \<Rightarrow> Some (False, parm)
                  | Some a \<Rightarrow> do {
                      rdlen \<leftarrow> peek16 msg (a + 8);
                      if \<not> CHECK_LEN (a + 10) pklen (unat rdlen) then Some (False, parm)
                      else do {
                        opt \<leftarrow> mac_option_loop 0 (unat rdlen) msg (a + 10);
                        (case opt of
                           None \<Rightarrow> Some (False, parm)
                         | Some p \<Rightarrow>
                             if int (length mac) > int (mp_limit parm) - int (p + 4) then Some (False, parm)
                             else do {
                               (m1, e) \<leftarrow> put_mac msg p (a + 10) (a + 8) mac;
                               Some (False, parm\<lparr>mp_header := m1, mp_plen := e\<rparr>) }) } }) }) } })"

text \<open>\<open>iface_enumerate\<close> hands over the neighbours, until the callback returns 0.\<close>

fun enumerate_neighbours ::
  "mysockaddr \<Rightarrow> (nat \<times> u32 \<times> bytes) list \<Rightarrow> macparm \<Rightarrow> macparm option" where
  "enumerate_neighbours l3 [] parm = Some parm"
| "enumerate_neighbours l3 ((family, addr, mac) # ns) parm =
     (case filter_mac l3 family addr mac parm of
        None \<Rightarrow> None
      | Some (go, parm') \<Rightarrow> if go then enumerate_neighbours l3 ns parm' else Some parm')"

definition add_mac ::
  "bytes \<Rightarrow> nat \<Rightarrow> nat \<Rightarrow> mysockaddr \<Rightarrow> (nat \<times> u32 \<times> bytes) list \<Rightarrow> (bytes \<times> nat) option" where
  "add_mac msg pklen limit l3 neighbours = do {
     ar \<leftarrow> arcount msg;
     if unat ar > 1 then Some (msg, pklen)
     else do {
       parm \<leftarrow> enumerate_neighbours l3 neighbours \<lparr>mp_limit = limit, mp_header = msg, mp_plen = pklen\<rparr>;
       Some (mp_header parm, mp_plen parm) } }"

subsection \<open>Address ranges and address rewriting\<close>

text \<open>Addresses are 32-bit words in host order.\<close>

definition private_net :: "u32 \<Rightarrow> bool \<Rightarrow> bool" where
  "private_net ip_addr ban_localhost \<longleftrightarrow>
     ((ip_addr AND 0xFF000000) = 0x7F000000 \<and> ban_localhost) \<or>
     (ip_addr AND 0xFFFF0000) = 0xC0A80000 \<or>
     (ip_addr AND 0xFF000000) = 0x0A000000 \<or>
     (ip_addr AND 0xFFF00000) = 0xAC100000 \<or>
     (ip_addr AND 0xFFFF0000) = 0xA9FE0000"

record doctor =
  doc_in :: u32
  doc_end :: u32
  doc_out :: u32
  doc_mask :: u32

definition doctor_match :: "doctor \<Rightarrow> u32 \<Rightarrow> bool" where
  "doctor_match d addr =
     (if doc_end d = 0 then is_same_net (doc_in d) addr (doc_mask d)
      else \<not> (doc_in d > addr \<or> doc_end d < addr))"

definition doctor_apply :: "doctor \<Rightarrow> u32 \<Rightarrow> u32" where
  "doctor_apply d addr = (addr AND NOT (doc_mask d)) OR (doc_out d AND doc_mask d)"

text \<open>The first doctor that matches rewrites the address at \<open>p\<close> and clears the AA flag.\<close>

fun doctor_loop :: "doctor list \<Rightarrow> u32 \<Rightarrow> bytes \<Rightarrow> nat \<Rightarrow> bytes option" where
  "doctor_loop [] addr msg p = Some msg"
| "doctor_loop (d # ds) addr msg p =
     (if \<not> doctor_match d addr then doctor_loop ds addr msg p
      else do {
        hb3 \<leftarrow> peek msg 2;
        m1 \<leftarrow> poke msg 2 (hb3 AND NOT HB3_AA);
        poke32 m1 p (doctor_apply d addr) })"

definition isprint :: "byte \<Rightarrow> bool" where
  "isprint c \<longleftrightarrow> 32 \<le> c \<and> c < 127"

text \<open>A counted string is made zero-terminated in place, printed, and restored.\<close>

fun txt_shift :: "nat \<Rightarrow> bytes \<Rightarrow> nat \<Rightarrow> nat \<Rightarrow> (bytes \<times> nat \<times> nat) option" where
  "txt_shift 0 msg p2 i = Some (msg, p2, i)"
| "txt_shift (Suc n) msg p2 i = do {
     c \<leftarrow> peek msg (p2 + 1);
     if \<not> isprint c then Some (msg, p2, i)
     else do { m \<leftarrow> poke msg p2 c; txt_shift n m (p2 + 1) (i + 1) } }"

definition txt_log :: "bytes \<Rightarrow> nat \<Rightarrow> (bytes \<times> bytes \<times> nat) option" where
  "txt_log msg p1 = do {
     len \<leftarrow> peek msg p1;
     (m1, p2, i) \<leftarrow> txt_shift (unat len) msg p1 0;
     m2 \<leftarrow> poke m1 p2 0;
     logged \<leftarrow> cstr (drop p1 m2);
     m3 \<leftarrow> poke_list m2 (p1 + 1) (take i (drop p1 m2));
     m4 \<leftarrow> poke m3 p1 len;
     Some (m4, logged, p1 + unat len + 1) }"

lemma txt_log_advances: "txt_log msg p1 = Some (m, l, q) \<Longrightarrow> p1 < q"
  by (auto simp: txt_log_def option_bind_eq_Some_iff)

function txt_loop :: "bytes \<Rightarrow> nat \<Rightarrow> nat \<Rightarrow> bytes list \<Rightarrow> (bytes \<times> bytes list) option" where
  "txt_loop msg stop p1 out =
     (if p1 < stop then
        (case txt_log msg p1 of
           None \<Rightarrow> None
         | Some (m, l, q) \<Rightarrow> txt_loop m stop q (out @ [l]))
      else Some (msg, out))"
  by pat_completeness auto
termination
  by (relation "measure (\<lambda>(msg, stop, p1, out). stop - p1)") (auto dest: txt_log_advances)

declare txt_loop.simps [simp del]

text \<open>\<open>do_doctor\<close> over \<open>n\<close> records.  \<open>logname\<close> is the name buffer when a name was passed and
  query logging is on; the last component of the result collects what is logged.\<close>

fun do_doctor ::
  "nat \<Rightarrow> doctor list \<Rightarrow> nat \<Rightarrow> bytes option \<Rightarrow> nat \<Rightarrow> bytes \<Rightarrow> (nat option \<times> bytes \<times> bytes list) option" where
  "do_doctor 0 doctors qlen logname p msg = Some (Some p, msg, [])"
| "do_doctor (Suc n) doctors qlen logname p msg = do {
     (a, logname') \<leftarrow>
        (case logname of
           Some name \<Rightarrow>
             map_option (\<lambda>(r, name', q). (if r = 0 then None else Some q, Some name'))
               (extract_name msg qlen p name True 10)
         | None \<Rightarrow> map_option (\<lambda>a. (a, None)) (skip_name msg p qlen 10));
     (case a of
        None \<Rightarrow> Some (None, msg, [])
      | Some a \<Rightarrow> do {
          qtype \<leftarrow> peek16 msg a; qclass \<leftarrow> peek16 msg (a + 2); rdlen \<leftarrow> peek16 msg (a + 8);
          let p' = a + 10;
          if qclass = C_IN \<and> qtype = T_A then
            (if \<not> CHECK_LEN p' qlen INADDRSZ then Some (None, msg, [])
             else do {
               addr \<leftarrow> peek32 msg p';
               m1 \<leftarrow> doctor_loop doctors addr msg p';
               if CHECK_LEN p' qlen (unat rdlen)
               then do_doctor n doctors qlen logname' (p' + unat rdlen) m1
               else Some (None, m1, []) })
          else if qtype = T_TXT \<and> logname \<noteq> None then
            (if \<not> CHECK_LEN p' qlen (unat rdlen) then Some (None, msg, [])
             else do {
               (m1, logged) \<leftarrow> txt_loop msg (p' + unat rdlen) p' [];
               (r, m2, l2) \<leftarrow> do_doctor n doctors qlen logname' (p' + unat rdlen) m1;
               Some (r, m2, logged @ l2) })
          else if CHECK_LEN p' qlen (unat rdlen)
          then do_doctor n doctors qlen logname' (p' + unat rdlen) msg
          else Some (None, msg, []) }) }"

subsection \<open>The lifetime of a negative answer\<close>

text \<open>The loop over the authority section; the accumulator is \<open>found_soa\<close> and \<open>minttl\<close>.\<close>

fun soa_loop :: "nat \<Rightarrow> bytes \<Rightarrow> nat \<Rightarrow> nat \<Rightarrow> bool \<times> u32 \<Rightarrow> (nat \<times> bool \<times> u32) option option" where
  "soa_loop 0 msg p qlen acc = Some (Some (p, acc))"
| "soa_loop (Suc n) msg p qlen acc =
     nbind (skip_name msg p qlen 10) (\<lambda>a. do {
       qtype \<leftarrow> peek16 msg a; qclass \<leftarrow> peek16 msg (a + 2); ttl \<leftarrow> peek32 msg (a + 4); rdlen \<leftarrow> peek16 msg (a + 8);
       if qclass = C_IN \<and> qtype = T_SOA then
         nbind (skip_name msg (a + 10) qlen 0) (\<lambda>b.
         nbind (skip_name msg b qlen 20) (\<lambda>c. do {
           minimum \<leftarrow> peek32 msg (c + 16);
           soa_loop n msg (c + 20) qlen (True, min (min (snd acc) ttl) minimum) }))
       else if CHECK_LEN (a + 10) qlen (unat rdlen) then soa_loop n msg (a + 10 + unat rdlen) qlen acc
       else Some None })"

text \<open>The result is the lifetime (0 also for a bad packet) and the rewritten packet.\<close>

definition find_soa :: "doctor list \<Rightarrow> u32 \<Rightarrow> bytes option \<Rightarrow> bytes \<Rightarrow> nat \<Rightarrow> (u32 \<times> bytes) option" where
  "find_soa doctors neg_ttl logname msg qlen = do {
     q \<leftarrow> skip_questions msg qlen;
     (case q of
        None \<Rightarrow> Some (0, msg)
      | Some p \<Rightarrow> do {
          an \<leftarrow> ancount msg;
          (r, m1, _) \<leftarrow> do_doctor (unat an) doctors qlen logname p msg;
          (case r of
             None \<Rightarrow> Some (0, m1)
           | Some p1 \<Rightarrow> do {
               ns \<leftarrow> nscount m1;
               t \<leftarrow> soa_loop (unat ns) m1 p1 qlen (False, 0xffffffff);
               (case t of
                  None \<Rightarrow> Some (0, m1)
                | Some (p2, found, minttl) \<Rightarrow> do {
                    ar \<leftarrow> arcount m1;
                    (r2, m2, _) \<leftarrow> do_doctor (unat ar) doctors qlen None p2 m1;
                    (case r2 of
                       None \<Rightarrow> Some (0, m2)
                     | Some _ \<Rightarrow> Some (if found then minttl else neg_ttl, m2)) }) }) }) }"

subsection \<open>The request\<close>

text \<open>The flags, the query type and the name buffer.\<close>

definition extract_request :: "bytes \<Rightarrow> nat \<Rightarrow> bytes \<Rightarrow> (u32 \<times> u16 \<times> bytes) option" where
  "extract_request msg qlen name = do {
     q \<leftarrow> qdcount msg; opc \<leftarrow> OPCODE msg;
     if q \<noteq> 1 \<or> opc \<noteq> 0 then Some (0, 0, name)
     else do {
       (r, name', p) \<leftarrow> extract_name msg qlen 12 name True 4;
       if r = 0 then Some (0, 0, name')
       else do {
         qtype \<leftarrow> peek16 msg p; qclass \<leftarrow> peek16 msg (p + 2);
         Some (if qclass = C_IN then
                 (if qtype = T_A then F_IPV4 else if qtype = T_AAAA then F_IPV6
                  else if qtype = T_ANY then F_IPV4 OR F_IPV6 else F_QUERY)
               else F_QUERY, qtype, name') } } }"

subsection \<open>Building replies\<close>

text \<open>One argument of \<open>add_resource_record\<close>, by its format letter: an address, a short, a
  long, a domain name, a counted block, a string of at most 255 characters.\<close>

datatype rr_arg = Fmt_4 bytes | Fmt_s u16 | Fmt_l u32 | Fmt_d bytes | Fmt_t u16 bytes | Fmt_z "bytes option"

definition put_rr_arg :: "rr_arg \<Rightarrow> bytes \<times> nat \<times> nat option \<Rightarrow> (bytes \<times> nat \<times> nat option) option" where
  "put_rr_arg arg st = (case st of (msg, p, offset) \<Rightarrow>
     case arg of
       Fmt_4 a \<Rightarrow> if length a < INADDRSZ then None
                  else do { m \<leftarrow> poke_list msg p (take INADDRSZ a); Some (m, p + INADDRSZ, offset) }
     | Fmt_s v \<Rightarrow> do { m \<leftarrow> poke16 msg p v; Some (m, p + 2, offset) }
     | Fmt_l v \<Rightarrow> do { m \<leftarrow> poke32 msg p v; Some (m, p + 4, offset) }
     | Fmt_d s \<Rightarrow> do { (m, q) \<leftarrow> do_rfc1035_name msg p s; m' \<leftarrow> poke m q 0; Some (m', q + 1, Some p) }
     | Fmt_t n s \<Rightarrow> if length s < unat n then None
                    else do { m \<leftarrow> poke_list msg p (take (unat n) s); Some (m, p + unat n, offset) }
     | Fmt_z s \<Rightarrow> (let t = (case s of None \<Rightarrow> [] | Some x \<Rightarrow> take (min 255 (length x mod 65536)) x) in do {
         m \<leftarrow> poke msg p (of_nat (length t));
         m' \<leftarrow> poke_list m (p + 1) t;
         Some (m', p + 1 + length t, offset) }))"

text \<open>\<open>limit\<close> is the end of the buffer as the caller knows it, if it passes one; \<open>truncp\<close> the
  flag, if it passes one.  The result is the return value, the packet, \<open>*pp\<close>, \<open>*truncp\<close> and
  the offset of the last domain name.\<close>

definition add_resource_record ::
  "bytes \<Rightarrow> nat option \<Rightarrow> bool option \<Rightarrow> nat \<Rightarrow> nat \<Rightarrow> u32 \<Rightarrow> u16 \<Rightarrow> u16 \<Rightarrow> rr_arg list \<Rightarrow>
   (bool \<times> bytes \<times> nat \<times> bool option \<times> nat option) option" where
  "add_resource_record msg limit truncp nameoffset pp ttl typ cls args =
     (if truncp = Some True then Some (False, msg, pp, truncp, None)
      else do {
        m1 \<leftarrow> poke16 msg pp (of_nat nameoffset OR 0xc000);
        m2 \<leftarrow> poke16 m1 (pp + 2) typ;
        m3 \<leftarrow> poke16 m2 (pp + 4) cls;
        m4 \<leftarrow> poke32 m3 (pp + 6) ttl;
        m5 \<leftarrow> poke16 m4 (pp + 10) 0;
        (m6, p, offset) \<leftarrow> foldM put_rr_arg args (m5, pp + 12, None);
        m7 \<leftarrow> poke16 m6 (pp + 10) (of_nat (p - (pp + 10) - 2));
        if (case limit of None \<Rightarrow> False | Some l \<Rightarrow> l < p)
        then Some (False, m7, pp, map_option (\<lambda>_. True) truncp, offset)
        else Some (True, m7, p, truncp, offset) })"

text \<open>The length \<open>setup_reply\<close> returns is \<open>p - header\<close>; when the questions could not be
  skipped \<open>p\<close> is NULL and the difference is no length, which is \<open>None\<close> here.\<close>

definition setup_reply :: "bytes \<Rightarrow> nat \<Rightarrow> bytes \<Rightarrow> u32 \<Rightarrow> u32 \<Rightarrow> (nat option \<times> bytes) option" where
  "setup_reply msg qlen addr flags ttl = do {
     p \<leftarrow> skip_questions msg qlen;
     hb3 \<leftarrow> peek msg 2; hb4 \<leftarrow> peek msg 3;
     m1 \<leftarrow> poke msg 2 ((hb3 AND NOT (HB3_AA OR HB3_TC)) OR HB3_QR);
     m2 \<leftarrow> poke m1 3 (hb4 OR HB4_RA);
     m3 \<leftarrow> poke16 m2 8 0; m4 \<leftarrow> poke16 m3 10 0; m5 \<leftarrow> poke16 m4 6 0;
     if flags = F_NEG then do { m \<leftarrow> set_rcode m5 2; Some (p, m) }
     else if flags = F_NOERR then do { m \<leftarrow> set_rcode m5 0; Some (p, m) }
     else if flags = F_NXDOMAIN then do { m \<leftarrow> set_rcode m5 3; Some (p, m) }
     else case p of
       Some q \<Rightarrow>
         if flags = F_IPV4 then do {
           m6 \<leftarrow> set_rcode m5 0;
           m7 \<leftarrow> poke16 m6 6 1;
           b \<leftarrow> peek m7 2;
           m8 \<leftarrow> poke m7 2 (b OR HB3_AA);
           (_, m9, q', _, _) \<leftarrow> add_resource_record m8 None None 12 q ttl T_A C_IN [Fmt_4 addr];
           Some (Some q', m9) }
         else do { m \<leftarrow> set_rcode m5 5; Some (p, m) }
     | None \<Rightarrow> do { m \<leftarrow> set_rcode m5 5; Some (p, m) } }"

text \<open>A reply whose address is listed as bogus: the result is the name and the lifetime of the
  negative entry the caller puts into the cache, \<open>Some None\<close> when there is none.\<close>

fun bogus_loop :: "nat \<Rightarrow> bytes \<Rightarrow> nat \<Rightarrow> nat \<Rightarrow> bytes \<Rightarrow> u32 list \<Rightarrow> (bytes \<times> u32) option option" where
  "bogus_loop 0 msg qlen p name baddr = Some None"
| "bogus_loop (Suc n) msg qlen p name baddr = do {
     (r, name', a) \<leftarrow> extract_name msg qlen p name True 10;
     if r = 0 then Some None
     else do {
       qtype \<leftarrow> peek16 msg a; qclass \<leftarrow> peek16 msg (a + 2); ttl \<leftarrow> peek32 msg (a + 4); rdlen \<leftarrow> peek16 msg (a + 8);
       if qclass = C_IN \<and> qtype = T_A \<and> \<not> CHECK_LEN (a + 10) qlen INADDRSZ then Some None
       else do {
         hit \<leftarrow> (if qclass = C_IN \<and> qtype = T_A
                 then map_option (\<lambda>x. x \<in> set baddr) (peek32 msg (a + 10)) else Some False);
         if hit then do { s \<leftarrow> cstr name'; Some (Some (s, ttl)) }
         else if CHECK_LEN (a + 10) qlen (unat rdlen)
         then bogus_loop n msg qlen (a + 10 + unat rdlen) name' baddr
         else Some None } } }"

definition check_for_bogus_wildcard :: "bytes \<Rightarrow> nat \<Rightarrow> bytes \<Rightarrow> u32 list \<Rightarrow> (bytes \<times> u32) option option" where
  "check_for_bogus_wildcard msg qlen name baddr =
     nbind (skip_questions msg qlen) (\<lambda>p. do { an \<leftarrow> ancount msg; bogus_loop (unat an) msg qlen p name baddr })"

subsection \<open>The checksum sees names, not their encoding\<close>

text \<open>The questions from index \<open>p\<close> on: for each its labels and its type and class bytes.\<close>

fun questions_at :: "bytes \<Rightarrow> nat \<Rightarrow> nat \<Rightarrow> (bytes list \<times> bytes) list \<Rightarrow> bool" where
  "questions_at msg n p [] = True"
| "questions_at msg n p ((ls, tc) # qs) =
     (\<exists>h e f. name_run False msg n p h ls e f \<and> h \<le> 255 \<and> f + 4 \<le> n \<and> e + 4 \<le> n \<and>
        list_all (list_all name_text_char) ls \<and> length (dotted ls) < MAXDNAME \<and>
        tc = take 4 (drop e msg) \<and> questions_at msg n (e + 4) qs)"

definition question_text :: "bytes list \<times> bytes \<Rightarrow> bytes" where
  "question_text q = map tolower (name_string (fst q)) @ snd q"

lemma take4_drop:
  "e + 4 \<le> length msg \<Longrightarrow> take 4 (drop e msg) = [msg ! e, msg ! (e + 1), msg ! (e + 2), msg ! (e + 3)]"
  by (simp add: numeral_eq_Suc take_Suc_conv_app_nth)

lemma questions_crc_loop_at:
  assumes "questions_at msg n p qs" and "n \<le> length msg" and "MAXDNAME \<le> length name"
  shows "questions_crc_loop (length qs) msg n p name crc = Some (fold crc_byte (concat (map question_text qs)) crc)"
  using assms
proof (induction qs arbitrary: p name crc)
  case (Cons q qs)
  obtain ls tc where q: "q = (ls, tc)" by (cases q)
  obtain h e f where w: "name_run False msg n p h ls e f" "h \<le> 255" "f + 4 \<le> n" "e + 4 \<le> n"
      "list_all (list_all name_text_char) ls" "length (dotted ls) < MAXDNAME"
      "tc = take 4 (drop e msg)" "questions_at msg n (e + 4) qs"
    using Cons.prems(1) unfolding q by auto
  obtain name' where n: "extract_name msg n p name True 4 = Some (1, name', e)" "cstr name' = Some (name_string ls)"
      "length name' = length name"
    using extract_name_run [OF w(1) Cons.prems(2,3) w(5,6,2,3)] by blast
  have tc: "tc = [msg ! e, msg ! (e + 1), msg ! (e + 2), msg ! (e + 3)]"
    using w(4,7) take4_drop [of e msg] Cons.prems(2) by simp
  define crc' where "crc' = fold crc_byte (map tolower (name_string ls) @ [msg ! e, msg ! (e + 1), msg ! (e + 2), msg ! (e + 3)]) crc"
  have "questions_crc_loop (length qs) msg n (e + 4) name' crc' = Some (fold crc_byte (concat (map question_text qs)) crc')"
    using w(8) Cons.prems(2,3) n(3) by (intro Cons.IH) auto
  then have "questions_crc_loop (Suc (length qs)) msg n p name crc = Some (fold crc_byte (concat (map question_text qs)) crc')"
    using n w(4) Cons.prems(2) unfolding crc'_def by (simp add: CHECK_LEN_def)
  moreover have "fold crc_byte (concat (map question_text (q # qs))) crc = fold crc_byte (concat (map question_text qs)) crc'"
    by (simp add: q question_text_def tc crc'_def)
  ultimately show ?case by simp
qed simp

text \<open>C34. \<open>questions_crc\<close>, by which a reply is matched to the query it answers, depends only
  on what the questions say: two packets whose questions have the same names up to case and the
  same type and class bytes have the same checksum, however each of them compresses its names
  and whatever else it holds.\<close>

theorem questions_crc_canonical:
  assumes "questions_at msg1 n1 12 qs1" and "questions_at msg2 n2 12 qs2"
    and "n1 \<le> length msg1" and "n2 \<le> length msg2"
    and "qdcount msg1 = Some (of_nat (length qs1))" and "length qs1 < 65536" and "qdcount msg2 = qdcount msg1"
    and "list_all2 (\<lambda>(ls1, tc1) (ls2, tc2). strcaseeq (name_string ls1) (name_string ls2) \<and> tc1 = tc2) qs1 qs2"
    and "MAXDNAME \<le> length name"
  shows "\<exists>crc. questions_crc msg1 n1 name = Some crc \<and> questions_crc msg2 n2 name = Some crc"
proof -
  have "map question_text qs1 = map question_text qs2"
    using assms(8)
    by (induction rule: list_all2_induct) (auto simp: question_text_def strcaseeq_def)
  moreover have "length qs2 = length qs1" using assms(8) by (simp add: list_all2_lengthD)
  moreover have "unat (of_nat (length qs1) :: u16) = length qs1" using assms(6) by (simp add: unat_of_nat)
  ultimately show ?thesis
    using questions_crc_loop_at [OF assms(1,3,9)] questions_crc_loop_at [OF assms(2,4,9)] assms(5,7)
    by (simp add: questions_crc_def)
qed

definition example_query_ptr :: bytes where
  "example_query_ptr = [0x56, 0x78, 1, 0, 0, 1, 0, 0, 0, 0, 0, 0,
     3, 87, 87, 87, 0xc0, 0x16, 0, 1, 0, 1, 2, 65, 66, 0, 9, 9, 9, 9]"

lemma questions_at_single:
  assumes "name_run False msg n p h ls e f" and "h \<le> 255" and "f + 4 \<le> n" and "e + 4 \<le> n"
    and "list_all (list_all name_text_char) ls" and "length (dotted ls) < MAXDNAME" and "tc = take 4 (drop e msg)"
  shows "questions_at msg n p [(ls, tc)]"
proof -
  have "questions_at msg n (e + 4) []" by simp
  then show ?thesis using assms by (simp only: questions_at.simps(2)) blast
qed

lemma questions_at_examples:
  "questions_at example_query 24 12 [([[119, 87, 119], [97, 98]], [0, 1, 0, 1])]"
  "questions_at example_query_ptr 30 12 [([[87, 87, 87], [65, 66]], [0, 1, 0, 1])]"
proof -
  have t: "list_all (list_all name_text_char) [[119, 87, 119], [97, 98]]" "list_all (list_all name_text_char) [[87, 87, 87], [65, 66]]"
    by (simp_all add: name_text_char_def isascii_def iscntrl_def)
  show "questions_at example_query 24 12 [([[119, 87, 119], [97, 98]], [0, 1, 0, 1])]"
    by (rule questions_at_single [OF name_run_example _ _ _ t(1)]) (simp_all add: MAXDNAME_def example_query_def)
  have "name_run False example_query_ptr 30 25 0 [] 26 26"
    using run_root [of 25 30 example_query_ptr] by (simp add: example_query_ptr_def)
  then have "name_run False example_query_ptr 30 22 0 [[65, 66]] 26 26"
    using run_label [of 22 30 example_query_ptr False 0 "[]" 26 26] by (simp add: example_query_ptr_def)
  then have "name_run False example_query_ptr 30 16 1 [[65, 66]] 18 26"
    using run_ptr [of 16 30 example_query_ptr False 0 "[[65, 66]]" 26 26]
    by (simp add: example_query_ptr_def is_ptr_def ptr_target_def)
  then have "name_run False example_query_ptr 30 12 1 [[87, 87, 87], [65, 66]] 18 26"
    using run_label [of 12 30 example_query_ptr False 1 "[[65, 66]]" 18 26] by (simp add: example_query_ptr_def)
  from questions_at_single [OF this _ _ _ t(2)]
  show "questions_at example_query_ptr 30 12 [([[87, 87, 87], [65, 66]], [0, 1, 0, 1])]"
    by (simp add: MAXDNAME_def example_query_ptr_def)
qed

theorem questions_crc_canonical_witness:
  "\<exists>crc. questions_crc example_query 24 (replicate 1025 0) = Some crc \<and>
         questions_crc example_query_ptr 30 (replicate 1025 0) = Some crc"
proof -
  have "strcaseeq (name_string [[119, 87, 119], [97, 98]]) (name_string [[87, 87, 87], [65, 66]])" by code_simp
  then show ?thesis
    by (intro questions_crc_canonical [OF questions_at_examples])
       (simp_all add: example_query_def example_query_ptr_def MAXDNAME_def qdcount_def ntohs2_def)
qed

subsection \<open>Walking over records\<close>

text \<open>The records of a section from \<open>p\<close> to \<open>q\<close>; a record is given by its start and the
  index behind its name, where its ten fixed bytes are.\<close>

definition rr_rdlen :: "bytes \<Rightarrow> nat \<Rightarrow> nat" where
  "rr_rdlen msg e = unat (ntohs2 (msg ! (e + 8)) (msg ! (e + 9)))"

definition rrec_type :: "bytes \<Rightarrow> nat \<Rightarrow> u16" where
  "rrec_type msg e = ntohs2 (msg ! e) (msg ! (e + 1))"

definition rrec_class :: "bytes \<Rightarrow> nat \<Rightarrow> u16" where
  "rrec_class msg e = ntohs2 (msg ! (e + 2)) (msg ! (e + 3))"

definition rr_next :: "bytes \<Rightarrow> nat \<Rightarrow> nat" where
  "rr_next msg e = e + 10 + rr_rdlen msg e"

fun rrs_at :: "bytes \<Rightarrow> nat \<Rightarrow> nat \<Rightarrow> (nat \<times> nat) list \<Rightarrow> nat \<Rightarrow> bool" where
  "rrs_at msg n p [] q \<longleftrightarrow> p = q"
| "rrs_at msg n p ((start, e) # rs) q \<longleftrightarrow>
     start = p \<and> (\<exists>h ls f. name_run False msg n p h ls e f) \<and> e + 10 \<le> n \<and> rr_next msg e \<le> n \<and>
     rrs_at msg n (rr_next msg e) rs q"

lemma rr_fields:
  assumes "e + 10 \<le> n" and "n \<le> length msg"
  shows "peek16 msg e = Some (rrec_type msg e)" "peek16 msg (e + 2) = Some (rrec_class msg e)"
    "\<exists>w. peek16 msg (e + 8) = Some w \<and> unat w = rr_rdlen msg e"
  using assms by (simp_all add: rrec_type_def rrec_class_def rr_rdlen_def numeral_eq_Suc)

lemma skip_section_at:
  "rrs_at msg n p rs q \<Longrightarrow> n \<le> length msg \<Longrightarrow> skip_section msg p (length rs) n = Some (Some q)"
proof (induction msg n p rs q rule: rrs_at.induct)
  case (2 msg n p start e rs q)
  obtain h ls f where w: "name_run False msg n p h ls e f" and e: "e + 10 \<le> n" "rr_next msg e \<le> n" using 2 by auto
  have "skip_name msg p n 10 = Some (Some e)" using skip_name_run [OF w "2.prems"(2), of 10] e by simp
  moreover obtain r where "peek16 msg (e + 8) = Some r" "unat r = rr_rdlen msg e" using rr_fields(3) [OF e(1) "2.prems"(2)] by blast
  ultimately show ?case using 2 e by (simp add: CHECK_LEN_def rr_next_def)
qed simp

definition opt_of :: "bytes \<Rightarrow> nat \<times> nat \<Rightarrow> (nat \<times> nat \<times> nat)" where
  "opt_of msg r = (fst r, rr_next msg (snd r) - fst r, snd r + 2)"

text \<open>The last OPT record, and whether the last record of all is a signature.\<close>

definition last_opt :: "bytes \<Rightarrow> (nat \<times> nat) list \<Rightarrow> (nat \<times> nat) option" where
  "last_opt msg rs = (case filter (\<lambda>r. rrec_type msg (snd r) = T_OPT) rs of [] \<Rightarrow> None | os \<Rightarrow> Some (last os))"

definition signed_section :: "bytes \<Rightarrow> (nat \<times> nat) list \<Rightarrow> bool" where
  "signed_section msg rs \<longleftrightarrow> rs \<noteq> [] \<and> rrec_class msg (snd (last rs)) = C_ANY \<and>
     (rrec_type msg (snd (last rs)) = T_SIG \<or> rrec_type msg (snd (last rs)) = T_TSIG)"

lemma pseudo_loop_at:
  "rrs_at msg n p rs q \<Longrightarrow> n \<le> length msg \<Longrightarrow>
   pseudo_loop (length rs) msg p n want ret is_sign =
     Some (case last_opt msg rs of None \<Rightarrow> ret | Some r \<Rightarrow> Some (opt_of msg r),
           is_sign \<or> (want \<and> signed_section msg rs))"
proof (induction msg n p rs q arbitrary: ret is_sign rule: rrs_at.induct)
  case (1 msg n p q)
  then show ?case by (simp add: last_opt_def signed_section_def)
next
  case (2 msg n p start e rs q)
  obtain h ls f where w: "name_run False msg n p h ls e f" and e: "e + 10 \<le> n" "rr_next msg e \<le> n" "start = p"
    "rrs_at msg n (rr_next msg e) rs q" using "2.prems" by auto
  have sk: "skip_name msg p n 10 = Some (Some e)" using skip_name_run [OF w "2.prems"(2), of 10] e by simp
  obtain r where r: "peek16 msg (e + 8) = Some r" "unat r = rr_rdlen msg e" using rr_fields(3) [OF e(1) "2.prems"(2)] by blast
  note f = rr_fields(1,2) [OF e(1) "2.prems"(2)]
  have ne: "T_OPT \<noteq> T_SIG" "T_OPT \<noteq> T_TSIG" by (simp_all add: packet_consts)
  let ?s = "want \<and> rs = [] \<and> rrec_class msg e = C_ANY \<and> (rrec_type msg e = T_SIG \<or> rrec_type msg e = T_TSIG)"
  have step: "pseudo_loop (length ((start, e) # rs)) msg p n want ret is_sign =
     pseudo_loop (length rs) msg (rr_next msg e) n want
       (if rrec_type msg e = T_OPT then Some (opt_of msg (p, e)) else ret) (is_sign \<or> ?s)"
    using sk r f e ne by (auto simp: CHECK_LEN_def rr_next_def Let_def opt_of_def)
  have lo: "last_opt msg ((start, e) # rs) =
      (case last_opt msg rs of None \<Rightarrow> (if rrec_type msg e = T_OPT then Some (start, e) else None) | Some r \<Rightarrow> Some r)"
    by (auto simp: last_opt_def split: list.splits)
  have ss: "want \<and> signed_section msg ((start, e) # rs) \<longleftrightarrow> ?s \<or> (want \<and> signed_section msg rs)"
    by (cases "rs = []") (auto simp: signed_section_def)
  show ?case
    unfolding step lo "2.IH" [OF e(4) "2.prems"(2)] using ss e(3) by (auto split: option.splits)
qed

fun question_ends :: "bytes \<Rightarrow> nat \<Rightarrow> nat \<Rightarrow> nat list \<Rightarrow> nat \<Rightarrow> bool" where
  "question_ends msg n p [] q \<longleftrightarrow> p = q"
| "question_ends msg n p (e # es) q \<longleftrightarrow>
     (\<exists>h ls f. name_run False msg n p h ls e f) \<and> e + 4 \<le> n \<and> question_ends msg n (e + 4) es q"

lemma skip_question_loop_at:
  "question_ends msg n p es q \<Longrightarrow> n \<le> length msg \<Longrightarrow> skip_question_loop (length es) msg p n = Some (Some q)"
proof (induction msg n p es q rule: question_ends.induct)
  case (2 msg n p e es q)
  then obtain h ls f where "name_run False msg n p h ls e f" "e + 4 \<le> n" "question_ends msg n (e + 4) es q" by auto
  then show ?case using skip_name_run [of msg n p h ls e f 4] 2 by simp
qed simp

lemma sign_question_loop_at:
  "question_ends msg n p es q \<Longrightarrow> n \<le> length msg \<Longrightarrow>
   sign_question_loop (length es) msg p n is_sign =
     Some (Some q, is_sign \<or> (\<exists>e \<in> set es. rrec_class msg e = C_IN \<and> rrec_type msg e = T_TKEY))"
proof (induction msg n p es q arbitrary: is_sign rule: question_ends.induct)
  case (2 msg n p e es q)
  then obtain h ls f where w: "name_run False msg n p h ls e f" "e + 4 \<le> n" "question_ends msg n (e + 4) es q" by auto
  have "peek16 msg e = Some (rrec_type msg e)" "peek16 msg (e + 2) = Some (rrec_class msg e)"
    using w(2) "2.prems"(2) by (simp_all add: rrec_type_def rrec_class_def numeral_eq_Suc)
  then show ?case using skip_name_run [OF w(1) "2.prems"(2), of 4] w 2 by auto
qed simp

text \<open>On a packet whose sections are well formed (and which is a query, when the caller asks whether the
  packet is signed), \<open>find_pseudoheader\<close> returns exactly the
  last OPT record of the additional section, with its length and the place of the UDP size, or
  NULL when there is none; and it reports the packet as signed exactly when a question asks for
  TKEY or the last record of all is a SIG or TSIG record.\<close>

theorem find_pseudoheader_finds:
  assumes "question_ends msg n 12 es q1" and "rrs_at msg n q1 rs1 q2" and "rrs_at msg n q2 rs2 q3"
    and "n \<le> length msg" and "want \<longrightarrow> OPCODE msg = Some 0"
    and "qdcount msg = Some qd" and "unat qd = length es" and "ancount msg = Some an" and "nscount msg = Some ns"
    and "unat an + unat ns = length rs1" and "arcount msg = Some ar" and "unat ar = length rs2"
  shows "find_pseudoheader msg n want =
     Some (map_option (opt_of msg) (last_opt msg rs2),
           want \<and> ((\<exists>e \<in> set es. rrec_class msg e = C_IN \<and> rrec_type msg e = T_TKEY) \<or> signed_section msg rs2))"
proof -
  have ar0: "ar = 0 \<longleftrightarrow> rs2 = []" using assms(12) by (metis length_0_conv unat_eq_zero)
  have nil: "last_opt msg [] = None" "\<not> signed_section msg []" by (simp_all add: last_opt_def signed_section_def)
  have q: "skip_questions msg n = Some (Some q1)"
    using skip_question_loop_at [OF assms(1,4)] assms(6,7) by (simp add: skip_questions_def)
  show ?thesis
    using sign_question_loop_at [OF assms(1,4), of False] q skip_section_at [OF assms(2,4)]
      pseudo_loop_at [OF assms(3,4), of want None] assms(5-) ar0 nil
    by (cases want; cases "rs2 = []") (auto simp: find_pseudoheader_def split: option.splits)
qed

definition example_edns :: bytes where
  "example_edns = [0, 7, 1, 0, 0, 1, 0, 0, 0, 0, 0, 1,  0, 0, 1, 0, 1,  0, 0, 41, 0x10, 0, 0, 0, 0, 0, 0, 0]"

theorem find_pseudoheader_finds_witness:
  "find_pseudoheader example_edns 28 True = Some (Some (17, 11, 20), False)"
proof -
  have "name_run False example_edns 28 12 0 [] 13 13" "name_run False example_edns 28 17 0 [] 18 18"
    using run_root [of 12 28 example_edns False] run_root [of 17 28 example_edns False] by (simp_all add: example_edns_def)
  then have "question_ends example_edns 28 12 [13] 17" "rrs_at example_edns 28 17 [] 17" "rrs_at example_edns 28 17 [(17, 18)] 28"
    by (auto simp: rr_next_def rr_rdlen_def example_edns_def ntohs2_def)
  from find_pseudoheader_finds [OF this, where want = True and qd = 1 and an = 0 and ns = 0 and ar = 1] show ?thesis
    by (simp add: example_edns_def OPCODE_def HB3_OPCODE_def count_defs ntohs2_def last_opt_def opt_of_def rrec_type_def rrec_class_def
        signed_section_def packet_consts rr_next_def rr_rdlen_def)
qed

text \<open>When the caller asks for the signature and the packet is no query, the questions are not skipped, and the
  walk over the records starts inside them: an UPDATE signed by TSIG is reported as not signed.\<close>

definition signed_update :: bytes where
  "signed_update = [0, 7, 0x28, 0, 0, 1, 0, 0, 0, 0, 0, 1,  1, 97, 0, 0, 6, 0, 1,  0, 0, 250, 0, 255, 0, 0, 0, 0, 0, 0]"

lemma signed_update_missed: "find_pseudoheader signed_update 30 True = Some (None, False)"
  by code_simp

text \<open>\<open>resize_packet\<close> cuts the packet behind its last record.\<close>

lemma resize_packet_cuts:
  assumes "question_ends msg n 12 es q1" and "rrs_at msg n q1 rs q2" and "n \<le> length msg"
    and "qdcount msg = Some qd" and "unat qd = length es" and "ancount msg = Some an" and "nscount msg = Some ns"
    and "arcount msg = Some ar" and "unat an + unat ns + unat ar = length rs"
  shows "resize_packet msg n None = Some (msg, q2)"
  using skip_question_loop_at [OF assms(1,3)] skip_section_at [OF assms(2,3)] assms(4-)
  by (simp add: resize_packet_def skip_questions_def)

subsection \<open>Records written\<close>

lemma poke16_put: "i + 2 \<le> length m \<Longrightarrow> poke16 m i v = Some (put_bytes m i (be16 v))"
  using put_bytes_append [of i "[ucast (drop_bit 8 v)]" "[ucast v]" m]
  by (simp add: list_update_put_bytes be16_def)

lemma poke_list_put: "i + length bs \<le> length m \<Longrightarrow> poke_list m i bs = Some (put_bytes m i bs)"
  by (simp add: poke_list_def)

lemma poke_put: "i + 1 \<le> length m \<Longrightarrow> poke m i v = Some (put_bytes m i [v])"
  by (simp add: list_update_put_bytes)

lemma put_bytes_overwrite:
  assumes "length B = length C" and "p + length (A @ B @ R) \<le> length m"
  shows "put_bytes (put_bytes m p (A @ B @ R)) (p + length A) C = put_bytes m p (A @ C @ R)"
  using assms by (auto simp: put_bytes_def)

fun rr_arg_bytes :: "rr_arg \<Rightarrow> bytes" where
  "rr_arg_bytes (Fmt_4 a) = take 4 a"
| "rr_arg_bytes (Fmt_s v) = be16 v"
| "rr_arg_bytes (Fmt_l v) = be32 v"
| "rr_arg_bytes (Fmt_d s) = encode_labels (wire_labels s) @ [0]"
| "rr_arg_bytes (Fmt_t n s) = take (unat n) s"
| "rr_arg_bytes (Fmt_z None) = [0]"
| "rr_arg_bytes (Fmt_z (Some s)) = of_nat (min 255 (length s)) # take 255 s"

fun wf_rr_arg :: "rr_arg \<Rightarrow> bool" where
  "wf_rr_arg (Fmt_4 a) \<longleftrightarrow> 4 \<le> length a"
| "wf_rr_arg (Fmt_t n s) \<longleftrightarrow> unat n \<le> length s"
| "wf_rr_arg (Fmt_z (Some s)) \<longleftrightarrow> length s < 65536"
| "wf_rr_arg _ \<longleftrightarrow> True"

lemma put_rr_arg_writes:
  assumes "wf_rr_arg arg" and "p + length (rr_arg_bytes arg) \<le> length m"
  shows "\<exists>off'. put_rr_arg arg (m, p, off) = Some (put_bytes m p (rr_arg_bytes arg), p + length (rr_arg_bytes arg), off')"
proof (cases arg)
  case (Fmt_d s)
  let ?e = "encode_labels (wire_labels s)"
  have "do_rfc1035_name m p s = Some (put_bytes m p ?e, p + length ?e)"
    using assms Fmt_d by (intro do_rfc1035_name_writes) simp
  then show ?thesis using assms Fmt_d put_bytes_append [of p ?e "[0]" m]
    by (simp add: put_rr_arg_def poke_put del: poke_Some)
next
  case (Fmt_z t)
  show ?thesis
  proof (cases t)
    case None
    then show ?thesis using assms Fmt_z by (simp add: put_rr_arg_def poke_put poke_list_def del: poke_Some)
  next
    case (Some s)
    have t: "take (min (length s) 255) s = take 255 s" by (simp add: min_def)
    show ?thesis
      using Some assms Fmt_z t put_bytes_append [of p "[of_nat (min 255 (length s))]" "take 255 s" m]
      by (simp add: put_rr_arg_def poke_put poke_list_def Let_def min.commute del: poke_Some)
  qed
qed (use assms in \<open>auto simp: put_rr_arg_def poke16_put poke32_def poke_list_put INADDRSZ_def min_def simp del: poke16_Some\<close>)

lemma put_rr_args_write:
  assumes "list_all wf_rr_arg args" and "p + length (concat (map rr_arg_bytes args)) \<le> length m"
  shows "\<exists>off'. foldM put_rr_arg args (m, p, off) =
     Some (put_bytes m p (concat (map rr_arg_bytes args)), p + length (concat (map rr_arg_bytes args)), off')"
  using assms
proof (induction args arbitrary: m p off)
  case (Cons a args)
  let ?b = "rr_arg_bytes a" and ?r = "concat (map rr_arg_bytes args)"
  obtain off1 where 1: "put_rr_arg a (m, p, off) = Some (put_bytes m p ?b, p + length ?b, off1)"
    using put_rr_arg_writes [of a p m off] Cons.prems by auto
  obtain off2 where "foldM put_rr_arg args (put_bytes m p ?b, p + length ?b, off1) =
      Some (put_bytes (put_bytes m p ?b) (p + length ?b) ?r, p + length ?b + length ?r, off2)"
    using Cons.IH [of "p + length ?b" "put_bytes m p ?b" off1] Cons.prems by auto
  then show ?case using 1 put_bytes_append [of p ?b ?r m] Cons.prems by (simp add: add.assoc)
qed simp

text \<open>The bytes of a record with the name given by a pointer.\<close>

definition rr_bytes :: "nat \<Rightarrow> u16 \<Rightarrow> u16 \<Rightarrow> u32 \<Rightarrow> bytes \<Rightarrow> bytes" where
  "rr_bytes nameoffset typ cls ttl rd =
     be16 (of_nat nameoffset OR 0xc000) @ be16 typ @ be16 cls @ be32 ttl @ be16 (of_nat (length rd)) @ rd"

lemma length_rr_bytes [simp]: "length (rr_bytes no ty cl ttl rd) = 12 + length rd"
  by (simp add: rr_bytes_def)

lemma add_resource_record_bytes:
  assumes "list_all wf_rr_arg args" and "pp + 12 + length (concat (map rr_arg_bytes args)) \<le> length msg"
    and "truncp \<noteq> Some True"
  shows "\<exists>off. add_resource_record msg limit truncp nameoffset pp ttl typ cls args =
     (let rd = concat (map rr_arg_bytes args); p = pp + 12 + length rd;
          msg' = put_bytes msg pp (rr_bytes nameoffset typ cls ttl rd)
      in if \<exists>l. limit = Some l \<and> l < p then Some (False, msg', pp, map_option (\<lambda>_. True) truncp, off)
         else Some (True, msg', p, truncp, off))"
proof -
  let ?rd = "concat (map rr_arg_bytes args)"
  let ?A = "be16 (of_nat nameoffset OR 0xc000) @ be16 typ @ be16 cls @ be32 ttl"
  have fixed: "do { m1 \<leftarrow> poke16 msg pp (of_nat nameoffset OR 0xc000); m2 \<leftarrow> poke16 m1 (pp + 2) typ;
      m3 \<leftarrow> poke16 m2 (pp + 4) cls; m4 \<leftarrow> poke32 m3 (pp + 6) ttl; poke16 m4 (pp + 10) 0 } = Some (put_bytes msg pp (?A @ be16 0))"
    using assms(2) put_bytes_append [of pp "be16 (of_nat nameoffset OR 0xc000)" "be16 typ" msg]
      put_bytes_append [of pp "be16 (of_nat nameoffset OR 0xc000) @ be16 typ" "be16 cls" msg]
      put_bytes_append [of pp "be16 (of_nat nameoffset OR 0xc000) @ be16 typ @ be16 cls" "be32 ttl" msg]
      put_bytes_append [of pp ?A "be16 0" msg]
    by (simp add: poke16_put poke32_def poke_list_put del: poke16_Some)
  obtain off where args: "foldM put_rr_arg args (put_bytes msg pp (?A @ be16 0), pp + 12, None) =
      Some (put_bytes (put_bytes msg pp (?A @ be16 0)) (pp + 12) ?rd, pp + 12 + length ?rd, off)"
    using put_rr_args_write [OF assms(1), of "pp + 12" "put_bytes msg pp (?A @ be16 0)" None] assms(2) by auto
  have all: "put_bytes (put_bytes msg pp (?A @ be16 0)) (pp + 12) ?rd = put_bytes msg pp (?A @ be16 0 @ ?rd)"
    using put_bytes_append [of pp "?A @ be16 0" ?rd msg] assms(2) by simp
  have len: "poke16 (put_bytes msg pp (?A @ be16 0 @ ?rd)) (pp + 10) (of_nat (length ?rd)) =
      Some (put_bytes msg pp (rr_bytes nameoffset typ cls ttl ?rd))"
    using put_bytes_overwrite [of "be16 0" "be16 (of_nat (length ?rd))" pp ?A ?rd msg] assms(2)
    by (simp add: poke16_put rr_bytes_def del: poke16_Some)
  have "add_resource_record msg limit truncp nameoffset pp ttl typ cls args =
    do { m5 \<leftarrow> do { m1 \<leftarrow> poke16 msg pp (of_nat nameoffset OR 0xc000); m2 \<leftarrow> poke16 m1 (pp + 2) typ;
           m3 \<leftarrow> poke16 m2 (pp + 4) cls; m4 \<leftarrow> poke32 m3 (pp + 6) ttl; poke16 m4 (pp + 10) 0 };
         (m6, p, offset) \<leftarrow> foldM put_rr_arg args (m5, pp + 12, None);
         m7 \<leftarrow> poke16 m6 (pp + 10) (of_nat (p - (pp + 10) - 2));
         if (case limit of None \<Rightarrow> False | Some l \<Rightarrow> l < p)
         then Some (False, m7, pp, map_option (\<lambda>_. True) truncp, offset)
         else Some (True, m7, p, truncp, offset) }"
    using assms(3) by (simp add: add_resource_record_def)
  also have "\<dots> = (if (case limit of None \<Rightarrow> False | Some l \<Rightarrow> l < pp + 12 + length ?rd)
         then Some (False, put_bytes msg pp (rr_bytes nameoffset typ cls ttl ?rd), pp, map_option (\<lambda>_. True) truncp, off)
         else Some (True, put_bytes msg pp (rr_bytes nameoffset typ cls ttl ?rd), pp + 12 + length ?rd, truncp, off))"
    unfolding fixed using args all len by simp
  finally show ?thesis by (cases limit) (auto simp: Let_def)
qed

text \<open>A name read inside the first \<open>n\<close> bytes is the same name in a longer packet.\<close>

lemma name_run_mono:
  assumes "name_run False msg n i h ls e f" and "take n msg' = take n msg" and "n \<le> length msg" and "n \<le> n'"
  shows "name_run False msg' n' i h ls e f"
proof -
  have same: "msg' ! j = msg ! j" if "j < n" for j
    using that assms(2,3) by (metis nth_take)
  have lab: "take k (drop j msg') = take k (drop j msg)" if "j + k \<le> n" for j k
  proof -
    have "take (k + j) (take n msg') = take (k + j) (take n msg)" using assms(2) by simp
    then have "take (k + j) msg' = take (k + j) msg" using that by (simp add: min_def)
    then show ?thesis by (simp add: take_drop)
  qed
  show ?thesis using assms(1)
  proof (induction rule: name_run.induct)
    case (run_root i)
    then show ?case using same [of i] assms(4) by (intro name_run.run_root) auto
  next
    case (run_label i h ls e f)
    then show ?case using same [of i] lab [of "i + 1" "unat (msg ! i)"] assms(4)
        name_run.run_label [of i n' msg' False h ls e f] by auto
  next
    case (run_ptr i h ls e f)
    then show ?case using same [of i] same [of "i + 1"] assms(4) name_run.run_ptr [of i n' msg' False h ls e f] by auto
  qed simp
qed

lemma ntohl4_be32: "ntohl4 (ucast (drop_bit 24 w)) (ucast (drop_bit 16 w)) (ucast (drop_bit 8 w)) (ucast (w :: u32)) = w"
  unfolding ntohl4_def
proof (rule bit_eqI)
  fix n
  assume "possible_bit TYPE(u32) n"
  then have n: "n < 32" by (simp add: possible_bit_def)
  consider "n < 8" | "8 \<le> n" "n < 16" | "16 \<le> n" "n < 24" | "24 \<le> n" by linarith
  then show "bit (push_bit 24 (ucast (ucast (drop_bit 24 w) :: byte)) OR push_bit 16 (ucast (ucast (drop_bit 16 w) :: byte)) OR
     push_bit 8 (ucast (ucast (drop_bit 8 w) :: byte)) OR ucast (ucast w :: byte) :: u32) n = bit w n"
    using n by cases (auto simp: bit_or_iff bit_push_bit_iff bit_ucast_iff bit_drop_bit_eq)
qed

lemma pointer_byte:
  fixes x :: byte
  assumes "x < 64"
  shows "is_ptr (x OR 0xc0)" "(x OR 0xc0) AND 0x3f = x"
proof -
  have "x < 64 \<longrightarrow> is_ptr (x OR 0xc0) \<and> (x OR 0xc0) AND 0x3f = x"
    by (rule byte_all [where P = "\<lambda>x. x < 64 \<longrightarrow> is_ptr (x OR 0xc0) \<and> (x OR 0xc0) AND 0x3f = x"]) code_simp
  then show "is_ptr (x OR 0xc0)" "(x OR 0xc0) AND 0x3f = x" using assms by blast+
qed

lemma pointer_bytes:
  assumes "off < 0x4000"
  shows "\<exists>hi lo. be16 (of_nat off OR 0xc000) = [hi, lo] \<and> is_ptr hi \<and> ptr_target hi lo = off"
proof -
  let ?w = "of_nat off :: u16"
  let ?x = "ucast (drop_bit 8 ?w) :: byte" and ?y = "ucast ?w :: byte"
  have w: "unat ?w = off" using assms by (simp add: unat_of_nat)
  have "unat (drop_bit 8 ?w) = off div 256" by (simp add: drop_bit_eq_div unat_div w)
  then have x: "unat ?x = off div 256" using assms by (simp add: unsigned_ucast_eq take_bit_eq_mod)
  have y: "unat ?y = off mod 256" by (simp add: unsigned_ucast_eq take_bit_eq_mod w)
  have "(ucast (?w OR 0xc000) :: byte) = ?y OR ucast (0xc000 :: u16)" by (rule unsigned_or_eq)
  also have "(ucast (0xc000 :: u16) :: byte) = 0" by simp
  finally have "(ucast (?w OR 0xc000) :: byte) = ?y" by simp
  then have b: "be16 (?w OR 0xc000) = [?x OR 0xc0, ?y]" by (simp add: be16_def unsigned_or_eq [of "drop_bit 8 ?w"])
  have "?x < 64" using x assms by (simp add: word_less_nat_alt)
  with b x y show ?thesis by (auto simp: ptr_target_def pointer_byte)
qed

text \<open>C33. \<open>add_resource_record\<close> is inverse to reading.  Let the name the record refers to stand
  in the packet before it, at an offset a compression pointer can hold, let there be room for the record, let strings be
  shorter than 65536 bytes, and let truncation not have been reported before.  Then the call writes exactly one
  record behind the packet and changes nothing else; read from where the record starts, its name is that very
  name, one pointer further away, and it has the given type, class, lifetime and data.  The pointer
  moves behind it, unless it ends beyond \<open>limit\<close>, when the call reports truncation and leaves the
  pointer where it was.\<close>

theorem add_resource_record_readable:
  assumes "name_run False msg pp nameoffset h ls e f" and "nameoffset < 0x4000" and "pp \<le> length msg"
    and "list_all wf_rr_arg args" and "rd = concat (map rr_arg_bytes args)" and "length rd < 65536"
    and "p = pp + 12 + length rd" and "p \<le> length msg" and "truncp \<noteq> Some True"
  shows "\<exists>ok msg' pp' tr off. add_resource_record msg limit truncp nameoffset pp ttl typ cls args = Some (ok, msg', pp', tr, off) \<and>
     length msg' = length msg \<and> take pp msg' = take pp msg \<and> drop p msg' = drop p msg \<and>
     name_run False msg' p pp (Suc h) ls (pp + 2) f \<and>
     rrs_at msg' p pp [(pp, pp + 2)] p \<and> rrec_type msg' (pp + 2) = typ \<and> rrec_class msg' (pp + 2) = cls \<and>
     peek32 msg' (pp + 6) = Some ttl \<and> take (length rd) (drop (pp + 12) msg') = rd \<and>
     (if \<exists>l. limit = Some l \<and> l < p then \<not> ok \<and> pp' = pp \<and> tr = map_option (\<lambda>_. True) truncp
      else ok \<and> pp' = p \<and> tr = truncp)"
proof -
  define msg' where "msg' = put_bytes msg pp (rr_bytes nameoffset typ cls ttl rd)"
  have len: "length msg' = length msg" using assms(7,8) by (simp add: msg'_def)
  obtain hi lo where ptr: "be16 (of_nat nameoffset OR 0xc000) = [hi, lo]" "is_ptr hi" "ptr_target hi lo = nameoffset"
    using pointer_bytes [OF assms(2)] by blast
  have d: "drop pp msg' = rr_bytes nameoffset typ cls ttl rd @ drop p msg"
    using assms(3,7) by (simp add: msg'_def put_bytes_def add.assoc)
  have nth: "msg' ! (pp + k) = rr_bytes nameoffset typ cls ttl rd ! k" if "k < 12 + length rd" for k
  proof -
    have "msg' ! (pp + k) = drop pp msg' ! k" using that len assms(7,8) by (simp add: nth_drop)
    then show ?thesis using d that by (simp add: nth_append)
  qed
  have tk: "take pp msg' = take pp msg" using assms(3) by (simp add: msg'_def put_bytes_def)
  have rl: "unat (of_nat (length rd) :: u16) = length rd" using assms(6) by (simp add: unat_of_nat)
  have nth2: "msg' ! (pp + 2 + k) = rr_bytes nameoffset typ cls ttl rd ! (2 + k)" if "k < 10 + length rd" for k
    using nth [of "2 + k"] that by (simp add: add.assoc)
  have bytes: "msg' ! pp = hi" "msg' ! (pp + 1) = lo" "rrec_type msg' (pp + 2) = typ" "rrec_class msg' (pp + 2) = cls"
    "rr_rdlen msg' (pp + 2) = length rd"
    using nth [of 0] nth [of 1] nth2 [of 0] nth2 [of 1] nth2 [of 2] nth2 [of 3] nth2 [of 8] nth2 [of 9] ptr(1) rl
    by (simp_all add: rr_bytes_def rrec_type_def rrec_class_def rr_rdlen_def be16_def be32_def)
  have ttl: "peek32 msg' (pp + 6) = Some ttl"
  proof -
    show ?thesis
      using ntohl4_be32 [of ttl] nth [of 6] nth [of 7] nth [of 8] nth [of 9] len assms(7,8)
      by (simp add: rr_bytes_def be16_def be32_def numeral_eq_Suc)
  qed
  have "name_run False msg' p nameoffset h ls e f"
    using name_run_mono [OF assms(1) tk assms(3)] assms(7) by simp
  then have nm: "name_run False msg' p pp (Suc h) ls (pp + 2) f"
    using run_ptr [of pp p msg' False h ls e f] bytes(1,2) ptr(2,3) assms(7) by simp
  have rrs: "rrs_at msg' p pp [(pp, pp + 2)] p" using nm bytes(5) assms(7) by (auto simp: rr_next_def)
  have rdat: "take (length rd) (drop (pp + 12) msg') = rd"
    using arg_cong [OF d, of "drop 12"] by (simp add: rr_bytes_def be16_def be32_def add.commute numeral_eq_Suc)
  have dp: "drop p msg' = drop p msg" using assms(3,7) by (simp add: msg'_def put_bytes_def add.assoc)
  have room: "pp + 12 + length (concat (map rr_arg_bytes args)) \<le> length msg" using assms(5,7,8) by simp
  obtain off where "add_resource_record msg limit truncp nameoffset pp ttl typ cls args =
     (if \<exists>l. limit = Some l \<and> l < p then Some (False, msg', pp, map_option (\<lambda>_. True) truncp, off)
      else Some (True, msg', p, truncp, off))"
    using add_resource_record_bytes [OF assms(4) room assms(9), of limit nameoffset ttl "typ" cls]
    unfolding Let_def assms(5) [symmetric] assms(7) [symmetric] msg'_def [symmetric] by blast
  then show ?thesis using len tk dp nm rrs bytes ttl rdat by auto
qed

theorem add_resource_record_readable_witness:
  "\<exists>ok msg' pp' tr off. add_resource_record (example_query @ replicate 40 0) (Some 38) (Some False) 12 24 300 T_A C_IN
       [Fmt_4 [10, 0, 0, 1]] = Some (ok, msg', pp', tr, off) \<and> \<not> ok \<and> pp' = 24 \<and> tr = Some True \<and>
     take 4 (drop 36 msg') = [10, 0, 0, 1]"
proof -
  have "name_run False (example_query @ replicate 40 0) 24 12 0 [[119, 87, 119], [97, 98]] 20 20"
    by (rule name_run_mono [OF name_run_example]) (simp_all add: example_query_def)
  note w = add_resource_record_readable [OF this, of "[Fmt_4 [10, 0, 0, 1]]" "[10, 0, 0, 1]" 40 "Some False" "Some 38" 300 T_A C_IN]
  have c: "(12 :: nat) < 0x4000" "24 \<le> length (example_query @ replicate 40 0)" "list_all wf_rr_arg [Fmt_4 [10, 0, 0, 1]]"
    "[10, 0, 0, 1] = concat (map rr_arg_bytes [Fmt_4 [10, 0, 0, 1]])" "length [10, 0, 0, 1 :: byte] < 65536"
    "40 = 24 + 12 + length [10, 0, 0, 1 :: byte]" "40 \<le> length (example_query @ replicate 40 0)" "Some False \<noteq> Some True"
    by (simp_all add: example_query_def)
  have four: "take 4 xs = take (Suc (Suc (Suc (Suc 0)))) xs" for xs :: bytes by (simp add: numeral_eq_Suc)
  show ?thesis using w [OF c] by (elim exE conjE) (simp add: exI four)
qed

subsection \<open>Replies\<close>

definition reply_rcode :: "u32 \<Rightarrow> byte" where
  "reply_rcode flags = (if flags = F_NEG then 2 else if flags = F_NOERR \<or> flags = F_IPV4 then 0
     else if flags = F_NXDOMAIN then 3 else 5)"

definition reply_header :: "bytes \<Rightarrow> u32 \<Rightarrow> bytes" where
  "reply_header msg flags =
     msg[2 := (msg ! 2 AND NOT (HB3_AA OR HB3_TC)) OR HB3_QR OR (if flags = F_IPV4 then HB3_AA else 0),
         3 := ((msg ! 3 OR HB4_RA) AND NOT HB4_RCODE) OR reply_rcode flags,
         6 := 0, 7 := (if flags = F_IPV4 then 1 else 0), 8 := 0, 9 := 0, 10 := 0, 11 := 0]"

lemma flag_values_distinct:
  "F_IPV4 \<noteq> F_NEG" "F_IPV4 \<noteq> F_NOERR" "F_IPV4 \<noteq> F_NXDOMAIN" "F_NEG \<noteq> F_NOERR" "F_NEG \<noteq> F_NXDOMAIN" "F_NOERR \<noteq> F_NXDOMAIN"
  by (simp_all add: F_IPV4_def F_NEG_def F_NOERR_def F_NXDOMAIN_def)

lemma setup_reply_header:
  assumes "skip_questions msg n = Some p" and "12 \<le> length msg" and "flags \<noteq> F_IPV4 \<or> p = None"
  shows "\<exists>msg'. setup_reply msg n addr flags ttl = Some (p, msg') \<and>
     (flags \<noteq> F_IPV4 \<longrightarrow> msg' = reply_header msg flags)"
proof -
  have upd: "msg[2 := a, 3 := b, 8 := 0, 9 := 0, 10 := 0, 11 := 0, 6 := 0, 7 := 0, 3 := c] =
      msg[2 := a, 3 := c, 6 := 0, 7 := 0, 8 := 0, 9 := 0, 10 := 0, 11 := 0]" for a b c
    using assms(2) by (intro nth_equalityI) (simp_all add: nth_list_update)
  show ?thesis
    using assms upd flag_values_distinct
    by (cases p) (simp_all add: setup_reply_def set_rcode_def reply_header_def reply_rcode_def)
qed

lemma setup_reply_address:
  assumes "skip_questions msg n = Some (Some q)" and "12 \<le> q" and "q + 16 \<le> length msg" and "length addr = 4"
  shows "setup_reply msg n addr F_IPV4 ttl =
     Some (Some (q + 16), put_bytes (reply_header msg F_IPV4) q (rr_bytes 12 T_A C_IN ttl addr))"
proof -
  define m8 where "m8 = reply_header msg F_IPV4"
  have upd: "msg[2 := a, 3 := b, 8 := 0, 9 := 0, 10 := 0, 11 := 0, 6 := 0, 7 := 0, 3 := c, 6 := 0, 7 := 1, 2 := d] =
      msg[2 := d, 3 := c, 6 := 0, 7 := 1, 8 := 0, 9 := 0, 10 := 0, 11 := 0]" for a b c d
    using assms(2,3) by (intro nth_equalityI) (simp_all add: nth_list_update)
  have l8: "length m8 = length msg" by (simp add: m8_def reply_header_def)
  have w: "list_all wf_rr_arg [Fmt_4 addr]" "q + 12 + length (concat (map rr_arg_bytes [Fmt_4 addr])) \<le> length m8"
    "None \<noteq> Some True"
    using assms l8 by simp_all
  obtain off where "add_resource_record m8 None None 12 q ttl T_A C_IN [Fmt_4 addr] =
      Some (True, put_bytes m8 q (rr_bytes 12 T_A C_IN ttl addr), q + 16, None, off)"
    using add_resource_record_bytes [OF w, of None 12 ttl T_A C_IN] assms(4) by (auto simp: Let_def)
  moreover have "12 \<le> length msg" using assms by simp
  ultimately show ?thesis
    using assms flag_values_distinct upd
    by (simp add: setup_reply_def set_rcode_def m8_def reply_header_def reply_rcode_def or.assoc)
qed

lemma question_ends_le: "question_ends msg n p es q \<Longrightarrow> p \<le> q"
  by (induction msg n p es q rule: question_ends.induct) (auto dest!: name_run_end)

lemma rcode_bits:
  fixes b :: byte
  shows "c = 0 \<or> c = 2 \<or> c = 3 \<or> c = 5 \<Longrightarrow> (((b OR HB4_RA) AND NOT HB4_RCODE) OR c) AND 0x0f = c \<and>
     (((b OR HB4_RA) AND NOT HB4_RCODE) OR c) AND 0x80 = 0x80"
proof -
  have "\<forall>c \<in> set [0, 2, 3, 5]. (((b OR HB4_RA) AND NOT HB4_RCODE) OR c) AND 0x0f = c \<and>
     (((b OR HB4_RA) AND NOT HB4_RCODE) OR c) AND 0x80 = 0x80"
    by (rule byte_all [where P = "\<lambda>b. \<forall>c \<in> set [0, 2, 3, 5]. (((b OR HB4_RA) AND NOT HB4_RCODE) OR c) AND 0x0f = c \<and>
     (((b OR HB4_RA) AND NOT HB4_RCODE) OR c) AND 0x80 = 0x80"]) code_simp
  then show "c = 0 \<or> c = 2 \<or> c = 3 \<or> c = 5 \<Longrightarrow> (((b OR HB4_RA) AND NOT HB4_RCODE) OR c) AND 0x0f = c \<and>
     (((b OR HB4_RA) AND NOT HB4_RCODE) OR c) AND 0x80 = 0x80" by auto
qed

lemma hb3_bits:
  fixes b :: byte
  assumes "x = 0 \<or> x = HB3_AA"
  shows "((b AND NOT (HB3_AA OR HB3_TC)) OR HB3_QR OR x) AND 0x86 = 0x80 OR x"
    "((b AND NOT (HB3_AA OR HB3_TC)) OR HB3_QR OR x) AND 0x79 = b AND 0x79"
proof -
  have "\<forall>x \<in> set [0, HB3_AA]. ((b AND NOT (HB3_AA OR HB3_TC)) OR HB3_QR OR x) AND 0x86 = 0x80 OR x \<and>
     ((b AND NOT (HB3_AA OR HB3_TC)) OR HB3_QR OR x) AND 0x79 = b AND 0x79"
    by (rule byte_all [where P = "\<lambda>b. \<forall>x \<in> set [0, HB3_AA]. ((b AND NOT (HB3_AA OR HB3_TC)) OR HB3_QR OR x) AND 0x86 = 0x80 OR x \<and>
     ((b AND NOT (HB3_AA OR HB3_TC)) OR HB3_QR OR x) AND 0x79 = b AND 0x79"]) code_simp
  with assms show "((b AND NOT (HB3_AA OR HB3_TC)) OR HB3_QR OR x) AND 0x86 = 0x80 OR x"
    "((b AND NOT (HB3_AA OR HB3_TC)) OR HB3_QR OR x) AND 0x79 = b AND 0x79" by auto
qed

lemma reply_header_facts:
  assumes "12 \<le> length msg" and "12 \<le> q" and "q \<le> length m" and "length msg = length m"
    and "take q m = take q (reply_header msg flags)"
  shows "m ! 2 AND 0x86 = (if flags = F_IPV4 then 0x84 else 0x80)" "m ! 2 AND 0x79 = msg ! 2 AND 0x79"
    "m ! 3 AND 0x0f = reply_rcode flags" "m ! 3 AND 0x80 = 0x80" "take 2 m = take 2 msg"
    "qdcount m = qdcount msg" "ancount m = Some (if flags = F_IPV4 then 1 else 0)" "nscount m = Some 0" "arcount m = Some 0"
    "take (q - 12) (drop 12 m) = take (q - 12) (drop 12 msg)"
proof -
  have len: "length (reply_header msg flags) = length msg" by (simp add: reply_header_def)
  have k: "m ! k = reply_header msg flags ! k" if "k < 12" for k
    using that assms by (metis (no_types, lifting) nth_take order_less_le_trans)
  have h: "reply_header msg flags ! 2 = (msg ! 2 AND NOT (HB3_AA OR HB3_TC)) OR HB3_QR OR (if flags = F_IPV4 then HB3_AA else 0)"
    "reply_header msg flags ! 3 = ((msg ! 3 OR HB4_RA) AND NOT HB4_RCODE) OR reply_rcode flags"
    using assms(1) by (simp_all add: reply_header_def nth_list_update)
  show "m ! 2 AND 0x86 = (if flags = F_IPV4 then 0x84 else 0x80)" "m ! 2 AND 0x79 = msg ! 2 AND 0x79"
    using k [of 2] h(1) hb3_bits [of "if flags = F_IPV4 then HB3_AA else 0" "msg ! 2"] by (auto simp: HB3_AA_def)
  show "m ! 3 AND 0x0f = reply_rcode flags" "m ! 3 AND 0x80 = 0x80"
    using k [of 3] h(2) rcode_bits [of "reply_rcode flags" "msg ! 3"] by (auto simp: reply_rcode_def)
  have t: "take j m = take j (reply_header msg flags)" if "j \<le> q" for j
    using that assms(5) by (metis min.absorb1 take_take)
  show "take 2 m = take 2 msg" using t [of 2] assms(2) by (simp add: reply_header_def)
  show "qdcount m = qdcount msg" using k [of 4] k [of 5] assms(1,4) by (simp add: qdcount_def reply_header_def nth_list_update)
  show "ancount m = Some (if flags = F_IPV4 then 1 else 0)" "nscount m = Some 0" "arcount m = Some 0"
    using k [of 6] k [of 7] k [of 8] k [of 9] k [of 10] k [of 11] assms(1,4)
    by (simp_all add: ancount_def nscount_def arcount_def reply_header_def nth_list_update ntohs2_def)
  have "drop 12 (take q m) = drop 12 (take q (reply_header msg flags))" using assms(5) by simp
  then show "take (q - 12) (drop 12 m) = take (q - 12) (drop 12 msg)" by (simp add: drop_take reply_header_def)
qed

text \<open>C32. \<open>setup_reply\<close> turns a query with well-formed questions into the reply it should be: QR and
  RA set, TC clear, AA set exactly for an address, the code for each kind of answer, the
  opcode, RD bit, id and questions kept, no authority and additional records, and for
  \<open>F_IPV4\<close> one answer, an A record that points back to the question's name; the returned
  length is the end of the last thing in the packet.\<close>

theorem setup_reply_correct:
  assumes "question_ends msg n 12 es q" and "n \<le> length msg" and "qdcount msg = Some qd" and "unat qd = length es"
    and "q + 16 \<le> length msg" and "length addr = 4"
  shows "\<exists>m e. setup_reply msg n addr flags ttl = Some (Some e, m) \<and> length m = length msg \<and>
     m ! 2 AND 0x86 = (if flags = F_IPV4 then 0x84 else 0x80) \<and> m ! 2 AND 0x79 = msg ! 2 AND 0x79 \<and>
     m ! 3 AND 0x0f = reply_rcode flags \<and> m ! 3 AND 0x80 = 0x80 \<and> take 2 m = take 2 msg \<and>
     qdcount m = qdcount msg \<and> ancount m = Some (if flags = F_IPV4 then 1 else 0) \<and> nscount m = Some 0 \<and> arcount m = Some 0 \<and>
     take (q - 12) (drop 12 m) = take (q - 12) (drop 12 msg) \<and>
     (if flags = F_IPV4 then e = q + 16 \<and> take 16 (drop q m) = rr_bytes 12 T_A C_IN ttl addr else e = q)"
proof -
  have q: "12 \<le> q" by (rule question_ends_le [OF assms(1)])
  have l: "12 \<le> length msg" using q assms(5) by simp
  have sk: "skip_questions msg n = Some (Some q)"
    using skip_question_loop_at [OF assms(1,2)] assms(3,4) by (simp add: skip_questions_def)
  have rl: "length (reply_header msg flags) = length msg" by (simp add: reply_header_def)
  show ?thesis
  proof (cases "flags = F_IPV4")
    case True
    let ?m = "put_bytes (reply_header msg flags) q (rr_bytes 12 T_A C_IN ttl addr)"
    have lm: "length msg = length ?m" using assms(5,6) rl by simp
    have tq: "take q ?m = take q (reply_header msg flags)" "take 16 (drop q ?m) = rr_bytes 12 T_A C_IN ttl addr"
      using assms(5,6) rl by (simp_all add: put_bytes_def)
    have qm: "q \<le> length ?m" using assms(5) lm by linarith
    show ?thesis
      using setup_reply_address [OF sk q assms(5,6)] reply_header_facts [OF l q qm lm tq(1)] tq(2) lm True by auto
  next
    case False
    have "setup_reply msg n addr flags ttl = Some (Some q, reply_header msg flags)"
      using setup_reply_header [OF sk l, of flags addr ttl] False by auto
    moreover have qm: "q \<le> length (reply_header msg flags)" using assms(5) rl by linarith
    ultimately show ?thesis
      using reply_header_facts [OF l q qm rl [symmetric] refl] rl False
      by (intro exI [of _ "reply_header msg flags"] exI [of _ q]) simp
  qed
qed

theorem setup_reply_correct_witness:
  "\<exists>m. setup_reply (example_edns @ replicate 20 0) 28 [10, 0, 0, 1] F_IPV4 60 = Some (Some 33, m) \<and>
     ancount m = Some 1 \<and> arcount m = Some 0"
proof -
  have "name_run False (example_edns @ replicate 20 0) 28 12 0 [] 13 13"
    using run_root [of 12 28 "example_edns @ replicate 20 0" False] by (simp add: example_edns_def)
  then have "question_ends (example_edns @ replicate 20 0) 28 12 [13] 17" unfolding question_ends.simps by fastforce
  note w = setup_reply_correct [OF this, of 1 "[10, 0, 0, 1]" F_IPV4 60]
  have c: "28 \<le> length (example_edns @ replicate 20 0)" "qdcount (example_edns @ replicate 20 0) = Some 1"
    "unat (1 :: u16) = length [13 :: nat]" "17 + 16 \<le> length (example_edns @ replicate 20 0)" "length [10, 0, 0, 1 :: byte] = 4"
    by (simp_all add: example_edns_def qdcount_def ntohs2_def)
  show ?thesis using w [OF c] by (elim exE conjE) (simp add: exI)
qed

text \<open>When the questions cannot be skipped the pointer is NULL, yet the difference to the
  header is returned as the length of the reply.\<close>

lemma setup_reply_null_length:
  assumes "skip_questions msg n = Some None" and "12 \<le> length msg"
  shows "\<exists>m. setup_reply msg n addr flags ttl = Some (None, m)"
  using setup_reply_header [OF assms, of flags addr ttl] by blast

lemma setup_reply_null_length_example:
  "skip_questions [0, 7, 1, 0, 0, 1, 0, 0, 0, 0, 0, 0, 0x80] 13 = Some None"
  by code_simp

text \<open>The limit is looked at only after the record was written: with a buffer that ends at
  the limit the write itself is out of bounds.\<close>

lemma add_resource_record_overruns:
  "add_resource_record (replicate 24 0) (Some 24) (Some False) 12 20 300 T_A C_IN [Fmt_4 [10, 0, 0, 1]] = None"
  by code_simp

subsection \<open>Logging leaves the packet alone\<close>

lemma txt_shift_spec:
  assumes "p + n < length msg" and "w = takeWhile isprint (take n (drop (p + 1) msg))"
  shows "txt_shift n msg p i = Some (put_bytes msg p w, p + length w, i + length w)"
  using assms
proof (induction n arbitrary: msg p i w)
  case (Suc n)
  let ?c = "msg ! (p + 1)"
  have d: "take (Suc n) (drop (p + 1) msg) = ?c # take n (drop (p + 2) msg)"
    using Suc.prems(1) by (simp add: Cons_nth_drop_Suc [symmetric])
  show ?case
  proof (cases "isprint ?c")
    case False
    then show ?thesis using Suc.prems d by simp
  next
    case True
    define v where "v = takeWhile isprint (take n (drop (p + 2) msg))"
    have w: "w = ?c # v" using Suc.prems(2) d True by (simp add: v_def)
    have lv: "length v \<le> n"
      unfolding v_def by (rule order_trans [OF length_takeWhile_le]) simp
    have "txt_shift n (msg[p := ?c]) (p + 1) (i + 1) =
        Some (put_bytes (msg[p := ?c]) (p + 1) v, p + 1 + length v, i + 1 + length v)"
      using Suc.prems(1) by (intro Suc.IH) (simp_all add: v_def drop_update_cancel)
    moreover have "put_bytes (msg[p := ?c]) (p + 1) v = put_bytes msg p w"
      using put_bytes_append [of p "[?c]" v msg] Suc.prems(1) lv by (simp add: list_update_put_bytes w)
    ultimately show ?thesis using Suc.prems(1) True by (simp add: w)
  qed
qed simp

lemma put_bytes_self: "p + length bs \<le> length m \<Longrightarrow> bs = take (length bs) (drop p m) \<Longrightarrow> put_bytes m p bs = m"
  by (metis append_take_drop_id drop_drop add.commute put_bytes_def)

lemma txt_log_restores:
  assumes "p + unat (msg ! p) < length msg"
  shows "\<exists>logged. txt_log msg p = Some (msg, logged, p + unat (msg ! p) + 1) \<and>
     logged = takeWhile isprint (take (unat (msg ! p)) (drop (p + 1) msg))"
proof -
  define n where "n = unat (msg ! p)"
  define w where "w = takeWhile isprint (take n (drop (p + 1) msg))"
  have lw: "length w \<le> n" unfolding w_def by (rule order_trans [OF length_takeWhile_le]) simp
  have fit: "p + n < length msg" using assms by (simp add: n_def)
  have sh: "txt_shift n msg p 0 = Some (put_bytes msg p w, p + length w, length w)"
    using txt_shift_spec [OF fit w_def, of 0] by simp
  define m2 where "m2 = put_bytes msg p (w @ [0])"
  have m2: "(put_bytes msg p w)[p + length w := 0] = m2"
    using put_bytes_append [of p w "[0]" msg] fit lw by (simp add: list_update_put_bytes m2_def)
  have d2: "drop p m2 = w @ 0 # drop (p + length w + 1) msg" using fit by (simp add: m2_def put_bytes_def)
  have "\<not> isprint 0" by (simp add: isprint_def)
  then have nz: "0 \<notin> set w" unfolding w_def by (meson set_takeWhileD)
  have l2: "length m2 = length msg" using fit lw by (simp add: m2_def)
  have w': "w = take (length w) (drop (p + 1) msg)"
  proof -
    have "w = take (length w) (take n (drop (p + 1) msg))" unfolding w_def by (rule takeWhile_eq_take)
    then show ?thesis using lw by (simp add: min_def)
  qed
  have m4: "(put_bytes m2 (p + 1) w)[p := msg ! p] = msg"
  proof -
    have "(put_bytes m2 (p + 1) w)[p := msg ! p] = put_bytes m2 p (msg ! p # w)"
      using put_bytes_swap [of p w m2 "msg ! p"] fit lw l2 by simp
    also have "\<dots> = put_bytes msg p (msg ! p # w)"
      using fit lw by (simp add: m2_def put_bytes_def)
    also have "\<dots> = msg"
    proof (rule put_bytes_self)
      have "take (length (msg ! p # w)) (drop p msg) = msg ! p # take (length w) (drop (p + 1) msg)"
        using fit by (simp add: Cons_nth_drop_Suc [symmetric])
      then show "msg ! p # w = take (length (msg ! p # w)) (drop p msg)" using w' by simp
    qed (use fit lw in simp)
    finally show ?thesis .
  qed
  have "txt_log msg p = Some (msg, w, p + n + 1)"
    using fit lw sh m2 d2 nz l2 m4 by (simp add: txt_log_def n_def [symmetric] poke_list_def)
  then show ?thesis unfolding w_def n_def by blast
qed

end
