(* ===== verification/Dnsmasq_Cache.thy ===== *)
theory Dnsmasq_Cache
  imports Dnsmasq_Util
begin

section \<open>dnsmasq: the cache (src/dnsmasq/.../src/cache.c)\<close>

text \<open>
  The cache of names and addresses.  Records are found by name through a hash table; records
  learnt from upstream also stand in one list ordered by recency of use, from which the least
  recently used ones are taken for reuse, while records from the hosts file and from DHCP stand
  in the hash table only.

  The state \<open>cst\<close> keeps the records by address (\<open>recs\<close>).  The doubly linked list
  \<open>cache_head\<close> ... \<open>cache_tail\<close> is the list \<open>lru\<close> of addresses, a hash chain is the
  list of the addresses on it, \<open>new_chain\<close> is the list \<open>new_ch\<close>.  Unlinking a record that is
  not in the list would corrupt it; this is the value \<open>None\<close>, so that \<open>Some\<close> shows it does
  not happen.  The field \<open>next\<close> of a record outside the list is \<open>c_next\<close>.  The union of an
  address and a CNAME target is kept as separate fields, of which \<open>F_CNAME\<close> selects one.  The
  mixing table of the hash function is whatever lies in memory at \<open>typestr\<close>: it is a
  component of the state about which nothing is assumed.
\<close>

subsection \<open>Records and flags (dnsmasq.h)\<close>

definition CF_IMMORTAL :: u16 where "CF_IMMORTAL = 0x1"
definition CF_NAMEP :: u16 where "CF_NAMEP = 0x2"
definition CF_REVERSE :: u16 where "CF_REVERSE = 0x4"
definition CF_FORWARD :: u16 where "CF_FORWARD = 0x8"
definition CF_DHCP :: u16 where "CF_DHCP = 0x10"
definition CF_NEG :: u16 where "CF_NEG = 0x20"
definition CF_HOSTS :: u16 where "CF_HOSTS = 0x40"
definition CF_IPV4 :: u16 where "CF_IPV4 = 0x80"
definition CF_IPV6 :: u16 where "CF_IPV6 = 0x100"
definition CF_BIGNAME :: u16 where "CF_BIGNAME = 0x200"
definition CF_NXDOMAIN :: u16 where "CF_NXDOMAIN = 0x400"
definition CF_CNAME :: u16 where "CF_CNAME = 0x800"
definition CF_TYPE :: u16 where "CF_TYPE = 0x5180"

lemmas cf_defs = CF_IMMORTAL_def CF_NAMEP_def CF_REVERSE_def CF_FORWARD_def CF_DHCP_def CF_NEG_def CF_HOSTS_def
  CF_IPV4_def CF_IPV6_def CF_BIGNAME_def CF_NXDOMAIN_def CF_CNAME_def CF_TYPE_def

record crec =
  c_flags :: u16
  c_name :: bytes
  c_addr :: bytes
  cn_cache :: "nat option"
  cn_uid :: u32
  c_ttd :: int
  c_uid :: u32
  c_next :: "nat option"

record cst =
  recs :: "nat \<Rightarrow> crec"
  lru :: "nat list"
  table :: "nat list list"
  new_ch :: "nat list"
  insert_error :: bool
  big_free :: nat
  bignames_left :: nat
  uid :: u32
  cache_inserted :: nat
  cache_live_freed :: nat
  mix_tab :: "nat \<Rightarrow> byte"
  max_cache_ttl :: u32

definition has :: "u16 \<Rightarrow> crec \<Rightarrow> bool" where
  "has m c \<longleftrightarrow> c_flags c AND m \<noteq> 0"

text \<open>Records of the hosts file and of DHCP, which stand in the hash table only.\<close>

definition fixed_rec :: "crec \<Rightarrow> bool" where
  "fixed_rec c \<longleftrightarrow> has (CF_HOSTS OR CF_DHCP) c"

definition SMALLDNAME :: nat where "SMALLDNAME = 40"

subsection \<open>The hash table\<close>

definition hash_step :: "(nat \<Rightarrow> byte) \<Rightarrow> byte \<Rightarrow> u32 \<Rightarrow> u32" where
  "hash_step mix ch val = (let c = ucast (if 65 \<le> ch \<and> ch \<le> 90 then ch + 32 else ch) :: u32 in
     (push_bit 7 val OR drop_bit 25 val) + (ucast (mix (unat ((val + c) AND 0x3F))) XOR c))"

definition hash_val :: "(nat \<Rightarrow> byte) \<Rightarrow> bytes \<Rightarrow> u32" where
  "hash_val mix name = fold (hash_step mix) name 0x1F35"

text \<open>The index of the bucket; \<open>hash_size\<close> is the length of the table.\<close>

definition hash_bucket :: "cst \<Rightarrow> bytes \<Rightarrow> nat" where
  "hash_bucket s name = (let val = hash_val (mix_tab s) name in
     unat ((val XOR drop_bit 16 val) AND (of_nat (length (table s)) - 1)))"

definition chain_place :: "(nat \<Rightarrow> crec) \<Rightarrow> nat \<Rightarrow> nat list \<Rightarrow> nat list" where
  "chain_place rs a ch =
     (if has CF_REVERSE (rs a) then a # ch
      else let pre = takeWhile (\<lambda>b. has CF_REVERSE (rs b)) ch; post = dropWhile (\<lambda>b. has CF_REVERSE (rs b)) ch in
        if has CF_IMMORTAL (rs a)
        then pre @ takeWhile (\<lambda>b. \<not> has CF_IMMORTAL (rs b)) post @ a # dropWhile (\<lambda>b. \<not> has CF_IMMORTAL (rs b)) post
        else pre @ a # post)"

definition cache_hash :: "nat \<Rightarrow> cst \<Rightarrow> cst" where
  "cache_hash a s = (let i = hash_bucket s (c_name (recs s a)) in
     s\<lparr>table := (table s)[i := chain_place (recs s) a (table s ! i)]\<rparr>)"

text \<open>\<open>for (new_size = 64; new_size < size/10; new_size = new_size << 1)\<close>\<close>

function rehash_size :: "nat \<Rightarrow> nat \<Rightarrow> nat" where
  "rehash_size sz n = (if 0 < n \<and> n < sz div 10 then rehash_size sz (2 * n) else n)"
  by pat_completeness auto
termination by (relation "measure (\<lambda>(sz, n). sz div 10 - n)") auto

declare rehash_size.simps [simp del]

text \<open>An empty table stands for the NULL pointer before the first call; \<open>mem_ok\<close> is whether the
  allocation of a larger table succeeds.\<close>

definition rehash :: "bool \<Rightarrow> nat \<Rightarrow> cst \<Rightarrow> cst" where
  "rehash mem_ok sz s = (let n = rehash_size sz 64 in
     if table s \<noteq> [] \<and> (n \<le> length (table s) \<or> \<not> mem_ok) then s
     else fold cache_hash (concat (table s)) (s\<lparr>table := replicate n []\<rparr>))"

subsection \<open>The list of records by recency\<close>

definition cache_free :: "nat \<Rightarrow> cst \<Rightarrow> cst" where
  "cache_free a s =
     (let c = recs s a;
          c1 = c\<lparr>c_flags := (c_flags c AND NOT CF_FORWARD) AND NOT CF_REVERSE, c_uid := uid s\<rparr>;
          s1 = s\<lparr>recs := (recs s)(a := c1), uid := uid s + 1, lru := lru s @ [a]\<rparr> in
      if has CF_BIGNAME c1
      then s1\<lparr>big_free := big_free s1 + 1,
              recs := (recs s1)(a := c1\<lparr>c_flags := c_flags c1 AND NOT CF_BIGNAME\<rparr>)\<rparr>
      else s1)"

definition cache_link :: "nat \<Rightarrow> cst \<Rightarrow> cst" where
  "cache_link a s = s\<lparr>lru := a # lru s\<rparr>"

definition cache_unlink :: "nat \<Rightarrow> cst \<Rightarrow> cst option" where
  "cache_unlink a s = (if a \<in> set (lru s) then Some (s\<lparr>lru := remove1 a (lru s)\<rparr>) else None)"

text \<open>\<open>cache_unlink(crecp); cache_free(crecp);\<close>\<close>

definition unlink_free :: "nat \<Rightarrow> cst \<Rightarrow> cst option" where
  "unlink_free a s = map_option (cache_free a) (cache_unlink a s)"

definition cache_get_name :: "crec \<Rightarrow> bytes" where
  "cache_get_name c = c_name c"

definition is_outdated_cname_pointer :: "cst \<Rightarrow> crec \<Rightarrow> bool" where
  "is_outdated_cname_pointer s c =
     (if \<not> has CF_CNAME c then False
      else case cn_cache c of
        None \<Rightarrow> True
      | Some t \<Rightarrow> \<not> (has (CF_IPV4 OR CF_IPV6 OR CF_CNAME) (recs s t) \<and> cn_uid c = c_uid (recs s t)))"

definition is_expired :: "int \<Rightarrow> crec \<Rightarrow> bool" where
  "is_expired now c = (if has CF_IMMORTAL c then False else \<not> now < c_ttd c)"

text \<open>The initial state of the module and \<open>cache_init\<close>: \<open>n\<close> free records.\<close>

definition cst_start :: "(nat \<Rightarrow> crec) \<Rightarrow> (nat \<Rightarrow> byte) \<Rightarrow> u32 \<Rightarrow> cst" where
  "cst_start rs mix mx = \<lparr>recs = rs, lru = [], table = [], new_ch = [], insert_error = False, big_free = 0,
     bignames_left = 0, uid = 0, cache_inserted = 0, cache_live_freed = 0, mix_tab = mix, max_cache_ttl = mx\<rparr>"

definition cache_init_rec :: "nat \<Rightarrow> cst \<Rightarrow> cst" where
  "cache_init_rec a s = (let s1 = cache_link a s in
     s1\<lparr>recs := (recs s1)(a := (recs s1 a)\<lparr>c_flags := 0, c_uid := uid s1\<rparr>), uid := uid s1 + 1\<rparr>)"

definition cache_init :: "nat \<Rightarrow> cst \<Rightarrow> cst" where
  "cache_init cachesize s =
     rehash True cachesize (fold cache_init_rec [0..<cachesize] (s\<lparr>bignames_left := cachesize div 10\<rparr>))"

subsection \<open>Making room\<close>

text \<open>The scan of one chain for a name.  The flag is the return value: \<open>False\<close> when a record of
  the hosts file or of DHCP stands in the way.\<close>

fun scan_forward :: "bytes \<Rightarrow> int \<Rightarrow> u16 \<Rightarrow> nat list \<Rightarrow> cst \<Rightarrow> (bool \<times> nat list \<times> cst) option" where
  "scan_forward name now flags [] s = Some (True, [], s)"
| "scan_forward name now flags (a # as) s =
     (let c = recs s a in
      if is_expired now c \<or> is_outdated_cname_pointer s c then
        (if fixed_rec c then scan_forward name now flags as s
         else case unlink_free a s of None \<Rightarrow> None | Some s' \<Rightarrow> scan_forward name now flags as s')
      else if has CF_FORWARD c
           \<and> (flags AND c_flags c AND CF_TYPE \<noteq> 0 \<or> (c_flags c OR flags) AND CF_CNAME \<noteq> 0)
           \<and> strcaseeq (cache_get_name c) name then
        (if fixed_rec c then Some (False, a # as, s)
         else case unlink_free a s of None \<Rightarrow> None | Some s' \<Rightarrow> scan_forward name now flags as s')
      else case scan_forward name now flags as s of
             None \<Rightarrow> None | Some (ok, ch, s') \<Rightarrow> Some (ok, a # ch, s'))"

text \<open>The scan of one chain for expired records and for reverse records of an address.\<close>

fun scan_reverse :: "bytes option \<Rightarrow> int \<Rightarrow> u16 \<Rightarrow> nat list \<Rightarrow> cst \<Rightarrow> (nat list \<times> cst) option" where
  "scan_reverse addr now flags [] s = Some ([], s)"
| "scan_reverse addr now flags (a # as) s =
     (let c = recs s a in
      if \<not> (has CF_REVERSE c \<or> \<not> has CF_IMMORTAL c) then Some (a # as, s)
      else if is_expired now c then
        (if fixed_rec c then scan_reverse addr now flags as s
         else case unlink_free a s of None \<Rightarrow> None | Some s' \<Rightarrow> scan_reverse addr now flags as s')
      else if \<not> fixed_rec c \<and> flags AND c_flags c AND CF_REVERSE \<noteq> 0
           \<and> flags AND c_flags c AND (CF_IPV4 OR CF_IPV6) \<noteq> 0 \<and> Some (c_addr c) = addr then
        (case unlink_free a s of None \<Rightarrow> None | Some s' \<Rightarrow> scan_reverse addr now flags as s')
      else case scan_reverse addr now flags as s of
             None \<Rightarrow> None | Some (ch, s') \<Rightarrow> Some (a # ch, s'))"

definition scan_bucket_reverse :: "bytes option \<Rightarrow> int \<Rightarrow> u16 \<Rightarrow> nat \<Rightarrow> cst \<Rightarrow> cst option" where
  "scan_bucket_reverse addr now flags i s =
     (case scan_reverse addr now flags (table s ! i) s of
        None \<Rightarrow> None | Some (ch, s') \<Rightarrow> Some (s'\<lparr>table := (table s')[i := ch]\<rparr>))"

definition cache_scan_free :: "bytes \<Rightarrow> bytes option \<Rightarrow> int \<Rightarrow> u16 \<Rightarrow> cst \<Rightarrow> (bool \<times> cst) option" where
  "cache_scan_free name addr now flags s =
     (if flags AND CF_FORWARD \<noteq> 0 then
        (let i = hash_bucket s name in
         case scan_forward name now flags (table s ! i) s of
           None \<Rightarrow> None | Some (ok, ch, s') \<Rightarrow> Some (ok, s'\<lparr>table := (table s')[i := ch]\<rparr>))
      else map_option (Pair True) (foldM (scan_bucket_reverse addr now flags) [0..<length (table s)] s))"

subsection \<open>Inserting\<close>

definition cache_start_insert :: "cst \<Rightarrow> cst" where
  "cache_start_insert s = (fold cache_free (new_ch s) s)\<lparr>new_ch := [], insert_error := False\<rparr>"

text \<open>The loop that takes a free record from the end of the list: the result is the record,
  or \<open>None\<close> with \<open>insert_error\<close> set.  \<open>mem_ok\<close> is whether a block for a long name can be
  allocated; the flag in the result tells that a long name was provided for.\<close>

function insert_loop ::
  "bool \<Rightarrow> bytes option \<Rightarrow> int \<Rightarrow> bool \<Rightarrow> bool \<Rightarrow> cst \<Rightarrow> ((nat \<times> bool) option \<times> cst) option" where
  "insert_loop mem_ok name now freed_all free_avail s =
     (if lru s = [] then Some (None, s\<lparr>insert_error := True\<rparr>)
      else let new = last (lru s); c = recs s new in
        if has (CF_FORWARD OR CF_REVERSE) c then
          (if free_avail then Some (None, s\<lparr>insert_error := True\<rparr>)
           else if freed_all then
             (case cache_scan_free (cache_get_name c) (Some (c_addr c)) now (c_flags c) s of
                None \<Rightarrow> None
              | Some (_, s') \<Rightarrow>
                  insert_loop mem_ok name now freed_all True (s'\<lparr>cache_live_freed := cache_live_freed s' + 1\<rparr>))
           else
             (case cache_scan_free [] None now 0 s of
                None \<Rightarrow> None
              | Some (_, s') \<Rightarrow> insert_loop mem_ok name now True free_avail s'))
        else if (case name of None \<Rightarrow> False | Some n \<Rightarrow> length n > SMALLDNAME - 1) then
          (if big_free s > 0 then
             map_option (Pair (Some (new, True))) (cache_unlink new (s\<lparr>big_free := big_free s - 1\<rparr>))
           else if bignames_left s = 0 \<or> \<not> mem_ok then Some (None, s\<lparr>insert_error := True\<rparr>)
           else map_option (Pair (Some (new, True))) (cache_unlink new (s\<lparr>bignames_left := bignames_left s - 1\<rparr>)))
        else map_option (Pair (Some (new, False))) (cache_unlink new s))"
  by pat_completeness auto
termination
  by (relation "measure (\<lambda>(mem_ok, name, now, freed_all, free_avail, s).
        (if freed_all then 0 else 1) + (if free_avail then 0 else (1 :: nat)))") auto

declare insert_loop.simps [simp del]

text \<open>\<open>now + (time_t)ttl\<close>: on the 32-bit targets of the build \<open>time_t\<close> is a signed 32-bit integer and the
  sum wraps.  Times are integers in its range.\<close>

definition time_plus :: "int \<Rightarrow> u32 \<Rightarrow> int" where
  "time_plus now ttl = sint (word_of_int now + ttl)"

lemma time_plus_bits: "time_plus now ttl = signed_take_bit 31 (now + uint ttl)"
proof -
  have "word_of_int now + ttl = (word_of_int (now + uint ttl) :: 32 word)" by simp
  then show ?thesis using sint_sbintrunc' [where 'a = 32, of "now + uint ttl"] by (simp only: time_plus_def) simp
qed

lemma time_plus_exact:
  assumes "- (2 ^ 31) \<le> now" and "now + uint ttl < 2 ^ 31"
  shows "time_plus now ttl = now + uint ttl"
proof -
  have "0 \<le> uint ttl" by simp
  then have "- (2 ^ 31) \<le> now + uint ttl" using assms(1) by linarith
  then show ?thesis unfolding time_plus_bits using assms(2) by (rule signed_take_bit_int_eq_self)
qed

lemma time_plus_huge:
  assumes "0 \<le> now" and "2 ^ 31 \<le> uint ttl"
  shows "time_plus now ttl < now"
proof -
  have "uint ttl < 2 ^ 32" using uint_bounded [of ttl] by simp
  moreover have "time_plus now ttl \<le> now + uint ttl - 2 ^ Suc 31"
    unfolding time_plus_bits by (rule signed_take_bit_int_less_eq) (use assms in linarith)
  ultimately show ?thesis by simp
qed

text \<open>\<open>cache_insert\<close>: the new record or NULL.\<close>

definition cache_insert ::
  "bool \<Rightarrow> bytes option \<Rightarrow> bytes option \<Rightarrow> int \<Rightarrow> u32 \<Rightarrow> u16 \<Rightarrow> cst \<Rightarrow> (nat option \<times> cst) option" where
  "cache_insert mem_ok name addr now ttl flags s =
     (let ttl' = (if max_cache_ttl s \<noteq> 0 \<and> max_cache_ttl s < ttl then max_cache_ttl s else ttl) in
      if insert_error s then Some (None, s)
      else if flags AND CF_FORWARD \<noteq> 0 \<and> name = None then None
      else case cache_scan_free (case name of None \<Rightarrow> [] | Some n \<Rightarrow> n) addr now flags s of
        None \<Rightarrow> None
      | Some (False, s1) \<Rightarrow> Some (None, s1\<lparr>insert_error := True\<rparr>)
      | Some (True, s1) \<Rightarrow>
          (case insert_loop mem_ok name now (flags AND CF_REVERSE \<noteq> 0) False s1 of
             None \<Rightarrow> None
           | Some (None, s2) \<Rightarrow> Some (None, s2)
           | Some (Some (new, big), s2) \<Rightarrow>
               if (case name of None \<Rightarrow> 0 | Some n \<Rightarrow> length n) \<ge> MAXDNAME then None
               else
                 (let c = recs s2 new;
                      c' = c\<lparr>c_flags := (if big then flags OR CF_BIGNAME else flags),
                             c_name := (case name of None \<Rightarrow> [] | Some n \<Rightarrow> n),
                             c_addr := (case addr of None \<Rightarrow> c_addr c | Some x \<Rightarrow> x),
                             c_ttd := time_plus now ttl'\<rparr>
                  in Some (Some new, s2\<lparr>recs := (recs s2)(new := c'), new_ch := new # new_ch s2\<rparr>))))"

definition commit_rec :: "nat \<Rightarrow> cst \<Rightarrow> cst" where
  "commit_rec a s =
     (if is_outdated_cname_pointer s (recs s a) then cache_free a s
      else (cache_link a (cache_hash a s))\<lparr>cache_inserted := cache_inserted s + 1\<rparr>)"

definition cache_end_insert :: "cst \<Rightarrow> cst" where
  "cache_end_insert s = (if insert_error s then s else (fold commit_rec (new_ch s) s)\<lparr>new_ch := []\<rparr>)"

subsection \<open>Looking up\<close>

definition name_hit :: "bytes \<Rightarrow> u16 \<Rightarrow> crec \<Rightarrow> bool" where
  "name_hit name prot c \<longleftrightarrow> has CF_FORWARD c \<and> has prot c \<and> strcaseeq (cache_get_name c) name"

text \<open>The first search by name.  \<open>pre\<close> is the part of the chain already passed, \<open>ins\<close> the
  index in it where the next hit is moved to with the flags it must have, \<open>hs\<close> the hits that
  stand outside the recency list, in order.\<close>

fun find_name_loop ::
  "bytes \<Rightarrow> int \<Rightarrow> u16 \<Rightarrow> nat list \<Rightarrow> nat list \<Rightarrow> (nat \<times> u16) option \<Rightarrow> nat list \<Rightarrow> cst \<Rightarrow>
   (nat list \<times> nat list \<times> cst) option" where
  "find_name_loop name now prot [] pre ins hs s = Some (pre, hs, s)"
| "find_name_loop name now prot (a # as) pre ins hs s =
     (let c = recs s a in
      if \<not> is_expired now c \<and> \<not> is_outdated_cname_pointer s c then
        if name_hit name prot c then
          (case (if fixed_rec c then Some s else map_option (cache_link a) (cache_unlink a s)) of
             None \<Rightarrow> None
           | Some s' \<Rightarrow>
               let hs' = (if fixed_rec c then hs @ [a] else hs); fl = c_flags c AND (CF_REVERSE OR CF_IMMORTAL) in
               (case ins of
                  Some (k, f) \<Rightarrow>
                    if fl = f then find_name_loop name now prot as (take k pre @ a # drop k pre) (Some (k + 1, f)) hs' s'
                    else find_name_loop name now prot as (pre @ [a]) ins hs' s'
                | None \<Rightarrow> find_name_loop name now prot as (pre @ [a]) (Some (length pre, fl)) hs' s'))
        else find_name_loop name now prot as (pre @ [a]) ins hs s
      else if fixed_rec c then find_name_loop name now prot as pre ins hs s
      else case unlink_free a s of
             None \<Rightarrow> None | Some s' \<Rightarrow> find_name_loop name now prot as pre ins hs s')"

text \<open>The hits outside the list are chained through \<open>next\<close>, the last one to the head of the
  list.\<close>

fun set_chain :: "nat list \<Rightarrow> nat option \<Rightarrow> (nat \<Rightarrow> crec) \<Rightarrow> (nat \<Rightarrow> crec)" where
  "set_chain [] h0 rs = rs"
| "set_chain [a] h0 rs = rs(a := (rs a)\<lparr>c_next := h0\<rparr>)"
| "set_chain (a # b # as) h0 rs = set_chain (b # as) h0 (rs(a := (rs a)\<lparr>c_next := Some b\<rparr>))"

definition first_of :: "nat list \<Rightarrow> nat option" where
  "first_of xs = (case xs of [] \<Rightarrow> None | x # _ \<Rightarrow> Some x)"

text \<open>\<open>crecp->next\<close>: the successor in the list, or the field of a record outside it.\<close>

fun succ_in :: "nat \<Rightarrow> nat list \<Rightarrow> nat option" where
  "succ_in a [] = None"
| "succ_in a (b # bs) = (if a = b then first_of bs else succ_in a bs)"

definition next_of :: "cst \<Rightarrow> nat \<Rightarrow> nat option" where
  "next_of s a = (if a \<in> set (lru s) then succ_in a (lru s) else c_next (recs s a))"

definition answer_if :: "(crec \<Rightarrow> bool) \<Rightarrow> cst \<Rightarrow> nat option \<Rightarrow> nat option" where
  "answer_if hit s ans = (case ans of None \<Rightarrow> None | Some a \<Rightarrow> if hit (recs s a) then Some a else None)"

definition cache_find_by_name :: "nat option \<Rightarrow> bytes \<Rightarrow> int \<Rightarrow> u16 \<Rightarrow> cst \<Rightarrow> (nat option \<times> cst) option" where
  "cache_find_by_name crecp name now prot s =
     (case crecp of
        Some a \<Rightarrow> Some (answer_if (name_hit name prot) s (next_of s a), s)
      | None \<Rightarrow>
          (let i = hash_bucket s name in
           case find_name_loop name now prot (table s ! i) [] None [] s of
             None \<Rightarrow> None
           | Some (ch, hs, s1) \<Rightarrow>
               let s2 = s1\<lparr>table := (table s1)[i := ch], recs := set_chain hs (first_of (lru s1)) (recs s1)\<rparr> in
               Some (answer_if (name_hit name prot) s2 (first_of (hs @ lru s2)), s2)))"

definition addr_hit :: "bytes \<Rightarrow> u16 \<Rightarrow> crec \<Rightarrow> bool" where
  "addr_hit addr prot c \<longleftrightarrow> has prot c \<and> c_addr c = addr"

fun find_addr_loop :: "bytes \<Rightarrow> int \<Rightarrow> u16 \<Rightarrow> nat list \<Rightarrow> nat list \<Rightarrow> cst \<Rightarrow> (nat list \<times> nat list \<times> cst) option" where
  "find_addr_loop addr now prot [] hs s = Some ([], hs, s)"
| "find_addr_loop addr now prot (a # as) hs s =
     (let c = recs s a in
      if \<not> has CF_REVERSE c then Some (a # as, hs, s)
      else if \<not> is_expired now c then
        (case (if addr_hit addr prot c \<and> \<not> fixed_rec c then map_option (cache_link a) (cache_unlink a s) else Some s) of
           None \<Rightarrow> None
         | Some s' \<Rightarrow>
             (case find_addr_loop addr now prot as (if addr_hit addr prot c \<and> fixed_rec c then hs @ [a] else hs) s' of
                None \<Rightarrow> None | Some (ch, hs', s'') \<Rightarrow> Some (a # ch, hs', s'')))
      else if fixed_rec c then find_addr_loop addr now prot as hs s
      else case unlink_free a s of None \<Rightarrow> None | Some s' \<Rightarrow> find_addr_loop addr now prot as hs s')"

definition find_addr_bucket :: "bytes \<Rightarrow> int \<Rightarrow> u16 \<Rightarrow> nat \<Rightarrow> nat list \<times> cst \<Rightarrow> (nat list \<times> cst) option" where
  "find_addr_bucket addr now prot i st = (case st of (hs, s) \<Rightarrow>
     (case find_addr_loop addr now prot (table s ! i) hs s of
        None \<Rightarrow> None | Some (ch, hs', s') \<Rightarrow> Some (hs', s'\<lparr>table := (table s')[i := ch]\<rparr>)))"

definition cache_find_by_addr :: "nat option \<Rightarrow> bytes \<Rightarrow> int \<Rightarrow> u16 \<Rightarrow> cst \<Rightarrow> (nat option \<times> cst) option" where
  "cache_find_by_addr crecp addr now prot s =
     (let hit = (\<lambda>c. has CF_REVERSE c \<and> addr_hit addr prot c) in
      case crecp of
        Some a \<Rightarrow> Some (answer_if hit s (next_of s a), s)
      | None \<Rightarrow>
          (case foldM (find_addr_bucket addr now prot) [0..<length (table s)] ([], s) of
             None \<Rightarrow> None
           | Some (hs, s1) \<Rightarrow>
               let s2 = s1\<lparr>recs := set_chain hs (first_of (lru s1)) (recs s1)\<rparr> in
               Some (answer_if hit s2 (first_of (hs @ lru s2)), s2)))"

subsection \<open>The invariant\<close>

abbreviation live_rec :: "crec \<Rightarrow> bool" where
  "live_rec c \<equiv> has (CF_FORWARD OR CF_REVERSE) c"

definition bucket_of :: "(nat \<Rightarrow> byte) \<Rightarrow> nat \<Rightarrow> bytes \<Rightarrow> nat" where
  "bucket_of mix n name = (let val = hash_val mix name in unat ((val XOR drop_bit 16 val) AND (of_nat n - 1)))"

text \<open>The order of a chain: reverse records, others, immortal ones that are not reverse.\<close>

definition chain_class :: "crec \<Rightarrow> nat" where
  "chain_class c = (if has CF_REVERSE c then 0 else if has CF_IMMORTAL c then 2 else 1)"

definition chain_ok :: "cst \<Rightarrow> nat \<Rightarrow> nat \<Rightarrow> nat list \<Rightarrow> bool" where
  "chain_ok s n i ch \<longleftrightarrow> distinct ch \<and> sorted (map (\<lambda>a. chain_class (recs s a)) ch) \<and>
     (\<forall>a \<in> set ch. bucket_of (mix_tab s) n (c_name (recs s a)) = i \<and> live_rec (recs s a) \<and>
        a \<notin> set (new_ch s) \<and> (fixed_rec (recs s a) \<or> a \<in> set (lru s)))"

text \<open>The invariant of the records with respect to a table \<open>T\<close>, which during a scan is the table
  as it will be written back.\<close>

definition cinv :: "nat list list \<Rightarrow> cst \<Rightarrow> bool" where
  "cinv T s \<longleftrightarrow> 0 < length T \<and> length T < 2 ^ 32 \<and> distinct (lru s @ new_ch s) \<and>
     (\<forall>i < length T. chain_ok s (length T) i (T ! i)) \<and>
     (\<forall>a \<in> set (lru s). \<not> fixed_rec (recs s a) \<and>
        (live_rec (recs s a) \<longrightarrow> a \<in> set (T ! bucket_of (mix_tab s) (length T) (c_name (recs s a))))) \<and>
     (\<forall>a \<in> set (new_ch s). \<not> fixed_rec (recs s a) \<and> live_rec (recs s a))"

definition cache_inv :: "cst \<Rightarrow> bool" where
  "cache_inv s \<longleftrightarrow> cinv (table s) s"

lemma bucket_of_less: "0 < n \<Longrightarrow> n < 2 ^ 32 \<Longrightarrow> bucket_of mix n name < n"
proof -
  assume n: "0 < n" "n < 2 ^ 32"
  have u: "unat (of_nat n :: u32) = n" using n by (simp add: unat_of_nat)
  have "unat (of_nat n - 1 :: u32) = n - 1"
    using u n by (subst unat_sub) (auto simp: word_le_nat_alt)
  moreover have "unat ((v XOR drop_bit 16 v) AND (of_nat n - 1 :: u32)) \<le> unat (of_nat n - 1 :: u32)" for v
    using word_and_le1 [of "v XOR drop_bit 16 v" "of_nat n - 1"] by (simp add: word_le_nat_alt)
  from this [of "hash_val mix name"] have "bucket_of mix n name \<le> unat (of_nat n - 1 :: u32)"
    by (simp only: bucket_of_def Let_def)
  ultimately show ?thesis using n by linarith
qed

lemma hash_bucket_of: "hash_bucket s name = bucket_of (mix_tab s) (length (table s)) name"
  by (simp add: hash_bucket_def bucket_of_def)

lemma hash_val_case:
  assumes "strcaseeq a b"
  shows "hash_val mix a = hash_val mix b"
proof -
  have lower: "hash_step mix c v = (push_bit 7 v OR drop_bit 25 v) +
      (ucast (mix (unat ((v + ucast (tolower c)) AND 0x3F))) XOR ucast (tolower c))" for c v
    by (simp add: hash_step_def tolower_def isupper_def Let_def)
  have step: "hash_step mix c = hash_step mix (tolower c)" for c
    by (rule ext) (simp only: lower tolower_idem)
  have "fold (hash_step mix) a v = fold (hash_step mix) b v" for v
    using assms
  proof (induction a arbitrary: b v)
    case (Cons x a)
    then obtain y b' where b: "b = y # b'" "tolower x = tolower y" "strcaseeq a b'"
      by (cases b) (auto simp: strcaseeq_def)
    then have "hash_step mix x = hash_step mix y" using step [of x] step [of y] by simp
    then show ?case using Cons.IH [OF b(3)] b(1) by simp
  qed (simp add: strcaseeq_def)
  then show ?thesis by (simp add: hash_val_def)
qed

lemma bucket_of_case: "strcaseeq a b \<Longrightarrow> bucket_of mix n a = bucket_of mix n b"
  by (simp add: bucket_of_def hash_val_case)

lemma strcaseeq_sym: "strcaseeq a b \<Longrightarrow> strcaseeq b a"
  by (simp add: strcaseeq_def)

definition freed :: "u32 \<Rightarrow> crec \<Rightarrow> crec" where
  "freed u c = c\<lparr>c_flags := ((c_flags c AND NOT CF_FORWARD) AND NOT CF_REVERSE) AND NOT CF_BIGNAME, c_uid := u\<rparr>"

lemma freed_flags:
  "\<not> live_rec (freed u c)" "fixed_rec (freed u c) = fixed_rec c" "c_name (freed u c) = c_name c"
  by (simp_all add: has_def freed_def fixed_rec_def cf_defs and.assoc and.left_commute)

lemma and_not_absent:
  fixes f m :: u16
  assumes "f AND m = 0"
  shows "f AND NOT m = f"
proof (rule bit_eqI)
  fix n
  assume "possible_bit TYPE(u16) n"
  have "\<not> bit (f AND m) n" using assms by simp
  then show "bit (f AND NOT m) n = bit f n"
    using \<open>possible_bit TYPE(u16) n\<close> by (auto simp: bit_and_iff bit_not_iff)
qed

lemma cache_free_simps [simp]:
  "recs (cache_free a s) = (recs s)(a := freed (uid s) (recs s a))" "lru (cache_free a s) = lru s @ [a]"
  "table (cache_free a s) = table s" "new_ch (cache_free a s) = new_ch s" "mix_tab (cache_free a s) = mix_tab s"
  "insert_error (cache_free a s) = insert_error s" "max_cache_ttl (cache_free a s) = max_cache_ttl s"
  by (auto simp: cache_free_def Let_def has_def freed_def and_not_absent)

lemma unlink_free_Some:
  "unlink_free a s = Some s' \<longleftrightarrow> a \<in> set (lru s) \<and> s' = cache_free a (s\<lparr>lru := remove1 a (lru s)\<rparr>)"
  by (auto simp: unlink_free_def cache_unlink_def)

text \<open>What the steps of a scan never touch.\<close>

definition same_frame :: "cst \<Rightarrow> cst \<Rightarrow> bool" where
  "same_frame s s' \<longleftrightarrow> table s' = table s \<and> mix_tab s' = mix_tab s \<and> new_ch s' = new_ch s \<and>
     insert_error s' = insert_error s \<and> max_cache_ttl s' = max_cache_ttl s \<and> set (lru s') = set (lru s)"

lemma same_frame_refl [simp]: "same_frame s s"
  by (simp add: same_frame_def)

lemma same_frame_trans: "same_frame s s' \<Longrightarrow> same_frame s' s'' \<Longrightarrow> same_frame s s''"
  by (simp add: same_frame_def)

lemma cinvD:
  assumes "cinv T s"
  shows "0 < length T" "length T < 2 ^ 32" "distinct (lru s)" "distinct (new_ch s)" "set (lru s) \<inter> set (new_ch s) = {}"
    "\<And>i. i < length T \<Longrightarrow> chain_ok s (length T) i (T ! i)"
    "\<And>a. a \<in> set (lru s) \<Longrightarrow> \<not> fixed_rec (recs s a)"
    "\<And>a. a \<in> set (lru s) \<Longrightarrow> live_rec (recs s a) \<Longrightarrow> a \<in> set (T ! bucket_of (mix_tab s) (length T) (c_name (recs s a)))"
    "\<And>a. a \<in> set (new_ch s) \<Longrightarrow> \<not> fixed_rec (recs s a) \<and> live_rec (recs s a)"
  using assms by (auto simp: cinv_def)

lemma chain_okD:
  assumes "chain_ok s n i ch" and "a \<in> set ch"
  shows "bucket_of (mix_tab s) n (c_name (recs s a)) = i" "live_rec (recs s a)" "a \<notin> set (new_ch s)"
    "fixed_rec (recs s a) \<or> a \<in> set (lru s)"
  using assms by (auto simp: chain_ok_def)

lemma sorted_map_subseq: "sorted (map f xs) \<Longrightarrow> sorted (map f (filter P xs))"
  by (induction xs) auto

lemma sorted_map_remove1: "distinct xs \<Longrightarrow> sorted (map f xs) \<Longrightarrow> sorted (map f (remove1 a xs))"
  by (simp add: distinct_remove1_removeAll removeAll_filter_not_eq sorted_map_subseq)

text \<open>A record leaves its chain and becomes free.\<close>

lemma cinv_release:
  assumes inv: "cinv T s" and i: "i < length T" and a: "a \<in> set (T ! i)" and nf: "\<not> fixed_rec (recs s a)"
    and c': "\<not> live_rec c'" "\<not> fixed_rec c'"
    and f: "recs s' = (recs s)(a := c')" "new_ch s' = new_ch s" "mix_tab s' = mix_tab s"
    and sl: "set (lru s') = set (lru s)" and dl: "distinct (lru s')"
  shows "cinv (T[i := remove1 a (T ! i)]) s'"
proof -
  note c = cinvD [OF inv]
  note ok = c(6) [OF i]
  have al: "a \<in> set (lru s)" using chain_okD(4) [OF ok a] nf by blast
  have other: "a \<notin> set (T ! j)" if "j < length T" "j \<noteq> i" for j
    using that chain_okD(1) [OF c(6) [OF that(1)], of a] chain_okD(1) [OF ok a] by auto
  have dist: "distinct (T ! i)" using ok by (simp add: chain_ok_def)
  have chains: "chain_ok s' (length T) j (T[i := remove1 a (T ! i)] ! j)" if j: "j < length T" for j
  proof -
    let ?ch = "T[i := remove1 a (T ! i)] ! j"
    have na: "a \<notin> set ?ch" using other [OF j] dist i j by (cases "j = i") simp_all
    have sub: "set ?ch \<subseteq> set (T ! j)" using i j set_remove1_subset [of a "T ! i"] by (cases "j = i") auto
    have "distinct (T ! j)" and srt: "sorted (map (\<lambda>b. chain_class (recs s b)) (T ! j))"
      using c(6) [OF j] by (simp_all add: chain_ok_def)
    then have "distinct ?ch" "sorted (map (\<lambda>b. chain_class (recs s b)) ?ch)"
      using sorted_map_remove1 [OF dist, of "\<lambda>b. chain_class (recs s b)" a] i by (cases "j = i"; simp)+
    moreover have eq: "map (\<lambda>b. chain_class (recs s' b)) ?ch = map (\<lambda>b. chain_class (recs s b)) ?ch"
      using na by (auto simp: f)
    moreover have "\<forall>b \<in> set ?ch. bucket_of (mix_tab s') (length T) (c_name (recs s' b)) = j \<and> live_rec (recs s' b) \<and>
        b \<notin> set (new_ch s') \<and> (fixed_rec (recs s' b) \<or> b \<in> set (lru s'))"
    proof
      fix b assume b: "b \<in> set ?ch"
      then have "recs s' b = recs s b" using na by (auto simp: f)
      then show "bucket_of (mix_tab s') (length T) (c_name (recs s' b)) = j \<and> live_rec (recs s' b) \<and>
        b \<notin> set (new_ch s') \<and> (fixed_rec (recs s' b) \<or> b \<in> set (lru s'))"
        using chain_okD [OF c(6) [OF j] subsetD [OF sub b]] unfolding sl f(2,3) by simp
    qed
    ultimately show ?thesis unfolding chain_ok_def eq by blast
  qed
  have lruok: "\<not> fixed_rec (recs s' b) \<and> (live_rec (recs s' b) \<longrightarrow>
      b \<in> set (T[i := remove1 a (T ! i)] ! bucket_of (mix_tab s') (length T) (c_name (recs s' b))))" if "b \<in> set (lru s')" for b
  proof (cases "b = a")
    case True
    then show ?thesis using c' by (simp add: f(1))
  next
    case False
    then show ?thesis using c(7) [of b] c(8) [of b] that i unfolding sl
      by (cases "bucket_of (mix_tab s) (length T) (c_name (recs s b)) = i") (auto simp: f(1,3) in_set_remove1)
  qed
  have "distinct (lru s' @ new_ch s')" using c(4,5) dl sl by (auto simp: f)
  moreover have "\<forall>b \<in> set (new_ch s'). \<not> fixed_rec (recs s' b) \<and> live_rec (recs s' b)"
    using c(5,9) al by (auto simp: f)
  ultimately show ?thesis using c(1,2) chains lruok unfolding cinv_def by simp
qed

lemma cinv_free:
  assumes inv: "cinv T s" and i: "i < length T" and a: "a \<in> set (T ! i)" and nf: "\<not> fixed_rec (recs s a)"
  shows "\<exists>s'. unlink_free a s = Some s' \<and> cinv (T[i := remove1 a (T ! i)]) s' \<and> same_frame s s' \<and>
     recs s' = (recs s)(a := freed (uid s) (recs s a)) \<and> lru s' = remove1 a (lru s) @ [a]"
proof -
  note c = cinvD [OF inv]
  have al: "a \<in> set (lru s)" using chain_okD(4) [OF c(6) [OF i] a] nf by blast
  define s' where "s' = cache_free a (s\<lparr>lru := remove1 a (lru s)\<rparr>)"
  have u: "unlink_free a s = Some s'" using al by (simp add: unlink_free_Some s'_def)
  have f: "recs s' = (recs s)(a := freed (uid s) (recs s a))" "lru s' = remove1 a (lru s) @ [a]"
    "table s' = table s" "new_ch s' = new_ch s" "mix_tab s' = mix_tab s"
    "insert_error s' = insert_error s" "max_cache_ttl s' = max_cache_ttl s"
    by (simp_all add: s'_def)
  have sl: "set (lru s') = set (lru s)" and dl: "distinct (lru s')" using al c(3) by (auto simp: f)
  have "\<not> fixed_rec (freed (uid s) (recs s a))" using nf by (simp add: freed_flags)
  from cinv_release [OF inv i a nf freed_flags(1) this f(1,4,5) sl dl]
  show ?thesis using u f sl by (simp add: same_frame_def)
qed

text \<open>A chain may lose records that are not in the recency list, and be put in another order
  that respects the classes.\<close>

lemma cinv_rechain:
  assumes inv: "cinv T s" and i: "i < length T" and sub: "set ch \<subseteq> set (T ! i)" and dist: "distinct ch"
    and srt: "sorted (map (\<lambda>a. chain_class (recs s a)) ch)"
    and gone: "\<And>a. a \<in> set (T ! i) \<Longrightarrow> a \<notin> set ch \<Longrightarrow> a \<notin> set (lru s)"
  shows "cinv (T[i := ch]) s"
proof -
  note c = cinvD [OF inv]
  have "chain_ok s (length T) j (T[i := ch] ! j)" if "j < length T" for j
    using c(6) [OF that] i dist srt sub by (cases "j = i") (auto simp: chain_ok_def)
  moreover have "a \<in> set (T[i := ch] ! bucket_of (mix_tab s) (length T) (c_name (recs s a)))"
    if "a \<in> set (lru s)" "live_rec (recs s a)" for a
    using c(8) [OF that] gone [of a] that(1) i
    by (cases "bucket_of (mix_tab s) (length T) (c_name (recs s a)) = i") auto
  ultimately show ?thesis using inv unfolding cinv_def by simp
qed

lemma cinv_drop_fixed:
  assumes "cinv T s" and "i < length T" and "a \<in> set (T ! i)" and "fixed_rec (recs s a)"
  shows "cinv (T[i := remove1 a (T ! i)]) s"
proof (rule cinv_rechain [OF assms(1,2)])
  have ok: "distinct (T ! i)" "sorted (map (\<lambda>a. chain_class (recs s a)) (T ! i))"
    using cinvD(6) [OF assms(1,2)] by (simp_all add: chain_ok_def)
  show "set (remove1 a (T ! i)) \<subseteq> set (T ! i)" by (rule set_remove1_subset)
  show "distinct (remove1 a (T ! i))" using ok by simp
  show "sorted (map (\<lambda>a. chain_class (recs s a)) (remove1 a (T ! i)))" using ok by (simp add: sorted_map_remove1)
  show "b \<notin> set (lru s)" if "b \<in> set (T ! i)" "b \<notin> set (remove1 a (T ! i))" for b
    using that cinvD(7) [OF assms(1), of a] assms(4) by (cases "b = a") (auto simp: in_set_remove1)
qed

text \<open>A used record moves to the front of the list.\<close>

lemma cinv_promote:
  assumes "cinv T s" and "a \<in> set (lru s)"
  shows "\<exists>s'. map_option (cache_link a) (cache_unlink a s) = Some s' \<and> cinv T s' \<and> same_frame s s' \<and>
     recs s' = recs s \<and> lru s' = a # remove1 a (lru s)"
proof -
  define s' where "s' = cache_link a (s\<lparr>lru := remove1 a (lru s)\<rparr>)"
  have f: "recs s' = recs s" "lru s' = a # remove1 a (lru s)" "new_ch s' = new_ch s" "mix_tab s' = mix_tab s"
    "table s' = table s" "insert_error s' = insert_error s" "max_cache_ttl s' = max_cache_ttl s"
    by (simp_all add: s'_def cache_link_def)
  note c = cinvD [OF assms(1)]
  have sl: "set (lru s') = set (lru s)" using assms(2) c(3) by (auto simp: f)
  have "distinct (lru s' @ new_ch s')" using c(3,4,5) assms(2) by (auto simp: f)
  then have "cinv T s'" using assms(1) unfolding cinv_def chain_ok_def sl f(1,3,4) by simp
  moreover have "same_frame s s'" using sl by (simp add: same_frame_def f)
  ultimately show ?thesis using assms(2) f(1,2) by (auto simp: cache_unlink_def s'_def)
qed

text \<open>The frame of a whole scan: records change only by becoming free.\<close>

definition scan_frame :: "cst \<Rightarrow> cst \<Rightarrow> bool" where
  "scan_frame s s' \<longleftrightarrow> same_frame s s' \<and>
     (\<forall>b. recs s' b = recs s b \<or> (b \<in> set (lru s) \<and> \<not> live_rec (recs s' b)))"

lemma scan_frame_refl [simp]: "scan_frame s s"
  by (simp add: scan_frame_def)

lemma scan_frame_trans: "scan_frame s s' \<Longrightarrow> scan_frame s' s'' \<Longrightarrow> scan_frame s s''"
  unfolding scan_frame_def same_frame_def by metis

lemma scan_frame_same: "scan_frame s s' \<Longrightarrow> same_frame s s'"
  by (simp add: scan_frame_def)

lemma scan_frame_live: "scan_frame s s' \<Longrightarrow> live_rec (recs s' b) \<Longrightarrow> recs s' b = recs s b"
  by (auto simp: scan_frame_def)

lemma remove1_mid: "a \<notin> set pre \<Longrightarrow> remove1 a (pre @ a # as) = pre @ as"
  by (simp add: remove1_append)

lemma chain_mid_distinct:
  assumes "cinv (T[i := pre @ a # as]) s" and "i < length T"
  shows "a \<notin> set pre" "a \<notin> set as" "distinct (pre @ as)"
  using cinvD(6) [OF assms(1), of i] assms(2) by (auto simp: chain_ok_def)

lemma step_free:
  assumes "cinv (T[i := pre @ a # as]) s" and "i < length T" and "\<not> fixed_rec (recs s a)"
  shows "\<exists>s'. unlink_free a s = Some s' \<and> cinv (T[i := pre @ as]) s' \<and> scan_frame s s'"
proof -
  obtain s' where s': "unlink_free a s = Some s'"
      "cinv (T[i := pre @ a # as, i := remove1 a (T[i := pre @ a # as] ! i)]) s'" "same_frame s s'"
      "recs s' = (recs s)(a := freed (uid s) (recs s a))"
    using cinv_free [OF assms(1), of i a] assms(2,3) by auto
  have "a \<in> set (lru s)" using s'(1) by (auto simp: unlink_free_Some)
  then have "scan_frame s s'" using s'(3,4) by (auto simp: scan_frame_def freed_flags)
  then show ?thesis using s'(1,2) assms(2) remove1_mid [OF chain_mid_distinct(1) [OF assms(1,2)]] by simp
qed

lemma step_drop:
  assumes "cinv (T[i := pre @ a # as]) s" and "i < length T" and "fixed_rec (recs s a)"
  shows "cinv (T[i := pre @ as]) s"
  using cinv_drop_fixed [OF assms(1), of i a] assms(2,3) remove1_mid [OF chain_mid_distinct(1) [OF assms(1,2)]] by simp

definition name_conflict :: "bytes \<Rightarrow> u16 \<Rightarrow> crec \<Rightarrow> bool" where
  "name_conflict name flags c \<longleftrightarrow> has CF_FORWARD c
     \<and> (flags AND c_flags c AND CF_TYPE \<noteq> 0 \<or> (c_flags c OR flags) AND CF_CNAME \<noteq> 0) \<and> strcaseeq (c_name c) name"

text \<open>The scan for a name keeps the invariant; when it succeeds nothing that conflicts with the
  name is left, when it fails such a record of the hosts file or DHCP is.\<close>

lemma scan_forward_inv:
  assumes "cinv (T[i := pre @ ch]) s" and "i < length T"
  shows "\<exists>ok ch' s'. scan_forward name now flags ch s = Some (ok, ch', s') \<and> cinv (T[i := pre @ ch']) s' \<and>
     scan_frame s s' \<and> set ch' \<subseteq> set ch \<and>
     (ok \<longrightarrow> (\<forall>b \<in> set ch'. \<not> name_conflict name flags (recs s' b))) \<and>
     (\<not> ok \<longrightarrow> (\<exists>b \<in> set ch'. fixed_rec (recs s' b) \<and> name_conflict name flags (recs s' b)))"
  using assms(1)
proof (induction ch arbitrary: pre s)
  case Nil
  then show ?case by auto
next
  case (Cons a as)
  let ?c = "recs s a"
  note step = scan_forward.simps(2) [of name now flags a as s, unfolded Let_def cache_get_name_def]
  have conf: "name_conflict name flags ?c \<longleftrightarrow> has CF_FORWARD ?c \<and>
      (flags AND c_flags ?c AND CF_TYPE \<noteq> 0 \<or> (c_flags ?c OR flags) AND CF_CNAME \<noteq> 0) \<and> strcaseeq (c_name ?c) name"
    by (simp add: name_conflict_def)
  consider (drop) "is_expired now ?c \<or> is_outdated_cname_pointer s ?c" "fixed_rec ?c"
    | (free) "(is_expired now ?c \<or> is_outdated_cname_pointer s ?c) \<or> name_conflict name flags ?c" "\<not> fixed_rec ?c"
    | (stop) "\<not> (is_expired now ?c \<or> is_outdated_cname_pointer s ?c)" "name_conflict name flags ?c" "fixed_rec ?c"
    | (keep) "\<not> (is_expired now ?c \<or> is_outdated_cname_pointer s ?c)" "\<not> name_conflict name flags ?c"
    by blast
  then show ?case
  proof cases
    case drop
    have run: "scan_forward name now flags (a # as) s = scan_forward name now flags as s"
      unfolding step using drop by simp
    obtain ok ch' s' where r: "scan_forward name now flags as s = Some (ok, ch', s')"
      "cinv (T[i := pre @ ch']) s'" "scan_frame s s'" "set ch' \<subseteq> set as"
      "ok \<longrightarrow> (\<forall>b \<in> set ch'. \<not> name_conflict name flags (recs s' b))"
      "\<not> ok \<longrightarrow> (\<exists>b \<in> set ch'. fixed_rec (recs s' b) \<and> name_conflict name flags (recs s' b))"
      using Cons.IH [OF step_drop [OF Cons.prems assms(2) drop(2)]] by blast
    then show ?thesis unfolding run by (intro exI [of _ ok] exI [of _ ch'] exI [of _ s']) auto
  next
    case free
    obtain s1 where s1: "unlink_free a s = Some s1" "cinv (T[i := pre @ as]) s1" "scan_frame s s1"
      using step_free [OF Cons.prems assms(2) free(2)] by blast
    have run: "scan_forward name now flags (a # as) s = scan_forward name now flags as s1"
      unfolding step using free s1(1) by (auto simp: conf)
    obtain ok ch' s' where r: "scan_forward name now flags as s1 = Some (ok, ch', s')"
      "cinv (T[i := pre @ ch']) s'" "scan_frame s1 s'" "set ch' \<subseteq> set as"
      "ok \<longrightarrow> (\<forall>b \<in> set ch'. \<not> name_conflict name flags (recs s' b))"
      "\<not> ok \<longrightarrow> (\<exists>b \<in> set ch'. fixed_rec (recs s' b) \<and> name_conflict name flags (recs s' b))"
      using Cons.IH [OF s1(2)] by blast
    then show ?thesis unfolding run using scan_frame_trans [OF s1(3) r(3)]
      by (intro exI [of _ ok] exI [of _ ch'] exI [of _ s']) auto
  next
    case stop
    have "scan_forward name now flags (a # as) s = Some (False, a # as, s)"
      unfolding step using stop by (simp add: conf)
    then show ?thesis using Cons.prems stop by auto
  next
    case keep
    have "cinv (T[i := (pre @ [a]) @ as]) s" using Cons.prems by simp
    from Cons.IH [OF this] obtain ok ch' s' where r: "scan_forward name now flags as s = Some (ok, ch', s')"
      "cinv (T[i := pre @ a # ch']) s'" "scan_frame s s'" "set ch' \<subseteq> set as"
      "ok \<longrightarrow> (\<forall>b \<in> set ch'. \<not> name_conflict name flags (recs s' b))"
      "\<not> ok \<longrightarrow> (\<exists>b \<in> set ch'. fixed_rec (recs s' b) \<and> name_conflict name flags (recs s' b))"
      by auto
    have "live_rec (recs s' a)" using chain_okD(2) [OF cinvD(6) [OF r(2), of i], of a] assms(2) by simp
    then have "recs s' a = ?c" by (rule scan_frame_live [OF r(3)])
    moreover have "scan_forward name now flags (a # as) s = Some (ok, a # ch', s')"
      unfolding step conf [symmetric] using keep r(1) by simp
    ultimately show ?thesis using r keep(2) by (intro exI [of _ ok] exI [of _ "a # ch'"] exI [of _ s']) auto
  qed
qed

lemma scan_reverse_inv:
  assumes "cinv (T[i := pre @ ch]) s" and "i < length T"
  shows "\<exists>ch' s'. scan_reverse addr now flags ch s = Some (ch', s') \<and> cinv (T[i := pre @ ch']) s' \<and>
     scan_frame s s' \<and> set ch' \<subseteq> set ch"
  using assms(1)
proof (induction ch arbitrary: pre s)
  case Nil
  then show ?case by simp
next
  case (Cons a as)
  let ?c = "recs s a"
  let ?hit = "flags AND c_flags ?c AND CF_REVERSE \<noteq> 0 \<and> flags AND c_flags ?c AND (CF_IPV4 OR CF_IPV6) \<noteq> 0 \<and> Some (c_addr ?c) = addr"
  note step = scan_reverse.simps(2) [of addr now flags a as s, unfolded Let_def]
  consider (stop) "\<not> (has CF_REVERSE ?c \<or> \<not> has CF_IMMORTAL ?c)"
    | (drop) "has CF_REVERSE ?c \<or> \<not> has CF_IMMORTAL ?c" "is_expired now ?c" "fixed_rec ?c"
    | (free) "has CF_REVERSE ?c \<or> \<not> has CF_IMMORTAL ?c" "is_expired now ?c \<or> ?hit" "\<not> fixed_rec ?c"
    | (keep) "has CF_REVERSE ?c \<or> \<not> has CF_IMMORTAL ?c" "\<not> is_expired now ?c" "fixed_rec ?c \<or> \<not> ?hit"
    by blast
  then show ?case
  proof cases
    case stop
    then show ?thesis unfolding step using Cons.prems by auto
  next
    case drop
    have "scan_reverse addr now flags (a # as) s = scan_reverse addr now flags as s"
      unfolding step using drop by simp
    with Cons.IH [OF step_drop [OF Cons.prems assms(2) drop(3)]] show ?thesis by fastforce
  next
    case free
    obtain s1 where s1: "unlink_free a s = Some s1" "cinv (T[i := pre @ as]) s1" "scan_frame s s1"
      using step_free [OF Cons.prems assms(2) free(3)] by blast
    have run: "scan_reverse addr now flags (a # as) s = scan_reverse addr now flags as s1"
      unfolding step using free s1(1) by auto
    from Cons.IH [OF s1(2)] s1(3) show ?thesis unfolding run by (fastforce intro: scan_frame_trans)
  next
    case keep
    have "cinv (T[i := (pre @ [a]) @ as]) s" using Cons.prems by simp
    from Cons.IH [OF this] obtain ch' s' where r: "scan_reverse addr now flags as s = Some (ch', s')"
      "cinv (T[i := pre @ a # ch']) s'" "scan_frame s s'" "set ch' \<subseteq> set as"
      by auto
    moreover have "scan_reverse addr now flags (a # as) s = Some (a # ch', s')"
      unfolding step using keep r(1) by auto
    ultimately show ?thesis by (intro exI [of _ "a # ch'"] exI [of _ s']) auto
  qed
qed

lemma cinv_table [simp]: "cinv T (s\<lparr>table := X\<rparr>) = cinv T s"
  by (simp add: cinv_def chain_ok_def)

lemma cinv_counters [simp]:
  "cinv T (s\<lparr>insert_error := e\<rparr>) = cinv T s" "cinv T (s\<lparr>cache_live_freed := k\<rparr>) = cinv T s"
  "cinv T (s\<lparr>big_free := m\<rparr>) = cinv T s" "cinv T (s\<lparr>bignames_left := m\<rparr>) = cinv T s"
  "cinv T (s\<lparr>cache_inserted := m\<rparr>) = cinv T s"
  by (simp_all add: cinv_def chain_ok_def)

text \<open>The frame of an operation that writes chains back.\<close>

definition op_frame :: "cst \<Rightarrow> cst \<Rightarrow> bool" where
  "op_frame s s' \<longleftrightarrow> length (table s') = length (table s) \<and> mix_tab s' = mix_tab s \<and> new_ch s' = new_ch s \<and>
     insert_error s' = insert_error s \<and> max_cache_ttl s' = max_cache_ttl s \<and> set (lru s') = set (lru s) \<and>
     (\<forall>b. recs s' b = recs s b \<or> (b \<in> set (lru s) \<and> \<not> live_rec (recs s' b))) \<and>
     (\<forall>i < length (table s). set (table s' ! i) \<subseteq> set (table s ! i))"

lemma op_frame_refl [simp]: "op_frame s s"
  by (simp add: op_frame_def)

lemma op_frame_trans: "op_frame s s' \<Longrightarrow> op_frame s' s'' \<Longrightarrow> op_frame s s''"
  unfolding op_frame_def by (intro conjI; metis subset_trans)

lemma op_frame_writeback:
  assumes "scan_frame s s'" and "i < length (table s)" and "set ch \<subseteq> set (table s ! i)"
  shows "op_frame s (s'\<lparr>table := (table s')[i := ch]\<rparr>)"
  using assms unfolding op_frame_def scan_frame_def same_frame_def by (auto simp: nth_list_update split: if_splits)

lemma scan_bucket_reverse_inv:
  assumes "cache_inv s" and "i < length (table s)"
  shows "\<exists>s'. scan_bucket_reverse addr now flags i s = Some s' \<and> cache_inv s' \<and> op_frame s s'"
proof -
  have "cinv ((table s)[i := [] @ table s ! i]) s" using assms by (simp add: cache_inv_def)
  from scan_reverse_inv [OF this assms(2), of addr now flags] obtain ch s' where r: "scan_reverse addr now flags (table s ! i) s = Some (ch, s')"
    "cinv ((table s)[i := ch]) s'" "scan_frame s s'" "set ch \<subseteq> set (table s ! i)"
    by auto
  have t: "table s' = table s" using r(3) by (simp add: scan_frame_def same_frame_def)
  show ?thesis
    using r op_frame_writeback [OF r(3) assms(2) r(4)] t by (simp add: scan_bucket_reverse_def cache_inv_def)
qed

lemma foldM_scan_reverse_inv:
  assumes "cache_inv s" and "\<forall>i \<in> set is. i < length (table s)"
  shows "\<exists>s'. foldM (scan_bucket_reverse addr now flags) is s = Some s' \<and> cache_inv s' \<and> op_frame s s'"
  using assms
proof (induction "is" arbitrary: s)
  case (Cons i js)
  obtain s1 where s1: "scan_bucket_reverse addr now flags i s = Some s1" "cache_inv s1" "op_frame s s1"
    using scan_bucket_reverse_inv [OF Cons.prems(1), of i addr now flags] Cons.prems(2) by auto
  have "\<forall>j \<in> set js. j < length (table s1)" using s1(3) Cons.prems(2) by (simp add: op_frame_def)
  from Cons.IH [OF s1(2) this] s1 show ?case by (auto intro: op_frame_trans)
qed simp

definition in_table :: "cst \<Rightarrow> nat \<Rightarrow> bool" where
  "in_table s a \<longleftrightarrow> (\<exists>ch \<in> set (table s). a \<in> set ch)"

lemma in_table_bucket:
  assumes "cache_inv s" and "in_table s a"
  shows "a \<in> set (table s ! hash_bucket s (c_name (recs s a)))" "live_rec (recs s a)" "a \<notin> set (new_ch s)"
    "fixed_rec (recs s a) \<or> a \<in> set (lru s)"
proof -
  obtain i where i: "i < length (table s)" "a \<in> set (table s ! i)"
    using assms(2) unfolding in_table_def by (metis in_set_conv_nth)
  have "chain_ok s (length (table s)) i (table s ! i)" using assms(1) i(1) by (simp add: cache_inv_def cinvD(6))
  from chain_okD [OF this i(2)] i(2)
  show "a \<in> set (table s ! hash_bucket s (c_name (recs s a)))" "live_rec (recs s a)" "a \<notin> set (new_ch s)"
    "fixed_rec (recs s a) \<or> a \<in> set (lru s)"
    by (simp_all add: hash_bucket_of)
qed

lemma hash_bucket_less: "cache_inv s \<Longrightarrow> hash_bucket s name < length (table s)"
  using bucket_of_less [OF cinvD(1,2)] by (simp add: hash_bucket_of cache_inv_def)

lemma in_table_nth: "i < length (table s) \<Longrightarrow> a \<in> set (table s ! i) \<Longrightarrow> in_table s a"
  by (auto simp: in_table_def)

lemma cache_scan_free_inv:
  assumes "cache_inv s"
  shows "\<exists>ok s'. cache_scan_free name addr now flags s = Some (ok, s') \<and> cache_inv s' \<and> op_frame s s' \<and>
     (flags AND CF_FORWARD \<noteq> 0 \<and> ok \<longrightarrow> (\<forall>b. in_table s' b \<longrightarrow> \<not> name_conflict name flags (recs s' b))) \<and>
     (\<not> ok \<longrightarrow> (\<exists>b. in_table s' b \<and> fixed_rec (recs s' b) \<and> name_conflict name flags (recs s' b)))"
proof (cases "flags AND CF_FORWARD = 0")
  case True
  then show ?thesis
    using foldM_scan_reverse_inv [OF assms, of "[0..<length (table s)]" addr now flags]
    by (auto simp: cache_scan_free_def)
next
  case False
  let ?i = "hash_bucket s name"
  have i: "?i < length (table s)" by (rule hash_bucket_less [OF assms])
  have "cinv ((table s)[?i := [] @ table s ! ?i]) s" using assms by (simp add: cache_inv_def)
  from scan_forward_inv [OF this i, of name now flags] obtain ok ch s' where r: "scan_forward name now flags (table s ! ?i) s = Some (ok, ch, s')"
    "cinv ((table s)[?i := ch]) s'" "scan_frame s s'" "set ch \<subseteq> set (table s ! ?i)"
    "ok \<longrightarrow> (\<forall>b \<in> set ch. \<not> name_conflict name flags (recs s' b))"
    "\<not> ok \<longrightarrow> (\<exists>b \<in> set ch. fixed_rec (recs s' b) \<and> name_conflict name flags (recs s' b))"
    by auto
  have t: "table s' = table s" "mix_tab s' = mix_tab s" using r(3) by (simp_all add: scan_frame_def same_frame_def)
  define s'' where "s'' = s'\<lparr>table := (table s')[?i := ch]\<rparr>"
  have run: "cache_scan_free name addr now flags s = Some (ok, s'')"
    using False r(1) by (simp add: cache_scan_free_def s''_def)
  have inv: "cache_inv s''" using r(2) t(1) by (simp add: s''_def cache_inv_def)
  have fr: "op_frame s s''" unfolding s''_def by (rule op_frame_writeback [OF r(3) i r(4)])
  have "\<not> name_conflict name flags (recs s'' b)" if ok and b: "in_table s'' b" for b
  proof
    assume c: "name_conflict name flags (recs s'' b)"
    have "hash_bucket s'' (c_name (recs s'' b)) = ?i"
      using c bucket_of_case [of "c_name (recs s'' b)" name] t by (simp add: hash_bucket_of name_conflict_def s''_def)
    then have "b \<in> set ch" using in_table_bucket(1) [OF inv b] i t(1) by (simp add: s''_def)
    then show False using r(5) \<open>ok\<close> c by (simp add: s''_def)
  qed
  moreover have "\<exists>b. in_table s'' b \<and> fixed_rec (recs s'' b) \<and> name_conflict name flags (recs s'' b)" if "\<not> ok"
  proof -
    obtain b where b: "b \<in> set ch" "fixed_rec (recs s' b)" "name_conflict name flags (recs s' b)" using r(6) \<open>\<not> ok\<close> by blast
    have "in_table s'' b" using b(1) i t(1) in_table_nth [of ?i s'' b] by (simp add: s''_def)
    with b show ?thesis by (auto simp: s''_def)
  qed
  ultimately show ?thesis using run inv fr by blast
qed

subsection \<open>Inserting keeps the invariant\<close>

lemma cinv_unlink:
  assumes "cinv T s" and "a \<in> set (lru s)" and "\<not> live_rec (recs s a)"
  shows "cinv T (s\<lparr>lru := remove1 a (lru s)\<rparr>)"
proof -
  note c = cinvD [OF assms(1)]
  have "set (remove1 a (lru s)) = set (lru s) - {a}" using c(3) by simp
  moreover have "chain_ok (s\<lparr>lru := remove1 a (lru s)\<rparr>) (length T) i (T ! i)" if "i < length T" for i
    using c(6) [OF that] assms(3) \<open>set (remove1 a (lru s)) = set (lru s) - {a}\<close>
    by (auto simp: chain_ok_def)
  ultimately show ?thesis using assms(1) c(3) unfolding cinv_def by (auto simp: distinct_remove1)
qed

text \<open>What the loop hands out: a record that is in no chain and no list.\<close>

definition taken :: "cst \<Rightarrow> cst \<Rightarrow> nat \<Rightarrow> bool" where
  "taken s s' a \<longleftrightarrow> \<not> live_rec (recs s' a) \<and> \<not> fixed_rec (recs s' a) \<and> a \<notin> set (lru s') \<and> a \<notin> set (new_ch s') \<and>
     a \<in> set (lru s)"

text \<open>The frame of inserting: chains only shrink, live records stay as they are.\<close>

definition ins_frame :: "cst \<Rightarrow> cst \<Rightarrow> bool" where
  "ins_frame s s' \<longleftrightarrow> length (table s') = length (table s) \<and> mix_tab s' = mix_tab s \<and> new_ch s' = new_ch s \<and>
     max_cache_ttl s' = max_cache_ttl s \<and> (\<forall>b. live_rec (recs s' b) \<longrightarrow> recs s' b = recs s b) \<and>
     (\<forall>b. b \<notin> set (lru s) \<longrightarrow> recs s' b = recs s b) \<and> set (lru s') \<subseteq> set (lru s) \<and>
     (\<forall>i < length (table s). set (table s' ! i) \<subseteq> set (table s ! i))"

lemma ins_frame_op: "op_frame s s' \<Longrightarrow> ins_frame s s'"
  unfolding op_frame_def ins_frame_def by (intro conjI; metis subset_refl)

lemma ins_frame_trans: "ins_frame s s' \<Longrightarrow> ins_frame s' s'' \<Longrightarrow> ins_frame s s''"
  unfolding ins_frame_def by (intro conjI; metis subset_trans subsetD)

lemma ins_frame_upd [simp]:
  "ins_frame s (s'\<lparr>insert_error := e\<rparr>) = ins_frame s s'" "ins_frame s (s'\<lparr>cache_live_freed := n\<rparr>) = ins_frame s s'"
  by (simp_all add: ins_frame_def)

lemma cache_inv_upd [simp]:
  "cache_inv (s\<lparr>insert_error := e\<rparr>) = cache_inv s" "cache_inv (s\<lparr>cache_live_freed := n\<rparr>) = cache_inv s"
  "cache_inv (s\<lparr>big_free := n\<rparr>) = cache_inv s" "cache_inv (s\<lparr>bignames_left := n\<rparr>) = cache_inv s"
  "cache_inv (s\<lparr>cache_inserted := n\<rparr>) = cache_inv s"
  by (simp_all add: cache_inv_def)

definition loop_post :: "cst \<Rightarrow> (nat \<times> bool) option \<times> cst \<Rightarrow> bool" where
  "loop_post s r \<longleftrightarrow> cache_inv (snd r) \<and> ins_frame s (snd r) \<and>
     (case fst r of None \<Rightarrow> insert_error (snd r)
      | Some (a, _) \<Rightarrow> taken s (snd r) a \<and> insert_error (snd r) = insert_error s)"

lemma loop_post_take:
  assumes "cache_inv s" and "lru s \<noteq> []" and "\<not> live_rec (recs s (last (lru s)))"
    and "recs s0 = recs s" "lru s0 = lru s" "table s0 = table s" "new_ch s0 = new_ch s" "mix_tab s0 = mix_tab s"
      "max_cache_ttl s0 = max_cache_ttl s" "insert_error s0 = insert_error s"
  shows "\<exists>s'. map_option (Pair (Some (last (lru s), big))) (cache_unlink (last (lru s)) s0) = Some (Some (last (lru s), big), s') \<and>
     loop_post s (Some (last (lru s), big), s')"
proof -
  let ?a = "last (lru s)"
  define s' where "s' = s0\<lparr>lru := remove1 ?a (lru s0)\<rparr>"
  have a: "?a \<in> set (lru s)" using assms(2) by simp
  have inv: "cinv (table s) s" using assms(1) by (simp add: cache_inv_def)
  note c = cinvD [OF inv]
  have "cinv (table s) (s\<lparr>lru := remove1 ?a (lru s)\<rparr>)" by (rule cinv_unlink [OF inv a assms(3)])
  then have "cache_inv s'" unfolding cache_inv_def s'_def cinv_def chain_ok_def using assms(4-) by simp
  moreover have "ins_frame s s'" using set_remove1_subset [of ?a "lru s"] assms(4-) by (simp add: ins_frame_def s'_def)
  moreover have "taken s s' ?a"
    using a c(3,5,7) assms(3-) by (auto simp: taken_def s'_def)
  ultimately show ?thesis using a assms(4-) by (auto simp: cache_unlink_def loop_post_def s'_def)
qed

lemma loop_post_counter [simp]: "loop_post (s\<lparr>cache_live_freed := n\<rparr>) r = loop_post s r"
  by (cases "fst r") (simp_all add: loop_post_def ins_frame_def taken_def split: prod.split)

lemma loop_post_after:
  assumes "op_frame s s1" and "loop_post s1 r"
  shows "loop_post s r"
proof -
  have "ins_frame s (snd r)"
    using ins_frame_trans [OF ins_frame_op [OF assms(1)], of "snd r"] assms(2) by (simp add: loop_post_def)
  then show ?thesis
    using assms unfolding loop_post_def taken_def op_frame_def by (cases "fst r") auto
qed

lemma insert_loop_post:
  assumes "cache_inv s"
  shows "\<exists>r. insert_loop mem_ok name now freed_all free_avail s = Some r \<and> loop_post s r"
  using assms
proof (induction mem_ok name now freed_all free_avail s rule: insert_loop.induct)
  case (1 mem_ok name now freed_all free_avail s)
  let ?a = "last (lru s)"
  note step = insert_loop.simps [of mem_ok name now freed_all free_avail s, unfolded Let_def]
  have fail: "loop_post s (None, s\<lparr>insert_error := True\<rparr>)"
    using "1.prems" ins_frame_op [OF op_frame_refl, of s] by (simp add: loop_post_def)
  show ?case
  proof (cases "lru s = []")
    case True
    then show ?thesis unfolding step using fail by simp
  next
    case ne: False
    show ?thesis
    proof (cases "live_rec (recs s ?a)")
      case live: True
      obtain ok s1 where s1: "cache_scan_free (cache_get_name (recs s ?a)) (Some (c_addr (recs s ?a))) now (c_flags (recs s ?a)) s = Some (ok, s1)"
          "cache_inv s1" "op_frame s s1"
        using cache_scan_free_inv [OF "1.prems", of "cache_get_name (recs s ?a)" "Some (c_addr (recs s ?a))" now "c_flags (recs s ?a)"]
        by blast
      obtain ok' s2 where s2: "cache_scan_free [] None now 0 s = Some (ok', s2)" "cache_inv s2" "op_frame s s2"
        using cache_scan_free_inv [OF "1.prems", of "[]" None now 0] by blast
      consider "free_avail" | (spill) "\<not> free_avail" "freed_all" | (sweep) "\<not> free_avail" "\<not> freed_all" by blast
      then show ?thesis
      proof cases
        case 1
        then show ?thesis unfolding step using ne live fail by simp
      next
        case spill
        have "cache_inv (s1\<lparr>cache_live_freed := cache_live_freed s1 + 1\<rparr>)" using s1(2) by simp
        from "1.IH"(1) [OF ne refl refl live spill s1(1) refl this] obtain r
          where "insert_loop mem_ok name now freed_all True (s1\<lparr>cache_live_freed := cache_live_freed s1 + 1\<rparr>) = Some r"
            "loop_post (s1\<lparr>cache_live_freed := cache_live_freed s1 + 1\<rparr>) r" by blast
        then show ?thesis unfolding step using ne live spill s1(1) loop_post_after [OF s1(3)] by simp
      next
        case sweep
        from "1.IH"(2) [OF ne refl refl live sweep s2(1) refl s2(2)] obtain r
          where "insert_loop mem_ok name now True free_avail s2 = Some r" "loop_post s2 r" by blast
        then show ?thesis unfolding step using ne live sweep s2(1) loop_post_after [OF s2(3)] by simp
      qed
    next
      case dead: False
      note t = loop_post_take [OF "1.prems" ne dead]
      let ?long = "case name of None \<Rightarrow> False | Some n \<Rightarrow> length n > SMALLDNAME - 1"
      consider (short) "\<not> ?long" | (reuse) "?long" "big_free s > 0" | (none) "?long" "\<not> big_free s > 0" "bignames_left s = 0 \<or> \<not> mem_ok"
        | (alloc) "?long" "\<not> big_free s > 0" "\<not> (bignames_left s = 0 \<or> \<not> mem_ok)"
        by blast
      then show ?thesis
      proof cases
        case short
        obtain s' where "map_option (Pair (Some (?a, False))) (cache_unlink ?a s) = Some (Some (?a, False), s')"
          "loop_post s (Some (?a, False), s')" using t [of s False] by auto
        then show ?thesis unfolding step if_not_P [OF ne] if_not_P [OF dead] if_not_P [OF short] by blast
      next
        case reuse
        obtain s' where "map_option (Pair (Some (?a, True))) (cache_unlink ?a (s\<lparr>big_free := big_free s - 1\<rparr>)) = Some (Some (?a, True), s')"
          "loop_post s (Some (?a, True), s')" using t [of "s\<lparr>big_free := big_free s - 1\<rparr>" True] by auto
        then show ?thesis
          unfolding step if_not_P [OF ne] if_not_P [OF dead] if_P [OF reuse(1)] if_P [OF reuse(2)] by blast
      next
        case none
        show ?thesis
          unfolding step if_not_P [OF ne] if_not_P [OF dead] if_P [OF none(1)] if_not_P [OF none(2)] if_P [OF none(3)]
          using fail by blast
      next
        case alloc
        obtain s' where "map_option (Pair (Some (?a, True))) (cache_unlink ?a (s\<lparr>bignames_left := bignames_left s - 1\<rparr>)) = Some (Some (?a, True), s')"
          "loop_post s (Some (?a, True), s')" using t [of "s\<lparr>bignames_left := bignames_left s - 1\<rparr>" True] by auto
        then show ?thesis
          unfolding step if_not_P [OF ne] if_not_P [OF dead] if_P [OF alloc(1)] if_not_P [OF alloc(2)] if_not_P [OF alloc(3)] by blast
      qed
    qed
  qed
qed

text \<open>Flags with which a record may be inserted: it is forward or reverse and claims neither the
  hosts file nor DHCP as its source.\<close>

definition insertable :: "u16 \<Rightarrow> bool" where
  "insertable flags \<longleftrightarrow> flags AND (CF_FORWARD OR CF_REVERSE) \<noteq> 0 \<and> flags AND (CF_HOSTS OR CF_DHCP) = 0"

text \<open>The record as it is written.\<close>

definition inserted_rec :: "crec \<Rightarrow> bytes option \<Rightarrow> bytes option \<Rightarrow> int \<Rightarrow> u32 \<Rightarrow> u16 \<Rightarrow> bool" where
  "inserted_rec c name addr now ttl flags \<longleftrightarrow> c_flags c AND NOT CF_BIGNAME = flags AND NOT CF_BIGNAME \<and>
     c_name c = (case name of None \<Rightarrow> [] | Some n \<Rightarrow> n) \<and> (\<forall>x. addr = Some x \<longrightarrow> c_addr c = x) \<and> c_ttd c = time_plus now ttl"

definition clamp_ttl :: "u32 \<Rightarrow> u32 \<Rightarrow> u32" where
  "clamp_ttl mx ttl = (if mx \<noteq> 0 \<and> mx < ttl then mx else ttl)"

lemma has_inserted:
  assumes "c_flags c AND NOT CF_BIGNAME = flags AND NOT CF_BIGNAME"
  shows "m AND CF_BIGNAME = 0 \<Longrightarrow> has m c \<longleftrightarrow> flags AND m \<noteq> 0"
proof -
  assume m: "m AND CF_BIGNAME = 0"
  have "x AND m = (x AND NOT CF_BIGNAME) AND m" for x :: u16
    using and_not_absent [OF m] by (metis and.assoc and.commute)
  from this [of "c_flags c"] this [of flags] show ?thesis using assms by (simp add: has_def)
qed

lemma cinv_new:
  assumes inv: "cinv T s" and a: "\<not> live_rec (recs s a)" "a \<notin> set (lru s)" "a \<notin> set (new_ch s)"
    and c: "live_rec c" "\<not> fixed_rec c"
  shows "cinv T (s\<lparr>recs := (recs s)(a := c), new_ch := a # new_ch s\<rparr>)"
proof -
  note d = cinvD [OF inv]
  have nc: "a \<notin> set (T ! i)" if "i < length T" for i using chain_okD(2) [OF d(6) [OF that], of a] a(1) by blast
  define s' where "s' = s\<lparr>recs := (recs s)(a := c), new_ch := a # new_ch s\<rparr>"
  have f: "recs s' = (recs s)(a := c)" "new_ch s' = a # new_ch s" "lru s' = lru s" "mix_tab s' = mix_tab s"
    by (simp_all add: s'_def)
  have "chain_ok s' (length T) i (T ! i)" if i: "i < length T" for i
  proof -
    have eq: "map (\<lambda>b. chain_class (recs s' b)) (T ! i) = map (\<lambda>b. chain_class (recs s b)) (T ! i)"
      using nc [OF i] by (auto simp: f)
    have "\<forall>b \<in> set (T ! i). recs s' b = recs s b \<and> b \<noteq> a" using nc [OF i] by (auto simp: f)
    then show ?thesis using d(6) [OF i] unfolding chain_ok_def eq f(2,3,4) by auto
  qed
  then show ?thesis using inv a c unfolding cinv_def s'_def [symmetric] f by auto
qed

text \<open>The records that the cache holds somewhere: no operation takes one from elsewhere.\<close>

definition used :: "cst \<Rightarrow> nat \<Rightarrow> bool" where
  "used s a \<longleftrightarrow> a \<in> set (lru s) \<or> a \<in> set (new_ch s) \<or> in_table s a"

lemma used_upd [simp]: "used (s\<lparr>insert_error := e\<rparr>) a = used s a"
  by (simp add: used_def in_table_def)

lemma in_table_ins_frame:
  assumes fr: "ins_frame s s'" and "in_table s' b"
  shows "in_table s b"
proof -
  obtain ch where "ch \<in> set (table s')" "b \<in> set ch" using assms(2) unfolding in_table_def by blast
  then obtain i where i: "i < length (table s')" "b \<in> set (table s' ! i)" by (auto simp: in_set_conv_nth)
  then have "i < length (table s)" "set (table s' ! i) \<subseteq> set (table s ! i)" using fr by (simp_all add: ins_frame_def)
  then show ?thesis using i(2) in_table_nth by blast
qed

lemma used_ins_frame:
  assumes fr: "ins_frame s s'" and "used s' b"
  shows "used s b"
proof -
  have "set (lru s') \<subseteq> set (lru s)" "new_ch s' = new_ch s" using fr by (simp_all add: ins_frame_def)
  then show ?thesis using assms(2) in_table_ins_frame [OF fr, of b] unfolding used_def by auto
qed

text \<open>\<open>cache_insert\<close> always returns and keeps the invariant; a record it hands out is the head of
  the uncommitted ones, carries what it was given, and nothing in the table conflicts with its
  name.\<close>

lemma cache_insert_post:
  assumes inv: "cache_inv s" and fl: "insertable flags" and nm: "flags AND CF_FORWARD \<noteq> 0 \<longrightarrow> name \<noteq> None"
    and len: "\<forall>n. name = Some n \<longrightarrow> length n < MAXDNAME"
  shows "\<exists>r s'. cache_insert mem_ok name addr now ttl flags s = Some (r, s') \<and> cache_inv s' \<and>
     (\<forall>b. used s' b \<longrightarrow> used s b) \<and> (\<forall>b. in_table s' b \<longrightarrow> in_table s b \<and> recs s' b = recs s b) \<and>
     (case r of
        None \<Rightarrow> insert_error s' \<and> new_ch s' = new_ch s
      | Some a \<Rightarrow> \<not> insert_error s' \<and> new_ch s' = a # new_ch s \<and> a \<notin> set (new_ch s) \<and> a \<notin> set (lru s') \<and>
          inserted_rec (recs s' a) name addr now (clamp_ttl (max_cache_ttl s) ttl) flags \<and>
          (\<forall>b \<in> set (new_ch s). recs s' b = recs s b) \<and>
          (\<forall>b. in_table s' b \<longrightarrow> in_table s b \<and> recs s' b = recs s b) \<and>
          (flags AND CF_FORWARD \<noteq> 0 \<longrightarrow>
             (\<forall>b. in_table s' b \<longrightarrow> \<not> name_conflict (case name of None \<Rightarrow> [] | Some n \<Rightarrow> n) flags (recs s' b))))"
proof (cases "insert_error s")
  case True
  then show ?thesis using inv by (auto simp: cache_insert_def)
next
  case ie: False
  let ?n = "case name of None \<Rightarrow> [] | Some n \<Rightarrow> n"
  let ?ttl = "clamp_ttl (max_cache_ttl s) ttl"
  have g: "\<not> (flags AND CF_FORWARD \<noteq> 0 \<and> name = None)" using nm by blast
  obtain ok s1 where s1: "cache_scan_free ?n addr now flags s = Some (ok, s1)" "cache_inv s1" "op_frame s s1"
      "flags AND CF_FORWARD \<noteq> 0 \<and> ok \<longrightarrow> (\<forall>b. in_table s1 b \<longrightarrow> \<not> name_conflict ?n flags (recs s1 b))"
    using cache_scan_free_inv [OF inv, of ?n addr now flags] by blast
  have ts: "in_table s b \<and> recs s1 b = recs s b" if "in_table s1 b" for b
  proof -
    obtain i where "i < length (table s1)" "b \<in> set (table s1 ! i)" using \<open>in_table s1 b\<close> unfolding in_table_def by (metis in_set_conv_nth)
    then have "in_table s b" using s1(3) in_table_nth [of i s b] unfolding op_frame_def by (metis subsetD)
    moreover have "recs s1 b = recs s b" using in_table_bucket(2) [OF s1(2) that] s1(3) by (auto simp: op_frame_def)
    ultimately show ?thesis by blast
  qed
  note step = cache_insert_def [of mem_ok name addr now ttl flags s, unfolded Let_def, unfolded if_not_P [OF ie] if_not_P [OF g] s1(1)]
  show ?thesis
  proof (cases ok)
    case False
    have "in_table (s1\<lparr>insert_error := True\<rparr>) b \<longleftrightarrow> in_table s1 b" for b by (simp add: in_table_def)
    then show ?thesis unfolding step using False s1(2,3) ts used_ins_frame [OF ins_frame_op [OF s1(3)]] by (auto simp: op_frame_def)
  next
    case ok: True
    obtain r2 s2 where r2: "insert_loop mem_ok name now (flags AND CF_REVERSE \<noteq> 0) False s1 = Some (r2, s2)" "loop_post s1 (r2, s2)"
      using insert_loop_post [OF s1(2), of mem_ok name now "flags AND CF_REVERSE \<noteq> 0" False] by fastforce
    have inv2: "cache_inv s2" and fr2: "ins_frame s1 s2" using r2(2) by (simp_all add: loop_post_def)
    have fr: "ins_frame s s2" by (rule ins_frame_trans [OF ins_frame_op [OF s1(3)] fr2])
    have tb: "in_table s1 b \<and> recs s2 b = recs s1 b" if "in_table s2 b" for b
    proof -
      obtain i where "i < length (table s2)" "b \<in> set (table s2 ! i)" using \<open>in_table s2 b\<close> unfolding in_table_def by (metis in_set_conv_nth)
      then have "in_table s1 b" using fr2 in_table_nth [of i s1 b] unfolding ins_frame_def by (metis subsetD)
      moreover have "recs s2 b = recs s1 b" using in_table_bucket(2) [OF inv2 that] fr2 by (simp add: ins_frame_def)
      ultimately show ?thesis by blast
    qed
    have tab2: "in_table s b \<and> recs s2 b = recs s b" if "in_table s2 b" for b using tb [OF that] ts [of b] by simp
    show ?thesis
    proof (cases r2)
      case None
      then show ?thesis unfolding step using ok r2 inv2 fr tab2 used_ins_frame [OF fr] by (auto simp: loop_post_def ins_frame_def)
    next
      case (Some ab)
      obtain a big where ab: "ab = (a, big)" by (cases ab)
      have tk: "taken s1 s2 a" and ie2: "insert_error s2 = insert_error s1" using r2(2) Some ab by (simp_all add: loop_post_def)
      have l: "\<not> (case name of None \<Rightarrow> 0 | Some n \<Rightarrow> length n) \<ge> MAXDNAME"
        using len by (cases name) (auto simp: MAXDNAME_def)
      define c' where "c' = (recs s2 a)\<lparr>c_flags := (if big then flags OR CF_BIGNAME else flags), c_name := ?n,
          c_addr := (case addr of None \<Rightarrow> c_addr (recs s2 a) | Some x \<Rightarrow> x), c_ttd := time_plus now ?ttl\<rparr>"
      define s' where "s' = s2\<lparr>recs := (recs s2)(a := c'), new_ch := a # new_ch s2\<rparr>"
      have run: "cache_insert mem_ok name addr now ttl flags s = Some (Some a, s')"
        unfolding step using ok r2(1) Some ab l by (simp add: s'_def c'_def clamp_ttl_def)
      have ins: "inserted_rec c' name addr now ?ttl flags"
        by (auto simp: inserted_rec_def c'_def bit.conj_disj_distrib2)
      then have hc: "m AND CF_BIGNAME = 0 \<Longrightarrow> has m c' \<longleftrightarrow> flags AND m \<noteq> 0" for m
        by (intro has_inserted) (simp add: inserted_rec_def)
      have "live_rec c'" "\<not> fixed_rec c'"
        using hc [of "CF_FORWARD OR CF_REVERSE"] hc [of "CF_HOSTS OR CF_DHCP"] fl
        by (simp_all add: insertable_def fixed_rec_def cf_defs)
      then have inv': "cache_inv s'"
        using cinv_new [of "table s2" s2 a c'] inv2 tk by (simp add: cache_inv_def s'_def taken_def)
      have nt: "\<not> in_table s2 a" using in_table_bucket(2) [OF inv2, of a] tk by (auto simp: taken_def)
      have it: "in_table s' b \<longleftrightarrow> in_table s2 b" for b by (simp add: in_table_def s'_def)
      have tab: "in_table s b \<and> recs s' b = recs s b \<and> in_table s1 b \<and> recs s' b = recs s1 b" if "in_table s' b" for b
        using that tb [of b] ts [of b] nt unfolding it by (auto simp: s'_def)
      have nch: "new_ch s2 = new_ch s" using fr by (simp add: ins_frame_def)
      have keep: "recs s' b = recs s b" if "b \<in> set (new_ch s)" for b
        using that fr tk nch cinvD(5) [OF inv [unfolded cache_inv_def]] by (auto simp: s'_def ins_frame_def taken_def)
      have noconf: "\<not> name_conflict ?n flags (recs s' b)" if "flags AND CF_FORWARD \<noteq> 0" "in_table s' b" for b
        using tab [OF that(2)] s1(4) ok that(1) by metis
      have "\<not> insert_error s'" "new_ch s' = a # new_ch s" "a \<notin> set (new_ch s)" "a \<notin> set (lru s')"
        "inserted_rec (recs s' a) name addr now ?ttl flags"
        using ins tk ie ie2 s1(3) nch by (auto simp: s'_def taken_def op_frame_def)
      moreover have "used s b" if "used s' b" for b
        using that tk used_ins_frame [OF fr, of b] s1(3) it by (auto simp: used_def s'_def taken_def op_frame_def)
      ultimately show ?thesis using run inv' tab keep noconf by (intro exI [of _ "Some a"] exI [of _ s']) simp
    qed
  qed
qed

subsection \<open>Starting and ending a transaction\<close>

lemma cinv_free_new:
  assumes inv: "cinv T (s\<lparr>new_ch := a # ns\<rparr>)"
  shows "cinv T ((cache_free a s)\<lparr>new_ch := ns\<rparr>)"
proof -
  define s0 s' where "s0 = s\<lparr>new_ch := a # ns\<rparr>" and "s' = (cache_free a s)\<lparr>new_ch := ns\<rparr>"
  note d = cinvD [OF inv [folded s0_def]]
  have f: "recs s' = (recs s)(a := freed (uid s) (recs s a))" "lru s' = lru s @ [a]" "new_ch s' = ns" "mix_tab s' = mix_tab s"
    and f0: "recs s0 = recs s" "lru s0 = lru s" "new_ch s0 = a # ns" "mix_tab s0 = mix_tab s"
    by (simp_all add: s'_def s0_def)
  have nl: "a \<notin> set (lru s)" using d(5) by (auto simp: f0)
  have "chain_ok s' (length T) i (T ! i)" if i: "i < length T" for i
  proof -
    have nc: "a \<notin> set (T ! i)" using chain_okD(3) [OF d(6) [OF i], of a] by (auto simp: f0)
    have eq: "map (\<lambda>b. chain_class (recs s' b)) (T ! i) = map (\<lambda>b. chain_class (recs s b)) (T ! i)"
      using nc by (auto simp: f)
    have "\<forall>b \<in> set (T ! i). recs s' b = recs s b \<and> b \<noteq> a" using nc by (auto simp: f)
    then show ?thesis using d(6) [OF i] unfolding chain_ok_def eq f(2,3,4) f0 by auto
  qed
  moreover have "\<not> fixed_rec (recs s' b) \<and> (live_rec (recs s' b) \<longrightarrow> b \<in> set (T ! bucket_of (mix_tab s') (length T) (c_name (recs s' b))))"
    if "b \<in> set (lru s')" for b
    using that d(7) [of b] d(8) [of b] d(9) [of a] nl by (cases "b = a") (auto simp: f f0 freed_flags)
  moreover have "\<forall>b \<in> set (new_ch s'). \<not> fixed_rec (recs s' b) \<and> live_rec (recs s' b)"
    using d(4,9) by (auto simp: f f0)
  moreover have "distinct (lru s' @ new_ch s')" using d(3,4,5) nl by (auto simp: f f0)
  ultimately have "cinv T s'" using d(1,2) unfolding cinv_def by blast
  then show ?thesis by (simp add: s'_def)
qed

lemma cinv_free_all:
  "cinv T (s\<lparr>new_ch := ns\<rparr>) \<Longrightarrow> cinv T ((fold cache_free ns s)\<lparr>new_ch := []\<rparr>)"
proof (induction ns arbitrary: s)
  case (Cons a ns)
  from Cons.IH [OF cinv_free_new [OF Cons.prems]] show ?case by simp
qed simp

lemma fold_cache_free_table: "table (fold cache_free ns s) = table s"
  by (induction ns arbitrary: s) simp_all

lemma cache_start_insert_inv:
  assumes "cache_inv s"
  shows "cache_inv (cache_start_insert s)" "new_ch (cache_start_insert s) = []" "\<not> insert_error (cache_start_insert s)"
    "table (cache_start_insert s) = table s" "mix_tab (cache_start_insert s) = mix_tab s"
proof -
  have "cinv (table s) (s\<lparr>new_ch := new_ch s\<rparr>)" using assms by (simp add: cache_inv_def)
  from cinv_free_all [OF this] show "cache_inv (cache_start_insert s)"
    by (simp add: cache_start_insert_def cache_inv_def fold_cache_free_table)
  have "mix_tab (fold cache_free ns s) = mix_tab s" for ns by (induction ns arbitrary: s) simp_all
  then show "mix_tab (cache_start_insert s) = mix_tab s" by (simp add: cache_start_insert_def)
qed (simp_all add: cache_start_insert_def fold_cache_free_table)

text \<open>The place in a chain is the place by class.\<close>

lemma chain_place_insort:
  "sorted (map (\<lambda>b. chain_class (rs b)) ch) \<Longrightarrow> chain_place rs a ch = insort_key (\<lambda>b. chain_class (rs b)) a ch"
proof (induction ch)
  case (Cons b ch)
  have IH: "chain_place rs a ch = insort_key (\<lambda>b. chain_class (rs b)) a ch" using Cons by simp
  have up: "chain_class (rs b) \<le> chain_class (rs x)" if "x \<in> set ch" for x using Cons.prems that by simp
  show ?case
  proof (cases "chain_class (rs a) \<le> chain_class (rs b)")
    case True
    then show ?thesis by (auto simp: chain_place_def chain_class_def Let_def split: if_splits)
  next
    case False
    consider "has CF_REVERSE (rs b)" | "\<not> has CF_REVERSE (rs b)" "\<not> has CF_IMMORTAL (rs b)" "has CF_IMMORTAL (rs a)"
      using False by (auto simp: chain_class_def split: if_splits)
    then show ?thesis
    proof cases
      case 1
      then have "chain_place rs a (b # ch) = b # chain_place rs a ch"
        using False by (auto simp: chain_place_def chain_class_def Let_def split: if_splits)
      then show ?thesis using IH False by simp
    next
      case 2
      have "\<not> has CF_REVERSE (rs x)" if "x \<in> set ch" for x using up [OF that] 2 by (auto simp: chain_class_def split: if_splits)
      then have "takeWhile (\<lambda>b. has CF_REVERSE (rs b)) ch = []" "dropWhile (\<lambda>b. has CF_REVERSE (rs b)) ch = ch"
        by (cases ch; simp)+
      then have "chain_place rs a (b # ch) = b # chain_place rs a ch"
        using False 2 by (auto simp: chain_place_def chain_class_def Let_def split: if_splits)
      then show ?thesis using IH False by simp
    qed
  qed
qed (simp add: chain_place_def)

lemma chain_place_props:
  assumes "sorted (map (\<lambda>b. chain_class (rs b)) ch)"
  shows "set (chain_place rs a ch) = insert a (set ch)" "distinct (chain_place rs a ch) \<longleftrightarrow> a \<notin> set ch \<and> distinct ch"
    "sorted (map (\<lambda>b. chain_class (rs b)) (chain_place rs a ch))"
  unfolding chain_place_insort [OF assms]
  using assms by (simp_all add: set_insort_key distinct_insort sorted_insort_key)

lemma cinv_commit:
  assumes inv: "cinv (table s) (s\<lparr>new_ch := a # ns\<rparr>)" and s': "s' = cache_link a (cache_hash a s)"
  shows "cinv (table s') (s'\<lparr>new_ch := ns\<rparr>)" "length (table s') = length (table s)"
    "in_table s' b \<longleftrightarrow> b = a \<or> in_table s b"
proof -
  define s0 t where "s0 = s\<lparr>new_ch := a # ns\<rparr>" and "t = s'\<lparr>new_ch := ns\<rparr>"
  define T where "T = table s"
  note d = cinvD [OF inv [folded s0_def T_def]]
  have f0: "recs s0 = recs s" "lru s0 = lru s" "new_ch s0 = a # ns" "mix_tab s0 = mix_tab s" by (simp_all add: s0_def)
  define i where "i = bucket_of (mix_tab s) (length T) (c_name (recs s a))"
  have i: "i < length T" unfolding i_def using bucket_of_less [OF d(1,2)] by simp
  define ch where "ch = chain_place (recs s) a (T ! i)"
  have f: "recs t = recs s" "lru t = a # lru s" "new_ch t = ns" "mix_tab t = mix_tab s" "table s' = T[i := ch]" "table t = T[i := ch]"
    by (simp_all add: t_def s' cache_link_def cache_hash_def Let_def hash_bucket_of i_def ch_def T_def)
  have ok: "chain_ok s0 (length T) j (T ! j)" if "j < length T" for j using d(6) [OF that] .
  have srt: "sorted (map (\<lambda>b. chain_class (recs s b)) (T ! i))" using ok [OF i] by (simp add: chain_ok_def f0)
  note cp = chain_place_props [OF srt, of a, folded ch_def]
  have nc: "a \<notin> set (T ! j)" if "j < length T" for j using chain_okD(3) [OF ok [OF that], of a] by (auto simp: f0)
  have nl: "a \<notin> set (lru s)" using d(5) by (auto simp: f0)
  have "chain_ok t (length T) j (T[i := ch] ! j)" if j: "j < length T" for j
  proof (cases "j = i")
    case True
    have "distinct (T ! i)" using ok [OF i] by (simp add: chain_ok_def)
    then have "distinct ch" using cp(2) nc [OF i] by simp
    moreover have la: "live_rec (recs s a)" "a \<notin> set ns" using d(9) [of a] d(4) by (simp_all add: f0)
    moreover have "bucket_of (mix_tab t) (length T) (c_name (recs t b)) = i \<and> live_rec (recs t b) \<and>
        b \<notin> set (new_ch t) \<and> (fixed_rec (recs t b) \<or> b \<in> set (lru t))" if "b \<in> set ch" for b
    proof (cases "b = a")
      case True
      then show ?thesis using la by (simp add: f i_def)
    next
      case False
      then have "b \<in> set (T ! i)" using that cp(1) by simp
      from chain_okD [OF ok [OF i] this] show ?thesis by (auto simp: f f0)
    qed
    ultimately show ?thesis using cp(3) i True unfolding chain_ok_def f(1) by simp
  next
    case False
    then show ?thesis using ok [OF j] nc [OF j] unfolding chain_ok_def f f0 by auto
  qed
  moreover have "\<not> fixed_rec (recs t b) \<and> (live_rec (recs t b) \<longrightarrow> b \<in> set (T[i := ch] ! bucket_of (mix_tab t) (length T) (c_name (recs t b))))"
    if "b \<in> set (lru t)" for b
    using that d(7) [of b] d(8) [of b] d(9) [of a] cp(1) i nl
    by (cases "b = a"; cases "bucket_of (mix_tab s) (length T) (c_name (recs s b)) = i") (auto simp: f f0 i_def)
  moreover have "\<forall>b \<in> set (new_ch t). \<not> fixed_rec (recs t b) \<and> live_rec (recs t b)" using d(9) by (auto simp: f f0)
  moreover have "distinct (lru t @ new_ch t)" using d(3,4,5) nl by (auto simp: f f0)
  ultimately have "cinv (T[i := ch]) t" using d(1,2) unfolding cinv_def by simp
  then show "cinv (table s') (s'\<lparr>new_ch := ns\<rparr>)" by (simp add: f(5) t_def)
  show "length (table s') = length (table s)" by (simp add: f(5) T_def)
  show "in_table s' b \<longleftrightarrow> b = a \<or> in_table s b"
  proof -
    have "in_table s' b \<longleftrightarrow> (\<exists>j < length T. b \<in> set (T[i := ch] ! j))"
      unfolding in_table_def f(5) by (metis in_set_conv_nth length_list_update)
    also have "\<dots> \<longleftrightarrow> b = a \<or> (\<exists>j < length T. b \<in> set (T ! j))"
    proof
      assume "\<exists>j < length T. b \<in> set (T[i := ch] ! j)"
      then obtain j where "j < length T" "b \<in> set (T[i := ch] ! j)" by blast
      then show "b = a \<or> (\<exists>j < length T. b \<in> set (T ! j))" using i cp(1) by (cases "j = i") auto
    next
      assume "b = a \<or> (\<exists>j < length T. b \<in> set (T ! j))"
      then obtain j where "j < length T" "b \<in> set (T[i := ch] ! j)"
      proof
        assume "b = a"
        then show thesis using that [of i] i cp(1) by simp
      next
        assume "\<exists>j < length T. b \<in> set (T ! j)"
        then obtain j where "j < length T" "b \<in> set (T ! j)" by blast
        then show thesis using that [of j] i cp(1) by (cases "j = i") auto
      qed
      then show "\<exists>j < length T. b \<in> set (T[i := ch] ! j)" by blast
    qed
    also have "\<dots> \<longleftrightarrow> b = a \<or> in_table s b" unfolding in_table_def T_def by (metis in_set_conv_nth)
    finally show ?thesis .
  qed
qed

lemma commit_rec_inv:
  assumes "cinv (table s) (s\<lparr>new_ch := a # ns\<rparr>)"
  shows "cinv (table (commit_rec a s)) ((commit_rec a s)\<lparr>new_ch := ns\<rparr>)"
    "length (table (commit_rec a s)) = length (table s)" "mix_tab (commit_rec a s) = mix_tab s"
    "insert_error (commit_rec a s) = insert_error s" "\<And>b. b \<noteq> a \<Longrightarrow> recs (commit_rec a s) b = recs s b"
    "\<And>b. in_table (commit_rec a s) b \<longleftrightarrow> in_table s b \<or> (b = a \<and> \<not> is_outdated_cname_pointer s (recs s a))"
    "\<not> is_outdated_cname_pointer s (recs s a) \<Longrightarrow> recs (commit_rec a s) = recs s"
proof -
  have "cinv (table (commit_rec a s)) ((commit_rec a s)\<lparr>new_ch := ns\<rparr>) \<and> length (table (commit_rec a s)) = length (table s) \<and>
     (\<forall>b. in_table (commit_rec a s) b \<longleftrightarrow> in_table s b \<or> (b = a \<and> \<not> is_outdated_cname_pointer s (recs s a)))"
  proof (cases "is_outdated_cname_pointer s (recs s a)")
    case True
    then show ?thesis using cinv_free_new [OF assms] by (auto simp: commit_rec_def in_table_def)
  next
    case False
    define s' where "s' = cache_link a (cache_hash a s)"
    note c = cinv_commit [OF assms s'_def]
    have e: "commit_rec a s = s'\<lparr>cache_inserted := cache_inserted s + 1\<rparr>" using False by (simp add: commit_rec_def s'_def)
    have "in_table (commit_rec a s) b \<longleftrightarrow> in_table s' b" for b by (simp add: e in_table_def)
    moreover have "cinv (table s') ((s'\<lparr>cache_inserted := cache_inserted s + 1\<rparr>)\<lparr>new_ch := ns\<rparr>)"
      using c(1) unfolding cinv_def chain_ok_def by simp
    ultimately show ?thesis using c(2,3) False by (simp add: e) blast
  qed
  then show "cinv (table (commit_rec a s)) ((commit_rec a s)\<lparr>new_ch := ns\<rparr>)"
    "length (table (commit_rec a s)) = length (table s)"
    "\<And>b. in_table (commit_rec a s) b \<longleftrightarrow> in_table s b \<or> (b = a \<and> \<not> is_outdated_cname_pointer s (recs s a))"
    by blast+
  show "mix_tab (commit_rec a s) = mix_tab s" "insert_error (commit_rec a s) = insert_error s"
    "\<And>b. b \<noteq> a \<Longrightarrow> recs (commit_rec a s) b = recs s b"
    "\<not> is_outdated_cname_pointer s (recs s a) \<Longrightarrow> recs (commit_rec a s) = recs s"
    by (auto simp: commit_rec_def cache_link_def cache_hash_def Let_def)
qed

text \<open>Committing the whole chain: every record that is not a CNAME ends up in the table,
  unchanged; what was there stays.\<close>

lemma fold_commit_inv:
  assumes "cinv (table s) (s\<lparr>new_ch := ns\<rparr>)"
  shows "cinv (table (fold commit_rec ns s)) ((fold commit_rec ns s)\<lparr>new_ch := []\<rparr>) \<and>
     length (table (fold commit_rec ns s)) = length (table s) \<and> mix_tab (fold commit_rec ns s) = mix_tab s \<and>
     insert_error (fold commit_rec ns s) = insert_error s \<and>
     (\<forall>b. b \<notin> set ns \<longrightarrow> recs (fold commit_rec ns s) b = recs s b) \<and>
     (\<forall>b \<in> set ns. \<not> has CF_CNAME (recs s b) \<longrightarrow> in_table (fold commit_rec ns s) b \<and> recs (fold commit_rec ns s) b = recs s b) \<and>
     (\<forall>b. in_table s b \<longrightarrow> in_table (fold commit_rec ns s) b) \<and>
     (\<forall>b. in_table (fold commit_rec ns s) b \<longrightarrow> in_table s b \<or> b \<in> set ns)"
  using assms
proof (induction ns arbitrary: s)
  case (Cons a ns)
  let ?s = "commit_rec a s"
  note c = commit_rec_inv [OF Cons.prems]
  have an: "a \<notin> set ns" using cinvD(4) [OF Cons.prems] by simp
  note IH = Cons.IH [OF c(1)]
  have r: "recs ?s b = recs s b" if "b \<in> set ns" for b using c(5) [of b] that an by auto
  have a1: "in_table (fold commit_rec ns ?s) a \<and> recs (fold commit_rec ns ?s) a = recs s a" if "\<not> has CF_CNAME (recs s a)"
  proof -
    have "\<not> is_outdated_cname_pointer s (recs s a)" using that by (simp add: is_outdated_cname_pointer_def)
    then have "in_table ?s a" "recs ?s a = recs s a" using c(6) [of a] c(7) by auto
    then show ?thesis using IH an by auto
  qed
  have "fold commit_rec (a # ns) s = fold commit_rec ns ?s" by simp
  then show ?case
    unfolding \<open>fold commit_rec (a # ns) s = fold commit_rec ns ?s\<close>
    using IH a1 r c(2-6) by auto
qed simp

lemma cache_end_insert_inv:
  assumes "cache_inv s"
  shows "cache_inv (cache_end_insert s)"
proof -
  have "cinv (table s) (s\<lparr>new_ch := new_ch s\<rparr>)" using assms by (simp add: cache_inv_def)
  from fold_commit_inv [OF this] show ?thesis
    using assms by (auto simp: cache_end_insert_def cache_inv_def)
qed

subsection \<open>Looking up by name\<close>

lemma chain_class_cong:
  assumes "c_flags c AND (CF_REVERSE OR CF_IMMORTAL) = c_flags d AND (CF_REVERSE OR CF_IMMORTAL)"
  shows "chain_class c = chain_class d"
proof -
  have e: "x AND CF_REVERSE = (x AND (CF_REVERSE OR CF_IMMORTAL)) AND CF_REVERSE"
    "x AND CF_IMMORTAL = (x AND (CF_REVERSE OR CF_IMMORTAL)) AND CF_IMMORTAL" for x :: u16
    by (simp_all add: cf_defs and.assoc)
  have "c_flags c AND CF_REVERSE = c_flags d AND CF_REVERSE" "c_flags c AND CF_IMMORTAL = c_flags d AND CF_IMMORTAL"
    unfolding e [of "c_flags c"] e [of "c_flags d"] assms by (rule refl)+
  then show ?thesis by (simp add: chain_class_def has_def)
qed

text \<open>Moving an entry forward to stand before one of its own class.\<close>

lemma sorted_move:
  fixes f :: "nat \<Rightarrow> nat"
  assumes "sorted (map f (pre @ a # as))" and "k < length pre" and "f a = f (pre ! k)"
  shows "sorted (map f (take k pre @ a # drop k pre @ as))"
proof -
  have p: "pre = take k pre @ pre ! k # drop (k + 1) pre" using assms(2) by (simp add: id_take_nth_drop)
  have s: "sorted (map f pre)" "\<forall>x \<in> set pre. f x \<le> f a" "\<forall>x \<in> set as. f a \<le> f x" "sorted (map f as)"
    using assms(1) by (auto simp: sorted_append)
  have t: "sorted (map f (take k pre))" "sorted (map f (drop k pre))"
    "\<forall>x \<in> set (take k pre). \<forall>y \<in> set (drop k pre). f x \<le> f y"
    using s(1) append_take_drop_id [of k pre] by (metis map_append sorted_append, metis map_append sorted_append)
       (metis (no_types, lifting) append_take_drop_id image_eqI map_append s(1) set_map sorted_append)
  have k: "pre ! k \<in> set (drop k pre)" using assms(2) by (metis Cons_nth_drop_Suc list.set_intros(1))
  have lo: "\<forall>x \<in> set (take k pre). f x \<le> f a" using t(3) k assms(3) by auto
  have hi: "f a \<le> f y" if "y \<in> set (drop k pre)" for y
  proof -
    have "drop k pre = pre ! k # drop (k + 1) pre" using assms(2) by (simp add: Cons_nth_drop_Suc)
    then show ?thesis using t(2) that assms(3) by auto
  qed
  have "f x \<le> f y" if "x \<in> set (drop k pre)" "y \<in> set as" for x y
    using that s(2,3) by (meson in_set_dropD order_trans)
  moreover have "f x \<le> f y" if "x \<in> set (take k pre)" "y \<in> set as" for x y
    using that s(2,3) by (meson in_set_takeD order_trans)
  ultimately show ?thesis using t lo hi s(3,4) by (auto simp: sorted_append)
qed

definition ins_ok :: "(nat \<times> u16) option \<Rightarrow> nat list \<Rightarrow> cst \<Rightarrow> bool" where
  "ins_ok ins pre s \<longleftrightarrow> (case ins of None \<Rightarrow> True
     | Some (k, f) \<Rightarrow> k < length pre \<and> c_flags (recs s (pre ! k)) AND (CF_REVERSE OR CF_IMMORTAL) = f)"

text \<open>What the loop has found so far: the hits among the entries passed, those of the hosts file
  and DHCP in \<open>hs\<close>, the others at the front of the recency list, last one first.\<close>

definition found :: "bytes \<Rightarrow> u16 \<Rightarrow> int \<Rightarrow> nat list \<Rightarrow> nat list \<Rightarrow> nat list \<Rightarrow> nat list \<Rightarrow> cst \<Rightarrow> bool" where
  "found name prot now pre hs H rest s \<longleftrightarrow> lru s = rev H @ rest \<and> distinct hs \<and> distinct H \<and>
     set hs = {a \<in> set pre. name_hit name prot (recs s a) \<and> fixed_rec (recs s a)} \<and>
     set H = {a \<in> set pre. name_hit name prot (recs s a) \<and> \<not> fixed_rec (recs s a)} \<and>
     (\<forall>a \<in> set pre. \<not> is_expired now (recs s a))"

lemma found_frame:
  assumes "found name prot now pre hs H rest s" and "scan_frame s s'" and "\<forall>a \<in> set pre. recs s' a = recs s a"
    and "lru s' = rev H @ rest'"
  shows "found name prot now pre hs H rest' s'"
  using assms unfolding found_def by auto

lemma chain_live:
  assumes "cinv (T[i := ch]) s" and "i < length T" and "a \<in> set ch"
  shows "live_rec (recs s a)"
  using chain_okD(2) [OF cinvD(6) [OF assms(1), of i], of a] assms(2,3) by simp

definition kept_hit :: "bytes \<Rightarrow> u16 \<Rightarrow> int \<Rightarrow> crec \<Rightarrow> bool" where
  "kept_hit name prot now c \<longleftrightarrow> \<not> is_expired now c \<and> \<not> has CF_CNAME c \<and> name_hit name prot c"

lemma find_name_loop_post:
  assumes "cinv (T[i := pre @ as]) s" and "i < length T" and "ins_ok ins pre s" and "found name prot now pre hs H rest s"
  shows "\<exists>ch hs' H' rest' s'. find_name_loop name now prot as pre ins hs s = Some (ch, hs', s') \<and>
     cinv (T[i := ch]) s' \<and> scan_frame s s' \<and> set ch \<subseteq> set (pre @ as) \<and> found name prot now ch hs' H' rest' s' \<and>
     set pre \<subseteq> set ch \<and> (\<forall>a \<in> set as. kept_hit name prot now (recs s a) \<longrightarrow> a \<in> set ch)"
  using assms(1,3,4)
proof (induction as arbitrary: pre ins hs H rest s)
  case Nil
  then show ?case by (intro exI [of _ pre] exI [of _ hs] exI [of _ H] exI [of _ rest] exI [of _ s]) auto
next
  case (Cons a as)
  let ?c = "recs s a"
  note dist = chain_mid_distinct [OF Cons.prems(1) assms(2)]
  note fd = Cons.prems(3) [unfolded found_def]
  note step = find_name_loop.simps(2) [of name now prot a as pre ins hs s, unfolded Let_def]
  have HP: "a \<notin> set H" "set H \<subseteq> set pre" using fd dist(1) by auto
  consider (drop) "is_expired now ?c \<or> is_outdated_cname_pointer s ?c" "fixed_rec ?c"
    | (free) "is_expired now ?c \<or> is_outdated_cname_pointer s ?c" "\<not> fixed_rec ?c"
    | (miss) "\<not> (is_expired now ?c \<or> is_outdated_cname_pointer s ?c)" "\<not> name_hit name prot ?c"
    | (hit) "\<not> (is_expired now ?c \<or> is_outdated_cname_pointer s ?c)" "name_hit name prot ?c"
    by blast
  then show ?case
  proof cases
    case drop
    have nk: "\<not> kept_hit name prot now ?c" using drop(1) by (auto simp: kept_hit_def is_outdated_cname_pointer_def)
    have run: "find_name_loop name now prot (a # as) pre ins hs s = find_name_loop name now prot as pre ins hs s"
      unfolding step using drop by auto
    show ?thesis unfolding run
      using Cons.IH [OF step_drop [OF Cons.prems(1) assms(2) drop(2)] Cons.prems(2,3)] nk by fastforce
  next
    case free
    have nk: "\<not> kept_hit name prot now ?c" using free(1) by (auto simp: kept_hit_def is_outdated_cname_pointer_def)
    obtain s1 where s1: "unlink_free a s = Some s1" "cinv (T[i := pre @ as]) s1" "scan_frame s s1"
      using step_free [OF Cons.prems(1) assms(2) free(2)] by blast
    have r1: "recs s1 = (recs s)(a := freed (uid s) ?c)" "lru s1 = remove1 a (lru s) @ [a]"
      using s1(1) by (auto simp: unlink_free_Some)
    have ls: "lru s = rev H @ rest" using fd by blast
    have l1: "lru s1 = rev H @ (remove1 a rest @ [a])" using HP(1) by (simp add: r1(2) ls remove1_append)
    have pre1: "\<forall>b \<in> set pre. recs s1 b = recs s b" using dist(1) by (auto simp: r1)
    have f1: "found name prot now pre hs H (remove1 a rest @ [a]) s1" by (rule found_frame [OF Cons.prems(3) s1(3) pre1 l1])
    have i1: "ins_ok ins pre s1" using Cons.prems(2) pre1 by (auto simp: ins_ok_def split: option.splits)
    have run: "find_name_loop name now prot (a # as) pre ins hs s = find_name_loop name now prot as pre ins hs s1"
      unfolding step using free s1(1) by auto
    obtain ch hs' H' rest' s' where p: "find_name_loop name now prot as pre ins hs s1 = Some (ch, hs', s')"
      "cinv (T[i := ch]) s'" "scan_frame s1 s'" "set ch \<subseteq> set (pre @ as)" "found name prot now ch hs' H' rest' s'"
      "set pre \<subseteq> set ch" "\<forall>b \<in> set as. kept_hit name prot now (recs s1 b) \<longrightarrow> b \<in> set ch"
      using Cons.IH [OF s1(2) i1 f1] by blast
    have "\<forall>b \<in> set as. recs s1 b = recs s b" using dist(2) by (auto simp: r1)
    then have "\<forall>b \<in> set (a # as). kept_hit name prot now (recs s b) \<longrightarrow> b \<in> set ch" using p(7) nk by auto
    then show ?thesis unfolding run using p scan_frame_trans [OF s1(3) p(3)]
      by (intro exI [of _ ch] exI [of _ hs'] exI [of _ H'] exI [of _ rest'] exI [of _ s']) auto
  next
    case miss
    have run: "find_name_loop name now prot (a # as) pre ins hs s = find_name_loop name now prot as (pre @ [a]) ins hs s"
      unfolding step using miss by auto
    have i1: "ins_ok ins (pre @ [a]) s" using Cons.prems(2) by (auto simp: ins_ok_def nth_append split: option.splits)
    have f1: "found name prot now (pre @ [a]) hs H rest s" using fd miss by (auto simp: found_def)
    have c1: "cinv (T[i := (pre @ [a]) @ as]) s" using Cons.prems(1) by simp
    obtain ch hs' H' rest' s' where p: "find_name_loop name now prot as (pre @ [a]) ins hs s = Some (ch, hs', s')"
      "cinv (T[i := ch]) s'" "scan_frame s s'" "set ch \<subseteq> set ((pre @ [a]) @ as)" "found name prot now ch hs' H' rest' s'"
      "set (pre @ [a]) \<subseteq> set ch" "\<forall>b \<in> set as. kept_hit name prot now (recs s b) \<longrightarrow> b \<in> set ch"
      using Cons.IH [OF c1 i1 f1] by blast
    then show ?thesis unfolding run
      by (intro exI [of _ ch] exI [of _ hs'] exI [of _ H'] exI [of _ rest'] exI [of _ s']) auto
  next
    case hit
    define hs1 H1 where "hs1 = (if fixed_rec ?c then hs @ [a] else hs)" and "H1 = (if fixed_rec ?c then H else H @ [a])"
    obtain s1 rest1 where s1: "(if fixed_rec ?c then Some s else map_option (cache_link a) (cache_unlink a s)) = Some s1"
      "cinv (T[i := pre @ a # as]) s1" "scan_frame s s1" "recs s1 = recs s" "lru s1 = rev H1 @ rest1"
    proof (cases "fixed_rec ?c")
      case True
      then show thesis using that [of s rest] Cons.prems(1) fd by (simp add: H1_def)
    next
      case False
      have "a \<in> set (lru s)"
        using chain_okD(4) [OF cinvD(6) [OF Cons.prems(1), of i], of a] assms(2) False by simp
      from cinv_promote [OF Cons.prems(1) this] obtain s1 where p: "map_option (cache_link a) (cache_unlink a s) = Some s1"
        "cinv (T[i := pre @ a # as]) s1" "same_frame s s1" "recs s1 = recs s" "lru s1 = a # remove1 a (lru s)" by blast
      have ls: "lru s = rev H @ rest" using fd by blast
      have "lru s1 = rev H1 @ remove1 a rest" using False HP(1) by (simp add: p(5) ls H1_def remove1_append)
      then show thesis using that [of s1 "remove1 a rest"] False p(1-4) by (simp add: scan_frame_def)
    qed
    have fnd: "found name prot now pre' hs1 H1 rest1 s1" if "set pre' = insert a (set pre)" for pre'
      using fd hit s1(4,5) that dist(1) unfolding found_def hs1_def H1_def by (cases "fixed_rec ?c") auto
    let ?fl = "c_flags ?c AND (CF_REVERSE OR CF_IMMORTAL)"
    obtain pre' ins' where run: "find_name_loop name now prot (a # as) pre ins hs s = find_name_loop name now prot as pre' ins' hs1 s1"
      and pre': "set pre' = insert a (set pre)" "cinv (T[i := pre' @ as]) s1" "ins_ok ins' pre' s1"
    proof (cases "\<exists>k f. ins = Some (k, f) \<and> ?fl = f")
      case True
      then obtain k where k: "ins = Some (k, ?fl)" by blast
      have kp: "k < length pre" "c_flags (recs s (pre ! k)) AND (CF_REVERSE OR CF_IMMORTAL) = ?fl"
        using Cons.prems(2) by (simp_all add: k ins_ok_def)
      define p1 where "p1 = take k pre @ a # drop k pre"
      have st: "set p1 = insert a (set pre)" unfolding p1_def
        by (metis Un_insert_right append_take_drop_id list.simps(15) set_append)
      have ds: "distinct (p1 @ as)"
      proof -
        have "distinct (take k pre @ drop k pre @ as)" using dist(3) by (metis append_assoc append_take_drop_id)
        then show ?thesis using dist(1,2) unfolding p1_def
          by (auto dest: in_set_takeD in_set_dropD)
      qed
      have "sorted (map (\<lambda>b. chain_class (recs s b)) (pre @ a # as))"
        using cinvD(6) [OF Cons.prems(1), of i] assms(2) by (simp add: chain_ok_def)
      from sorted_move [OF this kp(1)] have srt: "sorted (map (\<lambda>b. chain_class (recs s1 b)) (p1 @ as))"
        using chain_class_cong [of ?c "recs s (pre ! k)"] kp(2) by (simp add: p1_def s1(4))
      have "cinv (T[i := pre @ a # as, i := p1 @ as]) s1"
        by (rule cinv_rechain [OF s1(2)]) (use assms(2) st ds srt in auto)
      moreover have "ins_ok (Some (k + 1, ?fl)) p1 s1"
        using kp by (simp add: ins_ok_def p1_def s1(4) nth_append)
      moreover have "find_name_loop name now prot (a # as) pre ins hs s = find_name_loop name now prot as p1 (Some (k + 1, ?fl)) hs1 s1"
        unfolding step using hit s1(1) by (simp add: k p1_def hs1_def)
      ultimately show thesis using that [of p1 "Some (k + 1, ?fl)"] st by simp
    next
      case False
      define i1 where "i1 = (case ins of None \<Rightarrow> Some (length pre, ?fl) | Some x \<Rightarrow> Some x)"
      have "ins_ok i1 (pre @ [a]) s1"
        using Cons.prems(2) by (auto simp: ins_ok_def i1_def nth_append s1(4) split: option.splits)
      moreover have "find_name_loop name now prot (a # as) pre ins hs s = find_name_loop name now prot as (pre @ [a]) i1 hs1 s1"
        unfolding step using hit s1(1) False by (auto simp: i1_def hs1_def split: option.splits)
      ultimately show thesis using that [of "pre @ [a]" i1] s1(2) by simp
    qed
    obtain ch hs' H' rest' s' where p: "find_name_loop name now prot as pre' ins' hs1 s1 = Some (ch, hs', s')"
      "cinv (T[i := ch]) s'" "scan_frame s1 s'" "set ch \<subseteq> set (pre' @ as)" "found name prot now ch hs' H' rest' s'"
      "set pre' \<subseteq> set ch" "\<forall>b \<in> set as. kept_hit name prot now (recs s1 b) \<longrightarrow> b \<in> set ch"
      using Cons.IH [OF pre'(2,3) fnd [OF pre'(1)]] by blast
    show ?thesis unfolding run using p pre'(1) s1(4) scan_frame_trans [OF s1(3) p(3)]
      by (intro exI [of _ ch] exI [of _ hs'] exI [of _ H'] exI [of _ rest'] exI [of _ s']) auto
  qed
qed

text \<open>Chaining the fixed hits changes nothing but their \<open>next\<close> pointers.\<close>

lemma set_chain_fields:
  "c_flags (set_chain hs x rs b) = c_flags (rs b)" "c_name (set_chain hs x rs b) = c_name (rs b)"
  "c_addr (set_chain hs x rs b) = c_addr (rs b)" "c_ttd (set_chain hs x rs b) = c_ttd (rs b)"
  "c_uid (set_chain hs x rs b) = c_uid (rs b)" "cn_cache (set_chain hs x rs b) = cn_cache (rs b)"
  "cn_uid (set_chain hs x rs b) = cn_uid (rs b)"
  by (induction hs x rs rule: set_chain.induct) (auto)

lemma set_chain_outside: "b \<notin> set hs \<Longrightarrow> set_chain hs x rs b = rs b"
  by (induction hs x rs rule: set_chain.induct) auto

lemma set_chain_next:
  "distinct hs \<Longrightarrow> k < length hs \<Longrightarrow>
   c_next (set_chain hs x rs (hs ! k)) = (if k + 1 < length hs then Some (hs ! (k + 1)) else x)"
proof (induction hs x rs arbitrary: k rule: set_chain.induct)
  case (3 a b as x rs)
  let ?rs = "rs(a := (rs a)\<lparr>c_next := Some b\<rparr>)"
  show ?case
  proof (cases k)
    case 0
    then show ?thesis using "3.prems" set_chain_outside [of a "b # as" x ?rs] by simp
  next
    case (Suc j)
    then have "c_next (set_chain (b # as) x ?rs ((b # as) ! j)) = (if j + 1 < length (b # as) then Some ((b # as) ! (j + 1)) else x)"
      using "3.prems" by (intro "3.IH") auto
    then show ?thesis using Suc by simp
  qed
qed auto

lemma has_set_chain [simp]: "has m (set_chain hs x rs b) = has m (rs b)"
  by (simp add: has_def set_chain_fields)

lemma fixed_set_chain [simp]: "fixed_rec (set_chain hs x rs b) = fixed_rec (rs b)"
  "chain_class (set_chain hs x rs b) = chain_class (rs b)"
  by (simp_all add: fixed_rec_def chain_class_def)

lemma cinv_set_chain [simp]: "cinv T (s\<lparr>recs := set_chain hs x (recs s)\<rparr>) = cinv T s"
  by (simp add: cinv_def chain_ok_def set_chain_fields)

lemma set_chain_eq: "set_chain hs x rs b = (rs b)\<lparr>c_next := c_next (set_chain hs x rs b)\<rparr>"
  by (rule crec.equality) (simp_all add: set_chain_fields)

lemma in_table_elim:
  assumes "in_table s a"
  obtains j where "j < length (table s)" "a \<in> set (table s ! j)"
  using assms unfolding in_table_def by (metis in_set_conv_nth)

lemma name_hit_set_chain [simp]: "name_hit name prot (set_chain hs x rs b) = name_hit name prot (rs b)"
  by (simp add: name_hit_def cache_get_name_def set_chain_fields)

lemma name_hit_live: "name_hit name prot c \<Longrightarrow> live_rec c"
proof -
  assume "name_hit name prot c"
  then have "c_flags c AND CF_FORWARD \<noteq> 0" by (simp add: name_hit_def has_def)
  moreover have "c_flags c AND CF_FORWARD = (c_flags c AND (CF_FORWARD OR CF_REVERSE)) AND CF_FORWARD"
    by (simp add: cf_defs and.assoc)
  ultimately show ?thesis by (metis and_zero_eq has_def and.commute)
qed

text \<open>The records a caller sees who starts a search and goes on until NULL: \<open>n\<close> bounds the
  number of calls.\<close>

fun follow :: "nat \<Rightarrow> (nat option \<Rightarrow> cst \<Rightarrow> (nat option \<times> cst) option) \<Rightarrow> nat option \<Rightarrow> cst \<Rightarrow> nat list" where
  "follow 0 search r s = []"
| "follow (Suc n) search None s = []"
| "follow (Suc n) search (Some a) s =
     a # (case search (Some a) s of None \<Rightarrow> [] | Some (r, s') \<Rightarrow> follow n search r s')"

lemma succ_in_nth: "distinct xs \<Longrightarrow> k < length xs \<Longrightarrow> succ_in (xs ! k) xs = (if k + 1 < length xs then Some (xs ! (k + 1)) else None)"
proof (induction xs arbitrary: k)
  case (Cons x xs)
  show ?case
  proof (cases k)
    case 0
    then show ?thesis by (cases xs) (simp_all add: first_of_def)
  next
    case (Suc j)
    then have "x \<noteq> xs ! j" using Cons.prems by auto
    then show ?thesis using Cons Suc by simp
  qed
qed simp

text \<open>The contract of a search that is continued with its last answer: it goes to the next record
  of the chain it left behind and stops at the first one that is no hit.\<close>

locale hit_search =
  fixes search :: "nat option \<Rightarrow> cst \<Rightarrow> (nat option \<times> cst) option" and hit :: "crec \<Rightarrow> bool"
  assumes search_next: "search (Some a) s = Some (answer_if hit s (next_of s a), s)"
    and hit_next: "hit (c\<lparr>c_next := x\<rparr>) = hit c"
    and hit_live: "hit c \<Longrightarrow> live_rec c"
begin

lemma hit_set_chain: "hit (set_chain hs x rs b) = hit (rs b)"
  by (subst set_chain_eq) (rule hit_next)

text \<open>Walking along a list of hits that ends at a record that is none.\<close>

lemma follow_walk:
  assumes "\<And>k. k < length L \<Longrightarrow> next_of s (L ! k) = (if k + 1 < length L then Some (L ! (k + 1)) else z)"
    and "\<forall>a \<in> set L. hit (recs s a)" and "\<And>b. z = Some b \<Longrightarrow> \<not> hit (recs s b)"
    and "length L \<le> n + j" and "j \<le> length L"
  shows "follow n search (first_of (drop j L)) s = drop j L"
  using assms(4,5)
proof (induction n arbitrary: j)
  case 0
  then show ?case by simp
next
  case (Suc n)
  show ?case
  proof (cases "j = length L")
    case True
    then show ?thesis by (simp add: first_of_def)
  next
    case False
    then have j: "j < length L" using Suc.prems by simp
    have d: "drop j L = L ! j # drop (j + 1) L" using j by (simp add: Cons_nth_drop_Suc)
    have "answer_if hit s (next_of s (L ! j)) = first_of (drop (j + 1) L)"
    proof (cases "j + 1 < length L")
      case True
      then have "drop (j + 1) L = L ! (j + 1) # drop (j + 2) L" by (simp add: Cons_nth_drop_Suc)
      then show ?thesis using assms(1) [OF j] assms(2) True by (simp add: answer_if_def first_of_def)
    next
      case False
      then show ?thesis using assms(1) [OF j] assms(3) by (auto simp: answer_if_def first_of_def split: option.splits)
    qed
    then have c: "search (Some (L ! j)) s = Some (first_of (drop (j + 1) L), s)" by (simp add: search_next)
    have "first_of (drop j L) = Some (L ! j)" unfolding d by (simp add: first_of_def)
    then show ?thesis using Suc.IH [of "j + 1"] Suc.prems j c d by simp
  qed
qed

text \<open>The chain a search leaves behind: the hits outside the recency list \<open>hs\<close>, then the list,
  at whose front the other hits \<open>H\<close> were moved, last one first.\<close>

lemma search_result:
  assumes inv: "cache_inv s" and hs: "distinct hs" "\<forall>a \<in> set hs. fixed_rec (recs s a)" and lru: "lru s = rev H @ rest"
    and hits: "set hs \<union> set H = {a. in_table s a \<and> hit (recs s a)}"
    and s2: "s2 = s\<lparr>recs := set_chain hs (first_of (lru s)) (recs s)\<rparr>"
  shows "answer_if hit s2 (first_of (hs @ lru s2)) = first_of (hs @ rev H)" "distinct (hs @ rev H)"
    "length (hs @ rev H) \<le> n \<Longrightarrow> follow n search (first_of (hs @ rev H)) s2 = hs @ rev H"
    "cache_inv s2" "in_table s2 a = in_table s a"
    "k < length (hs @ rev H) \<Longrightarrow> next_of s2 ((hs @ rev H) ! k) =
       (if k + 1 < length (hs @ rev H) then Some ((hs @ rev H) ! (k + 1)) else first_of rest)"
proof -
  define L where "L = hs @ rev H"
  have r2: "recs s2 = set_chain hs (first_of (lru s)) (recs s)" and l2: "lru s2 = rev H @ rest" and t2: "table s2 = table s"
    by (simp_all add: s2 lru)
  have dl: "distinct (lru s2)" using cinvD(3) [OF inv [unfolded cache_inv_def]] by (simp add: s2)
  have hsl: "set hs \<inter> set (lru s2) = {}" using hs(2) cinvD(7) [OF inv [unfolded cache_inv_def]] by (auto simp: s2)
  show dist: "distinct (hs @ rev H)" using hs(1) hsl dl by (auto simp: l2)
  show "cache_inv s2" using inv by (simp add: cache_inv_def s2)
  show "in_table s2 a = in_table s a" by (simp add: in_table_def t2)
  have hitL: "\<forall>a \<in> set L. hit (recs s2 a)" using hits by (auto simp: L_def r2 hit_set_chain)
  have nxt: "next_of s2 (L ! k) = (if k + 1 < length L then Some (L ! (k + 1)) else first_of rest)" if k: "k < length L" for k
  proof (cases "k < length hs")
    case True
    then have e: "L ! k = hs ! k" by (simp add: L_def nth_append)
    have "L ! k \<notin> set (lru s2)" using hsl nth_mem [OF True] unfolding e by blast
    then have "next_of s2 (L ! k) = (if k + 1 < length hs then Some (hs ! (k + 1)) else first_of (lru s))"
      using set_chain_next [of hs k "first_of (lru s)" "recs s"] True hs(1) by (simp add: next_of_def r2 e)
    moreover have "first_of (lru s) = (if H = [] then first_of rest else Some (rev H ! 0))"
      using lru by (cases "rev H") (auto simp: first_of_def)
    ultimately show ?thesis using True k by (cases "rev H") (auto simp: L_def nth_append nth_Cons split: nat.splits)
  next
    case False
    define j where "j = k - length hs"
    have j: "j < length (rev H)" "L ! k = lru s2 ! j" using False k by (auto simp: L_def j_def nth_append l2)
    then have "L ! k \<in> set (lru s2)" using nth_mem [of j "lru s2"] by (simp add: l2 del: nth_mem)
    then have n: "next_of s2 (L ! k) = (if j + 1 < length (lru s2) then Some (lru s2 ! (j + 1)) else None)"
      using succ_in_nth [OF dl, of j] j by (simp add: next_of_def l2)
    show ?thesis
    proof (cases "j + 1 < length (rev H)")
      case True
      then have "lru s2 ! (j + 1) = rev H ! (j + 1)" "L ! (k + 1) = rev H ! (j + 1)" "k + 1 < length L"
        using False by (simp_all add: l2 nth_append L_def j_def Suc_diff_le)
      then show ?thesis using n True by (simp add: l2)
    next
      case last: False
      then have e: "j + 1 = length (rev H)" "\<not> k + 1 < length L" using j(1) False k by (auto simp: L_def j_def)
      then show ?thesis using n by (cases rest) (auto simp: l2 nth_append first_of_def)
    qed
  qed
  then show "k < length (hs @ rev H) \<Longrightarrow> next_of s2 ((hs @ rev H) ! k) =
       (if k + 1 < length (hs @ rev H) then Some ((hs @ rev H) ! (k + 1)) else first_of rest)"
    unfolding L_def by blast
  have norest: "\<not> hit (recs s2 b)" if "first_of rest = Some b" for b
  proof
    assume "hit (recs s2 b)"
    then have h: "hit (recs s b)" by (simp add: r2 hit_set_chain)
    note c = inv [unfolded cache_inv_def]
    have b: "b \<in> set rest" using that by (cases rest) (auto simp: first_of_def)
    then have bl: "b \<in> set (lru s)" by (simp add: lru)
    have "in_table s b"
      using in_table_nth [OF bucket_of_less [OF cinvD(1,2) [OF c]] cinvD(8) [OF c bl hit_live [OF h]]] .
    then have "b \<in> set hs \<union> set H" unfolding hits using h by simp
    then show False using dl hsl b by (auto simp: l2)
  qed
  show "answer_if hit s2 (first_of (hs @ lru s2)) = first_of (hs @ rev H)"
  proof (cases L)
    case Nil
    then have "first_of (hs @ lru s2) = first_of rest" by (simp add: L_def l2)
    then show ?thesis using norest Nil by (auto simp: answer_if_def first_of_def L_def split: option.splits list.splits)
  next
    case (Cons x xs)
    then have "first_of (hs @ lru s2) = Some x" by (cases hs) (auto simp: L_def l2 first_of_def)
    then show ?thesis using Cons hitL by (simp add: answer_if_def first_of_def L_def [symmetric])
  qed
  show "follow n search (first_of (hs @ rev H)) s2 = hs @ rev H" if "length (hs @ rev H) \<le> n"
    using follow_walk [of L s2 "first_of rest" n 0] nxt hitL norest that by (auto simp: L_def)
qed

end

interpretation by_name: hit_search "\<lambda>c. cache_find_by_name c name now prot" "name_hit name prot" for name now prot
  by unfold_locales (simp add: cache_find_by_name_def, simp add: name_hit_def has_def cache_get_name_def, erule name_hit_live)

lemma cache_find_by_name_post:
  assumes inv: "cache_inv s"
  shows "\<exists>r s' L. cache_find_by_name None name now prot s = Some (r, s') \<and> cache_inv s' \<and>
     r = first_of L \<and> distinct L \<and> (\<forall>n \<ge> length L. follow n (\<lambda>c. cache_find_by_name c name now prot) r s' = L) \<and>
     set L = {a. in_table s' a \<and> name_hit name prot (recs s' a)} \<and>
     (\<forall>a \<in> set L. \<not> is_expired now (recs s' a)) \<and>
     (\<forall>a. in_table s' a \<longrightarrow> in_table s a \<and> recs s' a = (recs s a)\<lparr>c_next := c_next (recs s' a)\<rparr>) \<and>
     (\<forall>a. in_table s a \<and> kept_hit name prot now (recs s a) \<longrightarrow> a \<in> set L) \<and>
     new_ch s' = new_ch s \<and> set (lru s') = set (lru s) \<and>
     (\<forall>a. a \<notin> set (lru s) \<and> a \<notin> set L \<longrightarrow> recs s' a = recs s a) \<and>
     (\<exists>z. (\<forall>b. z = Some b \<longrightarrow> b \<in> set (lru s')) \<and>
        (\<forall>k < length L. next_of s' (L ! k) = (if k + 1 < length L then Some (L ! (k + 1)) else z)))"
proof -
  let ?i = "hash_bucket s name"
  have i: "?i < length (table s)" by (rule hash_bucket_less [OF inv])
  have c0: "cinv ((table s)[?i := [] @ table s ! ?i]) s" using inv by (simp add: cache_inv_def)
  have f0: "found name prot now [] [] [] (lru s) s" by (simp add: found_def)
  have i0: "ins_ok None [] s" by (simp add: ins_ok_def)
  obtain ch hs H rest s1 where p: "find_name_loop name now prot (table s ! ?i) [] None [] s = Some (ch, hs, s1)"
      "cinv ((table s)[?i := ch]) s1" "scan_frame s s1" "set ch \<subseteq> set (table s ! ?i)" "found name prot now ch hs H rest s1"
      "\<forall>a \<in> set (table s ! ?i). kept_hit name prot now (recs s a) \<longrightarrow> a \<in> set ch"
    using find_name_loop_post [OF c0 i i0 f0] by auto
  note fd = p(5) [unfolded found_def]
  define s' where "s' = s1\<lparr>table := (table s1)[?i := ch]\<rparr>"
  define s2 where "s2 = s'\<lparr>recs := set_chain hs (first_of (lru s')) (recs s')\<rparr>"
  have f: "table s' = (table s)[?i := ch]" "recs s' = recs s1" "lru s' = lru s1" "mix_tab s' = mix_tab s"
    "new_ch s' = new_ch s" "set (lru s1) = set (lru s)"
    using p(3) by (simp_all add: s'_def scan_frame_def same_frame_def)
  have inv': "cache_inv s'" using p(2) unfolding cache_inv_def f(1) by (simp add: s'_def)
  have in_ch: "a \<in> set ch" if "in_table s' a" "name_hit name prot (recs s' a)" for a
  proof -
    have "hash_bucket s' (c_name (recs s' a)) = ?i"
      using that(2) bucket_of_case [of "c_name (recs s' a)" name] by (simp add: hash_bucket_of f name_hit_def cache_get_name_def)
    then show ?thesis using in_table_bucket(1) [OF inv' that(1)] i by (simp add: f)
  qed
  have ch_in: "in_table s' a" if "a \<in> set ch" for a using that i in_table_nth [of ?i s' a] by (simp add: f)
  have hits: "set hs \<union> set H = {a. in_table s' a \<and> name_hit name prot (recs s' a)}"
    using fd in_ch ch_in by (auto simp: f)
  have fx: "\<forall>a \<in> set hs. fixed_rec (recs s' a)" and lr: "lru s' = rev H @ rest" using fd by (auto simp: f)
  note res = by_name.search_result [OF inv' _ fx lr hits s2_def]
  have d: "distinct hs" using fd by blast
  have run: "cache_find_by_name None name now prot s = Some (first_of (hs @ rev H), s2)"
    using p(1) res(1) [OF d] by (simp add: cache_find_by_name_def s2_def s'_def)
  have r2: "recs s2 = set_chain hs (first_of (lru s')) (recs s1)" by (simp add: s2_def f)
  have setL: "set (hs @ rev H) = {a. in_table s2 a \<and> name_hit name prot (recs s2 a)}"
    using hits res(5) [OF d] by (simp add: r2 f)
  have exp: "\<not> is_expired now (recs s2 a)" if "a \<in> set (hs @ rev H)" for a
  proof -
    have "a \<in> set ch" using that hits in_ch by auto
    then have "\<not> is_expired now (recs s1 a)" using fd by blast
    then show ?thesis by (simp add: is_expired_def r2 set_chain_fields split: if_splits)
  qed
  have sub: "in_table s a \<and> recs s2 a = (recs s a)\<lparr>c_next := c_next (recs s2 a)\<rparr>" if "in_table s2 a" for a
  proof -
    have it: "in_table s' a" using that res(5) [OF d] by simp
    have "live_rec (recs s1 a)" using in_table_bucket(2) [OF inv' it] by (simp add: f)
    then have e: "recs s1 a = recs s a" by (rule scan_frame_live [OF p(3)])
    have u: "recs s2 a = (recs s1 a)\<lparr>c_next := c_next (recs s2 a)\<rparr>" unfolding r2 by (rule set_chain_eq)
    have "\<exists>j < length (table s). a \<in> set (table s' ! j)"
      using it in_table_elim [of s' a] length_list_update [of "table s" ?i ch] unfolding f(1) by metis
    then obtain j where j: "j < length (table s)" "a \<in> set (table s' ! j)" by blast
    then have "a \<in> set (table s ! j)" using p(4) i f(1) by (cases "j = ?i") auto
    then show ?thesis using u in_table_nth [OF j(1)] unfolding e by blast
  qed
  have comp: "a \<in> set (hs @ rev H)" if "in_table s a" "kept_hit name prot now (recs s a)" for a
  proof -
    have h: "name_hit name prot (recs s a)" using that(2) by (simp add: kept_hit_def)
    have "hash_bucket s (c_name (recs s a)) = ?i"
      using h bucket_of_case [of "c_name (recs s a)" name] by (simp add: hash_bucket_of name_hit_def cache_get_name_def)
    then have "a \<in> set (table s ! ?i)" using in_table_bucket(1) [OF inv that(1)] by simp
    then have a: "a \<in> set ch" using p(6) that(2) by blast
    have "live_rec (recs s1 a)" by (rule chain_live [OF p(2) i a])
    then have "recs s1 a = recs s a" by (rule scan_frame_live [OF p(3)])
    then show ?thesis using h hits ch_in [OF a] by (auto simp: f)
  qed
  have fr: "new_ch s2 = new_ch s" "set (lru s2) = set (lru s)" by (simp_all add: s2_def f)
  have out: "recs s2 a = recs s a" if "a \<notin> set (lru s)" "a \<notin> set (hs @ rev H)" for a
  proof -
    have "recs s1 a = recs s a" using p(3) that(1) by (auto simp: scan_frame_def)
    then show ?thesis using that(2) by (simp add: r2 set_chain_outside)
  qed
  have links: "\<exists>z. (\<forall>b. z = Some b \<longrightarrow> b \<in> set (lru s2)) \<and> (\<forall>k < length (hs @ rev H). next_of s2 ((hs @ rev H) ! k) =
       (if k + 1 < length (hs @ rev H) then Some ((hs @ rev H) ! (k + 1)) else z))"
  proof (intro exI [of _ "first_of rest"] conjI allI impI)
    show "b \<in> set (lru s2)" if "first_of rest = Some b" for b
      using that lr by (cases rest) (auto simp: first_of_def s2_def)
  qed (rule res(6) [OF d])
  show ?thesis
    by (rule exI [of _ "first_of (hs @ rev H)"], rule exI [of _ s2], rule exI [of _ "hs @ rev H"], intro conjI;
        (rule links)?; (intro allI impI)?; (elim conjE, rule out, assumption, assumption)?; (use run res(2-5) [OF d] setL exp sub comp fr in simp)?)
qed

end
