(* ===== verification/Dnsmasq_Cache_Ops.thy ===== *)
theory Dnsmasq_Cache_Ops
  imports Dnsmasq_Cache
begin

section \<open>dnsmasq: the life of the cache (src/dnsmasq/.../src/cache.c)\<close>

text \<open>
  What the operations of \<open>Dnsmasq_Cache\<close> give together: initialising and growing the hash
  table, looking up by address, and the invariant over every sequence of operations; then what
  a caller relies on, that a committed record is found until it expires, that a search hands
  out exactly the live records of a name, and that a name of the hosts file or of DHCP is never
  overridden.
\<close>

subsection \<open>Growing the hash table\<close>

lemma distinct_concat_nth:
  "(\<And>i. i < length T \<Longrightarrow> distinct (T ! i)) \<Longrightarrow>
   (\<And>i j. i < length T \<Longrightarrow> j < length T \<Longrightarrow> i \<noteq> j \<Longrightarrow> set (T ! i) \<inter> set (T ! j) = {}) \<Longrightarrow> distinct (concat T)"
proof (induction T)
  case (Cons t T)
  have "distinct (concat T)"
  proof (rule Cons.IH)
    show "distinct (T ! i)" if "i < length T" for i using Cons.prems(1) [of "Suc i"] that by simp
    show "set (T ! i) \<inter> set (T ! j) = {}" if "i < length T" "j < length T" "i \<noteq> j" for i j
      using Cons.prems(2) [of "Suc i" "Suc j"] that by simp
  qed
  moreover have "set t \<inter> set x = {}" if x: "x \<in> set T" for x
  proof -
    obtain j where "j < length T" "x = T ! j" using x by (auto simp: in_set_conv_nth)
    then show ?thesis using Cons.prems(2) [of 0 "Suc j"] by simp
  qed
  moreover have "distinct t" using Cons.prems(1) [of 0] by simp
  ultimately show ?case by auto
qed simp

abbreviation place_of :: "cst \<Rightarrow> nat \<Rightarrow> nat \<Rightarrow> nat" where
  "place_of s n a \<equiv> bucket_of (mix_tab s) n (c_name (recs s a))"

definition ordered :: "cst \<Rightarrow> nat list \<Rightarrow> bool" where
  "ordered s ch \<longleftrightarrow> distinct ch \<and> sorted (map (\<lambda>b. chain_class (recs s b)) ch)"

lemma fold_cache_hash:
  assumes "length (table s) = n" and "0 < n" and "n < 2 ^ 32"
    and "\<forall>i < n. ordered s (table s ! i) \<and> set xs \<inter> set (table s ! i) = {}" and "distinct xs"
  shows "\<exists>T. fold cache_hash xs s = s\<lparr>table := T\<rparr> \<and> length T = n \<and>
    (\<forall>i < n. ordered s (T ! i) \<and> set (T ! i) = set (table s ! i) \<union> {a \<in> set xs. place_of s n a = i})"
  using assms
proof (induction xs arbitrary: s)
  case Nil
  then show ?case by (intro exI [of _ "table s"]) auto
next
  case (Cons a xs)
  define i where "i = place_of s n a"
  have i: "i < n" unfolding i_def by (rule bucket_of_less [OF Cons.prems(2,3)])
  define ch where "ch = chain_place (recs s) a (table s ! i)"
  define s1 where "s1 = s\<lparr>table := (table s)[i := ch]\<rparr>"
  have run: "cache_hash a s = s1"
    by (simp add: cache_hash_def s1_def hash_bucket_of Cons.prems(1) i_def ch_def Let_def)
  have srt: "sorted (map (\<lambda>b. chain_class (recs s b)) (table s ! i))" "distinct (table s ! i)" "a \<notin> set (table s ! i)"
    using Cons.prems(4) i by (auto simp: ordered_def)
  note cp = chain_place_props [OF srt(1), of a, folded ch_def]
  have tab: "ordered s1 (table s1 ! j) \<and> set (table s1 ! j) = set (table s ! j) \<union> (if j = i then {a} else {})" if "j < n" for j
    using Cons.prems(4) [rule_format, OF that] cp srt i Cons.prems(1) by (auto simp: ordered_def s1_def)
  have disj: "\<forall>j < n. ordered s1 (table s1 ! j) \<and> set xs \<inter> set (table s1 ! j) = {}"
    using tab Cons.prems(4,5) by auto
  have "length (table s1) = n" using Cons.prems(1) by (simp add: s1_def)
  from Cons.IH [OF this Cons.prems(2,3) disj] obtain T where
    T: "fold cache_hash xs s1 = s1\<lparr>table := T\<rparr>" "length T = n"
      "\<forall>j < n. ordered s1 (T ! j) \<and> set (T ! j) = set (table s1 ! j) \<union> {b \<in> set xs. place_of s1 n b = j}"
    using Cons.prems(5) by auto
  have o: "ordered s1 x = ordered s x" for x by (simp add: ordered_def s1_def)
  have "ordered s (T ! j) \<and> set (T ! j) = set (table s ! j) \<union> {b \<in> set (a # xs). place_of s n b = j}" if "j < n" for j
    using T(3) [rule_format, OF that] tab [OF that] unfolding o by (auto simp: s1_def i_def)
  then show ?case using T(1,2) run by (intro exI [of _ T]) (simp add: s1_def)
qed

lemma rehash_size_bounds: "0 < n \<Longrightarrow> n \<le> rehash_size sz n \<and> rehash_size sz n \<le> max n (2 * (sz div 10))"
proof (induction sz n rule: rehash_size.induct)
  case (1 sz n)
  show ?case
  proof (cases "n < sz div 10")
    case True
    then have "rehash_size sz n = rehash_size sz (2 * n)" using 1(2) by (simp add: rehash_size.simps [of sz n])
    moreover have "2 * n \<le> 2 * (sz div 10)" using True by simp
    ultimately show ?thesis using 1 True by auto
  next
    case False
    then show ?thesis by (simp add: rehash_size.simps [of sz n])
  qed
qed

text \<open>The size is a power of two, as the mask of \<open>hash_bucket\<close> needs it to be to reach every
  bucket.\<close>

lemma rehash_size_pow2: "\<exists>k. rehash_size sz (2 ^ j) = 2 ^ k"
proof (induction sz "2 ^ j :: nat" arbitrary: j rule: rehash_size.induct)
  case (1 sz)
  show ?case
  proof (cases "2 ^ j < sz div 10")
    case True
    then have "rehash_size sz (2 ^ j) = rehash_size sz (2 ^ Suc j)" by (simp add: rehash_size.simps [of sz "2 ^ j"])
    then show ?thesis using 1 [of "Suc j"] True by simp
  next
    case False
    then show ?thesis by (auto simp: rehash_size.simps [of sz "2 ^ j"])
  qed
qed

lemma chain_ok_ordered: "chain_ok s n i ch \<Longrightarrow> ordered s ch"
  by (simp add: chain_ok_def ordered_def)

lemma chain_ok_cong:
  assumes "ordered s ch" and "\<And>a. a \<in> set ch \<Longrightarrow> place_of s n a = i \<and> live_rec (recs s a) \<and>
     a \<notin> set (new_ch s) \<and> (fixed_rec (recs s a) \<or> a \<in> set (lru s))"
  shows "chain_ok s n i ch"
  using assms by (simp add: chain_ok_def ordered_def)

lemma rehash_inv:
  assumes inv: "cache_inv s" and sz: "sz < 2 ^ 32"
  shows "cache_inv (rehash mem_ok sz s)" "\<exists>T. rehash mem_ok sz s = s\<lparr>table := T\<rparr>"
    "in_table (rehash mem_ok sz s) a = in_table s a"
proof -
  let ?n = "rehash_size sz 64" and ?T = "table s"
  let ?m = "length ?T"
  have ne: "?T \<noteq> []" using inv by (auto simp: cache_inv_def cinv_def)
  have n: "0 < ?n" "?n < 2 ^ 32" using rehash_size_bounds [of 64 sz] sz by auto
  have "cache_inv (rehash mem_ok sz s) \<and> (\<exists>T. rehash mem_ok sz s = s\<lparr>table := T\<rparr>) \<and> in_table (rehash mem_ok sz s) a = in_table s a"
  proof (cases "?n \<le> ?m \<or> \<not> mem_ok")
    case True
    then have "rehash mem_ok sz s = s" using ne by (simp add: rehash_def Let_def)
    then show ?thesis using inv by (auto intro: exI [of _ ?T])
  next
    case False
    define s0 where "s0 = s\<lparr>table := replicate ?n []\<rparr>"
    note d = cinvD [OF inv [unfolded cache_inv_def]]
    have dist: "distinct (concat ?T)"
    proof (rule distinct_concat_nth)
      show "distinct (?T ! i)" if "i < ?m" for i using d(6) [OF that] by (simp add: chain_ok_def)
      show "set (?T ! i) \<inter> set (?T ! j) = {}" if "i < ?m" "j < ?m" "i \<noteq> j" for i j
        using chain_okD(1) [OF d(6) [OF that(1)]] chain_okD(1) [OF d(6) [OF that(2)]] that(3) by fastforce
    qed
    have "\<forall>i < ?n. ordered s0 (table s0 ! i) \<and> set (concat ?T) \<inter> set (table s0 ! i) = {}"
      by (simp add: s0_def ordered_def)
    from fold_cache_hash [OF _ n this dist] obtain T where
      T: "fold cache_hash (concat ?T) s0 = s0\<lparr>table := T\<rparr>" "length T = ?n"
        "\<forall>i < ?n. ordered s0 (T ! i) \<and> set (T ! i) = set (table s0 ! i) \<union> {b \<in> set (concat ?T). place_of s0 ?n b = i}"
      by (auto simp: s0_def)
    have run: "rehash mem_ok sz s = s\<lparr>table := T\<rparr>"
      using False ne T(1) by (simp add: rehash_def Let_def s0_def)
    have Ti: "set (T ! i) = {b. in_table s b \<and> place_of s ?n b = i}" "ordered s (T ! i)" if "i < ?n" for i
      using T(3) [rule_format, OF that] that by (auto simp: s0_def in_table_def ordered_def)
    have "chain_ok s ?n i (T ! i)" if "i < ?n" for i
      by (rule chain_ok_cong [OF Ti(2) [OF that]]) (use Ti(1) [OF that] in_table_bucket [OF inv] in auto)
    moreover have "b \<in> set (T ! place_of s ?n b)" if "b \<in> set (lru s)" "live_rec (recs s b)" for b
    proof -
      have "in_table s b" using d(8) [OF that] in_table_nth bucket_of_less [OF d(1,2)] by blast
      then show ?thesis using Ti(1) [OF bucket_of_less [OF n]] by blast
    qed
    ultimately have "cinv T s" using inv n T(2) unfolding cache_inv_def cinv_def by simp
    moreover have "in_table (s\<lparr>table := T\<rparr>) a = in_table s a"
    proof
      assume "in_table (s\<lparr>table := T\<rparr>) a"
      then obtain j where "j < ?n" "a \<in> set (T ! j)" by (rule in_table_elim) (auto simp: T(2))
      then show "in_table s a" using Ti(1) by blast
    next
      assume "in_table s a"
      then have "a \<in> set (T ! place_of s ?n a)" using Ti(1) [OF bucket_of_less [OF n]] by blast
      then show "in_table (s\<lparr>table := T\<rparr>) a"
        using in_table_nth [of "place_of s ?n a" "s\<lparr>table := T\<rparr>" a] bucket_of_less [OF n] T(2) by simp
    qed
    ultimately show ?thesis unfolding run by (auto simp: cache_inv_def)
  qed
  then show "cache_inv (rehash mem_ok sz s)" "\<exists>T. rehash mem_ok sz s = s\<lparr>table := T\<rparr>"
    "in_table (rehash mem_ok sz s) a = in_table s a" by blast+
qed

text \<open>A record of the hosts file or of DHCP enters the table.\<close>

lemma cinv_add_fixed:
  assumes inv: "cache_inv s" and a: "a \<notin> set (lru s)" "a \<notin> set (new_ch s)" "\<not> in_table s a"
    and c: "live_rec c" "fixed_rec c" and s': "s' = cache_hash a (s\<lparr>recs := (recs s)(a := c)\<rparr>)"
  shows "cache_inv s'" "in_table s' b \<longleftrightarrow> b = a \<or> in_table s b"
    "\<exists>T. s' = s\<lparr>recs := (recs s)(a := c), table := T\<rparr>"
proof -
  define s0 where "s0 = s\<lparr>recs := (recs s)(a := c)\<rparr>"
  note d = cinvD [OF inv [unfolded cache_inv_def]]
  have nc: "a \<notin> set (table s ! i)" if "i < length (table s)" for i using a(3) in_table_nth that by blast
  have o: "ordered s0 (table s0 ! i) \<and> set [a] \<inter> set (table s0 ! i) = {}" if i: "i < length (table s)" for i
  proof -
    have m: "map (\<lambda>b. chain_class (recs s0 b)) (table s ! i) = map (\<lambda>b. chain_class (recs s b)) (table s ! i)"
      using nc [OF i] by (auto simp: s0_def)
    have t: "table s0 = table s" by (simp add: s0_def)
    show ?thesis using chain_ok_ordered [OF d(6) [OF i]] nc [OF i] unfolding ordered_def t m by simp
  qed
  obtain T where T: "fold cache_hash [a] s0 = s0\<lparr>table := T\<rparr>" "length T = length (table s)"
     "\<forall>i < length (table s). ordered s0 (T ! i) \<and> set (T ! i) = set (table s0 ! i) \<union> {b \<in> set [a]. place_of s0 (length (table s)) b = i}"
    using fold_cache_hash [of s0 "length (table s)" "[a]"] d(1,2) o by (auto simp: s0_def)
  have run: "s' = s0\<lparr>table := T\<rparr>" using T(1) by (simp add: s' s0_def)
  let ?i = "place_of s0 (length (table s)) a"
  have Ti: "set (T ! i) = set (table s ! i) \<union> (if i = ?i then {a} else {})" "ordered s0 (T ! i)" if "i < length (table s)" for i
    using T(3) [rule_format, OF that] by (auto simp: s0_def)
  have f: "mix_tab s0 = mix_tab s" "lru s0 = lru s" "new_ch s0 = new_ch s" "\<And>b. b \<noteq> a \<Longrightarrow> recs s0 b = recs s b" "recs s0 a = c"
    by (simp_all add: s0_def)
  have chains: "chain_ok s0 (length T) i (T ! i)" if i: "i < length T" for i
  proof (rule chain_ok_cong)
    show "ordered s0 (T ! i)" using Ti(2) i T(2) by simp
    fix b assume b: "b \<in> set (T ! i)"
    show "place_of s0 (length T) b = i \<and> live_rec (recs s0 b) \<and> b \<notin> set (new_ch s0) \<and> (fixed_rec (recs s0 b) \<or> b \<in> set (lru s0))"
    proof (cases "b = a")
      case True
      then have "i = ?i" using b Ti(1) [of i] nc [of i] i T(2) by (auto split: if_splits)
      then show ?thesis using True c a T(2) f by simp
    next
      case False
      then have "b \<in> set (table s ! i)" using b Ti(1) [of i] i T(2) by (auto split: if_splits)
      from chain_okD [OF d(6) this] i show ?thesis using False f T(2) by simp
    qed
  qed
  have "b \<in> set (T ! place_of s0 (length T) b)" if b: "b \<in> set (lru s0)" "live_rec (recs s0 b)" for b
  proof -
    have e: "recs s0 b = recs s b" using b(1) a(1) f by metis
    then have "b \<in> set (table s ! place_of s (length (table s)) b)" using d(8) b f by simp
    then show ?thesis using Ti(1) bucket_of_less [OF d(1,2)] T(2) e f by auto
  qed
  moreover have "\<not> fixed_rec (recs s0 b)" if "b \<in> set (lru s0)" for b using that a(1) d(7) f by metis
  moreover have "\<not> fixed_rec (recs s0 b) \<and> live_rec (recs s0 b)" if "b \<in> set (new_ch s0)" for b using that a(2) d(9) f by metis
  ultimately have "cinv T s0" using chains d(1-5) T(2) f unfolding cinv_def by simp
  then show "cache_inv s'" by (simp add: run cache_inv_def)
  show "\<exists>T. s' = s\<lparr>recs := (recs s)(a := c), table := T\<rparr>" by (simp add: run s0_def) blast
  have ia: "?i < length (table s)" by (rule bucket_of_less [OF d(1,2)])
  show "in_table s' b \<longleftrightarrow> b = a \<or> in_table s b"
  proof
    assume "in_table s' b"
    then obtain j where "j < length (table s)" "b \<in> set (T ! j)" by (rule in_table_elim) (auto simp: T(2) run)
    then show "b = a \<or> in_table s b" using Ti(1) in_table_nth by (fastforce split: if_splits)
  next
    assume "b = a \<or> in_table s b"
    then obtain j where j: "j < length (table s)" "b \<in> set (T ! j)"
    proof
      assume "b = a"
      then show thesis using that [of ?i] ia Ti(1) by simp
    next
      assume "in_table s b"
      then obtain j where "j < length (table s)" "b \<in> set (table s ! j)" by (rule in_table_elim)
      then show thesis using that [of j] Ti(1) by simp
    qed
    then show "in_table s' b" using in_table_nth [of j s' b] T(2) by (simp add: run)
  qed
qed

subsection \<open>Initialising\<close>

lemma fold_cache_init_rec:
  "lru (fold cache_init_rec xs s) = rev xs @ lru s \<and> table (fold cache_init_rec xs s) = table s \<and>
   new_ch (fold cache_init_rec xs s) = new_ch s \<and> mix_tab (fold cache_init_rec xs s) = mix_tab s \<and>
   (\<forall>b. recs (fold cache_init_rec xs s) b = recs s b \<and> b \<notin> set xs \<or> b \<in> set xs \<and> c_flags (recs (fold cache_init_rec xs s) b) = 0)"
proof (induction xs arbitrary: s)
  case (Cons a xs)
  let ?s = "cache_init_rec a s"
  have "lru ?s = a # lru s" "table ?s = table s" "new_ch ?s = new_ch s" "mix_tab ?s = mix_tab s"
    "c_flags (recs ?s a) = 0" "\<And>b. b \<noteq> a \<Longrightarrow> recs ?s b = recs s b"
    by (simp_all add: cache_init_rec_def cache_link_def Let_def)
  then show ?case using Cons.IH [of ?s] by (auto; metis)
qed simp

lemma cache_init_inv:
  assumes "n < 2 ^ 32"
  shows "cache_inv (cache_init n (cst_start rs mix mx))" "\<not> in_table (cache_init n (cst_start rs mix mx)) a"
    "set (lru (cache_init n (cst_start rs mix mx))) = {..<n}" "new_ch (cache_init n (cst_start rs mix mx)) = []"
proof -
  define s0 where "s0 = (cst_start rs mix mx)\<lparr>bignames_left := n div 10\<rparr>"
  define s1 where "s1 = fold cache_init_rec [0..<n] s0"
  have f: "lru s1 = rev [0..<n]" "table s1 = []" "new_ch s1 = []"
    using fold_cache_init_rec [of "[0..<n]" s0] by (simp_all add: s1_def s0_def cst_start_def)
  have fl: "c_flags (recs s1 b) = 0" if "b < n" for b
    using fold_cache_init_rec [of "[0..<n]" s0] that by (auto simp: s1_def)
  let ?k = "rehash_size n 64"
  have k: "0 < ?k" "?k < 2 ^ 32" using rehash_size_bounds [of 64 n] assms by auto
  have e: "cache_init n (cst_start rs mix mx) = s1\<lparr>table := replicate ?k []\<rparr>"
    by (simp add: cache_init_def rehash_def Let_def f(2) s0_def [symmetric] s1_def [symmetric] fold_simps)
  have "cinv (replicate ?k []) s1"
    using k fl by (auto simp: cinv_def f chain_ok_def has_def fixed_rec_def)
  then show "cache_inv (cache_init n (cst_start rs mix mx))" unfolding e by (simp add: cache_inv_def)
  show "\<not> in_table (cache_init n (cst_start rs mix mx)) a" "set (lru (cache_init n (cst_start rs mix mx))) = {..<n}"
    "new_ch (cache_init n (cst_start rs mix mx)) = []"
    unfolding e by (auto simp: in_table_def f)
qed

subsection \<open>Looking up by address\<close>

definition rev_hit :: "bytes \<Rightarrow> u16 \<Rightarrow> crec \<Rightarrow> bool" where
  "rev_hit addr prot c \<longleftrightarrow> has CF_REVERSE c \<and> addr_hit addr prot c"

lemma rev_hit_live: "rev_hit addr prot c \<Longrightarrow> live_rec c"
proof -
  assume "rev_hit addr prot c"
  then have "c_flags c AND CF_REVERSE \<noteq> 0" by (simp add: rev_hit_def has_def)
  moreover have "c_flags c AND CF_REVERSE = (c_flags c AND (CF_FORWARD OR CF_REVERSE)) AND CF_REVERSE"
    by (simp add: cf_defs and.assoc)
  ultimately show ?thesis by (metis and_zero_eq has_def and.commute)
qed

interpretation by_addr: hit_search "\<lambda>c. cache_find_by_addr c addr now prot" "rev_hit addr prot" for addr now prot
  by unfold_locales (simp add: cache_find_by_addr_def rev_hit_def [abs_def], simp add: rev_hit_def addr_hit_def has_def, erule rev_hit_live)

text \<open>The hits among the records \<open>P\<close> already passed.\<close>

definition found_addr :: "bytes \<Rightarrow> u16 \<Rightarrow> int \<Rightarrow> nat set \<Rightarrow> nat list \<Rightarrow> nat list \<Rightarrow> cst \<Rightarrow> bool" where
  "found_addr addr prot now P hs H s \<longleftrightarrow> (\<exists>rest. lru s = rev H @ rest) \<and> distinct hs \<and> distinct H \<and>
     set hs = {a \<in> P. rev_hit addr prot (recs s a) \<and> fixed_rec (recs s a)} \<and>
     set H = {a \<in> P. rev_hit addr prot (recs s a) \<and> \<not> fixed_rec (recs s a)} \<and>
     (\<forall>a \<in> P. rev_hit addr prot (recs s a) \<longrightarrow> \<not> is_expired now (recs s a))"

lemma find_addr_loop_post:
  assumes "cinv (T[i := pre @ as]) s" and "i < length T" and "found_addr addr prot now P hs H s" and "P \<inter> set as = {}"
  shows "\<exists>ch hs' H' s'. find_addr_loop addr now prot as hs s = Some (ch, hs', s') \<and> cinv (T[i := pre @ ch]) s' \<and>
     scan_frame s s' \<and> set ch \<subseteq> set as \<and> found_addr addr prot now (P \<union> set ch) hs' H' s' \<and>
     (\<forall>b. b \<notin> set as \<longrightarrow> recs s' b = recs s b) \<and>
     (\<forall>b \<in> set as. rev_hit addr prot (recs s b) \<and> \<not> is_expired now (recs s b) \<longrightarrow> b \<in> set ch)"
  using assms(1,3,4)
proof (induction as arbitrary: pre P hs H s)
  case Nil
  then show ?case by (intro exI [of _ "[]"] exI [of _ hs] exI [of _ H] exI [of _ s]) auto
next
  case (Cons a as)
  let ?c = "recs s a"
  note dist = chain_mid_distinct [OF Cons.prems(1) assms(2)]
  note fd = Cons.prems(2) [unfolded found_addr_def]
  note step = find_addr_loop.simps(2) [of addr now prot a as hs s, unfolded Let_def]
  have aP: "a \<notin> P" "a \<notin> set H" "P \<inter> set as = {}" using Cons.prems(3) fd by auto
  obtain rest where ls: "lru s = rev H @ rest" using fd by blast
  consider (stop) "\<not> has CF_REVERSE ?c" | (drop) "has CF_REVERSE ?c" "is_expired now ?c" "fixed_rec ?c"
    | (free) "has CF_REVERSE ?c" "is_expired now ?c" "\<not> fixed_rec ?c"
    | (keep) "has CF_REVERSE ?c" "\<not> is_expired now ?c"
    by blast
  then show ?case
  proof cases
    case stop
    have "sorted (map (\<lambda>b. chain_class (recs s b)) (pre @ a # as))"
      using cinvD(6) [OF Cons.prems(1), of i] assms(2) by (simp add: chain_ok_def)
    then have "\<forall>b \<in> set (a # as). chain_class ?c \<le> chain_class (recs s b)" by (auto simp: sorted_append)
    then have nr: "\<forall>b \<in> set (a # as). \<not> has CF_REVERSE (recs s b)"
      using stop by (auto simp: chain_class_def split: if_splits)
    then have "found_addr addr prot now (P \<union> set (a # as)) hs H s"
      using fd unfolding found_addr_def rev_hit_def by blast
    then show ?thesis
      by (intro exI [of _ "a # as"] exI [of _ hs] exI [of _ H] exI [of _ s])
        (use stop Cons.prems(1) nr in \<open>auto simp: step rev_hit_def\<close>)
  next
    case drop
    have run: "find_addr_loop addr now prot (a # as) hs s = find_addr_loop addr now prot as hs s"
      unfolding step using drop by auto
    obtain ch hs' H' s' where p: "find_addr_loop addr now prot as hs s = Some (ch, hs', s')" "cinv (T[i := pre @ ch]) s'"
      "scan_frame s s'" "set ch \<subseteq> set as" "found_addr addr prot now (P \<union> set ch) hs' H' s'"
      "\<forall>b. b \<notin> set as \<longrightarrow> recs s' b = recs s b"
      "\<forall>b \<in> set as. rev_hit addr prot (recs s b) \<and> \<not> is_expired now (recs s b) \<longrightarrow> b \<in> set ch"
      using Cons.IH [OF step_drop [OF Cons.prems(1) assms(2) drop(3)] Cons.prems(2) aP(3)] by blast
    show ?thesis unfolding run
      by (intro exI [of _ ch] exI [of _ hs'] exI [of _ H'] exI [of _ s']) (use p drop in auto)
  next
    case free
    obtain s1 where s1: "unlink_free a s = Some s1" "cinv (T[i := pre @ as]) s1" "scan_frame s s1"
      using step_free [OF Cons.prems(1) assms(2) free(3)] by blast
    have r1: "recs s1 = (recs s)(a := freed (uid s) ?c)" "lru s1 = remove1 a (lru s) @ [a]"
      using s1(1) by (auto simp: unlink_free_Some)
    have "lru s1 = rev H @ (remove1 a rest @ [a])" using aP(2) by (simp add: r1(2) ls remove1_append)
    moreover have "\<forall>b \<in> P. recs s1 b = recs s b" using aP(1) by (auto simp: r1)
    ultimately have f1: "found_addr addr prot now P hs H s1" using fd unfolding found_addr_def by auto
    have run: "find_addr_loop addr now prot (a # as) hs s = find_addr_loop addr now prot as hs s1"
      unfolding step using free s1(1) by auto
    obtain ch hs' H' s' where p: "find_addr_loop addr now prot as hs s1 = Some (ch, hs', s')" "cinv (T[i := pre @ ch]) s'"
      "scan_frame s1 s'" "set ch \<subseteq> set as" "found_addr addr prot now (P \<union> set ch) hs' H' s'"
      "\<forall>b. b \<notin> set as \<longrightarrow> recs s' b = recs s1 b"
      "\<forall>b \<in> set as. rev_hit addr prot (recs s1 b) \<and> \<not> is_expired now (recs s1 b) \<longrightarrow> b \<in> set ch"
      using Cons.IH [OF s1(2) f1 aP(3)] by blast
    have "\<forall>b \<in> set as. recs s1 b = recs s b" using dist(2) by (auto simp: r1)
    then show ?thesis unfolding run
      by (intro exI [of _ ch] exI [of _ hs'] exI [of _ H'] exI [of _ s'])
        (use p free scan_frame_trans [OF s1(3) p(3)] in \<open>auto simp: r1\<close>)
  next
    case keep
    let ?hit = "addr_hit addr prot ?c"
    define hs1 H1 where "hs1 = (if ?hit \<and> fixed_rec ?c then hs @ [a] else hs)"
      and "H1 = (if ?hit \<and> \<not> fixed_rec ?c then H @ [a] else H)"
    obtain s1 rest1 where s1: "(if ?hit \<and> \<not> fixed_rec ?c then map_option (cache_link a) (cache_unlink a s) else Some s) = Some s1"
      "cinv (T[i := pre @ a # as]) s1" "scan_frame s s1" "recs s1 = recs s" "lru s1 = rev H1 @ rest1"
    proof (cases "?hit \<and> \<not> fixed_rec ?c")
      case True
      then have "a \<in> set (lru s)"
        using chain_okD(4) [OF cinvD(6) [OF Cons.prems(1), of i], of a] assms(2) by simp
      from cinv_promote [OF Cons.prems(1) this] obtain s1 where p: "map_option (cache_link a) (cache_unlink a s) = Some s1"
        "cinv (T[i := pre @ a # as]) s1" "same_frame s s1" "recs s1 = recs s" "lru s1 = a # remove1 a (lru s)" by blast
      have "lru s1 = rev H1 @ remove1 a rest" using True aP(2) by (simp add: p(5) ls H1_def remove1_append)
      then show thesis using that [of s1 "remove1 a rest"] True p(1-4) by (simp add: scan_frame_def)
    next
      case False
      then show thesis using that [of s rest] Cons.prems(1) ls by (auto simp: H1_def)
    qed
    have f1: "found_addr addr prot now (insert a P) hs1 H1 s1"
    proof -
      have "set hs1 = {b \<in> insert a P. rev_hit addr prot (recs s b) \<and> fixed_rec (recs s b)}"
        "set H1 = {b \<in> insert a P. rev_hit addr prot (recs s b) \<and> \<not> fixed_rec (recs s b)}"
        "distinct hs1" "distinct H1"
        using fd aP(1) keep(1) unfolding hs1_def H1_def by (auto simp: rev_hit_def)
      then show ?thesis using fd keep(2) s1(5) unfolding found_addr_def s1(4) by blast
    qed
    have c1: "cinv (T[i := (pre @ [a]) @ as]) s1" using s1(2) by simp
    have "insert a P \<inter> set as = {}" using aP(3) dist(2) by blast
    from Cons.IH [OF c1 f1 this] obtain ch hs' H' s' where p: "find_addr_loop addr now prot as hs1 s1 = Some (ch, hs', s')" "cinv (T[i := (pre @ [a]) @ ch]) s'"
      "scan_frame s1 s'" "set ch \<subseteq> set as" "found_addr addr prot now (insert a P \<union> set ch) hs' H' s'"
      "\<forall>b. b \<notin> set as \<longrightarrow> recs s' b = recs s1 b"
      "\<forall>b \<in> set as. rev_hit addr prot (recs s1 b) \<and> \<not> is_expired now (recs s1 b) \<longrightarrow> b \<in> set ch"
      by blast
    have run: "find_addr_loop addr now prot (a # as) hs s = Some (a # ch, hs', s')"
      unfolding step using keep s1(1) p(1) by (simp add: hs1_def)
    have "P \<union> set (a # ch) = insert a P \<union> set ch" by auto
    then have "found_addr addr prot now (P \<union> set (a # ch)) hs' H' s'" using p(5) by simp
    then show ?thesis unfolding run
      by (intro exI [of _ "a # ch"] exI [of _ hs'] exI [of _ H'] exI [of _ s'])
        (use p scan_frame_trans [OF s1(3) p(3)] s1(4) in auto)
  qed
qed

text \<open>The buckets below \<open>k\<close> have been searched.\<close>

definition below :: "cst \<Rightarrow> nat \<Rightarrow> nat set" where
  "below s k = (\<Union>j < k. set (table s ! j))"

lemma below_all: "below s (length (table s)) = {a. in_table s a}"
proof -
  have "in_table s a \<longleftrightarrow> (\<exists>j < length (table s). a \<in> set (table s ! j))" for a
    unfolding in_table_def by (metis in_set_conv_nth)
  then show ?thesis by (auto simp: below_def)
qed

lemma find_addr_buckets_post:
  assumes "cache_inv s" and "k + m = length (table s)" and "found_addr addr prot now (below s k) hs H s"
  shows "\<exists>hs' H' s'. foldM (find_addr_bucket addr now prot) [k..<k + m] (hs, s) = Some (hs', s') \<and> cache_inv s' \<and>
     op_frame s s' \<and> found_addr addr prot now {a. in_table s' a} hs' H' s' \<and>
     (\<forall>j < k. table s' ! j = table s ! j) \<and>
     (\<forall>j < k + m. k \<le> j \<longrightarrow> (\<forall>b \<in> set (table s ! j). rev_hit addr prot (recs s b) \<and> \<not> is_expired now (recs s b) \<longrightarrow> b \<in> set (table s' ! j)))"
  using assms
proof (induction m arbitrary: k s hs H)
  case 0
  have "found_addr addr prot now {a. in_table s a} hs H s" using 0(2,3) below_all [of s] by simp
  then show ?case using 0(1) by (intro exI [of _ hs] exI [of _ H] exI [of _ s]) simp
next
  case (Suc m)
  have k: "k < length (table s)" using Suc.prems(2) by simp
  note d = cinvD [OF Suc.prems(1) [unfolded cache_inv_def]]
  have other: "b \<notin> set (table s ! j)" if "j < length (table s)" "j \<noteq> k" "b \<in> set (table s ! k)" for b j
    using chain_okD(1) [OF d(6) [OF that(1)]] chain_okD(1) [OF d(6) [OF k] that(3)] that(2) by fastforce
  have dj: "below s k \<inter> set (table s ! k) = {}"
    using other Suc.prems(2) by (fastforce simp: below_def)
  have c0: "cinv ((table s)[k := [] @ table s ! k]) s" using Suc.prems(1) by (simp add: cache_inv_def)
  obtain ch hs1 H1 s1 where p: "find_addr_loop addr now prot (table s ! k) hs s = Some (ch, hs1, s1)"
    "cinv ((table s)[k := ch]) s1" "scan_frame s s1" "set ch \<subseteq> set (table s ! k)"
    "found_addr addr prot now (below s k \<union> set ch) hs1 H1 s1" "\<forall>b. b \<notin> set (table s ! k) \<longrightarrow> recs s1 b = recs s b"
    "\<forall>b \<in> set (table s ! k). rev_hit addr prot (recs s b) \<and> \<not> is_expired now (recs s b) \<longrightarrow> b \<in> set ch"
    using find_addr_loop_post [OF c0 k Suc.prems(3) dj] by auto
  define s2 where "s2 = s1\<lparr>table := (table s1)[k := ch]\<rparr>"
  have t: "table s1 = table s" using p(3) by (simp add: scan_frame_def same_frame_def)
  have t2: "table s2 = (table s)[k := ch]" "recs s2 = recs s1" "lru s2 = lru s1" by (simp_all add: s2_def t)
  have inv2: "cache_inv s2" using p(2) by (simp add: cache_inv_def s2_def t)
  have fr: "op_frame s s2" unfolding s2_def by (rule op_frame_writeback [OF p(3) k p(4)])
  have "below s2 (Suc k) = below s k \<union> set ch"
    using k by (auto simp: below_def t2 less_Suc_eq nth_list_update split: if_splits)
  then have f2: "found_addr addr prot now (below s2 (Suc k)) hs1 H1 s2"
    using p(5) unfolding found_addr_def t2 by simp
  have "Suc k + m = length (table s2)" using Suc.prems(2) by (simp add: t2)
  from Suc.IH [OF inv2 this f2] obtain hs' H' s' where
    q: "foldM (find_addr_bucket addr now prot) [Suc k..<Suc k + m] (hs1, s2) = Some (hs', s')" "cache_inv s'"
      "op_frame s2 s'" "found_addr addr prot now {a. in_table s' a} hs' H' s'" "\<forall>j < Suc k. table s' ! j = table s2 ! j"
      "\<forall>j < Suc k + m. Suc k \<le> j \<longrightarrow> (\<forall>b \<in> set (table s2 ! j). rev_hit addr prot (recs s2 b) \<and> \<not> is_expired now (recs s2 b) \<longrightarrow> b \<in> set (table s' ! j))"
    by blast
  have run: "foldM (find_addr_bucket addr now prot) [k..<k + Suc m] (hs, s) = Some (hs', s')"
  proof -
    have "[k..<k + Suc m] = k # [Suc k..<Suc k + m]" by (simp add: upt_conv_Cons del: upt_Suc)
    moreover have "find_addr_bucket addr now prot k (hs, s) = Some (hs1, s2)"
      using p(1) by (simp add: find_addr_bucket_def s2_def)
    ultimately show ?thesis using q(1) by (simp del: upt_Suc)
  qed
  have keep: "b \<in> set (table s' ! j)"
    if j: "j < k + Suc m" "k \<le> j" and b: "b \<in> set (table s ! j)" "rev_hit addr prot (recs s b)" "\<not> is_expired now (recs s b)" for j b
  proof (cases "j = k")
    case True
    then have "b \<in> set ch" using p(7) b by blast
    then show ?thesis using q(5) k True by (simp add: t2)
  next
    case False
    have "b \<notin> set (table s ! k)" using other [of j b] j False b(1) Suc.prems(2) by auto
    then have "recs s2 b = recs s b" using p(6) t2(2) by simp
    moreover have "b \<in> set (table s2 ! j)" using b(1) False by (simp add: t2)
    ultimately show ?thesis using q(6) j False b by auto
  qed
  show ?case
    by (intro exI [of _ hs'] exI [of _ H'] exI [of _ s'])
      (use run q keep op_frame_trans [OF fr q(3)] in \<open>auto simp: t2\<close>)
qed

lemma op_frame_in_table: "op_frame s s' \<Longrightarrow> in_table s' a \<Longrightarrow> in_table s a"
  unfolding op_frame_def by (metis in_table_elim in_table_nth subsetD)

lemma cache_find_by_addr_post:
  assumes inv: "cache_inv s"
  shows "\<exists>r s' L. cache_find_by_addr None addr now prot s = Some (r, s') \<and> cache_inv s' \<and>
     r = first_of L \<and> distinct L \<and> (\<forall>n \<ge> length L. follow n (\<lambda>c. cache_find_by_addr c addr now prot) r s' = L) \<and>
     set L = {a. in_table s' a \<and> rev_hit addr prot (recs s' a)} \<and>
     (\<forall>a \<in> set L. \<not> is_expired now (recs s' a)) \<and>
     (\<forall>a. in_table s' a \<longrightarrow> in_table s a \<and> recs s' a = (recs s a)\<lparr>c_next := c_next (recs s' a)\<rparr>) \<and>
     (\<forall>a. in_table s a \<and> rev_hit addr prot (recs s a) \<and> \<not> is_expired now (recs s a) \<longrightarrow> a \<in> set L) \<and>
     new_ch s' = new_ch s \<and> set (lru s') = set (lru s)"
proof -
  let ?n = "length (table s)"
  have f0: "found_addr addr prot now (below s 0) [] [] s" by (simp add: found_addr_def below_def)
  obtain hs H s1 where p: "foldM (find_addr_bucket addr now prot) [0..<?n] ([], s) = Some (hs, s1)" "cache_inv s1"
     "op_frame s s1" "found_addr addr prot now {a. in_table s1 a} hs H s1"
     "\<forall>j < ?n. \<forall>b \<in> set (table s ! j). rev_hit addr prot (recs s b) \<and> \<not> is_expired now (recs s b) \<longrightarrow> b \<in> set (table s1 ! j)"
    using find_addr_buckets_post [OF inv _ f0, of ?n] by auto
  note fd = p(4) [unfolded found_addr_def]
  obtain rest where ls: "lru s1 = rev H @ rest" using fd by blast
  have d: "distinct hs" and fx: "\<forall>a \<in> set hs. fixed_rec (recs s1 a)"
    and hits: "set hs \<union> set H = {a. in_table s1 a \<and> rev_hit addr prot (recs s1 a)}"
    using fd by auto
  define s2 where "s2 = s1\<lparr>recs := set_chain hs (first_of (lru s1)) (recs s1)\<rparr>"
  note res = by_addr.search_result [OF p(2) d fx ls hits s2_def]
  have run: "cache_find_by_addr None addr now prot s = Some (first_of (hs @ rev H), s2)"
    using p(1) res(1) by (simp add: cache_find_by_addr_def s2_def rev_hit_def [abs_def])
  have r2: "recs s2 = set_chain hs (first_of (lru s1)) (recs s1)" by (simp add: s2_def)
  have setL: "set (hs @ rev H) = {a. in_table s2 a \<and> rev_hit addr prot (recs s2 a)}"
    using hits res(5) by (simp add: r2 by_addr.hit_set_chain)
  have exp: "\<not> is_expired now (recs s2 a)" if "a \<in> set (hs @ rev H)" for a
  proof -
    have "\<not> is_expired now (recs s1 a)" using fd that hits by auto
    then show ?thesis by (simp add: is_expired_def r2 set_chain_fields split: if_splits)
  qed
  have live: "recs s1 a = recs s a" if "in_table s1 a" for a
    using in_table_bucket(2) [OF p(2) that] p(3) by (auto simp: op_frame_def)
  have sub: "in_table s a \<and> recs s2 a = (recs s a)\<lparr>c_next := c_next (recs s2 a)\<rparr>" if "in_table s2 a" for a
  proof -
    have it: "in_table s1 a" using that res(5) by simp
    have "recs s2 a = (recs s1 a)\<lparr>c_next := c_next (recs s2 a)\<rparr>" unfolding r2 by (rule set_chain_eq)
    then show ?thesis using op_frame_in_table [OF p(3) it] unfolding live [OF it] by blast
  qed
  have comp: "a \<in> set (hs @ rev H)" if h: "in_table s a" "rev_hit addr prot (recs s a)" "\<not> is_expired now (recs s a)" for a
  proof -
    obtain j where j: "j < ?n" "a \<in> set (table s ! j)" by (rule in_table_elim [OF h(1)])
    then have "a \<in> set (table s1 ! j)" using p(5) h by blast
    then have it: "in_table s1 a" using in_table_nth [of j s1 a] j(1) p(3) by (simp add: op_frame_def)
    then show ?thesis using hits h(2) live [OF it] by auto
  qed
  have fr: "new_ch s2 = new_ch s" "set (lru s2) = set (lru s)" using p(3) by (simp_all add: s2_def op_frame_def)
  show ?thesis
    by (intro exI [of _ "first_of (hs @ rev H)"] exI [of _ s2] exI [of _ "hs @ rev H"] conjI allI impI)
      (use run res setL exp sub comp fr in simp_all)
qed

subsection \<open>What stands in the way of an insertion\<close>

text \<open>A record of the hosts file or of DHCP that is still valid survives the scan for a name, and
  the scan reports it.\<close>

lemma unlink_free_recs:
  assumes "unlink_free a s = Some s'" and "b \<noteq> a"
  shows "recs s' b = recs s b"
  using assms by (auto simp: unlink_free_Some)

lemma scan_forward_keeps_fixed:
  assumes "scan_forward name now flags ch s = Some (ok, ch', s')" and "b \<in> set ch"
    and "fixed_rec (recs s b)" "\<not> is_expired now (recs s b)" "\<not> has CF_CNAME (recs s b)"
  shows "b \<in> set ch' \<and> recs s' b = recs s b"
  using assms
proof (induction ch arbitrary: s ch')
  case Nil
  then show ?case by simp
next
  case (Cons a as)
  let ?c = "recs s a"
  have valid: "\<not> (is_expired now (recs s b) \<or> is_outdated_cname_pointer s (recs s b))"
    using Cons.prems(4,5) by (simp add: is_outdated_cname_pointer_def)
  have keep: "recs s1 b = recs s b" if "unlink_free a s = Some s1" "\<not> fixed_rec ?c" for s1
    using unlink_free_recs [OF that(1), of b] that(2) Cons.prems(3) by (cases "b = a") auto
  have rest: "b \<noteq> a \<Longrightarrow> b \<in> set as" using Cons.prems(2) by auto
  have go: "b \<in> set x \<and> recs s' b = recs s b"
    if "scan_forward name now flags as s1 = Some (ok, x, s')" "recs s1 b = recs s b" "b \<in> set as" for s1 x
    using Cons.IH [OF that(1,3)] that(2) Cons.prems(3-5) by simp
  show ?case
  proof (cases "b = a")
    case False
    then show ?thesis using Cons.prems(1) rest go keep
      by (auto simp: Let_def split: if_splits option.splits)
  next
    case True
    have frame: "recs s2 b = recs s b" if "scan_forward name now flags xs s1 = Some (ok2, x, s2)" "recs s1 b = recs s b" for xs s1 x s2 ok2
      using that
    proof (induction xs arbitrary: s1 x)
      case (Cons y ys)
      have k: "recs s3 b = recs s b" if "unlink_free y s1 = Some s3" "\<not> fixed_rec (recs s1 y)" for s3
        using unlink_free_recs [OF that(1), of b] that(2) Cons.prems(2) \<open>fixed_rec (recs s b)\<close> by (cases "b = y") auto
      show ?case using Cons.prems Cons.IH k by (auto simp: Let_def split: if_splits option.splits)
    qed simp
    show ?thesis using Cons.prems(1,3) valid True frame by (auto simp: Let_def split: if_splits option.splits)
  qed
qed

lemma cache_scan_free_blocked:
  assumes inv: "cache_inv s" and b: "in_table s b" "fixed_rec (recs s b)" "\<not> is_expired now (recs s b)" "\<not> has CF_CNAME (recs s b)"
    and conf: "name_conflict name flags (recs s b)" and fwd: "flags AND CF_FORWARD \<noteq> 0"
  shows "\<exists>s'. cache_scan_free name addr now flags s = Some (False, s') \<and> cache_inv s' \<and> op_frame s s' \<and>
     in_table s' b \<and> recs s' b = recs s b"
proof -
  obtain ok s' where r: "cache_scan_free name addr now flags s = Some (ok, s')" "cache_inv s'" "op_frame s s'"
      "ok \<longrightarrow> (\<forall>b. in_table s' b \<longrightarrow> \<not> name_conflict name flags (recs s' b))"
    using cache_scan_free_inv [OF inv, of name addr now flags] fwd by blast
  let ?i = "hash_bucket s name"
  have i: "?i < length (table s)" by (rule hash_bucket_less [OF inv])
  have "hash_bucket s (c_name (recs s b)) = ?i"
    using conf bucket_of_case [of "c_name (recs s b)" name] by (simp add: hash_bucket_of name_conflict_def)
  then have bi: "b \<in> set (table s ! ?i)" using in_table_bucket(1) [OF inv b(1)] by simp
  obtain ch s1 where p: "scan_forward name now flags (table s ! ?i) s = Some (ok, ch, s1)" "s' = s1\<lparr>table := (table s1)[?i := ch]\<rparr>"
    using r(1) fwd by (auto simp: cache_scan_free_def Let_def split: option.splits)
  have k: "b \<in> set ch" "recs s1 b = recs s b" using scan_forward_keeps_fixed [OF p(1) bi b(2-4)] by blast+
  have "length (table s') = length (table s)" using r(3) by (simp add: op_frame_def)
  then have "in_table s' b" using k(1) i in_table_nth [of ?i s' b] by (simp add: p(2))
  moreover have "recs s' b = recs s b" using k(2) by (simp add: p(2))
  ultimately show ?thesis using r conf by auto
qed

subsection \<open>What a caller of the cache relies on\<close>

lemma distinct_singleton: "distinct xs \<Longrightarrow> set xs = {a} \<Longrightarrow> xs = [a]"
  by (cases xs) (auto, metis list.set_intros(1) neq_Nil_conv singletonD subset_iff)

lemma cache_start_insert_max_ttl: "max_cache_ttl (cache_start_insert s) = max_cache_ttl s"
proof -
  have "max_cache_ttl (fold cache_free ns s) = max_cache_ttl s" for ns by (induction ns arbitrary: s) simp_all
  then show ?thesis by (simp add: cache_start_insert_def)
qed

text \<open>The state after a transaction that inserts one record which is no CNAME.\<close>

lemma single_insert_post:
  assumes inv: "cache_inv s0" and ins: "cache_insert mem_ok (Some name) (Some addr) now ttl flags (cache_start_insert s0) = Some (Some a, s1)"
    and flags: "insertable flags" "flags AND CF_FORWARD \<noteq> 0" "flags AND CF_CNAME = 0" and len: "length name < MAXDNAME"
  shows "cache_inv (cache_end_insert s1)" "in_table (cache_end_insert s1) a"
    "inserted_rec (recs (cache_end_insert s1) a) (Some name) (Some addr) now (clamp_ttl (max_cache_ttl s0) ttl) flags"
    "\<And>b. in_table (cache_end_insert s1) b \<Longrightarrow> b \<noteq> a \<Longrightarrow> \<not> name_conflict name flags (recs (cache_end_insert s1) b)"
proof -
  note st = cache_start_insert_inv [OF inv]
  have i: "cache_inv s1" "\<not> insert_error s1" "new_ch s1 = [a]"
     "inserted_rec (recs s1 a) (Some name) (Some addr) now (clamp_ttl (max_cache_ttl s0) ttl) flags"
     "\<forall>b. in_table s1 b \<longrightarrow> \<not> name_conflict name flags (recs s1 b)"
    using cache_insert_post [OF st(1) flags(1), of "Some name" mem_ok "Some addr" now ttl] ins len flags(2) st(2)
    by (auto simp: cache_start_insert_max_ttl)
  have "\<not> has CF_CNAME (recs s1 a)"
    using has_inserted [of "recs s1 a" flags CF_CNAME] i(4) flags(3) by (simp add: inserted_rec_def cf_defs)
  moreover have "cinv (table s1) (s1\<lparr>new_ch := new_ch s1\<rparr>)" using i(1) by (simp add: cache_inv_def)
  then have "cinv (table s1) (s1\<lparr>new_ch := [a]\<rparr>)" unfolding i(3) .
  note fc = fold_commit_inv [OF this]
  have s2: "cache_end_insert s1 = (fold commit_rec [a] s1)\<lparr>new_ch := []\<rparr>" using i(2,3) by (simp add: cache_end_insert_def)
  show "cache_inv (cache_end_insert s1)" by (rule cache_end_insert_inv [OF i(1)])
  have t: "in_table (cache_end_insert s1) a \<and> recs (cache_end_insert s1) a = recs s1 a"
    "\<And>b. in_table (cache_end_insert s1) b \<Longrightarrow> b \<noteq> a \<Longrightarrow> in_table s1 b \<and> recs (cache_end_insert s1) b = recs s1 b"
    using fc \<open>\<not> has CF_CNAME (recs s1 a)\<close> unfolding s2 by (auto simp: in_table_def)
  show "in_table (cache_end_insert s1) a"
    "inserted_rec (recs (cache_end_insert s1) a) (Some name) (Some addr) now (clamp_ttl (max_cache_ttl s0) ttl) flags"
    using t(1) i(4) by simp_all
  show "\<not> name_conflict name flags (recs (cache_end_insert s1) b)" if "in_table (cache_end_insert s1) b" "b \<noteq> a" for b
    using t(2) [OF that] i(5) by simp
qed

text \<open>A record that a search for a type of the new record finds conflicts with it.\<close>

lemma hit_conflicts:
  assumes "name_hit name' prot c" and "strcaseeq name name'" and "prot AND (flags AND CF_TYPE) = prot"
  shows "name_conflict name flags c"
proof -
  have h: "has CF_FORWARD c" "c_flags c AND prot \<noteq> 0" "strcaseeq (c_name c) name'"
    using assms(1) by (simp_all add: name_hit_def has_def cache_get_name_def)
  have "flags AND c_flags c AND CF_TYPE \<noteq> 0"
  proof
    assume "flags AND c_flags c AND CF_TYPE = 0"
    then have "prot AND (flags AND c_flags c AND CF_TYPE) = 0" by simp
    moreover have "prot AND (flags AND c_flags c AND CF_TYPE) = c_flags c AND (prot AND (flags AND CF_TYPE))"
      by (simp add: and.left_commute and.commute and.assoc)
    ultimately show False using h(2) assms(3) by simp
  qed
  moreover have "strcaseeq (c_name c) name" using h(3) assms(2) by (simp add: strcaseeq_def)
  ultimately show ?thesis using h(1) by (simp add: name_conflict_def)
qed

lemma inserted_hit:
  assumes "inserted_rec c (Some name) (Some addr) now ttl flags" and "flags AND CF_FORWARD \<noteq> 0" and "flags AND CF_CNAME = 0"
    and "prot AND (flags AND CF_TYPE) = prot" and "prot \<noteq> 0" and "strcaseeq name name'" and "now' < time_plus now ttl"
  shows "kept_hit name' prot now' c"
proof -
  have has: "has m c \<longleftrightarrow> flags AND m \<noteq> 0" if "m AND CF_BIGNAME = 0" for m
    using has_inserted [of c flags m] assms(1) that by (simp add: inserted_rec_def)
  have "prot AND CF_TYPE = prot" and pf: "flags AND prot = prot"
    using assms(4) by (metis and.assoc and.right_idem, metis and.assoc and.commute and.right_idem)
  then have "prot AND CF_BIGNAME = (prot AND CF_TYPE) AND CF_BIGNAME" by simp
  also have "\<dots> = 0" by (simp add: cf_defs and.assoc)
  finally have "has prot c" using has [of prot] pf assms(5) by simp
  moreover have "has CF_FORWARD c" "\<not> has CF_CNAME c"
    using has [of CF_FORWARD] has [of CF_CNAME] assms(2,3) by (simp_all add: cf_defs)
  ultimately show ?thesis using assms(1,6,7)
    by (simp add: kept_hit_def name_hit_def is_expired_def cache_get_name_def inserted_rec_def)
qed

lemma inserted_is_found:
  assumes inv: "cache_inv s0" and ins: "cache_insert mem_ok (Some name) (Some addr) now ttl flags (cache_start_insert s0) = Some (Some a, s1)"
    and flags: "insertable flags" "flags AND CF_FORWARD \<noteq> 0" "flags AND CF_CNAME = 0" and len: "length name < MAXDNAME"
    and prot: "prot AND (flags AND CF_TYPE) = prot" "prot \<noteq> 0" and eq: "strcaseeq name name'"
    and now': "now' < time_plus now (clamp_ttl (max_cache_ttl s0) ttl)"
  shows "\<exists>s3. cache_find_by_name None name' now' prot (cache_end_insert s1) = Some (Some a, s3) \<and>
     cache_find_by_name (Some a) name' now' prot s3 = Some (None, s3) \<and>
     c_name (recs s3 a) = name \<and> c_addr (recs s3 a) = addr \<and> c_ttd (recs s3 a) = time_plus now (clamp_ttl (max_cache_ttl s0) ttl)"
proof -
  let ?s = "cache_end_insert s1"
  note t = single_insert_post [OF inv ins flags len]
  note hit = inserted_hit [OF t(3) flags(2,3) prot eq now']
  obtain r s3 L where f: "cache_find_by_name None name' now' prot ?s = Some (r, s3)" "r = first_of L" "distinct L"
     "\<forall>n \<ge> length L. follow n (\<lambda>c. cache_find_by_name c name' now' prot) r s3 = L"
     "set L = {a. in_table s3 a \<and> name_hit name' prot (recs s3 a)}"
     "\<forall>a. in_table s3 a \<longrightarrow> in_table ?s a \<and> recs s3 a = (recs ?s a)\<lparr>c_next := c_next (recs s3 a)\<rparr>"
     "\<forall>a. in_table ?s a \<and> kept_hit name' prot now' (recs ?s a) \<longrightarrow> a \<in> set L"
    using cache_find_by_name_post [OF t(1), of name' now' prot] by blast
  have aL: "a \<in> set L" using f(7) t(2) hit by blast
  have only: "x = a" if x: "x \<in> set L" for x
  proof (rule ccontr)
    assume "x \<noteq> a"
    have it: "in_table s3 x" "name_hit name' prot (recs s3 x)" using f(5) x by auto
    then have x2: "in_table ?s x" and e: "recs s3 x = (recs ?s x)\<lparr>c_next := c_next (recs s3 x)\<rparr>" using f(6) by blast+
    have "name_hit name' prot (recs ?s x)" using it(2) e by_name.hit_next by metis
    then show False using hit_conflicts [OF _ eq prot(1)] t(4) [OF x2 \<open>x \<noteq> a\<close>] by blast
  qed
  have "set L = {a}" using aL only by blast
  then have L: "L = [a]" by (rule distinct_singleton [OF f(3)])
  have "follow 2 (\<lambda>c. cache_find_by_name c name' now' prot) (Some a) s3 = [a]" using f(2,4) L by (simp add: first_of_def)
  then have nx: "cache_find_by_name (Some a) name' now' prot s3 = Some (None, s3)"
    unfolding numeral_2_eq_2 by (cases "answer_if (name_hit name' prot) s3 (next_of s3 a)") (simp_all add: by_name.search_next)
  have "in_table s3 a" using f(5) aL by auto
  then have e: "recs s3 a = (recs ?s a)\<lparr>c_next := c_next (recs s3 a)\<rparr>" using f(6) by blast
  have "c_name (recs s3 a) = c_name (recs ?s a)" "c_addr (recs s3 a) = c_addr (recs ?s a)" "c_ttd (recs s3 a) = c_ttd (recs ?s a)"
    by (subst e, simp)+
  then show ?thesis using f(1,2) L nx t(3) by (intro exI [of _ s3]) (simp add: first_of_def inserted_rec_def)
qed

text \<open>C20. A transaction in which the cache takes one record with a name and an address (\<open>cache_insert\<close>
  returns a record) makes exactly this record the answer of a search in the state right after it, for the name in
  any letter case and for a type the record has, at any time before the expiry time of the record: what was cached
  before for the name and the type is gone, and the record carries the name, the address and the expiry time it was
  inserted with.  The expiry time is computed in 32 bits, as the code does: it is the time of the insertion plus the
  time to live unless the sum overflows.  (Later transactions may evict the record.)\<close>

theorem insert_then_find:
  assumes inv: "cache_inv s0" and ins: "cache_insert mem_ok (Some name) (Some addr) now ttl flags (cache_start_insert s0) = Some (Some a, s1)"
    and flags: "insertable flags" "flags AND CF_FORWARD \<noteq> 0" "flags AND CF_CNAME = 0" and len: "length name < MAXDNAME"
    and prot: "prot AND (flags AND CF_TYPE) = prot" "prot \<noteq> 0" and eq: "strcaseeq name name'"
    and now': "now' < time_plus now (clamp_ttl (max_cache_ttl s0) ttl)"
  shows "\<exists>s3. cache_find_by_name None name' now' prot (cache_end_insert s1) = Some (Some a, s3) \<and>
     cache_find_by_name (Some a) name' now' prot s3 = Some (None, s3) \<and>
     c_name (recs s3 a) = name \<and> c_addr (recs s3 a) = addr \<and> c_ttd (recs s3 a) = time_plus now (clamp_ttl (max_cache_ttl s0) ttl)"
  by (rule inserted_is_found [OF assms])

text \<open>A small cache for the examples: eight free records, a mixing table of zeros.\<close>

definition small_cache :: cst where
  "small_cache = cache_init 8 (cst_start (\<lambda>_. \<lparr>c_flags = 0, c_name = [], c_addr = [], cn_cache = None, cn_uid = 0,
     c_ttd = 0, c_uid = 0, c_next = None\<rparr>) (\<lambda>_. 0) 0)"

lemma small_cache_inv: "cache_inv small_cache"
  unfolding small_cache_def by (rule cache_init_inv) simp

lemma demo_insert:
  "map_option fst (cache_insert True (Some (bytes_of ''host'')) (Some [10, 0, 0, 1]) 100 60 (CF_FORWARD OR CF_IPV4)
     (cache_start_insert small_cache)) = Some (Some 0)"
  by code_simp

theorem insert_then_find_witness:
  "\<exists>s1 s3. cache_insert True (Some (bytes_of ''host'')) (Some [10, 0, 0, 1]) 100 60 (CF_FORWARD OR CF_IPV4)
       (cache_start_insert small_cache) = Some (Some 0, s1) \<and>
     cache_find_by_name None (bytes_of ''HOST'') 159 CF_IPV4 (cache_end_insert s1) = Some (Some 0, s3) \<and>
     c_addr (recs s3 0) = [10, 0, 0, 1]"
proof -
  obtain s1 where s1: "cache_insert True (Some (bytes_of ''host'')) (Some [10, 0, 0, 1]) 100 60 (CF_FORWARD OR CF_IPV4)
       (cache_start_insert small_cache) = Some (Some 0, s1)"
    using demo_insert by auto
  have mx: "max_cache_ttl small_cache = 0" by code_simp
  have fl: "insertable (CF_FORWARD OR CF_IPV4)" "(CF_FORWARD OR CF_IPV4) AND CF_FORWARD \<noteq> 0"
    "(CF_FORWARD OR CF_IPV4) AND CF_CNAME = 0" "CF_IPV4 AND ((CF_FORWARD OR CF_IPV4) AND CF_TYPE) = CF_IPV4" "CF_IPV4 \<noteq> 0"
    by code_simp+
  have len: "length (bytes_of ''host'') < MAXDNAME" and eq: "strcaseeq (bytes_of ''host'') (bytes_of ''HOST'')" by code_simp+
  have now: "159 < time_plus 100 (clamp_ttl (max_cache_ttl small_cache) 60)" by code_simp
  from insert_then_find [OF small_cache_inv s1 fl(1-3) len fl(4,5) eq now] s1 show ?thesis by blast
qed

text \<open>C21. A search by name, started with NULL and continued with its own answers until it answers
  NULL, hands out no record twice, only records of the name and the type that have not expired, and
  every such record that is no CNAME (of a CNAME it may drop one whose target is gone).  It never unlinks a
  record that is not linked, and changes no field of a record that stays but the link \<open>next\<close>.\<close>

theorem cache_find_by_name_exact:
  assumes "cache_inv s"
  shows "\<exists>r s' L. cache_find_by_name None name now prot s = Some (r, s') \<and> cache_inv s' \<and> distinct L \<and>
     (\<forall>n \<ge> length L. follow n (\<lambda>c. cache_find_by_name c name now prot) r s' = L) \<and>
     (\<forall>a \<in> set L. in_table s a \<and> name_hit name prot (recs s a) \<and> \<not> is_expired now (recs s a)) \<and>
     (\<forall>a. in_table s a \<and> name_hit name prot (recs s a) \<and> \<not> is_expired now (recs s a) \<and> \<not> has CF_CNAME (recs s a) \<longrightarrow> a \<in> set L) \<and>
     (\<forall>a. in_table s' a \<longrightarrow> in_table s a \<and> recs s' a = (recs s a)\<lparr>c_next := c_next (recs s' a)\<rparr>)"
proof -
  obtain r s' L where f: "cache_find_by_name None name now prot s = Some (r, s')" "cache_inv s'" "distinct L"
     "\<forall>n \<ge> length L. follow n (\<lambda>c. cache_find_by_name c name now prot) r s' = L"
     "set L = {a. in_table s' a \<and> name_hit name prot (recs s' a)}"
     "\<forall>a \<in> set L. \<not> is_expired now (recs s' a)"
     "\<forall>a. in_table s' a \<longrightarrow> in_table s a \<and> recs s' a = (recs s a)\<lparr>c_next := c_next (recs s' a)\<rparr>"
     "\<forall>a. in_table s a \<and> kept_hit name prot now (recs s a) \<longrightarrow> a \<in> set L"
    using cache_find_by_name_post [OF assms, of name now prot] by blast
  have up: "in_table s a \<and> name_hit name prot (recs s a) \<and> \<not> is_expired now (recs s a)" if a: "a \<in> set L" for a
  proof -
    have it: "in_table s' a" "name_hit name prot (recs s' a)" using f(5) a by auto
    have e: "recs s' a = (recs s a)\<lparr>c_next := c_next (recs s' a)\<rparr>" using f(7) it(1) by blast
    have "name_hit name prot (recs s a)" using it(2) e by_name.hit_next by metis
    moreover have "\<not> is_expired now ((recs s a)\<lparr>c_next := c_next (recs s' a)\<rparr>)" using f(6) a e by metis
    then have "\<not> is_expired now (recs s a)" by (simp add: is_expired_def has_def split: if_splits)
    ultimately show ?thesis using f(7) it(1) by blast
  qed
  have "\<forall>a. in_table s a \<and> name_hit name prot (recs s a) \<and> \<not> is_expired now (recs s a) \<and> \<not> has CF_CNAME (recs s a) \<longrightarrow> a \<in> set L"
    using f(8) unfolding kept_hit_def by blast
  moreover have "\<forall>a \<in> set L. in_table s a \<and> name_hit name prot (recs s a) \<and> \<not> is_expired now (recs s a)"
    using up by blast
  ultimately show ?thesis
    by (intro exI [of _ r] exI [of _ s'] exI [of _ L] conjI) (rule f(1-4,7) | assumption)+
qed

text \<open>C35. A valid record of the hosts file or of DHCP is never overridden: an attempt to insert a
  conflicting record for its name fails, marks the transaction as failed, and when the
  transaction ends nothing of it is committed and the record is still found.\<close>

theorem insert_respects_hosts:
  assumes inv: "cache_inv s" and b: "in_table s b" "fixed_rec (recs s b)" "\<not> is_expired now (recs s b)" "\<not> has CF_CNAME (recs s b)"
    and conf: "name_conflict name flags (recs s b)" and fwd: "flags AND CF_FORWARD \<noteq> 0" and e: "\<not> insert_error s"
  shows "\<exists>s'. cache_insert mem_ok (Some name) addr now ttl flags s = Some (None, s') \<and> insert_error s' \<and>
     cache_end_insert s' = s' \<and> cache_inv s' \<and> in_table s' b \<and> recs s' b = recs s b"
proof -
  obtain s' where s': "cache_scan_free name addr now flags s = Some (False, s')" "cache_inv s'" "in_table s' b" "recs s' b = recs s b"
    using cache_scan_free_blocked [OF inv b conf fwd, of addr] by blast
  show ?thesis
    by (rule exI [of _ "s'\<lparr>insert_error := True\<rparr>"])
      (use s' e fwd in \<open>simp add: cache_insert_def cache_end_insert_def in_table_def Let_def\<close>)
qed

text \<open>The example: one record of the hosts file, in the bucket of its name.\<close>

definition demo_hosts :: cst where
  "demo_hosts = cache_hash 9 (small_cache\<lparr>recs := (recs small_cache)(9 := \<lparr>c_flags = CF_HOSTS OR CF_IMMORTAL OR CF_FORWARD OR CF_IPV4,
     c_name = bytes_of ''host'', c_addr = [10, 0, 0, 9], cn_cache = None, cn_uid = 0, c_ttd = 0, c_uid = 0, c_next = None\<rparr>)\<rparr>)"

lemma demo_rec_flags:
  "live_rec \<lparr>c_flags = CF_HOSTS OR CF_IMMORTAL OR CF_FORWARD OR CF_IPV4, c_name = n, c_addr = x, cn_cache = y, cn_uid = u,
     c_ttd = t, c_uid = v, c_next = z\<rparr>"
  "fixed_rec \<lparr>c_flags = CF_HOSTS OR CF_IMMORTAL OR CF_FORWARD OR CF_IPV4, c_name = n, c_addr = x, cn_cache = y, cn_uid = u,
     c_ttd = t, c_uid = v, c_next = z\<rparr>"
  by (simp_all add: has_def fixed_rec_def cf_defs)

lemma demo_hosts_props:
  "cache_inv demo_hosts" "in_table demo_hosts 9" "fixed_rec (recs demo_hosts 9)" "\<not> is_expired 0 (recs demo_hosts 9)"
  "\<not> has CF_CNAME (recs demo_hosts 9)" "name_conflict (bytes_of ''HOST'') (CF_FORWARD OR CF_IPV4) (recs demo_hosts 9)"
  "\<not> insert_error demo_hosts"
proof -
  have l: "9 \<notin> set (lru small_cache)" "9 \<notin> set (new_ch small_cache)" "\<not> in_table small_cache 9"
    unfolding small_cache_def using cache_init_inv [of 8] by auto
  note m = cinv_add_fixed [OF small_cache_inv l _ _ demo_hosts_def]
  note lf = m [OF demo_rec_flags]
  show "cache_inv demo_hosts" by (rule lf(1))
  show "in_table demo_hosts 9" by (simp add: lf(2))
  show "fixed_rec (recs demo_hosts 9)" "\<not> is_expired 0 (recs demo_hosts 9)" "\<not> has CF_CNAME (recs demo_hosts 9)"
    "name_conflict (bytes_of ''HOST'') (CF_FORWARD OR CF_IPV4) (recs demo_hosts 9)" "\<not> insert_error demo_hosts"
    by code_simp+
qed

theorem insert_respects_hosts_witness:
  "\<exists>s'. cache_insert True (Some (bytes_of ''HOST'')) (Some [1, 2, 3, 4]) 0 60 (CF_FORWARD OR CF_IPV4) demo_hosts = Some (None, s') \<and>
     in_table s' 9 \<and> recs s' 9 = recs demo_hosts 9"
proof -
  have f: "(CF_FORWARD OR CF_IPV4) AND CF_FORWARD \<noteq> 0" by code_simp
  show ?thesis
    using insert_respects_hosts [OF demo_hosts_props(1-6) f demo_hosts_props(7), of True "Some [1, 2, 3, 4]" 60] by blast
qed

theorem cache_find_by_name_exact_witness:
  "\<exists>r s' L. cache_find_by_name None (bytes_of ''HOST'') 0 CF_IPV4 demo_hosts = Some (r, s') \<and> distinct L \<and> 9 \<in> set L \<and>
     follow (length L) (\<lambda>c. cache_find_by_name c (bytes_of ''HOST'') 0 CF_IPV4) r s' = L"
proof -
  have h: "name_hit (bytes_of ''HOST'') CF_IPV4 (recs demo_hosts 9)" by code_simp
  obtain r s' L where f: "cache_find_by_name None (bytes_of ''HOST'') 0 CF_IPV4 demo_hosts = Some (r, s')" "distinct L"
     "\<forall>n \<ge> length L. follow n (\<lambda>c. cache_find_by_name c (bytes_of ''HOST'') 0 CF_IPV4) r s' = L"
     "\<forall>a. in_table demo_hosts a \<and> name_hit (bytes_of ''HOST'') CF_IPV4 (recs demo_hosts a) \<and>
        \<not> is_expired 0 (recs demo_hosts a) \<and> \<not> has CF_CNAME (recs demo_hosts a) \<longrightarrow> a \<in> set L"
    using cache_find_by_name_exact [OF demo_hosts_props(1), of "bytes_of ''HOST''" 0 CF_IPV4] by (elim exE conjE) (rule that)
  have "9 \<in> set L" using f(4) h demo_hosts_props by blast
  moreover have "follow (length L) (\<lambda>c. cache_find_by_name c (bytes_of ''HOST'') 0 CF_IPV4) r s' = L"
    using f(3) [rule_format, OF order_refl] .
  ultimately show ?thesis using f(1,2) by (intro exI [of _ r] exI [of _ s'] exI [of _ L] conjI)
qed

end
