(* ===== verification/Dnsmasq_Reply.thy ===== *)
theory Dnsmasq_Reply
  imports Dnsmasq_Packet Dnsmasq_Cache_Ops
begin

section \<open>dnsmasq: replies enter the cache (src/dnsmasq/.../src/rfc1035.c, forward.c)\<close>

text \<open>
  \<open>extract_addresses\<close> walks over the questions of a reply and for each over the answers, follows aliases
  and inserts what it finds into the cache; \<open>process_reply\<close> prepares the packet for the client around it.
  The state \<open>exst\<close> is the packet, the name buffer and the cache.  A loop over answers that starts again
  at an alias counts its restarts, as the code does.  A result \<open>Some r\<close> of a loop is a return from the
  whole function with the value \<open>r\<close> (whether a rebinding attack was seen), \<open>None\<close> means that it goes on.
\<close>

subsection \<open>State\<close>

definition T_CNAME :: u16 where "T_CNAME = 5"
definition T_PTR :: u16 where "T_PTR = 12"
definition HB4_AD :: byte where "HB4_AD = 0x20"
definition HB4_CD :: byte where "HB4_CD = 0x10"
definition RC_NOERROR :: byte where "RC_NOERROR = 0"
definition RC_NXDOMAIN :: byte where "RC_NXDOMAIN = 3"

record exst =
  ex_msg :: bytes
  ex_name :: bytes
  ex_cache :: cst

record exenv =
  ee_doctors :: "doctor list"
  ee_log :: bool
  ee_neg_ttl :: u32
  ee_max_ttl :: u32
  ee_no_neg :: bool
  ee_local_rebind :: bool
  ee_mem :: bool

definition RCODE :: "bytes \<Rightarrow> byte option" where
  "RCODE msg = map_option (\<lambda>b. b AND HB4_RCODE) (peek msg 3)"

definition buf_str :: "bytes \<Rightarrow> bytes" where
  "buf_str b = takeWhile (\<lambda>c. c \<noteq> 0) b"

subsection \<open>Taking records out of a reply\<close>

text \<open>The fixed part of a record behind its name: type, class, time to live, the index of the data and the
  index behind it.  A time to live above the limit is rewritten in the packet.\<close>

definition answer_header :: "exenv \<Rightarrow> bool \<Rightarrow> nat \<Rightarrow> bytes \<Rightarrow> (u16 \<times> u16 \<times> u32 \<times> nat \<times> nat \<times> bytes) option" where
  "answer_header env is_sign p msg = do {
     aqtype \<leftarrow> peek16 msg p; aqclass \<leftarrow> peek16 msg (p + 2); attl \<leftarrow> peek32 msg (p + 4);
     m \<leftarrow> (if ee_max_ttl env \<noteq> 0 \<and> attl > ee_max_ttl env \<and> \<not> is_sign then poke32 msg (p + 4) (ee_max_ttl env) else Some msg);
     ardlen \<leftarrow> peek16 m (p + 8);
     Some (aqtype, aqclass, attl, p + 10, p + 10 + unat ardlen, m) }"

definition ex_insert :: "exenv \<Rightarrow> bytes option \<Rightarrow> bytes option \<Rightarrow> int \<Rightarrow> u32 \<Rightarrow> u16 \<Rightarrow> exst \<Rightarrow> (nat option \<times> exst) option" where
  "ex_insert env name addr now ttl flags st =
     map_option (\<lambda>(r, s). (r, st\<lparr>ex_cache := s\<rparr>)) (cache_insert (ee_mem env) name addr now ttl flags (ex_cache st))"

text \<open>The answers to a question for a PTR record; \<open>namep\<close> is the index of the name of the question.\<close>

function ptr_loop ::
  "exenv \<Rightarrow> nat \<Rightarrow> bool \<Rightarrow> int \<Rightarrow> nat \<Rightarrow> bytes \<Rightarrow> u16 \<Rightarrow> nat \<Rightarrow> nat \<Rightarrow> nat \<Rightarrow> u32 \<Rightarrow> bool \<Rightarrow> exst \<Rightarrow> (bool option \<times> bool \<times> exst) option" where
  "ptr_loop env qlen is_sign now namep addr enc cc j p1 cttl fnd st =
     (if j = 0 then Some (None, fnd, st)
      else
        (case extract_name (ex_msg st) qlen namep (ex_name st) True 0 of
           None \<Rightarrow> None
         | Some (r0, n0, _) \<Rightarrow>
             if r0 = 0 then Some (Some False, fnd, st\<lparr>ex_name := n0\<rparr>)
             else (case extract_name (ex_msg st) qlen p1 n0 False 10 of
               None \<Rightarrow> None
             | Some (res, n1, p2) \<Rightarrow>
                 if res = 0 then Some (Some False, fnd, st\<lparr>ex_name := n1\<rparr>)
                 else (case answer_header env is_sign p2 (ex_msg st) of
                   None \<Rightarrow> None
                 | Some (aqtype, aqclass, attl, p3, endrr, m) \<Rightarrow>
                     let cttl' = (if attl < cttl then attl else cttl) in
                     if aqclass = C_IN \<and> res \<noteq> 2 \<and> (aqtype = T_CNAME \<or> aqtype = T_PTR) then
                       (case extract_name m qlen p3 n1 True 0 of
                          None \<Rightarrow> None
                        | Some (r2, n2, _) \<Rightarrow>
                            let st2 = st\<lparr>ex_msg := m, ex_name := n2\<rparr> in
                            if r2 = 0 then Some (Some False, fnd, st2)
                            else if aqtype = T_CNAME then
                              (if cc = 0 then Some (Some False, fnd, st2)
                               else (case skip_questions m qlen of
                                 None \<Rightarrow> None
                               | Some None \<Rightarrow> Some (Some False, fnd, st2)
                               | Some (Some p) \<Rightarrow>
                                   (case ancount m of
                                      None \<Rightarrow> None
                                    | Some an \<Rightarrow> ptr_loop env qlen is_sign now namep addr enc (cc - 1) (unat an) p cttl' fnd st2)))
                            else
                              (case ex_insert env (Some (buf_str n2)) (Some addr) now cttl' (enc OR CF_REVERSE) st2 of
                                 None \<Rightarrow> None
                               | Some (_, st3) \<Rightarrow>
                                   if \<not> CHECK_LEN endrr qlen 0 then Some (Some False, True, st3)
                                   else ptr_loop env qlen is_sign now namep addr enc cc (j - 1) endrr cttl' True st3))
                     else if \<not> CHECK_LEN endrr qlen 0 then Some (Some False, fnd, st\<lparr>ex_msg := m, ex_name := n1\<rparr>)
                     else ptr_loop env qlen is_sign now namep addr enc cc (j - 1) endrr cttl' fnd (st\<lparr>ex_msg := m, ex_name := n1\<rparr>)))))"
  by pat_completeness auto
termination
  by (relation "measures [\<lambda>(env, qlen, is_sign, now, namep, addr, enc, cc, j, p1, cttl, fnd, st). cc,
        \<lambda>(env, qlen, is_sign, now, namep, addr, enc, cc, j, p1, cttl, fnd, st). j]") auto

declare ptr_loop.simps [simp del]

definition set_alias :: "nat \<Rightarrow> nat option \<Rightarrow> exst \<Rightarrow> exst" where
  "set_alias c target st =
     (let s = ex_cache st in
      st\<lparr>ex_cache := s\<lparr>recs := (recs s)(c := (recs s c)\<lparr>cn_cache := target,
        cn_uid := (case target of None \<Rightarrow> cn_uid (recs s c) | Some t \<Rightarrow> c_uid (recs s t))\<rparr>)\<rparr>\<rparr>)"

text \<open>\<open>if (newc && cpp) cpp->addr.cname... = newc...\<close>\<close>

definition link_alias :: "nat option \<Rightarrow> nat option \<Rightarrow> exst \<Rightarrow> exst" where
  "link_alias cpp newc st = (case (cpp, newc) of (Some c, Some n) \<Rightarrow> set_alias c (Some n) st | _ \<Rightarrow> st)"

text \<open>The answers to a question for an address.\<close>

function addr_loop ::
  "exenv \<Rightarrow> nat \<Rightarrow> bool \<Rightarrow> bool \<Rightarrow> int \<Rightarrow> u16 \<Rightarrow> u16 \<Rightarrow> nat \<Rightarrow> nat \<Rightarrow> nat \<Rightarrow> u32 \<Rightarrow> nat option \<Rightarrow> bool \<Rightarrow> exst \<Rightarrow>
   (bool option \<times> bool \<times> nat option \<times> u32 \<times> exst) option" where
  "addr_loop env qlen is_sign check_rebind now qtype flags cc j p1 cttl cpp fnd st =
     (if j = 0 then Some (None, fnd, cpp, cttl, st)
      else
        (case extract_name (ex_msg st) qlen p1 (ex_name st) False 10 of
           None \<Rightarrow> None
         | Some (res, n1, p2) \<Rightarrow>
             if res = 0 then Some (Some False, fnd, cpp, cttl, st\<lparr>ex_name := n1\<rparr>)
             else (case answer_header env is_sign p2 (ex_msg st) of
               None \<Rightarrow> None
             | Some (aqtype, aqclass, attl, p3, endrr, m) \<Rightarrow>
                 let st1 = st\<lparr>ex_msg := m, ex_name := n1\<rparr> in
                 if aqclass = C_IN \<and> res \<noteq> 2 \<and> aqtype = T_CNAME then
                   (if cc = 0 then Some (Some False, fnd, cpp, cttl, st1)
                    else (case ex_insert env (Some (buf_str n1)) None now attl (CF_CNAME OR CF_FORWARD) st1 of
                      None \<Rightarrow> None
                    | Some (newc, st2) \<Rightarrow>
                        let st3 = (case newc of None \<Rightarrow> st2 | Some c \<Rightarrow> link_alias cpp newc (set_alias c None st2));
                            cttl' = (if attl < cttl then attl else cttl) in
                        (case extract_name m qlen p3 n1 True 0 of
                           None \<Rightarrow> None
                         | Some (r2, n2, _) \<Rightarrow>
                             let st4 = st3\<lparr>ex_name := n2\<rparr> in
                             if r2 = 0 then Some (Some False, fnd, newc, cttl', st4)
                             else (case skip_questions m qlen of
                               None \<Rightarrow> None
                             | Some None \<Rightarrow> Some (Some False, fnd, newc, cttl', st4)
                             | Some (Some p) \<Rightarrow>
                                 (case ancount m of
                                    None \<Rightarrow> None
                                  | Some an \<Rightarrow> addr_loop env qlen is_sign check_rebind now qtype flags (cc - 1) (unat an) p cttl' newc fnd st4)))))
                 else if aqclass = C_IN \<and> res \<noteq> 2 \<and> aqtype = qtype then
                   (if \<not> CHECK_LEN p3 qlen 4 then Some (Some False, True, cpp, cttl, st1)
                    else (case peek32 m p3 of
                      None \<Rightarrow> None
                    | Some a \<Rightarrow>
                        if check_rebind \<and> flags AND CF_IPV4 \<noteq> 0 \<and> private_net a (\<not> ee_local_rebind env)
                        then Some (Some True, True, cpp, cttl, st1)
                        else (case ex_insert env (Some (buf_str n1)) (Some (be32 a)) now attl (flags OR CF_FORWARD) st1 of
                          None \<Rightarrow> None
                        | Some (newc, st2) \<Rightarrow>
                            let st3 = link_alias cpp newc st2 in
                            if \<not> CHECK_LEN endrr qlen 0 then Some (Some False, True, None, cttl, st3)
                            else addr_loop env qlen is_sign check_rebind now qtype flags cc (j - 1) endrr cttl None True st3)))
                 else if \<not> CHECK_LEN endrr qlen 0 then Some (Some False, fnd, cpp, cttl, st1)
                 else addr_loop env qlen is_sign check_rebind now qtype flags cc (j - 1) endrr cttl cpp fnd st1)))"
  by pat_completeness auto
termination
  by (relation "measures [\<lambda>(env, qlen, is_sign, check_rebind, now, qtype, flags, cc, j, p1, cttl, cpp, fnd, st). cc,
        \<lambda>(env, qlen, is_sign, check_rebind, now, qtype, flags, cc, j, p1, cttl, cpp, fnd, st). j]") auto

declare addr_loop.simps [simp del]

text \<open>One question.  The accumulator says whether the SOA record has been searched, and its time to
  live.\<close>

definition soa_ttl :: "exenv \<Rightarrow> nat \<Rightarrow> bool \<times> u32 \<Rightarrow> exst \<Rightarrow> (u32 \<times> exst) option" where
  "soa_ttl env qlen soa st =
     (if fst soa then Some (snd soa, st)
      else map_option (\<lambda>(t, m). (t, st\<lparr>ex_msg := m\<rparr>)) (find_soa (ee_doctors env) (ee_neg_ttl env) None (ex_msg st) qlen))"

definition ptr_question ::
  "exenv \<Rightarrow> nat \<Rightarrow> bool \<Rightarrow> int \<Rightarrow> nat \<Rightarrow> u16 \<Rightarrow> bool \<times> u32 \<Rightarrow> exst \<Rightarrow> (bool option \<times> (bool \<times> u32) \<times> exst) option" where
  "ptr_question env qlen is_sign now namep flags soa st =
     (case in_arpa_name_2_addr (buf_str (ex_name st)) [0, 0, 0, 0] of (enc, addr) \<Rightarrow>
        if enc = 0 then Some (None, soa, st)
        else do {
          (ret, fnd, st1) \<leftarrow>
            (if flags AND CF_NXDOMAIN \<noteq> 0 then Some (None, False, st)
             else do {
               q \<leftarrow> skip_questions (ex_msg st) qlen;
               (case q of
                  None \<Rightarrow> Some (Some False, False, st)
                | Some p \<Rightarrow> do {
                    an \<leftarrow> ancount (ex_msg st);
                    ptr_loop env qlen is_sign now namep addr (ucast enc) 5 (unat an) p 0xffffffff False st }) });
          if ret \<noteq> None \<or> fnd \<or> ee_no_neg env then Some (ret, soa, st1)
          else do {
            (ttl, st2) \<leftarrow> soa_ttl env qlen soa st1;
            if ttl = 0 then Some (None, (True, ttl), st2)
            else do {
              (_, st3) \<leftarrow> ex_insert env None (Some addr) now ttl (ucast enc OR CF_REVERSE OR CF_NEG OR flags) st2;
              Some (None, (True, ttl), st3) } } })"

definition addr_question ::
  "exenv \<Rightarrow> nat \<Rightarrow> bool \<Rightarrow> bool \<Rightarrow> int \<Rightarrow> u16 \<Rightarrow> u16 \<Rightarrow> bool \<times> u32 \<Rightarrow> exst \<Rightarrow> (bool option \<times> (bool \<times> u32) \<times> exst) option" where
  "addr_question env qlen is_sign check_rebind now qtype flags soa st = do {
     (ret, fnd, cpp, cttl, st1) \<leftarrow>
       (if flags AND CF_NXDOMAIN \<noteq> 0 then Some (None, False, None, 0xffffffff, st)
        else do {
          q \<leftarrow> skip_questions (ex_msg st) qlen;
          (case q of
             None \<Rightarrow> Some (Some False, False, None, 0xffffffff, st)
           | Some p \<Rightarrow> do {
               an \<leftarrow> ancount (ex_msg st);
               addr_loop env qlen is_sign check_rebind now qtype flags 5 (unat an) p 0xffffffff None False st }) });
     if ret \<noteq> None \<or> fnd \<or> ee_no_neg env then Some (ret, soa, st1)
     else do {
       (ttl, st2) \<leftarrow> soa_ttl env qlen soa st1;
       if ttl = 0 \<and> cpp = None then Some (None, (True, ttl), st2)
       else do {
         (newc, st3) \<leftarrow> ex_insert env (Some (buf_str (ex_name st2))) None now (if ttl \<noteq> 0 then ttl else cttl) (CF_FORWARD OR CF_NEG OR flags) st2;
         Some (None, (True, ttl), link_alias cpp newc st3) } } }"

fun question_loop :: "exenv \<Rightarrow> nat \<Rightarrow> bool \<Rightarrow> bool \<Rightarrow> int \<Rightarrow> nat \<Rightarrow> nat \<Rightarrow> bool \<times> u32 \<Rightarrow> exst \<Rightarrow> (bool option \<times> exst) option" where
  "question_loop env qlen is_sign check_rebind now 0 p soa st = Some (None, st)"
| "question_loop env qlen is_sign check_rebind now (Suc i) p soa st = do {
     rc \<leftarrow> RCODE (ex_msg st);
     let flags = (if rc = RC_NXDOMAIN then CF_NXDOMAIN else 0);
     (r, n, q) \<leftarrow> extract_name (ex_msg st) qlen p (ex_name st) True 4;
     let st0 = st\<lparr>ex_name := n\<rparr>;
     if r = 0 then Some (Some False, st0)
     else do {
       qtype \<leftarrow> peek16 (ex_msg st) q; qclass \<leftarrow> peek16 (ex_msg st) (q + 2);
       (ret, soa1, st1) \<leftarrow>
         (if qclass \<noteq> C_IN then Some (None, soa, st0)
          else if qtype = T_PTR then ptr_question env qlen is_sign now p flags soa st0
          else if qtype = T_A then addr_question env qlen is_sign check_rebind now qtype (flags OR CF_IPV4) soa st0
          else Some (None, soa, st0));
       if ret \<noteq> None then Some (ret, st1)
       else question_loop env qlen is_sign check_rebind now i (q + 4) soa1 st1 } }"

definition extract_addresses ::
  "exenv \<Rightarrow> nat \<Rightarrow> int \<Rightarrow> bool \<Rightarrow> bool \<Rightarrow> bool \<Rightarrow> exst \<Rightarrow> (bool \<times> exst) option" where
  "extract_addresses env qlen now is_sign check_rebind checking_disabled st = do {
     let st0 = st\<lparr>ex_cache := cache_start_insert (ex_cache st)\<rparr>;
     (soa, st1) \<leftarrow>
       (if ee_doctors env \<noteq> [] \<or> ee_log env
        then map_option (\<lambda>(t, m). ((True, t), st0\<lparr>ex_msg := m\<rparr>)) (find_soa (ee_doctors env) (ee_neg_ttl env) (if ee_log env then Some (ex_name st) else None) (ex_msg st) qlen)
        else Some ((False, 0), st0));
     qd \<leftarrow> qdcount (ex_msg st1);
     (ret, st2) \<leftarrow> question_loop env qlen is_sign check_rebind now (unat qd) 12 soa st1;
     (case ret of
        Some r \<Rightarrow> Some (r, st2)
      | None \<Rightarrow> do {
          hb3 \<leftarrow> peek (ex_msg st2) 2; hb4 \<leftarrow> peek (ex_msg st2) 3;
          Some (False,
            if hb3 AND HB3_TC = 0 \<and> hb4 AND HB4_CD = 0 \<and> hb4 AND HB4_RA \<noteq> 0 \<and> \<not> checking_disabled
            then st2\<lparr>ex_cache := cache_end_insert (ex_cache st2)\<rparr> else st2) }) }"

subsection \<open>Preparing a reply for the client\<close>

text \<open>\<open>check_for_local_domain\<close>; \<open>names\<close> are the names of the records configured by \<open>--naptr-record\<close>,
  \<open>--mx-host\<close>, \<open>--txt-record\<close>, \<open>--interface-name\<close> and \<open>--ptr-record\<close>.\<close>

definition check_for_local_domain :: "bytes list \<Rightarrow> bytes \<Rightarrow> int \<Rightarrow> cst \<Rightarrow> (bool \<times> cst) option" where
  "check_for_local_domain names name now s =
     (case cache_find_by_name None name now (CF_IPV4 OR CF_IPV6 OR CF_CNAME) s of
        None \<Rightarrow> None
      | Some (r, s1) \<Rightarrow>
          Some ((case r of None \<Rightarrow> False | Some a \<Rightarrow> has (CF_HOSTS OR CF_DHCP) (recs s1 a)) \<or> list_ex (strcaseeq name) names, s1))"

record prenv =
  pe_ex :: exenv
  pe_edns_pktsz :: u16
  pe_dnssec :: bool
  pe_bogus :: "u32 list"
  pe_names :: "bytes list"

text \<open>The cache entry for an address of \<open>--bogus-nxdomain\<close>; \<open>F_CONFIG\<close> is the bit 13.\<close>

definition insert_bogus :: "exenv \<Rightarrow> bytes \<Rightarrow> int \<Rightarrow> u32 \<Rightarrow> cst \<Rightarrow> cst option" where
  "insert_bogus env name now ttl s =
     map_option (\<lambda>(_, s1). cache_end_insert s1)
       (cache_insert (ee_mem env) (Some name) None now ttl (CF_IPV4 OR CF_FORWARD OR CF_NEG OR CF_NXDOMAIN OR 0x2000) (cache_start_insert s))"

text \<open>Whether a name that does not exist upstream is known locally, and the answer that it exists.\<close>

definition known_locally :: "prenv \<Rightarrow> nat \<Rightarrow> int \<Rightarrow> byte \<Rightarrow> exst \<Rightarrow> (bool \<times> exst) option" where
  "known_locally pe n now rc st =
     (if rc = RC_NXDOMAIN then do {
        (got, _, buf) \<leftarrow> extract_request (ex_msg st) n (ex_name st);
        if got = 0 then Some (False, st\<lparr>ex_name := buf\<rparr>)
        else do {
          (b, s) \<leftarrow> check_for_local_domain (pe_names pe) (buf_str buf) now (ex_cache st);
          Some (b, st\<lparr>ex_name := buf, ex_cache := s\<rparr>) } }
      else Some (False, st))"

definition answer_exists :: "bytes \<Rightarrow> bytes option" where
  "answer_exists msg = do {
     hb3 \<leftarrow> peek msg 2;
     m1 \<leftarrow> poke msg 2 (hb3 OR HB3_AA);
     set_rcode m1 RC_NOERROR }"

text \<open>What upstream said is replaced: whether the packet was changed, and the new state.\<close>

definition munge_reply :: "prenv \<Rightarrow> nat \<Rightarrow> int \<Rightarrow> bool \<Rightarrow> bool \<Rightarrow> bool \<Rightarrow> exst \<Rightarrow> (bool \<times> exst) option" where
  "munge_reply pe n now is_sign check_rebind checking_disabled st = do {
     rc \<leftarrow> RCODE (ex_msg st);
     bogus \<leftarrow> (if pe_bogus pe \<noteq> [] \<and> rc \<noteq> RC_NXDOMAIN then check_for_bogus_wildcard (ex_msg st) n (ex_name st) (pe_bogus pe) else Some None);
     (case bogus of
        Some (name, ttl) \<Rightarrow> do {
          s \<leftarrow> insert_bogus (pe_ex pe) name now ttl (ex_cache st);
          m \<leftarrow> set_rcode (ex_msg st) RC_NXDOMAIN;
          hb3 \<leftarrow> peek m 2;
          m1 \<leftarrow> poke m 2 (hb3 AND NOT HB3_AA);
          Some (True, st\<lparr>ex_msg := m1, ex_cache := s\<rparr>) }
      | None \<Rightarrow> do {
          (local, st1) \<leftarrow> known_locally pe n now rc st;
          m \<leftarrow> (if local then answer_exists (ex_msg st1) else Some (ex_msg st1));
          (rebind, st2) \<leftarrow> extract_addresses (pe_ex pe) n now is_sign check_rebind checking_disabled (st1\<lparr>ex_msg := m\<rparr>);
          Some (local \<or> rebind, st2) }) }"

text \<open>\<open>process_reply\<close>: the length and the state; the flag tells that the server is marked
  as non-recursive, which happens only while queries are not logged.\<close>

definition process_reply ::
  "prenv \<Rightarrow> int \<Rightarrow> bool \<Rightarrow> nat \<Rightarrow> bool \<Rightarrow> bool \<Rightarrow> exst \<Rightarrow> (nat \<times> bool \<times> exst) option" where
  "process_reply pe now warn n check_rebind checking_disabled st = do {
     (ph, is_sign) \<leftarrow> find_pseudoheader (ex_msg st) n True;
     m1 \<leftarrow> (case ph of
              Some (_, _, sizep) \<Rightarrow>
                if is_sign then Some (ex_msg st)
                else do {
                  sz \<leftarrow> peek16 (ex_msg st) sizep;
                  if sz > pe_edns_pktsz pe then poke16 (ex_msg st) sizep (pe_edns_pktsz pe) else Some (ex_msg st) }
            | None \<Rightarrow> Some (ex_msg st));
     hb4 \<leftarrow> peek m1 3;
     m2 \<leftarrow> (if \<not> is_sign \<and> \<not> pe_dnssec pe then poke m1 3 (hb4 AND NOT HB4_AD) else Some m1);
     opc \<leftarrow> OPCODE m2; rc \<leftarrow> RCODE m2; an \<leftarrow> ancount m2;
     let st1 = st\<lparr>ex_msg := m2\<rparr>;
     if opc \<noteq> 0 \<or> (rc \<noteq> RC_NOERROR \<and> rc \<noteq> RC_NXDOMAIN) then Some (n, False, st1)
     else do {
       let warned = (hb4 AND HB4_RA = 0 \<and> rc = RC_NOERROR \<and> an = 0 \<and> warn \<and> \<not> ee_log (pe_ex pe));
       (munged, st2) \<leftarrow> munge_reply pe n now is_sign check_rebind checking_disabled st1;
       m3 \<leftarrow> (if munged then do { a \<leftarrow> poke16 (ex_msg st2) 6 0; b \<leftarrow> poke16 a 8 0; poke16 b 10 0 } else Some (ex_msg st2));
       (m4, nn) \<leftarrow> resize_packet m3 n (map_option (\<lambda>(p, l, _). take l (drop p m3)) ph);
       Some (nn, warned, st2\<lparr>ex_msg := m4\<rparr>) } }"

subsection \<open>Reading arbitrary packets\<close>

lemma compare_chars_safe:
  assumes "cp + n < length name" and "p + n \<le> length msg"
  shows "\<exists>cp' rv'. compare_chars msg name p n cp rv = Some (cp', rv') \<and> cp' \<le> cp + n"
  using assms
proof (induction n arbitrary: p cp rv)
  case (Suc n)
  have pk: "peek name cp = Some (name ! cp)" "peek msg p = Some (msg ! p)" using Suc.prems by simp_all
  show ?case
  proof (cases "name ! cp = 0")
    case True
    then show ?thesis using Suc.IH [of cp "p + 1" 2] Suc.prems pk by force
  next
    case False
    then show ?thesis using Suc.IH [of "cp + 1" "p + 1" "if tolower (name ! cp) \<noteq> tolower (msg ! p) then 2 else rv"] Suc.prems pk by force
  qed
qed simp

text \<open>Comparing never leaves the packet or the buffer either, and changes nothing.\<close>

lemma extract_loop_compare_safe:
  assumes "pklen \<le> length msg" and "MAXDNAME \<le> length name" and "cp < MAXDNAME" and "\<forall>q. p1 = Some q \<longrightarrow> q \<le> pklen"
  shows "\<exists>r q. extract_loop False msg pklen eb pp name cp p p1 hops rv = Some (r, name, q) \<and> (r \<noteq> 0 \<longrightarrow> q \<le> pklen)"
  using assms
proof (induction False msg pklen eb pp name cp p p1 hops rv rule: extract_loop.induct)
  case (1 msg pklen eb pp name cp p p1 hops rv)
  show ?case
  proof (cases "p < pklen")
    case False
    then show ?thesis by (simp add: extract_loop_short)
  next
    case True
    have le: "pklen \<le> length msg" and pk: "peek msg p = Some (msg ! p)" and cl: "\<not> \<not> CHECK_LEN p pklen 1"
      using "1.prems" True by (simp_all add: CHECK_LEN_def)
    show ?thesis
    proof (cases rule: label_kinds [of "msg ! p"])
      case root
      have "cp < length name" using "1.prems" by linarith
      then show ?thesis using True "1.prems"(4) by (auto simp: extract_loop_root [OF True le root] extract_finish_def Let_def split: option.splits)
    next
      case ptr
      then have t: "msg ! p \<noteq> 0" "msg ! p AND 0xc0 = 0xc0" using is_ptr_ge by (auto simp: is_ptr_def)
      show ?thesis
      proof (cases "p + 1 < pklen \<and> hops < 255")
        case ok: True
        then have lo: "peek msg (p + 1) = Some (msg ! (p + 1))" using le by simp
        have c1: "\<not> \<not> CHECK_LEN (p + 1) pklen 1" using ok by (simp add: CHECK_LEN_def)
        have h1: "\<not> 255 < hops + 1" using ok by simp
        have q: "\<forall>q. (case p1 of None \<Rightarrow> Some (p + 2) | Some q \<Rightarrow> Some q) = Some q \<longrightarrow> q \<le> pklen"
          using ok "1.prems"(4) by (auto split: option.splits)
        show ?thesis
          unfolding extract_loop_ptr [OF True le ptr] if_P [OF ok]
          using "1.hyps"(1) [OF cl pk t c1 lo h1 "1.prems"(1-3) q] by (cases p1) simp_all
      next
        case no: False
        show ?thesis unfolding extract_loop_ptr [OF True le ptr] if_not_P [OF no] by simp
      qed
    next
      case elt
      have "extract_loop False msg pklen eb pp name cp p p1 hops rv = Some (0, name, pp)"
        using cl pk elt by (subst extract_loop.simps) simp
      then show ?thesis by simp
    next
      case label
      have t: "msg ! p AND 0xc0 \<noteq> 0xc0" "msg ! p AND 0xc0 \<noteq> 0x80" "msg ! p AND 0xc0 \<noteq> 0x40"
        unfolding label_type_small(1) [OF label(2)] by simp_all
      show ?thesis
      proof (cases "cp + unat (msg ! p) + 1 < MAXDNAME \<and> p + 1 + unat (msg ! p) \<le> pklen")
        case ok: True
        let ?l = "unat (msg ! p)"
        obtain cp' rv' where c: "compare_chars msg name (p + 1) ?l cp rv = Some (cp', rv')" "cp' \<le> cp + ?l"
          using compare_chars_safe [of cp ?l name "p + 1" msg rv] ok "1.prems" by auto
        have pk': "peek name cp' = Some (name ! cp')" using c(2) ok "1.prems" by simp
        define cp'' rv'' where "cp'' = (if name ! cp' \<noteq> 0 then cp' + 1 else cp')" and
          "rv'' = (if name ! cp' \<noteq> 0 then if name ! cp' \<noteq> 46 then 2 else rv' else rv')"
        have b: "label_body False msg (p + 1) ?l name cp rv = Some (True, name, cp'', rv'')"
          using c(1) pk' by (simp add: label_body_def cp''_def rv''_def)
        have d: "cp'' < MAXDNAME" using c(2) ok by (simp add: cp''_def)
        have l1: "\<not> MAXDNAME \<le> cp + ?l + 1" and l2: "\<not> \<not> CHECK_LEN (p + 1) pklen ?l" using ok by (simp_all add: CHECK_LEN_def)
        show ?thesis
          unfolding extract_loop_label [OF True le label] if_P [OF ok]
          using "1.hyps"(3) [OF cl pk label(1) t l1 l2 b refl refl refl TrueI "1.prems"(1,2) d "1.prems"(4)] b by simp
      next
        case no: False
        show ?thesis unfolding extract_loop_label [OF True le label] if_not_P [OF no] by simp
      qed
    next
      case bad
      then show ?thesis by (simp add: extract_loop_bad [OF True le bad(1,2)])
    qed
  qed
qed

lemma extract_name_compare_safe:
  assumes "pklen \<le> length msg" and "MAXDNAME \<le> length name"
  obtains r q where "extract_name msg pklen p name False eb = Some (r, name, q)" "r \<noteq> 0 \<longrightarrow> q \<le> pklen"
  using extract_loop_compare_safe [OF assms, of 0 None eb p p 0 1] that by (auto simp: extract_name_def MAXDNAME_def)

lemma extract_name_decode_safe:
  assumes "pklen < length msg" and "MAXDNAME \<le> length name"
  obtains r n q where "extract_name msg pklen p name True eb = Some (r, n, q)" "length n = length name"
    "r \<noteq> 0 \<longrightarrow> q \<le> pklen \<and> length (buf_str n) < MAXDNAME"
proof -
  obtain r n q where e: "extract_name msg pklen p name True eb = Some (r, n, q)" "length n = length name"
    "r \<noteq> 0 \<longrightarrow> q \<le> pklen \<and> (\<exists>ls. length (dotted ls) < MAXDNAME \<and> cstr n = Some (name_string ls))"
    using extract_name_total [OF assms, of p eb] by blast
  have "length (buf_str n) < MAXDNAME" if "length (dotted ls) < MAXDNAME" "cstr n = Some (name_string ls)" for ls
  proof -
    have "buf_str n = name_string ls" using that(2) by (auto simp: cstr_def buf_str_def split: if_splits)
    then show ?thesis using that(1) by (simp add: length_name_string)
  qed
  then show thesis using that e by blast
qed

lemma peek16_in: "i + 2 \<le> length m \<Longrightarrow> \<exists>v. peek16 m i = Some v"
  by (simp add: peek16_def)

lemma peek32_in: "i + 4 \<le> length m \<Longrightarrow> \<exists>v. peek32 m i = Some v"
  by (simp add: peek32_def)

lemma poke32_in: "i + 4 \<le> length m \<Longrightarrow> \<exists>m'. poke32 m i v = Some m' \<and> length m' = length m"
  by (simp add: poke32_def poke_list_put)

lemma counts_in:
  "12 \<le> length m \<Longrightarrow> \<exists>v. qdcount m = Some v" "12 \<le> length m \<Longrightarrow> \<exists>v. ancount m = Some v"
  "12 \<le> length m \<Longrightarrow> \<exists>v. nscount m = Some v" "12 \<le> length m \<Longrightarrow> \<exists>v. arcount m = Some v"
  by (simp_all add: count_defs peek16_in)

lemma skip_question_loop_safe: "n \<le> length msg \<Longrightarrow> \<exists>r. skip_question_loop k msg p n = Some r"
proof (induction k arbitrary: p)
  case (Suc k)
  obtain r where r: "skip_name msg p n 4 = Some r" using skip_name_safe [OF Suc.prems, of p 4] by blast
  then show ?case using Suc by (cases r) simp_all
qed simp

lemma skip_questions_safe: "n \<le> length msg \<Longrightarrow> 12 \<le> length msg \<Longrightarrow> \<exists>r. skip_questions msg n = Some r"
  using counts_in(1) [of msg] skip_question_loop_safe [of n msg] by (auto simp: skip_questions_def)

lemma soa_loop_safe: "n \<le> length msg \<Longrightarrow> \<exists>r. soa_loop k msg p n acc = Some r"
proof (induction k arbitrary: p acc)
  case (Suc k)
  obtain r where r: "skip_name msg p n 10 = Some r" "\<forall>e. r = Some e \<longrightarrow> e + 10 \<le> n" using skip_name_safe [OF Suc.prems, of p 10] by blast
  show ?case
  proof (cases r)
    case (Some a)
    then have a: "a + 10 \<le> length msg" using r(2) Suc.prems by simp
    obtain qt qc ttl rd where pk: "peek16 msg a = Some qt" "peek16 msg (a + 2) = Some qc" "peek32 msg (a + 4) = Some ttl" "peek16 msg (a + 8) = Some rd"
      using peek16_in [of a msg] peek16_in [of "a + 2" msg] peek32_in [of "a + 4" msg] peek16_in [of "a + 8" msg] a by auto
    obtain b where b: "skip_name msg (a + 10) n 0 = Some b" using skip_name_safe [OF Suc.prems, of "a + 10" 0] by blast
    have c: "\<exists>r. nbind (skip_name msg x n 20) (\<lambda>c. Option.bind (peek32 msg (c + 16)) (\<lambda>minimum.
        soa_loop k msg (c + 20) n (True, min (min (snd acc) ttl) minimum))) = Some r" for x
    proof -
      obtain c where c: "skip_name msg x n 20 = Some c" "\<forall>e. c = Some e \<longrightarrow> e + 20 \<le> n" using skip_name_safe [OF Suc.prems, of x 20] by blast
      show ?thesis
      proof (cases c)
        case (Some y)
        then obtain v where "peek32 msg (y + 16) = Some v" using c(2) Suc.prems peek32_in [of "y + 16" msg] by auto
        then show ?thesis using c(1) Some Suc by simp
      qed (use c(1) in simp)
    qed
    have "\<exists>r. nbind (skip_name msg (a + 10) n 0) (\<lambda>b. nbind (skip_name msg b n 20) (\<lambda>c. Option.bind (peek32 msg (c + 16)) (\<lambda>minimum.
        soa_loop k msg (c + 20) n (True, min (min (snd acc) ttl) minimum)))) = Some r"
      using b c by (cases b) simp_all
    then show ?thesis using r(1) Some pk Suc by simp
  qed (use r(1) in simp)
qed simp

lemma doctor_loop_safe: "p + 4 \<le> length msg \<Longrightarrow> 12 \<le> length msg \<Longrightarrow> \<exists>m. doctor_loop ds addr msg p = Some m \<and> length m = length msg"
  by (induction ds) (auto simp: poke32_def poke_list_def put_bytes_def be32_def)

lemma do_doctor_safe:
  "n \<le> length msg \<Longrightarrow> 12 \<le> length msg \<Longrightarrow> \<exists>r m. do_doctor k ds n None p msg = Some (r, m, []) \<and> length m = length msg"
proof (induction k arbitrary: p msg)
  case (Suc k)
  obtain r where r: "skip_name msg p n 10 = Some r" "\<forall>e. r = Some e \<longrightarrow> e + 10 \<le> n" using skip_name_safe [OF Suc.prems(1), of p 10] by blast
  show ?case
  proof (cases r)
    case (Some a)
    then have a: "a + 10 \<le> length msg" using r(2) Suc.prems by simp
    obtain qt qc rd where pk: "peek16 msg a = Some qt" "peek16 msg (a + 2) = Some qc" "peek16 msg (a + 8) = Some rd"
      using peek16_in [of a msg] peek16_in [of "a + 2" msg] peek16_in [of "a + 8" msg] a by auto
    have rest: "\<exists>r' m'. do_doctor k ds n None x m = Some (r', m', []) \<and> length m' = length msg" if "length m = length msg" for m x
      using Suc.IH [of m x] Suc.prems that by simp
    have "\<exists>v m. peek32 msg (a + 10) = Some v \<and> doctor_loop ds v msg (a + 10) = Some m \<and> length m = length msg" if "CHECK_LEN (a + 10) n INADDRSZ"
      using that Suc.prems peek32_in [of "a + 10" msg] doctor_loop_safe [of "a + 10" msg] by (fastforce simp: CHECK_LEN_def INADDRSZ_def)
    then show ?thesis using r(1) Some pk rest Suc.prems by (fastforce simp: Let_def)
  qed (use r(1) in simp)
qed simp

lemma find_soa_safe:
  assumes "n \<le> length msg" "12 \<le> length msg"
  shows "\<exists>t m. find_soa ds neg None msg n = Some (t, m) \<and> length m = length msg"
proof -
  obtain q where q: "skip_questions msg n = Some q" using skip_questions_safe [OF assms] by blast
  obtain an where c: "ancount msg = Some an" using counts_in [OF assms(2)] by blast
  show ?thesis
  proof (cases q)
    case (Some p)
    obtain r m1 where r: "do_doctor (unat an) ds n None p msg = Some (r, m1, [])" "length m1 = length msg" using do_doctor_safe [OF assms] by blast
    obtain ns ar where c1: "nscount m1 = Some ns" "arcount m1 = Some ar" using counts_in [of m1] assms(2) r(2) by auto
    show ?thesis
    proof (cases r)
      case r1: (Some p1)
      obtain t where t: "soa_loop (unat ns) m1 p1 n (False, 0xffffffff) = Some t" using soa_loop_safe [of n m1 "unat ns" p1 "(False, 0xffffffff)"] assms(1) r(2) by auto
      show ?thesis
      proof (cases t)
        case t1: (Some x)
        obtain p2 fnd m where x: "x = (p2, fnd, m)" by (cases x)
        obtain r2 m2 where "do_doctor (unat ar) ds n None p2 m1 = Some (r2, m2, [])" "length m2 = length m1"
          using do_doctor_safe [of n m1 "unat ar" ds p2] assms r(2) by auto
        then show ?thesis using q c c1 Some r r1 t t1 x by (cases r2) (simp_all add: find_soa_def)
      qed (use q c c1 Some r r1 t in \<open>simp add: find_soa_def\<close>)
    qed (use q c c1 Some r in \<open>simp add: find_soa_def\<close>)
  qed (use q in \<open>simp add: find_soa_def\<close>)
qed

subsection \<open>The pending records\<close>

text \<open>\<open>Q\<close> holds of every record that waits to be committed, unless the insertion has failed and will
  not be committed; the table holds nothing but records of the cache \<open>B\<close> from before.  The packet buffer has room for the fixed part of a record behind the packet.  The name
  buffer holds a string, except after a name that could not be decoded.\<close>

definition str_ok :: "exst \<Rightarrow> bool" where
  "str_ok st \<longleftrightarrow> length (buf_str (ex_name st)) < MAXDNAME"

definition same_data :: "crec \<Rightarrow> crec \<Rightarrow> bool" where
  "same_data c d \<longleftrightarrow> c_flags c = c_flags d \<and> c_name c = c_name d \<and> c_addr c = c_addr d \<and> c_ttd c = c_ttd d"

definition ex_ok :: "(crec \<Rightarrow> bool) \<Rightarrow> cst \<Rightarrow> nat \<Rightarrow> exst \<Rightarrow> bool" where
  "ex_ok Q B qlen st \<longleftrightarrow> qlen + 16 \<le> length (ex_msg st) \<and> MAXDNAME \<le> length (ex_name st) \<and>
     cache_inv (ex_cache st) \<and> (insert_error (ex_cache st) \<or> (\<forall>a \<in> set (new_ch (ex_cache st)). Q (recs (ex_cache st) a))) \<and>
     (\<forall>a. in_table (ex_cache st) a \<longrightarrow> in_table B a \<and> same_data (recs (ex_cache st) a) (recs B a))"

lemma ex_okD:
  assumes "ex_ok Q B qlen st"
  shows "qlen < length (ex_msg st)" "qlen \<le> length (ex_msg st)" "12 \<le> length (ex_msg st)" "MAXDNAME \<le> length (ex_name st)"
    "cache_inv (ex_cache st)"
  using assms by (simp_all add: ex_ok_def)

lemma ex_ok_upd:
  assumes "ex_ok Q B qlen st" and "length m = length (ex_msg st)" and "length n = length (ex_name st)"
  shows "ex_ok Q B qlen (st\<lparr>ex_msg := m, ex_name := n\<rparr>)"
  using assms by (simp add: ex_ok_def)

text \<open>What an insertion writes makes \<open>Q\<close> true.\<close>

definition writes :: "(crec \<Rightarrow> bool) \<Rightarrow> bytes option \<Rightarrow> bytes option \<Rightarrow> u16 \<Rightarrow> bool" where
  "writes Q name addr flags \<longleftrightarrow> insertable flags \<and> (flags AND CF_FORWARD \<noteq> 0 \<longrightarrow> name \<noteq> None) \<and>
     (\<forall>c now ttl. inserted_rec c name addr now ttl flags \<longrightarrow> Q c)"

lemma ex_insert_ok:
  assumes ok: "ex_ok Q B qlen st" and w: "writes Q name addr flags" and len: "\<forall>n. name = Some n \<longrightarrow> length n < MAXDNAME"
  obtains r st' where "ex_insert env name addr now ttl flags st = Some (r, st')" "ex_ok Q B qlen st'" "ex_msg st' = ex_msg st" "ex_name st' = ex_name st"
proof -
  let ?s = "ex_cache st"
  have p: "insertable flags" "flags AND CF_FORWARD \<noteq> 0 \<longrightarrow> name \<noteq> None" using w by (simp_all add: writes_def)
  obtain r s' where i: "cache_insert (ee_mem env) name addr now ttl flags ?s = Some (r, s')" "cache_inv s'"
     "r = None \<longrightarrow> insert_error s'"
     "\<forall>a. r = Some a \<longrightarrow> \<not> insert_error s' \<and> new_ch s' = a # new_ch ?s \<and>
        inserted_rec (recs s' a) name addr now (clamp_ttl (max_cache_ttl ?s) ttl) flags \<and> (\<forall>b \<in> set (new_ch ?s). recs s' b = recs ?s b)"
     "\<forall>b. in_table s' b \<longrightarrow> in_table ?s b \<and> recs s' b = recs ?s b"
    using cache_insert_post [OF ex_okD(5) [OF ok] p len, of "ee_mem env" addr now ttl]
    by (elim exE conjE) (rule that, assumption+, simp, auto split: option.splits)
  have ie: "\<not> insert_error ?s" if "r = Some a" for a using i(1) that by (auto simp: cache_insert_def)
  have "ex_ok Q B qlen (st\<lparr>ex_cache := s'\<rparr>)"
    using ok i(2-5) ie w by (cases r) (auto simp: ex_ok_def writes_def)
  then show thesis using that [of r "st\<lparr>ex_cache := s'\<rparr>"] i(1) by (simp add: ex_insert_def)
qed

text \<open>Pointers between aliases matter neither to the invariant nor to \<open>Q\<close>.\<close>

definition alias_blind :: "(crec \<Rightarrow> bool) \<Rightarrow> bool" where
  "alias_blind Q \<longleftrightarrow> (\<forall>c x u. Q (c\<lparr>cn_cache := x, cn_uid := u\<rparr>) = Q c)"

lemma cache_inv_fields:
  assumes "\<And>b. c_flags (rs b) = c_flags (recs s b)" and "\<And>b. c_name (rs b) = c_name (recs s b)"
  shows "cache_inv (s\<lparr>recs := rs\<rparr>) = cache_inv s"
proof -
  have h: "has m (rs b) = has m (recs s b)" for m b by (simp add: has_def assms)
  have "fixed_rec (rs b) = fixed_rec (recs s b)" "chain_class (rs b) = chain_class (recs s b)" for b
    by (simp_all add: fixed_rec_def chain_class_def h)
  then show ?thesis by (simp add: cache_inv_def cinv_def chain_ok_def h assms(2))
qed

lemma cache_inv_alias: "cache_inv (s\<lparr>recs := (recs s)(a := (recs s a)\<lparr>cn_cache := x, cn_uid := u\<rparr>)\<rparr>) = cache_inv s"
  by (rule cache_inv_fields) simp_all

lemma ex_ok_set_alias:
  assumes "alias_blind Q" and "ex_ok Q B qlen st"
  shows "ex_ok Q B qlen (set_alias c x st)" "ex_msg (set_alias c x st) = ex_msg st" "ex_name (set_alias c x st) = ex_name st"
  using assms by (auto simp: ex_ok_def set_alias_def cache_inv_alias alias_blind_def in_table_def same_data_def Let_def)

lemma ex_ok_link_alias:
  assumes "alias_blind Q" and "ex_ok Q B qlen st"
  shows "ex_ok Q B qlen (link_alias cpp newc st)" "ex_msg (link_alias cpp newc st) = ex_msg st" "ex_name (link_alias cpp newc st) = ex_name st"
  using ex_ok_set_alias [OF assms] assms(2) by (auto simp: link_alias_def split: option.splits)

lemma answer_header_safe:
  assumes "p + 10 \<le> length m"
  obtains t c ttl rd m' where "answer_header env sg p m = Some (t, c, ttl, p + 10, p + 10 + unat (rd :: u16), m')" "length m' = length m"
proof -
  obtain t c ttl where pk: "peek16 m p = Some t" "peek16 m (p + 2) = Some c" "peek32 m (p + 4) = Some ttl"
    using peek16_in [of p m] peek16_in [of "p + 2" m] peek32_in [of "p + 4" m] assms by auto
  obtain m' where m': "(if ee_max_ttl env \<noteq> 0 \<and> ttl > ee_max_ttl env \<and> \<not> sg then poke32 m (p + 4) (ee_max_ttl env) else Some m) = Some m'" "length m' = length m"
    using poke32_in [of "p + 4" m "ee_max_ttl env"] assms by (cases "ee_max_ttl env \<noteq> 0 \<and> ttl > ee_max_ttl env \<and> \<not> sg") auto
  obtain rd where "peek16 m' (p + 8) = Some rd" using peek16_in [of "p + 8" m'] assms m'(2) by auto
  then show thesis using that [of t c ttl rd m'] pk m' by (simp add: answer_header_def)
qed

subsection \<open>Every packet is taken in safely\<close>

abbreviation safe_result :: "(crec \<Rightarrow> bool) \<Rightarrow> cst \<Rightarrow> nat \<Rightarrow> bool option \<Rightarrow> exst \<Rightarrow> bool" where
  "safe_result Q B qlen ret st \<equiv> ex_ok Q B qlen st \<and> (ret = None \<longrightarrow> str_ok st)"

lemma ptr_loop_ok:
  assumes "ex_ok Q B qlen st" and "str_ok st" and w: "\<And>n. writes Q (Some n) (Some addr) (enc OR CF_REVERSE)"
  shows "\<exists>ret fnd' st'. ptr_loop env qlen sg now namep addr enc cc j p1 cttl fnd st = Some (ret, fnd', st') \<and> safe_result Q B qlen ret st'"
  using assms(1,2)
proof (induction cc arbitrary: j p1 cttl fnd st rule: less_induct)
  case (less cc)
  note restart = less.IH
  from less.prems show ?case
  proof (induction j arbitrary: p1 cttl fnd st)
    case 0
    then show ?case by (subst ptr_loop.simps) simp
  next
    case (Suc j)
    note o = ex_okD [OF Suc.prems(1)]
    obtain r0 n0 q0 where e0: "extract_name (ex_msg st) qlen namep (ex_name st) True 0 = Some (r0, n0, q0)" "length n0 = length (ex_name st)"
        "r0 \<noteq> 0 \<longrightarrow> q0 \<le> qlen \<and> length (buf_str n0) < MAXDNAME"
      by (rule extract_name_decode_safe [OF o(1,4), of namep 0])
    have m0: "MAXDNAME \<le> length n0" using o(4) e0(2) by simp
    obtain res p2 where e1: "extract_name (ex_msg st) qlen p1 n0 False 10 = Some (res, n0, p2)" "res \<noteq> 0 \<longrightarrow> p2 \<le> qlen"
      by (rule extract_name_compare_safe [OF o(2) m0, of p1 10])
    show ?case
    proof (cases "r0 = 0 \<or> res = 0")
      case True
      have "ex_ok Q B qlen (st\<lparr>ex_name := n0\<rparr>)" using ex_ok_upd [OF Suc.prems(1) refl e0(2)] by simp
      then show ?thesis using True e0 e1 by (subst ptr_loop.simps) auto
    next
      case ok: False
      have pr: "p2 + 10 \<le> length (ex_msg st)" using e1(2) ok Suc.prems(1) by (simp add: ex_ok_def)
      obtain t c ttl rd m where h: "answer_header env sg p2 (ex_msg st) = Some (t, c, ttl, p2 + 10, p2 + 10 + unat (rd :: u16), m)" "length m = length (ex_msg st)"
        by (rule answer_header_safe [OF pr])
      define cttl' where "cttl' = (if ttl < cttl then ttl else cttl)"
      have lm: "qlen < length m" using o(1) h(2) by simp
      obtain r2 n2 q2 where e2: "extract_name m qlen (p2 + 10) n0 True 0 = Some (r2, n2, q2)" "length n2 = length n0"
          "r2 \<noteq> 0 \<longrightarrow> q2 \<le> qlen \<and> length (buf_str n2) < MAXDNAME"
        by (rule extract_name_decode_safe [OF lm m0, of "p2 + 10" 0])
      define st2 where "st2 = st\<lparr>ex_msg := m, ex_name := n2\<rparr>"
      have ok2: "ex_ok Q B qlen st2" using ex_ok_upd [OF Suc.prems(1) h(2), of n2] e0(2) e2(2) by (simp add: st2_def)
      define st1 where "st1 = st\<lparr>ex_msg := m, ex_name := n0\<rparr>"
      have ok1: "ex_ok Q B qlen st1" "str_ok st1" using ex_ok_upd [OF Suc.prems(1) h(2) e0(2)] e0(3) ok by (simp_all add: st1_def str_ok_def)
      note run = ptr_loop.simps [of env qlen sg now namep addr enc cc "Suc j" p1 cttl fnd st]
      show ?thesis
      proof (cases "c = C_IN \<and> res \<noteq> 2 \<and> (t = T_CNAME \<or> t = T_PTR)")
        case False
        show ?thesis
        proof (cases "CHECK_LEN (p2 + 10 + unat rd) qlen 0")
          case True
          from Suc.IH [OF ok1, of "p2 + 10 + unat rd" cttl' fnd] show ?thesis
            unfolding run using e0 e1 h ok False True by (auto simp: cttl'_def [symmetric] st1_def [symmetric])
        next
          case no: False
          then show ?thesis unfolding run using e0 e1 h ok False ok1 by (auto simp: st1_def [symmetric])
        qed
      next
        case hit: True
        show ?thesis
        proof (cases "r2 = 0")
          case True
          then show ?thesis unfolding run using e0 e1 h ok hit e2 ok2 by (simp add: st2_def [symmetric])
        next
          case r2: False
          have s2: "str_ok st2" using e2(3) r2 by (simp add: str_ok_def st2_def)
          have sn: "length (buf_str n2) < MAXDNAME" using e2(3) r2 by simp
          show ?thesis
          proof (cases "t = T_CNAME")
            case cn: True
            have lm2: "qlen \<le> length m" "12 \<le> length m" using o h(2) by simp_all
            obtain q where q: "skip_questions m qlen = Some q" using skip_questions_safe [OF lm2] by blast
            obtain an where an: "ancount m = Some an" using counts_in(2) [OF lm2(2)] by blast
            show ?thesis
            proof (cases "cc = 0 \<or> q = None")
              case True
              then show ?thesis unfolding run using e0 e1 h ok hit e2 ok2 r2 cn q by (auto simp: st2_def [symmetric])
            next
              case False
              then obtain p where p: "q = Some p" "cc - 1 < cc" by auto
              from restart [OF p(2) ok2 s2, of "unat an" p cttl' fnd] show ?thesis
                unfolding run using e0 e1 h ok hit e2 r2 cn q p an False by (simp add: st2_def [symmetric] cttl'_def [symmetric])
            qed
          next
            case cn: False
            obtain r3 st3 where i: "ex_insert env (Some (buf_str n2)) (Some addr) now cttl' (enc OR CF_REVERSE) st2 = Some (r3, st3)"
                "ex_ok Q B qlen st3" "ex_name st3 = ex_name st2"
              by (rule ex_insert_ok [OF ok2 w, of "buf_str n2"]) (use sn in simp)
            have s3: "str_ok st3" using s2 i(3) by (simp add: str_ok_def)
            show ?thesis
            proof (cases "CHECK_LEN (p2 + 10 + unat rd) qlen 0")
              case True
              from Suc.IH [OF i(2) s3, of "p2 + 10 + unat rd" cttl' True] show ?thesis
                unfolding run using e0 e1 h ok hit e2 r2 cn i(1) True by (simp add: st2_def [symmetric] cttl'_def [symmetric])
            next
              case False
              then show ?thesis unfolding run using e0 e1 h ok hit e2 r2 cn i(1,2) by (auto simp: st2_def [symmetric] cttl'_def [symmetric])
            qed
          qed
        qed
      qed
    qed
  qed
qed

text \<open>What the records of a reply satisfy: when addresses are checked, no address handed out is in
  private space.\<close>

definition public_rec :: "bool \<Rightarrow> bool \<Rightarrow> crec \<Rightarrow> bool" where
  "public_rec chk ban c \<longleftrightarrow>
     (chk \<and> has CF_IPV4 c \<and> has CF_FORWARD c \<and> \<not> has CF_NEG c \<longrightarrow> (\<exists>a. c_addr c = be32 a \<and> \<not> private_net a ban))"

lemma public_rec_blind: "alias_blind (public_rec chk ban)"
  by (simp add: alias_blind_def public_rec_def has_def)

lemma writes_public:
  assumes "insertable flags" and "flags AND CF_FORWARD \<noteq> 0 \<longrightarrow> name \<noteq> None"
    and "chk \<and> flags AND CF_IPV4 \<noteq> 0 \<and> flags AND CF_FORWARD \<noteq> 0 \<and> flags AND CF_NEG = 0 \<longrightarrow> (\<exists>a. addr = Some (be32 a) \<and> \<not> private_net a ban)"
  shows "writes (public_rec chk ban) name addr flags"
proof -
  have "public_rec chk ban c" if i: "inserted_rec c name addr now ttl flags" for c now ttl
  proof -
    have h: "m AND CF_BIGNAME = 0 \<Longrightarrow> has m c \<longleftrightarrow> flags AND m \<noteq> 0" for m
      by (rule has_inserted) (use i in \<open>simp_all add: inserted_rec_def\<close>)
    have "has CF_IPV4 c \<longleftrightarrow> flags AND CF_IPV4 \<noteq> 0" "has CF_FORWARD c \<longleftrightarrow> flags AND CF_FORWARD \<noteq> 0" "has CF_NEG c \<longleftrightarrow> flags AND CF_NEG \<noteq> 0"
      by (rule h; simp add: cf_defs)+
    then show ?thesis using assms(3) i by (auto simp: public_rec_def inserted_rec_def)
  qed
  then show ?thesis using assms(1,2) by (simp add: writes_def)
qed

lemma addr_loop_ok:
  fixes chk ban :: bool
  defines "Q \<equiv> public_rec chk ban"
  assumes "ex_ok Q B qlen st" and "str_ok st" and ban: "ban = (\<not> ee_local_rebind env)" and fl: "flags = CF_IPV4"
  shows "\<exists>ret fnd' cpp' cttl' st'. addr_loop env qlen sg chk now qtype flags cc j p1 cttl cpp fnd st = Some (ret, fnd', cpp', cttl', st') \<and> safe_result Q B qlen ret st'"
  using assms(2,3)
proof (induction cc arbitrary: j p1 cttl cpp fnd st rule: less_induct)
  case (less cc)
  note restart = less.IH
  have blind: "alias_blind Q" by (simp add: Q_def public_rec_blind)
  from less.prems show ?case
  proof (induction j arbitrary: p1 cttl cpp fnd st)
    case 0
    then show ?case by (subst addr_loop.simps) simp
  next
    case (Suc j)
    note o = ex_okD [OF Suc.prems(1)]
    note run = addr_loop.simps [of env qlen sg chk now qtype flags cc "Suc j" p1 cttl cpp fnd st]
    obtain res p2 where e1: "extract_name (ex_msg st) qlen p1 (ex_name st) False 10 = Some (res, ex_name st, p2)" "res \<noteq> 0 \<longrightarrow> p2 \<le> qlen"
      by (rule extract_name_compare_safe [OF o(2,4), of p1 10])
    show ?case
    proof (cases "res = 0")
      case True
      then show ?thesis unfolding run using e1 Suc.prems by auto
    next
      case ok: False
      have pr: "p2 + 10 \<le> length (ex_msg st)" using e1(2) ok Suc.prems(1) by (simp add: ex_ok_def)
      obtain t c ttl rd m where h: "answer_header env sg p2 (ex_msg st) = Some (t, c, ttl, p2 + 10, p2 + 10 + unat (rd :: u16), m)" "length m = length (ex_msg st)"
        by (rule answer_header_safe [OF pr])
      define st1 where "st1 = st\<lparr>ex_msg := m\<rparr>"
      have ok1: "ex_ok Q B qlen st1" "str_ok st1" using ex_ok_upd [OF Suc.prems(1) h(2) refl] Suc.prems(2) by (simp_all add: st1_def str_ok_def)
      have sn: "length (buf_str (ex_name st)) < MAXDNAME" using Suc.prems(2) by (simp add: str_ok_def)
      consider (cnm) "c = C_IN" "res \<noteq> 2" "t = T_CNAME" | (addr) "c = C_IN" "res \<noteq> 2" "t = qtype" "t \<noteq> T_CNAME"
        | (other) "\<not> (c = C_IN \<and> res \<noteq> 2 \<and> t = T_CNAME)" "\<not> (c = C_IN \<and> res \<noteq> 2 \<and> t = qtype)" by blast
      then show ?thesis
      proof cases
        case other
        have tail: "addr_loop env qlen sg chk now qtype flags cc (Suc j) p1 cttl cpp fnd st =
            (if \<not> CHECK_LEN (p2 + 10 + unat rd) qlen 0 then Some (Some False, fnd, cpp, cttl, st1)
             else addr_loop env qlen sg chk now qtype flags cc j (p2 + 10 + unat rd) cttl cpp fnd st1)"
          unfolding run using e1 h ok by (simp add: if_not_P [OF other(1)] if_not_P [OF other(2)] st1_def Let_def del: de_Morgan_conj)
        show ?thesis
        proof (cases "CHECK_LEN (p2 + 10 + unat rd) qlen 0")
          case True
          from Suc.IH [OF ok1, of "p2 + 10 + unat rd" cttl cpp fnd] show ?thesis unfolding tail using True by simp
        next
          case False
          then show ?thesis unfolding tail using ok1 by auto
        qed
      next
        case cnm
        have w: "writes Q (Some (buf_str (ex_name st))) None (CF_CNAME OR CF_FORWARD)"
          unfolding Q_def by (rule writes_public) (simp_all add: insertable_def cf_defs)
        show ?thesis
        proof (cases "cc = 0")
          case True
          then show ?thesis unfolding run using e1 h ok cnm ok1 by (auto simp: st1_def [symmetric])
        next
          case cc: False
          obtain newc st2 where i: "ex_insert env (Some (buf_str (ex_name st))) None now ttl (CF_CNAME OR CF_FORWARD) st1 = Some (newc, st2)"
              "ex_ok Q B qlen st2" "ex_msg st2 = m" "ex_name st2 = ex_name st"
            by (rule ex_insert_ok [OF ok1(1) w]) (use sn in \<open>auto simp: st1_def\<close>)
          define st3 where "st3 = (case newc of None \<Rightarrow> st2 | Some x \<Rightarrow> link_alias cpp newc (set_alias x None st2))"
          have ok3: "ex_ok Q B qlen st3" "ex_msg st3 = m" "ex_name st3 = ex_name st"
            using i(2-4) ex_ok_set_alias [OF blind i(2)] ex_ok_link_alias [OF blind ex_ok_set_alias(1) [OF blind i(2)]]
            by (auto simp: st3_def split: option.splits)
          define cttl' where "cttl' = (if ttl < cttl then ttl else cttl)"
          have lm: "qlen < length m" "qlen \<le> length m" "12 \<le> length m" using o h(2) by simp_all
          obtain r2 n2 q2 where e2: "extract_name m qlen (p2 + 10) (ex_name st) True 0 = Some (r2, n2, q2)" "length n2 = length (ex_name st)"
              "r2 \<noteq> 0 \<longrightarrow> q2 \<le> qlen \<and> length (buf_str n2) < MAXDNAME"
            by (rule extract_name_decode_safe [OF lm(1) o(4), of "p2 + 10" 0])
          define st4 where "st4 = st3\<lparr>ex_name := n2\<rparr>"
          have ok4: "ex_ok Q B qlen st4" using ok3 e2(2) o(4) by (simp add: ex_ok_def st4_def)
          obtain q where q: "skip_questions m qlen = Some q" using skip_questions_safe [OF lm(2,3)] by blast
          obtain an where an: "ancount m = Some an" using counts_in(2) [OF lm(3)] by blast
          have tail: "addr_loop env qlen sg chk now qtype flags cc (Suc j) p1 cttl cpp fnd st =
              (if r2 = 0 \<or> q = None then Some (Some False, fnd, newc, cttl', st4)
               else addr_loop env qlen sg chk now qtype flags (cc - 1) (unat an) (the q) cttl' newc fnd st4)"
            unfolding run using e1 h ok cnm cc i(1) e2(1) q an
            by (cases q) (simp_all add: st1_def [symmetric] st3_def [symmetric] st4_def [symmetric] cttl'_def [symmetric] Let_def)
          show ?thesis
          proof (cases "r2 = 0 \<or> q = None")
            case True
            then show ?thesis unfolding tail using ok4 by auto
          next
            case False
            then have s4: "str_ok st4" using e2(3) by (simp add: str_ok_def st4_def)
            have "cc - 1 < cc" using cc by simp
            from restart [OF this ok4 s4, of "unat an" "the q" cttl' newc fnd] show ?thesis unfolding tail using False by auto
          qed
        qed
      next
        case addr
        show ?thesis
        proof (cases "CHECK_LEN (p2 + 10) qlen 4")
          case False
          then show ?thesis unfolding run using e1 h ok addr ok1 by (auto simp: st1_def [symmetric])
        next
          case len: True
          have "p2 + 10 + 4 \<le> length m" using len o h(2) by (simp add: CHECK_LEN_def)
          then obtain a where a: "peek32 m (p2 + 10) = Some a" using peek32_in [of "p2 + 10" m] by auto
          show ?thesis
          proof (cases "chk \<and> flags AND CF_IPV4 \<noteq> 0 \<and> private_net a (\<not> ee_local_rebind env)")
            case True
            then show ?thesis unfolding run using e1 h ok addr ok1 len a by (auto simp: st1_def [symmetric])
          next
            case pub: False
            have w: "writes Q (Some (buf_str (ex_name st))) (Some (be32 a)) (flags OR CF_FORWARD)"
              unfolding Q_def by (rule writes_public) (use pub ban in \<open>auto simp: fl insertable_def cf_defs\<close>)
            obtain newc st2 where i: "ex_insert env (Some (buf_str (ex_name st))) (Some (be32 a)) now ttl (flags OR CF_FORWARD) st1 = Some (newc, st2)"
                "ex_ok Q B qlen st2" "ex_msg st2 = m" "ex_name st2 = ex_name st"
              by (rule ex_insert_ok [OF ok1(1) w]) (use sn in \<open>auto simp: st1_def\<close>)
            define st3 where "st3 = link_alias cpp newc st2"
            have ok3: "ex_ok Q B qlen st3" "str_ok st3" using ex_ok_link_alias [OF blind i(2), of cpp newc] i(4) sn by (simp_all add: st3_def str_ok_def)
            have tail: "addr_loop env qlen sg chk now qtype flags cc (Suc j) p1 cttl cpp fnd st =
               (if \<not> CHECK_LEN (p2 + 10 + unat rd) qlen 0 then Some (Some False, True, None, cttl, st3)
                else addr_loop env qlen sg chk now qtype flags cc j (p2 + 10 + unat rd) cttl None True st3)"
              unfolding run using e1 h ok addr len a pub i(1)
              by (auto simp: st1_def [symmetric] st3_def [symmetric] Let_def)
            show ?thesis
            proof (cases "CHECK_LEN (p2 + 10 + unat rd) qlen 0")
              case True
              from Suc.IH [OF ok3, of "p2 + 10 + unat rd" cttl None True] show ?thesis unfolding tail using True by simp
            next
              case False
              then show ?thesis unfolding tail using ok3 by auto
            qed
          qed
        qed
      qed
    qed
  qed
qed

lemma soa_ttl_ok:
  assumes "ex_ok Q B qlen st" and "str_ok st"
  shows "\<exists>t m. soa_ttl env qlen soa st = Some (t, st\<lparr>ex_msg := m\<rparr>) \<and> ex_ok Q B qlen (st\<lparr>ex_msg := m\<rparr>) \<and> str_ok (st\<lparr>ex_msg := m\<rparr>)"
proof -
  note o = ex_okD [OF assms(1)]
  obtain t m where f: "find_soa (ee_doctors env) (ee_neg_ttl env) None (ex_msg st) qlen = Some (t, m)" "length m = length (ex_msg st)"
    using find_soa_safe [OF o(2,3)] by blast
  have "ex_ok Q B qlen (st\<lparr>ex_msg := m\<rparr>)" "str_ok (st\<lparr>ex_msg := m\<rparr>)" using assms f(2) by (simp_all add: ex_ok_def str_ok_def)
  moreover have "st\<lparr>ex_msg := ex_msg st\<rparr> = st" by simp
  ultimately show ?thesis using f(1) assms
    by (intro exI [of _ "if fst soa then snd soa else t"] exI [of _ "if fst soa then ex_msg st else m"]) (simp add: soa_ttl_def)
qed

lemma arpa_enc: "in_arpa_name_2_addr name x = (enc, addr) \<Longrightarrow> enc \<noteq> 0 \<Longrightarrow> enc = F_IPV4"
  by (auto simp: in_arpa_name_2_addr_def Let_def split: if_splits prod.splits)

lemma ptr_question_ok:
  fixes chk ban :: bool
  defines "Q \<equiv> public_rec chk ban"
  assumes ok: "ex_ok Q B qlen st" "str_ok st" and fl: "flags = 0 \<or> flags = CF_NXDOMAIN"
  shows "\<exists>ret soa' st'. ptr_question env qlen sg now namep flags soa st = Some (ret, soa', st') \<and> safe_result Q B qlen ret st'"
proof -
  note o = ex_okD [OF ok(1)]
  obtain enc addr where ea: "in_arpa_name_2_addr (buf_str (ex_name st)) [0, 0, 0, 0] = (enc, addr)"
    by (cases "in_arpa_name_2_addr (buf_str (ex_name st)) [0, 0, 0, 0]")
  show ?thesis
  proof (cases "enc = 0")
    case True
    then show ?thesis using ea ok by (simp add: ptr_question_def)
  next
    case False
    have e: "ucast enc = CF_IPV4" using arpa_enc [OF ea False] by (simp add: F_IPV4_def CF_IPV4_def)
    have w: "writes Q (Some n) (Some addr) (CF_IPV4 OR CF_REVERSE)" for n
      unfolding Q_def by (rule writes_public) (simp_all add: insertable_def cf_defs)
    have wn: "writes Q None (Some addr) (CF_IPV4 OR CF_REVERSE OR CF_NEG OR flags)"
      unfolding Q_def by (rule writes_public) (use fl in \<open>auto simp: insertable_def cf_defs\<close>)
    obtain q where q: "skip_questions (ex_msg st) qlen = Some q" using skip_questions_safe [OF o(2,3)] by blast
    obtain an where an: "ancount (ex_msg st) = Some an" using counts_in(2) [OF o(3)] by blast
    obtain ret fnd st1 where l: "(if flags AND CF_NXDOMAIN \<noteq> 0 then Some (None, False, st)
         else Option.bind (skip_questions (ex_msg st) qlen) (\<lambda>q. case q of None \<Rightarrow> Some (Some False, False, st)
           | Some p \<Rightarrow> Option.bind (ancount (ex_msg st)) (\<lambda>an. ptr_loop env qlen sg now namep addr (ucast enc) 5 (unat an) p 0xffffffff False st)))
         = Some (ret, fnd, st1)" "safe_result Q B qlen ret st1"
      using ptr_loop_ok [OF ok w, of env sg now namep 5 "unat an" "the q" "0xffffffff" False] q an ok e
      by (cases "flags AND CF_NXDOMAIN \<noteq> 0"; cases q) auto
    show ?thesis
    proof (cases "ret \<noteq> None \<or> fnd \<or> ee_no_neg env")
      case True
      then show ?thesis unfolding ptr_question_def ea using False l by auto
    next
      case neg: False
      then have r: "ret = None" and s1: "ex_ok Q B qlen st1" "str_ok st1" using l(2) by simp_all
      obtain t m where t: "soa_ttl env qlen soa st1 = Some (t, st1\<lparr>ex_msg := m\<rparr>)" "ex_ok Q B qlen (st1\<lparr>ex_msg := m\<rparr>)" "str_ok (st1\<lparr>ex_msg := m\<rparr>)"
        using soa_ttl_ok [OF s1, of env soa] by blast
      obtain r3 st3 where i: "ex_insert env None (Some addr) now t (CF_IPV4 OR CF_REVERSE OR CF_NEG OR flags) (st1\<lparr>ex_msg := m\<rparr>) = Some (r3, st3)" "ex_ok Q B qlen st3"
          "ex_name st3 = ex_name (st1\<lparr>ex_msg := m\<rparr>)"
        by (rule ex_insert_ok [OF t(2) wn]) simp_all
      have s3: "str_ok st3" using i(3) t(3) by (simp add: str_ok_def)
      have "ptr_question env qlen sg now namep flags soa st =
         (if t = 0 then Some (None, (True, t), st1\<lparr>ex_msg := m\<rparr>) else Some (None, (True, t), st3))"
        unfolding ptr_question_def ea using False neg r l(1) t(1) i(1) e by simp
      then show ?thesis using t(2,3) i(2) s3 by auto
    qed
  qed
qed

lemma addr_question_ok:
  fixes chk ban :: bool
  defines "Q \<equiv> public_rec chk ban"
  assumes ok: "ex_ok Q B qlen st" "str_ok st" and ban: "ban = (\<not> ee_local_rebind env)"
    and fl: "flags = CF_IPV4 \<or> flags = CF_NXDOMAIN OR CF_IPV4"
  shows "\<exists>ret soa' st'. addr_question env qlen sg chk now qtype flags soa st = Some (ret, soa', st') \<and> safe_result Q B qlen ret st'"
proof -
  note o = ex_okD [OF ok(1)]
  have blind: "alias_blind Q" by (simp add: Q_def public_rec_blind)
  have wn: "writes Q (Some n) None (CF_FORWARD OR CF_NEG OR flags)" for n
    unfolding Q_def by (rule writes_public) (use fl in \<open>auto simp: insertable_def cf_defs\<close>)
  have nx: "flags AND CF_NXDOMAIN = 0 \<Longrightarrow> flags = CF_IPV4" using fl by (auto simp: cf_defs)
  obtain q where q: "skip_questions (ex_msg st) qlen = Some q" using skip_questions_safe [OF o(2,3)] by blast
  obtain an where an: "ancount (ex_msg st) = Some an" using counts_in(2) [OF o(3)] by blast
  obtain ret fnd cpp cttl st1 where l: "(if flags AND CF_NXDOMAIN \<noteq> 0 then Some (None, False, None, 0xffffffff, st)
       else Option.bind (skip_questions (ex_msg st) qlen) (\<lambda>q. case q of None \<Rightarrow> Some (Some False, False, None, 0xffffffff, st)
         | Some p \<Rightarrow> Option.bind (ancount (ex_msg st)) (\<lambda>an. addr_loop env qlen sg chk now qtype flags 5 (unat an) p 0xffffffff None False st)))
       = Some (ret, fnd, cpp, cttl, st1)" "safe_result Q B qlen ret st1"
    using addr_loop_ok [OF ok [unfolded Q_def] ban nx, of sg now qtype 5 "unat an" "the q" "0xffffffff" None False] q an ok
    by (cases "flags AND CF_NXDOMAIN \<noteq> 0"; cases q) (auto simp: Q_def)
  show ?thesis
  proof (cases "ret \<noteq> None \<or> fnd \<or> ee_no_neg env")
    case True
    then show ?thesis unfolding addr_question_def using l by auto
  next
    case False
    then have s1: "ex_ok Q B qlen st1" "str_ok st1" and r: "ret = None" using l(2) by simp_all
    obtain t m where t: "soa_ttl env qlen soa st1 = Some (t, st1\<lparr>ex_msg := m\<rparr>)" "ex_ok Q B qlen (st1\<lparr>ex_msg := m\<rparr>)" "str_ok (st1\<lparr>ex_msg := m\<rparr>)"
      using soa_ttl_ok [OF s1, of env soa] by blast
    define st2 where "st2 = st1\<lparr>ex_msg := m\<rparr>"
    note t = t [folded st2_def]
    obtain newc st3 where i: "ex_insert env (Some (buf_str (ex_name st2))) None now (if t \<noteq> 0 then t else cttl) (CF_FORWARD OR CF_NEG OR flags) st2 = Some (newc, st3)"
        "ex_ok Q B qlen st3" "ex_name st3 = ex_name st2"
      by (rule ex_insert_ok [OF t(2) wn]) (use t(3) in \<open>simp_all add: str_ok_def\<close>)
    have "addr_question env qlen sg chk now qtype flags soa st =
       (if t = 0 \<and> cpp = None then Some (None, (True, t), st2) else Some (None, (True, t), link_alias cpp newc st3))"
      unfolding addr_question_def using l(1) t(1) i(1) False r by simp
    then show ?thesis using t(2,3) ex_ok_link_alias [OF blind i(2), of cpp newc] i(3) by (auto simp: str_ok_def)
  qed
qed

lemma question_loop_ok:
  fixes chk ban :: bool
  defines "Q \<equiv> public_rec chk ban"
  assumes "ex_ok Q B qlen st" and ban: "ban = (\<not> ee_local_rebind env)"
  shows "\<exists>ret st'. question_loop env qlen sg chk now i p soa st = Some (ret, st') \<and> ex_ok Q B qlen st'"
  using assms(2)
proof (induction i arbitrary: p soa st)
  case (Suc i)
  note o = ex_okD [OF Suc.prems]
  obtain rc where rc: "RCODE (ex_msg st) = Some rc" using o(3) by (simp add: RCODE_def)
  define flags where "flags = (if rc = RC_NXDOMAIN then CF_NXDOMAIN else 0)"
  obtain r n q where e: "extract_name (ex_msg st) qlen p (ex_name st) True 4 = Some (r, n, q)" "length n = length (ex_name st)"
      "r \<noteq> 0 \<longrightarrow> q \<le> qlen \<and> length (buf_str n) < MAXDNAME"
    by (rule extract_name_decode_safe [OF o(1,4), of p 4])
  define st0 where "st0 = st\<lparr>ex_name := n\<rparr>"
  have ok0: "ex_ok Q B qlen st0" using ex_ok_upd [OF Suc.prems refl e(2)] by (simp add: st0_def)
  show ?case
  proof (cases "r = 0")
    case True
    then show ?thesis using rc e ok0 by (simp add: st0_def)
  next
    case False
    have s0: "str_ok st0" using e(3) False by (simp add: str_ok_def st0_def)
    have "q + 4 \<le> length (ex_msg st)" using e(3) False Suc.prems by (simp add: ex_ok_def)
    then obtain qt qc where pk: "peek16 (ex_msg st) q = Some qt" "peek16 (ex_msg st) (q + 2) = Some qc"
      using peek16_in [of q "ex_msg st"] peek16_in [of "q + 2" "ex_msg st"] by auto
    have f: "flags = 0 \<or> flags = CF_NXDOMAIN" "flags OR CF_IPV4 = CF_IPV4 \<or> flags OR CF_IPV4 = CF_NXDOMAIN OR CF_IPV4" by (simp_all add: flags_def)
    obtain ret soa1 st1 where a: "(if qc \<noteq> C_IN then Some (None, soa, st0)
          else if qt = T_PTR then ptr_question env qlen sg now p flags soa st0
          else if qt = T_A then addr_question env qlen sg chk now qt (flags OR CF_IPV4) soa st0
          else Some (None, soa, st0)) = Some (ret, soa1, st1)" "safe_result Q B qlen ret st1"
      using ptr_question_ok [OF ok0 [unfolded Q_def] s0 f(1), of env sg now p soa]
        addr_question_ok [OF ok0 [unfolded Q_def] s0 ban f(2), of sg now qt soa] ok0 s0
      by (cases "qc \<noteq> C_IN"; cases "qt = T_PTR"; cases "qt = T_A") (auto simp: Q_def)
    have run: "question_loop env qlen sg chk now (Suc i) p soa st =
       (if ret \<noteq> None then Some (ret, st1) else question_loop env qlen sg chk now i (q + 4) soa1 st1)"
    proof -
      have "question_loop env qlen sg chk now (Suc i) p soa st =
         Option.bind (if qc \<noteq> C_IN then Some (None, soa, st0)
          else if qt = T_PTR then ptr_question env qlen sg now p flags soa st0
          else if qt = T_A then addr_question env qlen sg chk now qt (flags OR CF_IPV4) soa st0
          else Some (None, soa, st0)) (\<lambda>(ret, soa1, st1). if ret \<noteq> None then Some (ret, st1) else question_loop env qlen sg chk now i (q + 4) soa1 st1)"
        unfolding flags_def st0_def using rc e(1) False pk by (simp add: Let_def split del: if_split)
      then show ?thesis unfolding a(1) by simp
    qed
    show ?thesis unfolding run using a(2) Suc.IH [of st1 "q + 4" soa1] by (cases "ret = None") simp_all
  qed
qed simp

text \<open>A record that is in the table after a commit was not changed by it.\<close>

lemma fold_commit_recs:
  "cinv (table s) (s\<lparr>new_ch := ns\<rparr>) \<Longrightarrow> in_table (fold commit_rec ns s) b \<Longrightarrow> recs (fold commit_rec ns s) b = recs s b"
proof (induction ns arbitrary: s)
  case (Cons a ns)
  let ?s = "commit_rec a s"
  note c = commit_rec_inv [OF Cons.prems(1)]
  have t: "in_table (fold commit_rec ns ?s) b" using Cons.prems(2) by simp
  have e: "recs (fold commit_rec ns ?s) b = recs ?s b" by (rule Cons.IH [OF c(1) t])
  show ?case
  proof (cases "b = a")
    case True
    have an: "a \<notin> set ns" using cinvD(4) [OF Cons.prems(1)] by simp
    have "in_table ?s a" using fold_commit_inv [OF c(1)] t an True by blast
    moreover have "\<not> in_table s a"
    proof
      assume "in_table s a"
      then obtain i where i: "i < length (table s)" "a \<in> set (table s ! i)" by (rule in_table_elim)
      then show False using chain_okD(3) [OF cinvD(6) [OF Cons.prems(1) i(1)] i(2)] by simp
    qed
    ultimately have "\<not> is_outdated_cname_pointer s (recs s a)" using c(6) [of a] by blast
    then show ?thesis using c(7) e by simp
  next
    case False
    then show ?thesis using c(5) e by simp
  qed
qed simp

lemma start_insert_recs: "b \<notin> set (new_ch s) \<Longrightarrow> recs (cache_start_insert s) b = recs s b"
proof -
  have "b \<notin> set ns \<Longrightarrow> recs (fold cache_free ns s) b = recs s b" for ns by (induction ns arbitrary: s) auto
  then show "b \<notin> set (new_ch s) \<Longrightarrow> recs (cache_start_insert s) b = recs s b" by (simp add: cache_start_insert_def)
qed

text \<open>The records in the table after a reply were there before or are public.\<close>

lemma extract_addresses_post:
  fixes chk ban :: bool
  assumes ci: "cache_inv (ex_cache st)" and m: "qlen + 16 \<le> length (ex_msg st)" "MAXDNAME \<le> length (ex_name st)"
    and d: "\<not> ee_log env" and ban: "ban = (\<not> ee_local_rebind env)"
  shows "\<exists>ret st'. extract_addresses env qlen now sg chk cd st = Some (ret, st') \<and> cache_inv (ex_cache st') \<and>
     (\<forall>a. in_table (ex_cache st') a \<longrightarrow>
        in_table (ex_cache st) a \<and> same_data (recs (ex_cache st') a) (recs (ex_cache st) a) \<or> \<not> ret \<and> public_rec chk ban (recs (ex_cache st') a))"
proof -
  let ?Q = "public_rec chk ban" and ?B = "ex_cache st"
  define st0 where "st0 = st\<lparr>ex_cache := cache_start_insert (ex_cache st)\<rparr>"
  note S = cache_start_insert_inv [OF ci]
  have "recs (cache_start_insert ?B) a = recs ?B a" if "in_table ?B a" for a
    by (rule start_insert_recs) (rule in_table_bucket(3) [OF ci that])
  then have ok0: "ex_ok ?Q ?B qlen st0"
    using m S by (auto simp: ex_ok_def st0_def in_table_def same_data_def)
  have ms: "ex_msg st0 = ex_msg st" by (simp add: st0_def)
  obtain t m' where fs: "find_soa (ee_doctors env) (ee_neg_ttl env) None (ex_msg st) qlen = Some (t, m')" "length m' = length (ex_msg st)"
    using find_soa_safe [of qlen "ex_msg st" "ee_doctors env" "ee_neg_ttl env"] m(1) ex_okD(3) [OF ok0] ms by auto
  define soa st1 where "soa = (if ee_doctors env \<noteq> [] then (True, t) else (False, 0))"
    and "st1 = (if ee_doctors env \<noteq> [] then st0\<lparr>ex_msg := m'\<rparr> else st0)"
  have first: "(if ee_doctors env \<noteq> [] \<or> ee_log env
        then map_option (\<lambda>(t, m). ((True, t), st0\<lparr>ex_msg := m\<rparr>)) (find_soa (ee_doctors env) (ee_neg_ttl env) (if ee_log env then Some (ex_name st) else None) (ex_msg st) qlen)
        else Some ((False, 0), st0)) = Some (soa, st1)"
    using d fs(1) by (simp add: soa_def st1_def)
  have ok1: "ex_ok ?Q ?B qlen st1" using ok0 fs(2) ms by (simp add: st1_def ex_ok_def)
  obtain qd where qd: "qdcount (ex_msg st1) = Some qd" using counts_in(1) [OF ex_okD(3) [OF ok1]] by blast
  obtain ret st2 where q: "question_loop env qlen sg chk now (unat qd) 12 soa st1 = Some (ret, st2)" "ex_ok ?Q ?B qlen st2"
    using question_loop_ok [OF ok1 ban, of sg now "unat qd" 12 soa] by blast
  have ex: "extract_addresses env qlen now sg chk cd st = (case ret of
        Some r \<Rightarrow> Some (r, st2)
      | None \<Rightarrow> do {
          hb3 \<leftarrow> peek (ex_msg st2) 2; hb4 \<leftarrow> peek (ex_msg st2) 3;
          Some (False,
            if hb3 AND HB3_TC = 0 \<and> hb4 AND HB4_CD = 0 \<and> hb4 AND HB4_RA \<noteq> 0 \<and> \<not> cd
            then st2\<lparr>ex_cache := cache_end_insert (ex_cache st2)\<rparr> else st2) })"
    unfolding extract_addresses_def Let_def st0_def [symmetric] first Option.bind.bind_lunit prod.case qd q(1) ..
  have l2: "12 \<le> length (ex_msg st2)" by (rule ex_okD(3) [OF q(2)])
  have c2: "cache_inv (ex_cache st2)" by (rule ex_okD(5) [OF q(2)])
  have t2: "in_table ?B a \<and> same_data (recs (ex_cache st2) a) (recs ?B a)" if "in_table (ex_cache st2) a" for a
    using q(2) that by (simp add: ex_ok_def)
  show ?thesis
  proof (cases ret)
    case (Some r)
    then have "extract_addresses env qlen now sg chk cd st = Some (r, st2)"
      using ex by simp
    then show ?thesis using c2 t2 by auto
  next
    case None
    let ?s3 = "cache_end_insert (ex_cache st2)"
    have t3: "in_table ?B a \<and> same_data (recs ?s3 a) (recs ?B a) \<or> ?Q (recs ?s3 a)" if a: "in_table ?s3 a" for a
    proof (cases "insert_error (ex_cache st2)")
      case True
      then show ?thesis using a t2 by (simp add: cache_end_insert_def)
    next
      case False
      define ns where "ns = new_ch (ex_cache st2)"
      have "ex_cache st2\<lparr>new_ch := ns\<rparr> = ex_cache st2" by (simp add: ns_def)
      then have cv: "cinv (table (ex_cache st2)) (ex_cache st2\<lparr>new_ch := ns\<rparr>)" using c2 by (simp add: cache_inv_def)
      have e: "?s3 = (fold commit_rec ns (ex_cache st2))\<lparr>new_ch := []\<rparr>" using False by (simp add: cache_end_insert_def ns_def)
      have a': "in_table (fold commit_rec ns (ex_cache st2)) a" using a by (simp add: e in_table_def)
      then have r: "recs ?s3 a = recs (ex_cache st2) a" using fold_commit_recs [OF cv] by (simp add: e)
      have "in_table (ex_cache st2) a \<or> a \<in> set ns" using fold_commit_inv [OF cv] a' by blast
      then show ?thesis using t2 q(2) False unfolding r by (auto simp: ex_ok_def ns_def)
    qed
    define fin where "fin = (if ex_msg st2 ! 2 AND HB3_TC = 0 \<and> ex_msg st2 ! 3 AND HB4_CD = 0 \<and> ex_msg st2 ! 3 AND HB4_RA \<noteq> 0 \<and> \<not> cd
        then st2\<lparr>ex_cache := ?s3\<rparr> else st2)"
    have "extract_addresses env qlen now sg chk cd st = Some (False, fin)"
      using ex None l2 by (simp add: fin_def)
    moreover have "cache_inv (ex_cache fin)" using c2 cache_end_insert_inv [OF c2] by (simp add: fin_def)
    ultimately show ?thesis using t2 t3 by (auto simp: fin_def)
  qed
qed

subsection \<open>The cache after a reply\<close>

lemma insert_bogus_inv: "cache_inv s \<Longrightarrow> length name < MAXDNAME \<Longrightarrow> \<exists>s'. insert_bogus env name now ttl s = Some s' \<and> cache_inv s'"
proof -
  assume inv: "cache_inv s" and len: "length name < MAXDNAME"
  have f: "insertable (CF_IPV4 OR CF_FORWARD OR CF_NEG OR CF_NXDOMAIN OR 0x2000)" by (simp add: insertable_def cf_defs)
  obtain r s1 where "cache_insert (ee_mem env) (Some name) None now ttl (CF_IPV4 OR CF_FORWARD OR CF_NEG OR CF_NXDOMAIN OR 0x2000) (cache_start_insert s) = Some (r, s1)"
      "cache_inv s1"
    using cache_insert_post [OF cache_start_insert_inv(1) [OF inv] f, of "Some name" "ee_mem env" None now ttl] len by auto
  then show ?thesis using cache_end_insert_inv by (simp add: insert_bogus_def)
qed

lemma check_for_local_domain_inv:
  assumes "cache_inv s"
  shows "\<exists>b s'. check_for_local_domain names name now s = Some (b, s') \<and> cache_inv s'"
proof -
  obtain r s' where "cache_find_by_name None name now (CF_IPV4 OR CF_IPV6 OR CF_CNAME) s = Some (r, s')" "cache_inv s'"
    using cache_find_by_name_post [OF assms, of name now "CF_IPV4 OR CF_IPV6 OR CF_CNAME"] by (elim exE conjE) (rule that)
  then show ?thesis by (simp add: check_for_local_domain_def)
qed

lemma cstr_buf_str: "cstr b = Some x \<Longrightarrow> x = buf_str b"
  by (auto simp: cstr_def buf_str_def split: if_splits)

lemma bogus_name_short: "bogus_loop k msg n p name bs = Some (Some (s, ttl)) \<Longrightarrow> n < length msg \<Longrightarrow> MAXDNAME \<le> length name \<Longrightarrow> length s < MAXDNAME"
proof (induction k arbitrary: p name)
  case (Suc k)
  obtain r nm q where e: "extract_name msg n p name True 10 = Some (r, nm, q)" "length nm = length name" "r \<noteq> 0 \<longrightarrow> q \<le> n \<and> length (buf_str nm) < MAXDNAME"
    by (rule extract_name_decode_safe [OF Suc.prems(2,3), of p 10])
  have r: "r \<noteq> 0" using Suc.prems(1) e(1) by (cases "r = 0") simp_all
  have "cstr nm = Some s \<or> (\<exists>x. bogus_loop k msg n x nm bs = Some (Some (s, ttl)))"
    using Suc.prems(1) e(1) r by (auto simp: option_bind_eq_Some_iff split: if_splits)
  then show ?case
  proof
    assume "cstr nm = Some s"
    then show ?thesis using e(3) r cstr_buf_str by auto
  next
    assume "\<exists>x. bogus_loop k msg n x nm bs = Some (Some (s, ttl))"
    then show ?thesis using Suc.IH [of _ nm] Suc.prems(2,3) e(2) by auto
  qed
qed simp

lemma extract_request_buf:
  assumes "n < length msg" and "MAXDNAME \<le> length name" and "extract_request msg n name = Some (g, ty, buf)"
  shows "length buf = length name"
proof -
  obtain r nm q where e: "extract_name msg n 12 name True 4 = Some (r, nm, q)" "length nm = length name"
    by (rule extract_name_decode_safe [OF assms(1,2), of 12 4])
  then show ?thesis using assms(3) by (auto simp: extract_request_def option_bind_eq_Some_iff split: if_splits)
qed

lemma known_locally_inv:
  assumes "known_locally pe n now rc st = Some (b, st')" and "cache_inv (ex_cache st)" and "n < length (ex_msg st)" "MAXDNAME \<le> length (ex_name st)"
  shows "ex_msg st' = ex_msg st \<and> MAXDNAME \<le> length (ex_name st') \<and> cache_inv (ex_cache st')"
proof (cases "rc = RC_NXDOMAIN")
  case False
  then show ?thesis using assms by (simp add: known_locally_def)
next
  case True
  obtain g ty buf where e: "extract_request (ex_msg st) n (ex_name st) = Some (g, ty, buf)"
    using assms(1) True by (auto simp: known_locally_def option_bind_eq_Some_iff)
  have l: "length buf = length (ex_name st)" by (rule extract_request_buf [OF assms(3,4) e])
  obtain x s where c: "check_for_local_domain (pe_names pe) (buf_str buf) now (ex_cache st) = Some (x, s)" "cache_inv s"
    using check_for_local_domain_inv [OF assms(2)] by blast
  show ?thesis using assms True e l c by (cases "g = 0") (auto simp: known_locally_def)
qed

lemma answer_exists_length: "answer_exists m = Some m' \<Longrightarrow> length m' = length m"
  by (auto simp: answer_exists_def set_rcode_def option_bind_eq_Some_iff dest!: length_poke)

lemma munge_reply_inv:
  assumes run: "munge_reply pe n now sg chk cd st = Some (munged, st')" and ci: "cache_inv (ex_cache st)"
    and m: "n + 16 \<le> length (ex_msg st)" "MAXDNAME \<le> length (ex_name st)" and d: "\<not> ee_log (pe_ex pe)"
  shows "cache_inv (ex_cache st')"
proof -
  obtain rc bogus where b: "RCODE (ex_msg st) = Some rc"
     "(if pe_bogus pe \<noteq> [] \<and> rc \<noteq> RC_NXDOMAIN then check_for_bogus_wildcard (ex_msg st) n (ex_name st) (pe_bogus pe) else Some None) = Some bogus"
    using run by (auto simp: munge_reply_def option_bind_eq_Some_iff)
  show ?thesis
  proof (cases bogus)
    case (Some nt)
    obtain name ttl where nt: "nt = (name, ttl)" by (cases nt)
    have "check_for_bogus_wildcard (ex_msg st) n (ex_name st) (pe_bogus pe) = Some (Some (name, ttl))" using b(2) Some nt by (simp split: if_splits)
    then have "length name < MAXDNAME"
      using bogus_name_short [of _ "ex_msg st" n _ "ex_name st" "pe_bogus pe" name ttl] m
      by (auto simp: check_for_bogus_wildcard_def nbind_def option_bind_eq_Some_iff split: option.splits)
    then obtain s where "insert_bogus (pe_ex pe) name now ttl (ex_cache st) = Some s" "cache_inv s" using insert_bogus_inv [OF ci] by blast
    then show ?thesis using run b Some nt by (auto simp: munge_reply_def option_bind_eq_Some_iff)
  next
    case None
    obtain loc st1 m1 ret where p: "known_locally pe n now rc st = Some (loc, st1)" "(if loc then answer_exists (ex_msg st1) else Some (ex_msg st1)) = Some m1"
      "extract_addresses (pe_ex pe) n now sg chk cd (st1\<lparr>ex_msg := m1\<rparr>) = Some (ret, st')"
      using run b None unfolding munge_reply_def by (auto simp: option_bind_eq_Some_iff)
    have s1: "ex_msg st1 = ex_msg st \<and> MAXDNAME \<le> length (ex_name st1) \<and> cache_inv (ex_cache st1)"
      by (rule known_locally_inv [OF p(1) ci]) (use m in simp_all)
    have "length m1 = length (ex_msg st1)" using p(2) answer_exists_length by (auto split: if_splits)
    then have "n + 16 \<le> length (ex_msg (st1\<lparr>ex_msg := m1\<rparr>))" using s1 m(1) by simp
    then show ?thesis using extract_addresses_post [of "st1\<lparr>ex_msg := m1\<rparr>" n "pe_ex pe" _ now sg chk cd] s1 p(3) d by auto
  qed
qed

lemma process_reply_inv:
  assumes run: "process_reply pe now warn n chk cd st = Some (nn, w, st')" and ci: "cache_inv (ex_cache st)"
    and m: "n + 16 \<le> length (ex_msg st)" "MAXDNAME \<le> length (ex_name st)" and d: "\<not> ee_log (pe_ex pe)"
  shows "cache_inv (ex_cache st')"
proof -
  obtain ph sg where ph: "find_pseudoheader (ex_msg st) n True = Some (ph, sg)" using run by (auto simp: process_reply_def option_bind_eq_Some_iff)
  obtain m1 where m1: "(case ph of Some (_, _, sizep) \<Rightarrow> if sg then Some (ex_msg st)
        else Option.bind (peek16 (ex_msg st) sizep) (\<lambda>sz. if sz > pe_edns_pktsz pe then poke16 (ex_msg st) sizep (pe_edns_pktsz pe) else Some (ex_msg st))
      | None \<Rightarrow> Some (ex_msg st)) = Some m1"
    using run ph by (auto simp: process_reply_def option_bind_eq_Some_iff)
  have l1: "length m1 = length (ex_msg st)"
    using m1 length_poke16 by (auto simp: option_bind_eq_Some_iff split: option.splits prod.splits if_splits)
  obtain hb4 m2 where m2: "peek m1 3 = Some hb4" "(if \<not> sg \<and> \<not> pe_dnssec pe then poke m1 3 (hb4 AND NOT HB4_AD) else Some m1) = Some m2"
    using run ph m1 by (auto simp: process_reply_def option_bind_eq_Some_iff)
  have l2: "length m2 = length (ex_msg st)" using m2(2) l1 by (auto split: if_splits dest: length_poke)
  obtain opc rc an where o: "OPCODE m2 = Some opc" "RCODE m2 = Some rc" "ancount m2 = Some an"
    using run ph m1 m2 by (auto simp: process_reply_def option_bind_eq_Some_iff)
  show ?thesis
  proof (cases "opc \<noteq> 0 \<or> (rc \<noteq> RC_NOERROR \<and> rc \<noteq> RC_NXDOMAIN)")
    case True
    then show ?thesis using run ph m1 m2 o ci by (auto simp: process_reply_def Let_def)
  next
    case False
    obtain munged st2 where g: "munge_reply pe n now sg chk cd (st\<lparr>ex_msg := m2\<rparr>) = Some (munged, st2)" "ex_cache st' = ex_cache st2"
      using run ph m1 m2 o False by (auto simp: process_reply_def Let_def option_bind_eq_Some_iff)
    have "cache_inv (ex_cache st2)" by (rule munge_reply_inv [OF g(1)]) (use ci m d l2 in simp_all)
    then show ?thesis by (simp add: g(2))
  qed
qed

subsection \<open>What a reply leaves in the cache\<close>


text \<open>The example: a reply with one address for the name \<open>ab\<close>, and the state it meets.\<close>

definition demo_reply :: "bytes \<Rightarrow> bytes" where
  "demo_reply ad = [0, 1, 0x81, 0x80, 0, 1, 0, 1, 0, 0, 0, 0,
     2, 97, 98, 0, 0, 1, 0, 1,
     0xc0, 12, 0, 1, 0, 1, 0, 0, 0, 60, 0, 4] @ ad @ replicate 476 0"

definition demo_env :: exenv where
  "demo_env = \<lparr>ee_doctors = [], ee_log = False, ee_neg_ttl = 0, ee_max_ttl = 0, ee_no_neg = False, ee_local_rebind = False, ee_mem = True\<rparr>"

definition demo_st :: "bytes \<Rightarrow> exst" where
  "demo_st ad = \<lparr>ex_msg = demo_reply ad, ex_name = replicate 1025 0, ex_cache = small_cache\<rparr>"

lemma demo_st_ok:
  "cache_inv (ex_cache (demo_st ad))" "36 + 16 \<le> length (ex_msg (demo_st ad))" "MAXDNAME \<le> length (ex_name (demo_st ad))"
  "ee_doctors demo_env = []" "\<not> ee_log demo_env" "\<not> ee_local_rebind demo_env"
  by (simp_all add: demo_st_def small_cache_inv demo_reply_def demo_env_def MAXDNAME_def)


text \<open>With query logging it does leave the buffer: a TXT record whose length byte promises more than the record holds is
  shifted beyond the end of the packet.\<close>

definition txt_reply :: bytes where
  "txt_reply = [0, 1, 0x81, 0x80, 0, 0, 0, 1, 0, 0, 0, 0, 0, 0, 16, 0, 1, 0, 0, 0, 60, 0, 1, 255] @ replicate 16 65"

lemma txt_reply_overruns:
  "extract_addresses (demo_env\<lparr>ee_log := True\<rparr>) 24 100 False True False
     \<lparr>ex_msg = txt_reply, ex_name = replicate 1025 0, ex_cache = small_cache\<rparr> = None"
  by code_simp

text \<open>A reply with one question for an address and one answer to it.\<close>

lemma single_answer_loop:
  assumes ans: "name_run False msg qlen p h ls e f" "h \<le> 255" "f + 10 \<le> qlen" "e + 14 \<le> qlen" "qlen \<le> length msg"
    and nm: "cstr (ex_name st) = Some s" "length s \<le> 960" "strcaseeq s (name_string ls)" and m: "ex_msg st = msg"
    and rr: "peek16 msg e = Some T_A" "peek16 msg (e + 2) = Some C_IN" "peek32 msg (e + 4) = Some ttl" "peek16 msg (e + 8) = Some 4"
      "peek32 msg (e + 10) = Some a"
    and env: "ee_max_ttl env = 0" and pub: "\<not> (chk \<and> private_net a (\<not> ee_local_rebind env))"
    and ins: "cache_insert (ee_mem env) (Some s) (Some (be32 a)) now ttl (CF_IPV4 OR CF_FORWARD) (ex_cache st) = Some (r, s1)"
  shows "addr_loop env qlen sg chk now T_A CF_IPV4 5 1 p cttl None False st = Some (None, True, None, cttl, st\<lparr>ex_cache := s1\<rparr>)"
proof -
  have b: "buf_str (ex_name st) = s" using cstr_buf_str [OF nm(1)] by simp
  have x: "extract_name msg qlen p (ex_name st) False 10 = Some (1, ex_name st, e)"
    using extract_name_compares [OF ans(1,5,2,3) nm(1,2)] nm(3) by simp
  have hd: "answer_header env sg e msg = Some (T_A, C_IN, ttl, e + 10, e + 14, msg)"
    using rr(1-4) env by (simp add: answer_header_def)
  have st: "st\<lparr>ex_msg := msg\<rparr> = st" using m by simp
  have ne: "T_A \<noteq> T_CNAME" by (simp add: T_A_def T_CNAME_def)
  have ck: "CHECK_LEN (e + 10) qlen 4" "CHECK_LEN (e + 14) qlen 0" using ans(4) by (simp_all add: CHECK_LEN_def)
  have i: "ex_insert env (Some s) (Some (be32 a)) now ttl (CF_IPV4 OR CF_FORWARD) st = Some (r, st\<lparr>ex_cache := s1\<rparr>)"
    using ins by (simp add: ex_insert_def)
  have last: "addr_loop env qlen sg chk now T_A CF_IPV4 5 0 q cttl None True u = Some (None, True, None, cttl, u)" for q u
    by (subst addr_loop.simps) simp
  have "addr_loop env qlen sg chk now T_A CF_IPV4 5 1 p cttl None False st =
     addr_loop env qlen sg chk now T_A CF_IPV4 5 0 (e + 14) cttl None True (st\<lparr>ex_cache := s1\<rparr>)"
    by (subst addr_loop.simps) (use pub in \<open>auto simp: m x hd st ne ck b i rr(5) link_alias_def Let_def\<close>)
  then show ?thesis by (simp only: last)
qed

lemma skip_one_question:
  assumes "qdcount msg = Some 1" and "name_run False msg qlen 12 h ls e f" and "qlen \<le> length msg" and "e + 4 \<le> qlen"
  shows "skip_questions msg qlen = Some (Some (e + 4))"
  using assms skip_name_run [OF assms(2,3), of 4] by (simp add: skip_questions_def)

text \<open>C19. A well-formed reply is learnt: when it answers its one question, for an address, with one record of the
  same name (in any letter case, of at most 960 characters), is neither truncated nor from a server without
  recursion, the address is not refused as private, and the cache takes the record, then
  \<open>extract_addresses\<close> reports no attack, and a search for the name in the cache it leaves finds exactly this
  address, at any time before the expiry time (the time to live added in 32 bits).  There are no --alias
  rewritings, no query logging and no limit on times to live, and checking is not disabled.\<close>

theorem reply_is_cached:
  fixes chk :: bool
  assumes inv: "cache_inv (ex_cache st)" and env: "ee_doctors env = []" "\<not> ee_log env" "ee_max_ttl env = 0"
    and msg: "ex_msg st = msg" "qlen < length msg" "MAXDNAME \<le> length (ex_name st)" "qdcount msg = Some 1" "ancount msg = Some 1"
    and hb: "peek msg 2 = Some hb3" "hb3 AND HB3_TC = 0" "peek msg 3 = Some hb4" "hb4 AND HB4_CD = 0" "hb4 AND HB4_RA \<noteq> 0"
      "hb4 AND HB4_RCODE \<noteq> RC_NXDOMAIN"
    and qu: "name_run False msg qlen 12 h ls e f" "h \<le> 255" "f + 4 \<le> qlen" "e + 4 \<le> qlen" "list_all (list_all name_text_char) ls"
      "length (dotted ls) \<le> 960" "peek16 msg e = Some T_A" "peek16 msg (e + 2) = Some C_IN"
    and ans: "name_run False msg qlen (e + 4) h2 ls2 e2 f2" "h2 \<le> 255" "f2 + 10 \<le> qlen" "e2 + 14 \<le> qlen"
      "strcaseeq (name_string ls) (name_string ls2)"
    and rr: "peek16 msg e2 = Some T_A" "peek16 msg (e2 + 2) = Some C_IN" "peek32 msg (e2 + 4) = Some ttl" "peek16 msg (e2 + 8) = Some 4"
      "peek32 msg (e2 + 10) = Some a"
    and pub: "\<not> (chk \<and> private_net a (\<not> ee_local_rebind env))"
    and ins: "cache_insert (ee_mem env) (Some (name_string ls)) (Some (be32 a)) now ttl (CF_IPV4 OR CF_FORWARD)
        (cache_start_insert (ex_cache st)) = Some (Some k, s1)"
    and ask: "strcaseeq (name_string ls) name" "now' < time_plus now (clamp_ttl (max_cache_ttl (ex_cache st)) ttl)"
  shows "\<exists>st' s3. extract_addresses env qlen now sg chk False st = Some (False, st') \<and>
     cache_find_by_name None name now' CF_IPV4 (ex_cache st') = Some (Some k, s3) \<and>
     cache_find_by_name (Some k) name now' CF_IPV4 s3 = Some (None, s3) \<and>
     c_name (recs s3 k) = name_string ls \<and> c_addr (recs s3 k) = be32 a"
proof -
  have len: "length (name_string ls) \<le> 960" using qu(6) by (simp add: name_string_def)
  define st0 where "st0 = st\<lparr>ex_cache := cache_start_insert (ex_cache st)\<rparr>"
  obtain n where n: "extract_name msg qlen 12 (ex_name st) True 4 = Some (1, n, e)" "cstr n = Some (name_string ls)"
    using extract_name_run [OF qu(1) _ msg(3) qu(5) _ qu(2,3)] msg(2) qu(6) by (auto simp: MAXDNAME_def)
  define st1 where "st1 = st0\<lparr>ex_name := n\<rparr>"
  have l: "addr_loop env qlen sg chk now T_A CF_IPV4 5 1 (e + 4) 0xffffffff None False st1 =
      Some (None, True, None, 0xffffffff, st1\<lparr>ex_cache := s1\<rparr>)"
    by (rule single_answer_loop [OF ans(1-4) _ _ len ans(5) _ rr env(3) pub])
       (use msg n(2) ins in \<open>simp_all add: st1_def st0_def\<close>)
  have m1: "ex_msg st1 = msg" using msg(1) by (simp add: st1_def st0_def)
  have nx: "CF_IPV4 AND CF_NXDOMAIN = 0" by code_simp
  have q: "addr_question env qlen sg chk now T_A CF_IPV4 (False, 0) st1 = Some (None, (False, 0), st1\<lparr>ex_cache := s1\<rparr>)"
    using skip_one_question [OF msg(4) qu(1) less_imp_le [OF msg(2)] qu(4)] l msg(5) by (simp add: addr_question_def m1 nx)
  have ql: "question_loop env qlen sg chk now (Suc 0) 12 (False, 0) st0 = Some (None, st1\<lparr>ex_cache := s1\<rparr>)"
    using msg(1) hb(3,6) n(1) qu(7,8) q by (simp add: st0_def RCODE_def st1_def T_A_def T_PTR_def Let_def)
  have "extract_addresses env qlen now sg chk False st = Some (False, st1\<lparr>ex_cache := cache_end_insert s1\<rparr>)"
    using env(1,2) msg(1,4) hb(1-5) ql m1
    by (simp add: extract_addresses_def st0_def [symmetric] Let_def del: question_loop.simps) (simp add: st0_def)
  moreover have fl: "insertable (CF_IPV4 OR CF_FORWARD)" "(CF_IPV4 OR CF_FORWARD) AND CF_FORWARD \<noteq> 0" "(CF_IPV4 OR CF_FORWARD) AND CF_CNAME = 0"
    "CF_IPV4 AND ((CF_IPV4 OR CF_FORWARD) AND CF_TYPE) = CF_IPV4" "CF_IPV4 \<noteq> 0" by code_simp+
  moreover have "length (name_string ls) < MAXDNAME" using len by (simp add: MAXDNAME_def)
  ultimately show ?thesis using inserted_is_found [OF inv ins fl(1-3) _ fl(4,5) ask] by auto
qed

lemma demo_runs:
  "name_run False (demo_reply ad) 36 12 0 [[97, 98]] 16 16"
  "name_run False (demo_reply ad) 36 20 1 [[97, 98]] 22 16"
proof -
  let ?m = "demo_reply ad"
  have "name_run False ?m 36 15 0 [] 16 16"
    using run_root [of 15 36 ?m] by (simp add: demo_reply_def)
  then show q: "name_run False ?m 36 12 0 [[97, 98]] 16 16"
    using run_label [of 12 36 ?m False 0 "[]" 16 16] by (simp add: demo_reply_def)
  show "name_run False ?m 36 20 1 [[97, 98]] 22 16"
    using run_ptr [of 20 36 ?m False 0 "[[97, 98]]" 16 16] q by (simp add: demo_reply_def is_ptr_def ptr_target_def)
qed

lemma demo_words: "ntohs2 0 1 = 1" "ntohs2 0 0 = 0" "ntohs2 0 4 = 4" "ntohl4 0 0 0 60 = 60" "ntohl4 93 184 216 34 = 0x5db8d822" "ntohl4 192 168 0 1 = 0xc0a80001"
  by code_simp+

lemma demo_reply_insert:
  "map_option fst (cache_insert True (Some [97, 98]) (Some [93, 184, 216, 34]) 100 60 (CF_IPV4 OR CF_FORWARD) (cache_start_insert small_cache)) =
     Some (Some 0)"
  by code_simp

theorem reply_is_cached_witness:
  "\<exists>st' s3. extract_addresses demo_env 36 100 False True False (demo_st [93, 184, 216, 34]) = Some (False, st') \<and>
     cache_find_by_name None (bytes_of ''AB'') 159 CF_IPV4 (ex_cache st') = Some (Some 0, s3) \<and>
     c_addr (recs s3 0) = [93, 184, 216, 34]"
proof -
  let ?m = "demo_reply [93, 184, 216, 34]"
  obtain s1 where s1: "cache_insert True (Some [97, 98]) (Some [93, 184, 216, 34]) 100 60 (CF_IPV4 OR CF_FORWARD) (cache_start_insert small_cache) =
      Some (Some 0, s1)"
    using demo_reply_insert by auto
  have c: "ex_cache (demo_st [93, 184, 216, 34]) = small_cache" "ex_msg (demo_st [93, 184, 216, 34]) = ?m" "ee_mem demo_env" "ee_max_ttl demo_env = 0" by (simp_all add: demo_st_def demo_env_def)
  have n: "name_string [[97, 98]] = [97, 98]" and b: "be32 0x5db8d822 = [93, 184, 216, 34]" by code_simp+
  have len: "36 < length ?m" "(0::nat) \<le> 255" "(16::nat) + 4 \<le> 36" "length (dotted [[97, 98]]) \<le> 960"
    "(1::nat) \<le> 255" "(16::nat) + 10 \<le> 36" "(22::nat) + 14 \<le> 36" by (simp_all add: demo_reply_def)
  have tx: "list_all (list_all name_text_char) [[97, 98]]" by code_simp
  have eq: "strcaseeq (name_string [[97, 98]]) (name_string [[97, 98]])" "strcaseeq (name_string [[97, 98]]) (bytes_of ''AB'')" by code_simp+
  have hb: "(0x81 :: byte) AND HB3_TC = 0" "(0x80 :: byte) AND HB4_CD = 0" "(0x80 :: byte) AND HB4_RA \<noteq> 0" "(0x80 :: byte) AND HB4_RCODE \<noteq> RC_NXDOMAIN"
    by code_simp+
  have pk: "qdcount ?m = Some 1" "ancount ?m = Some 1" "peek ?m 2 = Some 0x81" "peek ?m 3 = Some 0x80"
    "peek16 ?m 16 = Some T_A" "peek16 ?m (16 + 2) = Some C_IN" "peek16 ?m 22 = Some T_A" "peek16 ?m (22 + 2) = Some C_IN"
    "peek32 ?m (22 + 4) = Some 60" "peek16 ?m (22 + 8) = Some 4" "peek32 ?m (22 + 10) = Some 0x5db8d822"
    by (simp_all add: demo_reply_def qdcount_def ancount_def T_A_def C_IN_def demo_words)
  have run: "name_run False ?m 36 (16 + 4) 1 [[97, 98]] 22 16" using demo_runs(2) by simp
  have pn: "\<not> (True \<and> private_net 0x5db8d822 (\<not> ee_local_rebind demo_env))" by code_simp
  have now: "159 < time_plus 100 (clamp_ttl (max_cache_ttl small_cache) 60)" by code_simp
  have ins: "cache_insert (ee_mem demo_env) (Some (name_string [[97, 98]])) (Some (be32 0x5db8d822)) 100 60 (CF_IPV4 OR CF_FORWARD)
      (cache_start_insert (ex_cache (demo_st [93, 184, 216, 34]))) = Some (Some 0, s1)" using s1 by (simp add: c n b)
  show ?thesis
    using reply_is_cached [OF demo_st_ok(1,4,5) c(4,2) len(1) demo_st_ok(3) pk(1-3) hb(1) pk(4) hb(2-4) demo_runs(1) len(2,3,3) tx len(4) pk(5,6)
        run len(5-7) eq(1) pk(7-11) pn ins eq(2) now [folded c(1)], of False]
    unfolding b by blast
qed

subsection \<open>Aliases of addresses\<close>

text \<open>The comment in \<open>extract_addresses\<close> says that the aliases of a PTR question are chased.  Every round
  reads the name of the question again, so an alias of this name is met again and again, until the
  number of restarts is used up.\<close>

lemma ptr_alias_gives_up:
  assumes q: "name_run False msg qlen namep h ls e f" "h \<le> 255" "f \<le> qlen" "list_all (list_all name_text_char) ls" "length (dotted ls) \<le> 960"
    and own: "name_run False msg qlen p h2 ls2 e2 f2" "h2 \<le> 255" "f2 + 10 \<le> qlen" "strcaseeq (name_string ls) (name_string ls2)"
    and rr: "peek16 msg e2 = Some T_CNAME" "peek16 msg (e2 + 2) = Some C_IN" "peek32 msg (e2 + 4) = Some ttl" "peek16 msg (e2 + 8) = Some rdlen"
    and tgt: "name_run False msg qlen (e2 + 10) h3 ls3 e3 f3" "h3 \<le> 255" "f3 \<le> qlen" "list_all (list_all name_text_char) ls3" "length (dotted ls3) < MAXDNAME"
    and pos: "skip_questions msg qlen = Some (Some p)" "ancount msg = Some an" "an \<noteq> 0" and env: "ee_max_ttl env = 0" and len: "qlen \<le> length msg"
  shows "ex_msg st = msg \<Longrightarrow> MAXDNAME \<le> length (ex_name st) \<Longrightarrow>
     \<exists>n. ptr_loop env qlen sg now namep addr enc cc (unat an) p cttl fnd st = Some (Some False, fnd, st\<lparr>ex_name := n\<rparr>)"
proof (induction cc arbitrary: cttl st rule: nat_less_induct)
  case (1 cc)
  obtain n0 where n0: "extract_name msg qlen namep (ex_name st) True 0 = Some (1, n0, e)" "cstr n0 = Some (name_string ls)" "length n0 = length (ex_name st)"
    using extract_name_run [OF q(1) len "1.prems"(2) q(4) _ q(2), of 0] q(3,5) by (auto simp: MAXDNAME_def)
  have l: "length (name_string ls) \<le> 960" using q(5) by (simp add: name_string_def)
  have n1: "extract_name msg qlen p n0 False 10 = Some (1, n0, e2)"
    using extract_name_compares [OF own(1) len own(2,3) n0(2) l] own(4) by simp
  have hd: "answer_header env sg e2 msg = Some (T_CNAME, C_IN, ttl, e2 + 10, e2 + 10 + unat rdlen, msg)"
    using rr env by (simp add: answer_header_def)
  obtain n2 e4 where n2: "extract_name msg qlen (e2 + 10) n0 True 0 = Some (1, n2, e4)" "length n2 = length n0"
    using extract_name_run [OF tgt(1) len _ tgt(4,5,2), of n0 0] tgt(3) n0(3) "1.prems"(2) by auto
  let ?st2 = "st\<lparr>ex_name := n2\<rparr>" and ?ct = "if ttl < cttl then ttl else cttl"
  have nz: "unat an \<noteq> 0" using pos(3) by (simp add: unat_eq_zero)
  have st: "st\<lparr>ex_msg := msg, ex_name := n2\<rparr> = ?st2" using "1.prems"(1) by simp
  have step: "ptr_loop env qlen sg now namep addr enc cc (unat an) p cttl fnd st =
     (if cc = 0 then Some (Some False, fnd, ?st2) else ptr_loop env qlen sg now namep addr enc (cc - 1) (unat an) p ?ct fnd ?st2)"
    by (subst ptr_loop.simps) (simp add: "1.prems"(1) n0(1) n1 hd n2(1) st nz pos(1,2) Let_def)
  show ?case
  proof (cases "cc = 0")
    case True
    then show ?thesis using step by auto
  next
    case False
    then obtain n where "ptr_loop env qlen sg now namep addr enc (cc - 1) (unat an) p ?ct fnd ?st2 = Some (Some False, fnd, ?st2\<lparr>ex_name := n\<rparr>)"
      using "1.IH" [rule_format, of "cc - 1" ?st2 ?ct] "1.prems" n0(3) n2(2) by auto
    then show ?thesis using step False by auto
  qed
qed

text \<open>Nothing of such a reply is learnt, not even the PTR record the alias leads to.\<close>

theorem ptr_alias_not_learnt:
  assumes env: "ee_doctors env = []" "\<not> ee_log env" "ee_max_ttl env = 0"
    and msg: "ex_msg st = msg" "qlen < length msg" "MAXDNAME \<le> length (ex_name st)" "qdcount msg = Some 1" "ancount msg = Some an" "an \<noteq> 0"
    and hb: "peek msg 3 = Some hb4" "hb4 AND HB4_RCODE \<noteq> RC_NXDOMAIN"
    and qu: "name_run False msg qlen 12 h ls e f" "h \<le> 255" "f + 4 \<le> qlen" "e + 4 \<le> qlen" "list_all (list_all name_text_char) ls"
      "length (dotted ls) \<le> 960" "peek16 msg e = Some T_PTR" "peek16 msg (e + 2) = Some C_IN"
      "in_arpa_name_2_addr (name_string ls) [0, 0, 0, 0] = (F_IPV4, addr)"
    and own: "name_run False msg qlen (e + 4) h2 ls2 e2 f2" "h2 \<le> 255" "f2 + 10 \<le> qlen" "strcaseeq (name_string ls) (name_string ls2)"
    and rr: "peek16 msg e2 = Some T_CNAME" "peek16 msg (e2 + 2) = Some C_IN" "peek32 msg (e2 + 4) = Some ttl" "peek16 msg (e2 + 8) = Some rdlen"
    and tgt: "name_run False msg qlen (e2 + 10) h3 ls3 e3 f3" "h3 \<le> 255" "f3 \<le> qlen" "list_all (list_all name_text_char) ls3" "length (dotted ls3) < MAXDNAME"
  shows "\<exists>st'. extract_addresses env qlen now sg chk cd st = Some (False, st') \<and> ex_cache st' = cache_start_insert (ex_cache st)"
proof -
  define st0 where "st0 = st\<lparr>ex_cache := cache_start_insert (ex_cache st)\<rparr>"
  obtain n where n: "extract_name msg qlen 12 (ex_name st) True 4 = Some (1, n, e)" "cstr n = Some (name_string ls)" "length n = length (ex_name st)"
    using extract_name_run [OF qu(1) _ msg(3) qu(5) _ qu(2,3)] msg(2) qu(6) by (auto simp: MAXDNAME_def)
  define st1 where "st1 = st0\<lparr>ex_name := n\<rparr>"
  have m1: "ex_msg st1 = msg" "MAXDNAME \<le> length (ex_name st1)" "ex_name st1 = n" using msg(1,3) n(3) by (simp_all add: st1_def st0_def)
  have le: "qlen \<le> length msg" "f \<le> qlen" using msg(2) qu(3) by simp_all
  have sk: "skip_questions msg qlen = Some (Some (e + 4))" by (rule skip_one_question [OF msg(4) qu(1) le(1) qu(4)])
  obtain n' where l: "ptr_loop env qlen sg now 12 addr (ucast F_IPV4) 5 (unat an) (e + 4) 0xffffffff False st1 = Some (Some False, False, st1\<lparr>ex_name := n'\<rparr>)"
    using ptr_alias_gives_up [OF qu(1,2) le(2) qu(5,6) own rr tgt sk msg(5,6) env(3) le(1) m1(1,2)] by blast
  have b: "buf_str n = name_string ls" using cstr_buf_str [OF n(2)] by simp
  have f4: "F_IPV4 \<noteq> 0" by code_simp
  have q: "ptr_question env qlen sg now 12 0 (False, 0) st1 = Some (Some False, (False, 0), st1\<lparr>ex_name := n'\<rparr>)"
    using l msg(5) by (auto simp: ptr_question_def m1 b qu(9) f4 sk)
  have ql: "question_loop env qlen sg chk now (Suc 0) 12 (False, 0) st0 = Some (Some False, st1\<lparr>ex_name := n'\<rparr>)"
    using msg(1) hb n(1) qu(7,8) q by (auto simp: st0_def RCODE_def st1_def Let_def)
  have "extract_addresses env qlen now sg chk cd st = Some (False, st1\<lparr>ex_name := n'\<rparr>)"
    using env(1,2) msg(1,4) ql m1 by (simp add: extract_addresses_def st0_def [symmetric] Let_def del: question_loop.simps) (simp add: st0_def)
  then show ?thesis by (simp add: st1_def st0_def)
qed

subsection \<open>Rebinding\<close>













end
