(* ===== verification/Dnsmasq_Forward.thy ===== *)
theory Dnsmasq_Forward
  imports Dnsmasq_Reply
begin

section \<open>dnsmasq: forwarding to upstream servers (src/dnsmasq/.../src/forward.c)\<close>

text \<open>
  \<open>fwst\<close> is the part of the daemon's state that forwarding uses.  Upstream servers have stable
  identities, of which \<open>srv_list\<close> is the list \<open>daemon->servers\<close>.  The forwarding table \<open>frecs\<close> holds the
  records of queries in the order of their allocation, so that \<open>daemon->frec_list\<close> is walked from the
  last index to the first; a record that was sent to no server is free.  \<open>socks\<close> are the sockets on random ports, counted by
  the records that use them; \<open>closed\<close> collects the descriptors that were closed.  Parameters of the
  environment are the result of \<open>random_sock\<close>, which servers can be reached by \<open>sendto\<close> after
  \<open>retry_send\<close> has been heeded, whether \<open>malloc\<close> succeeds, and the options.
\<close>

subsection \<open>State\<close>

definition SERV_NO_ADDR :: u32 where "SERV_NO_ADDR = 2"
definition SERV_LITERAL_ADDRESS :: u32 where "SERV_LITERAL_ADDRESS = 4"
definition SERV_HAS_DOMAIN :: u32 where "SERV_HAS_DOMAIN = 8"
definition SERV_FOR_NODOTS :: u32 where "SERV_FOR_NODOTS = 32"
definition SERV_TYPE :: u32 where "SERV_TYPE = SERV_HAS_DOMAIN OR SERV_FOR_NODOTS"
definition SERV_WARNED_RECURSIVE :: u32 where "SERV_WARNED_RECURSIVE = 64"
definition SERV_USE_RESOLV :: u32 where "SERV_USE_RESOLV = 1024"
definition SERV_NO_REBIND :: u32 where "SERV_NO_REBIND = 2048"
definition FREC_NOREBIND :: u32 where "FREC_NOREBIND = 1"
definition FREC_CHECKING_DISABLED :: u32 where "FREC_CHECKING_DISABLED = 2"
definition TIMEOUT :: int where "TIMEOUT = 15"
definition FORWARD_TEST :: int where "FORWARD_TEST = 50"
definition FORWARD_TIME :: int where "FORWARD_TIME = 20"
definition RANDOM_SOCKS :: nat where "RANDOM_SOCKS = 64"
definition RC_SERVFAIL :: byte where "RC_SERVFAIL = 2"
definition RC_REFUSED :: byte where "RC_REFUSED = 5"

lemmas serv_defs = SERV_NO_ADDR_def SERV_LITERAL_ADDRESS_def SERV_HAS_DOMAIN_def SERV_FOR_NODOTS_def SERV_TYPE_def SERV_WARNED_RECURSIVE_def
  SERV_USE_RESOLV_def SERV_NO_REBIND_def

record server =
  sv_addr :: mysockaddr
  sv_domain :: bytes
  sv_flags :: u32
  sv_sfd :: "int option"
  sv_queries :: nat
  sv_failed :: nat

record randfd =
  rf_fd :: int
  rf_count :: u16
  rf_family :: nat

record frec =
  fr_source :: mysockaddr
  fr_dest :: u32
  fr_sentto :: "nat option"
  fr_rfd4 :: "nat option"
  fr_iface :: u32
  fr_orig_id :: u16
  fr_new_id :: u16
  fr_fd :: int
  fr_all :: int
  fr_flags :: u32
  fr_crc :: u32
  fr_time :: int

record fwst =
  srv :: "nat \<Rightarrow> server"
  srv_list :: "nat list"
  frecs :: "frec list"
  socks :: "randfd list"
  finger :: nat
  closed :: "int list"
  last_server :: "nat option"
  srv_save :: "nat option"
  rfd_save :: "nat option"
  packet_len :: nat
  fwd_count :: int
  fwd_time :: int
  seed_st :: surf_state
  name_cache :: cst

record fwenv =
  fe_mem :: bool
  fe_sock :: "int option"
  fe_sends :: "nat \<Rightarrow> bool"
  fe_order :: bool
  fe_all_servers :: bool
  fe_nodots_local :: bool
  fe_add_mac :: bool
  fe_neighbours :: "(nat \<times> u32 \<times> bytes) list"
  fe_ftabsize :: nat
  fe_local_ttl :: u32
  fe_buf :: bytes
  fe_no_rebind :: bool
  fe_reply :: prenv

definition sflag :: "u32 \<Rightarrow> server \<Rightarrow> bool" where
  "sflag m sv \<longleftrightarrow> sv_flags sv AND m \<noteq> 0"

definition upd_frec :: "nat \<Rightarrow> (frec \<Rightarrow> frec) \<Rightarrow> fwst \<Rightarrow> fwst" where
  "upd_frec i g st = st\<lparr>frecs := (frecs st)[i := g (frecs st ! i)]\<rparr>"

subsection \<open>The forwarding table\<close>

definition allocate_frec :: "bool \<Rightarrow> int \<Rightarrow> fwst \<Rightarrow> nat option \<times> fwst" where
  "allocate_frec mem now st =
     (if mem then (Some (length (frecs st)),
        st\<lparr>frecs := frecs st @ [\<lparr>fr_source = \<lparr>sa_family = 0, sin_port = 0, sin_addr = 0\<rparr>, fr_dest = 0, fr_sentto = None, fr_rfd4 = None,
          fr_iface = 0, fr_orig_id = 0, fr_new_id = 0, fr_fd = 0, fr_all = 0, fr_flags = 0, fr_crc = 0, fr_time = now\<rparr>]\<rparr>)
      else (None, st))"

text \<open>The second loop of \<open>allocate_rfd\<close>: a socket in use is shared.\<close>

fun share_rfd :: "nat \<Rightarrow> nat list \<Rightarrow> fwst \<Rightarrow> nat option \<times> fwst" where
  "share_rfd fam [] st = (None, st)"
| "share_rfd fam (i # is) st =
     (let j = (i + finger st) mod RANDOM_SOCKS; r = socks st ! j in
      if rf_count r \<noteq> 0 \<and> rf_family r = fam \<and> rf_count r \<noteq> 0xffff
      then (Some j, st\<lparr>finger := j, socks := (socks st)[j := r\<lparr>rf_count := rf_count r + 1\<rparr>]\<rparr>)
      else share_rfd fam is st)"

definition allocate_rfd :: "int option \<Rightarrow> nat \<Rightarrow> fwst \<Rightarrow> nat option \<times> fwst" where
  "allocate_rfd sock fam st =
     (case find (\<lambda>i. rf_count (socks st ! i) = 0) [0..<RANDOM_SOCKS] of
        None \<Rightarrow> share_rfd fam [0..<RANDOM_SOCKS] st
      | Some i \<Rightarrow>
          (case sock of
             Some fd \<Rightarrow> (Some i, st\<lparr>socks := (socks st)[i := \<lparr>rf_fd = fd, rf_count = 1, rf_family = fam\<rparr>]\<rparr>)
           | None \<Rightarrow> share_rfd fam [0..<RANDOM_SOCKS] (st\<lparr>socks := (socks st)[i := (socks st ! i)\<lparr>rf_fd := - 1\<rparr>]\<rparr>)))"

definition drop_rfd :: "nat \<Rightarrow> fwst \<Rightarrow> fwst" where
  "drop_rfd j st =
     (let r = socks st ! j in
      st\<lparr>socks := (socks st)[j := r\<lparr>rf_count := rf_count r - 1\<rparr>], closed := (if rf_count r - 1 = 0 then rf_fd r # closed st else closed st)\<rparr>)"

definition free_frec :: "nat \<Rightarrow> fwst \<Rightarrow> fwst" where
  "free_frec i st =
     upd_frec i (\<lambda>f. f\<lparr>fr_rfd4 := None, fr_sentto := None, fr_flags := 0\<rparr>)
       (case fr_rfd4 (frecs st ! i) of None \<Rightarrow> st | Some j \<Rightarrow> drop_rfd j st)"

text \<open>The loop of \<open>get_new_frec\<close>: the oldest record in use and a free one, both if there are any.\<close>

fun frec_scan :: "int \<Rightarrow> nat list \<Rightarrow> nat option \<Rightarrow> nat option \<Rightarrow> fwst \<Rightarrow> nat option \<times> nat option \<times> fwst" where
  "frec_scan now [] oldest target st = (oldest, target, st)"
| "frec_scan now (i # is) oldest target st =
     (let f = frecs st ! i in
      if fr_sentto f = None then frec_scan now is oldest (Some i) st
      else
        (let old = now - fr_time f \<ge> 4 * TIMEOUT;
             oldest' = (case oldest of None \<Rightarrow> Some i | Some k \<Rightarrow> if fr_time f - fr_time (frecs st ! k) \<le> 0 then Some i else Some k) in
         frec_scan now is oldest' (if old then Some i else target) (if old then free_frec i st else st)))"

definition frec_walk :: "fwst \<Rightarrow> nat list" where
  "frec_walk st = rev [0..<length (frecs st)]"

text \<open>A new record is free; what \<open>malloc\<close> leaves in its other fields is written by \<open>forward_query\<close>
  before it is read, and is zero here.  \<open>get_new_frec(now, wait)\<close>: \<open>polls\<close> tells that \<open>wait\<close> is not NULL, whose value is the second result.\<close>

definition get_new_frec :: "fwenv \<Rightarrow> int \<Rightarrow> bool \<Rightarrow> fwst \<Rightarrow> nat option \<times> int \<times> fwst" where
  "get_new_frec env now polls st =
     (case frec_scan now (frec_walk st) None None st of (oldest, target, st1) \<Rightarrow>
        (case target of
           Some t \<Rightarrow> (Some t, 0, upd_frec t (\<lambda>f. f\<lparr>fr_time := now\<rparr>) st1)
         | None \<Rightarrow>
             let count = length (frecs st);
                 late = (case oldest of None \<Rightarrow> False | Some k \<Rightarrow> now - fr_time (frecs st1 ! k) \<ge> TIMEOUT) in
             if late then
               (let k = the oldest in
                if now - fr_time (frecs st1 ! k) < 2 * TIMEOUT \<and> count \<le> fe_ftabsize env \<and> fe_mem env
                then (case allocate_frec (fe_mem env) now st1 of (f, st2) \<Rightarrow> (f, 0, st2))
                else if \<not> polls then (Some k, 0, upd_frec k (\<lambda>f. f\<lparr>fr_time := now\<rparr>) (free_frec k st1))
                else (Some k, 0, st1))
             else if count > fe_ftabsize env then
               (None, (case oldest of None \<Rightarrow> 0 | Some k \<Rightarrow> fr_time (frecs st1 ! k) + TIMEOUT - now), st1)
             else
               (case allocate_frec (fe_mem env) now st1 of (f, st2) \<Rightarrow> (f, if f = None then 1 else 0, st2))))"

definition lookup_frec :: "u16 \<Rightarrow> u32 \<Rightarrow> fwst \<Rightarrow> nat option" where
  "lookup_frec ident crc st =
     find (\<lambda>i. let f = frecs st ! i in fr_sentto f \<noteq> None \<and> fr_new_id f = ident \<and> (fr_crc f = crc \<or> crc = 0xffffffff)) (frec_walk st)"

definition lookup_frec_by_sender :: "u16 \<Rightarrow> mysockaddr \<Rightarrow> u32 \<Rightarrow> fwst \<Rightarrow> nat option" where
  "lookup_frec_by_sender ident addr crc st =
     find (\<lambda>i. let f = frecs st ! i in fr_sentto f \<noteq> None \<and> fr_orig_id f = ident \<and> fr_crc f = crc \<and> sockaddr_isequal (fr_source f) addr)
       (frec_walk st)"

text \<open>\<open>server_gone\<close>; the caller unlinks the server.\<close>

definition server_gone :: "nat \<Rightarrow> fwst \<Rightarrow> fwst" where
  "server_gone x st =
     (let st1 = fold (\<lambda>i st. if fr_sentto (frecs st ! i) = Some x then free_frec i st else st) (frec_walk st) st in
      st1\<lparr>last_server := (if last_server st1 = Some x then None else last_server st1),
          srv_save := (if srv_save st1 = Some x then None else srv_save st1)\<rparr>)"

text \<open>\<open>do ret = rand16(); while (lookup_frec(ret, crc));\<close>\<close>

partial_function (option) get_id :: "u32 \<Rightarrow> fwst \<Rightarrow> (u16 \<times> fwst) option" where
  "get_id crc st =
     Option.bind (rand16 (seed_st st)) (\<lambda>(r, s).
       if lookup_frec r crc st \<noteq> None then get_id crc (st\<lparr>seed_st := s\<rparr>) else Some (r, st\<lparr>seed_st := s\<rparr>))"

declare get_id.simps [code]

subsection \<open>Choosing servers\<close>

record search_st =
  ss_type :: u32
  ss_domain :: bytes
  ss_addr :: bytes
  ss_norebind :: bool
  ss_matchlen :: nat
  ss_flags :: u32

definition serv_af :: "server \<Rightarrow> u32" where
  "serv_af sv = (if sa_family (sv_addr sv) = AF_INET then F_IPV4 else F_IPV6)"

text \<open>The answer of a local or literal address: the flags and, where the family fits the question, the
  address.\<close>

definition serv_answer :: "u32 \<Rightarrow> server \<Rightarrow> u32 \<Rightarrow> search_st \<Rightarrow> search_st" where
  "serv_answer qtype sv other ss =
     (if sflag SERV_NO_ADDR sv then ss\<lparr>ss_flags := F_NXDOMAIN\<rparr>
      else if sflag SERV_LITERAL_ADDRESS sv then
        (if serv_af sv AND qtype \<noteq> 0 then ss\<lparr>ss_flags := serv_af sv, ss_addr := be32 (sin_addr (sv_addr sv))\<rparr>
         else if ss_flags ss = 0 \<or> ss_flags ss AND F_NXDOMAIN \<noteq> 0 then ss\<lparr>ss_flags := F_NOERR\<rparr> else ss)
      else ss\<lparr>ss_flags := other\<rparr>)"

text \<open>Whether a name ends in a domain, at a dot.\<close>

definition in_domain :: "bytes \<Rightarrow> bytes \<Rightarrow> bool" where
  "in_domain qdomain dm \<longleftrightarrow>
     (let n = length qdomain; d = length dm in
      d \<le> n \<and> strcaseeq (drop (n - d) qdomain) dm \<and> (d = 0 \<or> n = d \<or> qdomain ! (n - d - 1) = 46))"

definition search_server :: "u32 \<Rightarrow> bytes \<Rightarrow> server \<Rightarrow> search_st \<Rightarrow> search_st" where
  "search_server qtype qdomain sv ss =
     (if sflag SERV_FOR_NODOTS sv \<and> ss_type ss \<noteq> SERV_HAS_DOMAIN \<and> 46 \<notin> set qdomain \<and> qdomain \<noteq> []
      then serv_answer qtype sv (ss_flags ss) (ss\<lparr>ss_type := SERV_FOR_NODOTS\<rparr>)
      else if sflag SERV_HAS_DOMAIN sv \<and> in_domain qdomain (sv_domain sv) then
        (if sflag SERV_NO_REBIND sv then ss\<lparr>ss_norebind := True\<rparr>
         else
           (let d = length (sv_domain sv);
                skips = (d \<noteq> 0 \<and> d = ss_matchlen ss \<and>
                  (if sflag SERV_LITERAL_ADDRESS sv then serv_af sv AND qtype = 0 \<and> ss_flags ss = 0
                   else ss_flags ss AND (F_IPV4 OR F_IPV6) \<noteq> 0)) in
            if \<not> skips \<and> d \<ge> ss_matchlen ss
            then serv_answer qtype sv 0
              (ss\<lparr>ss_type := sv_flags sv AND (SERV_HAS_DOMAIN OR SERV_USE_RESOLV OR SERV_NO_REBIND),
                  ss_domain := sv_domain sv, ss_matchlen := d\<rparr>)
            else ss))
      else ss)"

text \<open>The loop over the servers.\<close>

definition match_servers :: "u32 \<Rightarrow> bytes \<Rightarrow> fwst \<Rightarrow> search_st" where
  "match_servers qtype qdomain st = fold (search_server qtype qdomain) (map (srv st) (srv_list st))
     \<lparr>ss_type = 0, ss_domain = [], ss_addr = [], ss_norebind = False, ss_matchlen = 0, ss_flags = 0\<rparr>"

definition search_servers :: "fwenv \<Rightarrow> int \<Rightarrow> u32 \<Rightarrow> bytes \<Rightarrow> fwst \<Rightarrow> (search_st \<times> fwst) option" where
  "search_servers env now qtype qdomain st = do {
     let ss = match_servers qtype qdomain st;
     let flags1 = (if ss_flags ss = 0 \<and> qtype AND F_QUERY = 0 \<and> fe_nodots_local env \<and> 46 \<notin> set qdomain \<and> qdomain \<noteq> []
                   then F_NOERR else ss_flags ss);
     (known, s) \<leftarrow> (if flags1 = F_NXDOMAIN then check_for_local_domain (pe_names (fe_reply env)) qdomain now (name_cache st)
                   else Some (False, name_cache st));
     let flags2 = (if known then F_NOERR else flags1);
     Some (if flags2 = 0 \<and> ss_type ss AND SERV_USE_RESOLV \<noteq> 0 then ss\<lparr>ss_flags := 0, ss_type := 0, ss_domain := []\<rparr>
           else ss\<lparr>ss_flags := flags2\<rparr>, st\<lparr>name_cache := s\<rparr>) }"

subsection \<open>Sending a query on\<close>

datatype fw_out =
    To_server nat int bytes
  | To_client int mysockaddr u32 u32 "nat option" bytes

text \<open>The walk over the servers from \<open>start\<close> on, once round the list, and the server after one.\<close>

definition ring :: "nat list \<Rightarrow> nat \<Rightarrow> nat list" where
  "ring l start = dropWhile (\<lambda>x. x \<noteq> start) l @ takeWhile (\<lambda>x. x \<noteq> start) l"

definition after :: "nat \<Rightarrow> nat list \<Rightarrow> nat option" where
  "after x l = (case dropWhile (\<lambda>y. y \<noteq> x) l of _ # y # _ \<Rightarrow> Some y | _ \<Rightarrow> (case l of [] \<Rightarrow> None | y # _ \<Rightarrow> Some y))"

definition eligible :: "u32 \<Rightarrow> bytes \<Rightarrow> server \<Rightarrow> bool" where
  "eligible ty dm sv \<longleftrightarrow> ty = sv_flags sv AND SERV_TYPE \<and> (ty \<noteq> SERV_HAS_DOMAIN \<or> strcaseeq dm (sv_domain sv)) \<and>
     \<not> sflag SERV_LITERAL_ADDRESS sv"

text \<open>The socket to use for a server: its own, the one of the record, or a new one.\<close>

definition pick_fd :: "fwenv \<Rightarrow> nat \<Rightarrow> nat \<Rightarrow> fwst \<Rightarrow> int option \<times> fwst" where
  "pick_fd env f x st =
     (case sv_sfd (srv st x) of
        Some fd \<Rightarrow> (Some fd, st)
      | None \<Rightarrow>
          (case fr_rfd4 (frecs st ! f) of
             Some j \<Rightarrow> (Some (rf_fd (socks st ! j)), st\<lparr>rfd_save := Some j\<rparr>)
           | None \<Rightarrow>
               (case allocate_rfd (fe_sock env) AF_INET st of
                  (None, st1) \<Rightarrow> (None, st1)
                | (Some j, st1) \<Rightarrow>
                    (Some (rf_fd (socks st1 ! j)), (upd_frec f (\<lambda>r. r\<lparr>fr_rfd4 := Some j\<rparr>) st1)\<lparr>rfd_save := Some j\<rparr>))))"

definition mark_sent :: "nat \<Rightarrow> nat \<Rightarrow> nat \<Rightarrow> fwst \<Rightarrow> fwst" where
  "mark_sent f x pl st =
     upd_frec f (\<lambda>r. r\<lparr>fr_sentto := Some x\<rparr>)
       (st\<lparr>srv := (srv st)(x := (srv st x)\<lparr>sv_queries := sv_queries (srv st x) + 1\<rparr>), srv_save := Some x, packet_len := pl\<rparr>)"

fun send_ring :: "fwenv \<Rightarrow> u32 \<Rightarrow> bytes \<Rightarrow> bytes \<Rightarrow> nat \<Rightarrow> nat \<Rightarrow> nat list \<Rightarrow> bool \<Rightarrow> fwst \<Rightarrow> bool \<times> fw_out list \<times> fwst" where
  "send_ring env ty dm msg pl f [] fwd st = (fwd, [], st)"
| "send_ring env ty dm msg pl f (x # xs) fwd st =
     (if \<not> eligible ty dm (srv st x) then send_ring env ty dm msg pl f xs fwd st
      else
        (case pick_fd env f x st of
           (None, st1) \<Rightarrow> (fwd, [], st1)
         | (Some fd, st1) \<Rightarrow>
             if \<not> fe_sends env x then send_ring env ty dm msg pl f xs fwd st1
             else
               (let st2 = mark_sent f x pl st1; out = To_server x fd (take pl msg) in
                if fr_all (frecs st2 ! f) = 0 then (True, [out], st2)
                else
                  (case send_ring env ty dm msg pl f xs True (upd_frec f (\<lambda>r. r\<lparr>fr_all := fr_all r + 1\<rparr>) st2) of
                     (r, outs, st3) \<Rightarrow> (r, out # outs, st3)))))"

text \<open>A retry on an existing query.\<close>

definition retry_frec :: "fwenv \<Rightarrow> nat \<Rightarrow> fwst \<Rightarrow> fwst" where
  "retry_frec env f st =
     (let x = the (fr_sentto (frecs st ! f));
          st1 = st\<lparr>srv := (srv st)(x := (srv st x)\<lparr>sv_failed := sv_failed (srv st x) + 1\<rparr>)\<rparr> in
      if fe_order env then st1 else (upd_frec f (\<lambda>r. r\<lparr>fr_all := 1\<rparr>) st1)\<lparr>last_server := None\<rparr>)"

text \<open>A record for a new query, and the server to start with.\<close>

definition fill_frec ::
  "fwenv \<Rightarrow> int \<Rightarrow> mysockaddr \<Rightarrow> u32 \<Rightarrow> u32 \<Rightarrow> u16 \<Rightarrow> u16 \<Rightarrow> u32 \<Rightarrow> bool \<Rightarrow> bool \<Rightarrow> nat \<Rightarrow> fwst \<Rightarrow> fwst" where
  "fill_frec env fd addr dst iface orig new crc norebind cd f st =
     upd_frec f (\<lambda>r. r\<lparr>fr_source := addr, fr_dest := dst, fr_iface := iface, fr_orig_id := orig, fr_new_id := new, fr_fd := fd,
       fr_crc := crc, fr_all := 0,
       fr_flags := (fr_flags r OR (if norebind then FREC_NOREBIND else 0)) OR (if cd then FREC_CHECKING_DISABLED else 0)\<rparr>) st"

definition start_server :: "fwenv \<Rightarrow> u32 \<Rightarrow> int \<Rightarrow> nat \<Rightarrow> fwst \<Rightarrow> nat \<times> fwst" where
  "start_server env ty now f st =
     (let first = hd (srv_list st); all = upd_frec f (\<lambda>r. r\<lparr>fr_all := 1\<rparr>) in
      if ty = 0 then
        (if fe_order env then (first, st)
         else
           (case last_server st of
              None \<Rightarrow> (first, (all st)\<lparr>fwd_count := 0, fwd_time := now\<rparr>)
            | Some x \<Rightarrow>
                (let st1 = st\<lparr>fwd_count := fwd_count st + 1\<rparr> in
                 if fwd_count st > FORWARD_TEST \<or> now - fwd_time st > FORWARD_TIME
                 then (first, (all st1)\<lparr>fwd_count := 0, fwd_time := now\<rparr>)
                 else (x, st1))))
      else (first, if fe_order env then st else all st))"

text \<open>The part after the record and the first server have been chosen: \<open>flags\<close> zero and a record
  means forwarding; otherwise, or when no server can be reached, the client is answered.\<close>

definition send_or_answer ::
  "fwenv \<Rightarrow> int \<Rightarrow> mysockaddr option \<Rightarrow> u32 \<Rightarrow> u32 \<Rightarrow> bytes \<Rightarrow> nat \<Rightarrow> u32 \<Rightarrow> bytes \<Rightarrow> u32 \<Rightarrow> bytes \<Rightarrow> (nat \<times> nat) option \<Rightarrow> fwst \<Rightarrow>
   (bool \<times> fw_out list \<times> fwst) option" where
  "send_or_answer env fd udpaddr dst iface msg pl flags addr ty dm target st = do {
     (forwarded, outs, msg1, pl1, st1) \<leftarrow>
       (case target of
          Some (f, start) \<Rightarrow>
            if flags = 0 then do {
              (m, n) \<leftarrow> (case udpaddr of Some a \<Rightarrow> if fe_add_mac env then add_mac msg pl (unat PACKETSZ) a (fe_neighbours env) else Some (msg, pl)
                       | None \<Rightarrow> Some (msg, pl));
              (case send_ring env ty dm m n f (ring (srv_list st) start) False st of
                 (True, outs, st1) \<Rightarrow> Some (True, outs, m, n, st1)
               | (False, outs, st1) \<Rightarrow> do {
                   m1 \<leftarrow> poke16 m 0 (fr_orig_id (frecs st1 ! f));
                   Some (False, outs, m1, n, free_frec f st1) }) }
            else Some (False, [], msg, pl, st)
        | None \<Rightarrow> Some (False, [], msg, pl, st));
     if forwarded then Some (True, outs, st1)
     else if fd = - 1 then Some (False, outs, st1)
     else do {
       (n, m) \<leftarrow> setup_reply msg1 pl1 addr flags (fe_local_ttl env);
       (case udpaddr of
          None \<Rightarrow> None
        | Some a \<Rightarrow> Some (False, outs @ [To_client fd a dst iface n m], st1)) } }"

text \<open>A new query: the servers decide, then a record is taken.\<close>

definition new_query ::
  "fwenv \<Rightarrow> int \<Rightarrow> mysockaddr \<Rightarrow> u32 \<Rightarrow> u32 \<Rightarrow> bytes \<Rightarrow> int \<Rightarrow> u32 \<Rightarrow> u32 \<Rightarrow> bytes \<Rightarrow> fwst \<Rightarrow>
   (u32 \<times> bytes \<times> u32 \<times> bytes \<times> bytes \<times> (nat \<times> nat) option \<times> fwst) option" where
  "new_query env fd addr dst iface msg now crc gotname qname st = do {
     (ss, st1) \<leftarrow> (if gotname \<noteq> 0 then search_servers env now gotname qname st
        else Some (\<lparr>ss_type = 0, ss_domain = [], ss_addr = [], ss_norebind = False, ss_matchlen = 0, ss_flags = 0\<rparr>, st));
     if ss_flags ss \<noteq> 0 then Some (ss_flags ss, ss_addr ss, ss_type ss, ss_domain ss, msg, None, st1)
     else
       (case get_new_frec env now False st1 of
          (None, _, st2) \<Rightarrow> Some (F_NEG, ss_addr ss, ss_type ss, ss_domain ss, msg, None, st2)
        | (Some f, _, st2) \<Rightarrow> do {
            orig \<leftarrow> peek16 msg 0;
            (new, st3) \<leftarrow> get_id crc st2;
            hb4 \<leftarrow> peek msg 3;
            let st4 = fill_frec env fd addr dst iface orig new crc (ss_norebind ss) (hb4 AND HB4_CD \<noteq> 0) f st3;
            m \<leftarrow> poke16 msg 0 new;
            (case start_server env (ss_type ss) now f st4 of
               (start, st5) \<Rightarrow> Some (0, ss_addr ss, ss_type ss, ss_domain ss, m, Some (f, start), st5)) }) }"

definition forward_query ::
  "fwenv \<Rightarrow> int \<Rightarrow> mysockaddr option \<Rightarrow> u32 \<Rightarrow> u32 \<Rightarrow> bytes \<Rightarrow> nat \<Rightarrow> int \<Rightarrow> nat option \<Rightarrow> fwst \<Rightarrow> (bool \<times> fw_out list \<times> fwst) option" where
  "forward_query env fd udpaddr dst iface msg pl now fwd st = do {
     crc \<leftarrow> questions_crc msg pl (fe_buf env);
     (gotname, _, buf) \<leftarrow> extract_request msg pl (fe_buf env);
     hb4 \<leftarrow> peek msg 3;
     msg1 \<leftarrow> poke msg 3 (hb4 AND NOT HB4_AD);
     ident \<leftarrow> peek16 msg1 0;
     (flags, addr, ty, dm, msg2, target, st1) \<leftarrow>
       (if srv_list st = [] then Some (0, [], 0, [], msg1, None, st)
        else
          (case (case fwd of Some f \<Rightarrow> Some f | None \<Rightarrow> (case udpaddr of None \<Rightarrow> None | Some a \<Rightarrow> lookup_frec_by_sender ident a crc st)) of
             Some f \<Rightarrow> do {
               x \<leftarrow> fr_sentto (frecs st ! f);
               start \<leftarrow> after x (srv_list st);
               m \<leftarrow> poke16 msg1 0 (fr_new_id (frecs st ! f));
               Some (0, [], sv_flags (srv st x) AND SERV_TYPE, sv_domain (srv st x), m, Some (f, start), retry_frec env f st) }
           | None \<Rightarrow>
               (case udpaddr of
                  None \<Rightarrow> None
                | Some a \<Rightarrow> new_query env fd a dst iface msg1 now crc gotname (takeWhile (\<lambda>c. c \<noteq> 0) buf) st)));
     send_or_answer env fd udpaddr dst iface msg2 pl flags addr ty dm target st1 }"

subsection \<open>Replies\<close>

text \<open>The server that answered becomes the one to ask first.\<close>

definition known_server :: "mysockaddr \<Rightarrow> fwst \<Rightarrow> nat option" where
  "known_server addr st = find (\<lambda>x. \<not> sflag (SERV_LITERAL_ADDRESS OR SERV_NO_ADDR) (srv st x) \<and> sockaddr_isequal (sv_addr (srv st x)) addr) (srv_list st)"

definition good_server :: "mysockaddr \<Rightarrow> fwst \<Rightarrow> nat option" where
  "good_server addr st =
     find (\<lambda>x. \<not> sflag (SERV_LITERAL_ADDRESS OR SERV_HAS_DOMAIN OR SERV_FOR_NODOTS OR SERV_NO_ADDR) (srv st x) \<and>
       sockaddr_isequal (sv_addr (srv st x)) addr) (srv_list st)"

definition note_server :: "fwenv \<Rightarrow> mysockaddr \<Rightarrow> bool \<Rightarrow> nat \<Rightarrow> fwst \<Rightarrow> nat option \<times> fwst" where
  "note_server env addr failed x st =
     (if sv_flags (srv st x) AND SERV_TYPE = 0 then
        (let server = (if failed then None else case good_server addr st of Some y \<Rightarrow> Some y | None \<Rightarrow> Some x) in
         (server, if fe_all_servers env then st else st\<lparr>last_server := server\<rparr>))
      else (Some x, st))"

text \<open>The query made again from the reply of a server that failed: the packet and, if it can be sent, its
  length.\<close>

definition remake_query :: "bytes \<Rightarrow> nat \<Rightarrow> (bytes \<times> nat option) option" where
  "remake_query msg n = do {
     (ph, is_sign) \<leftarrow> find_pseudoheader msg n True;
     if is_sign then Some (msg, None)
     else do {
       m1 \<leftarrow> poke16 msg 6 0; m2 \<leftarrow> poke16 m1 8 0; m3 \<leftarrow> poke16 m2 10 0;
       (m4, nn) \<leftarrow> resize_packet m3 n (map_option (\<lambda>(p, l, _). take l (drop p msg)) ph);
       if nn = 0 then Some (m4, None)
       else do {
         hb3 \<leftarrow> peek m4 2;
         m5 \<leftarrow> poke m4 2 (hb3 AND NOT (HB3_QR OR HB3_TC));
         Some (m5, Some nn) } } }"

text \<open>The call of \<open>process_reply\<close>, which rewrites the packet, takes its records into the cache and marks
  a server that refuses recursion.\<close>

definition run_process :: "fwenv \<Rightarrow> bytes \<Rightarrow> int \<Rightarrow> nat option \<Rightarrow> nat \<Rightarrow> bool \<Rightarrow> bool \<Rightarrow> fwst \<Rightarrow> (nat \<times> bytes \<times> fwst) option" where
  "run_process env msg now server n chk cd st = do {
     let warn = (case server of None \<Rightarrow> False | Some x \<Rightarrow> \<not> sflag SERV_WARNED_RECURSIVE (srv st x));
     (nn, warned, ex) \<leftarrow> process_reply (fe_reply env) now warn n chk cd \<lparr>ex_msg = msg, ex_name = fe_buf env, ex_cache = name_cache st\<rparr>;
     let srv' = (case server of
                   Some x \<Rightarrow> if warned then (srv st)(x := (srv st x)\<lparr>sv_flags := sv_flags (srv st x) OR SERV_WARNED_RECURSIVE\<rparr>) else srv st
                 | None \<Rightarrow> srv st);
     Some (nn, ex_msg ex, st\<lparr>srv := srv', name_cache := ex_cache ex\<rparr>) }"

definition finish_reply ::
  "fwenv \<Rightarrow> bytes \<Rightarrow> int \<Rightarrow> nat option \<Rightarrow> nat \<Rightarrow> byte \<Rightarrow> nat \<Rightarrow> fwst \<Rightarrow> (fw_out list \<times> fwst) option" where
  "finish_reply env msg now server n rc f st =
     (let a = fr_all (frecs st ! f);
          st1 = (if a = 0 then st else upd_frec f (\<lambda>r. r\<lparr>fr_all := a - 1\<rparr>) st) in
      if a = 0 \<or> a - 1 = 1 \<or> (rc \<noteq> RC_REFUSED \<and> rc \<noteq> RC_SERVFAIL) then
        (let r = frecs st1 ! f in do {
           (nn, m, st2) \<leftarrow> run_process env msg now server n (fe_no_rebind env \<and> fr_flags r AND FREC_NOREBIND = 0) (fr_flags r AND FREC_CHECKING_DISABLED \<noteq> 0) st1;
           outs \<leftarrow> (if nn = 0 then Some []
             else do {
               m1 \<leftarrow> poke16 m 0 (fr_orig_id r);
               hb4 \<leftarrow> peek m1 3;
               m2 \<leftarrow> poke m1 3 (hb4 OR HB4_RA);
               Some [To_client (fr_fd r) (fr_source r) (fr_dest r) (fr_iface r) (Some nn) m2] });
           Some (outs, free_frec f st2) })
      else Some ([], st1))"

text \<open>A reply that belongs to the record \<open>f\<close>.\<close>

definition reply_to :: "fwenv \<Rightarrow> mysockaddr \<Rightarrow> bytes \<Rightarrow> nat \<Rightarrow> int \<Rightarrow> nat \<Rightarrow> fwst \<Rightarrow> (fw_out list \<times> fwst) option" where
  "reply_to env serveraddr msg n now f st = do {
     x \<leftarrow> fr_sentto (frecs st ! f);
     rc \<leftarrow> RCODE msg;
     (m, again) \<leftarrow> (if (rc = RC_SERVFAIL \<or> rc = RC_REFUSED) \<and> \<not> fe_order env \<and> fr_all (frecs st ! f) = 0
              then remake_query msg n else Some (msg, None));
     (case again of
        Some nn \<Rightarrow> map_option (\<lambda>(_, outs, st1). (outs, st1)) (forward_query env (- 1) None 0 0 m nn now (Some f) st)
      | None \<Rightarrow>
          (case note_server env serveraddr (rc = RC_SERVFAIL \<or> rc = RC_REFUSED) x st of
             (server, st1) \<Rightarrow> finish_reply env m now server n rc f st1)) }"

definition reply_query :: "fwenv \<Rightarrow> mysockaddr \<Rightarrow> bytes \<Rightarrow> nat \<Rightarrow> int \<Rightarrow> fwst \<Rightarrow> (fw_out list \<times> fwst) option" where
  "reply_query env serveraddr msg n now st0 =
     (let st = st0\<lparr>srv_save := None\<rparr> in
      if known_server serveraddr st = None \<or> n < 12 then Some ([], st)
      else do {
        hb3 \<leftarrow> peek msg 2;
        if hb3 AND HB3_QR = 0 then Some ([], st)
        else do {
          ident \<leftarrow> peek16 msg 0;
          crc \<leftarrow> questions_crc msg n (fe_buf env);
          (case lookup_frec ident crc st of
             None \<Rightarrow> Some ([], st)
           | Some f \<Rightarrow> reply_to env serveraddr msg n now f st) } })"

end
