(* ===== verification/Dnsmasq_Table.thy ===== *)
theory Dnsmasq_Table
  imports Dnsmasq_Forward
begin

section \<open>dnsmasq: the forwarding table and its sockets\<close>

text \<open>
  The invariant of forwarding: a socket on a random port is counted once for every record that uses
  it, so that it is closed when the last of them is freed and not before; a free record has no socket;
  no two records in use have the same id and checksum, so that a reply belongs to one client; records
  refer to servers of the list only.  The parameter \<open>e\<close> is a record under construction, which has
  an id and may have a socket before it is in use.
\<close>

subsection \<open>The invariant\<close>

definition uses :: "fwst \<Rightarrow> nat \<Rightarrow> nat" where
  "uses st j = length (filter (\<lambda>f. fr_rfd4 f = Some j) (frecs st))"

definition sock_ok :: "fwst \<Rightarrow> bool" where
  "sock_ok st \<longleftrightarrow> length (socks st) = RANDOM_SOCKS \<and> (\<forall>i < length (frecs st). \<forall>j. fr_rfd4 (frecs st ! i) = Some j \<longrightarrow> j < RANDOM_SOCKS) \<and>
     (\<forall>j < RANDOM_SOCKS. unat (rf_count (socks st ! j)) = uses st j)"

definition busy :: "fwst \<Rightarrow> nat \<Rightarrow> bool" where
  "busy st i \<longleftrightarrow> i < length (frecs st) \<and> fr_sentto (frecs st ! i) \<noteq> None"

definition id_ok :: "nat option \<Rightarrow> fwst \<Rightarrow> bool" where
  "id_ok e st \<longleftrightarrow> (\<forall>i j. (busy st i \<or> e = Some i) \<and> (busy st j \<or> e = Some j) \<and>
     fr_new_id (frecs st ! i) = fr_new_id (frecs st ! j) \<and> fr_crc (frecs st ! i) = fr_crc (frecs st ! j) \<longrightarrow> i = j)"

definition srv_ok :: "fwst \<Rightarrow> bool" where
  "srv_ok st \<longleftrightarrow> distinct (srv_list st) \<and> (\<forall>i < length (frecs st). \<forall>x. fr_sentto (frecs st ! i) = Some x \<longrightarrow> x \<in> set (srv_list st)) \<and>
     (\<forall>x. last_server st = Some x \<longrightarrow> x \<in> set (srv_list st))"

definition finv :: "nat option \<Rightarrow> fwst \<Rightarrow> bool" where
  "finv e st \<longleftrightarrow> sock_ok st \<and> id_ok e st \<and> srv_ok st \<and> (\<forall>i. e = Some i \<longrightarrow> i < length (frecs st)) \<and>
     (\<forall>i < length (frecs st). e \<noteq> Some i \<and> fr_sentto (frecs st ! i) = None \<longrightarrow> fr_rfd4 (frecs st ! i) = None)"

abbreviation fwd_inv :: "fwst \<Rightarrow> bool" where "fwd_inv \<equiv> finv None"

subsection \<open>Records\<close>

lemma upd_frec_simps [simp]:
  "srv (upd_frec i g st) = srv st" "srv_list (upd_frec i g st) = srv_list st" "socks (upd_frec i g st) = socks st"
  "last_server (upd_frec i g st) = last_server st" "name_cache (upd_frec i g st) = name_cache st"
  "length (frecs (upd_frec i g st)) = length (frecs st)" "seed_st (upd_frec i g st) = seed_st st"
  by (simp_all add: upd_frec_def)

lemma upd_frec_nth: "k < length (frecs st) \<Longrightarrow> frecs (upd_frec i g st) ! k = (if k = i then g (frecs st ! i) else frecs st ! k)"
  by (simp add: upd_frec_def nth_list_update)

lemma count_list_update:
  "i < length xs \<Longrightarrow> length (filter P (xs[i := v])) + of_bool (P (xs ! i)) = length (filter P xs) + of_bool (P v)"
proof (induction xs arbitrary: i)
  case (Cons x xs)
  then show ?case by (cases i) auto
qed simp

lemma uses_upd:
  "i < length (frecs st) \<Longrightarrow> uses (upd_frec i g st) j + of_bool (fr_rfd4 (frecs st ! i) = Some j) = uses st j + of_bool (fr_rfd4 (g (frecs st ! i)) = Some j)"
  using count_list_update [of i "frecs st" "\<lambda>f. fr_rfd4 f = Some j" "g (frecs st ! i)"] by (simp add: uses_def upd_frec_def)

lemma uses_pos: "i < length (frecs st) \<Longrightarrow> fr_rfd4 (frecs st ! i) = Some j \<Longrightarrow> 0 < uses st j"
  by (auto simp: uses_def filter_empty_conv)

text \<open>A change of a record that keeps its socket, whether it is in use, and its id.\<close>

lemma finv_upd:
  assumes "finv e st" and g: "\<And>r. fr_rfd4 (g r) = fr_rfd4 r" "\<And>r. fr_sentto (g r) = fr_sentto r" "\<And>r. fr_new_id (g r) = fr_new_id r" "\<And>r. fr_crc (g r) = fr_crc r"
  shows "finv e (upd_frec i g st)"
proof (cases "i < length (frecs st)")
  case True
  have u: "uses (upd_frec i g st) j = uses st j" for j using uses_upd [OF True, of g j] g(1) by simp
  have n: "fr_rfd4 (frecs (upd_frec i g st) ! k) = fr_rfd4 (frecs st ! k)" "fr_sentto (frecs (upd_frec i g st) ! k) = fr_sentto (frecs st ! k)"
    "fr_new_id (frecs (upd_frec i g st) ! k) = fr_new_id (frecs st ! k)" "fr_crc (frecs (upd_frec i g st) ! k) = fr_crc (frecs st ! k)" if "k < length (frecs st)" for k
    using that g by (simp_all add: upd_frec_nth)
  have b: "busy (upd_frec i g st) k = busy st k" for k using n(2) by (auto simp: busy_def)
  have bl: "busy st k \<Longrightarrow> k < length (frecs st)" for k by (simp add: busy_def)
  show ?thesis
    using assms(1) bl n unfolding finv_def sock_ok_def id_ok_def srv_ok_def b u by (simp, metis)
next
  case False
  then have "upd_frec i g st = st" by (simp add: upd_frec_def list_update_beyond not_less)
  then show ?thesis using assms(1) by simp
qed

lemma finv_other:
  assumes "finv e st" and "frecs st' = frecs st" and "socks st' = socks st" and "srv_list st' = srv_list st"
    and "\<forall>x. last_server st' = Some x \<longrightarrow> x \<in> set (srv_list st)"
  shows "finv e st'"
  using assms by (simp add: finv_def sock_ok_def id_ok_def srv_ok_def busy_def uses_def)

text \<open>A record can be treated as under construction exactly while it is in use.\<close>

lemma finv_busy: "busy st f \<Longrightarrow> finv (Some f) st = finv None st"
proof -
  assume b: "busy st f"
  then have c: "f < length (frecs st)" "fr_sentto (frecs st ! f) \<noteq> None" by (simp_all add: busy_def)
  have a: "(busy st i \<or> Some f = Some i) = busy st i" for i using b by blast
  have d: "(Some f \<noteq> Some i \<and> fr_sentto (frecs st ! i) = None) = (fr_sentto (frecs st ! i) = None)" for i using c(2) by auto
  have e: "(busy st i \<or> None = Some i) = busy st i" "(None \<noteq> Some i \<and> fr_sentto (frecs st ! i) = None) = (fr_sentto (frecs st ! i) = None)" for i by simp_all
  show ?thesis unfolding finv_def id_ok_def a d e using c(1) by simp
qed

lemma drop_rfd_simps [simp]:
  "frecs (drop_rfd j st) = frecs st" "srv (drop_rfd j st) = srv st" "srv_list (drop_rfd j st) = srv_list st"
  "last_server (drop_rfd j st) = last_server st" "name_cache (drop_rfd j st) = name_cache st" "seed_st (drop_rfd j st) = seed_st st"
  by (simp_all add: drop_rfd_def Let_def)

lemma free_frec_simps [simp]:
  "srv (free_frec i st) = srv st" "srv_list (free_frec i st) = srv_list st" "last_server (free_frec i st) = last_server st"
  "name_cache (free_frec i st) = name_cache st" "length (frecs (free_frec i st)) = length (frecs st)" "seed_st (free_frec i st) = seed_st st"
  by (simp_all add: free_frec_def split: option.split)

lemma free_frec_nth:
  "k < length (frecs st) \<Longrightarrow> frecs (free_frec i st) ! k =
     (if k = i then (frecs st ! i)\<lparr>fr_rfd4 := None, fr_sentto := None, fr_flags := 0\<rparr> else frecs st ! k)"
  by (auto simp: free_frec_def upd_frec_nth split: option.split)

lemma unat_pred: "0 < unat (w :: u16) \<Longrightarrow> unat (w - 1) = unat w - 1"
  by (metis unat_minus_one unat_0 less_irrefl)

lemma free_frec_socks:
  assumes "sock_ok st" and i: "i < length (frecs st)"
  shows "sock_ok (free_frec i st)"
proof (cases "fr_rfd4 (frecs st ! i)")
  case None
  let ?g = "\<lambda>f. f\<lparr>fr_rfd4 := None, fr_sentto := None, fr_flags := 0\<rparr>"
  have "uses (upd_frec i ?g st) j = uses st j" for j using uses_upd [OF i, of ?g j] None by simp
  then show ?thesis using assms None by (simp add: free_frec_def sock_ok_def upd_frec_nth)
next
  case (Some j)
  let ?g = "\<lambda>f. f\<lparr>fr_rfd4 := None, fr_sentto := None, fr_flags := 0\<rparr>" and ?st = "drop_rfd j st"
  have j: "j < RANDOM_SOCKS" using assms Some by (simp add: sock_ok_def)
  have u: "uses (upd_frec i ?g ?st) k = (if k = j then uses st j - 1 else uses st k)" for k
    using uses_upd [of i ?st ?g k] i Some by (auto simp: uses_def)
  have p: "0 < unat (rf_count (socks st ! j))" using assms(1) j uses_pos [OF i Some] by (simp add: sock_ok_def)
  have "unat (rf_count (socks ?st ! k)) = (if k = j then unat (rf_count (socks st ! j)) - 1 else unat (rf_count (socks st ! k)))" if "k < RANDOM_SOCKS" for k
    using that assms(1) unat_pred [OF p] by (simp add: drop_rfd_def Let_def sock_ok_def nth_list_update)
  moreover have "length (socks ?st) = RANDOM_SOCKS" using assms(1) by (simp add: sock_ok_def drop_rfd_def Let_def)
  ultimately show ?thesis using assms Some u j by (auto simp: free_frec_def sock_ok_def upd_frec_nth)
qed

lemma finv_free:
  assumes "finv e st" and i: "i < length (frecs st)" and e: "e = None \<or> e = Some i"
  shows "fwd_inv (free_frec i st)"
proof -
  have b: "busy (free_frec i st) k \<longleftrightarrow> busy st k \<and> k \<noteq> i" for k by (auto simp: busy_def free_frec_nth split: if_splits)
  have k: "busy st k \<Longrightarrow> k < length (frecs st)" for k by (simp add: busy_def)
  have id: "id_ok None (free_frec i st)"
    using assms(1) k by (auto simp: id_ok_def finv_def b free_frec_nth)
  have "srv_ok (free_frec i st)" using assms(1) by (auto simp: finv_def srv_ok_def free_frec_nth split: if_splits)
  then show ?thesis using free_frec_socks [OF _ i] assms id by (auto simp: finv_def free_frec_nth)
qed

subsection \<open>Taking a record\<close>

text \<open>What the scan over the table leaves of a record.\<close>

definition aged :: "int \<Rightarrow> frec \<Rightarrow> frec \<Rightarrow> bool" where
  "aged now r r' \<longleftrightarrow> r' = r \<or> fr_sentto r \<noteq> None \<and> now - fr_time r \<ge> 4 * TIMEOUT \<and> r' = r\<lparr>fr_rfd4 := None, fr_sentto := None, fr_flags := 0\<rparr>"

lemma aged_refl [simp]: "aged now r r"
  by (simp add: aged_def)

lemma aged_trans: "aged now r r1 \<Longrightarrow> aged now r1 r2 \<Longrightarrow> aged now r r2"
  by (auto simp: aged_def)

lemma aged_time: "aged now r r' \<Longrightarrow> fr_time r' = fr_time r"
  by (auto simp: aged_def)

definition same_rest :: "fwst \<Rightarrow> fwst \<Rightarrow> bool" where
  "same_rest st st' \<longleftrightarrow> srv st' = srv st \<and> srv_list st' = srv_list st \<and> last_server st' = last_server st \<and> name_cache st' = name_cache st \<and> seed_st st' = seed_st st"

lemma same_rest_simps [simp]:
  "same_rest st st" "same_rest st (upd_frec i g st') = same_rest st st'" "same_rest st (free_frec i st') = same_rest st st'"
  by (simp_all add: same_rest_def)

lemma scan_target_kept: "frec_scan now is old (Some t) st \<noteq> (old', None, st')"
  by (induction "is" arbitrary: old t st) (auto simp: Let_def split: if_splits)

lemma frec_scan_ok:
  assumes "fwd_inv st" and "\<forall>i \<in> set is. i < length (frecs st)" and "\<forall>t. target = Some t \<longrightarrow> t < length (frecs st) \<and> fr_sentto (frecs st ! t) = None"
    and "frec_scan now is old target st = (old', target', st')"
  shows "fwd_inv st' \<and> same_rest st st' \<and> length (frecs st') = length (frecs st) \<and>
     (\<forall>t. target' = Some t \<longrightarrow> t < length (frecs st) \<and> fr_sentto (frecs st' ! t) = None) \<and>
     (\<forall>i < length (frecs st). aged now (frecs st ! i) (frecs st' ! i))"
  using assms
proof (induction "is" arbitrary: old target st)
  case (Cons i "is")
  have i: "i < length (frecs st)" using Cons.prems(2) by simp
  show ?case
  proof (cases "fr_sentto (frecs st ! i) = None")
    case True
    then show ?thesis using Cons.IH [of st "Some i" old] Cons.prems by simp
  next
    case busy: False
    let ?old = "case old of None \<Rightarrow> Some i | Some k \<Rightarrow> if fr_time (frecs st ! i) - fr_time (frecs st ! k) \<le> 0 then Some i else Some k"
    show ?thesis
    proof (cases "now - fr_time (frecs st ! i) \<ge> 4 * TIMEOUT")
      case True
      let ?st = "free_frec i st"
      have r: "frec_scan now is ?old (Some i) ?st = (old', target', st')" using Cons.prems(4) busy True by (simp add: Let_def)
      have a: "aged now (frecs st ! k) (frecs ?st ! k)" if "k < length (frecs st)" for k
        using that True busy by (auto simp: free_frec_nth aged_def)
      have "fwd_inv st' \<and> same_rest ?st st' \<and> length (frecs st') = length (frecs st) \<and>
         (\<forall>t. target' = Some t \<longrightarrow> t < length (frecs st) \<and> fr_sentto (frecs st' ! t) = None) \<and>
         (\<forall>k < length (frecs st). aged now (frecs ?st ! k) (frecs st' ! k))"
        using Cons.IH [OF finv_free [OF Cons.prems(1) i] _ _ r] Cons.prems(2) i by (simp add: free_frec_nth)
      then show ?thesis using a aged_trans by (auto simp: same_rest_def) blast
    next
      case False
      then have "frec_scan now is ?old target st = (old', target', st')" using Cons.prems(4) busy by (simp add: Let_def)
      then show ?thesis using Cons.IH [of st target ?old] Cons.prems by simp
    qed
  qed
qed auto

text \<open>When the scan finds nothing, every record is in use and the oldest is known.\<close>

lemma frec_scan_full:
  assumes "frec_scan now is old None st = (old', None, st')"
  shows "st' = st \<and> (\<forall>i \<in> set is. fr_sentto (frecs st ! i) \<noteq> None) \<and> (\<forall>k. old' = Some k \<longrightarrow> old = Some k \<or> k \<in> set is) \<and>
     (\<forall>i. old = Some i \<or> i \<in> set is \<longrightarrow> (\<exists>k. old' = Some k \<and> fr_time (frecs st ! k) \<le> fr_time (frecs st ! i)))"
  using assms
proof (induction "is" arbitrary: old)
  case (Cons i "is")
  have busy: "fr_sentto (frecs st ! i) \<noteq> None" "\<not> now - fr_time (frecs st ! i) \<ge> 4 * TIMEOUT"
    using Cons.prems by (auto simp: Let_def scan_target_kept split: if_splits)
  let ?old = "case old of None \<Rightarrow> Some i | Some k \<Rightarrow> if fr_time (frecs st ! i) - fr_time (frecs st ! k) \<le> 0 then Some i else Some k"
  have r: "frec_scan now is ?old None st = (old', None, st')" using Cons.prems busy by (simp add: Let_def)
  note IH = Cons.IH [OF r]
  obtain k0 where k0: "?old = Some k0" "fr_time (frecs st ! k0) \<le> fr_time (frecs st ! i)" "k0 = i \<or> old = Some k0"
     "\<forall>k. old = Some k \<longrightarrow> fr_time (frecs st ! k0) \<le> fr_time (frecs st ! k)"
  proof (cases old)
    case None
    then show thesis using that [of i] by simp
  next
    case (Some a)
    then show thesis using that [of i] that [of a] by (cases "fr_time (frecs st ! i) \<le> fr_time (frecs st ! a)") simp_all
  qed
  obtain k where k: "old' = Some k" "fr_time (frecs st ! k) \<le> fr_time (frecs st ! k0)" using IH k0(1) by blast
  show ?case using IH k0 k busy(1) by (auto intro: order_trans)
qed auto

lemma frec_walk_set [simp]: "set (frec_walk st) = {..< length (frecs st)}"
  by (auto simp: frec_walk_def)

lemma finv_allocate:
  assumes "fwd_inv st" and "allocate_frec mem now st = (f, st')"
  shows "fwd_inv st' \<and> same_rest st st' \<and> (mem \<longleftrightarrow> f \<noteq> None) \<and>
     (\<forall>i. f = Some i \<longrightarrow> i = length (frecs st) \<and> length (frecs st') = i + 1 \<and> fr_sentto (frecs st' ! i) = None) \<and> (f = None \<longrightarrow> st' = st) \<and>
     (\<forall>i < length (frecs st). frecs st' ! i = frecs st ! i)"
proof (cases mem)
  case True
  let ?n = "length (frecs st)"
  have st': "frecs st' = frecs st @ [frecs st' ! ?n]" "fr_sentto (frecs st' ! ?n) = None" "fr_rfd4 (frecs st' ! ?n) = None" "socks st' = socks st" "f = Some ?n"
    "same_rest st st'"
    using assms(2) True by (auto simp: allocate_frec_def same_rest_def)
  then have n: "length (frecs st') = ?n + 1" "\<And>i. i < ?n \<Longrightarrow> frecs st' ! i = frecs st ! i" by (metis length_append_singleton Suc_eq_plus1, metis nth_append)
  have b: "busy st' i = busy st i" for i using n st'(2) by (auto simp: busy_def less_Suc_eq)
  have bl: "busy st i \<Longrightarrow> i < ?n" for i by (simp add: busy_def)
  have u: "uses st' j = uses st j" for j unfolding uses_def by (subst st'(1)) (simp add: st'(3))
  have r: "srv_list st' = srv_list st" "last_server st' = last_server st" using st'(6) by (simp_all add: same_rest_def)
  have "id_ok None st'" using assms(1) by (auto simp: finv_def id_ok_def b n(2) [OF bl])
  then have "fwd_inv st'"
    using assms(1) n st'(2-4) by (auto simp: finv_def sock_ok_def srv_ok_def u r less_Suc_eq)
  then show ?thesis using True st'(2,5,6) n by simp
qed (use assms in \<open>auto simp: allocate_frec_def\<close>)

lemma get_new_frec_post:
  assumes "fwd_inv st" and "get_new_frec env now False st = (r, w, st')"
  shows "fwd_inv st' \<and> same_rest st st' \<and> length (frecs st') \<le> max (length (frecs st)) (fe_ftabsize env + 1) \<and>
     (\<forall>i < length (frecs st). busy st i \<and> now - fr_time (frecs st ! i) < TIMEOUT \<longrightarrow> frecs st' ! i = frecs st ! i) \<and>
     (case r of
        Some f \<Rightarrow> f < length (frecs st') \<and> \<not> busy st' f \<and> (f < length (frecs st) \<longrightarrow> \<not> busy st f \<or> now - fr_time (frecs st ! f) \<ge> TIMEOUT)
      | None \<Rightarrow> st' = st \<and> (\<forall>i < length (frecs st). busy st i \<and> now - fr_time (frecs st ! i) < TIMEOUT) \<and>
          (fe_ftabsize env < length (frecs st) \<or> \<not> fe_mem env))"
proof -
  obtain old target st1 where sc: "frec_scan now (frec_walk st) None None st = (old, target, st1)" by (metis prod_cases3)
  note S = frec_scan_ok [OF assms(1) _ _ sc, simplified]
  have T: "0 < TIMEOUT" by (simp add: TIMEOUT_def)
  have young: "frecs st1 ! i = frecs st ! i" if "i < length (frecs st)" "now - fr_time (frecs st ! i) < TIMEOUT" for i
    using S that T by (auto simp: aged_def)
  show ?thesis
  proof (cases target)
    case (Some t)
    then have e: "r = Some t" "st' = upd_frec t (\<lambda>f. f\<lparr>fr_time := now\<rparr>) st1" using assms(2) sc by (simp_all add: get_new_frec_def)
    have t: "t < length (frecs st)" "fr_sentto (frecs st1 ! t) = None" using S Some by auto
    then have o: "\<not> busy st t \<or> now - fr_time (frecs st ! t) \<ge> TIMEOUT" using S T by (auto simp: busy_def aged_def)
    have i: "fwd_inv st'" unfolding e by (rule finv_upd) (use S in simp_all)
    have "frecs st' ! i = frecs st ! i" if "i < length (frecs st)" "busy st i" "now - fr_time (frecs st ! i) < TIMEOUT" for i
      using that young o S by (auto simp: e upd_frec_nth)
    then show ?thesis using e t o i S by (auto simp: busy_def upd_frec_nth)
  next
    case None
    note full = frec_scan_full [OF sc [unfolded None], simplified]
    have st1: "st1 = st" and busy: "\<And>i. i < length (frecs st) \<Longrightarrow> busy st i" using full by (simp_all add: busy_def)
    define late where "late = (case old of None \<Rightarrow> False | Some k \<Rightarrow> now - fr_time (frecs st ! k) \<ge> TIMEOUT)"
    have alloc: ?thesis if a: "allocate_frec (fe_mem env) now st = (r, st')" and c: "length (frecs st) \<le> fe_ftabsize env"
        and y: "r = None \<Longrightarrow> \<forall>i < length (frecs st). now - fr_time (frecs st ! i) < TIMEOUT"
      using finv_allocate [OF assms(1) a] c y busy by (cases r) (auto simp: busy_def)
    show ?thesis
    proof (cases late)
      case True
      then obtain k where k: "old = Some k" "now - fr_time (frecs st ! k) \<ge> TIMEOUT" by (auto simp: late_def split: option.splits)
      then have kl: "k < length (frecs st)" using full by auto
      show ?thesis
      proof (cases "now - fr_time (frecs st ! k) < 2 * TIMEOUT \<and> length (frecs st) \<le> fe_ftabsize env \<and> fe_mem env")
        case True
        then have "allocate_frec (fe_mem env) now st = (r, st')" "r \<noteq> None"
          using assms(2) sc None k by (auto simp: get_new_frec_def st1 allocate_frec_def)
        then show ?thesis using alloc True by blast
      next
        case False
        then have e: "r = Some k" "st' = upd_frec k (\<lambda>f. f\<lparr>fr_time := now\<rparr>) (free_frec k st)"
          using assms(2) sc None k by (auto simp: get_new_frec_def st1 Let_def split: if_splits)
        have "fwd_inv st'" unfolding e by (rule finv_upd) (use finv_free [OF assms(1) kl] in simp_all)
        then show ?thesis using e k kl by (auto simp: upd_frec_nth free_frec_nth busy_def)
      qed
    next
      case False
      have y: "now - fr_time (frecs st ! i) < TIMEOUT" if i: "i < length (frecs st)" for i
      proof -
        obtain k where "old = Some k" "fr_time (frecs st ! k) \<le> fr_time (frecs st ! i)" using full i by blast
        then show ?thesis using False by (simp add: late_def)
      qed
      show ?thesis
      proof (cases "fe_ftabsize env < length (frecs st)")
        case True
        then have "r = None \<and> st' = st" using assms(2) sc None False by (auto simp: get_new_frec_def st1 late_def Let_def split: option.splits)
        then show ?thesis using assms(1) True y busy by auto
      next
        case c: False
        then have "allocate_frec (fe_mem env) now st = (r, st')"
          using assms(2) sc None False by (auto simp: get_new_frec_def st1 late_def Let_def split: option.splits prod.splits)
        then show ?thesis using alloc c y by auto
      qed
    qed
  qed
qed

subsection \<open>Sockets\<close>

text \<open>What handing out a socket does: either nothing that counts, or one more user of a socket.\<close>

definition sock_given :: "nat option \<Rightarrow> fwst \<Rightarrow> fwst \<Rightarrow> bool" where
  "sock_given r st st' \<longleftrightarrow> frecs st' = frecs st \<and> same_rest st st' \<and> length (socks st') = length (socks st) \<and>
     (\<forall>j. r = Some j \<longrightarrow> j < RANDOM_SOCKS) \<and>
     (\<forall>k < RANDOM_SOCKS. unat (rf_count (socks st' ! k)) = unat (rf_count (socks st ! k)) + (if r = Some k then 1 else 0))"

lemma unat_succ: "(w :: u16) \<noteq> 0xffff \<Longrightarrow> unat (w + 1) = unat w + 1"
proof -
  assume w: "w \<noteq> 0xffff"
  have "w + 1 \<noteq> 0"
  proof
    assume "w + 1 = 0"
    then have "w = - 1" by (simp only: eq_neg_iff_add_eq_0)
    then show False using w by simp
  qed
  then show ?thesis using unatSuc [of w] by (simp add: add.commute)
qed

lemma share_rfd_given:
  assumes "length (socks st) = RANDOM_SOCKS" and "share_rfd fam is st = (r, st')"
  shows "sock_given r st st'"
  using assms
proof (induction "is")
  case (Cons i "is")
  let ?j = "(i + finger st) mod RANDOM_SOCKS"
  have j: "?j < RANDOM_SOCKS" by (simp add: RANDOM_SOCKS_def)
  show ?case
  proof (cases "rf_count (socks st ! ?j) \<noteq> 0 \<and> rf_family (socks st ! ?j) = fam \<and> rf_count (socks st ! ?j) \<noteq> 0xffff")
    case True
    then show ?thesis using Cons.prems j unat_succ by (auto simp: sock_given_def same_rest_def Let_def nth_list_update)
  next
    case False
    then show ?thesis using Cons by (auto simp: Let_def)
  qed
qed (auto simp: sock_given_def)

lemma allocate_rfd_given:
  assumes "length (socks st) = RANDOM_SOCKS" and "allocate_rfd sock fam st = (r, st')"
  shows "sock_given r st st'"
proof (cases "find (\<lambda>i. rf_count (socks st ! i) = 0) [0..<RANDOM_SOCKS]")
  case None
  then show ?thesis using share_rfd_given [OF assms(1)] assms(2) by (simp add: allocate_rfd_def)
next
  case (Some i)
  then have i: "i < RANDOM_SOCKS" "rf_count (socks st ! i) = 0" by (auto simp: find_Some_iff)
  show ?thesis
  proof (cases sock)
    case None
    let ?st = "st\<lparr>socks := (socks st)[i := (socks st ! i)\<lparr>rf_fd := - 1\<rparr>]\<rparr>"
    have "sock_given r ?st st'" using share_rfd_given [of ?st] assms Some None by (simp add: allocate_rfd_def)
    then show ?thesis using i assms(1) by (auto simp: sock_given_def same_rest_def nth_list_update)
  next
    case fd: (Some fd)
    then show ?thesis using assms Some i by (auto simp: allocate_rfd_def sock_given_def same_rest_def nth_list_update)
  qed
qed

text \<open>The socket becomes the one of the record under construction.\<close>

lemma finv_give:
  assumes "finv (Some f) st" and g: "sock_given (Some j) st st'" and n: "fr_rfd4 (frecs st ! f) = None"
  shows "finv (Some f) (upd_frec f (\<lambda>r. r\<lparr>fr_rfd4 := Some j\<rparr>) st')"
proof -
  let ?g = "\<lambda>r. r\<lparr>fr_rfd4 := Some j\<rparr>" and ?n = "length (frecs st)"
  have e: "frecs st' = frecs st" "srv_list st' = srv_list st" "last_server st' = last_server st" "j < RANDOM_SOCKS"
    using g by (simp_all add: sock_given_def same_rest_def)
  have f: "f < ?n" using assms(1) by (simp add: finv_def)
  have u: "uses (upd_frec f ?g st') k = uses st k + (if k = j then 1 else 0)" for k
    using uses_upd [of f st' ?g k] e(1) f n by (auto simp: uses_def)
  have s: "sock_ok (upd_frec f ?g st')"
    using assms(1) g e f u by (auto simp: finv_def sock_ok_def sock_given_def upd_frec_nth split: if_splits)
  have b: "busy (upd_frec f ?g st') k = busy st k" for k using e(1) by (auto simp: busy_def upd_frec_nth split: if_splits)
  have id: "fr_new_id (frecs (upd_frec f ?g st') ! k) = fr_new_id (frecs st ! k)" "fr_crc (frecs (upd_frec f ?g st') ! k) = fr_crc (frecs st ! k)"
      "fr_sentto (frecs (upd_frec f ?g st') ! k) = fr_sentto (frecs st ! k)" if "k < ?n" for k
    using that e(1) by (simp_all add: upd_frec_nth)
  have kl: "k < ?n" if "busy st k \<or> Some f = Some k" for k using that f by (auto simp: busy_def)
  have "id_ok (Some f) (upd_frec f ?g st')" using assms(1) by (auto simp: finv_def id_ok_def b id [OF kl])
  moreover have "srv_ok (upd_frec f ?g st')" using assms(1) e id by (auto simp: finv_def srv_ok_def)
  ultimately show ?thesis using s f assms(1) e id by (auto simp: finv_def upd_frec_nth)
qed

subsection \<open>Sending\<close>

lemma pick_fd_ok:
  assumes "finv (Some f) st" and "pick_fd env f x st = (r, st')"
  shows "finv (Some f) st'" "same_rest st st'" "length (frecs st') = length (frecs st)"
    "\<forall>i < length (frecs st). (frecs st' ! i)\<lparr>fr_rfd4 := None\<rparr> = (frecs st ! i)\<lparr>fr_rfd4 := None\<rparr> \<and> (i \<noteq> f \<longrightarrow> frecs st' ! i = frecs st ! i)"
proof -
  have sl: "length (socks st) = RANDOM_SOCKS" using assms(1) by (simp add: finv_def sock_ok_def)
  have saved: "finv e (s\<lparr>rfd_save := v\<rparr>) = finv e s" for e s v
    by (simp add: finv_def sock_ok_def id_ok_def srv_ok_def busy_def uses_def)
  have "finv (Some f) st' \<and> same_rest st st' \<and> length (frecs st') = length (frecs st) \<and>
    (\<forall>i < length (frecs st). (frecs st' ! i)\<lparr>fr_rfd4 := None\<rparr> = (frecs st ! i)\<lparr>fr_rfd4 := None\<rparr> \<and> (i \<noteq> f \<longrightarrow> frecs st' ! i = frecs st ! i))"
  proof (cases "sv_sfd (srv st x) = None \<and> fr_rfd4 (frecs st ! f) = None")
    case True
    obtain j st1 where a: "allocate_rfd (fe_sock env) AF_INET st = (j, st1)" by (cases "allocate_rfd (fe_sock env) AF_INET st")
    note g = allocate_rfd_given [OF sl a]
    show ?thesis
    proof (cases j)
      case None
      have "finv (Some f) st1"
        using assms(1) g None by (simp add: finv_def sock_ok_def id_ok_def srv_ok_def busy_def uses_def sock_given_def same_rest_def)
      then show ?thesis using assms(2) True a None g by (simp add: pick_fd_def sock_given_def)
    next
      case (Some k)
      have st': "st' = (upd_frec f (\<lambda>r. r\<lparr>fr_rfd4 := Some k\<rparr>) st1)\<lparr>rfd_save := Some k\<rparr>" using assms(2) True a Some by (simp add: pick_fd_def)
      have i: "finv (Some f) st'" unfolding st' saved using finv_give [OF assms(1) g [unfolded Some]] True by simp
      have e: "frecs st1 = frecs st" "same_rest st st1" using g by (simp_all add: sock_given_def)
      have "same_rest st st'" using e(2) unfolding st' by (simp add: same_rest_def)
      then show ?thesis using i e by (simp add: st' upd_frec_nth)
    qed
  next
    case False
    then show ?thesis using assms saved by (auto simp: pick_fd_def same_rest_def split: option.splits)
  qed
  then show "finv (Some f) st'" "same_rest st st'" "length (frecs st') = length (frecs st)"
    "\<forall>i < length (frecs st). (frecs st' ! i)\<lparr>fr_rfd4 := None\<rparr> = (frecs st ! i)\<lparr>fr_rfd4 := None\<rparr> \<and> (i \<noteq> f \<longrightarrow> frecs st' ! i = frecs st ! i)" by simp_all
qed

text \<open>A server of the list gets the query.\<close>

lemma mark_sent_ok:
  assumes "finv (Some f) st" and x: "x \<in> set (srv_list st)"
  shows "finv (Some f) (mark_sent f x pl st)" "busy (mark_sent f x pl st) f"
proof -
  let ?st = "mark_sent f x pl st" and ?n = "length (frecs st)"
  have f: "f < ?n" using assms(1) by (simp add: finv_def)
  have e: "socks ?st = socks st" "srv_list ?st = srv_list st" "last_server ?st = last_server st" "length (frecs ?st) = ?n" by (simp_all add: mark_sent_def)
  have n: "frecs ?st ! k = (if k = f then (frecs st ! f)\<lparr>fr_sentto := Some x\<rparr> else frecs st ! k)" if "k < ?n" for k
    using that by (simp add: mark_sent_def upd_frec_nth)
  have u: "uses ?st k = uses st k" for k
    using uses_upd [OF f, of "\<lambda>r. r\<lparr>fr_sentto := Some x\<rparr>" k] by (simp add: mark_sent_def uses_def upd_frec_def)
  show b: "busy ?st f" using f by (simp add: busy_def e n)
  have bb: "(busy ?st k \<or> Some f = Some k) = (busy st k \<or> Some f = Some k)" for k using e(4) n by (auto simp: busy_def split: if_splits)
  have kl: "k < ?n" if "busy st k \<or> Some f = Some k" for k using that f by (auto simp: busy_def)
  have id: "fr_new_id (frecs ?st ! k) = fr_new_id (frecs st ! k)" "fr_crc (frecs ?st ! k) = fr_crc (frecs st ! k)" "fr_rfd4 (frecs ?st ! k) = fr_rfd4 (frecs st ! k)"
    if "k < ?n" for k using that by (simp_all add: n)
  have "id_ok (Some f) ?st" using assms(1) unfolding finv_def id_ok_def bb by (metis id(1,2) kl)
  moreover have "sock_ok ?st" using assms(1) by (simp add: finv_def sock_ok_def e u id(3))
  moreover have "srv_ok ?st" using assms by (auto simp: finv_def srv_ok_def e n)
  ultimately show "finv (Some f) ?st" using assms(1) f by (auto simp: finv_def e n)
qed

text \<open>What sending leaves as it is: the other records, the client of the record, and what servers are for.\<close>

definition client :: "frec \<Rightarrow> mysockaddr \<times> u32 \<times> u32 \<times> u16 \<times> u16 \<times> int \<times> u32 \<times> u32" where
  "client r = (fr_source r, fr_dest r, fr_iface r, fr_orig_id r, fr_new_id r, fr_fd r, fr_crc r, fr_flags r)"

definition sent_from :: "nat \<Rightarrow> fwst \<Rightarrow> fwst \<Rightarrow> bool" where
  "sent_from f st st' \<longleftrightarrow> length (frecs st') = length (frecs st) \<and> (\<forall>i < length (frecs st). i \<noteq> f \<longrightarrow> frecs st' ! i = frecs st ! i) \<and>
     (f < length (frecs st) \<longrightarrow> client (frecs st' ! f) = client (frecs st ! f)) \<and> srv_list st' = srv_list st \<and> last_server st' = last_server st \<and>
     name_cache st' = name_cache st \<and> (\<forall>x. sv_flags (srv st' x) = sv_flags (srv st x) \<and> sv_domain (srv st' x) = sv_domain (srv st x) \<and> sv_addr (srv st' x) = sv_addr (srv st x))"

lemma sent_from_refl [simp]: "sent_from f st st"
  by (simp add: sent_from_def)

lemma sent_from_trans: "sent_from f st st1 \<Longrightarrow> sent_from f st1 st2 \<Longrightarrow> sent_from f st st2"
  by (simp add: sent_from_def)

lemma pick_fd_sent: "finv (Some f) st \<Longrightarrow> pick_fd env f x st = (r, st') \<Longrightarrow> sent_from f st st'"
proof -
  assume a: "finv (Some f) st" "pick_fd env f x st = (r, st')"
  note p = pick_fd_ok [OF a]
  have "client (frecs st' ! f) = client ((frecs st' ! f)\<lparr>fr_rfd4 := None\<rparr>)" "client (frecs st ! f) = client ((frecs st ! f)\<lparr>fr_rfd4 := None\<rparr>)"
    by (simp_all add: client_def)
  then show ?thesis using p(2-4) by (simp add: sent_from_def same_rest_def)
qed

lemma mark_sent_sent: "sent_from f st (mark_sent f x pl st)"
  by (simp add: sent_from_def mark_sent_def upd_frec_nth client_def)

lemma eligible_sent: "sent_from f st st' \<Longrightarrow> eligible ty dm (srv st' x) = eligible ty dm (srv st x)"
  by (simp add: sent_from_def eligible_def sflag_def)

lemma send_ring_sent: "send_ring env ty dm msg pl f xs True st = (r, outs, st') \<Longrightarrow> r"
  by (induction xs arbitrary: st outs) (auto simp: Let_def split: if_splits prod.splits option.splits)

lemma send_ring_ok:
  assumes "finv (Some f) st" and "set xs \<subseteq> set (srv_list st)" and "fwd \<longrightarrow> busy st f" and "send_ring env ty dm msg pl f xs fwd st = (r, outs, st')"
  shows "finv (Some f) st' \<and> sent_from f st st' \<and> (r \<longrightarrow> busy st' f) \<and> (\<not> r \<longrightarrow> outs = []) \<and> (r \<and> \<not> fwd \<longrightarrow> outs \<noteq> []) \<and>
     (\<forall>w \<in> set outs. \<exists>x fd. w = To_server x fd (take pl msg) \<and> x \<in> set xs \<and> eligible ty dm (srv st x))"
  using assms
proof (induction xs arbitrary: fwd st r outs)
  case Nil
  then show ?case by auto
next
  case (Cons x xs)
  have sub: "set xs \<subseteq> set (srv_list st)" "x \<in> set (srv_list st)" using Cons.prems(2) by auto
  show ?case
  proof (cases "eligible ty dm (srv st x)")
    case False
    then have "send_ring env ty dm msg pl f xs fwd st = (r, outs, st')" using Cons.prems(4) by simp
    then show ?thesis using Cons.IH [OF Cons.prems(1) sub(1) Cons.prems(3)] by auto
  next
    case el: True
    obtain fd st1 where p: "pick_fd env f x st = (fd, st1)" by (cases "pick_fd env f x st")
    note i1 = pick_fd_ok(1) [OF Cons.prems(1) p] and s1 = pick_fd_sent [OF Cons.prems(1) p]
    have b1: "busy st1 f = busy st f"
    proof -
      have "f < length (frecs st)" using Cons.prems(1) by (simp add: finv_def)
      then have "(frecs st1 ! f)\<lparr>fr_rfd4 := None\<rparr> = (frecs st ! f)\<lparr>fr_rfd4 := None\<rparr>" using pick_fd_ok(4) [OF Cons.prems(1) p] by blast
      from arg_cong [where f = fr_sentto, OF this] show ?thesis using pick_fd_ok(3) [OF Cons.prems(1) p] by (simp add: busy_def)
    qed
    have l1: "srv_list st1 = srv_list st" using s1 by (simp add: sent_from_def)
    show ?thesis
    proof (cases fd)
      case None
      then have "r = fwd" "outs = []" "st' = st1" using Cons.prems(4) el p by simp_all
      then show ?thesis using i1 s1 b1 Cons.prems(3) by auto
    next
      case (Some d)
      show ?thesis
      proof (cases "fe_sends env x")
        case False
        then have "send_ring env ty dm msg pl f xs fwd st1 = (r, outs, st')" using Cons.prems(4) el p Some by simp
        from Cons.IH [OF i1 _ _ this] show ?thesis using sub l1 b1 Cons.prems(3) sent_from_trans [OF s1] eligible_sent [OF s1] by auto
      next
        case True
        let ?st2 = "mark_sent f x pl st1"
        have m: "finv (Some f) ?st2" "busy ?st2 f" using mark_sent_ok [OF i1, of x] sub(2) l1 by simp_all
        have s2: "sent_from f st ?st2" by (rule sent_from_trans [OF s1 mark_sent_sent])
        show ?thesis
        proof (cases "fr_all (frecs ?st2 ! f) = 0")
          case True
          then have "r" "outs = [To_server x d (take pl msg)]" "st' = ?st2" using Cons.prems(4) el p Some \<open>fe_sends env x\<close> by (simp_all add: Let_def)
          then show ?thesis using m s2 el by auto
        next
          case False
          let ?st3 = "upd_frec f (\<lambda>r. r\<lparr>fr_all := fr_all r + 1\<rparr>) ?st2"
          obtain o' where q: "send_ring env ty dm msg pl f xs True ?st3 = (r, o', st')" "outs = To_server x d (take pl msg) # o'"
            using Cons.prems(4) el p Some False \<open>fe_sends env x\<close> by (auto simp: Let_def split: prod.splits)
          have i3: "finv (Some f) ?st3" by (rule finv_upd [OF m(1)]) simp_all
          have s3: "sent_from f st ?st3" by (rule sent_from_trans [OF s2]) (simp add: sent_from_def upd_frec_nth client_def)
          have b3: "busy ?st3 f" using m(2) by (simp add: busy_def upd_frec_nth)
          have l3: "srv_list ?st3 = srv_list st" using s3 by (simp add: sent_from_def)
          have "set xs \<subseteq> set (srv_list ?st3)" using sub(1) l3 by simp
          from Cons.IH [OF i3 this _ q(1)] b3
          have h: "finv (Some f) st' \<and> sent_from f ?st3 st' \<and> (r \<longrightarrow> busy st' f) \<and> (\<not> r \<longrightarrow> o' = []) \<and>
             (\<forall>w \<in> set o'. \<exists>y fd. w = To_server y fd (take pl msg) \<and> y \<in> set xs \<and> eligible ty dm (srv ?st3 y))" by blast
          have "r" by (rule send_ring_sent [OF q(1)])
          then show ?thesis using h q(2) el sent_from_trans [OF s3] eligible_sent [OF s3] by auto
        qed
      qed
    qed
  qed
qed

subsection \<open>Ids\<close>

lemma lookup_frec_None:
  "lookup_frec ident crc st = None \<longleftrightarrow> (\<forall>i. busy st i \<longrightarrow> \<not> (fr_new_id (frecs st ! i) = ident \<and> (fr_crc (frecs st ! i) = crc \<or> crc = 0xffffffff)))"
  by (auto simp: lookup_frec_def find_None_iff busy_def Let_def)

lemma lookup_seed [simp]: "lookup_frec i c (st\<lparr>seed_st := s\<rparr>) = lookup_frec i c st"
  by (simp add: lookup_frec_def frec_walk_def)

lemma get_id_post:
  assumes ret: "get_id crc st = Some y"
  shows "lookup_frec (fst y) crc st = None \<and> (\<exists>s. snd y = st\<lparr>seed_st := s\<rparr>)"
proof (rule get_id.raw_induct [where P = "\<lambda>crc st y. lookup_frec (fst y) crc st = None \<and> (\<exists>s. snd y = st\<lparr>seed_st := s\<rparr>)", OF _ ret])
  fix g :: "u32 \<Rightarrow> fwst \<Rightarrow> (u16 \<times> fwst) option" and crc st y
  assume IH: "\<And>crc st y. g crc st = Some y \<Longrightarrow> lookup_frec (fst y) crc st = None \<and> (\<exists>s. snd y = st\<lparr>seed_st := s\<rparr>)"
    and e: "Option.bind (rand16 (seed_st st)) (\<lambda>(r, s). if lookup_frec r crc st \<noteq> None then g crc (st\<lparr>seed_st := s\<rparr>) else Some (r, st\<lparr>seed_st := s\<rparr>)) = Some y"
  obtain r s where r: "rand16 (seed_st st) = Some (r, s)" using e by (cases "rand16 (seed_st st)") auto
  show "lookup_frec (fst y) crc st = None \<and> (\<exists>s. snd y = st\<lparr>seed_st := s\<rparr>)"
  proof (cases "lookup_frec r crc st = None")
    case True
    then show ?thesis using e r by auto
  next
    case False
    then show ?thesis using e r IH [of crc "st\<lparr>seed_st := s\<rparr>" y] by auto
  qed
qed

text \<open>The id search ends as soon as the generator hands out an id that is not in use.\<close>

fun rand_after :: "nat \<Rightarrow> surf_state \<Rightarrow> (u16 \<times> surf_state) option" where
  "rand_after 0 s = rand16 s"
| "rand_after (Suc n) s = Option.bind (rand16 s) (\<lambda>(_, s'). rand_after n s')"

lemma get_id_returns:
  assumes "rand_after n (seed_st st) = Some (r, s)" and "lookup_frec r crc st = None"
  shows "\<exists>y. get_id crc st = Some y"
  using assms
proof (induction n arbitrary: st)
  case 0
  then show ?case by (subst get_id.simps) simp
next
  case (Suc n)
  obtain r1 s1 where r1: "rand16 (seed_st st) = Some (r1, s1)" "rand_after n s1 = Some (r, s)" using Suc.prems(1) by (auto split: prod.splits simp: option_bind_eq_Some_iff)
  show ?case using Suc.IH [of "st\<lparr>seed_st := s1\<rparr>"] Suc.prems(2) r1 by (subst get_id.simps) simp
qed

text \<open>The record of a new query.\<close>

lemma finv_fill:
  assumes "fwd_inv st" and f: "f < length (frecs st)" "\<not> busy st f" and new: "lookup_frec new crc st = None"
  shows "finv (Some f) (fill_frec env fd addr dst iface orig new crc nr cd f st)"
proof -
  let ?st = "fill_frec env fd addr dst iface orig new crc nr cd f st" and ?n = "length (frecs st)"
  have e: "socks ?st = socks st" "srv_list ?st = srv_list st" "last_server ?st = last_server st" "length (frecs ?st) = ?n" by (simp_all add: fill_frec_def)
  have n: "k \<noteq> f \<Longrightarrow> frecs ?st ! k = frecs st ! k" "fr_rfd4 (frecs ?st ! k) = fr_rfd4 (frecs st ! k)" "fr_sentto (frecs ?st ! k) = fr_sentto (frecs st ! k)" if "k < ?n" for k
    using that by (simp_all add: fill_frec_def upd_frec_nth)
  have nf: "fr_new_id (frecs ?st ! f) = new" "fr_crc (frecs ?st ! f) = crc" using f(1) by (simp_all add: fill_frec_def upd_frec_nth)
  have u: "uses ?st k = uses st k" for k unfolding fill_frec_def by (rule add_right_imp_eq, rule trans [OF uses_upd [OF f(1)]]) simp
  have b: "busy ?st k = busy st k" for k using e(4) n(3) by (auto simp: busy_def)
  have other: "frecs ?st ! k = frecs st ! k" if "busy st k" for k using that f(2) n(1) by (metis busy_def)
  have fresh: "\<not> (fr_new_id (frecs st ! k) = new \<and> fr_crc (frecs st ! k) = crc)" if "busy st k" for k using new that by (simp add: lookup_frec_None)
  have "id_ok (Some f) ?st"
    unfolding id_ok_def b
  proof (intro allI impI, elim conjE)
    fix i j
    assume h: "busy st i \<or> Some f = Some i" "busy st j \<or> Some f = Some j" "fr_new_id (frecs ?st ! i) = fr_new_id (frecs ?st ! j)" "fr_crc (frecs ?st ! i) = fr_crc (frecs ?st ! j)"
    have ib: "busy st i \<Longrightarrow> busy st j \<Longrightarrow> i = j" using assms(1) h(3,4) other by (auto simp: finv_def id_ok_def)
    show "i = j" using h ib fresh other nf by (metis option.inject)
  qed
  moreover have "sock_ok ?st" using assms(1) by (simp add: finv_def sock_ok_def e u n(2))
  moreover have "srv_ok ?st" using assms(1) by (simp add: finv_def srv_ok_def e n(3))
  ultimately show ?thesis using assms(1) f by (simp add: finv_def e n)
qed

end
