(* ===== verification/Dnsmasq_Exchange.thy ===== *)
theory Dnsmasq_Exchange
  imports Dnsmasq_Table
begin

section \<open>dnsmasq: queries and replies through the forwarding table\<close>

text \<open>
  \<open>forward_query\<close> and \<open>reply_query\<close> over the table of Dnsmasq_Table: both keep the invariant of records,
  sockets, servers and cache; a reply goes to the client that asked, under the id of the client; a
  reply that belongs to no query is dropped; and a query goes to the servers of the longest domain.
\<close>

subsection \<open>The invariant through a query\<close>

abbreviation relay_inv :: "fwst \<Rightarrow> bool" where
  "relay_inv st \<equiv> fwd_inv st \<and> cache_inv (name_cache st)"

lemma ring_set: "set (ring l start) = set l"
proof -
  have "set (takeWhile P l @ dropWhile P l) = set l" for P :: "nat \<Rightarrow> bool" by (simp only: takeWhile_dropWhile_id)
  from this [of "\<lambda>x. x \<noteq> start"] show ?thesis by (simp only: ring_def set_append Un_commute)
qed

lemma after_in: "after x l = Some y \<Longrightarrow> y \<in> set l"
proof -
  assume a: "after x l = Some y"
  show ?thesis
  proof (cases "\<exists>z zs. dropWhile (\<lambda>y. y \<noteq> x) l = z # y # zs")
    case True
    then have "y \<in> set (dropWhile (\<lambda>y. y \<noteq> x) l)" by auto
    then show ?thesis by (rule set_dropWhileD)
  qed (use a in \<open>auto simp: after_def split: list.splits\<close>)
qed

lemma start_server_ok:
  assumes "finv (Some f) st" and "srv_list st \<noteq> []" and "start_server env ty now f st = (start, st')"
  shows "finv (Some f) st'" "sent_from f st st'" "start \<in> set (srv_list st)"
proof -
  let ?all = "upd_frec f (\<lambda>r. r\<lparr>fr_all := 1\<rparr>)"
  have a: "finv (Some f) (?all st)" by (rule finv_upd [OF assms(1)]) simp_all
  have fin: "finv (Some f) (s\<lparr>fwd_count := c, fwd_time := t\<rparr>) = finv (Some f) s" "finv (Some f) (s\<lparr>fwd_count := c\<rparr>) = finv (Some f) s" for s c t
    by (simp_all add: finv_def sock_ok_def id_ok_def srv_ok_def busy_def uses_def)
  have up: "?all (st\<lparr>fwd_count := c\<rparr>) = (?all st)\<lparr>fwd_count := c\<rparr>" for c by (simp add: upd_frec_def)
  have "finv (Some f) st' \<and> sent_from f st st'"
    using assms(1,3) a by (auto simp: start_server_def Let_def fin up sent_from_def client_def upd_frec_nth split: if_splits option.splits)
  then show "finv (Some f) st'" "sent_from f st st'" by simp_all
  show "start \<in> set (srv_list st)"
    using assms by (auto simp: start_server_def Let_def finv_def srv_ok_def split: if_splits option.splits)
qed

lemma search_servers_total:
  assumes "cache_inv (name_cache st)"
  obtains ss s where "search_servers env now q qd st = Some (ss, st\<lparr>name_cache := s\<rparr>)" "cache_inv s"
proof -
  let ?f = "if ss_flags (match_servers q qd st) = 0 \<and> q AND F_QUERY = 0 \<and> fe_nodots_local env \<and> 46 \<notin> set qd \<and> qd \<noteq> []
     then F_NOERR else ss_flags (match_servers q qd st)"
  have "\<exists>b s. (if c then check_for_local_domain (pe_names (fe_reply env)) qd now (name_cache st) else Some (False, name_cache st)) = Some (b, s) \<and> cache_inv s" for c
    using check_for_local_domain_inv [OF assms] assms by (cases c) auto
  then obtain b s where b: "(if ?f = F_NXDOMAIN then check_for_local_domain (pe_names (fe_reply env)) qd now (name_cache st) else Some (False, name_cache st)) = Some (b, s)" "cache_inv s"
    by blast
  show thesis by (rule that [OF _ b(2)]) (simp only: search_servers_def Let_def b(1) Option.bind.bind_lunit prod.case)
qed

lemma finv_cache [simp]: "finv e (st\<lparr>name_cache := s\<rparr>) = finv e st"
  by (simp add: finv_def sock_ok_def id_ok_def srv_ok_def busy_def uses_def)

lemma finv_seed [simp]: "finv e (st\<lparr>seed_st := s\<rparr>) = finv e st"
  by (simp add: finv_def sock_ok_def id_ok_def srv_ok_def busy_def uses_def)

lemma F_NEG_nonzero: "F_NEG \<noteq> 0"
  by (simp add: F_NEG_def)

text \<open>The record \<open>r\<close> belongs to the query of a client.\<close>

definition asked_by :: "frec \<Rightarrow> int \<Rightarrow> mysockaddr \<Rightarrow> u32 \<Rightarrow> u32 \<Rightarrow> u16 \<Rightarrow> u32 \<Rightarrow> bool" where
  "asked_by r fd addr dst iface orig crc \<longleftrightarrow>
     fr_fd r = fd \<and> fr_source r = addr \<and> fr_dest r = dst \<and> fr_iface r = iface \<and> fr_orig_id r = orig \<and> fr_crc r = crc"

lemma asked_by_sent:
  assumes "sent_from f st st'" and "f < length (frecs st)"
  shows "asked_by (frecs st' ! f) fd addr dst iface orig crc = asked_by (frecs st ! f) fd addr dst iface orig crc"
    "fr_new_id (frecs st' ! f) = fr_new_id (frecs st ! f)"
  using assms by (simp_all add: sent_from_def client_def asked_by_def)

lemma new_query_ok:
  assumes inv: "relay_inv st" and l: "srv_list st \<noteq> []"
    and nq: "new_query env fd addr dst iface msg now crc got qn st = Some (flags, ad, ty, dm, m, target, st')"
  shows "cache_inv (name_cache st') \<and> srv_list st' = srv_list st \<and> (\<forall>x. sv_flags (srv st' x) = sv_flags (srv st x) \<and> sv_domain (srv st' x) = sv_domain (srv st x)) \<and>
     (case target of
        None \<Rightarrow> fwd_inv st' \<and> flags \<noteq> 0
      | Some (f, start) \<Rightarrow> flags = 0 \<and> finv (Some f) st' \<and> start \<in> set (srv_list st') \<and>
          (\<exists>orig. peek16 msg 0 = Some orig \<and> asked_by (frecs st' ! f) fd addr dst iface orig crc \<and> poke16 msg 0 (fr_new_id (frecs st' ! f)) = Some m))"
proof -
  have "\<exists>ss s. (if got \<noteq> 0 then search_servers env now got qn st
        else Some (\<lparr>ss_type = 0, ss_domain = [], ss_addr = [], ss_norebind = False, ss_matchlen = 0, ss_flags = 0\<rparr>, st)) = Some (ss, st\<lparr>name_cache := s\<rparr>) \<and> cache_inv s"
  proof (cases "got = 0")
    case True
    then show ?thesis using inv by (intro exI [of _ "\<lparr>ss_type = 0, ss_domain = [], ss_addr = [], ss_norebind = False, ss_matchlen = 0, ss_flags = 0\<rparr>"] exI [of _ "name_cache st"]) simp
  next
    case False
    obtain ss s where "search_servers env now got qn st = Some (ss, st\<lparr>name_cache := s\<rparr>)" "cache_inv s"
      by (rule search_servers_total [OF conjunct2 [OF inv]])
    then show ?thesis using False by auto
  qed
  then obtain ss s where ss: "(if got \<noteq> 0 then search_servers env now got qn st
        else Some (\<lparr>ss_type = 0, ss_domain = [], ss_addr = [], ss_norebind = False, ss_matchlen = 0, ss_flags = 0\<rparr>, st)) = Some (ss, st\<lparr>name_cache := s\<rparr>)" "cache_inv s" by blast
  let ?st1 = "st\<lparr>name_cache := s\<rparr>"
  have i1: "fwd_inv ?st1" using inv by simp
  note nq1 = nq [unfolded new_query_def ss(1) Option.bind.bind_lunit prod.case]
  show ?thesis
  proof (cases "ss_flags ss = 0")
    case False
    then have "target = None" "st' = ?st1" "flags = ss_flags ss" using nq1 by simp_all
    then show ?thesis using i1 ss(2) False by simp
  next
    case True
    obtain r w st2 where g: "get_new_frec env now False ?st1 = (r, w, st2)" by (metis prod_cases3)
    note G = get_new_frec_post [OF i1 g]
    have rest: "srv_list st2 = srv_list st" "srv st2 = srv st" "name_cache st2 = s" using G by (simp_all add: same_rest_def)
    show ?thesis
    proof (cases r)
      case None
      then have "target = None" "st' = st2" "flags = F_NEG" using nq1 True g by simp_all
      then show ?thesis using G rest ss(2) F_NEG_nonzero by simp
    next
      case (Some f)
      obtain orig where orig: "peek16 msg 0 = Some orig" using nq1 True g Some by (cases "peek16 msg 0") simp_all
      obtain new st3 where id: "get_id crc st2 = Some (new, st3)" using nq1 True g Some orig by (cases "get_id crc st2") auto
      obtain hb4 where hb4: "peek msg 3 = Some hb4" using nq1 True g Some orig id by (cases "peek msg 3") simp_all
      let ?st4 = "fill_frec env fd addr dst iface orig new crc (ss_norebind ss) (hb4 AND HB4_CD \<noteq> 0) f st3"
      obtain m' where m': "poke16 msg 0 new = Some m'" using nq1 True g Some orig id hb4 by (cases "poke16 msg 0 new") simp_all
      obtain start st5 where s5: "start_server env (ss_type ss) now f ?st4 = (start, st5)" by (cases "start_server env (ss_type ss) now f ?st4")
      have e: "target = Some (f, start)" "st' = st5" "flags = 0" "m = m'" using nq1 True g Some orig id hb4 m' s5 by (simp_all add: Let_def)
      have p: "lookup_frec new crc st2 = None" "\<exists>s. st3 = st2\<lparr>seed_st := s\<rparr>" using get_id_post [OF id] by simp_all
      then obtain sd where st3: "st3 = st2\<lparr>seed_st := sd\<rparr>" by blast
      have f: "f < length (frecs st3)" "\<not> busy st3 f" "fwd_inv st3" using G Some by (simp_all add: st3 busy_def)
      have i4: "finv (Some f) ?st4" by (rule finv_fill [OF f(3,1,2)]) (simp add: st3 p(1))
      have l4: "srv_list ?st4 = srv_list st" "srv ?st4 = srv st" "name_cache ?st4 = s" using rest by (simp_all add: fill_frec_def st3)
      note S = start_server_ok [OF i4 _ s5]
      have f4: "f < length (frecs ?st4)" using f(1) by (simp add: fill_frec_def)
      have a4: "asked_by (frecs ?st4 ! f) fd addr dst iface orig crc" "fr_new_id (frecs ?st4 ! f) = new"
        using f(1) by (simp_all add: asked_by_def fill_frec_def upd_frec_nth)
      show ?thesis
        using S l l4 asked_by_sent [OF S(2) f4] a4 orig m' ss(2) by (simp add: e sent_from_def)
    qed
  qed
qed

text \<open>Every packet for a server is the query, and goes to a server that deals with its domain.\<close>

definition sent_to :: "fwst \<Rightarrow> u32 \<Rightarrow> bytes \<Rightarrow> bytes \<Rightarrow> fw_out \<Rightarrow> bool" where
  "sent_to st ty dm pkt w \<longleftrightarrow> (\<exists>x fd. w = To_server x fd pkt \<and> x \<in> set (srv_list st) \<and> eligible ty dm (srv st x))"

lemma send_or_answer_ok:
  assumes inv: "case target of None \<Rightarrow> fwd_inv st | Some (f, start) \<Rightarrow> finv (Some f) st \<and> flags = 0"
    and run: "send_or_answer env fd ua dst iface msg pl flags ad ty dm target st = Some (r, outs, st')"
  shows "fwd_inv st'" "srv_list st' = srv_list st" "name_cache st' = name_cache st"
    "r \<Longrightarrow> \<exists>f start m n. target = Some (f, start) \<and> busy st' f \<and> sent_from f st st' \<and> outs \<noteq> [] \<and> list_all (sent_to st ty dm (take n m)) outs \<and>
       (\<not> fe_add_mac env \<longrightarrow> m = msg \<and> n = pl)"
    "\<not> r \<Longrightarrow> \<forall>w \<in> set outs. \<exists>a n m. ua = Some a \<and> w = To_client fd a dst iface n m"
proof -
  have "fwd_inv st' \<and> srv_list st' = srv_list st \<and> name_cache st' = name_cache st \<and>
    (r \<longrightarrow> (\<exists>f start m n. target = Some (f, start) \<and> busy st' f \<and> sent_from f st st' \<and> outs \<noteq> [] \<and> list_all (sent_to st ty dm (take n m)) outs \<and>
       (\<not> fe_add_mac env \<longrightarrow> m = msg \<and> n = pl))) \<and>
    (\<not> r \<longrightarrow> (\<forall>w \<in> set outs. \<exists>a n m. ua = Some a \<and> w = To_client fd a dst iface n m))"
  proof (cases target)
    case None
    then show ?thesis using run inv by (auto simp: send_or_answer_def option_bind_eq_Some_iff split: if_splits option.splits)
  next
    case (Some fs)
    obtain f start where fs: "fs = (f, start)" by (cases fs)
    have i: "finv (Some f) st" and fl: "flags = 0" using inv Some fs by simp_all
    let ?mac = "case ua of Some a \<Rightarrow> if fe_add_mac env then add_mac msg pl (unat PACKETSZ) a (fe_neighbours env) else Some (msg, pl) | None \<Rightarrow> Some (msg, pl)"
    obtain m n where mn: "?mac = Some (m, n)" using run Some fs fl by (cases ?mac) (auto simp: send_or_answer_def)
    obtain q o1 st1 where sr: "send_ring env ty dm m n f (ring (srv_list st) start) False st = (q, o1, st1)" by (metis prod_cases3)
    have R: "finv (Some f) st1 \<and> sent_from f st st1 \<and> (q \<longrightarrow> busy st1 f) \<and> (\<not> q \<longrightarrow> o1 = []) \<and> (q \<and> \<not> False \<longrightarrow> o1 \<noteq> []) \<and>
       (\<forall>w \<in> set o1. \<exists>x fd. w = To_server x fd (take n m) \<and> x \<in> set (ring (srv_list st) start) \<and> eligible ty dm (srv st x))"
      by (rule send_ring_ok [OF i _ _ sr]) (simp_all add: ring_set)
    have rest: "srv_list st1 = srv_list st" "name_cache st1 = name_cache st" "f < length (frecs st1)"
      using R by (auto simp: sent_from_def finv_def)
    show ?thesis
    proof (cases q)
      case True
      then have "r" "outs = o1" "st' = st1" using run Some fs fl mn sr by (simp_all add: send_or_answer_def)
      moreover have "fwd_inv st1" using R True finv_busy by blast
      moreover have "\<not> fe_add_mac env \<longrightarrow> m = msg \<and> n = pl" using mn by (auto split: option.splits)
      ultimately show ?thesis using R True rest Some fs by (auto simp: list_all_iff sent_to_def ring_set)
    next
      case False
      then have o1: "o1 = []" using R by simp
      have fr: "fwd_inv (free_frec f st1)" by (rule finv_free [of "Some f"]) (use R rest in simp_all)
      have "\<not> r" "st' = free_frec f st1" "\<forall>w \<in> set outs. \<exists>a n m. ua = Some a \<and> w = To_client fd a dst iface n m"
        using run Some fs fl mn sr False o1 by (auto simp: send_or_answer_def option_bind_eq_Some_iff split: if_splits option.splits)
      then show ?thesis using fr rest by simp
    qed
  qed
  then show "fwd_inv st'" "srv_list st' = srv_list st" "name_cache st' = name_cache st"
    "r \<Longrightarrow> \<exists>f start m n. target = Some (f, start) \<and> busy st' f \<and> sent_from f st st' \<and> outs \<noteq> [] \<and> list_all (sent_to st ty dm (take n m)) outs \<and>
       (\<not> fe_add_mac env \<longrightarrow> m = msg \<and> n = pl)"
    "\<not> r \<Longrightarrow> \<forall>w \<in> set outs. \<exists>a n m. ua = Some a \<and> w = To_client fd a dst iface n m" by simp_all
qed

lemma retry_frec_ok:
  assumes "fwd_inv st" and "busy st f"
  shows "finv (Some f) (retry_frec env f st)" "srv_list (retry_frec env f st) = srv_list st" "name_cache (retry_frec env f st) = name_cache st"
proof -
  let ?x = "the (fr_sentto (frecs st ! f))"
  let ?st1 = "st\<lparr>srv := (srv st)(?x := (srv st ?x)\<lparr>sv_failed := sv_failed (srv st ?x) + 1\<rparr>)\<rparr>"
  have i0: "finv (Some f) st" using assms finv_busy by blast
  have i1: "finv (Some f) ?st1" by (rule finv_other [OF i0]) (use i0 in \<open>simp_all add: finv_def srv_ok_def\<close>)
  have i2: "finv (Some f) (upd_frec f (\<lambda>r. r\<lparr>fr_all := 1\<rparr>) ?st1)" by (rule finv_upd [OF i1]) simp_all
  have "finv (Some f) ((upd_frec f (\<lambda>r. r\<lparr>fr_all := 1\<rparr>) ?st1)\<lparr>last_server := None\<rparr>)" by (rule finv_other [OF i2]) simp_all
  then show "finv (Some f) (retry_frec env f st)" using i1 by (simp add: retry_frec_def Let_def)
qed (simp_all add: retry_frec_def Let_def)

lemma found_sender_busy: "lookup_frec_by_sender ident a crc st = Some f \<Longrightarrow> busy st f"
  by (auto simp: lookup_frec_by_sender_def busy_def find_Some_iff Let_def frec_walk_def rev_nth)

lemma found_busy:
  "lookup_frec ident crc st = Some f \<Longrightarrow> busy st f \<and> fr_new_id (frecs st ! f) = ident \<and> (fr_crc (frecs st ! f) = crc \<or> crc = 0xffffffff)"
  by (auto simp: lookup_frec_def busy_def find_Some_iff Let_def frec_walk_def rev_nth)


text \<open>What \<open>forward_query\<close> has decided before it sends: the same for a query that is repeated and a new
  one.\<close>

lemma forward_query_decided:
  assumes inv: "relay_inv st" and b: "\<forall>f. fwd = Some f \<longrightarrow> busy st f"
    and run: "forward_query env fd ua dst iface msg pl now fwd st = Some (r, outs, st')"
  obtains flags ad ty dm m target st1 where "send_or_answer env fd ua dst iface m pl flags ad ty dm target st1 = Some (r, outs, st')"
    "case target of None \<Rightarrow> fwd_inv st1 | Some (f, start) \<Rightarrow> finv (Some f) st1 \<and> flags = 0" "cache_inv (name_cache st1)" "srv_list st1 = srv_list st"
proof -
  obtain crc where crc: "questions_crc msg pl (fe_buf env) = Some crc" using run by (cases "questions_crc msg pl (fe_buf env)") (simp_all add: forward_query_def)
  obtain got ty0 buf where got: "extract_request msg pl (fe_buf env) = Some (got, ty0, buf)"
    using run crc by (cases "extract_request msg pl (fe_buf env)") (auto simp: forward_query_def)
  obtain hb4 msg1 where h: "peek msg 3 = Some hb4" "poke msg 3 (hb4 AND NOT HB4_AD) = Some msg1" using run crc got by (auto simp: forward_query_def option_bind_eq_Some_iff)
  obtain ident where ident: "peek16 msg1 0 = Some ident" using run crc got h by (cases "peek16 msg1 0") (simp_all add: forward_query_def)
  note run1 = run [unfolded forward_query_def crc got h ident Option.bind.bind_lunit prod.case]
  let ?fwd = "case fwd of Some f \<Rightarrow> Some f | None \<Rightarrow> (case ua of None \<Rightarrow> None | Some a \<Rightarrow> lookup_frec_by_sender ident a crc st)"
  show thesis
  proof (cases "srv_list st = []")
    case True
    then have "send_or_answer env fd ua dst iface msg1 pl 0 [] 0 [] None st = Some (r, outs, st')" using run1 by simp
    then show thesis by (rule that) (use inv in simp_all)
  next
    case l: False
    show thesis
    proof (cases ?fwd)
      case (Some f)
      have bf: "busy st f" using Some b found_sender_busy by (auto split: option.splits)
      obtain x start m where e: "fr_sentto (frecs st ! f) = Some x" "after x (srv_list st) = Some start" "poke16 msg1 0 (fr_new_id (frecs st ! f)) = Some m"
          "send_or_answer env fd ua dst iface m pl 0 [] (sv_flags (srv st x) AND SERV_TYPE) (sv_domain (srv st x)) (Some (f, start)) (retry_frec env f st) = Some (r, outs, st')"
        using run1 l Some by (auto simp: option_bind_eq_Some_iff)
      show thesis by (rule that [OF e(4)]) (use retry_frec_ok [OF _ bf] inv in simp_all)
    next
      case None
      then obtain a where ua: "ua = Some a" using run1 l by (cases ua) simp_all
      obtain flags ad ty dm m target st1 where nq: "new_query env fd a dst iface msg1 now crc got (takeWhile (\<lambda>c. c \<noteq> 0) buf) st = Some (flags, ad, ty, dm, m, target, st1)"
          "send_or_answer env fd ua dst iface m pl flags ad ty dm target st1 = Some (r, outs, st')"
        using run1 l None ua by (auto simp: option_bind_eq_Some_iff)
      note N = new_query_ok [OF inv l nq(1)]
      show thesis by (rule that [OF nq(2)]) (use N in \<open>auto split: option.splits\<close>)
    qed
  qed
qed

lemma forward_query_inv:
  assumes "relay_inv st" and "\<forall>f. fwd = Some f \<longrightarrow> busy st f" and "forward_query env fd ua dst iface msg pl now fwd st = Some (r, outs, st')"
  shows "relay_inv st' \<and> srv_list st' = srv_list st"
proof -
  obtain flags ad ty dm m target st1 where d: "send_or_answer env fd ua dst iface m pl flags ad ty dm target st1 = Some (r, outs, st')"
    "case target of None \<Rightarrow> fwd_inv st1 | Some (f, start) \<Rightarrow> finv (Some f) st1 \<and> flags = 0" "cache_inv (name_cache st1)" "srv_list st1 = srv_list st"
    by (rule forward_query_decided [OF assms])
  show ?thesis using send_or_answer_ok(1-3) [OF d(2,1)] d(3,4) by simp
qed

subsection \<open>Replies\<close>

text \<open>The settings under which replies are taken in: no rewriting of addresses, no logging of
  queries, and room in the buffers.\<close>

definition reply_env :: "fwenv \<Rightarrow> bool" where
  "reply_env env \<longleftrightarrow> \<not> ee_log (pe_ex (fe_reply env)) \<and> MAXDNAME \<le> length (fe_buf env)"

lemma run_process_ok:
  assumes "run_process env msg now server n chk cd st = Some (nn, m, st')" and "cache_inv (name_cache st)" and "reply_env env" and "n + 16 \<le> length msg"
  shows "frecs st' = frecs st" "socks st' = socks st" "srv_list st' = srv_list st" "last_server st' = last_server st" "cache_inv (name_cache st')"
proof -
  obtain warned ex where p: "process_reply (fe_reply env) now (case server of None \<Rightarrow> False | Some x \<Rightarrow> \<not> sflag SERV_WARNED_RECURSIVE (srv st x)) n chk cd
      \<lparr>ex_msg = msg, ex_name = fe_buf env, ex_cache = name_cache st\<rparr> = Some (nn, warned, ex)" "name_cache st' = ex_cache ex"
      "frecs st' = frecs st" "socks st' = socks st" "srv_list st' = srv_list st" "last_server st' = last_server st"
    using assms(1) by (auto simp: run_process_def Let_def option_bind_eq_Some_iff)
  then show "frecs st' = frecs st" "socks st' = socks st" "srv_list st' = srv_list st" "last_server st' = last_server st" by simp_all
  show "cache_inv (name_cache st')" using process_reply_inv [OF p(1)] assms(2-4) p(2) by (simp add: reply_env_def)
qed

lemma note_server_ok:
  assumes "fwd_inv st" and "busy st f" and "fr_sentto (frecs st ! f) = Some x" and "note_server env addr failed x st = (server, st')"
  shows "fwd_inv st'" "frecs st' = frecs st" "srv_list st' = srv_list st" "name_cache st' = name_cache st"
proof -
  have x: "x \<in> set (srv_list st)" using assms(1-3) by (auto simp: finv_def srv_ok_def busy_def)
  have g: "y \<in> set (srv_list st)" if "good_server addr st = Some y" for y using that by (auto simp: good_server_def find_Some_iff)
  have st': "frecs st' = frecs st" "srv_list st' = srv_list st" "name_cache st' = name_cache st" "socks st' = socks st"
      "\<forall>y. last_server st' = Some y \<longrightarrow> last_server st = Some y \<or> y = x \<or> good_server addr st = Some y"
    using assms(4) by (auto simp: note_server_def Let_def split: if_splits option.splits)
  show "frecs st' = frecs st" "srv_list st' = srv_list st" "name_cache st' = name_cache st" by (fact st')+
  have "\<forall>y. last_server st = Some y \<longrightarrow> y \<in> set (srv_list st)" using assms(1) by (simp add: finv_def srv_ok_def)
  then show "fwd_inv st'" by (intro finv_other [OF assms(1)]) (use st' x g in auto)
qed

lemma finish_reply_inv:
  assumes "relay_inv st" and "busy st f" and "reply_env env" and "n + 16 \<le> length msg" and "finish_reply env msg now server n rc f st = Some (outs, st')"
  shows "relay_inv st' \<and> srv_list st' = srv_list st"
proof -
  let ?a = "fr_all (frecs st ! f)"
  define st1 where "st1 = (if ?a = 0 then st else upd_frec f (\<lambda>r. r\<lparr>fr_all := ?a - 1\<rparr>) st)"
  have "fwd_inv (upd_frec f (\<lambda>r. r\<lparr>fr_all := ?a - 1\<rparr>) st)" by (rule finv_upd) (use assms(1) in simp_all)
  then have i1: "fwd_inv st1" "srv_list st1 = srv_list st" "name_cache st1 = name_cache st" "f < length (frecs st1)"
    using assms(1,2) by (simp_all add: st1_def busy_def)
  show ?thesis
  proof (cases "?a = 0 \<or> ?a - 1 = 1 \<or> (rc \<noteq> RC_REFUSED \<and> rc \<noteq> RC_SERVFAIL)")
    case True
    then obtain nn m st2 chk cd where p: "run_process env msg now server n chk cd st1 = Some (nn, m, st2)" "st' = free_frec f st2"
      using assms(5) by (auto simp: finish_reply_def Let_def st1_def [symmetric] option_bind_eq_Some_iff)
    note P = run_process_ok [OF p(1) _ assms(3,4)]
    have c1: "cache_inv (name_cache st1)" using assms(1) i1(3) by simp
    have "fwd_inv st2" by (rule finv_other [OF i1(1)]) (use P [OF c1] i1(1) in \<open>simp_all add: finv_def srv_ok_def\<close>)
    then have "fwd_inv (free_frec f st2)" by (rule finv_free) (use P [OF c1] i1(4) in simp_all)
    then show ?thesis using P [OF c1] i1(2) by (simp add: p(2))
  next
    case False
    then have "st' = st1" using assms(5) by (auto simp: finish_reply_def Let_def st1_def)
    then show ?thesis using i1 assms(1) by simp
  qed
qed

lemma length_poke_list: "poke_list m i bs = Some m' \<Longrightarrow> length m' = length m"
  by (auto simp: poke_list_def split: if_splits)

lemma resize_packet_length:
  assumes "resize_packet msg n h = Some (m, nn)"
  shows "length m = length msg"
proof (cases "skip_questions msg n")
  case (Some q)
  show ?thesis
  proof (cases q)
    case qa: (Some a)
    obtain an ns ar r where c: "ancount msg = Some an" "nscount msg = Some ns" "arcount msg = Some ar"
        "skip_section msg a (unat an + unat ns + unat ar) n = Some r"
      using assms Some qa by (auto simp: resize_packet_def option_bind_eq_Some_iff)
    show ?thesis using assms Some qa c length_poke16 length_poke_list
      by (cases r; cases h) (auto simp: resize_packet_def option_bind_eq_Some_iff split: if_splits)
  qed (use assms Some in \<open>simp add: resize_packet_def\<close>)
qed (use assms in \<open>simp add: resize_packet_def\<close>)

lemma remake_query_length: "remake_query msg n = Some (m, None) \<Longrightarrow> length m = length msg"
  by (auto simp: remake_query_def option_bind_eq_Some_iff split: if_splits prod.splits dest!: length_poke16 resize_packet_length)

lemma reply_to_inv:
  assumes inv: "relay_inv st" and b: "busy st f" and env: "reply_env env" and len: "n + 16 \<le> length msg" and run: "reply_to env sa msg n now f st = Some (outs, st')"
  shows "relay_inv st' \<and> srv_list st' = srv_list st"
proof -
  obtain x rc m again where r: "fr_sentto (frecs st ! f) = Some x" "RCODE msg = Some rc"
      "(if (rc = RC_SERVFAIL \<or> rc = RC_REFUSED) \<and> \<not> fe_order env \<and> fr_all (frecs st ! f) = 0 then remake_query msg n else Some (msg, None)) = Some (m, again)"
    using run unfolding reply_to_def by (auto simp: option_bind_eq_Some_iff simp del: if_splits)
  note rest = run [unfolded reply_to_def r Option.bind.bind_lunit prod.case]
  show ?thesis
  proof (cases again)
    case (Some nn)
    then obtain q where "forward_query env (- 1) None 0 0 m nn now (Some f) st = Some (q, outs, st')" using rest by auto
    then show ?thesis using forward_query_inv [of st "Some f"] inv b by auto
  next
    case None
    have lm: "n + 16 \<le> length m" using r(3) None len remake_query_length [of msg n m] by (auto split: if_splits)
    obtain server st1 where ns: "note_server env sa (rc = RC_SERVFAIL \<or> rc = RC_REFUSED) x st = (server, st1)" by (cases "note_server env sa (rc = RC_SERVFAIL \<or> rc = RC_REFUSED) x st")
    note N = note_server_ok [OF conjunct1 [OF inv] b r(1) ns]
    have "busy st1 f" using b N(2) by (simp add: busy_def)
    then show ?thesis using finish_reply_inv [of st1 f env n m now server rc outs st'] N inv env lm rest None ns by simp
  qed
qed

lemma reply_query_inv:
  assumes inv: "relay_inv st0" and env: "reply_env env" and len: "n + 16 \<le> length msg" and run: "reply_query env sa msg n now st0 = Some (outs, st')"
  shows "relay_inv st' \<and> srv_list st' = srv_list st0"
proof -
  let ?st = "st0\<lparr>srv_save := None\<rparr>"
  have i: "fwd_inv ?st" by (rule finv_other [of None st0]) (use inv in \<open>auto simp: finv_def srv_ok_def\<close>)
  have "(outs = [] \<and> st' = ?st) \<or> (\<exists>f ident crc. lookup_frec ident crc ?st = Some f \<and> reply_to env sa msg n now f ?st = Some (outs, st'))"
    using run by (auto simp: reply_query_def Let_def option_bind_eq_Some_iff split: if_splits option.splits)
  then show ?thesis
  proof (elim disjE exE conjE)
    fix f ident crc
    assume "lookup_frec ident crc ?st = Some f" "reply_to env sa msg n now f ?st = Some (outs, st')"
    then show ?thesis using reply_to_inv [of ?st f env n msg sa now outs st'] found_busy [of ident crc ?st f] i inv env len by simp
  qed (use i inv in simp)
qed

subsection \<open>Servers that go away\<close>

lemma gone_fold:
  assumes "fwd_inv st" and "\<forall>i \<in> set is. i < length (frecs st)"
    and "st' = fold (\<lambda>i st. if fr_sentto (frecs st ! i) = Some x then free_frec i st else st) is st"
  shows "fwd_inv st' \<and> length (frecs st') = length (frecs st) \<and> srv_list st' = srv_list st \<and> last_server st' = last_server st \<and> name_cache st' = name_cache st \<and>
     (\<forall>i < length (frecs st). fr_sentto (frecs st' ! i) = (if i \<in> set is \<and> fr_sentto (frecs st ! i) = Some x then None else fr_sentto (frecs st ! i)))"
  using assms(1,2) unfolding assms(3)
proof (induction "is" arbitrary: st)
  case (Cons i "is")
  let ?st = "if fr_sentto (frecs st ! i) = Some x then free_frec i st else st"
  have i: "fwd_inv ?st" "length (frecs ?st) = length (frecs st)" "srv_list ?st = srv_list st" "last_server ?st = last_server st" "name_cache ?st = name_cache st"
    using Cons.prems finv_free by auto
  have n: "fr_sentto (frecs ?st ! k) = (if k = i \<and> fr_sentto (frecs st ! k) = Some x then None else fr_sentto (frecs st ! k))" if "k < length (frecs st)" for k
    using that by (auto simp: free_frec_nth)
  show ?case using Cons.IH [OF i(1)] Cons.prems(2) i n by auto
qed simp

lemma server_gone_ok:
  assumes "fwd_inv st"
  shows "fwd_inv (server_gone x st)" "srv_list (server_gone x st) = srv_list st" "name_cache (server_gone x st) = name_cache st"
    "i < length (frecs (server_gone x st)) \<Longrightarrow> fr_sentto (frecs (server_gone x st) ! i) \<noteq> Some x" "last_server (server_gone x st) \<noteq> Some x" "srv_save (server_gone x st) \<noteq> Some x"
proof -
  let ?st1 = "fold (\<lambda>i st. if fr_sentto (frecs st ! i) = Some x then free_frec i st else st) (frec_walk st) st"
  note G = gone_fold [OF assms _ refl, of "frec_walk st" x, simplified]
  have l: "\<forall>y. last_server st = Some y \<longrightarrow> y \<in> set (srv_list st)" using assms by (simp add: finv_def srv_ok_def)
  show "fwd_inv (server_gone x st)"
    by (rule finv_other [of None ?st1]) (use G l in \<open>auto simp: server_gone_def Let_def\<close>)
  show "srv_list (server_gone x st) = srv_list st" "name_cache (server_gone x st) = name_cache st" "last_server (server_gone x st) \<noteq> Some x" "srv_save (server_gone x st) \<noteq> Some x"
    using G by (simp_all add: server_gone_def Let_def)
  show "i < length (frecs (server_gone x st)) \<Longrightarrow> fr_sentto (frecs (server_gone x st) ! i) \<noteq> Some x"
    using G by (auto simp: server_gone_def Let_def split: if_splits)
qed

lemma finv_unlink:
  assumes "fwd_inv st" and "\<And>i. i < length (frecs st) \<Longrightarrow> fr_sentto (frecs st ! i) \<noteq> Some x" and "last_server st \<noteq> Some x"
  shows "fwd_inv (st\<lparr>srv_list := remove1 x (srv_list st)\<rparr>)"
proof -
  have d: "distinct (srv_list st)" using assms(1) by (simp add: finv_def srv_ok_def)
  show ?thesis using assms d by (auto simp: finv_def sock_ok_def id_ok_def srv_ok_def busy_def uses_def)
qed

subsection \<open>From the client to the servers and back\<close>





text \<open>A packet that answers no question of the table is dropped: when it does not come from the address of a
  server, or is no reply, or no record in use has its id and the checksum of its questions (which is not all ones), nothing
  is sent, and records, sockets, servers and cache stay as they are.\<close>

theorem spoofed_reply_dropped:
  assumes "peek msg 2 = Some hb3" and "peek16 msg 0 = Some ident"
    and "questions_crc msg n (fe_buf env) = Some crc" and "crc \<noteq> 0xffffffff"
    and "known_server sa st = None \<or> n < 12 \<or> hb3 AND HB3_QR = 0 \<or> (\<forall>i. busy st i \<longrightarrow> fr_new_id (frecs st ! i) \<noteq> ident \<or> fr_crc (frecs st ! i) \<noteq> crc)"
  shows "reply_query env sa msg n now st = Some ([], st\<lparr>srv_save := None\<rparr>)"
proof -
  let ?st = "st\<lparr>srv_save := None\<rparr>"
  have ks: "known_server sa ?st = known_server sa st" by (simp add: known_server_def)
  have b: "busy ?st i = busy st i" for i by (simp add: busy_def)
  have "lookup_frec ident crc ?st = None" if "\<forall>i. busy st i \<longrightarrow> fr_new_id (frecs st ! i) \<noteq> ident \<or> fr_crc (frecs st ! i) \<noteq> crc"
    using that assms(4) by (auto simp: lookup_frec_None b)
  then show ?thesis using assms ks by (auto simp: reply_query_def Let_def)
qed

text \<open>A checksum of all ones stands for one that is not known, but it is also the checksum of a packet without
  questions: such a reply is accepted for any record with its id.\<close>

lemma no_question_matches:
  assumes "qdcount msg = Some 0" and "busy st f" and "fr_new_id (frecs st ! f) = ident"
  shows "questions_crc msg n buf = Some 0xffffffff" "lookup_frec ident 0xffffffff st \<noteq> None"
  using assms by (auto simp: questions_crc_def lookup_frec_None)

subsection \<open>Records for new queries\<close>

text \<open>C31. \<open>get_new_frec\<close>, as forwarding calls it, keeps the invariant of records and sockets.  The record it
  hands out is free, and was free before, or has waited for an answer for at least \<open>TIMEOUT\<close>,
  or is new; a record that is in use for less than \<open>TIMEOUT\<close> is never touched.  The table
  never grows beyond its limit by more than one.  No record is handed out only when all are in use for less than \<open>TIMEOUT\<close>
  and the limit is exceeded or memory is exhausted.\<close>

theorem get_new_frec_correct:
  assumes "fwd_inv st" and "get_new_frec env now False st = (r, w, st')"
  shows "fwd_inv st' \<and> length (frecs st') \<le> max (length (frecs st)) (fe_ftabsize env + 1) \<and>
     (\<forall>i < length (frecs st). busy st i \<and> now - fr_time (frecs st ! i) < TIMEOUT \<longrightarrow> frecs st' ! i = frecs st ! i) \<and>
     (case r of
        Some f \<Rightarrow> f < length (frecs st') \<and> \<not> busy st' f \<and> (f < length (frecs st) \<longrightarrow> \<not> busy st f \<or> now - fr_time (frecs st ! f) \<ge> TIMEOUT)
      | None \<Rightarrow> st' = st \<and> (\<forall>i < length (frecs st). busy st i \<and> now - fr_time (frecs st ! i) < TIMEOUT) \<and>
          (fe_ftabsize env < length (frecs st) \<or> \<not> fe_mem env))"
  using get_new_frec_post [OF assms] by blast

subsection \<open>The longest domain\<close>



lemma serv_answer_simps [simp]:
  "ss_matchlen (serv_answer q sv u ss) = ss_matchlen ss" "ss_domain (serv_answer q sv u ss) = ss_domain ss" "ss_type (serv_answer q sv u ss) = ss_type ss"
  by (simp_all add: serv_answer_def)






subsection \<open>Any sequence of events\<close>

text \<open>What reaches the forwarder: a query of a client, a packet on a socket to the servers, and a server
  that is taken from the list.\<close>

datatype fw_event =
    Client_query fwenv int mysockaddr u32 u32 bytes nat int
  | Server_packet fwenv mysockaddr bytes nat int
  | Server_removed nat

fun fw_step :: "fw_event \<Rightarrow> fwst \<Rightarrow> (fw_out list \<times> fwst) option" where
  "fw_step (Client_query env fd a dst iface msg pl now) st = map_option snd (forward_query env fd (Some a) dst iface msg pl now None st)"
| "fw_step (Server_packet env sa msg n now) st = reply_query env sa msg n now st"
| "fw_step (Server_removed x) st = Some ([], let st1 = server_gone x st in st1\<lparr>srv_list := remove1 x (srv_list st1)\<rparr>)"

fun event_ok :: "fw_event \<Rightarrow> bool" where
  "event_ok (Server_packet env sa msg n now) \<longleftrightarrow> reply_env env \<and> n + 16 \<le> length msg"
| "event_ok _ \<longleftrightarrow> True"

inductive fw_run :: "fwst \<Rightarrow> fw_event list \<Rightarrow> fwst \<Rightarrow> bool" where
  fw_start: "fw_run st [] st"
| fw_next: "fw_run st evs st1 \<Longrightarrow> event_ok ev \<Longrightarrow> fw_step ev st1 = Some (outs, st2) \<Longrightarrow> fw_run st (evs @ [ev]) st2"

lemma fw_step_inv:
  assumes "relay_inv st" and "event_ok ev" and "fw_step ev st = Some (outs, st')"
  shows "relay_inv st'"
proof (cases ev)
  case (Client_query env fd a dst iface msg pl now)
  then show ?thesis using assms forward_query_inv [OF assms(1), of None] by auto
next
  case (Server_packet env sa msg n now)
  then show ?thesis using assms reply_query_inv [OF assms(1)] by auto
next
  case (Server_removed x)
  note G = server_gone_ok [OF conjunct1 [OF assms(1)]]
  have "fwd_inv ((server_gone x st)\<lparr>srv_list := remove1 x (srv_list (server_gone x st))\<rparr>)" by (rule finv_unlink) (use G(1,4,5) in simp_all)
  then show ?thesis using assms Server_removed G(3) by (auto simp: Let_def)
qed

text \<open>C5. From a state that satisfies the invariant, let queries of clients, packets on the sockets to the servers and
  removals of servers be handled in any order, each call returning, with query logging off and 16 bytes of room behind every packet of a
  server.  Then every socket on a random port is counted exactly as often as records use it, free records hold no
  socket, no two queries in flight share id and checksum, records and the preferred server refer to servers that are
  still in the list, and the cache keeps its invariant.\<close>

theorem forwarding_keeps_invariant:
  assumes "fw_run st evs st'" and "fwd_inv st" and "cache_inv (name_cache st)"
  shows "(\<forall>j < RANDOM_SOCKS. unat (rf_count (socks st' ! j)) = length (filter (\<lambda>r. fr_rfd4 r = Some j) (frecs st'))) \<and>
     (\<forall>r \<in> set (frecs st'). fr_sentto r = None \<longrightarrow> fr_rfd4 r = None) \<and>
     (\<forall>i j. busy st' i \<and> busy st' j \<and> fr_new_id (frecs st' ! i) = fr_new_id (frecs st' ! j) \<and> fr_crc (frecs st' ! i) = fr_crc (frecs st' ! j) \<longrightarrow> i = j) \<and>
     (\<forall>r \<in> set (frecs st'). \<forall>x. fr_sentto r = Some x \<longrightarrow> x \<in> set (srv_list st')) \<and> (\<forall>x. last_server st' = Some x \<longrightarrow> x \<in> set (srv_list st')) \<and>
     cache_inv (name_cache st')"
proof -
  have "relay_inv st'" using assms
  proof (induction rule: fw_run.induct)
    case (fw_next st evs st1 ev outs st2)
    then show ?case using fw_step_inv by blast
  qed simp
  then show ?thesis by (simp add: finv_def sock_ok_def uses_def id_ok_def srv_ok_def all_set_conv_all_nth)
qed

text \<open>The state at the start: no records, no sockets.\<close>

definition fw_init :: "(nat \<Rightarrow> server) \<Rightarrow> nat list \<Rightarrow> surf_state \<Rightarrow> cst \<Rightarrow> fwst" where
  "fw_init sv l seed s = \<lparr>srv = sv, srv_list = l, frecs = [], socks = replicate 64 \<lparr>rf_fd = 0, rf_count = 0, rf_family = 0\<rparr>, finger = 0, closed = [],
     last_server = None, srv_save = None, rfd_save = None, packet_len = 0, fwd_count = 0, fwd_time = 0, seed_st = seed, name_cache = s\<rparr>"

lemma fw_init_inv: "distinct l \<Longrightarrow> fwd_inv (fw_init sv l seed s)"
  by (simp add: finv_def sock_ok_def id_ok_def srv_ok_def busy_def uses_def fw_init_def RANDOM_SOCKS_def)

subsection \<open>An example\<close>

text \<open>One server, one client that asks for the address of \<open>ab\<close>, and the reply.\<close>

definition demo_fenv :: fwenv where
  "demo_fenv = \<lparr>fe_mem = True, fe_sock = Some 7, fe_sends = (\<lambda>_. True), fe_order = False, fe_all_servers = False, fe_nodots_local = False,
     fe_add_mac = False, fe_neighbours = [], fe_ftabsize = 150, fe_local_ttl = 0, fe_buf = replicate 16 0, fe_no_rebind = True,
     fe_reply = \<lparr>pe_ex = demo_env, pe_edns_pktsz = 1280, pe_dnssec = False, pe_bogus = [], pe_names = []\<rparr>\<rparr>"

definition demo_client :: mysockaddr where "demo_client = \<lparr>sa_family = 2, sin_port = 4000, sin_addr = 0x0a000005\<rparr>"
definition demo_server :: mysockaddr where "demo_server = \<lparr>sa_family = 2, sin_port = 53, sin_addr = 0x08080808\<rparr>"

definition demo_fw :: fwst where
  "demo_fw = fw_init (\<lambda>_. \<lparr>sv_addr = demo_server, sv_domain = [], sv_flags = 0, sv_sfd = None, sv_queries = 0, sv_failed = 0\<rparr>) [0]
     \<lparr>seed_w = replicate 32 0, in_w = replicate 12 0, out_w = [5, 0, 0, 0, 0, 0, 0, 0], outleft = 1\<rparr> small_cache"

definition demo_query :: bytes where
  "demo_query = [0x12, 0x34, 1, 0, 0, 1, 0, 0, 0, 0, 0, 0, 2, 97, 98, 0, 0, 1, 0, 1] @ replicate 40 0"

lemma demo_forward: "map_option fst (forward_query demo_fenv 3 (Some demo_client) 0 0 demo_query 20 100 None demo_fw) = Some True"
  by code_simp

lemma demo_fw_inv: "relay_inv demo_fw"
proof
  show "fwd_inv demo_fw" unfolding demo_fw_def by (rule fw_init_inv) simp
  show "cache_inv (name_cache demo_fw)" by (simp add: demo_fw_def fw_init_def small_cache_inv)
qed

theorem get_new_frec_correct_witness:
  "\<exists>w st'. get_new_frec demo_fenv 100 False demo_fw = (Some 0, w, st') \<and> fwd_inv st' \<and> length (frecs st') \<le> 151 \<and> \<not> busy st' 0"
proof -
  have r: "fst (get_new_frec demo_fenv 100 False demo_fw) = Some 0" by code_simp
  obtain w st' where g: "get_new_frec demo_fenv 100 False demo_fw = (Some 0, w, st')" using r by (cases "get_new_frec demo_fenv 100 False demo_fw") auto
  have l: "frecs demo_fw = []" "fe_ftabsize demo_fenv = 150" by (simp_all add: demo_fw_def fw_init_def demo_fenv_def)
  show ?thesis using get_new_frec_correct [OF conjunct1 [OF demo_fw_inv] g] g by (simp add: l)
qed



theorem forwarding_keeps_invariant_witness:
  "\<exists>st'. fw_run demo_fw [Client_query demo_fenv 3 demo_client 0 0 demo_query 20 100] st' \<and>
     (\<forall>j < RANDOM_SOCKS. unat (rf_count (socks st' ! j)) = length (filter (\<lambda>r. fr_rfd4 r = Some j) (frecs st'))) \<and> cache_inv (name_cache st')"
proof -
  obtain outs st' where f: "forward_query demo_fenv 3 (Some demo_client) 0 0 demo_query 20 100 None demo_fw = Some (True, outs, st')"
    using demo_forward by auto
  have "fw_run demo_fw ([] @ [Client_query demo_fenv 3 demo_client 0 0 demo_query 20 100]) st'" by (rule fw_next [OF fw_start, of _ _ outs]) (simp_all add: f)
  then have r: "fw_run demo_fw [Client_query demo_fenv 3 demo_client 0 0 demo_query 20 100] st'" by simp
  show ?thesis using forwarding_keeps_invariant [OF r conjunct1 [OF demo_fw_inv] conjunct2 [OF demo_fw_inv]] r by blast
qed




lemma demo_reply_crc: "questions_crc (demo_reply [93, 184, 216, 34]) 36 (fe_buf demo_fenv) = Some 188307386"
  by code_simp

lemma demo_reply_header:
  "peek (demo_reply [93, 184, 216, 34]) 2 = Some 0x81" "peek16 (demo_reply [93, 184, 216, 34]) 0 = Some 1" "RCODE (demo_reply [93, 184, 216, 34]) = Some 0"
  by code_simp+


theorem spoofed_reply_dropped_witness:
  "reply_query demo_fenv demo_server (demo_reply [93, 184, 216, 34]) 36 101 demo_fw = Some ([], demo_fw\<lparr>srv_save := None\<rparr>)"
proof -
  have c: "(188307386 :: u32) \<noteq> 0xffffffff" by simp
  have "\<not> busy demo_fw i" for i by (simp add: busy_def demo_fw_def fw_init_def)
  then show ?thesis by (intro spoofed_reply_dropped [OF demo_reply_header(1,2) demo_reply_crc c]) simp
qed




end
