(* ===== verification/Dnsmasq_Hosts.thy ===== *)
theory Dnsmasq_Hosts
  imports Dnsmasq_Cache_Ops
begin

section \<open>dnsmasq: the hosts file and DHCP names in the cache (src/dnsmasq/.../src/cache.c)\<close>

text \<open>
  Records of the hosts file, of \<open>--host-record\<close> and of DHCP leases enter the hash table of
  \<open>Dnsmasq_Cache\<close> directly.  \<open>hst\<close> extends the state of the cache: \<open>brk\<close> is the address of the next
  record that \<open>malloc\<close> delivers, so that addresses are never reused and freed memory is never seen
  again; \<open>dhcp_spare\<close> are the records of DHCP kept for reuse; \<open>rhash\<close> is the table by address that
  \<open>cache_reload\<close> borrows from the packet buffer, whose chains run through the field \<open>next\<close> of the
  records.  The parameter \<open>mem\<close> tells which allocations succeed.  A walk along such a chain that
  takes more steps than there are records never ends; it is the value \<open>None\<close>, and so is a nesting
  of aliases deeper than \<open>fuel\<close>.
\<close>

subsection \<open>State and configuration\<close>

definition CF_CONFIG :: u16 where "CF_CONFIG = 0x2000"

record hst =
  hc :: cst
  brk :: nat
  dhcp_spare :: "nat list"
  rhash :: "nat option list"

record cname =
  cn_alias :: bytes
  cn_target :: bytes

record cond_domain =
  cd_domain :: bytes
  cd_start :: u32
  cd_end :: u32
  cd_is6 :: bool

record host_record =
  hr_names :: "bytes list"
  hr_addr :: u32

text \<open>The options that matter here; \<open>he_pton\<close> is \<open>inet_pton(AF_INET, ...)\<close>.\<close>

record hosts_env =
  he_mem :: "nat \<Rightarrow> bool"
  he_fuel :: nat
  he_cnames :: "cname list"
  he_expand :: bool
  he_domains :: "cond_domain list"
  he_suffix :: "bytes option"
  he_pton :: "bytes \<Rightarrow> u32 option"

definition new_rec :: "(nat \<Rightarrow> bool) \<Rightarrow> hst \<Rightarrow> nat option \<times> hst" where
  "new_rec mem st = ((if mem (brk st) then Some (brk st) else None), st\<lparr>brk := brk st + 1\<rparr>)"

definition set_rec :: "nat \<Rightarrow> crec \<Rightarrow> hst \<Rightarrow> hst" where
  "set_rec r c st = st\<lparr>hc := (hc st)\<lparr>recs := (recs (hc st))(r := c)\<rparr>\<rparr>"

definition hash_rec :: "nat \<Rightarrow> crec \<Rightarrow> hst \<Rightarrow> hst" where
  "hash_rec r c st = st\<lparr>hc := cache_hash r ((hc st)\<lparr>recs := (recs (hc st))(r := c)\<rparr>)\<rparr>"

subsection \<open>Entries of hosts files\<close>

fun add_hosts_cname :: "nat \<Rightarrow> (nat \<Rightarrow> bool) \<Rightarrow> cname list \<Rightarrow> nat \<Rightarrow> hst \<Rightarrow> hst option" where
  "add_hosts_cname 0 mem cs t st = None"
| "add_hosts_cname (Suc n) mem cs t st =
     foldM (\<lambda>a st.
       if strcaseeq (cache_get_name (recs (hc st) t)) (cn_target a) then
         (case new_rec mem st of
            (None, st1) \<Rightarrow> Some st1
          | (Some r, st1) \<Rightarrow>
              add_hosts_cname n mem cs r
                (hash_rec r ((recs (hc st1) r)\<lparr>c_flags := CF_FORWARD OR CF_IMMORTAL OR CF_NAMEP OR CF_HOSTS OR CF_CNAME,
                   c_name := cn_alias a, cn_cache := Some t, cn_uid := c_uid (recs (hc st1) t)\<rparr>) st1))
       else Some st) cs st"

fun addr_hash :: "nat \<Rightarrow> nat \<Rightarrow> bytes \<Rightarrow> nat" where
  "addr_hash hashsz j [] = j"
| "addr_hash hashsz j (b # bs) = addr_hash hashsz ((j * 2 + unat b) mod hashsz) bs"

text \<open>\<open>for (lookup = rhash[j]; lookup; lookup = lookup->next) if (...) break;\<close>\<close>

fun link_walk :: "nat \<Rightarrow> (crec \<Rightarrow> bool) \<Rightarrow> cst \<Rightarrow> nat option \<Rightarrow> bool option" where
  "link_walk 0 P s p = None"
| "link_walk (Suc n) P s None = Some False"
| "link_walk (Suc n) P s (Some a) = (if P (recs s a) then Some True else link_walk n P s (next_of s a))"

definition same_addr :: "u16 \<Rightarrow> bytes \<Rightarrow> crec \<Rightarrow> bool" where
  "same_addr flags addr c \<longleftrightarrow> c_flags c AND flags AND (CF_IPV4 OR CF_IPV6) \<noteq> 0 \<and> take (length addr) (c_addr c) = addr"

text \<open>The record \<open>r\<close> has its name and its flags; \<open>addr\<close> is the address in network order.\<close>

definition add_hosts_entry :: "hosts_env \<Rightarrow> nat \<Rightarrow> bytes \<Rightarrow> u32 \<Rightarrow> hst \<Rightarrow> hst option" where
  "add_hosts_entry e r addr index st =
     (let c = recs (hc st) r in
      case cache_find_by_name None (cache_get_name c) 0 (c_flags c AND (CF_IPV4 OR CF_IPV6)) (hc st) of
        None \<Rightarrow> None
      | Some (lookup, s1) \<Rightarrow>
          (let st1 = st\<lparr>hc := s1\<rparr>;
               nameexists = (case lookup of None \<Rightarrow> False | Some l \<Rightarrow> has CF_HOSTS (recs s1 l)) in
           if nameexists \<and> (case lookup of None \<Rightarrow> False | Some l \<Rightarrow> take (length addr) (c_addr (recs s1 l)) = addr) then Some st1
           else if rhash st1 = [] then None
           else
             (let j = addr_hash (length (rhash st1)) 0 addr in
              case link_walk (brk st1 + 1) (same_addr (c_flags c) addr) s1 (rhash st1 ! j) of
                None \<Rightarrow> None
              | Some known \<Rightarrow>
                  (let c0 = recs s1 r;
                       c1 = (if known then c0\<lparr>c_flags := c_flags c0 AND NOT CF_REVERSE\<rparr> else c0\<lparr>c_next := rhash st1 ! j\<rparr>);
                       st2 = (if known then st1 else st1\<lparr>rhash := (rhash st1)[j := Some r]\<rparr>);
                       st3 = hash_rec r (c1\<lparr>c_uid := index, c_addr := addr\<rparr>) st2 in
                   if nameexists then Some st3
                   else add_hosts_cname (he_fuel e) (he_mem e) (he_cnames e) r st3))))"

text \<open>\<open>eatspace\<close>: the flag is the return value, whether a line ended.\<close>

function eatspace :: "bool \<Rightarrow> bytes \<Rightarrow> bool \<times> bytes" where
  "eatspace nl [] = (True, [])"
| "eatspace nl (c # f) =
     (if c = 35 then (case dropWhile (\<lambda>x. x \<noteq> 10) f of [] \<Rightarrow> (True, []) | _ # f' \<Rightarrow> eatspace True f')
      else if \<not> isspace c then (nl, c # f)
      else eatspace (nl \<or> c = 10) f)"
  by pat_completeness auto
termination
proof (relation "measure (\<lambda>(nl, f). length f)")
  fix nl :: bool and c x :: byte and f f' :: bytes
  assume "dropWhile (\<lambda>y. y \<noteq> 10) f = x # f'"
  then have "length (x # f') \<le> length f" using length_dropWhile_le by metis
  then show "((True, f'), nl, c # f) \<in> measure (\<lambda>(nl, f). length f)" by simp
qed auto

text \<open>\<open>gettok\<close>: the result is \<open>None\<close> for \<open>EOF\<close>; the token keeps its old contents when nothing is
  read.\<close>

fun gettok :: "nat \<Rightarrow> bytes \<Rightarrow> bytes \<Rightarrow> bool option \<times> bytes \<times> bytes" where
  "gettok n tok [] = ((if n = 0 then None else Some True), tok, [])"
| "gettok n tok (c # f) =
     (if isspace c \<or> c = 35 then (case eatspace False (c # f) of (r, f') \<Rightarrow> (Some r, tok, f'))
      else if n < MAXDNAME - 1 then gettok (n + 1) (take n tok @ [c]) f
      else gettok n tok f)"

definition get_domain :: "hosts_env \<Rightarrow> u32 \<Rightarrow> bytes option" where
  "get_domain e addr = (case find (\<lambda>c. \<not> cd_is6 c \<and> cd_start c \<le> addr \<and> addr \<le> cd_end c) (he_domains e) of
     Some c \<Rightarrow> Some (cd_domain c) | None \<Rightarrow> he_suffix e)"

text \<open>A name of a line: the entry with the default domain appended, and the entry itself.\<close>

definition hosts_flags :: u16 where
  "hosts_flags = CF_HOSTS OR CF_IMMORTAL OR CF_FORWARD OR CF_REVERSE OR CF_IPV4"

definition alloc_entry :: "hosts_env \<Rightarrow> bytes \<Rightarrow> u16 \<Rightarrow> bytes \<Rightarrow> u32 \<Rightarrow> nat \<times> hst \<Rightarrow> (nat \<times> hst) option" where
  "alloc_entry e name flags addr index cst0 = (case cst0 of (n, st) \<Rightarrow>
     (case new_rec (he_mem e) st of
        (None, st1) \<Rightarrow> Some (n, st1)
      | (Some r, st1) \<Rightarrow>
          map_option (Pair (n + 1))
            (add_hosts_entry e r addr index (set_rec r ((recs (hc st1) r)\<lparr>c_name := name, c_flags := flags\<rparr>) st1))))"

definition add_name :: "hosts_env \<Rightarrow> bytes option \<Rightarrow> bytes \<Rightarrow> u32 \<Rightarrow> bytes \<Rightarrow> nat \<times> hst \<Rightarrow> (nat \<times> hst) option" where
  "add_name e suffix addr index tok cst0 = (case cst0 of (n, st) \<Rightarrow>
     (let fqdn = 46 \<in> set tok in
      case new_rec (he_mem e) st of (m, st1) \<Rightarrow>
        (case canonicalise (m \<noteq> None) tok of
           (None, _) \<Rightarrow> Some (n, if fst (check_name tok) then st1 else st)
         | (Some canon, _) \<Rightarrow>
             (case (if he_expand e \<and> suffix \<noteq> None \<and> \<not> fqdn
                    then alloc_entry e (canon @ 46 # the suffix) hosts_flags addr index (n, st1) else Some (n, st1)) of
                None \<Rightarrow> None
              | Some (n', st2) \<Rightarrow> alloc_entry e canon hosts_flags addr index (n', st2)))))"

text \<open>The names of one line, up to its end; the flag tells that the end of the file was met.\<close>

lemma eatspace_length: "length (snd (eatspace nl f)) \<le> length f"
proof (induction nl f rule: eatspace.induct)
  case (2 nl c f)
  show ?case
  proof (cases "c = 35")
    case True
    have "length (dropWhile (\<lambda>x. x \<noteq> 10) f) \<le> length f" by (rule length_dropWhile_le)
    then show ?thesis using True 2(1) by (auto split: list.splits intro: order_trans)
  next
    case False
    then show ?thesis using 2(2) by (auto intro: order_trans)
  qed
qed simp

lemma eatspace_consumes:
  assumes "isspace c \<or> c = 35"
  shows "length (snd (eatspace nl (c # f))) < length (c # f)"
proof (cases "c = 35")
  case True
  show ?thesis
  proof (cases "dropWhile (\<lambda>x. x \<noteq> 10) f")
    case (Cons x f')
    then have "length (x # f') \<le> length f" using length_dropWhile_le by metis
    then show ?thesis using True Cons eatspace_length [of True f'] by simp
  next
    case Nil
    then show ?thesis using True by (simp del: dropWhile_eq_Nil_conv)
  qed
next
  case False
  then show ?thesis using assms eatspace_length [of "nl \<or> c = 10" f] by simp
qed

lemma gettok_shrinks: "gettok n tok f = (Some r, tok', f') \<Longrightarrow> length f' < length f \<or> f = [] \<and> f' = [] \<and> 0 < n"
proof (induction n tok f rule: gettok.induct)
  case (2 n tok c f)
  show ?case
  proof (cases "isspace c \<or> c = 35")
    case True
    then show ?thesis using 2(3) eatspace_consumes [OF True, of False f] by (auto split: prod.splits)
  next
    case False
    then show ?thesis using 2 by (auto split: if_splits)
  qed
qed (auto split: if_splits)

lemma gettok_consumes: "gettok 0 tok f = (Some r, tok', f') \<Longrightarrow> length f' < length f"
  using gettok_shrinks [of 0 tok f r tok' f'] by simp

lemma gettok_eof: "gettok n tok f = (None, tok', f') \<Longrightarrow> f = [] \<and> n = 0 \<and> f' = []"
  by (induction n tok f rule: gettok.induct) (auto simp: MAXDNAME_def split: if_splits prod.splits)

definition tok_str :: "bytes \<Rightarrow> bytes" where
  "tok_str tok = takeWhile (\<lambda>c. c \<noteq> 0) tok"

function line_loop ::
  "hosts_env \<Rightarrow> bytes option \<Rightarrow> bytes \<Rightarrow> u32 \<Rightarrow> bytes \<Rightarrow> bytes \<Rightarrow> nat \<times> hst \<Rightarrow> (bool \<times> bytes \<times> bytes \<times> nat \<times> hst) option" where
  "line_loop e suffix addr index tok f acc =
     (case gettok 0 tok f of
        (None, tok', f') \<Rightarrow> Some (True, tok', f', acc)
      | (Some atnl, tok', f') \<Rightarrow>
          (case add_name e suffix addr index (tok_str tok') acc of
             None \<Rightarrow> None
           | Some acc' \<Rightarrow> if atnl then Some (False, tok', f', acc') else line_loop e suffix addr index tok' f' acc'))"
  by pat_completeness auto
termination
  by (relation "measure (\<lambda>(e, suffix, addr, index, tok, f, acc). length f)") (auto dest: gettok_consumes [OF sym])

declare line_loop.simps [simp del]

text \<open>The rest of a line with a bad address: \<open>while (atnl == 0) atnl = gettok(f, token);\<close>  At the end of
  the file \<open>EOF\<close> ends this loop, too.\<close>

lemma gettok_measure:
  "length (snd (snd (gettok 0 tok f))) + (if fst (gettok 0 tok f) = Some False then 1 else 0) < Suc (length f)"
proof (cases "gettok 0 tok f")
  case (fields r tok' f')
  then show ?thesis using gettok_consumes [of tok f _ tok' f'] gettok_eof [of 0 tok f tok' f'] by (cases r) simp_all
qed

function skip_line :: "bool option \<Rightarrow> bytes \<Rightarrow> bytes \<Rightarrow> bytes \<times> bytes" where
  "skip_line atnl tok f =
     (if atnl = Some False
      then skip_line (fst (gettok 0 tok f)) (fst (snd (gettok 0 tok f))) (snd (snd (gettok 0 tok f)))
      else (tok, f))"
  by pat_completeness auto
termination
  by (relation "measure (\<lambda>(atnl, tok, f). length f + (if atnl = Some False then 1 else 0))") (simp, use gettok_measure in \<open>simp add: case_prod_unfold\<close>)

declare skip_line.simps [simp del]

lemma skip_line_length: "length (snd (skip_line atnl tok f)) \<le> length f"
proof (induction atnl tok f rule: skip_line.induct)
  case (1 atnl tok f)
  have "length (snd (snd (gettok 0 tok f))) \<le> length f" using gettok_measure [of tok f] by simp
  then show ?case using 1 by (subst skip_line.simps) (auto intro: order_trans)
qed

lemma line_loop_length: "line_loop e suffix addr index tok f acc = Some (eof, tok', f', acc') \<Longrightarrow> length f' \<le> length f"
proof (induction e suffix addr index tok f acc rule: line_loop.induct)
  case (1 e suffix addr index tok f acc)
  obtain r t g where g: "gettok 0 tok f = (r, t, g)" by (cases "gettok 0 tok f")
  show ?case
  proof (cases r)
    case None
    then show ?thesis using 1(2) g gettok_eof [of 0 tok f t g] by (subst (asm) line_loop.simps) auto
  next
    case (Some atnl)
    have l: "length g < length f" using gettok_consumes g Some by blast
    show ?thesis
    proof (cases "add_name e suffix addr index (tok_str t) acc")
      case None
      then show ?thesis using 1(2) g Some by (subst (asm) line_loop.simps) simp
    next
      case acc1: (Some acc1)
      have run: "line_loop e suffix addr index tok f acc =
          (if atnl then Some (False, t, g, acc1) else line_loop e suffix addr index t g acc1)"
        using g Some acc1 by (subst line_loop.simps) simp
      show ?thesis
      proof (cases atnl)
        case True
        then show ?thesis using 1(2) l by (simp add: run)
      next
        case False
        have "line_loop e suffix addr index t g acc1 = Some (eof, tok', f', acc')" using 1(2) False by (simp add: run)
        from 1(1) [OF g [symmetric] Some refl acc1 False this] l show ?thesis by simp
      qed
    qed
  qed
qed

definition grow_table :: "hosts_env \<Rightarrow> nat \<Rightarrow> hst \<Rightarrow> hst" where
  "grow_table e n st = st\<lparr>hc := rehash (he_mem e (brk st)) n (hc st), brk := brk st + 1\<rparr>"

text \<open>The lines of a file: the names counted so far, the size the table was made for, and the state.\<close>

function hostsfile_loop :: "hosts_env \<Rightarrow> u32 \<Rightarrow> bytes \<Rightarrow> bytes \<Rightarrow> nat \<Rightarrow> nat \<Rightarrow> hst \<Rightarrow> (nat \<times> hst) option" where
  "hostsfile_loop e index tok f n csz st =
     (case gettok 0 tok f of
        (None, _) \<Rightarrow> Some (n, st)
      | (Some atnl, tok', f') \<Rightarrow>
          (case he_pton e (tok_str tok') of
             None \<Rightarrow> hostsfile_loop e index (fst (skip_line (Some atnl) tok' f')) (snd (skip_line (Some atnl) tok' f')) n csz st
           | Some a \<Rightarrow>
               (let st1 = (if n > csz + 1000 then grow_table e n st else st);
                    csz1 = (if n > csz + 1000 then n else csz) in
                if atnl then hostsfile_loop e index tok' f' n csz1 st1
                else (case line_loop e (get_domain e a) (be32 a) index tok' f' (n, st1) of
                        None \<Rightarrow> None
                      | Some (_, tok'', f'', n', st2) \<Rightarrow> hostsfile_loop e index tok'' f'' n' csz1 st2))))"
  by pat_completeness auto
termination
proof (relation "measure (\<lambda>(e, index, tok, f, n, csz, st). length f)", goal_cases)
  case (2 e index tok f n csz st r p atnl tok' f')
  then have "length f' < length f" using gettok_consumes [of tok f atnl tok' f'] by simp
  then show ?case using skip_line_length [of "Some atnl" tok' f'] by simp
next
  case (3 e index tok f n csz st r p atnl tok' f')
  then show ?case using gettok_consumes [of tok f atnl tok' f'] by simp
next
  case (4 e index tok f n csz st r p atnl tok' f' a st1 csz1 q eof u tok'' v f'' w n' st2)
  have "length f' < length f" using 4 gettok_consumes [of tok f atnl tok' f'] by simp
  moreover have "length f'' \<le> length f'"
    using 4 line_loop_length [of e "get_domain e a" "be32 a" index tok' f' "(n, st1)" eof tok'' f'' "(n', st2)"] by simp
  ultimately show ?case by simp
qed simp

declare hostsfile_loop.simps [simp del]

definition read_hostsfile :: "hosts_env \<Rightarrow> bytes option \<Rightarrow> u32 \<Rightarrow> nat \<Rightarrow> hst \<Rightarrow> (nat \<times> hst) option" where
  "read_hostsfile e contents index cache_size st =
     (case contents of
        None \<Rightarrow> Some (0, st)
      | Some f \<Rightarrow>
          (case hostsfile_loop e index [] (snd (eatspace False f)) cache_size cache_size st of
             None \<Rightarrow> None | Some (n, st1) \<Rightarrow> Some (n, grow_table e n st1)))"

subsection \<open>Reloading\<close>

text \<open>The first loop of \<open>cache_reload\<close>, one chain at a time: records of the hosts file are freed, those
  learnt from upstream leave the table and are marked free, those of DHCP stay.\<close>

fun reload_chain :: "nat list \<Rightarrow> cst \<Rightarrow> nat list \<times> cst" where
  "reload_chain [] s = ([], s)"
| "reload_chain (a # as) s =
     (let c = recs s a in
      if has CF_HOSTS c then reload_chain as s
      else if \<not> has CF_DHCP c then
        reload_chain as (s\<lparr>big_free := (if has CF_BIGNAME c then big_free s + 1 else big_free s),
          recs := (recs s)(a := c\<lparr>c_flags := 0\<rparr>)\<rparr>)
      else case reload_chain as s of (ch, s') \<Rightarrow> (a # ch, s'))"

definition reload_bucket :: "nat \<Rightarrow> cst \<Rightarrow> cst" where
  "reload_bucket i s = (case reload_chain (table s ! i) s of (ch, s') \<Rightarrow> s'\<lparr>table := (table s')[i := ch]\<rparr>)"

definition reload_table :: "cst \<Rightarrow> cst" where
  "reload_table s = fold reload_bucket [0..<length (table s)] (s\<lparr>cache_inserted := 0, cache_live_freed := 0\<rparr>)"

definition config_flags :: u16 where
  "config_flags = hosts_flags OR CF_NAMEP OR CF_CONFIG"

definition host_record_name :: "hosts_env \<Rightarrow> u32 \<Rightarrow> bytes \<Rightarrow> hst \<Rightarrow> hst option" where
  "host_record_name e addr name st =
     (if addr = 0 then Some st else map_option snd (alloc_entry e name config_flags (be32 addr) 0 (0, st)))"

definition host_record_entries :: "hosts_env \<Rightarrow> host_record \<Rightarrow> hst \<Rightarrow> hst option" where
  "host_record_entries e hr st = foldM (host_record_name e (hr_addr hr)) (hr_names hr) st"

record addn_hosts =
  ah_contents :: "bytes option"
  ah_index :: u32
  ah_inactive :: bool

definition read_addn :: "hosts_env \<Rightarrow> addn_hosts \<Rightarrow> nat \<times> hst \<Rightarrow> (nat \<times> hst) option" where
  "read_addn e ah acc = (case acc of (n, st) \<Rightarrow>
     if ah_inactive ah then Some (n, st) else read_hostsfile e (ah_contents ah) (ah_index ah) n st)"

text \<open>\<open>no_hosts\<close> is \<open>OPT_NO_HOSTS\<close>, \<open>hosts\<close> the contents of \<open>/etc/hosts\<close>, \<open>addn\<close> the files of
  \<open>--addn-hosts\<close> as \<open>expand_filelist\<close> delivers them.\<close>

definition cache_reload ::
  "hosts_env \<Rightarrow> nat \<Rightarrow> nat \<Rightarrow> host_record list \<Rightarrow> bool \<Rightarrow> bytes option \<Rightarrow> addn_hosts list \<Rightarrow> hst \<Rightarrow> hst option" where
  "cache_reload e cachesize revhashsz hrs no_hosts hosts addn st =
     (case foldM (host_record_entries e) hrs (st\<lparr>hc := reload_table (hc st), rhash := replicate revhashsz None\<rparr>) of
        None \<Rightarrow> None
      | Some st1 \<Rightarrow>
          if no_hosts \<and> addn = [] then Some st1
          else
            (case (if no_hosts then Some (cachesize, st1) else read_hostsfile e hosts 0 cachesize st1) of
               None \<Rightarrow> None
             | Some acc \<Rightarrow> map_option snd (foldM (read_addn e) addn acc)))"

subsection \<open>Names of DHCP leases\<close>

fun unhash_chain :: "(nat \<Rightarrow> crec) \<Rightarrow> nat list \<Rightarrow> nat list \<Rightarrow> nat list \<times> nat list" where
  "unhash_chain rs [] spare = ([], spare)"
| "unhash_chain rs (a # as) spare =
     (if has CF_DHCP (rs a) then unhash_chain rs as (a # spare)
      else case unhash_chain rs as spare of (ch, spare') \<Rightarrow> (a # ch, spare'))"

definition unhash_bucket :: "nat \<Rightarrow> hst \<Rightarrow> hst" where
  "unhash_bucket i st = (case unhash_chain (recs (hc st)) (table (hc st) ! i) (dhcp_spare st) of (ch, spare) \<Rightarrow>
     st\<lparr>hc := (hc st)\<lparr>table := (table (hc st))[i := ch]\<rparr>, dhcp_spare := spare\<rparr>)"

definition cache_unhash_dhcp :: "hst \<Rightarrow> hst" where
  "cache_unhash_dhcp st = fold unhash_bucket [0..<length (table (hc st))] st"

text \<open>\<open>if ((crec = dhcp_spare)) dhcp_spare = dhcp_spare->next; else crec = whine_malloc(...);\<close>\<close>

definition spare_rec :: "(nat \<Rightarrow> bool) \<Rightarrow> hst \<Rightarrow> nat option \<times> hst" where
  "spare_rec mem st = (case dhcp_spare st of a # as \<Rightarrow> (Some a, st\<lparr>dhcp_spare := as\<rparr>) | [] \<Rightarrow> new_rec mem st)"

definition lease_time :: "int \<Rightarrow> crec \<Rightarrow> crec" where
  "lease_time ttd c = (if ttd = 0 then c\<lparr>c_flags := c_flags c OR CF_IMMORTAL\<rparr> else c\<lparr>c_ttd := ttd\<rparr>)"

fun add_dhcp_cname :: "nat \<Rightarrow> (nat \<Rightarrow> bool) \<Rightarrow> cname list \<Rightarrow> nat \<Rightarrow> int \<Rightarrow> hst \<Rightarrow> hst option" where
  "add_dhcp_cname 0 mem cs t ttd st = None"
| "add_dhcp_cname (Suc n) mem cs t ttd st =
     foldM (\<lambda>a st.
       if strcaseeq (cache_get_name (recs (hc st) t)) (cn_target a) then
         (case spare_rec mem st of
            (None, st1) \<Rightarrow> Some st1
          | (Some r, st1) \<Rightarrow>
              add_dhcp_cname n mem cs r ttd
                (hash_rec r ((lease_time ttd ((recs (hc st1) r)\<lparr>c_flags := CF_FORWARD OR CF_NAMEP OR CF_DHCP OR CF_CNAME\<rparr>))
                   \<lparr>c_name := cn_alias a, cn_cache := Some t, cn_uid := c_uid (recs (hc st1) t)\<rparr>) st1))
       else Some st) cs st"

text \<open>The loop over the records of the name: whether the hosts file has it with this address, and
  with another one.\<close>

fun dhcp_scan :: "nat \<Rightarrow> bytes \<Rightarrow> bytes \<Rightarrow> nat option \<Rightarrow> bool \<Rightarrow> bool \<Rightarrow> cst \<Rightarrow> (bool \<times> bool \<times> cst) option" where
  "dhcp_scan 0 name addr p in_hosts failed s = None"
| "dhcp_scan (Suc n) name addr p in_hosts failed s =
     (case cache_find_by_name p name 0 (CF_IPV4 OR CF_CNAME) s of
        None \<Rightarrow> None
      | Some (None, s1) \<Rightarrow> Some (in_hosts, failed, s1)
      | Some (Some a, s1) \<Rightarrow>
          (let c = recs s1 a in
           if has CF_HOSTS c then
             (if has CF_CNAME c then dhcp_scan n name addr (Some a) in_hosts failed s1
              else if take (length addr) (c_addr c) = addr then dhcp_scan n name addr (Some a) True failed s1
              else dhcp_scan n name addr (Some a) in_hosts True s1)
           else if \<not> has CF_DHCP c then
             map_option (\<lambda>(_, s2). (in_hosts, failed, s2))
               (cache_scan_free name None 0 (c_flags c AND (CF_IPV4 OR CF_CNAME OR CF_FORWARD)) s1)
           else dhcp_scan n name addr (Some a) in_hosts failed s1))"

text \<open>The reverse mapping: it is claimed when the address has none or only a negative one.\<close>

definition dhcp_reverse :: "bytes \<Rightarrow> cst \<Rightarrow> (u16 \<times> cst) option" where
  "dhcp_reverse addr s =
     (case cache_find_by_addr None addr 0 CF_IPV4 s of
        None \<Rightarrow> None
      | Some (None, s1) \<Rightarrow> Some (CF_IPV4 OR CF_REVERSE, s1)
      | Some (Some a, s1) \<Rightarrow>
          if has CF_NEG (recs s1 a)
          then map_option (\<lambda>(_, s2). (CF_IPV4 OR CF_REVERSE, s2)) (cache_scan_free [] (Some addr) 0 (CF_IPV4 OR CF_REVERSE) s1)
          else Some (CF_IPV4, s1))"

definition cache_add_dhcp_entry :: "hosts_env \<Rightarrow> bytes \<Rightarrow> bytes \<Rightarrow> int \<Rightarrow> hst \<Rightarrow> hst option" where
  "cache_add_dhcp_entry e host_name addr ttd st =
     (case dhcp_scan (brk st + 1) host_name addr None False False (hc st) of
        None \<Rightarrow> None
      | Some (in_hosts, failed, s1) \<Rightarrow>
          if in_hosts \<or> failed then Some (st\<lparr>hc := s1\<rparr>)
          else
            (case dhcp_reverse addr s1 of
               None \<Rightarrow> None
             | Some (flags, s2) \<Rightarrow>
                 (case spare_rec (he_mem e) (st\<lparr>hc := s2\<rparr>) of
                    (None, st3) \<Rightarrow> Some st3
                  | (Some r, st3) \<Rightarrow>
                      (let s3 = hc st3;
                           c = (lease_time ttd ((recs s3 r)\<lparr>c_flags := flags OR CF_NAMEP OR CF_DHCP OR CF_FORWARD\<rparr>))
                                 \<lparr>c_addr := addr, c_name := host_name, c_uid := uid s3\<rparr> in
                       add_dhcp_cname (he_fuel e) (he_mem e) (he_cnames e) r ttd
                         (hash_rec r c (st3\<lparr>hc := s3\<lparr>uid := uid s3 + 1\<rparr>\<rparr>))))))"

text \<open>\<open>a_record_from_hosts\<close>: the first address of the hosts file, or zero.\<close>

fun hosts_scan :: "nat \<Rightarrow> bytes \<Rightarrow> int \<Rightarrow> nat option \<Rightarrow> cst \<Rightarrow> (bytes \<times> cst) option" where
  "hosts_scan 0 name now p s = None"
| "hosts_scan (Suc n) name now p s =
     (case cache_find_by_name p name now CF_IPV4 s of
        None \<Rightarrow> None
      | Some (None, s1) \<Rightarrow> Some ([0, 0, 0, 0], s1)
      | Some (Some a, s1) \<Rightarrow>
          if has CF_HOSTS (recs s1 a) then Some (take 4 (c_addr (recs s1 a)), s1) else hosts_scan n name now (Some a) s1)"

definition a_record_from_hosts :: "bytes \<Rightarrow> int \<Rightarrow> hst \<Rightarrow> (bytes \<times> hst) option" where
  "a_record_from_hosts name now st =
     map_option (\<lambda>(addr, s). (addr, st\<lparr>hc := s\<rparr>)) (hosts_scan (brk st + 1) name now None (hc st))"

subsection \<open>The invariant\<close>

definition fresh :: "hst \<Rightarrow> nat \<Rightarrow> bool" where
  "fresh st a \<longleftrightarrow> a < brk st \<and> \<not> used (hc st) a \<and> a \<notin> set (dhcp_spare st)"

definition hinv :: "hst \<Rightarrow> bool" where
  "hinv st \<longleftrightarrow> cache_inv (hc st) \<and> (\<forall>a. used (hc st) a \<longrightarrow> a < brk st) \<and> distinct (dhcp_spare st) \<and>
     (\<forall>a \<in> set (dhcp_spare st). a < brk st \<and> \<not> used (hc st) a)"

text \<open>What adding records keeps: the recency list, the pending records, and every record that is
  neither spare nor new.\<close>

definition owned :: "hst \<Rightarrow> nat \<Rightarrow> bool" where
  "owned st a \<longleftrightarrow> a < brk st \<and> a \<notin> set (dhcp_spare st)"

definition grows :: "hst \<Rightarrow> hst \<Rightarrow> bool" where
  "grows st st' \<longleftrightarrow> lru (hc st') = lru (hc st) \<and> new_ch (hc st') = new_ch (hc st) \<and> rhash st' = rhash st \<and>
     brk st \<le> brk st' \<and> set (dhcp_spare st') \<subseteq> set (dhcp_spare st) \<and>
     (\<forall>a. owned st a \<longrightarrow> recs (hc st') a = recs (hc st) a) \<and>
     (\<forall>a. in_table (hc st) a \<longrightarrow> in_table (hc st') a) \<and>
     (\<forall>a. in_table (hc st') a \<longrightarrow> in_table (hc st) a \<or> (owned st' a \<and> fixed_rec (recs (hc st') a)))"

lemma grows_refl [simp]: "grows st st"
  by (simp add: grows_def)

lemma hinv_sub:
  assumes "hinv st" and "cache_inv s'" and "\<And>b. used s' b \<Longrightarrow> used (hc st) b"
  shows "hinv (st\<lparr>hc := s'\<rparr>)"
  using assms unfolding hinv_def by auto

lemma used_owned: "hinv st \<Longrightarrow> used (hc st) a \<Longrightarrow> owned st a"
  by (auto simp: hinv_def owned_def)

lemma new_rec_inv:
  assumes "hinv st" and "new_rec mem st = (r, st')"
  shows "hinv st'" "grows st st'" "\<And>a. r = Some a \<Longrightarrow> fresh st' a \<and> \<not> owned st a"
    "\<And>a. r = Some a \<Longrightarrow> a = brk st" "st' = st\<lparr>brk := brk st + 1\<rparr>"
  using assms by (auto simp: new_rec_def hinv_def grows_def fresh_def owned_def less_Suc_eq split: if_splits)

lemma spare_rec_inv:
  assumes "hinv st" and "spare_rec mem st = (r, st')"
  shows "hinv st' \<and> grows st st' \<and> (\<forall>a. r = Some a \<longrightarrow> fresh st' a \<and> \<not> owned st a)"
proof (cases "dhcp_spare st")
  case Nil
  then show ?thesis using new_rec_inv [OF assms(1), of mem r st'] assms(2) by (simp add: spare_rec_def)
next
  case (Cons x xs)
  then have e: "r = Some x" "st' = st\<lparr>dhcp_spare := xs\<rparr>" using assms(2) by (auto simp: spare_rec_def)
  then show ?thesis using assms(1) Cons by (auto simp: hinv_def grows_def fresh_def owned_def)
qed

lemma cache_inv_recs:
  assumes inv: "cache_inv s" and r: "\<not> used s r"
  shows "cache_inv (s\<lparr>recs := (recs s)(r := c)\<rparr>)"
proof -
  note d = cinvD [OF inv [unfolded cache_inv_def]]
  define s' where "s' = s\<lparr>recs := (recs s)(r := c)\<rparr>"
  have f: "lru s' = lru s" "new_ch s' = new_ch s" "mix_tab s' = mix_tab s" "table s' = table s" "\<And>b. b \<noteq> r \<Longrightarrow> recs s' b = recs s b"
    by (simp_all add: s'_def)
  have ne: "b \<noteq> r" if "used s b" for b using that r by blast
  have "chain_ok s' (length (table s)) i (table s ! i)" if i: "i < length (table s)" for i
  proof (rule chain_ok_cong)
    have n: "\<forall>b \<in> set (table s ! i). b \<noteq> r" using r in_table_nth [OF i] by (auto simp: used_def)
    have m: "map (\<lambda>b. chain_class (recs s' b)) (table s ! i) = map (\<lambda>b. chain_class (recs s b)) (table s ! i)"
      using n f(5) by auto
    show "ordered s' (table s ! i)" using chain_ok_ordered [OF d(6) [OF i]] unfolding ordered_def m .
    fix b assume b: "b \<in> set (table s ! i)"
    show "place_of s' (length (table s)) b = i \<and> live_rec (recs s' b) \<and> b \<notin> set (new_ch s') \<and> (fixed_rec (recs s' b) \<or> b \<in> set (lru s'))"
      using chain_okD [OF d(6) [OF i] b] n b f by simp
  qed
  moreover have "recs s' b = recs s b" if "b \<in> set (lru s) \<or> b \<in> set (new_ch s)" for b using that r f(5) by (metis used_def)
  ultimately have "cinv (table s) s'" using d unfolding cinv_def f by simp
  then show ?thesis by (simp add: cache_inv_def s'_def)
qed

lemma hash_rec_inv:
  assumes inv: "hinv st" and r: "fresh st r" and c: "live_rec c" "fixed_rec c"
  shows "hinv (hash_rec r c st)" "recs (hc (hash_rec r c st)) = (recs (hc st))(r := c)"
    "in_table (hc (hash_rec r c st)) b \<longleftrightarrow> b = r \<or> in_table (hc st) b"
    "lru (hc (hash_rec r c st)) = lru (hc st)" "new_ch (hc (hash_rec r c st)) = new_ch (hc st)"
    "brk (hash_rec r c st) = brk st" "dhcp_spare (hash_rec r c st) = dhcp_spare st" "rhash (hash_rec r c st) = rhash st"
proof -
  let ?s' = "cache_hash r ((hc st)\<lparr>recs := (recs (hc st))(r := c)\<rparr>)"
  have ci: "cache_inv (hc st)" using inv by (simp add: hinv_def)
  have n: "r \<notin> set (lru (hc st))" "r \<notin> set (new_ch (hc st))" "\<not> in_table (hc st) r" using r by (auto simp: fresh_def used_def)
  note m = cinv_add_fixed [OF ci n c refl]
  obtain T where T: "?s' = (hc st)\<lparr>recs := (recs (hc st))(r := c), table := T\<rparr>" using m(3) by blast
  have u: "used ?s' b \<longleftrightarrow> b = r \<or> used (hc st) b" for b using m(2) [of b] by (auto simp: used_def T)
  show "recs (hc (hash_rec r c st)) = (recs (hc st))(r := c)" "lru (hc (hash_rec r c st)) = lru (hc st)"
    "new_ch (hc (hash_rec r c st)) = new_ch (hc st)" by (simp_all add: hash_rec_def T)
  show "in_table (hc (hash_rec r c st)) b \<longleftrightarrow> b = r \<or> in_table (hc st) b" using m(2) [of b] by (simp add: hash_rec_def)
  show "brk (hash_rec r c st) = brk st" "dhcp_spare (hash_rec r c st) = dhcp_spare st" "rhash (hash_rec r c st) = rhash st"
    by (simp_all add: hash_rec_def)
  show "hinv (hash_rec r c st)" using inv m(1) r u unfolding hinv_def hash_rec_def fresh_def by auto
qed

lemma grows_trans: "grows st st' \<Longrightarrow> grows st' st'' \<Longrightarrow> grows st st''"
proof -
  assume g: "grows st st'" "grows st' st''"
  have "owned st' a" if "owned st a" for a using that g(1) by (auto simp: owned_def grows_def)
  then have "recs (hc st'') a = recs (hc st) a" if "owned st a" for a using g that unfolding grows_def by metis
  moreover have "owned st'' a" if "owned st' a" for a using that g(2) by (auto simp: owned_def grows_def)
  then have "in_table (hc st) a \<or> (owned st'' a \<and> fixed_rec (recs (hc st'') a))" if "in_table (hc st'') a" for a
    using g that unfolding grows_def by metis
  ultimately show ?thesis using g unfolding grows_def by auto
qed

text \<open>A record is taken and enters the table.\<close>

lemma grows_hash:
  assumes "hinv st1" "grows st st1" "fresh st1 r" "\<not> owned st r" "live_rec c" "fixed_rec c"
  shows "grows st (hash_rec r c st1)"
proof -
  note h = hash_rec_inv [OF assms(1,3,5,6)]
  have "recs (hc (hash_rec r c st1)) a = recs (hc st) a" if "owned st a" for a
    using that assms(2,4) h(2) by (auto simp: grows_def)
  moreover have "in_table (hc st) a \<or> (owned (hash_rec r c st1) a \<and> fixed_rec (recs (hc (hash_rec r c st1)) a))"
    if "in_table (hc (hash_rec r c st1)) a" for a
    using that assms(2,3,6) h(2,3,6,7) by (auto simp: grows_def owned_def fresh_def)
  ultimately show ?thesis using assms(2) h(3-8) unfolding grows_def by simp
qed

subsection \<open>Aliases\<close>

text \<open>No alias leads back to itself: the rank falls from an alias to the aliases that have it as
  their target.\<close>

definition aliases_ok :: "(cname \<Rightarrow> nat) \<Rightarrow> cname list \<Rightarrow> bool" where
  "aliases_ok rank cs \<longleftrightarrow> (\<forall>a \<in> set cs. \<forall>b \<in> set cs. strcaseeq (cn_alias a) (cn_target b) \<longrightarrow> rank b < rank a)"

text \<open>The contract of adding the aliases of a record, which the hosts file and DHCP share.\<close>

locale alias_records =
  fixes alloc :: "hst \<Rightarrow> nat option \<times> hst" and build :: "cname \<Rightarrow> nat \<Rightarrow> nat \<Rightarrow> hst \<Rightarrow> crec"
    and add :: "nat \<Rightarrow> nat \<Rightarrow> hst \<Rightarrow> hst option" and cs :: "cname list"
  assumes alloc: "hinv st \<Longrightarrow> alloc st = (r, st') \<Longrightarrow> hinv st' \<and> grows st st' \<and> (\<forall>a. r = Some a \<longrightarrow> fresh st' a \<and> \<not> owned st a)"
    and build: "live_rec (build cn t x st)" "fixed_rec (build cn t x st)" "c_name (build cn t x st) = cn_alias cn"
    and add: "add (Suc n) t st = foldM (\<lambda>a st.
       if strcaseeq (c_name (recs (hc st) t)) (cn_target a) then
         (case alloc st of (None, st1) \<Rightarrow> Some st1 | (Some r, st1) \<Rightarrow> add n r (hash_rec r (build a t r st1) st1))
       else Some st) cs st"
begin

lemma add_inv:
  assumes "hinv st" and "in_table (hc st) t" and "aliases_ok rank cs"
    and "\<forall>a \<in> set cs. strcaseeq (c_name (recs (hc st) t)) (cn_target a) \<longrightarrow> Suc (rank a) < n" and "0 < n"
  shows "\<exists>st'. add n t st = Some st' \<and> hinv st' \<and> grows st st'"
  using assms
proof (induction n arbitrary: t st)
  case (Suc n)
  let ?f = "\<lambda>a st. if strcaseeq (c_name (recs (hc st) t)) (cn_target a) then
         (case alloc st of (None, st1) \<Rightarrow> Some st1 | (Some r, st1) \<Rightarrow> add n r (hash_rec r (build a t r st1) st1))
       else Some st"
  have "\<exists>st'. foldM ?f xs st1 = Some st' \<and> hinv st' \<and> grows st st'"
    if "set xs \<subseteq> set cs" "hinv st1" "grows st st1" for xs st1
    using that
  proof (induction xs arbitrary: st1)
    case (Cons a xs)
    have ot: "owned st t" by (rule used_owned [OF Suc.prems(1)]) (simp add: used_def Suc.prems(2))
    have nt: "recs (hc st1) t = recs (hc st) t" "in_table (hc st1) t" using Cons.prems(3) ot Suc.prems(2) by (auto simp: grows_def)
    have "\<exists>st2. ?f a st1 = Some st2 \<and> hinv st2 \<and> grows st1 st2"
    proof (cases "strcaseeq (c_name (recs (hc st1) t)) (cn_target a)")
      case True
      obtain r st2 where al: "alloc st1 = (r, st2)" by (cases "alloc st1")
      note A = alloc [OF Cons.prems(2) al]
      show ?thesis
      proof (cases r)
        case None
        then show ?thesis using True al A by simp
      next
        case (Some x)
        let ?c = "build a t x st2"
        have fr: "fresh st2 x" "\<not> owned st1 x" using A Some by auto
        have h2: "hinv st2" "grows st1 st2" using A by auto
        note h = hash_rec_inv [OF h2(1) fr(1) build(1,2) [of a t x st2]]
        have g3: "grows st1 (hash_rec x ?c st2)" by (rule grows_hash [OF h2 fr build(1,2)])
        have rk: "rank a < n" using Suc.prems(4) Cons.prems(1) True nt(1) by simp
        have deep: "Suc (rank b) < n" if "b \<in> set cs" "strcaseeq (cn_alias a) (cn_target b)" for b
          using Suc.prems(3) Cons.prems(1) that rk unfolding aliases_ok_def by fastforce
        have "\<exists>st'. add n x (hash_rec x ?c st2) = Some st' \<and> hinv st' \<and> grows (hash_rec x ?c st2) st'"
          by (rule Suc.IH [OF h(1)]) (use h(2,3) Suc.prems(3) deep build(3) rk in auto)
        then show ?thesis using True al Some grows_trans [OF g3] by auto
      qed
    next
      case False
      then show ?thesis using Cons.prems by auto
    qed
    then obtain st2 where "?f a st1 = Some st2" "hinv st2" "grows st1 st2" by blast
    with Cons.IH [of st2] Cons.prems grows_trans [of st st1 st2] show ?case by auto
  qed simp
  from this [of cs st] Suc.prems(1) show ?case unfolding add by simp
qed simp

end

definition hosts_alias :: "cname \<Rightarrow> nat \<Rightarrow> nat \<Rightarrow> hst \<Rightarrow> crec" where
  "hosts_alias a t r st = (recs (hc st) r)\<lparr>c_flags := CF_FORWARD OR CF_IMMORTAL OR CF_NAMEP OR CF_HOSTS OR CF_CNAME,
     c_name := cn_alias a, cn_cache := Some t, cn_uid := c_uid (recs (hc st) t)\<rparr>"

definition dhcp_alias :: "int \<Rightarrow> cname \<Rightarrow> nat \<Rightarrow> nat \<Rightarrow> hst \<Rightarrow> crec" where
  "dhcp_alias ttd a t r st = (lease_time ttd ((recs (hc st) r)\<lparr>c_flags := CF_FORWARD OR CF_NAMEP OR CF_DHCP OR CF_CNAME\<rparr>))
     \<lparr>c_name := cn_alias a, cn_cache := Some t, cn_uid := c_uid (recs (hc st) t)\<rparr>"

interpretation hosts_aliases: alias_records "new_rec mem" hosts_alias "\<lambda>n. add_hosts_cname n mem cs" cs for mem cs
proof
  show "hinv st' \<and> grows st st' \<and> (\<forall>a. r = Some a \<longrightarrow> fresh st' a \<and> \<not> owned st a)"
    if "hinv st" "new_rec mem st = (r, st')" for st r st'
    using new_rec_inv [OF that] by blast
  show "live_rec (hosts_alias cn t x st)" "fixed_rec (hosts_alias cn t x st)" "c_name (hosts_alias cn t x st) = cn_alias cn" for cn t x st
    by (simp_all add: hosts_alias_def has_def fixed_rec_def cf_defs)
qed (unfold add_hosts_cname.simps hosts_alias_def cache_get_name_def, rule refl)

interpretation dhcp_aliases: alias_records "spare_rec mem" "dhcp_alias ttd" "\<lambda>n t. add_dhcp_cname n mem cs t ttd" cs for mem ttd cs
proof
  show "hinv st' \<and> grows st st' \<and> (\<forall>a. r = Some a \<longrightarrow> fresh st' a \<and> \<not> owned st a)"
    if "hinv st" "spare_rec mem st = (r, st')" for st r st'
    using spare_rec_inv [OF that] .
  show "live_rec (dhcp_alias ttd cn t x st)" "fixed_rec (dhcp_alias ttd cn t x st)" "c_name (dhcp_alias ttd cn t x st) = cn_alias cn" for cn t x st
    by (simp_all add: dhcp_alias_def lease_time_def has_def fixed_rec_def cf_defs)
qed (unfold add_dhcp_cname.simps dhcp_alias_def cache_get_name_def, rule refl)

definition env_ok :: "hosts_env \<Rightarrow> bool" where
  "env_ok e \<longleftrightarrow> 0 < he_fuel e \<and> (\<exists>rank. aliases_ok rank (he_cnames e) \<and> (\<forall>a \<in> set (he_cnames e). Suc (rank a) < he_fuel e))"

subsection \<open>Chains through the links\<close>

inductive ends :: "cst \<Rightarrow> (nat \<Rightarrow> bool) \<Rightarrow> nat option \<Rightarrow> bool" for s A where
  ends_None [simp, intro]: "ends s A None"
| ends_Some: "A a \<Longrightarrow> ends s A (next_of s a) \<Longrightarrow> ends s A (Some a)"

lemma ends_lru:
  assumes "distinct (lru s)" and "\<forall>a \<in> set (lru s). A a" and "a \<in> set (lru s)"
  shows "ends s A (Some a)"
proof -
  have "ends s A (Some (lru s ! k))" if "k < length (lru s)" for k
    using that
  proof (induction "length (lru s) - k" arbitrary: k)
    case (Suc m)
    have "next_of s (lru s ! k) = (if k + 1 < length (lru s) then Some (lru s ! (k + 1)) else None)"
      using succ_in_nth [OF assms(1) Suc.prems] Suc.prems by (simp add: next_of_def)
    then show ?case using Suc assms(2) by (intro ends_Some) (auto split: if_splits)
  qed simp
  then show ?thesis using assms(3) by (auto simp: in_set_conv_nth)
qed

lemma ends_transfer:
  assumes "ends s A p" and "\<And>a. A a \<Longrightarrow> ends s' B (Some a) \<or> (B a \<and> next_of s' a = next_of s a)"
  shows "ends s' B p"
  using assms(1)
proof induction
  case (ends_Some a)
  then show ?case using assms(2) [of a] ends.ends_Some [of B a s'] by auto
qed simp

fun linked :: "cst \<Rightarrow> nat option \<Rightarrow> nat list \<Rightarrow> bool" where
  "linked s p [] \<longleftrightarrow> p = None"
| "linked s p (x # xs) \<longleftrightarrow> p = Some x \<and> linked s (next_of s x) xs"

lemma ends_linked: "ends s A p \<Longrightarrow> \<exists>xs. linked s p xs \<and> (\<forall>x \<in> set xs. A x)"
proof (induction rule: ends.induct)
  case ends_None
  show ?case by (intro exI [of _ "[]"]) simp
next
  case (ends_Some a)
  then obtain xs where "linked s (next_of s a) xs" "\<forall>x \<in> set xs. A x" by blast
  then show ?case using ends_Some(1) by (intro exI [of _ "a # xs"]) simp
qed

lemma linked_unique: "linked s p xs \<Longrightarrow> linked s p ys \<Longrightarrow> xs = ys"
proof (induction xs arbitrary: p ys)
  case Nil
  then show ?case by (cases ys) auto
next
  case (Cons x xs)
  then show ?case by (cases ys) auto
qed

lemma linked_suffix: "linked s p (xs @ ys) \<Longrightarrow> \<exists>q. linked s q ys"
  by (induction xs arbitrary: p) auto

lemma linked_distinct: "linked s p xs \<Longrightarrow> distinct xs"
proof (induction xs arbitrary: p)
  case (Cons x xs)
  have "x \<notin> set xs"
  proof
    assume "x \<in> set xs"
    then obtain us vs where xs: "xs = us @ x # vs" by (auto simp: in_set_conv_decomp)
    then obtain q where "linked s q (x # vs)" using linked_suffix [of s p "x # us" "x # vs"] Cons.prems by auto
    then have "linked s (Some x) (x # vs)" by simp
    moreover have "linked s (Some x) (x # xs)" using Cons.prems by simp
    ultimately have "x # vs = x # xs" by (rule linked_unique)
    then show False by (simp add: xs)
  qed
  then show ?case using Cons by auto
qed simp

lemma link_walk_linked: "linked s p xs \<Longrightarrow> length xs < n \<Longrightarrow> \<exists>r. link_walk n P s p = Some r"
proof (induction xs arbitrary: p n)
  case Nil
  then show ?case by (cases n) auto
next
  case (Cons x xs)
  then show ?case by (cases n) auto
qed

text \<open>A chain that ends is walked to its end in as many steps as there are records.\<close>

lemma link_walk_ends:
  assumes "ends s A p" and "\<And>a. A a \<Longrightarrow> a < b" and "b < n"
  shows "\<exists>r. link_walk n P s p = Some r"
proof -
  obtain xs where xs: "linked s p xs" "\<forall>x \<in> set xs. A x" using ends_linked [OF assms(1)] by blast
  have "length xs = card (set xs)" using linked_distinct [OF xs(1)] by (simp add: distinct_card)
  also have "\<dots> \<le> card {..<b}" by (rule card_mono) (use xs(2) assms(2) in auto)
  finally show ?thesis using link_walk_linked [OF xs(1)] assms(3) by simp
qed

lemma fixed_next: "fixed_rec (c\<lparr>c_next := x\<rparr>) = fixed_rec c"
  by (simp add: fixed_rec_def has_def)

lemma find_by_name_links:
  assumes inv: "hinv st"
  shows "\<exists>r s'. cache_find_by_name None name now prot (hc st) = Some (r, s') \<and> hinv (st\<lparr>hc := s'\<rparr>) \<and>
     (\<forall>b. used s' b \<longrightarrow> used (hc st) b) \<and> (\<forall>a. \<not> used (hc st) a \<longrightarrow> recs s' a = recs (hc st) a) \<and>
     (\<forall>a. in_table s' a \<longrightarrow> in_table (hc st) a \<and> fixed_rec (recs s' a) = fixed_rec (recs (hc st) a)) \<and>
     (\<forall>A p. (\<forall>a. used (hc st) a \<longrightarrow> A a) \<longrightarrow> ends (hc st) A p \<longrightarrow> ends s' A p)"
proof -
  let ?s = "hc st"
  have ci: "cache_inv ?s" using inv by (simp add: hinv_def)
  obtain r s' L z where f: "cache_find_by_name None name now prot ?s = Some (r, s')" "cache_inv s'"
     "set L = {a. in_table s' a \<and> name_hit name prot (recs s' a)}"
     "\<forall>a. in_table s' a \<longrightarrow> in_table ?s a \<and> fixed_rec (recs s' a) = fixed_rec (recs ?s a)" "new_ch s' = new_ch ?s" "set (lru s') = set (lru ?s)"
     "\<forall>a. a \<notin> set (lru ?s) \<and> a \<notin> set L \<longrightarrow> recs s' a = recs ?s a"
     "\<forall>b. z = Some b \<longrightarrow> b \<in> set (lru s')" "\<forall>k < length L. next_of s' (L ! k) = (if k + 1 < length L then Some (L ! (k + 1)) else z)"
    using cache_find_by_name_post [OF ci, of name now prot] by (elim exE conjE) (rule that, assumption+, metis fixed_next, assumption+)
  have us: "used ?s b" if "used s' b" for b using that f(4-6) by (auto simp: used_def)
  have uL: "used ?s a" if "a \<in> set L" for a using that f(3,4) by (auto simp: used_def)
  have "ends s' A p" if A: "\<forall>a. used ?s a \<longrightarrow> A a" and p: "ends ?s A p" for A p
  proof (rule ends_transfer [OF p])
    fix a assume "A a"
    have lr: "ends s' A (Some b)" if "b \<in> set (lru s')" for b
      using ends_lru [OF cinvD(3) [OF f(2) [unfolded cache_inv_def]], of A b] A that f(6) by (auto simp: used_def)
    note z = f(8,9)
    have "ends s' A (Some (L ! k))" if "k < length L" for k
      using that
    proof (induction "length L - k" arbitrary: k)
      case (Suc m)
      have ez: "ends s' A z" using z(1) lr by (cases z) auto
      show ?case
      proof (rule ends_Some)
        show "A (L ! k)" using A uL Suc.prems by simp
        show "ends s' A (next_of s' (L ! k))" using z(2) Suc ez by (auto split: if_splits)
      qed
    qed simp
    then have eL: "ends s' A (Some b)" if "b \<in> set L" for b using that by (auto simp: in_set_conv_nth)
    show "ends s' A (Some a) \<or> A a \<and> next_of s' a = next_of ?s a"
      using lr [of a] eL [of a] f(6,7) \<open>A a\<close> by (cases "a \<in> set (lru s')"; cases "a \<in> set L") (auto simp: next_of_def)
  qed
  moreover have "recs s' a = recs ?s a" if "\<not> used ?s a" for a
    using that f(7) uL by (auto simp: used_def)
  ultimately show ?thesis using f(1,2,4) us hinv_sub [OF inv f(2)] by blast
qed

subsection \<open>Reading entries keeps the invariant\<close>

text \<open>While a hosts file is read, every chain of the table by address ends, and the table of names
  holds only records of hosts files and DHCP.\<close>

definition rinv :: "hst \<Rightarrow> bool" where
  "rinv st \<longleftrightarrow> hinv st \<and> rhash st \<noteq> [] \<and> (\<forall>p \<in> set (rhash st). ends (hc st) (owned st) p) \<and>
     (\<forall>a. in_table (hc st) a \<longrightarrow> fixed_rec (recs (hc st) a))"

lemma addr_hash_less: "0 < hashsz \<Longrightarrow> j < hashsz \<Longrightarrow> addr_hash hashsz j bs < hashsz"
  by (induction bs arbitrary: j) simp_all

lemma ends_mono: "ends s A p \<Longrightarrow> (\<And>a. A a \<Longrightarrow> B a) \<Longrightarrow> ends s B p"
  by (erule ends_transfer) simp

lemma owned_grows: "grows st st' \<Longrightarrow> owned st a \<Longrightarrow> owned st' a"
  by (auto simp: grows_def owned_def)

lemma rinv_grows:
  assumes "rinv st" and "hinv st'" and g: "grows st st'"
  shows "rinv st'"
proof -
  have "ends (hc st') (owned st') p" if "ends (hc st) (owned st) p" for p
    by (rule ends_transfer [OF that]) (use g owned_grows [OF g] in \<open>auto simp: grows_def next_of_def\<close>)
  moreover have "fixed_rec (recs (hc st') a)" if "in_table (hc st') a" for a
  proof (cases "in_table (hc st) a")
    case True
    then have "owned st a" using assms(1) by (auto simp: rinv_def used_def intro: used_owned)
    then show ?thesis using True assms(1) g by (simp add: rinv_def grows_def)
  qed (use that g in \<open>auto simp: grows_def\<close>)
  ultimately show ?thesis using assms unfolding rinv_def grows_def by simp
qed

definition entry_rec :: "crec \<Rightarrow> bool" where
  "entry_rec c \<longleftrightarrow> has CF_FORWARD c \<and> has CF_HOSTS c"

lemma has_sub: "has m c \<Longrightarrow> m AND k = m \<Longrightarrow> has k c"
proof -
  assume h: "has m c" and k: "m AND k = m"
  have "(c_flags c AND k) AND m = c_flags c AND m" by (metis k and.assoc and.commute)
  then show ?thesis using h by (auto simp: has_def)
qed

lemma entry_rec_live:
  assumes "entry_rec c"
  shows "live_rec c" "fixed_rec c" "live_rec (c\<lparr>c_flags := c_flags c AND NOT CF_REVERSE\<rparr>)" "fixed_rec (c\<lparr>c_flags := c_flags c AND NOT CF_REVERSE\<rparr>)"
proof -
  have f: "entry_rec (c\<lparr>c_flags := c_flags c AND NOT CF_REVERSE\<rparr>)"
    using assms by (simp add: entry_rec_def has_def cf_defs and.assoc)
  have "live_rec d \<and> fixed_rec d" if "entry_rec d" for d
    using that has_sub [of CF_FORWARD d "CF_FORWARD OR CF_REVERSE"] has_sub [of CF_HOSTS d "CF_HOSTS OR CF_DHCP"]
    by (simp add: entry_rec_def fixed_rec_def cf_defs)
  from this [OF assms] this [OF f]
  show "live_rec c" "fixed_rec c" "live_rec (c\<lparr>c_flags := c_flags c AND NOT CF_REVERSE\<rparr>)" "fixed_rec (c\<lparr>c_flags := c_flags c AND NOT CF_REVERSE\<rparr>)"
    by blast+
qed

lemma has_next [simp]:
  "has m (c\<lparr>c_next := x\<rparr>) = has m c" "has m (c\<lparr>c_uid := u\<rparr>) = has m c" "has m (c\<lparr>c_addr := b\<rparr>) = has m c"
  "fixed_rec (c\<lparr>c_next := x\<rparr>) = fixed_rec c" "fixed_rec (c\<lparr>c_uid := u\<rparr>) = fixed_rec c" "fixed_rec (c\<lparr>c_addr := b\<rparr>) = fixed_rec c"
  by (simp_all add: has_def fixed_rec_def)

text \<open>The last allocated record, which no chain knows yet, becomes an entry.\<close>

lemma add_hosts_entry_inv:
  assumes e: "env_ok e" and inv: "hinv st" and ne: "rhash st \<noteq> []" and r: "fresh st r"
    and links: "\<forall>p \<in> set (rhash st). ends (hc st) (\<lambda>a. owned st a \<and> a \<noteq> r) p"
    and c: "entry_rec (recs (hc st) r)" and tab: "\<forall>a. in_table (hc st) a \<longrightarrow> fixed_rec (recs (hc st) a)"
  shows "\<exists>st'. add_hosts_entry e r addr index st = Some st' \<and> rinv st' \<and> brk st \<le> brk st'"
proof -
  let ?c = "recs (hc st) r"
  let ?A = "\<lambda>a. owned st a \<and> a \<noteq> r"
  obtain lk s1 where f: "cache_find_by_name None (cache_get_name ?c) 0 (c_flags ?c AND (CF_IPV4 OR CF_IPV6)) (hc st) = Some (lk, s1)"
      "hinv (st\<lparr>hc := s1\<rparr>)" "\<forall>b. used s1 b \<longrightarrow> used (hc st) b" "\<forall>a. \<not> used (hc st) a \<longrightarrow> recs s1 a = recs (hc st) a"
      "\<forall>A p. (\<forall>a. used (hc st) a \<longrightarrow> A a) \<longrightarrow> ends (hc st) A p \<longrightarrow> ends s1 A p"
      "\<forall>a. in_table s1 a \<longrightarrow> in_table (hc st) a \<and> fixed_rec (recs s1 a) = fixed_rec (recs (hc st) a)"
    using find_by_name_links [OF inv] by blast
  have tab1: "\<forall>a. in_table s1 a \<longrightarrow> fixed_rec (recs s1 a)" using f(6) tab by blast
  define st1 where "st1 = st\<lparr>hc := s1\<rparr>"
  have h1: "hinv st1" "hc st1 = s1" "rhash st1 = rhash st" "brk st1 = brk st" "\<And>a. owned st1 a = owned st a"
    using f(2) by (simp_all add: st1_def owned_def)
  have fr1: "fresh st1 r" and c1: "recs s1 r = ?c" using r f(3,4) by (auto simp: fresh_def st1_def)
  have uA: "\<forall>a. used (hc st) a \<longrightarrow> ?A a" using used_owned [OF inv] r by (auto simp: fresh_def)
  have l1: "\<forall>p \<in> set (rhash st). ends s1 ?A p"
  proof
    fix p assume "p \<in> set (rhash st)"
    then have "ends (hc st) ?A p" using links by blast
    then show "ends s1 ?A p" by (rule f(5) [THEN spec, THEN spec, THEN mp, OF uA, THEN mp])
  qed
  have "ends s1 (owned st1) p" if "ends s1 ?A p" for p by (rule ends_mono [OF that]) (simp add: h1(5))
  then have rinv1: "rinv st1" using h1(1-3) ne l1 tab1 unfolding rinv_def by simp
  let ?j = "addr_hash (length (rhash st)) 0 addr"
  have j: "?j < length (rhash st)" using ne by (simp add: addr_hash_less)
  obtain known where walk: "link_walk (brk st + 1) (same_addr (c_flags ?c) addr) s1 (rhash st ! ?j) = Some known"
    using link_walk_ends [of s1 ?A "rhash st ! ?j" "brk st" "brk st + 1"] l1 j by (auto simp: owned_def)
  define c2 where "c2 = (if known then ?c\<lparr>c_flags := c_flags ?c AND NOT CF_REVERSE\<rparr> else ?c\<lparr>c_next := rhash st ! ?j\<rparr>)"
  define c3 where "c3 = c2\<lparr>c_uid := index, c_addr := addr\<rparr>"
  define st2 where "st2 = (if known then st1 else st1\<lparr>rhash := (rhash st1)[?j := Some r]\<rparr>)"
  define st3 where "st3 = hash_rec r c3 st2"
  have h2: "hinv st2" "fresh st2 r" "hc st2 = s1" "brk st2 = brk st" "dhcp_spare st2 = dhcp_spare st"
    using h1(1,2) fr1 by (simp_all add: st2_def st1_def hinv_def fresh_def)
  have lv: "live_rec c3" "fixed_rec c3" using entry_rec_live [OF c] by (simp_all add: c3_def c2_def)
  note h3 = hash_rec_inv [OF h2(1,2) lv, folded st3_def]
  have o3: "owned st3 a = owned st a" for a by (simp add: owned_def h3 h2)
  have rl: "r \<notin> set (lru s1)" using fr1 by (auto simp: fresh_def used_def st1_def)
  have l3: "ends (hc st3) (owned st3) p" if p: "ends s1 ?A p" for p
    by (rule ends_transfer [OF p]) (use h3(2,4) h2(3) o3 in \<open>auto simp: next_of_def\<close>)
  have rinv3: "rinv st3"
  proof -
    have rh: "rhash st3 = (if known then rhash st else (rhash st)[?j := Some r])" using h1(3) by (simp add: h3 st2_def)
    have "ends (hc st3) (owned st3) (Some r)" if "\<not> known"
    proof (rule ends_Some)
      show "owned st3 r" unfolding o3 using r by (simp add: owned_def fresh_def)
      have "next_of (hc st3) r = rhash st ! ?j" using that rl h3(2,4) h2(3) by (simp add: next_of_def c3_def c2_def)
      then show "ends (hc st3) (owned st3) (next_of (hc st3) r)" using l3 l1 j by simp
    qed
    then have "\<forall>p \<in> set (rhash st3). ends (hc st3) (owned st3) p"
      using l1 l3 set_update_subset_insert [of "rhash st" ?j "Some r"] by (auto simp: rh split: if_splits)
    moreover have "\<forall>a. in_table (hc st3) a \<longrightarrow> fixed_rec (recs (hc st3) a)" using tab1 h3(2,3) h2(3) lv(2) by simp
    ultimately show ?thesis using h3(1) ne by (auto simp: rinv_def rh)
  qed
  define ex where "ex = (case lk of None \<Rightarrow> False | Some l \<Rightarrow> has CF_HOSTS (recs s1 l))"
  define dup where "dup = (case lk of None \<Rightarrow> False | Some l \<Rightarrow> take (length addr) (c_addr (recs s1 l)) = addr)"
  have run: "add_hosts_entry e r addr index st = (if ex \<and> dup then Some st1
      else if ex then Some st3 else add_hosts_cname (he_fuel e) (he_mem e) (he_cnames e) r st3)"
    unfolding add_hosts_entry_def Let_def f(1) using ne walk c1 h1(3,4)
    by (simp add: st1_def [symmetric] ex_def [symmetric] dup_def [symmetric] st3_def c3_def c2_def st2_def)
  obtain rank where rk: "aliases_ok rank (he_cnames e)" "\<forall>a \<in> set (he_cnames e). Suc (rank a) < he_fuel e" "0 < he_fuel e"
    using e by (auto simp: env_ok_def)
  have "in_table (hc st3) r" using h3(3) by simp
  then obtain st4 where st4: "add_hosts_cname (he_fuel e) (he_mem e) (he_cnames e) r st3 = Some st4" "hinv st4" "grows st3 st4"
    using hosts_aliases.add_inv [OF h3(1) _ rk(1), of r "he_fuel e"] rk(2,3) by blast
  have "rinv st4" "brk st \<le> brk st4" using rinv_grows [OF rinv3 st4(2,3)] st4(3) h3(6) h2(4) by (simp_all add: grows_def)
  then show ?thesis using st4(1) rinv1 rinv3 h1(4) h3(6) h2(4) by (simp add: run)
qed

text \<open>The number of names grows only with the number of allocations; memory has room for \<open>M\<close> records.\<close>

definition acc_inv :: "nat \<Rightarrow> nat \<Rightarrow> nat \<times> hst \<Rightarrow> bool" where
  "acc_inv M K acc \<longleftrightarrow> rinv (snd acc) \<and> fst acc \<le> K + min (brk (snd acc)) M"

definition mem_bound :: "nat \<Rightarrow> hosts_env \<Rightarrow> bool" where
  "mem_bound M e \<longleftrightarrow> (\<forall>k. he_mem e k \<longrightarrow> k < M)"

lemma set_rec_inv:
  assumes "hinv st" and "fresh st r"
  shows "hinv (set_rec r c st)" "fresh (set_rec r c st) r" "recs (hc (set_rec r c st)) r = c"
    "next_of (hc (set_rec r c st)) a = (if a = r then c_next c else next_of (hc st) a)"
    "owned (set_rec r c st) a = owned st a" "rhash (set_rec r c st) = rhash st" "brk (set_rec r c st) = brk st"
proof -
  have u: "used (hc (set_rec r c st)) b = used (hc st) b" for b by (simp add: used_def in_table_def set_rec_def)
  have ci: "cache_inv (hc (set_rec r c st))"
    using cache_inv_recs [of "hc st" r c] assms by (simp add: set_rec_def hinv_def fresh_def)
  then show "hinv (set_rec r c st)" "fresh (set_rec r c st) r"
    using assms u unfolding hinv_def fresh_def by (simp_all add: set_rec_def)
  show "recs (hc (set_rec r c st)) r = c" "owned (set_rec r c st) a = owned st a" "rhash (set_rec r c st) = rhash st"
    "brk (set_rec r c st) = brk st" by (simp_all add: set_rec_def owned_def)
  have "r \<notin> set (lru (hc st))" using assms(2) by (simp add: fresh_def used_def)
  then show "next_of (hc (set_rec r c st)) a = (if a = r then c_next c else next_of (hc st) a)"
    by (simp add: next_of_def set_rec_def)
qed

lemma alloc_entry_inv:
  assumes e: "env_ok e" "mem_bound M e" and fl: "flags AND CF_FORWARD \<noteq> 0" "flags AND CF_HOSTS \<noteq> 0" and acc: "acc_inv M K acc"
  shows "\<exists>acc'. alloc_entry e name flags addr index acc = Some acc' \<and> acc_inv M K acc'"
proof -
  obtain n st where a: "acc = (n, st)" by (cases acc)
  have inv: "rinv st" "n \<le> K + min (brk st) M" using acc by (simp_all add: acc_inv_def a)
  then have hi: "hinv st" by (simp add: rinv_def)
  obtain r st1 where r: "new_rec (he_mem e) st = (r, st1)" by (cases "new_rec (he_mem e) st")
  note N = new_rec_inv [OF hi r]
  show ?thesis
  proof (cases r)
    case None
    have "rinv st1" by (rule rinv_grows [OF inv(1) N(1,2)])
    then show ?thesis using inv(2) r None N(5) by (auto simp: alloc_entry_def a acc_inv_def)
  next
    case (Some x)
    let ?c = "(recs (hc st1) x)\<lparr>c_name := name, c_flags := flags\<rparr>"
    define st2 where "st2 = set_rec x ?c st1"
    have fr: "fresh st1 x" "x = brk st" using N(3,4) Some by blast+
    note S = set_rec_inv [OF N(1) fr(1), of ?c, folded st2_def]
    have lk: "ends (hc st2) (\<lambda>a. owned st2 a \<and> a \<noteq> x) p" if "ends (hc st) (owned st) p" for p
    proof (rule ends_transfer [OF that])
      fix a assume "owned st a"
      then have "a \<noteq> x" "owned st1 a" using fr(2) owned_grows [OF N(2)] by (auto simp: owned_def)
      then show "ends (hc st2) (\<lambda>a. owned st2 a \<and> a \<noteq> x) (Some a) \<or> (owned st2 a \<and> a \<noteq> x) \<and> next_of (hc st2) a = next_of (hc st) a"
        using S(4,5) N(5) by simp
    qed
    have "rhash st2 = rhash st" "brk st2 = brk st + 1" using S(6,7) N(5) by simp_all
    moreover have "entry_rec (recs (hc st2) x)" using S(3) fl by (simp add: entry_rec_def has_def)
    moreover have "\<not> used (hc st1) x" using fr(1) by (simp add: fresh_def)
    then have "\<forall>a. in_table (hc st2) a \<longrightarrow> fixed_rec (recs (hc st2) a)"
      using inv(1) N(5) by (auto simp: st2_def set_rec_def rinv_def in_table_def used_def)
    ultimately obtain st' where st': "add_hosts_entry e x addr index st2 = Some st'" "rinv st'" "brk st + 1 \<le> brk st'"
      using add_hosts_entry_inv [OF e(1) S(1) _ S(2), of addr index] lk inv(1) by (auto simp: rinv_def)
    have "brk st < M" using r Some e(2) by (auto simp: new_rec_def mem_bound_def split: if_splits)
    then have "n + 1 \<le> K + min (brk st') M" using inv(2) st'(3) by simp
    then show ?thesis using st'(1,2) r Some by (simp add: alloc_entry_def a st2_def [symmetric] acc_inv_def)
  qed
qed

lemma flags_facts:
  "hosts_flags AND CF_FORWARD \<noteq> 0" "hosts_flags AND CF_HOSTS \<noteq> 0" "config_flags AND CF_FORWARD \<noteq> 0" "config_flags AND CF_HOSTS \<noteq> 0"
  by (simp_all add: hosts_flags_def config_flags_def CF_CONFIG_def cf_defs)

lemma acc_inv_new_rec:
  assumes "acc_inv M K (n, st)" and "new_rec mem st = (r, st1)"
  shows "acc_inv M K (n, st1)"
proof -
  have hi: "hinv st" using assms(1) by (simp add: acc_inv_def rinv_def)
  note N = new_rec_inv [OF hi assms(2)]
  show ?thesis using assms(1) rinv_grows [OF _ N(1,2)] N(5) by (auto simp: acc_inv_def)
qed

lemma add_name_inv:
  assumes e: "env_ok e" "mem_bound M e" and acc: "acc_inv M K acc"
  shows "\<exists>acc'. add_name e suffix addr index tok acc = Some acc' \<and> acc_inv M K acc'"
proof -
  obtain n st where a: "acc = (n, st)" by (cases acc)
  obtain m st1 where m: "new_rec (he_mem e) st = (m, st1)" by (cases "new_rec (he_mem e) st")
  have a1: "acc_inv M K (n, st1)" using acc_inv_new_rec [OF acc [unfolded a] m] .
  obtain cn w where cn: "canonicalise (m \<noteq> None) tok = (cn, w)" by (cases "canonicalise (m \<noteq> None) tok")
  note entry = alloc_entry_inv [OF e flags_facts(1,2)]
  show ?thesis
  proof (cases cn)
    case None
    then show ?thesis using acc a1 m cn by (auto simp: add_name_def a Let_def)
  next
    case (Some canon)
    let ?x = "he_expand e \<and> suffix \<noteq> None \<and> 46 \<notin> set tok"
    obtain acc1 where acc1: "alloc_entry e (canon @ 46 # the suffix) hosts_flags addr index (n, st1) = Some acc1" "acc_inv M K acc1"
      using entry [OF a1] by blast
    define acc2 where "acc2 = (if ?x then acc1 else (n, st1))"
    have acc2: "(if ?x then alloc_entry e (canon @ 46 # the suffix) hosts_flags addr index (n, st1) else Some (n, st1)) = Some acc2"
      "acc_inv M K acc2"
      using acc1 a1 by (auto simp: acc2_def)
    obtain acc3 where "alloc_entry e canon hosts_flags addr index acc2 = Some acc3" "acc_inv M K acc3" using entry [OF acc2(2)] by blast
    moreover have "add_name e suffix addr index tok acc = alloc_entry e canon hosts_flags addr index acc2"
      using m cn Some acc2(1) by (cases acc2) (simp add: add_name_def a Let_def)
    ultimately show ?thesis by simp
  qed
qed

lemma line_loop_inv:
  assumes e: "env_ok e" "mem_bound M e" and acc: "acc_inv M K acc"
  shows "\<exists>eof tok' f' acc'. line_loop e suffix addr index tok f acc = Some (eof, tok', f', acc') \<and> acc_inv M K acc'"
  using acc
proof (induction "length f" arbitrary: tok f acc rule: less_induct)
  case less
  obtain r t g where g: "gettok 0 tok f = (r, t, g)" by (cases "gettok 0 tok f")
  show ?case
  proof (cases r)
    case None
    then have "line_loop e suffix addr index tok f acc = Some (True, t, g, acc)" using g by (subst line_loop.simps) simp
    then show ?thesis using less.prems by blast
  next
    case (Some atnl)
    obtain acc1 where acc1: "add_name e suffix addr index (tok_str t) acc = Some acc1" "acc_inv M K acc1"
      using add_name_inv [OF e less.prems] by blast
    have "length g < length f" using gettok_consumes g Some by blast
    from less.hyps [OF this acc1(2), of t] show ?thesis
      using g Some acc1 by (subst line_loop.simps) (cases atnl; auto)
  qed
qed

lemma grow_table_inv:
  assumes acc: "acc_inv M K (n, st)" and b: "K + M < 2 ^ 32"
  shows "acc_inv M K (n, grow_table e n st)"
proof -
  have r: "rinv st" and n: "n < 2 ^ 32" using acc b by (auto simp: acc_inv_def)
  have ci: "cache_inv (hc st)" using r by (simp add: rinv_def hinv_def)
  note R = rehash_inv [OF ci n, of "he_mem e (brk st)"]
  obtain T where T: "rehash (he_mem e (brk st)) n (hc st) = (hc st)\<lparr>table := T\<rparr>" using R(2) by blast
  let ?st = "grow_table e n st"
  have u: "used (hc ?st) a = used (hc st) a" for a using R(3) [of a] T by (simp add: used_def grow_table_def)
  have hi: "hinv ?st" using r R(1) u unfolding rinv_def hinv_def by (auto simp: grow_table_def less_Suc_eq)
  have g: "ends (hc ?st) (owned ?st) p" if "ends (hc st) (owned st) p" for p
    by (rule ends_transfer [OF that]) (auto simp: owned_def grow_table_def T next_of_def)
  moreover have "fixed_rec (recs (hc ?st) a)" if "in_table (hc ?st) a" for a
    using that r R(3) [of a] T by (simp add: grow_table_def rinv_def)
  ultimately have "rinv ?st" using r hi unfolding rinv_def by (simp add: grow_table_def)
  then show ?thesis using acc by (auto simp: acc_inv_def grow_table_def)
qed

lemma hostsfile_loop_inv:
  assumes e: "env_ok e" "mem_bound M e" and b: "K + M < 2 ^ 32" and acc: "acc_inv M K (n, st)"
  shows "\<exists>acc'. hostsfile_loop e index tok f n csz st = Some acc' \<and> acc_inv M K acc'"
  using acc
proof (induction "length f" arbitrary: tok f n csz st rule: less_induct)
  case less
  obtain r t g where g: "gettok 0 tok f = (r, t, g)" by (cases "gettok 0 tok f")
  show ?case
  proof (cases r)
    case None
    then have "hostsfile_loop e index tok f n csz st = Some (n, st)" using g by (subst hostsfile_loop.simps) simp
    then show ?thesis using less.prems by blast
  next
    case (Some atnl)
    have l: "length g < length f" using gettok_consumes g Some by blast
    show ?thesis
    proof (cases "he_pton e (tok_str t)")
      case None
      let ?x = "skip_line (Some atnl) t g"
      have "length (snd ?x) < length f" using l skip_line_length [of "Some atnl" t g] by simp
      moreover have "hostsfile_loop e index tok f n csz st = hostsfile_loop e index (fst ?x) (snd ?x) n csz st"
        using g Some None by (subst hostsfile_loop.simps) simp
      ultimately show ?thesis using less by simp
    next
      case addr: (Some a)
      define st1 where "st1 = (if n > csz + 1000 then grow_table e n st else st)"
      define csz1 where "csz1 = (if n > csz + 1000 then n else csz)"
      have a1: "acc_inv M K (n, st1)" using less.prems grow_table_inv [OF less.prems b] by (simp add: st1_def)
      have run: "hostsfile_loop e index tok f n csz st =
          (if atnl then hostsfile_loop e index t g n csz1 st1
           else (case line_loop e (get_domain e a) (be32 a) index t g (n, st1) of None \<Rightarrow> None
                 | Some (_, tok'', f'', n', st2) \<Rightarrow> hostsfile_loop e index tok'' f'' n' csz1 st2))"
        using g Some addr by (subst hostsfile_loop.simps, cases "n > csz + 1000") (simp_all add: st1_def csz1_def Let_def cong: option.case_cong)
      show ?thesis
      proof (cases atnl)
        case True
        then show ?thesis using less.hyps [OF l a1] by (simp add: run)
      next
        case False
        obtain eof t2 f2 n2 st2 where ll: "line_loop e (get_domain e a) (be32 a) index t g (n, st1) = Some (eof, t2, f2, n2, st2)" "acc_inv M K (n2, st2)"
          using line_loop_inv [OF e a1, of "get_domain e a" "be32 a" index t g] by auto
        have "length f2 < length f" using line_loop_length [OF ll(1)] l by simp
        from less.hyps [OF this ll(2)] show ?thesis using False ll(1) by (simp add: run)
      qed
    qed
  qed
qed

lemma read_hostsfile_inv:
  assumes e: "env_ok e" "mem_bound M e" and b: "K + M < 2 ^ 32" and acc: "acc_inv M K (n, st)"
  shows "\<exists>acc'. read_hostsfile e contents index n st = Some acc' \<and> acc_inv M K acc'"
proof (cases contents)
  case None
  then show ?thesis using acc by (auto simp: read_hostsfile_def acc_inv_def)
next
  case (Some f)
  obtain n1 st1 where r: "hostsfile_loop e index [] (snd (eatspace False f)) n n st = Some (n1, st1)" "acc_inv M K (n1, st1)"
    using hostsfile_loop_inv [OF e b acc, of index "[]" "snd (eatspace False f)" n] by auto
  show ?thesis using Some r grow_table_inv [OF r(2) b, of e] by (auto simp: read_hostsfile_def)
qed

subsection \<open>Reloading keeps the invariant\<close>

definition dhcp_only :: "crec \<Rightarrow> bool" where
  "dhcp_only c \<longleftrightarrow> has CF_DHCP c \<and> \<not> has CF_HOSTS c"

lemma fixed_split: "fixed_rec c \<longleftrightarrow> has CF_HOSTS c \<or> has CF_DHCP c"
  by (auto simp: fixed_rec_def has_def bit.conj_disj_distrib or_eq_0_iff)

lemma reload_chain_inv:
  assumes "cinv (T[i := pre @ ch]) s" and "i < length T" and "reload_chain ch s = (ch', s')"
  shows "cinv (T[i := pre @ ch']) s' \<and> table s' = table s \<and> new_ch s' = new_ch s \<and> lru s' = lru s \<and> set ch' \<subseteq> set ch \<and>
     (\<forall>b \<in> set ch'. dhcp_only (recs s' b)) \<and> (\<forall>b. b \<notin> set ch \<longrightarrow> recs s' b = recs s b)"
  using assms(1,3)
proof (induction ch arbitrary: pre s ch')
  case Nil
  then show ?case by auto
next
  case (Cons a as)
  let ?c = "recs s a"
  note dist = chain_mid_distinct [OF Cons.prems(1) assms(2)]
  consider (hosts) "has CF_HOSTS ?c" | (learnt) "\<not> has CF_HOSTS ?c" "\<not> has CF_DHCP ?c" | (dhcp) "\<not> has CF_HOSTS ?c" "has CF_DHCP ?c" by blast
  then show ?case
  proof cases
    case hosts
    have "cinv (T[i := pre @ as]) s" using step_drop [OF Cons.prems(1) assms(2)] hosts by (simp add: fixed_split)
    from Cons.IH [OF this, of ch'] Cons.prems(2) hosts show ?thesis by auto
  next
    case learnt
    define s1 where "s1 = s\<lparr>big_free := (if has CF_BIGNAME ?c then big_free s + 1 else big_free s), recs := (recs s)(a := ?c\<lparr>c_flags := 0\<rparr>)\<rparr>"
    have nf: "\<not> fixed_rec ?c" using learnt by (simp add: fixed_split)
    have z: "\<not> live_rec (?c\<lparr>c_flags := 0\<rparr>)" "\<not> fixed_rec (?c\<lparr>c_flags := 0\<rparr>)" by (simp_all add: has_def fixed_rec_def)
    have i: "i < length (T[i := pre @ a # as])" "a \<in> set (T[i := pre @ a # as] ! i)" using assms(2) by simp_all
    have "cinv (T[i := pre @ a # as, i := remove1 a (T[i := pre @ a # as] ! i)]) s1"
      by (rule cinv_release [OF Cons.prems(1) i nf z]) (use cinvD(3) [OF Cons.prems(1)] in \<open>simp_all add: s1_def\<close>)
    then have c1: "cinv (T[i := pre @ as]) s1" using assms(2) remove1_mid [OF dist(1)] by simp
    have "reload_chain as s1 = (ch', s')" using Cons.prems(2) learnt by (simp add: s1_def Let_def)
    from Cons.IH [OF c1 this] show ?thesis using dist(2) by (auto simp: s1_def)
  next
    case dhcp
    obtain ch1 where r: "reload_chain as s = (ch1, s')" "ch' = a # ch1" using Cons.prems(2) dhcp by (auto simp: Let_def split: prod.splits)
    have "cinv (T[i := (pre @ [a]) @ as]) s" using Cons.prems(1) by simp
    from Cons.IH [OF this r(1)] show ?thesis using dhcp dist(2) r(2) by (auto simp: dhcp_only_def)
  qed
qed

lemma reload_buckets_inv:
  assumes "cache_inv s" and "k \<le> length (table s)"
  shows "cache_inv (fold reload_bucket [0..<k] s) \<and> length (table (fold reload_bucket [0..<k] s)) = length (table s) \<and>
     lru (fold reload_bucket [0..<k] s) = lru s \<and> new_ch (fold reload_bucket [0..<k] s) = new_ch s \<and>
     (\<forall>j < length (table s). set (table (fold reload_bucket [0..<k] s) ! j) \<subseteq> set (table s ! j)) \<and>
     (\<forall>j < k. \<forall>b \<in> set (table (fold reload_bucket [0..<k] s) ! j). dhcp_only (recs (fold reload_bucket [0..<k] s) b))"
  using assms(2)
proof (induction k)
  case 0
  then show ?case using assms(1) by simp
next
  case (Suc k)
  define s1 where "s1 = fold reload_bucket [0..<k] s"
  have IH: "cache_inv s1" "length (table s1) = length (table s)" "lru s1 = lru s" "new_ch s1 = new_ch s"
    "\<forall>j < length (table s). set (table s1 ! j) \<subseteq> set (table s ! j)" "\<forall>j < k. \<forall>b \<in> set (table s1 ! j). dhcp_only (recs s1 b)"
    using Suc.IH Suc.prems by (simp_all add: s1_def)
  have k: "k < length (table s1)" using Suc.prems IH(2) by simp
  obtain ch s2 where r: "reload_chain (table s1 ! k) s1 = (ch, s2)" by (cases "reload_chain (table s1 ! k) s1")
  have c0: "cinv ((table s1)[k := [] @ table s1 ! k]) s1" using IH(1) by (simp add: cache_inv_def)
  have p: "cinv ((table s1)[k := ch]) s2" "table s2 = table s1" "new_ch s2 = new_ch s1" "lru s2 = lru s1" "set ch \<subseteq> set (table s1 ! k)"
    "\<forall>b \<in> set ch. dhcp_only (recs s2 b)" "\<forall>b. b \<notin> set (table s1 ! k) \<longrightarrow> recs s2 b = recs s1 b"
    using reload_chain_inv [OF c0 k r] by simp_all
  define s3 where "s3 = s2\<lparr>table := (table s2)[k := ch]\<rparr>"
  have f: "fold reload_bucket [0..<Suc k] s = s3" using r by (simp add: s1_def [symmetric] reload_bucket_def s3_def)
  have t3: "table s3 = (table s1)[k := ch]" "recs s3 = recs s2" by (simp_all add: s3_def p(2))
  have "cache_inv s3" using p(1) by (simp add: cache_inv_def s3_def p(2))
  moreover have "dhcp_only (recs s3 b)" if j: "j < Suc k" and b: "b \<in> set (table s3 ! j)" for j b
  proof (cases "j = k")
    case True
    then show ?thesis using b k p(6) by (simp add: t3)
  next
    case False
    then have b1: "b \<in> set (table s1 ! j)" using b by (simp add: t3)
    note d = cinvD [OF IH(1) [unfolded cache_inv_def]]
    have "b \<notin> set (table s1 ! k)"
      using chain_okD(1) [OF d(6) b1] chain_okD(1) [OF d(6) [OF k], of b] False j k by auto
    then have "recs s3 b = recs s1 b" using p(7) by (simp add: t3)
    moreover have "j < k" using j False by simp
    ultimately show ?thesis using IH(6) b1 by auto
  qed
  moreover have "set (table s3 ! j) \<subseteq> set (table s ! j)" if "j < length (table s)" for j
    using IH(2,5) p(5) that k by (cases "j = k") (auto simp: t3)
  ultimately show ?case unfolding f using IH(2-4) p(3,4) by (simp add: t3) (simp add: s3_def)
qed

text \<open>An alias that is its own target: as long as there is memory the recursion goes on.\<close>

lemma recs_hash_rec: "recs (hc (hash_rec r c st)) = (recs (hc st))(r := c)"
  by (simp add: hash_rec_def cache_hash_def Let_def)

lemma cname_cycle_never_ends:
  assumes "strcaseeq (cn_alias a) (cn_target a)" and "strcaseeq (c_name (recs (hc st) t)) (cn_target a)"
  shows "add_hosts_cname n (\<lambda>_. True) [a] t st = None"
  using assms(2)
proof (induction n arbitrary: t st)
  case (Suc n)
  let ?st = "st\<lparr>brk := brk st + 1\<rparr>"
  let ?c = "(recs (hc st) (brk st))\<lparr>c_flags := CF_FORWARD OR CF_IMMORTAL OR CF_NAMEP OR CF_HOSTS OR CF_CNAME, c_name := cn_alias a,
      cn_cache := Some t, cn_uid := c_uid (recs (hc st) t)\<rparr>"
  have "add_hosts_cname n (\<lambda>_. True) [a] (brk st) (hash_rec (brk st) ?c ?st) = None"
    by (rule Suc.IH) (simp add: recs_hash_rec assms(1))
  then show ?case using Suc.prems by (simp add: new_rec_def cache_get_name_def)
qed simp

end
