(* ===== verification/Dnsmasq_Reload.thy ===== *)
theory Dnsmasq_Reload
  imports Dnsmasq_Hosts
begin

section \<open>dnsmasq: every operation on the names keeps the cache intact (src/dnsmasq/.../src/cache.c)\<close>

text \<open>
  The operations of \<open>Dnsmasq_Hosts\<close> put together: reloading, leases, and the sequences of operations
  that the rest of the program performs on the cache.
\<close>

subsection \<open>Reloading\<close>

lemma in_table_buckets:
  "in_table s' b \<Longrightarrow> length (table s') = length (table s) \<Longrightarrow> (\<And>j. j < length (table s) \<Longrightarrow> set (table s' ! j) \<subseteq> set (table s ! j)) \<Longrightarrow>
   in_table s b"
  by (elim in_table_elim) (metis in_table_nth subsetD)

lemma reload_table_inv:
  assumes "cache_inv s"
  shows "cache_inv (reload_table s)" "lru (reload_table s) = lru s" "new_ch (reload_table s) = new_ch s"
    "\<And>b. in_table (reload_table s) b \<Longrightarrow> in_table s b \<and> dhcp_only (recs (reload_table s) b)"
proof -
  define s0 where "s0 = s\<lparr>cache_inserted := 0, cache_live_freed := 0\<rparr>"
  have i0: "cache_inv s0" and f0: "table s0 = table s" "lru s0 = lru s" "new_ch s0 = new_ch s"
    using assms by (simp_all add: s0_def cache_inv_def)
  have e: "reload_table s = fold reload_bucket [0..<length (table s0)] s0" by (simp add: reload_table_def s0_def)
  note R = reload_buckets_inv [OF i0 order_refl, folded e]
  show "cache_inv (reload_table s)" "lru (reload_table s) = lru s" "new_ch (reload_table s) = new_ch s" using R f0 by simp_all
  fix b assume b: "in_table (reload_table s) b"
  have "in_table s0 b" by (rule in_table_buckets [OF b]) (use R in auto)
  moreover have "dhcp_only (recs (reload_table s) b)" using b R by (auto elim!: in_table_elim)
  ultimately show "in_table s b \<and> dhcp_only (recs (reload_table s) b)" by (simp add: in_table_def f0)
qed

lemma reload_start_rinv:
  assumes "hinv st" and "0 < revhashsz"
  shows "rinv (st\<lparr>hc := reload_table (hc st), rhash := replicate revhashsz None\<rparr>)"
proof -
  have ci: "cache_inv (hc st)" using assms(1) by (simp add: hinv_def)
  note R = reload_table_inv [OF ci]
  have "hinv (st\<lparr>hc := reload_table (hc st)\<rparr>)"
    by (rule hinv_sub [OF assms(1) R(1)]) (use R(2-4) in \<open>auto simp: used_def\<close>)
  then have "hinv (st\<lparr>hc := reload_table (hc st), rhash := replicate revhashsz None\<rparr>)" by (simp add: hinv_def)
  then show ?thesis using assms(2) R(4) by (auto simp: rinv_def dhcp_only_def fixed_split)
qed

lemma foldM_inv:
  assumes "\<And>x a. I a \<Longrightarrow> \<exists>a'. f x a = Some a' \<and> I a'" and "I a"
  shows "\<exists>a'. foldM f xs a = Some a' \<and> I a'"
  using assms(2)
proof (induction xs arbitrary: a)
  case (Cons x xs)
  obtain a1 where "f x a = Some a1" "I a1" using assms(1) [OF Cons.prems] by blast
  then show ?case using Cons.IH [of a1] by simp
qed simp

lemma host_record_name_inv:
  assumes "env_ok e" "mem_bound M e" and "rinv st"
  shows "\<exists>st'. host_record_name e addr name st = Some st' \<and> rinv st'"
proof -
  have "acc_inv M 0 (0, st)" using assms(3) by (simp add: acc_inv_def)
  from alloc_entry_inv [OF assms(1,2) flags_facts(3,4) this, of name "be32 addr" 0]
  show ?thesis using assms(3) by (auto simp: host_record_name_def acc_inv_def)
qed

lemma host_records_inv:
  assumes e: "env_ok e" "mem_bound M e" and "rinv st"
  shows "\<exists>st'. foldM (host_record_entries e) hrs st = Some st' \<and> rinv st'"
proof (rule foldM_inv)
  fix hr st assume "rinv st"
  then show "\<exists>st'. host_record_entries e hr st = Some st' \<and> rinv st'"
    unfolding host_record_entries_def by (rule foldM_inv [rotated]) (rule host_record_name_inv [OF e])
qed (rule assms(3))

text \<open>The names counted by \<open>cache_reload\<close> fit into the cache's size and the memory there is.\<close>

lemma cache_reload_rinv:
  assumes e: "env_ok e" "mem_bound M e" and b: "cachesize + M < 2 ^ 32" and inv: "hinv st" and "0 < revhashsz"
  shows "\<exists>st'. cache_reload e cachesize revhashsz hrs no_hosts hosts addn st = Some st' \<and> rinv st'"
proof -
  let ?I = "acc_inv M cachesize"
  obtain st1 where st1: "foldM (host_record_entries e) hrs (st\<lparr>hc := reload_table (hc st), rhash := replicate revhashsz None\<rparr>) = Some st1" "rinv st1"
    using host_records_inv [OF e reload_start_rinv [OF inv assms(5)]] by blast
  have i1: "?I (cachesize, st1)" using st1(2) by (simp add: acc_inv_def)
  obtain acc where acc: "(if no_hosts then Some (cachesize, st1) else read_hostsfile e hosts 0 cachesize st1) = Some acc" "?I acc"
    using read_hostsfile_inv [OF e b i1, of hosts 0] i1 by (cases no_hosts) auto
  obtain acc' where acc': "foldM (read_addn e) addn acc = Some acc'" "?I acc'"
  proof -
    have "\<exists>a'. read_addn e ah a = Some a' \<and> ?I a'" if "?I a" for ah a
    proof (cases a)
      case (Pair n st2)
      then show ?thesis using that read_hostsfile_inv [OF e b, of n st2 "ah_contents ah" "ah_index ah"] by (auto simp: read_addn_def)
    qed
    from foldM_inv [of ?I "read_addn e", OF this acc(2), of addn] show thesis using that by blast
  qed
  show ?thesis
  proof (cases "no_hosts \<and> addn = []")
    case True
    then show ?thesis using st1 by (simp add: cache_reload_def)
  next
    case False
    then have "cache_reload e cachesize revhashsz hrs no_hosts hosts addn st = Some (snd acc')"
      unfolding cache_reload_def st1(1) using acc(1) acc'(1) by auto
    then show ?thesis using acc'(2) by (simp add: acc_inv_def)
  qed
qed

subsection \<open>Leases\<close>

lemma unhash_chain_split:
  "unhash_chain rs as spare = (filter (\<lambda>a. \<not> has CF_DHCP (rs a)) as, rev (filter (\<lambda>a. has CF_DHCP (rs a)) as) @ spare)"
  by (induction as arbitrary: spare) auto

lemma chain_ok_filter:
  assumes "chain_ok s n i ch"
  shows "chain_ok s n i (filter P ch)"
proof (rule chain_ok_cong)
  show "ordered s (filter P ch)" using chain_ok_ordered [OF assms] sorted_map_subseq by (auto simp: ordered_def)
qed (use chain_okD [OF assms] in auto)

lemma cinv_drop_dhcp:
  assumes inv: "cinv T s" and i: "i < length T"
  shows "cinv (T[i := filter (\<lambda>a. \<not> has CF_DHCP (recs s a)) (T ! i)]) s"
proof -
  let ?P = "\<lambda>a. \<not> has CF_DHCP (recs s a)"
  note d = cinvD [OF inv]
  have ch: "chain_ok s (length T) j (T[i := filter ?P (T ! i)] ! j)" if "j < length T" for j
    using d(6) [OF that] chain_ok_filter [OF d(6) [OF i]] i by (cases "i = j") auto
  have "b \<in> set (T[i := filter ?P (T ! i)] ! bucket_of (mix_tab s) (length T) (c_name (recs s b)))"
    if b: "b \<in> set (lru s)" "live_rec (recs s b)" for b
    using d(8) [OF b] d(7) [OF b(1)] i by (cases "i = bucket_of (mix_tab s) (length T) (c_name (recs s b))") (auto simp: fixed_split)
  then show ?thesis using d ch unfolding cinv_def by simp
qed

lemma unhash_bucket_inv:
  assumes inv: "hinv st" and i: "i < length (table (hc st))"
  shows "hinv (unhash_bucket i st)" "recs (hc (unhash_bucket i st)) = recs (hc st)" "lru (hc (unhash_bucket i st)) = lru (hc st)"
    "new_ch (hc (unhash_bucket i st)) = new_ch (hc st)" "brk (unhash_bucket i st) = brk st"
    "table (hc (unhash_bucket i st)) = (table (hc st))[i := filter (\<lambda>a. \<not> has CF_DHCP (recs (hc st) a)) (table (hc st) ! i)]"
proof -
  let ?s = "hc st" and ?ch = "table (hc st) ! i" and ?st = "unhash_bucket i st"
  let ?P = "\<lambda>a. has CF_DHCP (recs (hc st) a)"
  have e: "?st = st\<lparr>hc := ?s\<lparr>table := (table ?s)[i := filter (\<lambda>a. \<not> ?P a) ?ch]\<rparr>, dhcp_spare := rev (filter ?P ?ch) @ dhcp_spare st\<rparr>"
    by (simp add: unhash_bucket_def unhash_chain_split)
  show "recs (hc ?st) = recs ?s" "lru (hc ?st) = lru ?s" "new_ch (hc ?st) = new_ch ?s" "brk ?st = brk st"
    "table (hc ?st) = (table ?s)[i := filter (\<lambda>a. \<not> ?P a) ?ch]" by (simp_all add: e)
  have ci: "cinv (table ?s) ?s" using inv by (simp add: hinv_def cache_inv_def)
  note d = cinvD [OF ci]
  have c1: "cache_inv (hc ?st)" using cinv_drop_dhcp [OF ci i] by (simp add: e cache_inv_def)
  have tb: "in_table (hc ?st) b \<Longrightarrow> in_table ?s b \<and> (b \<in> set ?ch \<longrightarrow> \<not> ?P b)" for b
  proof -
    assume "in_table (hc ?st) b"
    then obtain j where j: "j < length (table ?s)" "b \<in> set ((table ?s)[i := filter (\<lambda>a. \<not> ?P a) ?ch] ! j)"
      by (auto simp: e elim: in_table_elim)
    show ?thesis
    proof (cases "j = i")
      case True
      then show ?thesis using j i by (auto intro: in_table_nth)
    next
      case False
      then have b: "b \<in> set (table ?s ! j)" using j by simp
      then have "b \<notin> set ?ch" using chain_okD(1) [OF d(6) [OF j(1)]] chain_okD(1) [OF d(6) [OF i]] False by blast
      then show ?thesis using b j(1) by (auto intro: in_table_nth)
    qed
  qed
  have new: "\<not> used (hc ?st) b \<and> used ?s b" if b: "b \<in> set ?ch" "?P b" for b
  proof -
    have t: "in_table ?s b" using b i by (auto intro: in_table_nth)
    have "fixed_rec (recs ?s b)" using b by (simp add: fixed_split)
    then have "b \<notin> set (lru ?s)" "b \<notin> set (new_ch ?s)" using d(7,9) by blast+
    then show ?thesis using t tb [of b] b by (auto simp: used_def e)
  qed
  have us: "used (hc ?st) b \<Longrightarrow> used ?s b" for b using tb [of b] by (auto simp: used_def e)
  have dc: "distinct ?ch" using d(6) [OF i] by (simp add: chain_ok_def)
  have ds: "distinct (rev (filter ?P ?ch) @ dhcp_spare st)"
    using inv dc new by (auto simp: hinv_def)
  have "\<forall>a \<in> set (dhcp_spare ?st). a < brk ?st \<and> \<not> used (hc ?st) a"
    using inv new us unfolding hinv_def by (auto simp: e)
  moreover have "\<forall>a. used (hc ?st) a \<longrightarrow> a < brk ?st" using inv us unfolding hinv_def by (auto simp: e)
  ultimately show "hinv ?st" using c1 ds unfolding hinv_def by (simp add: e)
qed

lemma unhash_buckets_inv:
  assumes inv: "hinv st" and k: "k \<le> length (table (hc st))"
  shows "hinv (fold unhash_bucket [0..<k] st) \<and> recs (hc (fold unhash_bucket [0..<k] st)) = recs (hc st) \<and>
     lru (hc (fold unhash_bucket [0..<k] st)) = lru (hc st) \<and> new_ch (hc (fold unhash_bucket [0..<k] st)) = new_ch (hc st) \<and>
     length (table (hc (fold unhash_bucket [0..<k] st))) = length (table (hc st)) \<and>
     (\<forall>j < length (table (hc st)). table (hc (fold unhash_bucket [0..<k] st)) ! j =
        (if j < k then filter (\<lambda>a. \<not> has CF_DHCP (recs (hc st) a)) (table (hc st) ! j) else table (hc st) ! j))"
  using k
proof (induction k)
  case (Suc k)
  define st1 where "st1 = fold unhash_bucket [0..<k] st"
  have IH: "hinv st1" "recs (hc st1) = recs (hc st)" "lru (hc st1) = lru (hc st)" "new_ch (hc st1) = new_ch (hc st)"
    "length (table (hc st1)) = length (table (hc st))"
    "\<forall>j < length (table (hc st)). table (hc st1) ! j =
        (if j < k then filter (\<lambda>a. \<not> has CF_DHCP (recs (hc st) a)) (table (hc st) ! j) else table (hc st) ! j)"
    using Suc unfolding st1_def by simp_all
  have i: "k < length (table (hc st1))" using Suc.prems IH(5) by simp
  note U = unhash_bucket_inv [OF IH(1) i]
  have "fold unhash_bucket [0..<Suc k] st = unhash_bucket k st1" by (simp add: st1_def)
  then show ?case using U IH i by (simp add: nth_list_update)
qed (use inv in simp)

text \<open>The records of DHCP, and only they, leave the table; they are kept for reuse.\<close>

lemma cache_unhash_dhcp_inv:
  assumes "hinv st"
  shows "hinv (cache_unhash_dhcp st)" "recs (hc (cache_unhash_dhcp st)) = recs (hc st)"
    "in_table (hc (cache_unhash_dhcp st)) a \<longleftrightarrow> in_table (hc st) a \<and> \<not> has CF_DHCP (recs (hc st) a)"
proof -
  note U = unhash_buckets_inv [OF assms order_refl, folded cache_unhash_dhcp_def]
  show "hinv (cache_unhash_dhcp st)" "recs (hc (cache_unhash_dhcp st)) = recs (hc st)" using U by simp_all
  let ?P = "\<lambda>a. \<not> has CF_DHCP (recs (hc st) a)"
  have n: "length (table (hc (cache_unhash_dhcp st))) = length (table (hc st))"
    "\<And>j. j < length (table (hc st)) \<Longrightarrow> table (hc (cache_unhash_dhcp st)) ! j = filter ?P (table (hc st) ! j)" using U by simp_all
  have "table (hc (cache_unhash_dhcp st)) = map (filter ?P) (table (hc st))" by (rule nth_equalityI) (simp_all add: n)
  then show "in_table (hc (cache_unhash_dhcp st)) a \<longleftrightarrow> in_table (hc st) a \<and> ?P a" by (auto simp: in_table_def)
qed

context hit_search
begin

lemma follow_cases:
  assumes "\<forall>n \<ge> length L. follow n search r s = L"
  obtains (none) "r = None" "L = []"
  | (hit) a L' r' where "r = Some a" "L = a # L'" "search (Some a) s = Some (r', s)" "\<forall>n \<ge> length L'. follow n search r' s = L'"
proof (cases r)
  case None
  then show thesis using none assms [THEN spec, of "Suc (length L)"] by simp
next
  case (Some a)
  obtain r' where r': "search (Some a) s = Some (r', s)" by (simp add: search_next)
  have f: "L = a # follow n search r' s" if "length L \<le> Suc n" for n
    using assms [THEN spec, of "Suc n"] that Some r' by simp
  then have L: "L = a # tl L" using f [of "length L"] by (metis le_SucI list.sel(3) order_refl)
  have "follow n search r' s = tl L" if "length (tl L) \<le> n" for n
  proof -
    have "length L \<le> Suc n" using that by simp
    from f [OF this] show ?thesis by (metis list.sel(3))
  qed
  then show thesis using hit [OF Some L r'] by blast
qed

end

text \<open>The records of hosts files and DHCP are the first ones of a search.\<close>

lemma hits_fixed_first:
  assumes inv: "cache_inv s" and t: "\<forall>a \<in> set L. in_table s a"
    and nx: "\<forall>k < length L. next_of s (L ! k) = (if k + 1 < length L then Some (L ! (k + 1)) else z)"
  shows "set (takeWhile (\<lambda>a. fixed_rec (recs s a)) L) = {a \<in> set L. fixed_rec (recs s a)}"
proof -
  let ?P = "\<lambda>a. fixed_rec (recs s a)"
  note d = cinvD [OF inv [unfolded cache_inv_def]]
  have nf: "?P a \<longleftrightarrow> a \<notin> set (lru s)" if "a \<in> set L" for a
    using in_table_bucket(4) [OF inv] d(7) t that by blast
  have step: "\<not> ?P (L ! Suc k)" if k: "Suc k < length L" and p: "\<not> ?P (L ! k)" for k
  proof -
    have l: "L ! k \<in> set (lru s)" using nf [of "L ! k"] k p by simp
    then obtain m where m: "m < length (lru s)" "lru s ! m = L ! k" by (auto simp: in_set_conv_nth)
    have "next_of s (L ! k) = Some (L ! Suc k)" using nx k by simp
    then have "succ_in (L ! k) (lru s) = Some (L ! Suc k)" using l by (simp add: next_of_def)
    then have "L ! Suc k \<in> set (lru s)" using succ_in_nth [OF d(3) m(1)] m by (auto split: if_splits)
    then show ?thesis using nf [of "L ! Suc k"] k by simp
  qed
  have up: "\<not> ?P (L ! (k + i))" if "k + i < length L" "\<not> ?P (L ! k)" for k i
    using that by (induction i) (use step in auto)
  let ?n = "length (takeWhile ?P L)"
  have "a \<in> set (takeWhile ?P L)" if a: "a \<in> set L" "?P a" for a
  proof (rule ccontr)
    assume no: "a \<notin> set (takeWhile ?P L)"
    obtain k where k: "k < length L" "L ! k = a" using a by (auto simp: in_set_conv_nth)
    have "?n \<le> k" using no k by (metis leI nth_mem takeWhile_nth)
    moreover have "\<not> ?P (L ! ?n)" using nth_length_takeWhile [of ?P L] k \<open>?n \<le> k\<close> by simp
    ultimately show False using up [of ?n "k - ?n"] k a(2) by simp
  qed
  then show ?thesis by (auto dest: set_takeWhileD)
qed

lemma op_frame_used: "op_frame s s' \<Longrightarrow> used s' b \<Longrightarrow> used s b"
  by (rule used_ins_frame [OF ins_frame_op])

definition given_away :: "bytes \<Rightarrow> crec \<Rightarrow> bool" where
  "given_away addr c \<longleftrightarrow> has CF_HOSTS c \<and> \<not> has CF_CNAME c \<and> take (length addr) (c_addr c) = addr"

definition taken_by_hosts :: "bytes \<Rightarrow> crec \<Rightarrow> bool" where
  "taken_by_hosts addr c \<longleftrightarrow> has CF_HOSTS c \<and> \<not> has CF_CNAME c \<and> take (length addr) (c_addr c) \<noteq> addr"

text \<open>The scan sees the records of hosts files and DHCP that have the name, and frees the learnt ones
  when there are any.\<close>

lemma dhcp_scan_hits:
  assumes "cache_find_by_name p name 0 (CF_IPV4 OR CF_CNAME) s = Some (r, s1)" and "cache_inv s1" and "length L < n"
    and "\<forall>n \<ge> length L. follow n (\<lambda>c. cache_find_by_name c name 0 (CF_IPV4 OR CF_CNAME)) r s1 = L"
  shows "\<exists>s2. dhcp_scan n name addr p ih fl s =
      Some (ih \<or> (\<exists>a \<in> set (takeWhile (\<lambda>a. fixed_rec (recs s1 a)) L). given_away addr (recs s1 a)),
            fl \<or> (\<exists>a \<in> set (takeWhile (\<lambda>a. fixed_rec (recs s1 a)) L). taken_by_hosts addr (recs s1 a)), s2) \<and>
      cache_inv s2 \<and> op_frame s1 s2"
  using assms(1,3,4)
proof (induction L arbitrary: n p r s ih fl)
  case Nil
  obtain m where m: "n = Suc m" using Nil.prems(2) by (cases n) auto
  have "r = None" by (rule by_name.follow_cases [OF Nil.prems(3)]) simp_all
  then show ?case using Nil.prems(1) m assms(2) by simp
next
  case (Cons a L)
  obtain m where m: "n = Suc m" "length L < m" using Cons.prems(2) by (cases n) auto
  obtain r' where h: "r = Some a" "cache_find_by_name (Some a) name 0 (CF_IPV4 OR CF_CNAME) s1 = Some (r', s1)"
      "\<forall>n \<ge> length L. follow n (\<lambda>c. cache_find_by_name c name 0 (CF_IPV4 OR CF_CNAME)) r' s1 = L"
    by (rule by_name.follow_cases [OF Cons.prems(3)]) auto
  note IH = Cons.IH [OF h(2) m(2) h(3)]
  let ?c = "recs s1 a"
  show ?case
  proof (cases "fixed_rec ?c")
    case False
    obtain ok s2 where "cache_scan_free name None 0 (c_flags ?c AND (CF_IPV4 OR CF_CNAME OR CF_FORWARD)) s1 = Some (ok, s2)" "cache_inv s2" "op_frame s1 s2"
      using cache_scan_free_inv [OF assms(2)] by blast
    then show ?thesis using False Cons.prems(1) m(1) h(1) by (simp add: fixed_split Let_def)
  next
    case True
    have "dhcp_scan n name addr p ih fl s = dhcp_scan m name addr (Some a) (ih \<or> given_away addr ?c) (fl \<or> taken_by_hosts addr ?c) s1"
      using True Cons.prems(1) m(1) h(1) by (auto simp: fixed_split Let_def given_away_def taken_by_hosts_def)
    then show ?thesis using IH [of "ih \<or> given_away addr ?c" "fl \<or> taken_by_hosts addr ?c"] True by (simp add: disj_assoc)
  qed
qed

lemma hits_bounded:
  assumes "hinv st" and "distinct L" and "\<forall>a \<in> set L. in_table s' a" and "\<And>a. in_table s' a \<Longrightarrow> in_table (hc st) a"
  shows "length L \<le> brk st"
proof -
  have "set L \<subseteq> {..<brk st}" using assms by (auto simp: hinv_def used_def)
  then have "card (set L) \<le> card {..<brk st}" by (intro card_mono) auto
  then show ?thesis using assms(2) by (simp add: distinct_card)
qed

text \<open>A record of a hosts file with an address that has the name.\<close>

definition blocks_lease :: "bytes \<Rightarrow> crec \<Rightarrow> bool" where
  "blocks_lease name c \<longleftrightarrow> name_hit name (CF_IPV4 OR CF_CNAME) c \<and> has CF_HOSTS c \<and> \<not> has CF_CNAME c"

lemma blocks_lease_next: "blocks_lease name (c\<lparr>c_next := x\<rparr>) = blocks_lease name c"
  by (simp add: blocks_lease_def by_name.hit_next has_def)

lemma dhcp_scan_post:
  assumes inv: "hinv st"
  shows "\<exists>ih fl s2. dhcp_scan (brk st + 1) name addr None False False (hc st) = Some (ih, fl, s2) \<and> hinv (st\<lparr>hc := s2\<rparr>) \<and>
     (\<forall>b. in_table s2 b \<longrightarrow> in_table (hc st) b) \<and> (ih \<or> fl \<longrightarrow> (\<exists>a. in_table (hc st) a \<and> blocks_lease name (recs (hc st) a))) \<and>
     (\<forall>a. in_table (hc st) a \<and> blocks_lease name (recs (hc st) a) \<and> \<not> is_expired 0 (recs (hc st) a) \<longrightarrow> ih \<or> fl)"
proof -
  let ?s = "hc st"
  have ci: "cache_inv ?s" using inv by (simp add: hinv_def)
  obtain r s1 L z where f: "cache_find_by_name None name 0 (CF_IPV4 OR CF_CNAME) ?s = Some (r, s1)" "cache_inv s1" "distinct L"
      "\<forall>n \<ge> length L. follow n (\<lambda>c. cache_find_by_name c name 0 (CF_IPV4 OR CF_CNAME)) r s1 = L"
      "set L = {a. in_table s1 a \<and> name_hit name (CF_IPV4 OR CF_CNAME) (recs s1 a)}"
      "\<forall>a. in_table s1 a \<longrightarrow> in_table ?s a \<and> recs s1 a = (recs ?s a)\<lparr>c_next := c_next (recs s1 a)\<rparr>"
      "\<forall>a. in_table ?s a \<and> kept_hit name (CF_IPV4 OR CF_CNAME) 0 (recs ?s a) \<longrightarrow> a \<in> set L"
      "new_ch s1 = new_ch ?s" "set (lru s1) = set (lru ?s)"
      "\<forall>k < length L. next_of s1 (L ! k) = (if k + 1 < length L then Some (L ! (k + 1)) else z)"
    using cache_find_by_name_post [OF ci, of name 0 "CF_IPV4 OR CF_CNAME"] by (elim exE conjE) (rule that, assumption+)
  have t: "\<forall>a \<in> set L. in_table s1 a" using f(5) by blast
  have t1: "in_table ?s a" if "in_table s1 a" for a using f(6) that by blast
  have lt: "length L < brk st + 1" using hits_bounded [OF inv f(3) t t1] by simp
  let ?F = "takeWhile (\<lambda>a. fixed_rec (recs s1 a)) L"
  have F: "set ?F = {a \<in> set L. fixed_rec (recs s1 a)}" by (rule hits_fixed_first [OF f(2) t f(10)])
  obtain ih fl s2 where d: "dhcp_scan (brk st + 1) name addr None False False ?s = Some (ih, fl, s2)" "cache_inv s2" "op_frame s1 s2"
      "ih = (\<exists>a \<in> set ?F. given_away addr (recs s1 a))" "fl = (\<exists>a \<in> set ?F. taken_by_hosts addr (recs s1 a))"
    using dhcp_scan_hits [OF f(1,2) lt f(4), of addr False False] by auto
  have "used ?s b" if "used s1 b" for b using that t1 f(8,9) by (auto simp: used_def)
  then have "hinv (st\<lparr>hc := s2\<rparr>)" using hinv_sub [OF inv d(2)] op_frame_used [OF d(3)] by blast
  moreover have e: "ih \<or> fl \<longleftrightarrow> (\<exists>a \<in> set L. has CF_HOSTS (recs s1 a) \<and> \<not> has CF_CNAME (recs s1 a))"
    unfolding d(4,5) F by (auto simp: given_away_def taken_by_hosts_def fixed_split)
  have b1: "blocks_lease name (recs s1 a) = blocks_lease name (recs ?s a)" if "in_table s1 a" for a
    using f(6) that blocks_lease_next by metis
  have "\<exists>a. in_table ?s a \<and> blocks_lease name (recs ?s a)" if x: "ih \<or> fl"
  proof -
    obtain a where a: "a \<in> set L" "has CF_HOSTS (recs s1 a)" "\<not> has CF_CNAME (recs s1 a)" using x e by blast
    then have "blocks_lease name (recs s1 a)" "in_table s1 a" using f(5) by (auto simp: blocks_lease_def)
    then show ?thesis using b1 t1 by blast
  qed
  moreover have "ih \<or> fl" if a: "in_table ?s a" "blocks_lease name (recs ?s a)" "\<not> is_expired 0 (recs ?s a)" for a
  proof -
    have "a \<in> set L" using f(7) a by (auto simp: kept_hit_def blocks_lease_def)
    moreover from this have "blocks_lease name (recs s1 a)" using b1 t a(2) by blast
    ultimately show ?thesis unfolding e by (auto simp: blocks_lease_def)
  qed
  ultimately show ?thesis using d(1) t1 op_frame_in_table [OF d(3)] by blast
qed

lemma dhcp_reverse_post:
  assumes inv: "hinv st"
  shows "\<exists>flags s'. dhcp_reverse addr (hc st) = Some (flags, s') \<and> hinv (st\<lparr>hc := s'\<rparr>) \<and>
     (\<forall>b. in_table s' b \<longrightarrow> in_table (hc st) b) \<and> (flags = CF_IPV4 \<or> flags = CF_IPV4 OR CF_REVERSE)"
proof -
  let ?s = "hc st"
  have ci: "cache_inv ?s" using inv by (simp add: hinv_def)
  obtain r s1 where f: "cache_find_by_addr None addr 0 CF_IPV4 ?s = Some (r, s1)" "cache_inv s1"
      "\<forall>a. in_table s1 a \<longrightarrow> in_table ?s a" "new_ch s1 = new_ch ?s" "set (lru s1) = set (lru ?s)"
    using cache_find_by_addr_post [OF ci, of addr 0 CF_IPV4] by (elim exE conjE) (rule that, assumption+, blast, assumption+)
  have u: "used ?s b" if "used s1 b" for b using that f(3-5) by (auto simp: used_def)
  have h1: "hinv (st\<lparr>hc := s1\<rparr>)" by (rule hinv_sub [OF inv f(2) u])
  obtain ok s2 where g: "cache_scan_free [] (Some addr) 0 (CF_IPV4 OR CF_REVERSE) s1 = Some (ok, s2)" "cache_inv s2" "op_frame s1 s2"
    using cache_scan_free_inv [OF f(2)] by blast
  have h2: "hinv (st\<lparr>hc := s2\<rparr>)" by (rule hinv_sub [OF inv g(2)]) (use u op_frame_used [OF g(3)] in blast)
  show ?thesis using f(1,3) h1 h2 g(1) op_frame_in_table [OF g(3)] by (cases r) (auto simp: dhcp_reverse_def)
qed

lemma lease_flags:
  assumes "f = CF_IPV4 \<or> f = CF_IPV4 OR CF_REVERSE"
  shows "live_rec (lease_time ttd (c\<lparr>c_flags := f OR CF_NAMEP OR CF_DHCP OR CF_FORWARD\<rparr>))"
    "fixed_rec (lease_time ttd (c\<lparr>c_flags := f OR CF_NAMEP OR CF_DHCP OR CF_FORWARD\<rparr>))"
    "has CF_FORWARD (lease_time ttd (c\<lparr>c_flags := f OR CF_NAMEP OR CF_DHCP OR CF_FORWARD\<rparr>))"
    "has CF_IPV4 (lease_time ttd (c\<lparr>c_flags := f OR CF_NAMEP OR CF_DHCP OR CF_FORWARD\<rparr>))"
    "has CF_DHCP (lease_time ttd (c\<lparr>c_flags := f OR CF_NAMEP OR CF_DHCP OR CF_FORWARD\<rparr>))"
    "\<not> has CF_CNAME (lease_time ttd (c\<lparr>c_flags := f OR CF_NAMEP OR CF_DHCP OR CF_FORWARD\<rparr>))"
    "ttd = 0 \<or> now < ttd \<Longrightarrow> \<not> is_expired now (lease_time ttd (c\<lparr>c_flags := f OR CF_NAMEP OR CF_DHCP OR CF_FORWARD\<rparr>))"
  using assms by (auto simp: lease_time_def has_def fixed_rec_def is_expired_def cf_defs)

lemma has_lease [simp]:
  "has m (c\<lparr>c_name := n\<rparr>) = has m c" "fixed_rec (c\<lparr>c_name := n\<rparr>) = fixed_rec c"
  "is_expired now (c\<lparr>c_name := n\<rparr>) = is_expired now c" "is_expired now (c\<lparr>c_uid := u\<rparr>) = is_expired now c"
  "is_expired now (c\<lparr>c_addr := a\<rparr>) = is_expired now c" "is_expired now (c\<lparr>c_next := x\<rparr>) = is_expired now c"
  by (simp_all add: has_def fixed_rec_def is_expired_def)

lemma hinv_uid [simp]: "hinv (st\<lparr>hc := (hc st)\<lparr>uid := u\<rparr>\<rparr>) = hinv st"
proof -
  have "cache_inv ((hc st)\<lparr>uid := u\<rparr>) = cache_inv (hc st)" by (simp add: cache_inv_def cinv_def chain_ok_def)
  moreover have "used ((hc st)\<lparr>uid := u\<rparr>) a = used (hc st) a" for a by (simp add: used_def in_table_def)
  ultimately show ?thesis by (simp add: hinv_def)
qed

text \<open>The record of a lease: its name and address, and flags of DHCP.\<close>

definition lease_rec :: "bytes \<Rightarrow> bytes \<Rightarrow> int \<Rightarrow> crec \<Rightarrow> bool" where
  "lease_rec name addr ttd c \<longleftrightarrow> c_name c = name \<and> c_addr c = addr \<and> has CF_FORWARD c \<and> has CF_IPV4 c \<and> has CF_DHCP c \<and>
     \<not> has CF_CNAME c \<and> (\<forall>now. ttd = 0 \<or> now < ttd \<longrightarrow> \<not> is_expired now c)"

lemma lease_rec_entered:
  assumes e: "env_ok e" and inv: "hinv st" and sp: "spare_rec (he_mem e) st = (Some r, st1)" and f: "f = CF_IPV4 \<or> f = CF_IPV4 OR CF_REVERSE"
    and c: "c = (lease_time ttd ((recs (hc st1) r)\<lparr>c_flags := f OR CF_NAMEP OR CF_DHCP OR CF_FORWARD\<rparr>))\<lparr>c_addr := addr, c_name := name, c_uid := uid (hc st1)\<rparr>"
    and st2: "st2 = hash_rec r c (st1\<lparr>hc := (hc st1)\<lparr>uid := uid (hc st1) + 1\<rparr>\<rparr>)"
  shows "\<exists>st'. add_dhcp_cname (he_fuel e) (he_mem e) (he_cnames e) r ttd st2 = Some st' \<and> hinv st' \<and> in_table (hc st') r \<and> lease_rec name addr ttd (recs (hc st') r)"
proof -
  let ?st1 = "st1\<lparr>hc := (hc st1)\<lparr>uid := uid (hc st1) + 1\<rparr>\<rparr>"
  have S: "hinv st1" "fresh st1 r" using spare_rec_inv [OF inv sp] by auto
  have h1: "hinv ?st1" using S(1) by simp
  have f1: "fresh ?st1 r" using S(2) by (simp add: fresh_def used_def in_table_def)
  have lv: "live_rec c" "fixed_rec c" using lease_flags(1,2) [OF f] unfolding c by simp_all
  have lr: "lease_rec name addr ttd c" using lease_flags(3-7) [OF f] unfolding c lease_rec_def by simp
  note h = hash_rec_inv [OF h1 f1 lv, folded st2]
  have t2: "in_table (hc st2) r" "recs (hc st2) r = c" using h(2,3) by simp_all
  obtain rank where rk: "aliases_ok rank (he_cnames e)" "\<forall>a \<in> set (he_cnames e). Suc (rank a) < he_fuel e" "0 < he_fuel e"
    using e by (auto simp: env_ok_def)
  obtain st' where st': "add_dhcp_cname (he_fuel e) (he_mem e) (he_cnames e) r ttd st2 = Some st'" "hinv st'" "grows st2 st'"
    using dhcp_aliases.add_inv [OF h(1) t2(1) rk(1), of "he_fuel e"] rk(2,3) by blast
  have "owned st2 r" using used_owned [OF h(1)] t2(1) by (simp add: used_def)
  then have "recs (hc st') r = c" "in_table (hc st') r" using st'(3) t2 by (simp_all add: grows_def)
  then show ?thesis using st'(1,2) lr by blast
qed

lemma cache_add_dhcp_entry_post:
  assumes e: "env_ok e" and inv: "hinv st"
  shows "\<exists>st'. cache_add_dhcp_entry e name addr ttd st = Some st' \<and> hinv st' \<and>
     ((\<exists>a. in_table (hc st) a \<and> blocks_lease name (recs (hc st) a) \<and> \<not> is_expired 0 (recs (hc st) a)) \<longrightarrow>
        (\<forall>b. in_table (hc st') b \<longrightarrow> in_table (hc st) b)) \<and>
     ((\<forall>a. in_table (hc st) a \<longrightarrow> \<not> blocks_lease name (recs (hc st) a)) \<and> (dhcp_spare st \<noteq> [] \<or> he_mem e (brk st)) \<longrightarrow>
        (\<exists>r. in_table (hc st') r \<and> lease_rec name addr ttd (recs (hc st') r)))"
proof -
  obtain ih fl s1 where sc: "dhcp_scan (brk st + 1) name addr None False False (hc st) = Some (ih, fl, s1)" "hinv (st\<lparr>hc := s1\<rparr>)"
     "\<forall>b. in_table s1 b \<longrightarrow> in_table (hc st) b" "ih \<or> fl \<longrightarrow> (\<exists>a. in_table (hc st) a \<and> blocks_lease name (recs (hc st) a))"
     "\<forall>a. in_table (hc st) a \<and> blocks_lease name (recs (hc st) a) \<and> \<not> is_expired 0 (recs (hc st) a) \<longrightarrow> ih \<or> fl"
    using dhcp_scan_post [OF inv, of name addr] by blast
  show ?thesis
  proof (cases "ih \<or> fl")
    case True
    then have "cache_add_dhcp_entry e name addr ttd st = Some (st\<lparr>hc := s1\<rparr>)" using sc(1) by (simp add: cache_add_dhcp_entry_def)
    then show ?thesis using True sc(2-4) by auto
  next
    case False
    obtain f s2 where rv: "dhcp_reverse addr s1 = Some (f, s2)" "hinv (st\<lparr>hc := s2\<rparr>)" "f = CF_IPV4 \<or> f = CF_IPV4 OR CF_REVERSE"
      using dhcp_reverse_post [OF sc(2), of addr] by auto
    obtain r st3 where sp: "spare_rec (he_mem e) (st\<lparr>hc := s2\<rparr>) = (r, st3)" by (cases "spare_rec (he_mem e) (st\<lparr>hc := s2\<rparr>)")
    have run: "cache_add_dhcp_entry e name addr ttd st = (case r of None \<Rightarrow> Some st3 | Some r \<Rightarrow>
        add_dhcp_cname (he_fuel e) (he_mem e) (he_cnames e) r ttd (hash_rec r
          ((lease_time ttd ((recs (hc st3) r)\<lparr>c_flags := f OR CF_NAMEP OR CF_DHCP OR CF_FORWARD\<rparr>))\<lparr>c_addr := addr, c_name := name, c_uid := uid (hc st3)\<rparr>)
          (st3\<lparr>hc := (hc st3)\<lparr>uid := uid (hc st3) + 1\<rparr>\<rparr>)))"
      using sc(1) rv(1) sp False by (cases r) (simp_all add: cache_add_dhcp_entry_def Let_def)
    show ?thesis
    proof (cases r)
      case None
      have "hinv st3" using spare_rec_inv [OF rv(2) sp] by blast
      moreover have "dhcp_spare st = []" "\<not> he_mem e (brk st)"
        using sp None by (auto simp: spare_rec_def new_rec_def split: list.splits if_splits)
      ultimately show ?thesis using None False sc(5) by (auto simp: run)
    next
      case (Some x)
      from lease_rec_entered [OF e rv(2) sp [unfolded Some] rv(3) refl refl, of ttd name addr]
      show ?thesis using Some False sc(5) by (auto simp: run)
    qed
  qed
qed

subsection \<open>Sequences of operations\<close>

lemma fold_cache_free_lru: "set (lru (fold cache_free ns s)) = set (lru s) \<union> set ns \<and> new_ch (fold cache_free ns s) = new_ch s"
  by (induction ns arbitrary: s) auto

lemma start_insert_used:
  assumes "used (cache_start_insert s) b"
  shows "used s b"
  using assms fold_cache_free_lru [of "new_ch s" s]
  by (auto simp: used_def in_table_def cache_start_insert_def fold_cache_free_table)

lemma fold_commit_lru: "set (lru (fold commit_rec ns s)) \<subseteq> set (lru s) \<union> set ns"
proof (induction ns arbitrary: s)
  case (Cons a ns)
  have "set (lru (commit_rec a s)) \<subseteq> insert a (set (lru s))"
    by (auto simp: commit_rec_def cache_link_def cache_hash_def Let_def)
  then show ?case using Cons.IH [of "commit_rec a s"] by auto
qed simp

lemma end_insert_used:
  assumes "cache_inv s" and "used (cache_end_insert s) b"
  shows "used s b"
proof (cases "insert_error s")
  case True
  then show ?thesis using assms(2) by (simp add: cache_end_insert_def)
next
  case False
  have "cinv (table s) (s\<lparr>new_ch := new_ch s\<rparr>)" using assms(1) by (simp add: cache_inv_def)
  note F = fold_commit_inv [OF this]
  have e: "cache_end_insert s = (fold commit_rec (new_ch s) s)\<lparr>new_ch := []\<rparr>" using False by (simp add: cache_end_insert_def)
  then have "b \<in> set (lru (fold commit_rec (new_ch s) s)) \<or> in_table (fold commit_rec (new_ch s) s) b"
    using assms(2) by (simp add: used_def in_table_def)
  then show ?thesis using F fold_commit_lru [of "new_ch s" s] by (auto simp: used_def)
qed

text \<open>The calls that the rest of the program makes.\<close>

datatype cache_call =
    Start_insert
  | Insert bool "bytes option" "bytes option" int u32 u16
  | End_insert
  | Find_by_name "nat option" bytes int u16
  | Find_by_addr "nat option" bytes int u16
  | Reload nat "host_record list" bool "bytes option" "addn_hosts list"
  | Unhash_dhcp
  | Add_dhcp_entry bytes bytes int
  | A_record_from_hosts bytes int

fun cache_do :: "hosts_env \<Rightarrow> nat \<Rightarrow> cache_call \<Rightarrow> hst \<Rightarrow> hst option" where
  "cache_do e n Start_insert st = Some (st\<lparr>hc := cache_start_insert (hc st)\<rparr>)"
| "cache_do e n (Insert mem name addr now ttl flags) st =
     map_option (\<lambda>(_, s). st\<lparr>hc := s\<rparr>) (cache_insert mem name addr now ttl flags (hc st))"
| "cache_do e n End_insert st = Some (st\<lparr>hc := cache_end_insert (hc st)\<rparr>)"
| "cache_do e n (Find_by_name p name now prot) st = map_option (\<lambda>(_, s). st\<lparr>hc := s\<rparr>) (cache_find_by_name p name now prot (hc st))"
| "cache_do e n (Find_by_addr p addr now prot) st = map_option (\<lambda>(_, s). st\<lparr>hc := s\<rparr>) (cache_find_by_addr p addr now prot (hc st))"
| "cache_do e n (Reload revhashsz hrs no_hosts hosts addn) st = cache_reload e n revhashsz hrs no_hosts hosts addn st"
| "cache_do e n Unhash_dhcp st = Some (cache_unhash_dhcp st)"
| "cache_do e n (Add_dhcp_entry name addr ttd) st = cache_add_dhcp_entry e name addr ttd st"
| "cache_do e n (A_record_from_hosts name now) st = map_option snd (a_record_from_hosts name now st)"

text \<open>What the callers respect: the flags of an insertion, a name where the flags ask for one, names
  that fit into the name buffer, and a packet buffer that holds at least one pointer.\<close>

fun call_ok :: "cache_call \<Rightarrow> bool" where
  "call_ok (Insert mem name addr now ttl flags) \<longleftrightarrow> insertable flags \<and> (flags AND CF_FORWARD \<noteq> 0 \<longrightarrow> name \<noteq> None) \<and>
     (case name of None \<Rightarrow> True | Some n \<Rightarrow> length n < MAXDNAME)"
| "call_ok (Reload revhashsz hrs no_hosts hosts addn) \<longleftrightarrow> 0 < revhashsz"
| "call_ok _ \<longleftrightarrow> True"

lemma hosts_scan_hits:
  assumes "cache_find_by_name p name now CF_IPV4 s = Some (r, s1)" and "length L < n"
    and "\<forall>n \<ge> length L. follow n (\<lambda>c. cache_find_by_name c name now CF_IPV4) r s1 = L"
  shows "hosts_scan n name now p s =
      Some (case find (\<lambda>a. has CF_HOSTS (recs s1 a)) L of None \<Rightarrow> [0, 0, 0, 0] | Some a \<Rightarrow> take 4 (c_addr (recs s1 a)), s1)"
  using assms
proof (induction L arbitrary: n p r s)
  case Nil
  obtain m where m: "n = Suc m" using Nil.prems(2) by (cases n) auto
  have "r = None" by (rule by_name.follow_cases [OF Nil.prems(3)]) simp_all
  then show ?case using Nil.prems(1) m by simp
next
  case (Cons a L)
  obtain m where m: "n = Suc m" "length L < m" using Cons.prems(2) by (cases n) auto
  obtain r' where h: "r = Some a" "cache_find_by_name (Some a) name now CF_IPV4 s1 = Some (r', s1)"
      "\<forall>n \<ge> length L. follow n (\<lambda>c. cache_find_by_name c name now CF_IPV4) r' s1 = L"
    by (rule by_name.follow_cases [OF Cons.prems(3)]) auto
  from Cons.IH [OF h(2) m(2) h(3)] show ?case using Cons.prems(1) m(1) h(1) by simp
qed

lemma find_by_name_sub:
  assumes inv: "hinv st"
  obtains r s' L where "cache_find_by_name None name now prot (hc st) = Some (r, s')" "hinv (st\<lparr>hc := s'\<rparr>)" "length L \<le> brk st"
    "\<forall>n \<ge> length L. follow n (\<lambda>c. cache_find_by_name c name now prot) r s' = L"
    "set L = {a. in_table s' a \<and> name_hit name prot (recs s' a)}"
    "\<forall>a. in_table s' a \<longrightarrow> in_table (hc st) a \<and> recs s' a = (recs (hc st) a)\<lparr>c_next := c_next (recs s' a)\<rparr>"
    "\<forall>a. in_table (hc st) a \<and> kept_hit name prot now (recs (hc st) a) \<longrightarrow> a \<in> set L"
proof -
  let ?s = "hc st"
  have ci: "cache_inv ?s" using inv by (simp add: hinv_def)
  obtain r s' L where f: "cache_find_by_name None name now prot ?s = Some (r, s')" "cache_inv s'" "distinct L"
      "\<forall>n \<ge> length L. follow n (\<lambda>c. cache_find_by_name c name now prot) r s' = L"
      "set L = {a. in_table s' a \<and> name_hit name prot (recs s' a)}"
      "\<forall>a. in_table s' a \<longrightarrow> in_table ?s a \<and> recs s' a = (recs ?s a)\<lparr>c_next := c_next (recs s' a)\<rparr>"
      "\<forall>a. in_table ?s a \<and> kept_hit name prot now (recs ?s a) \<longrightarrow> a \<in> set L"
      "new_ch s' = new_ch ?s" "set (lru s') = set (lru ?s)"
    using cache_find_by_name_post [OF ci, of name now prot] by (elim exE conjE) (rule that, assumption+)
  have t: "\<forall>a \<in> set L. in_table s' a" using f(5) by blast
  have t1: "in_table ?s a" if "in_table s' a" for a using f(6) that by blast
  have "hinv (st\<lparr>hc := s'\<rparr>)" by (rule hinv_sub [OF inv f(2)]) (use t1 f(8,9) in \<open>auto simp: used_def\<close>)
  then show thesis using that f(1,4-7) hits_bounded [OF inv f(3) t t1] by blast
qed

lemma find_by_addr_sub:
  assumes inv: "hinv st"
  shows "\<exists>r s'. cache_find_by_addr None addr now prot (hc st) = Some (r, s') \<and> hinv (st\<lparr>hc := s'\<rparr>)"
proof -
  let ?s = "hc st"
  have ci: "cache_inv ?s" using inv by (simp add: hinv_def)
  obtain r s' where f: "cache_find_by_addr None addr now prot ?s = Some (r, s')" "cache_inv s'"
      "\<forall>a. in_table s' a \<longrightarrow> in_table ?s a" "new_ch s' = new_ch ?s" "set (lru s') = set (lru ?s)"
    using cache_find_by_addr_post [OF ci, of addr now prot] by (elim exE conjE) (rule that, assumption+, blast, assumption+)
  have "hinv (st\<lparr>hc := s'\<rparr>)" by (rule hinv_sub [OF inv f(2)]) (use f(3-5) in \<open>auto simp: used_def\<close>)
  then show ?thesis using f(1) by blast
qed

lemma a_record_from_hosts_inv:
  assumes inv: "hinv st"
  shows "\<exists>addr st'. a_record_from_hosts name now st = Some (addr, st') \<and> hinv st'"
proof -
  obtain r s' L where f: "cache_find_by_name None name now CF_IPV4 (hc st) = Some (r, s')" "hinv (st\<lparr>hc := s'\<rparr>)" "length L \<le> brk st"
    "\<forall>n \<ge> length L. follow n (\<lambda>c. cache_find_by_name c name now CF_IPV4) r s' = L"
    by (rule find_by_name_sub [OF inv, of name now CF_IPV4]) blast
  have "length L < brk st + 1" using f(3) by simp
  from hosts_scan_hits [OF f(1) this f(4)] show ?thesis using f(2) by (simp add: a_record_from_hosts_def)
qed

lemma cache_do_inv:
  assumes e: "env_ok e" "mem_bound M e" "n + M < 2 ^ 32" and inv: "hinv st" and ok: "call_ok c"
  shows "\<exists>st'. cache_do e n c st = Some st' \<and> hinv st'"
proof -
  have ci: "cache_inv (hc st)" using inv by (simp add: hinv_def)
  show ?thesis
  proof (cases c)
    case Start_insert
    have "hinv (st\<lparr>hc := cache_start_insert (hc st)\<rparr>)"
      by (rule hinv_sub [OF inv cache_start_insert_inv(1) [OF ci]]) (rule start_insert_used)
    then show ?thesis using Start_insert by simp
  next
    case End_insert
    have "hinv (st\<lparr>hc := cache_end_insert (hc st)\<rparr>)"
      by (rule hinv_sub [OF inv cache_end_insert_inv [OF ci]]) (rule end_insert_used [OF ci])
    then show ?thesis using End_insert by simp
  next
    case (Insert mem name addr now ttl flags)
    have p: "insertable flags" "flags AND CF_FORWARD \<noteq> 0 \<longrightarrow> name \<noteq> None" "\<forall>n. name = Some n \<longrightarrow> length n < MAXDNAME"
      using ok by (auto simp: Insert split: option.splits)
    obtain r s' where "cache_insert mem name addr now ttl flags (hc st) = Some (r, s')" "cache_inv s'" "\<forall>b. used s' b \<longrightarrow> used (hc st) b"
      using cache_insert_post [OF ci p, of mem addr now ttl] by blast
    then show ?thesis using hinv_sub [OF inv] by (auto simp: Insert)
  next
    case (Find_by_name p name now prot)
    show ?thesis
    proof (cases p)
      case None
      obtain r s' where "cache_find_by_name None name now prot (hc st) = Some (r, s')" "hinv (st\<lparr>hc := s'\<rparr>)"
        by (rule find_by_name_sub [OF inv, of name now prot]) blast
      then show ?thesis by (simp add: Find_by_name None)
    qed (use inv in \<open>simp add: Find_by_name by_name.search_next\<close>)
  next
    case (Find_by_addr p addr now prot)
    show ?thesis
    proof (cases p)
      case None
      then show ?thesis using find_by_addr_sub [OF inv, of addr now prot] by (auto simp: Find_by_addr)
    qed (use inv in \<open>simp add: Find_by_addr by_addr.search_next\<close>)
  next
    case (Reload revhashsz hrs no_hosts hosts addn)
    then show ?thesis using cache_reload_rinv [OF e inv, of revhashsz hrs no_hosts hosts addn] ok by (auto simp: rinv_def)
  next
    case Unhash_dhcp
    then show ?thesis using cache_unhash_dhcp_inv(1) [OF inv] by simp
  next
    case (Add_dhcp_entry name addr ttd)
    then show ?thesis using cache_add_dhcp_entry_post [OF e(1) inv, of name addr ttd] by auto
  next
    case (A_record_from_hosts name now)
    then show ?thesis using a_record_from_hosts_inv [OF inv, of name now] by auto
  qed
qed

text \<open>The module after \<open>cache_init\<close>: the \<open>n\<close> records it allocates come first.\<close>

definition cache_boot :: "nat \<Rightarrow> (nat \<Rightarrow> crec) \<Rightarrow> (nat \<Rightarrow> byte) \<Rightarrow> u32 \<Rightarrow> hst" where
  "cache_boot n rs mix mx = \<lparr>hc = cache_init n (cst_start rs mix mx), brk = n, dhcp_spare = [], rhash = []\<rparr>"

lemma cache_boot_inv: "n < 2 ^ 32 \<Longrightarrow> hinv (cache_boot n rs mix mx)"
  using cache_init_inv [of n rs mix mx] by (auto simp: hinv_def cache_boot_def used_def)

lemma cache_calls_inv:
  assumes e: "env_ok e" "mem_bound M e" "n + M < 2 ^ 32" and "hinv st" and "list_all call_ok cs"
  shows "\<exists>st'. foldM (cache_do e n) cs st = Some st' \<and> hinv st'"
  using assms(4,5)
proof (induction cs arbitrary: st)
  case (Cons c cs)
  obtain st1 where "cache_do e n c st = Some st1" "hinv st1" using cache_do_inv [OF e Cons.prems(1)] Cons.prems(2) by auto
  then show ?case using Cons.IH [of st1] Cons.prems(2) by simp
qed simp

text \<open>The examples: memory for 100 records, the alias ``www'' of ``host'', no DHCP domain; a hosts
  file is read with a fixed address for every dotted token.\<close>

definition hosts_demo_env :: hosts_env where
  "hosts_demo_env = \<lparr>he_mem = (\<lambda>k. k < 100), he_fuel = 3, he_cnames = [\<lparr>cn_alias = bytes_of ''www'', cn_target = bytes_of ''host''\<rparr>],
     he_expand = False, he_domains = [], he_suffix = None, he_pton = (\<lambda>t. if 46 \<in> set t then Some 0x0A000001 else None)\<rparr>"

lemma hosts_demo_env_ok: "env_ok hosts_demo_env" "mem_bound 100 hosts_demo_env"
proof -
  have "aliases_ok (\<lambda>_. 0) (he_cnames hosts_demo_env)" by code_simp
  then show "env_ok hosts_demo_env" unfolding env_ok_def by (intro conjI exI [of _ "\<lambda>_. 0"]) (simp_all add: hosts_demo_env_def)
qed (simp add: mem_bound_def hosts_demo_env_def)

definition host_rec :: crec where
  "host_rec = \<lparr>c_flags = CF_HOSTS OR CF_IMMORTAL OR CF_FORWARD OR CF_IPV4,
     c_name = bytes_of ''host'', c_addr = [10, 0, 0, 9], cn_cache = None, cn_uid = 0, c_ttd = 0, c_uid = 0, c_next = None\<rparr>"

lemma host_rec_ok: "live_rec host_rec" "fixed_rec host_rec"
  by (simp_all add: host_rec_def demo_rec_flags)

definition demo_hst :: hst where
  "demo_hst = hash_rec 8 host_rec \<lparr>hc = small_cache, brk = 9, dhcp_spare = [], rhash = []\<rparr>"

lemma small_used: "used small_cache a \<longleftrightarrow> a < 8"
  unfolding small_cache_def using cache_init_inv [of 8] by (auto simp: used_def)

lemma small_hst: "hinv \<lparr>hc = small_cache, brk = 9, dhcp_spare = [], rhash = []\<rparr>"
  by (simp add: hinv_def small_cache_inv small_used)

lemma demo_hst_props: "hinv demo_hst" "in_table (hc demo_hst) 8" "blocks_lease (bytes_of ''HOST'') (recs (hc demo_hst) 8)"
  "has CF_IMMORTAL (recs (hc demo_hst) 8)"
proof -
  have "fresh \<lparr>hc = small_cache, brk = 9, dhcp_spare = [], rhash = []\<rparr> 8" by (simp add: fresh_def small_used)
  note h = hash_rec_inv [OF small_hst this host_rec_ok, folded demo_hst_def]
  show "hinv demo_hst" by (rule h(1))
  show "in_table (hc demo_hst) 8" by (simp add: h(3))
  show "blocks_lease (bytes_of ''HOST'') (recs (hc demo_hst) 8)" "has CF_IMMORTAL (recs (hc demo_hst) 8)"
    by (simp_all add: h(2)) code_simp+
qed

text \<open>C4.  Let the aliases of the configuration be acyclic (\<open>env_ok\<close>), the memory for records be bounded, inserted
  names be shorter than 1025 bytes and the flags of an insertion be those of a learnt record.  Whatever is called on the cache from its initialisation on, in any order (learnt records
  inserted or given up, searches started and continued, hosts files reloaded, leases entered and
  withdrawn), every call returns and the invariant holds: every record stands in at most one place
  (the recency list, the pending insertion, a chain of the hash table, the spare records of DHCP), the
  chains are those of the names' hashes and in order, and learnt records are in the table exactly
  when they are live.\<close>

theorem cache_calls_total:
  assumes "env_ok e" "mem_bound M e" "n + M < 2 ^ 32" and "list_all call_ok cs"
  shows "\<exists>st. foldM (cache_do e n) cs (cache_boot n rs mix mx) = Some st \<and> hinv st"
  using cache_calls_inv [OF assms(1-3) cache_boot_inv [of n rs mix mx] assms(4)] assms(3) by simp

theorem cache_calls_total_witness:
  "\<exists>st. foldM (cache_do hosts_demo_env 8)
      [Reload 64 [] False (Some (bytes_of ''10.0.0.1 host # comment'')) [], Start_insert,
       Insert True (Some (bytes_of ''other'')) (Some [1, 2, 3, 4]) 100 60 (CF_FORWARD OR CF_IPV4), End_insert,
       Add_dhcp_entry (bytes_of ''lease'') [10, 0, 0, 7] 0, Find_by_name None (bytes_of ''other'') 110 CF_IPV4, Unhash_dhcp,
       Reload 64 [] True None []]
      (cache_boot 8 (\<lambda>_. freed 0 (recs small_cache 0)) (\<lambda>_. 0) 0) = Some st \<and> hinv st"
  by (rule cache_calls_total [OF hosts_demo_env_ok]) (simp, code_simp)

lemma reload_find_by_name:
  assumes "rinv st"
  shows "\<exists>r s. cache_find_by_name None name now prot (hc st) = Some (r, s) \<and>
     (\<forall>a \<in> set (follow (brk st) (\<lambda>c. cache_find_by_name c name now prot) r s). has CF_HOSTS (recs s a) \<or> has CF_DHCP (recs s a))"
proof -
  have inv: "hinv st" using assms by (simp add: rinv_def)
  obtain p s L where f: "cache_find_by_name None name now prot (hc st) = Some (p, s)" "length L \<le> brk st"
      "\<forall>n \<ge> length L. follow n (\<lambda>c. cache_find_by_name c name now prot) p s = L" "set L = {a. in_table s a \<and> name_hit name prot (recs s a)}"
      "\<forall>a. in_table s a \<longrightarrow> in_table (hc st) a \<and> recs s a = (recs (hc st) a)\<lparr>c_next := c_next (recs s a)\<rparr>"
    by (rule find_by_name_sub [OF inv, of name now prot])
  have "fixed_rec (recs s a)" if "in_table s a" for a
    using f(5) that assms fixed_next unfolding rinv_def by metis
  then have "\<forall>a \<in> set L. has CF_HOSTS (recs s a) \<or> has CF_DHCP (recs s a)" using f(4) by (auto simp: fixed_split)
  moreover have "follow (brk st) (\<lambda>c. cache_find_by_name c name now prot) p s = L" using f(2,3) by blast
  ultimately show ?thesis using f(1) by auto
qed

lemma reload_find_by_addr:
  assumes "rinv st"
  shows "\<exists>r s. cache_find_by_addr None addr now prot (hc st) = Some (r, s) \<and>
     (\<forall>a \<in> set (follow (brk st) (\<lambda>c. cache_find_by_addr c addr now prot) r s). has CF_HOSTS (recs s a) \<or> has CF_DHCP (recs s a))"
proof -
  have inv: "hinv st" and ci: "cache_inv (hc st)" using assms by (simp_all add: rinv_def hinv_def)
  obtain p s L where f: "cache_find_by_addr None addr now prot (hc st) = Some (p, s)" "distinct L"
      "\<forall>n \<ge> length L. follow n (\<lambda>c. cache_find_by_addr c addr now prot) p s = L" "set L = {a. in_table s a \<and> rev_hit addr prot (recs s a)}"
      "\<forall>a. in_table s a \<longrightarrow> in_table (hc st) a \<and> recs s a = (recs (hc st) a)\<lparr>c_next := c_next (recs s a)\<rparr>"
    using cache_find_by_addr_post [OF ci, of addr now prot] by (elim exE conjE) (rule that, assumption+)
  have "fixed_rec (recs s a)" if "in_table s a" for a
    using f(5) that assms fixed_next unfolding rinv_def by metis
  then have "\<forall>a \<in> set L. has CF_HOSTS (recs s a) \<or> has CF_DHCP (recs s a)" using f(4) by (auto simp: fixed_split)
  moreover have "length L \<le> brk st" using f(4,5) by (intro hits_bounded [OF inv f(2)]) blast+
  then have "follow (brk st) (\<lambda>c. cache_find_by_addr c addr now prot) p s = L" using f(3) by blast
  ultimately show ?thesis using f(1) by auto
qed

text \<open>C22.  A reload returns, keeps the invariant and forgets what was learnt: every answer of a search by name
  or by address in the cache it leaves is a record of a hosts file or of DHCP.  The aliases are acyclic
  (\<open>env_ok\<close>), and the memory that the records of the hosts files need is bounded.\<close>

theorem reload_forgets_learnt:
  assumes "env_ok e" "mem_bound M e" "cachesize + M < 2 ^ 32" and "hinv st" and "0 < revhashsz"
  shows "\<exists>st'. cache_reload e cachesize revhashsz hrs no_hosts hosts addn st = Some st' \<and> hinv st' \<and>
     (\<forall>name now prot. \<exists>r s. cache_find_by_name None name now prot (hc st') = Some (r, s) \<and>
        (\<forall>a \<in> set (follow (brk st') (\<lambda>c. cache_find_by_name c name now prot) r s). has CF_HOSTS (recs s a) \<or> has CF_DHCP (recs s a))) \<and>
     (\<forall>addr now prot. \<exists>r s. cache_find_by_addr None addr now prot (hc st') = Some (r, s) \<and>
        (\<forall>a \<in> set (follow (brk st') (\<lambda>c. cache_find_by_addr c addr now prot) r s). has CF_HOSTS (recs s a) \<or> has CF_DHCP (recs s a)))"
proof -
  obtain st' where r: "cache_reload e cachesize revhashsz hrs no_hosts hosts addn st = Some st'" "rinv st'"
    using cache_reload_rinv [OF assms] by blast
  have "hinv st'" using r(2) by (simp add: rinv_def)
  then show ?thesis using r(1) reload_find_by_name [OF r(2)] reload_find_by_addr [OF r(2)] by blast
qed

theorem reload_forgets_learnt_witness:
  "\<exists>st'. cache_reload hosts_demo_env 8 64 [] False (Some (bytes_of ''10.0.0.1 host'')) [] demo_hst = Some st' \<and> hinv st' \<and>
     (\<forall>name now prot. \<exists>r s. cache_find_by_name None name now prot (hc st') = Some (r, s) \<and>
        (\<forall>a \<in> set (follow (brk st') (\<lambda>c. cache_find_by_name c name now prot) r s). has CF_HOSTS (recs s a) \<or> has CF_DHCP (recs s a))) \<and>
     (\<forall>addr now prot. \<exists>r s. cache_find_by_addr None addr now prot (hc st') = Some (r, s) \<and>
        (\<forall>a \<in> set (follow (brk st') (\<lambda>c. cache_find_by_addr c addr now prot) r s). has CF_HOSTS (recs s a) \<or> has CF_DHCP (recs s a)))"
  by (rule reload_forgets_learnt [OF hosts_demo_env_ok _ demo_hst_props(1)]) simp_all

text \<open>C24.  A lease never takes a name that a hosts file gives an address: nothing is added to the
  table, for whatever address the lease is.\<close>

theorem lease_respects_hosts:
  assumes "env_ok e" and "hinv st" and "in_table (hc st) a" and "blocks_lease name (recs (hc st) a)" and "has CF_IMMORTAL (recs (hc st) a)"
  shows "\<exists>st'. cache_add_dhcp_entry e name addr ttd st = Some st' \<and> hinv st' \<and> (\<forall>b. in_table (hc st') b \<longrightarrow> in_table (hc st) b)"
proof -
  have "\<not> is_expired 0 (recs (hc st) a)" using assms(5) by (simp add: is_expired_def)
  then show ?thesis using cache_add_dhcp_entry_post [OF assms(1,2), of name addr ttd] assms(3,4) by blast
qed

theorem lease_respects_hosts_witness:
  "\<exists>st'. cache_add_dhcp_entry hosts_demo_env (bytes_of ''HOST'') [10, 0, 0, 7] 0 demo_hst = Some st' \<and> hinv st' \<and>
     (\<forall>b. in_table (hc st') b \<longrightarrow> in_table (hc demo_hst) b)"
  by (rule lease_respects_hosts [OF hosts_demo_env_ok(1) demo_hst_props])

text \<open>C23.  A lease whose name no hosts file gives an address is found under its name, with its address,
  until it ends; a record for it comes from the spare ones or from memory.\<close>

theorem lease_is_found:
  assumes "env_ok e" and "hinv st" and "\<forall>a. in_table (hc st) a \<longrightarrow> \<not> blocks_lease name (recs (hc st) a)"
    and "dhcp_spare st \<noteq> [] \<or> he_mem e (brk st)" and "ttd = 0 \<or> now < ttd"
  shows "\<exists>st' r s a. cache_add_dhcp_entry e name addr ttd st = Some st' \<and> hinv st' \<and>
     cache_find_by_name None name now CF_IPV4 (hc st') = Some (r, s) \<and>
     a \<in> set (follow (brk st') (\<lambda>c. cache_find_by_name c name now CF_IPV4) r s) \<and> c_addr (recs s a) = addr \<and> has CF_DHCP (recs s a)"
proof -
  obtain st' a where st': "cache_add_dhcp_entry e name addr ttd st = Some st'" "hinv st'" "in_table (hc st') a" "lease_rec name addr ttd (recs (hc st') a)"
    using cache_add_dhcp_entry_post [OF assms(1,2), of name addr ttd] assms(3,4) by blast
  obtain p s L where f: "cache_find_by_name None name now CF_IPV4 (hc st') = Some (p, s)" "length L \<le> brk st'"
      "\<forall>n \<ge> length L. follow n (\<lambda>c. cache_find_by_name c name now CF_IPV4) p s = L" "set L = {a. in_table s a \<and> name_hit name CF_IPV4 (recs s a)}"
      "\<forall>a. in_table s a \<longrightarrow> in_table (hc st') a \<and> recs s a = (recs (hc st') a)\<lparr>c_next := c_next (recs s a)\<rparr>"
      "\<forall>a. in_table (hc st') a \<and> kept_hit name CF_IPV4 now (recs (hc st') a) \<longrightarrow> a \<in> set L"
    by (rule find_by_name_sub [OF st'(2), of name now CF_IPV4])
  have "kept_hit name CF_IPV4 now (recs (hc st') a)"
    using st'(4) assms(5) by (auto simp: lease_rec_def kept_hit_def name_hit_def cache_get_name_def strcaseeq_def)
  then have a: "a \<in> set L" using f(6) st'(3) by blast
  then have e: "recs s a = (recs (hc st') a)\<lparr>c_next := c_next (recs s a)\<rparr>" using f(4,5) by blast
  have "c_addr (recs s a) = addr" using st'(4) by (subst e) (simp add: lease_rec_def)
  moreover have "has CF_DHCP (recs s a)" using st'(4) by (subst e) (simp add: lease_rec_def)
  moreover have "follow (brk st') (\<lambda>c. cache_find_by_name c name now CF_IPV4) p s = L" using f(2,3) by blast
  ultimately show ?thesis using st'(1,2) f(1) a by blast
qed

theorem lease_is_found_witness:
  "\<exists>st' r s a. cache_add_dhcp_entry hosts_demo_env (bytes_of ''lease'') [10, 0, 0, 7] 1000 \<lparr>hc = small_cache, brk = 9, dhcp_spare = [], rhash = []\<rparr> = Some st' \<and>
     hinv st' \<and> cache_find_by_name None (bytes_of ''lease'') 500 CF_IPV4 (hc st') = Some (r, s) \<and>
     a \<in> set (follow (brk st') (\<lambda>c. cache_find_by_name c (bytes_of ''lease'') 500 CF_IPV4) r s) \<and>
     c_addr (recs s a) = [10, 0, 0, 7] \<and> has CF_DHCP (recs s a)"
proof -
  have "\<not> in_table small_cache a" for a unfolding small_cache_def by (rule cache_init_inv) simp
  then show ?thesis by (intro lease_is_found [OF hosts_demo_env_ok(1) small_hst]) (simp_all add: hosts_demo_env_def)
qed

end
