(* ===== verification/Spec2Isabelle.thy ===== *)
theory Spec2Isabelle
  imports Dnrd_Relay Rinetd_Conn Dnsmasq_Exchange Dnsmasq_Reload
begin

text \<open>
  CrossBreeder bundles network daemons in C.  This development verifies the DNS relay dnrd
  (\<open>src/dnrd-2.20.3/src\<close>), the TCP redirector rinetd (\<open>src/rinetd\<close>), and of dnsmasq
  (\<open>src/dnsmasq/.../src\<close>) the code on names, packets, the cache and the forwarding of queries.

  \<^bold>\<open>The parts of dnrd.\<close>  The main loop of relay.c waits for packets.  A request (udp.c) is checked
  (check.c), decoded (dns.c), answered from the cache (cache.c) or from the master database
  (master.c), or forwarded to a server of the domain it belongs to (domnode.c, srvnode.c) under a
  fresh id (qid.c, rand.c), and kept as a pending query (query.c) until the reply comes or times
  out.

  \<^item> CB_Prelude: bytes, memory access as \<^const>\<open>peek\<close> and \<^const>\<open>poke\<close> that fail out of range,
    network order, the functions of ctype.h, \<^const>\<open>fgets\<close>, \<^const>\<open>foldM\<close>, and a locale for linked
    collections that can be extended and unlinked.
  \<^item> Dnrd_Lib (lib.c), Dnrd_Common (common.c): string helpers, conversion of domain names.
  \<^item> Dnrd_Dns (dns.c, dns.h, check.c): \<^const>\<open>get_objname\<close> is memory safe and decodes exactly the
    well-formed names; questions and records.
  \<^item> Dnrd_Servers (srvnode.c, domnode.c): circular lists of servers and domains; choice of the
    next active server and of the longest matching domain.
  \<^item> Dnrd_Cache (cache.c): the doubly linked list with its pointers in an explicit heap refines
    an abstract list of responses, through insertion, lookup and expiry.
  \<^item> Dnrd_Qid (qid.c, rand.c): the pool of ids over the ISAAC generator.
  \<^item> Dnrd_Query (query.c): pending queries, their sockets and ids.
  \<^item> Dnrd_Master_Db, Dnrd_Master (master.c): reading the hosts file, the configuration and the
    blacklist; assembling answers.
  \<^item> Dnrd_Relay (relay.c, udp.c): the composition.  One pass of the main loop keeps the invariant
    of all parts together; a reply reaches the right client; forwarding ends.

  \<^bold>\<open>The parts of rinetd.\<close>  readConfiguration reads forwarding, allow and deny rules; selectPass accepts
  clients, checks their address against the rules with the matcher of match.c, connects to the
  local server and relays in both directions.

  \<^item> Rinetd_Match (match.c): the matcher is equivalent to a declarative definition of globbing, for patterns
    whose question marks do not lead it behind the end of the text.
  \<^item> Rinetd_Config (rinetd.c, readConfiguration): the parallel arrays that the two passes over the
    file fill represent the rule set that the lines describe according to the manual page rinetd.8, as long as no rule
    that cannot be set up has patterns of its own; where it has, the code and the manual page differ.
  \<^item> Rinetd_Conn (rinetd.c, selectPass and the handlers): the buffer between two sockets is an
    interface, interpreted for both directions; any number of passes relays faithfully, and the
    allow rules alone decide which client reaches the local server.

  \<^bold>\<open>The parts of dnsmasq.\<close>  A query or reply is taken apart by the functions of rfc1035.c; answers come
  from the cache of cache.c, in which replies of upstream servers, the hosts file and DHCP leases meet.

  \<^item> Dnsmasq_Util (util.c): the random generator, checks and wire format of names, hardware addresses
    in text, complete reads and writes.
  \<^item> Dnsmasq_Names (rfc1035.c): \<^const>\<open>extract_name\<close> against a relational definition of compressed names,
    in decoding and comparing mode, with what it does on bit-string labels; the round trip
    with \<^const>\<open>do_rfc1035_name\<close>; names of \<open>in-addr.arpa\<close>.
  \<^item> Dnsmasq_Packet (rfc1035.c): walking over the sections, the checksum of the questions, the EDNS
    pseudo record, rewriting of answers, assembling of replies.
  \<^item> Dnsmasq_Cache, Dnsmasq_Cache_Ops (cache.c): the hash table with its ordered chains, the list of
    recency and the transactions of insertion.  The invariant ties chains, list and pending
    records together and is kept by every operation; the two searches are instances of one
    interface.  A committed record is found right after its transaction, until it expires, and records of the hosts
    file and of DHCP are never overridden.  Expiry times are sums in the 32-bit \<open>time_t\<close> of the target.
  \<^item> Dnsmasq_Hosts, Dnsmasq_Reload (cache.c): hosts files are read token by token into records with their aliases,
    \<open>cache_reload\<close> throws away what was learnt, DHCP leases come and go.  Memory is a counter of
    addresses with a predicate that tells which allocations succeed.  Adding the aliases of a record is one interface
    for hosts files and DHCP.  The walks along the table by address end because every chain does,
    which is an inductive predicate; any sequence of calls on the cache returns and keeps the
    invariant.

  \<^item> Dnsmasq_Reply (rfc1035.c, forward.c): \<^const>\<open>extract_addresses\<close> takes the records out of a reply and
    follows its aliases, \<^const>\<open>process_reply\<close> prepares the packet for the client around it.  Arbitrary bytes are taken in
    without leaving the buffers and with the invariant of the cache kept; a well-formed reply is
    found in the cache afterwards; private addresses reach neither the cache nor the client
    when addresses are checked.  The limit of five restarts at aliases is that of the code.

  \<^item> Dnsmasq_Forward, Dnsmasq_Table, Dnsmasq_Exchange (forward.c): the table of forwarded queries with its sockets on
    random ports, the choice of the servers for a name, \<^const>\<open>forward_query\<close> and \<^const>\<open>reply_query\<close>.  Table shows that
    taking and freeing records keeps every socket counted exactly and ids distinct; Exchange that queries and
    replies do so in any order, that a query goes to the servers of the longest domain, and that a reply goes to the
    client that asked, under its id.

  \<^bold>\<open>Conventions.\<close>  State is passed explicitly in records.  A function whose C code could read or write out of range, read an
  uninitialised value or fail an assertion returns an option, \<^const>\<open>None\<close> being that undefined or
  aborted run; a theorem that a function returns \<^const>\<open>Some\<close> is a theorem of memory safety and
  termination.  What the operating system answers is a parameter: the records of environments hold
  the results of system calls and name lookups, and predicates such as \<^const>\<open>pass_ok\<close> state what is
  assumed of them.  Machine integers are words where wrapping matters.  Every loop is
  a terminating recursion, except for \<^const>\<open>send_loop\<close>, which may run forever and is a partial function
  into option (that it ends, and when it does not, are theorems), and \<^const>\<open>get_id\<close> of dnsmasq, which
  draws random ids until one is free (it returns as soon as the generator yields such an id).  In Dnsmasq_Hosts
  the walks along pointers have fuel, one step more than there are records, and the nesting of aliases has the
  fuel \<open>he_fuel\<close>, which \<open>env_ok\<close> demands to exceed the depth of the configured aliases; that this is
  enough is part of the theorems, and aliases in a cycle exceed every fuel.

  \<^bold>\<open>Not modelled.\<close>  Allocation always succeeds in dnrd and in readConfiguration.  Logging to syslog, option
  parsing, daemon start, pid files and signals are left out, and so is the TCP relay of dnrd, which
  the configuration of the build leaves out (\<open>ENABLE_TCP\<close> is undefined).  Of dnsmasq, the configuration parser, DHCP,
  TFTP and router advertisement are left out, and so are receive_query and tcp_request, which receive queries,
  answer_request, which makes answers out of the cache and the configuration, and all code under \<open>HAVE_IPV6\<close> and
  \<open>HAVE_CONNTRACK\<close>; whether a sendto to a server succeeds, after its repetitions, is a parameter.  The other programs of the repository are outside: haveged
  depends on the timing of the processor, pixelserv and dnsc are small programs around system calls,
  popen_noshell and the lock helpers consist of system calls, and dnsproxy2 is in binary form only.
\<close>

end
